(* ===== verification/TableSpec.thy ===== *)
theory TableSpec
  imports Prelude
begin

text \<open>
  The interface between the hash map and its clients (the schema parser, the validator, the
  compatibility checker): a table with find, insert and delete that behaves as a finite map. The
  client facts are proved once here, from the laws alone.
\<close>

section \<open>Operations as data\<close>

datatype ('k, 'v) table_op = Insert 'k 'v | Delete 'k | Find 'k

type_synonym ('k, 'v, 'm) table_ops =
  "('m \<Rightarrow> 'k \<Rightarrow> int \<times> 'v option) \<times> ('m \<Rightarrow> 'k \<Rightarrow> 'v \<Rightarrow> int \<times> 'm) \<times> ('m \<Rightarrow> 'k \<Rightarrow> int \<times> 'm)"

text \<open>One operation: its return code, the value it looked up, and the next table.\<close>

fun table_step :: "('k, 'v, 'm) table_ops \<Rightarrow> 'm \<Rightarrow> ('k, 'v) table_op \<Rightarrow> (int \<times> 'v option) \<times> 'm" where
  "table_step (f, i, d) m (Insert k v) = (case i m k v of (r, m') \<Rightarrow> ((r, None), m'))"
| "table_step (f, i, d) m (Delete k) = (case d m k of (r, m') \<Rightarrow> ((r, None), m'))"
| "table_step (f, i, d) m (Find k) = (f m k, m)"

fun table_run ::
  "('k, 'v, 'm) table_ops \<Rightarrow> 'm \<Rightarrow> ('k, 'v) table_op list \<Rightarrow> (int \<times> 'v option) list \<times> 'm" where
  "table_run ops m [] = ([], m)"
| "table_run ops m (x # xs) =
     (case table_step ops m x of (r, m') \<Rightarrow>
        (case table_run ops m' xs of (rs, m'') \<Rightarrow> (r # rs, m'')))"

text \<open>The reference: the same operations on a finite map, with the codes 0, 1 and -1.\<close>

definition map_ops :: "('k, 'v, 'k \<Rightarrow> 'v option) table_ops" where
  "map_ops =
     ((\<lambda>m k. case m k of Some v \<Rightarrow> (0, Some v) | None \<Rightarrow> (-1, None)),
      (\<lambda>m k v. if m k = None then (0, m(k \<mapsto> v)) else (1, m)),
      (\<lambda>m k. if m k = None then (-1, m) else (0, m(k := None))))"

section \<open>The contract\<close>

locale symbol_table =
  fixes find :: "'m \<Rightarrow> 'k \<Rightarrow> int \<times> 'v option"
    and insert :: "'m \<Rightarrow> 'k \<Rightarrow> 'v \<Rightarrow> int \<times> 'm"
    and delete :: "'m \<Rightarrow> 'k \<Rightarrow> int \<times> 'm"
    and abs :: "'m \<Rightarrow> 'k \<Rightarrow> 'v option"
    and inv :: "'m \<Rightarrow> bool"
  assumes find_spec:
      "inv m \<Longrightarrow> find m k = (case abs m k of Some v \<Rightarrow> (0, Some v) | None \<Rightarrow> (-1, None))"
    and insert_fresh:
      "inv m \<Longrightarrow> abs m k = None \<Longrightarrow> \<exists>m'. insert m k v = (0, m') \<and> inv m' \<and> abs m' = (abs m)(k \<mapsto> v)"
    and insert_dup:
      "inv m \<Longrightarrow> abs m k = Some w \<Longrightarrow> \<exists>m'. insert m k v = (1, m') \<and> inv m' \<and> abs m' = abs m"
    and delete_absent:
      "inv m \<Longrightarrow> abs m k = None \<Longrightarrow> \<exists>m'. delete m k = (-1, m') \<and> inv m' \<and> abs m' = abs m"
    and delete_present:
      "inv m \<Longrightarrow> abs m k = Some w \<Longrightarrow> \<exists>m'. delete m k = (0, m') \<and> inv m' \<and> abs m' = (abs m)(k := None)"
begin

lemma step_refines:
  assumes "inv m"
  shows "\<exists>m'. table_step (find, insert, delete) m x = (fst (table_step map_ops (abs m) x), m')
           \<and> inv m' \<and> abs m' = snd (table_step map_ops (abs m) x)"
proof (cases x)
  case (Insert k v)
  with assms insert_fresh [of m k v] insert_dup [of m k _ v] show ?thesis
    by (cases "abs m k") (fastforce simp: map_ops_def)+
next
  case (Delete k)
  with assms delete_absent [of m k] delete_present [of m k] show ?thesis
    by (cases "abs m k") (fastforce simp: map_ops_def)+
next
  case (Find k)
  with assms find_spec [of m k] show ?thesis by (simp add: map_ops_def)
qed

lemma run_refines:
  assumes "inv m"
  shows "\<exists>m'. table_run (find, insert, delete) m xs = (fst (table_run map_ops (abs m) xs), m')
           \<and> inv m' \<and> abs m' = snd (table_run map_ops (abs m) xs)"
  using assms
proof (induction xs arbitrary: m)
  case (Cons x xs)
  obtain m' where m': "table_step (find, insert, delete) m x = (fst (table_step map_ops (abs m) x), m')"
    "inv m'" "abs m' = snd (table_step map_ops (abs m) x)"
    using step_refines [OF Cons.prems, of x] by blast
  obtain m'' where "table_run (find, insert, delete) m' xs = (fst (table_run map_ops (abs m') xs), m'')"
    "inv m''" "abs m'' = snd (table_run map_ops (abs m') xs)"
    using Cons.IH [OF m'(2)] by blast
  with m' show ?case by (auto split: prod.splits)
qed simp

lemma found_after_insert:
  assumes "inv m" and "insert m k v = (0, m')"
  shows "find m' k = (0, Some v)"
proof -
  have "abs m k = None"
    using assms insert_dup [OF assms(1), of k _ v] by (cases "abs m k") auto
  then show ?thesis using insert_fresh [OF assms(1), of k v] assms(2) find_spec by fastforce
qed

lemma others_kept_by_insert:
  assumes "inv m" and "insert m k v = (r, m')" and "k' \<noteq> k"
  shows "find m' k' = find m k'"
  using assms insert_fresh [OF assms(1), of k v] insert_dup [OF assms(1), of k _ v]
  by (cases "abs m k") (auto simp: find_spec)

lemma first_insert_wins:
  assumes "inv m" and "insert m k v = (r, m')"
  shows "\<exists>m''. insert m' k w = (1, m'') \<and> find m'' k = find m' k"
proof -
  have "inv m' \<and> (\<exists>u. abs m' k = Some u)"
    using assms insert_fresh [OF assms(1), of k v] insert_dup [OF assms(1), of k _ v]
    by (cases "abs m k") auto
  then show ?thesis using insert_dup find_spec by metis
qed

end

end
