(* ===== verification/HashMap.thy ===== *)
theory HashMap
  imports TableSpec
begin

text \<open>
  \<open>src/utils/hash_map.c\<close>: a chained hash table with caller-supplied hash and comparison
  functions. A bucket is the list of its chain's entries, head first; the table is the list of
  its buckets. The free callbacks only release memory and are not part of the state.
\<close>

section \<open>State and return codes\<close>

definition HASH_MAP_OK :: int where "HASH_MAP_OK = 0"
definition HASH_MAP_DUPLICATE_KEY :: int where "HASH_MAP_DUPLICATE_KEY = 1"
definition HASH_MAP_ERROR :: int where "HASH_MAP_ERROR = -1"
definition JSON_GEN_SUCCESS :: int where "JSON_GEN_SUCCESS = 0"
definition JSON_GEN_ERROR_MEMORY :: int where "JSON_GEN_ERROR_MEMORY = -2"
definition JSON_GEN_ERROR_PARSE :: int where "JSON_GEN_ERROR_PARSE = -4"
definition JSON_GEN_ERROR_INVALID_PARAM :: int where "JSON_GEN_ERROR_INVALID_PARAM = -5"
definition JSON_GEN_ERROR_NOT_FOUND :: int where "JSON_GEN_ERROR_NOT_FOUND = -8"

lemmas hash_map_codes = HASH_MAP_OK_def HASH_MAP_DUPLICATE_KEY_def HASH_MAP_ERROR_def
  JSON_GEN_SUCCESS_def JSON_GEN_ERROR_MEMORY_def JSON_GEN_ERROR_INVALID_PARAM_def

record ('k, 'v) hash_map =
  buckets :: "('k \<times> 'v) list list"
  bucket_count :: nat
  map_size :: nat
  hash_func :: "'k \<Rightarrow> u32"
  key_cmp_func :: "'k \<Rightarrow> 'k \<Rightarrow> int"

section \<open>Operations\<close>

definition hash_map_new ::
  "nat \<Rightarrow> ('k \<Rightarrow> u32) \<Rightarrow> ('k \<Rightarrow> 'k \<Rightarrow> int) \<Rightarrow> ('k, 'v) hash_map" where
  "hash_map_new n h cmp = \<lparr>buckets = replicate n [], bucket_count = n, map_size = 0,
     hash_func = h, key_cmp_func = cmp\<rparr>"

text \<open>\<open>map->hash_func(key) % n\<close> on unsigned integers.\<close>

definition bucket_index :: "('k \<Rightarrow> u32) \<Rightarrow> nat \<Rightarrow> 'k \<Rightarrow> nat" where
  "bucket_index h n k = unat (h k) mod n"

text \<open>One step of the rehash loop: the entry becomes the head of its new chain.\<close>

definition rehash_entry ::
  "('k \<Rightarrow> u32) \<Rightarrow> nat \<Rightarrow> 'k \<times> 'v \<Rightarrow> ('k \<times> 'v) list list \<Rightarrow> ('k \<times> 'v) list list" where
  "rehash_entry h n e bs = (let i = bucket_index h n (fst e) in bs[i := e # bs ! i])"

definition rehash ::
  "('k \<Rightarrow> u32) \<Rightarrow> nat \<Rightarrow> ('k \<times> 'v) list list \<Rightarrow> ('k \<times> 'v) list list" where
  "rehash h n old = fold (rehash_entry h n) (concat old) (replicate n [])"

text \<open>
  \<open>hash_map_resize_if_needed\<close>. The quotient of two 31-bit counts, computed in double precision,
  is below 0.75 exactly when \<open>4 * size < 3 * bucket_count\<close>. The flag says whether \<open>malloc\<close>
  succeeds; \<open>None\<close> is the null map.
\<close>

definition hash_map_resize_if_needed ::
  "bool \<Rightarrow> ('k, 'v) hash_map option \<Rightarrow> int \<times> ('k, 'v) hash_map option" where
  "hash_map_resize_if_needed alloc_ok mo = (case mo of
     None \<Rightarrow> (JSON_GEN_ERROR_INVALID_PARAM, None)
   | Some m \<Rightarrow>
       if 4 * map_size m < 3 * bucket_count m then (JSON_GEN_SUCCESS, Some m)
       else if \<not> alloc_ok then (JSON_GEN_ERROR_MEMORY, Some m)
       else (JSON_GEN_SUCCESS,
             Some (m\<lparr>buckets := rehash (hash_func m) (bucket_count m * 2) (buckets m),
                     bucket_count := bucket_count m * 2\<rparr>)))"

text \<open>Walking a chain for a key: the \<open>while (entry)\<close> loop of find, insert and delete.\<close>

fun chain_find :: "('k \<Rightarrow> 'k \<Rightarrow> int) \<Rightarrow> 'k \<Rightarrow> ('k \<times> 'v) list \<Rightarrow> 'v option" where
  "chain_find cmp k [] = None"
| "chain_find cmp k ((k', v) # es) = (if cmp k' k = 0 then Some v else chain_find cmp k es)"

fun chain_delete :: "('k \<Rightarrow> 'k \<Rightarrow> int) \<Rightarrow> 'k \<Rightarrow> ('k \<times> 'v) list \<Rightarrow> ('k \<times> 'v) list option" where
  "chain_delete cmp k [] = None"
| "chain_delete cmp k ((k', v) # es) =
     (if cmp k' k = 0 then Some es else map_option (Cons (k', v)) (chain_delete cmp k es))"

definition hash_map_insert ::
  "bool \<Rightarrow> bool \<Rightarrow> ('k, 'v) hash_map option \<Rightarrow> 'k option \<Rightarrow> 'v \<Rightarrow> int \<times> ('k, 'v) hash_map option" where
  "hash_map_insert resize_ok entry_ok mo ko v = (case (mo, ko) of
     (Some m0, Some k) \<Rightarrow>
       (case hash_map_resize_if_needed resize_ok (Some m0) of
          (r, Some m) \<Rightarrow>
            if r \<noteq> JSON_GEN_SUCCESS then (r, Some m)
            else (let i = bucket_index (hash_func m) (bucket_count m) k;
                      chain = buckets m ! i
                  in case chain_find (key_cmp_func m) k chain of
                       Some _ \<Rightarrow> (HASH_MAP_DUPLICATE_KEY, Some m)
                     | None \<Rightarrow>
                         if \<not> entry_ok then (JSON_GEN_ERROR_MEMORY, Some m)
                         else (HASH_MAP_OK,
                               Some (m\<lparr>buckets := (buckets m)[i := (k, v) # chain],
                                       map_size := map_size m + 1\<rparr>)))
        | (r, None) \<Rightarrow> (r, None))
   | _ \<Rightarrow> (JSON_GEN_ERROR_INVALID_PARAM, mo))"

text \<open>\<open>hash_map_find\<close>: the code and the value stored through the out parameter, if any.\<close>

definition hash_map_find :: "('k, 'v) hash_map \<Rightarrow> 'k \<Rightarrow> int \<times> 'v option" where
  "hash_map_find m k =
     (case chain_find (key_cmp_func m) k
             (buckets m ! bucket_index (hash_func m) (bucket_count m) k) of
        Some v \<Rightarrow> (HASH_MAP_OK, Some v)
      | None \<Rightarrow> (HASH_MAP_ERROR, None))"

definition hash_map_delete :: "('k, 'v) hash_map \<Rightarrow> 'k \<Rightarrow> int \<times> ('k, 'v) hash_map" where
  "hash_map_delete m k =
     (let i = bucket_index (hash_func m) (bucket_count m) k
      in case chain_delete (key_cmp_func m) k (buckets m ! i) of
           Some chain \<Rightarrow>
             (HASH_MAP_OK, m\<lparr>buckets := (buckets m)[i := chain], map_size := map_size m - 1\<rparr>)
         | None \<Rightarrow> (HASH_MAP_ERROR, m))"

text \<open>\<open>hash_map_for_each\<close>: the callback and its user data become a state transformer.\<close>

definition hash_map_for_each :: "('k, 'v) hash_map \<Rightarrow> ('k \<Rightarrow> 'v \<Rightarrow> 's \<Rightarrow> 's) \<Rightarrow> 's \<Rightarrow> 's" where
  "hash_map_for_each m fn s = fold (\<lambda>b s. fold (\<lambda>(k, v) s. fn k v s) b s) (buckets m) s"

section \<open>Invariant and abstraction\<close>

text \<open>Every entry sits in the bucket its key hashes to.\<close>

definition placed :: "('k \<Rightarrow> u32) \<Rightarrow> nat \<Rightarrow> ('k \<times> 'v) list list \<Rightarrow> bool" where
  "placed h n bs \<longleftrightarrow> length bs = n \<and> (\<forall>i<n. \<forall>e\<in>set (bs ! i). bucket_index h n (fst e) = i)"

definition hm_abs :: "('k, 'v) hash_map \<Rightarrow> 'k \<Rightarrow> 'v option" where
  "hm_abs m = map_of (concat (buckets m))"

definition hm_inv :: "('k, 'v) hash_map \<Rightarrow> bool" where
  "hm_inv m \<longleftrightarrow> 0 < bucket_count m
     \<and> placed (hash_func m) (bucket_count m) (buckets m)
     \<and> distinct (map fst (concat (buckets m)))
     \<and> map_size m = length (concat (buckets m))
     \<and> (\<forall>a b. key_cmp_func m a b = 0 \<longleftrightarrow> a = b)"

lemma bucket_index_less [simp]: "0 < n \<Longrightarrow> bucket_index h n k < n"
  by (simp add: bucket_index_def)

lemma placed_replicate [simp]: "placed h n (replicate n [])"
  by (simp add: placed_def)

lemma placed_update:
  "placed h n bs \<Longrightarrow> i < n \<Longrightarrow> \<forall>e\<in>set b. bucket_index h n (fst e) = i \<Longrightarrow> placed h n (bs[i := b])"
  by (auto simp: placed_def nth_list_update)

lemma placed_bucket_map_of:
  assumes "placed h n bs" and "0 < n" and "distinct (map fst (concat bs))"
  shows "map_of (bs ! bucket_index h n k) k = map_of (concat bs) k"
proof -
  let ?b = "bs ! bucket_index h n k"
  have len: "bucket_index h n k < length bs" using assms by (simp add: placed_def)
  then have "\<exists>ys zs. bs = ys @ ?b # zs"
    by (metis id_take_nth_drop)
  then obtain ys zs where "bs = ys @ ?b # zs" by blast
  then have d: "distinct (map fst ?b)" using assms(3)
    by (metis concat.simps(2) concat_append distinct_append map_append)
  have "(k, v) \<in> set (concat bs) \<longleftrightarrow> (k, v) \<in> set ?b" for v
  proof
    assume "(k, v) \<in> set (concat bs)"
    then obtain b where b: "b \<in> set bs" "(k, v) \<in> set b" by auto
    then obtain i where "i < length bs" "b = bs ! i" by (metis in_set_conv_nth)
    with b assms(1) have "bucket_index h n k = i" by (fastforce simp: placed_def)
    with b \<open>b = bs ! i\<close> show "(k, v) \<in> set ?b" by simp
  qed (use len nth_mem in auto)
  then have "map_of (concat bs) k = Some v \<longleftrightarrow> map_of ?b k = Some v" for v
    using assms(3) d by simp
  then show ?thesis by (metis option.exhaust)
qed

lemma chain_find_map_of:
  "(\<And>a b. cmp a b = 0 \<longleftrightarrow> a = b) \<Longrightarrow> chain_find cmp k es = map_of es k"
  by (induction cmp k es rule: chain_find.induct) auto

lemma chain_delete_None:
  "(\<And>a b. cmp a b = 0 \<longleftrightarrow> a = b) \<Longrightarrow> chain_delete cmp k es = None \<longleftrightarrow> map_of es k = None"
  by (induction cmp k es rule: chain_delete.induct) auto

lemma chain_delete_Some:
  "(\<And>a b. cmp a b = 0 \<longleftrightarrow> a = b) \<Longrightarrow> chain_delete cmp k es = Some es' \<Longrightarrow>
     \<exists>v. mset es = add_mset (k, v) (mset es')"
  by (induction cmp k es arbitrary: es' rule: chain_delete.induct) (auto split: if_splits)

lemma rehash_fold:
  assumes "0 < n" and "placed h n bs"
  shows "placed h n (fold (rehash_entry h n) es bs)
     \<and> mset (concat (fold (rehash_entry h n) es bs)) = mset es + mset (concat bs)"
  using assms(2)
proof (induction es arbitrary: bs)
  case (Cons e es)
  let ?i = "bucket_index h n (fst e)"
  have i: "?i < length bs" using Cons.prems assms(1) by (simp add: placed_def)
  have p: "placed h n (bs[?i := e # bs ! ?i])"
    using Cons.prems assms(1) by (intro placed_update) (auto simp: placed_def)
  have "mset (concat (bs[?i := e # bs ! ?i])) = add_mset e (mset (concat bs))"
    using mset_concat_update [OF i, of "e # bs ! ?i"] by simp
  with Cons.IH [OF p] show ?case
    by (simp add: rehash_entry_def Let_def)
qed simp

lemma rehash_mset: "0 < n \<Longrightarrow> mset (concat (rehash h n old)) = mset (concat old)"
  by (simp add: rehash_def rehash_fold)

lemma rehash_placed: "0 < n \<Longrightarrow> placed h n (rehash h n old)"
  by (simp add: rehash_def rehash_fold)

lemma mset_inv:
  "mset (concat bs') = mset (concat bs) \<Longrightarrow> distinct (map fst (concat bs)) \<Longrightarrow>
     distinct (map fst (concat bs')) \<and> length (concat bs') = length (concat bs)
     \<and> map_of (concat bs') = map_of (concat bs)"
  using map_of_mset_eq mset_eq_imp_distinct_iff mset_map size_mset by metis

lemma resize_inv:
  assumes "hm_inv m" and "hash_map_resize_if_needed ok (Some m) = (r, mo)"
  obtains m' where "mo = Some m'" and "hm_inv m'" and "hm_abs m' = hm_abs m"
    and "hash_func m' = hash_func m" and "key_cmp_func m' = key_cmp_func m"
    and "r = JSON_GEN_SUCCESS \<or> r = JSON_GEN_ERROR_MEMORY \<and> \<not> ok \<and> m' = m"
proof -
  let ?m' = "m\<lparr>buckets := rehash (hash_func m) (bucket_count m * 2) (buckets m),
                     bucket_count := bucket_count m * 2\<rparr>"
  have pos: "0 < bucket_count m * 2" using assms(1) by (simp add: hm_inv_def)
  have d: "distinct (map fst (concat (buckets m)))" and sz: "map_size m = length (concat (buckets m))"
    using assms(1) by (simp_all add: hm_inv_def)
  note k = mset_inv [OF rehash_mset [OF pos] d, of "hash_func m"]
  have "hm_inv ?m'"
    using assms(1) pos rehash_placed [OF pos] k sz by (simp only: hm_inv_def) simp
  moreover have "hm_abs ?m' = hm_abs m"
    using k by (simp only: hm_abs_def) simp
  ultimately show thesis using assms that
    by (auto simp: hash_map_resize_if_needed_def split: if_splits)
qed

section \<open>What each operation does to the map\<close>

lemma hm_chain:
  assumes "hm_inv m"
  shows "chain_find (key_cmp_func m) k (buckets m ! bucket_index (hash_func m) (bucket_count m) k)
           = hm_abs m k"
    and "chain_delete (key_cmp_func m) k (buckets m ! bucket_index (hash_func m) (bucket_count m) k) = None
           \<longleftrightarrow> hm_abs m k = None"
  using assms placed_bucket_map_of [of "hash_func m" "bucket_count m" "buckets m" k]
  by (simp_all add: hm_inv_def hm_abs_def chain_find_map_of chain_delete_None)

lemma hm_index: "hm_inv m \<Longrightarrow> bucket_index (hash_func m) (bucket_count m) k < length (buckets m)"
  by (simp add: hm_inv_def placed_def)

lemma hash_map_find_correct:
  "hm_inv m \<Longrightarrow> hash_map_find m k =
     (case hm_abs m k of Some v \<Rightarrow> (HASH_MAP_OK, Some v) | None \<Rightarrow> (HASH_MAP_ERROR, None))"
  by (simp add: hash_map_find_def hm_chain split: option.splits)

lemma hm_cons_entry:
  fixes v :: 'v
  assumes inv: "hm_inv m" and fresh: "hm_abs m k = None"
  defines "i \<equiv> bucket_index (hash_func m) (bucket_count m) k"
  defines "m' \<equiv> m\<lparr>buckets := (buckets m)[i := (k, v) # buckets m ! i], map_size := map_size m + 1\<rparr>"
  shows "hm_inv m'" and "hm_abs m' = (hm_abs m)(k \<mapsto> v)"
proof -
  let ?bs = "(buckets m)[i := (k, v) # buckets m ! i]"
  have i: "i < length (buckets m)" using hm_index [OF inv] by (simp add: i_def)
  have "mset (concat ?bs) = mset ((k, v) # concat (buckets m))"
    using mset_concat_update [OF i, of "(k, v) # buckets m ! i"] by simp
  moreover have d: "distinct (map fst ((k, v) # concat (buckets m)))"
    using inv fresh by (auto simp: hm_inv_def hm_abs_def map_of_eq_None_iff simp del: set_concat)
  ultimately have k: "distinct (map fst (concat ?bs))" "length (concat ?bs) = Suc (length (concat (buckets m)))"
      "map_of (concat ?bs) = map_of ((k, v) # concat (buckets m))"
    using mset_inv [of ?bs "[(k, v) # concat (buckets m)]"] by (simp_all del: length_concat)
  have p: "placed (hash_func m) (bucket_count m) ?bs"
    using inv i by (intro placed_update) (auto simp: hm_inv_def placed_def i_def)
  show "hm_inv m'" using inv k p by (simp add: hm_inv_def m'_def del: length_concat)
  show "hm_abs m' = (hm_abs m)(k \<mapsto> v)" using k by (simp add: hm_abs_def m'_def)
qed

lemma hm_drop_entry:
  fixes k :: 'k
  assumes inv: "hm_inv m"
  defines "i \<equiv> bucket_index (hash_func m) (bucket_count m) k"
  assumes del: "chain_delete (key_cmp_func m) k (buckets m ! i) = Some chain"
  defines "m' \<equiv> m\<lparr>buckets := (buckets m)[i := chain], map_size := map_size m - 1\<rparr>"
  shows "hm_inv m'" and "hm_abs m' = (hm_abs m)(k := None)"
proof -
  let ?bs = "(buckets m)[i := chain]"
  have i: "i < length (buckets m)" using hm_index [OF inv] by (simp add: i_def)
  obtain v where v: "mset (buckets m ! i) = add_mset (k, v) (mset chain)"
    using chain_delete_Some [OF _ del] inv by (auto simp: hm_inv_def)
  have ms: "mset ((k, v) # concat ?bs) = mset (concat (buckets m))"
    using mset_concat_update [OF i, of chain] v by simp
  have "distinct (map fst (concat (buckets m)))" using inv by (simp add: hm_inv_def)
  with ms have k: "distinct (map fst ((k, v) # concat ?bs))"
      "length ((k, v) # concat ?bs) = length (concat (buckets m))"
      "map_of ((k, v) # concat ?bs) = map_of (concat (buckets m))"
    using mset_inv [of "[(k, v) # concat ?bs]" "buckets m"] by (simp_all del: length_concat)
  have "set chain \<subseteq> set (buckets m ! i)" using v by (metis set_mset_add_mset_insert set_mset_mset subset_insertI)
  moreover have "length (buckets m) = bucket_count m"
    and "\<forall>e\<in>set (buckets m ! i). bucket_index (hash_func m) (bucket_count m) (fst e) = i"
    using inv i by (simp_all add: hm_inv_def placed_def)
  ultimately have p: "placed (hash_func m) (bucket_count m) ?bs"
    using inv i by (intro placed_update) (auto simp: hm_inv_def)
  have sz: "map_size m - 1 = length (concat ?bs)"
    using inv k(2) by (simp add: hm_inv_def del: length_concat)
  show "hm_inv m'" using inv k(1) p sz by (simp add: hm_inv_def m'_def del: length_concat)
  have "map_of (concat ?bs) k = None" using k(1) by (simp add: map_of_eq_None_iff)
  moreover have "hm_abs m = (map_of (concat ?bs))(k \<mapsto> v)" using k(3) by (simp add: hm_abs_def)
  ultimately show "hm_abs m' = (hm_abs m)(k := None)" by (auto simp: hm_abs_def m'_def)
qed

lemma hash_map_delete_correct:
  assumes "hm_inv m"
  shows "\<exists>m'. hash_map_delete m k = (if hm_abs m k = None then HASH_MAP_ERROR else HASH_MAP_OK, m')
     \<and> hm_inv m' \<and> hm_abs m' = (hm_abs m)(k := None)"
  using hm_drop_entry [OF assms, of k] hm_chain(2) [OF assms, of k] assms
  by (auto simp: hash_map_delete_def Let_def split: option.split)

lemma hash_map_insert_cases:
  assumes inv: "hm_inv m"
  obtains
    (oom_resize) "hash_map_insert rok eok (Some m) (Some k) v = (JSON_GEN_ERROR_MEMORY, Some m)" "\<not> rok"
  | (duplicate) m' where "hash_map_insert rok eok (Some m) (Some k) v = (HASH_MAP_DUPLICATE_KEY, Some m')"
      "hm_abs m k \<noteq> None" "hm_inv m'" "hm_abs m' = hm_abs m"
  | (oom_entry) m' where "hash_map_insert rok eok (Some m) (Some k) v = (JSON_GEN_ERROR_MEMORY, Some m')"
      "\<not> eok" "hm_abs m k = None" "hm_inv m'" "hm_abs m' = hm_abs m"
  | (inserted) m' where "hash_map_insert rok eok (Some m) (Some k) v = (HASH_MAP_OK, Some m')" "eok"
      "hm_abs m k = None" "hm_inv m'" "hm_abs m' = (hm_abs m)(k \<mapsto> v)"
proof -
  obtain r mo where r: "hash_map_resize_if_needed rok (Some m) = (r, mo)" by fastforce
  obtain m1 where m1: "mo = Some m1" "hm_inv m1" "hm_abs m1 = hm_abs m"
    "r = JSON_GEN_SUCCESS \<or> r = JSON_GEN_ERROR_MEMORY \<and> \<not> rok \<and> m1 = m"
    using resize_inv [OF inv r] by metis
  let ?i = "bucket_index (hash_func m1) (bucket_count m1) k"
  note find = hm_chain(1) [OF m1(2), of k]
  note unf = hash_map_insert_def r m1(1) Let_def
  show thesis
  proof (cases "r = JSON_GEN_SUCCESS")
    case False
    with m1(4) have nr: "r = JSON_GEN_ERROR_MEMORY" "\<not> rok" "m1 = m" by auto
    have "hash_map_insert rok eok (Some m) (Some k) v = (r, Some m1)"
      using False by (simp add: unf)
    with nr show thesis by (intro oom_resize) simp_all
  next
    case True
    show thesis
    proof (cases "hm_abs m k")
      case (Some w)
      with True m1 find show thesis by (intro duplicate [of m1]) (simp_all add: unf)
    next
      case None
      with m1(3) have n1: "hm_abs m1 k = None" by simp
      show thesis
      proof (cases eok)
        case True
        with \<open>r = JSON_GEN_SUCCESS\<close> None m1 n1 find hm_cons_entry [OF m1(2) n1, of v] show thesis
          by (intro inserted [of "m1\<lparr>buckets := (buckets m1)[?i := (k, v) # buckets m1 ! ?i], map_size := map_size m1 + 1\<rparr>"])
            (simp_all add: unf)
      next
        case False
        with \<open>r = JSON_GEN_SUCCESS\<close> None m1 n1 find show thesis
          by (intro oom_entry [of m1]) (simp_all add: unf)
      qed
    qed
  qed
qed

text \<open>The table a client sees: non-null arguments and an allocator that succeeds.\<close>

definition hm_insert :: "('k, 'v) hash_map \<Rightarrow> 'k \<Rightarrow> 'v \<Rightarrow> int \<times> ('k, 'v) hash_map" where
  "hm_insert m k v = (case hash_map_insert True True (Some m) (Some k) v of
     (r, Some m') \<Rightarrow> (r, m') | (r, None) \<Rightarrow> (r, m))"

lemma hm_insert_correct:
  assumes "hm_inv m"
  shows "\<exists>m'. hm_insert m k v = (if hm_abs m k = None then HASH_MAP_OK else HASH_MAP_DUPLICATE_KEY, m')
    \<and> hm_inv m' \<and> hm_abs m' = (if hm_abs m k = None then (hm_abs m)(k \<mapsto> v) else hm_abs m)"
  by (rule hash_map_insert_cases [OF assms, of True True k v]) (auto simp: hm_insert_def)

interpretation hm: symbol_table hash_map_find hm_insert hash_map_delete hm_abs hm_inv
proof
  fix m :: "('k, 'v) hash_map" and k v w
  assume m: "hm_inv m"
  show "hash_map_find m k = (case hm_abs m k of Some v \<Rightarrow> (0, Some v) | None \<Rightarrow> (-1, None))"
    using hash_map_find_correct [OF m, of k] by (simp add: hash_map_codes split: option.splits)
  show "hm_abs m k = None \<Longrightarrow> \<exists>m'. hm_insert m k v = (0, m') \<and> hm_inv m' \<and> hm_abs m' = (hm_abs m)(k \<mapsto> v)"
    and "hm_abs m k = Some w \<Longrightarrow> \<exists>m'. hm_insert m k v = (1, m') \<and> hm_inv m' \<and> hm_abs m' = hm_abs m"
    using hm_insert_correct [OF m, of k v] by (simp_all add: hash_map_codes)
  show "hm_abs m k = None \<Longrightarrow> \<exists>m'. hash_map_delete m k = (-1, m') \<and> hm_inv m' \<and> hm_abs m' = hm_abs m"
    and "hm_abs m k = Some w \<Longrightarrow> \<exists>m'. hash_map_delete m k = (0, m') \<and> hm_inv m' \<and> hm_abs m' = (hm_abs m)(k := None)"
    using hash_map_delete_correct [OF m, of k]
    by (auto simp: hash_map_codes fun_upd_idem)
qed

lemma hm_inv_new:
  "0 < n \<Longrightarrow> (\<And>a b. cmp a b = 0 \<longleftrightarrow> a = b) \<Longrightarrow> hm_inv (hash_map_new n h cmp)"
  by (simp add: hm_inv_def hash_map_new_def)

lemma hm_abs_new [simp]: "hm_abs (hash_map_new n h cmp) = Map.empty"
  by (simp add: hm_abs_def hash_map_new_def)

lemma hash_map_for_each_concat:
  "hash_map_for_each m fn s = fold (\<lambda>(k, v) s. fn k v s) (concat (buckets m)) s"
proof -
  have "fold (\<lambda>b s. fold (\<lambda>(k, v) s. fn k v s) b s) bs s = fold (\<lambda>(k, v) s. fn k v s) (concat bs) s" for bs s
    by (induction bs arbitrary: s) simp_all
  then show ?thesis by (simp add: hash_map_for_each_def)
qed

lemma set_hm_entries: "hm_inv m \<Longrightarrow> (k, v) \<in> set (concat (buckets m)) \<longleftrightarrow> hm_abs m k = Some v"
  by (simp add: hm_inv_def hm_abs_def del: set_concat)


section \<open>Properties\<close>

text \<open>
  C16. Any sequence of insertions, deletions and lookups on a freshly created hash map, with any hash
  function and any positive number of buckets, returns the same codes and values as the same
  sequence on a finite map: no collision and no resize is visible to the client.
\<close>

theorem hash_map_run_refines_map:
  assumes "0 < n" and "\<And>a b. cmp a b = 0 \<longleftrightarrow> a = b"
  shows "fst (table_run (hash_map_find, hm_insert, hash_map_delete) (hash_map_new n h cmp) ops)
           = fst (table_run map_ops Map.empty ops)"
  using hm.run_refines [OF hm_inv_new [OF assms], of h ops] by auto

lemma hash_map_run_refines_map_witness:
  "fst (table_run (hash_map_find, hm_insert, hash_map_delete)
          (hash_map_new 1 (\<lambda>k. word_of_nat k) (\<lambda>a b. int a - int b))
          [Insert 5 True, Insert 7 False, Insert 5 False, Find 5, Delete 5, Find 5, Find (7::nat)])
     = [(0, None), (0, None), (1, None), (0, Some True), (0, None), (-1, None), (0, Some False)]"
proof -
  have cmp: "(int a - int b = 0) = (a = b)" for a b :: nat by simp
  show ?thesis
    by (subst hash_map_run_refines_map [OF _ cmp]) (simp_all add: map_ops_def)
qed

text \<open>
  Whatever the allocator does, \<open>hash_map_insert\<close> keeps the invariant, and the map changes only when it
  reports success: it then gains exactly the new binding, and it reports a duplicate only for a
  key that is present and an allocation error only when an allocation failed.
\<close>

theorem hash_map_insert_safe:
  assumes "hm_inv m" and "hash_map_insert rok eok (Some m) (Some k) v = (r, mo)"
  shows "\<exists>m'. mo = Some m' \<and> hm_inv m'
    \<and> (r = HASH_MAP_OK \<and> hm_abs m k = None \<and> hm_abs m' = (hm_abs m)(k \<mapsto> v)
     \<or> r = HASH_MAP_DUPLICATE_KEY \<and> hm_abs m k \<noteq> None \<and> hm_abs m' = hm_abs m
     \<or> r = JSON_GEN_ERROR_MEMORY \<and> \<not> (rok \<and> eok) \<and> hm_abs m' = hm_abs m)"
  using assms by (cases rule: hash_map_insert_cases [OF assms(1), of rok eok k v]) auto

lemma hash_map_insert_safe_witness:
  "\<exists>m'. snd (hash_map_insert False True (Some (hash_map_new 1 (\<lambda>k. word_of_nat k) (\<lambda>a b. int a - int b)))
             (Some (3::nat)) True) = Some m' \<and> hm_abs m' = [3 \<mapsto> True]"
proof -
  let ?m = "hash_map_new 1 (\<lambda>k. word_of_nat k) (\<lambda>a b. int a - int b) :: (nat, bool) hash_map"
  have inv: "hm_inv ?m" by (rule hm_inv_new) simp_all
  have ins: "hash_map_insert False True (Some ?m) (Some 3) True
      = (HASH_MAP_OK, snd (hash_map_insert False True (Some ?m) (Some 3) True))"
    by (simp add: hash_map_insert_def hash_map_resize_if_needed_def hash_map_new_def bucket_index_def)
  show ?thesis using hash_map_insert_safe [OF inv ins] by (auto simp: hash_map_codes)
qed

text \<open>
  \<open>hash_map_for_each\<close> calls its callback exactly once for each binding of the map: the calls, in
  order, are a list without repeated keys whose elements are the graph of the map, and there are
  \<open>map_size\<close> of them.
\<close>

theorem hash_map_for_each_visits_once:
  assumes "hm_inv m"
  shows "\<exists>calls. (\<forall>fn s. hash_map_for_each m fn s = fold (\<lambda>(k, v). fn k v) calls (s :: 's))
     \<and> distinct (map fst calls) \<and> length calls = map_size m
     \<and> (\<forall>k v. (k, v) \<in> set calls \<longleftrightarrow> hm_abs m k = Some v)"
proof (intro exI conjI allI)
  show "hash_map_for_each m fn s = fold (\<lambda>(k, v). fn k v) (concat (buckets m)) s"
    for fn and s :: 's by (rule hash_map_for_each_concat)
  show "(k, v) \<in> set (concat (buckets m)) \<longleftrightarrow> hm_abs m k = Some v" for k v
    by (rule set_hm_entries [OF assms])
qed (use assms in \<open>simp_all add: hm_inv_def del: length_concat\<close>)

lemma hash_map_for_each_visits_once_witness:
  "\<exists>calls. hash_map_for_each (snd (hm_insert (hash_map_new 1 (\<lambda>k. word_of_nat k) (\<lambda>a b. int a - int b))
                                   (3::nat) True)) (\<lambda>k v. Cons (k, v)) []
     = fold (\<lambda>(k, v). Cons (k, v)) calls [] \<and> length calls = 1"
proof -
  let ?m = "hash_map_new 1 (\<lambda>k. word_of_nat k) (\<lambda>a b. int a - int b) :: (nat, bool) hash_map"
  have "hm_inv ?m" by (rule hm_inv_new) simp_all
  then have inv: "hm_inv (snd (hm_insert ?m 3 True))"
    using hm_insert_correct [of ?m 3 True] by auto
  have "map_size (snd (hm_insert ?m 3 True)) = 1"
    by (simp add: hm_insert_def hash_map_insert_def hash_map_resize_if_needed_def hash_map_new_def
        bucket_index_def hash_map_codes)
  then show ?thesis
    using hash_map_for_each_visits_once [OF inv, where 's = "(nat \<times> bool) list"] by metis
qed

end
