(* ===== verification/SinkSpec.thy ===== *)
theory SinkSpec
  imports Prelude
begin

text \<open>
  The interface between the string library and everything that writes output (the JSON escaper,
  the number printers, the binary encoders): an append operation that may fault, and the content
  it extends. Clients issue a sequence of appends; what they see is the concatenation.
\<close>

text \<open>A sequence of \<open>sstr_append_of\<close> calls, stopped by the first fault.\<close>

fun append_chunks :: "('s \<Rightarrow> 'c list \<Rightarrow> 'e + 's) \<Rightarrow> 's \<Rightarrow> 'c list list \<Rightarrow> 'e + 's" where
  "append_chunks ap s [] = Inr s"
| "append_chunks ap s (c # cs) = bindE (ap s c) (\<lambda>s'. append_chunks ap s' cs)"

lemma append_chunks_append:
  "append_chunks ap s (cs @ ds) = bindE (append_chunks ap s cs) (\<lambda>s'. append_chunks ap s' ds)"
  by (induction cs arbitrary: s) (auto simp: bindE_def split: sum.splits)

locale byte_sink =
  fixes append :: "'s \<Rightarrow> 'c list \<Rightarrow> 'e + 's"
    and content :: "'s \<Rightarrow> 'c list"
    and ok :: "'s \<Rightarrow> bool"
  assumes append_total: "ok s \<Longrightarrow> \<exists>s'. append s d = Inr s' \<and> ok s' \<and> content s' = content s @ d"
begin

lemma chunks_total:
  "ok s \<Longrightarrow> \<exists>s'. append_chunks append s cs = Inr s' \<and> ok s' \<and> content s' = content s @ concat cs"
proof (induction cs arbitrary: s)
  case (Cons c cs)
  obtain s1 where s1: "append s c = Inr s1" "ok s1" "content s1 = content s @ c"
    using append_total [OF Cons.prems] by blast
  then show ?case using Cons.IH [OF s1(2)] by auto
qed simp

lemma chunking_irrelevant:
  assumes "ok s" and "concat cs = concat ds"
  shows "\<exists>s1 s2. append_chunks append s cs = Inr s1 \<and> append_chunks append s ds = Inr s2
           \<and> content s1 = content s2"
  using chunks_total [OF assms(1), of cs] chunks_total [OF assms(1), of ds] assms(2) by auto

end

end
