(* ===== verification/Sstr.thy ===== *)
theory Sstr
  imports SinkSpec
begin

text \<open>
  \<open>src/utils/sstr.c\<close>: the length-counted string with a short inline buffer, a heap buffer or a
  reference to foreign memory. The buffers are modelled byte by byte, with \<open>None\<close> for a byte the
  program has not written, and every \<open>memcpy\<close>, \<open>memset\<close> and store checks the bounds of its block,
  so that a successful result is a statement of memory safety. Allocation succeeds; lengths stay
  below \<open>SIZE_MAX\<close>, so that \<open>size_t\<close> sums do not wrap.
\<close>

section \<open>Representation\<close>

definition SHORT_STR_CAPACITY :: nat where "SHORT_STR_CAPACITY = 25"
definition CAP_ADD_DELTA :: nat where "CAP_ADD_DELTA = 256"

datatype sstr_type = SSTR_TYPE_SHORT | SSTR_TYPE_LONG | SSTR_TYPE_REF

type_synonym cell = "char option"

datatype fault = Assert_failed | Out_of_bounds | Null_deref | Uninitialised | Bad_vararg | Stack_overflow

text \<open>
  \<open>sbuf\<close> is the member of the union that \<open>stype\<close> selects: \<open>un.short_str\<close> (26 bytes), the block
  behind \<open>un.long_str.data\<close>, or the memory behind \<open>un.ref_str.data\<close>; \<open>None\<close> is the null pointer.
\<close>

record sstr =
  slength :: nat
  stype :: sstr_type
  sbuf :: "cell list option"
  scapacity :: nat

abbreviation NUL :: char where "NUL \<equiv> CHR 0x00"

section \<open>Memory blocks\<close>

definition malloc :: "nat \<Rightarrow> cell list option" where
  "malloc n = Some (replicate n None)"

text \<open>\<open>realloc\<close> keeps the common prefix; a null block is \<open>malloc\<close>.\<close>

definition realloc :: "cell list option \<Rightarrow> nat \<Rightarrow> cell list option" where
  "realloc b n = (case b of
     None \<Rightarrow> malloc n
   | Some xs \<Rightarrow> Some (take n xs @ replicate (n - length xs) None))"

definition mem_write :: "cell list option \<Rightarrow> nat \<Rightarrow> cell list \<Rightarrow> fault + cell list option" where
  "mem_write b i cs = (case b of
     None \<Rightarrow> Inl Null_deref
   | Some xs \<Rightarrow> if i + length cs \<le> length xs
       then Inr (Some (take i xs @ cs @ drop (i + length cs) xs)) else Inl Out_of_bounds)"

definition mem_read :: "cell list option \<Rightarrow> nat \<Rightarrow> nat \<Rightarrow> fault + cell list" where
  "mem_read b i n = (if n = 0 then Inr [] else case b of
     None \<Rightarrow> Inl Null_deref
   | Some xs \<Rightarrow> if i + n \<le> length xs then Inr (take n (drop i xs)) else Inl Out_of_bounds)"

text \<open>Reading bytes as data: every one of them must have been written.\<close>

definition mem_bytes :: "cell list option \<Rightarrow> nat \<Rightarrow> nat \<Rightarrow> fault + string" where
  "mem_bytes b i n = bindE (mem_read b i n)
     (\<lambda>cs. if None \<in> set cs then Inl Uninitialised else Inr (map the cs))"

section \<open>Operations\<close>

definition sstr_new :: sstr where
  "sstr_new = \<lparr>slength = 0, stype = SSTR_TYPE_SHORT,
     sbuf = Some (replicate (SHORT_STR_CAPACITY + 1) (Some NUL)), scapacity = 0\<rparr>"

definition sstr_of :: "string \<Rightarrow> fault + sstr" where
  "sstr_of data = (let len = length data; s = sstr_new in
     if len \<le> SHORT_STR_CAPACITY then
       bindE (mem_write (sbuf s) 0 (map Some data)) (\<lambda>b1.
       bindE (mem_write b1 len [Some NUL]) (\<lambda>b2.
         Inr (s\<lparr>sbuf := b2, stype := SSTR_TYPE_SHORT, slength := len\<rparr>)))
     else
       bindE (mem_write (malloc (len + 1)) 0 (map Some data)) (\<lambda>b1.
       bindE (mem_write b1 len [Some NUL]) (\<lambda>b2.
         Inr (s\<lparr>sbuf := b2, scapacity := len, stype := SSTR_TYPE_LONG, slength := len\<rparr>))))"

definition sstr_ref :: "cell list option \<Rightarrow> nat \<Rightarrow> sstr" where
  "sstr_ref data len = sstr_new\<lparr>sbuf := data, slength := len, stype := SSTR_TYPE_REF\<rparr>"

text \<open>\<open>STR_PTR(s)\<close> together with \<open>sstr_length(s)\<close>: the bytes the string denotes.\<close>

definition sstr_data :: "sstr \<Rightarrow> fault + string" where
  "sstr_data s = mem_bytes (sbuf s) 0 (slength s)"

definition sstr_append_of :: "sstr \<Rightarrow> string \<Rightarrow> fault + sstr" where
  "sstr_append_of s data = (let len = length data; oldlen = slength s; newlen = oldlen + len in
     if stype s = SSTR_TYPE_REF then Inl Assert_failed
     else if stype s = SSTR_TYPE_SHORT then
       (if newlen \<le> SHORT_STR_CAPACITY then
          bindE (mem_write (sbuf s) oldlen (map Some data)) (\<lambda>b1.
          bindE (mem_write b1 newlen [Some NUL]) (\<lambda>b2.
            Inr (s\<lparr>slength := newlen, sbuf := b2\<rparr>)))
        else
          bindE (mem_read (sbuf s) 0 oldlen) (\<lambda>old.
          bindE (mem_write (malloc (newlen + CAP_ADD_DELTA + 1)) 0 old) (\<lambda>b1.
          bindE (mem_write b1 oldlen (map Some data)) (\<lambda>b2.
          bindE (mem_write b2 newlen [Some NUL]) (\<lambda>b3.
            Inr (s\<lparr>sbuf := b3, scapacity := newlen + CAP_ADD_DELTA, slength := newlen,
                   stype := SSTR_TYPE_LONG\<rparr>))))))
     else if scapacity s - oldlen > len then
       bindE (mem_write (sbuf s) oldlen (map Some data)) (\<lambda>b1.
       bindE (mem_write b1 newlen [Some NUL]) (\<lambda>b2.
         Inr (s\<lparr>slength := newlen, sbuf := b2\<rparr>)))
     else
       bindE (mem_write (realloc (sbuf s) (newlen + CAP_ADD_DELTA + 1)) oldlen (map Some data)) (\<lambda>b1.
       bindE (mem_write b1 newlen [Some NUL]) (\<lambda>b2.
         Inr (s\<lparr>scapacity := newlen + CAP_ADD_DELTA + 1, slength := newlen, sbuf := b2\<rparr>))))"

definition sstr_append_zero :: "sstr \<Rightarrow> nat \<Rightarrow> fault + sstr" where
  "sstr_append_zero s len = (let oldlen = slength s; zeros = replicate (len + 1) (Some NUL) in
     if stype s = SSTR_TYPE_REF then Inl Assert_failed
     else if stype s = SSTR_TYPE_SHORT then
       (if oldlen + len \<le> SHORT_STR_CAPACITY then
          bindE (mem_write (sbuf s) oldlen zeros) (\<lambda>b1.
            Inr (s\<lparr>slength := oldlen + len, sbuf := b1\<rparr>))
        else
          bindE (mem_read (sbuf s) 0 oldlen) (\<lambda>old.
          bindE (mem_write (malloc (len + oldlen + CAP_ADD_DELTA + 1)) 0 old) (\<lambda>b1.
          bindE (mem_write b1 oldlen zeros) (\<lambda>b2.
            Inr (s\<lparr>sbuf := b2, scapacity := len + oldlen + CAP_ADD_DELTA,
                   slength := oldlen + len, stype := SSTR_TYPE_LONG\<rparr>)))))
     else if scapacity s - oldlen > len then
       bindE (mem_write (sbuf s) oldlen zeros) (\<lambda>b1.
         Inr (s\<lparr>slength := oldlen + len, sbuf := b1\<rparr>))
     else
       bindE (mem_write (realloc (sbuf s) (len + oldlen + CAP_ADD_DELTA + 1)) oldlen zeros) (\<lambda>b1.
         Inr (s\<lparr>scapacity := len + oldlen + CAP_ADD_DELTA + 1,
                slength := oldlen + len, sbuf := b1\<rparr>)))"

text \<open>\<open>sstr_append_indent\<close>: grow with zero bytes, then overwrite them with spaces.\<close>

definition sstr_append_indent :: "sstr \<Rightarrow> nat \<Rightarrow> fault + sstr" where
  "sstr_append_indent s indent =
     (if indent = 0 then Inr s
      else bindE (sstr_append_zero s indent) (\<lambda>s1.
           bindE (mem_write (sbuf s1) (slength s) (replicate indent (Some CHR '' ''))) (\<lambda>b.
             Inr (s1\<lparr>sbuf := b\<rparr>))))"

definition sstr_append_of_if :: "sstr \<Rightarrow> string \<Rightarrow> bool \<Rightarrow> fault + sstr" where
  "sstr_append_of_if s data cond = (if cond then sstr_append_of s data else Inr s)"

definition sstr_append :: "sstr \<Rightarrow> sstr \<Rightarrow> fault + sstr" where
  "sstr_append dst src = bindE (sstr_data src) (sstr_append_of dst)"

text \<open>A C string is its bytes before the first NUL.\<close>

definition cstr :: "string \<Rightarrow> string" where
  "cstr data = takeWhile (\<lambda>c. c \<noteq> NUL) data"

definition sstr_append_cstr :: "sstr \<Rightarrow> string \<Rightarrow> fault + sstr" where
  "sstr_append_cstr dst src = sstr_append_of dst (cstr src)"

definition sstr_dup :: "sstr \<Rightarrow> fault + sstr" where
  "sstr_dup s = bindE (sstr_data s) sstr_of"

definition sstr_substr :: "sstr \<Rightarrow> nat \<Rightarrow> nat \<Rightarrow> fault + sstr" where
  "sstr_substr s index len = (let str_len = slength s in
     if index > str_len then Inr sstr_new
     else (let minlen = (if index + len > str_len then str_len - index else len)
           in bindE (mem_bytes (sbuf s) index minlen) sstr_of))"

definition sstr_clear :: "sstr \<Rightarrow> fault + sstr" where
  "sstr_clear s = (case stype s of
     SSTR_TYPE_REF \<Rightarrow> Inr (s\<lparr>slength := 0, sbuf := None\<rparr>)
   | SSTR_TYPE_SHORT \<Rightarrow>
       bindE (mem_write (sbuf s) 0 [Some NUL]) (\<lambda>b. Inr (s\<lparr>slength := 0, sbuf := b\<rparr>))
   | SSTR_TYPE_LONG \<Rightarrow> Inr (s\<lparr>slength := 0, sbuf := None, scapacity := 0\<rparr>))"

text \<open>The inlined copies at the head of \<open>src/gencode/codes/json_parse.c\<close>.\<close>

definition sstr_clear_fast :: "sstr \<Rightarrow> fault + sstr" where
  "sstr_clear_fast s = (case stype s of
     SSTR_TYPE_REF \<Rightarrow> sstr_clear s
   | _ \<Rightarrow> bindE (mem_write (sbuf s) 0 [Some NUL]) (\<lambda>b. Inr (s\<lparr>slength := 0, sbuf := b\<rparr>)))"

definition sstr_append_of_fast :: "sstr \<Rightarrow> string \<Rightarrow> fault + sstr" where
  "sstr_append_of_fast s data = (let len = length data in
     if stype s = SSTR_TYPE_SHORT \<and> slength s + len \<le> SHORT_STR_CAPACITY
        \<or> stype s = SSTR_TYPE_LONG \<and> scapacity s - slength s > len then
       bindE (mem_write (sbuf s) (slength s) (map Some data)) (\<lambda>b1.
       bindE (mem_write b1 (slength s + len) [Some NUL]) (\<lambda>b2.
         Inr (s\<lparr>slength := slength s + len, sbuf := b2\<rparr>)))
     else sstr_append_of s data)"

section \<open>Invariant and content\<close>

text \<open>
  \<open>terminated b n d\<close>: the block \<open>b\<close> has at least \<open>n\<close> bytes and starts with the bytes \<open>d\<close>, all
  written, followed by a NUL that is inside the block.
\<close>

definition terminated :: "cell list option \<Rightarrow> nat \<Rightarrow> string \<Rightarrow> bool" where
  "terminated b n d \<longleftrightarrow> (\<exists>rest. b = Some (map Some d @ Some NUL # rest) \<and> n \<le> length d + length rest + 1)"

definition sstr_content :: "sstr \<Rightarrow> string" where
  "sstr_content s = (case sbuf s of None \<Rightarrow> [] | Some xs \<Rightarrow> map the (take (slength s) xs))"

text \<open>
  A string that may be appended to: inline, in a block with room for its capacity, or a heap
  string that \<open>sstr_clear\<close> has emptied.
\<close>

definition sstr_ok :: "sstr \<Rightarrow> bool" where
  "sstr_ok s \<longleftrightarrow> (case stype s of
     SSTR_TYPE_SHORT \<Rightarrow> length (sstr_content s) = slength s \<and> slength s \<le> SHORT_STR_CAPACITY
       \<and> terminated (sbuf s) (SHORT_STR_CAPACITY + 1) (sstr_content s)
   | SSTR_TYPE_LONG \<Rightarrow> sbuf s = None \<and> slength s = 0 \<and> scapacity s = 0
       \<or> length (sstr_content s) = slength s \<and> slength s \<le> scapacity s
         \<and> terminated (sbuf s) (scapacity s) (sstr_content s)
   | SSTR_TYPE_REF \<Rightarrow> False)"

lemma terminated_content:
  "terminated (sbuf s) n d \<Longrightarrow> slength s = length d \<Longrightarrow> sstr_content s = d"
  by (auto simp: terminated_def sstr_content_def o_def)

lemma mem_write_tail:
  "length cs \<le> length rest \<Longrightarrow>
     mem_write (Some (pre @ rest)) (length pre) cs = Inr (Some (pre @ cs @ drop (length cs) rest))"
  by (simp add: mem_write_def)

text \<open>Copying data behind the current content and closing it with a NUL.\<close>

lemma write_then_nul:
  assumes "b = Some (map Some d @ rest)" and "length e < length rest" and "n \<le> length d + length rest"
    and "i = length d" and "j = length d + length e"
  shows "\<exists>b1 b2. mem_write b i (map Some e) = Inr b1 \<and> mem_write b1 j [Some NUL] = Inr b2
           \<and> terminated b2 n (d @ e)"
proof -
  let ?b1 = "map Some d @ map Some e @ drop (length e) rest"
  have 1: "mem_write b i (map Some e) = Inr (Some ?b1)"
    using mem_write_tail [of "map Some e" rest "map Some d"] assms by simp
  have "mem_write (Some ((map Some d @ map Some e) @ drop (length e) rest))
          (length (map Some d @ map Some e)) [Some NUL]
        = Inr (Some ((map Some d @ map Some e) @ [Some NUL] @ drop (length [Some NUL]) (drop (length e) rest)))"
    by (rule mem_write_tail) (use assms(2) in simp)
  then have 2: "mem_write (Some ?b1) j [Some NUL]
      = Inr (Some (map Some (d @ e) @ Some NUL # drop (Suc (length e)) rest))"
    using assms(5) by (simp add: drop_Suc)
  have "terminated (Some (map Some (d @ e) @ Some NUL # drop (Suc (length e)) rest)) n (d @ e)"
    using assms(2,3) by (auto simp: terminated_def)
  with 1 2 show ?thesis by blast
qed

text \<open>The same when the old content is first copied into a fresh block.\<close>

lemma copy_then_write_then_nul:
  assumes "b = map Some d" and "length d + length e < n"
    and "i = length d" and "j = length d + length e"
  shows "\<exists>b1 b2 b3. mem_write (malloc n) 0 b = Inr b1 \<and> mem_write b1 i (map Some e) = Inr b2
           \<and> mem_write b2 j [Some NUL] = Inr b3 \<and> terminated b3 n (d @ e)"
proof -
  have "mem_write (malloc n) 0 b = Inr (Some (map Some d @ replicate (n - length d) None))"
    using assms(1,2) by (simp add: malloc_def mem_write_def)
  then show ?thesis
    using write_then_nul [OF refl, of e "replicate (n - length d) None" n d i j] assms(2-4) by simp
qed

lemma mem_read_content:
  assumes "terminated b n d"
  shows "mem_read b 0 (length d) = Inr (map Some d)"
  using assms by (auto simp: terminated_def mem_read_def)

lemma realloc_terminated:
  assumes "terminated b n d" and "length d < k"
  shows "\<exists>rest. realloc b k = Some (map Some d @ rest) \<and> length d + length rest = k"
  using assms by (auto simp: terminated_def realloc_def min_def)


section \<open>Every operation is memory safe and does what its name says\<close>

lemma sstr_ok_cases:
  assumes "sstr_ok s"
  obtains
    (short) "stype s = SSTR_TYPE_SHORT" "length (sstr_content s) = slength s"
      "slength s \<le> SHORT_STR_CAPACITY" "terminated (sbuf s) (SHORT_STR_CAPACITY + 1) (sstr_content s)"
  | (cleared) "stype s = SSTR_TYPE_LONG" "sbuf s = None" "slength s = 0" "scapacity s = 0"
      "sstr_content s = []"
  | (long) "stype s = SSTR_TYPE_LONG" "length (sstr_content s) = slength s"
      "slength s \<le> scapacity s" "terminated (sbuf s) (scapacity s) (sstr_content s)"
  using assms by (cases "stype s") (auto simp: sstr_ok_def sstr_content_def)

lemma sstr_okI_short:
  "stype s = SSTR_TYPE_SHORT \<Longrightarrow> slength s = length d \<Longrightarrow> length d \<le> SHORT_STR_CAPACITY \<Longrightarrow>
     terminated (sbuf s) (SHORT_STR_CAPACITY + 1) d \<Longrightarrow> sstr_ok s \<and> sstr_content s = d"
  using terminated_content [of s _ d] by (simp add: sstr_ok_def)

lemma sstr_okI_long:
  "stype s = SSTR_TYPE_LONG \<Longrightarrow> slength s = length d \<Longrightarrow> length d \<le> scapacity s \<Longrightarrow>
     terminated (sbuf s) (scapacity s) d \<Longrightarrow> sstr_ok s \<and> sstr_content s = d"
  using terminated_content [of s _ d] by (simp add: sstr_ok_def)

lemma terminated_mono: "terminated b n d \<Longrightarrow> n' \<le> n \<Longrightarrow> terminated b n' d"
  by (auto simp: terminated_def)

lemma terminatedD:
  assumes "terminated b n d"
  obtains rest where "b = Some (map Some d @ rest)" "n \<le> length d + length rest" "rest \<noteq> []"
  using assms by (auto simp: terminated_def)

lemma append_in_place:
  assumes "terminated (sbuf s) n d" and "slength s = length d" and "length d + length e < n"
  shows "\<exists>b1 b2. mem_write (sbuf s) (slength s) (map Some e) = Inr b1
     \<and> mem_write b1 (slength s + length e) [Some NUL] = Inr b2 \<and> terminated b2 n (d @ e)"
proof -
  obtain rest where "sbuf s = Some (map Some d @ rest)" "n \<le> length d + length rest"
    using assms(1) by (rule terminatedD)
  then show ?thesis using write_then_nul [of "sbuf s" d rest e n] assms(2,3) by simp
qed

lemma append_realloc:
  assumes "terminated (sbuf s) n d \<or> sbuf s = None \<and> d = []" and "slength s = length d"
    and "length d + length e < k"
  shows "\<exists>b1 b2. mem_write (realloc (sbuf s) k) (slength s) (map Some e) = Inr b1
     \<and> mem_write b1 (slength s + length e) [Some NUL] = Inr b2 \<and> terminated b2 k (d @ e)"
proof -
  obtain rest where "realloc (sbuf s) k = Some (map Some d @ rest)" "length d + length rest = k"
    using assms(1) realloc_terminated [of "sbuf s" n d k] assms(3)
    by (auto simp: realloc_def malloc_def)
  then show ?thesis using write_then_nul [of _ d rest e k] assms(2,3) by simp
qed

text \<open>The three ways \<open>sstr_append_of\<close> stores its data.\<close>

lemma append_of_in_place:
  assumes "terminated (sbuf s) n (sstr_content s)" and "length (sstr_content s) = slength s"
    and "slength s + length e < n"
    and "stype s = SSTR_TYPE_SHORT \<and> n = SHORT_STR_CAPACITY + 1 \<or> stype s = SSTR_TYPE_LONG \<and> n = scapacity s"
  shows "\<exists>s'. sstr_append_of s e = Inr s' \<and> sstr_ok s' \<and> sstr_content s' = sstr_content s @ e"
proof -
  obtain b1 b2 where b: "mem_write (sbuf s) (slength s) (map Some e) = Inr b1"
      "mem_write b1 (slength s + length e) [Some NUL] = Inr b2"
      "terminated b2 n (sstr_content s @ e)"
    using append_in_place [OF assms(1) assms(2) [symmetric], of e] assms(2,3) by auto
  let ?s = "s\<lparr>slength := slength s + length e, sbuf := b2\<rparr>"
  have "sstr_append_of s e = Inr ?s"
    using assms(3,4) b(1,2) by (auto simp: sstr_append_of_def Let_def)
  moreover have "sstr_ok ?s \<and> sstr_content ?s = sstr_content s @ e"
    using assms b(3) sstr_okI_short [of ?s "sstr_content s @ e"] sstr_okI_long [of ?s "sstr_content s @ e"]
    by auto
  ultimately show ?thesis by blast
qed

lemma append_of_promote:
  assumes "terminated (sbuf s) n (sstr_content s)" and "length (sstr_content s) = slength s"
    and "stype s = SSTR_TYPE_SHORT" and "\<not> slength s + length e \<le> SHORT_STR_CAPACITY"
  shows "\<exists>s'. sstr_append_of s e = Inr s' \<and> sstr_ok s' \<and> sstr_content s' = sstr_content s @ e"
proof -
  let ?k = "slength s + length e + CAP_ADD_DELTA + 1"
  obtain b1 b2 b3 where b: "mem_write (malloc ?k) 0 (map Some (sstr_content s)) = Inr b1"
      "mem_write b1 (slength s) (map Some e) = Inr b2"
      "mem_write b2 (slength s + length e) [Some NUL] = Inr b3"
      "terminated b3 ?k (sstr_content s @ e)"
    using copy_then_write_then_nul [OF refl _ assms(2) [symmetric], of e ?k] assms(2) by auto
  let ?s = "s\<lparr>sbuf := b3, scapacity := slength s + length e + CAP_ADD_DELTA,
      slength := slength s + length e, stype := SSTR_TYPE_LONG\<rparr>"
  have "mem_read (sbuf s) 0 (slength s) = Inr (map Some (sstr_content s))"
    using mem_read_content [OF assms(1)] assms(2) by simp
  then have "sstr_append_of s e = Inr ?s"
    using assms(3,4) b(1,2,3) by (simp add: sstr_append_of_def Let_def)
  moreover have "sstr_ok ?s \<and> sstr_content ?s = sstr_content s @ e"
    using assms(2) terminated_mono [OF b(4)] by (intro sstr_okI_long) simp_all
  ultimately show ?thesis by blast
qed

lemma append_of_realloc:
  assumes "terminated (sbuf s) n (sstr_content s) \<or> sbuf s = None \<and> sstr_content s = []"
    and "length (sstr_content s) = slength s"
    and "stype s = SSTR_TYPE_LONG" and "\<not> scapacity s - slength s > length e"
  shows "\<exists>s'. sstr_append_of s e = Inr s' \<and> sstr_ok s' \<and> sstr_content s' = sstr_content s @ e"
proof -
  let ?k = "slength s + length e + CAP_ADD_DELTA + 1"
  obtain b1 b2 where b: "mem_write (realloc (sbuf s) ?k) (slength s) (map Some e) = Inr b1"
      "mem_write b1 (slength s + length e) [Some NUL] = Inr b2"
      "terminated b2 ?k (sstr_content s @ e)"
    using append_realloc [OF assms(1) assms(2) [symmetric], of e ?k] assms(2) by auto
  let ?s = "s\<lparr>scapacity := ?k, slength := slength s + length e, sbuf := b2\<rparr>"
  have "sstr_append_of s e = Inr ?s"
    using assms(3,4) b(1,2) by (simp add: sstr_append_of_def Let_def)
  moreover have "sstr_ok ?s \<and> sstr_content ?s = sstr_content s @ e"
    using assms(2,3) b(3) by (intro sstr_okI_long) simp_all
  ultimately show ?thesis by blast
qed

lemma sstr_append_of_correct:
  assumes "sstr_ok s"
  shows "\<exists>s'. sstr_append_of s e = Inr s' \<and> sstr_ok s' \<and> sstr_content s' = sstr_content s @ e"
  using assms
proof (cases rule: sstr_ok_cases)
  case short
  then show ?thesis
    using append_of_in_place [OF short(4,2), of e] append_of_promote [OF short(4,2,1), of e]
    by (cases "slength s + length e \<le> SHORT_STR_CAPACITY") simp_all
next
  case cleared
  then show ?thesis using append_of_realloc [of s 0 e] by simp
next
  case long
  then show ?thesis
    using append_of_in_place [OF long(4,2), of e] append_of_realloc [OF disjI1 [OF long(4)] long(2,1), of e]
    by (cases "scapacity s - slength s > length e") (simp_all add: less_diff_conv2)
qed

interpretation sstr_sink: byte_sink sstr_append_of sstr_content sstr_ok
  by unfold_locales (rule sstr_append_of_correct)

text \<open>The same string seen as a byte buffer, the way the binary encoders use it.\<close>

definition sstr_append_bytes :: "sstr \<Rightarrow> bytes \<Rightarrow> fault + sstr" where
  "sstr_append_bytes s d = sstr_append_of s (map char_of_byte d)"

definition sstr_bytes :: "sstr \<Rightarrow> bytes" where
  "sstr_bytes s = map byte_of_char (sstr_content s)"

interpretation sstr_byte_sink: byte_sink sstr_append_bytes sstr_bytes sstr_ok
proof
  fix s and d :: bytes
  assume "sstr_ok s"
  then show "\<exists>s'. sstr_append_bytes s d = Inr s' \<and> sstr_ok s' \<and> sstr_bytes s' = sstr_bytes s @ d"
    using sstr_append_of_correct [of s "map char_of_byte d"]
    by (auto simp: sstr_append_bytes_def sstr_bytes_def o_def)
qed

text \<open>Writing two adjacent pieces is writing their concatenation, faults included.\<close>

lemma mem_write_append:
  "mem_write b i (xs @ ys) = bindE (mem_write b i xs) (\<lambda>b'. mem_write b' (i + length xs) ys)"
proof (cases b)
  case (Some zs)
  show ?thesis
  proof (cases "i + length xs \<le> length zs")
    case True
    then show ?thesis using Some by (cases xs) (auto simp: mem_write_def min_def ac_simps)
  next
    case False
    then show ?thesis using Some by (cases xs) (simp_all add: mem_write_def)
  qed
qed (simp add: mem_write_def)

lemma sstr_append_zero_eq: "sstr_append_zero s n = sstr_append_of s (replicate n NUL)"
proof -
  have "replicate (n + 1) (Some NUL) = map Some (replicate n NUL) @ [Some NUL]"
    by (simp add: replicate_append_same)
  then show ?thesis
    by (simp add: sstr_append_zero_def sstr_append_of_def Let_def mem_write_append bindE_assoc ac_simps
        cong: if_cong)
qed

lemma sstr_append_of_fast_eq_append_of: "sstr_append_of_fast s d = sstr_append_of s d"
  by (cases "stype s") (simp_all add: sstr_append_of_fast_def sstr_append_of_def Let_def)

lemma terminated_overwrite:
  assumes "terminated b n (d @ e)" and "length e = length f" and "i = length d"
  shows "\<exists>b'. mem_write b i (map Some f) = Inr b' \<and> terminated b' n (d @ f)"
proof -
  obtain rest where b: "b = Some (map Some d @ (map Some e @ Some NUL # rest))"
    and n: "n \<le> length (d @ e) + length rest + 1"
    using assms(1) by (auto simp: terminated_def)
  have "mem_write b i (map Some f) = Inr (Some (map Some (d @ f) @ Some NUL # rest))"
    using mem_write_tail [of "map Some f" "map Some e @ Some NUL # rest" "map Some d"] b assms(2,3) by simp
  then show ?thesis using n assms(2) by (auto simp: terminated_def)
qed

lemma sstr_ok_overwrite:
  assumes "sstr_ok s" and "sstr_content s = d @ e" and "length e = length f" and "e \<noteq> []"
  shows "\<exists>b'. mem_write (sbuf s) (length d) (map Some f) = Inr b'
     \<and> sstr_ok (s\<lparr>sbuf := b'\<rparr>) \<and> sstr_content (s\<lparr>sbuf := b'\<rparr>) = d @ f"
  using assms(1)
proof (cases rule: sstr_ok_cases)
  case short
  then obtain b' where "mem_write (sbuf s) (length d) (map Some f) = Inr b'"
      "terminated b' (SHORT_STR_CAPACITY + 1) (d @ f)"
    using terminated_overwrite [OF _ assms(3) refl, of "sbuf s" _ d] assms(2) by metis
  then show ?thesis
    using short assms sstr_okI_short [of "s\<lparr>sbuf := b'\<rparr>" "d @ f"] by simp
next
  case cleared
  then show ?thesis using assms by simp
next
  case long
  then obtain b' where "mem_write (sbuf s) (length d) (map Some f) = Inr b'"
      "terminated b' (scapacity s) (d @ f)"
    using terminated_overwrite [OF _ assms(3) refl, of "sbuf s" _ d] assms(2) by metis
  then show ?thesis
    using long assms sstr_okI_long [of "s\<lparr>sbuf := b'\<rparr>" "d @ f"] by simp
qed

lemma sstr_ok_length: "sstr_ok s \<Longrightarrow> length (sstr_content s) = slength s"
  by (erule sstr_ok_cases) simp_all

lemma sstr_append_indent_correct:
  assumes "sstr_ok s"
  shows "\<exists>s'. sstr_append_indent s n = Inr s' \<and> sstr_ok s'
     \<and> sstr_content s' = sstr_content s @ replicate n CHR '' ''"
proof (cases "n = 0")
  case False
  obtain s1 where s1: "sstr_append_zero s n = Inr s1" "sstr_ok s1"
      "sstr_content s1 = sstr_content s @ replicate n NUL"
    using sstr_append_of_correct [OF assms, of "replicate n NUL"] by (auto simp: sstr_append_zero_eq)
  with sstr_ok_overwrite [OF s1(2,3), of "replicate n CHR '' ''"] False sstr_ok_length [OF assms]
  show ?thesis by (auto simp: sstr_append_indent_def)
qed (use assms in \<open>simp add: sstr_append_indent_def\<close>)

lemma sstr_new_ok [simp]: "sstr_ok sstr_new" "sstr_content sstr_new = []"
proof -
  have "terminated (sbuf sstr_new) (SHORT_STR_CAPACITY + 1) []"
    by (simp add: terminated_def sstr_new_def replicate_app_Cons_same
        exI [of _ "replicate SHORT_STR_CAPACITY (Some NUL)"])
  then show "sstr_ok sstr_new" "sstr_content sstr_new = []"
    using sstr_okI_short [of sstr_new "[]"] by (simp_all add: sstr_new_def)
qed

lemma sstr_of_correct: "\<exists>s. sstr_of d = Inr s \<and> sstr_ok s \<and> sstr_content s = d"
proof (cases "length d \<le> SHORT_STR_CAPACITY")
  case True
  obtain b1 b2 where b: "mem_write (sbuf sstr_new) 0 (map Some d) = Inr b1"
      "mem_write b1 (length d) [Some NUL] = Inr b2" "terminated b2 (SHORT_STR_CAPACITY + 1) d"
    using write_then_nul [of "sbuf sstr_new" "[]" "replicate (SHORT_STR_CAPACITY + 1) (Some NUL)" d
        "SHORT_STR_CAPACITY + 1" 0 "length d"] True by (auto simp: sstr_new_def)
  then show ?thesis
    using True sstr_okI_short [of "sstr_new\<lparr>sbuf := b2, stype := SSTR_TYPE_SHORT, slength := length d\<rparr>" d]
    by (simp add: sstr_of_def Let_def)
next
  case False
  obtain b1 b2 where b: "mem_write (malloc (length d + 1)) 0 (map Some d) = Inr b1"
      "mem_write b1 (length d) [Some NUL] = Inr b2" "terminated b2 (length d) d"
    using write_then_nul [of "malloc (length d + 1)" "[]" "replicate (length d + 1) None" d
        "length d" 0 "length d"] by (auto simp: malloc_def)
  then show ?thesis
    using False sstr_okI_long [of "sstr_new\<lparr>sbuf := b2, scapacity := length d, stype := SSTR_TYPE_LONG,
        slength := length d\<rparr>" d]
    by (simp add: sstr_of_def Let_def)
qed

lemma mem_bytes_terminated:
  "terminated b n d \<Longrightarrow> i + k \<le> length d \<Longrightarrow> mem_bytes b i k = Inr (take k (drop i d))"
  by (auto simp: terminated_def mem_bytes_def mem_read_def take_map drop_map o_def)

lemma sstr_bytes_at:
  assumes "sstr_ok s" and "i + k \<le> slength s"
  shows "mem_bytes (sbuf s) i k = Inr (take k (drop i (sstr_content s)))"
  using assms(1)
proof (cases rule: sstr_ok_cases)
  case cleared
  then show ?thesis using assms(2) by (simp add: mem_bytes_def mem_read_def)
qed (use assms(2) mem_bytes_terminated in simp_all)

lemma sstr_data_ok: "sstr_ok s \<Longrightarrow> sstr_data s = Inr (sstr_content s)"
  using sstr_bytes_at [of s 0 "slength s"] by (simp add: sstr_data_def sstr_ok_length)

lemma sstr_dup_correct:
  "sstr_ok s \<Longrightarrow> \<exists>s'. sstr_dup s = Inr s' \<and> sstr_ok s' \<and> sstr_content s' = sstr_content s"
  using sstr_of_correct [of "sstr_content s"] by (simp add: sstr_dup_def sstr_data_ok)

lemma terminated_truncate:
  assumes "terminated b n d"
  shows "\<exists>b'. mem_write b 0 [Some NUL] = Inr b' \<and> terminated b' n []"
proof -
  obtain rest where b: "b = Some (map Some d @ rest)" "n \<le> length d + length rest" "rest \<noteq> []"
    using assms by (rule terminatedD)
  then have "mem_write b 0 [Some NUL] = Inr (Some (Some NUL # tl (map Some d @ rest)))"
    by (cases "map Some d @ rest") (auto simp: mem_write_def)
  moreover have "n \<le> length (tl (map Some d @ rest)) + 1" using b by simp
  ultimately show ?thesis by (auto simp: terminated_def)
qed

lemma sstr_ok_emptied:
  assumes "sstr_ok s" and "sbuf s \<noteq> None"
  shows "\<exists>b'. mem_write (sbuf s) 0 [Some NUL] = Inr b' \<and> sstr_ok (s\<lparr>slength := 0, sbuf := b'\<rparr>)
     \<and> sstr_content (s\<lparr>slength := 0, sbuf := b'\<rparr>) = []"
  using assms(1)
proof (cases rule: sstr_ok_cases)
  case short
  then obtain b' where "mem_write (sbuf s) 0 [Some NUL] = Inr b'" "terminated b' (SHORT_STR_CAPACITY + 1) []"
    using terminated_truncate by blast
  with short show ?thesis using sstr_okI_short [of "s\<lparr>slength := 0, sbuf := b'\<rparr>" "[]"] by simp
next
  case cleared
  with assms(2) show ?thesis by simp
next
  case long
  then obtain b' where "mem_write (sbuf s) 0 [Some NUL] = Inr b'" "terminated b' (scapacity s) []"
    using terminated_truncate by blast
  with long show ?thesis using sstr_okI_long [of "s\<lparr>slength := 0, sbuf := b'\<rparr>" "[]"] by simp
qed

lemma sstr_clear_correct:
  assumes "sstr_ok s"
  shows "\<exists>s'. sstr_clear s = Inr s' \<and> sstr_ok s' \<and> sstr_content s' = []"
proof (cases "stype s")
  case SSTR_TYPE_SHORT
  then have "sbuf s \<noteq> None" using assms by (auto simp: sstr_ok_def terminated_def)
  then show ?thesis using sstr_ok_emptied [OF assms] SSTR_TYPE_SHORT by (auto simp: sstr_clear_def)
next
  case SSTR_TYPE_LONG
  then show ?thesis by (simp add: sstr_clear_def sstr_ok_def sstr_content_def)
next
  case SSTR_TYPE_REF
  then show ?thesis using assms by (simp add: sstr_ok_def)
qed

text \<open>
  The inlined clear keeps the heap buffer. It needs one: on a heap string that the library's own
  \<open>sstr_clear\<close> has emptied it stores through a null pointer.
\<close>

lemma sstr_clear_fast_correct:
  assumes "sstr_ok s"
  shows "sstr_clear_fast s = Inl Null_deref \<and> sbuf s = None
     \<or> (\<exists>s'. sstr_clear_fast s = Inr s' \<and> sstr_ok s' \<and> sstr_content s' = [] \<and> sbuf s' \<noteq> None)"
proof (cases "sbuf s = None")
  case True
  with assms have "stype s = SSTR_TYPE_LONG" by (auto simp: sstr_ok_def terminated_def split: sstr_type.splits)
  with True show ?thesis by (simp add: sstr_clear_fast_def mem_write_def)
next
  case False
  obtain b' where b': "mem_write (sbuf s) 0 [Some NUL] = Inr b'" "sstr_ok (s\<lparr>slength := 0, sbuf := b'\<rparr>)"
      "sstr_content (s\<lparr>slength := 0, sbuf := b'\<rparr>) = []"
    using sstr_ok_emptied [OF assms False] by blast
  have "b' \<noteq> None" using b'(1) by (auto simp: mem_write_def split: option.splits if_splits)
  moreover have "stype s \<noteq> SSTR_TYPE_REF" using assms by (auto simp: sstr_ok_def)
  ultimately show ?thesis using b' by (cases "stype s") (simp_all add: sstr_clear_fast_def)
qed

lemma sstr_substr_correct:
  assumes "sstr_ok s"
  shows "\<exists>s'. sstr_substr s i n = Inr s' \<and> sstr_ok s'
     \<and> sstr_content s' = take n (drop i (sstr_content s))"
proof (cases "i > slength s")
  case False
  let ?n = "if i + n > slength s then slength s - i else n"
  have "mem_bytes (sbuf s) i ?n = Inr (take ?n (drop i (sstr_content s)))"
    using False by (intro sstr_bytes_at [OF assms]) auto
  moreover have "take ?n (drop i (sstr_content s)) = take n (drop i (sstr_content s))"
    using False sstr_ok_length [OF assms] by (auto simp: min_def)
  ultimately show ?thesis
    using False sstr_of_correct [of "take n (drop i (sstr_content s))"]
    by (simp add: sstr_substr_def Let_def)
qed (use sstr_ok_length [OF assms] in \<open>simp add: sstr_substr_def\<close>)


section \<open>Properties\<close>

text \<open>The mutating interface of the library, as data.\<close>

datatype sstr_op = AppendOf string | AppendCstr string | AppendZero nat | AppendIndent nat
  | AppendOfIf string bool | AppendOfFast string | Clear

fun sstr_apply :: "sstr_op \<Rightarrow> sstr \<Rightarrow> fault + sstr" where
  "sstr_apply (AppendOf d) s = sstr_append_of s d"
| "sstr_apply (AppendCstr d) s = sstr_append_cstr s d"
| "sstr_apply (AppendZero n) s = sstr_append_zero s n"
| "sstr_apply (AppendIndent n) s = sstr_append_indent s n"
| "sstr_apply (AppendOfIf d b) s = sstr_append_of_if s d b"
| "sstr_apply (AppendOfFast d) s = sstr_append_of_fast s d"
| "sstr_apply Clear s = sstr_clear s"

fun sstr_run :: "sstr_op list \<Rightarrow> sstr \<Rightarrow> fault + sstr" where
  "sstr_run [] s = Inr s"
| "sstr_run (x # xs) s = bindE (sstr_apply x s) (sstr_run xs)"

text \<open>What the operations mean on the content.\<close>

fun content_apply :: "sstr_op \<Rightarrow> string \<Rightarrow> string" where
  "content_apply (AppendOf d) c = c @ d"
| "content_apply (AppendCstr d) c = c @ cstr d"
| "content_apply (AppendZero n) c = c @ replicate n NUL"
| "content_apply (AppendIndent n) c = c @ replicate n CHR '' ''"
| "content_apply (AppendOfIf d b) c = (if b then c @ d else c)"
| "content_apply (AppendOfFast d) c = c @ d"
| "content_apply Clear c = []"

lemma sstr_apply_correct:
  "sstr_ok s \<Longrightarrow> \<exists>s'. sstr_apply x s = Inr s' \<and> sstr_ok s' \<and> sstr_content s' = content_apply x (sstr_content s)"
  using sstr_append_of_correct [of s] sstr_append_indent_correct [of s] sstr_clear_correct [of s]
  by (cases x) (simp_all add: sstr_append_cstr_def sstr_append_of_if_def sstr_append_zero_eq
      sstr_append_of_fast_eq_append_of)

lemma sstr_run_correct:
  "sstr_ok s \<Longrightarrow> \<exists>s'. sstr_run xs s = Inr s' \<and> sstr_ok s' \<and> sstr_content s' = fold content_apply xs (sstr_content s)"
proof (induction xs arbitrary: s)
  case (Cons x xs)
  obtain s1 where s1: "sstr_apply x s = Inr s1" "sstr_ok s1" "sstr_content s1 = content_apply x (sstr_content s)"
    using sstr_apply_correct [OF Cons.prems] by blast
  then show ?case using Cons.IH [OF s1(2)] by simp
qed simp

lemma sstr_ok_terminator: "sstr_ok s \<Longrightarrow> sbuf s = None \<or> mem_bytes (sbuf s) (slength s) 1 = Inr [NUL]"
  by (erule sstr_ok_cases) (auto simp: terminated_def mem_bytes_def mem_read_def)

text \<open>
  C17. Memory safety and functional correctness of the string buffer: every sequence of appends,
  indents and clears on a new string runs without an out-of-bounds access, an access through a null
  pointer or a read of uninitialised memory; the bytes of the result are those of the reference run
  on character lists, and the byte behind them is the terminating NUL (unless the buffer was freed
  by a clear).
\<close>

theorem sstr_run_memory_safe:
  "\<exists>s. sstr_run ops sstr_new = Inr s \<and> sstr_data s = Inr (fold content_apply ops [])
     \<and> (sbuf s = None \<or> mem_bytes (sbuf s) (slength s) 1 = Inr [NUL])"
  using sstr_run_correct [of sstr_new ops] sstr_data_ok sstr_ok_terminator by fastforce

text \<open>
  The inlined append of the generated parsers computes exactly the state \<open>sstr_append_of\<close> computes,
  on every string, faults included.
\<close>

theorem sstr_append_of_fast_equiv: "sstr_append_of_fast s d = sstr_append_of s d"
  by (rule sstr_append_of_fast_eq_append_of)

text \<open>
  \<open>sstr_substr\<close> of a string built by the library never reads outside it and returns the requested
  window of its bytes, clipped at the end, for every index and length.
\<close>

theorem sstr_substr_window:
  "\<exists>s s'. sstr_run ops sstr_new = Inr s \<and> sstr_substr s i n = Inr s'
     \<and> sstr_data s' = Inr (take n (drop i (fold content_apply ops [])))"
  using sstr_run_correct [of sstr_new ops] sstr_substr_correct [of _ i n] sstr_data_ok by fastforce

end
