(* ===== verification/SstrText.thy ===== *)
theory SstrText
  imports Sstr
begin

text \<open>
  The text side of \<open>src/utils/sstr.c\<close>: comparison, number printing, number parsing and JSON escaping,
  over the buffers of \<^theory_text>\<open>Sstr\<close>.
\<close>

section \<open>Comparison\<close>

text \<open>
  \<open>memcmp\<close> on two blocks of at least \<open>n\<close> bytes: the difference of the first pair of bytes that
  differ (the C standard fixes only its sign, and only the sign is used).
\<close>

fun memcmp :: "string \<Rightarrow> string \<Rightarrow> nat \<Rightarrow> int" where
  "memcmp (x # xs) (y # ys) (Suc n) =
     (if x \<noteq> y then int (ord x) - int (ord y) else memcmp xs ys n)"
| "memcmp _ _ _ = 0"

text \<open>The arguments are the bytes of the two strings; \<open>None\<close> is a null pointer.\<close>

definition sstr_compare :: "string option \<Rightarrow> string option \<Rightarrow> int" where
  "sstr_compare a b = (case (a, b) of
     (None, None) \<Rightarrow> 0
   | (None, Some _) \<Rightarrow> -1
   | (Some _, None) \<Rightarrow> 1
   | (Some a, Some b) \<Rightarrow>
       (let alen = length a; blen = length b;
            minlen = (if alen > blen then blen else alen);
            c = memcmp a b minlen
        in if c \<noteq> 0 then c else if alen = blen then 0 else if alen > blen then 1 else -1))"

definition sstr_compare_c :: "string \<Rightarrow> string \<Rightarrow> int" where
  "sstr_compare_c a b =
     (let alen = length a; blen = length (cstr b);
          minlen = (if alen > blen then blen else alen);
          c = memcmp a (cstr b) minlen
      in if c \<noteq> 0 then c else if alen = blen then 0 else if alen > blen then 1 else -1)"

lemma cstr_whole: "NUL \<notin> set s \<Longrightarrow> cstr s = s"
  by (induction s) (auto simp: cstr_def)

lemma sstr_compare_Cons:
  "sstr_compare (Some (x # xs)) (Some (y # ys)) =
     (if x \<noteq> y then int (ord x) - int (ord y) else sstr_compare (Some xs) (Some ys))"
  by (simp add: sstr_compare_def Let_def)

lemma sstr_compare_Nil:
  "sstr_compare (Some []) (Some []) = 0"
  "sstr_compare (Some []) (Some (y # ys)) = -1"
  "sstr_compare (Some (x # xs)) (Some []) = 1"
  by (simp_all add: sstr_compare_def)

lemmas sstr_compare_simps = sstr_compare_Cons sstr_compare_Nil

lemma ord_eq_iff: "ord x = ord y \<longleftrightarrow> x = y"
  by (metis char_of_char)

text \<open>The order \<open>sstr_compare\<close> decides: lexicographic on unsigned bytes.\<close>

definition byte_less :: "(char \<times> char) set" where
  "byte_less = {(x, y). ord x < ord y}"

lemma sstr_compare_lexord:
  "(sstr_compare (Some a) (Some b) = 0 \<longleftrightarrow> a = b)
   \<and> (sstr_compare (Some a) (Some b) < 0 \<longleftrightarrow> (a, b) \<in> lexord byte_less)
   \<and> (sstr_compare (Some a) (Some b) > 0 \<longleftrightarrow> (b, a) \<in> lexord byte_less)"
proof (induction a arbitrary: b)
  case Nil
  then show ?case by (cases b) (simp_all add: sstr_compare_simps)
next
  case (Cons x xs)
  then show ?case
    by (cases b) (auto simp: sstr_compare_simps byte_less_def ord_eq_iff)
qed

lemma sstr_compare_eq_0: "sstr_compare (Some a) (Some b) = 0 \<longleftrightarrow> a = b"
  using sstr_compare_lexord by blast

lemma sstr_compare_c_eq: "sstr_compare_c a b = sstr_compare (Some a) (Some (cstr b))"
  by (simp add: sstr_compare_c_def sstr_compare_def)

lemma sstr_compare_c_eq_0: "sstr_compare_c a b = 0 \<longleftrightarrow> a = cstr b"
  by (simp add: sstr_compare_c_eq sstr_compare_eq_0)

section \<open>Printing numbers\<close>

definition SSTR_INT32_LEN :: nat where "SSTR_INT32_LEN = length ''-2147483648''"
definition SSTR_INT64_LEN :: nat where "SSTR_INT64_LEN = length ''-9223372036854775808''"

definition digit_char :: "nat \<Rightarrow> char" where
  "digit_char d = char_of (d + ord CHR ''0'')"

text \<open>\<open>hex[d]\<close> and \<open>HEX[d]\<close>.\<close>

definition hex_digit :: "bool \<Rightarrow> nat \<Rightarrow> char" where
  "hex_digit cap d = (if cap then ''0123456789ABCDEF'' ! d else ''0123456789abcdef'' ! d)"

definition char_to_hex :: "char \<Rightarrow> bool \<Rightarrow> string" where
  "char_to_hex c cap = [hex_digit cap (ord c div 16), hex_digit cap (ord c mod 16)]"

text \<open>
  The loop \<open>do *--p = digit; while (u /= base)\<close> over a local array with \<open>room\<close> bytes below \<open>p\<close>:
  a store below the array is out of bounds.
\<close>

fun digit_loop :: "nat \<Rightarrow> (nat \<Rightarrow> char) \<Rightarrow> nat \<Rightarrow> nat \<Rightarrow> string \<Rightarrow> fault + string" where
  "digit_loop base dig 0 u acc = Inl Out_of_bounds"
| "digit_loop base dig (Suc room) u acc =
     (let acc' = dig (u mod base) # acc
      in if u div base = 0 then Inr acc' else digit_loop base dig room (u div base) acc')"

definition sstr_append_int_str :: "sstr \<Rightarrow> u32 \<Rightarrow> fault + sstr" where
  "sstr_append_int_str s i =
     (let negative = sint i < 0; ui32 = (if negative then 0 - i else i)
      in bindE (digit_loop 10 digit_char SSTR_INT32_LEN (unat ui32) []) (\<lambda>ds.
         bindE (if negative then sstr_append_of s ''-'' else Inr s) (\<lambda>s1. sstr_append_of s1 ds)))"

definition sstr_append_long_str :: "sstr \<Rightarrow> u64 \<Rightarrow> fault + sstr" where
  "sstr_append_long_str s l =
     (let negative = sint l < 0; ui64 = (if negative then 0 - l else l)
      in bindE (digit_loop 10 digit_char SSTR_INT64_LEN (unat ui64) []) (\<lambda>ds.
         bindE (if negative then sstr_append_of s ''-'' else Inr s) (\<lambda>s1. sstr_append_of s1 ds)))"

definition sstr_append_uint32_str :: "sstr \<Rightarrow> u32 \<Rightarrow> fault + sstr" where
  "sstr_append_uint32_str s u =
     bindE (digit_loop 10 digit_char SSTR_INT32_LEN (unat u) []) (sstr_append_of s)"

definition sstr_append_uint64_str :: "sstr \<Rightarrow> u64 \<Rightarrow> fault + sstr" where
  "sstr_append_uint64_str s u =
     bindE (digit_loop 10 digit_char SSTR_INT64_LEN (unat u) []) (sstr_append_of s)"

text \<open>
  \<open>sstr_sprintf_num(buf, last, ui64, zero, hexadecimal, width)\<close>: the bytes it stores from \<open>buf\<close> on,
  with \<open>cap = last - buf\<close>. Decimal digits below \<open>2 ^ 32\<close> are computed in 32 bits by the code, with
  the same value.
\<close>

definition sstr_sprintf_num :: "nat \<Rightarrow> u64 \<Rightarrow> char \<Rightarrow> nat \<Rightarrow> nat \<Rightarrow> fault + string" where
  "sstr_sprintf_num cap ui64 zero hexadecimal width =
     bindE (if hexadecimal = 0 then digit_loop 10 digit_char SSTR_INT64_LEN (unat ui64) []
            else if hexadecimal = 1 then digit_loop 16 (hex_digit False) SSTR_INT64_LEN (unat ui64) []
            else digit_loop 16 (hex_digit True) SSTR_INT64_LEN (unat ui64) [])
       (\<lambda>ds. let pad = min (width - length ds) cap
             in Inr (replicate pad zero @ take (cap - pad) ds))"

subsection \<open>The numerals\<close>

function numeral_str :: "nat \<Rightarrow> (nat \<Rightarrow> char) \<Rightarrow> nat \<Rightarrow> string" where
  "numeral_str base dig n =
     (if base < 2 \<or> n div base = 0 then [dig (n mod base)]
      else numeral_str base dig (n div base) @ [dig (n mod base)])"
  by pat_completeness auto
termination
  by (relation "measure (\<lambda>(base, dig, n). n)") (auto simp: div_eq_0_iff intro!: div_less_dividend)

declare numeral_str.simps [simp del]

lemma digit_loop_numeral:
  assumes "1 < base" and "n < base ^ Suc room"
  shows "digit_loop base dig (Suc room) n acc = Inr (numeral_str base dig n @ acc)"
  using assms(2)
proof (induction room arbitrary: n acc)
  case 0
  then show ?case by (simp add: numeral_str.simps)
next
  case (Suc room)
  show ?case
  proof (cases "n div base = 0")
    case True
    then show ?thesis by (simp add: numeral_str.simps Let_def)
  next
    case False
    have "n div base < base ^ Suc room"
      using Suc.prems assms(1) by (simp add: less_mult_imp_div_less ac_simps)
    then have "digit_loop base dig (Suc room) (n div base) (dig (n mod base) # acc)
        = Inr (numeral_str base dig (n div base) @ dig (n mod base) # acc)"
      by (rule Suc.IH)
    then show ?thesis using False assms(1)
      by (subst digit_loop.simps) (simp add: Let_def numeral_str.simps [of base dig n] del: digit_loop.simps)
  qed
qed

definition dec_str :: "nat \<Rightarrow> string" where
  "dec_str n = numeral_str 10 digit_char n"

definition show_int :: "int \<Rightarrow> string" where
  "show_int i = (if i < 0 then CHR ''-'' # dec_str (nat (- i)) else dec_str (nat i))"

lemma SSTR_LEN_Suc: "SSTR_INT32_LEN = Suc 10" "SSTR_INT64_LEN = Suc 19"
  by (simp_all add: SSTR_INT32_LEN_def SSTR_INT64_LEN_def)

lemma digit_loop_dec32: "n < 2 ^ 32 \<Longrightarrow> digit_loop 10 digit_char SSTR_INT32_LEN n [] = Inr (dec_str n)"
  unfolding SSTR_LEN_Suc dec_str_def by (subst digit_loop_numeral) simp_all

lemma digit_loop_dec64: "n < 2 ^ 64 \<Longrightarrow> digit_loop 10 digit_char SSTR_INT64_LEN n [] = Inr (dec_str n)"
  unfolding SSTR_LEN_Suc dec_str_def by (subst digit_loop_numeral) simp_all

subsection \<open>The printers never leave their buffers\<close>

lemma uint_minus_sint_neg:
  fixes i :: "'a::len word"
  assumes "sint i < 0"
  shows "unat (- i) = nat (- sint i)"
proof -
  have "- (2 ^ (LENGTH('a) - 1)) \<le> sint i" by (rule sint_ge)
  moreover have "(2::int) ^ (LENGTH('a) - 1) < 2 ^ LENGTH('a)" by (rule power_strict_increasing) simp_all
  ultimately have "take_bit LENGTH('a) (- sint i) = - sint i"
    using assms by (intro take_bit_int_eq_self) linarith+
  moreover have "- i = word_of_int (- sint i)" by simp
  ultimately have "uint (- i) = - sint i" by (metis uint_word_of_int_eq)
  then show ?thesis by (simp flip: nat_uint_eq)
qed

lemma unat_sint_nonneg:
  fixes i :: "'a::len word"
  assumes "\<not> sint i < 0"
  shows "unat i = nat (sint i)"
proof -
  have "sint i < 2 ^ (LENGTH('a) - 1)" by (rule sint_lt)
  moreover have "(2::int) ^ (LENGTH('a) - 1) < 2 ^ LENGTH('a)" by (rule power_strict_increasing) simp_all
  ultimately have "take_bit LENGTH('a) (sint i) = sint i"
    using assms by (intro take_bit_int_eq_self) linarith+
  moreover have "i = word_of_int (sint i)" by simp
  ultimately have "uint i = sint i" by (metis uint_word_of_int_eq)
  then show ?thesis by (simp flip: nat_uint_eq)
qed

lemma show_int_sint:
  "show_int (sint i) = (if sint i < 0 then CHR ''-'' # dec_str (unat (- i)) else dec_str (unat i))"
  by (simp add: show_int_def uint_minus_sint_neg unat_sint_nonneg)

lemma digit_loop_u32 [simp]: "digit_loop 10 digit_char SSTR_INT32_LEN (unat (w::u32)) [] = Inr (dec_str (unat w))"
  using unsigned_less [where ?'a = nat and w = w] by (intro digit_loop_dec32) simp

lemma digit_loop_u64 [simp]: "digit_loop 10 digit_char SSTR_INT64_LEN (unat (w::u64)) [] = Inr (dec_str (unat w))"
  using unsigned_less [where ?'a = nat and w = w] by (intro digit_loop_dec64) simp

lemma sstr_append_signed:
  assumes "sstr_ok s"
  shows "\<exists>s'. bindE (if neg then sstr_append_of s ''-'' else Inr s) (\<lambda>s1. sstr_append_of s1 ds) = Inr s'
      \<and> sstr_ok s' \<and> sstr_content s' = sstr_content s @ (if neg then CHR ''-'' # ds else ds)"
  using sstr_sink.chunks_total [OF assms, of "[''-'', ds]"] sstr_sink.chunks_total [OF assms, of "[ds]"]
  by (auto simp: bindE_Inr_conv)

lemma sstr_append_int_str_correct:
  assumes "sstr_ok s"
  shows "\<exists>s'. sstr_append_int_str s i = Inr s' \<and> sstr_ok s' \<and> sstr_content s' = sstr_content s @ show_int (sint i)"
  using sstr_append_signed [OF assms, of "sint i < 0" "dec_str (unat (if sint i < 0 then - i else i))"]
  by (auto simp: sstr_append_int_str_def Let_def show_int_sint)

lemma sstr_append_long_str_correct:
  assumes "sstr_ok s"
  shows "\<exists>s'. sstr_append_long_str s i = Inr s' \<and> sstr_ok s' \<and> sstr_content s' = sstr_content s @ show_int (sint i)"
  using sstr_append_signed [OF assms, of "sint i < 0" "dec_str (unat (if sint i < 0 then - i else i))"]
  by (auto simp: sstr_append_long_str_def Let_def show_int_sint)

lemma sstr_append_uint32_str_correct:
  assumes "sstr_ok s"
  shows "\<exists>s'. sstr_append_uint32_str s u = Inr s' \<and> sstr_ok s' \<and> sstr_content s' = sstr_content s @ dec_str (unat u)"
  using sstr_append_of_correct [OF assms, of "dec_str (unat u)"]
  by (auto simp: sstr_append_uint32_str_def)

lemma sstr_append_uint64_str_correct:
  assumes "sstr_ok s"
  shows "\<exists>s'. sstr_append_uint64_str s u = Inr s' \<and> sstr_ok s' \<and> sstr_content s' = sstr_content s @ dec_str (unat u)"
  using sstr_append_of_correct [OF assms, of "dec_str (unat u)"]
  by (auto simp: sstr_append_uint64_str_def)

subsection \<open>Reading a numeral back\<close>

definition dec_value :: "string \<Rightarrow> nat" where
  "dec_value s = foldl (\<lambda>a c. a * 10 + (ord c - ord CHR ''0'')) 0 s"

definition int_value :: "string \<Rightarrow> int" where
  "int_value s = (case s of [] \<Rightarrow> 0 | c # cs \<Rightarrow>
     if c = CHR ''-'' then - int (dec_value cs) else int (dec_value s))"

definition is_digit :: "char \<Rightarrow> bool" where
  "is_digit c \<longleftrightarrow> ord CHR ''0'' \<le> ord c \<and> ord c \<le> ord CHR ''9''"

lemma ord_digit_char: "d < 10 \<Longrightarrow> ord (digit_char d) = d + 48"
  by (simp add: digit_char_def)

lemma dec_str_ne [simp]: "dec_str n \<noteq> []"
  by (simp add: dec_str_def numeral_str.simps [of 10 digit_char n])

lemma dec_str_step: "n div 10 \<noteq> 0 \<Longrightarrow> dec_str n = dec_str (n div 10) @ [digit_char (n mod 10)]"
  by (simp add: dec_str_def numeral_str.simps [of 10 digit_char n])

lemma dec_str_digit: "n div 10 = 0 \<Longrightarrow> dec_str n = [digit_char (n mod 10)]"
  by (simp add: dec_str_def numeral_str.simps [of 10 digit_char n])

lemma is_digit_digit_char: "d < 10 \<Longrightarrow> is_digit (digit_char d)"
  by (simp add: is_digit_def ord_digit_char)

lemma dec_str_induct [case_names digit step]:
  assumes "\<And>n. n div 10 = 0 \<Longrightarrow> P n" and "\<And>n. n div 10 \<noteq> 0 \<Longrightarrow> P (n div 10) \<Longrightarrow> P (n::nat)"
  shows "P n"
proof (induction n rule: less_induct)
  case (less n)
  show ?case
  proof (cases "n div 10 = 0")
    case False
    then have "n div 10 < n" by (cases n) auto
    then show ?thesis using False less assms(2) by blast
  qed (rule assms(1))
qed

lemma dec_value_dec_str [simp]: "dec_value (dec_str n) = n"
proof (induction n rule: dec_str_induct)
  case (digit n)
  then show ?case by (simp add: dec_str_digit dec_value_def ord_digit_char)
next
  case (step n)
  then show ?case by (simp add: dec_str_step dec_value_def ord_digit_char)
qed

lemma dec_str_digits: "list_all is_digit (dec_str n)"
proof (induction n rule: dec_str_induct)
  case (digit n)
  then show ?case by (simp add: dec_str_digit is_digit_digit_char)
next
  case (step n)
  then show ?case by (simp add: dec_str_step is_digit_digit_char)
qed

lemma dec_str_hd_ne_minus: "hd (dec_str n) \<noteq> CHR ''-''"
  using dec_str_digits [of n] dec_str_ne [of n]
  by (cases "dec_str n") (auto simp: is_digit_def)

lemma int_value_show_int: "int_value (show_int i) = i"
proof (cases "i < 0")
  case True
  then show ?thesis by (simp add: show_int_def int_value_def)
next
  case False
  obtain c cs where c: "dec_str (nat i) = c # cs" "c \<noteq> CHR ''-''"
    using dec_str_hd_ne_minus [of "nat i"] dec_str_ne [of "nat i"]
    by (cases "dec_str (nat i)") simp_all
  have "int_value (show_int i) = int (dec_value (dec_str (nat i)))"
    using False c by (simp add: show_int_def int_value_def)
  then show ?thesis using False by simp
qed

section \<open>Floating point\<close>

text \<open>
  The text of a \<open>float\<close> or \<open>double\<close> is the C library's: \<open>fmt_g p f\<close> stands for what
  \<open>snprintf("%.\<open>p\<close>g", f)\<close> writes into an unbounded buffer. Its return value is the length of that
  text; the local buffer holds a prefix of it and a terminator.
\<close>

definition sstr_append_float_str :: "(nat \<Rightarrow> 'd \<Rightarrow> string) \<Rightarrow> sstr \<Rightarrow> 'd \<Rightarrow> fault + sstr" where
  "sstr_append_float_str fmt_g s f =
     (let txt = fmt_g 9 f; len = length txt; buf = take 63 txt
      in if 0 < len \<and> len < 64 then sstr_append_of s (take len buf) else sstr_append_cstr s ''0'')"

definition sstr_append_double_str :: "(nat \<Rightarrow> 'd \<Rightarrow> string) \<Rightarrow> sstr \<Rightarrow> 'd \<Rightarrow> fault + sstr" where
  "sstr_append_double_str fmt_g s f =
     (let txt = fmt_g 17 f; len = length txt; buf = take 127 txt
      in if 0 < len \<and> len < 128 then sstr_append_of s (take len buf) else sstr_append_cstr s ''0'')"

section \<open>Parsing numbers\<close>

text \<open>\<open>isspace\<close> and \<open>isdigit\<close> of the C locale.\<close>

definition is_space :: "char \<Rightarrow> bool" where
  "is_space c \<longleftrightarrow> c \<in> {CHR '' '', CHR 0x09, CHR 0x0A, CHR 0x0B, CHR 0x0C, CHR 0x0D}"

text \<open>
  The first loop of \<open>sstr_parse_long\<close> has no \<open>break\<close>: it runs to the end of the string, and the
  second loop starts where it stopped. \<open>None\<close> is the failed assertion of \<open>sstr_size_to_int\<close>.
\<close>

fun parse_long_sign :: "string \<Rightarrow> nat \<Rightarrow> bool \<Rightarrow> nat \<times> bool" where
  "parse_long_sign [] i negative = (i, negative)"
| "parse_long_sign (c # p) i negative =
     (if is_space c then parse_long_sign p (Suc i) negative
      else parse_long_sign p (Suc i) (if c = CHR ''-'' then True else negative))"

fun parse_long_digits :: "string \<Rightarrow> nat \<Rightarrow> u64 \<Rightarrow> nat \<times> u64" where
  "parse_long_digits [] i v = (i, v)"
| "parse_long_digits (c # p) i v =
     parse_long_digits p (Suc i)
       (if is_digit c then v * 10 + of_nat (ord c) - of_nat (ord CHR ''0'') else v)"

definition sstr_size_to_int :: "nat \<Rightarrow> fault + int" where
  "sstr_size_to_int value = (if value \<le> 2147483647 then Inr (int value) else Inl Assert_failed)"

definition sstr_parse_long :: "string \<Rightarrow> fault + int \<times> u64" where
  "sstr_parse_long s =
     (let (i, negative) = parse_long_sign s 0 False;
          (i, v) = parse_long_digits (drop i s) i 0;
          v = (if negative then - v else v)
      in bindE (sstr_size_to_int i) (\<lambda>r. Inr (r, v)))"

definition sstr_parse_int :: "string \<Rightarrow> fault + int \<times> u32" where
  "sstr_parse_int s = bindE (sstr_parse_long s) (\<lambda>(r, vr). Inr (r, ucast vr))"

lemma parse_long_sign_index: "fst (parse_long_sign p i neg) = i + length p"
  by (induction p i neg rule: parse_long_sign.induct) auto

section \<open>JSON escaping\<close>

definition needs_escape :: "char \<Rightarrow> bool" where
  "needs_escape c \<longleftrightarrow> ord c \<le> 31 \<or> c = CHR 0x22 \<or> c = CHR 0x5C"

text \<open>\<open>snprintf("%04x")\<close> of a byte.\<close>

definition hex4 :: "nat \<Rightarrow> string" where
  "hex4 n = map (hex_digit False) [n div 4096 mod 16, n div 256 mod 16, n div 16 mod 16, n mod 16]"

definition json_escape_char :: "char \<Rightarrow> string" where
  "json_escape_char c =
     (if c = CHR 0x5C then [CHR 0x5C, CHR 0x5C]
      else if c = CHR 0x22 then [CHR 0x5C, CHR 0x22]
      else if c = CHR 0x08 then [CHR 0x5C, CHR ''b'']
      else if c = CHR 0x0C then [CHR 0x5C, CHR ''f'']
      else if c = CHR 0x0A then [CHR 0x5C, CHR ''n'']
      else if c = CHR 0x0D then [CHR 0x5C, CHR ''r'']
      else if c = CHR 0x09 then [CHR 0x5C, CHR ''t'']
      else [CHR 0x5C, CHR ''u''] @ hex4 (ord c))"

text \<open>The loop from the first byte that needs an escape: clean runs are appended whole.\<close>

function escape_loop :: "sstr \<Rightarrow> string \<Rightarrow> fault + sstr" where
  "escape_loop out [] = Inr out"
| "escape_loop out (c # d) =
     (if needs_escape c then bindE (sstr_append_of out (json_escape_char c)) (\<lambda>out'. escape_loop out' d)
      else bindE (sstr_append_of out (c # takeWhile (\<lambda>x. \<not> needs_escape x) d))
             (\<lambda>out'. escape_loop out' (dropWhile (\<lambda>x. \<not> needs_escape x) d)))"
  by pat_completeness auto
termination
  by (relation "measure (length \<circ> snd)") (auto simp: le_imp_less_Suc length_dropWhile_le)

definition sstr_json_escape_string_append :: "sstr \<Rightarrow> string option \<Rightarrow> fault + sstr" where
  "sstr_json_escape_string_append out in_str = (case in_str of
     None \<Rightarrow> Inr out
   | Some data \<Rightarrow>
       (let in_len = length data; first_esc = length (takeWhile (\<lambda>x. \<not> needs_escape x) data)
        in if first_esc = in_len then sstr_append_of out data
           else bindE (if first_esc > 0 then sstr_append_of out (take first_esc data) else Inr out)
                  (\<lambda>out'. escape_loop out' (drop first_esc data))))"

text \<open>The reference: every byte on its own.\<close>

definition json_escape :: "string \<Rightarrow> string" where
  "json_escape s = concat (map (\<lambda>c. if needs_escape c then json_escape_char c else [c]) s)"

lemma json_escape_append: "json_escape (a @ b) = json_escape a @ json_escape b"
  by (simp add: json_escape_def)

lemma json_escape_clean: "list_all (\<lambda>c. \<not> needs_escape c) s \<Longrightarrow> json_escape s = s"
  by (induction s) (auto simp: json_escape_def)

lemma json_escape_takeWhile:
  "json_escape s = takeWhile (\<lambda>x. \<not> needs_escape x) s @ json_escape (dropWhile (\<lambda>x. \<not> needs_escape x) s)"
  by (induction s) (auto simp: json_escape_def)

lemma json_escape_Nil [simp]: "json_escape [] = []"
  by (simp add: json_escape_def)

lemma json_escape_Cons: "json_escape (c # s) = (if needs_escape c then json_escape_char c else [c]) @ json_escape s"
  by (simp add: json_escape_def)

lemma escape_loop_correct:
  "sstr_ok out \<Longrightarrow> \<exists>out'. escape_loop out d = Inr out' \<and> sstr_ok out'
     \<and> sstr_content out' = sstr_content out @ json_escape d"
proof (induction out d rule: escape_loop.induct)
  case (2 out c d)
  show ?case
  proof (cases "needs_escape c")
    case True
    obtain s1 where "sstr_append_of out (json_escape_char c) = Inr s1" "sstr_ok s1"
        "sstr_content s1 = sstr_content out @ json_escape_char c"
      using sstr_append_of_correct [OF 2(3)] by blast
    then show ?thesis using 2(1) [OF True, of s1] True by (auto simp: json_escape_Cons)
  next
    case False
    let ?run = "c # takeWhile (\<lambda>x. \<not> needs_escape x) d"
    obtain s1 where "sstr_append_of out ?run = Inr s1" "sstr_ok s1"
        "sstr_content s1 = sstr_content out @ ?run"
      using sstr_append_of_correct [OF 2(3)] by blast
    then show ?thesis
      using 2(2) [OF False, of s1] False json_escape_takeWhile [of d] by (auto simp: json_escape_Cons)
  qed
qed simp

lemma sstr_json_escape_correct:
  assumes "sstr_ok out"
  shows "\<exists>out'. sstr_json_escape_string_append out (Some d) = Inr out' \<and> sstr_ok out'
     \<and> sstr_content out' = sstr_content out @ json_escape d"
proof (cases "length (takeWhile (\<lambda>x. \<not> needs_escape x) d) = length d")
  case True
  then have "json_escape d = d"
    by (metis json_escape_clean list_all_iff takeWhile_eq_all_conv takeWhile_eq_take take_all_iff order_refl)
  then show ?thesis using True sstr_append_of_correct [OF assms, of d]
    by (auto simp: sstr_json_escape_string_append_def Let_def)
next
  case False
  let ?n = "length (takeWhile (\<lambda>x. \<not> needs_escape x) d)"
  have parts: "take ?n d = takeWhile (\<lambda>x. \<not> needs_escape x) d" "drop ?n d = dropWhile (\<lambda>x. \<not> needs_escape x) d"
    by (metis takeWhile_eq_take) (metis dropWhile_eq_drop)
  obtain s1 where s1: "(if ?n > 0 then sstr_append_of out (take ?n d) else Inr out) = Inr s1" "sstr_ok s1"
      "sstr_content s1 = sstr_content out @ take ?n d"
    using sstr_append_of_correct [OF assms, of "take ?n d"] assms by (cases "?n > 0") auto
  then show ?thesis
    using False escape_loop_correct [OF s1(2), of "drop ?n d"] json_escape_takeWhile [of d]
    by (auto simp: sstr_json_escape_string_append_def Let_def parts)
qed

lemma hex_digit_printable: "d < 16 \<Longrightarrow> 31 < ord (hex_digit cap d)"
proof -
  assume "d < 16"
  then have "d \<in> set [0..<16]" by simp
  moreover have "\<forall>d \<in> set [0..<16]. 31 < ord (hex_digit cap d)" by (cases cap) (simp_all add: hex_digit_def upt_rec)
  ultimately show ?thesis by blast
qed

lemma json_escape_no_control: "list_all (\<lambda>c. 31 < ord c) (json_escape d)"
proof (induction d)
  case (Cons c d)
  then show ?case
    by (auto simp: json_escape_Cons json_escape_char_def hex4_def hex_digit_printable needs_escape_def)
qed simp

section \<open>Properties\<close>

text \<open>
  \<open>sstr_compare\<close> decides the lexicographic order of the two strings taken as unsigned bytes: zero
  exactly on equal strings, negative exactly when the first is smaller, positive exactly when the
  second is; a null string is below every string and equal to itself.
\<close>
theorem sstr_compare_total_order:
  "(sstr_compare a b = 0 \<longleftrightarrow> a = b)
   \<and> (sstr_compare a b < 0 \<longleftrightarrow>
        (case (a, b) of (Some x, Some y) \<Rightarrow> (x, y) \<in> lexord byte_less | (None, Some _) \<Rightarrow> True | _ \<Rightarrow> False))
   \<and> (sstr_compare a b > 0 \<longleftrightarrow> sstr_compare b a < 0)"
  using sstr_compare_lexord [of "the a" "the b"] sstr_compare_lexord [of "the b" "the a"]
  by (cases a; cases b) (auto simp: sstr_compare_def)

text \<open>
  \<open>sstr_append_long_str\<close> writes the decimal numeral of its argument for every 64-bit value, the
  minimum included: its local buffer is never left, the numeral is appended to the old content, and
  reading it gives the argument back.
\<close>
theorem sstr_append_long_str_roundtrip:
  assumes "sstr_ok s"
  shows "\<exists>s'. sstr_append_long_str s l = Inr s' \<and> sstr_ok s'
           \<and> take (length (sstr_content s)) (sstr_content s') = sstr_content s
           \<and> int_value (drop (length (sstr_content s)) (sstr_content s')) = sint l"
  using sstr_append_long_str_correct [OF assms, of l] by (auto simp: int_value_show_int)

lemma sstr_append_long_str_roundtrip_witness:
  "\<exists>s'. sstr_append_long_str sstr_new (- 0x8000000000000000) = Inr s'
     \<and> int_value (sstr_content s') = - 9223372036854775808"
  using sstr_append_long_str_roundtrip [of sstr_new "- 0x8000000000000000"] by auto

text \<open>
  C21. \<open>sstr_json_escape_string_append\<close>, with its fast path, its clean prefix and its runs, appends
  exactly what escaping every byte on its own gives, and what it appends has no control byte.
\<close>
theorem json_escape_equiv:
  assumes "sstr_ok out"
  shows "\<exists>out'. sstr_json_escape_string_append out (Some d) = Inr out' \<and> sstr_ok out'
     \<and> sstr_content out' = sstr_content out @ json_escape d \<and> list_all (\<lambda>c. 31 < ord c) (json_escape d)"
  using sstr_json_escape_correct [OF assms, of d] json_escape_no_control [of d] by blast

lemma json_escape_equiv_witness:
  "\<exists>out'. sstr_json_escape_string_append sstr_new (Some [CHR ''a'', CHR 0x0A, CHR 0x01]) = Inr out'
     \<and> sstr_content out' = [CHR ''a'', CHR 0x5C, CHR ''n'', CHR 0x5C, CHR ''u'', CHR ''0'', CHR ''0'', CHR ''0'', CHR ''1'']"
  using json_escape_equiv [of sstr_new "[CHR ''a'', CHR 0x0A, CHR 0x01]"]
  by (auto simp: json_escape_def needs_escape_def json_escape_char_def hex4_def hex_digit_def)

text \<open>
  \<open>sstr_parse_long\<close> reads no digit: whatever the string, the value is zero and the count returned
  is the whole length (the first loop has no exit, so the digit loop starts past the end).
\<close>
theorem sstr_parse_long_reads_nothing:
  assumes "length s \<le> 2147483647"
  shows "sstr_parse_long s = Inr (int (length s), 0) \<and> sstr_parse_int s = Inr (int (length s), 0)"
  using assms parse_long_sign_index [of s 0 False]
  by (auto simp: sstr_parse_long_def sstr_parse_int_def sstr_size_to_int_def split: prod.splits)

lemma sstr_parse_long_reads_nothing_witness: "sstr_parse_long ''42'' = Inr (2, 0)"
  using sstr_parse_long_reads_nothing [of "''42''"] by simp

end
