(* ===== verification/SstrPrintf.thy ===== *)
theory SstrPrintf
  imports SstrText
begin

text \<open>
  The formatter of \<open>src/utils/sstr.c\<close>: \<open>sstr_vslprintf_append\<close> interprets a format string and a list
  of arguments and appends the result to a string. Its number field is written into a local array of
  100 bytes by \<open>sstr_sprintf_num\<close>.
\<close>

section \<open>Arguments\<close>

text \<open>
  A value of a C argument list. \<open>A_int\<close> is any 32-bit integer, \<open>A_long\<close> any 64-bit one (\<open>long\<close>,
  \<open>size_t\<close>, \<open>time_t\<close>, a pointer), \<open>A_str\<close> a pointer to characters with the bytes it may read
  (terminator included), \<open>A_sstr\<close> a string object with its content, \<open>A_double\<close> a floating point number.
  Reading an argument at another type is undefined in C and a fault here.
\<close>

datatype 'd va_arg =
    A_int u32
  | A_long u64
  | A_str "string option"
  | A_sstr "string option"
  | A_double 'd

text \<open>
  The floating point operations of the \<open>%f\<close> case are parameters: the test \<open>f < 0\<close>, the negation, the
  conversion \<open>(uint64_t)(int64_t)f\<close> and \<open>(uint64_t)((f - (double)ui64) * scale + 0.5)\<close>.
\<close>

record 'd float_ops =
  fl_negative :: "'d \<Rightarrow> bool"
  fl_minus :: "'d \<Rightarrow> 'd"
  fl_trunc :: "'d \<Rightarrow> u64"
  fl_frac :: "'d \<Rightarrow> u64 \<Rightarrow> u64 \<Rightarrow> u64"

fun va_int :: "'d va_arg list \<Rightarrow> fault + u32 \<times> 'd va_arg list" where
  "va_int (A_int i # as) = Inr (i, as)"
| "va_int _ = Inl Bad_vararg"

fun va_long :: "'d va_arg list \<Rightarrow> fault + u64 \<times> 'd va_arg list" where
  "va_long (A_long l # as) = Inr (l, as)"
| "va_long _ = Inl Bad_vararg"

fun va_str :: "'d va_arg list \<Rightarrow> fault + string option \<times> 'd va_arg list" where
  "va_str (A_str p # as) = Inr (p, as)"
| "va_str _ = Inl Bad_vararg"

fun va_sstr :: "'d va_arg list \<Rightarrow> fault + string option \<times> 'd va_arg list" where
  "va_sstr (A_sstr p # as) = Inr (p, as)"
| "va_sstr _ = Inl Bad_vararg"

fun va_double :: "'d va_arg list \<Rightarrow> fault + 'd \<times> 'd va_arg list" where
  "va_double (A_double p # as) = Inr (p, as)"
| "va_double _ = Inl Bad_vararg"

section \<open>The format\<close>

record pf_spec =
  pzero :: char
  pwidth :: u32
  psign :: bool
  phex :: nat
  pfrac_width :: u32
  pfrac_width_set :: bool
  pslen :: "u64 option"
  pdf_d :: bool

text \<open>\<open>while (*fmt >= '0' && *fmt <= '9') width = width * 10 + (*fmt++ - '0')\<close>.\<close>

fun pf_number :: "u32 \<Rightarrow> string \<Rightarrow> u32 \<times> string" where
  "pf_number n [] = (n, [])"
| "pf_number n (c # fmt) =
     (if is_digit c then pf_number (n * 10 + of_nat (ord c - ord CHR ''0'')) fmt else (n, c # fmt))"

definition pf_start :: "string \<Rightarrow> pf_spec \<times> string" where
  "pf_start fmt =
     (let zero = (case fmt of c # _ \<Rightarrow> if c = CHR ''0'' then CHR ''0'' else CHR '' '' | [] \<Rightarrow> CHR '' '');
          (width, fmt') = pf_number 0 fmt
      in (\<lparr>pzero = zero, pwidth = width, psign = True, phex = 0, pfrac_width = 6,
           pfrac_width_set = False, pslen = None, pdf_d = False\<rparr>, fmt'))"

text \<open>The loop over the modifiers; the end of the format is the character zero, which is none.\<close>

fun pf_modifiers :: "pf_spec \<Rightarrow> 'd va_arg list \<Rightarrow> string \<Rightarrow> fault + pf_spec \<times> 'd va_arg list \<times> string" where
  "pf_modifiers sp as [] = Inr (sp, as, [])"
| "pf_modifiers sp as (c # fmt) =
     (if c = CHR ''u'' then pf_modifiers (sp\<lparr>psign := False, pdf_d := True\<rparr>) as fmt
      else if c = CHR ''X'' then pf_modifiers (sp\<lparr>phex := 2, psign := False, pdf_d := True\<rparr>) as fmt
      else if c = CHR ''x'' then pf_modifiers (sp\<lparr>phex := 1, psign := False, pdf_d := True\<rparr>) as fmt
      else if c = CHR ''.'' then
        (let (n, fmt') = pf_number 0 fmt
         in Inr (sp\<lparr>pfrac_width := n,
                    pfrac_width_set := (pfrac_width_set sp \<or> length fmt' < length fmt)\<rparr>, as, fmt'))
      else if c = CHR ''*'' then bindE (va_long as) (\<lambda>(l, as'). pf_modifiers (sp\<lparr>pslen := Some l\<rparr>) as' fmt)
      else Inr (sp, as, c # fmt))"

section \<open>The conversions\<close>

text \<open>The number field and what follows it: \<open>%xabc\<close> is \<open>%x\<close> followed by the text \<open>abc\<close>.\<close>

definition pf_number_field :: "sstr \<Rightarrow> pf_spec \<Rightarrow> u64 \<Rightarrow> u64 \<Rightarrow> string \<Rightarrow> fault + sstr \<times> string" where
  "pf_number_field buf sp i64 ui64 fmt =
     bindE (if psign sp \<and> sint i64 < 0 then sstr_append_of buf ''-'' else Inr buf) (\<lambda>buf1.
     bindE (sstr_sprintf_num 100
              (if psign sp then (if sint i64 < 0 then 0 - i64 else i64) else ui64)
              (pzero sp) (phex sp) (unat (pwidth sp))) (\<lambda>txt.
     bindE (sstr_append_of buf1 txt) (\<lambda>buf2.
       case fmt of [] \<Rightarrow> Inr (buf2, [])
       | c # fmt' \<Rightarrow>
           if pdf_d sp then bindE (sstr_append_of buf2 [c]) (\<lambda>buf3. Inr (buf3, fmt'))
           else Inr (buf2, fmt'))))"

text \<open>A number argument read at 32 or at 64 bits, sign-extended when it is signed.\<close>

definition pf_arg32 :: "pf_spec \<Rightarrow> 'd va_arg list \<Rightarrow> fault + u64 \<times> u64 \<times> 'd va_arg list" where
  "pf_arg32 sp as = bindE (va_int as) (\<lambda>(i, as').
     Inr (if psign sp then (scast i, 0, as') else (0, ucast i, as')))"

definition pf_arg64 :: "pf_spec \<Rightarrow> 'd va_arg list \<Rightarrow> fault + u64 \<times> u64 \<times> 'd va_arg list" where
  "pf_arg64 sp as = bindE (va_long as) (\<lambda>(l, as').
     Inr (if psign sp then (l, 0, as') else (0, l, as')))"

definition pf_hex_bytes :: "sstr \<Rightarrow> string \<Rightarrow> bool \<Rightarrow> fault + sstr" where
  "pf_hex_bytes buf p cap = append_chunks sstr_append_of buf (map (\<lambda>c. char_to_hex c cap) p)"

definition pf_sstr :: "sstr \<Rightarrow> pf_spec \<Rightarrow> string option \<Rightarrow> fault + sstr" where
  "pf_sstr buf sp S = (case S of
     None \<Rightarrow> sstr_append_of buf ''NULL''
   | Some d \<Rightarrow> if phex sp = 0 then sstr_append_of buf d else pf_hex_bytes buf d (phex sp = 2))"

definition pf_str :: "sstr \<Rightarrow> pf_spec \<Rightarrow> string option \<Rightarrow> fault + sstr" where
  "pf_str buf sp p0 =
     (let p = (case p0 of None \<Rightarrow> ''NULL'' @ [NUL] | Some p \<Rightarrow> p)
      in case pslen sp of
           None \<Rightarrow> if NUL \<in> set p then sstr_append_of buf (cstr p) else Inl Out_of_bounds
         | Some n \<Rightarrow>
             if n = - 1 then (if NUL \<in> set p then sstr_append_of buf (cstr p) else Inl Out_of_bounds)
             else if unat n \<le> length p then sstr_append_of buf (take (unat n) p) else Inl Out_of_bounds)"

definition strip_zeros :: "string \<Rightarrow> string" where
  "strip_zeros s = rev (dropWhile (\<lambda>c. c = CHR ''0'') (rev s))"

definition pf_float :: "'d float_ops \<Rightarrow> sstr \<Rightarrow> pf_spec \<Rightarrow> 'd \<Rightarrow> fault + sstr" where
  "pf_float fl buf sp f0 =
     bindE (if fl_negative fl f0 then sstr_append_of buf ''-'' else Inr buf) (\<lambda>buf1.
       let f = (if fl_negative fl f0 then fl_minus fl f0 else f0);
           ui0 = fl_trunc fl f;
           scale = (10::u64) ^ unat (pfrac_width sp);
           frac0 = (if pfrac_width sp \<noteq> 0 then fl_frac fl f ui0 scale else 0);
           carry = (pfrac_width sp \<noteq> 0 \<and> frac0 = scale);
           ui64 = (if carry then ui0 + 1 else ui0);
           frac = (if carry then 0 else frac0)
       in bindE (sstr_sprintf_num 100 ui64 (pzero sp) 0 (unat (pwidth sp))) (\<lambda>txt.
          bindE (sstr_append_of buf1 txt) (\<lambda>buf2.
            if pfrac_width sp = 0 then Inr buf2
            else bindE (sstr_append_of buf2 ''.'') (\<lambda>buf3.
                 bindE (sstr_sprintf_num 100 frac CHR ''0'' 0 (unat (pfrac_width sp))) (\<lambda>ftxt.
                   sstr_append_of buf3 (if pfrac_width_set sp then ftxt else strip_zeros ftxt))))))"

text \<open>
  One directive from its conversion character on: the new buffer, the arguments and the format that
  are left.
\<close>

definition pf_convert ::
  "'d float_ops \<Rightarrow> sstr \<Rightarrow> pf_spec \<Rightarrow> 'd va_arg list \<Rightarrow> string \<Rightarrow> fault + sstr \<times> 'd va_arg list \<times> string" where
  "pf_convert fl buf sp as fmt =
     (let c = (case fmt of c # _ \<Rightarrow> c | [] \<Rightarrow> NUL);
          rest = drop 1 fmt;
          text_case = (\<lambda>m. bindE m (\<lambda>buf'. Inr (buf', as, rest)));
          number = (\<lambda>sp' m. bindE m (\<lambda>(i64, ui64, as').
                      bindE (pf_number_field buf sp' i64 ui64 fmt) (\<lambda>(buf', fmt'). Inr (buf', as', fmt'))))
      in if c = CHR ''S'' then bindE (va_sstr as) (\<lambda>(S, as'). bindE (pf_sstr buf sp S) (\<lambda>buf'. Inr (buf', as', rest)))
         else if c = CHR ''s'' then bindE (va_str as) (\<lambda>(p, as'). bindE (pf_str buf sp p) (\<lambda>buf'. Inr (buf', as', rest)))
         else if c = CHR ''T'' then
           number (sp\<lparr>psign := True, pdf_d := False\<rparr>) (bindE (va_long as) (\<lambda>(l, as'). Inr (l, 0, as')))
         else if c \<in> {CHR ''z'', CHR ''l'', CHR ''L''} then number (sp\<lparr>pdf_d := False\<rparr>) (pf_arg64 sp as)
         else if c \<in> {CHR ''d'', CHR ''D''} then number (sp\<lparr>pdf_d := False\<rparr>) (pf_arg32 sp as)
         else if c = CHR ''f'' then bindE (va_double as) (\<lambda>(f, as'). bindE (pf_float fl buf sp f) (\<lambda>buf'. Inr (buf', as', rest)))
         else if c = CHR ''p'' then
           number (sp\<lparr>phex := 2, psign := False, pzero := CHR ''0'', pwidth := 16\<rparr>)
             (bindE (va_long as) (\<lambda>(l, as'). Inr (0, l, as')))
         else if c = CHR ''c'' then bindE (va_int as) (\<lambda>(d, as').
           bindE (sstr_append_of buf [char_of (unat d mod 256)]) (\<lambda>buf'. Inr (buf', as', rest)))
         else if c = CHR ''Z'' then text_case (sstr_append_of buf [NUL])
         else if c = CHR ''N'' then text_case (sstr_append_of buf [CHR 0x0A])
         else if c = CHR ''%'' then text_case (sstr_append_of buf ''%'')
         else if pdf_d sp then number sp (pf_arg32 sp as)
         else if c \<noteq> NUL then text_case (sstr_append_of buf [c])
         else Inr (buf, as, []))"

section \<open>The loop\<close>

lemma pf_number_length: "length (snd (pf_number n fmt)) \<le> length fmt"
  by (induction n fmt rule: pf_number.induct) auto

lemma pf_start_length: "pf_start fmt = (sp, fmt') \<Longrightarrow> length fmt' \<le> length fmt"
  using pf_number_length [of 0 fmt] by (auto simp: pf_start_def Let_def split: prod.splits)

lemma pf_modifiers_length:
  "pf_modifiers sp as fmt = Inr (sp', as', fmt') \<Longrightarrow> length fmt' \<le> length fmt"
proof (induction sp as fmt rule: pf_modifiers.induct)
  case (2 sp as c fmt)
  then show ?case using pf_number_length [of 0 fmt]
    by (fastforce simp: Let_def bindE_Inr_conv split: if_splits prod.splits)
qed simp

lemma pf_number_field_length:
  "pf_number_field buf sp i u fmt = Inr (buf', fmt') \<Longrightarrow> length fmt' \<le> length fmt"
  by (cases fmt) (auto simp: pf_number_field_def bindE_Inr_conv split: if_splits)

lemma pf_convert_length:
  "pf_convert fl buf sp as fmt = Inr (buf', as', fmt') \<Longrightarrow> length fmt' \<le> length fmt"
  unfolding pf_convert_def Let_def
  by (auto simp: bindE_Inr_conv dest!: pf_number_field_length split: if_splits)

text \<open>A directive after its percent sign.\<close>

definition pf_directive ::
  "'d float_ops \<Rightarrow> sstr \<Rightarrow> 'd va_arg list \<Rightarrow> string \<Rightarrow> fault + sstr \<times> 'd va_arg list \<times> string" where
  "pf_directive fl buf as fmt =
     (let (sp, fmt1) = pf_start fmt
      in bindE (pf_modifiers sp as fmt1) (\<lambda>(sp', as', fmt2). pf_convert fl buf sp' as' fmt2))"

lemma pf_directive_length:
  "pf_directive fl buf as fmt = Inr (buf', as', fmt') \<Longrightarrow> length fmt' \<le> length fmt"
  by (auto simp: pf_directive_def bindE_Inr_conv split: prod.splits
      dest!: pf_start_length pf_modifiers_length pf_convert_length)

function vslprintf_loop ::
  "'d float_ops \<Rightarrow> sstr \<Rightarrow> string \<Rightarrow> 'd va_arg list \<Rightarrow> fault + sstr" where
  "vslprintf_loop fl buf [] as = Inr buf"
| "vslprintf_loop fl buf (c # fmt) as =
     (if c = CHR ''%'' then
        bindE (pf_directive fl buf as fmt) (\<lambda>(buf', as', fmt'). vslprintf_loop fl buf' fmt' as')
      else
        bindE (sstr_append_of buf (c # takeWhile (\<lambda>x. x \<noteq> CHR ''%'') fmt)) (\<lambda>buf'.
          vslprintf_loop fl buf' (dropWhile (\<lambda>x. x \<noteq> CHR ''%'') fmt) as))"
  by pat_completeness auto
termination
  by (relation "measure (\<lambda>(fl, buf, fmt, as). length fmt)")
    (auto simp: le_imp_less_Suc length_dropWhile_le dest!: pf_directive_length)

definition sstr_vslprintf_append :: "'d float_ops \<Rightarrow> sstr \<Rightarrow> string \<Rightarrow> 'd va_arg list \<Rightarrow> fault + sstr" where
  "sstr_vslprintf_append fl buf fmt as = vslprintf_loop fl buf (cstr fmt) as"

definition sstr_printf_append :: "'d float_ops \<Rightarrow> sstr \<Rightarrow> string \<Rightarrow> 'd va_arg list \<Rightarrow> fault + sstr" where
  "sstr_printf_append fl buf fmt as = sstr_vslprintf_append fl buf fmt as"

definition sstr_vslprintf :: "'d float_ops \<Rightarrow> string \<Rightarrow> 'd va_arg list \<Rightarrow> fault + sstr" where
  "sstr_vslprintf fl fmt as = sstr_vslprintf_append fl sstr_new fmt as"

definition sstr_printf :: "'d float_ops \<Rightarrow> string \<Rightarrow> 'd va_arg list \<Rightarrow> fault + sstr" where
  "sstr_printf fl fmt as = sstr_vslprintf fl fmt as"

section \<open>What a format built from pieces prints\<close>

text \<open>
  The formats the program uses are sequences of literal text and plain directives. A piece is one of
  them, with the argument it consumes.
\<close>

datatype piece =
    Lit string
  | Dec u32
  | Long u64
  | Str string
  | Sstr string
  | Chr char
  | Percent

fun piece_fmt :: "piece \<Rightarrow> string" where
  "piece_fmt (Lit s) = s"
| "piece_fmt (Dec i) = ''%d''"
| "piece_fmt (Long l) = ''%l''"
| "piece_fmt (Str s) = ''%s''"
| "piece_fmt (Sstr s) = ''%S''"
| "piece_fmt (Chr c) = ''%c''"
| "piece_fmt Percent = ''%%''"

fun piece_args :: "piece \<Rightarrow> 'd va_arg list" where
  "piece_args (Dec i) = [A_int i]"
| "piece_args (Long l) = [A_long l]"
| "piece_args (Str s) = [A_str (Some (s @ [NUL]))]"
| "piece_args (Sstr s) = [A_sstr (Some s)]"
| "piece_args (Chr c) = [A_int (of_nat (ord c))]"
| "piece_args _ = []"

fun piece_text :: "piece \<Rightarrow> string" where
  "piece_text (Lit s) = s"
| "piece_text (Dec i) = show_int (sint i)"
| "piece_text (Long l) = show_int (sint l)"
| "piece_text (Str s) = s"
| "piece_text (Sstr s) = s"
| "piece_text (Chr c) = [c]"
| "piece_text Percent = ''%''"

fun piece_ok :: "piece \<Rightarrow> bool" where
  "piece_ok (Lit s) \<longleftrightarrow> CHR ''%'' \<notin> set s \<and> NUL \<notin> set s"
| "piece_ok (Str s) \<longleftrightarrow> NUL \<notin> set s"
| "piece_ok _ \<longleftrightarrow> True"

lemma dec_str_length: "n < 10 ^ Suc k \<Longrightarrow> length (dec_str n) \<le> Suc k"
proof (induction k arbitrary: n)
  case (Suc k)
  have "n div 10 < 10 ^ Suc k" using Suc.prems by (simp add: less_mult_imp_div_less ac_simps)
  then show ?case using Suc.IH [of "n div 10"]
    by (cases "n div 10 = 0") (simp_all add: dec_str_digit dec_str_step)
qed (simp add: dec_str_digit)

lemma sprintf_num_plain: "sstr_sprintf_num 100 (w::u64) z 0 0 = Inr (dec_str (unat w))"
proof -
  have "unat w < 10 ^ Suc 19"
    using unsigned_less [where ?'a = nat and w = w] by simp
  then have "length (dec_str (unat w)) \<le> 20" using dec_str_length [of "unat w" 19] by simp
  then show ?thesis by (simp add: sstr_sprintf_num_def)
qed

definition plain_spec :: pf_spec where
  "plain_spec = \<lparr>pzero = CHR '' '', pwidth = 0, psign = True, phex = 0, pfrac_width = 6,
     pfrac_width_set = False, pslen = None, pdf_d = False\<rparr>"

lemma pf_number_field_plain:
  assumes "sstr_ok buf"
  shows "\<exists>buf'. pf_number_field buf plain_spec l u (c # fmt) = Inr (buf', fmt) \<and> sstr_ok buf'
    \<and> sstr_content buf' = sstr_content buf @ show_int (sint l)"
  using sstr_append_signed [OF assms, of "sint l < 0" "dec_str (unat (if sint l < 0 then - l else l))"]
  by (auto simp: pf_number_field_def plain_spec_def sprintf_num_plain show_int_sint bindE_Inr_conv)

lemma pf_start_plain: "c \<in> set ''dlsSc%'' \<Longrightarrow> pf_start (c # fmt) = (plain_spec, c # fmt)"
  by (auto simp: pf_start_def plain_spec_def is_digit_def)

lemma pf_modifiers_plain: "c \<in> set ''dlsSc%'' \<Longrightarrow> pf_modifiers sp as (c # fmt) = Inr (sp, as, c # fmt)"
  by auto

lemma pf_directive_plain: "c \<in> set ''dlsSc%'' \<Longrightarrow> pf_directive fl buf as (c # fmt) = pf_convert fl buf plain_spec as (c # fmt)"
  by (simp add: pf_directive_def pf_start_plain pf_modifiers_plain del: pf_modifiers.simps set_simps)

lemma cstr_terminated: "NUL \<notin> set s \<Longrightarrow> cstr (s @ NUL # r) = s"
  by (induction s) (auto simp: cstr_def)

fun is_lit :: "piece \<Rightarrow> bool" where
  "is_lit (Lit s) = True"
| "is_lit _ = False"

text \<open>Literal pieces are maximal: none is empty and no two are adjacent.\<close>

fun pieces_ok :: "piece list \<Rightarrow> bool" where
  "pieces_ok [] = True"
| "pieces_ok (p # ps) \<longleftrightarrow> piece_ok p \<and> p \<noteq> Lit [] \<and> (is_lit p \<longrightarrow> ps = [] \<or> \<not> is_lit (hd ps)) \<and> pieces_ok ps"

lemma piece_directive:
  assumes "sstr_ok buf" and "\<not> is_lit p" and "piece_ok p"
  shows "\<exists>buf' c. piece_fmt p = [CHR ''%'', c]
    \<and> pf_directive fl buf (piece_args p @ as) (c # fmt) = Inr (buf', as, fmt)
    \<and> sstr_ok buf' \<and> sstr_content buf' = sstr_content buf @ piece_text p"
proof (cases p)
  case (Dec i)
  then show ?thesis
    using pf_number_field_plain [OF assms(1), of "scast i" 0 "CHR ''d''" fmt]
    by (auto simp: pf_directive_plain pf_convert_def pf_arg32_def plain_spec_def sint_up_scast is_up)
next
  case (Long l)
  then show ?thesis
    using pf_number_field_plain [OF assms(1), of l 0 "CHR ''l''" fmt]
    by (auto simp: pf_directive_plain pf_convert_def pf_arg64_def plain_spec_def)
next
  case (Str s)
  then show ?thesis
    using sstr_append_of_correct [OF assms(1), of s] assms(3)
    by (auto simp: pf_directive_plain pf_convert_def pf_str_def plain_spec_def cstr_terminated)
next
  case (Sstr s)
  then show ?thesis
    using sstr_append_of_correct [OF assms(1), of s]
    by (auto simp: pf_directive_plain pf_convert_def pf_sstr_def plain_spec_def)
next
  case (Chr c)
  have "ord c < 256" by (rule nat_of_char_less_256)
  then have "ord c < 2 ^ 32" by (rule less_le_trans) simp
  then have "ord c mod 2 ^ 32 = ord c" by (rule mod_less)
  then have "[char_of (unat (of_nat (ord c) :: u32) mod 256)] = [c]"
    by (simp add: unat_of_nat char_of_char)
  then show ?thesis
    using Chr sstr_append_of_correct [OF assms(1), of "[c]"]
    by (auto simp: pf_directive_plain pf_convert_def)
next
  case Percent
  then show ?thesis
    using sstr_append_of_correct [OF assms(1), of "''%''"]
    by (auto simp: pf_directive_plain pf_convert_def)
qed (use assms(2) in simp)

lemma pieces_start: "pieces_ok ps \<Longrightarrow> \<not> is_lit (hd ps) \<Longrightarrow> ps \<noteq> [] \<Longrightarrow> \<exists>r. concat (map piece_fmt ps) = CHR ''%'' # r"
  by (cases ps; cases "hd ps") auto

lemma vslprintf_pieces_then:
  "sstr_ok buf \<Longrightarrow> pieces_ok ps \<Longrightarrow> r = [] \<or> hd r = CHR ''%'' \<Longrightarrow>
   \<exists>buf'. vslprintf_loop fl buf (concat (map piece_fmt ps) @ r) (concat (map piece_args ps) @ as)
         = vslprintf_loop fl buf' r as
     \<and> sstr_ok buf' \<and> sstr_content buf' = sstr_content buf @ concat (map piece_text ps)"
proof (induction ps arbitrary: buf)
  case (Cons p ps)
  let ?fmt = "concat (map piece_fmt ps) @ r" and ?as = "concat (map piece_args ps) @ as"
  show ?case
  proof (cases "is_lit p")
    case True
    then obtain c s where p: "p = Lit (c # s)"
      using Cons.prems(2) by (cases p) (auto simp: neq_Nil_conv)
    have start: "?fmt = [] \<or> hd ?fmt = CHR ''%''"
    proof (cases "ps = []")
      case False
      then obtain q where "concat (map piece_fmt ps) = CHR ''%'' # q"
        using Cons.prems(2) True pieces_start [of ps] by auto
      then show ?thesis by simp
    qed (use Cons.prems(3) in simp)
    have no: "\<forall>x \<in> set s. x \<noteq> CHR ''%''" using Cons.prems(2) p by auto
    have "takeWhile (\<lambda>x. x \<noteq> CHR ''%'') (s @ ?fmt) = s" "dropWhile (\<lambda>x. x \<noteq> CHR ''%'') (s @ ?fmt) = ?fmt"
      using span_append [OF no, of ?fmt] start by auto
    moreover obtain b where "sstr_append_of buf (c # s) = Inr b" "sstr_ok b" "sstr_content b = sstr_content buf @ c # s"
      using sstr_append_of_correct [OF Cons.prems(1)] by blast
    ultimately show ?thesis using Cons.IH [of b] Cons.prems(2,3) p by auto
  next
    case False
    then obtain b c where "piece_fmt p = [CHR ''%'', c]"
        "pf_directive fl buf (piece_args p @ ?as) (c # ?fmt) = Inr (b, ?as, ?fmt)"
        "sstr_ok b" "sstr_content b = sstr_content buf @ piece_text p"
      using piece_directive [OF Cons.prems(1) False, of fl ?as ?fmt] Cons.prems(2) by auto
    then show ?thesis using Cons.IH [of b] Cons.prems(2,3) by auto
  qed
qed auto

lemma vslprintf_pieces:
  "sstr_ok buf \<Longrightarrow> pieces_ok ps \<Longrightarrow>
   \<exists>buf'. vslprintf_loop fl buf (concat (map piece_fmt ps)) (concat (map piece_args ps)) = Inr buf'
     \<and> sstr_ok buf' \<and> sstr_content buf' = sstr_content buf @ concat (map piece_text ps)"
  using vslprintf_pieces_then [of buf ps "[]" fl "[]"] by auto

text \<open>A \<open>%s\<close> that is given a number reads a pointer that is none.\<close>

lemma vslprintf_bad_string: "vslprintf_loop fl buf (CHR ''%'' # CHR ''s'' # r) (A_int i # as) = Inl Bad_vararg"
  by (simp add: pf_directive_plain pf_convert_def del: pf_modifiers.simps)

lemma pieces_no_nul: "pieces_ok ps \<Longrightarrow> NUL \<notin> set (concat (map piece_fmt ps))"
proof (induction ps)
  case (Cons p ps)
  then show ?case by (cases p) auto
qed simp

section \<open>Properties\<close>

text \<open>
  C40. A format made of literal text and the plain directives \<open>%d\<close>, \<open>%l\<close>, \<open>%s\<close>, \<open>%S\<close>, \<open>%c\<close> and \<open>%%\<close>, given
  its arguments, appends the pieces' texts in order: numbers as signed decimal numerals, strings as
  their bytes. No access leaves a buffer and every argument is read at its type.
\<close>
theorem sstr_printf_append_pieces:
  assumes "sstr_ok buf" and "pieces_ok ps"
  shows "\<exists>buf'. sstr_printf_append fl buf (concat (map piece_fmt ps)) (concat (map piece_args ps)) = Inr buf'
     \<and> sstr_ok buf' \<and> sstr_content buf' = sstr_content buf @ concat (map piece_text ps)"
  using vslprintf_pieces [OF assms] pieces_no_nul [OF assms(2)]
  by (simp add: sstr_printf_append_def sstr_vslprintf_append_def cstr_whole)

text \<open>Floating point numbers without a fraction.\<close>

definition whole_floats :: "int float_ops" where
  "whole_floats = \<lparr>fl_negative = (\<lambda>f. f < 0), fl_minus = uminus, fl_trunc = word_of_int, fl_frac = (\<lambda>_ _ _. 0)\<rparr>"

lemma sstr_printf_append_pieces_witness:
  "\<exists>buf'. sstr_printf_append whole_floats sstr_new ''line %d: %s'' [A_int (- 7), A_str (Some (''eof'' @ [NUL]))] = Inr buf'
     \<and> sstr_content buf' = ''line -7: eof''"
proof -
  have d: "dec_str 7 = ''7''" by code_simp
  show ?thesis
    using sstr_printf_append_pieces [of sstr_new "[Lit ''line '', Dec (- 7), Lit '': '', Str ''eof'']" whole_floats]
    by (auto simp: show_int_def d)
qed

end
