(* ===== verification/Hash.thy ===== *)
theory Hash
  imports Prelude
begin

text \<open>
  \<open>src/utils/hash.c\<close>: the 32-bit hash used for the symbol tables of the schema compiler and,
  copied into the embedded runtime as \<open>hash_s\<close>, for the field tables of generated parsers.
  Keys are C strings or \<open>sstr_t\<close> contents, as lists of characters.
\<close>

section \<open>hash_murmur\<close>

definition murmur_m :: u32 where
  "murmur_m = 0xc6a4a793"

definition murmur_r :: nat where
  "murmur_r = 24"

text \<open>\<open>*(unsigned int*)(data)\<close>: an aligned-or-not 32-bit load on a little-endian host.\<close>

definition load_le32 :: "char \<Rightarrow> char \<Rightarrow> char \<Rightarrow> char \<Rightarrow> u32" where
  "load_le32 c0 c1 c2 c3 =
     of_char c0 OR push_bit 8 (of_char c1) OR push_bit 16 (of_char c2) OR push_bit 24 (of_char c3)"

text \<open>One round of the \<open>while\<close> loop: four bytes at a time.\<close>

definition murmur_round :: "u32 \<Rightarrow> u32 \<Rightarrow> u32" where
  "murmur_round h w = (let h = (h + w) * murmur_m in h XOR drop_bit 16 h)"

text \<open>\<open>h *= m; h ^= (h >> r);\<close>, the last two statements of the remaining-bytes switch.\<close>

definition murmur_final :: "u32 \<Rightarrow> u32" where
  "murmur_final h = (let h = h * murmur_m in h XOR drop_bit murmur_r h)"

fun murmur_loop :: "string \<Rightarrow> u32 \<Rightarrow> u32" where
  "murmur_loop (c0 # c1 # c2 # c3 # rest) h = murmur_loop rest (murmur_round h (load_le32 c0 c1 c2 c3))"
| "murmur_loop [c0, c1, c2] h =
     murmur_final (h + push_bit 16 (of_char c2) + push_bit 8 (of_char c1) + of_char c0)"
| "murmur_loop [c0, c1] h = murmur_final (h + push_bit 8 (of_char c1) + of_char c0)"
| "murmur_loop [c0] h = murmur_final (h + of_char c0)"
| "murmur_loop [] h = h"

definition hash_murmur :: "string \<Rightarrow> u32 \<Rightarrow> u32" where
  "hash_murmur data seed = murmur_loop data (seed XOR (word_of_nat (length data) * murmur_m))"

text \<open>The seed of \<open>sstr_key_hash\<close> and of the two-string hashes.\<close>

definition hash_seed :: u32 where
  "hash_seed = 0xbc9f1d34"

section \<open>Reading a block at a time is reading the whole key\<close>

text \<open>
  The rounds over a prefix whose length is a multiple of four are independent of what follows,
  so the loop can be split at any block boundary.
\<close>

fun murmur_blocks :: "string \<Rightarrow> u32 \<Rightarrow> u32" where
  "murmur_blocks (c0 # c1 # c2 # c3 # rest) h = murmur_blocks rest (murmur_round h (load_le32 c0 c1 c2 c3))"
| "murmur_blocks _ h = h"

lemma murmur_loop_split:
  "length xs mod 4 = 0 \<Longrightarrow> murmur_loop (xs @ ys) h = murmur_loop ys (murmur_blocks xs h)"
proof (induction xs h rule: murmur_blocks.induct)
  case (1 c0 c1 c2 c3 rest h)
  then show ?case by simp
qed (auto simp: mod_Suc)

end
