(* ===== verification/SchemaTypes.thy ===== *)
theory SchemaTypes
  imports HashMap Hash SstrText
begin

text \<open>
  The data model of a parsed schema (\<open>src/struct/struct_parse.h\<close>): fields, structs, enums, oneofs
  and source positions. A linked list of the code is a HOL list, a null \<open>sstr_t\<close> is \<open>None\<close>, and the
  0/1 integers that are only tested are booleans. The tables of the parser are hash maps keyed by
  strings; the key functions of \<open>src/utils/hash_map.c\<close> are here too.
\<close>

section \<open>Field types\<close>

datatype field_type =
    FIELD_TYPE_INT | FIELD_TYPE_LONG | FIELD_TYPE_FLOAT | FIELD_TYPE_DOUBLE | FIELD_TYPE_SSTR
  | FIELD_TYPE_ENUM | FIELD_TYPE_STRUCT | FIELD_TYPE_BOOL | FIELD_TYPE_MAP
  | FIELD_TYPE_INT8 | FIELD_TYPE_INT16 | FIELD_TYPE_INT32 | FIELD_TYPE_INT64
  | FIELD_TYPE_UINT8 | FIELD_TYPE_UINT16 | FIELD_TYPE_UINT32 | FIELD_TYPE_UINT64
  | FIELD_TYPE_ONEOF

text \<open>The number of a type, as the generated tables spell it.\<close>

fun field_type_id :: "field_type \<Rightarrow> nat" where
  "field_type_id FIELD_TYPE_INT = 0"
| "field_type_id FIELD_TYPE_LONG = 1"
| "field_type_id FIELD_TYPE_FLOAT = 2"
| "field_type_id FIELD_TYPE_DOUBLE = 3"
| "field_type_id FIELD_TYPE_SSTR = 4"
| "field_type_id FIELD_TYPE_ENUM = 5"
| "field_type_id FIELD_TYPE_STRUCT = 6"
| "field_type_id FIELD_TYPE_BOOL = 7"
| "field_type_id FIELD_TYPE_MAP = 8"
| "field_type_id FIELD_TYPE_INT8 = 9"
| "field_type_id FIELD_TYPE_INT16 = 10"
| "field_type_id FIELD_TYPE_INT32 = 11"
| "field_type_id FIELD_TYPE_INT64 = 12"
| "field_type_id FIELD_TYPE_UINT8 = 13"
| "field_type_id FIELD_TYPE_UINT16 = 14"
| "field_type_id FIELD_TYPE_UINT32 = 15"
| "field_type_id FIELD_TYPE_UINT64 = 16"
| "field_type_id FIELD_TYPE_ONEOF = 17"

section \<open>Definitions of a schema\<close>

record enum_value =
  ev_name :: string
  ev_index :: nat
  ev_is_deprecated :: bool

record enum_container =
  ec_name :: string
  ec_values :: "enum_value list"
  ec_count :: nat
  ec_name_line :: int
  ec_name_col :: int
  ec_filename :: string

record oneof_variant =
  ov_name :: string
  ov_struct_type_name :: string
  ov_index :: nat
  ov_is_deprecated :: bool

record oneof_container =
  oc_name :: string
  oc_tag_field :: string
  oc_variants :: "oneof_variant list"
  oc_count :: nat
  oc_name_line :: int
  oc_name_col :: int
  oc_filename :: string

record struct_field =
  fd_name :: string
  fd_type :: field_type
  fd_is_array :: bool
  fd_array_size :: int
  fd_type_name :: string
  fd_map_value_type :: field_type
  fd_map_value_type_name :: "string option"
  fd_is_optional :: bool
  fd_is_nullable :: bool
  fd_json_name :: "string option"
  fd_default_value :: "string option"
  fd_has_default :: bool
  fd_is_deprecated :: bool
  fd_line :: int
  fd_col :: int

record struct_container =
  sc_name :: string
  sc_fields :: "struct_field list"
  sc_name_line :: int
  sc_name_col :: int
  sc_filename :: string

section \<open>Hash maps keyed by strings\<close>

definition sstr_key_hash :: "string \<Rightarrow> u32" where
  "sstr_key_hash s = hash_murmur s 0xbc9f1d34"

definition sstr_key_cmp :: "string \<Rightarrow> string \<Rightarrow> int" where
  "sstr_key_cmp a b = sstr_compare (Some a) (Some b)"

type_synonym 'v sstr_map = "(string, 'v) hash_map"

definition sstr_map_new :: "nat \<Rightarrow> 'v sstr_map" where
  "sstr_map_new n = hash_map_new n sstr_key_hash sstr_key_cmp"

lemma sstr_key_cmp_eq_0: "sstr_key_cmp a b = 0 \<longleftrightarrow> a = b"
  by (simp add: sstr_key_cmp_def sstr_compare_eq_0)

lemma sstr_map_new_inv: "0 < n \<Longrightarrow> hm_inv (sstr_map_new n)"
  by (simp add: sstr_map_new_def hm_inv_new sstr_key_cmp_eq_0)

lemma sstr_map_new_abs [simp]: "hm_abs (sstr_map_new n) = Map.empty"
  by (simp add: sstr_map_new_def)

text \<open>\<open>JSON_KEY(f)\<close>.\<close>

definition JSON_KEY :: "struct_field \<Rightarrow> string" where
  "JSON_KEY f = (case fd_json_name f of Some n \<Rightarrow> n | None \<Rightarrow> fd_name f)"

text \<open>A dynamic array has a companion length field.\<close>

definition is_dynamic_array :: "struct_field \<Rightarrow> bool" where
  "is_dynamic_array f \<longleftrightarrow> fd_is_array f \<and> fd_array_size f = 0"

end
