(* ===== verification/OffsetTable.thy ===== *)
theory OffsetTable
  imports SchemaTypes
begin

text \<open>
  The field table of the generated parsers. \<open>gen_code_offset_map\<close> (\<open>src/gencode/gencode.c\<close>) lists one
  row per struct, per field and per companion length field, and fills an open-addressing hash table
  of row numbers; \<open>json_field_offset_item_find\<close> and \<open>json_field_offset_item_find_ph\<close>
  (\<open>src/gencode/codes/json_parse.c\<close>) look rows up in it. Both loops probe linearly and have no bound
  of their own: they are partial functions whose \<open>None\<close> is a loop that never ends.
\<close>

section \<open>The hash of a pair of names\<close>

definition hash_2s :: "string \<Rightarrow> string \<Rightarrow> u32" where
  "hash_2s key1 key2 =
     (let h = 0xbc9f1d34; h = hash_murmur key1 h; h = hash_murmur ''#'' h in hash_murmur key2 h)"

text \<open>The runtime has its own copy of the hash.\<close>

definition hash_s :: "string \<Rightarrow> u32 \<Rightarrow> u32" where
  "hash_s data seed = murmur_loop data (seed XOR (word_of_nat (length data) * murmur_m))"

definition hash_2s_c :: "string \<Rightarrow> string \<Rightarrow> u32" where
  "hash_2s_c key1 key2 =
     (let h = 0xbc9f1d34; h = hash_s (cstr key1) h; h = hash_s ''#'' h in hash_s (cstr key2) h)"

definition hash_2s_prehash :: "u32 \<Rightarrow> string \<Rightarrow> u32" where
  "hash_2s_prehash st_hash key2 = (let h = st_hash; h = hash_s ''#'' h in hash_s key2 h)"

lemma hash_s_eq: "hash_s = hash_murmur"
  by (rule ext)+ (simp add: hash_s_def hash_murmur_def)

lemma hash_2s_c_eq: "hash_2s_c k1 k2 = hash_2s (cstr k1) (cstr k2)"
  by (simp add: hash_2s_c_def hash_2s_def hash_s_eq)

lemma hash_2s_prehash_eq: "hash_2s_prehash (hash_s (cstr k1) 0xbc9f1d34) k2 = hash_2s (cstr k1) k2"
  by (simp add: hash_2s_prehash_def hash_2s_def hash_s_eq)

section \<open>Rows\<close>

text \<open>
  A row of \<open>json_field_offset_item[]\<close>. Columns that are C expressions for the compiler of the
  generated code are kept as their text, numbers as numbers.
\<close>

record offset_item =
  it_offset :: string
  it_type_size :: string
  it_field_type :: field_type
  it_field_type_name :: string
  it_field_name :: string
  it_struct_name :: string
  it_is_array :: bool
  it_enum_strings :: string
  it_enum_count :: string
  it_array_size :: int
  it_map_value_type :: nat
  it_map_entry_size :: string
  it_map_value_offset :: string
  it_is_nullable :: bool
  it_has_field_offset :: string
  it_oneof_tag_field :: string
  it_oneof_variant_structs :: string
  it_oneof_tag_offset :: string
  it_oneof_value_offset :: string
  it_field_index :: int

record gen_param =
  gp_rows :: "offset_item list"
  gp_hash_size :: nat
  gp_hash_arr :: "int list"
  gp_f_cnt :: nat

section \<open>The generator\<close>

definition count_fields_fd :: "struct_container \<Rightarrow> nat \<Rightarrow> nat" where
  "count_fields_fd st cnt =
     fold (\<lambda>f n. (if is_dynamic_array f then n + 1 else n) + 1) (sc_fields st) cnt"

text \<open>\<open>while (hash_arr[hash_i] != -1) hash_i = hash_i + 1, wrapping at the end\<close>.\<close>

partial_function (option) probe_free :: "int list \<Rightarrow> nat \<Rightarrow> nat option" where
  "probe_free arr i =
     (if arr ! i = -1 then Some i
      else probe_free arr (if i + 1 \<ge> length arr then 0 else i + 1))"

definition gen_hash_arr :: "string \<Rightarrow> string \<Rightarrow> gen_param \<Rightarrow> gen_param option" where
  "gen_hash_arr struct_name field_name p =
     (let hash_i = unat (hash_2s struct_name field_name) mod gp_hash_size p
      in case probe_free (gp_hash_arr p) hash_i of
           None \<Rightarrow> None
         | Some i \<Rightarrow> Some (p\<lparr>gp_hash_arr := (gp_hash_arr p)[i := int (gp_f_cnt p)],
                             gp_f_cnt := gp_f_cnt p + 1\<rparr>))"

text \<open>The text of a row is appended first, then its number is entered in the table.\<close>

definition emit_row :: "offset_item \<Rightarrow> gen_param \<Rightarrow> gen_param option" where
  "emit_row r p = gen_hash_arr (it_struct_name r) (it_field_name r) (p\<lparr>gp_rows := gp_rows p @ [r]\<rparr>)"

definition map_suffix :: "struct_field \<Rightarrow> string" where
  "map_suffix f = (if fd_map_value_type f = FIELD_TYPE_ENUM \<or> fd_map_value_type f = FIELD_TYPE_BOOL then ''int''
     else case fd_map_value_type_name f of Some n \<Rightarrow> cstr n | None \<Rightarrow> ''NULL'')"

definition offsetof :: "string \<Rightarrow> string \<Rightarrow> string" where
  "offsetof st f = ''offsetof(struct '' @ st @ '', '' @ f @ '')''"

definition has_offset :: "string \<Rightarrow> struct_field \<Rightarrow> string" where
  "has_offset st f = (if fd_is_optional f \<or> fd_is_nullable f then offsetof st (''has_'' @ fd_name f) else ''-1'')"

definition nullable_col :: "struct_field \<Rightarrow> bool" where
  "nullable_col f \<longleftrightarrow> (fd_is_optional f \<or> fd_is_nullable f) \<and> fd_is_nullable f"

definition struct_row :: "string \<Rightarrow> offset_item" where
  "struct_row st = \<lparr>it_offset = ''0'', it_type_size = ''sizeof(struct '' @ st @ '')'',
     it_field_type = FIELD_TYPE_STRUCT, it_field_type_name = [], it_field_name = [],
     it_struct_name = st, it_is_array = False, it_enum_strings = ''NULL'', it_enum_count = ''0'',
     it_array_size = 0, it_map_value_type = 0, it_map_entry_size = ''0'', it_map_value_offset = ''0'',
     it_is_nullable = False, it_has_field_offset = ''-1'', it_oneof_tag_field = ''NULL'',
     it_oneof_variant_structs = ''NULL'', it_oneof_tag_offset = ''0'', it_oneof_value_offset = ''0'',
     it_field_index = -1\<rparr>"

definition len_row :: "string \<Rightarrow> struct_field \<Rightarrow> offset_item" where
  "len_row st f = \<lparr>it_offset = offsetof st (fd_name f @ ''_len''), it_type_size = ''sizeof(int)'',
     it_field_type = FIELD_TYPE_INT, it_field_type_name = ''int'', it_field_name = JSON_KEY f @ ''_len'',
     it_struct_name = st, it_is_array = False, it_enum_strings = ''NULL'', it_enum_count = ''0'',
     it_array_size = 0, it_map_value_type = 0, it_map_entry_size = ''0'', it_map_value_offset = ''0'',
     it_is_nullable = False, it_has_field_offset = ''-1'', it_oneof_tag_field = ''NULL'',
     it_oneof_variant_structs = ''NULL'', it_oneof_tag_offset = ''0'', it_oneof_value_offset = ''0'',
     it_field_index = -1\<rparr>"

text \<open>The columns every field row starts from.\<close>

definition plain_row :: "string \<Rightarrow> struct_field \<Rightarrow> nat \<Rightarrow> offset_item" where
  "plain_row st f field_index = \<lparr>it_offset = offsetof st (fd_name f),
     it_type_size = ''sizeof('' @ fd_type_name f @ '')'', it_field_type = fd_type f,
     it_field_type_name = fd_type_name f, it_field_name = JSON_KEY f, it_struct_name = st,
     it_is_array = fd_is_array f, it_enum_strings = ''NULL'', it_enum_count = ''0'',
     it_array_size = fd_array_size f, it_map_value_type = 0, it_map_entry_size = ''0'',
     it_map_value_offset = ''0'', it_is_nullable = nullable_col f, it_has_field_offset = has_offset st f,
     it_oneof_tag_field = ''NULL'', it_oneof_variant_structs = ''NULL'', it_oneof_tag_offset = ''0'',
     it_oneof_value_offset = ''0'', it_field_index = int field_index\<rparr>"

definition map_row :: "string \<Rightarrow> struct_field \<Rightarrow> nat \<Rightarrow> offset_item" where
  "map_row st f field_index =
     (let sfx = map_suffix f; vt = (case fd_map_value_type_name f of Some n \<Rightarrow> n | None \<Rightarrow> ''NULL'');
          is_enum = (fd_map_value_type f = FIELD_TYPE_ENUM)
      in (plain_row st f field_index)\<lparr>
           it_type_size := ''sizeof(struct json_map_'' @ sfx @ '')'',
           it_field_type := FIELD_TYPE_MAP, it_field_type_name := vt,
           it_is_array := is_dynamic_array f,
           it_enum_strings := (if is_enum then vt @ ''_enum_strings'' else ''NULL''),
           it_enum_count := (if is_enum then vt @ ''_enum_count'' else ''0''),
           it_array_size := 0, it_map_value_type := field_type_id (fd_map_value_type f),
           it_map_entry_size := ''sizeof(struct json_map_entry_'' @ sfx @ '')'',
           it_map_value_offset := ''(int)offsetof(struct json_map_entry_'' @ sfx @ '', value)''\<rparr>)"

definition struct_field_row :: "string \<Rightarrow> struct_field \<Rightarrow> nat \<Rightarrow> offset_item" where
  "struct_field_row st f field_index =
     (plain_row st f field_index)\<lparr>it_type_size := ''sizeof(struct '' @ fd_type_name f @ '')''\<rparr>"

definition enum_row :: "string \<Rightarrow> struct_field \<Rightarrow> nat \<Rightarrow> offset_item" where
  "enum_row st f field_index =
     (plain_row st f field_index)\<lparr>it_type_size := ''sizeof(int)'',
        it_enum_strings := fd_type_name f @ ''_enum_strings'',
        it_enum_count := fd_type_name f @ ''_enum_count''\<rparr>"

definition oneof_row :: "oneof_container sstr_map \<Rightarrow> string \<Rightarrow> struct_field \<Rightarrow> nat \<Rightarrow> offset_item" where
  "oneof_row oneof_map st f field_index =
     (let t = fd_type_name f;
          r = (plain_row st f field_index)\<lparr>it_type_size := ''sizeof(struct '' @ t @ '')'',
                it_enum_strings := t @ ''_tag_strings'', it_enum_count := t @ ''_tag_count''\<rparr>
      in case hash_map_find oneof_map t of
           (_, Some oc) \<Rightarrow> r\<lparr>it_oneof_tag_field := oc_tag_field oc,
              it_oneof_variant_structs := t @ ''_variant_structs'',
              it_oneof_tag_offset := ''(int)'' @ offsetof t ''tag'',
              it_oneof_value_offset := ''(int)'' @ offsetof t ''value''\<rparr>
         | (_, None) \<Rightarrow> r)"

definition field_row :: "oneof_container sstr_map \<Rightarrow> string \<Rightarrow> struct_field \<Rightarrow> nat \<Rightarrow> offset_item" where
  "field_row oneof_map st f field_index =
     (if fd_type f = FIELD_TYPE_MAP then map_row st f field_index
      else if fd_type f = FIELD_TYPE_STRUCT then struct_field_row st f field_index
      else if fd_type f = FIELD_TYPE_ONEOF then oneof_row oneof_map st f field_index
      else if fd_type f = FIELD_TYPE_ENUM then enum_row st f field_index
      else plain_row st f field_index)"

text \<open>The rows of one field: its own, then the one of its length for a dynamic array.\<close>

definition field_rows :: "oneof_container sstr_map \<Rightarrow> string \<Rightarrow> struct_field \<Rightarrow> nat \<Rightarrow> offset_item list" where
  "field_rows oneof_map st f field_index =
     field_row oneof_map st f field_index # (if is_dynamic_array f then [len_row st f] else [])"

fun emit_rows :: "offset_item list \<Rightarrow> gen_param \<Rightarrow> gen_param option" where
  "emit_rows [] p = Some p"
| "emit_rows (r # rs) p = Option.bind (emit_row r p) (emit_rows rs)"

fun gen_fields :: "oneof_container sstr_map \<Rightarrow> string \<Rightarrow> struct_field list \<Rightarrow> nat \<Rightarrow> gen_param \<Rightarrow> gen_param option" where
  "gen_fields oneof_map st [] field_index p = Some p"
| "gen_fields oneof_map st (f # fs) field_index p =
     Option.bind (emit_rows (field_rows oneof_map st f field_index) p)
       (gen_fields oneof_map st fs (field_index + 1))"

definition gen_fields_list_fn :: "oneof_container sstr_map \<Rightarrow> struct_container \<Rightarrow> gen_param \<Rightarrow> gen_param option" where
  "gen_fields_list_fn oneof_map st p =
     Option.bind (emit_row (struct_row (sc_name st)) p) (gen_fields oneof_map (sc_name st) (sc_fields st) 0)"

text \<open>
  The table and its rows. The last row of the emitted array, all null, ends a scan over all rows;
  no slot of the table refers to it.
\<close>

definition gen_code_offset_map ::
  "struct_container sstr_map \<Rightarrow> oneof_container sstr_map \<Rightarrow> gen_param option" where
  "gen_code_offset_map struct_map oneof_map =
     (let total_fields = hash_map_for_each struct_map (\<lambda>k st n. count_fields_fd st n) 0;
          hash_size = total_fields * 2 + 1;
          param = \<lparr>gp_rows = [], gp_hash_size = hash_size, gp_hash_arr = replicate hash_size (-1), gp_f_cnt = 0\<rparr>
      in hash_map_for_each struct_map
           (\<lambda>k st po. Option.bind po (gen_fields_list_fn oneof_map st)) (Some param))"

section \<open>The lookup\<close>

text \<open>
  \<open>strcmp(st, item->struct_name) == 0 && strcmp(field, item->field_name) == 0\<close>; the name columns are C
  string literals, which the compiler of the generated code cuts at a zero byte.
\<close>

definition item_matches :: "string \<Rightarrow> string \<Rightarrow> offset_item \<Rightarrow> bool" where
  "item_matches st field it \<longleftrightarrow> cstr st = cstr (it_struct_name it) \<and> cstr field = cstr (it_field_name it)"

partial_function (option) find_loop ::
  "offset_item list \<Rightarrow> int list \<Rightarrow> string \<Rightarrow> string \<Rightarrow> nat \<Rightarrow> offset_item option option" where
  "find_loop items tbl st field h =
     (let id = tbl ! h
      in if id < 0 then Some None
         else if item_matches st field (items ! nat id) then Some (Some (items ! nat id))
         else find_loop items tbl st field (if h + 1 \<ge> length tbl then 0 else h + 1))"

definition json_field_offset_item_find ::
  "offset_item list \<Rightarrow> int list \<Rightarrow> string \<Rightarrow> string \<Rightarrow> offset_item option option" where
  "json_field_offset_item_find items tbl st field =
     find_loop items tbl st field (unat (hash_2s_c st field) mod length tbl)"

text \<open>\<open>field\<close> is the key as its C string reads it, \<open>key\<close> its \<open>field_len\<close> bytes.\<close>

definition json_field_offset_item_find_ph ::
  "offset_item list \<Rightarrow> int list \<Rightarrow> u32 \<Rightarrow> string \<Rightarrow> string \<Rightarrow> offset_item option option" where
  "json_field_offset_item_find_ph items tbl st_hash st key =
     find_loop items tbl st key (unat (hash_2s_prehash st_hash key) mod length tbl)"

section \<open>Probe sequences\<close>

text \<open>The slot \<open>d\<close> steps after the slot \<open>h\<close>, cyclically.\<close>

definition probe_slot :: "nat \<Rightarrow> nat \<Rightarrow> nat \<Rightarrow> nat" where
  "probe_slot n h d = (h + d) mod n"

lemma probe_slot_0 [simp]: "h < n \<Longrightarrow> probe_slot n h 0 = h"
  by (simp add: probe_slot_def)

lemma probe_slot_less: "0 < n \<Longrightarrow> probe_slot n h d < n"
  by (simp add: probe_slot_def)

lemma probe_slot_Suc:
  assumes "h < n"
  shows "probe_slot n h (Suc d) = probe_slot n (if h + 1 \<ge> n then 0 else h + 1) d"
proof (cases "h + 1 \<ge> n")
  case True
  then have "h + Suc d = n + d" using assms by simp
  then show ?thesis using True by (simp only: probe_slot_def) simp
qed (simp add: probe_slot_def)

lemma probe_slot_surj:
  assumes "h < n" and "i < n"
  shows "\<exists>d<n. probe_slot n h d = i"
proof (cases "h \<le> i")
  case True
  then show ?thesis using assms by (intro exI [of _ "i - h"]) (simp add: probe_slot_def)
next
  case False
  then show ?thesis using assms by (intro exI [of _ "n + i - h"]) (simp add: probe_slot_def)
qed

lemma probe_free_hit:
  "h < length arr \<Longrightarrow> \<forall>d'<d. arr ! probe_slot (length arr) h d' \<noteq> -1 \<Longrightarrow>
   arr ! probe_slot (length arr) h d = -1 \<Longrightarrow> probe_free arr h = Some (probe_slot (length arr) h d)"
proof (induction d arbitrary: h)
  case 0
  then show ?case by (simp add: probe_free.simps)
next
  case (Suc d)
  let ?h = "if h + 1 \<ge> length arr then 0 else h + 1"
  have h: "?h < length arr" using Suc.prems(1) by auto
  have "\<forall>d'<d. arr ! probe_slot (length arr) ?h d' \<noteq> -1"
    using Suc.prems(2) probe_slot_Suc [OF Suc.prems(1)] by (metis Suc_less_eq)
  moreover have "arr ! h \<noteq> -1" using Suc.prems(1,2) by (metis probe_slot_0 zero_less_Suc)
  ultimately show ?case
    using Suc.IH [OF h] Suc.prems(3) probe_slot_Suc [OF Suc.prems(1)]
    by (subst probe_free.simps) simp
qed

lemma probe_free_total:
  assumes "h < length arr" and "i < length arr" and "arr ! i = -1"
  shows "\<exists>d. probe_free arr h = Some (probe_slot (length arr) h d)
    \<and> arr ! probe_slot (length arr) h d = -1 \<and> (\<forall>d'<d. arr ! probe_slot (length arr) h d' \<noteq> -1)"
proof -
  let ?P = "\<lambda>d. arr ! probe_slot (length arr) h d = -1"
  obtain d0 where "?P d0" using probe_slot_surj [OF assms(1,2)] assms(3) by auto
  then have "?P (LEAST d. ?P d)" by (rule LeastI)
  moreover have "\<forall>d'<(LEAST d. ?P d). \<not> ?P d'" using not_less_Least by blast
  ultimately show ?thesis using probe_free_hit [OF assms(1)] by blast
qed

lemma probe_free_Some:
  assumes "probe_free arr i = Some j"
  shows "arr ! j = -1"
proof -
  have "\<lbrakk>probe_free arr i = Some j\<rbrakk> \<Longrightarrow> arr ! j = -1"
    by (rule probe_free.raw_induct [of "\<lambda>arr i j. arr ! j = -1"]) (auto split: if_splits)
  then show ?thesis using assms .
qed

lemma probe_free_range:
  assumes "probe_free arr i = Some j" and "i < length arr"
  shows "j < length arr"
proof -
  have "probe_free arr i = Some j \<Longrightarrow> i < length arr \<longrightarrow> j < length arr"
    by (rule probe_free.raw_induct [of "\<lambda>arr i j. i < length arr \<longrightarrow> j < length arr"])
      (auto split: if_splits dest: order.strict_trans1 [OF le0])
  then show ?thesis using assms by blast
qed

lemma find_loop_hit:
  "h < length tbl \<Longrightarrow>
   \<forall>d'<d. tbl ! probe_slot (length tbl) h d' \<ge> 0
       \<and> \<not> item_matches st f (items ! nat (tbl ! probe_slot (length tbl) h d')) \<Longrightarrow>
   find_loop items tbl st f h = find_loop items tbl st f (probe_slot (length tbl) h d)"
proof (induction d arbitrary: h)
  case (Suc d)
  let ?h = "if h + 1 \<ge> length tbl then 0 else h + 1"
  have h: "?h < length tbl" using Suc.prems(1) by auto
  have "\<forall>d'<d. tbl ! probe_slot (length tbl) ?h d' \<ge> 0
       \<and> \<not> item_matches st f (items ! nat (tbl ! probe_slot (length tbl) ?h d'))"
    using Suc.prems(2) probe_slot_Suc [OF Suc.prems(1)] by (metis Suc_less_eq)
  moreover have "tbl ! h \<ge> 0 \<and> \<not> item_matches st f (items ! nat (tbl ! h))"
    using Suc.prems(1,2) by (metis probe_slot_0 zero_less_Suc)
  ultimately show ?case
    using Suc.IH [OF h] probe_slot_Suc [OF Suc.prems(1)]
    by (subst find_loop.simps) simp
qed simp

section \<open>The table invariant\<close>

definition home :: "nat \<Rightarrow> offset_item \<Rightarrow> nat" where
  "home n r = unat (hash_2s (it_struct_name r) (it_field_name r)) mod n"

text \<open>
  Every row is reached from its home slot through slots of earlier rows only; as many slots are
  taken as there are rows.
\<close>

definition table_ok :: "offset_item list \<Rightarrow> int list \<Rightarrow> bool" where
  "table_ok rows arr \<longleftrightarrow> 0 < length arr
     \<and> (\<forall>i<length arr. -1 \<le> arr ! i \<and> arr ! i < int (length rows))
     \<and> (\<forall>k<length rows. \<exists>d. arr ! probe_slot (length arr) (home (length arr) (rows ! k)) d = int k
          \<and> (\<forall>d'<d. 0 \<le> arr ! probe_slot (length arr) (home (length arr) (rows ! k)) d'
                 \<and> arr ! probe_slot (length arr) (home (length arr) (rows ! k)) d' < int k))
     \<and> card {i. i < length arr \<and> arr ! i \<noteq> -1} = length rows"

definition gen_param_ok :: "gen_param \<Rightarrow> bool" where
  "gen_param_ok p \<longleftrightarrow> table_ok (gp_rows p) (gp_hash_arr p) \<and> gp_f_cnt p = length (gp_rows p)
     \<and> gp_hash_size p = length (gp_hash_arr p)"

lemma table_ok_range: "table_ok rows arr \<Longrightarrow> i < length arr \<Longrightarrow> -1 \<le> arr ! i \<and> arr ! i < int (length rows)"
  by (simp add: table_ok_def)

lemma table_ok_chain:
  assumes "table_ok rows arr" and "k < length rows"
  obtains d where "arr ! probe_slot (length arr) (home (length arr) (rows ! k)) d = int k"
    and "\<And>d'. d' < d \<Longrightarrow> 0 \<le> arr ! probe_slot (length arr) (home (length arr) (rows ! k)) d'
       \<and> arr ! probe_slot (length arr) (home (length arr) (rows ! k)) d' < int k"
  using assms unfolding table_ok_def by blast

lemma home_less: "0 < n \<Longrightarrow> home n r < n"
  by (simp add: home_def)

lemma table_ok_free:
  assumes "table_ok rows arr" and "length rows < length arr"
  obtains i where "i < length arr" and "arr ! i = -1"
proof -
  have "{i. i < length arr \<and> arr ! i \<noteq> -1} \<noteq> {i. i < length arr}"
    using assms by (metis card_Collect_less_nat nat_neq_iff table_ok_def)
  then show ?thesis using that by blast
qed

lemma table_ok_full:
  assumes "table_ok rows arr" and "length arr \<le> length rows" and "i < length arr"
  shows "0 \<le> arr ! i"
proof -
  have "card {i. i < length arr \<and> arr ! i \<noteq> -1} \<ge> card {i. i < length arr}"
    using assms(1,2) by (simp add: table_ok_def)
  then have "{i. i < length arr \<and> arr ! i \<noteq> -1} = {i. i < length arr}"
    by (intro card_seteq) auto
  then have "arr ! i \<noteq> -1" using assms(3) by blast
  then show ?thesis using table_ok_range [OF assms(1,3)] by linarith
qed

lemma table_ok_insert:
  assumes ok: "table_ok rows arr" and room: "length rows < length arr"
  shows "\<exists>j. probe_free arr (home (length arr) r) = Some j
    \<and> table_ok (rows @ [r]) (arr[j := int (length rows)])"
proof -
  let ?n = "length arr" and ?id = "length rows"
  have n: "0 < ?n" using ok by (simp add: table_ok_def)
  obtain i where "i < ?n" "arr ! i = -1" by (rule table_ok_free [OF ok room])
  then obtain d where d: "probe_free arr (home ?n r) = Some (probe_slot ?n (home ?n r) d)"
      "arr ! probe_slot ?n (home ?n r) d = -1" "\<forall>d'<d. arr ! probe_slot ?n (home ?n r) d' \<noteq> -1"
    using probe_free_total [OF home_less [OF n]] by blast
  let ?j = "probe_slot ?n (home ?n r) d"
  let ?arr = "arr[?j := int ?id]"
  have j: "?j < ?n" by (rule probe_slot_less [OF n])
  have other: "?arr ! i = arr ! i" if "arr ! i \<noteq> -1" for i using that d(2) by (metis nth_list_update_neq)
  have "table_ok (rows @ [r]) ?arr"
    unfolding table_ok_def
  proof (intro conjI allI impI)
    show "0 < length ?arr" using n by simp
  next
    fix i assume "i < length ?arr"
    then show "-1 \<le> ?arr ! i" "?arr ! i < int (length (rows @ [r]))"
      using table_ok_range [OF ok, of i] by (cases "i = ?j"; simp)+
  next
    fix k assume k: "k < length (rows @ [r])"
    show "\<exists>d. ?arr ! probe_slot (length ?arr) (home (length ?arr) ((rows @ [r]) ! k)) d = int k
       \<and> (\<forall>d'<d. 0 \<le> ?arr ! probe_slot (length ?arr) (home (length ?arr) ((rows @ [r]) ! k)) d'
            \<and> ?arr ! probe_slot (length ?arr) (home (length ?arr) ((rows @ [r]) ! k)) d' < int k)"
    proof (cases "k = ?id")
      case True
      have "0 \<le> ?arr ! probe_slot ?n (home ?n r) d' \<and> ?arr ! probe_slot ?n (home ?n r) d' < int ?id" if "d' < d" for d'
      proof -
        have ne: "arr ! probe_slot ?n (home ?n r) d' \<noteq> -1" using d(3) that by blast
        then show ?thesis
          using other [OF ne] table_ok_range [OF ok probe_slot_less [OF n], of "home ?n r" d'] by linarith
      qed
      moreover have "?arr ! ?j = int ?id" using j by simp
      ultimately show ?thesis using True by (intro exI [of _ d]) simp
    next
      case False
      then have lt: "k < length rows" using k by simp
      obtain e where e: "arr ! probe_slot ?n (home ?n (rows ! k)) e = int k"
          "\<And>d'. d' < e \<Longrightarrow> 0 \<le> arr ! probe_slot ?n (home ?n (rows ! k)) d'
             \<and> arr ! probe_slot ?n (home ?n (rows ! k)) d' < int k"
        using table_ok_chain [OF ok lt] by blast
      have "?arr ! probe_slot ?n (home ?n (rows ! k)) e = int k"
        using other [of "probe_slot ?n (home ?n (rows ! k)) e"] e(1) by simp
      moreover have "?arr ! probe_slot ?n (home ?n (rows ! k)) d' = arr ! probe_slot ?n (home ?n (rows ! k)) d'"
        if "d' < e" for d' using other e(2) [OF that] by simp
      ultimately show ?thesis using e(2) lt by (intro exI [of _ e]) (simp add: nth_append)
    qed
  next
    have "{i. i < length ?arr \<and> ?arr ! i \<noteq> -1} = insert ?j {i. i < ?n \<and> arr ! i \<noteq> -1}"
      using j d(2) by (auto simp: nth_list_update)
    moreover have "?j \<notin> {i. i < ?n \<and> arr ! i \<noteq> -1}" using d(2) by simp
    ultimately show "card {i. i < length ?arr \<and> ?arr ! i \<noteq> -1} = length (rows @ [r])"
      using ok by (simp add: table_ok_def)
  qed
  then show ?thesis using d(1) by blast
qed

section \<open>Filling the table\<close>

lemma emit_row_ok:
  assumes "gen_param_ok p" and "length (gp_rows p) < gp_hash_size p"
  shows "\<exists>p'. emit_row r p = Some p' \<and> gen_param_ok p' \<and> gp_rows p' = gp_rows p @ [r]
    \<and> gp_hash_size p' = gp_hash_size p"
proof -
  obtain j where "probe_free (gp_hash_arr p) (home (length (gp_hash_arr p)) r) = Some j"
      "table_ok (gp_rows p @ [r]) ((gp_hash_arr p)[j := int (length (gp_rows p))])"
    using table_ok_insert assms by (metis gen_param_ok_def)
  then show ?thesis using assms(1)
    by (simp add: emit_row_def gen_hash_arr_def gen_param_ok_def home_def Let_def)
qed

lemma emit_row_full:
  assumes "gen_param_ok p" and "gp_hash_size p \<le> length (gp_rows p)"
  shows "emit_row r p = None"
proof -
  let ?arr = "gp_hash_arr p"
  have ok: "table_ok (gp_rows p) ?arr" and n: "gp_hash_size p = length ?arr" "0 < length ?arr"
    using assms(1) by (simp_all add: gen_param_ok_def table_ok_def)
  have "probe_free ?arr h = None" if "h < length ?arr" for h
    using probe_free_range [OF _ that] probe_free_Some table_ok_full [OF ok] assms(2) n(1)
    by (metis le_minus_one_simps(3) not_None_eq)
  then show ?thesis using n by (simp add: emit_row_def gen_hash_arr_def)
qed

lemma emit_rows_append: "emit_rows (rs @ rs') p = Option.bind (emit_rows rs p) (emit_rows rs')"
proof (induction rs arbitrary: p)
  case (Cons r rs)
  then show ?case by (cases "emit_row r p") simp_all
qed simp

lemma emit_rows_correct:
  "gen_param_ok p \<Longrightarrow>
   if length (gp_rows p) + length rs \<le> gp_hash_size p
   then \<exists>p'. emit_rows rs p = Some p' \<and> gen_param_ok p' \<and> gp_rows p' = gp_rows p @ rs
     \<and> gp_hash_size p' = gp_hash_size p
   else rs = [] \<or> emit_rows rs p = None"
proof (induction rs arbitrary: p)
  case (Cons r rs)
  show ?case
  proof (cases "length (gp_rows p) < gp_hash_size p")
    case True
    obtain p' where "emit_row r p = Some p'" "gen_param_ok p'" "gp_rows p' = gp_rows p @ [r]"
        "gp_hash_size p' = gp_hash_size p"
      using emit_row_ok [OF Cons.prems True] by blast
    then show ?thesis using Cons.IH [of p'] True by (auto split: if_splits)
  next
    case False
    then show ?thesis using emit_row_full [OF Cons.prems] by simp
  qed
qed simp

section \<open>The rows of a schema\<close>

fun fields_rows :: "oneof_container sstr_map \<Rightarrow> string \<Rightarrow> struct_field list \<Rightarrow> nat \<Rightarrow> offset_item list" where
  "fields_rows om st [] i = []"
| "fields_rows om st (f # fs) i = field_rows om st f i @ fields_rows om st fs (i + 1)"

definition struct_rows :: "oneof_container sstr_map \<Rightarrow> struct_container \<Rightarrow> offset_item list" where
  "struct_rows om st = struct_row (sc_name st) # fields_rows om (sc_name st) (sc_fields st) 0"

definition table_rows :: "struct_container sstr_map \<Rightarrow> oneof_container sstr_map \<Rightarrow> offset_item list" where
  "table_rows sm om = concat (map (struct_rows om \<circ> snd) (concat (buckets sm)))"

definition total_fields :: "struct_container sstr_map \<Rightarrow> nat" where
  "total_fields sm = hash_map_for_each sm (\<lambda>k st n. count_fields_fd st n) 0"

lemma gen_fields_eq: "gen_fields om st fs i p = emit_rows (fields_rows om st fs i) p"
proof (induction fs arbitrary: i p)
  case (Cons f fs)
  have "gen_fields om st fs (i + 1) = emit_rows (fields_rows om st fs (i + 1))"
    using Cons.IH by (rule ext)
  then show ?case by (simp add: emit_rows_append del: emit_rows.simps)
qed simp

lemma gen_fields_list_fn_eq: "gen_fields_list_fn om st p = emit_rows (struct_rows om st) p"
proof -
  have "gen_fields om (sc_name st) (sc_fields st) 0 = emit_rows (fields_rows om (sc_name st) (sc_fields st) 0)"
    by (rule ext) (rule gen_fields_eq)
  then show ?thesis by (simp add: gen_fields_list_fn_def struct_rows_def)
qed

lemma fold_gen_fields:
  "fold (\<lambda>(k, st) po. Option.bind po (gen_fields_list_fn om st)) es po
   = Option.bind po (emit_rows (concat (map (struct_rows om \<circ> snd) es)))"
proof (induction es arbitrary: po)
  case Nil
  have "emit_rows [] = Some" by (rule ext) simp
  then show ?case by (cases po) simp_all
next
  case (Cons e es)
  have "gen_fields_list_fn om (snd e) = emit_rows (struct_rows om (snd e))"
    by (rule ext) (rule gen_fields_list_fn_eq)
  moreover have "emit_rows (struct_rows om (snd e) @ rs) = (\<lambda>p. Option.bind (emit_rows (struct_rows om (snd e)) p) (emit_rows rs))" for rs
    by (rule ext) (rule emit_rows_append)
  ultimately show ?case using Cons.IH
    by (cases e) (simp add: Option.bind_assoc)
qed

lemma gen_code_offset_map_eq:
  "gen_code_offset_map sm om = emit_rows (table_rows sm om)
     \<lparr>gp_rows = [], gp_hash_size = total_fields sm * 2 + 1,
      gp_hash_arr = replicate (total_fields sm * 2 + 1) (-1), gp_f_cnt = 0\<rparr>"
  by (simp add: gen_code_offset_map_def table_rows_def total_fields_def hash_map_for_each_concat [of sm "\<lambda>k st po. Option.bind po (gen_fields_list_fn om st)"]
      fold_gen_fields Let_def)

lemma gen_param_ok_start:
  "0 < n \<Longrightarrow> gen_param_ok \<lparr>gp_rows = [], gp_hash_size = n, gp_hash_arr = replicate n (-1), gp_f_cnt = 0\<rparr>"
  by (simp add: gen_param_ok_def table_ok_def)

definition field_rows_count :: "struct_field \<Rightarrow> nat" where
  "field_rows_count f = (if is_dynamic_array f then 2 else 1)"

lemma length_fields_rows: "length (fields_rows om st fs i) = sum_list (map field_rows_count fs)"
  by (induction fs arbitrary: i) (auto simp: field_rows_def field_rows_count_def)

lemma count_fields_fd_add: "count_fields_fd st n = n + sum_list (map field_rows_count (sc_fields st))"
proof -
  have "fold (\<lambda>f n. (if is_dynamic_array f then n + 1 else n) + 1) fs k = k + sum_list (map field_rows_count fs)" for fs k
    by (induction fs arbitrary: k) (auto simp: field_rows_count_def)
  then show ?thesis by (simp add: count_fields_fd_def)
qed

lemma length_table_rows: "length (table_rows sm om) = total_fields sm + length (concat (buckets sm))"
proof -
  have "fold (\<lambda>(k, st) n. count_fields_fd st n) es n + length es = n + length (concat (map (struct_rows om \<circ> snd) es))" for es n
  proof (induction es arbitrary: n)
    case (Cons e es)
    then show ?case
      using Cons.IH [of "count_fields_fd (snd e) n"]
      by (cases e) (simp add: count_fields_fd_add struct_rows_def length_fields_rows)
  qed simp
  from this [of "concat (buckets sm)" 0] show ?thesis
    by (simp add: table_rows_def total_fields_def hash_map_for_each_concat [of sm "\<lambda>k st n. count_fields_fd st n"])
qed

section \<open>Looking a key up\<close>

definition no_nul :: "string \<Rightarrow> bool" where
  "no_nul s \<longleftrightarrow> NUL \<notin> set s"

definition row_named :: "offset_item \<Rightarrow> bool" where
  "row_named r \<longleftrightarrow> no_nul (it_struct_name r) \<and> no_nul (it_field_name r)"

lemma cstr_no_nul: "no_nul s \<Longrightarrow> cstr s = s"
  by (induction s) (auto simp: cstr_def no_nul_def)

lemma find_loop_total:
  assumes ok: "table_ok rows arr" and named: "list_all row_named rows" and room: "length rows < length arr"
  shows "json_field_offset_item_find rows arr st f = Some (List.find (item_matches st f) rows)"
proof -
  let ?n = "length arr" and ?h = "unat (hash_2s_c st f) mod length arr"
  have n: "0 < ?n" using ok by (simp add: table_ok_def)
  have h: "?h < ?n" using n by simp
  show ?thesis
  proof (cases "List.find (item_matches st f) rows")
    case None
    then have no: "\<not> item_matches st f (rows ! k)" if "k < length rows" for k
      using that by (simp add: find_None_iff)
    obtain i where "i < ?n" "arr ! i = -1" by (rule table_ok_free [OF ok room])
    then obtain d where d: "arr ! probe_slot ?n ?h d = -1" "\<forall>d'<d. arr ! probe_slot ?n ?h d' \<noteq> -1"
      using probe_free_total [OF h] by blast
    have "\<forall>d'<d. arr ! probe_slot ?n ?h d' \<ge> 0 \<and> \<not> item_matches st f (rows ! nat (arr ! probe_slot ?n ?h d'))"
    proof (intro allI impI)
      fix d' assume "d' < d"
      then show "arr ! probe_slot ?n ?h d' \<ge> 0 \<and> \<not> item_matches st f (rows ! nat (arr ! probe_slot ?n ?h d'))"
        using d(2) table_ok_range [OF ok probe_slot_less [OF n, of ?h d']] no by force
    qed
    from find_loop_hit [OF h this] show ?thesis
      using d(1) None by (simp add: json_field_offset_item_find_def find_loop.simps [of _ _ _ _ "probe_slot _ _ _"])
  next
    case (Some it)
    then obtain k where k: "k < length rows" "item_matches st f (rows ! k)" "it = rows ! k"
        "\<forall>j<k. \<not> item_matches st f (rows ! j)"
      by (auto simp: find_Some_iff)
    have "row_named (rows ! k)" using named k(1) by (simp add: list_all_length)
    then have "hash_2s_c st f = hash_2s (it_struct_name (rows ! k)) (it_field_name (rows ! k))"
      using k(2) by (simp add: hash_2s_c_eq item_matches_def row_named_def cstr_no_nul)
    then have hh: "?h = home ?n (rows ! k)" by (simp add: home_def)
    obtain d where d: "arr ! probe_slot ?n ?h d = int k"
        "\<And>d'. d' < d \<Longrightarrow> 0 \<le> arr ! probe_slot ?n ?h d' \<and> arr ! probe_slot ?n ?h d' < int k"
      using table_ok_chain [OF ok k(1)] unfolding hh by blast
    have "\<forall>d'<d. arr ! probe_slot ?n ?h d' \<ge> 0 \<and> \<not> item_matches st f (rows ! nat (arr ! probe_slot ?n ?h d'))"
    proof (intro allI impI)
      fix d' assume "d' < d"
      then have "0 \<le> arr ! probe_slot ?n ?h d'" "nat (arr ! probe_slot ?n ?h d') < k"
        using d(2) [of d'] by auto
      then show "arr ! probe_slot ?n ?h d' \<ge> 0 \<and> \<not> item_matches st f (rows ! nat (arr ! probe_slot ?n ?h d'))"
        using k(4) by blast
    qed
    from find_loop_hit [OF h this] show ?thesis
      using d(1) Some k(2,3)
      by (simp add: json_field_offset_item_find_def find_loop.simps [of _ _ _ _ "probe_slot _ _ _"])
  qed
qed

text \<open>A full table in which no row matches.\<close>

definition full_miss :: "offset_item list \<Rightarrow> int list \<Rightarrow> string \<Rightarrow> string \<Rightarrow> bool" where
  "full_miss items arr st f \<longleftrightarrow>
     (\<forall>i<length arr. 0 \<le> arr ! i \<and> \<not> item_matches st f (items ! nat (arr ! i)))"

lemma full_missD:
  "full_miss items arr st f \<Longrightarrow> i < length arr \<Longrightarrow> \<not> arr ! i < 0 \<and> \<not> item_matches st f (items ! nat (arr ! i))"
  by (auto simp: full_miss_def not_less)

lemma find_loop_full:
  assumes "full_miss items arr st f" and "h < length arr"
  shows "find_loop items arr st f h = None"
proof -
  have "find_loop items arr st f h = Some r \<Longrightarrow> full_miss items arr st f \<and> h < length arr \<longrightarrow> False" for r
    by (rule find_loop.raw_induct [of "\<lambda>items arr st f h r. full_miss items arr st f \<and> h < length arr \<longrightarrow> False"])
      (auto simp: Let_def not_le dest: full_missD order.strict_trans1 [OF le0] split: if_splits, metis gr_zeroI not_less0)
  then show ?thesis using assms by (cases "find_loop items arr st f h") auto
qed

lemma table_miss:
  assumes "table_ok rows arr" and "List.find (item_matches st f) rows = None" and "length arr \<le> length rows"
  shows "json_field_offset_item_find rows arr st f = None"
proof -
  have no: "\<not> item_matches st f (rows ! k)" if "k < length rows" for k
    using assms(2) that by (simp add: find_None_iff)
  have "full_miss rows arr st f"
    using table_ok_full [OF assms(1,3)] table_ok_range [OF assms(1)] no
    by (auto simp: full_miss_def) (metis nat_less_iff)
  moreover have "0 < length arr" using assms(1) by (simp add: table_ok_def)
  ultimately show ?thesis by (simp add: json_field_offset_item_find_def find_loop_full)
qed

lemma find_ph_eq:
  assumes "no_nul key"
  shows "json_field_offset_item_find_ph items tbl (hash_s (cstr st) 0xbc9f1d34) st key
       = json_field_offset_item_find items tbl st key"
  by (simp add: json_field_offset_item_find_ph_def json_field_offset_item_find_def hash_2s_prehash_eq
      hash_2s_c_eq cstr_no_nul [OF assms])

lemma table_finds:
  assumes "length (concat (buckets sm)) \<le> total_fields sm"
    and "list_all row_named (table_rows sm om)"
  obtains p where "gen_code_offset_map sm om = Some p" and "gp_rows p = table_rows sm om"
    and "\<And>st key. json_field_offset_item_find (gp_rows p) (gp_hash_arr p) st key
           = Some (List.find (item_matches st key) (table_rows sm om))"
    and "\<And>st key. no_nul key \<Longrightarrow> json_field_offset_item_find_ph (gp_rows p) (gp_hash_arr p) (hash_s (cstr st) 0xbc9f1d34) st key
           = Some (List.find (item_matches st key) (table_rows sm om))"
proof -
  let ?n = "total_fields sm * 2 + 1"
  have room: "length (table_rows sm om) < ?n" using assms(1) length_table_rows [of sm om] by simp
  obtain p where p: "gen_code_offset_map sm om = Some p" "gen_param_ok p" "gp_rows p = table_rows sm om" "gp_hash_size p = ?n"
    using emit_rows_correct [OF gen_param_ok_start [of ?n], of "table_rows sm om"] room
    by (auto simp: gen_code_offset_map_eq)
  have "table_ok (table_rows sm om) (gp_hash_arr p)" "length (table_rows sm om) < length (gp_hash_arr p)"
    using p room by (auto simp: gen_param_ok_def)
  then have "json_field_offset_item_find (gp_rows p) (gp_hash_arr p) st key
      = Some (List.find (item_matches st key) (table_rows sm om))" for st key
    using find_loop_total assms(2) p(3) by metis
  then show ?thesis using that p(1,3) find_ph_eq by metis
qed

text \<open>Filling the table ends unless there are at least two more structs than field rows.\<close>

lemma offset_map_None: "gen_code_offset_map sm om = None \<longleftrightarrow> total_fields sm + 1 < length (concat (buckets sm))"
proof -
  note fill = emit_rows_correct [OF gen_param_ok_start [of "total_fields sm * 2 + 1"], of "table_rows sm om"]
  have "table_rows sm om = [] \<Longrightarrow> \<not> total_fields sm + 1 < length (concat (buckets sm))"
    using length_table_rows [of sm om] by (metis add_is_0 list.size(3) not_less0)
  then show ?thesis using fill length_table_rows [of sm om] by (auto simp: gen_code_offset_map_eq split: if_splits)
qed

section \<open>Properties\<close>

text \<open>
  C18. When no more structs than field rows are declared, filling the table ends, the rows are the
  schema's in order, and a lookup by struct and key returns the first row with that struct and key,
  or nothing when there is none, after finitely many probes; the lookup that reuses the hash of the
  struct name agrees with it.
\<close>
theorem offset_table_lookup:
  assumes "length (concat (buckets sm)) \<le> total_fields sm"
    and "list_all row_named (table_rows sm om)"
  shows "\<exists>p. gen_code_offset_map sm om = Some p \<and> gp_rows p = table_rows sm om
    \<and> (\<forall>st key. json_field_offset_item_find (gp_rows p) (gp_hash_arr p) st key
           = Some (List.find (item_matches st key) (table_rows sm om))
         \<and> (no_nul key \<longrightarrow> json_field_offset_item_find_ph (gp_rows p) (gp_hash_arr p) (hash_s (cstr st) 0xbc9f1d34) st key
           = Some (List.find (item_matches st key) (table_rows sm om))))"
  using table_finds [OF assms] by metis

text \<open>Small schemas for the witnesses.\<close>

definition demo_field :: "string \<Rightarrow> struct_field" where
  "demo_field n = \<lparr>fd_name = n, fd_type = FIELD_TYPE_INT, fd_is_array = False, fd_array_size = 0,
     fd_type_name = ''int'', fd_map_value_type = FIELD_TYPE_INT, fd_map_value_type_name = None,
     fd_is_optional = False, fd_is_nullable = False, fd_json_name = None, fd_default_value = None,
     fd_has_default = False, fd_is_deprecated = False, fd_line = 1, fd_col = 0\<rparr>"

definition demo_struct :: "string \<Rightarrow> struct_field list \<Rightarrow> struct_container" where
  "demo_struct n fs = \<lparr>sc_name = n, sc_fields = fs, sc_name_line = 1, sc_name_col = 0, sc_filename = []\<rparr>"

definition demo_map :: "struct_container list \<Rightarrow> struct_container sstr_map" where
  "demo_map ss = (sstr_map_new 1)\<lparr>buckets := [map (\<lambda>s. (sc_name s, s)) ss], map_size := length ss\<rparr>"

lemmas demo_defs = demo_field_def demo_struct_def demo_map_def total_fields_def hash_map_for_each_def
  count_fields_fd_def is_dynamic_array_def table_rows_def struct_rows_def struct_row_def field_rows_def
  field_row_def plain_row_def row_named_def no_nul_def JSON_KEY_def item_matches_def cstr_def

lemma offset_table_lookup_witness:
  "\<exists>p it. gen_code_offset_map (demo_map [demo_struct ''A'' [demo_field ''x'']]) (sstr_map_new 1) = Some p
     \<and> json_field_offset_item_find (gp_rows p) (gp_hash_arr p) ''A'' ''x'' = Some (Some it)
     \<and> it_field_name it = ''x''
     \<and> json_field_offset_item_find (gp_rows p) (gp_hash_arr p) ''A'' ''y'' = Some None"
proof -
  let ?sm = "demo_map [demo_struct ''A'' [demo_field ''x'']]" and ?om = "sstr_map_new 1 :: oneof_container sstr_map"
  have "length (concat (buckets ?sm)) \<le> total_fields ?sm" by (simp add: demo_defs)
  moreover have "list_all row_named (table_rows ?sm ?om)" by (simp add: demo_defs)
  ultimately obtain p where "gen_code_offset_map ?sm ?om = Some p" "gp_rows p = table_rows ?sm ?om"
      "\<And>st key. json_field_offset_item_find (gp_rows p) (gp_hash_arr p) st key
         = Some (List.find (item_matches st key) (table_rows ?sm ?om))"
    using offset_table_lookup by blast
  then show ?thesis by (simp add: demo_defs)
qed

text \<open>
  With more structs than that the table is too small. Filling it never ends exactly when there
  are at least two more structs than field rows; with exactly one more, the table is completely full
  and every lookup of a key that no row has runs forever.
\<close>
theorem offset_table_too_small:
  "(gen_code_offset_map sm om = None \<longleftrightarrow> total_fields sm + 1 < length (concat (buckets sm)))
   \<and> (\<forall>p st key. gen_code_offset_map sm om = Some p
        \<and> length (concat (buckets sm)) = total_fields sm + 1
        \<and> List.find (item_matches st key) (table_rows sm om) = None
        \<longrightarrow> json_field_offset_item_find (gp_rows p) (gp_hash_arr p) st key = None)"
proof -
  let ?n = "total_fields sm * 2 + 1"
  note fill = emit_rows_correct [OF gen_param_ok_start [of ?n], of "table_rows sm om"]
  have "gen_code_offset_map sm om = None \<longleftrightarrow> total_fields sm + 1 < length (concat (buckets sm))" by (rule offset_map_None)
  moreover have "json_field_offset_item_find (gp_rows p) (gp_hash_arr p) st key = None"
    if "gen_code_offset_map sm om = Some p" "length (concat (buckets sm)) = total_fields sm + 1"
      "List.find (item_matches st key) (table_rows sm om) = None" for p st key
  proof -
    have "gen_param_ok p" "gp_rows p = table_rows sm om" "gp_hash_size p = ?n"
      using fill that(1,2) length_table_rows [of sm om] by (auto simp: gen_code_offset_map_eq)
    then show ?thesis
      using table_miss [of "table_rows sm om" "gp_hash_arr p" st key] that(2,3) length_table_rows [of sm om]
      by (simp add: gen_param_ok_def)
  qed
  ultimately show ?thesis by blast
qed

lemma offset_table_too_small_witness:
  "gen_code_offset_map (demo_map [demo_struct ''A'' [], demo_struct ''B'' []]) (sstr_map_new 1) = None
   \<and> (\<exists>p. gen_code_offset_map (demo_map [demo_struct ''A'' []]) (sstr_map_new 1) = Some p
        \<and> json_field_offset_item_find (gp_rows p) (gp_hash_arr p) ''A'' ''x'' = None)"
proof -
  let ?two = "demo_map [demo_struct ''A'' [], demo_struct ''B'' []]" and ?one = "demo_map [demo_struct ''A'' []]"
    and ?om = "sstr_map_new 1 :: oneof_container sstr_map"
  have "total_fields ?two + 1 < length (concat (buckets ?two))" by (simp add: demo_defs)
  then have "gen_code_offset_map ?two ?om = None" using offset_table_too_small by blast
  moreover have one: "length (concat (buckets ?one)) = total_fields ?one + 1" by (simp add: demo_defs)
  then obtain p where p: "gen_code_offset_map ?one ?om = Some p"
    using offset_table_too_small [of ?one ?om] by (metis not_None_eq nat_less_le)
  moreover have "List.find (item_matches ''A'' ''x'') (table_rows ?one ?om) = None" by (simp add: demo_defs)
  then have "json_field_offset_item_find (gp_rows p) (gp_hash_arr p) ''A'' ''x'' = None"
    using offset_table_too_small p one by blast
  ultimately show ?thesis by blast
qed

end
