(* ===== verification/DepOrder.thy ===== *)
theory DepOrder
  imports OffsetTable
begin

text \<open>
  The order in which \<open>gencode_source\<close> (\<open>src/gencode/gencode.c\<close>) emits structs and oneofs: a struct is
  emitted once every struct or oneof it contains has been, a oneof once its variants have. Each pass
  walks both maps; the emitted text of a definition is represented by the definition itself. The field table is
  emitted before the first pass, which may take forever.
\<close>

section \<open>The generator\<close>

definition DEPENDENCY_HASH_MAP_BUCKET_SIZE :: nat where
  "DEPENDENCY_HASH_MAP_BUCKET_SIZE = 4096"

datatype gen_unit = Gen_struct struct_container | Gen_oneof oneof_container

type_synonym gen_state = "unit sstr_map \<times> (string \<times> gen_unit) list"

text \<open>The names that the loop over the fields looks up, in order.\<close>

definition field_deps :: "struct_field \<Rightarrow> string list" where
  "field_deps f =
     (if fd_type f = FIELD_TYPE_STRUCT then [fd_type_name f] else [])
     @ (if fd_type f = FIELD_TYPE_MAP \<and> fd_map_value_type f = FIELD_TYPE_STRUCT
        then (case fd_map_value_type_name f of Some n \<Rightarrow> [n] | None \<Rightarrow> []) else [])
     @ (if fd_type f = FIELD_TYPE_ONEOF then [fd_type_name f] else [])"

definition struct_deps :: "struct_container \<Rightarrow> string list" where
  "struct_deps st = concat (map field_deps (sc_fields st))"

definition oneof_deps :: "oneof_container \<Rightarrow> string list" where
  "oneof_deps oc = map ov_struct_type_name (oc_variants oc)"

definition found :: "unit sstr_map \<Rightarrow> string \<Rightarrow> bool" where
  "found dep k \<longleftrightarrow> fst (hash_map_find dep k) = HASH_MAP_OK"

definition do_each_struct_gen_code :: "string \<Rightarrow> struct_container \<Rightarrow> gen_state \<Rightarrow> gen_state" where
  "do_each_struct_gen_code k st s = (case s of (dep, out) \<Rightarrow>
     if found dep k then (dep, out)
     else if \<not> list_all (found dep) (struct_deps st) then (dep, out)
     else (snd (hm_insert dep k ()), out @ [(k, Gen_struct st)]))"

definition do_each_oneof_gen_code :: "string \<Rightarrow> oneof_container \<Rightarrow> gen_state \<Rightarrow> gen_state" where
  "do_each_oneof_gen_code k oc s = (case s of (dep, out) \<Rightarrow>
     if found dep k then (dep, out)
     else if \<not> list_all (found dep) (oneof_deps oc) then (dep, out)
     else (snd (hm_insert dep k ()), out @ [(k, Gen_oneof oc)]))"

definition gen_pass :: "struct_container sstr_map \<Rightarrow> oneof_container sstr_map \<Rightarrow> gen_state \<Rightarrow> gen_state" where
  "gen_pass sm om s =
     hash_map_for_each om do_each_oneof_gen_code (hash_map_for_each sm do_each_struct_gen_code s)"

fun gen_passes ::
  "nat \<Rightarrow> nat \<Rightarrow> struct_container sstr_map \<Rightarrow> oneof_container sstr_map \<Rightarrow> gen_state \<Rightarrow> gen_state" where
  "gen_passes 0 tot sm om s = s"
| "gen_passes (Suc n) tot sm om s =
     (let s' = gen_pass sm om s
      in if map_size (fst s') \<ge> tot then s' else gen_passes n tot sm om s')"

text \<open>\<open>None\<close> is not returning; the table is part of what is emitted.\<close>

definition gencode_source ::
  "struct_container sstr_map \<Rightarrow> oneof_container sstr_map \<Rightarrow> (int \<times> gen_param \<times> (string \<times> gen_unit) list) option" where
  "gencode_source sm om = Option.bind (gen_code_offset_map sm om) (\<lambda>tbl.
     (let tot = map_size sm + map_size om;
          (dep, out) = gen_passes tot tot sm om (sstr_map_new DEPENDENCY_HASH_MAP_BUCKET_SIZE, [])
      in Some (if map_size dep < tot then -1 else 0, tbl, out)))"

section \<open>The abstract worklist\<close>

text \<open>An item is a name and the names it needs; the state is the list of names emitted so far.\<close>

type_synonym item = "string \<times> string list"

definition visit :: "item \<Rightarrow> string list \<Rightarrow> string list" where
  "visit e out = (if fst e \<in> set out \<or> \<not> set (snd e) \<subseteq> set out then out else out @ [fst e])"

definition visit_all :: "item list \<Rightarrow> string list \<Rightarrow> string list" where
  "visit_all es = fold visit es"

inductive buildable :: "item list \<Rightarrow> string \<Rightarrow> bool" for es where
  build: "(k, ds) \<in> set es \<Longrightarrow> \<forall>d\<in>set ds. buildable es d \<Longrightarrow> buildable es k"

text \<open>Every name comes after the names it needs.\<close>

definition ordered :: "item list \<Rightarrow> string list \<Rightarrow> bool" where
  "ordered es out \<longleftrightarrow> distinct out
     \<and> (\<forall>i<length out. \<exists>ds. (out ! i, ds) \<in> set es \<and> set ds \<subseteq> set (take i out))"

lemma ordered_Nil [simp]: "ordered es []"
  by (simp add: ordered_def)

lemma visit_ordered: "ordered es out \<Longrightarrow> e \<in> set es \<Longrightarrow> ordered es (visit e out)"
  by (cases e) (auto simp: ordered_def visit_def nth_append less_Suc_eq)

lemma visit_all_ordered: "ordered es out \<Longrightarrow> set es' \<subseteq> set es \<Longrightarrow> ordered es (visit_all es' out)"
  by (induction es' arbitrary: out) (auto simp: visit_all_def visit_ordered)

lemma visit_mono: "set out \<subseteq> set (visit e out)"
  by (auto simp: visit_def)

lemma visit_all_mono: "set out \<subseteq> set (visit_all es out)"
  by (induction es arbitrary: out) (auto simp: visit_all_def dest: subsetD [OF visit_mono])

lemma visit_all_ready:
  "(k, ds) \<in> set es \<Longrightarrow> set ds \<subseteq> set out \<Longrightarrow> k \<in> set (visit_all es out)"
proof (induction es arbitrary: out)
  case (Cons e es)
  show ?case
  proof (cases "e = (k, ds)")
    case True
    then have "k \<in> set (visit e out)" using Cons.prems(2) by (simp add: visit_def)
    then show ?thesis using visit_all_mono [of "visit e out" es] by (auto simp: visit_all_def)
  next
    case False
    then have "k \<in> set (visit_all es (visit e out))"
      using Cons.IH [of "visit e out"] Cons.prems visit_mono [of out e] by auto
    then show ?thesis by (simp add: visit_all_def)
  qed
qed simp

lemma ordered_buildable:
  assumes "ordered es out" and "k \<in> set out"
  shows "buildable es k"
proof -
  have "i < length out \<Longrightarrow> buildable es (out ! i)" for i
  proof (induction i rule: less_induct)
    case (less i)
    obtain ds where ds: "(out ! i, ds) \<in> set es" "set ds \<subseteq> set (take i out)"
      using assms(1) less.prems by (auto simp: ordered_def)
    have "buildable es d" if "d \<in> set ds" for d
    proof -
      have "d \<in> set (take i out)" using ds(2) that by blast
      then obtain j where "j < i" "d = out ! j" by (auto simp: in_set_conv_nth)
      then show ?thesis using less.IH [of j] less.prems by simp
    qed
    then show ?case using build [OF ds(1)] by blast
  qed
  then show ?thesis using assms(2) by (metis in_set_conv_nth)
qed

lemma buildable_name: "buildable es k \<Longrightarrow> k \<in> fst ` set es"
  by (erule buildable.cases) force

lemma buildable_finite: "finite {k. buildable es k}"
  by (rule finite_subset [of _ "fst ` set es"]) (auto dest: buildable_name)

lemma buildable_step:
  assumes "buildable es k"
  shows "k \<in> D \<or> (\<exists>k' ds. (k', ds) \<in> set es \<and> set ds \<subseteq> D \<and> k' \<notin> D)"
  using assms by (induction rule: buildable.induct) blast

lemma visit_all_progress:
  assumes "buildable es k" and "k \<notin> set out"
  shows "set out \<subset> set (visit_all es out)"
  using buildable_step [OF assms(1), of "set out"] assms(2) visit_all_ready visit_all_mono [of out es]
  by blast

fun visit_times :: "nat \<Rightarrow> item list \<Rightarrow> string list \<Rightarrow> string list" where
  "visit_times 0 es out = out"
| "visit_times (Suc n) es out = visit_times n es (visit_all es out)"

lemma visit_times_ordered: "ordered es out \<Longrightarrow> ordered es (visit_times n es out)"
  by (induction n arbitrary: out) (auto simp: visit_all_ordered)

lemma visit_times_all:
  "ordered es out \<Longrightarrow> card {k. buildable es k} \<le> n + card (set out) \<Longrightarrow>
   set (visit_times n es out) = {k. buildable es k}"
proof (induction n arbitrary: out)
  case 0
  have "finite {k. buildable es k}" by (rule buildable_finite)
  moreover have "set out \<subseteq> {k. buildable es k}" using ordered_buildable [OF 0(1)] by blast
  ultimately show ?case using 0(2) by (simp add: card_seteq)
next
  case (Suc n)
  have ord: "ordered es (visit_all es out)" using Suc.prems(1) by (simp add: visit_all_ordered)
  show ?case
  proof (cases "set out = {k. buildable es k}")
    case True
    have "set (visit_all es out) = {k. buildable es k}"
      using True visit_all_mono [of out es] ordered_buildable [OF ord] by blast
    then show ?thesis using Suc.IH [OF ord] by simp
  next
    case False
    then obtain k where "buildable es k" "k \<notin> set out" using ordered_buildable [OF Suc.prems(1)] by blast
    then have "card (set out) < card (set (visit_all es out))"
      by (intro psubset_card_mono visit_all_progress) simp_all
    then show ?thesis using Suc.IH [OF ord] Suc.prems(2) by simp
  qed
qed

section \<open>The generator refines the worklist\<close>

definition struct_item :: "string \<times> struct_container \<Rightarrow> item" where
  "struct_item e = (fst e, struct_deps (snd e))"

definition oneof_item :: "string \<times> oneof_container \<Rightarrow> item" where
  "oneof_item e = (fst e, oneof_deps (snd e))"

definition schema_items :: "struct_container sstr_map \<Rightarrow> oneof_container sstr_map \<Rightarrow> item list" where
  "schema_items sm om = map struct_item (concat (buckets sm)) @ map oneof_item (concat (buckets om))"

text \<open>The dependency map holds exactly the names that have been emitted.\<close>

definition gen_rel :: "gen_state \<Rightarrow> string list \<Rightarrow> bool" where
  "gen_rel s out \<longleftrightarrow> hm_inv (fst s) \<and> dom (hm_abs (fst s)) = set out \<and> map fst (snd s) = out"

lemma found_iff: "hm_inv dep \<Longrightarrow> found dep k \<longleftrightarrow> k \<in> dom (hm_abs dep)"
  by (auto simp: found_def hash_map_find_correct hash_map_codes split: option.splits)

lemma gen_rel_emit:
  assumes "gen_rel (dep, out) o'" and "k \<notin> set o'"
  shows "gen_rel (snd (hm_insert dep k ()), out @ [(k, u)]) (o' @ [k])"
proof -
  have "hm_inv dep" "hm_abs dep k = None" using assms by (auto simp: gen_rel_def)
  then obtain m where "hm_insert dep k () = (HASH_MAP_OK, m)" "hm_inv m" "hm_abs m = (hm_abs dep)(k \<mapsto> ())"
    using hm_insert_correct [of dep k "()"] by auto
  then show ?thesis using assms(1) by (auto simp: gen_rel_def)
qed

lemma list_all_found: "hm_inv dep \<Longrightarrow> list_all (found dep) ds \<longleftrightarrow> set ds \<subseteq> dom (hm_abs dep)"
  using found_iff [of dep] by (auto simp: list_all_iff)

lemma do_each_struct_rel:
  assumes "gen_rel s o'"
  shows "gen_rel (do_each_struct_gen_code k st s) (visit (struct_item (k, st)) o')"
proof (cases s)
  case (Pair dep out)
  have "hm_inv dep" "dom (hm_abs dep) = set o'" using assms Pair by (auto simp: gen_rel_def)
  then show ?thesis using assms gen_rel_emit [of dep out o' k] unfolding Pair
    by (simp add: do_each_struct_gen_code_def visit_def struct_item_def found_iff list_all_found)
qed

lemma do_each_oneof_rel:
  assumes "gen_rel s o'"
  shows "gen_rel (do_each_oneof_gen_code k oc s) (visit (oneof_item (k, oc)) o')"
proof (cases s)
  case (Pair dep out)
  have "hm_inv dep" "dom (hm_abs dep) = set o'" using assms Pair by (auto simp: gen_rel_def)
  then show ?thesis using assms gen_rel_emit [of dep out o' k] unfolding Pair
    by (simp add: do_each_oneof_gen_code_def visit_def oneof_item_def found_iff list_all_found)
qed

lemma fold_rel:
  assumes "\<And>e s o'. gen_rel s o' \<Longrightarrow> gen_rel (f e s) (visit (g e) o')"
  shows "gen_rel s o' \<Longrightarrow> gen_rel (fold f es s) (visit_all (map g es) o')"
  by (induction es arbitrary: s o') (auto simp: visit_all_def assms)

lemma visit_all_append: "visit_all (es @ es') out = visit_all es' (visit_all es out)"
  by (simp add: visit_all_def)

lemma gen_pass_rel:
  assumes "gen_rel s o'"
  shows "gen_rel (gen_pass sm om s) (visit_all (schema_items sm om) o')"
proof -
  have "gen_rel (fold (\<lambda>(k, st). do_each_struct_gen_code k st) (concat (buckets sm)) s)
          (visit_all (map struct_item (concat (buckets sm))) o')"
    by (rule fold_rel [OF _ assms]) (auto simp: do_each_struct_rel split: prod.splits)
  then have "gen_rel (fold (\<lambda>(k, oc). do_each_oneof_gen_code k oc) (concat (buckets om))
        (fold (\<lambda>(k, st). do_each_struct_gen_code k st) (concat (buckets sm)) s))
      (visit_all (schema_items sm om) o')"
    unfolding schema_items_def visit_all_append
    by (rule fold_rel [rotated]) (auto simp: do_each_oneof_rel split: prod.splits)
  then show ?thesis
    by (simp add: gen_pass_def hash_map_for_each_concat cond_case_prod_eta)
qed

lemma hm_size:
  assumes "hm_inv m"
  shows "map_size m = card (dom (hm_abs m))"
proof -
  have "dom (hm_abs m) = set (map fst (concat (buckets m)))"
    unfolding hm_abs_def dom_map_of_conv_image_fst by (rule list.set_map [symmetric])
  moreover have "map_size m = length (map fst (concat (buckets m)))" "distinct (map fst (concat (buckets m)))"
    using assms unfolding hm_inv_def length_map by blast+
  ultimately show ?thesis using distinct_card by metis
qed

lemma gen_passes_rel:
  assumes "gen_rel s o'" and "ordered (schema_items sm om) o'"
    and "card {k. buildable (schema_items sm om) k} \<le> tot"
    and "card {k. buildable (schema_items sm om) k} \<le> n + card (set o')"
  shows "\<exists>o2. gen_rel (gen_passes n tot sm om s) o2 \<and> ordered (schema_items sm om) o2
    \<and> set o2 = {k. buildable (schema_items sm om) k}"
  using assms(1,2,4)
proof (induction n arbitrary: s o')
  case 0
  then show ?case using visit_times_all [of "schema_items sm om" o' 0] by auto
next
  case (Suc n)
  let ?es = "schema_items sm om"
  let ?s = "gen_pass sm om s" and ?o = "visit_all ?es o'"
  have rel: "gen_rel ?s ?o" by (rule gen_pass_rel [OF Suc.prems(1)])
  have ord: "ordered ?es ?o" by (rule visit_all_ordered [OF Suc.prems(2)]) simp
  have sub: "set ?o \<subseteq> {k. buildable ?es k}" using ordered_buildable [OF ord] by blast
  have fin: "finite {k. buildable ?es k}" by (rule buildable_finite)
  show ?case
  proof (cases "map_size (fst ?s) \<ge> tot")
    case True
    then have "card {k. buildable ?es k} \<le> card (set ?o)"
      using rel assms(3) hm_size [of "fst ?s"] by (auto simp: gen_rel_def)
    then have "set ?o = {k. buildable ?es k}" using sub fin by (intro card_seteq)
    then show ?thesis using True rel ord by (auto simp: Let_def)
  next
    case False
    have "card {k. buildable ?es k} \<le> n + card (set ?o)"
    proof (cases "set o' = {k. buildable ?es k}")
      case True
      then have "set ?o = {k. buildable ?es k}" using sub visit_all_mono [of o' ?es] by blast
      then show ?thesis using Suc.prems(3) True by simp
    next
      case neq: False
      then obtain k where "buildable ?es k" "k \<notin> set o'" using ordered_buildable [OF Suc.prems(2)] by blast
      then have "card (set o') < card (set ?o)"
        by (intro psubset_card_mono visit_all_progress) simp_all
      then show ?thesis using Suc.prems(3) by simp
    qed
    then show ?thesis using Suc.IH [OF rel ord] False by (simp add: Let_def)
  qed
qed

lemma gen_rel_start: "gen_rel (sstr_map_new DEPENDENCY_HASH_MAP_BUCKET_SIZE, []) []"
  by (simp add: gen_rel_def sstr_map_new_inv DEPENDENCY_HASH_MAP_BUCKET_SIZE_def)

lemma schema_item_names:
  "hm_inv sm \<Longrightarrow> hm_inv om \<Longrightarrow> fst ` set (schema_items sm om) = dom (hm_abs sm) \<union> dom (hm_abs om)"
  by (auto simp: schema_items_def struct_item_def oneof_item_def hm_abs_def dom_map_of_conv_image_fst image_image image_Un)

section \<open>Properties\<close>

text \<open>
  C19. Given a schema whose structs and oneofs have distinct names, the generator does not return exactly when there are at least
  two more structs than field rows, since the field table is too small then. Otherwise it emits that table, and then exactly the
  definitions whose dependencies can all be satisfied, each once and each after the ones it needs, within the fixed
  number of passes; it reports success exactly when that is every definition of the schema, so a dependency that is circular or
  missing is always reported.
\<close>
theorem gencode_source_topological:
  assumes "hm_inv sm" and "hm_inv om" and "dom (hm_abs sm) \<inter> dom (hm_abs om) = {}"
  shows "(gencode_source sm om = None \<longleftrightarrow> total_fields sm + 1 < map_size sm)
    \<and> (total_fields sm + 1 \<ge> map_size sm \<longrightarrow> (\<exists>r tbl out. gencode_source sm om = Some (r, tbl, out)
      \<and> gen_code_offset_map sm om = Some tbl
      \<and> ordered (schema_items sm om) (map fst out)
      \<and> set (map fst out) = {k. buildable (schema_items sm om) k}
      \<and> (r = 0 \<longleftrightarrow> (\<forall>k \<in> dom (hm_abs sm) \<union> dom (hm_abs om). buildable (schema_items sm om) k))
      \<and> (r = 0 \<or> r = -1)))"
proof -
  let ?es = "schema_items sm om" and ?all = "dom (hm_abs sm) \<union> dom (hm_abs om)"
  let ?tot = "map_size sm + map_size om"
  have fin: "finite (dom (hm_abs sm))" "finite (dom (hm_abs om))" by (simp_all add: hm_abs_def finite_dom_map_of)
  have tot: "?tot = card ?all" using hm_size [OF assms(1)] hm_size [OF assms(2)] assms(3) fin
    by (simp add: card_Un_disjoint)
  have names: "{k. buildable ?es k} \<subseteq> ?all"
  proof
    fix k assume "k \<in> {k. buildable ?es k}"
    then have "k \<in> fst ` set ?es" by (simp add: buildable_name)
    then show "k \<in> ?all" unfolding schema_item_names [OF assms(1,2)] .
  qed
  then have "card {k. buildable ?es k} \<le> ?tot" using fin tot by (simp add: card_mono)
  then obtain o2 where o2: "gen_rel (gen_passes ?tot ?tot sm om (sstr_map_new DEPENDENCY_HASH_MAP_BUCKET_SIZE, [])) o2"
      "ordered ?es o2" "set o2 = {k. buildable ?es k}"
    using gen_passes_rel [OF gen_rel_start ordered_Nil, of sm om ?tot ?tot] by auto
  obtain dep out where s: "gen_passes ?tot ?tot sm om (sstr_map_new DEPENDENCY_HASH_MAP_BUCKET_SIZE, []) = (dep, out)"
    by (rule prod.exhaust)
  have out: "map fst out = o2" and sz: "map_size dep = card (set o2)"
    using o2(1) hm_size [of dep] unfolding s by (auto simp: gen_rel_def)
  have "map_size dep < ?tot \<longleftrightarrow> {k. buildable ?es k} \<noteq> ?all"
  proof
    assume "map_size dep < ?tot"
    then show "{k. buildable ?es k} \<noteq> ?all" using sz tot o2(3) by (metis less_irrefl)
  next
    assume "{k. buildable ?es k} \<noteq> ?all"
    then have "{k. buildable ?es k} \<subset> ?all" using names by blast
    then show "map_size dep < ?tot" unfolding sz tot o2(3) using fin by (intro psubset_card_mono) simp_all
  qed
  then have complete: "map_size dep < ?tot \<longleftrightarrow> \<not> (\<forall>k \<in> ?all. buildable ?es k)" using names by blast
  let ?r = "if map_size dep < ?tot then -1 else 0 :: int"
  have out': "ordered ?es (map fst out)" "set (map fst out) = {k. buildable ?es k}" using o2(2,3) out by simp_all
  have r: "?r = 0 \<longleftrightarrow> (\<forall>k \<in> ?all. buildable ?es k)" "?r = 0 \<or> ?r = -1" using complete by simp_all
  have src: "gencode_source sm om = Option.bind (gen_code_offset_map sm om) (\<lambda>tbl. Some (?r, tbl, out))"
    by (simp add: gencode_source_def s)
  have none: "gen_code_offset_map sm om = None \<longleftrightarrow> total_fields sm + 1 < map_size sm"
    using offset_map_None [of sm om] assms(1) by (simp only: hm_inv_def)
  show ?thesis
  proof (cases "gen_code_offset_map sm om")
    case None
    then show ?thesis using none src by simp
  next
    case (Some tbl)
    then have some: "gencode_source sm om = Some (?r, tbl, out)" using src by simp
    show ?thesis
    proof (intro conjI impI exI)
      show "gencode_source sm om = None \<longleftrightarrow> total_fields sm + 1 < map_size sm" unfolding some using none Some by simp
    qed (rule some Some out' r)+
  qed
qed

text \<open>A schema in which \<open>B\<close> contains an \<open>A\<close>, and one in which \<open>A\<close> contains itself.\<close>

definition dep_field :: "string \<Rightarrow> struct_field" where
  "dep_field t = \<lparr>fd_name = ''x'', fd_type = FIELD_TYPE_STRUCT, fd_is_array = False, fd_array_size = 0,
     fd_type_name = t, fd_map_value_type = FIELD_TYPE_INT, fd_map_value_type_name = None,
     fd_is_optional = False, fd_is_nullable = False, fd_json_name = None, fd_default_value = None,
     fd_has_default = False, fd_is_deprecated = False, fd_line = 1, fd_col = 0\<rparr>"

definition dep_map :: "(string \<times> string list) list \<Rightarrow> struct_container sstr_map" where
  "dep_map ss = (sstr_map_new 1)\<lparr>buckets := [map (\<lambda>(n, ts). (n,
      \<lparr>sc_name = n, sc_fields = map dep_field ts, sc_name_line = 1, sc_name_col = 0, sc_filename = []\<rparr>)) ss],
     map_size := length ss\<rparr>"

lemma dep_map_inv: "distinct (map fst ss) \<Longrightarrow> hm_inv (dep_map ss)"
  by (auto simp: hm_inv_def dep_map_def sstr_map_new_def hash_map_new_def placed_def bucket_index_def
      sstr_key_cmp_eq_0 o_def split_def)

lemma dep_map_items: "schema_items (dep_map ss) (sstr_map_new 1) = ss"
  by (auto simp: schema_items_def dep_map_def sstr_map_new_def hash_map_new_def struct_item_def
      struct_deps_def dep_field_def field_deps_def o_def split_def)

lemma dep_map_dom: "dom (hm_abs (dep_map ss)) = fst ` set ss"
  by (auto simp: hm_abs_def dep_map_def sstr_map_new_def hash_map_new_def dom_map_of_conv_image_fst split_def image_image)

lemma dep_map_size: "map_size (dep_map ss) = length ss" "total_fields (dep_map ss) = sum_list (map (length \<circ> snd) ss)"
proof -
  have "count_fields_fd \<lparr>sc_name = n, sc_fields = map dep_field ts, sc_name_line = 1, sc_name_col = 0, sc_filename = []\<rparr> k = k + length ts" for n ts k
    by (simp add: count_fields_fd_add field_rows_count_def dep_field_def is_dynamic_array_def o_def sum_list_triv)
  then have "fold (\<lambda>(k, st) n. count_fields_fd st n) (map (\<lambda>(n, ts). (n,
      \<lparr>sc_name = n, sc_fields = map dep_field ts, sc_name_line = 1, sc_name_col = 0, sc_filename = []\<rparr>)) ss) k = k + sum_list (map (length \<circ> snd) ss)" for k
    by (induction ss arbitrary: k) auto
  then show "total_fields (dep_map ss) = sum_list (map (length \<circ> snd) ss)"
    by (simp add: total_fields_def hash_map_for_each_concat [of _ "\<lambda>k st n. count_fields_fd st n"] dep_map_def)
qed (simp add: dep_map_def)

lemma gencode_source_topological_witness:
  "map_option fst (gencode_source (dep_map [(''B'', [''A'']), (''A'', [])]) (sstr_map_new 1)) = Some 0
   \<and> map_option fst (gencode_source (dep_map [(''A'', [''A''])]) (sstr_map_new 1)) = Some (-1)
   \<and> gencode_source (dep_map [(''A'', []), (''B'', [])]) (sstr_map_new 1) = None"
proof -
  let ?ok = "[(''B'', [''A'']), (''A'', [])] :: item list" and ?bad = "[(''A'', [''A''])] :: item list"
    and ?full = "[(''A'', []), (''B'', [])] :: item list"
  have om: "hm_inv (sstr_map_new 1)" by (rule sstr_map_new_inv) simp
  have a: "buildable ?ok ''A''" by (rule build [of _ "[]"]) simp_all
  then have b: "buildable ?ok ''B''" by (intro build [of _ "[''A'']"]) simp_all
  have bad: "\<not> buildable ?bad ''A''"
  proof
    assume "buildable ?bad ''A''"
    then show False by (induction "''A''" rule: buildable.induct) auto
  qed
  have run: "map_option fst (gencode_source (dep_map ss) (sstr_map_new 1)) = Some (if \<forall>k \<in> fst ` set ss. buildable ss k then 0 else -1)"
    if "distinct (map fst ss)" "length ss \<le> sum_list (map (length \<circ> snd) ss) + 1" for ss
  proof -
    have "dom (hm_abs (dep_map ss)) \<inter> dom (hm_abs (sstr_map_new 1)) = {}" by simp
    from conjunct2 [OF gencode_source_topological [OF dep_map_inv [OF that(1)] om this]] that(2)
    obtain r tbl out where r: "gencode_source (dep_map ss) (sstr_map_new 1) = Some (r, tbl, out)"
        "r = 0 \<longleftrightarrow> (\<forall>k \<in> fst ` set ss \<union> dom (hm_abs (sstr_map_new 1 :: oneof_container sstr_map)). buildable ss k)" "r = 0 \<or> r = -1"
      unfolding dep_map_items dep_map_dom dep_map_size by blast
    have "dom (hm_abs (sstr_map_new 1 :: oneof_container sstr_map)) = {}" by simp
    then have "r = (if \<forall>k \<in> fst ` set ss. buildable ss k then 0 else -1)" using r(2,3) by (simp only: Un_empty_right) (metis (no_types, lifting))
    then show ?thesis using r(1) by simp
  qed
  have "gencode_source (dep_map ?full) (sstr_map_new 1) = None"
  proof -
    have "dom (hm_abs (dep_map ?full)) \<inter> dom (hm_abs (sstr_map_new 1)) = {}" by simp
    from conjunct1 [OF gencode_source_topological [OF dep_map_inv om this]] show ?thesis by (simp add: dep_map_size)
  qed
  moreover have "map_option fst (gencode_source (dep_map ?ok) (sstr_map_new 1)) = Some 0"
    by (subst run) (use a b in simp_all)
  moreover have "map_option fst (gencode_source (dep_map ?bad) (sstr_map_new 1)) = Some (-1)"
    by (subst run) (use bad in simp_all)
  ultimately show ?thesis by blast
qed

end
