(* ===== verification/Diag.thy ===== *)
theory Diag
  imports SstrText
begin

text \<open>
  The diagnostic engine (\<open>src/utils/diag.c\<close>) and the error codes of \<open>src/utils/error_codes.c\<close>.
  A diagnostic's message is the text \<open>vsnprintf\<close> would produce; the engine keeps its first 1023
  bytes. What \<open>diag_print_all\<close> writes to its stream is returned as a string.
\<close>

section \<open>State\<close>

datatype diag_severity = DIAG_ERROR | DIAG_WARNING | DIAG_NOTE

record diag_entry =
  de_severity :: diag_severity
  de_line :: int
  de_col :: int
  de_message :: string

record diag_engine =
  dg_filename :: string
  dg_source :: "string option"
  dg_entries :: "diag_entry list"
  dg_capacity :: nat
  dg_error_count :: nat
  dg_warning_count :: nat
  dg_max_errors :: nat

definition DIAG_INITIAL_CAPACITY :: nat where "DIAG_INITIAL_CAPACITY = 16"
definition DIAG_MAX_ERRORS_DEFAULT :: nat where "DIAG_MAX_ERRORS_DEFAULT = 20"
definition DIAG_MSG_BUF_SIZE :: nat where "DIAG_MSG_BUF_SIZE = 1024"

lemmas diag_limits = DIAG_INITIAL_CAPACITY_def DIAG_MAX_ERRORS_DEFAULT_def DIAG_MSG_BUF_SIZE_def

section \<open>Operations\<close>

definition diag_engine_new :: "string \<Rightarrow> string option \<Rightarrow> diag_engine" where
  "diag_engine_new filename source = \<lparr>dg_filename = filename, dg_source = source, dg_entries = [],
     dg_capacity = DIAG_INITIAL_CAPACITY, dg_error_count = 0, dg_warning_count = 0,
     dg_max_errors = DIAG_MAX_ERRORS_DEFAULT\<rparr>"

text \<open>
  \<open>grow_ok\<close> and \<open>dup_ok\<close> say whether \<open>realloc\<close> and \<open>strdup\<close> succeed; a failure drops the diagnostic
  and, for \<open>strdup\<close>, keeps the larger array.
\<close>

definition diag_emit ::
  "bool \<Rightarrow> bool \<Rightarrow> diag_engine option \<Rightarrow> diag_severity \<Rightarrow> int \<Rightarrow> int \<Rightarrow> string \<Rightarrow> diag_engine option" where
  "diag_emit grow_ok dup_ok eo severity line col msg = (case eo of
     None \<Rightarrow> None
   | Some e \<Rightarrow>
       if severity = DIAG_ERROR \<and> dg_error_count e \<ge> dg_max_errors e then Some e
       else if length (dg_entries e) \<ge> dg_capacity e \<and> \<not> grow_ok then Some e
       else (let e1 = (if length (dg_entries e) \<ge> dg_capacity e
                       then e\<lparr>dg_capacity := dg_capacity e * 2\<rparr> else e);
                 buf = take (DIAG_MSG_BUF_SIZE - 1) msg;
                 entry = \<lparr>de_severity = severity, de_line = line, de_col = col, de_message = buf\<rparr>
             in if \<not> dup_ok then Some e1
                else Some (e1\<lparr>dg_entries := dg_entries e1 @ [entry],
                    dg_error_count := (if severity = DIAG_ERROR then dg_error_count e1 + 1 else dg_error_count e1),
                    dg_warning_count := (if severity = DIAG_WARNING then dg_warning_count e1 + 1 else dg_warning_count e1)\<rparr>)))"

definition is_newline :: "char \<Rightarrow> bool" where
  "is_newline c \<longleftrightarrow> c = CHR 0x0A \<or> c = CHR 0x0D"

definition line_end :: "string \<Rightarrow> nat \<Rightarrow> nat" where
  "line_end source i = i + length (takeWhile (\<lambda>c. \<not> is_newline c) (drop i source))"

text \<open>The loop of \<open>find_source_line\<close>: \<open>i\<close> runs up to and including the length of the source.\<close>

function find_line_loop :: "string \<Rightarrow> int \<Rightarrow> nat \<Rightarrow> int \<Rightarrow> (nat \<times> nat) option" where
  "find_line_loop source line i cur_line =
     (if i > length source then None
      else if cur_line = line then Some (i, line_end source i)
      else if i < length source \<and> source ! i = CHR 0x0A then find_line_loop source line (i + 1) (cur_line + 1)
      else if i < length source \<and> source ! i = CHR 0x0D then
        find_line_loop source line
          (if i + 1 < length source \<and> source ! (i + 1) = CHR 0x0A then i + 2 else i + 1) (cur_line + 1)
      else find_line_loop source line (i + 1) cur_line)"
  by pat_completeness auto
termination
  by (relation "measure (\<lambda>(source, line, i, cur_line). length source + 1 - i)") auto

declare find_line_loop.simps [simp del]

definition find_source_line :: "string option \<Rightarrow> int \<Rightarrow> (nat \<times> nat) option" where
  "find_source_line so line = (case so of
     None \<Rightarrow> None
   | Some source \<Rightarrow> if line < 1 then None else find_line_loop source line 0 1)"

fun severity_str :: "diag_severity \<Rightarrow> string" where
  "severity_str DIAG_ERROR = ''error''"
| "severity_str DIAG_WARNING = ''warning''"
| "severity_str DIAG_NOTE = ''note''"

definition ansi :: "string \<Rightarrow> string" where
  "ansi code = CHR 0x1B # CHR 0x5B # code @ ''m''"

fun severity_color :: "diag_severity \<Rightarrow> string" where
  "severity_color DIAG_ERROR = ansi ''1;31''"
| "severity_color DIAG_WARNING = ansi ''1;35''"
| "severity_color DIAG_NOTE = ansi ''1;36''"

text \<open>The header line of a diagnostic.\<close>

definition diag_header :: "bool \<Rightarrow> string \<Rightarrow> diag_entry \<Rightarrow> string" where
  "diag_header use_color filename e =
     (let loc = cstr filename @ '':'' @ show_int (de_line e) @ '':'' @ show_int (de_col e) @ '': ''
      in if use_color then
           ansi ''1'' @ loc @ severity_color (de_severity e) @ severity_str (de_severity e) @ '': ''
           @ ansi ''0'' @ ansi ''1'' @ cstr (de_message e) @ ansi ''0'' @ [CHR 0x0A]
         else loc @ severity_str (de_severity e) @ '': '' @ cstr (de_message e) @ [CHR 0x0A])"

text \<open>The source line and the caret under it; tabs are kept so that the columns line up.\<close>

definition diag_snippet :: "bool \<Rightarrow> string \<Rightarrow> nat \<Rightarrow> nat \<Rightarrow> int \<Rightarrow> string" where
  "diag_snippet use_color source line_start line_end' col =
     (let line_len = line_end' - line_start;
          caret_pos = (if col < 1 then 1 else col);
          pad = map (\<lambda>ch. if ch = CHR 0x09 then CHR 0x09 else CHR '' '')
                  (take (min (nat (caret_pos - 1)) line_len) (drop line_start source))
      in '' '' @ cstr (take line_len (drop line_start source)) @ [CHR 0x0A] @ '' '' @ pad
         @ (if use_color then ansi ''1;32'' @ ''^'' @ ansi ''0'' else ''^'') @ [CHR 0x0A])"

definition diag_summary :: "nat \<Rightarrow> nat \<Rightarrow> string" where
  "diag_summary errors warnings =
     (if errors > 0 \<or> warnings > 0 then
        dec_str errors @ '' error'' @ (if errors \<noteq> 1 then ''s'' else [])
        @ (if warnings > 0 then '' and '' @ dec_str warnings @ '' warning'' @ (if warnings \<noteq> 1 then ''s'' else []) else [])
        @ '' generated.'' @ [CHR 0x0A]
      else [])"

definition diag_print_all :: "bool \<Rightarrow> diag_engine option \<Rightarrow> string" where
  "diag_print_all use_color eo = (case eo of
     None \<Rightarrow> []
   | Some e \<Rightarrow>
       if dg_entries e = [] then []
       else concat (map (\<lambda>d. diag_header use_color (dg_filename e) d
              @ (case find_source_line (dg_source e) (de_line d) of
                   None \<Rightarrow> []
                 | Some (a, b) \<Rightarrow> diag_snippet use_color (the (dg_source e)) a b (de_col d))) (dg_entries e))
            @ diag_summary (dg_error_count e) (dg_warning_count e))"

definition diag_has_errors :: "diag_engine option \<Rightarrow> bool" where
  "diag_has_errors eo = (case eo of None \<Rightarrow> False | Some e \<Rightarrow> dg_error_count e > 0)"

definition diag_error_count :: "diag_engine option \<Rightarrow> nat" where
  "diag_error_count eo = (case eo of None \<Rightarrow> 0 | Some e \<Rightarrow> dg_error_count e)"

text \<open>\<open>json_gen_error_string\<close>.\<close>

definition json_gen_error_string :: "int \<Rightarrow> string" where
  "json_gen_error_string code =
     (if code = 0 then ''Success''
      else if code = -1 then ''General error''
      else if code = -2 then ''Memory allocation error''
      else if code = -3 then ''File I/O error''
      else if code = -4 then ''Parsing error''
      else if code = -5 then ''Invalid parameter''
      else if code = -6 then ''Buffer overflow''
      else if code = -7 then ''Format error''
      else if code = -8 then ''Resource not found''
      else if code = -9 then ''Thread safety violation''
      else if code = -10 then ''Boundary condition violation''
      else ''Unknown error'')"

section \<open>Invariant\<close>

definition count_severity :: "diag_severity \<Rightarrow> diag_entry list \<Rightarrow> nat" where
  "count_severity s es = length (filter (\<lambda>d. de_severity d = s) es)"

definition diag_ok :: "diag_engine \<Rightarrow> bool" where
  "diag_ok e \<longleftrightarrow> length (dg_entries e) \<le> dg_capacity e \<and> 0 < dg_capacity e
     \<and> dg_error_count e = count_severity DIAG_ERROR (dg_entries e)
     \<and> dg_warning_count e = count_severity DIAG_WARNING (dg_entries e)
     \<and> dg_error_count e \<le> dg_max_errors e
     \<and> (\<forall>d\<in>set (dg_entries e). length (de_message d) < DIAG_MSG_BUF_SIZE)"

lemma diag_ok_new: "diag_ok (diag_engine_new f s)"
  by (simp add: diag_ok_def diag_engine_new_def count_severity_def diag_limits)

lemma diag_emit_ok:
  assumes "diag_ok e"
  shows "\<exists>e'. diag_emit g d (Some e) sev l c m = Some e' \<and> diag_ok e'
    \<and> (dg_entries e' = dg_entries e \<or>
       (\<exists>x. dg_entries e' = dg_entries e @ [x] \<and> de_severity x = sev \<and> de_line x = l \<and> de_col x = c))"
  using assms by (auto simp: diag_emit_def diag_ok_def count_severity_def Let_def diag_limits)

section \<open>The lines of a source text\<close>

fun split_lines :: "string \<Rightarrow> string list" where
  "split_lines [] = [[]]"
| "split_lines (c # r) =
     (if c = CHR 0x0A then [] # split_lines r
      else if c = CHR 0x0D then [] # split_lines (if r \<noteq> [] \<and> hd r = CHR 0x0A then tl r else r)
      else (c # hd (split_lines r)) # tl (split_lines r))"

declare split_lines.simps(2) [simp del]

lemma split_lines_ne [simp]: "split_lines s \<noteq> []"
  by (cases s) (auto simp: split_lines.simps)

lemma split_lines_first: "split_lines s ! 0 = takeWhile (\<lambda>c. \<not> is_newline c) s"
proof (induction s)
  case (Cons c s)
  then show ?case by (auto simp: split_lines.simps is_newline_def hd_conv_nth)
qed simp

lemma split_lines_plain:
  "\<not> is_newline c \<Longrightarrow> length (split_lines (c # r)) = length (split_lines r)
     \<and> (0 < k \<longrightarrow> split_lines (c # r) ! k = split_lines r ! k)"
  by (cases "split_lines r"; cases k) (auto simp: split_lines.simps(2) is_newline_def)

lemma find_line_loop_correct:
  "1 \<le> cur \<Longrightarrow> cur \<le> line \<Longrightarrow> i \<le> length s \<or> cur < line \<Longrightarrow>
   (case find_line_loop s line i cur of
      None \<Rightarrow> length (split_lines (drop i s)) \<le> nat (line - cur)
    | Some (a, b) \<Rightarrow> nat (line - cur) < length (split_lines (drop i s)) \<and> a \<le> b \<and> b \<le> length s
         \<and> take (b - a) (drop a s) = split_lines (drop i s) ! nat (line - cur))"
proof (induction s line i cur rule: find_line_loop.induct)
  case (1 s line i cur)
  consider (past) "i > length s" | (here) "i \<le> length s" "cur = line"
    | (at_end) "i = length s" "cur < line"
    | (lf) "i < length s" "cur < line" "s ! i = CHR 0x0A"
    | (cr) "i < length s" "cur < line" "s ! i = CHR 0x0D"
    | (other) "i < length s" "cur < line" "\<not> is_newline (s ! i)"
    using "1.prems" by (fastforce simp: is_newline_def)
  then show ?case
  proof cases
    case past
    then show ?thesis using "1.prems" by (simp add: find_line_loop.simps)
  next
    case here
    have "take (length (takeWhile (\<lambda>c. \<not> is_newline c) (drop i s))) (drop i s) = takeWhile (\<lambda>c. \<not> is_newline c) (drop i s)"
      by (metis takeWhile_eq_take)
    moreover have "i + length (takeWhile (\<lambda>c. \<not> is_newline c) (drop i s)) \<le> length s"
      using length_takeWhile_le [of "\<lambda>c. \<not> is_newline c" "drop i s"] here(1) by simp
    ultimately show ?thesis using here
      by (simp add: find_line_loop.simps line_end_def split_lines_first)
  next
    case at_end
    then show ?thesis by (simp add: find_line_loop.simps)
  next
    case lf
    have d: "drop i s = CHR 0x0A # drop (i + 1) s" using lf by (metis Cons_nth_drop_Suc Suc_eq_plus1)
    have n: "nat (line - cur) = Suc (nat (line - (cur + 1)))" using lf(2) by simp
    show ?thesis using "1.IH"(1) lf "1.prems" unfolding d n
      by (subst find_line_loop.simps) (simp add: split_lines.simps(2) split: option.splits prod.splits)
  next
    case cr
    let ?i = "if i + 1 < length s \<and> s ! (i + 1) = CHR 0x0A then i + 2 else i + 1"
    have d: "drop i s = CHR 0x0D # drop (i + 1) s" using cr by (metis Cons_nth_drop_Suc Suc_eq_plus1)
    have dr: "(if drop (i + 1) s \<noteq> [] \<and> hd (drop (i + 1) s) = CHR 0x0A then tl (drop (i + 1) s) else drop (i + 1) s) = drop ?i s"
      by (auto simp: hd_drop_conv_nth tl_drop drop_Suc simp flip: drop_Suc)
    have t: "split_lines (drop i s) = [] # split_lines (drop ?i s)"
      by (subst d, subst split_lines.simps(2), subst dr) simp
    have n: "nat (line - cur) = Suc (nat (line - (cur + 1)))" using cr(2) by simp
    have "find_line_loop s line i cur = find_line_loop s line ?i (cur + 1)"
      using cr by (subst find_line_loop.simps) simp
    moreover have "?i \<le> length s" using cr(1) by auto
    moreover obtain j where "?i = j" by blast
    ultimately show ?thesis using "1.IH"(2) cr "1.prems" t unfolding n
      by (simp split: option.splits prod.splits)
  next
    case other
    have d: "drop i s = s ! i # drop (i + 1) s" using other by (metis Cons_nth_drop_Suc Suc_eq_plus1)
    have "0 < nat (line - cur)" using other(2) by simp
    then show ?thesis using "1.IH"(3) other "1.prems" split_lines_plain [OF other(3), of "drop (i + 1) s" "nat (line - cur)"]
      unfolding d by (subst find_line_loop.simps) (auto simp: is_newline_def split: option.splits prod.splits)
  qed
qed

section \<open>Properties\<close>

text \<open>A sequence of diagnostics.\<close>

type_synonym emission = "diag_severity \<times> int \<times> int \<times> string"

fun diag_emit_all :: "emission list \<Rightarrow> diag_engine option \<Rightarrow> diag_engine option" where
  "diag_emit_all [] e = e"
| "diag_emit_all ((sev, l, c, m) # ds) e = diag_emit_all ds (diag_emit True True e sev l c m)"

lemma diag_emit_errors:
  assumes "diag_ok e" and "dg_max_errors e = DIAG_MAX_ERRORS_DEFAULT"
  shows "\<exists>e'. diag_emit True True (Some e) sev l c m = Some e' \<and> diag_ok e' \<and> dg_max_errors e' = DIAG_MAX_ERRORS_DEFAULT
    \<and> dg_error_count e' = min DIAG_MAX_ERRORS_DEFAULT (dg_error_count e + (if sev = DIAG_ERROR then 1 else 0))"
  using assms diag_emit_ok [OF assms(1), of True True sev l c m]
  by (auto simp: diag_emit_def diag_ok_def count_severity_def Let_def diag_limits min_def)

lemma diag_emit_all_errors:
  "diag_ok e \<Longrightarrow> dg_max_errors e = DIAG_MAX_ERRORS_DEFAULT \<Longrightarrow>
   \<exists>e'. diag_emit_all ds (Some e) = Some e' \<and> diag_ok e' \<and> dg_max_errors e' = DIAG_MAX_ERRORS_DEFAULT
     \<and> dg_error_count e' = min DIAG_MAX_ERRORS_DEFAULT (dg_error_count e + length (filter (\<lambda>d. fst d = DIAG_ERROR) ds))"
proof (induction ds arbitrary: e)
  case Nil
  then show ?case by (simp add: diag_ok_def)
next
  case (Cons d ds)
  obtain sev l c m where d: "d = (sev, l, c, m)" by (metis prod_cases4)
  obtain e1 where e1: "diag_emit True True (Some e) sev l c m = Some e1" "diag_ok e1" "dg_max_errors e1 = DIAG_MAX_ERRORS_DEFAULT"
      "dg_error_count e1 = min DIAG_MAX_ERRORS_DEFAULT (dg_error_count e + (if sev = DIAG_ERROR then 1 else 0))"
    using diag_emit_errors [OF Cons.prems] by blast
  then show ?case using Cons.IH [OF e1(2,3)] by (auto simp: d min_def)
qed

text \<open>
  Whatever is emitted, the engine's counters are the numbers of stored errors and warnings, the
  entries fit the array, every message fits the buffer, at most twenty errors are kept, and errors
  are reported exactly when one was emitted.
\<close>
theorem diag_engine_counts:
  "\<exists>e. diag_emit_all ds (Some (diag_engine_new f s)) = Some e \<and> diag_ok e
     \<and> dg_error_count e = min 20 (length (filter (\<lambda>d. fst d = DIAG_ERROR) ds))
     \<and> (diag_has_errors (Some e) \<longleftrightarrow> (\<exists>d\<in>set ds. fst d = DIAG_ERROR))"
proof -
  obtain e where "diag_emit_all ds (Some (diag_engine_new f s)) = Some e" "diag_ok e"
      "dg_error_count e = min 20 (length (filter (\<lambda>d. fst d = DIAG_ERROR) ds))"
    using diag_emit_all_errors [OF diag_ok_new, of f s ds] by (auto simp: diag_engine_new_def diag_limits)
  then show ?thesis by (auto simp: diag_has_errors_def filter_empty_conv)
qed

text \<open>
  \<open>find_source_line\<close> finds exactly the lines of the source, where a line feed, a carriage return
  or the pair of them ends a line: the range it returns for line \<open>n\<close> holds the text of line \<open>n\<close>, and it
  fails exactly on numbers that are not a line.
\<close>
theorem find_source_line_correct:
  "case find_source_line (Some s) n of
     None \<Rightarrow> n < 1 \<or> int (length (split_lines s)) < n
   | Some (a, b) \<Rightarrow> 1 \<le> n \<and> n \<le> int (length (split_lines s)) \<and> a \<le> b \<and> b \<le> length s
       \<and> take (b - a) (drop a s) = split_lines s ! nat (n - 1)"
proof (cases "n < 1")
  case False
  then show ?thesis using find_line_loop_correct [of 1 n 0 s]
    by (auto simp: find_source_line_def split: option.splits)
qed (simp add: find_source_line_def)

end
