(* ===== verification/CompatCheck.thy ===== *)
theory CompatCheck
  imports SchemaTypes
begin

text \<open>
  The schema compatibility checker (\<open>src/compat/compat_check.c\<close>). Every line it prints is an event of
  the report; the context counts breaking and safe changes.
\<close>

section \<open>Reports\<close>

datatype compat_event =
    Field_changed string string field_type bool field_type bool
  | Field_deprecated string string
  | Field_removed string string
  | Field_added string string bool
  | Value_deprecated string string
  | Value_removed string string
  | Value_added string string
  | Variant_deprecated string string
  | Variant_removed string string
  | Variant_added string string
  | Struct_removed string
  | Struct_added string
  | Enum_removed string
  | Enum_added string
  | Oneof_removed string
  | Oneof_added string

record compat_ctx =
  cx_breaking :: nat
  cx_safe :: nat
  cx_report :: "compat_event list"

definition breaking_change :: "compat_event \<Rightarrow> compat_ctx \<Rightarrow> compat_ctx" where
  "breaking_change ev ctx = ctx\<lparr>cx_breaking := cx_breaking ctx + 1, cx_report := cx_report ctx @ [ev]\<rparr>"

definition safe_change :: "compat_event \<Rightarrow> compat_ctx \<Rightarrow> compat_ctx" where
  "safe_change ev ctx = ctx\<lparr>cx_safe := cx_safe ctx + 1, cx_report := cx_report ctx @ [ev]\<rparr>"

section \<open>Comparing two definitions\<close>

text \<open>The first element of a list with a given name: the inner loops, which stop at the first match.\<close>

definition find_named :: "('a \<Rightarrow> string) \<Rightarrow> string \<Rightarrow> 'a list \<Rightarrow> 'a option" where
  "find_named name n xs = List.find (\<lambda>x. sstr_compare (Some n) (Some (name x)) = 0) xs"

definition check_old_field :: "struct_container \<Rightarrow> struct_container \<Rightarrow> struct_field \<Rightarrow> compat_ctx \<Rightarrow> compat_ctx" where
  "check_old_field old_sc new_sc fo ctx = (case find_named fd_name (fd_name fo) (sc_fields new_sc) of
     Some nf \<Rightarrow>
       (let ctx1 = (if fd_type fo \<noteq> fd_type nf \<or> fd_is_array fo \<noteq> fd_is_array nf
                      \<or> fd_array_size fo \<noteq> fd_array_size nf
                    then breaking_change (Field_changed (fd_name fo) (sc_name old_sc) (fd_type fo)
                           (fd_is_array fo) (fd_type nf) (fd_is_array nf)) ctx
                    else ctx)
        in if \<not> fd_is_deprecated fo \<and> fd_is_deprecated nf
           then safe_change (Field_deprecated (fd_name fo) (sc_name old_sc)) ctx1 else ctx1)
   | None \<Rightarrow> breaking_change (Field_removed (fd_name fo) (sc_name old_sc)) ctx)"

definition check_new_field :: "struct_container \<Rightarrow> struct_container \<Rightarrow> struct_field \<Rightarrow> compat_ctx \<Rightarrow> compat_ctx" where
  "check_new_field old_sc new_sc nf ctx = (case find_named fd_name (fd_name nf) (sc_fields old_sc) of
     Some fo \<Rightarrow> ctx
   | None \<Rightarrow> safe_change (Field_added (fd_name nf) (sc_name new_sc) (fd_is_optional nf)) ctx)"

definition check_struct_pair :: "struct_container \<Rightarrow> struct_container \<Rightarrow> compat_ctx \<Rightarrow> compat_ctx" where
  "check_struct_pair old_sc new_sc ctx =
     fold (check_new_field old_sc new_sc) (sc_fields new_sc)
       (fold (check_old_field old_sc new_sc) (sc_fields old_sc) ctx)"

definition check_old_value :: "enum_container \<Rightarrow> enum_container \<Rightarrow> enum_value \<Rightarrow> compat_ctx \<Rightarrow> compat_ctx" where
  "check_old_value old_ec new_ec ov ctx = (case find_named ev_name (ev_name ov) (ec_values new_ec) of
     Some nv \<Rightarrow> if \<not> ev_is_deprecated ov \<and> ev_is_deprecated nv
                then safe_change (Value_deprecated (ev_name ov) (ec_name old_ec)) ctx else ctx
   | None \<Rightarrow> breaking_change (Value_removed (ev_name ov) (ec_name old_ec)) ctx)"

definition check_new_value :: "enum_container \<Rightarrow> enum_container \<Rightarrow> enum_value \<Rightarrow> compat_ctx \<Rightarrow> compat_ctx" where
  "check_new_value old_ec new_ec nv ctx = (case find_named ev_name (ev_name nv) (ec_values old_ec) of
     Some ov \<Rightarrow> ctx
   | None \<Rightarrow> safe_change (Value_added (ev_name nv) (ec_name new_ec)) ctx)"

definition check_enum_pair :: "enum_container \<Rightarrow> enum_container \<Rightarrow> compat_ctx \<Rightarrow> compat_ctx" where
  "check_enum_pair old_ec new_ec ctx =
     fold (check_new_value old_ec new_ec) (ec_values new_ec)
       (fold (check_old_value old_ec new_ec) (ec_values old_ec) ctx)"

definition check_old_variant :: "oneof_container \<Rightarrow> oneof_container \<Rightarrow> oneof_variant \<Rightarrow> compat_ctx \<Rightarrow> compat_ctx" where
  "check_old_variant old_oc new_oc ov ctx = (case find_named ov_name (ov_name ov) (oc_variants new_oc) of
     Some nv \<Rightarrow> if \<not> ov_is_deprecated ov \<and> ov_is_deprecated nv
                then safe_change (Variant_deprecated (ov_name ov) (oc_name old_oc)) ctx else ctx
   | None \<Rightarrow> breaking_change (Variant_removed (ov_name ov) (oc_name old_oc)) ctx)"

definition check_new_variant :: "oneof_container \<Rightarrow> oneof_container \<Rightarrow> oneof_variant \<Rightarrow> compat_ctx \<Rightarrow> compat_ctx" where
  "check_new_variant old_oc new_oc nv ctx = (case find_named ov_name (ov_name nv) (oc_variants old_oc) of
     Some ov \<Rightarrow> ctx
   | None \<Rightarrow> safe_change (Variant_added (ov_name nv) (oc_name new_oc)) ctx)"

definition check_oneof_pair :: "oneof_container \<Rightarrow> oneof_container \<Rightarrow> compat_ctx \<Rightarrow> compat_ctx" where
  "check_oneof_pair old_oc new_oc ctx =
     fold (check_new_variant old_oc new_oc) (oc_variants new_oc)
       (fold (check_old_variant old_oc new_oc) (oc_variants old_oc) ctx)"

section \<open>Comparing two schemas\<close>

definition check_struct_cb :: "struct_container sstr_map \<Rightarrow> struct_container \<Rightarrow> compat_ctx \<Rightarrow> compat_ctx" where
  "check_struct_cb new_map old_sc ctx = (case hash_map_find new_map (sc_name old_sc) of
     (r, v) \<Rightarrow> if r = HASH_MAP_OK then check_struct_pair old_sc (the v) ctx
               else breaking_change (Struct_removed (sc_name old_sc)) ctx)"

definition check_struct_added_cb :: "struct_container sstr_map \<Rightarrow> struct_container \<Rightarrow> compat_ctx \<Rightarrow> compat_ctx" where
  "check_struct_added_cb old_map new_sc ctx = (case hash_map_find old_map (sc_name new_sc) of
     (r, v) \<Rightarrow> if r \<noteq> HASH_MAP_OK then safe_change (Struct_added (sc_name new_sc)) ctx else ctx)"

definition check_enum_cb :: "enum_container sstr_map \<Rightarrow> enum_container \<Rightarrow> compat_ctx \<Rightarrow> compat_ctx" where
  "check_enum_cb new_map old_ec ctx = (case hash_map_find new_map (ec_name old_ec) of
     (r, v) \<Rightarrow> if r = HASH_MAP_OK then check_enum_pair old_ec (the v) ctx
               else breaking_change (Enum_removed (ec_name old_ec)) ctx)"

definition check_enum_added_cb :: "enum_container sstr_map \<Rightarrow> enum_container \<Rightarrow> compat_ctx \<Rightarrow> compat_ctx" where
  "check_enum_added_cb old_map new_ec ctx = (case hash_map_find old_map (ec_name new_ec) of
     (r, v) \<Rightarrow> if r \<noteq> HASH_MAP_OK then safe_change (Enum_added (ec_name new_ec)) ctx else ctx)"

definition check_oneof_cb :: "oneof_container sstr_map \<Rightarrow> oneof_container \<Rightarrow> compat_ctx \<Rightarrow> compat_ctx" where
  "check_oneof_cb new_map old_oc ctx = (case hash_map_find new_map (oc_name old_oc) of
     (r, v) \<Rightarrow> if r = HASH_MAP_OK then check_oneof_pair old_oc (the v) ctx
               else breaking_change (Oneof_removed (oc_name old_oc)) ctx)"

definition check_oneof_added_cb :: "oneof_container sstr_map \<Rightarrow> oneof_container \<Rightarrow> compat_ctx \<Rightarrow> compat_ctx" where
  "check_oneof_added_cb old_map new_oc ctx = (case hash_map_find old_map (oc_name new_oc) of
     (r, v) \<Rightarrow> if r \<noteq> HASH_MAP_OK then safe_change (Oneof_added (oc_name new_oc)) ctx else ctx)"

record schema =
  sch_structs :: "struct_container sstr_map"
  sch_enums :: "enum_container sstr_map"
  sch_oneofs :: "oneof_container sstr_map"

text \<open>The code and the report; \<open>Schemas are identical\<close> is the empty report.\<close>

definition compat_check :: "schema \<Rightarrow> schema \<Rightarrow> int \<times> compat_event list" where
  "compat_check old new =
     (let c0 = \<lparr>cx_breaking = 0, cx_safe = 0, cx_report = []\<rparr>;
          c1 = hash_map_for_each (sch_structs old) (\<lambda>k v. check_struct_cb (sch_structs new) v) c0;
          c2 = hash_map_for_each (sch_structs new) (\<lambda>k v. check_struct_added_cb (sch_structs old) v) c1;
          c3 = hash_map_for_each (sch_enums old) (\<lambda>k v. check_enum_cb (sch_enums new) v) c2;
          c4 = hash_map_for_each (sch_enums new) (\<lambda>k v. check_enum_added_cb (sch_enums old) v) c3;
          c5 = hash_map_for_each (sch_oneofs old) (\<lambda>k v. check_oneof_cb (sch_oneofs new) v) c4;
          c6 = hash_map_for_each (sch_oneofs new) (\<lambda>k v. check_oneof_added_cb (sch_oneofs old) v) c5
      in if cx_breaking c6 = 0 \<and> cx_safe c6 = 0 then (0, cx_report c6)
         else (if cx_breaking c6 > 0 then 1 else 0, cx_report c6))"

section \<open>What counts as breaking\<close>

text \<open>
  A new schema keeps an old one if every definition, field, value and variant of the old one is still there; \<open>R\<close> is what has to
  hold of a field before and after, \<open>V\<close> of a variant.
\<close>

definition struct_kept :: "(struct_field \<Rightarrow> struct_field \<Rightarrow> bool) \<Rightarrow> struct_container \<Rightarrow> struct_container \<Rightarrow> bool" where
  "struct_kept R a b \<longleftrightarrow> (\<forall>f\<in>set (sc_fields a). \<exists>g. find_named fd_name (fd_name f) (sc_fields b) = Some g \<and> R f g)"

definition enum_kept :: "enum_container \<Rightarrow> enum_container \<Rightarrow> bool" where
  "enum_kept a b \<longleftrightarrow> ev_name ` set (ec_values a) \<subseteq> ev_name ` set (ec_values b)"

definition oneof_kept :: "(oneof_variant \<Rightarrow> oneof_variant \<Rightarrow> bool) \<Rightarrow> oneof_container \<Rightarrow> oneof_container \<Rightarrow> bool" where
  "oneof_kept V a b \<longleftrightarrow> (\<forall>v\<in>set (oc_variants a). \<exists>w. find_named ov_name (ov_name v) (oc_variants b) = Some w \<and> V v w)"

definition schema_kept :: "(struct_field \<Rightarrow> struct_field \<Rightarrow> bool) \<Rightarrow> (oneof_variant \<Rightarrow> oneof_variant \<Rightarrow> bool) \<Rightarrow> schema \<Rightarrow> schema \<Rightarrow> bool" where
  "schema_kept R V old new \<longleftrightarrow>
     (\<forall>s\<in>ran (hm_abs (sch_structs old)).
        \<exists>t. hm_abs (sch_structs new) (sc_name s) = Some t \<and> struct_kept R s t)
   \<and> (\<forall>s\<in>ran (hm_abs (sch_enums old)).
        \<exists>t. hm_abs (sch_enums new) (ec_name s) = Some t \<and> enum_kept s t)
   \<and> (\<forall>s\<in>ran (hm_abs (sch_oneofs old)).
        \<exists>t. hm_abs (sch_oneofs new) (oc_name s) = Some t \<and> oneof_kept V s t)"

text \<open>
  What the code compares of a type: its kind (an \<open>int\<close>, a struct, a map ...), and whether it is an array of which size. What a type
  is: also which struct, enum or oneof it names, and what the values of a map are; of a variant, which struct it is.
\<close>

definition same_shape :: "struct_field \<Rightarrow> struct_field \<Rightarrow> bool" where
  "same_shape a b \<longleftrightarrow> fd_type a = fd_type b \<and> fd_is_array a = fd_is_array b \<and> fd_array_size a = fd_array_size b"

definition same_type :: "struct_field \<Rightarrow> struct_field \<Rightarrow> bool" where
  "same_type a b \<longleftrightarrow> same_shape a b
     \<and> (fd_type a = FIELD_TYPE_STRUCT \<or> fd_type a = FIELD_TYPE_ENUM \<or> fd_type a = FIELD_TYPE_ONEOF \<longrightarrow> fd_type_name a = fd_type_name b)
     \<and> (fd_type a = FIELD_TYPE_MAP \<longrightarrow> fd_map_value_type a = fd_map_value_type b \<and> fd_map_value_type_name a = fd_map_value_type_name b)"

definition shapes_kept :: "schema \<Rightarrow> schema \<Rightarrow> bool" where
  "shapes_kept = schema_kept same_shape (\<lambda>v w. True)"

definition types_kept :: "schema \<Rightarrow> schema \<Rightarrow> bool" where
  "types_kept = schema_kept same_type (\<lambda>v w. ov_struct_type_name v = ov_struct_type_name w)"

lemma schema_kept_mono:
  assumes "schema_kept R V old new" and "\<And>f g. R f g \<Longrightarrow> R' f g" and "\<And>v w. V v w \<Longrightarrow> V' v w"
  shows "schema_kept R' V' old new"
  using assms unfolding schema_kept_def struct_kept_def oneof_kept_def by meson

lemma types_shapes_kept: "types_kept old new \<Longrightarrow> shapes_kept old new"
  unfolding types_kept_def shapes_kept_def by (erule schema_kept_mono) (simp_all add: same_type_def)

definition schema_ok :: "schema \<Rightarrow> bool" where
  "schema_ok s \<longleftrightarrow> hm_inv (sch_structs s) \<and> hm_inv (sch_enums s) \<and> hm_inv (sch_oneofs s)"

section \<open>Counting breaking changes\<close>

text \<open>A check never lowers the count of breaking changes, and leaves it alone exactly when \<open>P\<close>.\<close>

definition checks :: "(compat_ctx \<Rightarrow> compat_ctx) \<Rightarrow> bool \<Rightarrow> bool" where
  "checks f P \<longleftrightarrow> (\<forall>c. cx_breaking c \<le> cx_breaking (f c) \<and> (cx_breaking (f c) = cx_breaking c \<longleftrightarrow> P))"

named_theorems compat_checks

lemma checks_id [compat_checks]: "checks (\<lambda>c. c) True"
  by (simp add: checks_def)

lemma checks_breaking [compat_checks]: "checks (breaking_change ev) False"
  by (simp add: checks_def breaking_change_def)

lemma checks_safe [compat_checks]: "checks (safe_change ev) True"
  by (simp add: checks_def safe_change_def)

lemma checks_comp: "checks f P \<Longrightarrow> checks g Q \<Longrightarrow> checks (\<lambda>c. g (f c)) (P \<and> Q)"
  unfolding checks_def by (metis (no_types, lifting) le_antisym le_trans)

lemma checks_fold: "(\<And>x. x \<in> set xs \<Longrightarrow> checks (f x) (P x)) \<Longrightarrow> checks (fold f xs) (\<forall>x\<in>set xs. P x)"
proof (induction xs)
  case Nil
  then show ?case by (simp add: checks_def)
next
  case (Cons x xs)
  have "checks (\<lambda>c. fold f xs (f x c)) (P x \<and> (\<forall>x\<in>set xs. P x))"
    by (rule checks_comp) (simp_all add: Cons)
  then show ?case by (simp add: o_def)
qed

lemma checks_fold_safe: "(\<And>x. checks (f x) True) \<Longrightarrow> checks (fold f xs) True"
  using checks_fold [of xs f "\<lambda>_. True"] by simp

lemma find_named_eq: "find_named nm n xs = List.find (\<lambda>x. nm x = n) xs"
  by (auto simp: find_named_def sstr_compare_eq_0 intro!: arg_cong2 [where f = List.find])

lemma find_named_None: "find_named nm n xs = None \<longleftrightarrow> n \<notin> nm ` set xs"
  by (auto simp: find_named_eq find_None_iff)

lemma checks_old_field:
  "checks (check_old_field a b f) (\<exists>g. find_named fd_name (fd_name f) (sc_fields b) = Some g \<and> same_shape f g)"
  by (auto simp: checks_def check_old_field_def same_shape_def breaking_change_def safe_change_def Let_def
      split: option.splits)

lemma checks_new_field: "checks (check_new_field a b f) True"
  by (auto simp: checks_def check_new_field_def safe_change_def split: option.splits)

lemma checks_struct_pair: "checks (check_struct_pair a b) (struct_kept same_shape a b)"
  using checks_comp [OF checks_fold [OF checks_old_field] checks_fold_safe [OF checks_new_field]]
  by (simp add: check_struct_pair_def [abs_def] struct_kept_def)

lemma checks_old_value: "checks (check_old_value a b v) (ev_name v \<in> ev_name ` set (ec_values b))"
  using find_named_None [of ev_name "ev_name v" "ec_values b"]
  by (auto simp: checks_def check_old_value_def breaking_change_def safe_change_def split: option.splits)

lemma checks_new_value: "checks (check_new_value a b v) True"
  by (auto simp: checks_def check_new_value_def safe_change_def split: option.splits)

lemma checks_enum_pair: "checks (check_enum_pair a b) (enum_kept a b)"
  using checks_comp [OF checks_fold [OF checks_old_value] checks_fold_safe [OF checks_new_value]]
  by (simp add: check_enum_pair_def [abs_def] enum_kept_def image_subset_iff)

lemma checks_old_variant: "checks (check_old_variant a b v) (\<exists>w. find_named ov_name (ov_name v) (oc_variants b) = Some w \<and> True)"
  by (auto simp: checks_def check_old_variant_def breaking_change_def safe_change_def split: option.splits)

lemma checks_new_variant: "checks (check_new_variant a b v) True"
  by (auto simp: checks_def check_new_variant_def safe_change_def split: option.splits)

lemma checks_oneof_pair: "checks (check_oneof_pair a b) (oneof_kept (\<lambda>v w. True) a b)"
  using checks_comp [OF checks_fold [OF checks_old_variant] checks_fold_safe [OF checks_new_variant]]
  by (simp add: check_oneof_pair_def [abs_def] oneof_kept_def)

lemma checks_struct_cb:
  assumes "hm_inv m"
  shows "checks (check_struct_cb m s) (\<exists>t. hm_abs m (sc_name s) = Some t \<and> struct_kept same_shape s t)"
  using checks_struct_pair [of s] checks_breaking [of "Struct_removed (sc_name s)"]
  by (cases "hm_abs m (sc_name s)")
    (auto simp: checks_def check_struct_cb_def hash_map_find_correct [OF assms] hash_map_codes)

lemma checks_enum_cb:
  assumes "hm_inv m"
  shows "checks (check_enum_cb m s) (\<exists>t. hm_abs m (ec_name s) = Some t \<and> enum_kept s t)"
  using checks_enum_pair [of s] checks_breaking [of "Enum_removed (ec_name s)"]
  by (cases "hm_abs m (ec_name s)")
    (auto simp: checks_def check_enum_cb_def hash_map_find_correct [OF assms] hash_map_codes)

lemma checks_oneof_cb:
  assumes "hm_inv m"
  shows "checks (check_oneof_cb m s) (\<exists>t. hm_abs m (oc_name s) = Some t \<and> oneof_kept (\<lambda>v w. True) s t)"
  using checks_oneof_pair [of s] checks_breaking [of "Oneof_removed (oc_name s)"]
  by (cases "hm_abs m (oc_name s)")
    (auto simp: checks_def check_oneof_cb_def hash_map_find_correct [OF assms] hash_map_codes)

lemma checks_added_cb:
  "checks (check_struct_added_cb sm s) True" "checks (check_enum_added_cb em e) True" "checks (check_oneof_added_cb om oc) True"
  by (auto simp: checks_def check_struct_added_cb_def check_enum_added_cb_def check_oneof_added_cb_def
      safe_change_def split: prod.splits)

lemma ran_hm_abs: "hm_inv m \<Longrightarrow> ran (hm_abs m) = snd ` set (concat (buckets m))"
  by (simp add: hm_inv_def hm_abs_def ran_distinct del: set_concat)

lemma checks_for_each:
  assumes "hm_inv m" and "\<And>v. checks (f v) (P v)"
  shows "checks (hash_map_for_each m (\<lambda>k. f)) (\<forall>v\<in>ran (hm_abs m). P v)"
proof -
  have "checks (fold (\<lambda>e. f (snd e)) (concat (buckets m))) (\<forall>e\<in>set (concat (buckets m)). P (snd e))"
    by (rule checks_fold) (rule assms(2))
  then show ?thesis
    by (simp add: hash_map_for_each_concat [abs_def] split_def ran_hm_abs [OF assms(1)] del: set_concat)
qed

lemma checks_for_each_safe: "hm_inv m \<Longrightarrow> (\<And>v. checks (f v) True) \<Longrightarrow> checks (hash_map_for_each m (\<lambda>k. f)) True"
  using checks_for_each [of m f "\<lambda>_. True"] by simp

text \<open>The number of breaking changes is what decides the result.\<close>

lemma checks_all:
  assumes "schema_ok old" and "schema_ok new"
  shows "checks (\<lambda>c0. hash_map_for_each (sch_oneofs new) (\<lambda>k. check_oneof_added_cb (sch_oneofs old))
     (hash_map_for_each (sch_oneofs old) (\<lambda>k. check_oneof_cb (sch_oneofs new))
     (hash_map_for_each (sch_enums new) (\<lambda>k. check_enum_added_cb (sch_enums old))
     (hash_map_for_each (sch_enums old) (\<lambda>k. check_enum_cb (sch_enums new))
     (hash_map_for_each (sch_structs new) (\<lambda>k. check_struct_added_cb (sch_structs old))
     (hash_map_for_each (sch_structs old) (\<lambda>k. check_struct_cb (sch_structs new)) c0))))))
     (shapes_kept old new)"
proof -
  note inv = assms [unfolded schema_ok_def]
  have c1: "checks (hash_map_for_each (sch_structs old) (\<lambda>k. check_struct_cb (sch_structs new)))
      (\<forall>s\<in>ran (hm_abs (sch_structs old)). \<exists>t. hm_abs (sch_structs new) (sc_name s) = Some t \<and> struct_kept same_shape s t)"
    using inv by (intro checks_for_each checks_struct_cb) simp_all
  have c2: "checks (hash_map_for_each (sch_structs new) (\<lambda>k. check_struct_added_cb (sch_structs old))) True"
    using inv by (intro checks_for_each_safe checks_added_cb) simp
  have c3: "checks (hash_map_for_each (sch_enums old) (\<lambda>k. check_enum_cb (sch_enums new)))
      (\<forall>s\<in>ran (hm_abs (sch_enums old)). \<exists>t. hm_abs (sch_enums new) (ec_name s) = Some t \<and> enum_kept s t)"
    using inv by (intro checks_for_each checks_enum_cb) simp_all
  have c4: "checks (hash_map_for_each (sch_enums new) (\<lambda>k. check_enum_added_cb (sch_enums old))) True"
    using inv by (intro checks_for_each_safe checks_added_cb) simp
  have c5: "checks (hash_map_for_each (sch_oneofs old) (\<lambda>k. check_oneof_cb (sch_oneofs new)))
      (\<forall>s\<in>ran (hm_abs (sch_oneofs old)). \<exists>t. hm_abs (sch_oneofs new) (oc_name s) = Some t \<and> oneof_kept (\<lambda>v w. True) s t)"
    using inv by (intro checks_for_each checks_oneof_cb) simp_all
  have c6: "checks (hash_map_for_each (sch_oneofs new) (\<lambda>k. check_oneof_added_cb (sch_oneofs old))) True"
    using inv by (intro checks_for_each_safe checks_added_cb) simp
  show ?thesis
    using checks_comp [OF checks_comp [OF checks_comp [OF checks_comp [OF checks_comp [OF c1 c2] c3] c4] c5] c6]
    by (simp add: shapes_kept_def schema_kept_def)
qed

lemma compat_check_code:
  assumes "schema_ok old" and "schema_ok new"
  shows "fst (compat_check old new) = (if shapes_kept old new then 0 else 1)"
proof -
  have "cx_breaking (f \<lparr>cx_breaking = 0, cx_safe = 0, cx_report = []\<rparr>) > 0 \<longleftrightarrow> \<not> P" if "checks f P" for f P
    using that [unfolded checks_def, rule_format, of "\<lparr>cx_breaking = 0, cx_safe = 0, cx_report = []\<rparr>"] by auto
  from this [OF checks_all [OF assms]] show ?thesis
    by (auto simp: compat_check_def Let_def)
qed

section \<open>A schema against itself\<close>

definition schema_keyed :: "schema \<Rightarrow> bool" where
  "schema_keyed s \<longleftrightarrow>
     (\<forall>k st. hm_abs (sch_structs s) k = Some st \<longrightarrow> sc_name st = k \<and> distinct (map fd_name (sc_fields st)))
   \<and> (\<forall>k ec. hm_abs (sch_enums s) k = Some ec \<longrightarrow> ec_name ec = k \<and> distinct (map ev_name (ec_values ec)))
   \<and> (\<forall>k oc. hm_abs (sch_oneofs s) k = Some oc \<longrightarrow> oc_name oc = k \<and> distinct (map ov_name (oc_variants oc)))"

lemma find_named_self: "distinct (map nm xs) \<Longrightarrow> x \<in> set xs \<Longrightarrow> find_named nm (nm x) xs = Some x"
  unfolding find_named_eq by (induction xs) auto

lemma fold_quiet: "(\<And>x. x \<in> set xs \<Longrightarrow> f x = (\<lambda>c. c)) \<Longrightarrow> fold f xs = (\<lambda>c. c)"
  by (induction xs) (auto simp: o_def)

lemma struct_pair_self: "distinct (map fd_name (sc_fields a)) \<Longrightarrow> check_struct_pair a a = (\<lambda>c. c)"
  unfolding check_struct_pair_def [abs_def]
  by (subst (1 2) fold_quiet) (auto simp: check_old_field_def check_new_field_def find_named_self Let_def)

lemma enum_pair_self: "distinct (map ev_name (ec_values a)) \<Longrightarrow> check_enum_pair a a = (\<lambda>c. c)"
  unfolding check_enum_pair_def [abs_def]
  by (subst (1 2) fold_quiet) (auto simp: check_old_value_def check_new_value_def find_named_self)

lemma oneof_pair_self: "distinct (map ov_name (oc_variants a)) \<Longrightarrow> check_oneof_pair a a = (\<lambda>c. c)"
  unfolding check_oneof_pair_def [abs_def]
  by (subst (1 2) fold_quiet) (auto simp: check_old_variant_def check_new_variant_def find_named_self)

lemma for_each_quiet:
  "hm_inv m \<Longrightarrow> (\<And>k v. hm_abs m k = Some v \<Longrightarrow> f v = (\<lambda>c. c)) \<Longrightarrow> hash_map_for_each m (\<lambda>k. f) c = c"
  using fold_quiet [of "concat (buckets m)" "\<lambda>(k, v). f v"] set_hm_entries [of m]
  by (fastforce simp: hash_map_for_each_concat simp del: set_concat)

lemma struct_cb_self:
  assumes "hm_inv m" and "hm_abs m (sc_name s) = Some s" and "distinct (map fd_name (sc_fields s))"
  shows "check_struct_cb m s = (\<lambda>c. c)" "check_struct_added_cb m s = (\<lambda>c. c)"
  by (rule ext, simp add: check_struct_cb_def check_struct_added_cb_def hash_map_find_correct [OF assms(1)] assms(2)
      struct_pair_self [OF assms(3)])+

lemma enum_cb_self:
  assumes "hm_inv m" and "hm_abs m (ec_name s) = Some s" and "distinct (map ev_name (ec_values s))"
  shows "check_enum_cb m s = (\<lambda>c. c)" "check_enum_added_cb m s = (\<lambda>c. c)"
  by (rule ext, simp add: check_enum_cb_def check_enum_added_cb_def hash_map_find_correct [OF assms(1)] assms(2)
      enum_pair_self [OF assms(3)])+

lemma oneof_cb_self:
  assumes "hm_inv m" and "hm_abs m (oc_name s) = Some s" and "distinct (map ov_name (oc_variants s))"
  shows "check_oneof_cb m s = (\<lambda>c. c)" "check_oneof_added_cb m s = (\<lambda>c. c)"
  by (rule ext, simp add: check_oneof_cb_def check_oneof_added_cb_def hash_map_find_correct [OF assms(1)] assms(2)
      oneof_pair_self [OF assms(3)])+

lemma compat_check_self:
  assumes "schema_ok s" and "schema_keyed s"
  shows "compat_check s s = (0, [])"
proof -
  note inv = assms(1) [unfolded schema_ok_def]
  have "hash_map_for_each (sch_structs s) (\<lambda>k. check_struct_cb (sch_structs s)) c = c"
      "hash_map_for_each (sch_structs s) (\<lambda>k. check_struct_added_cb (sch_structs s)) c = c" for c
    using assms(2) inv by (auto intro!: for_each_quiet struct_cb_self simp: schema_keyed_def)
  moreover have "hash_map_for_each (sch_enums s) (\<lambda>k. check_enum_cb (sch_enums s)) c = c"
      "hash_map_for_each (sch_enums s) (\<lambda>k. check_enum_added_cb (sch_enums s)) c = c" for c
    using assms(2) inv by (auto intro!: for_each_quiet enum_cb_self simp: schema_keyed_def)
  moreover have "hash_map_for_each (sch_oneofs s) (\<lambda>k. check_oneof_cb (sch_oneofs s)) c = c"
      "hash_map_for_each (sch_oneofs s) (\<lambda>k. check_oneof_added_cb (sch_oneofs s)) c = c" for c
    using assms(2) inv by (auto intro!: for_each_quiet oneof_cb_self simp: schema_keyed_def)
  ultimately show ?thesis by (simp add: compat_check_def Let_def)
qed

section \<open>What a comparison reads\<close>

definition same_checked :: "struct_field \<Rightarrow> struct_field \<Rightarrow> bool" where
  "same_checked f g \<longleftrightarrow> fd_name g = fd_name f \<and> fd_type g = fd_type f \<and> fd_is_array g = fd_is_array f
     \<and> fd_array_size g = fd_array_size f \<and> fd_is_deprecated g = fd_is_deprecated f
     \<and> fd_is_optional g = fd_is_optional f"

lemma find_named_map:
  "(\<And>x. nm (g x) = nm x) \<Longrightarrow> find_named nm n (map g xs) = map_option g (find_named nm n xs)"
  unfolding find_named_eq by (induction xs) auto

lemma check_old_field_map:
  assumes "\<And>f. same_checked f (g1 f)" and "\<And>f. same_checked f (g2 f)"
  shows "check_old_field (a\<lparr>sc_fields := fa\<rparr>) (b\<lparr>sc_fields := map g2 (sc_fields b)\<rparr>) (g1 f) = check_old_field a b f"
proof
  fix c
  have g1: "fd_name (g1 f) = fd_name f" "fd_type (g1 f) = fd_type f" "fd_is_array (g1 f) = fd_is_array f"
      "fd_array_size (g1 f) = fd_array_size f" "fd_is_deprecated (g1 f) = fd_is_deprecated f" for f
    using assms(1) [of f] by (simp_all add: same_checked_def)
  have g2: "fd_name (g2 f) = fd_name f" "fd_type (g2 f) = fd_type f" "fd_is_array (g2 f) = fd_is_array f"
      "fd_array_size (g2 f) = fd_array_size f" "fd_is_deprecated (g2 f) = fd_is_deprecated f" for f
    using assms(2) [of f] by (simp_all add: same_checked_def)
  show "check_old_field (a\<lparr>sc_fields := fa\<rparr>) (b\<lparr>sc_fields := map g2 (sc_fields b)\<rparr>) (g1 f) c = check_old_field a b f c"
    by (cases "find_named fd_name (fd_name f) (sc_fields b)")
      (simp_all add: check_old_field_def find_named_map [of fd_name g2] g1 g2)
qed

lemma check_new_field_map:
  assumes "\<And>f. same_checked f (g1 f)" and "\<And>f. same_checked f (g2 f)"
  shows "check_new_field (a\<lparr>sc_fields := map g1 (sc_fields a)\<rparr>) (b\<lparr>sc_fields := fb\<rparr>) (g2 f) = check_new_field a b f"
proof
  fix c
  have g1: "fd_name (g1 f) = fd_name f" for f using assms(1) [of f] by (simp add: same_checked_def)
  have g2: "fd_name (g2 f) = fd_name f" "fd_is_optional (g2 f) = fd_is_optional f" for f
    using assms(2) [of f] by (simp_all add: same_checked_def)
  show "check_new_field (a\<lparr>sc_fields := map g1 (sc_fields a)\<rparr>) (b\<lparr>sc_fields := fb\<rparr>) (g2 f) c = check_new_field a b f c"
    by (cases "find_named fd_name (fd_name f) (sc_fields a)")
      (simp_all add: check_new_field_def find_named_map [of fd_name g1] g1 g2)
qed

lemma check_struct_pair_map:
  assumes "\<And>f. same_checked f (g1 f)" and "\<And>f. same_checked f (g2 f)"
  shows "check_struct_pair (a\<lparr>sc_fields := map g1 (sc_fields a)\<rparr>) (b\<lparr>sc_fields := map g2 (sc_fields b)\<rparr>) = check_struct_pair a b"
  unfolding check_struct_pair_def [abs_def]
  by (simp add: fold_map o_def check_old_field_map [OF assms] check_new_field_map [OF assms])

section \<open>Properties\<close>

text \<open>
  C20. What the checker decides, and what that means: it returns 1 exactly when a struct, enum or oneof is gone, a field is gone or
  has another kind of type, array flag or array size, or an enum value or variant is gone, and 0 otherwise. So a schema in which
  every type is kept is never reported as breaking, but a 0 does not mean that: which struct, enum or oneof a field names, what
  the values of a map are and which struct a variant is are not compared.
\<close>
theorem compat_check_decides:
  assumes "schema_ok old" and "schema_ok new"
  shows "fst (compat_check old new) = (if shapes_kept old new then 0 else 1)
    \<and> (fst (compat_check old new) = 1 \<longrightarrow> \<not> types_kept old new)"
  using compat_check_code [OF assms] types_shapes_kept [of old new] by auto

text \<open>Schemas with one struct, for the witnesses.\<close>

definition one_field :: "field_type \<Rightarrow> string \<Rightarrow> struct_field" where
  "one_field t tn = \<lparr>fd_name = ''x'', fd_type = t, fd_is_array = False, fd_array_size = 0,
     fd_type_name = tn, fd_map_value_type = FIELD_TYPE_INT, fd_map_value_type_name = None,
     fd_is_optional = False, fd_is_nullable = False, fd_json_name = None, fd_default_value = None,
     fd_has_default = False, fd_is_deprecated = False, fd_line = 1, fd_col = 0\<rparr>"

definition one_struct :: "struct_field \<Rightarrow> schema" where
  "one_struct f = \<lparr>sch_structs = (sstr_map_new 1)\<lparr>buckets := [[(''A'', \<lparr>sc_name = ''A'', sc_fields = [f],
        sc_name_line = 1, sc_name_col = 0, sc_filename = []\<rparr>)]], map_size := 1\<rparr>,
     sch_enums = sstr_map_new 1, sch_oneofs = sstr_map_new 1\<rparr>"

lemma one_struct_ok: "schema_ok (one_struct f)"
  by (simp add: schema_ok_def one_struct_def sstr_map_new_inv)
    (simp add: hm_inv_def sstr_map_new_def hash_map_new_def placed_def bucket_index_def sstr_key_cmp_eq_0)

lemma one_struct_keyed: "schema_keyed (one_struct f)"
  by (auto simp: schema_keyed_def one_struct_def) (auto simp: hm_abs_def split: if_splits)

lemma one_struct_kept: "schema_kept R V (one_struct f) (one_struct g) \<longleftrightarrow> (fd_name g = fd_name f \<and> R f g)"
  by (auto simp: schema_kept_def one_struct_def hm_abs_def ran_def struct_kept_def find_named_eq sstr_map_new_def hash_map_new_def)

lemma compat_check_decides_witness:
  "fst (compat_check (one_struct (one_field FIELD_TYPE_INT ''int'')) (one_struct (one_field FIELD_TYPE_LONG ''long''))) = 1
    \<and> \<not> types_kept (one_struct (one_field FIELD_TYPE_INT ''int'')) (one_struct (one_field FIELD_TYPE_LONG ''long''))"
proof -
  have "\<not> shapes_kept (one_struct (one_field FIELD_TYPE_INT ''int'')) (one_struct (one_field FIELD_TYPE_LONG ''long''))"
    by (simp add: shapes_kept_def one_struct_kept same_shape_def one_field_def)
  then show ?thesis using compat_check_decides [OF one_struct_ok one_struct_ok] by simp
qed

text \<open>
  Type changes that are not reported: a field that names another struct, enum or oneof, and a map with another type of values.
\<close>
theorem compat_check_misses_types:
  assumes "ft = FIELD_TYPE_STRUCT \<or> ft = FIELD_TYPE_ENUM \<or> ft = FIELD_TYPE_ONEOF" and "n1 \<noteq> n2"
  shows "fst (compat_check (one_struct (one_field ft n1)) (one_struct (one_field ft n2))) = 0
    \<and> \<not> types_kept (one_struct (one_field ft n1)) (one_struct (one_field ft n2))"
    and "fst (compat_check (one_struct (one_field FIELD_TYPE_MAP n)) (one_struct ((one_field FIELD_TYPE_MAP n)\<lparr>fd_map_value_type := FIELD_TYPE_SSTR\<rparr>))) = 0
    \<and> \<not> types_kept (one_struct (one_field FIELD_TYPE_MAP n)) (one_struct ((one_field FIELD_TYPE_MAP n)\<lparr>fd_map_value_type := FIELD_TYPE_SSTR\<rparr>))"
  using assms compat_check_code [OF one_struct_ok one_struct_ok]
  by (auto simp: shapes_kept_def types_kept_def one_struct_kept same_shape_def same_type_def one_field_def)

text \<open>
  A schema whose definitions carry their own names and have no duplicate members is reported as
  identical to itself.
\<close>
theorem compat_check_reflexive:
  assumes "schema_ok s" and "schema_keyed s"
  shows "compat_check s s = (0, [])"
  by (rule compat_check_self [OF assms])

lemma compat_check_reflexive_witness:
  "compat_check (one_struct (one_field FIELD_TYPE_INT ''int'')) (one_struct (one_field FIELD_TYPE_INT ''int'')) = (0, [])"
  by (rule compat_check_reflexive [OF one_struct_ok one_struct_keyed])

text \<open>
  The comparison of two structs reads nothing of a field but its name, type tag, array flag, array
  size, deprecation and, for the wording of an addition, its optional flag: changing the struct a field
  refers to, the value type of a map, its nullability or its JSON key is not reported.
\<close>
theorem compat_check_blind:
  "check_struct_pair (a\<lparr>sc_fields := map (\<lambda>f. f\<lparr>fd_type_name := n1 f, fd_map_value_type := t1 f,
        fd_map_value_type_name := m1 f, fd_is_nullable := b1 f, fd_json_name := j1 f\<rparr>) (sc_fields a)\<rparr>)
     (b\<lparr>sc_fields := map (\<lambda>f. f\<lparr>fd_type_name := n2 f, fd_map_value_type := t2 f,
        fd_map_value_type_name := m2 f, fd_is_nullable := b2 f, fd_json_name := j2 f\<rparr>) (sc_fields b)\<rparr>)
   = check_struct_pair a b"
  by (rule check_struct_pair_map) (simp_all add: same_checked_def)

end
