(* ===== verification/Reader.thy ===== *)
theory Reader
  imports Sstr
begin

text \<open>
  What the two binary codecs (\<open>src/gencode/codes/msgpack_codec.c\<close> and \<open>cbor_codec.c\<close>) share: a cursor
  over a byte buffer, big-endian integers, and the contract of a decoder that consumes what an encoder
  produced. Each codec has its own copy of these helpers in the source, with the same text.
\<close>

section \<open>The cursor\<close>

text \<open>The field \<open>len\<close> of the code is the length of the data.\<close>

record reader =
  rd_data :: bytes
  rd_pos :: nat

definition rd_len :: "reader \<Rightarrow> nat" where
  "rd_len r = length (rd_data r)"

text \<open>Addition of \<open>size_t\<close> values.\<close>

definition size_add :: "nat \<Rightarrow> nat \<Rightarrow> nat" where
  "size_add a b = (a + b) mod 2 ^ 64"

text \<open>
  A decoder: \<open>None\<close> is the return value \<open>-1\<close>, and \<open>Some\<close> the value stored through the out parameter; the
  cursor may have moved in both cases.
\<close>

type_synonym 'a decoder = "reader \<Rightarrow> 'a option \<times> reader"

definition rd_bind :: "'a decoder \<Rightarrow> ('a \<Rightarrow> 'b decoder) \<Rightarrow> 'b decoder" where
  "rd_bind m f r = (case m r of (None, r') \<Rightarrow> (None, r') | (Some x, r') \<Rightarrow> f x r')"

definition rd_return :: "'a \<Rightarrow> 'a decoder" where
  "rd_return x r = (Some x, r)"

definition rd_fail :: "'a decoder" where
  "rd_fail r = (None, r)"

lemma rd_bind_simps:
  "m r = (None, r') \<Longrightarrow> rd_bind m f r = (None, r')"
  "m r = (Some x, r') \<Longrightarrow> rd_bind m f r = f x r'"
  by (simp_all add: rd_bind_def)

lemma rd_bind_return [simp]: "rd_bind (rd_return x) f = f x"
  by (rule ext) (simp add: rd_bind_def rd_return_def)

lemma rd_bind_fail [simp]: "rd_bind rd_fail f = rd_fail"
  by (rule ext) (simp add: rd_bind_def rd_fail_def)

text \<open>
  Conversions between \<open>float\<close>, \<open>double\<close> and integers, on bit patterns: the target's floating point.
\<close>

record float_conv =
  d_to_f :: "u64 \<Rightarrow> u32"
  f_to_d :: "u32 \<Rightarrow> u64"
  i64_to_d :: "u64 \<Rightarrow> u64"
  u64_to_d :: "u64 \<Rightarrow> u64"
  minus_one_minus :: "u64 \<Rightarrow> u64"
  d_to_i64 :: "u64 \<Rightarrow> u64"
  d_to_u64 :: "u64 \<Rightarrow> u64"

section \<open>Big-endian integers\<close>

definition store_be16 :: "u16 \<Rightarrow> bytes" where
  "store_be16 v = [ucast (drop_bit 8 v), ucast v]"

definition store_be32 :: "u32 \<Rightarrow> bytes" where
  "store_be32 v = [ucast (drop_bit 24 v), ucast (drop_bit 16 v), ucast (drop_bit 8 v), ucast v]"

definition store_be64 :: "u64 \<Rightarrow> bytes" where
  "store_be64 v = [ucast (drop_bit 56 v), ucast (drop_bit 48 v), ucast (drop_bit 40 v), ucast (drop_bit 32 v),
     ucast (drop_bit 24 v), ucast (drop_bit 16 v), ucast (drop_bit 8 v), ucast v]"

definition load_be16 :: "bytes \<Rightarrow> u16" where
  "load_be16 p = push_bit 8 (ucast (p ! 0)) OR ucast (p ! 1)"

definition load_be32 :: "bytes \<Rightarrow> u32" where
  "load_be32 p = push_bit 24 (ucast (p ! 0)) OR push_bit 16 (ucast (p ! 1))
     OR push_bit 8 (ucast (p ! 2)) OR ucast (p ! 3)"

definition load_be64 :: "bytes \<Rightarrow> u64" where
  "load_be64 p = push_bit 56 (ucast (p ! 0)) OR push_bit 48 (ucast (p ! 1))
     OR push_bit 40 (ucast (p ! 2)) OR push_bit 32 (ucast (p ! 3))
     OR push_bit 24 (ucast (p ! 4)) OR push_bit 16 (ucast (p ! 5))
     OR push_bit 8 (ucast (p ! 6)) OR ucast (p ! 7)"

lemma store_be_length [simp]:
  "length (store_be16 a) = 2" "length (store_be32 b) = 4" "length (store_be64 c) = 8"
  by (simp_all add: store_be16_def store_be32_def store_be64_def)

lemma nth_literal:
  "(x0 # x1 # xs) ! 1 = x1" "(x0 # x1 # x2 # xs) ! 2 = x2" "(x0 # x1 # x2 # x3 # xs) ! 3 = x3"
  "(x0 # x1 # x2 # x3 # x4 # xs) ! 4 = x4" "(x0 # x1 # x2 # x3 # x4 # x5 # xs) ! 5 = x5"
  "(x0 # x1 # x2 # x3 # x4 # x5 # x6 # xs) ! 6 = x6"
  "(x0 # x1 # x2 # x3 # x4 # x5 # x6 # x7 # xs) ! 7 = x7"
  by (simp_all add: nth_Cons')

lemma bit_byte_at:
  fixes v :: "'a::len word"
  assumes "n < LENGTH('a)"
  shows "bit (push_bit k (ucast (ucast (drop_bit k v) :: u8)) :: 'a word) n \<longleftrightarrow> k \<le> n \<and> n < k + 8 \<and> bit v n"
  using assms by (auto simp: bit_simps)

lemma bit_byte_low:
  fixes v :: "'a::len word"
  shows "bit (ucast (ucast v :: u8) :: 'a word) n \<longleftrightarrow> n < 8 \<and> bit v n"
  by (auto simp: bit_simps dest: bit_imp_le_length)

lemma load_store_be16 [simp]: "load_be16 (store_be16 v @ r) = v"
  by (rule bit_word_eqI)
    (auto simp: load_be16_def store_be16_def nth_literal bit_or_iff bit_byte_at bit_byte_low)

lemma load_store_be32 [simp]: "load_be32 (store_be32 v @ r) = v"
  by (rule bit_word_eqI)
    (auto simp: load_be32_def store_be32_def nth_literal bit_or_iff bit_byte_at bit_byte_low)

lemma load_store_be64 [simp]: "load_be64 (store_be64 v @ r) = v"
  by (rule bit_word_eqI)
    (auto simp: load_be64_def store_be64_def nth_literal bit_or_iff bit_byte_at bit_byte_low)

section \<open>Casts that lose nothing\<close>

lemma ucast_ucast_small:
  fixes v :: "'a::len word"
  assumes "unat v < 2 ^ LENGTH('b)"
  shows "ucast (ucast v :: 'b::len word) = v"
proof (rule iffD2 [OF word_unat_eq_iff])
  have "unat (ucast v :: 'b word) = unat v" using assms by (simp add: unsigned_ucast_eq take_bit_nat_eq_self)
  moreover have "unat v < 2 ^ LENGTH('a)" by (rule unsigned_less)
  ultimately show "unat (ucast (ucast v :: 'b word) :: 'a word) = unat v"
    by (simp add: unsigned_ucast_eq unsigned_take_bit_eq take_bit_nat_eq_self)
qed

lemma sint_ucast_small:
  fixes v :: "'a::len word"
  assumes "LENGTH('b) \<le> LENGTH('a)" and "- (2 ^ (LENGTH('b) - 1)) \<le> sint v" and "sint v < 2 ^ (LENGTH('b) - 1)"
  shows "sint (ucast v :: 'b::len word) = sint v"
proof -
  have "sint (ucast v :: 'b word) = signed_take_bit (LENGTH('b) - 1) (uint v)"
    by (simp add: sint_uint unsigned_ucast_eq signed_take_bit_take_bit)
  also have "\<dots> = signed_take_bit (LENGTH('b) - 1) (sint v)"
    using assms(1) by (simp add: sint_uint signed_take_bit_signed_take_bit min_def diff_le_mono)
  also have "\<dots> = sint v" using assms(2,3) by (simp add: signed_take_bit_int_eq_self)
  finally show ?thesis .
qed

lemma scast_ucast_small:
  fixes v :: "'a::len word"
  assumes "LENGTH('b) \<le> LENGTH('a)" and "- (2 ^ (LENGTH('b) - 1)) \<le> sint v" and "sint v < 2 ^ (LENGTH('b) - 1)"
  shows "scast (ucast v :: 'b::len word) = v"
  using sint_ucast_small [OF assms] by (simp add: scast_eq)

lemma unat_word_of_nat: "unat (word_of_nat n :: 'a::len word) = n mod 2 ^ LENGTH('a)"
  by (simp add: unat_of_nat)

section \<open>Where the cursor stands\<close>

text \<open>The cursor is inside a buffer that fits in memory, and \<open>bs\<close> is what it has left to read.\<close>

definition at :: "reader \<Rightarrow> bytes \<Rightarrow> bool" where
  "at r bs \<longleftrightarrow> rd_pos r \<le> rd_len r \<and> rd_len r < 2 ^ 63 \<and> drop (rd_pos r) (rd_data r) = bs"

definition adv :: "nat \<Rightarrow> reader \<Rightarrow> reader" where
  "adv n r = r\<lparr>rd_pos := rd_pos r + n\<rparr>"

lemma at_adv: "at r (xs @ ys) \<Longrightarrow> at (adv (length xs) r) ys"
proof -
  assume a: "at r (xs @ ys)"
  then have d: "drop (rd_pos r) (rd_data r) = xs @ ys" by (simp add: at_def)
  then have "length (rd_data r) - rd_pos r = length xs + length ys" by (metis length_append length_drop)
  moreover have "drop (rd_pos r + length xs) (rd_data r) = ys"
    using d by (metis add.commute append_eq_conv_conj drop_drop)
  ultimately show ?thesis using a by (cases "length xs = 0") (auto simp: at_def adv_def rd_len_def)
qed

lemma at_adv_Cons: "at r (x # ys) \<Longrightarrow> at (adv 1 r) ys"
  using at_adv [of r "[x]" ys] by simp

lemma adv_adv [simp]: "adv m (adv n r) = adv (n + m) r"
  by (simp add: adv_def ac_simps)

lemma adv_0 [simp]: "adv 0 r = r"
  by (simp add: adv_def)

lemma adv_simps [simp]: "rd_data (adv n r) = rd_data r" "rd_pos (adv n r) = rd_pos r + n" "rd_len (adv n r) = rd_len r"
  by (simp_all add: adv_def rd_len_def)

lemma at_len: "at r bs \<Longrightarrow> rd_pos r + length bs = rd_len r"
  by (auto simp: at_def rd_len_def)

lemma at_Cons: "at r (x # xs) \<Longrightarrow> rd_pos r < rd_len r \<and> rd_data r ! rd_pos r = x"
  by (auto simp: at_def rd_len_def nth_via_drop) (metis drop_all list.distinct(1) not_less)

lemma at_take: "at r (xs @ ys) \<Longrightarrow> take (length xs) (drop (rd_pos r) (rd_data r)) = xs"
  by (simp add: at_def)

lemma at_size_add: "at r bs \<Longrightarrow> n < 2 ^ 63 \<Longrightarrow> size_add (rd_pos r) n = rd_pos r + n"
  by (simp add: at_def size_add_def)

section \<open>Decoders undo encoders\<close>

fun rd_times :: "nat \<Rightarrow> 'a decoder \<Rightarrow> 'a list decoder" where
  "rd_times 0 dec = rd_return []"
| "rd_times (Suc n) dec = rd_bind dec (\<lambda>x. rd_bind (rd_times n dec) (\<lambda>xs. rd_return (x # xs)))"

locale codec =
  fixes enc :: "'a \<Rightarrow> bytes" and dec :: "'a decoder" and good :: "'a \<Rightarrow> bool"
  assumes dec_enc: "good x \<Longrightarrow> at r (enc x @ rest) \<Longrightarrow> dec r = (Some x, adv (length (enc x)) r)"
begin

lemma dec_all:
  "list_all good xs \<Longrightarrow> at r (concat (map enc xs) @ rest) \<Longrightarrow>
   rd_times (length xs) dec r = (Some xs, adv (length (concat (map enc xs))) r)"
proof (induction xs arbitrary: r)
  case Nil
  then show ?case by (simp add: rd_return_def)
next
  case (Cons x xs)
  have at: "at r (enc x @ (concat (map enc xs) @ rest))" using Cons.prems(2) by simp
  have "rd_times (length xs) dec (adv (length (enc x)) r)
      = (Some xs, adv (length (concat (map enc xs))) (adv (length (enc x)) r))"
    using Cons.prems(1) by (intro Cons.IH at_adv [OF at]) simp
  then show ?case using dec_enc [OF _ at] Cons.prems(1) by (simp add: rd_bind_def rd_return_def)
qed

text \<open>No encoding is a prefix of another one.\<close>

lemma prefix_free:
  assumes "good x" and "good y" and "enc x @ xs = enc y @ ys" and "length (enc x @ xs) < 2 ^ 63"
  shows "x = y"
proof -
  let ?r = "\<lparr>rd_data = enc x @ xs, rd_pos = 0\<rparr>"
  have "at ?r (enc x @ xs)" "at ?r (enc y @ ys)" using assms(3,4) by (simp_all add: at_def rd_len_def)
  then show ?thesis using dec_enc [OF assms(1), of ?r xs] dec_enc [OF assms(2), of ?r ys] by simp
qed

end

end
