(* ===== verification/Msgpack.thy ===== *)
theory Msgpack
  imports Reader
begin

text \<open>
  The MessagePack runtime that is embedded into generated code (\<open>src/gencode/codes/msgpack_codec.c\<close>):
  packing into a string, unpacking from a cursor, and skipping a value of any type. Floating point
  numbers are their bit patterns; the conversions between them and integers are parameters.
\<close>

section \<open>Format constants\<close>

abbreviation MP_FIXINT_MAX :: u8 where "MP_FIXINT_MAX \<equiv> 0x7f"
abbreviation MP_NEG_FIXINT :: u8 where "MP_NEG_FIXINT \<equiv> 0xe0"
abbreviation MP_NIL :: u8 where "MP_NIL \<equiv> 0xc0"
abbreviation MP_FALSE :: u8 where "MP_FALSE \<equiv> 0xc2"
abbreviation MP_TRUE :: u8 where "MP_TRUE \<equiv> 0xc3"
abbreviation MP_FLOAT32 :: u8 where "MP_FLOAT32 \<equiv> 0xca"
abbreviation MP_FLOAT64 :: u8 where "MP_FLOAT64 \<equiv> 0xcb"
abbreviation MP_UINT8 :: u8 where "MP_UINT8 \<equiv> 0xcc"
abbreviation MP_UINT16 :: u8 where "MP_UINT16 \<equiv> 0xcd"
abbreviation MP_UINT32 :: u8 where "MP_UINT32 \<equiv> 0xce"
abbreviation MP_UINT64 :: u8 where "MP_UINT64 \<equiv> 0xcf"
abbreviation MP_INT8 :: u8 where "MP_INT8 \<equiv> 0xd0"
abbreviation MP_INT16 :: u8 where "MP_INT16 \<equiv> 0xd1"
abbreviation MP_INT32 :: u8 where "MP_INT32 \<equiv> 0xd2"
abbreviation MP_INT64 :: u8 where "MP_INT64 \<equiv> 0xd3"
abbreviation MP_FIXSTR :: u8 where "MP_FIXSTR \<equiv> 0xa0"
abbreviation MP_FIXSTR_MASK :: u8 where "MP_FIXSTR_MASK \<equiv> 0x1f"
abbreviation MP_STR8 :: u8 where "MP_STR8 \<equiv> 0xd9"
abbreviation MP_STR16 :: u8 where "MP_STR16 \<equiv> 0xda"
abbreviation MP_STR32 :: u8 where "MP_STR32 \<equiv> 0xdb"
abbreviation MP_FIXARRAY :: u8 where "MP_FIXARRAY \<equiv> 0x90"
abbreviation MP_FIXARRAY_MASK :: u8 where "MP_FIXARRAY_MASK \<equiv> 0x0f"
abbreviation MP_ARRAY16 :: u8 where "MP_ARRAY16 \<equiv> 0xdc"
abbreviation MP_ARRAY32 :: u8 where "MP_ARRAY32 \<equiv> 0xdd"
abbreviation MP_FIXMAP :: u8 where "MP_FIXMAP \<equiv> 0x80"
abbreviation MP_FIXMAP_MASK :: u8 where "MP_FIXMAP_MASK \<equiv> 0x0f"
abbreviation MP_MAP16 :: u8 where "MP_MAP16 \<equiv> 0xde"
abbreviation MP_MAP32 :: u8 where "MP_MAP32 \<equiv> 0xdf"

section \<open>Packing\<close>

text \<open>
  The bytes that one call of a pack function builds in its local buffer; the call itself appends them.
\<close>

definition mp_uint_bytes :: "u64 \<Rightarrow> bytes" where
  "mp_uint_bytes v =
     (if v \<le> 0x7f then [ucast v]
      else if v \<le> 0xff then [MP_UINT8, ucast v]
      else if v \<le> 0xffff then MP_UINT16 # store_be16 (ucast v)
      else if v \<le> 0xffffffff then MP_UINT32 # store_be32 (ucast v)
      else MP_UINT64 # store_be64 v)"

definition mp_int_bytes :: "u64 \<Rightarrow> bytes" where
  "mp_int_bytes v =
     (if sint v \<ge> 0 then mp_uint_bytes v
      else if sint v \<ge> -32 then [ucast (v AND 0xff)]
      else if sint v \<ge> -128 then [MP_INT8, ucast v]
      else if sint v \<ge> -32768 then MP_INT16 # store_be16 (ucast v)
      else if sint v \<ge> -2147483648 then MP_INT32 # store_be32 (ucast v)
      else MP_INT64 # store_be64 v)"

definition mp_str_header :: "u32 \<Rightarrow> bytes" where
  "mp_str_header len =
     (if len \<le> 0x1f then [MP_FIXSTR OR ucast len]
      else if len \<le> 0xff then [MP_STR8, ucast len]
      else if len \<le> 0xffff then MP_STR16 # store_be16 (ucast len)
      else MP_STR32 # store_be32 len)"

definition mp_array_header_bytes :: "u32 \<Rightarrow> bytes" where
  "mp_array_header_bytes cnt =
     (if cnt \<le> 0x0f then [MP_FIXARRAY OR ucast cnt]
      else if cnt \<le> 0xffff then MP_ARRAY16 # store_be16 (ucast cnt)
      else MP_ARRAY32 # store_be32 cnt)"

definition mp_map_header_bytes :: "u32 \<Rightarrow> bytes" where
  "mp_map_header_bytes cnt =
     (if cnt \<le> 0x0f then [MP_FIXMAP OR ucast cnt]
      else if cnt \<le> 0xffff then MP_MAP16 # store_be16 (ucast cnt)
      else MP_MAP32 # store_be32 cnt)"

definition mp_pack_nil :: "sstr \<Rightarrow> fault + sstr" where
  "mp_pack_nil out = sstr_append_bytes out [MP_NIL]"

definition mp_pack_bool :: "sstr \<Rightarrow> bool \<Rightarrow> fault + sstr" where
  "mp_pack_bool out v = sstr_append_bytes out [if v then MP_TRUE else MP_FALSE]"

definition mp_pack_uint :: "sstr \<Rightarrow> u64 \<Rightarrow> fault + sstr" where
  "mp_pack_uint out v = sstr_append_bytes out (mp_uint_bytes v)"

definition mp_pack_int :: "sstr \<Rightarrow> u64 \<Rightarrow> fault + sstr" where
  "mp_pack_int out v = (if sint v \<ge> 0 then mp_pack_uint out v else sstr_append_bytes out (mp_int_bytes v))"

definition mp_pack_float :: "sstr \<Rightarrow> u32 \<Rightarrow> fault + sstr" where
  "mp_pack_float out v = sstr_append_bytes out (MP_FLOAT32 # store_be32 v)"

definition mp_pack_double :: "sstr \<Rightarrow> u64 \<Rightarrow> fault + sstr" where
  "mp_pack_double out v = sstr_append_bytes out (MP_FLOAT64 # store_be64 v)"

text \<open>\<open>s\<close> is the memory the pointer may read; only its first \<open>len\<close> bytes are.\<close>

definition mp_pack_str :: "sstr \<Rightarrow> bytes \<Rightarrow> u32 \<Rightarrow> fault + sstr" where
  "mp_pack_str out s len =
     bindE (sstr_append_bytes out (mp_str_header len)) (\<lambda>out'.
       if len > 0 then
         (if unat len \<le> length s then sstr_append_bytes out' (take (unat len) s) else Inl Out_of_bounds)
       else Inr out')"

definition mp_pack_sstr :: "sstr \<Rightarrow> bytes \<Rightarrow> fault + sstr" where
  "mp_pack_sstr out s = mp_pack_str out s (word_of_nat (length s))"

definition mp_pack_array_header :: "sstr \<Rightarrow> u32 \<Rightarrow> fault + sstr" where
  "mp_pack_array_header out cnt = sstr_append_bytes out (mp_array_header_bytes cnt)"

definition mp_pack_map_header :: "sstr \<Rightarrow> u32 \<Rightarrow> fault + sstr" where
  "mp_pack_map_header out cnt = sstr_append_bytes out (mp_map_header_bytes cnt)"

section \<open>Unpacking\<close>

text \<open>The buffer is read through its first \<open>len\<close> bytes.\<close>

definition mp_reader_init :: "bytes \<Rightarrow> nat \<Rightarrow> reader" where
  "mp_reader_init data len = \<lparr>rd_data = take len data, rd_pos = 0\<rparr>"

definition mp_peek :: "reader \<Rightarrow> int" where
  "mp_peek r = (if rd_pos r \<ge> rd_len r then -1 else uint (rd_data r ! rd_pos r))"

definition mp_read_bytes :: "nat \<Rightarrow> bytes decoder" where
  "mp_read_bytes n r =
     (if size_add (rd_pos r) n > rd_len r then (None, r)
      else (Some (take n (drop (rd_pos r) (rd_data r))), r\<lparr>rd_pos := size_add (rd_pos r) n\<rparr>))"

definition mp_read1 :: "u8 decoder" where
  "mp_read1 r =
     (if rd_pos r \<ge> rd_len r then (None, r)
      else (Some (rd_data r ! rd_pos r), r\<lparr>rd_pos := rd_pos r + 1\<rparr>))"

definition mp_unpack_nil :: "unit decoder" where
  "mp_unpack_nil = rd_bind mp_read1 (\<lambda>b. if b \<noteq> MP_NIL then rd_fail else rd_return ())"

definition mp_unpack_bool :: "bool decoder" where
  "mp_unpack_bool = rd_bind mp_read1 (\<lambda>b.
     if b = MP_TRUE then rd_return True else if b = MP_FALSE then rd_return False else rd_fail)"

definition mp_unpack_int64 :: "u64 decoder" where
  "mp_unpack_int64 = rd_bind mp_read1 (\<lambda>b.
     if b \<le> MP_FIXINT_MAX then rd_return (ucast b)
     else if b \<ge> MP_NEG_FIXINT then rd_return (scast b)
     else if b = MP_UINT8 then rd_bind mp_read1 (\<lambda>x. rd_return (ucast x))
     else if b = MP_UINT16 then rd_bind (mp_read_bytes 2) (\<lambda>p. rd_return (ucast (load_be16 p)))
     else if b = MP_UINT32 then rd_bind (mp_read_bytes 4) (\<lambda>p. rd_return (ucast (load_be32 p)))
     else if b = MP_UINT64 then rd_bind (mp_read_bytes 8) (\<lambda>p. rd_return (load_be64 p))
     else if b = MP_INT8 then rd_bind mp_read1 (\<lambda>x. rd_return (scast x))
     else if b = MP_INT16 then rd_bind (mp_read_bytes 2) (\<lambda>p. rd_return (scast (load_be16 p)))
     else if b = MP_INT32 then rd_bind (mp_read_bytes 4) (\<lambda>p. rd_return (scast (load_be32 p)))
     else if b = MP_INT64 then rd_bind (mp_read_bytes 8) (\<lambda>p. rd_return (load_be64 p))
     else rd_fail)"

definition mp_unpack_uint64 :: "u64 decoder" where
  "mp_unpack_uint64 = rd_bind mp_read1 (\<lambda>b.
     if b \<le> MP_FIXINT_MAX then rd_return (ucast b)
     else if b = MP_UINT8 then rd_bind mp_read1 (\<lambda>x. rd_return (ucast x))
     else if b = MP_UINT16 then rd_bind (mp_read_bytes 2) (\<lambda>p. rd_return (ucast (load_be16 p)))
     else if b = MP_UINT32 then rd_bind (mp_read_bytes 4) (\<lambda>p. rd_return (ucast (load_be32 p)))
     else if b = MP_UINT64 then rd_bind (mp_read_bytes 8) (\<lambda>p. rd_return (load_be64 p))
     else if b = MP_INT8 then rd_bind mp_read1 (\<lambda>x. rd_return (scast x))
     else if b = MP_INT16 then rd_bind (mp_read_bytes 2) (\<lambda>p. rd_return (scast (load_be16 p)))
     else if b = MP_INT32 then rd_bind (mp_read_bytes 4) (\<lambda>p. rd_return (scast (load_be32 p)))
     else if b = MP_INT64 then rd_bind (mp_read_bytes 8) (\<lambda>p. rd_return (load_be64 p))
     else rd_fail)"

definition mp_unpack_float :: "float_conv \<Rightarrow> u32 decoder" where
  "mp_unpack_float fc = rd_bind mp_read1 (\<lambda>b.
     if b = MP_FLOAT32 then rd_bind (mp_read_bytes 4) (\<lambda>p. rd_return (load_be32 p))
     else if b = MP_FLOAT64 then rd_bind (mp_read_bytes 8) (\<lambda>p. rd_return (d_to_f fc (load_be64 p)))
     else rd_fail)"

text \<open>\<open>r->pos--\<close> puts the tag byte back before an integer is tried.\<close>

definition mp_unpack_double :: "float_conv \<Rightarrow> u64 decoder" where
  "mp_unpack_double fc = rd_bind mp_read1 (\<lambda>b.
     if b = MP_FLOAT64 then rd_bind (mp_read_bytes 8) (\<lambda>p. rd_return (load_be64 p))
     else if b = MP_FLOAT32 then rd_bind (mp_read_bytes 4) (\<lambda>p. rd_return (f_to_d fc (load_be32 p)))
     else (\<lambda>r. rd_bind mp_unpack_int64 (\<lambda>iv. rd_return (i64_to_d fc iv)) (r\<lparr>rd_pos := rd_pos r - 1\<rparr>)))"

definition mp_unpack_str :: "bytes decoder" where
  "mp_unpack_str = rd_bind mp_read1 (\<lambda>b.
     rd_bind (if b AND 0xe0 = MP_FIXSTR then rd_return (ucast (b AND MP_FIXSTR_MASK) :: u32)
              else if b = MP_STR8 then rd_bind mp_read1 (\<lambda>lb. rd_return (ucast lb))
              else if b = MP_STR16 then rd_bind (mp_read_bytes 2) (\<lambda>p. rd_return (ucast (load_be16 p)))
              else if b = MP_STR32 then rd_bind (mp_read_bytes 4) (\<lambda>p. rd_return (load_be32 p))
              else rd_fail)
       (\<lambda>len. mp_read_bytes (unat len)))"

definition mp_unpack_array_header :: "u32 decoder" where
  "mp_unpack_array_header = rd_bind mp_read1 (\<lambda>b.
     if b AND 0xf0 = MP_FIXARRAY then rd_return (ucast (b AND MP_FIXARRAY_MASK))
     else if b = MP_ARRAY16 then rd_bind (mp_read_bytes 2) (\<lambda>p. rd_return (ucast (load_be16 p)))
     else if b = MP_ARRAY32 then rd_bind (mp_read_bytes 4) (\<lambda>p. rd_return (load_be32 p))
     else rd_fail)"

definition mp_unpack_map_header :: "u32 decoder" where
  "mp_unpack_map_header = rd_bind mp_read1 (\<lambda>b.
     if b AND 0xf0 = MP_FIXMAP then rd_return (ucast (b AND MP_FIXMAP_MASK))
     else if b = MP_MAP16 then rd_bind (mp_read_bytes 2) (\<lambda>p. rd_return (ucast (load_be16 p)))
     else if b = MP_MAP32 then rd_bind (mp_read_bytes 4) (\<lambda>p. rd_return (load_be32 p))
     else rd_fail)"

text \<open>
  The generic numeric helpers look at the tag byte first, without a bounds check: at the end of the
  buffer that is an access outside it.
\<close>

definition mp_unpack_number_as_int64 :: "float_conv \<Rightarrow> reader \<Rightarrow> fault + u64 option \<times> reader" where
  "mp_unpack_number_as_int64 fc r =
     (if rd_pos r \<ge> rd_len r then Inl Out_of_bounds
      else (let b = rd_data r ! rd_pos r
            in Inr (if b = MP_FLOAT32 \<or> b = MP_FLOAT64
                    then rd_bind (mp_unpack_double fc) (\<lambda>d. rd_return (d_to_i64 fc d)) r
                    else mp_unpack_int64 r)))"

definition mp_unpack_number_as_uint64 :: "float_conv \<Rightarrow> reader \<Rightarrow> fault + u64 option \<times> reader" where
  "mp_unpack_number_as_uint64 fc r =
     (if rd_pos r \<ge> rd_len r then Inl Out_of_bounds
      else (let b = rd_data r ! rd_pos r
            in Inr (if b = MP_FLOAT32 \<or> b = MP_FLOAT64
                    then rd_bind (mp_unpack_double fc) (\<lambda>d. rd_return (d_to_u64 fc d)) r
                    else mp_unpack_uint64 r)))"

definition mp_unpack_number_as_double :: "float_conv \<Rightarrow> u64 decoder" where
  "mp_unpack_number_as_double fc = mp_unpack_double fc"

section \<open>Skipping a value\<close>

text \<open>
  \<open>mp_unpack_skip\<close> recurses on the elements of arrays and maps. The first argument bounds the depth of
  that recursion (\<open>None\<close> when it is exceeded); the boolean is the code's success. \<open>mp_skip_bytes\<close> is the
  guarded step \<open>if (r->pos + n > r->len) return -1; r->pos += n\<close>.
\<close>

definition mp_skip_bytes :: "nat \<Rightarrow> reader \<Rightarrow> bool \<times> reader" where
  "mp_skip_bytes n r = (if size_add (rd_pos r) n > rd_len r then (False, r)
     else (True, r\<lparr>rd_pos := size_add (rd_pos r) n\<rparr>))"

text \<open>A length or count of \<open>n\<close> bytes at the cursor: \<open>None\<close> when the buffer ends before it does.\<close>

definition mp_skip_arg :: "nat \<Rightarrow> reader \<Rightarrow> nat option \<times> reader" where
  "mp_skip_arg n r =
     (if size_add (rd_pos r) n > rd_len r then (None, r)
      else (let p = drop (rd_pos r) (rd_data r);
                v = (if n = 1 then unat (p ! 0) else if n = 2 then unat (load_be16 p) else unat (load_be32 p))
            in (Some v, r\<lparr>rd_pos := size_add (rd_pos r) n\<rparr>)))"

text \<open>
  What follows a tag byte: nothing, a payload of known size, a payload with its length in front, a known
  number of values, or a count of \<open>n\<close> bytes and that many groups of \<open>k\<close> values.
\<close>

datatype mp_shape = Done | Payload nat | Prefixed nat | Items nat | Counted nat nat | Unknown

definition mp_shape_of :: "u8 \<Rightarrow> mp_shape" where
  "mp_shape_of b =
     (if b \<le> MP_FIXINT_MAX \<or> b \<ge> MP_NEG_FIXINT then Done
      else if b AND 0xe0 = MP_FIXSTR then Payload (unat (b AND MP_FIXSTR_MASK))
      else if b AND 0xf0 = MP_FIXARRAY then Items (unat (b AND MP_FIXARRAY_MASK))
      else if b AND 0xf0 = MP_FIXMAP then Items (2 * unat (b AND MP_FIXMAP_MASK))
      else if b = MP_NIL \<or> b = MP_FALSE \<or> b = MP_TRUE then Done
      else if b = MP_UINT8 \<or> b = MP_INT8 then Payload 1
      else if b = MP_UINT16 \<or> b = MP_INT16 then Payload 2
      else if b = MP_UINT32 \<or> b = MP_INT32 \<or> b = MP_FLOAT32 then Payload 4
      else if b = MP_UINT64 \<or> b = MP_INT64 \<or> b = MP_FLOAT64 then Payload 8
      else if b = MP_STR8 then Prefixed 1
      else if b = MP_STR16 then Prefixed 2
      else if b = MP_STR32 then Prefixed 4
      else if b = MP_ARRAY16 then Counted 2 1
      else if b = MP_ARRAY32 then Counted 4 1
      else if b = MP_MAP16 then Counted 2 2
      else if b = MP_MAP32 then Counted 4 2
      else Unknown)"

function (sequential) mp_unpack_skip :: "nat \<Rightarrow> reader \<Rightarrow> (bool \<times> reader) option"
  and mp_skip_items :: "nat \<Rightarrow> nat \<Rightarrow> reader \<Rightarrow> (bool \<times> reader) option" where
  "mp_unpack_skip 0 r = None"
| "mp_unpack_skip (Suc fuel) r =
     (if rd_pos r \<ge> rd_len r then Some (False, r)
      else (let r1 = r\<lparr>rd_pos := rd_pos r + 1\<rparr>
            in case mp_shape_of (rd_data r ! rd_pos r) of
                 Done \<Rightarrow> Some (True, r1)
               | Payload n \<Rightarrow> Some (mp_skip_bytes n r1)
               | Prefixed n \<Rightarrow> Some (case mp_skip_arg n r1 of
                     (None, r2) \<Rightarrow> (False, r2) | (Some len, r2) \<Rightarrow> mp_skip_bytes len r2)
               | Items n \<Rightarrow> mp_skip_items fuel n r1
               | Counted n k \<Rightarrow> (case mp_skip_arg n r1 of
                     (None, r2) \<Rightarrow> Some (False, r2) | (Some c, r2) \<Rightarrow> mp_skip_items fuel (k * c) r2)
               | Unknown \<Rightarrow> Some (False, r1)))"
| "mp_skip_items fuel n r =
     (if n = 0 then Some (True, r)
      else case mp_unpack_skip fuel r of
             None \<Rightarrow> None
           | Some (False, r') \<Rightarrow> Some (False, r')
           | Some (True, r') \<Rightarrow> mp_skip_items fuel (n - 1) r')"
  by pat_completeness auto
termination
  by (relation "measures [\<lambda>x. case x of Inl (f, r) \<Rightarrow> f | Inr (f, n, r) \<Rightarrow> f,
        \<lambda>x. case x of Inl (f, r) \<Rightarrow> 0 | Inr (f, n, r) \<Rightarrow> Suc n]") auto

declare mp_unpack_skip.simps [simp del] mp_skip_items.simps [simp del]

section \<open>Reading at the cursor\<close>

lemma mp_read1_at: "at r (b # bs) \<Longrightarrow> mp_read1 r = (Some b, adv 1 r)"
  using at_Cons [of r b bs] by (simp add: mp_read1_def adv_def)

lemma mp_read_bytes_at:
  assumes "at r (xs @ ys)" and "length xs = n"
  shows "mp_read_bytes n r = (Some xs, adv n r)"
proof -
  have len: "rd_pos r + n + length ys = rd_len r" using at_len [OF assms(1)] assms(2) by simp
  moreover have "n < 2 ^ 63" using len assms(1) by (simp add: at_def)
  ultimately show ?thesis using at_size_add [OF assms(1), of n] at_take [OF assms(1)] assms(2)
    by (simp add: mp_read_bytes_def adv_def)
qed

lemma load_store_exact [simp]:
  "load_be16 (store_be16 a) = a" "load_be32 (store_be32 b) = b" "load_be64 (store_be64 c) = c"
  using load_store_be16 [of a "[]"] load_store_be32 [of b "[]"] load_store_be64 [of c "[]"] by simp_all

lemma mp_read_store:
  "at r (store_be16 a @ ys) \<Longrightarrow> mp_read_bytes 2 r = (Some (store_be16 a), adv 2 r)"
  "at r (store_be32 b @ ys) \<Longrightarrow> mp_read_bytes 4 r = (Some (store_be32 b), adv 4 r)"
  "at r (store_be64 c @ ys) \<Longrightarrow> mp_read_bytes 8 r = (Some (store_be64 c), adv 8 r)"
  by (simp_all add: mp_read_bytes_at)

text \<open>A tag byte followed by its payload.\<close>

lemma mp_tagged:
  "at r (b # bs) \<Longrightarrow> rd_bind mp_read1 f r = f b (adv (Suc 0) r)"
  "at r (b # bs) \<Longrightarrow> at (adv (Suc 0) r) bs"
  using at_adv_Cons [of r b bs] by (simp_all add: rd_bind_def mp_read1_at)

lemma mp_payload:
  "at r (x # y # ys) \<Longrightarrow> rd_bind mp_read1 f (adv (Suc 0) r) = f y (adv 2 r)"
  "at r (x # store_be16 a @ ys) \<Longrightarrow> rd_bind (mp_read_bytes 2) h (adv (Suc 0) r) = h (store_be16 a) (adv 3 r)"
  "at r (x # store_be32 b @ ys) \<Longrightarrow> rd_bind (mp_read_bytes 4) h (adv (Suc 0) r) = h (store_be32 b) (adv 5 r)"
  "at r (x # store_be64 c @ ys) \<Longrightarrow> rd_bind (mp_read_bytes 8) h (adv (Suc 0) r) = h (store_be64 c) (adv 9 r)"
  by (drule mp_tagged(2), simp add: rd_bind_def mp_read1_at eval_nat_numeral,
      (drule mp_tagged(2), simp add: rd_bind_def mp_read_store numeral_3_eq_3)+)

lemmas mp_steps = mp_tagged(1) mp_payload rd_return_def

section \<open>Integers\<close>

lemma u64_le:
  fixes v :: u64
  shows "v \<le> 0x7f \<Longrightarrow> unat v < 2 ^ 7" "v \<le> 0xff \<Longrightarrow> unat v < 2 ^ 8" "v \<le> 0xffff \<Longrightarrow> unat v < 2 ^ 16"
    "v \<le> 0xffffffff \<Longrightarrow> unat v < 2 ^ 32"
  by (simp_all add: word_le_nat_alt)

lemma u64_ucast [simp]:
  fixes v :: u64
  shows "v \<le> 0x7f \<Longrightarrow> ucast (ucast v :: u8) = v" "v \<le> 0xff \<Longrightarrow> ucast (ucast v :: u8) = v"
    "v \<le> 0xffff \<Longrightarrow> ucast (ucast v :: u16) = v" "v \<le> 0xffffffff \<Longrightarrow> ucast (ucast v :: u32) = v"
  using u64_le [of v] by (auto intro!: ucast_ucast_small)

lemma u64_fixint: "v \<le> 0x7f \<Longrightarrow> (ucast v :: u8) \<le> 0x7f" for v :: u64
  using u64_le(1) [of v] by (simp add: word_le_nat_alt unsigned_ucast_eq take_bit_nat_eq_self)

lemma s64_small:
  fixes v :: u64
  assumes "sint v < 0"
  shows "sint v \<ge> -128 \<Longrightarrow> scast (ucast v :: u8) = v"
    "sint v \<ge> -32768 \<Longrightarrow> scast (ucast v :: u16) = v" "sint v \<ge> -2147483648 \<Longrightarrow> scast (ucast v :: u32) = v"
  using assms by (auto intro!: scast_ucast_small)

lemma ucast_and_ff: "(ucast (v AND 0xff) :: u8) = ucast (v :: u64)"
proof -
  have "v AND mask 8 = take_bit 8 v" by (simp add: take_bit_eq_mask)
  then have "v AND 0xff = take_bit 8 v" by (simp add: mask_eq_exp_minus_1)
  then show ?thesis by (simp add: bit_eq_iff bit_simps)
qed

lemma neg_fixint:
  fixes v :: u64
  assumes "sint v < 0" and "sint v \<ge> -32"
  shows "(ucast v :: u8) \<ge> 0xe0"
proof -
  have "sint (ucast v :: u8) = sint v" by (rule sint_ucast_small) (use assms in simp_all)
  then have "uint (ucast v :: u8) = sint v mod 256" by (simp add: uint_sint take_bit_eq_mod)
  moreover have "sint v mod 256 \<ge> 224" using assms by presburger
  ultimately show ?thesis by (simp add: word_le_def)
qed

lemma neg_fixint_range: "(0xe0 :: u8) \<le> b \<Longrightarrow> \<not> b \<le> 0x7f"
  by (auto simp: word_le_nat_alt)

lemma mp_uint_head:
  obtains (fix1) "v \<le> 0x7f" "mp_uint_bytes v = [ucast v]"
  | (b1) "v \<le> 0xff" "\<not> v \<le> 0x7f" "mp_uint_bytes v = [MP_UINT8, ucast v]"
  | (b2) "v \<le> 0xffff" "mp_uint_bytes v = MP_UINT16 # store_be16 (ucast v)"
  | (b4) "v \<le> 0xffffffff" "mp_uint_bytes v = MP_UINT32 # store_be32 (ucast v)"
  | (b8) "mp_uint_bytes v = MP_UINT64 # store_be64 v"
proof -
  consider "v \<le> 0x7f" | "\<not> v \<le> 0x7f" "v \<le> 0xff" | "\<not> v \<le> 0x7f" "\<not> v \<le> 0xff" "v \<le> 0xffff"
    | "\<not> v \<le> 0x7f" "\<not> v \<le> 0xff" "\<not> v \<le> 0xffff" "v \<le> 0xffffffff"
    | "\<not> v \<le> 0x7f" "\<not> v \<le> 0xff" "\<not> v \<le> 0xffff" "\<not> v \<le> 0xffffffff"
    by blast
  then show thesis by cases (rule that, simp_all add: mp_uint_bytes_def)+
qed

lemma mp_uint_length: "0 < length (mp_uint_bytes v)" "length (mp_uint_bytes v) \<le> 9"
  by (cases rule: mp_uint_head [of v]; simp)+

lemma mp_unpack_uint64_correct:
  assumes "at r (mp_uint_bytes v @ rest)"
  shows "mp_unpack_uint64 r = (Some v, adv (length (mp_uint_bytes v)) r)"
proof (cases rule: mp_uint_head [of v])
  case fix1
  then show ?thesis using assms u64_fixint [of v] by (simp add: mp_unpack_uint64_def mp_steps)
qed (use assms in \<open>simp_all add: mp_unpack_uint64_def mp_steps\<close>)

lemma mp_unpack_int64_uint:
  assumes "at r (mp_uint_bytes v @ rest)"
  shows "mp_unpack_int64 r = (Some v, adv (length (mp_uint_bytes v)) r)"
proof (cases rule: mp_uint_head [of v])
  case fix1
  then show ?thesis using assms u64_fixint [of v] by (simp add: mp_unpack_int64_def mp_steps)
qed (use assms in \<open>simp_all add: mp_unpack_int64_def mp_steps\<close>)

lemma mp_neg_head:
  assumes "sint v < 0"
  obtains (fix1) "sint v \<ge> -32" "mp_int_bytes v = [ucast v]"
  | (b1) "sint v \<ge> -128" "mp_int_bytes v = [MP_INT8, ucast v]"
  | (b2) "sint v \<ge> -32768" "mp_int_bytes v = MP_INT16 # store_be16 (ucast v)"
  | (b4) "sint v \<ge> -2147483648" "mp_int_bytes v = MP_INT32 # store_be32 (ucast v)"
  | (b8) "mp_int_bytes v = MP_INT64 # store_be64 v"
proof -
  consider "sint v \<ge> -32" | "\<not> sint v \<ge> -32" "sint v \<ge> -128" | "\<not> sint v \<ge> -32" "\<not> sint v \<ge> -128" "sint v \<ge> -32768"
    | "\<not> sint v \<ge> -32" "\<not> sint v \<ge> -128" "\<not> sint v \<ge> -32768" "sint v \<ge> -2147483648"
    | "\<not> sint v \<ge> -32" "\<not> sint v \<ge> -128" "\<not> sint v \<ge> -32768" "\<not> sint v \<ge> -2147483648"
    by blast
  then show thesis by cases (rule that, (use assms in \<open>simp_all add: mp_int_bytes_def ucast_and_ff\<close>))+
qed

lemma mp_unpack_int64_correct:
  assumes "at r (mp_int_bytes v @ rest)"
  shows "mp_unpack_int64 r = (Some v, adv (length (mp_int_bytes v)) r)"
proof (cases "sint v < 0")
  case False
  then have "mp_int_bytes v = mp_uint_bytes v" by (simp add: mp_int_bytes_def)
  then show ?thesis using assms mp_unpack_int64_uint by simp
next
  case True
  then show ?thesis
  proof (cases rule: mp_neg_head)
    case fix1
    then show ?thesis
      using assms neg_fixint [OF True] s64_small(1) [OF True] neg_fixint_range [of "ucast v"]
      by (simp add: mp_unpack_int64_def mp_steps)
  qed (use assms s64_small [OF True] in \<open>simp_all add: mp_unpack_int64_def mp_steps\<close>)
qed

section \<open>Strings, headers, floats\<close>

lemma fix_headers:
  "\<forall>n\<in>set [0..<32]. (MP_FIXSTR OR word_of_nat n) AND 0xe0 = MP_FIXSTR \<and> unat ((MP_FIXSTR OR word_of_nat n) AND MP_FIXSTR_MASK) = n"
  "\<forall>n\<in>set [0..<16]. (MP_FIXARRAY OR word_of_nat n) AND 0xf0 = MP_FIXARRAY \<and> unat ((MP_FIXARRAY OR word_of_nat n) AND MP_FIXARRAY_MASK) = n"
  "\<forall>n\<in>set [0..<16]. (MP_FIXMAP OR word_of_nat n) AND 0xf0 = MP_FIXMAP \<and> unat ((MP_FIXMAP OR word_of_nat n) AND MP_FIXMAP_MASK) = n"
  by code_simp+

lemma fix_header:
  fixes len :: u32
  shows "len \<le> 0x1f \<Longrightarrow> (MP_FIXSTR OR ucast len) AND 0xe0 = MP_FIXSTR \<and> ucast ((MP_FIXSTR OR ucast len) AND MP_FIXSTR_MASK) = len"
  "len \<le> 0xf \<Longrightarrow> (MP_FIXARRAY OR ucast len) AND 0xf0 = MP_FIXARRAY \<and> ucast ((MP_FIXARRAY OR ucast len) AND MP_FIXARRAY_MASK) = len"
  "len \<le> 0xf \<Longrightarrow> (MP_FIXMAP OR ucast len) AND 0xf0 = MP_FIXMAP \<and> ucast ((MP_FIXMAP OR ucast len) AND MP_FIXMAP_MASK) = len"
proof -
  have u: "ucast len = (word_of_nat (unat len) :: u8)" by (simp add: word_eq_iff_unsigned unat_of_nat unsigned_ucast_eq)
  have cast: "ucast b = len" if "unat (b :: u8) = unat len" for b
    using that unsigned_less [where ?'a = nat and w = len]
    by (simp add: word_unat_eq_iff unsigned_ucast_eq take_bit_nat_eq_self_iff)
  show "len \<le> 0x1f \<Longrightarrow> (MP_FIXSTR OR ucast len) AND 0xe0 = MP_FIXSTR \<and> ucast ((MP_FIXSTR OR ucast len) AND MP_FIXSTR_MASK) = len"
    using fix_headers(1) [rule_format, of "unat len"] unfolding u by (auto intro: cast simp: word_le_nat_alt)
  show "len \<le> 0xf \<Longrightarrow> (MP_FIXARRAY OR ucast len) AND 0xf0 = MP_FIXARRAY \<and> ucast ((MP_FIXARRAY OR ucast len) AND MP_FIXARRAY_MASK) = len"
    using fix_headers(2) [rule_format, of "unat len"] unfolding u by (auto intro: cast simp: word_le_nat_alt)
  show "len \<le> 0xf \<Longrightarrow> (MP_FIXMAP OR ucast len) AND 0xf0 = MP_FIXMAP \<and> ucast ((MP_FIXMAP OR ucast len) AND MP_FIXMAP_MASK) = len"
    using fix_headers(3) [rule_format, of "unat len"] unfolding u by (auto intro: cast simp: word_le_nat_alt)
qed

lemma u32_ucast [simp]:
  fixes v :: u32
  shows "v \<le> 0xff \<Longrightarrow> ucast (ucast v :: u8) = v" "v \<le> 0xffff \<Longrightarrow> ucast (ucast v :: u16) = v"
  by (auto intro!: ucast_ucast_small simp: word_le_nat_alt)

lemma rd_bind_assoc: "rd_bind (rd_bind m f) g = rd_bind m (\<lambda>x. rd_bind (f x) g)"
  by (rule ext) (auto simp: rd_bind_def split: option.splits prod.splits)

lemma at_after:
  "at r (x # y # ys) \<Longrightarrow> at (adv 2 r) ys"
  "at r (x # store_be16 a @ ys) \<Longrightarrow> at (adv 3 r) ys"
  "at r (x # store_be32 b @ ys) \<Longrightarrow> at (adv 5 r) ys"
  "at r (x # store_be64 c @ ys) \<Longrightarrow> at (adv 9 r) ys"
  using at_adv [of r "[x, y]" ys] at_adv [of r "x # store_be16 a" ys] at_adv [of r "x # store_be32 b" ys]
    at_adv [of r "x # store_be64 c" ys]
  by (simp_all add: eval_nat_numeral)

lemma mp_str_head:
  obtains (small) "len \<le> 0x1f" "mp_str_header len = [MP_FIXSTR OR ucast len]"
  | (s1) "len \<le> 0xff" "mp_str_header len = [MP_STR8, ucast len]"
  | (s2) "len \<le> 0xffff" "mp_str_header len = MP_STR16 # store_be16 (ucast len)"
  | (s4) "mp_str_header len = MP_STR32 # store_be32 len"
proof -
  consider "len \<le> 0x1f" | "\<not> len \<le> 0x1f" "len \<le> 0xff" | "\<not> len \<le> 0x1f" "\<not> len \<le> 0xff" "len \<le> 0xffff"
    | "\<not> len \<le> 0x1f" "\<not> len \<le> 0xff" "\<not> len \<le> 0xffff" by blast
  then show thesis by cases (rule that, simp_all add: mp_str_header_def)+
qed

lemma mp_unpack_str_correct:
  assumes at: "at r (mp_str_header len @ s @ rest)" and len: "length s = unat len"
  shows "mp_unpack_str r = (Some s, adv (length (mp_str_header len) + length s) r)"
proof -
  have read: "mp_read_bytes (unat len) r' = (Some s, adv (length s) r')" if "at r' (s @ rest)" for r'
    using mp_read_bytes_at [OF that] len by simp
  show ?thesis
  proof (cases rule: mp_str_head [of len])
    case small
    then have a: "at r ((MP_FIXSTR OR ucast len) # s @ rest)" using at by simp
    show ?thesis using small fix_header(1) [of len] read [OF mp_tagged(2) [OF a]]
      by (simp add: mp_unpack_str_def mp_tagged(1) [OF a])
  next
    case s1
    then have a: "at r (MP_STR8 # ucast len # s @ rest)" using at by simp
    show ?thesis using s1 read [OF at_after(1) [OF a]]
      by (simp add: mp_unpack_str_def rd_bind_assoc mp_tagged(1) [OF a] mp_payload(1) [OF a])
  next
    case s2
    then have a: "at r (MP_STR16 # store_be16 (ucast len) @ s @ rest)" using at by simp
    show ?thesis using s2 read [OF at_after(2) [OF a]]
      by (simp add: mp_unpack_str_def rd_bind_assoc mp_tagged(1) [OF a] mp_payload(2) [OF a])
  next
    case s4
    then have a: "at r (MP_STR32 # store_be32 len @ s @ rest)" using at by simp
    show ?thesis using s4 read [OF at_after(3) [OF a]]
      by (simp add: mp_unpack_str_def rd_bind_assoc mp_tagged(1) [OF a] mp_payload(3) [OF a])
  qed
qed

lemma mp_array_head:
  obtains (small) "len \<le> 0xf" "mp_array_header_bytes len = [MP_FIXARRAY OR ucast len]"
  | (a2) "len \<le> 0xffff" "mp_array_header_bytes len = MP_ARRAY16 # store_be16 (ucast len)"
  | (a4) "mp_array_header_bytes len = MP_ARRAY32 # store_be32 len"
proof -
  consider "len \<le> 0xf" | "\<not> len \<le> 0xf" "len \<le> 0xffff" | "\<not> len \<le> 0xf" "\<not> len \<le> 0xffff" by blast
  then show thesis by cases (rule that, simp_all add: mp_array_header_bytes_def)+
qed

lemma mp_map_head:
  obtains (small) "len \<le> 0xf" "mp_map_header_bytes len = [MP_FIXMAP OR ucast len]"
  | (a2) "len \<le> 0xffff" "mp_map_header_bytes len = MP_MAP16 # store_be16 (ucast len)"
  | (a4) "mp_map_header_bytes len = MP_MAP32 # store_be32 len"
proof -
  consider "len \<le> 0xf" | "\<not> len \<le> 0xf" "len \<le> 0xffff" | "\<not> len \<le> 0xf" "\<not> len \<le> 0xffff" by blast
  then show thesis by cases (rule that, simp_all add: mp_map_header_bytes_def)+
qed

lemma mp_unpack_array_header_correct:
  assumes "at r (mp_array_header_bytes n @ rest)"
  shows "mp_unpack_array_header r = (Some n, adv (length (mp_array_header_bytes n)) r)"
proof (cases rule: mp_array_head [of n])
  case small
  then show ?thesis using assms fix_header(2) [of n] by (simp add: mp_unpack_array_header_def mp_steps)
qed (use assms in \<open>simp_all add: mp_unpack_array_header_def mp_steps\<close>)

lemma mp_unpack_map_header_correct:
  assumes "at r (mp_map_header_bytes n @ rest)"
  shows "mp_unpack_map_header r = (Some n, adv (length (mp_map_header_bytes n)) r)"
proof (cases rule: mp_map_head [of n])
  case small
  then show ?thesis using assms fix_header(3) [of n] by (simp add: mp_unpack_map_header_def mp_steps)
qed (use assms in \<open>simp_all add: mp_unpack_map_header_def mp_steps\<close>)

lemma mp_unpack_float_correct:
  "at r ((MP_FLOAT32 # store_be32 v) @ rest) \<Longrightarrow> mp_unpack_float fc r = (Some v, adv 5 r)"
  by (simp add: mp_unpack_float_def mp_steps)

lemma mp_unpack_double_correct:
  "at r ((MP_FLOAT64 # store_be64 v) @ rest) \<Longrightarrow> mp_unpack_double fc r = (Some v, adv 9 r)"
  by (simp add: mp_unpack_double_def mp_steps)

section \<open>The codecs\<close>

interpretation mp_uint: codec mp_uint_bytes mp_unpack_uint64 "\<lambda>_. True"
  by unfold_locales (rule mp_unpack_uint64_correct)

interpretation mp_int: codec mp_int_bytes mp_unpack_int64 "\<lambda>_. True"
  by unfold_locales (rule mp_unpack_int64_correct)

definition mp_str_bytes :: "bytes \<Rightarrow> bytes" where
  "mp_str_bytes s = mp_str_header (word_of_nat (length s)) @ s"

interpretation mp_str: codec mp_str_bytes mp_unpack_str "\<lambda>s. length s < 2 ^ 32"
proof
  fix s rest :: bytes and r
  assume "length s < 2 ^ 32" and "at r (mp_str_bytes s @ rest)"
  then show "mp_unpack_str r = (Some s, adv (length (mp_str_bytes s)) r)"
    using mp_unpack_str_correct [of r "word_of_nat (length s)" s rest]
    by (simp add: mp_str_bytes_def unat_of_nat take_bit_nat_eq_self)
qed

interpretation mp_array_header: codec mp_array_header_bytes mp_unpack_array_header "\<lambda>_. True"
  by unfold_locales (rule mp_unpack_array_header_correct)

interpretation mp_map_header: codec mp_map_header_bytes mp_unpack_map_header "\<lambda>_. True"
  by unfold_locales (rule mp_unpack_map_header_correct)

section \<open>Skipping stays inside the buffer and ends\<close>

text \<open>The cursor is inside a buffer that fits in memory; it only moves forward, inside the same buffer.\<close>

definition inside :: "reader \<Rightarrow> bool" where
  "inside r \<longleftrightarrow> rd_pos r \<le> rd_len r \<and> rd_len r < 2 ^ 63"

definition moves :: "reader \<Rightarrow> reader \<Rightarrow> bool" where
  "moves r r' \<longleftrightarrow> rd_data r' = rd_data r \<and> rd_pos r \<le> rd_pos r' \<and> rd_pos r' \<le> rd_len r"

lemma moves_refl: "inside r \<Longrightarrow> moves r r"
  by (simp add: moves_def inside_def)

lemma moves_trans: "moves r r' \<Longrightarrow> moves r' r'' \<Longrightarrow> moves r r''"
  by (auto simp: moves_def rd_len_def)

lemma moves_inside: "moves r r' \<Longrightarrow> inside r \<Longrightarrow> inside r'"
  by (auto simp: moves_def inside_def rd_len_def)

lemma inside_size_add: "inside r \<Longrightarrow> n < 2 ^ 63 \<Longrightarrow> size_add (rd_pos r) n = rd_pos r + n"
  by (simp add: inside_def size_add_def)

lemma mp_skip_bytes_moves:
  assumes "inside r" and "n < 2 ^ 63" and "mp_skip_bytes n r = (ok, r')"
  shows "moves r r'"
  using assms inside_size_add [OF assms(1,2)]
  by (auto simp: mp_skip_bytes_def moves_def inside_def rd_len_def split: if_splits)

lemma unat_load: "unat (load_be16 p) < 2 ^ 32" "unat (load_be32 p) < 2 ^ 32" "unat (b :: u8) < 2 ^ 32"
  using unsigned_less [where ?'a = nat and w = "load_be16 p"] unsigned_less [where ?'a = nat and w = "load_be32 p"]
    unsigned_less [where ?'a = nat and w = b] by simp_all

lemma mp_skip_arg_moves:
  assumes "inside r" and "n \<le> 4" and "mp_skip_arg n r = (vo, r')"
  shows "moves r r'" and "vo = Some v \<Longrightarrow> v < 2 ^ 32"
proof -
  have "size_add (rd_pos r) n = rd_pos r + n" by (rule inside_size_add [OF assms(1)]) (use assms(2) in simp)
  then show "moves r r'" using assms
    by (auto simp: mp_skip_arg_def moves_def inside_def rd_len_def Let_def split: if_splits)
  show "vo = Some v \<Longrightarrow> v < 2 ^ 32" using assms(3) unat_load
    by (auto simp: mp_skip_arg_def Let_def split: if_splits)
qed

lemma mp_shape_bounds:
  "mp_shape_of b = Payload n \<Longrightarrow> n < 2 ^ 32" "mp_shape_of b = Prefixed n \<Longrightarrow> n \<le> 4"
  "mp_shape_of b = Counted n k \<Longrightarrow> n \<le> 4"
  using unat_load(3) [of "b AND MP_FIXSTR_MASK"] by (auto simp: mp_shape_of_def split: if_splits)

lemma inside_next: "inside r \<Longrightarrow> rd_pos r < rd_len r \<Longrightarrow> inside (r\<lparr>rd_pos := rd_pos r + 1\<rparr>)"
  by (simp add: inside_def rd_len_def)

lemma mp_skip_moves:
  "inside r \<Longrightarrow> mp_unpack_skip f r = Some (ok, r') \<Longrightarrow> moves r r' \<and> (ok \<longrightarrow> rd_pos r < rd_pos r')"
  "inside r \<Longrightarrow> mp_skip_items f n r = Some (ok, r') \<Longrightarrow> moves r r'"
proof (induction f r and f n r arbitrary: ok r' and ok r' rule: mp_unpack_skip_mp_skip_items.induct)
  case (1 r)
  then show ?case by (simp add: mp_unpack_skip.simps)
next
  case (2 f r)
  show ?case
  proof (cases "rd_pos r \<ge> rd_len r")
    case True
    then show ?thesis using 2 moves_refl by (auto simp: mp_unpack_skip.simps)
  next
    case False
    let ?r1 = "r\<lparr>rd_pos := rd_pos r + 1\<rparr>" and ?b = "rd_data r ! rd_pos r"
    have in1: "inside ?r1" using 2(3) False by (intro inside_next) simp_all
    have "moves ?r1 r'"
    proof (cases "mp_shape_of ?b")
      case Done
      then show ?thesis using 2(4) False moves_refl [OF in1] by (simp add: mp_unpack_skip.simps)
    next
      case (Payload n)
      have "n < 2 ^ 63" using mp_shape_bounds(1) [OF Payload] by simp
      then show ?thesis using 2(4) False Payload mp_skip_bytes_moves [OF in1] by (simp add: mp_unpack_skip.simps)
    next
      case (Prefixed n)
      obtain vo r2 where arg: "mp_skip_arg n ?r1 = (vo, r2)" by (rule prod.exhaust)
      note mv = mp_skip_arg_moves [OF in1 mp_shape_bounds(2) [OF Prefixed] arg]
      show ?thesis
      proof (cases vo)
        case None
        then show ?thesis using 2(4) False Prefixed arg mv(1) by (simp add: mp_unpack_skip.simps)
      next
        case (Some v)
        have "v < 2 ^ 63" using mv(2) [OF Some] by simp
        then have "moves r2 r'" using 2(4) False Prefixed arg Some mp_skip_bytes_moves [OF moves_inside [OF mv(1) in1]]
          by (simp add: mp_unpack_skip.simps)
        then show ?thesis using mv(1) moves_trans by blast
      qed
    next
      case (Items n)
      then show ?thesis using 2(1) [OF False refl Items in1] 2(4) False by (simp add: mp_unpack_skip.simps)
    next
      case (Counted n k)
      obtain vo r2 where arg: "mp_skip_arg n ?r1 = (vo, r2)" by (rule prod.exhaust)
      note mv = mp_skip_arg_moves [OF in1 mp_shape_bounds(3) [OF Counted] arg]
      show ?thesis
      proof (cases vo)
        case None
        then show ?thesis using 2(4) False Counted arg mv(1) by (simp add: mp_unpack_skip.simps)
      next
        case (Some v)
        have "moves r2 r'" using 2 False Counted arg Some moves_inside [OF mv(1) in1]
          by (simp add: mp_unpack_skip.simps)
        then show ?thesis using mv(1) moves_trans by blast
      qed
    next
      case Unknown
      then show ?thesis using 2(4) False moves_refl [OF in1] by (simp add: mp_unpack_skip.simps)
    qed
    then show ?thesis by (auto simp: moves_def rd_len_def)
  qed
next
  case (3 f n r)
  show ?case
  proof (cases "n = 0")
    case True
    then show ?thesis using 3(3,4) moves_refl mp_skip_items.simps [of f n r] by auto
  next
    case False
    then obtain ok1 r1 where skip: "mp_unpack_skip f r = Some (ok1, r1)"
      using 3(4) by (cases "mp_unpack_skip f r") (auto simp: mp_skip_items.simps [of f n r])
    have m1: "moves r r1" using 3(1) [OF False 3(3) skip] by simp
    show ?thesis
    proof (cases ok1)
      case True
      then have "moves r1 r'" using 3(2) [OF False skip refl _ moves_inside [OF m1 3(3)]] 3(4) False skip
        by (simp add: mp_skip_items.simps [of f n r])
      then show ?thesis using m1 moves_trans by blast
    next
      case no: False
      then show ?thesis using 3(4) False skip m1 mp_skip_items.simps [of f n r] by auto
    qed
  qed
qed

lemma mp_skip_terminates:
  "inside r \<Longrightarrow> rd_len r - rd_pos r < f \<Longrightarrow> mp_unpack_skip f r \<noteq> None"
  "inside r \<Longrightarrow> rd_len r - rd_pos r < f \<Longrightarrow> mp_skip_items f n r \<noteq> None"
proof (induction f r and f n r rule: mp_unpack_skip_mp_skip_items.induct)
  case (1 r)
  then show ?case by simp
next
  case (2 f r)
  show ?case
  proof (cases "rd_pos r \<ge> rd_len r")
    case True
    then show ?thesis by (simp add: mp_unpack_skip.simps)
  next
    case False
    let ?r1 = "r\<lparr>rd_pos := rd_pos r + 1\<rparr>" and ?b = "rd_data r ! rd_pos r"
    have in1: "inside ?r1" using 2(3) False by (intro inside_next) simp_all
    have f1: "rd_len ?r1 - rd_pos ?r1 < f" using 2(4) False by (simp add: rd_len_def)
    show ?thesis
    proof (cases "mp_shape_of ?b")
      case (Items n)
      then show ?thesis using 2(1) [OF False refl Items in1 f1] False by (simp add: mp_unpack_skip.simps)
    next
      case (Counted n k)
      obtain vo r2 where arg: "mp_skip_arg n ?r1 = (vo, r2)" by (rule prod.exhaust)
      have mv: "moves ?r1 r2" by (rule mp_skip_arg_moves(1) [OF in1 mp_shape_bounds(3) [OF Counted] arg])
      then have "rd_len r2 - rd_pos r2 < f" using f1 by (auto simp: moves_def rd_len_def)
      then show ?thesis using 2(2) [OF False refl Counted] False Counted arg moves_inside [OF mv in1]
        by (cases vo) (simp_all add: mp_unpack_skip.simps)
    qed (use False in \<open>simp_all add: mp_unpack_skip.simps\<close>)
  qed
next
  case (3 f n r)
  show ?case
  proof (cases "n = 0")
    case False
    then obtain ok1 r1 where skip: "mp_unpack_skip f r = Some (ok1, r1)" using 3(1) [OF False 3(3,4)] by auto
    have m1: "moves r r1" using mp_skip_moves(1) [OF 3(3) skip] by simp
    then have "rd_len r1 - rd_pos r1 < f" using 3(4) by (auto simp: moves_def rd_len_def)
    then show ?thesis using 3(2) [OF False skip refl _ moves_inside [OF m1 3(3)]] False skip
      by (cases ok1) (simp_all add: mp_skip_items.simps [of f n r])
  next
    case True
    then show ?thesis using mp_skip_items.simps [of f n r] by simp
  qed
qed

lemma mp_skip_more_fuel:
  "mp_unpack_skip f r = Some x \<Longrightarrow> mp_unpack_skip (f + k) r = Some x"
  "mp_skip_items f n r = Some x \<Longrightarrow> mp_skip_items (f + k) n r = Some x"
proof (induction f r and f n r arbitrary: x and x rule: mp_unpack_skip_mp_skip_items.induct)
  case (1 r)
  then show ?case by (simp add: mp_unpack_skip.simps)
next
  case (2 f r)
  show ?case
  proof (cases "rd_pos r \<ge> rd_len r")
    case True
    then show ?thesis using 2(3) by (simp add: mp_unpack_skip.simps)
  next
    case False
    let ?r1 = "r\<lparr>rd_pos := rd_pos r + 1\<rparr>" and ?b = "rd_data r ! rd_pos r"
    show ?thesis
    proof (cases "mp_shape_of ?b")
      case (Items n)
      then show ?thesis using 2(1) [OF False refl Items] 2(3) False by (simp add: mp_unpack_skip.simps)
    next
      case (Counted n k)
      then show ?thesis using 2(2) [OF False refl Counted] 2(3) False
        by (cases "mp_skip_arg n ?r1"; cases "fst (mp_skip_arg n ?r1)") (auto simp: mp_unpack_skip.simps)
    qed (use 2(3) False in \<open>simp_all add: mp_unpack_skip.simps\<close>)
  qed
next
  case (3 f n r)
  show ?case
  proof (cases "n = 0")
    case False
    then obtain ok1 r1 where skip: "mp_unpack_skip f r = Some (ok1, r1)"
      using 3(3) by (cases "mp_unpack_skip f r") (auto simp: mp_skip_items.simps [of f n r])
    then show ?thesis using 3(1) [OF False skip] 3(2) [OF False skip refl] 3(3) False
      by (cases ok1) (auto simp: mp_skip_items.simps [of f n r] mp_skip_items.simps [of "f + k" n r])
  next
    case True
    then show ?thesis using 3(3) mp_skip_items.simps [of f n r] mp_skip_items.simps [of "f + k" n r] by simp
  qed
qed

section \<open>Skipping exactly one value\<close>

text \<open>A value of the format; the keys and the values of a map alternate, as they do on the wire.\<close>

datatype mp_value = MNil | MBool bool | MUint u64 | MInt u64 | MFloat u32 | MDouble u64 | MStr bytes
  | MArray "mp_value list" | MMap "mp_value list"

fun mp_enc :: "mp_value \<Rightarrow> bytes" where
  "mp_enc MNil = [MP_NIL]"
| "mp_enc (MBool b) = [if b then MP_TRUE else MP_FALSE]"
| "mp_enc (MUint v) = mp_uint_bytes v"
| "mp_enc (MInt v) = mp_int_bytes v"
| "mp_enc (MFloat v) = MP_FLOAT32 # store_be32 v"
| "mp_enc (MDouble v) = MP_FLOAT64 # store_be64 v"
| "mp_enc (MStr s) = mp_str_bytes s"
| "mp_enc (MArray vs) = mp_array_header_bytes (word_of_nat (length vs)) @ concat (map mp_enc vs)"
| "mp_enc (MMap vs) = mp_map_header_bytes (word_of_nat (length vs div 2)) @ concat (map mp_enc vs)"

fun mp_good :: "mp_value \<Rightarrow> bool" where
  "mp_good (MStr s) = (length s < 2 ^ 32)"
| "mp_good (MArray vs) = (length vs < 2 ^ 32 \<and> list_all mp_good vs)"
| "mp_good (MMap vs) = (length vs < 2 ^ 32 \<and> even (length vs) \<and> list_all mp_good vs)"
| "mp_good v = True"

text \<open>The calls that pack a value.\<close>

fun mp_pack_value :: "sstr \<Rightarrow> mp_value \<Rightarrow> fault + sstr" and mp_pack_values :: "sstr \<Rightarrow> mp_value list \<Rightarrow> fault + sstr" where
  "mp_pack_value out MNil = mp_pack_nil out"
| "mp_pack_value out (MBool b) = mp_pack_bool out b"
| "mp_pack_value out (MUint v) = mp_pack_uint out v"
| "mp_pack_value out (MInt v) = mp_pack_int out v"
| "mp_pack_value out (MFloat v) = mp_pack_float out v"
| "mp_pack_value out (MDouble v) = mp_pack_double out v"
| "mp_pack_value out (MStr s) = mp_pack_sstr out s"
| "mp_pack_value out (MArray vs) =
     bindE (mp_pack_array_header out (word_of_nat (length vs))) (\<lambda>out'. mp_pack_values out' vs)"
| "mp_pack_value out (MMap vs) =
     bindE (mp_pack_map_header out (word_of_nat (length vs div 2))) (\<lambda>out'. mp_pack_values out' vs)"
| "mp_pack_values out [] = Inr out"
| "mp_pack_values out (v # vs) = bindE (mp_pack_value out v) (\<lambda>out'. mp_pack_values out' vs)"

lemma mp_pack_int_eq: "mp_pack_int out v = sstr_append_bytes out (mp_int_bytes v)"
  by (simp add: mp_pack_int_def mp_pack_uint_def mp_int_bytes_def)

definition appends :: "sstr \<Rightarrow> bytes \<Rightarrow> fault + sstr \<Rightarrow> bool" where
  "appends out d res \<longleftrightarrow> (\<exists>s'. res = Inr s' \<and> sstr_ok s' \<and> sstr_bytes s' = sstr_bytes out @ d)"

lemma appends_append: "sstr_ok out \<Longrightarrow> appends out d (sstr_append_bytes out d)"
  by (simp add: appends_def sstr_byte_sink.append_total)

lemma appends_bindE:
  "appends out d res \<Longrightarrow> (\<And>s. res = Inr s \<Longrightarrow> sstr_ok s \<Longrightarrow> appends s e (f s)) \<Longrightarrow> appends out (d @ e) (bindE res f)"
  by (fastforce simp: appends_def bindE_def)

lemma mp_pack_sstr_appends:
  assumes "sstr_ok out" and "length s < 2 ^ 32"
  shows "appends out (mp_str_bytes s) (mp_pack_sstr out s)"
proof -
  have u: "unat (word_of_nat (length s) :: u32) = length s"
    using assms(2) by (simp add: unat_of_nat take_bit_nat_eq_self)
  have z: "(0 :: u32) < word_of_nat (length s) \<longleftrightarrow> s \<noteq> []" using u by (simp add: word_less_nat_alt)
  show ?thesis unfolding mp_pack_sstr_def mp_pack_str_def mp_str_bytes_def
    by (rule appends_bindE [OF appends_append [OF assms(1)]])
      (auto simp: u z appends_append intro: appends_def [THEN iffD2])
qed

lemma mp_pack_value_appends:
  "sstr_ok out \<Longrightarrow> mp_good v \<Longrightarrow> appends out (mp_enc v) (mp_pack_value out v)"
  "sstr_ok out \<Longrightarrow> list_all mp_good vs \<Longrightarrow> appends out (concat (map mp_enc vs)) (mp_pack_values out vs)"
proof (induction out v and out vs rule: mp_pack_value_mp_pack_values.induct)
  case (8 out vs)
  then show ?case by (auto simp: mp_pack_array_header_def intro!: appends_bindE appends_append)
next
  case (9 out vs)
  then show ?case by (auto simp: mp_pack_map_header_def intro!: appends_bindE appends_append)
next
  case (10 out)
  then show ?case by (simp add: appends_def)
next
  case (11 out v vs)
  then show ?case by (auto intro!: appends_bindE)
qed (simp_all add: mp_pack_nil_def mp_pack_bool_def mp_pack_uint_def mp_pack_int_eq mp_pack_float_def
       mp_pack_double_def appends_append mp_pack_sstr_appends)

lemma shape_fix:
  "\<forall>n\<in>set [0..<32]. mp_shape_of (MP_FIXSTR OR word_of_nat n) = Payload n"
  "\<forall>n\<in>set [0..<16]. mp_shape_of (MP_FIXARRAY OR word_of_nat n) = Items n"
  "\<forall>n\<in>set [0..<16]. mp_shape_of (MP_FIXMAP OR word_of_nat n) = Items (2 * n)"
  by code_simp+

lemma mp_shape_fix:
  fixes len :: u32
  shows "len \<le> 0x1f \<Longrightarrow> mp_shape_of (MP_FIXSTR OR ucast len) = Payload (unat len)"
    "len \<le> 0xf \<Longrightarrow> mp_shape_of (MP_FIXARRAY OR ucast len) = Items (unat len)"
    "len \<le> 0xf \<Longrightarrow> mp_shape_of (MP_FIXMAP OR ucast len) = Items (2 * unat len)"
proof -
  have u: "ucast len = (word_of_nat (unat len) :: u8)" by (simp add: word_eq_iff_unsigned unat_of_nat unsigned_ucast_eq)
  show "len \<le> 0x1f \<Longrightarrow> mp_shape_of (MP_FIXSTR OR ucast len) = Payload (unat len)"
    "len \<le> 0xf \<Longrightarrow> mp_shape_of (MP_FIXARRAY OR ucast len) = Items (unat len)"
    "len \<le> 0xf \<Longrightarrow> mp_shape_of (MP_FIXMAP OR ucast len) = Items (2 * unat len)"
    using shape_fix [THEN bspec, of "unat len"] unfolding u by (simp_all add: word_le_nat_alt)
qed

lemma mp_shape_tags:
  "b \<le> 0x7f \<Longrightarrow> mp_shape_of b = Done" "0xe0 \<le> b \<Longrightarrow> mp_shape_of b = Done"
  "mp_shape_of MP_NIL = Done" "mp_shape_of MP_FALSE = Done" "mp_shape_of MP_TRUE = Done"
  "mp_shape_of MP_UINT8 = Payload 1" "mp_shape_of MP_UINT16 = Payload 2"
  "mp_shape_of MP_UINT32 = Payload 4" "mp_shape_of MP_UINT64 = Payload 8"
  "mp_shape_of MP_INT8 = Payload 1" "mp_shape_of MP_INT16 = Payload 2"
  "mp_shape_of MP_INT32 = Payload 4" "mp_shape_of MP_INT64 = Payload 8"
  "mp_shape_of MP_FLOAT32 = Payload 4" "mp_shape_of MP_FLOAT64 = Payload 8"
  "mp_shape_of MP_STR8 = Prefixed 1" "mp_shape_of MP_STR16 = Prefixed 2" "mp_shape_of MP_STR32 = Prefixed 4"
  "mp_shape_of MP_ARRAY16 = Counted 2 1" "mp_shape_of MP_ARRAY32 = Counted 4 1"
  "mp_shape_of MP_MAP16 = Counted 2 2" "mp_shape_of MP_MAP32 = Counted 4 2"
  by (simp_all add: mp_shape_of_def)

lemma mp_skip_bytes_at:
  assumes "at r (xs @ ys)" and "length xs = n"
  shows "mp_skip_bytes n r = (True, adv n r)"
proof -
  have len: "rd_pos r + n + length ys = rd_len r" using at_len [OF assms(1)] assms(2) by simp
  moreover have "n < 2 ^ 63" using len assms(1) by (simp add: at_def)
  ultimately show ?thesis using at_size_add [OF assms(1), of n] by (simp add: mp_skip_bytes_def adv_def)
qed

lemma mp_skip_arg_at:
  "at r (x # ys) \<Longrightarrow> mp_skip_arg 1 r = (Some (unat x), adv 1 r)"
  "at r (store_be16 a @ ys) \<Longrightarrow> mp_skip_arg 2 r = (Some (unat a), adv 2 r)"
  "at r (store_be32 b @ ys) \<Longrightarrow> mp_skip_arg 4 r = (Some (unat b), adv 4 r)"
  using at_size_add [of r "x # ys" 1] at_size_add [of r "store_be16 a @ ys" 2] at_size_add [of r "store_be32 b @ ys" 4]
    at_len [of r "x # ys"] at_len [of r "store_be16 a @ ys"] at_len [of r "store_be32 b @ ys"]
  by (auto simp: mp_skip_arg_def adv_def at_def Let_def)

lemma mp_skip_step:
  "at r (b # bs) \<Longrightarrow> mp_unpack_skip (Suc f) r =
     (case mp_shape_of b of
        Done \<Rightarrow> Some (True, adv 1 r)
      | Payload n \<Rightarrow> Some (mp_skip_bytes n (adv 1 r))
      | Prefixed n \<Rightarrow> Some (case mp_skip_arg n (adv 1 r) of
            (None, r2) \<Rightarrow> (False, r2) | (Some len, r2) \<Rightarrow> mp_skip_bytes len r2)
      | Items n \<Rightarrow> mp_skip_items f n (adv 1 r)
      | Counted n k \<Rightarrow> (case mp_skip_arg n (adv 1 r) of
            (None, r2) \<Rightarrow> Some (False, r2) | (Some c, r2) \<Rightarrow> mp_skip_items f (k * c) r2)
      | Unknown \<Rightarrow> Some (False, adv 1 r))"
  using at_Cons [of r b bs] by (simp add: mp_unpack_skip.simps adv_def Let_def cong: mp_shape.case_cong)

lemma mp_skip_payload:
  assumes "at r (b # xs @ rest)" and "mp_shape_of b = Payload (length xs)"
  shows "mp_unpack_skip (Suc f) r = Some (True, adv (Suc (length xs)) r)"
  using mp_skip_bytes_at [OF at_adv_Cons [OF assms(1)] refl] by (simp add: mp_skip_step [OF assms(1)] assms(2))

lemma mp_skip_uint:
  assumes "at r (mp_uint_bytes v @ rest)"
  shows "mp_unpack_skip (Suc f) r = Some (True, adv (length (mp_uint_bytes v)) r)"
proof (cases rule: mp_uint_head [of v])
  case fix1
  then show ?thesis using assms u64_fixint [of v] by (simp add: mp_skip_step mp_shape_tags(1))
next
  case b1
  then show ?thesis using assms mp_skip_payload [of r MP_UINT8 "[ucast v]" rest] by (simp add: mp_shape_tags)
qed (use assms in \<open>simp_all add: mp_shape_tags mp_skip_payload\<close>)

lemma mp_skip_int:
  assumes "at r (mp_int_bytes v @ rest)"
  shows "mp_unpack_skip (Suc f) r = Some (True, adv (length (mp_int_bytes v)) r)"
proof (cases "sint v < 0")
  case False
  then have "mp_int_bytes v = mp_uint_bytes v" by (simp add: mp_int_bytes_def)
  then show ?thesis using assms mp_skip_uint by simp
next
  case True
  then show ?thesis
  proof (cases rule: mp_neg_head)
    case fix1
    then show ?thesis using assms neg_fixint [OF True] by (simp add: mp_skip_step mp_shape_tags(2))
  next
    case b1
    then show ?thesis using assms mp_skip_payload [of r MP_INT8 "[ucast v]" rest] by (simp add: mp_shape_tags)
  qed (use assms in \<open>simp_all add: mp_shape_tags mp_skip_payload\<close>)
qed

lemma mp_skip_str:
  assumes at: "at r (mp_str_bytes s @ rest)" and len: "length s < 2 ^ 32"
  shows "mp_unpack_skip (Suc f) r = Some (True, adv (length (mp_str_bytes s)) r)"
proof -
  define n :: u32 where "n = word_of_nat (length s)"
  have n: "unat n = length s" using len by (simp add: n_def unat_of_nat take_bit_nat_eq_self)
  have at: "at r (mp_str_header n @ s @ rest)" using at by (simp add: mp_str_bytes_def n_def)
  have goal: "mp_unpack_skip (Suc f) r = Some (True, adv (length (mp_str_header n) + length s) r)"
  proof (cases rule: mp_str_head [of n])
    case small
    then show ?thesis using at mp_skip_payload [of r "MP_FIXSTR OR ucast n" s rest] n by (simp add: mp_shape_fix)
  next
    case s1
    then have a: "at r (MP_STR8 # ucast n # s @ rest)" using at by simp
    have "unat (ucast n :: u8) = length s"
      using s1(1) n by (simp add: unsigned_ucast_eq take_bit_nat_eq_self word_le_nat_alt)
    then show ?thesis using s1 mp_skip_arg_at(1) [OF at_adv_Cons [OF a]] mp_skip_bytes_at [OF at_after(1) [OF a] refl]
      by (simp add: mp_skip_step [OF a] mp_shape_tags numeral_2_eq_2)
  next
    case s2
    then have a: "at r (MP_STR16 # store_be16 (ucast n) @ s @ rest)" using at by simp
    have "unat (ucast n :: u16) = length s"
      using s2(1) n by (simp add: unsigned_ucast_eq take_bit_nat_eq_self word_le_nat_alt)
    then show ?thesis using s2 mp_skip_arg_at(2) [OF at_adv_Cons [OF a]] mp_skip_bytes_at [OF at_after(2) [OF a] refl]
      by (simp add: mp_skip_step [OF a] mp_shape_tags numeral_3_eq_3)
  next
    case s4
    then have a: "at r (MP_STR32 # store_be32 n @ s @ rest)" using at by simp
    show ?thesis using s4 n mp_skip_arg_at(3) [OF at_adv_Cons [OF a]] mp_skip_bytes_at [OF at_after(3) [OF a] refl]
      by (simp add: mp_skip_step [OF a] mp_shape_tags)
  qed
  then show ?thesis by (simp add: mp_str_bytes_def n_def)
qed

lemma mp_skip_array_header:
  assumes at: "at r (mp_array_header_bytes n @ rest)"
  shows "mp_unpack_skip (Suc f) r = mp_skip_items f (unat n) (adv (length (mp_array_header_bytes n)) r)"
proof (cases rule: mp_array_head [of n])
  case small
  then show ?thesis using at by (simp add: mp_skip_step mp_shape_fix)
next
  case a2
  then have a: "at r (MP_ARRAY16 # store_be16 (ucast n) @ rest)" using at by simp
  have "unat (ucast n :: u16) = unat n"
    using a2(1) by (simp add: unsigned_ucast_eq take_bit_nat_eq_self word_le_nat_alt)
  then show ?thesis using a2 mp_skip_arg_at(2) [OF at_adv_Cons [OF a]]
    by (simp add: mp_skip_step [OF a] mp_shape_tags numeral_3_eq_3)
next
  case a4
  then have a: "at r (MP_ARRAY32 # store_be32 n @ rest)" using at by simp
  show ?thesis using a4 mp_skip_arg_at(3) [OF at_adv_Cons [OF a]] by (simp add: mp_skip_step [OF a] mp_shape_tags)
qed

lemma mp_skip_map_header:
  assumes at: "at r (mp_map_header_bytes n @ rest)"
  shows "mp_unpack_skip (Suc f) r = mp_skip_items f (2 * unat n) (adv (length (mp_map_header_bytes n)) r)"
proof (cases rule: mp_map_head [of n])
  case small
  then show ?thesis using at by (simp add: mp_skip_step mp_shape_fix)
next
  case a2
  then have a: "at r (MP_MAP16 # store_be16 (ucast n) @ rest)" using at by simp
  have "unat (ucast n :: u16) = unat n"
    using a2(1) by (simp add: unsigned_ucast_eq take_bit_nat_eq_self word_le_nat_alt)
  then show ?thesis using a2 mp_skip_arg_at(2) [OF at_adv_Cons [OF a]]
    by (simp add: mp_skip_step [OF a] mp_shape_tags numeral_3_eq_3)
next
  case a4
  then have a: "at r (MP_MAP32 # store_be32 n @ rest)" using at by simp
  show ?thesis using a4 mp_skip_arg_at(3) [OF at_adv_Cons [OF a]] by (simp add: mp_skip_step [OF a] mp_shape_tags)
qed


lemma map_count: "length vs < 4294967296 \<Longrightarrow> even (length vs) \<Longrightarrow> 2 * (length vs div 2 mod 4294967296) = length vs"
  by simp

definition skips :: "mp_value \<Rightarrow> bool" where
  "skips v \<longleftrightarrow> (\<forall>r rest. at r (mp_enc v @ rest) \<longrightarrow>
     (\<exists>f. mp_unpack_skip f r = Some (True, adv (length (mp_enc v)) r)))"

lemma mp_skip_items_fuel:
  assumes "\<forall>v\<in>set vs. skips v" and "at r (concat (map mp_enc vs) @ rest)"
  shows "\<exists>f. mp_skip_items f (length vs) r = Some (True, adv (length (concat (map mp_enc vs))) r)"
  using assms
proof (induction vs arbitrary: r)
  case Nil
  then show ?case by (simp add: mp_skip_items.simps [of _ 0])
next
  case (Cons v vs)
  have at: "at r (mp_enc v @ concat (map mp_enc vs) @ rest)" using Cons.prems(2) by simp
  obtain f where f: "mp_unpack_skip f r = Some (True, adv (length (mp_enc v)) r)"
    using Cons.prems(1) at by (auto simp: skips_def)
  obtain g where g: "mp_skip_items g (length vs) (adv (length (mp_enc v)) r)
      = Some (True, adv (length (concat (map mp_enc vs))) (adv (length (mp_enc v)) r))"
    using Cons.IH [OF _ at_adv [OF at]] Cons.prems(1) by auto
  have "mp_skip_items (g + f) (length (v # vs)) r = Some (True, adv (length (concat (map mp_enc (v # vs)))) r)"
    using mp_skip_more_fuel(1) [OF f, of g] mp_skip_more_fuel(2) [OF g, of f]
    by (simp add: mp_skip_items.simps [of _ "Suc (length vs)"] add.commute)
  then show ?case by blast
qed

lemma mp_skip_enc_fuel:
  "mp_good v \<Longrightarrow> at r (mp_enc v @ rest) \<Longrightarrow> \<exists>f. mp_unpack_skip f r = Some (True, adv (length (mp_enc v)) r)"
proof (induction v arbitrary: r rest)
  case (MStr s)
  then show ?case using mp_skip_str by fastforce
next
  case (MUint v)
  then show ?case using mp_skip_uint by fastforce
next
  case (MInt v)
  then show ?case using mp_skip_int by fastforce
next
  case (MArray vs)
  let ?h = "mp_array_header_bytes (word_of_nat (length vs))"
  have at: "at r (?h @ concat (map mp_enc vs) @ rest)" using MArray.prems(2) by simp
  have el: "\<forall>v\<in>set vs. skips v" using MArray.IH MArray.prems(1) by (auto simp: list_all_iff skips_def)
  obtain f where "mp_skip_items f (length vs) (adv (length ?h) r)
      = Some (True, adv (length (concat (map mp_enc vs))) (adv (length ?h) r))"
    using mp_skip_items_fuel [OF el at_adv [OF at]] by blast
  then have "mp_unpack_skip (Suc f) r = Some (True, adv (length (mp_enc (MArray vs))) r)"
    using mp_skip_array_header [OF at, of f] MArray.prems(1) by (simp add: unat_word_of_nat)
  then show ?case by blast
next
  case (MMap vs)
  let ?h = "mp_map_header_bytes (word_of_nat (length vs div 2))"
  have at: "at r (?h @ concat (map mp_enc vs) @ rest)" using MMap.prems(2) by simp
  have el: "\<forall>v\<in>set vs. skips v" using MMap.IH MMap.prems(1) by (auto simp: list_all_iff skips_def)
  obtain f where "mp_skip_items f (length vs) (adv (length ?h) r)
      = Some (True, adv (length (concat (map mp_enc vs))) (adv (length ?h) r))"
    using mp_skip_items_fuel [OF el at_adv [OF at]] by blast
  then have "mp_unpack_skip (Suc f) r = Some (True, adv (length (mp_enc (MMap vs))) r)"
    using mp_skip_map_header [OF at, of f] MMap.prems(1) map_count [of vs] by (simp add: unat_word_of_nat)
  then show ?case by blast
next
  case (MFloat v)
  then show ?case using mp_skip_payload [of r MP_FLOAT32 "store_be32 v" rest] by (auto simp: mp_shape_tags)
next
  case (MDouble v)
  then show ?case using mp_skip_payload [of r MP_FLOAT64 "store_be64 v" rest] by (auto simp: mp_shape_tags)
next
  case MNil
  then have "mp_unpack_skip (Suc 0) r = Some (True, adv 1 r)" by (simp add: mp_skip_step mp_shape_tags)
  then show ?case by auto
next
  case (MBool b)
  then have "mp_unpack_skip (Suc 0) r = Some (True, adv 1 r)" by (cases b) (simp_all add: mp_skip_step mp_shape_tags)
  then show ?case by auto
qed

lemma mp_skip_enc:
  assumes "mp_good v" and at: "at r (mp_enc v @ rest)" and fuel: "length (mp_enc v @ rest) < f"
  shows "mp_unpack_skip f r = Some (True, adv (length (mp_enc v)) r)"
proof -
  obtain g where g: "mp_unpack_skip g r = Some (True, adv (length (mp_enc v)) r)"
    using mp_skip_enc_fuel [OF assms(1,2)] by blast
  have "inside r" using at by (simp add: inside_def at_def)
  moreover have "rd_len r - rd_pos r < f" using at_len [OF at] fuel by simp
  ultimately obtain x where x: "mp_unpack_skip f r = Some x" using mp_skip_terminates(1) by blast
  have "mp_unpack_skip (f + g) r = Some x" by (rule mp_skip_more_fuel(1) [OF x])
  moreover have "mp_unpack_skip (f + g) r = Some (True, adv (length (mp_enc v)) r)"
    using mp_skip_more_fuel(1) [OF g, of f] by (simp add: add.commute)
  ultimately show ?thesis using x by simp
qed

section \<open>Properties\<close>

lemma appendsE:
  assumes "appends out d res"
  obtains s' where "res = Inr s'" "sstr_ok s'" "sstr_bytes s' = sstr_bytes out @ d"
  using assms by (auto simp: appends_def)

text \<open>The cursor at the byte where a call on \<open>out\<close> started to write, in the string it wrote.\<close>

definition reader_at :: "sstr \<Rightarrow> sstr \<Rightarrow> reader" where
  "reader_at out s = \<lparr>rd_data = sstr_bytes s, rd_pos = length (sstr_bytes out)\<rparr>"

lemma reader_at_at:
  "sstr_bytes s = sstr_bytes out @ d \<Longrightarrow> length (sstr_bytes out) + length d < 2 ^ 63 \<Longrightarrow> at (reader_at out s) (d @ [])"
  "sstr_bytes s = sstr_bytes out @ d \<Longrightarrow> adv (length d) (reader_at out s) = reader_at s s"
  by (simp_all add: reader_at_def at_def rd_len_def adv_def)

definition mp_unpack_int_array :: "u64 list decoder" where
  "mp_unpack_int_array = rd_bind mp_unpack_array_header (\<lambda>n. rd_times (unat n) mp_unpack_int64)"

text \<open>
  An array of signed 64-bit integers packed after whatever a valid string already holds is read back
  by the header reader and one integer reader per element: every value comes back (each width of the format
  included), and the cursor ends where the packed bytes end.
\<close>

theorem mp_int_array_roundtrip:
  assumes "sstr_ok out" and "length vs < 2 ^ 32"
    and "length (sstr_bytes out) + length (mp_enc (MArray (map MInt vs))) < 2 ^ 63"
  shows "\<exists>out'. mp_pack_value out (MArray (map MInt vs)) = Inr out'
    \<and> mp_unpack_int_array (reader_at out out') = (Some vs, reader_at out' out')"
proof -
  let ?h = "mp_array_header_bytes (word_of_nat (length vs))" and ?b = "concat (map mp_int_bytes vs)"
  have enc: "mp_enc (MArray (map MInt vs)) = ?h @ ?b" by (simp add: o_def)
  have "mp_good (MArray (map MInt vs))" using assms(2) by (simp add: list_all_iff)
  then obtain out' where o: "mp_pack_value out (MArray (map MInt vs)) = Inr out'" "sstr_bytes out' = sstr_bytes out @ ?h @ ?b"
    using mp_pack_value_appends(1) [OF assms(1)] enc by (metis appendsE)
  have at: "at (reader_at out out') (?h @ ?b @ [])" using reader_at_at(1) [OF o(2)] assms(3) enc by simp
  have "mp_unpack_int_array (reader_at out out')
      = rd_times (length vs) mp_unpack_int64 (adv (length ?h) (reader_at out out'))"
    using mp_array_header.dec_enc [OF TrueI at] assms(2)
    by (simp add: mp_unpack_int_array_def rd_bind_def unat_word_of_nat)
  also have "\<dots> = (Some vs, reader_at out' out')"
    using mp_int.dec_all [of vs, OF _ at_adv [OF at]] reader_at_at(2) [OF o(2)] by (simp add: list_all_iff)
  finally show ?thesis using o(1) by blast
qed

lemma mp_int_array_roundtrip_witness:
  "\<exists>out'. mp_pack_value sstr_new (MArray (map MInt [5, - 32, - 200, 70000])) = Inr out'
    \<and> mp_unpack_int_array (reader_at sstr_new out') = (Some [5, - 32, - 200, 70000], reader_at out' out')"
  using mp_int_array_roundtrip [of sstr_new "[5, - 32, - 200, 70000]"]
  by (simp add: sstr_bytes_def mp_array_header_bytes_def mp_int_bytes_def mp_uint_bytes_def)

text \<open>
  A string of any bytes, NUL included, and of any length below \<open>2 ^ 32\<close>, packed after whatever a valid
  string already holds is read back unchanged, and the cursor ends after it.
\<close>

theorem mp_str_roundtrip:
  assumes "sstr_ok out" and "length s < 2 ^ 32" and "length (sstr_bytes out) < 2 ^ 62"
  shows "\<exists>out'. mp_pack_sstr out s = Inr out' \<and> mp_unpack_str (reader_at out out') = (Some s, reader_at out' out')"
proof -
  obtain out' where o: "mp_pack_sstr out s = Inr out'" "sstr_bytes out' = sstr_bytes out @ mp_str_bytes s"
    using mp_pack_sstr_appends [OF assms(1,2)] by (auto simp: appends_def)
  have "length (mp_str_bytes s) \<le> 5 + length s"
    by (cases rule: mp_str_head [of "word_of_nat (length s)"]) (simp_all add: mp_str_bytes_def)
  then show ?thesis using mp_str.dec_enc [OF _ reader_at_at(1) [OF o(2)]] reader_at_at(2) [OF o(2)] assms(2,3) o(1) by simp
qed

lemma mp_str_roundtrip_witness:
  "\<exists>out'. mp_pack_sstr sstr_new [104, 0, 255] = Inr out'
    \<and> mp_unpack_str (reader_at sstr_new out') = (Some [104, 0, 255], reader_at out' out')"
  using mp_str_roundtrip [of sstr_new "[104, 0, 255]"] by (simp add: sstr_bytes_def)

text \<open>
  C35. Skipping consumes exactly one value: after packing any value - nested arrays and maps included - into a
  valid string, \<open>mp_unpack_skip\<close> started at its first byte succeeds and ends right behind its last byte.
\<close>

theorem mp_skip_packed:
  assumes "sstr_ok out" and "mp_good v" and "length (sstr_bytes out) + length (mp_enc v) < 2 ^ 63"
    and "length (mp_enc v) < fuel"
  shows "\<exists>out'. mp_pack_value out v = Inr out'
    \<and> mp_unpack_skip fuel (reader_at out out') = Some (True, reader_at out' out')"
proof -
  obtain out' where o: "mp_pack_value out v = Inr out'" "sstr_bytes out' = sstr_bytes out @ mp_enc v"
    using mp_pack_value_appends(1) [OF assms(1,2)] by (auto simp: appends_def)
  then show ?thesis
    using mp_skip_enc [OF assms(2) reader_at_at(1) [OF o(2) assms(3)]] reader_at_at(2) [OF o(2)] assms(4) by simp
qed

lemma mp_skip_packed_witness:
  "\<exists>out'. mp_pack_value sstr_new (MMap [MStr [97], MArray [MNil, MInt (- 1)]]) = Inr out'
    \<and> mp_unpack_skip 9 (reader_at sstr_new out') = Some (True, reader_at out' out')"
  using mp_skip_packed [of sstr_new "MMap [MStr [97], MArray [MNil, MInt (- 1)]]" 9]
  by (simp add: sstr_bytes_def mp_map_header_bytes_def mp_array_header_bytes_def mp_int_bytes_def
      mp_str_bytes_def mp_str_header_def)

text \<open>
  C36. Whatever bytes the buffer holds, \<open>mp_unpack_skip\<close> returns (a recursion depth of one more than the bytes
  left is enough), never reads or ends outside the buffer, and moves forward when it succeeds.
\<close>

theorem mp_skip_safe:
  assumes "rd_pos r \<le> rd_len r" and "rd_len r < 2 ^ 63" and "rd_len r - rd_pos r < fuel"
  shows "\<exists>ok r'. mp_unpack_skip fuel r = Some (ok, r') \<and> rd_data r' = rd_data r
    \<and> rd_pos r \<le> rd_pos r' \<and> rd_pos r' \<le> rd_len r \<and> (ok \<longrightarrow> rd_pos r < rd_pos r')"
proof -
  have "inside r" using assms by (simp add: inside_def)
  then show ?thesis using mp_skip_terminates(1) [OF _ assms(3)] mp_skip_moves(1) [of r fuel]
    by (cases "mp_unpack_skip fuel r") (auto simp: moves_def)
qed

lemma mp_skip_safe_witness:
  "\<exists>ok r'. mp_unpack_skip 4 \<lparr>rd_data = [0x92, 0xdb, 0xff], rd_pos = 0\<rparr> = Some (ok, r') \<and> rd_pos r' \<le> 3"
  using mp_skip_safe [of "\<lparr>rd_data = [0x92, 0xdb, 0xff], rd_pos = 0\<rparr>" 4] by (auto simp: rd_len_def)

text \<open>The numeric helpers look at a byte that is not there when the buffer is used up.\<close>

lemma mp_number_as_int64_at_end:
  "rd_pos r = rd_len r \<Longrightarrow> mp_unpack_number_as_int64 fc r = Inl Out_of_bounds"
  by (simp add: mp_unpack_number_as_int64_def)

end
