(* ===== verification/Cbor.thy ===== *)
theory Cbor
  imports Msgpack
begin

text \<open>
  The CBOR runtime that is embedded into generated code (\<open>src/gencode/codes/cbor_codec.c\<close>): packing into a
  string, unpacking from a cursor, and skipping a data item. The source repeats the byte-order helpers of
  the MessagePack runtime; here both use those of \<open>Reader\<close>.
\<close>

section \<open>Format constants\<close>

abbreviation CB_MAJOR_UINT :: u8 where "CB_MAJOR_UINT \<equiv> 0"
abbreviation CB_MAJOR_NINT :: u8 where "CB_MAJOR_NINT \<equiv> 1"
abbreviation CB_MAJOR_BSTR :: u8 where "CB_MAJOR_BSTR \<equiv> 2"
abbreviation CB_MAJOR_TSTR :: u8 where "CB_MAJOR_TSTR \<equiv> 3"
abbreviation CB_MAJOR_ARRAY :: u8 where "CB_MAJOR_ARRAY \<equiv> 4"
abbreviation CB_MAJOR_MAP :: u8 where "CB_MAJOR_MAP \<equiv> 5"
abbreviation CB_MAJOR_TAG :: u8 where "CB_MAJOR_TAG \<equiv> 6"
abbreviation CB_MAJOR_SIMPLE :: u8 where "CB_MAJOR_SIMPLE \<equiv> 7"
abbreviation CB_AI_1BYTE :: u8 where "CB_AI_1BYTE \<equiv> 24"
abbreviation CB_AI_2BYTE :: u8 where "CB_AI_2BYTE \<equiv> 25"
abbreviation CB_AI_4BYTE :: u8 where "CB_AI_4BYTE \<equiv> 26"
abbreviation CB_AI_8BYTE :: u8 where "CB_AI_8BYTE \<equiv> 27"

definition CB_INITIAL :: "u8 \<Rightarrow> u8 \<Rightarrow> u8" where
  "CB_INITIAL major ai = push_bit 5 major OR ai"

abbreviation CB_FALSE :: u8 where "CB_FALSE \<equiv> 0xf4"
abbreviation CB_TRUE :: u8 where "CB_TRUE \<equiv> 0xf5"
abbreviation CB_NULL :: u8 where "CB_NULL \<equiv> 0xf6"
abbreviation CB_FLOAT32 :: u8 where "CB_FLOAT32 \<equiv> 0xfa"
abbreviation CB_FLOAT64 :: u8 where "CB_FLOAT64 \<equiv> 0xfb"

lemma cb_simple_values:
  "CB_INITIAL CB_MAJOR_SIMPLE 20 = CB_FALSE" "CB_INITIAL CB_MAJOR_SIMPLE 21 = CB_TRUE"
  "CB_INITIAL CB_MAJOR_SIMPLE 22 = CB_NULL" "CB_INITIAL CB_MAJOR_SIMPLE 26 = CB_FLOAT32"
  "CB_INITIAL CB_MAJOR_SIMPLE 27 = CB_FLOAT64"
  by code_simp+

section \<open>Packing\<close>

definition cb_head_bytes :: "u8 \<Rightarrow> u64 \<Rightarrow> bytes" where
  "cb_head_bytes major val =
     (let hdr = push_bit 5 major
      in if val \<le> 23 then [hdr OR ucast val]
         else if val \<le> 0xff then [hdr OR CB_AI_1BYTE, ucast val]
         else if val \<le> 0xffff then (hdr OR CB_AI_2BYTE) # store_be16 (ucast val)
         else if val \<le> 0xffffffff then (hdr OR CB_AI_4BYTE) # store_be32 (ucast val)
         else (hdr OR CB_AI_8BYTE) # store_be64 val)"

definition cb_encode_head :: "sstr \<Rightarrow> u8 \<Rightarrow> u64 \<Rightarrow> fault + sstr" where
  "cb_encode_head out major val = sstr_append_bytes out (cb_head_bytes major val)"

definition cb_pack_nil :: "sstr \<Rightarrow> fault + sstr" where
  "cb_pack_nil out = sstr_append_bytes out [CB_NULL]"

definition cb_pack_bool :: "sstr \<Rightarrow> bool \<Rightarrow> fault + sstr" where
  "cb_pack_bool out v = sstr_append_bytes out [if v then CB_TRUE else CB_FALSE]"

definition cb_pack_uint :: "sstr \<Rightarrow> u64 \<Rightarrow> fault + sstr" where
  "cb_pack_uint out v = cb_encode_head out CB_MAJOR_UINT v"

definition cb_pack_int :: "sstr \<Rightarrow> u64 \<Rightarrow> fault + sstr" where
  "cb_pack_int out v =
     (if sint v \<ge> 0 then cb_encode_head out CB_MAJOR_UINT v
      else cb_encode_head out CB_MAJOR_NINT (- (v + 1)))"

definition cb_pack_float :: "sstr \<Rightarrow> u32 \<Rightarrow> fault + sstr" where
  "cb_pack_float out v = sstr_append_bytes out (CB_FLOAT32 # store_be32 v)"

definition cb_pack_double :: "sstr \<Rightarrow> u64 \<Rightarrow> fault + sstr" where
  "cb_pack_double out v = sstr_append_bytes out (CB_FLOAT64 # store_be64 v)"

definition cb_pack_str :: "sstr \<Rightarrow> bytes \<Rightarrow> u32 \<Rightarrow> fault + sstr" where
  "cb_pack_str out s len =
     bindE (cb_encode_head out CB_MAJOR_TSTR (ucast len)) (\<lambda>out'.
       if len > 0 then
         (if unat len \<le> length s then sstr_append_bytes out' (take (unat len) s) else Inl Out_of_bounds)
       else Inr out')"

definition cb_pack_sstr :: "sstr \<Rightarrow> bytes \<Rightarrow> fault + sstr" where
  "cb_pack_sstr out s = cb_pack_str out s (word_of_nat (length s))"

definition cb_pack_array_header :: "sstr \<Rightarrow> u32 \<Rightarrow> fault + sstr" where
  "cb_pack_array_header out cnt = cb_encode_head out CB_MAJOR_ARRAY (ucast cnt)"

definition cb_pack_map_header :: "sstr \<Rightarrow> u32 \<Rightarrow> fault + sstr" where
  "cb_pack_map_header out cnt = cb_encode_head out CB_MAJOR_MAP (ucast cnt)"

section \<open>Unpacking\<close>

definition cb_reader_init :: "bytes option \<Rightarrow> nat \<Rightarrow> reader option" where
  "cb_reader_init data len =
     (case data of
        None \<Rightarrow> if len > 0 then None else Some \<lparr>rd_data = [], rd_pos = 0\<rparr>
      | Some d \<Rightarrow> Some \<lparr>rd_data = take len d, rd_pos = 0\<rparr>)"

definition cb_peek :: "reader \<Rightarrow> int" where
  "cb_peek r = (if rd_pos r \<ge> rd_len r then -1 else uint (rd_data r ! rd_pos r))"

definition cb_read_bytes :: "nat \<Rightarrow> bytes decoder" where
  "cb_read_bytes n r =
     (if size_add (rd_pos r) n > rd_len r then (None, r)
      else (Some (take n (drop (rd_pos r) (rd_data r))), r\<lparr>rd_pos := size_add (rd_pos r) n\<rparr>))"

text \<open>
  The argument that follows the initial byte is read with the same guarded step that \<open>cb_read_bytes\<close> is.
\<close>

definition cb_decode_head :: "(u8 \<times> u64) decoder" where
  "cb_decode_head r =
     (if rd_pos r \<ge> rd_len r then (None, r)
      else (let ib = rd_data r ! rd_pos r; r1 = r\<lparr>rd_pos := rd_pos r + 1\<rparr>;
                major = drop_bit 5 ib AND 0x07; ai = ib AND 0x1f
            in if ai \<le> 23 then (Some (major, ucast ai), r1)
               else if ai = CB_AI_1BYTE then rd_bind (cb_read_bytes 1) (\<lambda>p. rd_return (major, ucast (p ! 0))) r1
               else if ai = CB_AI_2BYTE then rd_bind (cb_read_bytes 2) (\<lambda>p. rd_return (major, ucast (load_be16 p))) r1
               else if ai = CB_AI_4BYTE then rd_bind (cb_read_bytes 4) (\<lambda>p. rd_return (major, ucast (load_be32 p))) r1
               else if ai = CB_AI_8BYTE then rd_bind (cb_read_bytes 8) (\<lambda>p. rd_return (major, load_be64 p)) r1
               else (None, r1)))"

text \<open>\<open>r->pos = save; return -1\<close>.\<close>

definition cb_restore :: "nat \<Rightarrow> 'a decoder" where
  "cb_restore save r = (None, r\<lparr>rd_pos := save\<rparr>)"

definition cb_unpack_nil :: "unit decoder" where
  "cb_unpack_nil r =
     (if rd_pos r \<ge> rd_len r \<or> rd_data r ! rd_pos r \<noteq> CB_NULL then (None, r)
      else (Some (), r\<lparr>rd_pos := rd_pos r + 1\<rparr>))"

definition cb_unpack_bool :: "bool decoder" where
  "cb_unpack_bool r =
     (if rd_pos r \<ge> rd_len r then (None, r)
      else if rd_data r ! rd_pos r = CB_TRUE then (Some True, r\<lparr>rd_pos := rd_pos r + 1\<rparr>)
      else if rd_data r ! rd_pos r = CB_FALSE then (Some False, r\<lparr>rd_pos := rd_pos r + 1\<rparr>)
      else (None, r))"

definition cb_unpack_uint64 :: "u64 decoder" where
  "cb_unpack_uint64 r = rd_bind cb_decode_head (\<lambda>(major, val).
     if major = CB_MAJOR_UINT then rd_return val else cb_restore (rd_pos r)) r"

definition cb_unpack_int64 :: "u64 decoder" where
  "cb_unpack_int64 r = rd_bind cb_decode_head (\<lambda>(major, val).
     if major = CB_MAJOR_UINT then
       (if val > 0x7fffffffffffffff then cb_restore (rd_pos r) else rd_return val)
     else if major = CB_MAJOR_NINT then
       (if val > 0x7fffffffffffffff then cb_restore (rd_pos r) else rd_return (-1 - val))
     else cb_restore (rd_pos r)) r"

definition cb_unpack_float :: "float_conv \<Rightarrow> u32 decoder" where
  "cb_unpack_float fc r =
     (if rd_pos r \<ge> rd_len r then (None, r)
      else (let ib = rd_data r ! rd_pos r; r1 = r\<lparr>rd_pos := rd_pos r + 1\<rparr>
            in if ib = CB_FLOAT32 then rd_bind (cb_read_bytes 4) (\<lambda>p. rd_return (load_be32 p)) r1
               else if ib = CB_FLOAT64 then rd_bind (cb_read_bytes 8) (\<lambda>p. rd_return (d_to_f fc (load_be64 p))) r1
               else (None, r)))"

definition cb_unpack_double :: "float_conv \<Rightarrow> u64 decoder" where
  "cb_unpack_double fc r =
     (if rd_pos r \<ge> rd_len r then (None, r)
      else (let ib = rd_data r ! rd_pos r; r1 = r\<lparr>rd_pos := rd_pos r + 1\<rparr>
            in if ib = CB_FLOAT64 then rd_bind (cb_read_bytes 8) (\<lambda>p. rd_return (load_be64 p)) r1
               else if ib = CB_FLOAT32 then rd_bind (cb_read_bytes 4) (\<lambda>p. rd_return (f_to_d fc (load_be32 p))) r1
               else rd_bind cb_decode_head (\<lambda>(major, val).
                      if major = CB_MAJOR_UINT then rd_return (u64_to_d fc val)
                      else if major = CB_MAJOR_NINT then rd_return (minus_one_minus fc (u64_to_d fc val))
                      else cb_restore (rd_pos r)) r))"

text \<open>The result is the \<open>out_len\<close> bytes behind the pointer; the cursor moves by the full length.\<close>

definition cb_unpack_str :: "bytes decoder" where
  "cb_unpack_str r = rd_bind cb_decode_head (\<lambda>(major, val) r1.
     if major \<noteq> CB_MAJOR_TSTR then cb_restore (rd_pos r) r1
     else if unat val > rd_len r1 - rd_pos r1 then cb_restore (rd_pos r) r1
     else (Some (take (unat (ucast val :: u32)) (drop (rd_pos r1) (rd_data r1))),
           r1\<lparr>rd_pos := rd_pos r1 + unat val\<rparr>)) r"

definition cb_unpack_array_header :: "u32 decoder" where
  "cb_unpack_array_header r = rd_bind cb_decode_head (\<lambda>(major, val).
     if major \<noteq> CB_MAJOR_ARRAY then cb_restore (rd_pos r) else rd_return (ucast val)) r"

definition cb_unpack_map_header :: "u32 decoder" where
  "cb_unpack_map_header r = rd_bind cb_decode_head (\<lambda>(major, val).
     if major \<noteq> CB_MAJOR_MAP then cb_restore (rd_pos r) else rd_return (ucast val)) r"

definition cb_unpack_number_as_int64 :: "float_conv \<Rightarrow> u64 decoder" where
  "cb_unpack_number_as_int64 fc r =
     (if rd_pos r \<ge> rd_len r then (None, r)
      else (let ib = rd_data r ! rd_pos r
            in if ib = CB_FLOAT32 \<or> ib = CB_FLOAT64
               then rd_bind (cb_unpack_double fc) (\<lambda>d. rd_return (d_to_i64 fc d)) r
               else cb_unpack_int64 r))"

definition cb_unpack_number_as_uint64 :: "float_conv \<Rightarrow> u64 decoder" where
  "cb_unpack_number_as_uint64 fc r =
     (if rd_pos r \<ge> rd_len r then (None, r)
      else (let ib = rd_data r ! rd_pos r
            in if ib = CB_FLOAT32 \<or> ib = CB_FLOAT64
               then rd_bind (cb_unpack_double fc) (\<lambda>d. rd_return (d_to_u64 fc d)) r
               else cb_unpack_uint64 r))"

definition cb_unpack_number_as_double :: "float_conv \<Rightarrow> u64 decoder" where
  "cb_unpack_number_as_double fc = cb_unpack_double fc"

section \<open>Skipping a data item\<close>

text \<open>
  \<open>cb_unpack_skip\<close> recurses on the elements of arrays and maps and on tagged content. The first argument
  bounds the depth of that recursion (\<open>None\<close> when it is exceeded); the boolean is the code's success. The
  position of the cursor is a \<open>size_t\<close> and the length it is moved by any 64-bit number, so their sum wraps.
\<close>

definition cb_skip_bytes :: "u64 \<Rightarrow> reader \<Rightarrow> bool \<times> reader" where
  "cb_skip_bytes val r = (if size_add (rd_pos r) (unat val) > rd_len r then (False, r)
     else (True, r\<lparr>rd_pos := size_add (rd_pos r) (unat val)\<rparr>))"

function (sequential) cb_unpack_skip :: "nat \<Rightarrow> reader \<Rightarrow> (bool \<times> reader) option"
  and cb_skip_items :: "nat \<Rightarrow> nat \<Rightarrow> reader \<Rightarrow> (bool \<times> reader) option" where
  "cb_unpack_skip 0 r = None"
| "cb_unpack_skip (Suc fuel) r =
     (case cb_decode_head r of
        (None, r1) \<Rightarrow> Some (False, r1)
      | (Some (major, val), r1) \<Rightarrow>
          if major = CB_MAJOR_UINT \<or> major = CB_MAJOR_NINT then Some (True, r1)
          else if major = CB_MAJOR_BSTR \<or> major = CB_MAJOR_TSTR then Some (cb_skip_bytes val r1)
          else if major = CB_MAJOR_ARRAY then cb_skip_items fuel (unat val) r1
          else if major = CB_MAJOR_MAP then cb_skip_items fuel (2 * unat val) r1
          else if major = CB_MAJOR_TAG then cb_unpack_skip fuel r1
          else if major = CB_MAJOR_SIMPLE then Some (True, r1)
          else Some (False, r1))"
| "cb_skip_items fuel n r =
     (if n = 0 then Some (True, r)
      else case cb_unpack_skip fuel r of
             None \<Rightarrow> None
           | Some (False, r') \<Rightarrow> Some (False, r')
           | Some (True, r') \<Rightarrow> cb_skip_items fuel (n - 1) r')"
  by pat_completeness auto
termination
  by (relation "measures [\<lambda>x. case x of Inl (f, r) \<Rightarrow> f | Inr (f, n, r) \<Rightarrow> f,
        \<lambda>x. case x of Inl (f, r) \<Rightarrow> 0 | Inr (f, n, r) \<Rightarrow> Suc n]") auto

declare cb_unpack_skip.simps [simp del] cb_skip_items.simps [simp del]

section \<open>The initial byte and its argument\<close>

lemma cb_heads:
  "\<forall>m\<in>set [0..<8]. \<forall>a\<in>set [0..<32]. drop_bit 5 (push_bit 5 (word_of_nat m) OR word_of_nat a :: u8) AND 0x07 = word_of_nat m
     \<and> (push_bit 5 (word_of_nat m) OR word_of_nat a :: u8) AND 0x1f = word_of_nat a"
  by code_simp

lemma cb_head_split:
  fixes m a :: u8
  assumes "m < 8" and "a < 32"
  shows "drop_bit 5 (push_bit 5 m OR a) AND 0x07 = m" "(push_bit 5 m OR a) AND 0x1f = a"
  using cb_heads [rule_format, of "unat m" "unat a"] assms by (simp_all add: word_less_nat_alt)

lemma cb_read_bytes_at: "at r (xs @ ys) \<Longrightarrow> length xs = n \<Longrightarrow> cb_read_bytes n r = (Some xs, adv n r)"
  using mp_read_bytes_at [of r xs ys n] by (simp add: cb_read_bytes_def mp_read_bytes_def)

lemma cb_decode_head_at:
  "at r (b # bs) \<Longrightarrow> cb_decode_head r =
     (let major = drop_bit 5 b AND 0x07; ai = b AND 0x1f
      in if ai \<le> 23 then (Some (major, ucast ai), adv 1 r)
         else if ai = CB_AI_1BYTE then rd_bind (cb_read_bytes 1) (\<lambda>p. rd_return (major, ucast (p ! 0))) (adv 1 r)
         else if ai = CB_AI_2BYTE then rd_bind (cb_read_bytes 2) (\<lambda>p. rd_return (major, ucast (load_be16 p))) (adv 1 r)
         else if ai = CB_AI_4BYTE then rd_bind (cb_read_bytes 4) (\<lambda>p. rd_return (major, ucast (load_be32 p))) (adv 1 r)
         else if ai = CB_AI_8BYTE then rd_bind (cb_read_bytes 8) (\<lambda>p. rd_return (major, load_be64 p)) (adv 1 r)
         else (None, adv 1 r))"
  using at_Cons [of r b bs] by (simp add: cb_decode_head_def adv_def Let_def)

lemma cb_decode_arg:
  "at r (x # y # ys) \<Longrightarrow> rd_bind (cb_read_bytes (Suc 0)) h (adv (Suc 0) r) = h [y] (adv 2 r)"
  "at r (x # store_be16 a @ ys) \<Longrightarrow> rd_bind (cb_read_bytes 2) h (adv (Suc 0) r) = h (store_be16 a) (adv 3 r)"
  "at r (x # store_be32 b @ ys) \<Longrightarrow> rd_bind (cb_read_bytes 4) h (adv (Suc 0) r) = h (store_be32 b) (adv 5 r)"
  "at r (x # store_be64 c @ ys) \<Longrightarrow> rd_bind (cb_read_bytes 8) h (adv (Suc 0) r) = h (store_be64 c) (adv 9 r)"
proof -
  show "at r (x # y # ys) \<Longrightarrow> rd_bind (cb_read_bytes (Suc 0)) h (adv (Suc 0) r) = h [y] (adv 2 r)"
    using cb_read_bytes_at [of "adv (Suc 0) r" "[y]" ys "Suc 0"] mp_tagged(2) [of r x "y # ys"]
    by (simp add: rd_bind_def numeral_2_eq_2)
qed (drule mp_tagged(2), simp add: rd_bind_def cb_read_bytes_at numeral_3_eq_3)+

lemma u64_small_arg:
  fixes v :: u64
  assumes "v \<le> 23"
  shows "(ucast v :: u8) < 32" "(ucast v :: u8) \<le> 23" "ucast (ucast v :: u8) = v"
proof -
  show "ucast (ucast v :: u8) = v" by (rule ucast_ucast_small) (use assms in \<open>simp add: word_le_nat_alt\<close>)
  show "(ucast v :: u8) < 32" "(ucast v :: u8) \<le> 23"
    using assms by (simp_all add: word_le_nat_alt word_less_nat_alt unsigned_ucast_eq take_bit_nat_eq_self)
qed

lemma cb_head_cases:
  obtains (small) "val \<le> 23" "cb_head_bytes major val = [push_bit 5 major OR ucast val]"
  | (h1) "val \<le> 0xff" "cb_head_bytes major val = [push_bit 5 major OR CB_AI_1BYTE, ucast val]"
  | (h2) "val \<le> 0xffff" "cb_head_bytes major val = (push_bit 5 major OR CB_AI_2BYTE) # store_be16 (ucast val)"
  | (h4) "val \<le> 0xffffffff" "cb_head_bytes major val = (push_bit 5 major OR CB_AI_4BYTE) # store_be32 (ucast val)"
  | (h8) "cb_head_bytes major val = (push_bit 5 major OR CB_AI_8BYTE) # store_be64 val"
proof -
  consider "val \<le> 23" | "\<not> val \<le> 23" "val \<le> 0xff" | "\<not> val \<le> 23" "\<not> val \<le> 0xff" "val \<le> 0xffff"
    | "\<not> val \<le> 23" "\<not> val \<le> 0xff" "\<not> val \<le> 0xffff" "val \<le> 0xffffffff"
    | "\<not> val \<le> 23" "\<not> val \<le> 0xff" "\<not> val \<le> 0xffff" "\<not> val \<le> 0xffffffff"
    by blast
  then show thesis by cases (rule that, simp_all add: cb_head_bytes_def Let_def)+
qed

lemma cb_head_length: "0 < length (cb_head_bytes m v)" "length (cb_head_bytes m v) \<le> 9"
  by (cases rule: cb_head_cases [of v m]; simp)+

lemma cb_decode_head_correct:
  assumes "m < 8" and at: "at r (cb_head_bytes m val @ rest)"
  shows "cb_decode_head r = (Some (m, val), adv (length (cb_head_bytes m val)) r)"
proof (cases rule: cb_head_cases [of val m])
  case small
  then have "at r ((push_bit 5 m OR ucast val) # rest)" using at by simp
  from cb_decode_head_at [OF this] show ?thesis
    using small u64_small_arg [OF small(1)] cb_head_split [OF assms(1), of "ucast val"] by (simp add: Let_def)
next
  case h1
  then have a: "at r ((push_bit 5 m OR CB_AI_1BYTE) # ucast val # rest)" using at by simp
  have "cb_decode_head r = rd_bind (cb_read_bytes (Suc 0)) (\<lambda>p. rd_return (m, ucast (p ! 0))) (adv (Suc 0) r)"
    using cb_decode_head_at [OF a] cb_head_split [OF assms(1), of CB_AI_1BYTE] by (simp add: Let_def)
  also have "\<dots> = (Some (m, val), adv 2 r)"
    unfolding cb_decode_arg(1) [OF a] using h1(1) by (simp add: rd_return_def)
  finally show ?thesis using h1(2) by (simp add: numeral_2_eq_2)
next
  case h2
  then have a: "at r ((push_bit 5 m OR CB_AI_2BYTE) # store_be16 (ucast val) @ rest)" using at by simp
  have "cb_decode_head r = rd_bind (cb_read_bytes 2) (\<lambda>p. rd_return (m, ucast (load_be16 p))) (adv (Suc 0) r)"
    using cb_decode_head_at [OF a] cb_head_split [OF assms(1), of CB_AI_2BYTE] by (simp add: Let_def)
  also have "\<dots> = (Some (m, val), adv 3 r)"
    unfolding cb_decode_arg(2) [OF a] using h2 by (simp add: rd_return_def)
  finally show ?thesis using h2 by simp
next
  case h4
  then have a: "at r ((push_bit 5 m OR CB_AI_4BYTE) # store_be32 (ucast val) @ rest)" using at by simp
  have "cb_decode_head r = rd_bind (cb_read_bytes 4) (\<lambda>p. rd_return (m, ucast (load_be32 p))) (adv (Suc 0) r)"
    using cb_decode_head_at [OF a] cb_head_split [OF assms(1), of CB_AI_4BYTE] by (simp add: Let_def)
  also have "\<dots> = (Some (m, val), adv 5 r)"
    unfolding cb_decode_arg(3) [OF a] using h4 by (simp add: rd_return_def)
  finally show ?thesis using h4 by simp
next
  case h8
  then have a: "at r ((push_bit 5 m OR CB_AI_8BYTE) # store_be64 val @ rest)" using at by simp
  have "cb_decode_head r = rd_bind (cb_read_bytes 8) (\<lambda>p. rd_return (m, load_be64 p)) (adv (Suc 0) r)"
    using cb_decode_head_at [OF a] cb_head_split [OF assms(1), of CB_AI_8BYTE] by (simp add: Let_def)
  also have "\<dots> = (Some (m, val), adv 9 r)"
    unfolding cb_decode_arg(4) [OF a] using h8 by (simp add: rd_return_def)
  finally show ?thesis using h8 by simp
qed

interpretation cb_head: codec "\<lambda>(m, v). cb_head_bytes m v" cb_decode_head "\<lambda>(m, v). m < 8"
  by unfold_locales (auto simp: cb_decode_head_correct)

section \<open>Numbers, strings, headers\<close>

lemma cb_head_bind:
  "at r (cb_head_bytes m v @ rest) \<Longrightarrow> m < 8 \<Longrightarrow>
   rd_bind cb_decode_head f r = f (m, v) (adv (length (cb_head_bytes m v)) r)"
  by (simp add: rd_bind_def cb_decode_head_correct)

definition cb_int_bytes :: "u64 \<Rightarrow> bytes" where
  "cb_int_bytes v = (if sint v \<ge> 0 then cb_head_bytes CB_MAJOR_UINT v else cb_head_bytes CB_MAJOR_NINT (- (v + 1)))"

definition cb_str_bytes :: "bytes \<Rightarrow> bytes" where
  "cb_str_bytes s = cb_head_bytes CB_MAJOR_TSTR (word_of_nat (length s)) @ s"

lemma cb_int_range:
  fixes v :: u64
  shows "sint v \<ge> 0 \<Longrightarrow> \<not> v > 0x7fffffffffffffff" "sint v < 0 \<Longrightarrow> \<not> - (v + 1) > 0x7fffffffffffffff"
proof -
  have b: "- (2 ^ 63) \<le> sint v" "sint v < 2 ^ 63" using sint_greater_eq [of v] sint_less [of v] by simp_all
  have u: "uint v = sint v mod 2 ^ 64" by (simp add: uint_sint take_bit_eq_mod)
  show "sint v \<ge> 0 \<Longrightarrow> \<not> v > 0x7fffffffffffffff" using b u by (simp add: word_less_def)
  have "- (v + 1) = word_of_int (- (sint v + 1))" by simp
  then have "uint (- (v + 1)) = (- (sint v + 1)) mod 2 ^ 64" by (simp only: uint_word_of_int) simp
  then show "sint v < 0 \<Longrightarrow> \<not> - (v + 1) > 0x7fffffffffffffff" using b by (simp add: word_less_def)
qed

lemma cb_unpack_int64_correct:
  assumes "at r (cb_int_bytes v @ rest)"
  shows "cb_unpack_int64 r = (Some v, adv (length (cb_int_bytes v)) r)"
proof (cases "sint v \<ge> 0")
  case True
  then show ?thesis using assms cb_int_range(1) [OF True]
    by (simp add: cb_unpack_int64_def cb_int_bytes_def cb_head_bind rd_return_def)
next
  case False
  then show ?thesis using assms cb_int_range(2) [of v]
    by (simp add: cb_unpack_int64_def cb_int_bytes_def cb_head_bind rd_return_def)
qed

lemma cb_unpack_uint64_correct:
  "at r (cb_head_bytes CB_MAJOR_UINT v @ rest) \<Longrightarrow>
   cb_unpack_uint64 r = (Some v, adv (length (cb_head_bytes CB_MAJOR_UINT v)) r)"
  by (simp add: cb_unpack_uint64_def cb_head_bind rd_return_def)

lemma u32_u64: "ucast (ucast (n :: u32) :: u64) = n"
  by (simp add: ucast_ucast_small unsigned_less [where ?'a = nat and w = n, THEN order_less_trans])

lemma cb_unpack_array_header_correct:
  "at r (cb_head_bytes CB_MAJOR_ARRAY (ucast n) @ rest) \<Longrightarrow>
   cb_unpack_array_header r = (Some n, adv (length (cb_head_bytes CB_MAJOR_ARRAY (ucast n))) r)"
  by (simp add: cb_unpack_array_header_def cb_head_bind rd_return_def u32_u64)

lemma cb_unpack_map_header_correct:
  "at r (cb_head_bytes CB_MAJOR_MAP (ucast n) @ rest) \<Longrightarrow>
   cb_unpack_map_header r = (Some n, adv (length (cb_head_bytes CB_MAJOR_MAP (ucast n))) r)"
  by (simp add: cb_unpack_map_header_def cb_head_bind rd_return_def u32_u64)

lemma cb_unpack_str_correct:
  assumes len: "length s < 2 ^ 32" and at: "at r (cb_str_bytes s @ rest)"
  shows "cb_unpack_str r = (Some s, adv (length (cb_str_bytes s)) r)"
proof -
  let ?h = "cb_head_bytes CB_MAJOR_TSTR (word_of_nat (length s))"
  have n: "unat (word_of_nat (length s) :: u64) = length s" "unat (ucast (word_of_nat (length s) :: u64) :: u32) = length s"
    using len by (simp_all add: unat_word_of_nat unsigned_ucast_eq take_bit_nat_eq_self)
  have at: "at r (?h @ s @ rest)" using at by (simp add: cb_str_bytes_def)
  have a: "at (adv (length ?h) r) (s @ rest)" by (rule at_adv [OF at])
  have "rd_len (adv (length ?h) r) - rd_pos (adv (length ?h) r) = length s + length rest"
    using at_len [OF a] by simp
  moreover have "take (length s) (drop (rd_pos (adv (length ?h) r)) (rd_data (adv (length ?h) r))) = s"
    by (rule at_take [OF a])
  ultimately show ?thesis using n
    by (simp add: cb_unpack_str_def cb_head_bind [OF at] cb_str_bytes_def)
qed

interpretation cb_uint: codec "cb_head_bytes CB_MAJOR_UINT" cb_unpack_uint64 "\<lambda>_. True"
  by unfold_locales (rule cb_unpack_uint64_correct)

interpretation cb_int: codec cb_int_bytes cb_unpack_int64 "\<lambda>_. True"
  by unfold_locales (rule cb_unpack_int64_correct)

interpretation cb_str: codec cb_str_bytes cb_unpack_str "\<lambda>s. length s < 2 ^ 32"
  by unfold_locales (rule cb_unpack_str_correct)

interpretation cb_array_header: codec "\<lambda>n. cb_head_bytes CB_MAJOR_ARRAY (ucast n)" cb_unpack_array_header "\<lambda>_. True"
  by unfold_locales (rule cb_unpack_array_header_correct)

interpretation cb_map_header: codec "\<lambda>n. cb_head_bytes CB_MAJOR_MAP (ucast n)" cb_unpack_map_header "\<lambda>_. True"
  by unfold_locales (rule cb_unpack_map_header_correct)

section \<open>Packing and skipping values\<close>

fun cb_enc :: "mp_value \<Rightarrow> bytes" where
  "cb_enc MNil = [CB_NULL]"
| "cb_enc (MBool b) = [if b then CB_TRUE else CB_FALSE]"
| "cb_enc (MUint v) = cb_head_bytes CB_MAJOR_UINT v"
| "cb_enc (MInt v) = cb_int_bytes v"
| "cb_enc (MFloat v) = CB_FLOAT32 # store_be32 v"
| "cb_enc (MDouble v) = CB_FLOAT64 # store_be64 v"
| "cb_enc (MStr s) = cb_str_bytes s"
| "cb_enc (MArray vs) = cb_head_bytes CB_MAJOR_ARRAY (word_of_nat (length vs)) @ concat (map cb_enc vs)"
| "cb_enc (MMap vs) = cb_head_bytes CB_MAJOR_MAP (word_of_nat (length vs div 2)) @ concat (map cb_enc vs)"

fun cb_pack_value :: "sstr \<Rightarrow> mp_value \<Rightarrow> fault + sstr" and cb_pack_values :: "sstr \<Rightarrow> mp_value list \<Rightarrow> fault + sstr" where
  "cb_pack_value out MNil = cb_pack_nil out"
| "cb_pack_value out (MBool b) = cb_pack_bool out b"
| "cb_pack_value out (MUint v) = cb_pack_uint out v"
| "cb_pack_value out (MInt v) = cb_pack_int out v"
| "cb_pack_value out (MFloat v) = cb_pack_float out v"
| "cb_pack_value out (MDouble v) = cb_pack_double out v"
| "cb_pack_value out (MStr s) = cb_pack_sstr out s"
| "cb_pack_value out (MArray vs) =
     bindE (cb_pack_array_header out (word_of_nat (length vs))) (\<lambda>out'. cb_pack_values out' vs)"
| "cb_pack_value out (MMap vs) =
     bindE (cb_pack_map_header out (word_of_nat (length vs div 2))) (\<lambda>out'. cb_pack_values out' vs)"
| "cb_pack_values out [] = Inr out"
| "cb_pack_values out (v # vs) = bindE (cb_pack_value out v) (\<lambda>out'. cb_pack_values out' vs)"

lemma cb_pack_int_eq: "cb_pack_int out v = sstr_append_bytes out (cb_int_bytes v)"
  by (simp add: cb_pack_int_def cb_encode_head_def cb_int_bytes_def)

lemma ucast_count: "n < 2 ^ 32 \<Longrightarrow> ucast (word_of_nat n :: u32) = (word_of_nat n :: u64)"
  by (simp add: word_unat_eq_iff unsigned_ucast_eq unat_word_of_nat take_bit_nat_eq_self)

lemma cb_pack_sstr_appends:
  assumes "sstr_ok out" and "length s < 2 ^ 32"
  shows "appends out (cb_str_bytes s) (cb_pack_sstr out s)"
proof -
  have u: "unat (word_of_nat (length s) :: u32) = length s"
    using assms(2) by (simp add: unat_of_nat take_bit_nat_eq_self)
  have z: "(0 :: u32) < word_of_nat (length s) \<longleftrightarrow> s \<noteq> []" using u by (simp add: word_less_nat_alt)
  show ?thesis unfolding cb_pack_sstr_def cb_pack_str_def cb_str_bytes_def cb_encode_head_def ucast_count [OF assms(2)]
    by (rule appends_bindE [OF appends_append [OF assms(1)]])
      (auto simp: u z appends_append intro: appends_def [THEN iffD2])
qed

lemma cb_pack_value_appends:
  "sstr_ok out \<Longrightarrow> mp_good v \<Longrightarrow> appends out (cb_enc v) (cb_pack_value out v)"
  "sstr_ok out \<Longrightarrow> list_all mp_good vs \<Longrightarrow> appends out (concat (map cb_enc vs)) (cb_pack_values out vs)"
proof (induction out v and out vs rule: cb_pack_value_cb_pack_values.induct)
  case (8 out vs)
  then show ?case
    by (auto simp: cb_pack_array_header_def cb_encode_head_def ucast_count intro!: appends_bindE appends_append)
next
  case (9 out vs)
  then show ?case
    by (auto simp: cb_pack_map_header_def cb_encode_head_def ucast_count intro!: appends_bindE appends_append)
next
  case (10 out)
  then show ?case by (simp add: appends_def)
next
  case (11 out v vs)
  then show ?case by (auto intro!: appends_bindE)
qed (simp_all add: cb_pack_nil_def cb_pack_bool_def cb_pack_uint_def cb_encode_head_def cb_pack_int_eq
       cb_pack_float_def cb_pack_double_def appends_append cb_pack_sstr_appends)

lemma cb_skip_head:
  "at r (cb_head_bytes m v @ rest) \<Longrightarrow> m < 8 \<Longrightarrow> cb_unpack_skip (Suc f) r =
     (let r1 = adv (length (cb_head_bytes m v)) r
      in if m = CB_MAJOR_UINT \<or> m = CB_MAJOR_NINT then Some (True, r1)
         else if m = CB_MAJOR_BSTR \<or> m = CB_MAJOR_TSTR then Some (cb_skip_bytes v r1)
         else if m = CB_MAJOR_ARRAY then cb_skip_items f (unat v) r1
         else if m = CB_MAJOR_MAP then cb_skip_items f (2 * unat v) r1
         else if m = CB_MAJOR_TAG then cb_unpack_skip f r1
         else if m = CB_MAJOR_SIMPLE then Some (True, r1)
         else Some (False, r1))"
  by (simp add: cb_unpack_skip.simps cb_decode_head_correct)

lemma cb_skip_bytes_at:
  "at r (xs @ ys) \<Longrightarrow> length xs = unat v \<Longrightarrow> cb_skip_bytes v r = (True, adv (unat v) r)"
  using mp_skip_bytes_at [of r xs ys "unat v"] by (simp add: cb_skip_bytes_def mp_skip_bytes_def)

lemma cb_simple_heads:
  "cb_head_bytes CB_MAJOR_SIMPLE 20 = [CB_FALSE]" "cb_head_bytes CB_MAJOR_SIMPLE 21 = [CB_TRUE]"
  "cb_head_bytes CB_MAJOR_SIMPLE 22 = [CB_NULL]"
  by code_simp+

text \<open>A float is an initial byte with four or eight bytes of argument.\<close>

lemma cb_skip_float:
  "at r (CB_FLOAT32 # store_be32 v @ rest) \<Longrightarrow> cb_unpack_skip (Suc f) r = Some (True, adv 5 r)"
  "at r (CB_FLOAT64 # store_be64 w @ rest) \<Longrightarrow> cb_unpack_skip (Suc f) r = Some (True, adv 9 r)"
proof -
  have b: "drop_bit 5 CB_FLOAT32 AND 0x07 = CB_MAJOR_SIMPLE" "CB_FLOAT32 AND 0x1f = CB_AI_4BYTE"
    "drop_bit 5 CB_FLOAT64 AND 0x07 = CB_MAJOR_SIMPLE" "CB_FLOAT64 AND 0x1f = CB_AI_8BYTE" by code_simp+
  show "cb_unpack_skip (Suc f) r = Some (True, adv 5 r)" if "at r (CB_FLOAT32 # store_be32 v @ rest)"
    using that b by (simp add: cb_unpack_skip.simps cb_decode_head_at Let_def cb_decode_arg(3) [OF that] rd_return_def)
  show "cb_unpack_skip (Suc f) r = Some (True, adv 9 r)" if "at r (CB_FLOAT64 # store_be64 w @ rest)"
    using that b by (simp add: cb_unpack_skip.simps cb_decode_head_at Let_def cb_decode_arg(4) [OF that] rd_return_def)
qed

definition cb_skips :: "mp_value \<Rightarrow> bool" where
  "cb_skips v \<longleftrightarrow> (\<forall>r rest f. at r (cb_enc v @ rest) \<longrightarrow> length (cb_enc v) \<le> f \<longrightarrow>
     cb_unpack_skip f r = Some (True, adv (length (cb_enc v)) r))"

lemma cb_skip_items_enc:
  assumes "\<forall>v\<in>set vs. cb_skips v" and "at r (concat (map cb_enc vs) @ rest)"
    and "length (concat (map cb_enc vs)) \<le> f"
  shows "cb_skip_items f (length vs) r = Some (True, adv (length (concat (map cb_enc vs))) r)"
  using assms
proof (induction vs arbitrary: r)
  case Nil
  then show ?case by (simp add: cb_skip_items.simps [of _ 0])
next
  case (Cons v vs)
  have at: "at r (cb_enc v @ concat (map cb_enc vs) @ rest)" using Cons.prems(2) by simp
  have "cb_unpack_skip f r = Some (True, adv (length (cb_enc v)) r)"
    using Cons.prems(1,3) at by (auto simp: cb_skips_def)
  moreover have "cb_skip_items f (length vs) (adv (length (cb_enc v)) r)
      = Some (True, adv (length (concat (map cb_enc vs))) (adv (length (cb_enc v)) r))"
    using Cons.IH [OF _ at_adv [OF at]] Cons.prems(1,3) by auto
  ultimately show ?case by (simp add: cb_skip_items.simps [of _ "Suc (length vs)"])
qed

lemma cb_head_nonempty [simp]: "cb_head_bytes m v \<noteq> []"
  using cb_head_length(1) [of m v] by auto

lemma cb_head_shrinks: "length (cb_head_bytes m v) + n \<le> Suc g \<Longrightarrow> n \<le> g"
  using cb_head_length(1) [of m v] by linarith

lemma cb_enc_nonempty: "cb_enc v \<noteq> []"
  by (cases v) (simp_all add: cb_int_bytes_def cb_str_bytes_def)

lemma cb_skipsI:
  assumes "\<And>r rest g. at r (cb_enc v @ rest) \<Longrightarrow> length (cb_enc v) \<le> Suc g \<Longrightarrow>
      cb_unpack_skip (Suc g) r = Some (True, adv (length (cb_enc v)) r)"
  shows "cb_skips v"
  unfolding cb_skips_def
proof (intro allI impI)
  fix r rest f
  assume at: "at r (cb_enc v @ rest)" and f: "length (cb_enc v) \<le> f"
  obtain g where g: "f = Suc g" using f cb_enc_nonempty [of v] by (cases f) auto
  show "cb_unpack_skip f r = Some (True, adv (length (cb_enc v)) r)"
    using assms [OF at] f g by simp
qed

lemma cb_skips_good: "mp_good v \<Longrightarrow> cb_skips v"
proof (induction v)
  case (MArray vs)
  let ?h = "cb_head_bytes CB_MAJOR_ARRAY (word_of_nat (length vs))" and ?b = "concat (map cb_enc vs)"
  show ?case
  proof (rule cb_skipsI)
    fix r rest g
    assume "at r (cb_enc (MArray vs) @ rest)" and f: "length (cb_enc (MArray vs)) \<le> Suc g"
    then have at: "at r (?h @ ?b @ rest)" by simp
    have g: "length ?b \<le> g" using f cb_head_shrinks [of CB_MAJOR_ARRAY "word_of_nat (length vs)"] by simp
    have "cb_skip_items g (length vs) (adv (length ?h) r) = Some (True, adv (length ?b) (adv (length ?h) r))"
      using MArray by (intro cb_skip_items_enc [OF _ at_adv [OF at] g]) (auto simp: list_all_iff)
    then show "cb_unpack_skip (Suc g) r = Some (True, adv (length (cb_enc (MArray vs))) r)"
      using cb_skip_head [OF at] MArray.prems by (simp add: unat_word_of_nat)
  qed
next
  case (MMap vs)
  let ?h = "cb_head_bytes CB_MAJOR_MAP (word_of_nat (length vs div 2))" and ?b = "concat (map cb_enc vs)"
  show ?case
  proof (rule cb_skipsI)
    fix r rest g
    assume "at r (cb_enc (MMap vs) @ rest)" and f: "length (cb_enc (MMap vs)) \<le> Suc g"
    then have at: "at r (?h @ ?b @ rest)" by simp
    have g: "length ?b \<le> g" using f cb_head_shrinks [of CB_MAJOR_MAP "word_of_nat (length vs div 2)"] by simp
    have n: "2 * unat (word_of_nat (length vs div 2) :: u64) = length vs" using MMap.prems
      by (auto simp: unat_word_of_nat elim!: evenE)
    have "cb_skip_items g (length vs) (adv (length ?h) r) = Some (True, adv (length ?b) (adv (length ?h) r))"
      using MMap by (intro cb_skip_items_enc [OF _ at_adv [OF at] g]) (auto simp: list_all_iff)
    then show "cb_unpack_skip (Suc g) r = Some (True, adv (length (cb_enc (MMap vs))) r)"
      using cb_skip_head [OF at] n by simp
  qed
next
  case (MStr s)
  show ?case
  proof (rule cb_skipsI)
    fix r rest g
    let ?n = "word_of_nat (length s) :: u64"
    assume "at r (cb_enc (MStr s) @ rest)"
    then have at: "at r (cb_head_bytes CB_MAJOR_TSTR ?n @ s @ rest)" by (simp add: cb_str_bytes_def)
    have n: "unat ?n = length s" using MStr by (simp add: unat_word_of_nat)
    show "cb_unpack_skip (Suc g) r = Some (True, adv (length (cb_enc (MStr s))) r)"
      using cb_skip_head [OF at] cb_skip_bytes_at [OF at_adv [OF at]] n by (simp add: cb_str_bytes_def)
  qed
next
  case MNil
  show ?case by (rule cb_skipsI) (simp add: cb_simple_heads(3) [symmetric] cb_skip_head del: One_nat_def)
next
  case (MBool b)
  show ?case by (rule cb_skipsI) (cases b, simp_all add: cb_simple_heads [symmetric] cb_skip_head del: One_nat_def)
qed (rule cb_skipsI, simp add: cb_skip_float cb_skip_head cb_int_bytes_def split: if_splits)+

section \<open>Properties\<close>

text \<open>
  C37. \<open>cb_unpack_skip\<close> consumes exactly one data item: after packing any value - nested arrays and maps
  included - into a valid string, skipping from its first byte succeeds and ends right behind its last one.
\<close>

theorem cb_skip_packed:
  assumes "sstr_ok out" and "mp_good v" and "length (sstr_bytes out) + length (cb_enc v) < 2 ^ 63"
    and "length (cb_enc v) \<le> fuel"
  shows "\<exists>out'. cb_pack_value out v = Inr out'
    \<and> cb_unpack_skip fuel (reader_at out out') = Some (True, reader_at out' out')"
proof -
  obtain out' where o: "cb_pack_value out v = Inr out'" "sstr_bytes out' = sstr_bytes out @ cb_enc v"
    using cb_pack_value_appends(1) [OF assms(1,2)] by (auto simp: appends_def)
  then show ?thesis
    using cb_skips_good [OF assms(2)] reader_at_at [OF o(2)] assms(3,4) by (metis cb_skips_def)
qed

lemma cb_skip_packed_witness:
  "\<exists>out'. cb_pack_value sstr_new (MMap [MStr [97], MArray [MNil, MInt (- 500)]]) = Inr out'
    \<and> cb_unpack_skip 8 (reader_at sstr_new out') = Some (True, reader_at out' out')"
proof (rule cb_skip_packed)
  show "length (sstr_bytes sstr_new) + length (cb_enc (MMap [MStr [97], MArray [MNil, MInt (- 500)]])) < 2 ^ 63"
    "length (cb_enc (MMap [MStr [97], MArray [MNil, MInt (- 500)]])) \<le> 8"
    by (simp_all add: sstr_bytes_def cb_head_bytes_def cb_int_bytes_def cb_str_bytes_def Let_def)
qed simp_all

text \<open>The integer that an unsigned (major 0) or negative (major 1) head denotes.\<close>

definition cb_head_value :: "u8 \<Rightarrow> u64 \<Rightarrow> int" where
  "cb_head_value m v = (if m = CB_MAJOR_UINT then uint v else - 1 - uint v)"

text \<open>
  \<open>cb_unpack_int64\<close> never wraps: an integer head is accepted exactly when the number it denotes fits a
  signed 64-bit integer, the result is that number, and a refused head leaves the cursor where it was.
\<close>

theorem cb_int64_exact:
  assumes "m = CB_MAJOR_UINT \<or> m = CB_MAJOR_NINT" and at: "at r (cb_head_bytes m v @ rest)"
  shows "\<exists>w. cb_unpack_int64 r =
      (if - (2 ^ 63) \<le> cb_head_value m v \<and> cb_head_value m v < 2 ^ 63
       then (Some w, adv (length (cb_head_bytes m v)) r) else (None, r))
    \<and> (- (2 ^ 63) \<le> cb_head_value m v \<and> cb_head_value m v < 2 ^ 63 \<longrightarrow> sint w = cb_head_value m v)"
proof -
  have le: "v > 0x7fffffffffffffff \<longleftrightarrow> \<not> uint v < 2 ^ 63" by (auto simp: word_less_def)
  have s: "sint (word_of_int i :: u64) = i" if "- (2 ^ 63) \<le> i" "i < 2 ^ 63" for i
    using that by (simp add: sint_sbintrunc' signed_take_bit_int_eq_self)
  have sv: "sint v = uint v" if "uint v < 2 ^ 63"
    using s [OF _ that] order_trans [OF _ uint_ge_0 [of v], of "- (2 ^ 63)"] by simp
  have sn: "sint (- 1 - v) = - 1 - uint v" if "- (2 ^ 63) \<le> - 1 - uint v"
    using s [OF that] uint_ge_0 [of v] by simp
  have b: "rd_pos r < rd_len r" using at by (cases "cb_head_bytes m v") (auto dest: at_Cons)
  have r: "(adv (length (cb_head_bytes m v)) r)\<lparr>rd_pos := rd_pos r\<rparr> = r" by (simp add: adv_def)
  show ?thesis
  proof (cases "m = CB_MAJOR_UINT")
    case True
    have "- (2 ^ 63) \<le> uint v" by (rule order_trans [OF _ uint_ge_0]) simp
    with True show ?thesis using at le sv r
      by (auto simp: cb_unpack_int64_def cb_head_bind cb_head_value_def rd_return_def cb_restore_def)
  next
    case False
    have "- 1 - uint v < 2 ^ 63" using uint_ge_0 [of v] by (simp add: order_le_less_trans [of _ 0])
    with False show ?thesis using assms le sn r
      by (auto simp: cb_unpack_int64_def cb_head_bind cb_head_value_def rd_return_def cb_restore_def)
  qed
qed

lemma cb_int64_exact_witness:
  "\<exists>w. cb_unpack_int64 \<lparr>rd_data = [0x39, 0x01, 0xf3], rd_pos = 0\<rparr> = (Some w, \<lparr>rd_data = [0x39, 0x01, 0xf3], rd_pos = 3\<rparr>)
    \<and> sint w = - 500"
proof -
  have b: "cb_head_bytes CB_MAJOR_NINT 499 = [0x39, 0x01, 0xf3]" by code_simp
  show ?thesis
    using cb_int64_exact [of CB_MAJOR_NINT "\<lparr>rd_data = [0x39, 0x01, 0xf3], rd_pos = 0\<rparr>" 499 "[]"]
    by (simp add: b at_def rd_len_def cb_head_value_def adv_def numeral_3_eq_3)
qed

text \<open>An array of two items, the first a byte string of length \<open>2 ^ 64 - 10\<close>.\<close>

definition cb_loop_input :: bytes where
  "cb_loop_input = [0x82, 0x5b, 0xff, 0xff, 0xff, 0xff, 0xff, 0xff, 0xff, 0xf6]"

lemma cb_loop_steps:
  "cb_decode_head \<lparr>rd_data = cb_loop_input, rd_pos = 0\<rparr> = (Some (CB_MAJOR_ARRAY, 2), \<lparr>rd_data = cb_loop_input, rd_pos = 1\<rparr>)"
  "cb_decode_head \<lparr>rd_data = cb_loop_input, rd_pos = 1\<rparr> =
     (Some (CB_MAJOR_BSTR, 0xfffffffffffffff6), \<lparr>rd_data = cb_loop_input, rd_pos = 10\<rparr>)"
  "cb_skip_bytes 0xfffffffffffffff6 \<lparr>rd_data = cb_loop_input, rd_pos = 10\<rparr> = (True, \<lparr>rd_data = cb_loop_input, rd_pos = 0\<rparr>)"
  by (simp_all add: cb_decode_head_def cb_skip_bytes_def size_add_def rd_len_def cb_loop_input_def Let_def
      rd_bind_def rd_return_def cb_read_bytes_def load_be64_def nth_literal)

text \<open>
  C38. Ten bytes of input make \<open>cb_unpack_skip\<close> recurse without end: the sum of the position and the length of
  a byte string wraps, the bounds check passes, and the cursor goes back to the start of the array, so that no
  recursion depth is enough.
\<close>

theorem cb_skip_diverges: "cb_unpack_skip fuel \<lparr>rd_data = cb_loop_input, rd_pos = 0\<rparr> = None"
proof (induction fuel)
  case 0
  show ?case by (simp add: cb_unpack_skip.simps)
next
  case (Suc f)
  let ?r = "\<lambda>p. \<lparr>rd_data = cb_loop_input, rd_pos = p\<rparr>"
  have one: "cb_unpack_skip f (?r 1) = Some (True, ?r 0)" if "f \<noteq> 0"
    using that cb_loop_steps(2,3) by (cases f) (simp_all add: cb_unpack_skip.simps)
  have "cb_skip_items f 2 (?r 1) = None"
  proof (cases "f = 0")
    case True
    then show ?thesis by (simp add: cb_unpack_skip.simps cb_skip_items.simps [of 0 2])
  next
    case False
    then show ?thesis using Suc one
      by (simp add: cb_skip_items.simps [of f 2] cb_skip_items.simps [of f "Suc 0"])
  qed
  then show ?case using cb_loop_steps(1) by (simp add: cb_unpack_skip.simps)
qed

end
