(* ===== verification/JsonLex.thy ===== *)
theory JsonLex
  imports SstrPrintf
begin

text \<open>
  The lexer of the generated parsers (\<open>src/gencode/codes/json_parse.c\<close>): white space and comments,
  string tokens with their escapes, numbers and keywords. The input is the content of \<open>content\<close>; the
  byte behind its last one is the NUL that ends it. The token text \<open>txt\<close> is the content of its buffer.
  Lengths and columns do not reach \<open>2 ^ 31\<close>.
\<close>

section \<open>Positions, tokens, messages\<close>

record json_pos =
  jp_line :: int
  jp_col :: int
  jp_offset :: nat

datatype json_token = JSON_ERROR | JSON_TOKEN_EOF | JSON_TOKEN_STRING | JSON_TOKEN_INT | JSON_TOKEN_FLOAT
  | JSON_TOKEN_TRUE | JSON_TOKEN_FALSE | JSON_TOKEN_NULL | JSON_TOKEN_COMMA | JSON_TOKEN_COLON
  | JSON_TOKEN_LEFT_BRACE | JSON_TOKEN_RIGHT_BRACE | JSON_TOKEN_LEFT_BRACKET | JSON_TOKEN_RIGHT_BRACKET

fun json_token_code :: "json_token \<Rightarrow> int" where
  "json_token_code JSON_ERROR = -1"
| "json_token_code JSON_TOKEN_EOF = 0"
| "json_token_code JSON_TOKEN_STRING = 1"
| "json_token_code JSON_TOKEN_INT = 2"
| "json_token_code JSON_TOKEN_FLOAT = 3"
| "json_token_code JSON_TOKEN_TRUE = 4"
| "json_token_code JSON_TOKEN_FALSE = 5"
| "json_token_code JSON_TOKEN_NULL = 6"
| "json_token_code JSON_TOKEN_COMMA = 44"
| "json_token_code JSON_TOKEN_COLON = 58"
| "json_token_code JSON_TOKEN_LEFT_BRACE = 123"
| "json_token_code JSON_TOKEN_RIGHT_BRACE = 125"
| "json_token_code JSON_TOKEN_LEFT_BRACKET = 91"
| "json_token_code JSON_TOKEN_RIGHT_BRACKET = 93"

lemma json_token_code_inject [simp]: "json_token_code a = json_token_code b \<longleftrightarrow> a = b"
  by (cases a; cases b) simp_all

text \<open>A call that returns a token, moves the position and leaves a text in \<open>txt\<close>.\<close>

type_synonym 'a lexed = "fault + 'a \<times> json_pos \<times> string"

definition ptoken :: "json_token \<Rightarrow> string \<Rightarrow> string" where
  "ptoken tk txt = (case tk of
     JSON_TOKEN_LEFT_BRACKET \<Rightarrow> ''['' | JSON_TOKEN_RIGHT_BRACKET \<Rightarrow> '']''
   | JSON_TOKEN_LEFT_BRACE \<Rightarrow> ''{'' | JSON_TOKEN_RIGHT_BRACE \<Rightarrow> ''}''
   | JSON_TOKEN_COMMA \<Rightarrow> '','' | JSON_TOKEN_COLON \<Rightarrow> '':''
   | JSON_TOKEN_TRUE \<Rightarrow> ''true'' | JSON_TOKEN_FALSE \<Rightarrow> ''false'' | JSON_TOKEN_NULL \<Rightarrow> ''null''
   | JSON_TOKEN_STRING \<Rightarrow> txt | JSON_TOKEN_INT \<Rightarrow> txt | JSON_TOKEN_FLOAT \<Rightarrow> txt
   | JSON_TOKEN_EOF \<Rightarrow> ''-EOF-'' | JSON_ERROR \<Rightarrow> ''-ERROR-'')"

text \<open>No message has a floating point directive.\<close>

definition no_floats :: "unit float_ops" where
  "no_floats = \<lparr>fl_negative = (\<lambda>_. False), fl_minus = id, fl_trunc = (\<lambda>_. 0), fl_frac = (\<lambda>_ _ _. 0)\<rparr>"

definition PERROR :: "json_pos \<Rightarrow> string \<Rightarrow> unit va_arg list \<Rightarrow> fault + string" where
  "PERROR pos msg as =
     bindE (sstr_printf no_floats (''line %d col %d: error: '' @ msg)
              (A_int (word_of_int (jp_line pos)) # A_int (word_of_int (jp_col pos)) # as)) sstr_data"

text \<open>The argument of a \<open>%s\<close> that is a C string.\<close>

definition cs_arg :: "string \<Rightarrow> unit va_arg" where
  "cs_arg s = A_str (Some (s @ [NUL]))"

text \<open>A character passed for a \<open>%c\<close>, or by mistake for a \<open>%s\<close>: an \<open>int\<close>.\<close>

definition chr_arg :: "char \<Rightarrow> unit va_arg" where
  "chr_arg c = A_int (scast (byte_of_char c))"

text \<open>\<open>sstr_clear(txt); sstr_append(txt, e); return JSON_ERROR\<close>.\<close>

definition json_error :: "json_pos \<Rightarrow> string \<Rightarrow> unit va_arg list \<Rightarrow> json_token lexed" where
  "json_error pos msg as = bindE (PERROR pos msg as) (\<lambda>e. Inr (JSON_ERROR, pos, e))"

section \<open>Characters\<close>

definition json_char_class :: "nat list" where
  "json_char_class = replicate 9 0 @ [1, 1, 1, 1, 1] @ replicate 18 0 @ [1] @ replicate 15 0
     @ replicate 10 2 @ replicate 198 0"

definition JSON_IS_SPACE :: "char \<Rightarrow> bool" where
  "JSON_IS_SPACE c \<longleftrightarrow> json_char_class ! ord c = 1"

definition JSON_IS_DIGIT :: "char \<Rightarrow> bool" where
  "JSON_IS_DIGIT c \<longleftrightarrow> json_char_class ! ord c = 2"

definition is_alpha :: "char \<Rightarrow> bool" where
  "is_alpha c \<longleftrightarrow> (65 \<le> ord c \<and> ord c \<le> 90) \<or> (97 \<le> ord c \<and> ord c \<le> 122)"

text \<open>The byte at an index that is at most the length.\<close>

definition data_at :: "string \<Rightarrow> nat \<Rightarrow> char" where
  "data_at content i = (if i < length content then content ! i else NUL)"

section \<open>UTF-16 escapes\<close>

definition hex_value :: "char \<Rightarrow> u32 option" where
  "hex_value c =
     (if ord CHR ''0'' \<le> ord c \<and> ord c \<le> ord CHR ''9'' then Some (of_nat (ord c - ord CHR ''0''))
      else if ord CHR ''A'' \<le> ord c \<and> ord c \<le> ord CHR ''F'' then Some (10 + of_nat (ord c - ord CHR ''A''))
      else if ord CHR ''a'' \<le> ord c \<and> ord c \<le> ord CHR ''f'' then Some (10 + of_nat (ord c - ord CHR ''a''))
      else None)"

fun parse_hex4_loop :: "nat \<Rightarrow> u32 \<Rightarrow> string \<Rightarrow> u32" where
  "parse_hex4_loop i h [] = h"
| "parse_hex4_loop i h (c # input) =
     (if i \<ge> 4 then h
      else case hex_value c of
             None \<Rightarrow> 0
           | Some d \<Rightarrow> parse_hex4_loop (i + 1) (if i < 3 then push_bit 4 (h + d) else h + d) input)"

text \<open>The callers pass a pointer to at least four bytes.\<close>

definition parse_hex4 :: "string \<Rightarrow> u32" where
  "parse_hex4 input = parse_hex4_loop 0 0 input"

text \<open>
  The loop that writes the bytes of the sequence from the last one to the second, then the first. The
  second argument is the number of bytes still to write in front of those in \<open>acc\<close>.
\<close>

fun utf8_tail :: "u32 \<Rightarrow> nat \<Rightarrow> bytes \<Rightarrow> u32 \<times> bytes" where
  "utf8_tail cp 0 acc = (cp, acc)"
| "utf8_tail cp (Suc n) acc = utf8_tail (drop_bit 6 cp) n (ucast ((cp OR 0x80) AND 0xBF) # acc)"

definition utf8_of :: "u32 \<Rightarrow> bytes option" where
  "utf8_of cp =
     (let enc = (\<lambda>utf8_length first_byte_mark.
            (let (cp', tl) = utf8_tail cp (utf8_length - 1) []
             in if utf8_length > 1 then ucast ((cp' OR first_byte_mark) AND 0xFF) # tl
                else ucast (cp' AND 0x7F) # tl))
      in if cp < 0x80 then Some (enc 1 0)
         else if cp < 0x800 then Some (enc 2 0xC0)
         else if cp < 0x10000 then Some (enc 3 0xE0)
         else if cp \<le> 0x10FFFF then Some (enc 4 0xF0)
         else None)"

text \<open>The code point of a surrogate pair.\<close>

definition surrogate_code :: "u32 \<Rightarrow> u32 \<Rightarrow> u32" where
  "surrogate_code first_code second_code =
     0x10000 + (push_bit 10 (first_code AND 0x3FF) OR (second_code AND 0x3FF))"

text \<open>The position stands on the \<open>u\<close>; the result is the return code.\<close>

definition utf16_literal_to_utf8 :: "string \<Rightarrow> json_pos \<Rightarrow> string \<Rightarrow> int \<times> json_pos \<times> string" where
  "utf16_literal_to_utf8 content pos txt =
     (let i = jp_offset pos; len = length content in
      if i + 5 \<ge> len then
        (-1, pos, ''expected escape UTF-16 sequence, but reached end of json string'')
      else
        (let first_code = parse_hex4 (drop (i + 1) content); i = i + 5;
             pos1 = pos\<lparr>jp_col := jp_col pos + 5, jp_offset := jp_offset pos + 5\<rparr>;
             put = (\<lambda>cp pos. case utf8_of cp of
                      None \<Rightarrow> (-1, pos, ''invalid unicode codepoint, cannot convert to utf8'')
                    | Some bs \<Rightarrow> (0, pos, txt @ map char_of_byte bs))
         in if first_code \<ge> 0xDC00 \<and> first_code \<le> 0xDFFF then
              (-1, pos1, ''expected escape UTF-16 sequence, but found invalid'')
            else if first_code \<ge> 0xD800 \<and> first_code \<le> 0xDBFF then
              (if i + 6 \<ge> len then (-1, pos1, ''UTF16 surrogate pair expected, but EOF'')
               else if content ! i \<noteq> CHR 0x5C \<or> content ! (i + 1) \<noteq> CHR ''u'' then
                 (-1, pos1, ''UTF16 surrogate pair expected, but not found '' @ [CHR 0x5C] @ ''uXXXX'')
               else (let second_code = parse_hex4 (drop (i + 2) content)
                     in if second_code < 0xDC00 \<or> second_code > 0xDFFF then
                          (-1, pos1, ''expected escape UTF-16 second_code, but found invalid'')
                        else put (surrogate_code first_code second_code)
                               (pos1\<lparr>jp_col := jp_col pos1 + 6, jp_offset := jp_offset pos1 + 6\<rparr>)))
            else put first_code pos1))"

lemma utf16_offset:
  "utf16_literal_to_utf8 content pos txt = (r, pos', txt') \<Longrightarrow> r = 0 \<Longrightarrow>
   jp_offset pos + 5 \<le> jp_offset pos' \<and> jp_offset pos' < length content"
  by (auto simp: utf16_literal_to_utf8_def Let_def split: if_splits option.splits)

section \<open>String tokens\<close>

text \<open>The character that a one-letter escape stands for.\<close>

definition simple_escape :: "char \<Rightarrow> char option" where
  "simple_escape c =
     (if c = CHR ''b'' then Some (CHR 0x08) else if c = CHR ''f'' then Some (CHR 0x0C)
      else if c = CHR ''n'' then Some (CHR 0x0A) else if c = CHR ''r'' then Some (CHR 0x0D)
      else if c = CHR ''t'' then Some (CHR 0x09) else if c = CHR 0x22 then Some (CHR 0x22)
      else if c = CHR 0x5C then Some (CHR 0x5C) else if c = CHR ''/'' then Some (CHR ''/'')
      else None)"

abbreviation in_run :: "char \<Rightarrow> bool" where
  "in_run c \<equiv> c \<noteq> CHR 0x22 \<and> c \<noteq> CHR 0x5C"

lemma run_nonempty:
  "i < length content \<Longrightarrow> in_run (content ! i) \<Longrightarrow>
   length content - (i + length (takeWhile in_run (drop i content))) < length content - i"
  by (simp add: Cons_nth_drop_Suc [symmetric])

lemma utf16_forward:
  "(0, pos', txt') = utf16_literal_to_utf8 content (pos\<lparr>jp_offset := i\<rparr>) txt \<Longrightarrow>
   i + 5 \<le> jp_offset pos' \<and> jp_offset pos' < length content"
  using utf16_offset [of content "pos\<lparr>jp_offset := i\<rparr>" "txt" 0 pos' txt'] by simp

text \<open>
  The loop behind the opening quote, at index \<open>i\<close>. Two of its messages pass a character where \<open>%s\<close> reads
  a pointer; that is the fault \<open>Bad_vararg\<close> of the formatter.
\<close>

function string_loop :: "string \<Rightarrow> json_pos \<Rightarrow> nat \<Rightarrow> string \<Rightarrow> json_token lexed" where
  "string_loop content pos i txt =
     (if i < length content \<and> content ! i \<noteq> CHR 0x22 then
        (if content ! i = CHR 0x5C then
           (if i + 1 \<ge> length content then
              json_error pos ''expected escape sequence, but reached end of json string'' []
            else
              (let i1 = i + 1; pos1 = pos\<lparr>jp_col := jp_col pos + 1\<rparr>; c = content ! i1
               in case simple_escape c of
                    Some e \<Rightarrow> string_loop content (pos1\<lparr>jp_col := jp_col pos1 + 1\<rparr>) (i1 + 1) (txt @ [e])
                  | None \<Rightarrow>
                      if c = CHR ''u'' then
                        (case utf16_literal_to_utf8 content (pos1\<lparr>jp_offset := i1\<rparr>) [] of
                           (r, pos2, tmp) \<Rightarrow>
                             if r \<noteq> 0 then Inr (JSON_ERROR, pos2, tmp)
                             else string_loop content pos2 (jp_offset pos2) (txt @ tmp))
                      else json_error pos1
                             (''unknown escape sequence '' @ [CHR 0x27, CHR 0x5C] @ ''%s'' @ [CHR 0x27]) [chr_arg c]))
         else
           (let run = takeWhile in_run (drop i content)
            in string_loop content (pos\<lparr>jp_col := jp_col pos + int (length run)\<rparr>) (i + length run) (txt @ run)))
      else if data_at content i \<noteq> CHR 0x22 then
        json_error pos
          (''expected '' @ [CHR 0x27, CHR 0x22, CHR 0x27] @ '', but got '' @ [CHR 0x27] @ ''%s'' @ [CHR 0x27])
          [chr_arg (data_at content i)]
      else Inr (JSON_TOKEN_STRING, pos\<lparr>jp_offset := i + 1, jp_col := jp_col pos + 1\<rparr>, txt))"
  by pat_completeness auto
termination
  by (relation "measure (\<lambda>(content, pos, i, txt). length content - i)")
    (auto simp: run_nonempty dest!: utf16_forward)

declare string_loop.simps [simp del]

text \<open>
  \<open>data[i]\<close> is the opening quote when the caller is \<open>json_next_token_\<close>; the null checks of the pointers
  never fail.
\<close>

definition json_parse_string_token :: "string \<Rightarrow> json_pos \<Rightarrow> json_token lexed" where
  "json_parse_string_token content pos =
     (let i = jp_offset pos
      in if i \<ge> length content then json_error pos ''unexpected end of input when expecting string'' []
         else if content ! i \<noteq> CHR 0x22 then
           json_error pos (''expected '' @ [CHR 0x27, CHR 0x22, CHR 0x27] @ '' at start of string, got ''
             @ [CHR 0x27] @ ''%c'' @ [CHR 0x27]) [chr_arg (content ! i)]
         else string_loop content (pos\<lparr>jp_col := jp_col pos + 1\<rparr>) (i + 1) [])"

section \<open>White space and comments\<close>

text \<open>Each part of the loop returns the index, the position and whether it skipped anything.\<close>

function skip_spaces :: "string \<Rightarrow> nat \<Rightarrow> json_pos \<Rightarrow> bool \<Rightarrow> nat \<times> json_pos \<times> bool" where
  "skip_spaces content i pos skiped =
     (if i < length content \<and> JSON_IS_SPACE (content ! i) then
        (let i1 = i + 1; pos1 = pos\<lparr>jp_col := jp_col pos + 1\<rparr>;
             pos2 = (if data_at content i1 = CHR 0x0A then pos1\<lparr>jp_line := jp_line pos1 + 1, jp_col := 0\<rparr> else pos1)
         in skip_spaces content i1 (pos2\<lparr>jp_offset := i1\<rparr>) True)
      else (i, pos, skiped))"
  by pat_completeness auto
termination by (relation "measure (\<lambda>(content, i, pos, skiped). length content - i)") auto

declare skip_spaces.simps [simp del]

definition skip_line_comment :: "string \<Rightarrow> nat \<Rightarrow> json_pos \<Rightarrow> bool \<Rightarrow> nat \<times> json_pos \<times> bool" where
  "skip_line_comment content i pos skiped =
     (if i + 1 < length content \<and> content ! i = CHR ''/'' \<and> content ! (i + 1) = CHR ''/'' then
        (let i1 = i + 2 + length (takeWhile (\<lambda>c. c \<noteq> CHR 0x0A) (drop (i + 2) content))
         in (i1, pos\<lparr>jp_col := 0, jp_line := jp_line pos + 1, jp_offset := i1\<rparr>, True))
      else (i, pos, skiped))"

text \<open>\<open>while (i + 1 < len && data[i] != '*' && data[i + 1] != '/')\<close>.\<close>

function block_loop :: "string \<Rightarrow> nat \<Rightarrow> json_pos \<Rightarrow> nat \<times> json_pos" where
  "block_loop content i pos =
     (if i + 1 < length content \<and> content ! i \<noteq> CHR ''*'' \<and> content ! (i + 1) \<noteq> CHR ''/'' then
        (let i1 = i + 1; pos1 = pos\<lparr>jp_col := jp_col pos + 1\<rparr>
         in block_loop content i1
              (if content ! i1 = CHR 0x0A then pos1\<lparr>jp_line := jp_line pos1 + 1, jp_col := 0\<rparr> else pos1))
      else (i, pos))"
  by pat_completeness auto
termination by (relation "measure (\<lambda>(content, i, pos). length content - i)") auto

declare block_loop.simps [simp del]

definition skip_block_comment :: "string \<Rightarrow> nat \<Rightarrow> json_pos \<Rightarrow> bool \<Rightarrow> nat \<times> json_pos \<times> bool" where
  "skip_block_comment content i pos skiped =
     (if i + 1 < length content \<and> content ! i = CHR ''/'' \<and> content ! (i + 1) = CHR ''*'' then
        (let (i1, pos1) = block_loop content (i + 2) (pos\<lparr>jp_col := jp_col pos + 2\<rparr>)
         in (i1 + 2, pos1\<lparr>jp_col := jp_col pos1 + 2, jp_offset := i1 + 2\<rparr>, True))
      else (i, pos, skiped))"

definition skip_round :: "string \<Rightarrow> nat \<Rightarrow> json_pos \<Rightarrow> nat \<times> json_pos \<times> bool" where
  "skip_round content i pos =
     (let (i1, pos1, s1) = skip_spaces content i pos False;
          (i2, pos2, s2) = skip_line_comment content i1 pos1 s1
      in skip_block_comment content i2 pos2 s2)"

lemma skip_spaces_index:
  "skip_spaces content i pos s = (i', pos', s') \<Longrightarrow>
   i \<le> i' \<and> (i' = i \<and> s' = s \<and> pos' = pos \<or> i < i' \<and> i' \<le> length content \<and> s' \<and> jp_offset pos' = i')"
proof (induction content i pos s arbitrary: i' pos' s' rule: skip_spaces.induct)
  case (1 content i pos s)
  show ?case
  proof (cases "i < length content \<and> JSON_IS_SPACE (content ! i)")
    case True
    let ?p = "pos\<lparr>jp_col := jp_col pos + 1\<rparr>"
    let ?q = "if data_at content (i + 1) = CHR 0x0A then ?p\<lparr>jp_line := jp_line ?p + 1, jp_col := 0\<rparr> else ?p"
    have "skip_spaces content (i + 1) (?q\<lparr>jp_offset := i + 1\<rparr>) True = (i', pos', s')"
      using 1(2) True by (simp add: skip_spaces.simps [of content i] Let_def)
    from 1(1) [OF True refl refl refl this] show ?thesis using True by auto
  qed (use 1(2) in \<open>auto simp: skip_spaces.simps [of content i] split: if_splits\<close>)
qed

lemma block_loop_index: "block_loop content i pos = (i', pos') \<Longrightarrow> i \<le> i' \<and> (i' = i \<or> i' < length content)"
proof (induction content i pos arbitrary: i' pos' rule: block_loop.induct)
  case (1 content i pos)
  then show ?case
    by (cases "i + 1 < length content \<and> content ! i \<noteq> CHR ''*'' \<and> content ! (i + 1) \<noteq> CHR ''/''")
      (fastforce simp: block_loop.simps [of content i] Let_def)+
qed

lemma skip_round_index:
  "skip_round content i pos = (i', pos', s') \<Longrightarrow>
   i \<le> i' \<and> (\<not> s' \<and> i' = i \<and> pos' = pos \<or> s' \<and> i < i' \<and> i < length content \<and> i' \<le> length content + 2 \<and> jp_offset pos' = i')"
proof -
  assume r: "skip_round content i pos = (i', pos', s')"
  obtain i1 pos1 s1 where 1: "skip_spaces content i pos False = (i1, pos1, s1)" by (rule prod_cases3)
  obtain i2 pos2 s2 where 2: "skip_line_comment content i1 pos1 s1 = (i2, pos2, s2)" by (rule prod_cases3)
  have 3: "skip_block_comment content i2 pos2 s2 = (i', pos', s')" using r 1 2 by (simp add: skip_round_def)
  have a1: "i \<le> i1 \<and> (i1 = i \<and> \<not> s1 \<and> pos1 = pos \<or> i < i1 \<and> i1 \<le> length content \<and> s1 \<and> jp_offset pos1 = i1)"
    using skip_spaces_index [OF 1] by auto
  have le: "i1 + 2 + length (takeWhile (\<lambda>c. c \<noteq> CHR 0x0A) (drop (i1 + 2) content)) \<le> length content" if "i1 + 1 < length content"
    using length_takeWhile_le [of "\<lambda>c. c \<noteq> CHR 0x0A" "drop (i1 + 2) content"] that by simp
  then have a2: "i \<le> i2 \<and> (i2 = i \<and> \<not> s2 \<and> pos2 = pos \<or> i < i2 \<and> i2 \<le> length content \<and> s2 \<and> jp_offset pos2 = i2)"
    using a1 2 by (auto simp: skip_line_comment_def Let_def split: if_splits)
  obtain i3 pos3 where b: "block_loop content (i2 + 2) (pos2\<lparr>jp_col := jp_col pos2 + 2\<rparr>) = (i3, pos3)" by (rule prod.exhaust)
  show ?thesis using a2 3 b block_loop_index [OF b]
    by (auto simp: skip_block_comment_def Let_def split: if_splits)
qed

text \<open>\<open>do ... while (skiped)\<close>; the position of a text that has nothing to skip stays as it is.\<close>

function json_skip_loop :: "string \<Rightarrow> nat \<Rightarrow> json_pos \<Rightarrow> json_pos" where
  "json_skip_loop content i pos =
     (case skip_round content i pos of (i', pos', skiped) \<Rightarrow>
        if skiped then json_skip_loop content i' pos' else pos')"
  by pat_completeness auto
termination
  by (relation "measure (\<lambda>(content, i, pos). length content + 1 - i)")
    (auto dest!: skip_round_index [OF sym])

declare json_skip_loop.simps [simp del]

definition json_skip_space_comments :: "string \<Rightarrow> json_pos \<Rightarrow> json_pos" where
  "json_skip_space_comments content pos = json_skip_loop content (jp_offset pos) pos"

section \<open>The next token\<close>

text \<open>The index behind the digits that start at \<open>i\<close>.\<close>

definition digits_end :: "string \<Rightarrow> nat \<Rightarrow> nat" where
  "digits_end content i = i + length (takeWhile JSON_IS_DIGIT (drop i content))"

text \<open>The number that starts at \<open>i\<close>: its end and whether it is a floating point number.\<close>

definition scan_number :: "string \<Rightarrow> nat \<Rightarrow> nat \<times> bool" where
  "scan_number content i =
     (let i1 = (if content ! i \<noteq> CHR ''.'' then digits_end content (i + 1) else i);
          dot = i1 < length content \<and> content ! i1 = CHR ''.'';
          i2 = (if dot then digits_end content (i1 + 1) else i1);
          ex = i2 < length content \<and> (content ! i2 = CHR ''e'' \<or> content ! i2 = CHR ''E'');
          i3 = (if ex then
                  (let k = i2 + 1;
                       k' = (if k < length content \<and> (content ! k = CHR ''+'' \<or> content ! k = CHR ''-'') then k + 1 else k)
                   in digits_end content k')
                else i2)
      in (i3, dot \<or> ex))"

text \<open>\<open>memcmp(data + i, kw, n) == 0\<close> with no letter behind it.\<close>

definition at_keyword :: "string \<Rightarrow> nat \<Rightarrow> string \<Rightarrow> bool" where
  "at_keyword content i kw \<longleftrightarrow>
     (let n = length kw in i + n \<le> length content \<and> take n (drop i content) = kw
        \<and> (i + n \<ge> length content \<or> \<not> is_alpha (content ! (i + n))))"

definition punctuation :: "char \<Rightarrow> json_token option" where
  "punctuation c =
     (if c = CHR ''['' then Some JSON_TOKEN_LEFT_BRACKET else if c = CHR '']'' then Some JSON_TOKEN_RIGHT_BRACKET
      else if c = CHR ''{'' then Some JSON_TOKEN_LEFT_BRACE else if c = CHR ''}'' then Some JSON_TOKEN_RIGHT_BRACE
      else if c = CHR '':'' then Some JSON_TOKEN_COLON else if c = CHR '','' then Some JSON_TOKEN_COMMA
      else None)"

definition forward :: "nat \<Rightarrow> json_pos \<Rightarrow> json_pos" where
  "forward n pos = pos\<lparr>jp_col := jp_col pos + int n, jp_offset := jp_offset pos + n\<rparr>"

definition json_next_token :: "string \<Rightarrow> json_pos \<Rightarrow> json_token lexed" where
  "json_next_token content pos0 =
     (if jp_offset pos0 \<ge> length content then Inr (JSON_TOKEN_EOF, pos0, [])
      else
        (let pos = json_skip_space_comments content pos0; i = jp_offset pos
         in if i \<ge> length content then Inr (JSON_TOKEN_EOF, pos, [])
            else
              (let ch = content ! i
               in if ch = CHR 0x22 then json_parse_string_token content pos
                  else case punctuation ch of
                    Some tk \<Rightarrow> Inr (tk, forward 1 pos, [])
                  | None \<Rightarrow>
                      if JSON_IS_DIGIT ch \<or> ch = CHR ''-'' \<or> ch = CHR ''.'' then
                        (let (e, fl) = scan_number content i
                         in Inr (if fl then JSON_TOKEN_FLOAT else JSON_TOKEN_INT, forward (e - i) pos,
                                 take (e - i) (drop i content)))
                      else if at_keyword content i ''true'' then Inr (JSON_TOKEN_TRUE, forward 4 pos, ''true'')
                      else if at_keyword content i ''false'' then Inr (JSON_TOKEN_FALSE, forward 5 pos, ''false'')
                      else if at_keyword content i ''null'' then Inr (JSON_TOKEN_NULL, forward 4 pos, ''null'')
                      else
                        (let word = takeWhile is_alpha (drop i content); pos1 = forward (length word) pos
                         in bindE (PERROR pos1 ''unexpected identify %s'' [cs_arg word]) (\<lambda>e.
                              Inr (JSON_ERROR, pos1, word @ e))))))"

section \<open>Messages\<close>

text \<open>A message made of literal text and plain directives is printed; it never faults.\<close>

lemma PERROR_prefix:
  "CHR ''%'' \<notin> set m \<Longrightarrow> NUL \<notin> set m \<Longrightarrow>
   concat (map piece_fmt [Lit ''line '', Dec l, Lit '' col '', Dec c, Lit ('': error: '' @ m)]) = ''line %d col %d: error: '' @ m
   \<and> pieces_ok [Lit ''line '', Dec l, Lit '' col '', Dec c, Lit ('': error: '' @ m)]"
  by simp

lemma PERROR_text:
  assumes "CHR ''%'' \<notin> set m" and "NUL \<notin> set m"
  shows "\<exists>e. PERROR pos m [] = Inr e"
proof -
  let ?ps = "[Lit ''line '', Dec (word_of_int (jp_line pos)), Lit '' col '', Dec (word_of_int (jp_col pos)), Lit ('': error: '' @ m)]"
  note p = PERROR_prefix [OF assms, of "word_of_int (jp_line pos)" "word_of_int (jp_col pos)"]
  obtain b where "vslprintf_loop no_floats sstr_new (concat (map piece_fmt ?ps)) (concat (map piece_args ?ps)) = Inr b" "sstr_ok b"
    using vslprintf_pieces [of sstr_new ?ps no_floats] p by auto
  then show ?thesis using pieces_no_nul [of ?ps] p
    by (simp add: PERROR_def sstr_printf_def sstr_vslprintf_def sstr_vslprintf_append_def cstr_whole sstr_data_ok)
qed

lemma PERROR_string:
  assumes "CHR ''%'' \<notin> set m" and "NUL \<notin> set m" and "CHR ''%'' \<notin> set t" and "NUL \<notin> set t" and "NUL \<notin> set s"
  shows "\<exists>e. PERROR pos (m @ ''%s'' @ t) [cs_arg s] = Inr e"
proof -
  let ?ps = "[Lit ''line '', Dec (word_of_int (jp_line pos)), Lit '' col '', Dec (word_of_int (jp_col pos)),
      Lit ('': error: '' @ m), Str s] @ (if t = [] then [] else [Lit t])"
  have ok: "pieces_ok ?ps" using assms by simp
  obtain b where b: "vslprintf_loop no_floats sstr_new (concat (map piece_fmt ?ps)) (concat (map piece_args ?ps)) = Inr b" "sstr_ok b"
    using vslprintf_pieces [OF sstr_new_ok(1) ok, of no_floats] by blast
  have f: "concat (map piece_fmt ?ps) = ''line %d col %d: error: '' @ m @ ''%s'' @ t" by simp
  have a: "concat (map piece_args ?ps) = [A_int (word_of_int (jp_line pos)), A_int (word_of_int (jp_col pos)), cs_arg s]"
    by (simp add: cs_arg_def)
  show ?thesis using cstr_whole [OF pieces_no_nul [OF ok]] b(2) b(1)[unfolded f a] unfolding f
    by (simp add: PERROR_def sstr_printf_def sstr_vslprintf_def sstr_vslprintf_append_def sstr_data_ok del: vslprintf_loop.simps)
qed

text \<open>A character where the message reads a string.\<close>

lemma PERROR_bad:
  assumes "CHR ''%'' \<notin> set m" and "NUL \<notin> set m" and "NUL \<notin> set t"
  shows "PERROR pos (m @ ''%s'' @ t) [chr_arg c] = Inl Bad_vararg"
proof -
  let ?ps = "[Lit ''line '', Dec (word_of_int (jp_line pos)), Lit '' col '', Dec (word_of_int (jp_col pos)), Lit ('': error: '' @ m)]"
  note p = PERROR_prefix [OF assms(1,2), of "word_of_int (jp_line pos)" "word_of_int (jp_col pos)"]
  obtain b where b: "vslprintf_loop no_floats sstr_new (concat (map piece_fmt ?ps) @ ''%s'' @ t) (concat (map piece_args ?ps) @ [chr_arg c])
      = vslprintf_loop no_floats b (''%s'' @ t) [chr_arg c]"
    using vslprintf_pieces_then [OF sstr_new_ok(1), of ?ps "''%s'' @ t" no_floats "[chr_arg c]"] p by auto
  have "cstr (''line %d col %d: error: '' @ m @ ''%s'' @ t) = ''line %d col %d: error: '' @ m @ ''%s'' @ t"
    using assms by (intro cstr_whole) auto
  then show ?thesis using b p
    by (simp add: PERROR_def sstr_printf_def sstr_vslprintf_def sstr_vslprintf_append_def chr_arg_def
        vslprintf_bad_string del: vslprintf_loop.simps)
qed

section \<open>Escapes\<close>

text \<open>The value of four hexadecimal digits, and the UTF-8 bytes of a code point.\<close>

definition hex_nat :: "char \<Rightarrow> nat option" where
  "hex_nat c = (if is_digit c then Some (ord c - 48)
     else if 65 \<le> ord c \<and> ord c \<le> 70 then Some (ord c - 55)
     else if 97 \<le> ord c \<and> ord c \<le> 102 then Some (ord c - 87) else None)"

definition utf8_encode :: "nat \<Rightarrow> nat list" where
  "utf8_encode n =
     (if n < 0x80 then [n]
      else if n < 0x800 then [0xC0 + n div 64, 0x80 + n mod 64]
      else if n < 0x10000 then [0xE0 + n div 4096, 0x80 + n div 64 mod 64, 0x80 + n mod 64]
      else [0xF0 + n div 262144, 0x80 + n div 4096 mod 64, 0x80 + n div 64 mod 64, 0x80 + n mod 64])"

lemma hex_value_nat: "hex_value c = map_option of_nat (hex_nat c)"
proof -
  have "ord CHR ''0'' = (48::nat)" "ord CHR ''9'' = (57::nat)" "ord CHR ''A'' = (65::nat)" "ord CHR ''F'' = (70::nat)"
    "ord CHR ''a'' = (97::nat)" "ord CHR ''f'' = (102::nat)" by code_simp+
  then show ?thesis by (auto simp: hex_value_def hex_nat_def is_digit_def of_nat_diff)
qed

lemma parse_hex4_digits:
  assumes "hex_nat a = Some x" "hex_nat b = Some y" "hex_nat c = Some z" "hex_nat d = Some w"
  shows "parse_hex4 (a # b # c # d # r) = of_nat (4096 * x + 256 * y + 16 * z + w)"
  using assms by (cases r) (simp_all add: parse_hex4_def hex_value_nat push_bit_eq_mult algebra_simps)

lemma tail_byte: "ucast ((cp OR 0x80) AND 0xBF) = (of_nat (0x80 + unat cp mod 64) :: u8)" for cp :: u32
proof -
  have all: "\<forall>n\<in>set [0..<256]. ((word_of_nat n :: u8) OR 0x80) AND 0xBF = word_of_nat (0x80 + n mod 64)" by code_simp
  have b: "(ucast cp OR 0x80) AND 0xBF = (of_nat (0x80 + unat (ucast cp :: u8) mod 64) :: u8)"
    using all [rule_format, of "unat (ucast cp :: u8)"] unsigned_less [where ?'a = nat and w = "ucast cp :: u8"] by simp
  have "ucast ((cp OR 0x80) AND 0xBF) = (ucast cp OR 0x80) AND (0xBF :: u8)"
    by (simp add: bit_eq_iff bit_simps)
  moreover have "unat (ucast cp :: u8) mod 64 = unat cp mod 64"
    by (simp add: unsigned_ucast_eq take_bit_eq_mod mod_mod_cancel)
  ultimately show ?thesis using b by simp
qed

lemma utf8_tail_step:
  "utf8_tail cp (Suc n) acc = utf8_tail (drop_bit 6 cp) n (of_nat (0x80 + unat cp mod 64) # acc)"
  by (simp add: tail_byte utf8_tail.simps(2))

declare utf8_tail.simps(2) [simp del]

lemma unat_drop: "unat (drop_bit n (cp :: u32)) = unat cp div 2 ^ n"
  unfolding unat_drop_bit_eq by (rule drop_bit_eq_div)

lemma utf8_tail_eq:
  "utf8_tail cp (Suc 0) acc = (drop_bit 6 cp, of_nat (0x80 + unat cp mod 64) # acc)"
  "utf8_tail cp (Suc (Suc 0)) acc = (drop_bit 12 cp, of_nat (0x80 + unat cp div 64 mod 64) # of_nat (0x80 + unat cp mod 64) # acc)"
  "utf8_tail cp (Suc (Suc (Suc 0))) acc = (drop_bit 18 cp, of_nat (0x80 + unat cp div 4096 mod 64) # of_nat (0x80 + unat cp div 64 mod 64)
      # of_nat (0x80 + unat cp mod 64) # acc)"
  by (simp_all add: utf8_tail_step unat_drop del: of_nat_add)

lemma utf8_tail_num:
  "utf8_tail cp 2 acc = utf8_tail cp (Suc (Suc 0)) acc" "utf8_tail cp 3 acc = utf8_tail cp (Suc (Suc (Suc 0))) acc"
  by (simp_all only: numeral_2_eq_2 numeral_3_eq_3)

lemma first_byte:
  "\<forall>n\<in>set [0..<32]. ucast ((word_of_nat n OR 0xC0 :: u32) AND 0xFF) = (word_of_nat (0xC0 + n) :: u8)"
  "\<forall>n\<in>set [0..<16]. ucast ((word_of_nat n OR 0xE0 :: u32) AND 0xFF) = (word_of_nat (0xE0 + n) :: u8)"
  "\<forall>n\<in>set [0..<5]. ucast ((word_of_nat n OR 0xF0 :: u32) AND 0xFF) = (word_of_nat (0xF0 + n) :: u8)"
  "\<forall>n\<in>set [0..<128]. ucast (word_of_nat n AND 0x7F :: u32) = (word_of_nat n :: u8)"
  by code_simp+

lemma utf8_of_encode:
  assumes "unat cp \<le> 0x10FFFF"
  shows "utf8_of cp = Some (map of_nat (utf8_encode (unat cp)))"
proof -
  let ?n = "unat cp"
  have w: "word_of_nat (unat x) = x" for x :: u32 by simp
  have d: "unat (drop_bit 6 cp) = ?n div 64" "unat (drop_bit 12 cp) = ?n div 4096" "unat (drop_bit 18 cp) = ?n div 262144"
    by (simp_all add: unat_drop)
  consider "?n < 0x80" | "\<not> ?n < 0x80" "?n < 0x800" | "\<not> ?n < 0x80" "\<not> ?n < 0x800" "?n < 0x10000"
    | "\<not> ?n < 0x80" "\<not> ?n < 0x800" "\<not> ?n < 0x10000" by blast
  then show ?thesis
  proof cases
    case 1
    then have "ucast (cp AND 0x7F) = (word_of_nat ?n :: u8)"
      using first_byte(4) [rule_format, of ?n] w [of cp] by simp
    then show ?thesis using 1 by (simp add: utf8_of_def utf8_encode_def word_less_nat_alt)
  next
    case 2
    have "?n div 64 < 32" using 2 by (simp add: less_mult_imp_div_less)
    then have "ucast ((drop_bit 6 cp OR 0xC0) AND 0xFF) = (word_of_nat (0xC0 + ?n div 64) :: u8)"
      using first_byte(1) [rule_format, of "?n div 64"] d(1) w [of "drop_bit 6 cp"] by simp
    then show ?thesis using 2 by (simp add: utf8_of_def utf8_encode_def word_less_nat_alt utf8_tail_eq del: of_nat_add)
  next
    case 3
    have "?n div 4096 < 16" using 3 by (simp add: less_mult_imp_div_less)
    then have "ucast ((drop_bit 12 cp OR 0xE0) AND 0xFF) = (word_of_nat (0xE0 + ?n div 4096) :: u8)"
      using first_byte(2) [rule_format, of "?n div 4096"] d(2) w [of "drop_bit 12 cp"] by simp
    then show ?thesis using 3 by (simp add: utf8_of_def utf8_encode_def word_less_nat_alt utf8_tail_eq utf8_tail_num del: of_nat_add)
  next
    case 4
    have "?n div 262144 < 5" using assms by (simp add: less_mult_imp_div_less)
    then have "ucast ((drop_bit 18 cp OR 0xF0) AND 0xFF) = (word_of_nat (0xF0 + ?n div 262144) :: u8)"
      using first_byte(3) [rule_format, of "?n div 262144"] d(3) w [of "drop_bit 18 cp"] by simp
    then show ?thesis using 4 assms
      by (simp add: utf8_of_def utf8_encode_def word_less_nat_alt word_le_nat_alt utf8_tail_eq utf8_tail_num del: of_nat_add)
  qed
qed

lemma char_of_byte_nat: "char_of_byte (of_nat x) = char_of x"
  by (simp add: char_of_byte_def unat_of_nat)

text \<open>The value of exactly four hexadecimal digits.\<close>

definition hex4_value :: "string \<Rightarrow> nat option" where
  "hex4_value s = (case map hex_nat s of
     [Some x, Some y, Some z, Some w] \<Rightarrow> Some (4096 * x + 256 * y + 16 * z + w) | _ \<Rightarrow> None)"

lemma hex_nat_bound: "hex_nat c = Some x \<Longrightarrow> x < 16"
  by (auto simp: hex_nat_def is_digit_def split: if_splits)

lemma hex4_valueE:
  assumes "hex4_value s = Some n"
  obtains a b c d where "s = [a, b, c, d]" "\<And>r. parse_hex4 (s @ r) = of_nat n" "n < 0x10000"
proof -
  obtain a b c d x y z w where s: "s = [a, b, c, d]" and h: "hex_nat a = Some x" "hex_nat b = Some y"
      "hex_nat c = Some z" "hex_nat d = Some w" "n = 4096 * x + 256 * y + 16 * z + w"
    using assms by (auto simp: hex4_value_def split: list.splits option.splits)
  have "n < 0x10000" using h hex_nat_bound [OF h(1)] hex_nat_bound [OF h(2)] hex_nat_bound [OF h(3)] hex_nat_bound [OF h(4)]
    by simp
  then show thesis using that [of a b c d] s parse_hex4_digits [OF h(1-4)] h(5) by simp
qed

lemma u32_nat_cmp:
  assumes "n < 0x10000"
  shows "(of_nat n :: u32) \<ge> 0xDC00 \<longleftrightarrow> n \<ge> 0xDC00" "(of_nat n :: u32) \<le> 0xDFFF \<longleftrightarrow> n \<le> 0xDFFF"
    "(of_nat n :: u32) \<ge> 0xD800 \<longleftrightarrow> n \<ge> 0xD800" "(of_nat n :: u32) \<le> 0xDBFF \<longleftrightarrow> n \<le> 0xDBFF"
    "(of_nat n :: u32) < 0xDC00 \<longleftrightarrow> n < 0xDC00" "0xDFFF < (of_nat n :: u32) \<longleftrightarrow> 0xDFFF < n"
  using assms by (simp_all add: word_le_nat_alt word_less_nat_alt unat_of_nat)

lemma and_3ff: "x AND 0x3FF = take_bit 10 (x :: u32)"
  by (simp add: take_bit_eq_mask mask_eq_exp_minus_1)

lemma take_bit_of_nat: "a < 1024 \<Longrightarrow> take_bit 10 (of_nat (1024 * k + a) :: u32) = of_nat a"
proof -
  assume "a < 1024"
  then have "take_bit 10 (1024 * k + a) = a" by (simp add: take_bit_eq_mod)
  then show ?thesis by (metis take_bit_of_nat)
qed

lemma push_or_take: "push_bit 10 a OR take_bit 10 b = push_bit 10 a + take_bit 10 (b :: u32)"
  by (rule disjunctive_add_eq_or [symmetric]) (auto simp: bit_eq_iff bit_simps)

lemma surrogate_value:
  assumes "0xD800 \<le> n" "n \<le> 0xDBFF" "0xDC00 \<le> m" "m \<le> 0xDFFF"
  shows "surrogate_code (of_nat n) (of_nat m) = (of_nat (0x10000 + (n - 0xD800) * 1024 + (m - 0xDC00)) :: u32)"
proof -
  define a b where "a = n - 0xD800" and "b = m - 0xDC00"
  have n: "n = 1024 * 54 + a" "a < 1024" and m: "m = 1024 * 55 + b" "b < 1024" using assms by (simp_all add: a_def b_def)
  have "of_nat n AND 0x3FF = (of_nat a :: u32)" unfolding and_3ff n(1) by (rule take_bit_of_nat [OF n(2)])
  moreover have tb: "of_nat m AND 0x3FF = (of_nat b :: u32)" unfolding and_3ff m(1) by (rule take_bit_of_nat [OF m(2)])
  moreover have "push_bit 10 (of_nat a) OR (of_nat m AND 0x3FF) = push_bit 10 (of_nat a) + (of_nat m AND 0x3FF :: u32)"
    unfolding and_3ff by (rule push_or_take)
  ultimately show ?thesis by (simp add: surrogate_code_def push_bit_eq_mult a_def [symmetric] b_def [symmetric])
qed

lemma utf16_digits:
  assumes "hex4_value hs = Some n" and "post \<noteq> []"
  shows "parse_hex4 (drop (Suc (length pre)) (pre @ CHR ''u'' # hs @ post)) = of_nat n"
    "\<not> length pre + 5 \<ge> length (pre @ CHR ''u'' # hs @ post)" "n < 0x10000" "length hs = 4"
proof -
  obtain a b c d where "hs = [a, b, c, d]" "\<And>r. parse_hex4 (hs @ r) = of_nat n" "n < 0x10000"
    using hex4_valueE [OF assms(1)] by metis
  then show "parse_hex4 (drop (Suc (length pre)) (pre @ CHR ''u'' # hs @ post)) = of_nat n"
    "\<not> length pre + 5 \<ge> length (pre @ CHR ''u'' # hs @ post)" "n < 0x10000" "length hs = 4"
    using assms(2) by (simp_all add: Suc_le_eq)
qed

lemma utf16_bmp:
  assumes "hex4_value hs = Some n" and "post \<noteq> []" and "jp_offset pos = length pre" and "\<not> (0xD800 \<le> n \<and> n \<le> 0xDFFF)"
  shows "utf16_literal_to_utf8 (pre @ CHR ''u'' # hs @ post) pos t = (0, forward 5 pos, t @ map char_of (utf8_encode n))"
proof -
  note d = utf16_digits(1,2) [OF assms(1,2), of pre] utf16_digits(3,4) [OF assms(1,2)]
  have "unat (of_nat n :: u32) = n" using d(3) by (simp add: unat_of_nat)
  then show ?thesis using d assms(3,4) utf8_of_encode [of "of_nat n"]
    by (auto simp: utf16_literal_to_utf8_def Let_def u32_nat_cmp forward_def char_of_byte_nat o_def)
qed

lemma utf16_lone_low:
  assumes "hex4_value hs = Some n" and "post \<noteq> []" and "jp_offset pos = length pre" and "0xDC00 \<le> n" "n \<le> 0xDFFF"
  shows "fst (utf16_literal_to_utf8 (pre @ CHR ''u'' # hs @ post) pos t) = -1"
  using utf16_digits(1,2) [OF assms(1,2), of pre] utf16_digits(3) [OF assms(1,2)] assms(3-) by (simp add: utf16_literal_to_utf8_def Let_def u32_nat_cmp)

lemma utf16_pair:
  assumes "hex4_value hs = Some n" and "hex4_value hs2 = Some m" and "post2 \<noteq> []" and "jp_offset pos = length pre"
    and sur: "0xD800 \<le> n" "n \<le> 0xDBFF" "0xDC00 \<le> m" "m \<le> 0xDFFF"
  shows "utf16_literal_to_utf8 (pre @ CHR ''u'' # hs @ CHR 0x5C # CHR ''u'' # hs2 @ post2) pos t
    = (0, forward 11 pos, t @ map char_of (utf8_encode (0x10000 + (n - 0xD800) * 1024 + (m - 0xDC00))))"
proof -
  let ?post = "CHR 0x5C # CHR ''u'' # hs2 @ post2" and ?cp = "0x10000 + (n - 0xD800) * 1024 + (m - 0xDC00)"
  let ?content = "pre @ CHR ''u'' # hs @ ?post"
  note d1 = utf16_digits(1,2) [OF assms(1), of ?post pre, simplified] utf16_digits(3,4) [OF assms(1), of ?post, simplified]
  obtain a b c d where hs: "hs = [a, b, c, d]" using hex4_valueE [OF assms(1)] by metis
  obtain e f g h where hs2: "hs2 = [e, f, g, h]" and v2: "\<And>r. parse_hex4 (hs2 @ r) = of_nat m" and m: "m < 0x10000"
    using hex4_valueE [OF assms(2)] by metis
  have drop7: "drop (length pre + 7) ?content = hs2 @ post2" using hs by simp
  have at: "?content ! (length pre + 5) = CHR 0x5C" "?content ! (6 + length pre) = CHR ''u''"
    using hs by (simp_all add: nth_append eval_nat_numeral)
  have "parse_hex4 (drop (length pre + 7) ?content) = of_nat m" unfolding drop7 by (rule v2)
  moreover have "\<not> length pre + 11 \<ge> length ?content" using hs hs2 assms(3) by (cases post2) simp_all
  moreover have "?cp \<le> 0x10FFFF" using sur by simp
  moreover have "unat (of_nat ?cp :: u32) = ?cp" unfolding unat_of_nat by (rule mod_less) (use sur in simp)
  moreover have "utf8_of (of_nat ?cp) = Some (map of_nat (utf8_encode ?cp))"
    using utf8_of_encode [of "of_nat ?cp"] calculation by metis
  moreover have "utf8_of (surrogate_code (of_nat n) (of_nat m)) = Some (map of_nat (utf8_encode ?cp))"
    unfolding surrogate_value [OF sur] by (rule calculation(5))
  ultimately show ?thesis using sur d1 m at assms(4)
    by (simp add: utf16_literal_to_utf8_def Let_def u32_nat_cmp forward_def char_of_byte_nat o_def)
qed

section \<open>Reading back an escaped string\<close>

text \<open>What the escaping of \<open>sstr_json_escape_string_append\<close> writes is read back.\<close>

lemma hex_nat_digit: "r < 16 \<Longrightarrow> hex_nat (hex_digit False r) = Some r"
proof -
  assume "r < 16"
  then have "r = 0 \<or> r = 1 \<or> r = 2 \<or> r = 3 \<or> r = 4 \<or> r = 5 \<or> r = 6 \<or> r = 7 \<or> r = 8 \<or> r = 9
    \<or> r = 10 \<or> r = 11 \<or> r = 12 \<or> r = 13 \<or> r = 14 \<or> r = 15" by arith
  then show ?thesis by (elim disjE) (simp_all add: hex_nat_def is_digit_def hex_digit_def)
qed

lemma hex4_value_hex4:
  assumes "n < 65536"
  shows "hex4_value (hex4 n) = Some n"
proof -
  have "n div 256 = n div 16 div 16" "n div 4096 = n div 16 div 16 div 16" by (simp_all add: div_mult2_eq [symmetric])
  moreover have "n div 16 div 16 div 16 < 16" using assms by (simp add: div_mult2_eq [symmetric] less_mult_imp_div_less)
  moreover note div_mult_mod_eq [of n 16] div_mult_mod_eq [of "n div 16" 16] div_mult_mod_eq [of "n div 16 div 16" 16]
  ultimately have "4096 * (n div 4096) + 256 * (n div 256 mod 16) + 16 * (n div 16 mod 16) + n mod 16 = n"
    "n div 4096 < 16" by (simp_all only: mod_less)
  then show ?thesis by (simp add: hex4_value_def hex4_def hex_nat_digit)
qed

lemma simple_escape_char:
  "needs_escape c \<Longrightarrow> (\<exists>e. json_escape_char c = [CHR 0x5C, e] \<and> simple_escape e = Some c) \<or>
     json_escape_char c = CHR 0x5C # CHR ''u'' # hex4 (ord c) \<and> ord c < 32"
proof -
  assume n: "needs_escape c"
  let ?set = "{CHR 0x22, CHR 0x5C, CHR 0x08, CHR 0x0C, CHR 0x0A, CHR 0x0D, CHR 0x09}"
  show ?thesis
  proof (cases "c \<in> ?set")
    case True
    then have "\<exists>e. json_escape_char c = [CHR 0x5C, e] \<and> simple_escape e = Some c"
      by (elim insertE emptyE) (simp_all add: json_escape_char_def simple_escape_def)
    then show ?thesis ..
  next
    case False
    then have "json_escape_char c = CHR 0x5C # CHR ''u'' # hex4 (ord c)" by (simp add: json_escape_char_def)
    moreover have "ord c < 32" using n False by (simp add: needs_escape_def)
    ultimately show ?thesis by blast
  qed
qed

lemma string_loop_escape:
  assumes esc: "needs_escape c" and i: "i = length pre" and content: "content = pre @ json_escape_char c @ post" and "post \<noteq> []"
  shows "\<exists>col off. string_loop content pos i t
    = string_loop content (pos\<lparr>jp_col := col, jp_offset := off\<rparr>) (i + length (json_escape_char c)) (t @ [c])"
  using simple_escape_char [OF esc]
proof
  assume "\<exists>e. json_escape_char c = [CHR 0x5C, e] \<and> simple_escape e = Some c"
  then obtain e where e: "json_escape_char c = [CHR 0x5C, e]" "simple_escape e = Some c" by blast
  then have "content ! i = CHR 0x5C" "content ! Suc i = e" "Suc i < length content"
    using content i by (simp_all add: nth_append)
  then have "string_loop content pos i t
      = string_loop content (pos\<lparr>jp_col := jp_col pos + 1, jp_col := jp_col pos + 1 + 1\<rparr>) (i + 2) (t @ [c])"
    using e(2) by (subst string_loop.simps) (simp add: Let_def)
  then show ?thesis using e(1) by (intro exI [of _ "jp_col pos + 1 + 1"] exI [of _ "jp_offset pos"]) simp
next
  assume a: "json_escape_char c = CHR 0x5C # CHR ''u'' # hex4 (ord c) \<and> ord c < 32"
  then have at: "content ! i = CHR 0x5C" "content ! Suc i = CHR ''u''" "Suc i < length content"
    using content i by (simp_all add: nth_append)
  let ?p = "pos\<lparr>jp_col := jp_col pos + 1, jp_offset := Suc i\<rparr>"
  have h: "hex4_value (hex4 (ord c)) = Some (ord c)" using a by (intro hex4_value_hex4) simp
  have c: "content = (pre @ [CHR 0x5C]) @ CHR ''u'' # hex4 (ord c) @ post" using content a by simp
  have enc: "map char_of (utf8_encode (ord c)) = [c]" using a by (simp add: utf8_encode_def)
  have "utf16_literal_to_utf8 content ?p [] = (0, forward 5 ?p, [c])"
    unfolding c using utf16_bmp [OF h assms(4), of ?p "pre @ [CHR 0x5C]" "[]"] i a enc by simp
  moreover have "simple_escape (CHR ''u'') = None" by code_simp
  moreover have "jp_offset (forward 5 ?p) = i + 6" by (simp add: forward_def)
  ultimately have "string_loop content pos i t = string_loop content (forward 5 ?p) (i + 6) (t @ [c])"
    using at by (subst string_loop.simps) (simp add: Let_def)
  moreover have "length (json_escape_char c) = 6" using a by (simp add: hex4_def)
  moreover have "forward 5 ?p = pos\<lparr>jp_col := jp_col (forward 5 ?p), jp_offset := jp_offset (forward 5 ?p)\<rparr>"
    by (simp add: forward_def)
  ultimately show ?thesis by metis
qed

lemma string_loop_clean:
  assumes "content = pre @ run @ d # post" and "i = length pre" and "run \<noteq> []" and "list_all in_run run" and "\<not> in_run d"
  shows "string_loop content pos i t
    = string_loop content (pos\<lparr>jp_col := jp_col pos + int (length run)\<rparr>) (i + length run) (t @ run)"
proof -
  have tw: "takeWhile in_run (drop i content) = run"
    using assms by (simp add: takeWhile_append2 list_all_iff takeWhile_append)
  have "i < length content" "in_run (content ! i)"
    using assms by (cases run; simp add: nth_append)+
  then show ?thesis using tw by (subst string_loop.simps) (simp add: Let_def)
qed

lemma string_loop_escaped:
  assumes "content = pre @ json_escape s @ CHR 0x22 # post" and "i = length pre"
  shows "\<exists>col. string_loop content pos i t = Inr (JSON_TOKEN_STRING,
      pos\<lparr>jp_col := col, jp_offset := length pre + length (json_escape s) + 1\<rparr>, t @ s)"
  using assms
proof (induction "length s" arbitrary: s pre pos i t rule: less_induct)
  case less
  show ?case
  proof (cases s)
    case Nil
    then show ?thesis using less.prems
      by (subst string_loop.simps) (simp add: nth_append data_at_def, intro exI [of _ "jp_col pos + 1"], simp)
  next
    case (Cons c s')
    show ?thesis
    proof (cases "needs_escape c")
      case True
      have e: "json_escape s = json_escape_char c @ json_escape s'" using True Cons by (simp add: json_escape_def)
      obtain cl off where step: "string_loop content pos i t
          = string_loop content (pos\<lparr>jp_col := cl, jp_offset := off\<rparr>) (i + length (json_escape_char c)) (t @ [c])"
        using string_loop_escape [OF True less.prems(2), of content "json_escape s' @ CHR 0x22 # post" pos t] less.prems(1) e by auto
      obtain col where "string_loop content (pos\<lparr>jp_col := cl, jp_offset := off\<rparr>) (i + length (json_escape_char c)) (t @ [c]) = Inr (JSON_TOKEN_STRING,
          pos\<lparr>jp_col := cl, jp_offset := off, jp_col := col, jp_offset := length (pre @ json_escape_char c) + length (json_escape s') + 1\<rparr>, (t @ [c]) @ s')"
        using less.hyps [of s' "pre @ json_escape_char c" "i + length (json_escape_char c)" "pos\<lparr>jp_col := cl, jp_offset := off\<rparr>" "t @ [c]"] less.prems e Cons by auto
      then show ?thesis unfolding step using Cons e by (intro exI [of _ col]) (simp add: add.assoc)
    next
      case False
      let ?clean = "\<lambda>x. \<not> needs_escape x"
      let ?run = "takeWhile ?clean s" and ?rest = "dropWhile ?clean s"
      have e: "json_escape s = ?run @ json_escape ?rest" by (rule json_escape_takeWhile)
      obtain d q where d: "json_escape ?rest @ CHR 0x22 # post = d # q" "\<not> in_run d"
      proof (cases ?rest)
        case (Cons x xs)
        then have "needs_escape x" using hd_dropWhile [of ?clean s] by simp
        then show ?thesis using simple_escape_char [of x] that Cons by (auto simp: json_escape_Cons)
      next
        case Nil
        then show ?thesis using that [of "CHR 0x22" post] by (simp del: dropWhile_eq_Nil_conv)
      qed
      have shorter: "length ?rest < length s" using False Cons by (simp add: less_Suc_eq_le length_dropWhile_le)
      have ne: "?run \<noteq> []" using False Cons by simp
      have all: "list_all in_run ?run" by (auto simp: list_all_iff needs_escape_def dest!: set_takeWhileD)
      have step: "string_loop content pos i t
          = string_loop content (pos\<lparr>jp_col := jp_col pos + int (length ?run)\<rparr>) (i + length ?run) (t @ ?run)"
        using string_loop_clean [OF _ less.prems(2) ne all d(2), of content q pos t] less.prems(1) e d(1) by simp
      obtain col where "string_loop content (pos\<lparr>jp_col := jp_col pos + int (length ?run)\<rparr>) (i + length ?run) (t @ ?run) = Inr (JSON_TOKEN_STRING,
          pos\<lparr>jp_col := jp_col pos + int (length ?run), jp_col := col, jp_offset := length (pre @ ?run) + length (json_escape ?rest) + 1\<rparr>, (t @ ?run) @ ?rest)"
        using less.hyps [OF shorter, of "pre @ ?run" "i + length ?run" "pos\<lparr>jp_col := jp_col pos + int (length ?run)\<rparr>" "t @ ?run"] less.prems e by auto
      moreover have "length (json_escape s) = length ?run + length (json_escape ?rest)"
        using arg_cong [OF e, of length] by (simp only: length_append)
      ultimately show ?thesis unfolding step by (intro exI [of _ col]) (simp add: add.assoc)
    qed
  qed
qed

section \<open>Skipping white space\<close>

lemma skip_round_nothing:
  assumes "i < length content" and "\<not> JSON_IS_SPACE (content ! i)" and "content ! i \<noteq> CHR ''/''"
  shows "skip_round content i pos = (i, pos, False)"
  using assms by (subst skip_round_def) (simp add: skip_spaces.simps [of content i] skip_line_comment_def skip_block_comment_def)

lemma skip_space_nothing:
  assumes "i < length content" and "\<not> JSON_IS_SPACE (content ! i)" and "content ! i \<noteq> CHR ''/''" and "jp_offset pos = i"
  shows "json_skip_space_comments content pos = pos"
  using skip_round_nothing [OF assms(1-3)] assms(4) by (simp add: json_skip_space_comments_def json_skip_loop.simps [of content i])

lemma skip_spaces_run:
  assumes "content = pre @ ws @ c # post" and "list_all JSON_IS_SPACE ws" and "\<not> JSON_IS_SPACE c" and "i = length pre"
  shows "\<exists>ln cl. skip_spaces content i pos s = (i + length ws,
      (if ws = [] then pos else pos\<lparr>jp_line := ln, jp_col := cl, jp_offset := i + length ws\<rparr>), s \<or> ws \<noteq> [])"
  using assms
proof (induction ws arbitrary: pre i pos s)
  case Nil
  then show ?case by (subst skip_spaces.simps) (simp add: nth_append)
next
  case (Cons w ws)
  let ?p = "pos\<lparr>jp_col := jp_col pos + 1\<rparr>"
  let ?q = "(if data_at content (i + 1) = CHR 0x0A then ?p\<lparr>jp_line := jp_line ?p + 1, jp_col := 0\<rparr> else ?p)\<lparr>jp_offset := i + 1\<rparr>"
  have "skip_spaces content i pos s = skip_spaces content (i + 1) ?q True"
    using Cons.prems by (subst skip_spaces.simps) (simp add: nth_append Let_def)
  moreover obtain ln cl where "skip_spaces content (i + 1) ?q True = (i + 1 + length ws,
      (if ws = [] then ?q else ?q\<lparr>jp_line := ln, jp_col := cl, jp_offset := i + 1 + length ws\<rparr>), True)"
    using Cons.IH [of "pre @ [w]" "i + 1" ?q True] Cons.prems by auto
  ultimately show ?case
    by (intro exI [of _ "jp_line (if ws = [] then ?q else ?q\<lparr>jp_line := ln\<rparr>)"]
        exI [of _ "jp_col (if ws = [] then ?q else ?q\<lparr>jp_col := cl\<rparr>)"]) simp
qed

lemma skip_space_run:
  assumes "content = pre @ ws @ c # post" and "list_all JSON_IS_SPACE ws" and "\<not> JSON_IS_SPACE c" and "c \<noteq> CHR ''/''"
    and "jp_offset pos = length pre"
  shows "\<exists>ln cl. json_skip_space_comments content pos = pos\<lparr>jp_line := ln, jp_col := cl, jp_offset := length pre + length ws\<rparr>"
proof -
  let ?i = "length pre + length ws"
  obtain ln cl where r: "skip_spaces content (length pre) pos False = (?i,
      (if ws = [] then pos else pos\<lparr>jp_line := ln, jp_col := cl, jp_offset := ?i\<rparr>), ws \<noteq> [])"
    using skip_spaces_run [OF assms(1-3) refl, of pos False] by auto
  have at: "?i < length content" "content ! ?i = c" using assms(1) by (simp_all add: nth_append)
  show ?thesis
  proof (cases "ws = []")
    case True
    then show ?thesis using skip_space_nothing [of ?i content pos] at assms(3-5)
      by (intro exI [of _ "jp_line pos"] exI [of _ "jp_col pos"]) simp
  next
    case False
    then have "skip_round content (length pre) pos = (?i, pos\<lparr>jp_line := ln, jp_col := cl, jp_offset := ?i\<rparr>, True)"
      using r at assms(4) by (simp add: skip_round_def skip_line_comment_def skip_block_comment_def)
    then have "json_skip_loop content (length pre) pos = pos\<lparr>jp_line := ln, jp_col := cl, jp_offset := ?i\<rparr>"
      using skip_round_nothing [of ?i content "pos\<lparr>jp_line := ln, jp_col := cl, jp_offset := ?i\<rparr>"] at assms(3,4)
      by (simp add: json_skip_loop.simps [of content "length pre"] json_skip_loop.simps [of content ?i])
    then show ?thesis using assms(5) by (auto simp: json_skip_space_comments_def)
  qed
qed

lemma not_space: "\<not> JSON_IS_SPACE (CHR 0x22)" "\<not> JSON_IS_SPACE (CHR ''['')" "\<not> JSON_IS_SPACE (CHR '']'')"
  "\<not> JSON_IS_SPACE (CHR ''{'')" "\<not> JSON_IS_SPACE (CHR ''}'')" "\<not> JSON_IS_SPACE (CHR '','')" "\<not> JSON_IS_SPACE (CHR '':'')"
  "\<not> JSON_IS_SPACE (CHR ''-'')" "\<not> JSON_IS_SPACE (CHR ''t'')" "\<not> JSON_IS_SPACE (CHR ''f'')" "\<not> JSON_IS_SPACE (CHR ''n'')"
  by code_simp+

lemma is_space: "JSON_IS_SPACE (CHR 0x20)" "JSON_IS_SPACE (CHR 0x0A)"
  by code_simp+

lemma next_string_token:
  assumes "content = pre @ ws @ CHR 0x22 # json_escape s @ CHR 0x22 # post" and "list_all JSON_IS_SPACE ws" and "jp_offset pos = length pre"
  shows "\<exists>ln col. json_next_token content pos = Inr (JSON_TOKEN_STRING,
      pos\<lparr>jp_line := ln, jp_col := col, jp_offset := length pre + length ws + length (json_escape s) + 2\<rparr>, s)"
proof -
  obtain ln cl where skip: "json_skip_space_comments content pos = pos\<lparr>jp_line := ln, jp_col := cl, jp_offset := length pre + length ws\<rparr>"
    using skip_space_run [OF assms(1,2) _ _ assms(3)] not_space by auto
  let ?p = "pos\<lparr>jp_line := ln, jp_col := cl, jp_offset := length pre + length ws\<rparr>"
  have at: "length pre + length ws < length content" "content ! (length pre + length ws) = CHR 0x22"
    using assms(1) by (simp_all add: nth_append)
  have "json_next_token content pos = string_loop content (?p\<lparr>jp_col := jp_col ?p + 1\<rparr>) (length pre + length ws + 1) []"
    using skip at assms(3) by (simp add: json_next_token_def json_parse_string_token_def Let_def)
  moreover obtain col where "string_loop content (?p\<lparr>jp_col := jp_col ?p + 1\<rparr>) (length pre + length ws + 1) [] = Inr (JSON_TOKEN_STRING,
      ?p\<lparr>jp_col := jp_col ?p + 1, jp_col := col, jp_offset := length (pre @ ws @ [CHR 0x22]) + length (json_escape s) + 1\<rparr>, [] @ s)"
    using string_loop_escaped [of content "pre @ ws @ [CHR 0x22]" s post "length pre + length ws + 1" "?p\<lparr>jp_col := jp_col ?p + 1\<rparr>" "[]"] assms(1) by auto
  ultimately show ?thesis by (intro exI [of _ ln] exI [of _ col]) (simp add: add.assoc)
qed

section \<open>Faults and progress of the lexer\<close>

lemma json_error_literal:
  "CHR ''%'' \<notin> set m \<Longrightarrow> NUL \<notin> set m \<Longrightarrow> \<exists>e. json_error pos m [] = Inr (JSON_ERROR, pos, e)"
  using PERROR_text [of m pos] by (auto simp: json_error_def)

lemma json_error_bad:
  "CHR ''%'' \<notin> set m \<Longrightarrow> NUL \<notin> set m \<Longrightarrow> NUL \<notin> set t \<Longrightarrow> json_error pos (m @ ''%s'' @ t) [chr_arg c] = Inl Bad_vararg"
  using PERROR_bad [of m t pos c] by (simp add: json_error_def)

lemmas string_faults =
  json_error_bad [of "''unknown escape sequence '' @ [CHR 0x27, CHR 0x5C]" "[CHR 0x27]", simplified]
  json_error_bad [of "''expected '' @ [CHR 0x27, CHR 0x22, CHR 0x27] @ '', but got '' @ [CHR 0x27]" "[CHR 0x27]", simplified]

lemma escape_at_end: "\<exists>e. json_error pos ''expected escape sequence, but reached end of json string'' [] = Inr (JSON_ERROR, pos, e)"
  by (rule json_error_literal) simp_all

lemma utf16_bounds:
  "utf16_literal_to_utf8 content pos t = (r, pos', t') \<Longrightarrow> jp_offset pos \<le> length content \<Longrightarrow>
   jp_offset pos \<le> jp_offset pos' \<and> jp_offset pos' \<le> length content"
  by (auto simp: utf16_literal_to_utf8_def Let_def split: if_splits option.splits)

text \<open>What a call may return from the offset \<open>i\<close>: a token behind it, or an error or a fault.\<close>

definition token_ok :: "string \<Rightarrow> nat \<Rightarrow> json_token lexed \<Rightarrow> bool" where
  "token_ok content i r = (case r of
     Inl f \<Rightarrow> f = Bad_vararg
   | Inr (tk, pos', _) \<Rightarrow> i \<le> jp_offset pos' \<and> jp_offset pos' \<le> length content + 2
       \<and> (i < jp_offset pos' \<or> tk = JSON_TOKEN_EOF \<or> tk = JSON_ERROR))"

lemma token_ok_mono: "token_ok content j r \<Longrightarrow> i \<le> j \<Longrightarrow> token_ok content i r"
  by (auto simp: token_ok_def split: sum.splits)

lemma string_loop_ok:
  "i0 \<le> jp_offset pos \<Longrightarrow> jp_offset pos \<le> i \<Longrightarrow> i \<le> length content \<Longrightarrow> token_ok content i0 (string_loop content pos i t)"
proof (induction content pos i t rule: string_loop.induct)
  case (1 content pos i t)
  show ?case
  proof (cases "i < length content \<and> content ! i \<noteq> CHR 0x22")
    case False
    then show ?thesis using 1(4-6) string_faults(2) [of pos "data_at content i"]
      by (subst string_loop.simps) (auto simp: token_ok_def data_at_def)
  next
    case True
    note in_string = this
    show ?thesis
    proof (cases "content ! i = CHR 0x5C")
      case False
      let ?run = "takeWhile in_run (drop i content)"
      have "i + length ?run \<le> length content" using length_takeWhile_le [of in_run "drop i content"] True
        by (simp only: length_drop) linarith
      then show ?thesis using 1(3) [OF True False refl] 1(4-6) True False
        by (subst string_loop.simps) (simp add: Let_def)
    next
      case True
      show ?thesis
      proof (cases "i + 1 \<ge> length content")
        case at_end: True
        then show ?thesis using in_string True 1(4-6) escape_at_end [of pos]
          by (subst string_loop.simps) (auto simp: token_ok_def)
      next
        case False
        let ?c = "content ! (i + 1)" and ?p = "pos\<lparr>jp_col := jp_col pos + 1\<rparr>"
        show ?thesis
        proof (cases "simple_escape ?c")
          case (Some e)
          then show ?thesis using 1(2) [OF in_string True False refl refl refl Some] in_string True False 1(4-6)
            by (subst string_loop.simps) (simp add: Let_def)
        next
          case None
          show ?thesis
          proof (cases "?c = CHR ''u''")
            case u: True
            obtain r pos2 tmp where x: "utf16_literal_to_utf8 content (?p\<lparr>jp_offset := i + 1\<rparr>) [] = (r, pos2, tmp)" by (rule prod_cases3)
            have b: "i + 1 \<le> jp_offset pos2" "jp_offset pos2 \<le> length content" using utf16_bounds [OF x] False by simp_all
            show ?thesis
            proof (cases "r = 0")
              case True
              then show ?thesis using 1(1) [OF in_string \<open>content ! i = CHR 0x5C\<close> False refl refl refl None u x [symmetric] refl] x b
                  in_string \<open>content ! i = CHR 0x5C\<close> False None u 1(4-6)
                by (subst string_loop.simps) (simp add: Let_def)
            next
              case r: False
              then show ?thesis using x b in_string True False None u 1(4-6)
                by (subst string_loop.simps) (simp add: Let_def token_ok_def)
            qed
          next
            case nu: False
            then show ?thesis using in_string True False None string_faults(1) [of ?p ?c]
              by (subst string_loop.simps) (simp add: Let_def token_ok_def)
          qed
        qed
      qed
    qed
  qed
qed

lemma json_skip_loop_index:
  "jp_offset pos = i \<Longrightarrow> i \<le> jp_offset (json_skip_loop content i pos) \<and>
    (i \<le> length content + 2 \<longrightarrow> jp_offset (json_skip_loop content i pos) \<le> length content + 2)"
proof (induction content i pos rule: json_skip_loop.induct)
  case (1 content i pos)
  obtain i' pos' s where r: "skip_round content i pos = (i', pos', s)" by (rule prod_cases3)
  note x = skip_round_index [OF r]
  show ?case
  proof (cases s)
    case True
    then have "jp_offset pos' = i'" "i' \<le> length content + 2" "i \<le> i'" using x by auto
    then show ?thesis using 1(1) [OF r [symmetric] refl True] r
      by (subst json_skip_loop.simps, subst (2) json_skip_loop.simps) auto
  next
    case False
    then show ?thesis using x r 1(2) by (subst json_skip_loop.simps, subst (2) json_skip_loop.simps) simp
  qed
qed

lemma digits_end_bounds: "i \<le> digits_end content i" "i \<le> length content \<Longrightarrow> digits_end content i \<le> length content"
  using length_takeWhile_le [of JSON_IS_DIGIT "drop i content"] by (simp_all add: digits_end_def)

lemma scan_number_bounds:
  assumes "scan_number content i = (e, fl)" and "i < length content"
  shows "i < e \<and> e \<le> length content"
proof -
  define i1 where "i1 = (if content ! i \<noteq> CHR ''.'' then digits_end content (i + 1) else i)"
  define dot where "dot \<longleftrightarrow> i1 < length content \<and> content ! i1 = CHR ''.''"
  define i2 where "i2 = (if dot then digits_end content (i1 + 1) else i1)"
  define ex where "ex \<longleftrightarrow> i2 < length content \<and> (content ! i2 = CHR ''e'' \<or> content ! i2 = CHR ''E'')"
  define k where "k = (if i2 + 1 < length content \<and> (content ! (i2 + 1) = CHR ''+'' \<or> content ! (i2 + 1) = CHR ''-'')
    then i2 + 1 + 1 else i2 + 1)"
  have "fst (scan_number content i) = (if ex then digits_end content k else i2)"
    by (simp only: scan_number_def Let_def fst_conv i1_def dot_def i2_def ex_def k_def)
  then have e: "e = (if ex then digits_end content k else i2)" by (simp add: assms(1))
  have "i \<le> i1" "i1 \<le> length content" "i < i1 \<or> dot"
    using digits_end_bounds [of "i + 1" content] assms(2) by (auto simp: i1_def dot_def)
  then have 2: "i < i2" "i2 \<le> length content"
    using digits_end_bounds [of "i1 + 1" content] by (auto simp: i2_def dot_def)
  moreover have "i2 \<le> k" "ex \<Longrightarrow> k \<le> length content" by (auto simp: k_def ex_def)
  ultimately show ?thesis using digits_end_bounds [of k content] e by auto
qed

lemma at_keyword_bound: "at_keyword content i kw \<Longrightarrow> i + length kw \<le> length content"
  by (simp add: at_keyword_def Let_def)

lemma token_ok_Inr:
  "i \<le> jp_offset p \<Longrightarrow> jp_offset p < length content \<Longrightarrow> 0 < n \<Longrightarrow> jp_offset p + n \<le> length content + 2 \<Longrightarrow>
   token_ok content i (Inr (tk, forward n p, s))"
  by (simp add: token_ok_def forward_def)

lemma alpha_word: "list_all is_alpha w \<Longrightarrow> NUL \<notin> set w"
proof -
  have "\<not> is_alpha NUL" by code_simp
  then show "list_all is_alpha w \<Longrightarrow> NUL \<notin> set w" by (auto simp: list_all_iff)
qed

lemma json_next_token_ok:
  assumes "jp_offset pos0 \<le> length content + 2"
  shows "token_ok content (jp_offset pos0) (json_next_token content pos0)"
proof (cases "jp_offset pos0 \<ge> length content")
  case True
  then show ?thesis using assms by (simp add: json_next_token_def token_ok_def)
next
  case False
  define pos where "pos = json_skip_space_comments content pos0"
  let ?i = "jp_offset pos" and ?c = "content ! jp_offset pos"
  have i: "jp_offset pos0 \<le> ?i" "?i \<le> length content + 2"
    using json_skip_loop_index [OF refl, of pos0 content] assms by (simp_all add: pos_def json_skip_space_comments_def)
  show ?thesis
  proof (cases "?i \<ge> length content")
    case True
    then show ?thesis using False i by (simp add: json_next_token_def Let_def pos_def token_ok_def)
  next
    case in_bounds: False
    define tok where "tok = (case punctuation ?c of Some tk \<Rightarrow> Inr (tk, forward 1 pos, [])
      | None \<Rightarrow>
        if JSON_IS_DIGIT ?c \<or> ?c = CHR ''-'' \<or> ?c = CHR ''.'' then
          (let (e, fl) = scan_number content ?i
           in Inr (if fl then JSON_TOKEN_FLOAT else JSON_TOKEN_INT, forward (e - ?i) pos, take (e - ?i) (drop ?i content)))
        else if at_keyword content ?i ''true'' then Inr (JSON_TOKEN_TRUE, forward 4 pos, ''true'')
        else if at_keyword content ?i ''false'' then Inr (JSON_TOKEN_FALSE, forward 5 pos, ''false'')
        else if at_keyword content ?i ''null'' then Inr (JSON_TOKEN_NULL, forward 4 pos, ''null'')
        else (let word = takeWhile is_alpha (drop ?i content); pos1 = forward (length word) pos
              in bindE (PERROR pos1 ''unexpected identify %s'' [cs_arg word]) (\<lambda>e. Inr (JSON_ERROR, pos1, word @ e))))"
    have nxt: "json_next_token content pos0 = (if ?c = CHR 0x22 then json_parse_string_token content pos else tok)"
      using False in_bounds by (simp only: json_next_token_def Let_def pos_def [symmetric] tok_def if_False)
    have str: "token_ok content (jp_offset pos0) (json_parse_string_token content pos)" if "?c = CHR 0x22"
      using string_loop_ok [of "?i" "pos\<lparr>jp_col := jp_col pos + 1\<rparr>" "?i + 1" content "[]"] in_bounds i(1) that
      by (auto simp: json_parse_string_token_def Let_def intro: token_ok_mono)
    have "token_ok content (jp_offset pos0) tok"
    proof (cases "punctuation ?c")
      case (Some tk)
      then show ?thesis using i in_bounds by (simp add: tok_def token_ok_Inr)
    next
      case None
      let ?w = "takeWhile is_alpha (drop ?i content)"
      obtain e fl where n: "scan_number content ?i = (e, fl)" by (rule prod.exhaust)
      have e: "?i < e" "e \<le> length content" using scan_number_bounds [OF n] in_bounds by simp_all
      have w: "?i + length ?w \<le> length content"
        using length_takeWhile_le [of is_alpha "drop ?i content"] in_bounds by (simp only: length_drop)
      have "NUL \<notin> set ?w" by (rule alpha_word) (auto simp: list_all_iff dest!: set_takeWhileD)
      then obtain m where m: "PERROR (forward (length ?w) pos) ''unexpected identify %s'' [cs_arg ?w] = Inr m"
        using PERROR_string [of "''unexpected identify ''" "[]" ?w "forward (length ?w) pos"] by auto
      have "token_ok content (jp_offset pos0) (Inr (JSON_ERROR, forward (length ?w) pos, ?w @ m))"
        using w i by (simp add: token_ok_def forward_def)
      then show ?thesis using None i in_bounds e m
        by (auto simp: tok_def n Let_def intro!: token_ok_Inr dest!: at_keyword_bound)
    qed
    then show ?thesis using nxt str by simp
  qed
qed

lemma quote_token:
  assumes "content = pre @ CHR 0x22 # rest" and "jp_offset pos = length pre"
  shows "json_next_token content pos = string_loop content (pos\<lparr>jp_col := jp_col pos + 1\<rparr>) (length pre + 1) []"
proof -
  have "content ! length pre = CHR 0x22" "length pre < length content" using assms(1) by simp_all
  then show ?thesis using skip_space_nothing [of "length pre" content pos] assms not_space(1)
    by (simp add: json_next_token_def json_parse_string_token_def Let_def)
qed

lemma string_loop_to:
  assumes "content = pre @ run @ d # post" and "i = length pre" and "list_all in_run run" and "\<not> in_run d"
  shows "\<exists>p. string_loop content pos i t = string_loop content p (i + length run) (t @ run)"
proof (cases "run = []")
  case False
  then show ?thesis using string_loop_clean [OF assms(1,2) False assms(3,4)] by metis
qed (intro exI [of _ pos], simp)

lemma string_unterminated:
  assumes "content = pre @ run" and "i = length pre" and "list_all in_run run"
  shows "string_loop content pos i t = Inl Bad_vararg"
proof -
  have stop: "string_loop content p (length content) u = Inl Bad_vararg" for p u
    using string_faults(2) [of p NUL] by (subst string_loop.simps) (simp add: data_at_def)
  show ?thesis
  proof (cases "run = []")
    case True
    then show ?thesis using stop assms by simp
  next
    case False
    then have "i < length content" "in_run (content ! i)" using assms by (cases run; simp add: nth_append)+
    moreover have "takeWhile in_run (drop i content) = run" "i + length run = length content"
      using assms by (simp_all add: takeWhile_eq_all_conv list_all_iff)
    ultimately show ?thesis using stop by (subst string_loop.simps) (simp add: Let_def)
  qed
qed

lemma string_unknown_escape:
  assumes "content = pre @ CHR 0x5C # c # post" and "i = length pre" and "simple_escape c = None" and "c \<noteq> CHR ''u''"
  shows "string_loop content pos i t = Inl Bad_vararg"
proof -
  have "content ! i = CHR 0x5C" "content ! Suc i = c" "Suc i < length content" using assms by (simp_all add: nth_append)
  then show ?thesis using assms string_faults(1) by (subst string_loop.simps) (simp add: Let_def)
qed

text \<open>The position every entry point starts with.\<close>

definition pos_start :: json_pos where
  "pos_start = \<lparr>jp_line = 0, jp_col = 0, jp_offset = 0\<rparr>"

section \<open>Properties\<close>

text \<open>
  C22. A string token that holds the escaped form of a text is read back as that text, whatever white
  space stands in front of it and whatever follows it, and the position stops behind its closing quote:
  the lexer's string reader inverts \<open>sstr_json_escape_string_append\<close>.
\<close>

theorem json_string_token_roundtrip:
  assumes "content = pre @ ws @ CHR 0x22 # json_escape s @ CHR 0x22 # post" and "list_all JSON_IS_SPACE ws"
    and "jp_offset pos = length pre"
  shows "\<exists>ln col. json_next_token content pos = Inr (JSON_TOKEN_STRING,
      pos\<lparr>jp_line := ln, jp_col := col, jp_offset := length pre + length ws + length (json_escape s) + 2\<rparr>, s)"
  by (rule next_string_token [OF assms])

lemma json_string_token_roundtrip_witness:
  "\<exists>ln col. json_next_token ([] @ ''  '' @ CHR 0x22 # json_escape [CHR ''a'', CHR 0x0A, CHR 0x22, CHR 0x01] @ CHR 0x22 # '']'') pos_start
     = Inr (JSON_TOKEN_STRING, pos_start\<lparr>jp_line := ln, jp_col := col,
         jp_offset := length ([] :: string) + length ''  '' + length (json_escape [CHR ''a'', CHR 0x0A, CHR 0x22, CHR 0x01]) + 2\<rparr>,
         [CHR ''a'', CHR 0x0A, CHR 0x22, CHR 0x01])"
  by (rule json_string_token_roundtrip [OF refl]) (simp_all add: is_space pos_start_def)

text \<open>
  C34. A \<open>\u\<close> escape outside the surrogates is decoded to the UTF-8 bytes of its code point, a pair of
  surrogates to those of the code point it stands for, and a low surrogate without its high one is refused.
\<close>

theorem utf16_escape_decodes:
  assumes "jp_offset pos = length pre" and "hex4_value hs = Some n" and "hex4_value hs2 = Some m" and "post \<noteq> []"
  shows "(\<not> (0xD800 \<le> n \<and> n \<le> 0xDFFF) \<longrightarrow>
      utf16_literal_to_utf8 (pre @ CHR ''u'' # hs @ post) pos t = (0, forward 5 pos, t @ map char_of (utf8_encode n)))
    \<and> (0xD800 \<le> n \<and> n \<le> 0xDBFF \<and> 0xDC00 \<le> m \<and> m \<le> 0xDFFF \<longrightarrow>
      utf16_literal_to_utf8 (pre @ CHR ''u'' # hs @ CHR 0x5C # CHR ''u'' # hs2 @ post) pos t
        = (0, forward 11 pos, t @ map char_of (utf8_encode (0x10000 + (n - 0xD800) * 1024 + (m - 0xDC00)))))
    \<and> (0xDC00 \<le> n \<and> n \<le> 0xDFFF \<longrightarrow> fst (utf16_literal_to_utf8 (pre @ CHR ''u'' # hs @ post) pos t) = -1)"
  using utf16_bmp [OF assms(2,4,1)] utf16_pair [OF assms(2,3,4,1)] utf16_lone_low [OF assms(2,4,1)] by blast

lemma utf16_escape_decodes_witness:
  "utf16_literal_to_utf8 ([] @ CHR ''u'' # ''D83D'' @ CHR 0x5C # CHR ''u'' # ''DE00'' @ ''.'') pos_start []
     = (0, forward 11 pos_start, map char_of [0xF0, 0x9F, 0x98, 0x80 :: nat])"
proof -
  have h: "hex4_value ''D83D'' = Some 0xD83D" "hex4_value ''DE00'' = Some 0xDE00"
    by (simp_all add: hex4_value_def hex_nat_def is_digit_def)
  show ?thesis using utf16_escape_decodes [of pos_start "[]" "''D83D''" "0xD83D" "''DE00''" "0xDE00" "''.''" "[]"] h
    by (simp add: pos_start_def utf8_encode_def)
qed

text \<open>
  C28. Every call of the lexer from a position of the text advances, except at the end of the input and at
  an error, never goes more than two bytes beyond the end, and the only fault it can meet is a message
  whose argument does not fit its directive. So every loop over the tokens that stops at the end of the
  input and at errors terminates.
\<close>

theorem json_next_token_advances:
  assumes "jp_offset pos \<le> length content + 2"
  shows "case json_next_token content pos of
      Inl f \<Rightarrow> f = Bad_vararg
    | Inr (tk, pos', _) \<Rightarrow> jp_offset pos \<le> jp_offset pos' \<and> jp_offset pos' \<le> length content + 2
        \<and> (jp_offset pos < jp_offset pos' \<or> tk = JSON_TOKEN_EOF \<or> tk = JSON_ERROR)"
  using json_next_token_ok [OF assms] unfolding token_ok_def .

lemma json_next_token_advances_witness:
  "case json_next_token ''/*'' pos_start of Inl f \<Rightarrow> f = Bad_vararg
    | Inr (tk, pos', _) \<Rightarrow> jp_offset pos_start \<le> jp_offset pos' \<and> jp_offset pos' \<le> length ''/*'' + 2
        \<and> (jp_offset pos_start < jp_offset pos' \<or> tk = JSON_TOKEN_EOF \<or> tk = JSON_ERROR)"
  by (rule json_next_token_advances) (simp add: pos_start_def)

text \<open>
  Two errors in a string are not reported but crash: an escape that does not exist, and a string that
  the input ends in. Their messages have a \<open>%s\<close> and are given the offending character, so the formatter
  reads a character code as a pointer.
\<close>

theorem json_string_error_faults:
  assumes "jp_offset pos = length pre" and "list_all in_run run" and "simple_escape c = None" and "c \<noteq> CHR ''u''"
  shows "json_next_token (pre @ CHR 0x22 # run @ CHR 0x5C # c # post) pos = Inl Bad_vararg
    \<and> json_next_token (pre @ CHR 0x22 # run) pos = Inl Bad_vararg"
proof -
  let ?p = "pos\<lparr>jp_col := jp_col pos + 1\<rparr>" and ?pre = "pre @ [CHR 0x22]"
  let ?content = "?pre @ run @ CHR 0x5C # c # post"
  obtain p where "string_loop ?content ?p (length ?pre) [] = string_loop ?content p (length ?pre + length run) ([] @ run)"
    using string_loop_to [OF refl refl assms(2), of "CHR 0x5C" ?pre "c # post" ?p "[]"] by auto
  moreover have "string_loop ?content p (length ?pre + length run) ([] @ run) = Inl Bad_vararg"
    by (rule string_unknown_escape [of _ "?pre @ run" c post]) (use assms in simp_all)
  moreover have "string_loop (?pre @ run) ?p (length ?pre) [] = Inl Bad_vararg"
    by (rule string_unterminated [OF refl refl assms(2)])
  ultimately show ?thesis
    using quote_token [OF refl assms(1), of "run @ CHR 0x5C # c # post"] quote_token [OF refl assms(1), of run] by simp
qed

lemma json_string_error_faults_witness:
  "json_next_token ([] @ CHR 0x22 # ''a'' @ CHR 0x5C # CHR ''x'' # ''.'') pos_start = Inl Bad_vararg
    \<and> json_next_token ([] @ CHR 0x22 # ''a'') pos_start = Inl Bad_vararg"
  by (rule json_string_error_faults) (simp_all add: pos_start_def simple_escape_def)

end
