(* ===== verification/CLib.thy ===== *)
theory CLib
  imports SstrText
begin

text \<open>
  The functions of the C library that the generated parsers and the schema parser share, in the C locale.
\<close>

section \<open>The C library's integer parsers\<close>

text \<open>
  \<open>strtol\<close>, \<open>strtoll\<close>, \<open>strtoul\<close> and \<open>strtoull\<close> in base ten on 64-bit types: blanks, an optional sign,
  digits. The second result is the text at \<open>endptr\<close>; without a digit that is the whole string. Values out of
  range saturate; \<open>errno\<close> is never looked at.
\<close>

definition scan_int :: "string \<Rightarrow> (bool \<times> nat \<times> string) option" where
  "scan_int s =
     (let s1 = dropWhile is_space (cstr s);
          neg = (s1 \<noteq> [] \<and> hd s1 = CHR ''-'');
          s2 = (if s1 \<noteq> [] \<and> (hd s1 = CHR ''-'' \<or> hd s1 = CHR ''+'') then tl s1 else s1);
          ds = takeWhile is_digit s2
      in if ds = [] then None else Some (neg, dec_value ds, drop (length ds) s2))"

definition LONG_MIN :: int where "LONG_MIN = - (2 ^ 63)"
definition LONG_MAX :: int where "LONG_MAX = 2 ^ 63 - 1"
definition ULONG_MAX :: int where "ULONG_MAX = 2 ^ 64 - 1"

definition strtol :: "string \<Rightarrow> int \<times> string" where
  "strtol s = (case scan_int s of
     None \<Rightarrow> (0, cstr s)
   | Some (neg, n, rest) \<Rightarrow> (max LONG_MIN (min LONG_MAX (if neg then - int n else int n)), rest))"

definition strtoul :: "string \<Rightarrow> int \<times> string" where
  "strtoul s = (case scan_int s of
     None \<Rightarrow> (0, cstr s)
   | Some (neg, n, rest) \<Rightarrow>
       (if int n > ULONG_MAX then ULONG_MAX else if neg then (- int n) mod 2 ^ 64 else int n, rest))"

section \<open>Numbers read back\<close>

lemma scan_int_digits:
  assumes "list_all is_digit ds" and "ds \<noteq> []"
  shows "scan_int ds = Some (False, dec_value ds, [])" "scan_int (CHR ''-'' # ds) = Some (True, dec_value ds, [])"
proof -
  have no: "c \<noteq> NUL" "\<not> is_space c" "c \<noteq> CHR ''-''" "c \<noteq> CHR ''+''" if "is_digit c" for c
    using that by (auto simp: is_digit_def is_space_def)
  have c: "cstr ds = ds" using assms(1) no(1) by (intro cstr_whole) (auto simp: list_all_iff)
  have c': "cstr (CHR ''-'' # ds) = CHR ''-'' # ds" using c by (simp add: cstr_def)
  have d: "dropWhile is_space ds = ds" "hd ds \<noteq> CHR ''-''" "hd ds \<noteq> CHR ''+''"
    using assms no by (cases ds; simp)+
  have t: "takeWhile is_digit ds = ds" using assms(1) by (simp add: takeWhile_eq_all_conv list_all_iff)
  have s: "\<not> is_space (CHR ''-'')" by code_simp
  show "scan_int ds = Some (False, dec_value ds, [])" using c d t assms(2) by (simp add: scan_int_def Let_def del: takeWhile_eq_all_conv)
  show "scan_int (CHR ''-'' # ds) = Some (True, dec_value ds, [])" using c' t s assms(2) by (simp add: scan_int_def Let_def del: takeWhile_eq_all_conv)
qed

lemma scan_int_show_int: "scan_int (show_int v) = Some (v < 0, nat \<bar>v\<bar>, [])"
  using scan_int_digits [OF dec_str_digits dec_str_ne] by (simp add: show_int_def)

lemma strtol_show_int: "strtol (show_int v) = (max LONG_MIN (min LONG_MAX v), [])"
  by (simp add: strtol_def scan_int_show_int)

lemma strtoul_show_int: "0 \<le> v \<Longrightarrow> strtoul (show_int v) = (min ULONG_MAX v, [])"
  by (auto simp: strtoul_def scan_int_show_int)

end
