(* ===== verification/JsonScalar.thy ===== *)
theory JsonScalar
  imports JsonLex CLib
begin

text \<open>
  The scalar readers of the generated parsers (\<open>json_unmarshal_scalar_*\<close> in
  \<open>src/gencode/codes/json_parse.c\<close>): one token, checked and converted to the C type of the field. Values
  of the integer types are integers; a reader that stores one has checked it against the type, so the cast
  is exact.
\<close>

section \<open>Integer types\<close>

datatype c_int = C_int | C_long | C_int8_t | C_int16_t | C_int32_t | C_int64_t
  | C_uint8_t | C_uint16_t | C_uint32_t | C_uint64_t

fun c_int_name :: "c_int \<Rightarrow> string" where
  "c_int_name C_int = ''int''"
| "c_int_name C_long = ''long''"
| "c_int_name C_int8_t = ''int8_t''"
| "c_int_name C_int16_t = ''int16_t''"
| "c_int_name C_int32_t = ''int32_t''"
| "c_int_name C_int64_t = ''int64_t''"
| "c_int_name C_uint8_t = ''uint8_t''"
| "c_int_name C_uint16_t = ''uint16_t''"
| "c_int_name C_uint32_t = ''uint32_t''"
| "c_int_name C_uint64_t = ''uint64_t''"

fun c_int_signed :: "c_int \<Rightarrow> bool" where
  "c_int_signed T \<longleftrightarrow> T \<notin> {C_uint8_t, C_uint16_t, C_uint32_t, C_uint64_t}"

fun c_int_bits :: "c_int \<Rightarrow> nat" where
  "c_int_bits C_int = 32" | "c_int_bits C_long = 64"
| "c_int_bits C_int8_t = 8" | "c_int_bits C_int16_t = 16" | "c_int_bits C_int32_t = 32" | "c_int_bits C_int64_t = 64"
| "c_int_bits C_uint8_t = 8" | "c_int_bits C_uint16_t = 16" | "c_int_bits C_uint32_t = 32" | "c_int_bits C_uint64_t = 64"

definition c_int_min :: "c_int \<Rightarrow> int" where
  "c_int_min T = (if c_int_signed T then - (2 ^ (c_int_bits T - 1)) else 0)"

definition c_int_max :: "c_int \<Rightarrow> int" where
  "c_int_max T = (if c_int_signed T then 2 ^ (c_int_bits T - 1) - 1 else 2 ^ c_int_bits T - 1)"

section \<open>Scalars\<close>

text \<open>The return code, the position, the value behind \<open>val\<close> and the text in \<open>txt\<close>.\<close>

type_synonym 'v scanned = "fault + int \<times> json_pos \<times> 'v \<times> string"

text \<open>\<open>e = PERROR(pos, msg, arg); sstr_append(txt, e); return code\<close>.\<close>

definition scalar_error :: "json_pos \<Rightarrow> 'v \<Rightarrow> string \<Rightarrow> string \<Rightarrow> string \<Rightarrow> int \<Rightarrow> 'v scanned" where
  "scalar_error pos val t msg arg code = bindE (PERROR pos msg [cs_arg arg]) (\<lambda>e. Inr (code, pos, val, t @ e))"

abbreviation quoted_s :: string where
  "quoted_s \<equiv> [CHR 0x27] @ ''%s'' @ [CHR 0x27]"

definition json_unmarshal_scalar_signed :: "c_int \<Rightarrow> string \<Rightarrow> json_pos \<Rightarrow> int \<Rightarrow> int scanned" where
  "json_unmarshal_scalar_signed T content pos0 val =
     bindE (json_next_token content pos0) (\<lambda>(tk, pos, t).
       if tk = JSON_TOKEN_FALSE then Inr (0, pos, 0, t)
       else if tk = JSON_TOKEN_TRUE then Inr (0, pos, 1, t)
       else if tk \<noteq> JSON_TOKEN_INT then
         scalar_error pos val t (''expected integer but got '' @ quoted_s) (ptoken tk t) (json_token_code tk)
       else
         (let (temp_val, rest) = strtol t
          in if rest \<noteq> [] \<or> temp_val > c_int_max T \<or> temp_val < c_int_min T then
               scalar_error pos val t (c_int_name T @ '' value out of range: '' @ quoted_s) t (-1)
             else Inr (0, pos, temp_val, t)))"

definition json_unmarshal_scalar_unsigned :: "c_int \<Rightarrow> string \<Rightarrow> json_pos \<Rightarrow> int \<Rightarrow> int scanned" where
  "json_unmarshal_scalar_unsigned T content pos0 val =
     bindE (json_next_token content pos0) (\<lambda>(tk, pos, t).
       if tk = JSON_TOKEN_FALSE then Inr (0, pos, 0, t)
       else if tk = JSON_TOKEN_TRUE then Inr (0, pos, 1, t)
       else if tk \<noteq> JSON_TOKEN_INT then
         scalar_error pos val t (''expected integer but got '' @ quoted_s) (ptoken tk t) (json_token_code tk)
       else
         (let s = dropWhile (\<lambda>c. c = CHR '' '') (cstr t)
          in if s \<noteq> [] \<and> hd s = CHR ''-'' then
               scalar_error pos val t (c_int_name T @ '' cannot be negative: '' @ quoted_s) t (-1)
             else
               (let (temp_val, rest) = strtoul t
                in if rest \<noteq> [] \<or> temp_val > c_int_max T then
                     scalar_error pos val t (c_int_name T @ '' value out of range: '' @ quoted_s) t (-1)
                   else Inr (0, pos, temp_val, t))))"

definition json_unmarshal_scalar_int :: "c_int \<Rightarrow> string \<Rightarrow> json_pos \<Rightarrow> int \<Rightarrow> int scanned" where
  "json_unmarshal_scalar_int T =
     (if c_int_signed T then json_unmarshal_scalar_signed T else json_unmarshal_scalar_unsigned T)"

text \<open>\<open>conv\<close> is the C library's \<open>strtof\<close> or \<open>strtod\<close>: the value and the text at \<open>endptr\<close>.\<close>

definition json_unmarshal_scalar_float ::
  "string \<Rightarrow> (string \<Rightarrow> 'd \<times> string) \<Rightarrow> string \<Rightarrow> json_pos \<Rightarrow> 'd \<Rightarrow> 'd scanned" where
  "json_unmarshal_scalar_float T conv content pos0 val =
     bindE (json_next_token content pos0) (\<lambda>(tk, pos, t).
       if tk \<noteq> JSON_TOKEN_FLOAT \<and> tk \<noteq> JSON_TOKEN_INT then
         scalar_error pos val t (''expected floating number but got '' @ quoted_s) (ptoken tk t) (json_token_code tk)
       else
         (let (temp_val, rest) = conv (cstr t)
          in if rest \<noteq> [] then scalar_error pos val t (T @ '' format invalid: '' @ quoted_s) t (-1)
             else Inr (0, pos, temp_val, t)))"

definition json_unmarshal_scalar_sstr_t :: "string \<Rightarrow> json_pos \<Rightarrow> string option \<Rightarrow> string option scanned" where
  "json_unmarshal_scalar_sstr_t content pos0 val =
     bindE (json_next_token content pos0) (\<lambda>(tk, pos, t).
       if tk = JSON_TOKEN_NULL then Inr (0, pos, val, t)
       else if tk \<noteq> JSON_TOKEN_STRING then
         scalar_error pos val t (''expected string but got '' @ quoted_s) (ptoken tk t) (json_token_code tk)
       else Inr (0, pos, Some t, t))"

text \<open>The index of the first of the strings that is equal, from index \<open>i\<close> on.\<close>

fun find_string :: "string \<Rightarrow> string list \<Rightarrow> nat \<Rightarrow> nat option" where
  "find_string s [] i = None"
| "find_string s (e # es) i = (if s = e then Some i else find_string s es (i + 1))"

definition json_unmarshal_scalar_enum :: "string list \<Rightarrow> string \<Rightarrow> json_pos \<Rightarrow> int \<Rightarrow> int scanned" where
  "json_unmarshal_scalar_enum enum_strings content pos0 val =
     bindE (json_next_token content pos0) (\<lambda>(tk, pos, t).
       if tk = JSON_TOKEN_STRING then
         (case find_string (cstr t) enum_strings 0 of
            Some i \<Rightarrow> Inr (0, pos, int i, t)
          | None \<Rightarrow> scalar_error pos val t (''unknown enum value '' @ quoted_s) t (-1))
       else if tk = JSON_TOKEN_INT then
         (let (temp_val, rest) = strtol t
          in if rest \<noteq> [] \<or> temp_val > c_int_max C_int \<or> temp_val < c_int_min C_int then
               scalar_error pos val t (''enum integer value out of range: '' @ quoted_s) t (-1)
             else Inr (0, pos, temp_val, t))
       else scalar_error pos val t (''expected string or integer for enum but got '' @ quoted_s) (ptoken tk t) (json_token_code tk))"

section \<open>Messages never fault\<close>

lemma cstr_NUL: "cstr (s @ [NUL]) = cstr s"
  by (induction s) (auto simp: cstr_def)

lemma cstr_no_NUL: "NUL \<notin> set (cstr s)"
  by (auto simp: cstr_def dest: set_takeWhileD)

lemma vslprintf_str: "vslprintf_loop fl buf (CHR ''%'' # CHR ''s'' # r) (A_str (Some (s @ [NUL])) # as)
  = vslprintf_loop fl buf (CHR ''%'' # CHR ''s'' # r) (A_str (Some (cstr s @ [NUL])) # as)"
  by (simp add: pf_directive_plain pf_convert_def pf_str_def plain_spec_def cstr_NUL cstr_whole cstr_no_NUL del: pf_modifiers.simps)

lemma PERROR_any:
  assumes "CHR ''%'' \<notin> set m" and "NUL \<notin> set m" and "CHR ''%'' \<notin> set t" and "NUL \<notin> set t"
  shows "\<exists>e. PERROR pos (m @ ''%s'' @ t) [cs_arg s] = Inr e"
proof -
  let ?ps = "[Lit ''line '', Dec (word_of_int (jp_line pos)), Lit '' col '', Dec (word_of_int (jp_col pos)), Lit ('': error: '' @ m)]"
  let ?qs = "Str (cstr s) # (if t = [] then [] else [Lit t])"
  note p = PERROR_prefix [OF assms(1,2), of "word_of_int (jp_line pos)" "word_of_int (jp_col pos)"]
  obtain b where b: "vslprintf_loop no_floats sstr_new (concat (map piece_fmt ?ps) @ ''%s'' @ t) (concat (map piece_args ?ps) @ [cs_arg s])
      = vslprintf_loop no_floats b (''%s'' @ t) [cs_arg s]" "sstr_ok b"
    using vslprintf_pieces_then [OF sstr_new_ok(1), of ?ps "''%s'' @ t" no_floats "[cs_arg s]"] p by auto
  have q: "concat (map piece_fmt ?qs) = ''%s'' @ t" "concat (map piece_args ?qs) = [cs_arg (cstr s)]" "pieces_ok ?qs"
    using assms(3,4) cstr_no_NUL [of s] by (simp_all add: cs_arg_def)
  have "vslprintf_loop no_floats b (''%s'' @ t) [cs_arg s] = vslprintf_loop no_floats b (''%s'' @ t) [cs_arg (cstr s)]"
    using vslprintf_str [of no_floats b t s "[]"] by (simp add: cs_arg_def)
  moreover obtain b' where "vslprintf_loop no_floats b (''%s'' @ t) [cs_arg (cstr s)] = Inr b'" "sstr_ok b'"
    using vslprintf_pieces [OF b(2) q(3), of no_floats] unfolding q by blast
  moreover have "cstr (''line %d col %d: error: '' @ m @ ''%s'' @ t) = ''line %d col %d: error: '' @ m @ ''%s'' @ t"
    using assms by (intro cstr_whole) auto
  ultimately show ?thesis using p b(1)
    by (simp add: PERROR_def sstr_printf_def sstr_vslprintf_def sstr_vslprintf_append_def sstr_data_ok del: vslprintf_loop.simps)
qed

lemma scalar_error_total:
  assumes "CHR ''%'' \<notin> set m" and "NUL \<notin> set m"
  shows "\<exists>e. scalar_error pos val t (m @ quoted_s) arg code = Inr (code, pos, val, e)"
  using PERROR_any [of "m @ [CHR 0x27]" "[CHR 0x27]" pos arg] assms by (auto simp: scalar_error_def)

lemma c_int_name_plain: "CHR ''%'' \<notin> set (c_int_name T)" "NUL \<notin> set (c_int_name T)"
  by (cases T; simp)+

section \<open>Number tokens\<close>

lemma JSON_IS_DIGIT_eq: "JSON_IS_DIGIT c = is_digit c"
proof -
  have "\<forall>n\<in>set [0..<256]. (json_char_class ! n = 2) = (48 \<le> n \<and> n \<le> 57)" by code_simp
  moreover have "ord c \<in> set [0..<256]" using nat_of_char_less_256 [of c] by simp
  ultimately show ?thesis unfolding JSON_IS_DIGIT_def is_digit_def by simp
qed

text \<open>What may stand behind an integer token.\<close>

definition ends_int :: "char \<Rightarrow> bool" where
  "ends_int d \<longleftrightarrow> \<not> is_digit d \<and> d \<noteq> CHR ''.'' \<and> d \<noteq> CHR ''e'' \<and> d \<noteq> CHR ''E''"

lemma digits_end_run:
  "list_all is_digit ds \<Longrightarrow> \<not> is_digit d \<Longrightarrow> i = length pre \<Longrightarrow> digits_end (pre @ ds @ d # post) i = i + length ds"
  by (simp add: digits_end_def JSON_IS_DIGIT_eq [abs_def] takeWhile_append list_all_iff)

lemma show_int_shape:
  obtains c ds where "show_int v = c # ds" "list_all is_digit ds" "is_digit c \<or> c = CHR ''-''"
proof (cases "v < 0")
  case True
  then show ?thesis using that dec_str_digits by (simp add: show_int_def)
next
  case False
  obtain c ds where "dec_str (nat v) = c # ds" using dec_str_ne by (cases "dec_str (nat v)") auto
  then show ?thesis using that False dec_str_digits [of "nat v"] by (simp add: show_int_def)
qed

lemma next_int_token:
  assumes "content = pre @ ws @ show_int v @ d # post" and "list_all JSON_IS_SPACE ws" and "ends_int d" and "jp_offset pos = length pre"
  shows "\<exists>ln col. json_next_token content pos = Inr (JSON_TOKEN_INT,
      pos\<lparr>jp_line := ln, jp_col := col, jp_offset := length pre + length ws + length (show_int v)\<rparr>, show_int v)"
proof -
  obtain c ds where s: "show_int v = c # ds" "list_all is_digit ds" "is_digit c \<or> c = CHR ''-''" by (rule show_int_shape)
  let ?i = "length pre + length ws"
  have c: "\<not> JSON_IS_SPACE c" "c \<noteq> CHR ''/''" "c \<noteq> CHR 0x22" "punctuation c = None" "c \<noteq> CHR ''.''"
  proof -
    show "\<not> JSON_IS_SPACE c"
      using s(3) not_space(8) JSON_IS_DIGIT_eq [of c] by (auto simp: JSON_IS_SPACE_def JSON_IS_DIGIT_def)
  qed (use s(3) in \<open>auto simp: is_digit_def punctuation_def\<close>)
  obtain ln cl where skip: "json_skip_space_comments content pos = pos\<lparr>jp_line := ln, jp_col := cl, jp_offset := ?i\<rparr>"
    using skip_space_run [of content pre ws c "ds @ d # post" pos] assms(1,2,4) s(1) c by auto
  have content: "content = (pre @ ws @ [c]) @ ds @ d # post" using assms(1) s(1) by simp
  have at: "?i < length content" "content ! ?i = c" unfolding content by (simp_all add: nth_append)
  have e: "digits_end content (Suc ?i) = ?i + length (show_int v)"
    using digits_end_run [OF s(2), of d "Suc ?i" "pre @ ws @ [c]" post] assms(3) content s(1) by (simp add: ends_int_def)
  have "content ! (?i + length (show_int v)) = d"
    unfolding assms(1) by (simp add: nth_append)
  then have scan: "scan_number content ?i = (?i + length (show_int v), False)"
    using e at c(5) assms(3) by (simp add: scan_number_def Let_def ends_int_def)
  have "take (length (show_int v)) (drop ?i content) = show_int v" unfolding assms(1) by simp
  then show ?thesis using skip at c scan s(3) assms(4)
    by (intro exI [of _ ln] exI [of _ "cl + int (length (show_int v))"])
      (auto simp: json_next_token_def Let_def forward_def JSON_IS_DIGIT_eq)
qed

section \<open>Numbers read back\<close>

lemma show_int_first: "dropWhile (\<lambda>c. c = CHR '' '') (cstr (show_int v)) = show_int v" "hd (show_int v) = CHR ''-'' \<longleftrightarrow> v < 0" "show_int v \<noteq> []"
proof -
  obtain c ds where s: "show_int v = c # ds" "list_all is_digit ds" "is_digit c \<or> c = CHR ''-''" by (rule show_int_shape)
  then have "NUL \<notin> set (show_int v)" by (auto simp: list_all_iff is_digit_def)
  then show "dropWhile (\<lambda>c. c = CHR '' '') (cstr (show_int v)) = show_int v"
    using s by (auto simp: cstr_whole is_digit_def)
  show "hd (show_int v) = CHR ''-'' \<longleftrightarrow> v < 0" "show_int v \<noteq> []"
    using dec_str_hd_ne_minus by (auto simp: show_int_def)
qed

lemmas c_int_bounds = c_int_min_def c_int_max_def LONG_MIN_def LONG_MAX_def ULONG_MAX_def

lemma scalar_int_in_range:
  assumes "json_next_token content pos = Inr (JSON_TOKEN_INT, pos', show_int v)" and "c_int_min T \<le> v" "v \<le> c_int_max T"
  shows "json_unmarshal_scalar_int T content pos val = Inr (0, pos', v, show_int v)"
proof (cases "c_int_signed T")
  case True
  have "LONG_MIN \<le> v" "v \<le> LONG_MAX" using assms(2,3) True by (cases T; simp add: c_int_bounds)+
  then show ?thesis using assms True
    by (simp add: json_unmarshal_scalar_int_def json_unmarshal_scalar_signed_def strtol_show_int del: c_int_signed.simps)
next
  case False
  have "0 \<le> v" "v \<le> ULONG_MAX" using assms(2,3) False by (cases T; simp add: c_int_bounds)+
  then show ?thesis using assms False
    by (simp add: json_unmarshal_scalar_int_def json_unmarshal_scalar_unsigned_def strtoul_show_int show_int_first del: c_int_signed.simps dropWhile_eq_Nil_conv)
qed

text \<open>The types whose range is not the whole range of the C library's parser.\<close>

definition narrow :: "c_int \<Rightarrow> bool" where
  "narrow T \<longleftrightarrow> c_int_bits T < 64"

lemma scalar_int_out_of_range:
  assumes "json_next_token content pos = Inr (JSON_TOKEN_INT, pos', show_int v)" and "v < c_int_min T \<or> c_int_max T < v"
    and "narrow T \<or> \<not> c_int_signed T \<and> v < 0"
  shows "\<exists>t. json_unmarshal_scalar_int T content pos val = Inr (-1, pos', val, t)"
proof (cases "c_int_signed T")
  case True
  then have n: "narrow T" using assms(3) by blast
  then have "max LONG_MIN (min LONG_MAX v) > c_int_max T \<or> max LONG_MIN (min LONG_MAX v) < c_int_min T"
    using assms(2) True by (cases T) (auto simp: c_int_bounds narrow_def)
  then show ?thesis using assms(1) True scalar_error_total [of "c_int_name T @ '' value out of range: ''"] c_int_name_plain [of T]
    by (auto simp: json_unmarshal_scalar_int_def json_unmarshal_scalar_signed_def strtol_show_int simp del: c_int_signed.simps)
next
  case False
  show ?thesis
  proof (cases "v < 0")
    case True
    then show ?thesis using assms(1) False scalar_error_total [of "c_int_name T @ '' cannot be negative: ''"] c_int_name_plain [of T]
      by (auto simp: json_unmarshal_scalar_int_def json_unmarshal_scalar_unsigned_def show_int_first Let_def simp del: c_int_signed.simps dropWhile_eq_Nil_conv)
  next
    case v: False
    then have "narrow T" using assms(3) by blast
    then have "min ULONG_MAX v > c_int_max T" using assms(2) False v by (cases T) (auto simp: c_int_bounds narrow_def)
    then show ?thesis using assms(1) False v scalar_error_total [of "c_int_name T @ '' value out of range: ''"] c_int_name_plain [of T]
      by (auto simp: json_unmarshal_scalar_int_def json_unmarshal_scalar_unsigned_def strtoul_show_int show_int_first Let_def simp del: c_int_signed.simps dropWhile_eq_Nil_conv)
  qed
qed

lemma scalar_int_saturates:
  assumes "json_next_token content pos = Inr (JSON_TOKEN_INT, pos', show_int v)" and "\<not> narrow T" and "c_int_signed T \<or> 0 \<le> v"
  shows "json_unmarshal_scalar_int T content pos val = Inr (0, pos', max (c_int_min T) (min (c_int_max T) v), show_int v)"
proof (cases "c_int_signed T")
  case True
  then have "c_int_min T = LONG_MIN" "c_int_max T = LONG_MAX" using assms(2) by (cases T; simp add: c_int_bounds narrow_def)+
  moreover have "LONG_MIN \<le> LONG_MAX" by (simp add: c_int_bounds)
  ultimately show ?thesis using assms(1) True
    by (auto simp: json_unmarshal_scalar_int_def json_unmarshal_scalar_signed_def strtol_show_int simp del: c_int_signed.simps)
next
  case False
  then have "c_int_min T = 0" "c_int_max T = ULONG_MAX" "0 \<le> v" using assms(2,3) by (cases T; simp add: c_int_bounds narrow_def)+
  moreover have "0 \<le> ULONG_MAX" by (simp add: c_int_bounds)
  ultimately show ?thesis using assms(1) False
    by (auto simp: json_unmarshal_scalar_int_def json_unmarshal_scalar_unsigned_def strtoul_show_int show_int_first Let_def simp del: c_int_signed.simps dropWhile_eq_Nil_conv)
qed

section \<open>The contract of the scalar readers\<close>

text \<open>
  Every scalar reader takes exactly one token: it faults where the lexer does, its position is the one
  behind the token, and its code is that of a closing bracket exactly when the token is one. What the array
  loops need to end is proved from this alone.
\<close>

locale token_reader =
  fixes read :: "string \<Rightarrow> json_pos \<Rightarrow> 'v scanned"
  assumes fault: "json_next_token content pos = Inl f \<Longrightarrow> read content pos = Inl f"
    and token: "json_next_token content pos = Inr (tk, pos', t) \<Longrightarrow>
      \<exists>code v t'. read content pos = Inr (code, pos', v, t') \<and> (code = 93 \<longleftrightarrow> tk = JSON_TOKEN_RIGHT_BRACKET)"
begin

lemma read_token:
  assumes "read content pos = Inr (code, pos', v, t)"
  obtains tk t' where "json_next_token content pos = Inr (tk, pos', t')" "code = 93 \<longleftrightarrow> tk = JSON_TOKEN_RIGHT_BRACKET"
proof (cases "json_next_token content pos")
  case (Inl f)
  then show ?thesis using fault [OF Inl] assms by simp
next
  case (Inr r)
  obtain tk p u where r: "r = (tk, p, u)" by (rule prod_cases3)
  show ?thesis using token [of content pos tk p u] assms that [of tk u] Inr r by auto
qed

lemma read_fault: "jp_offset pos \<le> length content + 2 \<Longrightarrow> read content pos = Inl f \<Longrightarrow> f = Bad_vararg"
proof (cases "json_next_token content pos")
  case (Inl g)
  moreover assume "jp_offset pos \<le> length content + 2" "read content pos = Inl f"
  ultimately show ?thesis using fault [OF Inl] json_next_token_ok [of pos content] by (auto simp: token_ok_def)
next
  case (Inr r)
  moreover assume "read content pos = Inl f"
  ultimately show ?thesis using token [of content pos "fst r" "fst (snd r)" "snd (snd r)"] by auto
qed

lemma read_offset:
  assumes "read content pos = Inr (code, pos', v, t)" and "jp_offset pos \<le> length content + 2"
  shows "jp_offset pos \<le> jp_offset pos' \<and> jp_offset pos' \<le> length content + 2"
  using read_token [OF assms(1)] json_next_token_ok [OF assms(2)] by (metis (no_types, lifting) token_ok_def old.sum.simps(6) case_prod_conv)

end

lemma ptoken_error:
  assumes "CHR ''%'' \<notin> set m" and "NUL \<notin> set m"
  shows "\<exists>v t'. scalar_error pos val t (m @ quoted_s) (ptoken tk t) (json_token_code tk) = Inr (json_token_code tk, pos, v, t')
    \<and> (json_token_code tk = 93 \<longleftrightarrow> tk = JSON_TOKEN_RIGHT_BRACKET)"
  using scalar_error_total [OF assms, of pos val t "ptoken tk t" "json_token_code tk"] by (cases tk) auto

lemma scalar_signed_reader: "token_reader (\<lambda>content pos. json_unmarshal_scalar_signed T content pos val)"
proof
  fix content pos tk pos' t
  assume a: "json_next_token content pos = Inr (tk, pos', t)"
  obtain e where "scalar_error pos' val t (c_int_name T @ '' value out of range: '' @ quoted_s) t (-1) = Inr (-1, pos', val, e)"
    using scalar_error_total [of "c_int_name T @ '' value out of range: ''" pos' val t t "-1"] c_int_name_plain [of T] by auto
  then show "\<exists>code v t'. json_unmarshal_scalar_signed T content pos val = Inr (code, pos', v, t') \<and> (code = 93 \<longleftrightarrow> tk = JSON_TOKEN_RIGHT_BRACKET)"
    using a ptoken_error [of "''expected integer but got ''" pos' val t tk]
    by (auto simp: json_unmarshal_scalar_signed_def split: prod.splits)
qed (simp add: json_unmarshal_scalar_signed_def)

lemma scalar_unsigned_reader: "token_reader (\<lambda>content pos. json_unmarshal_scalar_unsigned T content pos val)"
proof
  fix content pos tk pos' t
  assume a: "json_next_token content pos = Inr (tk, pos', t)"
  obtain e where "scalar_error pos' val t (c_int_name T @ '' value out of range: '' @ quoted_s) t (-1) = Inr (-1, pos', val, e)"
    using scalar_error_total [of "c_int_name T @ '' value out of range: ''" pos' val t t "-1"] c_int_name_plain [of T] by auto
  moreover obtain e' where "scalar_error pos' val t (c_int_name T @ '' cannot be negative: '' @ quoted_s) t (-1) = Inr (-1, pos', val, e')"
    using scalar_error_total [of "c_int_name T @ '' cannot be negative: ''" pos' val t t "-1"] c_int_name_plain [of T] by auto
  ultimately show "\<exists>code v t'. json_unmarshal_scalar_unsigned T content pos val = Inr (code, pos', v, t') \<and> (code = 93 \<longleftrightarrow> tk = JSON_TOKEN_RIGHT_BRACKET)"
    using a ptoken_error [of "''expected integer but got ''" pos' val t tk]
    by (auto simp: json_unmarshal_scalar_unsigned_def Let_def split: prod.splits)
qed (simp add: json_unmarshal_scalar_unsigned_def)

interpretation scalar_int: token_reader "\<lambda>content pos. json_unmarshal_scalar_int T content pos val" for T val
  using scalar_signed_reader scalar_unsigned_reader by (simp add: json_unmarshal_scalar_int_def)

interpretation scalar_sstr: token_reader "\<lambda>content pos. json_unmarshal_scalar_sstr_t content pos val" for val
proof
  fix content pos tk pos' t
  assume "json_next_token content pos = Inr (tk, pos', t)"
  then show "\<exists>code v t'. json_unmarshal_scalar_sstr_t content pos val = Inr (code, pos', v, t') \<and> (code = 93 \<longleftrightarrow> tk = JSON_TOKEN_RIGHT_BRACKET)"
    using ptoken_error [of "''expected string but got ''" pos' val t tk] by (auto simp: json_unmarshal_scalar_sstr_t_def)
qed (simp add: json_unmarshal_scalar_sstr_t_def)

lemma scalar_float_reader:
  assumes "CHR ''%'' \<notin> set T" and "NUL \<notin> set T"
  shows "token_reader (\<lambda>content pos. json_unmarshal_scalar_float T conv content pos val)"
proof
  fix content pos tk pos' t
  assume "json_next_token content pos = Inr (tk, pos', t)"
  moreover obtain e where "scalar_error pos' val t (T @ '' format invalid: '' @ quoted_s) t (-1) = Inr (-1, pos', val, e)"
    using scalar_error_total [of "T @ '' format invalid: ''" pos' val t t "-1"] assms by auto
  ultimately show "\<exists>code v t'. json_unmarshal_scalar_float T conv content pos val = Inr (code, pos', v, t') \<and> (code = 93 \<longleftrightarrow> tk = JSON_TOKEN_RIGHT_BRACKET)"
    using ptoken_error [of "''expected floating number but got ''" pos' val t tk]
    by (auto simp: json_unmarshal_scalar_float_def split: prod.splits)
qed (simp add: json_unmarshal_scalar_float_def)

interpretation scalar_double: token_reader "\<lambda>content pos. json_unmarshal_scalar_float ''double'' conv content pos val" for conv val
  by (rule scalar_float_reader) simp_all

interpretation scalar_float: token_reader "\<lambda>content pos. json_unmarshal_scalar_float ''float'' conv content pos val" for conv val
  by (rule scalar_float_reader) simp_all

interpretation scalar_enum: token_reader "\<lambda>content pos. json_unmarshal_scalar_enum es content pos val" for es val
proof
  fix content pos tk pos' t
  assume "json_next_token content pos = Inr (tk, pos', t)"
  moreover obtain e where "scalar_error pos' val t (''unknown enum value '' @ quoted_s) t (-1) = Inr (-1, pos', val, e)"
    using scalar_error_total [of "''unknown enum value ''" pos' val t t "-1"] by auto
  moreover obtain e' where "scalar_error pos' val t (''enum integer value out of range: '' @ quoted_s) t (-1) = Inr (-1, pos', val, e')"
    using scalar_error_total [of "''enum integer value out of range: ''" pos' val t t "-1"] by auto
  ultimately show "\<exists>code v t'. json_unmarshal_scalar_enum es content pos val = Inr (code, pos', v, t') \<and> (code = 93 \<longleftrightarrow> tk = JSON_TOKEN_RIGHT_BRACKET)"
    using ptoken_error [of "''expected string or integer for enum but got ''" pos' val t tk]
    by (auto simp: json_unmarshal_scalar_enum_def split: prod.splits option.splits)
qed (simp add: json_unmarshal_scalar_enum_def)

section \<open>Properties\<close>

text \<open>
  C25. An integer scalar of a type of less than 64 bits accepts a numeral exactly when its value is in the
  range of the type, and then stores that value; any other numeral is refused with \<open>JSON_ERROR\<close> and the
  field keeps its old value. A negative numeral for an unsigned type is always refused. For the 64-bit types
  a numeral out of range is not refused: the nearest value of the type is stored, because \<open>errno\<close> is not
  looked at. In each case the position stops behind the numeral.
\<close>

theorem json_scalar_int_value:
  assumes "content = pre @ ws @ show_int v @ d # post" and "list_all JSON_IS_SPACE ws" and "ends_int d" and "jp_offset pos = length pre"
  shows "\<exists>pos' code val' t. json_unmarshal_scalar_int T content pos val = Inr (code, pos', val', t)
    \<and> jp_offset pos' = length pre + length ws + length (show_int v)
    \<and> (if c_int_min T \<le> v \<and> v \<le> c_int_max T then code = 0 \<and> val' = v
        else if narrow T \<or> \<not> c_int_signed T \<and> v < 0 then code = -1 \<and> val' = val
        else code = 0 \<and> val' = max (c_int_min T) (min (c_int_max T) v))"
proof -
  obtain ln col where n: "json_next_token content pos = Inr (JSON_TOKEN_INT,
      pos\<lparr>jp_line := ln, jp_col := col, jp_offset := length pre + length ws + length (show_int v)\<rparr>, show_int v)"
    using next_int_token [OF assms] by blast
  show ?thesis
  proof (cases "c_int_min T \<le> v \<and> v \<le> c_int_max T")
    case True
    then show ?thesis using scalar_int_in_range [OF n, of T val] by simp
  next
    case False
    then show ?thesis using scalar_int_out_of_range [OF n, of T val] scalar_int_saturates [OF n, of T val]
      by (cases "narrow T \<or> \<not> c_int_signed T \<and> v < 0") (auto simp del: c_int_signed.simps)
  qed
qed

lemma json_scalar_int_value_witness:
  "\<exists>pos' code val' t. json_unmarshal_scalar_int C_int8_t ([] @ '' '' @ show_int 128 @ CHR '','' # []) pos_start 7 = Inr (code, pos', val', t)
    \<and> code = -1 \<and> val' = 7"
  using json_scalar_int_value [of _ "[]" "'' ''" 128 "CHR '',''" "[]" pos_start C_int8_t 7, OF refl]
  by (auto simp: is_space ends_int_def is_digit_def pos_start_def c_int_bounds narrow_def)

end
