(* ===== verification/JsonArray.thy ===== *)
theory JsonArray
  imports JsonScalar
begin

text \<open>
  Arrays of scalars: the writers \<open>json_marshal_array_indent_*\<close> (\<open>src/gencode/codes/json_parse.h\<close>) and the
  readers \<open>json_unmarshal_array_internal_*\<close> with their public wrappers
  (\<open>src/gencode/codes/json_parse.c\<close>). The macros make one function per element type from one body; here the
  element type is an argument. Allocation succeeds.
\<close>

section \<open>Writing\<close>

text \<open>The number printer of each element type.\<close>

definition append_int_text :: "c_int \<Rightarrow> sstr \<Rightarrow> int \<Rightarrow> fault + sstr" where
  "append_int_text T out v =
     (if T = C_int then sstr_printf_append no_floats out ''%d'' [A_int (word_of_int v)]
      else if T = C_long then sstr_printf_append no_floats out ''%l'' [A_long (word_of_int v)]
      else if T = C_int64_t then sstr_append_long_str out (word_of_int v)
      else if T = C_uint32_t then sstr_append_uint32_str out (word_of_int v)
      else if T = C_uint64_t then sstr_append_uint64_str out (word_of_int v)
      else sstr_append_int_str out (word_of_int v))"

definition append_quoted :: "sstr \<Rightarrow> string option \<Rightarrow> fault + sstr" where
  "append_quoted out s =
     bindE (sstr_append_cstr out [CHR 0x22]) (\<lambda>o1.
     bindE (sstr_json_escape_string_append o1 s) (\<lambda>o2. sstr_append_cstr o2 [CHR 0x22]))"

fun marshal_items :: "(sstr \<Rightarrow> 'v \<Rightarrow> fault + sstr) \<Rightarrow> nat \<Rightarrow> nat \<Rightarrow> 'v list \<Rightarrow> sstr \<Rightarrow> fault + sstr" where
  "marshal_items put curindent indent [] out = Inr out"
| "marshal_items put curindent indent (v # obj) out =
     bindE (sstr_append_indent out curindent) (\<lambda>o1.
     bindE (put o1 v) (\<lambda>o2.
     bindE (if obj \<noteq> [] then sstr_append_of o2 '','' else Inr o2) (\<lambda>o3.
     bindE (sstr_append_of_if o3 [CHR 0x0A] (indent \<noteq> 0)) (\<lambda>o4. marshal_items put curindent indent obj o4))))"

definition json_marshal_array_indent :: "(sstr \<Rightarrow> 'v \<Rightarrow> fault + sstr) \<Rightarrow> 'v list \<Rightarrow> nat \<Rightarrow> nat \<Rightarrow> sstr \<Rightarrow> fault + sstr" where
  "json_marshal_array_indent put obj indent curindent out =
     bindE (sstr_append_of out ''['') (\<lambda>o1.
     bindE (sstr_append_of_if o1 [CHR 0x0A] (indent \<noteq> 0)) (\<lambda>o2.
     bindE (marshal_items put (curindent + indent) indent obj o2) (\<lambda>o3.
     bindE (sstr_append_indent o3 curindent) (\<lambda>o4. sstr_append_of o4 '']''))))"

definition json_marshal_array_indent_int :: "c_int \<Rightarrow> int list \<Rightarrow> nat \<Rightarrow> nat \<Rightarrow> sstr \<Rightarrow> fault + sstr" where
  "json_marshal_array_indent_int T = json_marshal_array_indent (append_int_text T)"

definition json_marshal_array_indent_sstr_t :: "string option list \<Rightarrow> nat \<Rightarrow> nat \<Rightarrow> sstr \<Rightarrow> fault + sstr" where
  "json_marshal_array_indent_sstr_t = json_marshal_array_indent append_quoted"

text \<open>The text of a floating point number is a parameter, as in \<open>sstr_append_double_str\<close>.\<close>

definition json_marshal_array_indent_float :: "(nat \<Rightarrow> 'd \<Rightarrow> string) \<Rightarrow> 'd list \<Rightarrow> nat \<Rightarrow> nat \<Rightarrow> sstr \<Rightarrow> fault + sstr" where
  "json_marshal_array_indent_float fmt_g = json_marshal_array_indent (sstr_append_float_str fmt_g)"

definition json_marshal_array_indent_double :: "(nat \<Rightarrow> 'd \<Rightarrow> string) \<Rightarrow> 'd list \<Rightarrow> nat \<Rightarrow> nat \<Rightarrow> sstr \<Rightarrow> fault + sstr" where
  "json_marshal_array_indent_double fmt_g = json_marshal_array_indent (sstr_append_double_str fmt_g)"

section \<open>The elements\<close>

datatype 'd jvalue = J_int int | J_float 'd | J_str "string option"

text \<open>
  The element types with an array reader; \<open>conv\<close> is \<open>strtof\<close> or \<open>strtod\<close> and \<open>zero\<close> its number 0.
\<close>

datatype 'd elem_type =
    E_int c_int
  | E_float "string \<Rightarrow> 'd \<times> string" 'd
  | E_double "string \<Rightarrow> 'd \<times> string" 'd
  | E_sstr

definition scanned_map :: "('a \<Rightarrow> 'b) \<Rightarrow> 'a scanned \<Rightarrow> 'b scanned" where
  "scanned_map f m = bindE m (\<lambda>(code, pos, v, t). Inr (code, pos, f v, t))"

text \<open>\<open>TYPE res = 0; r = json_unmarshal_scalar_##TYPE(content, pos, &res, txt)\<close>.\<close>

fun json_unmarshal_element :: "'d elem_type \<Rightarrow> string \<Rightarrow> json_pos \<Rightarrow> 'd jvalue scanned" where
  "json_unmarshal_element (E_int T) content pos = scanned_map J_int (json_unmarshal_scalar_int T content pos 0)"
| "json_unmarshal_element (E_float conv zero) content pos =
     scanned_map J_float (json_unmarshal_scalar_float ''float'' conv content pos zero)"
| "json_unmarshal_element (E_double conv zero) content pos =
     scanned_map J_float (json_unmarshal_scalar_float ''double'' conv content pos zero)"
| "json_unmarshal_element E_sstr content pos = scanned_map J_str (json_unmarshal_scalar_sstr_t content pos None)"

section \<open>The array under construction\<close>

text \<open>
  \<open>*ptr\<close> and \<open>*ptrlen\<close>: the elements, and the number of elements the block at \<open>*ptr\<close> has room for. The
  capacity \<open>cap_\<close> is a local variable that starts at 0 whatever the block has room for.
\<close>

record 'v array_buf =
  ab_items :: "'v list"
  ab_room :: nat

definition array_push :: "nat \<Rightarrow> 'v array_buf \<Rightarrow> 'v \<Rightarrow> fault + nat \<times> 'v array_buf" where
  "array_push cap b v =
     (let n = length (ab_items b);
          grow = n \<ge> cap;
          cap' = (if grow then (if cap = 0 then 4 else cap * 2) else cap);
          room = (if grow then cap' else ab_room b)
      in if n < room then Inr (cap', \<lparr>ab_items = ab_items b @ [v], ab_room = room\<rparr>) else Inl Out_of_bounds)"

definition array_null :: "'v array_buf" where
  "array_null = \<lparr>ab_items = [], ab_room = 0\<rparr>"

section \<open>Reading\<close>

lemma element_reader: "token_reader (json_unmarshal_element E)"
proof
  fix content pos tk pos' t
  assume n: "json_next_token content pos = Inr (tk, pos', t)"
  show "\<exists>code v t'. json_unmarshal_element E content pos = Inr (code, pos', v, t') \<and> (code = 93 \<longleftrightarrow> tk = JSON_TOKEN_RIGHT_BRACKET)"
  proof (cases E)
    case (E_int T)
    then show ?thesis using scalar_int.token [OF n, of T 0] by (auto simp: scanned_map_def)
  next
    case (E_float conv zero)
    then show ?thesis using scalar_float.token [OF n, of conv zero] by (auto simp: scanned_map_def)
  next
    case (E_double conv zero)
    then show ?thesis using scalar_double.token [OF n, of conv zero] by (auto simp: scanned_map_def)
  next
    case E_sstr
    then show ?thesis using scalar_sstr.token [OF n, of None] by (auto simp: scanned_map_def)
  qed
next
  fix content pos f
  assume n: "json_next_token content pos = Inl f"
  show "json_unmarshal_element E content pos = Inl f"
    using n by (cases E) (simp_all add: scanned_map_def json_unmarshal_scalar_int_def json_unmarshal_scalar_signed_def
        json_unmarshal_scalar_unsigned_def json_unmarshal_scalar_float_def json_unmarshal_scalar_sstr_t_def)
qed

interpretation element: token_reader "json_unmarshal_element E" for E
  by (rule element_reader)

lemma next_token_beyond:
  "json_next_token content pos = Inr (tk, pos', t) \<Longrightarrow> tk \<noteq> JSON_TOKEN_EOF \<Longrightarrow> tk \<noteq> JSON_ERROR \<Longrightarrow>
   jp_offset pos < length content \<and> jp_offset pos < jp_offset pos' \<and> jp_offset pos' \<le> length content + 2"
  using json_next_token_ok [of pos content] by (cases "jp_offset pos \<ge> length content") (auto simp: token_ok_def json_next_token_def)

lemma next_token_mono:
  "json_next_token content pos = Inr (tk, pos', t) \<Longrightarrow> jp_offset pos \<le> jp_offset pos'"
  using json_next_token_ok [of pos content] by (cases "jp_offset pos \<ge> length content") (auto simp: token_ok_def json_next_token_def)

lemma array_step_advances:
  assumes "json_unmarshal_element E content pos = Inr (r, pos1, res, t)" and "json_next_token content pos1 = Inr (tk, pos2, t2)"
    and "tk \<noteq> JSON_TOKEN_EOF" "tk \<noteq> JSON_ERROR"
  shows "length content + 2 - jp_offset pos2 < length content + 2 - jp_offset pos"
proof -
  obtain tk0 t0 where "json_next_token content pos = Inr (tk0, pos1, t0)" using element.read_token [OF assms(1)] by metis
  then show ?thesis using next_token_mono next_token_beyond [OF assms(2-4)] by fastforce
qed

function json_array_loop ::
  "'d elem_type \<Rightarrow> string \<Rightarrow> json_pos \<Rightarrow> nat \<Rightarrow> 'd jvalue array_buf \<Rightarrow> 'd jvalue array_buf scanned" where
  "json_array_loop E content pos cap b =
     bindE (json_unmarshal_element E content pos) (\<lambda>(r, pos1, res, t).
       if r = json_token_code JSON_TOKEN_RIGHT_BRACKET then Inr (0, pos1, b, t)
       else if r < 0 then Inr (r, pos1, b, t)
       else bindE (array_push cap b res) (\<lambda>(cap', b').
            bindE (json_next_token content pos1) (\<lambda>(tk2, pos2, t2).
              if tk2 = JSON_TOKEN_RIGHT_BRACKET then Inr (0, pos2, b', t2)
              else if tk2 = JSON_TOKEN_COMMA then json_array_loop E content pos2 cap' b'
              else if tk2 = JSON_ERROR then Inr (-1, pos2, b', t2)
              else if tk2 = JSON_TOKEN_EOF then
                bindE (PERROR pos2 ''parsing array, each EOF'' []) (\<lambda>e. Inr (-1, pos2, b', t2 @ e))
              else json_array_loop E content pos2 cap' b')))"
  by pat_completeness auto
termination
  by (relation "measure (\<lambda>(E, content, pos, cap, b). length content + 2 - jp_offset pos)")
    (auto dest: array_step_advances simp del: add_2_eq_Suc')

declare json_array_loop.simps [simp del]

definition json_unmarshal_array_internal ::
  "'d elem_type \<Rightarrow> string \<Rightarrow> json_pos \<Rightarrow> 'd jvalue array_buf \<Rightarrow> 'd jvalue array_buf scanned" where
  "json_unmarshal_array_internal E content pos0 b =
     bindE (json_next_token content pos0) (\<lambda>(tk, pos, t).
       if tk \<noteq> JSON_TOKEN_LEFT_BRACKET then
         bindE (PERROR pos (''expected '' @ [CHR 0x27] @ ''['' @ [CHR 0x27] @ '' but got %s'') [cs_arg (ptoken tk t)]) (\<lambda>e.
           Inr (-1, pos, b, t @ e))
       else json_array_loop E content pos 0 b)"

text \<open>The public functions; on an error the block is freed. Callers start from a null pointer and length 0.\<close>

definition json_unmarshal_array :: "'d elem_type \<Rightarrow> string \<Rightarrow> 'd jvalue array_buf \<Rightarrow> fault + int \<times> 'd jvalue array_buf" where
  "json_unmarshal_array E content b0 =
     bindE (json_unmarshal_array_internal E content pos_start b0) (\<lambda>(r, _, b, _).
       Inr (r, if r \<noteq> 0 then array_null else b))"

section \<open>Arrays of enums\<close>

text \<open>
  This loop asks for the next token twice, and a value at the end of the input counts as read (its code is
  0), so it need not end: \<open>n\<close> bounds the rounds, and \<open>None\<close> means that it has not returned within them. The
  block always has room for \<open>cap\<close> elements. An element that is not stored is taken to be 0 (the memory is
  uninitialised), and the array is stored to \<open>*ptr\<close> only when the code is 0.
\<close>

fun enum_array_loop :: "nat \<Rightarrow> string list \<Rightarrow> string \<Rightarrow> json_pos \<Rightarrow> int list \<Rightarrow> int list scanned option" where
  "enum_array_loop 0 es content pos arr = None"
| "enum_array_loop (Suc n) es content pos arr =
     (case json_next_token content pos of
        Inl f \<Rightarrow> Some (Inl f)
      | Inr (tk, pos1, t) \<Rightarrow>
          if tk = JSON_TOKEN_RIGHT_BRACKET then Some (Inr (0, pos1, arr, t))
          else if tk = JSON_TOKEN_COMMA then enum_array_loop n es content pos1 arr
          else
            (case json_unmarshal_scalar_enum es content pos 0 of
               Inl f \<Rightarrow> Some (Inl f)
             | Inr (r, pos2, v, t2) \<Rightarrow>
                 if r \<noteq> 0 then Some (Inr (r, pos2, [], t2))
                 else enum_array_loop n es content pos2 (arr @ [v])))"

definition json_unmarshal_array_internal_enum ::
  "nat \<Rightarrow> string list \<Rightarrow> string \<Rightarrow> json_pos \<Rightarrow> int list scanned option" where
  "json_unmarshal_array_internal_enum n es content pos0 =
     (case json_next_token content pos0 of
        Inl f \<Rightarrow> Some (Inl f)
      | Inr (tk, pos, t) \<Rightarrow>
          if tk = JSON_TOKEN_NULL then Some (Inr (0, pos, [], t))
          else if tk \<noteq> JSON_TOKEN_LEFT_BRACKET then
            Some (scalar_error pos [] t (''expected '' @ [CHR 0x27] @ ''['' @ [CHR 0x27] @ '' but got '' @ quoted_s) (ptoken tk t) (-1))
          else enum_array_loop n es content pos [])"

section \<open>Skipping a value\<close>

text \<open>
  \<open>json_unmarshal_ignore_value\<close>: the depths of braces and brackets are counted apart. An error token does
  not advance, so this loop need not end either.
\<close>

fun ignore_loop :: "nat \<Rightarrow> string \<Rightarrow> json_pos \<Rightarrow> int \<Rightarrow> int \<Rightarrow> (fault + int \<times> json_pos \<times> string) option" where
  "ignore_loop 0 content pos brace bracket = None"
| "ignore_loop (Suc n) content pos brace bracket =
     (case json_next_token content pos of
        Inl f \<Rightarrow> Some (Inl f)
      | Inr (tk, pos1, t) \<Rightarrow>
          if tk = JSON_TOKEN_EOF then
            Some (bindE (PERROR pos1 ''unexpected EOF'' []) (\<lambda>e. Inr (-1, pos1, t @ e)))
          else
            (let brace' = (if tk = JSON_TOKEN_LEFT_BRACE then brace + 1 else if tk = JSON_TOKEN_RIGHT_BRACE then brace - 1 else brace);
                 bracket' = (if tk = JSON_TOKEN_LEFT_BRACKET then bracket + 1 else if tk = JSON_TOKEN_RIGHT_BRACKET then bracket - 1 else bracket)
             in if brace' = 0 \<and> bracket' = 0 then Some (Inr (0, pos1, t))
                else ignore_loop n content pos1 brace' bracket'))"

definition json_unmarshal_ignore_value :: "nat \<Rightarrow> string \<Rightarrow> json_pos \<Rightarrow> (fault + int \<times> json_pos \<times> string) option" where
  "json_unmarshal_ignore_value n content pos = ignore_loop n content pos 0 0"

section \<open>What is written\<close>

definition newline_if :: "nat \<Rightarrow> string" where
  "newline_if indent = (if indent \<noteq> 0 then [CHR 0x0A] else [])"

fun items_text :: "('v \<Rightarrow> string) \<Rightarrow> nat \<Rightarrow> nat \<Rightarrow> 'v list \<Rightarrow> string" where
  "items_text sh curindent indent [] = []"
| "items_text sh curindent indent (v # obj) =
     replicate curindent CHR '' '' @ sh v @ (if obj \<noteq> [] then '','' else []) @ newline_if indent
       @ items_text sh curindent indent obj"

definition array_text :: "('v \<Rightarrow> string) \<Rightarrow> nat \<Rightarrow> nat \<Rightarrow> 'v list \<Rightarrow> string" where
  "array_text sh indent curindent obj =
     CHR ''['' # newline_if indent @ items_text sh (curindent + indent) indent obj @ replicate curindent CHR '' '' @ '']''"

lemma newline_if_correct:
  assumes "sstr_ok s"
  shows "\<exists>s'. sstr_append_of_if s [CHR 0x0A] (indent \<noteq> 0) = Inr s' \<and> sstr_ok s' \<and> sstr_content s' = sstr_content s @ newline_if indent"
  using sstr_append_of_correct [OF assms, of "[CHR 0x0A]"] assms by (simp add: sstr_append_of_if_def newline_if_def)

lemma newline_if_space: "list_all JSON_IS_SPACE (newline_if indent)"
  by (simp add: newline_if_def is_space)

lemma blanks_space: "list_all JSON_IS_SPACE (replicate n (CHR '' ''))"
  by (induction n) (simp_all add: is_space)

text \<open>What may stand behind an element: white space, a comma or the closing bracket.\<close>

definition follows :: "char \<Rightarrow> bool" where
  "follows d \<longleftrightarrow> JSON_IS_SPACE d \<or> d = CHR '','' \<or> d = CHR '']''"

lemma next_punct_token:
  assumes "content = pre @ ws @ c # post" and "list_all JSON_IS_SPACE ws" and "punctuation c = Some tk" and "jp_offset pos = length pre"
  shows "\<exists>ln col. json_next_token content pos = Inr (tk, pos\<lparr>jp_line := ln, jp_col := col, jp_offset := length pre + length ws + 1\<rparr>, [])"
proof -
  have c: "c \<in> {CHR ''['', CHR '']'', CHR ''{'', CHR ''}'', CHR '':'', CHR '',''}"
    using assms(3) by (auto simp: punctuation_def split: if_splits)
  then have "\<not> JSON_IS_SPACE c" "c \<noteq> CHR ''/''" "c \<noteq> CHR 0x22" using not_space by auto
  then obtain ln cl where skip: "json_skip_space_comments content pos = pos\<lparr>jp_line := ln, jp_col := cl, jp_offset := length pre + length ws\<rparr>"
    using skip_space_run [OF assms(1,2) _ _ assms(4)] by auto
  have at: "length pre + length ws < length content" "content ! (length pre + length ws) = c"
    using assms(1) by (simp_all add: nth_append)
  show ?thesis using skip at assms(3,4) \<open>c \<noteq> CHR 0x22\<close>
    by (intro exI [of _ ln] exI [of _ "cl + 1"]) (simp add: json_next_token_def Let_def forward_def)
qed

section \<open>The array under construction\<close>

definition push_ok :: "nat \<Rightarrow> 'v array_buf \<Rightarrow> bool" where
  "push_ok cap b \<longleftrightarrow> length (ab_items b) \<le> cap \<and> ab_room b = cap"

lemma array_push_ok:
  assumes "push_ok cap b"
  shows "\<exists>cap' b'. array_push cap b v = Inr (cap', b') \<and> push_ok cap' b' \<and> ab_items b' = ab_items b @ [v]"
  using assms by (auto simp: array_push_def push_ok_def Let_def)

lemma push_ok_null: "push_ok 0 array_null"
  by (simp add: push_ok_def array_null_def)

section \<open>Writing and reading an element\<close>

text \<open>
  What the arrays need of an element type: its writer appends the text \<open>sh v\<close>, and its reader gives \<open>v\<close>
  back from that text, whatever white space stands in front of it.
\<close>

locale element_codec =
  fixes put :: "sstr \<Rightarrow> 'v \<Rightarrow> fault + sstr"
    and sh :: "'v \<Rightarrow> string"
    and good :: "'v \<Rightarrow> bool"
    and E :: "'d elem_type"
    and value_of :: "'v \<Rightarrow> 'd jvalue"
  assumes put: "sstr_ok s \<Longrightarrow> good v \<Longrightarrow> \<exists>s'. put s v = Inr s' \<and> sstr_ok s' \<and> sstr_content s' = sstr_content s @ sh v"
    and read: "content = pre @ ws @ sh v @ d # post \<Longrightarrow> list_all JSON_IS_SPACE ws \<Longrightarrow> follows d \<Longrightarrow> jp_offset pos = length pre \<Longrightarrow> good v \<Longrightarrow>
      \<exists>pos' t. json_unmarshal_element E content pos = Inr (0, pos', value_of v, t) \<and> jp_offset pos' = length pre + length ws + length (sh v)"
begin

lemma marshal_items_correct:
  "sstr_ok out \<Longrightarrow> list_all good obj \<Longrightarrow>
   \<exists>out'. marshal_items put curindent indent obj out = Inr out' \<and> sstr_ok out' \<and> sstr_content out' = sstr_content out @ items_text sh curindent indent obj"
proof (induction obj arbitrary: out)
  case (Cons v obj)
  obtain o1 where 1: "sstr_append_indent out curindent = Inr o1" "sstr_ok o1" "sstr_content o1 = sstr_content out @ replicate curindent CHR '' ''"
    using sstr_append_indent_correct [OF Cons.prems(1), of curindent] by blast
  obtain o2 where 2: "put o1 v = Inr o2" "sstr_ok o2" "sstr_content o2 = sstr_content o1 @ sh v"
    using put [OF 1(2), of v] Cons.prems(2) by auto
  obtain o3 where 3: "(if obj \<noteq> [] then sstr_append_of o2 '','' else Inr o2) = Inr o3" "sstr_ok o3"
      "sstr_content o3 = sstr_content o2 @ (if obj \<noteq> [] then '','' else [])"
    using sstr_append_of_correct [OF 2(2), of "'',''"] 2(2) by (cases "obj = []") auto
  obtain o4 where 4: "sstr_append_of_if o3 [CHR 0x0A] (indent \<noteq> 0) = Inr o4" "sstr_ok o4" "sstr_content o4 = sstr_content o3 @ newline_if indent"
    using newline_if_correct [OF 3(2)] by blast
  obtain o5 where "marshal_items put curindent indent obj o4 = Inr o5" "sstr_ok o5" "sstr_content o5 = sstr_content o4 @ items_text sh curindent indent obj"
    using Cons.IH [OF 4(2)] Cons.prems(2) by auto
  then show ?case using 1 2 3 4 by simp
qed simp

lemma marshal_correct:
  assumes "sstr_ok out" and "list_all good obj"
  shows "\<exists>out'. json_marshal_array_indent put obj indent curindent out = Inr out' \<and> sstr_ok out'
    \<and> sstr_content out' = sstr_content out @ array_text sh indent curindent obj"
proof -
  obtain o1 where 1: "sstr_append_of out ''['' = Inr o1" "sstr_ok o1" "sstr_content o1 = sstr_content out @ ''[''"
    using sstr_append_of_correct [OF assms(1)] by blast
  obtain o2 where 2: "sstr_append_of_if o1 [CHR 0x0A] (indent \<noteq> 0) = Inr o2" "sstr_ok o2" "sstr_content o2 = sstr_content o1 @ newline_if indent"
    using newline_if_correct [OF 1(2)] by blast
  obtain o3 where 3: "marshal_items put (curindent + indent) indent obj o2 = Inr o3" "sstr_ok o3"
      "sstr_content o3 = sstr_content o2 @ items_text sh (curindent + indent) indent obj"
    using marshal_items_correct [OF 2(2) assms(2)] by blast
  obtain o4 where 4: "sstr_append_indent o3 curindent = Inr o4" "sstr_ok o4" "sstr_content o4 = sstr_content o3 @ replicate curindent CHR '' ''"
    using sstr_append_indent_correct [OF 3(2)] by blast
  show ?thesis using sstr_append_of_correct [OF 4(2), of "'']''"] 1 2 3 4
    by (auto simp: json_marshal_array_indent_def array_text_def)
qed

lemma array_loop_reads:
  assumes "obj \<noteq> []" and "content = pre @ nl @ items_text sh curindent indent obj @ ws @ CHR '']'' # post"
    and "list_all JSON_IS_SPACE nl" and "list_all JSON_IS_SPACE ws" and "list_all good obj" and "jp_offset pos = length pre" and "push_ok cap b"
  shows "\<exists>pos' b' t. json_array_loop E content pos cap b = Inr (0, pos', b', t) \<and> ab_items b' = ab_items b @ map value_of obj"
  using assms
proof (induction obj arbitrary: pre nl pos cap b)
  case (Cons v obj)
  let ?blank = "nl @ replicate curindent CHR '' ''"
  let ?rest = "(if obj \<noteq> [] then '','' else []) @ newline_if indent @ items_text sh curindent indent obj @ ws @ CHR '']'' # post"
  obtain d r where d: "?rest = d # r" "follows d"
  proof (cases "obj = [] \<and> newline_if indent @ ws \<noteq> []")
    case True
    then show ?thesis using that newline_if_space [of indent] Cons.prems(4)
      by (cases "newline_if indent @ ws") (auto simp: follows_def newline_if_def split: if_splits)
  next
    case False
    then show ?thesis using that by (cases "obj = []") (auto simp: follows_def)
  qed
  have content: "content = pre @ ?blank @ sh v @ d # r" using Cons.prems(2) d(1) by simp
  have blank: "list_all JSON_IS_SPACE ?blank" using Cons.prems(3) blanks_space by simp
  obtain pos1 t where 1: "json_unmarshal_element E content pos = Inr (0, pos1, value_of v, t)" "jp_offset pos1 = length pre + length ?blank + length (sh v)"
    using read [OF content blank d(2) Cons.prems(6)] Cons.prems(5) by auto
  obtain cap' b' where 2: "array_push cap b (value_of v) = Inr (cap', b')" "push_ok cap' b'" "ab_items b' = ab_items b @ [value_of v]"
    using array_push_ok [OF Cons.prems(7)] by blast
  let ?pre = "pre @ ?blank @ sh v"
  have off: "jp_offset pos1 = length ?pre" using 1(2) by simp
  show ?case
  proof (cases "obj = []")
    case True
    have "content = ?pre @ (newline_if indent @ ws) @ CHR '']'' # post" using Cons.prems(2) True by simp
    then obtain pos2 where "json_next_token content pos1 = Inr (JSON_TOKEN_RIGHT_BRACKET, pos2, [])"
      using next_punct_token [of content ?pre "newline_if indent @ ws" "CHR '']''" post _ pos1] off newline_if_space Cons.prems(4)
      by (auto simp: punctuation_def)
    then show ?thesis using 1 2 True by (subst json_array_loop.simps) simp
  next
    case False
    have c: "content = ?pre @ [] @ CHR '','' # newline_if indent @ items_text sh curindent indent obj @ ws @ CHR '']'' # post"
      using Cons.prems(2) False by simp
    have c2: "content = (?pre @ '','') @ newline_if indent @ items_text sh curindent indent obj @ ws @ CHR '']'' # post" using c by simp
    obtain pos2 where 3: "json_next_token content pos1 = Inr (JSON_TOKEN_COMMA, pos2, [])" "jp_offset pos2 = length (?pre @ '','')"
      using next_punct_token [OF c _ _ off, of JSON_TOKEN_COMMA] by (auto simp: punctuation_def)
    obtain pos' b'' t' where "json_array_loop E content pos2 cap' b' = Inr (0, pos', b'', t')" "ab_items b'' = ab_items b' @ map value_of obj"
      using Cons.IH [OF False c2 newline_if_space Cons.prems(4) _ 3(2) 2(2)] Cons.prems(5) by auto
    then show ?thesis using 1 2 3 by (subst json_array_loop.simps) simp
  qed
qed simp

lemma array_reads:
  assumes "list_all good obj"
  shows "\<exists>b. json_unmarshal_array E (array_text sh indent curindent obj) array_null = Inr (0, b) \<and> ab_items b = map value_of obj"
proof -
  let ?text = "array_text sh indent curindent obj" and ?items = "items_text sh (curindent + indent) indent obj"
  have text0: "?text = [] @ [] @ CHR ''['' # newline_if indent @ ?items @ replicate curindent CHR '' '' @ '']''" by (simp add: array_text_def)
  obtain pos where 1: "json_next_token ?text pos_start = Inr (JSON_TOKEN_LEFT_BRACKET, pos, [])" "jp_offset pos = length ''[''"
    using next_punct_token [OF text0, of JSON_TOKEN_LEFT_BRACKET pos_start] by (auto simp: punctuation_def pos_start_def)
  have "\<exists>pos' b t. json_array_loop E ?text pos 0 array_null = Inr (0, pos', b, t) \<and> ab_items b = map value_of obj"
  proof (cases "obj = []")
    case True
    have "?text = ''['' @ (newline_if indent @ replicate curindent CHR '' '') @ CHR '']'' # []" using True by (simp add: array_text_def)
    then obtain pos2 where n: "json_next_token ?text pos = Inr (JSON_TOKEN_RIGHT_BRACKET, pos2, [])"
      using next_punct_token [of ?text "''[''" "newline_if indent @ replicate curindent CHR '' ''" "CHR '']''" "[]" JSON_TOKEN_RIGHT_BRACKET pos] 1(2)
        newline_if_space blanks_space by (auto simp: punctuation_def)
    obtain v t where "json_unmarshal_element E ?text pos = Inr (93, pos2, v, t)" using element.token [OF n, of E] by auto
    then show ?thesis using True by (subst json_array_loop.simps) (simp add: array_null_def)
  next
    case False
    have "?text = ''['' @ newline_if indent @ ?items @ replicate curindent CHR '' '' @ CHR '']'' # []" by (simp add: array_text_def)
    then show ?thesis
      using array_loop_reads [OF False _ newline_if_space blanks_space assms 1(2) push_ok_null] by (auto simp: array_null_def)
  qed
  then show ?thesis using 1 by (auto simp: json_unmarshal_array_def json_unmarshal_array_internal_def)
qed

end

section \<open>The element types\<close>

lemma sint_word_of_int: "- (2 ^ (LENGTH('a::len) - 1)) \<le> v \<Longrightarrow> v < 2 ^ (LENGTH('a) - 1) \<Longrightarrow> sint (word_of_int v :: 'a word) = v"
  unfolding sint_sbintrunc' by (rule signed_take_bit_int_eq_self) simp_all

lemma unat_word_of_int: "0 \<le> v \<Longrightarrow> v < 2 ^ LENGTH('a::len) \<Longrightarrow> unat (word_of_int v :: 'a word) = nat v"
  by (simp add: take_bit_int_eq_self unsigned_of_int)

lemma printf_int:
  assumes "sstr_ok s"
  shows "\<exists>s'. sstr_printf_append no_floats s ''%d'' [A_int i] = Inr s' \<and> sstr_ok s' \<and> sstr_content s' = sstr_content s @ show_int (sint i)"
    and "\<exists>s'. sstr_printf_append no_floats s ''%l'' [A_long l] = Inr s' \<and> sstr_ok s' \<and> sstr_content s' = sstr_content s @ show_int (sint l)"
  using vslprintf_pieces [OF assms, of "[Dec i]" no_floats] vslprintf_pieces [OF assms, of "[Long l]" no_floats]
  by (simp_all add: sstr_printf_append_def sstr_vslprintf_append_def cstr_def del: vslprintf_loop.simps)

lemma append_int_text_correct:
  assumes "sstr_ok s" and "c_int_min T \<le> v \<and> v \<le> c_int_max T"
  shows "\<exists>s'. append_int_text T s v = Inr s' \<and> sstr_ok s' \<and> sstr_content s' = sstr_content s @ show_int v"
proof -
  have int32: ?thesis if "append_int_text T s v = sstr_append_int_str s (word_of_int v)" "- (2 ^ 31) \<le> v" "v < 2 ^ 31"
    using sstr_append_int_str_correct [OF assms(1), of "word_of_int v"] sint_word_of_int [of v, where 'a = 32] that by simp
  consider "T = C_int" | "T = C_long" | "T = C_int64_t" | "T = C_uint32_t" | "T = C_uint64_t"
    | "T \<in> {C_int8_t, C_int16_t, C_int32_t, C_uint8_t, C_uint16_t}" by (cases T) simp_all
  then show ?thesis
  proof cases
    case 1
    then show ?thesis using printf_int(1) [OF assms(1), of "word_of_int v"] sint_word_of_int [of v, where 'a = 32] assms(2)
      by (simp add: append_int_text_def c_int_bounds)
  next
    case 2
    then show ?thesis using printf_int(2) [OF assms(1), of "word_of_int v"] sint_word_of_int [of v, where 'a = 64] assms(2)
      by (simp add: append_int_text_def c_int_bounds)
  next
    case 3
    then show ?thesis using sstr_append_long_str_correct [OF assms(1), of "word_of_int v"] sint_word_of_int [of v, where 'a = 64] assms(2)
      by (simp add: append_int_text_def c_int_bounds)
  next
    case 4
    then show ?thesis using sstr_append_uint32_str_correct [OF assms(1), of "word_of_int v"] unat_word_of_int [of v, where 'a = 32] assms(2)
      by (simp add: append_int_text_def c_int_bounds show_int_def)
  next
    case 5
    then show ?thesis using sstr_append_uint64_str_correct [OF assms(1), of "word_of_int v"] unat_word_of_int [of v, where 'a = 64] assms(2)
      by (simp add: append_int_text_def c_int_bounds show_int_def)
  next
    case 6
    then show ?thesis using assms(2) by (intro int32) (auto simp: append_int_text_def c_int_bounds)
  qed
qed

lemma follows_ends_int: "follows d \<Longrightarrow> ends_int d"
proof -
  have "\<not> JSON_IS_SPACE (CHR ''.'')" "\<not> JSON_IS_SPACE (CHR ''e'')" "\<not> JSON_IS_SPACE (CHR ''E'')" by code_simp+
  moreover have "\<not> JSON_IS_SPACE d" if "is_digit d" using that JSON_IS_DIGIT_eq [of d] by (auto simp: JSON_IS_SPACE_def JSON_IS_DIGIT_def)
  ultimately show "follows d \<Longrightarrow> ends_int d" by (auto simp: follows_def ends_int_def is_digit_def)
qed

interpretation int_array: element_codec "append_int_text T" show_int "\<lambda>v. c_int_min T \<le> v \<and> v \<le> c_int_max T" "E_int T :: 'd elem_type" J_int for T
proof
  fix s v
  assume "sstr_ok s" "c_int_min T \<le> v \<and> v \<le> c_int_max T"
  then show "\<exists>s'. append_int_text T s v = Inr s' \<and> sstr_ok s' \<and> sstr_content s' = sstr_content s @ show_int v"
    by (rule append_int_text_correct)
next
  fix content pre ws v d post and pos :: json_pos
  assume a: "content = pre @ ws @ show_int v @ d # post" "list_all JSON_IS_SPACE ws" "follows d" "jp_offset pos = length pre"
    "c_int_min T \<le> v \<and> v \<le> c_int_max T"
  obtain ln col where "json_next_token content pos = Inr (JSON_TOKEN_INT,
      pos\<lparr>jp_line := ln, jp_col := col, jp_offset := length pre + length ws + length (show_int v)\<rparr>, show_int v)"
    using next_int_token [OF a(1,2) follows_ends_int [OF a(3)] a(4)] by blast
  from scalar_int_in_range [OF this, of T 0] a(5)
  show "\<exists>pos' t. json_unmarshal_element (E_int T) content pos = Inr (0, pos', J_int v, t) \<and> jp_offset pos' = length pre + length ws + length (show_int v)"
    by (simp add: scanned_map_def)
qed

text \<open>The text of a string element; a null string is written like an empty one.\<close>

definition quoted :: "string option \<Rightarrow> string" where
  "quoted s = CHR 0x22 # (case s of None \<Rightarrow> [] | Some d \<Rightarrow> json_escape d) @ [CHR 0x22]"

interpretation sstr_array: element_codec append_quoted quoted "\<lambda>s. s \<noteq> None" "E_sstr :: 'd elem_type" J_str
proof
  fix s :: sstr and v :: "string option"
  assume ok: "sstr_ok s" and "v \<noteq> None"
  then obtain d where v: "v = Some d" by blast
  obtain o1 where 1: "sstr_append_cstr s [CHR 0x22] = Inr o1" "sstr_ok o1" "sstr_content o1 = sstr_content s @ [CHR 0x22]"
    using sstr_append_of_correct [OF ok, of "[CHR 0x22]"] by (auto simp: sstr_append_cstr_def cstr_def)
  obtain o2 where 2: "sstr_json_escape_string_append o1 v = Inr o2" "sstr_ok o2" "sstr_content o2 = sstr_content o1 @ json_escape d"
    using sstr_json_escape_correct [OF 1(2), of d] v by blast
  show "\<exists>s'. append_quoted s v = Inr s' \<and> sstr_ok s' \<and> sstr_content s' = sstr_content s @ quoted v"
    using 1 2 v sstr_append_of_correct [OF 2(2), of "[CHR 0x22]"] by (auto simp: append_quoted_def quoted_def sstr_append_cstr_def cstr_def)
next
  fix content pre ws and v :: "string option" and d post and pos :: json_pos
  assume a: "content = pre @ ws @ quoted v @ d # post" "list_all JSON_IS_SPACE ws" "jp_offset pos = length pre" "v \<noteq> None"
  then obtain s where v: "v = Some s" by blast
  have "content = pre @ ws @ CHR 0x22 # json_escape s @ CHR 0x22 # d # post" using a(1) v by (simp add: quoted_def)
  from next_string_token [OF this a(2,3)]
  show "\<exists>pos' t. json_unmarshal_element E_sstr content pos = Inr (0, pos', J_str v, t) \<and> jp_offset pos' = length pre + length ws + length (quoted v)"
    using v by (auto simp: json_unmarshal_scalar_sstr_t_def scanned_map_def quoted_def)
qed

section \<open>Safety of the array readers\<close>

lemma array_loop_ok:
  "push_ok cap b \<Longrightarrow> jp_offset pos \<le> length content + 2 \<Longrightarrow>
   (case json_array_loop E content pos cap b of
      Inl f \<Rightarrow> f = Bad_vararg
    | Inr (r, pos', b', t) \<Rightarrow> length (ab_items b') \<le> length (ab_items b) + (length content + 3 - jp_offset pos))"
proof (induction E content pos cap b rule: json_array_loop.induct)
  case (1 E content pos cap b)
  show ?case
  proof (cases "json_unmarshal_element E content pos")
    case (Inl f)
    then show ?thesis using element.read_fault [OF 1(4) Inl] by (subst json_array_loop.simps) simp
  next
    case (Inr x)
    obtain r pos1 res t where x: "x = (r, pos1, res, t)" by (rule prod_cases4)
    note el = Inr [unfolded x]
    note off1 = element.read_offset [OF el 1(4)]
    show ?thesis
    proof (cases "r = 93 \<or> r < 0")
      case True
      then show ?thesis using el by (subst json_array_loop.simps) auto
    next
      case False
      then have r: "r \<noteq> json_token_code JSON_TOKEN_RIGHT_BRACKET" "\<not> r < 0" by simp_all
      obtain cap' b' where p: "array_push cap b res = Inr (cap', b')" "push_ok cap' b'" "ab_items b' = ab_items b @ [res]"
        using array_push_ok [OF 1(3)] by blast
      have tok: "token_ok content (jp_offset pos1) (json_next_token content pos1)" using json_next_token_ok off1 by blast
      show ?thesis
      proof (cases "json_next_token content pos1")
        case (Inl f)
        then show ?thesis using tok el r p by (subst json_array_loop.simps) (simp add: token_ok_def)
      next
        case (Inr y)
        obtain tk pos2 t2 where y: "y = (tk, pos2, t2)" by (rule prod_cases3)
        note nt = Inr [unfolded y]
        have ex: "\<exists>e. PERROR pos2 ''parsing array, each EOF'' [] = Inr e" by (rule PERROR_text) simp_all
        note IH = 1(1,2) [OF el refl refl refl r p(1) refl nt refl refl]
        have adv: "tk \<noteq> JSON_TOKEN_EOF \<Longrightarrow> tk \<noteq> JSON_ERROR \<Longrightarrow> jp_offset pos1 < jp_offset pos2 \<and> jp_offset pos2 \<le> length content + 2"
          using next_token_beyond [OF nt] by blast
        have unfold: "json_array_loop E content pos cap b =
            (if tk = JSON_TOKEN_RIGHT_BRACKET then Inr (0, pos2, b', t2)
             else if tk = JSON_ERROR then Inr (-1, pos2, b', t2)
             else if tk = JSON_TOKEN_EOF then bindE (PERROR pos2 ''parsing array, each EOF'' []) (\<lambda>e. Inr (-1, pos2, b', t2 @ e))
             else json_array_loop E content pos2 cap' b')"
          using el r p(1) nt by (subst json_array_loop.simps) simp
        have n: "length (ab_items b') = length (ab_items b) + 1" using p(3) by simp
        have off: "jp_offset pos \<le> jp_offset pos1" using off1 by simp
        show ?thesis
        proof (cases "tk = JSON_TOKEN_EOF \<or> tk = JSON_ERROR \<or> tk = JSON_TOKEN_RIGHT_BRACKET")
          case True
          then show ?thesis using ex n off off1 adv unfolding unfold by auto
        next
          case False
          then have more: "case json_array_loop E content pos2 cap' b' of Inl f \<Rightarrow> f = Bad_vararg
              | Inr (r, pos', b'', t) \<Rightarrow> length (ab_items b'') \<le> length (ab_items b') + (length content + 3 - jp_offset pos2)"
            using IH p(2) adv by (cases "tk = JSON_TOKEN_COMMA") auto
          have "jp_offset pos < jp_offset pos2 \<and> jp_offset pos2 \<le> length content + 2" using adv False off by auto
          then show ?thesis using more n False unfolding unfold by (auto split: sum.splits)
        qed
      qed
    qed
  qed
qed

section \<open>Loops that do not end\<close>

lemma enum_loop_at_end:
  "jp_offset pos \<ge> length content \<Longrightarrow> enum_array_loop n es content pos arr = None"
proof (induction n arbitrary: arr)
  case (Suc n)
  have n: "json_next_token content pos = Inr (JSON_TOKEN_EOF, pos, [])" using Suc.prems by (simp add: json_next_token_def)
  obtain t where "json_unmarshal_scalar_enum es content pos 0 = Inr (0, pos, 0, t)"
    using n scalar_error_total [of "''expected string or integer for enum but got ''" pos 0 "[]" "ptoken JSON_TOKEN_EOF []" 0]
    by (auto simp: json_unmarshal_scalar_enum_def)
  then show ?case using Suc n by simp
qed simp

lemma unknown_character:
  assumes "content = pre @ c # post" and "jp_offset pos = length pre" and "\<not> JSON_IS_SPACE c" and "c \<notin> {CHR ''/'', CHR 0x22, CHR ''-'', CHR ''.''}"
    and "punctuation c = None" and "\<not> is_digit c" and "\<not> is_alpha c"
  shows "\<exists>e. json_next_token content pos = Inr (JSON_ERROR, pos, e)"
proof -
  let ?i = "length pre"
  have at: "?i < length content" "content ! ?i = c" using assms(1) by simp_all
  have skip: "json_skip_space_comments content pos = pos" using skip_space_nothing [of ?i content pos] at assms by simp
  have d: "drop ?i content = c # post" using assms(1) by simp
  have kw: "\<not> at_keyword content ?i (a # s)" if "is_alpha a" for a s
    using d that assms(7) by (auto simp: at_keyword_def Let_def)
  have "is_alpha (CHR ''t'')" "is_alpha (CHR ''f'')" "is_alpha (CHR ''n'')" by code_simp+
  then have kws: "\<not> at_keyword content ?i ''true''" "\<not> at_keyword content ?i ''false''" "\<not> at_keyword content ?i ''null''"
    using kw by blast+
  obtain e where "PERROR (forward 0 pos) ''unexpected identify %s'' [cs_arg []] = Inr e"
    using PERROR_string [of "''unexpected identify ''" "[]" "[]" "forward 0 pos"] by auto
  moreover have "forward 0 pos = pos" by (simp add: forward_def)
  ultimately show ?thesis using at d skip kws assms by (simp add: json_next_token_def Let_def JSON_IS_DIGIT_eq)
qed

lemma ignore_loop_stuck:
  assumes "json_next_token content pos = Inr (JSON_ERROR, pos, e)" and "brace \<noteq> 0 \<or> bracket \<noteq> 0"
  shows "ignore_loop n content pos brace bracket = None"
  using assms by (induction n) auto

lemma scalar_int_string:
  assumes "json_next_token content pos = Inr (JSON_TOKEN_STRING, p, s)"
  shows "\<exists>t. json_unmarshal_scalar_int T content pos v = Inr (1, p, v, t)"
proof -
  obtain t where "scalar_error p v s (''expected integer but got '' @ quoted_s) (ptoken JSON_TOKEN_STRING s) 1 = Inr (1, p, v, t)"
    using scalar_error_total [of "''expected integer but got ''" p v s "ptoken JSON_TOKEN_STRING s" 1] by auto
  then show ?thesis using assms
    by (cases "c_int_signed T")
      (simp_all add: json_unmarshal_scalar_int_def json_unmarshal_scalar_signed_def json_unmarshal_scalar_unsigned_def del: c_int_signed.simps)
qed

section \<open>Properties\<close>

text \<open>
  C23. What the array writer prints for an integer type, with any indentation, is read back by the array
  reader of the same type as the same list, for every list of values of the type; the writer only appends
  to its buffer.
\<close>

theorem json_int_array_roundtrip:
  assumes "sstr_ok out" and "list_all (\<lambda>v. c_int_min T \<le> v \<and> v \<le> c_int_max T) obj"
  shows "\<exists>out' text b. json_marshal_array_indent_int T obj indent curindent out = Inr out' \<and> sstr_ok out'
    \<and> sstr_content out' = sstr_content out @ text
    \<and> json_unmarshal_array (E_int T) text array_null = Inr (0, b) \<and> ab_items b = map J_int obj"
  using int_array.marshal_correct [OF assms] int_array.array_reads [OF assms(2)]
  unfolding json_marshal_array_indent_int_def by blast

lemma json_int_array_roundtrip_witness:
  "\<exists>out' text b. json_marshal_array_indent_int C_int64_t [1, - 9223372036854775808] 2 0 sstr_new = Inr out'
    \<and> sstr_content out' = text
    \<and> json_unmarshal_array (E_int C_int64_t :: int elem_type) text array_null = Inr (0, b) \<and> ab_items b = map J_int [1, - 9223372036854775808]"
  using json_int_array_roundtrip [OF sstr_new_ok(1), of C_int64_t "[1, - 9223372036854775808]" 2 0] sstr_new_ok by (simp add: c_int_bounds) blast

text \<open>
  C24. The same for arrays of strings with any bytes, as long as no element is the null pointer (which is
  written as an empty string): writing escapes, reading undoes it.
\<close>

theorem json_string_array_roundtrip:
  assumes "sstr_ok out" and "list_all (\<lambda>s. s \<noteq> None) obj"
  shows "\<exists>out' text b. json_marshal_array_indent_sstr_t obj indent curindent out = Inr out' \<and> sstr_ok out'
    \<and> sstr_content out' = sstr_content out @ text
    \<and> json_unmarshal_array E_sstr text array_null = Inr (0, b) \<and> ab_items b = map J_str obj"
  using sstr_array.marshal_correct [OF assms] sstr_array.array_reads [OF assms(2)]
  unfolding json_marshal_array_indent_sstr_t_def by blast

lemma json_string_array_roundtrip_witness:
  "\<exists>out' text b. json_marshal_array_indent_sstr_t [Some [CHR 0x22, CHR 0x0A], Some []] 0 0 sstr_new = Inr out'
    \<and> sstr_content out' = text
    \<and> json_unmarshal_array (E_sstr :: int elem_type) text array_null = Inr (0, b) \<and> ab_items b = map J_str [Some [CHR 0x22, CHR 0x0A], Some []]"
  using json_string_array_roundtrip [OF sstr_new_ok(1), of "[Some [CHR 0x22, CHR 0x0A], Some []]" 0 0] sstr_new_ok by simp blast

text \<open>
  C26. On any input, from a null array, the array readers return: they never store outside the block they
  have allocated, the only fault is a message whose argument does not fit its directive, and the array has
  at most three elements more than the input has bytes.
\<close>

theorem json_unmarshal_array_safe:
  "case json_unmarshal_array E content array_null of
     Inl f \<Rightarrow> f = Bad_vararg
   | Inr (r, b) \<Rightarrow> length (ab_items b) \<le> length content + 3 \<and> (r \<noteq> 0 \<longrightarrow> b = array_null)"
proof (cases "json_next_token content pos_start")
  case (Inl f)
  then show ?thesis using json_next_token_ok [of pos_start content]
    by (simp add: json_unmarshal_array_def json_unmarshal_array_internal_def token_ok_def pos_start_def)
next
  case (Inr x)
  obtain tk pos t where n: "json_next_token content pos_start = Inr (tk, pos, t)" using Inr by (cases x) simp
  obtain e where e: "PERROR pos (''expected '' @ [CHR 0x27] @ ''['' @ [CHR 0x27] @ '' but got %s'') [cs_arg (ptoken tk t)] = Inr e"
    using PERROR_any [of "''expected '' @ [CHR 0x27] @ ''['' @ [CHR 0x27] @ '' but got ''" "[]" pos "ptoken tk t"] by auto
  have "jp_offset pos \<le> length content + 2" using json_next_token_ok [of pos_start content] n by (simp add: token_ok_def pos_start_def)
  from array_loop_ok [OF push_ok_null this, of E]
  show ?thesis using n e
    by (cases "json_array_loop E content pos 0 array_null")
      (auto simp: json_unmarshal_array_def json_unmarshal_array_internal_def array_null_def)
qed

lemma json_unmarshal_array_safe_witness:
  "case json_unmarshal_array (E_int C_int :: int elem_type) ''[1'' array_null of
     Inl f \<Rightarrow> f = Bad_vararg
   | Inr (r, b) \<Rightarrow> length (ab_items b) \<le> length ''[1'' + 3 \<and> (r \<noteq> 0 \<longrightarrow> b = array_null)"
  by (rule json_unmarshal_array_safe)

text \<open>
  A number array accepts elements that are no numbers: the readers return the positive code of the
  unexpected token, the loop stops only at negative codes, so a string (here any, in its escaped form) is
  stored as 0 and the call succeeds.
\<close>

theorem json_int_array_accepts_string:
  "\<exists>b. json_unmarshal_array (E_int T :: 'd elem_type) (CHR ''['' # CHR 0x22 # json_escape s @ [CHR 0x22, CHR '']'']) array_null = Inr (0, b)
    \<and> ab_items b = [J_int 0]"
proof -
  let ?text = "CHR ''['' # CHR 0x22 # json_escape s @ [CHR 0x22, CHR '']'']"
  obtain p1 where 1: "json_next_token ?text pos_start = Inr (JSON_TOKEN_LEFT_BRACKET, p1, [])" "jp_offset p1 = length ''[''"
    using next_punct_token [of ?text "[]" "[]" "CHR ''[''" _ JSON_TOKEN_LEFT_BRACKET pos_start] by (auto simp: punctuation_def pos_start_def)
  have tx: "?text = ''['' @ [] @ CHR 0x22 # json_escape s @ CHR 0x22 # '']''" by simp
  obtain p2 where 2: "json_next_token ?text p1 = Inr (JSON_TOKEN_STRING, p2, s)" "jp_offset p2 = length (''['' @ CHR 0x22 # json_escape s @ [CHR 0x22])"
    using next_string_token [OF tx _ 1(2)] by auto
  obtain p3 where 3: "json_next_token ?text p2 = Inr (JSON_TOKEN_RIGHT_BRACKET, p3, [])"
    using next_punct_token [of ?text "''['' @ CHR 0x22 # json_escape s @ [CHR 0x22]" "[]" "CHR '']''" "[]" JSON_TOKEN_RIGHT_BRACKET p2] 2(2)
    by (auto simp: punctuation_def)
  obtain t where "json_unmarshal_element (E_int T :: 'd elem_type) ?text p1 = Inr (1, p2, J_int 0, t)"
    using scalar_int_string [OF 2(1), of T 0] by (auto simp: scanned_map_def)
  then have "json_array_loop (E_int T :: 'd elem_type) ?text p1 0 array_null = Inr (0, p3, \<lparr>ab_items = [J_int 0], ab_room = 4\<rparr>, [])"
    using 3 by (subst json_array_loop.simps) (simp add: array_push_def array_null_def)
  then show ?thesis using 1(1) by (simp add: json_unmarshal_array_def json_unmarshal_array_internal_def)
qed

text \<open>
  C27. Two loops of the reader do not end on malformed input, however many rounds they are given: an array
  of enums that the input ends in (each round stores one more element), and the skipping of an unknown
  field's value when a brace is open and the next character starts no token.
\<close>

theorem json_loops_diverge:
  assumes "jp_offset pos = length pre" and "\<not> JSON_IS_SPACE c" and "c \<notin> {CHR ''/'', CHR 0x22, CHR ''-'', CHR ''.''}"
    and "punctuation c = None" and "\<not> is_digit c" and "\<not> is_alpha c"
  shows "json_unmarshal_array_internal_enum n es (pre @ ''['') pos = None
    \<and> json_unmarshal_ignore_value n (pre @ CHR ''{'' # c # post) pos = None"
proof
  obtain p1 where 1: "json_next_token (pre @ ''['') pos = Inr (JSON_TOKEN_LEFT_BRACKET, p1, [])" "jp_offset p1 = length pre + 1"
    using next_punct_token [of "pre @ ''[''" pre "[]" "CHR ''[''" "[]" JSON_TOKEN_LEFT_BRACKET pos] assms(1) by (auto simp: punctuation_def)
  then show "json_unmarshal_array_internal_enum n es (pre @ ''['') pos = None"
    using enum_loop_at_end [of "pre @ ''[''" p1] by (simp add: json_unmarshal_array_internal_enum_def)
  let ?content = "pre @ CHR ''{'' # c # post"
  obtain p2 where 2: "json_next_token ?content pos = Inr (JSON_TOKEN_LEFT_BRACE, p2, [])" "jp_offset p2 = length (pre @ ''{'')"
    using next_punct_token [of ?content pre "[]" "CHR ''{''" "c # post" JSON_TOKEN_LEFT_BRACE pos] assms(1) by (auto simp: punctuation_def)
  have content: "?content = (pre @ ''{'') @ c # post" by simp
  obtain e where "json_next_token ?content p2 = Inr (JSON_ERROR, p2, e)"
    using unknown_character [OF content 2(2) assms(2-)] by blast
  from ignore_loop_stuck [OF this, of 1 0]
  show "json_unmarshal_ignore_value n ?content pos = None"
    using 2(1) by (cases n) (simp_all add: json_unmarshal_ignore_value_def)
qed

lemma json_loops_diverge_witness:
  "json_unmarshal_array_internal_enum 1000 [''RED''] ([] @ ''['') pos_start = None
    \<and> json_unmarshal_ignore_value 1000 ([] @ CHR ''{'' # CHR ''#'' # ''}'') pos_start = None"
proof -
  have "\<not> JSON_IS_SPACE (CHR ''#'')" "punctuation (CHR ''#'') = None" "\<not> is_digit (CHR ''#'')" "\<not> is_alpha (CHR ''#'')" by code_simp+
  then show ?thesis by (intro json_loops_diverge) (simp_all add: pos_start_def)
qed

end
