(* ===== verification/SchemaLex.thy ===== *)
theory SchemaLex
  imports SchemaTypes Diag CLib
begin

text \<open>
  The tokenizer of schema files (\<open>next_token_\<close>, \<open>next_token\<close>, \<open>ptoken\<close> and \<open>token_type_str\<close> in
  \<open>src/struct/struct_parse.c\<close>) and the parser's state. The C library's character classes are those of the
  C locale, allocation succeeds, and lines and columns do not reach \<open>2 ^ 31\<close>.
\<close>

section \<open>State\<close>

text \<open>
  \<open>include_stack\<close> is the list of the files being included, the innermost first. The maps of a parser are
  pointers that a sub-parser shares; the sub-parser's result hands them back. \<open>sp_stderr\<close> collects what is
  written to the standard error stream.
\<close>

record struct_parser =
  sp_struct_map :: "struct_container sstr_map"
  sp_enum_map :: "enum_container sstr_map"
  sp_oneof_map :: "oneof_container sstr_map"
  sp_line :: int
  sp_col :: int
  sp_offset :: nat
  sp_name :: string
  sp_diag :: "diag_engine option"
  sp_include_stack :: "string list"
  sp_stderr :: string

definition STRUCT_MAP_BUCKET_SIZE :: nat where "STRUCT_MAP_BUCKET_SIZE = 4096"

definition struct_parser_new :: struct_parser where
  "struct_parser_new = \<lparr>sp_struct_map = sstr_map_new STRUCT_MAP_BUCKET_SIZE,
     sp_enum_map = sstr_map_new STRUCT_MAP_BUCKET_SIZE, sp_oneof_map = sstr_map_new STRUCT_MAP_BUCKET_SIZE,
     sp_line = 1, sp_col = 0, sp_offset = 0, sp_name = [], sp_diag = None, sp_include_stack = [],
     sp_stderr = []\<rparr>"

datatype schema_token =
    TOKEN_LEFT_BRACE | TOKEN_RIGHT_BRACE | TOKEN_LEFT_BRACKET | TOKEN_RIGHT_BRACKET | TOKEN_SEMICOLON
  | TOKEN_COMMA | TOKEN_SHARPE | TOKEN_AT | TOKEN_EQUAL | TOKEN_STRING | TOKEN_IDENTIFY | TOKEN_INTEGER
  | TOKEN_FLOAT | TOKEN_EOF | TOKEN_ERROR

text \<open>\<open>txt\<close> is \<open>None\<close> for a null pointer.\<close>

record struct_token =
  st_type :: schema_token
  st_txt :: "string option"

text \<open>A message with single quotes around its argument, and what the \<open>PERROR\<close> of this file does.\<close>

definition in_quotes :: "string \<Rightarrow> string" where
  "in_quotes s = CHR 0x27 # s @ [CHR 0x27]"

definition sp_error :: "struct_parser \<Rightarrow> string \<Rightarrow> struct_parser" where
  "sp_error p msg = p\<lparr>sp_diag := diag_emit True True (sp_diag p) DIAG_ERROR (sp_line p) (sp_col p) msg\<rparr>"

section \<open>Characters\<close>

definition is_ident_start :: "char \<Rightarrow> bool" where
  "is_ident_start c \<longleftrightarrow> (65 \<le> ord c \<and> ord c \<le> 90) \<or> (97 \<le> ord c \<and> ord c \<le> 122) \<or> c = CHR ''_''"

definition is_ident_char :: "char \<Rightarrow> bool" where
  "is_ident_char c \<longleftrightarrow> is_ident_start c \<or> is_digit c"

definition is_number_char :: "char \<Rightarrow> bool" where
  "is_number_char c \<longleftrightarrow> is_digit c \<or> c = CHR ''.''"

definition punct_token :: "char \<Rightarrow> schema_token option" where
  "punct_token c =
     (if c = CHR ''@'' then Some TOKEN_AT else if c = CHR ''='' then Some TOKEN_EQUAL
      else if c = CHR ''#'' then Some TOKEN_SHARPE else if c = CHR ''{'' then Some TOKEN_LEFT_BRACE
      else if c = CHR ''}'' then Some TOKEN_RIGHT_BRACE else if c = CHR ''['' then Some TOKEN_LEFT_BRACKET
      else if c = CHR '']'' then Some TOKEN_RIGHT_BRACKET else if c = CHR '';'' then Some TOKEN_SEMICOLON
      else if c = CHR '','' then Some TOKEN_COMMA else None)"

text \<open>The closing character of a quoted token.\<close>

definition quote_end :: "char \<Rightarrow> char option" where
  "quote_end c = (if c = CHR 0x22 then Some (CHR 0x22) else if c = CHR ''<'' then Some (CHR ''>'') else None)"

section \<open>The tokenizer\<close>

text \<open>The characters of a block comment, from \<open>i\<close>: the index of its end mark (or of the last byte), line and column.\<close>

function block_comment :: "string \<Rightarrow> nat \<Rightarrow> int \<Rightarrow> int \<Rightarrow> nat \<times> int \<times> int" where
  "block_comment content i line col =
     (if i + 1 < length content \<and> (content ! i \<noteq> CHR ''*'' \<or> content ! (i + 1) \<noteq> CHR ''/'') then
        (if content ! i = CHR 0x0A then block_comment content (i + 1) (line + 1) 0
         else block_comment content (i + 1) line (col + 1))
      else (i, line, col))"
  by pat_completeness auto
termination by (relation "measure (\<lambda>(content, i, line, col). length content - i)") auto

declare block_comment.simps [simp del]

lemma block_comment_index: "block_comment content i line col = (j, line', col') \<Longrightarrow> i \<le> j"
proof (induction content i line col rule: block_comment.induct)
  case (1 content i line col)
  show ?case
  proof (cases "i + 1 < length content \<and> (content ! i \<noteq> CHR ''*'' \<or> content ! (i + 1) \<noteq> CHR ''/'')")
    case True
    then have "i + 1 \<le> j" using 1 by (cases "content ! i = CHR 0x0A") (simp_all add: block_comment.simps [of content i])
    then show ?thesis by simp
  qed (use 1(3) in \<open>auto simp: block_comment.simps [of content i] split: if_splits\<close>)
qed

text \<open>
  The body of the \<open>for\<close> loop at index \<open>i\<close>: the token's type and text, the line, the column and the offset
  behind it. \<open>off\<close> is the offset as the loop has left it. \<open>continue\<close> goes through \<open>++i\<close>, behind a comment
  too.
\<close>

type_synonym lexed_token = "schema_token \<times> string option \<times> int \<times> int \<times> nat"

function token_loop :: "string \<Rightarrow> nat \<Rightarrow> nat \<Rightarrow> int \<Rightarrow> int \<Rightarrow> lexed_token" where
  "token_loop content i off line0 col0 =
     (if i \<ge> length content then (TOKEN_EOF, None, line0, col0, off)
      else
        (let c = content ! i;
             line = (if c = CHR 0x0A then line0 + 1 else line0);
             col = (if c = CHR 0x0A then 0 else col0 + 1)
         in case punct_token c of
              Some tk \<Rightarrow> (tk, None, line, col, i + 1)
            | None \<Rightarrow>
            case quote_end c of
              Some q \<Rightarrow>
                (let body = takeWhile (\<lambda>x. x \<noteq> q) (drop (i + 1) content); n = length body
                 in if i + 1 + n < length content then (TOKEN_STRING, Some body, line, col + int n + 1, i + 1 + n + 1)
                    else (TOKEN_ERROR, None, line, col + int n, length content))
            | None \<Rightarrow>
            if c = CHR ''/'' \<and> i + 1 < length content \<and> content ! (i + 1) = CHR ''/'' then
              (let j = i + 2 + length (takeWhile (\<lambda>x. x \<noteq> CHR 0x0A) (drop (i + 2) content))
               in token_loop content (j + 1) j (line + 1) 0)
            else if c = CHR ''/'' \<and> i + 1 < length content \<and> content ! (i + 1) = CHR ''*'' then
              (case block_comment content (i + 2) line (col + 1) of
                 (j, line', col') \<Rightarrow> token_loop content (j + 2 + 1) (j + 2) line' (col' + 2))
            else if c \<in> {CHR ''/'', CHR '' '', CHR 0x09, CHR 0x0D, CHR 0x0A} then
              token_loop content (i + 1) i line col
            else if c = CHR ''-'' then
              (if i + 1 < length content \<and> is_digit (content ! (i + 1)) then
                 (let run = takeWhile is_number_char (drop (i + 1) content)
                  in (if CHR ''.'' \<in> set run then TOKEN_FLOAT else TOKEN_INTEGER, Some (c # run), line,
                      col + 1 + int (length run), i + 1 + length run))
               else (TOKEN_ERROR, None, line, col, i + 1))
            else if is_digit c then
              (let run = takeWhile is_number_char (drop i content)
               in (if CHR ''.'' \<in> set run then TOKEN_FLOAT else TOKEN_INTEGER, Some run, line,
                   col + int (length run), i + length run))
            else if \<not> is_ident_start c then (TOKEN_ERROR, None, line, col, i + 1)
            else
              (let run = takeWhile is_ident_char (drop i content)
               in (TOKEN_IDENTIFY, Some run, line, col - 1 + int (length run), i + length run))))"
  by pat_completeness auto
termination
  by (relation "measure (\<lambda>(content, i, off, line, col). length content - i)")
    (auto dest!: block_comment_index [OF sym])

declare token_loop.simps [simp del]

definition next_token_raw :: "struct_parser \<Rightarrow> string \<Rightarrow> struct_parser \<times> struct_token" where
  "next_token_raw p content =
     (if sp_offset p \<ge> length content then
        (p\<lparr>sp_offset := sp_offset p + 1\<rparr>, \<lparr>st_type = TOKEN_EOF, st_txt = None\<rparr>)
      else case token_loop content (sp_offset p) (sp_offset p) (sp_line p) (sp_col p) of
             (tk, tx, line, col, off) \<Rightarrow>
               (p\<lparr>sp_line := line, sp_col := col, sp_offset := off\<rparr>, \<lparr>st_type = tk, st_txt = tx\<rparr>))"

text \<open>The diagnostic of \<open>ptoken\<close>; its debugging output is not modelled.\<close>

definition ptoken_diag :: "struct_parser \<Rightarrow> struct_token \<Rightarrow> struct_parser" where
  "ptoken_diag p token = (if st_type token = TOKEN_ERROR then sp_error p ''expected identifier'' else p)"

definition next_token :: "struct_parser \<Rightarrow> string \<Rightarrow> struct_parser \<times> struct_token" where
  "next_token p content = (let (p', token) = next_token_raw p content in (ptoken_diag p' token, token))"

text \<open>The text of a token in a message: the C string, up to a NUL; a token of those two types has a text.\<close>

definition token_type_str :: "struct_token \<Rightarrow> string" where
  "token_type_str token = (case st_type token of
     TOKEN_AT \<Rightarrow> ''@'' | TOKEN_EQUAL \<Rightarrow> ''='' | TOKEN_SHARPE \<Rightarrow> ''#''
   | TOKEN_STRING \<Rightarrow> (case st_txt token of Some s \<Rightarrow> cstr s | None \<Rightarrow> [])
   | TOKEN_IDENTIFY \<Rightarrow> (case st_txt token of Some s \<Rightarrow> cstr s | None \<Rightarrow> [])
   | TOKEN_LEFT_BRACE \<Rightarrow> ''{'' | TOKEN_RIGHT_BRACE \<Rightarrow> ''}'' | TOKEN_LEFT_BRACKET \<Rightarrow> ''[''
   | TOKEN_RIGHT_BRACKET \<Rightarrow> '']'' | TOKEN_SEMICOLON \<Rightarrow> '';'' | TOKEN_COMMA \<Rightarrow> '',''
   | TOKEN_EOF \<Rightarrow> ''--EOF--'' | TOKEN_ERROR \<Rightarrow> ''--ERROR--'' | _ \<Rightarrow> ''--UNKNOWN--'')"

section \<open>Progress\<close>

lemma take_drop_bound: "i \<le> length content \<Longrightarrow> i + length (takeWhile P (drop i content)) \<le> length content"
  using length_takeWhile_le [of P "drop i content"] by simp

lemma takeWhile_drop_pos: "i < length content \<Longrightarrow> P (content ! i) \<Longrightarrow> 0 < length (takeWhile P (drop i content))"
  by (simp add: Cons_nth_drop_Suc [symmetric])

lemma token_loop_advances:
  "token_loop content i off line col = (tk, tx, line', col', off') \<Longrightarrow> tk \<noteq> TOKEN_EOF \<Longrightarrow> i < off' \<and> off' \<le> length content"
proof (induction content i off line col rule: token_loop.induct)
  case (1 content i off line0 col0)
  show ?case
  proof (cases "i \<ge> length content")
    case True
    then show ?thesis using 1(4,5) by (subst (asm) token_loop.simps) simp
  next
    case False
    let ?c = "content ! i"
    note bnd = take_drop_bound [of "i + 1" content] take_drop_bound [of i content]
    show ?thesis
    proof (cases "punct_token ?c")
      case (Some t)
      then show ?thesis using 1(4,5) False by (subst (asm) token_loop.simps) (simp add: Let_def)
    next
      case None
      note np = this
      show ?thesis
      proof (cases "quote_end ?c")
        case (Some q)
        then show ?thesis using 1(4,5) False None by (subst (asm) token_loop.simps) (auto simp: Let_def split: if_splits)
      next
        case None
        let ?line = "if ?c = CHR 0x0A then line0 + 1 else line0" and ?col = "if ?c = CHR 0x0A then 0 else col0 + 1"
        let ?lc = "?c = CHR ''/'' \<and> i + 1 < length content \<and> content ! (i + 1) = CHR ''/''"
        let ?bc = "?c = CHR ''/'' \<and> i + 1 < length content \<and> content ! (i + 1) = CHR ''*''"
        let ?sp = "?c \<in> {CHR ''/'', CHR '' '', CHR 0x09, CHR 0x0D, CHR 0x0A}"
        note IH = 1(1-3) [OF False refl refl refl np None]
        consider (lc) ?lc | (bc) "\<not> ?lc" ?bc | (sp) "\<not> ?lc" "\<not> ?bc" ?sp | (other) "\<not> ?lc" "\<not> ?bc" "\<not> ?sp" by blast
        then show ?thesis
        proof cases
          case lc
          then show ?thesis using IH(1) [OF lc refl] 1(4,5) False np None by (subst (asm) (2) token_loop.simps) (auto simp: Let_def)
        next
          case bc
          obtain j l c where b: "block_comment content (i + 2) ?line (?col + 1) = (j, l, c)" by (rule prod_cases3)
          then show ?thesis using IH(2) [OF bc b [symmetric] refl] block_comment_index [OF b] 1(4,5) False np None bc
            by (subst (asm) (2) token_loop.simps) (auto simp: Let_def)
        next
          case sp
          then show ?thesis using IH(3) [OF sp] 1(4,5) False np None by (subst (asm) (2) token_loop.simps) (auto simp: Let_def)
        next
          case other
          have id: "is_ident_start ?c \<Longrightarrow> 0 < length (takeWhile is_ident_char (drop i content))"
            using takeWhile_drop_pos [of i content is_ident_char] False by (simp add: is_ident_char_def)
          have dg: "is_digit ?c \<Longrightarrow> 0 < length (takeWhile is_number_char (drop i content))"
            using takeWhile_drop_pos [of i content is_number_char] False by (simp add: is_number_char_def)
          show ?thesis using other 1(4,5) False np None id dg bnd
            by (subst (asm) token_loop.simps) (auto simp: Let_def split: if_splits)
        qed
      qed
    qed
  qed
qed

lemma next_token_advances:
  assumes "next_token p content = (p', token)" and "st_type token \<noteq> TOKEN_EOF"
  shows "sp_offset p < sp_offset p' \<and> sp_offset p' \<le> length content"
  using assms token_loop_advances [of content "sp_offset p" "sp_offset p" "sp_line p" "sp_col p"]
  by (auto simp: next_token_def next_token_raw_def ptoken_diag_def sp_error_def Let_def split: if_splits prod.splits)

text \<open>A token changes nothing of the parser but its position and its diagnostics.\<close>

lemma next_token_frame:
  assumes "next_token p content = (p', token)"
  shows "sp_struct_map p' = sp_struct_map p" "sp_enum_map p' = sp_enum_map p" "sp_oneof_map p' = sp_oneof_map p"
    "sp_name p' = sp_name p" "sp_include_stack p' = sp_include_stack p" "sp_stderr p' = sp_stderr p"
  using assms by (auto simp: next_token_def next_token_raw_def ptoken_diag_def sp_error_def Let_def split: if_splits prod.splits)

lemma block_comment_body:
  "CHR ''*'' \<notin> set body \<Longrightarrow> \<exists>l c. block_comment (pre @ body @ ''*/'' @ rest) (length pre) line col = (length pre + length body, l, c)"
proof (induction body arbitrary: pre line col)
  case Nil
  then show ?case by (subst block_comment.simps) (simp add: nth_append)
next
  case (Cons b body)
  have "pre @ (b # body) @ ''*/'' @ rest = (pre @ [b]) @ body @ ''*/'' @ rest" by simp
  moreover obtain l c where "block_comment ((pre @ [b]) @ body @ ''*/'' @ rest) (length (pre @ [b]))
      (if b = CHR 0x0A then line + 1 else line) (if b = CHR 0x0A then 0 else col + 1) = (length (pre @ [b]) + length body, l, c)"
    using Cons.IH [of "pre @ [b]"] Cons.prems by fastforce
  ultimately show ?case using Cons.prems
    by (intro exI [of _ l] exI [of _ c], subst block_comment.simps) (auto simp: nth_append)
qed

text \<open>
  The tokenizer resumes one character too late behind a block comment: the loop's increment comes on top of the two
  characters of the end mark, so the character right behind a comment, whatever it is, is never looked at.
\<close>

theorem comment_swallows_character:
  fixes x :: char
  assumes "CHR ''*'' \<notin> set body"
  shows "\<exists>l c. token_loop (''/*'' @ body @ ''*/'' @ x # rest) 0 off line col
    = token_loop (''/*'' @ body @ ''*/'' @ x # rest) (length body + 5) (length body + 4) l c"
proof -
  let ?s = "''/*'' @ body @ ''*/'' @ x # rest"
  obtain l c where b: "block_comment ?s 2 line (col + 1 + 1) = (2 + length body, l, c)"
    using block_comment_body [OF assms, of "''/*''" "x # rest" line "col + 1 + 1"] by (auto simp: eval_nat_numeral)
  have at: "?s ! 0 = CHR ''/''" "?s ! (0 + 1) = CHR ''*''" "0 + 1 < length ?s" by simp_all
  have "token_loop ?s 0 off line col = token_loop ?s (2 + length body + 2 + 1) (2 + length body + 2) l (c + 2)"
    unfolding token_loop.simps [of ?s 0] Let_def at
    by (simp add: punct_token_def quote_end_def b [simplified] del: add_2_eq_Suc')
  then show ?thesis by (intro exI [of _ l] exI [of _ "c + 2"]) (simp add: eval_nat_numeral)
qed

lemma comment_swallows_character_witness:
  "fst (token_loop (''/*'' @ [] @ ''*/'' @ CHR ''}'' # []) 0 0 1 0) = TOKEN_EOF"
  using comment_swallows_character [of "[]" "CHR ''}''" "[]" 0 1 0] by (auto simp: token_loop.simps)

end
