(* ===== verification/SchemaField.thy ===== *)
theory SchemaField
  imports SchemaLex
begin

text \<open>
  The declaration of one field (\<open>struct_parse_field\<close> of \<open>src/struct/struct_parse.c\<close>) and the token
  helpers the schema parser shares. A parsing function returns its code, the parser, the current token and what it
  has filled in. The code goes_on the text out of a token it has used; nothing looks at it again before the next
  token replaces it, so the model leaves it there.
\<close>

section \<open>Tokens\<close>

text \<open>\<open>sstr_compare_c(token->txt, w) == 0\<close>; the code asks it only of tokens that have a text.\<close>

definition is_word :: "struct_token \<Rightarrow> string \<Rightarrow> bool" where
  "is_word t w = (case st_txt t of Some s \<Rightarrow> sstr_compare_c s w = 0 | None \<Rightarrow> False)"

definition txt_of :: "struct_token \<Rightarrow> string" where
  "txt_of t = (case st_txt t of Some s \<Rightarrow> s | None \<Rightarrow> [])"

definition expected :: "string \<Rightarrow> struct_token \<Rightarrow> string" where
  "expected what t = ''expected '' @ what @ '', found '' @ in_quotes (token_type_str t)"

definition JSON_GEN_ERROR_FILE_IO :: int where "JSON_GEN_ERROR_FILE_IO = -3"

text \<open>
  What a parsing function leaves behind: the parser only goes_on goes_forward, strictly when it returns a token, and it
  changes nothing but its position and its diagnostics.
\<close>

definition same_frame :: "struct_parser \<Rightarrow> struct_parser \<Rightarrow> bool" where
  "same_frame p p' \<longleftrightarrow> sp_struct_map p' = sp_struct_map p \<and> sp_enum_map p' = sp_enum_map p
     \<and> sp_oneof_map p' = sp_oneof_map p \<and> sp_name p' = sp_name p
     \<and> sp_include_stack p' = sp_include_stack p \<and> sp_stderr p' = sp_stderr p"

definition reads :: "string \<Rightarrow> struct_parser \<Rightarrow> struct_parser \<Rightarrow> struct_token \<Rightarrow> bool" where
  "reads content p p' t \<longleftrightarrow> sp_offset p \<le> sp_offset p'
     \<and> (st_type t \<noteq> TOKEN_EOF \<longrightarrow> sp_offset p < sp_offset p' \<and> sp_offset p' \<le> length content)
     \<and> same_frame p p'"

definition tokens_left :: "string \<Rightarrow> struct_parser \<Rightarrow> struct_token \<Rightarrow> nat" where
  "tokens_left content p t = (if st_type t = TOKEN_EOF then 0 else Suc (length content - sp_offset p))"

lemma reads_trans: "reads content p p1 t1 \<Longrightarrow> reads content p1 p2 t2 \<Longrightarrow> reads content p p2 t2"
  by (auto simp: reads_def same_frame_def)

lemma sp_error_simps [simp]:
  "sp_offset (sp_error p m) = sp_offset p" "sp_struct_map (sp_error p m) = sp_struct_map p"
  "sp_enum_map (sp_error p m) = sp_enum_map p" "sp_oneof_map (sp_error p m) = sp_oneof_map p"
  "sp_line (sp_error p m) = sp_line p" "sp_col (sp_error p m) = sp_col p" "sp_name (sp_error p m) = sp_name p"
  "sp_include_stack (sp_error p m) = sp_include_stack p" "sp_stderr (sp_error p m) = sp_stderr p"
  by (simp_all add: sp_error_def)

lemma reads_error: "reads content p p' t \<Longrightarrow> reads content p (sp_error p' m) t"
  by (simp add: reads_def same_frame_def)

lemma token_loop_mono:
  "token_loop content i off line col = (tk, tx, line', col', off') \<Longrightarrow> off \<le> i \<Longrightarrow> off \<le> off'"
proof (induction content i off line col rule: token_loop.induct)
  case (1 content i off line0 col0)
  show ?case
  proof (cases "tk = TOKEN_EOF")
    case False
    then show ?thesis using token_loop_advances [OF 1(4) False] 1(5) by simp
  next
    case True
    show ?thesis
    proof (cases "i \<ge> length content")
      case True
      then show ?thesis using 1(4) by (subst (asm) token_loop.simps) simp
    next
      case False
      let ?c = "content ! i"
      let ?line = "if ?c = CHR 0x0A then line0 + 1 else line0" and ?col = "if ?c = CHR 0x0A then 0 else col0 + 1"
      let ?lc = "?c = CHR ''/'' \<and> i + 1 < length content \<and> content ! (i + 1) = CHR ''/''"
      let ?bc = "?c = CHR ''/'' \<and> i + 1 < length content \<and> content ! (i + 1) = CHR ''*''"
      let ?sp = "?c \<in> {CHR ''/'', CHR '' '', CHR 0x09, CHR 0x0D, CHR 0x0A}"
      have np: "punct_token ?c = None" and nq: "quote_end ?c = None" and nt: "?lc \<or> ?bc \<or> ?sp"
        using 1(4) True False by (subst (asm) token_loop.simps; auto simp: Let_def punct_token_def split: if_splits option.splits)+
      note IH = 1(1-3) [OF False refl refl refl np nq]
      consider (lc) ?lc | (bc) "\<not> ?lc" ?bc | (sp) "\<not> ?lc" "\<not> ?bc" ?sp using nt by blast
      then show ?thesis
      proof cases
        case lc
        then show ?thesis using IH(1) [OF lc refl] 1(4,5) False np nq by (subst (asm) (2) token_loop.simps) (auto simp: Let_def)
      next
        case bc
        obtain j l c where b: "block_comment content (i + 2) ?line (?col + 1) = (j, l, c)" by (rule prod_cases3)
        then show ?thesis using IH(2) [OF bc b [symmetric] refl] block_comment_index [OF b] 1(4,5) False np nq bc
          by (subst (asm) (2) token_loop.simps) (auto simp: Let_def)
      next
        case sp
        then show ?thesis using IH(3) [OF sp] 1(4,5) False np nq by (subst (asm) (2) token_loop.simps) (auto simp: Let_def)
      qed
    qed
  qed
qed

lemma next_token_reads: "next_token p content = (p', t) \<Longrightarrow> reads content p p' t"
  unfolding reads_def
proof (intro conjI impI)
  assume n: "next_token p content = (p', t)"
  show "sp_offset p \<le> sp_offset p'"
    using n token_loop_mono [of content "sp_offset p" "sp_offset p" "sp_line p" "sp_col p"]
    by (auto simp: next_token_def next_token_raw_def ptoken_diag_def Let_def split: if_splits prod.splits)
  show "same_frame p p'" using next_token_frame [OF n] by (simp add: same_frame_def)
qed (auto dest: next_token_advances)

lemma tokens_left_reads: "reads content p p' t' \<Longrightarrow> st_type t \<noteq> TOKEN_EOF \<Longrightarrow> tokens_left content p' t' < tokens_left content p t"
  by (auto simp: reads_def tokens_left_def)

text \<open>The next token behind semicolons, and behind commas too: \<open>next_meaningful_token\<close>.\<close>

function next_token_skipping :: "bool \<Rightarrow> struct_parser \<Rightarrow> string \<Rightarrow> struct_parser \<times> struct_token" where
  "next_token_skipping commas p content =
     (let (p', t) = next_token p content
      in if st_type t = TOKEN_SEMICOLON \<or> (commas \<and> st_type t = TOKEN_COMMA)
         then next_token_skipping commas p' content else (p', t))"
  by pat_completeness auto
termination
  by (relation "measure (\<lambda>(commas, p, content). length content - sp_offset p)")
    (auto simp: reads_def dest!: next_token_reads [OF sym])

declare next_token_skipping.simps [simp del]

definition next_meaningful_token :: "struct_parser \<Rightarrow> string \<Rightarrow> struct_parser \<times> struct_token" where
  "next_meaningful_token = next_token_skipping True"

text \<open>Recovery: on to a semicolon, a closing brace or the end of the file, or to a comma too.\<close>

function skip_to_separator :: "bool \<Rightarrow> struct_parser \<Rightarrow> string \<Rightarrow> struct_token \<Rightarrow> struct_parser \<times> struct_token" where
  "skip_to_separator commas p content t =
     (if st_type t = TOKEN_SEMICOLON \<or> st_type t = TOKEN_EOF \<or> st_type t = TOKEN_RIGHT_BRACE
        \<or> (commas \<and> st_type t = TOKEN_COMMA) then (p, t)
      else (let (p', t') = next_token p content in skip_to_separator commas p' content t'))"
  by pat_completeness auto
termination
  by (relation "measure (\<lambda>(commas, p, content, t). tokens_left content p t)")
    (auto dest!: next_token_reads [OF sym] tokens_left_reads)

declare skip_to_separator.simps [simp del]

definition skip_to_semicolon :: "struct_parser \<Rightarrow> string \<Rightarrow> struct_token \<Rightarrow> struct_parser \<times> struct_token" where
  "skip_to_semicolon = skip_to_separator False"

lemma next_token_skipping_reads: "next_token_skipping commas p content = (p', t) \<Longrightarrow> reads content p p' t"
proof (induction commas p content rule: next_token_skipping.induct)
  case (1 commas p content)
  obtain p1 t1 where n: "next_token p content = (p1, t1)" by fastforce
  show ?case
    using 1 n next_token_reads [OF n] by (subst (asm) (2) next_token_skipping.simps) (auto split: if_splits dest: reads_trans)
qed

lemma next_token_skipping_type:
  "next_token_skipping commas p content = (p', t) \<Longrightarrow> st_type t \<noteq> TOKEN_SEMICOLON \<and> \<not> (commas \<and> st_type t = TOKEN_COMMA)"
proof (induction commas p content rule: next_token_skipping.induct)
  case (1 commas p content)
  obtain p1 t1 where n: "next_token p content = (p1, t1)" by fastforce
  show ?case using 1 n by (subst (asm) (2) next_token_skipping.simps) (auto split: if_splits)
qed

lemma skip_to_separator_reads:
  "skip_to_separator commas p content t = (p', t') \<Longrightarrow> reads content p0 p t \<Longrightarrow> reads content p0 p' t'"
proof (induction commas p content t rule: skip_to_separator.induct)
  case (1 commas p content t)
  obtain p1 t1 where n: "next_token p content = (p1, t1)" by fastforce
  show ?case
    using 1 n next_token_reads [OF n] by (subst (asm) (2) skip_to_separator.simps) (auto split: if_splits dest: reads_trans)
qed

lemma skip_to_separator_mono:
  "skip_to_separator commas p content t = (p', t') \<Longrightarrow> sp_offset p \<le> sp_offset p'"
proof (induction commas p content t rule: skip_to_separator.induct)
  case (1 commas p content t)
  obtain p1 t1 where n: "next_token p content = (p1, t1)" by fastforce
  then have "sp_offset p \<le> sp_offset p1" using next_token_reads [OF n] by (simp add: reads_def)
  then show ?case using 1 n by (subst (asm) (2) skip_to_separator.simps) (force split: if_splits)
qed

section \<open>Types\<close>

definition type_table :: "(string \<times> field_type) list" where
  "type_table = [(''int'', FIELD_TYPE_INT), (''bool'', FIELD_TYPE_BOOL), (''long'', FIELD_TYPE_LONG),
     (''float'', FIELD_TYPE_FLOAT), (''double'', FIELD_TYPE_DOUBLE), (''sstr_t'', FIELD_TYPE_SSTR),
     (''int8_t'', FIELD_TYPE_INT8), (''int16_t'', FIELD_TYPE_INT16), (''int32_t'', FIELD_TYPE_INT32),
     (''int64_t'', FIELD_TYPE_INT64), (''uint8_t'', FIELD_TYPE_UINT8), (''uint16_t'', FIELD_TYPE_UINT16),
     (''uint32_t'', FIELD_TYPE_UINT32), (''uint64_t'', FIELD_TYPE_UINT64)]"

definition lookup_primitive_type :: "string \<Rightarrow> field_type option" where
  "lookup_primitive_type type_name = map_option snd (find (\<lambda>(n, ty). sstr_compare_c type_name n = 0) type_table)"

definition map_has :: "'v sstr_map \<Rightarrow> string \<Rightarrow> bool" where
  "map_has m name \<longleftrightarrow> fst (hash_map_find m name) = HASH_MAP_OK"

definition struct_field_new :: "string \<Rightarrow> field_type \<Rightarrow> string \<Rightarrow> struct_field" where
  "struct_field_new name type type_name = \<lparr>fd_name = name, fd_type = type, fd_is_array = False, fd_array_size = 0,
     fd_type_name = type_name, fd_map_value_type = FIELD_TYPE_INT, fd_map_value_type_name = None,
     fd_is_optional = False, fd_is_nullable = False, fd_json_name = None, fd_default_value = None,
     fd_has_default = False, fd_is_deprecated = False, fd_line = 0, fd_col = 0\<rparr>"

section \<open>Annotations and modifiers\<close>

text \<open>
  The code, the parser, the current token and what has been filled in; code 0 goes on with the declaration,
  -1 is the error return. \<open>parse_fail\<close> is a \<open>PERROR\<close> followed by \<open>return -1\<close>.
\<close>

type_synonym 'a parsed = "int \<times> struct_parser \<times> struct_token \<times> 'a"

definition parse_fail :: "struct_parser \<Rightarrow> struct_token \<Rightarrow> 'a \<Rightarrow> string \<Rightarrow> 'a parsed" where
  "parse_fail p t x msg = (-1, sp_error p msg, t, x)"

text \<open>\<open>@json\<close> and \<open>@deprecated\<close>, in any order.\<close>

function field_annotations :: "struct_parser \<Rightarrow> string \<Rightarrow> struct_token \<Rightarrow> struct_field \<Rightarrow> struct_field parsed" where
  "field_annotations p content t field =
     (if st_type t \<noteq> TOKEN_AT then (0, p, t, field)
      else
        (let (p1, t1) = next_token p content
         in if st_type t1 \<noteq> TOKEN_IDENTIFY then
              parse_fail p1 t1 field (expected (''annotation name after '' @ in_quotes ''@'') t1)
            else if is_word t1 ''json'' then
              (let (p2, t2) = next_token p1 content
               in if st_type t2 \<noteq> TOKEN_STRING then
                    parse_fail p2 t2 field (expected (''string after '' @ in_quotes ''@json'') t2)
                  else
                    (let (p3, t3) = next_token p2 content
                     in field_annotations p3 content t3 (field\<lparr>fd_json_name := st_txt t2\<rparr>)))
            else if is_word t1 ''deprecated'' then
              (let (p2, t2) = next_token p1 content
               in field_annotations p2 content t2 (field\<lparr>fd_is_deprecated := True\<rparr>))
            else parse_fail p1 t1 field (''unknown annotation '' @ in_quotes (CHR ''@'' # cstr (txt_of t1)))))"
  by pat_completeness auto
termination
  by (relation "measure (\<lambda>(p, content, t, field). tokens_left content p t)")
    (auto dest!: next_token_reads [OF sym] intro!: tokens_left_reads intro: reads_trans)

declare field_annotations.simps [simp del]

text \<open>\<open>optional\<close> and \<open>nullable\<close> before the type name.\<close>

function field_modifiers :: "struct_parser \<Rightarrow> string \<Rightarrow> struct_token \<Rightarrow> struct_field \<Rightarrow> struct_field parsed" where
  "field_modifiers p content t field =
     (if is_word t ''optional'' \<or> is_word t ''nullable'' then
        (let field' = (if is_word t ''optional'' then field\<lparr>fd_is_optional := True\<rparr>
                       else field\<lparr>fd_is_nullable := True\<rparr>);
             (p', t') = next_token p content
         in if st_type t' \<noteq> TOKEN_IDENTIFY then parse_fail p' t' field' (expected ''type name after modifier'' t')
            else field_modifiers p' content t' field')
      else (0, p, t, field))"
  by pat_completeness auto
termination
  by (relation "measure (\<lambda>(p, content, t, field). length content - sp_offset p)")
    (auto simp: reads_def dest!: next_token_reads [OF sym])

declare field_modifiers.simps [simp del]

section \<open>Types of fields\<close>

definition rstrip :: "string \<Rightarrow> string" where
  "rstrip s = rev (dropWhile (\<lambda>c. c = CHR '' '') (rev s))"

text \<open>
  The value type in \<open>map<K, V>\<close>. \<open>val_end = params + sstr_length(token->txt)\<close> is computed from the pointer that
  has been moved over \<open>lead\<close> blanks, so it lies \<open>lead\<close> bytes behind the end of the text \<open>tx\<close>; the bytes come from
  the buffer of the token's string.
\<close>

definition map_value_text :: "string \<Rightarrow> nat \<Rightarrow> nat \<Rightarrow> fault + string" where
  "map_value_text tx lead val_start =
     bindE (sstr_of tx) (\<lambda>s.
       (let val_end = lead + length tx
        in if val_start < val_end then
             bindE (mem_bytes (sbuf s) val_start (val_end - val_start)) (\<lambda>bs. Inr (rstrip bs))
           else Inr []))"

definition map_value_type_of :: "struct_parser \<Rightarrow> string \<Rightarrow> field_type" where
  "map_value_type_of p name = (case lookup_primitive_type name of
     Some ty \<Rightarrow> ty
   | None \<Rightarrow> if map_has (sp_enum_map p) name then FIELD_TYPE_ENUM else FIELD_TYPE_STRUCT)"

definition parse_map_field ::
  "struct_parser \<Rightarrow> string \<Rightarrow> struct_field \<Rightarrow> string \<Rightarrow> fault + struct_field parsed" where
  "parse_map_field p0 content field type_name =
     (let (p, t) = next_token p0 content; tx = txt_of t; params = cstr tx;
          comma = length (takeWhile (\<lambda>c. c \<noteq> CHR '','') params);
          lead = length (takeWhile (\<lambda>c. c = CHR '' '') params);
          key = rstrip (drop lead (take comma params));
          val_start = comma + 1 + length (takeWhile (\<lambda>c. c = CHR '' '') (drop (comma + 1) params))
      in if st_type t \<noteq> TOKEN_STRING then
           Inr (parse_fail p t field
             (''expected '' @ in_quotes ''<key_type, value_type>'' @ '' after '' @ in_quotes ''map''))
         else if comma \<ge> length params then
           Inr (parse_fail p t field (''expected '' @ in_quotes '','' @ '' in map type parameters''))
         else if length key \<noteq> 6 \<or> key \<noteq> ''sstr_t'' then
           Inr (parse_fail p t field (''map key type must be '' @ in_quotes ''sstr_t'' @ '', got '' @ in_quotes key))
         else
           bindE (map_value_text tx lead val_start) (\<lambda>val_type_name.
             (let ty = map_value_type_of p val_type_name
              in Inr (0, p, t, field\<lparr>fd_type := FIELD_TYPE_MAP, fd_map_value_type := ty,
                   fd_map_value_type_name := Some (if ty = FIELD_TYPE_BOOL then ''int'' else val_type_name),
                   fd_type_name := type_name\<rparr>))))"

definition field_type_of :: "struct_parser \<Rightarrow> string \<Rightarrow> field_type" where
  "field_type_of p name = (case lookup_primitive_type name of
     Some ty \<Rightarrow> ty
   | None \<Rightarrow> if map_has (sp_enum_map p) name then FIELD_TYPE_ENUM
       else if map_has (sp_oneof_map p) name then FIELD_TYPE_ONEOF else FIELD_TYPE_STRUCT)"

text \<open>The type name is the current token.\<close>

definition parse_field_type ::
  "struct_parser \<Rightarrow> string \<Rightarrow> struct_token \<Rightarrow> struct_field \<Rightarrow> fault + struct_field parsed" where
  "parse_field_type p content t field0 =
     (let type_name = txt_of t; field = field0\<lparr>fd_line := sp_line p, fd_col := sp_col p\<rparr>
      in if is_word t ''struct'' then
           Inr (parse_fail p t field (''expected field type, found reserve keyword '' @ in_quotes ''struct''))
         else if is_word t ''map'' then parse_map_field p content field type_name
         else
           (let type_id = field_type_of p type_name
            in Inr (0, p, t, field\<lparr>fd_type := type_id,
                 fd_type_name := (if type_id = FIELD_TYPE_BOOL then ''int'' else type_name)\<rparr>)))"

section \<open>Names, arrays and default values\<close>

text \<open>\<open>(int)sz\<close>.\<close>

definition int_cast :: "int \<Rightarrow> int" where
  "int_cast n = sint (word_of_int n :: u32)"

text \<open>An array suffix behind the name; \<open>t\<close> is the token behind the name, the result has the one behind the suffix.\<close>

definition parse_array_suffix ::
  "struct_parser \<Rightarrow> string \<Rightarrow> struct_token \<Rightarrow> struct_field \<Rightarrow> struct_field parsed" where
  "parse_array_suffix p content t field =
     (if st_type t \<noteq> TOKEN_LEFT_BRACKET then (0, p, t, field)
      else
        (let field1 = field\<lparr>fd_is_array := True\<rparr>; (p1, t1) = next_token p content;
             sized = (st_type t1 = TOKEN_INTEGER); sz = fst (strtol (txt_of t1))
         in if sized \<and> sz \<le> 0 then parse_fail p1 t1 field1 ''array size must be a positive integer''
            else
              (let field2 = (if sized then field1\<lparr>fd_array_size := int_cast sz\<rparr> else field1);
                   (p2, t2) = (if sized then next_token p1 content else (p1, t1))
               in if st_type t2 \<noteq> TOKEN_RIGHT_BRACKET then
                    parse_fail p2 t2 field2 (expected (in_quotes '']'') t2)
                  else (let (p3, t3) = next_token p2 content in (0, p3, t3, field2)))))"

definition parse_default_value ::
  "struct_parser \<Rightarrow> string \<Rightarrow> struct_token \<Rightarrow> struct_field \<Rightarrow> struct_field parsed" where
  "parse_default_value p content t field =
     (if st_type t \<noteq> TOKEN_EQUAL then (0, p, t, field)
      else if fd_is_array field then parse_fail p t field ''default values are not supported for array fields''
      else if fd_type field = FIELD_TYPE_MAP then parse_fail p t field ''default values are not supported for map fields''
      else if fd_type field = FIELD_TYPE_STRUCT then parse_fail p t field ''default values are not supported for struct fields''
      else
        (let (p1, t1) = next_token p content
         in if st_type t1 \<notin> {TOKEN_INTEGER, TOKEN_FLOAT, TOKEN_IDENTIFY, TOKEN_STRING} then
              parse_fail p1 t1 field (expected (''default value after '' @ in_quotes ''='') t1)
            else
              (let (p2, t2) = next_token p1 content
               in (0, p2, t2, field\<lparr>fd_default_value := st_txt t1, fd_has_default := True\<rparr>))))"

text \<open>From the label \<open>parse_field_name\<close> to the semicolon.\<close>

definition parse_field_rest :: "struct_parser \<Rightarrow> string \<Rightarrow> struct_field \<Rightarrow> struct_field parsed" where
  "parse_field_rest p content field =
     (let (p1, t1) = next_token p content
      in if st_type t1 \<noteq> TOKEN_IDENTIFY then parse_fail p1 t1 field (expected ''field name'' t1)
         else
           (let (p2, t2) = next_token p1 content;
                (r3, p3, t3, field3) = parse_array_suffix p2 content t2 (field\<lparr>fd_name := txt_of t1\<rparr>)
            in if r3 \<noteq> 0 then (r3, p3, t3, field3)
               else
                 (let (r4, p4, t4, field4) = parse_default_value p3 content t3 field3
                  in if r4 \<noteq> 0 then (r4, p4, t4, field4)
                     else if st_type t4 \<noteq> TOKEN_SEMICOLON then
                       parse_fail p4 t4 field4 (expected (in_quotes '';'') t4)
                     else (0, p4, t4, field4))))"

definition struct_parse_field ::
  "struct_parser \<Rightarrow> string \<Rightarrow> struct_field \<Rightarrow> fault + struct_field parsed" where
  "struct_parse_field p0 content field0 =
     (let (p1, t1) = next_token_skipping False p0 content
      in if st_type t1 = TOKEN_RIGHT_BRACE then Inr (0, p1, t1, field0)
         else
           (let (r2, p2, t2, field2) = field_annotations p1 content t1 field0
            in if r2 \<noteq> 0 then Inr (r2, p2, t2, field2)
               else if st_type t2 \<noteq> TOKEN_IDENTIFY then
                 Inr (parse_fail p2 t2 field2 (expected ''type name'' t2))
               else if length (txt_of t2) = 0 then
                 Inr (parse_fail p2 t2 field2 ''expected type name, found empty string'')
               else
                 (let (r3, p3, t3, field3) = field_modifiers p2 content t2 field2
                  in if r3 \<noteq> 0 then Inr (r3, p3, t3, field3)
                     else
                       bindE (parse_field_type p3 content t3 field3) (\<lambda>(r4, p4, t4, field4).
                         if r4 \<noteq> 0 then Inr (r4, p4, t4, field4)
                         else Inr (parse_field_rest p4 content field4)))))"

section \<open>A field is read goes_forward\<close>

lemma parse_fail_reads:
  "parse_fail p t x msg = (r, p', t', x') \<Longrightarrow> reads content p0 p t \<Longrightarrow> reads content p0 p' t'"
  by (auto simp: parse_fail_def intro: reads_error)

lemma field_annotations_reads:
  "field_annotations p content t field = (r, p', t', field') \<Longrightarrow> reads content p0 p t \<Longrightarrow> reads content p0 p' t'"
proof (induction p content t field rule: field_annotations.induct)
  case (1 p content t field)
  obtain p1 t1 where n1: "next_token p content = (p1, t1)" by fastforce
  obtain p2 t2 where n2: "next_token p1 content = (p2, t2)" by fastforce
  obtain p3 t3 where n3: "next_token p2 content = (p3, t3)" by fastforce
  have c: "reads content p0 p1 t1" "reads content p0 p2 t2" "reads content p0 p3 t3"
    using 1(4) n1 n2 n3 by (meson next_token_reads reads_trans)+
  show ?case
    using 1(1-3) n1 n2 n3 1(4) c
    by (subst (asm) (3) field_annotations.simps) (auto split: if_splits dest: parse_fail_reads)
qed

lemma field_modifiers_reads:
  "field_modifiers p content t field = (r, p', t', field') \<Longrightarrow> reads content p0 p t \<Longrightarrow> reads content p0 p' t'"
proof (induction p content t field rule: field_modifiers.induct)
  case (1 p content t field)
  obtain p1 t1 where n1: "next_token p content = (p1, t1)" by fastforce
  have c: "reads content p0 p1 t1" using 1(3) n1 by (meson next_token_reads reads_trans)
  show ?case
    using 1(1,2) n1 1(3) c
    by (subst (asm) (2) field_modifiers.simps) (auto simp: Let_def split: if_splits dest: parse_fail_reads)
qed

lemma parse_map_field_reads:
  "parse_map_field p content field n = Inr (r, p', t', field') \<Longrightarrow> reads content p p' t'"
  by (auto simp: parse_map_field_def Let_def bindE_Inr_conv split: prod.splits if_splits
      dest!: next_token_reads dest: parse_fail_reads)

lemma parse_field_type_reads:
  "parse_field_type p content t field = Inr (r, p', t', field') \<Longrightarrow> reads content p0 p t \<Longrightarrow> reads content p0 p' t'"
  by (auto simp: parse_field_type_def Let_def split: if_splits
      dest!: parse_map_field_reads intro: reads_trans dest: parse_fail_reads)

lemma parse_array_suffix_reads:
  "parse_array_suffix p content t field = (r, p', t', field') \<Longrightarrow> reads content p0 p t \<Longrightarrow> reads content p0 p' t'"
  by (auto simp: parse_array_suffix_def Let_def split: prod.splits if_splits
      dest!: next_token_reads dest: parse_fail_reads intro: reads_trans)

lemma parse_default_value_reads:
  "parse_default_value p content t field = (r, p', t', field') \<Longrightarrow> reads content p0 p t \<Longrightarrow> reads content p0 p' t'"
  by (auto simp: parse_default_value_def Let_def split: prod.splits if_splits
      dest!: next_token_reads dest: parse_fail_reads intro: reads_trans)

lemma parse_field_rest_reads:
  assumes "parse_field_rest p content field = (r, p', t', field')"
  shows "reads content p p' t'"
proof -
  obtain p1 t1 where n1: "next_token p content = (p1, t1)" by fastforce
  obtain p2 t2 where n2: "next_token p1 content = (p2, t2)" by fastforce
  obtain r3 p3 t3 f3 where a: "parse_array_suffix p2 content t2 (field\<lparr>fd_name := txt_of t1\<rparr>) = (r3, p3, t3, f3)"
    by (rule prod_cases4)
  obtain r4 p4 t4 f4 where d: "parse_default_value p3 content t3 f3 = (r4, p4, t4, f4)" by (rule prod_cases4)
  have c: "reads content p p1 t1" "reads content p p2 t2" using n1 n2 by (meson next_token_reads reads_trans)+
  note c3 = parse_array_suffix_reads [OF a c(2)]
  note c4 = parse_default_value_reads [OF d c3]
  show ?thesis using assms n1 n2 a d c c3 c4
    by (auto simp: parse_field_rest_def split: if_splits dest: parse_fail_reads)
qed

lemma struct_parse_field_reads:
  assumes "struct_parse_field p content field = Inr (r, p', t', field')"
  shows "reads content p p' t'"
proof -
  obtain p1 t1 where n1: "next_token_skipping False p content = (p1, t1)" by fastforce
  obtain r2 p2 t2 f2 where a: "field_annotations p1 content t1 field = (r2, p2, t2, f2)" by (rule prod_cases4)
  obtain r3 p3 t3 f3 where m: "field_modifiers p2 content t2 f2 = (r3, p3, t3, f3)" by (rule prod_cases4)
  note c1 = next_token_skipping_reads [OF n1]
  note c2 = field_annotations_reads [OF a c1]
  note c3 = field_modifiers_reads [OF m c2]
  show ?thesis using assms n1 a m c1 c2 c3
    by (auto simp: struct_parse_field_def bindE_Inr_conv split: if_splits dest: parse_fail_reads
        parse_field_type_reads [OF _ c3] dest!: parse_field_rest_reads intro: reads_trans)
qed

end
