(* ===== verification/SchemaParse.thy ===== *)
theory SchemaParse
  imports SchemaField
begin

text \<open>
  The schema parser (\<open>src/struct/struct_parse.c\<close>): definitions of structs, enums and oneofs, their registration
  under unique names, \<open>#include\<close>, and \<open>struct_parser_parse\<close>. The files that can be read are a parameter, and
  the recursion through includes has a fuel that stands for the stack.
\<close>

section \<open>Top-level items\<close>

datatype top_level_item_kind =
    TOP_LEVEL_ITEM_INVALID | TOP_LEVEL_ITEM_INCLUDE | TOP_LEVEL_ITEM_STRUCT | TOP_LEVEL_ITEM_ENUM | TOP_LEVEL_ITEM_ONEOF

definition top_level_item_kind_from_token :: "struct_token \<Rightarrow> top_level_item_kind" where
  "top_level_item_kind_from_token t =
     (if st_type t = TOKEN_SHARPE then TOP_LEVEL_ITEM_INCLUDE
      else if st_type t \<noteq> TOKEN_IDENTIFY \<or> st_txt t = None then TOP_LEVEL_ITEM_INVALID
      else if is_word t ''struct'' then TOP_LEVEL_ITEM_STRUCT
      else if is_word t ''enum'' then TOP_LEVEL_ITEM_ENUM
      else if is_word t ''oneof'' then TOP_LEVEL_ITEM_ONEOF
      else TOP_LEVEL_ITEM_INVALID)"

function skip_to_top_level :: "struct_parser \<Rightarrow> string \<Rightarrow> struct_parser \<times> struct_token" where
  "skip_to_top_level p content =
     (let (p', t) = next_token p content
      in if st_type t = TOKEN_EOF then (p', t)
         else if top_level_item_kind_from_token t \<noteq> TOP_LEVEL_ITEM_INVALID then (p', t)
         else skip_to_top_level p' content)"
  by pat_completeness auto
termination
  by (relation "measure (\<lambda>(p, content). length content - sp_offset p)")
    (auto simp: reads_def dest!: next_token_reads [OF sym])

declare skip_to_top_level.simps [simp del]

fun top_level_item_name :: "top_level_item_kind \<Rightarrow> string" where
  "top_level_item_name TOP_LEVEL_ITEM_STRUCT = ''struct''"
| "top_level_item_name TOP_LEVEL_ITEM_ENUM = ''enum''"
| "top_level_item_name TOP_LEVEL_ITEM_ONEOF = ''oneof''"
| "top_level_item_name _ = ''item''"

fun top_level_item_defined_as_name :: "top_level_item_kind \<Rightarrow> string" where
  "top_level_item_defined_as_name TOP_LEVEL_ITEM_STRUCT = ''a struct''"
| "top_level_item_defined_as_name TOP_LEVEL_ITEM_ENUM = ''an enum''"
| "top_level_item_defined_as_name TOP_LEVEL_ITEM_ONEOF = ''a oneof''"
| "top_level_item_defined_as_name _ = ''an item''"

text \<open>The item behind a \<open>void *\<close>.\<close>

datatype top_level_item =
    Item_struct struct_container | Item_enum enum_container | Item_oneof oneof_container

fun item_kind :: "top_level_item \<Rightarrow> top_level_item_kind" where
  "item_kind (Item_struct _) = TOP_LEVEL_ITEM_STRUCT"
| "item_kind (Item_enum _) = TOP_LEVEL_ITEM_ENUM"
| "item_kind (Item_oneof _) = TOP_LEVEL_ITEM_ONEOF"

text \<open>A lookup in \<open>top_level_item_map(parser, kind)\<close>; there is no map for the other kinds.\<close>

fun in_table :: "struct_parser \<Rightarrow> top_level_item_kind \<Rightarrow> string \<Rightarrow> bool" where
  "in_table p TOP_LEVEL_ITEM_STRUCT name = map_has (sp_struct_map p) name"
| "in_table p TOP_LEVEL_ITEM_ENUM name = map_has (sp_enum_map p) name"
| "in_table p TOP_LEVEL_ITEM_ONEOF name = map_has (sp_oneof_map p) name"
| "in_table p _ name = False"

definition check_top_level_name_available ::
  "struct_parser \<Rightarrow> string \<Rightarrow> top_level_item_kind \<Rightarrow> int \<times> struct_parser" where
  "check_top_level_name_available p name kind =
     (let already = (\<lambda>k. (-1, sp_error p (in_quotes (cstr name) @ '' already defined as '' @ top_level_item_defined_as_name k)))
      in if in_table p kind name then
           (-1, sp_error p (''duplicate '' @ top_level_item_name kind @ '' name '' @ in_quotes (cstr name)))
         else if kind \<noteq> TOP_LEVEL_ITEM_STRUCT \<and> map_has (sp_struct_map p) name then already TOP_LEVEL_ITEM_STRUCT
         else if kind \<noteq> TOP_LEVEL_ITEM_ENUM \<and> map_has (sp_enum_map p) name then already TOP_LEVEL_ITEM_ENUM
         else if kind \<noteq> TOP_LEVEL_ITEM_ONEOF \<and> map_has (sp_oneof_map p) name then already TOP_LEVEL_ITEM_ONEOF
         else (0, p))"

fun insert_item :: "struct_parser \<Rightarrow> string \<Rightarrow> top_level_item \<Rightarrow> struct_parser" where
  "insert_item p name (Item_struct s) = p\<lparr>sp_struct_map := snd (hm_insert (sp_struct_map p) name s)\<rparr>"
| "insert_item p name (Item_enum e) = p\<lparr>sp_enum_map := snd (hm_insert (sp_enum_map p) name e)\<rparr>"
| "insert_item p name (Item_oneof v) = p\<lparr>sp_oneof_map := snd (hm_insert (sp_oneof_map p) name v)\<rparr>"

text \<open>The result of the insertion is not looked at.\<close>

definition register_top_level_item :: "struct_parser \<Rightarrow> string \<Rightarrow> top_level_item \<Rightarrow> int \<times> struct_parser" where
  "register_top_level_item p name item =
     (let (r, p') = check_top_level_name_available p name (item_kind item)
      in if r \<noteq> 0 then (-1, p') else (0, insert_item p' name item))"

section \<open>Enums\<close>

text \<open>How a round of a body loop ends.\<close>

datatype loop_exit = Continue | Break | Return_error

text \<open>The values so far, the last one first; their number; \<open>had_error\<close>.\<close>

type_synonym enum_state = "enum_value list \<times> nat \<times> bool"

text \<open>Skipping to a separator after an error; a closing brace ends the loop.\<close>

definition enum_recover :: "struct_parser \<Rightarrow> string \<Rightarrow> struct_token \<Rightarrow> enum_value list \<Rightarrow> nat
    \<Rightarrow> loop_exit \<times> struct_parser \<times> struct_token \<times> enum_state" where
  "enum_recover p content t vals cnt =
     (let (p', t') = skip_to_separator True p content t
      in (if st_type t' = TOKEN_RIGHT_BRACE then Break else Continue, p', t', (vals, cnt, True)))"

definition enum_value_step :: "struct_parser \<Rightarrow> string \<Rightarrow> string \<Rightarrow> enum_state
    \<Rightarrow> loop_exit \<times> struct_parser \<times> struct_token \<times> enum_state" where
  "enum_value_step p content enum_name st =
     (let (vals, cnt, err) = st; (p1, t1) = next_meaningful_token p content
      in if st_type t1 = TOKEN_RIGHT_BRACE then (Break, p1, t1, st)
         else if st_type t1 = TOKEN_EOF then
           (Return_error, sp_error p1 (''unexpected end of file in enum '' @ in_quotes (cstr enum_name)), t1, st)
         else
           (let annotated = (st_type t1 = TOKEN_AT);
                (p2, t2) = (if annotated then next_token p1 content else (p1, t1))
            in if annotated \<and> (st_type t2 \<noteq> TOKEN_IDENTIFY \<or> \<not> is_word t2 ''deprecated'') then
                 enum_recover (sp_error p2 (expected (in_quotes ''deprecated'' @ '' after '' @ in_quotes ''@'' @ '' in enum'') t2))
                   content t2 vals cnt
               else
                 (let (p3, t3) = (if annotated then next_token p2 content else (p2, t2))
                  in if st_type t3 \<noteq> TOKEN_IDENTIFY then
                       enum_recover (sp_error p3 (expected ''enum value name'' t3)) content t3 vals cnt
                     else
                       (let ev = \<lparr>ev_name = txt_of t3, ev_index = cnt, ev_is_deprecated = annotated\<rparr>;
                            (p4, t4) = next_token p3 content
                        in if st_type t4 = TOKEN_RIGHT_BRACE then (Break, p4, t4, (ev # vals, cnt + 1, err))
                           else if st_type t4 \<noteq> TOKEN_SEMICOLON \<and> st_type t4 \<noteq> TOKEN_COMMA then
                             enum_recover (sp_error p4 (expected
                               (in_quotes '','' @ '' or '' @ in_quotes '';'' @ '' or '' @ in_quotes ''}'' @ '' in enum'') t4))
                               content t4 (ev # vals) (cnt + 1)
                           else (Continue, p4, t4, (ev # vals, cnt + 1, err))))))"

text \<open>A round that goes on has read a token, and no round touches the tables.\<close>

lemma enum_recover_reads:
  "enum_recover p content t vals cnt = (e, p', t', st) \<Longrightarrow> reads content p0 p t \<Longrightarrow> reads content p0 p' t'"
  by (auto simp: enum_recover_def split: prod.splits dest: skip_to_separator_reads)

lemma next_meaningful_token_reads: "next_meaningful_token p content = (p', t) \<Longrightarrow> reads content p p' t"
  by (simp add: next_meaningful_token_def next_token_skipping_reads)

text \<open>\<open>goes_forward content p p'\<close>: as \<open>reads\<close> behind a token that is not the end of the file.\<close>

definition goes_forward :: "string \<Rightarrow> struct_parser \<Rightarrow> struct_parser \<Rightarrow> bool" where
  "goes_forward content p p' \<longleftrightarrow> sp_offset p < length content \<and> sp_offset p < sp_offset p' \<and> same_frame p p'"

lemma reads_forward: "reads content p p1 t1 \<Longrightarrow> st_type t1 \<noteq> TOKEN_EOF \<Longrightarrow> reads content p1 p' t' \<or> p' = p1 \<Longrightarrow> goes_forward content p p'"
  by (auto simp: reads_def goes_forward_def same_frame_def)

lemma enum_value_step_reads:
  assumes "enum_value_step p content n st = (e, p', t', st')"
  shows "reads content p p' t'" and "e = Continue \<Longrightarrow> goes_forward content p p'"
proof -
  obtain vals cnt err where st: "st = (vals, cnt, err)" by (rule prod_cases3)
  obtain p1 t1 where n1: "next_meaningful_token p content = (p1, t1)" by fastforce
  define a where "a = (st_type t1 = TOKEN_AT)"
  obtain p2 t2 where n2: "(if a then next_token p1 content else (p1, t1)) = (p2, t2)" by fastforce
  obtain p3 t3 where n3: "(if a then next_token p2 content else (p2, t2)) = (p3, t3)" by fastforce
  obtain p4 t4 where n4: "next_token p3 content = (p4, t4)" by fastforce
  have c1: "reads content p p1 t1" by (rule next_meaningful_token_reads [OF n1])
  have c2: "reads content p p2 t2" using c1 n2 by (auto split: if_splits dest!: next_token_reads intro: reads_trans)
  have c3: "reads content p p3 t3" using c2 n3 by (auto split: if_splits dest!: next_token_reads intro: reads_trans)
  have c4: "reads content p p4 t4" using c3 n4 by (auto dest!: next_token_reads intro: reads_trans)
  note unf = enum_value_step_def st n1 n2 n3 n4 a_def [symmetric]
  show "reads content p p' t'"
    using assms c1 c2 c3 c4
    by (auto simp: unf Let_def split: if_splits intro: reads_error dest!: enum_recover_reads [OF _ reads_error])
  have off: "sp_offset p1 \<le> sp_offset p2" "sp_offset p1 \<le> sp_offset p3" "sp_offset p1 \<le> sp_offset p4"
    using n2 n3 n4 by (auto simp: reads_def split: if_splits dest!: next_token_reads)
  assume e: "e = Continue"
  have "st_type t1 \<noteq> TOKEN_EOF" using assms e by (auto simp: unf Let_def split: if_splits)
  moreover have "sp_offset p1 \<le> sp_offset p'"
    using assms off e
    by (auto simp: unf Let_def enum_recover_def split: if_splits prod.splits dest!: skip_to_separator_mono)
  ultimately show "goes_forward content p p'"
    using c1 \<open>reads content p p' t'\<close> by (auto simp: reads_def goes_forward_def)
qed

function enum_value_loop ::
  "struct_parser \<Rightarrow> string \<Rightarrow> string \<Rightarrow> enum_state \<Rightarrow> bool \<times> struct_parser \<times> struct_token \<times> enum_state" where
  "enum_value_loop p content enum_name st =
     (let (e, p', t', st') = enum_value_step p content enum_name st
      in if e = Continue then enum_value_loop p' content enum_name st' else (e = Break, p', t', st'))"
  by pat_completeness auto
termination
  by (relation "measure (\<lambda>(p, content, n, st). length content - sp_offset p)")
    (auto simp: goes_forward_def dest!: enum_value_step_reads(2) [OF sym])

declare enum_value_loop.simps [simp del]

text \<open>The indices are assigned anew once the list is in order.\<close>

fun reindex_values :: "nat \<Rightarrow> enum_value list \<Rightarrow> enum_value list" where
  "reindex_values i [] = []"
| "reindex_values i (v # vs) = v\<lparr>ev_index := i\<rparr> # reindex_values (i + 1) vs"

text \<open>The name of a definition and the brace behind it.\<close>

definition parse_definition_head ::
  "string \<Rightarrow> struct_parser \<Rightarrow> string \<Rightarrow> (string \<times> int \<times> int) parsed" where
  "parse_definition_head what p content =
     (let (p1, t1) = next_token p content; head = (txt_of t1, sp_line p1, sp_col p1)
      in if st_type t1 \<noteq> TOKEN_IDENTIFY then parse_fail p1 t1 head (expected (what @ '' name'') t1)
         else
           (let (p2, t2) = next_token p1 content
            in if st_type t2 \<noteq> TOKEN_LEFT_BRACE then parse_fail p2 t2 head (expected (in_quotes ''{'') t2)
               else (0, p2, t2, head)))"

definition parse_enum_body :: "struct_parser \<Rightarrow> string \<Rightarrow> int \<times> struct_parser \<times> struct_token" where
  "parse_enum_body p content =
     (let (r, p1, t1, enum_name, name_line, name_col) = parse_definition_head ''enum'' p content
      in if r \<noteq> 0 then (r, p1, t1)
         else
           (let (ok, p2, t2, vals, cnt, err) = enum_value_loop p1 content enum_name ([], 0, False)
            in if \<not> ok then (-1, p2, t2)
               else
                 (let ec = \<lparr>ec_name = enum_name, ec_values = reindex_values 0 (rev vals), ec_count = cnt,
                            ec_name_line = name_line, ec_name_col = name_col, ec_filename = sp_name p\<rparr>;
                      (r3, p3) = register_top_level_item p2 enum_name (Item_enum ec)
                  in (if r3 \<noteq> 0 \<or> err then -1 else 0, p3, t2))))"

section \<open>Oneofs\<close>

text \<open>The tag field, the variants so far, the last one first, their number and \<open>had_error\<close>.\<close>

type_synonym oneof_state = "string \<times> oneof_variant list \<times> nat \<times> bool"

definition oneof_recover :: "struct_parser \<Rightarrow> string \<Rightarrow> struct_token \<Rightarrow> string \<Rightarrow> oneof_variant list \<Rightarrow> nat
    \<Rightarrow> loop_exit \<times> struct_parser \<times> struct_token \<times> oneof_state" where
  "oneof_recover p content t tag vars cnt =
     (let (p', t') = skip_to_separator False p content t
      in (if st_type t' = TOKEN_RIGHT_BRACE then Break else Continue, p', t', (tag, vars, cnt, True)))"

text \<open>\<open>struct_type variant_name;\<close> with the first token read.\<close>

definition oneof_variant_decl :: "struct_parser \<Rightarrow> string \<Rightarrow> struct_token \<Rightarrow> bool \<Rightarrow> oneof_state
    \<Rightarrow> loop_exit \<times> struct_parser \<times> struct_token \<times> oneof_state" where
  "oneof_variant_decl p content t deprecated st =
     (let (tag, vars, cnt, err) = st
      in if st_type t \<noteq> TOKEN_IDENTIFY then
           oneof_recover (sp_error p (expected ''struct type name in oneof'' t)) content t tag vars cnt
         else
           (let (p1, t1) = next_token p content
            in if st_type t1 \<noteq> TOKEN_IDENTIFY then
                 oneof_recover (sp_error p1 (expected ''variant name in oneof'' t1)) content t1 tag vars cnt
               else
                 (let (p2, t2) = next_token p1 content
                  in if st_type t2 \<noteq> TOKEN_SEMICOLON then
                       oneof_recover (sp_error p2 (expected (in_quotes '';'' @ '' after variant declaration'') t2))
                         content t2 tag vars cnt
                     else
                       (Continue, p2, t2, (tag, \<lparr>ov_name = txt_of t1, ov_struct_type_name = txt_of t,
                          ov_index = cnt, ov_is_deprecated = deprecated\<rparr> # vars, cnt + 1, err)))))"

definition oneof_step :: "struct_parser \<Rightarrow> string \<Rightarrow> string \<Rightarrow> oneof_state
    \<Rightarrow> loop_exit \<times> struct_parser \<times> struct_token \<times> oneof_state" where
  "oneof_step p content oneof_name st =
     (let (tag, vars, cnt, err) = st; (p1, t1) = next_meaningful_token p content
      in if st_type t1 = TOKEN_RIGHT_BRACE then (Break, p1, t1, st)
         else if st_type t1 = TOKEN_EOF then
           (Return_error, sp_error p1 (''unexpected end of file in oneof '' @ in_quotes (cstr oneof_name)), t1, st)
         else if st_type t1 \<noteq> TOKEN_AT then oneof_variant_decl p1 content t1 False st
         else
           (let (p2, t2) = next_token p1 content
            in if st_type t2 \<noteq> TOKEN_IDENTIFY then
                 (Continue, sp_error p2 (expected (''annotation name after '' @ in_quotes ''@'' @ '' in oneof'') t2), t2,
                  (tag, vars, cnt, True))
               else if is_word t2 ''tag'' then
                 (let (p3, t3) = next_token p2 content
                  in if st_type t3 \<noteq> TOKEN_STRING then
                       (Continue, sp_error p3 (expected (''string after '' @ in_quotes ''@tag'' @ '' in oneof'') t3), t3,
                        (tag, vars, cnt, True))
                     else (Continue, p3, t3, (txt_of t3, vars, cnt, err)))
               else if is_word t2 ''deprecated'' then
                 (let (p3, t3) = next_token p2 content in oneof_variant_decl p3 content t3 True st)
               else
                 (Continue, sp_error p2 (''unknown annotation '' @ in_quotes (CHR ''@'' # cstr (txt_of t2)) @ '' in oneof''), t2,
                  (tag, vars, cnt, True))))"

lemma oneof_variant_decl_reads:
  assumes "oneof_variant_decl p content t dep st = (e, p', t', st')"
  shows "reads content p0 p t \<Longrightarrow> reads content p0 p' t'" and "sp_offset p \<le> sp_offset p'"
proof -
  obtain tag vars cnt err where st: "st = (tag, vars, cnt, err)" by (rule prod_cases4)
  obtain p1 t1 where n1: "next_token p content = (p1, t1)" by fastforce
  obtain p2 t2 where n2: "next_token p1 content = (p2, t2)" by fastforce
  note unf = oneof_variant_decl_def oneof_recover_def st n1 n2
  note r = next_token_reads [OF n1] next_token_reads [OF n2]
  have off: "sp_offset p \<le> sp_offset p1" "sp_offset p \<le> sp_offset p2" using r by (auto simp: reads_def)
  show "sp_offset p \<le> sp_offset p'"
    using assms off by (auto simp: unf split: if_splits prod.splits dest!: skip_to_separator_mono)
  assume c: "reads content p0 p t"
  have c1: "reads content p0 p1 t1" and c2: "reads content p0 p2 t2" using r c by (meson reads_trans)+
  show "reads content p0 p' t'"
    using assms c c1 c2 by (auto simp: unf split: if_splits prod.splits dest!: skip_to_separator_reads [OF _ reads_error])
qed

lemma oneof_step_reads:
  assumes "oneof_step p content n st = (e, p', t', st')"
  shows "reads content p p' t'" and "e = Continue \<Longrightarrow> goes_forward content p p'"
proof -
  obtain tag vars cnt err where st: "st = (tag, vars, cnt, err)" by (rule prod_cases4)
  obtain p1 t1 where n1: "next_meaningful_token p content = (p1, t1)" by fastforce
  obtain p2 t2 where n2: "next_token p1 content = (p2, t2)" by fastforce
  obtain p3 t3 where n3: "next_token p2 content = (p3, t3)" by fastforce
  note unf = oneof_step_def st n1 n2 n3
  have c1: "reads content p p1 t1" by (rule next_meaningful_token_reads [OF n1])
  note r = next_token_reads [OF n2] next_token_reads [OF n3]
  have c2: "reads content p p2 t2" and c3: "reads content p p3 t3" using c1 r by (meson reads_trans)+
  show "reads content p p' t'"
    using assms c1 c2 c3 by (auto simp: unf split: if_splits intro: reads_error dest: oneof_variant_decl_reads(1))
  assume e: "e = Continue"
  have "st_type t1 \<noteq> TOKEN_EOF" using assms e by (auto simp: unf split: if_splits)
  moreover have "sp_offset p1 \<le> sp_offset p2" "sp_offset p1 \<le> sp_offset p3" using r by (auto simp: reads_def)
  then have "sp_offset p1 \<le> sp_offset p'"
    using assms by (auto simp: unf split: if_splits dest: oneof_variant_decl_reads(2))
  ultimately show "goes_forward content p p'"
    using c1 \<open>reads content p p' t'\<close> by (auto simp: reads_def goes_forward_def)
qed

function oneof_loop ::
  "struct_parser \<Rightarrow> string \<Rightarrow> string \<Rightarrow> oneof_state \<Rightarrow> bool \<times> struct_parser \<times> struct_token \<times> oneof_state" where
  "oneof_loop p content oneof_name st =
     (let (e, p', t', st') = oneof_step p content oneof_name st
      in if e = Continue then oneof_loop p' content oneof_name st' else (e = Break, p', t', st'))"
  by pat_completeness auto
termination
  by (relation "measure (\<lambda>(p, content, n, st). length content - sp_offset p)")
    (auto simp: goes_forward_def dest!: oneof_step_reads(2) [OF sym])

declare oneof_loop.simps [simp del]

fun reindex_variants :: "nat \<Rightarrow> oneof_variant list \<Rightarrow> oneof_variant list" where
  "reindex_variants i [] = []"
| "reindex_variants i (v # vs) = v\<lparr>ov_index := i\<rparr> # reindex_variants (i + 1) vs"

definition parse_oneof_body :: "struct_parser \<Rightarrow> string \<Rightarrow> int \<times> struct_parser \<times> struct_token" where
  "parse_oneof_body p content =
     (let (r, p1, t1, oneof_name, name_line, name_col) = parse_definition_head ''oneof'' p content
      in if r \<noteq> 0 then (r, p1, t1)
         else
           (let (ok, p2, t2, tag, vars, cnt, err) = oneof_loop p1 content oneof_name (''type'', [], 0, False)
            in if \<not> ok then (-1, p2, t2)
               else if cnt = 0 then
                 (-1, sp_error p2 (''oneof '' @ in_quotes (cstr oneof_name) @ '' has no variants''), t2)
               else
                 (let oc = \<lparr>oc_name = oneof_name, oc_tag_field = tag, oc_variants = reindex_variants 0 (rev vars),
                            oc_count = cnt, oc_name_line = name_line, oc_name_col = name_col, oc_filename = sp_name p\<rparr>;
                      (r3, p3) = register_top_level_item p2 oneof_name (Item_oneof oc)
                  in (if r3 \<noteq> 0 \<or> err then -1 else 0, p3, t2))))"

section \<open>Structs\<close>

text \<open>The loop over the fields; they are collected last one first.\<close>

function field_loop :: "struct_parser \<Rightarrow> string \<Rightarrow> struct_token \<Rightarrow> struct_field list \<Rightarrow> bool
    \<Rightarrow> fault + struct_parser \<times> struct_token \<times> struct_field list \<times> bool" where
  "field_loop p content t fds err =
     (if st_type t = TOKEN_RIGHT_BRACE \<or> st_type t = TOKEN_EOF \<or> st_type t = TOKEN_ERROR then Inr (p, t, fds, err)
      else
        bindE (struct_parse_field p content (struct_field_new [] FIELD_TYPE_INT [])) (\<lambda>(r, p1, t1, field).
          if r \<noteq> 0 then
            (let (p2, t2) = skip_to_semicolon p1 content t1 in field_loop p2 content t2 fds True)
          else if st_type t1 = TOKEN_RIGHT_BRACE then Inr (p1, t1, fds, err)
          else field_loop p1 content t1 (field # fds) err))"
  by pat_completeness auto
termination
  by (relation "measure (\<lambda>(p, content, t, fds, err). tokens_left content p t)")
    (auto simp: skip_to_semicolon_def intro: tokens_left_reads
      dest!: struct_parse_field_reads skip_to_separator_reads [OF sym])

declare field_loop.simps [simp del]

definition parse_struct_body ::
  "struct_parser \<Rightarrow> string \<Rightarrow> fault + int \<times> struct_parser \<times> struct_token \<times> struct_container option" where
  "parse_struct_body p content =
     (let (p1, t1) = next_token p content
      in if st_type t1 = TOKEN_EOF then Inr (0, p1, t1, None)
         else if st_type t1 \<noteq> TOKEN_IDENTIFY then Inr (-1, sp_error p1 (expected ''struct name'' t1), t1, None)
         else
           (let sct = \<lparr>sc_name = txt_of t1, sc_fields = [], sc_name_line = sp_line p1, sc_name_col = sp_col p1,
                       sc_filename = sp_name p1\<rparr>;
                (p2, t2) = next_token p1 content
            in if st_type t2 \<noteq> TOKEN_LEFT_BRACE then
                 Inr (-1, sp_error p2 (expected (in_quotes ''{'') t2), t2, Some sct)
               else
                 bindE (field_loop p2 content t2 [] False) (\<lambda>(p3, t3, fds, err).
                   Inr (if err then -1 else 0, p3, t3, Some (sct\<lparr>sc_fields := fds\<rparr>)))))"

definition parse_struct_definition :: "struct_parser \<Rightarrow> string \<Rightarrow> fault + int \<times> struct_parser \<times> struct_token" where
  "parse_struct_definition p content =
     bindE (parse_struct_body p content) (\<lambda>(r, p1, t1, body).
       if r \<noteq> 0 then Inr (r, p1, t1)
       else case body of
         None \<Rightarrow> Inr (0, p1, t1)
       | Some sct \<Rightarrow>
           (let (r2, p2) = register_top_level_item p1 (sc_name sct) (Item_struct (sct\<lparr>sc_fields := rev (sc_fields sct)\<rparr>))
            in Inr (if r2 \<noteq> 0 then -1 else 0, p2, t1)))"

section \<open>Files\<close>

text \<open>The files \<open>read_file\<close> can read, and whether messages go to a terminal.\<close>

record parse_env =
  pe_files :: "string \<Rightarrow> string option"
  pe_color :: bool

text \<open>The path of an included file: the directory of the current file, and the name as it is written.\<close>

definition include_path :: "string \<Rightarrow> string \<Rightarrow> string" where
  "include_path name filename = rev (dropWhile (\<lambda>c. c \<noteq> CHR ''/'') (rev name)) @ cstr filename"

text \<open>\<open>diag_print_all(parser->diag, stderr)\<close>.\<close>

definition print_diagnostics :: "parse_env \<Rightarrow> struct_parser \<Rightarrow> struct_parser" where
  "print_diagnostics env p = p\<lparr>sp_stderr := sp_stderr p @ diag_print_all (pe_color env) (sp_diag p)\<rparr>"

definition sub_parser_of :: "struct_parser \<Rightarrow> string \<Rightarrow> string \<Rightarrow> struct_parser" where
  "sub_parser_of p file sub_content = p\<lparr>sp_name := file, sp_line := 1, sp_col := 0, sp_offset := 0,
     sp_include_stack := file # sp_include_stack p, sp_diag := Some (diag_engine_new file (Some sub_content))\<rparr>"

text \<open>A parser of whole files: \<open>struct_parser_parse\<close>.\<close>

type_synonym file_parser = "struct_parser \<Rightarrow> string \<Rightarrow> fault + int \<times> struct_parser"

definition parse_include_directive ::
  "parse_env \<Rightarrow> file_parser \<Rightarrow> struct_parser \<Rightarrow> string \<Rightarrow> fault + int \<times> struct_parser \<times> struct_token" where
  "parse_include_directive env parse p content =
     (let (p1, t1) = next_token p content
      in if st_type t1 \<noteq> TOKEN_IDENTIFY \<or> \<not> is_word t1 ''include'' then
           Inr (JSON_GEN_ERROR_PARSE, sp_error p1 (expected (in_quotes ''include'' @ '' after '' @ in_quotes ''#'') t1), t1)
         else
           (let (p2, t2) = next_token p1 content; file = include_path (sp_name p2) (txt_of t2)
            in if st_type t2 \<noteq> TOKEN_STRING then
                 Inr (JSON_GEN_ERROR_PARSE, sp_error p2 (expected ''string file name'' t2), t2)
               else if file \<in> set (sp_include_stack p2) then
                 Inr (JSON_GEN_ERROR_PARSE,
                   sp_error p2 (''circular include detected: '' @ [CHR 0x22] @ file @ [CHR 0x22]), t2)
               else case pe_files env file of
                 None \<Rightarrow> Inr (JSON_GEN_ERROR_FILE_IO,
                   sp_error p2 (''include file '' @ [CHR 0x22] @ file @ [CHR 0x22] @ '' not found''), t2)
               | Some sub_content \<Rightarrow>
                   bindE (parse (sub_parser_of p2 file sub_content) sub_content) (\<lambda>(r, sub0).
                     (let sub = print_diagnostics env sub0
                      in Inr (if diag_has_errors (sp_diag sub) then JSON_GEN_ERROR_PARSE else r,
                           p2\<lparr>sp_struct_map := sp_struct_map sub, sp_enum_map := sp_enum_map sub,
                             sp_oneof_map := sp_oneof_map sub, sp_stderr := sp_stderr sub\<rparr>, t2)))))"

definition parse_top_level_item ::
  "parse_env \<Rightarrow> file_parser \<Rightarrow> struct_parser \<Rightarrow> string \<Rightarrow> struct_token \<Rightarrow> fault + int \<times> struct_parser \<times> struct_token" where
  "parse_top_level_item env parse p content t = (case top_level_item_kind_from_token t of
     TOP_LEVEL_ITEM_INCLUDE \<Rightarrow> parse_include_directive env parse p content
   | TOP_LEVEL_ITEM_STRUCT \<Rightarrow> parse_struct_definition p content
   | TOP_LEVEL_ITEM_ENUM \<Rightarrow> Inr (parse_enum_body p content)
   | TOP_LEVEL_ITEM_ONEOF \<Rightarrow> Inr (parse_oneof_body p content)
   | TOP_LEVEL_ITEM_INVALID \<Rightarrow> Inr (JSON_GEN_ERROR_PARSE,
       sp_error p (expected (in_quotes ''struct'' @ '', '' @ in_quotes ''enum'' @ '', '' @ in_quotes ''oneof'' @ '' or ''
         @ in_quotes ''#include'') t), t))"

end
