(* ===== verification/SchemaFile.thy ===== *)
theory SchemaFile
  imports SchemaParse
begin

text \<open>
  Whole schema files (\<open>struct_parser_parse\<close> of \<open>src/struct/struct_parse.c\<close>): the loop over the top-level items,
  the recursion through \<open>#include\<close>, and the invariant of the tables that every parsing function keeps.
\<close>

section \<open>The schema invariant\<close>

text \<open>
  Every table is sound, no name is defined twice, whatever its kind, and every definition is filed under
  its own name; the values of an enum and the variants of a oneof are numbered from 0 in their order.
\<close>

definition enum_ok :: "enum_container \<Rightarrow> bool" where
  "enum_ok e \<longleftrightarrow> ec_count e = length (ec_values e) \<and> map ev_index (ec_values e) = [0..<ec_count e]"

definition oneof_ok :: "oneof_container \<Rightarrow> bool" where
  "oneof_ok v \<longleftrightarrow> 0 < oc_count v \<and> oc_count v = length (oc_variants v) \<and> map ov_index (oc_variants v) = [0..<oc_count v]"

fun item_name :: "top_level_item \<Rightarrow> string" where
  "item_name (Item_struct s) = sc_name s"
| "item_name (Item_enum e) = ec_name e"
| "item_name (Item_oneof v) = oc_name v"

fun item_ok :: "top_level_item \<Rightarrow> bool" where
  "item_ok (Item_struct s) = True"
| "item_ok (Item_enum e) = enum_ok e"
| "item_ok (Item_oneof v) = oneof_ok v"

text \<open>The definitions of a parser, of all kinds.\<close>

definition schema_of :: "struct_parser \<Rightarrow> string \<Rightarrow> top_level_item option" where
  "schema_of p name = (case hm_abs (sp_struct_map p) name of
     Some s \<Rightarrow> Some (Item_struct s)
   | None \<Rightarrow> case hm_abs (sp_enum_map p) name of
       Some e \<Rightarrow> Some (Item_enum e)
     | None \<Rightarrow> map_option Item_oneof (hm_abs (sp_oneof_map p) name))"

definition names_disjoint :: "struct_parser \<Rightarrow> bool" where
  "names_disjoint p \<longleftrightarrow> dom (hm_abs (sp_struct_map p)) \<inter> dom (hm_abs (sp_enum_map p)) = {}
     \<and> dom (hm_abs (sp_struct_map p)) \<inter> dom (hm_abs (sp_oneof_map p)) = {}
     \<and> dom (hm_abs (sp_enum_map p)) \<inter> dom (hm_abs (sp_oneof_map p)) = {}"

definition tables_ok :: "struct_parser \<Rightarrow> bool" where
  "tables_ok p \<longleftrightarrow> hm_inv (sp_struct_map p) \<and> hm_inv (sp_enum_map p) \<and> hm_inv (sp_oneof_map p)
     \<and> names_disjoint p
     \<and> (\<forall>name item. schema_of p name = Some item \<longrightarrow> item_name item = name \<and> item_ok item)"

text \<open>The tables of \<open>p\<close> are those of \<open>q\<close>: all that the definitions depend on.\<close>

definition same_tables :: "struct_parser \<Rightarrow> struct_parser \<Rightarrow> bool" where
  "same_tables p q \<longleftrightarrow> sp_struct_map q = sp_struct_map p \<and> sp_enum_map q = sp_enum_map p \<and> sp_oneof_map q = sp_oneof_map p"

lemma schema_of_cong: "same_tables p q \<Longrightarrow> schema_of q = schema_of p"
  unfolding same_tables_def by (elim conjE) (rule ext, simp only: schema_of_def)

lemma tables_ok_cong: "same_tables p q \<Longrightarrow> tables_ok q \<longleftrightarrow> tables_ok p"
  by (simp add: tables_ok_def names_disjoint_def schema_of_cong) (simp add: same_tables_def)

lemma same_frame_tables: "same_frame p q \<Longrightarrow> same_tables p q"
  by (simp add: same_frame_def same_tables_def)

lemma map_has_abs: "hm_inv m \<Longrightarrow> map_has m name \<longleftrightarrow> hm_abs m name \<noteq> None"
  using hash_map_find_correct [of m name] by (auto simp: map_has_def hash_map_codes split: option.splits)

lemma tables_ok_new: "tables_ok struct_parser_new"
  by (simp add: tables_ok_def names_disjoint_def schema_of_def struct_parser_new_def sstr_map_new_inv STRUCT_MAP_BUCKET_SIZE_def)

lemma check_name_flags:
  fixes p :: struct_parser and name :: string
  defines "s \<equiv> map_has (sp_struct_map p) name" and "e \<equiv> map_has (sp_enum_map p) name" and "v \<equiv> map_has (sp_oneof_map p) name"
  assumes "kind \<noteq> TOP_LEVEL_ITEM_INVALID" and "kind \<noteq> TOP_LEVEL_ITEM_INCLUDE"
  shows "if \<not> s \<and> \<not> e \<and> \<not> v then check_top_level_name_available p name kind = (0, p)
     else fst (check_top_level_name_available p name kind) = -1
       \<and> snd (check_top_level_name_available p name kind) \<in> range (sp_error p)"
proof -
  have k: "in_table p kind name = (if kind = TOP_LEVEL_ITEM_STRUCT then s else if kind = TOP_LEVEL_ITEM_ENUM then e
      else if kind = TOP_LEVEL_ITEM_ONEOF then v else False)"
    by (cases kind) (simp_all add: s_def e_def v_def)
  show ?thesis
    unfolding check_top_level_name_available_def Let_def k s_def [symmetric] e_def [symmetric] v_def [symmetric]
    using assms(4,5) by (cases kind) simp_all
qed

lemma check_name_cases:
  assumes "tables_ok p" and "kind \<noteq> TOP_LEVEL_ITEM_INVALID" and "kind \<noteq> TOP_LEVEL_ITEM_INCLUDE"
  shows "if schema_of p name = None then check_top_level_name_available p name kind = (0, p)
     else fst (check_top_level_name_available p name kind) = -1
       \<and> snd (check_top_level_name_available p name kind) \<in> range (sp_error p)"
proof -
  have "hm_inv (sp_struct_map p)" "hm_inv (sp_enum_map p)" "hm_inv (sp_oneof_map p)"
    using assms(1) by (simp_all add: tables_ok_def)
  then have "schema_of p name = None \<longleftrightarrow> \<not> map_has (sp_struct_map p) name \<and> \<not> map_has (sp_enum_map p) name \<and> \<not> map_has (sp_oneof_map p) name"
    by (auto simp: map_has_abs schema_of_def split: option.splits)
  then show ?thesis using check_name_flags [OF assms(2,3), of p name] by (simp only:)
qed

lemma insert_item_schema:
  assumes p: "tables_ok p" and "schema_of p name = None" and "item_name item = name" and "item_ok item"
  shows "tables_ok (insert_item p name item)" and "schema_of (insert_item p name item) = (schema_of p)(name \<mapsto> item)"
proof -
  have inv: "hm_inv (sp_struct_map p)" "hm_inv (sp_enum_map p)" "hm_inv (sp_oneof_map p)"
    and new: "hm_abs (sp_struct_map p) name = None" "hm_abs (sp_enum_map p) name = None" "hm_abs (sp_oneof_map p) name = None"
    using assms(1,2) by (auto simp: tables_ok_def schema_of_def split: option.splits)
  have ins: "hm_inv (snd (hm_insert m name v)) \<and> hm_abs (snd (hm_insert m name v)) = (hm_abs m)(name \<mapsto> v)"
    if "hm_inv m" "hm_abs m name = None" for m :: "(string, 'v) hash_map" and v
    using hm_insert_correct [OF that(1), of name v] that(2) by auto
  show s: "schema_of (insert_item p name item) = (schema_of p)(name \<mapsto> item)"
    using new inv by (intro ext, cases item) (auto simp: schema_of_def ins split: option.splits)
  have "names_disjoint (insert_item p name item)"
    using p new inv by (cases item) (auto simp: tables_ok_def names_disjoint_def ins)
  moreover have "hm_inv (sp_struct_map (insert_item p name item)) \<and> hm_inv (sp_enum_map (insert_item p name item))
      \<and> hm_inv (sp_oneof_map (insert_item p name item))"
    using new inv by (cases item) (auto simp: ins)
  moreover have "schema_of (insert_item p name item) k = Some i \<Longrightarrow> item_name i = k \<and> item_ok i" for k i
    using p assms(3,4) unfolding s by (auto simp: tables_ok_def split: if_splits)
  ultimately show "tables_ok (insert_item p name item)" by (simp add: tables_ok_def)
qed

lemma register_top_level_item_cases:
  assumes "tables_ok p" and "item_name item = name" and "item_ok item"
  shows "if schema_of p name = None
     then \<exists>p'. register_top_level_item p name item = (0, p') \<and> tables_ok p' \<and> schema_of p' = (schema_of p)(name \<mapsto> item)
     else fst (register_top_level_item p name item) = -1 \<and> snd (register_top_level_item p name item) \<in> range (sp_error p)"
proof -
  have "item_kind item \<noteq> TOP_LEVEL_ITEM_INVALID" "item_kind item \<noteq> TOP_LEVEL_ITEM_INCLUDE" by (cases item; simp)+
  from check_name_cases [OF assms(1) this, of name] show ?thesis
    using insert_item_schema [OF assms(1) _ assms(2,3)]
    by (auto simp: register_top_level_item_def split: if_splits prod.splits)
qed

section \<open>Every parsing function keeps the invariant\<close>

definition goes_on :: "struct_parser \<Rightarrow> struct_parser \<Rightarrow> bool" where
  "goes_on p p' \<longleftrightarrow> sp_offset p \<le> sp_offset p' \<and> sp_name p' = sp_name p \<and> sp_include_stack p' = sp_include_stack p"

definition grows :: "struct_parser \<Rightarrow> struct_parser \<Rightarrow> bool" where
  "grows p p' \<longleftrightarrow> (tables_ok p \<longrightarrow> tables_ok p' \<and> schema_of p \<subseteq>\<^sub>m schema_of p')"

lemma goes_on_trans [trans]: "goes_on p q \<Longrightarrow> goes_on q r \<Longrightarrow> goes_on p r"
  by (simp add: goes_on_def)

lemma grows_trans [trans]: "grows p q \<Longrightarrow> grows q r \<Longrightarrow> grows p r"
  by (auto simp: grows_def intro: map_le_trans)

lemma grows_same: "same_tables p q \<Longrightarrow> grows p q"
  by (simp add: grows_def tables_ok_cong schema_of_cong)

lemma reads_moves: "reads content p p' t \<Longrightarrow> goes_on p p'" "reads content p p' t \<Longrightarrow> grows p p'"
  by (auto simp: reads_def goes_on_def same_frame_def intro!: grows_same same_frame_tables)

lemma error_moves: "goes_on p (sp_error p m)" "grows p (sp_error p m)"
  by (auto simp: goes_on_def same_tables_def intro: grows_same)

lemma insert_item_moves: "goes_on p (insert_item p name item)"
  by (cases item) (auto simp: goes_on_def)

lemma register_moves: "register_top_level_item p name item = (r, p') \<Longrightarrow> goes_on p p'"
  by (auto simp: register_top_level_item_def check_top_level_name_available_def Let_def
      insert_item_moves error_moves split: if_splits prod.splits)

lemma register_grows:
  assumes "register_top_level_item p name item = (r, p')" and "item_name item = name" and "item_ok item"
  shows "grows p p'"
  unfolding grows_def
proof
  assume p: "tables_ok p"
  note c = register_top_level_item_cases [OF p assms(2,3)]
  show "tables_ok p' \<and> schema_of p \<subseteq>\<^sub>m schema_of p'"
  proof (cases "schema_of p name = None")
    case True
    then have "tables_ok p' \<and> schema_of p' = (schema_of p)(name \<mapsto> item)" using c assms(1) by auto
    then show ?thesis using True by (auto simp: map_le_def)
  next
    case False
    then obtain m where "p' = sp_error p m" using c assms(1) by (auto simp: image_iff)
    then show ?thesis using error_moves(2) [of p m] p by (simp add: grows_def)
  qed
qed

lemma parse_definition_head_reads:
  "parse_definition_head what p content = (r, p', t', h) \<Longrightarrow> reads content p p' t'"
  by (auto simp: parse_definition_head_def Let_def split: prod.splits if_splits
      dest!: next_token_reads dest: parse_fail_reads intro: reads_trans)


lemma enum_value_loop_reads:
  "enum_value_loop p content n st = (ok, p', t', st') \<Longrightarrow> reads content p0 p t \<or> p0 = p \<Longrightarrow> reads content p0 p' t'"
proof (induction p content n st arbitrary: t rule: enum_value_loop.induct)
  case (1 p content n st)
  obtain e p1 t1 st1 where s: "enum_value_step p content n st = (e, p1, t1, st1)" by (rule prod_cases4)
  have "reads content p0 p1 t1" using enum_value_step_reads(1) [OF s] 1(3) by (auto intro: reads_trans)
  then show ?case
    using 1(1) [OF s [symmetric] refl refl] 1(2) s by (subst (asm) enum_value_loop.simps) (auto split: if_splits)
qed

lemma oneof_loop_reads:
  "oneof_loop p content n st = (ok, p', t', st') \<Longrightarrow> reads content p0 p t \<or> p0 = p \<Longrightarrow> reads content p0 p' t'"
proof (induction p content n st arbitrary: t rule: oneof_loop.induct)
  case (1 p content n st)
  obtain e p1 t1 st1 where s: "oneof_step p content n st = (e, p1, t1, st1)" by (rule prod_cases4)
  have "reads content p0 p1 t1" using oneof_step_reads(1) [OF s] 1(3) by (auto intro: reads_trans)
  then show ?case
    using 1(1) [OF s [symmetric] refl refl] 1(2) s by (subst (asm) oneof_loop.simps) (auto split: if_splits)
qed

lemma enum_value_step_count:
  "enum_value_step p content n st = (e, p', t', vals', cnt', err') \<Longrightarrow> fst (snd st) = length (fst st) \<Longrightarrow> cnt' = length vals'"
  by (cases st) (auto simp: enum_value_step_def enum_recover_def Let_def split: if_splits prod.splits)

lemma enum_value_loop_count:
  "enum_value_loop p content n st = (ok, p', t', vals', cnt', err') \<Longrightarrow> fst (snd st) = length (fst st) \<Longrightarrow> cnt' = length vals'"
proof (induction p content n st rule: enum_value_loop.induct)
  case (1 p content n st)
  obtain e p1 t1 vals1 cnt1 err1 where s: "enum_value_step p content n st = (e, p1, t1, vals1, cnt1, err1)" by (rule prod_cases6)
  have "cnt1 = length vals1"
    by (rule enum_value_step_count [OF s 1(3)])
  then show ?case
    using 1(1) [OF s [symmetric] refl refl] 1(2) s by (subst (asm) enum_value_loop.simps) (auto split: if_splits)
qed

lemma oneof_step_count:
  "oneof_step p content n st = (e, p', t', tag', vars', cnt', err') \<Longrightarrow> fst (snd (snd st)) = length (fst (snd st))
    \<Longrightarrow> cnt' = length vars'"
  by (cases st) (auto simp: oneof_step_def oneof_variant_decl_def oneof_recover_def Let_def split: if_splits prod.splits)

lemma oneof_loop_count:
  "oneof_loop p content n st = (ok, p', t', tag', vars', cnt', err') \<Longrightarrow> fst (snd (snd st)) = length (fst (snd st)) \<Longrightarrow> cnt' = length vars'"
proof (induction p content n st rule: oneof_loop.induct)
  case (1 p content n st)
  obtain e p1 t1 tag1 vars1 cnt1 err1 where s: "oneof_step p content n st = (e, p1, t1, tag1, vars1, cnt1, err1)" by (rule prod_cases7)
  have "cnt1 = length vars1"
    by (rule oneof_step_count [OF s 1(3)])
  then show ?case
    using 1(1) [OF s [symmetric] refl refl] 1(2) s by (subst (asm) oneof_loop.simps) (auto split: if_splits)
qed

lemma reindex_values_index: "map ev_index (reindex_values i vs) = [i..<i + length vs] \<and> length (reindex_values i vs) = length vs"
  by (induction vs arbitrary: i) (auto simp: upt_conv_Cons simp del: upt_Suc)

lemma reindex_variants_index: "map ov_index (reindex_variants i vs) = [i..<i + length vs] \<and> length (reindex_variants i vs) = length vs"
  by (induction vs arbitrary: i) (auto simp: upt_conv_Cons simp del: upt_Suc)

lemma parse_enum_body_keeps:
  assumes "parse_enum_body p content = (r, p', t')"
  shows "goes_on p p'" and "grows p p'"
proof -
  obtain r1 p1 t1 n l c where h: "parse_definition_head ''enum'' p content = (r1, p1, t1, n, l, c)" by (rule prod_cases6)
  obtain ok p2 t2 vals cnt err where b: "enum_value_loop p1 content n ([], 0, False) = (ok, p2, t2, vals, cnt, err)"
    by (rule prod_cases6)
  note r1 = parse_definition_head_reads [OF h]
  note r2 = enum_value_loop_reads [OF b disjI1, OF r1]
  let ?ec = "\<lparr>ec_name = n, ec_values = reindex_values 0 (rev vals), ec_count = cnt, ec_name_line = l, ec_name_col = c,
     ec_filename = sp_name p\<rparr>"
  obtain r3 p3 where g: "register_top_level_item p2 n (Item_enum ?ec) = (r3, p3)" by fastforce
  have "enum_ok ?ec"
    using enum_value_loop_count [OF b] reindex_values_index [of 0 "rev vals"] by (simp add: enum_ok_def)
  then have g': "goes_on p2 p3" "grows p2 p3" using register_moves [OF g] register_grows [OF g] by simp_all
  show "goes_on p p'" "grows p p'"
    using assms reads_moves [OF r1] reads_moves [OF r2] g' g
    by (auto simp: parse_enum_body_def h b Let_def split: if_splits intro: goes_on_trans grows_trans)
qed

lemma parse_oneof_body_keeps:
  assumes "parse_oneof_body p content = (r, p', t')"
  shows "goes_on p p'" and "grows p p'"
proof -
  obtain r1 p1 t1 n l c where h: "parse_definition_head ''oneof'' p content = (r1, p1, t1, n, l, c)" by (rule prod_cases6)
  obtain ok p2 t2 tag vars cnt err where b: "oneof_loop p1 content n (''type'', [], 0, False) = (ok, p2, t2, tag, vars, cnt, err)"
    by (rule prod_cases7)
  note r1 = parse_definition_head_reads [OF h]
  note r2 = oneof_loop_reads [OF b disjI1, OF r1]
  let ?oc = "\<lparr>oc_name = n, oc_tag_field = tag, oc_variants = reindex_variants 0 (rev vars), oc_count = cnt,
     oc_name_line = l, oc_name_col = c, oc_filename = sp_name p\<rparr>"
  obtain r3 p3 where g: "register_top_level_item p2 n (Item_oneof ?oc) = (r3, p3)" by fastforce
  have "cnt \<noteq> 0 \<Longrightarrow> oneof_ok ?oc"
    using oneof_loop_count [OF b] reindex_variants_index [of 0 "rev vars"] by (simp add: oneof_ok_def)
  then have g': "goes_on p2 p3" "cnt \<noteq> 0 \<Longrightarrow> grows p2 p3" using register_moves [OF g] register_grows [OF g] by simp_all
  show "goes_on p p'" "grows p p'"
    using assms reads_moves [OF r1] reads_moves [OF r2] g' g error_moves
    by (auto simp: parse_oneof_body_def h b Let_def split: if_splits intro: goes_on_trans grows_trans)
qed

lemma field_loop_reads:
  "field_loop p content t fs err = Inr (p', t', fs', err') \<Longrightarrow> reads content p0 p t \<Longrightarrow> reads content p0 p' t'"
proof (induction p content t fs err rule: field_loop.induct)
  case (1 p content t fs err)
  show ?case
  proof (cases "st_type t = TOKEN_RIGHT_BRACE \<or> st_type t = TOKEN_EOF \<or> st_type t = TOKEN_ERROR")
    case True
    then show ?thesis using 1(3,4) by (subst (asm) field_loop.simps) auto
  next
    case False
    then obtain r p1 t1 f where f: "struct_parse_field p content (struct_field_new [] FIELD_TYPE_INT []) = Inr (r, p1, t1, f)"
      using 1(3) by (subst (asm) field_loop.simps) (auto simp: bindE_Inr_conv)
    obtain p2 t2 where s: "skip_to_semicolon p1 content t1 = (p2, t2)" by fastforce
    have r1: "reads content p0 p1 t1" using 1(4) struct_parse_field_reads [OF f] by (rule reads_trans)
    have r2: "reads content p0 p2 t2" using skip_to_separator_reads [OF _ r1] s by (simp add: skip_to_semicolon_def)
    show ?thesis
      using 1(3) r1 r2 False s 1(1) [OF False f refl refl refl _ refl s [symmetric] _ r2] 1(2) [OF False f refl refl refl _ _ _ r1]
      by (subst (asm) field_loop.simps) (auto simp: f split: if_splits)
  qed
qed

lemma parse_struct_body_reads:
  assumes "parse_struct_body p content = Inr (r, p', t', body)"
  shows "reads content p p' t'"
proof -
  obtain p1 t1 where n1: "next_token p content = (p1, t1)" by fastforce
  obtain p2 t2 where n2: "next_token p1 content = (p2, t2)" by fastforce
  have c: "reads content p p1 t1" "reads content p p2 t2" using n1 n2 by (meson next_token_reads reads_trans)+
  show ?thesis using assms c
    by (auto simp: parse_struct_body_def n1 n2 Let_def bindE_Inr_conv split: if_splits
        intro: reads_error dest: field_loop_reads)
qed

lemma parse_struct_definition_keeps:
  assumes "parse_struct_definition p content = Inr (r, p', t')"
  shows "goes_on p p'" and "grows p p'"
proof -
  obtain r1 p1 t1 body where b: "parse_struct_body p content = Inr (r1, p1, t1, body)"
    using assms by (auto simp: parse_struct_definition_def bindE_Inr_conv)
  note r1 = reads_moves [OF parse_struct_body_reads [OF b]]
  have g: "goes_on p1 p2 \<and> grows p1 p2"
    if "register_top_level_item p1 (sc_name s) (Item_struct (s\<lparr>sc_fields := rev (sc_fields s)\<rparr>)) = (r2, p2)" for s r2 p2
    using register_moves [OF that] register_grows [OF that] by simp
  show "goes_on p p'" "grows p p'"
    using assms r1 by (auto simp: parse_struct_definition_def b split: if_splits option.splits prod.splits
        dest!: g intro: goes_on_trans grows_trans)
qed

text \<open>What an include needs of the parser of the included file.\<close>

definition keeps_tables :: "file_parser \<Rightarrow> bool" where
  "keeps_tables parse \<longleftrightarrow> (\<forall>p content r p'. parse p content = Inr (r, p') \<longrightarrow> grows p p')"

lemma parse_include_directive_moves:
  "parse_include_directive env parse p content = Inr (r, p', t') \<Longrightarrow> goes_on p p'"
  by (auto simp: parse_include_directive_def print_diagnostics_def goes_on_def bindE_Inr_conv Let_def reads_def same_frame_def
      split: prod.splits if_splits option.splits dest!: next_token_reads)

lemma parse_include_directive_grows:
  assumes "keeps_tables parse" and "parse_include_directive env parse p content = Inr (r, p', t')"
  shows "grows p p'"
proof -
  obtain p1 t1 where n1: "next_token p content = (p1, t1)" by fastforce
  obtain p2 t2 where n2: "next_token p1 content = (p2, t2)" by fastforce
  have c: "grows p p1" "grows p p2"
    using reads_moves(2) [OF next_token_reads [OF n1]] reads_moves(2) [OF next_token_reads [OF n2]] by (auto intro: grows_trans)
  note unf = parse_include_directive_def n1 n2
  show ?thesis
  proof (cases "\<exists>r sub c. parse (sub_parser_of p2 (include_path (sp_name p2) (txt_of t2)) c) c = Inr (r, sub)
      \<and> pe_files env (include_path (sp_name p2) (txt_of t2)) = Some c \<and> same_tables sub p'")
    case True
    then obtain r sub ct where sub: "parse (sub_parser_of p2 (include_path (sp_name p2) (txt_of t2)) ct) ct = Inr (r, sub)"
      "same_tables sub p'" by blast
    have "grows p2 (sub_parser_of p2 (include_path (sp_name p2) (txt_of t2)) ct)"
      by (rule grows_same) (simp add: same_tables_def sub_parser_of_def)
    also have "grows \<dots> sub" using assms(1) sub(1) by (simp add: keeps_tables_def)
    also have "grows sub p'" using sub(2) by (rule grows_same)
    finally show ?thesis using c(2) by (rule grows_trans [rotated])
  next
    case False
    then show ?thesis using assms(2) c error_moves(2)
      by (auto simp: unf Let_def print_diagnostics_def same_tables_def bindE_Inr_conv split: if_splits option.splits intro: grows_trans)
  qed
qed

lemma parse_top_level_item_moves:
  "parse_top_level_item env parse p content t = Inr (r, p', t') \<Longrightarrow> goes_on p p'"
  by (auto simp: parse_top_level_item_def error_moves split: top_level_item_kind.splits
      dest: parse_include_directive_moves parse_struct_definition_keeps parse_enum_body_keeps parse_oneof_body_keeps)

lemma parse_top_level_item_grows:
  "keeps_tables parse \<Longrightarrow> parse_top_level_item env parse p content t = Inr (r, p', t') \<Longrightarrow> grows p p'"
  by (auto simp: parse_top_level_item_def error_moves split: top_level_item_kind.splits
      dest: parse_include_directive_grows parse_struct_definition_keeps parse_enum_body_keeps parse_oneof_body_keeps)

section \<open>The loop over a file\<close>

lemma skip_to_top_level_reads: "skip_to_top_level p content = (p', t) \<Longrightarrow> reads content p p' t"
proof (induction p content rule: skip_to_top_level.induct)
  case (1 p content)
  obtain p1 t1 where n: "next_token p content = (p1, t1)" by fastforce
  show ?case using 1 n next_token_reads [OF n]
    by (subst (asm) (2) skip_to_top_level.simps) (auto split: if_splits dest: reads_trans)
qed

text \<open>The next token that starts an item, and whether tokens had to be skipped to find it.\<close>

definition next_item :: "struct_parser \<Rightarrow> string \<Rightarrow> bool \<times> struct_parser \<times> struct_token" where
  "next_item p content =
     (let (p1, t1) = next_meaningful_token p content
      in if st_type t1 = TOKEN_EOF then (False, p1, t1)
         else if top_level_item_kind_from_token t1 = TOP_LEVEL_ITEM_INVALID then
           (True, skip_to_top_level (sp_error p1 (expected (in_quotes ''struct'' @ '', '' @ in_quotes ''enum'' @ '', ''
              @ in_quotes ''oneof'' @ '' or '' @ in_quotes ''#include'') t1)) content)
         else (False, p1, t1))"

lemma next_item_reads: "next_item p content = (invalid, p', t) \<Longrightarrow> reads content p p' t"
  by (auto simp: next_item_def split: prod.splits if_splits
      dest!: next_meaningful_token_reads skip_to_top_level_reads dest: reads_error intro: reads_trans)

function parse_items ::
  "parse_env \<Rightarrow> file_parser \<Rightarrow> struct_parser \<Rightarrow> string \<Rightarrow> bool \<Rightarrow> fault + bool \<times> struct_parser" where
  "parse_items env parse p content had_error =
     (let (invalid, p1, t1) = next_item p content; err = had_error \<or> invalid
      in if st_type t1 = TOKEN_EOF then Inr (err, p1)
         else bindE (parse_top_level_item env parse p1 content t1) (\<lambda>(r, p2, t2).
           parse_items env parse p2 content (err \<or> r \<noteq> 0)))"
  by pat_completeness auto
termination
  by (relation "measure (\<lambda>(env, parse, p, content, had_error). length content - sp_offset p)")
    (auto simp: reads_def goes_on_def dest!: next_item_reads [OF sym] parse_top_level_item_moves)

declare parse_items.simps [simp del]

text \<open>
  \<open>struct_parser_parse\<close>. A parser without diagnostics gets an engine of its own and prints it; the sub-parser of
  an include comes with one. \<open>n\<close> bounds the depth of includes.
\<close>

primrec struct_parser_parse :: "nat \<Rightarrow> parse_env \<Rightarrow> file_parser" where
  "struct_parser_parse 0 env = (\<lambda>p content. Inl Stack_overflow)"
| "struct_parser_parse (Suc n) env = (\<lambda>p content.
     (let owns_diag = (sp_diag p = None);
          p1 = (if owns_diag then p\<lparr>sp_diag := Some (diag_engine_new (sp_name p) (Some content))\<rparr> else p)
      in bindE (parse_items env (struct_parser_parse n env) p1 content False) (\<lambda>(had_error, p2).
           (let p3 = (if owns_diag then print_diagnostics env p2 else p2)
            in Inr (if had_error \<or> diag_has_errors (sp_diag p3) then JSON_GEN_ERROR_PARSE else 0, p3)))))"

lemma parse_items_keeps:
  "parse_items env parse p content err = Inr (err', p') \<Longrightarrow> keeps_tables parse \<Longrightarrow> goes_on p p' \<and> grows p p'"
proof (induction env parse p content err rule: parse_items.induct)
  case (1 env parse p content err)
  obtain inv p1 t1 where n: "next_item p content = (inv, p1, t1)" by (rule prod_cases3)
  note m1 = reads_moves [OF next_item_reads [OF n]]
  show ?case
  proof (cases "st_type t1 = TOKEN_EOF")
    case True
    then show ?thesis using 1(2) m1 n by (subst (asm) parse_items.simps) auto
  next
    case False
    then obtain r p2 t2 where i: "parse_top_level_item env parse p1 content t1 = Inr (r, p2, t2)"
      and rest: "parse_items env parse p2 content ((err \<or> inv) \<or> r \<noteq> 0) = Inr (err', p')"
      using 1(2) n by (subst (asm) parse_items.simps) (auto simp: bindE_Inr_conv)
    have "goes_on p2 p' \<and> grows p2 p'"
      by (rule 1(1) [OF n [symmetric] refl refl refl False i refl refl rest 1(3)])
    then show ?thesis
      using m1 parse_top_level_item_moves [OF i] parse_top_level_item_grows [OF 1(3) i] by (auto intro: goes_on_trans grows_trans)
  qed
qed

lemma print_diagnostics_tables: "same_tables p (print_diagnostics env p)"
  by (simp add: print_diagnostics_def same_tables_def)

lemma struct_parser_parse_keeps: "keeps_tables (struct_parser_parse n env)"
proof (induction n)
  case (Suc n)
  show ?case unfolding keeps_tables_def
  proof (intro allI impI)
    fix p content r p'
    assume run: "struct_parser_parse (Suc n) env p content = Inr (r, p')"
    let ?q = "if sp_diag p = None then p\<lparr>sp_diag := Some (diag_engine_new (sp_name p) (Some content))\<rparr> else p"
    obtain err p2 where i: "parse_items env (struct_parser_parse n env) ?q content False = Inr (err, p2)"
      and "p' = (if sp_diag p = None then print_diagnostics env p2 else p2)"
      using run by (auto simp: bindE_Inr_conv Let_def split: if_splits)
    then have "grows p2 p'" by (auto intro: grows_same simp: print_diagnostics_tables) (simp add: grows_def)
    moreover have "grows p ?q" by (rule grows_same) (simp add: same_tables_def)
    ultimately show "grows p p'" using parse_items_keeps [OF i Suc.IH] by (blast intro: grows_trans)
  qed
qed (simp add: keeps_tables_def)

end
