(* ===== verification/SchemaPrint.thy ===== *)
theory SchemaPrint
  imports SchemaFile
begin

text \<open>
  Schemas as a person writes them: lexemes in any layout of blanks, and the declarations of fields, structs,
  enums and oneofs as lists of lexemes, with the definitions they stand for. The lemmas show that the parser reads
  them back; comments and includes do not occur here.
\<close>

section \<open>Lexemes\<close>

datatype lexeme = Word string | Number string | Quoted string | Angled string | Punct char

fun lex_str :: "lexeme \<Rightarrow> string" where
  "lex_str (Word s) = s"
| "lex_str (Number s) = s"
| "lex_str (Quoted s) = CHR 0x22 # s @ [CHR 0x22]"
| "lex_str (Angled s) = CHR ''<'' # s @ [CHR ''>'']"
| "lex_str (Punct c) = [c]"

definition ident :: "string \<Rightarrow> bool" where
  "ident s \<longleftrightarrow> (\<exists>c cs. s = c # cs \<and> is_ident_start c \<and> list_all is_ident_char cs)"

lemma ident_code [code]: "ident s \<longleftrightarrow> (case s of [] \<Rightarrow> False | c # cs \<Rightarrow> is_ident_start c \<and> list_all is_ident_char cs)"
  by (auto simp: ident_def split: list.splits)

fun lex_ok :: "lexeme \<Rightarrow> bool" where
  "lex_ok (Word s) \<longleftrightarrow> ident s"
| "lex_ok (Number s) \<longleftrightarrow> (case s of [] \<Rightarrow> False | c # cs \<Rightarrow>
     (if c = CHR ''-'' then cs \<noteq> [] \<and> is_digit (hd cs) else is_digit c) \<and> list_all is_number_char cs)"
| "lex_ok (Quoted s) \<longleftrightarrow> CHR 0x22 \<notin> set s"
| "lex_ok (Angled s) \<longleftrightarrow> CHR ''>'' \<notin> set s"
| "lex_ok (Punct c) \<longleftrightarrow> punct_token c \<noteq> None"

fun token_of :: "lexeme \<Rightarrow> struct_token" where
  "token_of (Word s) = \<lparr>st_type = TOKEN_IDENTIFY, st_txt = Some s\<rparr>"
| "token_of (Number s) = \<lparr>st_type = (if CHR ''.'' \<in> set s then TOKEN_FLOAT else TOKEN_INTEGER), st_txt = Some s\<rparr>"
| "token_of (Quoted s) = \<lparr>st_type = TOKEN_STRING, st_txt = Some s\<rparr>"
| "token_of (Angled s) = \<lparr>st_type = TOKEN_STRING, st_txt = Some s\<rparr>"
| "token_of (Punct c) = \<lparr>st_type = the (punct_token c), st_txt = None\<rparr>"

definition is_blank :: "char \<Rightarrow> bool" where
  "is_blank c \<longleftrightarrow> c \<in> {CHR '' '', CHR 0x09, CHR 0x0D, CHR 0x0A}"

text \<open>A layout gives every lexeme the blanks in front of it, at least one; blanks may follow the last one.\<close>

type_synonym layout = "(string \<times> lexeme) list \<times> string"

fun layout_ok :: "layout \<Rightarrow> bool" where
  "layout_ok (lay, end') \<longleftrightarrow> list_all (\<lambda>(w, l). w \<noteq> [] \<and> list_all is_blank w \<and> lex_ok l) lay \<and> list_all is_blank end'"

fun render :: "layout \<Rightarrow> string" where
  "render (lay, end') = concat (map (\<lambda>(w, l). w @ lex_str l) lay) @ end'"

definition lexemes :: "layout \<Rightarrow> lexeme list" where
  "lexemes lay = map snd (fst lay)"

section \<open>The tokenizer reads lexemes\<close>

lemma blank_class:
  assumes "is_blank c"
  shows "punct_token c = None" "quote_end c = None" "c \<noteq> CHR ''/''" "c \<noteq> CHR ''-''" "\<not> is_ident_char c" "\<not> is_number_char c"
  using assms by (auto simp: is_blank_def punct_token_def quote_end_def is_ident_char_def is_ident_start_def is_digit_def is_number_char_def)

lemma token_loop_blank:
  assumes "i < length content" and "is_blank (content ! i)"
  shows "\<exists>l c. token_loop content i off line col = token_loop content (i + 1) i l c"
  using assms blank_class [OF assms(2)] by (subst token_loop.simps) (auto simp: Let_def is_blank_def)

lemma token_loop_blanks:
  "drop i content = w @ s \<Longrightarrow> list_all is_blank w \<Longrightarrow> \<exists>off' l c. token_loop content i off line col = token_loop content (i + length w) off' l c \<and> (w = [] \<longrightarrow> off' = off) \<and> (w \<noteq> [] \<longrightarrow> off' = i + length w - 1)"
proof (induction w arbitrary: i off line col)
  case (Cons b w)
  have i: "i < length content" using Cons.prems(1) by (metis append_Cons drop_all leI list.distinct(1))
  then have b: "content ! i = b" "drop (i + 1) content = w @ s"
    using Cons.prems(1) by (metis append_Cons Cons_nth_drop_Suc list.inject, metis append_Cons Cons_nth_drop_Suc list.inject Suc_eq_plus1)
  obtain l c where "token_loop content i off line col = token_loop content (i + 1) i l c"
    using token_loop_blank [OF i, of off line col] b(1) Cons.prems(2) by auto
  moreover obtain off' l' c' where "token_loop content (i + 1) i l c = token_loop content (i + 1 + length w) off' l' c'"
    "w = [] \<longrightarrow> off' = i" "w \<noteq> [] \<longrightarrow> off' = i + 1 + length w - 1"
    using Cons.IH [OF b(2)] Cons.prems(2) by (metis list.pred_inject(2))
  ultimately show ?case by (intro exI [of _ off'] exI [of _ l'] exI [of _ c']) auto
qed auto

lemma run_length:
  assumes "list_all P s" and "rest = [] \<or> \<not> P (hd rest)"
  shows "takeWhile P (s @ rest) = s"
  using span_append [of s P rest] assms by (simp add: list_all_iff)

text \<open>One equation of the tokenizer per kind of lexeme.\<close>

definition special_chars :: "char list" where
  "special_chars = ''@=#{}[];,<>/- '' @ [CHR 0x22, CHR 0x09, CHR 0x0D, CHR 0x0A]"

lemma not_special:
  assumes "c \<notin> set special_chars"
  shows "punct_token c = None" "quote_end c = None" "c \<noteq> CHR ''/''" "c \<noteq> CHR ''-''" "c \<noteq> CHR '' ''" "c \<noteq> CHR 0x09"
    "c \<noteq> CHR 0x0D" "c \<noteq> CHR 0x0A"
  using assms by (simp_all add: special_chars_def punct_token_def quote_end_def)

lemma ident_start_class: "is_ident_start c \<Longrightarrow> c \<notin> set special_chars \<and> \<not> is_digit c"
proof
  have "\<forall>x\<in>set special_chars. \<not> is_ident_start x" by (simp add: special_chars_def is_ident_start_def)
  then show "is_ident_start c \<Longrightarrow> c \<notin> set special_chars" by blast
  assume "is_ident_start c"
  then have "65 \<le> ord c" unfolding is_ident_start_def by (elim disjE) simp_all
  then show "\<not> is_digit c" by (simp add: is_digit_def)
qed

lemma digit_class: "is_digit c \<Longrightarrow> c \<notin> set special_chars"
proof -
  have "\<forall>x\<in>set special_chars. \<not> is_digit x" by (simp add: special_chars_def is_digit_def)
  then show "is_digit c \<Longrightarrow> c \<notin> set special_chars" by blast
qed

lemma token_loop_ident:
  assumes "i < length content" and "is_ident_start (content ! i)" and "takeWhile is_ident_char (drop i content) = s"
  shows "\<exists>ln c. token_loop content i off line col = (TOKEN_IDENTIFY, Some s, ln, c, i + length s)"
proof -
  note c = ident_start_class [OF assms(2)]
  show ?thesis using assms c not_special [OF conjunct1 [OF c]] by (subst token_loop.simps) (simp add: Let_def)
qed

lemma token_loop_digits:
  "i < length content \<Longrightarrow> is_digit (content ! i) \<Longrightarrow> takeWhile is_number_char (drop i content) = s
    \<Longrightarrow> \<exists>ln c. token_loop content i off line col
       = (if CHR ''.'' \<in> set s then TOKEN_FLOAT else TOKEN_INTEGER, Some s, ln, c, i + length s)"
  by (subst token_loop.simps) (simp add: Let_def not_special [OF digit_class])

lemma token_loop_minus:
  "i < length content \<Longrightarrow> content ! i = CHR ''-'' \<Longrightarrow> Suc i < length content \<Longrightarrow> is_digit (content ! Suc i)
    \<Longrightarrow> takeWhile is_number_char (drop (Suc i) content) = s
    \<Longrightarrow> \<exists>ln c. token_loop content i off line col
       = (if CHR ''.'' \<in> set s then TOKEN_FLOAT else TOKEN_INTEGER, Some (CHR ''-'' # s), ln, c, Suc (i + length s))"
  by (subst token_loop.simps) (simp add: Let_def punct_token_def quote_end_def)

lemma token_loop_quoted:
  "i < length content \<Longrightarrow> quote_end (content ! i) = Some q \<Longrightarrow> takeWhile (\<lambda>x. x \<noteq> q) (drop (Suc i) content) = s
    \<Longrightarrow> Suc i + length s < length content
    \<Longrightarrow> \<exists>ln c. token_loop content i off line col = (TOKEN_STRING, Some s, ln, c, Suc (Suc (i + length s)))"
  by (subst token_loop.simps) (auto simp add: Let_def punct_token_def quote_end_def split: if_splits)

lemma token_loop_punct:
  "i < length content \<Longrightarrow> punct_token (content ! i) = Some tk
    \<Longrightarrow> \<exists>ln c. token_loop content i off line col = (tk, None, ln, c, Suc i)"
  by (subst token_loop.simps) (simp add: Let_def)

lemma takeWhile_quote: "q \<notin> set s \<Longrightarrow> takeWhile (\<lambda>x. x \<noteq> q) (s @ q # r) = s"
  by (induction s) auto

lemma token_loop_lexeme:
  assumes d: "drop i content = lex_str l @ rest" and ok: "lex_ok l" and rest: "rest = [] \<or> is_blank (hd rest)"
  shows "\<exists>ln c. token_loop content i off line col = (st_type (token_of l), st_txt (token_of l), ln, c, i + length (lex_str l))"
proof -
  obtain c cs where l: "lex_str l = c # cs" using ok by (cases l) (auto simp: ident_def split: list.splits)
  have i: "i < length content" using d l by (metis append_Cons drop_all leI list.distinct(1))
  have c: "content ! i = c" "drop (Suc i) content = cs @ rest"
    using d l i by (metis append_Cons Cons_nth_drop_Suc list.inject)+
  have len: "length content = Suc (i + length cs + length rest)"
    using arg_cong [OF d, of length] l i by simp
  have ends: "rest = [] \<or> \<not> is_ident_char (hd rest)" "rest = [] \<or> \<not> is_number_char (hd rest)" using rest blank_class by auto
  show ?thesis
  proof (cases l)
    case (Word s)
    then have s: "s = c # cs" "is_ident_start c" "list_all is_ident_char s"
      using ok l by (auto simp: ident_def is_ident_char_def)
    have "takeWhile is_ident_char (drop i content) = s" using run_length [OF s(3) ends(1)] d Word by simp
    then show ?thesis using token_loop_ident [OF i] s(2) c(1) Word by simp
  next
    case (Number s)
    show ?thesis
    proof (cases "c = CHR ''-''")
      case True
      then have s: "s = CHR ''-'' # cs" "list_all is_number_char cs" "cs \<noteq> []" "is_digit (hd cs)"
        using ok l Number by auto
      have t: "takeWhile is_number_char (drop (Suc i) content) = cs" using run_length [OF s(2) ends(2)] c by simp
      have dg: "Suc i < length content" using len s(3) by (cases cs) auto
      then have "content ! Suc i = hd cs" using c(2) s(3) by (metis hd_append2 hd_drop_conv_nth)
      then show ?thesis using token_loop_minus [OF i _ dg _ t] s c(1) Number True by simp
    next
      case False
      then have s: "list_all is_number_char s" "is_digit c"
        using ok l Number by (auto simp: is_number_char_def)
      have "takeWhile is_number_char (drop i content) = s" using run_length [OF s(1) ends(2)] d Number by simp
      then show ?thesis using token_loop_digits [OF i] s(2) c(1) Number by simp
    qed
  next
    case (Quoted s)
    then show ?thesis using token_loop_quoted [OF i, of "CHR 0x22" s] ok l c len takeWhile_quote [of _ s rest]
      by (auto simp: quote_end_def)
  next
    case (Angled s)
    then have "quote_end (content ! i) = Some (CHR ''>'')" using c(1) l by (auto simp: quote_end_def)
    then show ?thesis using Angled token_loop_quoted [OF i, of "CHR ''>''" s] ok l c len takeWhile_quote [of _ s rest] by auto
  next
    case (Punct x)
    then show ?thesis using token_loop_punct [OF i] ok l c by auto
  qed
qed

section \<open>Streams of lexemes\<close>

text \<open>The lexemes \<open>ls\<close> are what the parser has still to read; it has only moved.\<close>

definition stream :: "string \<Rightarrow> struct_parser \<Rightarrow> lexeme list \<Rightarrow> bool" where
  "stream content p ls \<longleftrightarrow> sp_offset p \<le> length content
     \<and> (\<exists>lay. layout_ok lay \<and> drop (sp_offset p) content = render lay \<and> lexemes lay = ls)"

definition moved :: "struct_parser \<Rightarrow> struct_parser \<Rightarrow> bool" where
  "moved p p' \<longleftrightarrow> same_frame p p' \<and> sp_diag p' = sp_diag p"

lemma moved_trans [trans]: "moved p q \<Longrightarrow> moved q r \<Longrightarrow> moved p r"
  by (simp add: moved_def same_frame_def)

lemma moved_refl [simp]: "moved p p"
  by (simp add: moved_def same_frame_def)

lemma moved_simps:
  assumes "moved p p'"
  shows "sp_struct_map p' = sp_struct_map p" "sp_enum_map p' = sp_enum_map p" "sp_oneof_map p' = sp_oneof_map p"
    "sp_name p' = sp_name p" "sp_diag p' = sp_diag p" "sp_include_stack p' = sp_include_stack p" "sp_stderr p' = sp_stderr p"
  using assms by (simp_all add: moved_def same_frame_def)

lemma render_starts_blank: "layout_ok lay \<Longrightarrow> render lay = [] \<or> is_blank (hd (render lay))"
proof (cases lay)
  case (Pair xs e)
  assume "layout_ok lay"
  then show ?thesis using Pair by (cases xs; cases e) (auto simp: neq_Nil_conv)
qed

lemma token_of_no_error: "lex_ok l \<Longrightarrow> st_type (token_of l) \<noteq> TOKEN_ERROR \<and> st_type (token_of l) \<noteq> TOKEN_EOF"
  by (cases l) (auto simp: punct_token_def split: if_splits)

lemma next_lexeme:
  assumes "stream content p (l # ls)"
  shows "\<exists>p'. next_token p content = (p', token_of l) \<and> stream content p' ls \<and> moved p p'"
proof -
  obtain w xs e where lay: "layout_ok ((w, l) # xs, e)" "drop (sp_offset p) content = w @ lex_str l @ render (xs, e)"
    "map snd xs = ls" "sp_offset p \<le> length content"
    using assms by (auto simp: stream_def lexemes_def)
  let ?i = "sp_offset p" and ?j = "sp_offset p + length w"
  have w: "list_all is_blank w" "w \<noteq> []" "lex_ok l" "layout_ok (xs, e)" using lay(1) by auto
  have i: "?i < length content" using lay(2) w(2) by (metis append_is_Nil_conv drop_all leI)
  have d: "drop ?j content = lex_str l @ render (xs, e)"
    using lay(2) by (metis add.commute append_eq_conv_conj drop_drop)
  obtain off' ln col where b: "token_loop content ?i ?i (sp_line p) (sp_col p) = token_loop content ?j off' ln col"
    using token_loop_blanks [OF lay(2) w(1)] by blast
  obtain ln' col' where t: "token_loop content ?j off' ln col = (st_type (token_of l), st_txt (token_of l), ln', col', ?j + length (lex_str l))"
    using token_loop_lexeme [OF d w(3) render_starts_blank [OF w(4)]] by blast
  let ?p' = "p\<lparr>sp_line := ln', sp_col := col', sp_offset := ?j + length (lex_str l)\<rparr>"
  have "next_token p content = (?p', token_of l)"
    using i b t token_of_no_error [OF w(3)] by (simp add: next_token_def next_token_raw_def ptoken_diag_def)
  moreover have "drop (?j + length (lex_str l)) content = render (xs, e)"
    using d by (metis add.commute append_eq_conv_conj drop_drop)
  moreover have "?j + length (lex_str l) \<le> length content" using arg_cong [OF lay(2), of length] i by simp
  then have "stream content ?p' ls"
    unfolding stream_def using w(4) lay(3) calculation(2) by (auto simp: lexemes_def intro!: exI [of _ xs] exI [of _ e])
  moreover have "moved p ?p'" by (simp add: moved_def same_frame_def)
  ultimately show ?thesis by blast
qed

lemma next_end:
  assumes "stream content p []"
  shows "\<exists>p' t. next_token p content = (p', t) \<and> st_type t = TOKEN_EOF \<and> moved p p'"
proof -
  obtain e where lay: "list_all is_blank e" "drop (sp_offset p) content = e @ []" "sp_offset p \<le> length content"
    using assms by (auto simp: stream_def lexemes_def)
  let ?i = "sp_offset p"
  show ?thesis
  proof (cases "?i \<ge> length content")
    case True
    have "moved p (p\<lparr>sp_offset := sp_offset p + 1\<rparr>)" by (simp add: moved_def same_frame_def)
    then show ?thesis using True by (simp add: next_token_def next_token_raw_def ptoken_diag_def)
  next
    case False
    obtain off' ln col where b: "token_loop content ?i ?i (sp_line p) (sp_col p) = token_loop content (?i + length e) off' ln col"
      using token_loop_blanks [OF lay(2,1)] by blast
    have "length content \<le> ?i + length e" using arg_cong [OF lay(2), of length] by simp
    then have "token_loop content (?i + length e) off' ln col = (TOKEN_EOF, None, ln, col, off')"
      by (subst token_loop.simps) simp
    moreover have "moved p (p\<lparr>sp_line := ln, sp_col := col, sp_offset := off'\<rparr>)" by (simp add: moved_def same_frame_def)
    ultimately show ?thesis using False b by (simp add: next_token_def next_token_raw_def ptoken_diag_def)
  qed
qed

lemma stream_start: "layout_ok lay \<Longrightarrow> sp_offset p = 0 \<Longrightarrow> stream (render lay) p (lexemes lay)"
  unfolding stream_def by (intro conjI exI [of _ lay]) simp_all

section \<open>Declarations of fields\<close>

datatype type_ref = Named string | Map_of string
datatype array_decl = No_array | Dynamic_array | Sized_array nat

record field_decl =
  dc_json :: "string option"
  dc_deprecated :: bool
  dc_optional :: bool
  dc_nullable :: bool
  dc_type :: type_ref
  dc_name :: string
  dc_array :: array_decl
  dc_default :: "lexeme option"

definition punct :: "char \<Rightarrow> lexeme list" where "punct c = [Punct c]"

fun json_lexemes :: "string option \<Rightarrow> lexeme list" where
  "json_lexemes None = []"
| "json_lexemes (Some s) = [Punct (CHR ''@''), Word ''json'', Quoted s]"

definition deprecated_lexemes :: "bool \<Rightarrow> lexeme list" where
  "deprecated_lexemes b = (if b then [Punct (CHR ''@''), Word ''deprecated''] else [])"

definition modifier_lexemes :: "bool \<Rightarrow> bool \<Rightarrow> lexeme list" where
  "modifier_lexemes opt nul = (if opt then [Word ''optional''] else []) @ (if nul then [Word ''nullable''] else [])"

fun type_lexemes :: "type_ref \<Rightarrow> lexeme list" where
  "type_lexemes (Named n) = [Word n]"
| "type_lexemes (Map_of v) = [Word ''map'', Angled (''sstr_t, '' @ v)]"

fun array_lexemes :: "array_decl \<Rightarrow> lexeme list" where
  "array_lexemes No_array = []"
| "array_lexemes Dynamic_array = [Punct (CHR ''[''), Punct (CHR '']'')]"
| "array_lexemes (Sized_array n) = [Punct (CHR ''[''), Number (dec_str n), Punct (CHR '']'')]"

fun default_lexemes :: "lexeme option \<Rightarrow> lexeme list" where
  "default_lexemes None = []"
| "default_lexemes (Some l) = [Punct (CHR ''=''), l]"

definition field_lexemes :: "field_decl \<Rightarrow> lexeme list" where
  "field_lexemes d = json_lexemes (dc_json d) @ deprecated_lexemes (dc_deprecated d)
     @ modifier_lexemes (dc_optional d) (dc_nullable d) @ type_lexemes (dc_type d) @ [Word (dc_name d)]
     @ array_lexemes (dc_array d) @ default_lexemes (dc_default d) @ [Punct (CHR '';'')]"

text \<open>What a type name means where a schema has been read.\<close>

type_synonym symbols = "string \<Rightarrow> top_level_item option"

definition type_in :: "symbols \<Rightarrow> string \<Rightarrow> field_type" where
  "type_in sch name = (case lookup_primitive_type name of
     Some ty \<Rightarrow> ty
   | None \<Rightarrow> (case sch name of Some (Item_enum _) \<Rightarrow> FIELD_TYPE_ENUM | Some (Item_oneof _) \<Rightarrow> FIELD_TYPE_ONEOF
       | _ \<Rightarrow> FIELD_TYPE_STRUCT))"

text \<open>A oneof is not known as a map value; the validation refuses it.\<close>

definition value_type_in :: "symbols \<Rightarrow> string \<Rightarrow> field_type" where
  "value_type_in sch name = (if type_in sch name = FIELD_TYPE_ONEOF then FIELD_TYPE_STRUCT else type_in sch name)"

definition c_type_name :: "field_type \<Rightarrow> string \<Rightarrow> string" where
  "c_type_name ty name = (if ty = FIELD_TYPE_BOOL then ''int'' else name)"

fun array_size_of :: "array_decl \<Rightarrow> int" where
  "array_size_of (Sized_array n) = int n"
| "array_size_of _ = 0"

fun lexeme_text :: "lexeme \<Rightarrow> string" where
  "lexeme_text (Word s) = s"
| "lexeme_text (Number s) = s"
| "lexeme_text (Quoted s) = s"
| "lexeme_text (Angled s) = s"
| "lexeme_text (Punct c) = [c]"

definition field_of :: "symbols \<Rightarrow> field_decl \<Rightarrow> struct_field" where
  "field_of sch d = \<lparr>fd_name = dc_name d,
     fd_type = (case dc_type d of Named n \<Rightarrow> type_in sch n | Map_of v \<Rightarrow> FIELD_TYPE_MAP),
     fd_is_array = (dc_array d \<noteq> No_array), fd_array_size = array_size_of (dc_array d),
     fd_type_name = (case dc_type d of Named n \<Rightarrow> c_type_name (type_in sch n) n | Map_of v \<Rightarrow> ''map''),
     fd_map_value_type = (case dc_type d of Named n \<Rightarrow> FIELD_TYPE_INT | Map_of v \<Rightarrow> value_type_in sch v),
     fd_map_value_type_name = (case dc_type d of Named n \<Rightarrow> None | Map_of v \<Rightarrow> Some (c_type_name (value_type_in sch v) v)),
     fd_is_optional = dc_optional d, fd_is_nullable = dc_nullable d, fd_json_name = dc_json d,
     fd_default_value = map_option lexeme_text (dc_default d), fd_has_default = (dc_default d \<noteq> None),
     fd_is_deprecated = dc_deprecated d, fd_line = 0, fd_col = 0\<rparr>"

definition unplaced_field :: "struct_field \<Rightarrow> struct_field" where
  "unplaced_field f = f\<lparr>fd_line := 0, fd_col := 0\<rparr>"

text \<open>Names are identifiers and not reserved ones, sizes fit an \<open>int\<close>, and a default value is a literal of a scalar.\<close>

fun literal :: "lexeme \<Rightarrow> bool" where
  "literal (Punct c) = False"
| "literal _ = True"

definition reserved :: "string list" where
  "reserved = [''struct'', ''map'', ''optional'', ''nullable'']"

definition field_decl_ok :: "symbols \<Rightarrow> field_decl \<Rightarrow> bool" where
  "field_decl_ok sch d \<longleftrightarrow> ident (dc_name d)
     \<and> (case dc_type d of Named n \<Rightarrow> ident n \<and> n \<notin> set reserved | Map_of v \<Rightarrow> ident v)
     \<and> (case dc_array d of Sized_array n \<Rightarrow> 0 < n \<and> n < 2 ^ 31 | _ \<Rightarrow> True)
     \<and> (case dc_default d of None \<Rightarrow> True
        | Some l \<Rightarrow> literal l \<and> dc_array d = No_array \<and> fd_type (field_of sch d) \<notin> {FIELD_TYPE_MAP, FIELD_TYPE_STRUCT})"

section \<open>A field is read back\<close>

lemma is_word_Word: "NUL \<notin> set w \<Longrightarrow> is_word (token_of (Word s)) w \<longleftrightarrow> s = w"
  by (simp add: is_word_def sstr_compare_c_eq_0 cstr_whole)

lemma ident_no_NUL: "ident s \<Longrightarrow> NUL \<notin> set s"
proof -
  assume "ident s"
  then have "\<forall>c\<in>set s. is_ident_char c" by (auto simp: ident_def is_ident_char_def list_all_iff)
  moreover have "\<not> is_ident_char NUL" by (simp add: is_ident_char_def is_ident_start_def is_digit_def)
  ultimately show "NUL \<notin> set s" by blast
qed

lemma type_in_tables:
  "tables_ok p \<Longrightarrow> field_type_of p name = type_in (schema_of p) name"
  "tables_ok p \<Longrightarrow> map_value_type_of p name = value_type_in (schema_of p) name"
proof -
  assume p: "tables_ok p"
  then have inv: "hm_inv (sp_struct_map p)" "hm_inv (sp_enum_map p)" "hm_inv (sp_oneof_map p)" "names_disjoint p"
    by (simp_all add: tables_ok_def)
  have prim: "lookup_primitive_type name \<noteq> Some FIELD_TYPE_ONEOF"
    by (auto simp: lookup_primitive_type_def type_table_def)
  have enum: "hm_abs (sp_struct_map p) name = None" if "hm_abs (sp_enum_map p) name \<noteq> None"
    using inv(4) that by (auto simp: names_disjoint_def)
  have oneof: "hm_abs (sp_struct_map p) name = None" "hm_abs (sp_enum_map p) name = None" if "hm_abs (sp_oneof_map p) name \<noteq> None"
    using inv(4) that by (auto simp: names_disjoint_def)
  show "field_type_of p name = type_in (schema_of p) name"
    using enum oneof
    by (auto simp: field_type_of_def type_in_def map_has_abs inv(1-3) schema_of_def split: option.splits)
  show "map_value_type_of p name = value_type_in (schema_of p) name"
    using enum oneof prim
    by (auto simp: map_value_type_of_def value_type_in_def type_in_def map_has_abs inv(1-3) schema_of_def split: option.splits)
qed

text \<open>The current token of a stream, and the rest.\<close>

definition current :: "string \<Rightarrow> struct_parser \<Rightarrow> struct_token \<Rightarrow> lexeme list \<Rightarrow> bool" where
  "current content p t ls \<longleftrightarrow> (\<exists>l ls'. ls = l # ls' \<and> t = token_of l \<and> stream content p ls')"

lemma next_current: "stream content p ls \<Longrightarrow> ls \<noteq> [] \<Longrightarrow> \<exists>p' t'. next_token p content = (p', t') \<and> current content p' t' ls \<and> moved p p'"
  using next_lexeme [of content p "hd ls" "tl ls"] by (cases ls) (auto simp: current_def)

lemma current_Cons: "current content p t (l # ls) \<longleftrightarrow> t = token_of l \<and> stream content p ls"
  by (auto simp: current_def)

lemma annotations_read:
  assumes "current content p t (json_lexemes j @ deprecated_lexemes d @ l # ls)" and "st_type (token_of l) \<noteq> TOKEN_AT"
  shows "\<exists>p'. field_annotations p content t f = (0, p', token_of l, f\<lparr>fd_json_name := (if j = None then fd_json_name f else j),
      fd_is_deprecated := (d \<or> fd_is_deprecated f)\<rparr>) \<and> stream content p' ls \<and> moved p p'"
proof -
  have dep: "\<exists>p'. field_annotations p content t f = (0, p', token_of l, f\<lparr>fd_is_deprecated := (d \<or> fd_is_deprecated f)\<rparr>)
      \<and> stream content p' ls \<and> moved p p'" if c: "current content p t (deprecated_lexemes d @ l # ls)" for p t f
  proof (cases d)
    case False
    then show ?thesis using c assms(2) by (subst field_annotations.simps) (auto simp: deprecated_lexemes_def current_Cons)
  next
    case True
    then have t: "t = token_of (Punct (CHR ''@''))" "stream content p (Word ''deprecated'' # l # ls)"
      using c by (auto simp: deprecated_lexemes_def current_Cons)
    obtain p1 where n1: "next_token p content = (p1, token_of (Word ''deprecated''))" "stream content p1 (l # ls)" "moved p p1"
      using next_lexeme [OF t(2)] by blast
    obtain p2 where n2: "next_token p1 content = (p2, token_of l)" "stream content p2 ls" "moved p1 p2"
      using next_lexeme [OF n1(2)] by blast
    have "is_word (token_of (Word ''deprecated'')) ''deprecated''" "\<not> is_word (token_of (Word ''deprecated'')) ''json''"
      by (subst is_word_Word; simp)+
    then have "field_annotations p content t f = field_annotations p2 content (token_of l) (f\<lparr>fd_is_deprecated := True\<rparr>)"
      using t(1) n1(1) n2(1) by (subst field_annotations.simps) (simp add: punct_token_def)
    also have "\<dots> = (0, p2, token_of l, f\<lparr>fd_is_deprecated := True\<rparr>)"
      using assms(2) by (subst field_annotations.simps) simp
    finally show ?thesis using True n1(3) n2 by (auto intro: moved_trans)
  qed
  show ?thesis
  proof (cases j)
    case None
    then show ?thesis using dep [of p t f] assms(1) by simp
  next
    case (Some s)
    let ?rest = "deprecated_lexemes d @ l # ls"
    have t: "t = token_of (Punct (CHR ''@''))" "stream content p (Word ''json'' # Quoted s # ?rest)"
      using assms(1) Some by (auto simp: current_Cons)
    obtain p1 where n1: "next_token p content = (p1, token_of (Word ''json''))" "stream content p1 (Quoted s # ?rest)" "moved p p1"
      using next_lexeme [OF t(2)] by blast
    obtain p2 where n2: "next_token p1 content = (p2, token_of (Quoted s))" "stream content p2 ?rest" "moved p1 p2"
      using next_lexeme [OF n1(2)] by blast
    obtain p3 t3 where n3: "next_token p2 content = (p3, t3)" "current content p3 t3 ?rest" "moved p2 p3"
      using next_current [OF n2(2)] by auto
    have "is_word (token_of (Word ''json'')) ''json''" by (subst is_word_Word; simp)
    then have "field_annotations p content t f = field_annotations p3 content t3 (f\<lparr>fd_json_name := Some s\<rparr>)"
      using t(1) n1(1) n2(1) n3(1) by (subst field_annotations.simps) (simp add: punct_token_def)
    then show ?thesis using dep [OF n3(2), of "f\<lparr>fd_json_name := Some s\<rparr>"] Some n1(3) n2(3) n3(3) by (auto intro: moved_trans)
  qed
qed


lemma modifiers_read:
  assumes "current content p t (modifier_lexemes opt nul @ Word n # ls)" and "n \<noteq> ''optional''" and "n \<noteq> ''nullable''"
  shows "\<exists>p'. field_modifiers p content t f = (0, p', token_of (Word n), f\<lparr>fd_is_optional := (opt \<or> fd_is_optional f),
      fd_is_nullable := (nul \<or> fd_is_nullable f)\<rparr>) \<and> stream content p' ls \<and> moved p p'"
proof -
  note w = is_word_Word [of "''optional''"] is_word_Word [of "''nullable''"]
  have stop: "field_modifiers p content (token_of (Word n)) f = (0, p, token_of (Word n), f)" for p f
    using assms(2,3) w by (subst field_modifiers.simps) (simp del: token_of.simps)
  have step: "\<exists>p'. field_modifiers p content (token_of (Word m)) f = field_modifiers p' content (token_of (Word k))
      (if m = ''optional'' then f\<lparr>fd_is_optional := True\<rparr> else f\<lparr>fd_is_nullable := True\<rparr>) \<and> stream content p' ls' \<and> moved p p'"
    if st: "stream content p (Word k # ls')" and m: "m = ''optional'' \<or> m = ''nullable''" for p m k ls' f
  proof -
    obtain p1 where n1: "next_token p content = (p1, token_of (Word k))" "stream content p1 ls'" "moved p p1"
      using next_lexeme [OF st] by blast
    moreover have "st_type (token_of (Word k)) = TOKEN_IDENTIFY" by simp
    ultimately show ?thesis using m w by (subst field_modifiers.simps) (auto simp: Let_def simp del: token_of.simps)
  qed
  show ?thesis
  proof (cases opt)
    case True
    show ?thesis
    proof (cases nul)
      case True
      then have t: "t = token_of (Word ''optional'')" "stream content p (Word ''nullable'' # Word n # ls)"
        using assms(1) \<open>opt\<close> by (simp_all add: modifier_lexemes_def current_Cons del: token_of.simps)
      obtain p1 where 1: "field_modifiers p content t f = field_modifiers p1 content (token_of (Word ''nullable'')) (f\<lparr>fd_is_optional := True\<rparr>)"
        "stream content p1 (Word n # ls)" "moved p p1" using step [OF t(2), of "''optional''" f] t(1) by auto
      obtain p2 where 2: "field_modifiers p1 content (token_of (Word ''nullable'')) (f\<lparr>fd_is_optional := True\<rparr>)
          = field_modifiers p2 content (token_of (Word n)) (f\<lparr>fd_is_optional := True, fd_is_nullable := True\<rparr>)"
        "stream content p2 ls" "moved p1 p2" using step [OF 1(2), of "''nullable''"] by auto
      show ?thesis using 1 2 stop True \<open>opt\<close> by (auto intro: moved_trans)
    next
      case False
      then have t: "t = token_of (Word ''optional'')" "stream content p (Word n # ls)"
        using assms(1) \<open>opt\<close> by (simp_all add: modifier_lexemes_def current_Cons del: token_of.simps)
      then show ?thesis using step [OF t(2), of "''optional''" f] stop False \<open>opt\<close> by auto
    qed
  next
    case False
    show ?thesis
    proof (cases nul)
      case True
      then have t: "t = token_of (Word ''nullable'')" "stream content p (Word n # ls)"
        using assms(1) False by (simp_all add: modifier_lexemes_def current_Cons del: token_of.simps)
      then show ?thesis using step [OF t(2), of "''nullable''" f] stop False True by auto
    next
      case False
      then have "t = token_of (Word n)" "stream content p ls"
        using assms(1) \<open>\<not> opt\<close> by (simp_all add: modifier_lexemes_def current_Cons del: token_of.simps)
      then show ?thesis using stop False \<open>\<not> opt\<close> by auto
    qed
  qed
qed

lemma map_value_text_exact:
  "v = drop i tx \<Longrightarrow> i < length tx \<Longrightarrow> last v \<noteq> CHR '' '' \<Longrightarrow> map_value_text tx 0 i = Inr v"
proof -
  assume v: "v = drop i tx" "i < length tx" "last v \<noteq> CHR '' ''"
  obtain s where s: "sstr_of tx = Inr s" "sstr_ok s" "sstr_content s = tx" using sstr_of_correct [of tx] by blast
  have "mem_bytes (sbuf s) i (length tx - i) = Inr v"
    using sstr_bytes_at [OF s(2), of i "length tx - i"] s(3) sstr_ok_length [OF s(2)] v by simp
  moreover have "rstrip v = v"
  proof -
    have "v \<noteq> []" using v(1,2) by simp
    then obtain ys y where "v = ys @ [y]" by (cases v rule: rev_cases) auto
    then show ?thesis using v(3) by (simp add: rstrip_def)
  qed
  ultimately show ?thesis using s(1) v(2) by (simp add: map_value_text_def)
qed

lemma ident_last: "ident v \<Longrightarrow> last v \<noteq> CHR '' '' \<and> CHR ''>'' \<notin> set v \<and> hd v \<noteq> CHR '' ''"
proof -
  assume v: "ident v"
  then have i: "\<forall>c\<in>set v. is_ident_char c" "v \<noteq> []" by (auto simp: ident_def is_ident_char_def list_all_iff)
  have "\<not> is_ident_char (CHR '' '')" "\<not> is_ident_char (CHR ''>'')" by (simp_all add: is_ident_char_def is_ident_start_def is_digit_def)
  then show ?thesis using i by (metis last_in_set hd_in_set)
qed

lemma parse_map_field_read:
  assumes "stream content p (Angled (''sstr_t, '' @ v) # ls)" and "ident v" and "tables_ok p"
  shows "\<exists>p' t'. parse_map_field p content f n = Inr (0, p', t', f\<lparr>fd_type := FIELD_TYPE_MAP,
      fd_map_value_type := value_type_in (schema_of p) v,
      fd_map_value_type_name := Some (c_type_name (value_type_in (schema_of p) v) v), fd_type_name := n\<rparr>)
      \<and> stream content p' ls \<and> moved p p'"
proof -
  let ?tx = "''sstr_t, '' @ v"
  obtain p1 where n1: "next_token p content = (p1, \<lparr>st_type = TOKEN_STRING, st_txt = Some ?tx\<rparr>)" "stream content p1 ls" "moved p p1"
    using next_lexeme [OF assms(1)] by auto
  have c: "cstr ?tx = ?tx" using ident_no_NUL [OF assms(2)] by (intro cstr_whole) simp
  have tables: "same_tables p p1" using n1(3) by (simp add: moved_def same_frame_tables)
  have val: "map_value_text ?tx 0 8 = Inr v"
    using ident_last [OF assms(2)] assms(2) by (intro map_value_text_exact) (auto simp: ident_def)
  have lead: "takeWhile (\<lambda>c. c = CHR '' '') v = []" using ident_last [OF assms(2)] by (cases v) auto
  have ty: "map_value_type_of p1 v = value_type_in (schema_of p) v"
    using type_in_tables(2) [of p1 v] tables_ok_cong [OF tables] schema_of_cong [OF tables] assms(3) by simp
  have key: "rstrip ''sstr_t'' = ''sstr_t''" by (simp add: rstrip_def)
  have comma: "length (takeWhile (\<lambda>c. c \<noteq> CHR '','') ?tx) = 6" by simp
  show ?thesis using n1 c val lead ty key
    by (simp add: parse_map_field_def Let_def txt_of_def c_type_name_def eval_nat_numeral)
qed

lemma int_cast_small: "- (2 ^ 31) \<le> n \<Longrightarrow> n < 2 ^ 31 \<Longrightarrow> int_cast n = n"
  by (simp add: int_cast_def sint_sbintrunc' signed_take_bit_int_eq_self)

lemma dec_str_show: "dec_str n = show_int (int n)"
  by (simp add: show_int_def)

lemma dec_str_no_dot: "CHR ''.'' \<notin> set (dec_str n)"
  using dec_str_digits [of n] by (auto simp: list_all_iff is_digit_def)

lemma array_suffix_read:
  assumes "current content p t (array_lexemes a @ l # ls)" and "st_type (token_of l) \<noteq> TOKEN_LEFT_BRACKET"
    and "\<And>n. a = Sized_array n \<Longrightarrow> 0 < n \<and> n < 2 ^ 31" and "\<not> fd_is_array f" and "fd_array_size f = 0"
  shows "\<exists>p'. parse_array_suffix p content t f = (0, p', token_of l, f\<lparr>fd_is_array := (a \<noteq> No_array),
      fd_array_size := array_size_of a\<rparr>) \<and> stream content p' ls \<and> moved p p'"
proof (cases a)
  case No_array
  have "f\<lparr>fd_is_array := False, fd_array_size := 0\<rparr> = f" using assms(4,5) by simp
  then show ?thesis using No_array assms(1,2) by (auto simp: parse_array_suffix_def current_Cons)
next
  case Dynamic_array
  then have t: "t = token_of (Punct (CHR ''[''))" "stream content p (Punct (CHR '']'') # l # ls)"
    using assms(1) by (simp_all add: current_Cons)
  obtain p1 where n1: "next_token p content = (p1, token_of (Punct (CHR '']'')))" "stream content p1 (l # ls)" "moved p p1"
    using next_lexeme [OF t(2)] by blast
  obtain p2 where n2: "next_token p1 content = (p2, token_of l)" "stream content p2 ls" "moved p1 p2"
    using next_lexeme [OF n1(2)] by blast
  have "f\<lparr>fd_is_array := True, fd_array_size := 0\<rparr> = f\<lparr>fd_is_array := True\<rparr>" using assms(5) by simp
  then show ?thesis using Dynamic_array t n1 n2
    by (auto simp: parse_array_suffix_def punct_token_def Let_def intro: moved_trans)
next
  case (Sized_array n)
  then have t: "t = token_of (Punct (CHR ''[''))" "stream content p (Number (dec_str n) # Punct (CHR '']'') # l # ls)"
    using assms(1) by (simp_all add: current_Cons)
  obtain p1 where n1: "next_token p content = (p1, token_of (Number (dec_str n)))" "stream content p1 (Punct (CHR '']'') # l # ls)" "moved p p1"
    using next_lexeme [OF t(2)] by blast
  obtain p2 where n2: "next_token p1 content = (p2, token_of (Punct (CHR '']'')))" "stream content p2 (l # ls)" "moved p1 p2"
    using next_lexeme [OF n1(2)] by blast
  obtain p3 where n3: "next_token p2 content = (p3, token_of l)" "stream content p3 ls" "moved p2 p3"
    using next_lexeme [OF n2(2)] by blast
  have n: "0 < n" "n < 2 ^ 31" using assms(3) Sized_array by blast+
  have sz: "fst (strtol (dec_str n)) = int n"
    using n(2) by (simp add: dec_str_show strtol_show_int LONG_MIN_def LONG_MAX_def)
  have cast: "int_cast (int n) = int n" using n(2) by (intro int_cast_small) simp_all
  show ?thesis using Sized_array t n1 n2 n3 n(1) sz cast dec_str_no_dot [of n]
    by (auto simp: parse_array_suffix_def punct_token_def Let_def txt_of_def intro: moved_trans)
qed

lemma default_value_read:
  assumes "current content p t (default_lexemes d @ l # ls)" and "st_type (token_of l) \<noteq> TOKEN_EQUAL"
    and "\<And>x. d = Some x \<Longrightarrow> literal x \<and> \<not> fd_is_array f \<and> fd_type f \<noteq> FIELD_TYPE_MAP \<and> fd_type f \<noteq> FIELD_TYPE_STRUCT"
    and "fd_default_value f = None" and "\<not> fd_has_default f"
  shows "\<exists>p'. parse_default_value p content t f = (0, p', token_of l, f\<lparr>fd_default_value := map_option lexeme_text d,
      fd_has_default := (d \<noteq> None)\<rparr>) \<and> stream content p' ls \<and> moved p p'"
proof (cases d)
  case None
  have "f\<lparr>fd_default_value := None, fd_has_default := False\<rparr> = f" using assms(4,5) by simp
  then show ?thesis using None assms(1,2) by (auto simp: parse_default_value_def current_Cons)
next
  case (Some x)
  then have t: "t = token_of (Punct (CHR ''=''))" "stream content p (x # l # ls)"
    using assms(1) by (simp_all add: current_Cons)
  obtain p1 where n1: "next_token p content = (p1, token_of x)" "stream content p1 (l # ls)" "moved p p1"
    using next_lexeme [OF t(2)] by blast
  obtain p2 where n2: "next_token p1 content = (p2, token_of l)" "stream content p2 ls" "moved p1 p2"
    using next_lexeme [OF n1(2)] by blast
  have x: "st_type (token_of x) \<in> {TOKEN_INTEGER, TOKEN_FLOAT, TOKEN_IDENTIFY, TOKEN_STRING}" "st_txt (token_of x) = Some (lexeme_text x)"
    using assms(3) [OF Some] by (cases x; simp)+
  show ?thesis using Some t n1 n2 x assms(3) [OF Some]
    by (auto simp: parse_default_value_def punct_token_def Let_def intro: moved_trans simp del: token_of.simps) (simp add: punct_token_def)+
qed

lemma field_rest_read:
  assumes "stream content p (Word n # array_lexemes a @ default_lexemes d @ Punct (CHR '';'') # ls)"
    and "\<And>n. a = Sized_array n \<Longrightarrow> 0 < n \<and> n < 2 ^ 31"
    and "\<And>x. d = Some x \<Longrightarrow> literal x \<and> a = No_array \<and> fd_type f \<noteq> FIELD_TYPE_MAP \<and> fd_type f \<noteq> FIELD_TYPE_STRUCT"
    and "\<not> fd_is_array f" and "fd_array_size f = 0" and "fd_default_value f = None" and "\<not> fd_has_default f"
  shows "\<exists>p'. parse_field_rest p content f = (0, p', token_of (Punct (CHR '';'')), f\<lparr>fd_name := n, fd_is_array := (a \<noteq> No_array),
      fd_array_size := array_size_of a, fd_default_value := map_option lexeme_text d, fd_has_default := (d \<noteq> None)\<rparr>)
    \<and> stream content p' ls \<and> moved p p'"
proof -
  let ?s = "Punct (CHR '';'')" and ?f = "f\<lparr>fd_name := n\<rparr>"
  obtain p1 where n1: "next_token p content = (p1, token_of (Word n))" "stream content p1 (array_lexemes a @ default_lexemes d @ ?s # ls)" "moved p p1"
    using next_lexeme [OF assms(1)] by blast
  obtain p2 t2 where n2: "next_token p1 content = (p2, t2)" "current content p2 t2 (array_lexemes a @ default_lexemes d @ ?s # ls)" "moved p1 p2"
    using next_current [OF n1(2)] by auto
  obtain l ls' where dl: "default_lexemes d @ ?s # ls = l # ls'" "st_type (token_of l) \<noteq> TOKEN_LEFT_BRACKET"
    by (cases d) (auto simp: punct_token_def)
  let ?g = "?f\<lparr>fd_is_array := (a \<noteq> No_array), fd_array_size := array_size_of a\<rparr>"
  obtain p3 where n3: "parse_array_suffix p2 content t2 ?f = (0, p3, token_of l, ?g)" "stream content p3 ls'" "moved p2 p3"
    using array_suffix_read [of content p2 t2 a l ls' ?f] n2(2) dl assms(2,4,5) by auto
  have c3: "current content p3 (token_of l) (default_lexemes d @ ?s # ls)" using dl(1) n3(2) by (simp add: current_Cons)
  obtain p4 where n4: "parse_default_value p3 content (token_of l) ?g = (0, p4, token_of ?s,
      ?g\<lparr>fd_default_value := map_option lexeme_text d, fd_has_default := (d \<noteq> None)\<rparr>)" "stream content p4 ls" "moved p3 p4"
    using default_value_read [OF c3, of ?g] assms(3,6,7) by (auto simp: punct_token_def)
  have "moved p p4" using n1(3) n2(3) n3(3) n4(3) by (blast intro: moved_trans)
  then show ?thesis using n1(1) n2(1) n3(1) n4(1,2) by (simp add: parse_field_rest_def txt_of_def punct_token_def)
qed

text \<open>The record updates the parts of a field leave.\<close>

lemma type_read:
  assumes "current content p t (type_lexemes ty @ ls)" and "tables_ok p"
    and "case ty of Named n \<Rightarrow> ident n \<and> n \<notin> set reserved | Map_of v \<Rightarrow> ident v"
  shows "\<exists>p' t' l c. parse_field_type p content t f = Inr (0, p', t', f\<lparr>fd_line := l, fd_col := c,
      fd_type := (case ty of Named n \<Rightarrow> type_in (schema_of p) n | Map_of v \<Rightarrow> FIELD_TYPE_MAP),
      fd_map_value_type := (case ty of Named n \<Rightarrow> fd_map_value_type f | Map_of v \<Rightarrow> value_type_in (schema_of p) v),
      fd_map_value_type_name := (case ty of Named n \<Rightarrow> fd_map_value_type_name f
        | Map_of v \<Rightarrow> Some (c_type_name (value_type_in (schema_of p) v) v)),
      fd_type_name := (case ty of Named n \<Rightarrow> c_type_name (type_in (schema_of p) n) n | Map_of v \<Rightarrow> ''map'')\<rparr>)
    \<and> stream content p' ls \<and> moved p p'"
proof (cases ty)
  case (Named n)
  then have t: "t = token_of (Word n)" "stream content p ls" using assms(1) by (simp_all add: current_Cons)
  have "\<not> is_word (token_of (Word n)) ''struct''" "\<not> is_word (token_of (Word n)) ''map''"
    using assms(3) Named by (subst is_word_Word; simp add: reserved_def)+
  then show ?thesis using Named t type_in_tables(1) [OF assms(2), of n]
    by (intro exI [of _ p] exI [of _ t] exI [of _ "sp_line p"] exI [of _ "sp_col p"])
      (simp add: parse_field_type_def Let_def c_type_name_def txt_of_def)
next
  case (Map_of v)
  then have t: "t = token_of (Word ''map'')" "stream content p (Angled (''sstr_t, '' @ v) # ls)" "ident v"
    using assms(1,3) by (simp_all add: current_Cons)
  have w: "\<not> is_word (token_of (Word ''map'')) ''struct''" "is_word (token_of (Word ''map'')) ''map''"
    by (subst is_word_Word; simp)+
  obtain p' t' where "parse_map_field p content (f\<lparr>fd_line := sp_line p, fd_col := sp_col p\<rparr>) ''map'' = Inr (0, p', t',
      f\<lparr>fd_line := sp_line p, fd_col := sp_col p, fd_type := FIELD_TYPE_MAP, fd_map_value_type := value_type_in (schema_of p) v,
      fd_map_value_type_name := Some (c_type_name (value_type_in (schema_of p) v) v), fd_type_name := ''map''\<rparr>)"
    "stream content p' ls" "moved p p'"
    using parse_map_field_read [OF t(2,3) assms(2)] by blast
  then show ?thesis using Map_of t(1) w
    by (intro exI [of _ p'] exI [of _ t'] exI [of _ "sp_line p"] exI [of _ "sp_col p"])
      (simp add: parse_field_type_def Let_def txt_of_def)
qed

lemma skip_none:
  "next_token p content = (p', t) \<Longrightarrow> st_type t \<noteq> TOKEN_SEMICOLON \<Longrightarrow> \<not> (commas \<and> st_type t = TOKEN_COMMA)
    \<Longrightarrow> next_token_skipping commas p content = (p', t)"
  by (subst next_token_skipping.simps) auto

lemma type_lexemes_first:
  obtains n ls where "type_lexemes ty = Word n # ls" and "n = (case ty of Named m \<Rightarrow> m | Map_of v \<Rightarrow> ''map'')"
  by (cases ty) auto

lemma moved_schema: "moved p p' \<Longrightarrow> schema_of p' = schema_of p \<and> tables_ok p' = tables_ok p"
  using schema_of_cong tables_ok_cong same_frame_tables by (auto simp: moved_def)

lemma field_read:
  assumes "stream content p (field_lexemes d @ ls)" and "tables_ok p" and ok: "field_decl_ok (schema_of p) d"
  shows "\<exists>p' t' f. struct_parse_field p content (struct_field_new [] FIELD_TYPE_INT []) = Inr (0, p', t', f)
    \<and> st_type t' = TOKEN_SEMICOLON \<and> unplaced_field f = field_of (schema_of p) d
    \<and> stream content p' ls \<and> moved p p'"
proof -
  let ?f0 = "struct_field_new [] FIELD_TYPE_INT []"
  let ?tail = "Word (dc_name d) # array_lexemes (dc_array d) @ default_lexemes (dc_default d) @ Punct (CHR '';'') # ls"
  let ?annots = "json_lexemes (dc_json d) @ deprecated_lexemes (dc_deprecated d)"
  let ?mods = "modifier_lexemes (dc_optional d) (dc_nullable d)"
  obtain n tys where ty: "type_lexemes (dc_type d) = Word n # tys"
    "n = (case dc_type d of Named m \<Rightarrow> m | Map_of v \<Rightarrow> ''map'')" by (rule type_lexemes_first)
  have n: "n \<noteq> ''optional''" "n \<noteq> ''nullable''" "n \<noteq> []"
    using ok ty(2) by (auto simp: field_decl_ok_def reserved_def ident_def split: type_ref.splits)
  obtain m ms where mods: "?mods @ Word n # tys @ ?tail = Word m # ms" "m \<noteq> []"
    using n(3) by (cases "dc_optional d"; cases "dc_nullable d") (auto simp: modifier_lexemes_def)
  have lex: "field_lexemes d @ ls = ?annots @ Word m # ms" using ty(1) mods(1) by (simp add: field_lexemes_def)
  obtain p1 t1 where n1: "next_token p content = (p1, t1)" "current content p1 t1 (?annots @ Word m # ms)" "moved p p1"
    using next_current [OF assms(1)] lex by (metis append_is_Nil_conv list.distinct(1))
  have t1: "st_type t1 \<noteq> TOKEN_SEMICOLON" "st_type t1 \<noteq> TOKEN_RIGHT_BRACE"
    using n1(2) by (cases "dc_json d"; cases "dc_deprecated d"; simp add: deprecated_lexemes_def current_Cons punct_token_def)+
  let ?f1 = "?f0\<lparr>fd_json_name := dc_json d, fd_is_deprecated := dc_deprecated d\<rparr>"
  obtain p2 where n2: "field_annotations p1 content t1 ?f0 = (0, p2, token_of (Word m), ?f1)"
    "stream content p2 ms" "moved p1 p2"
    using annotations_read [of content p1 t1 "dc_json d" "dc_deprecated d" "Word m" ms ?f0] n1(2)
    by (auto simp: struct_field_new_def)
  let ?f2 = "?f1\<lparr>fd_is_optional := dc_optional d, fd_is_nullable := dc_nullable d\<rparr>"
  have c2: "current content p2 (token_of (Word m)) (?mods @ Word n # tys @ ?tail)" using n2(2) mods(1) by (simp add: current_Cons)
  obtain p3 where n3: "field_modifiers p2 content (token_of (Word m)) ?f1 = (0, p3, token_of (Word n), ?f2)"
    "stream content p3 (tys @ ?tail)" "moved p2 p3"
    using modifiers_read [OF c2 n(1,2), of ?f1] by (auto simp: struct_field_new_def)
  have m3: "moved p p3" using n1(3) n2(3) n3(3) by (blast intro: moved_trans)
  have c3: "current content p3 (token_of (Word n)) (type_lexemes (dc_type d) @ ?tail)" using n3(2) ty(1) by (simp add: current_Cons)
  have ty_ok: "case dc_type d of Named n \<Rightarrow> ident n \<and> n \<notin> set reserved | Map_of v \<Rightarrow> ident v"
    using ok by (simp add: field_decl_ok_def)
  let ?sch = "schema_of p"
  let ?f3 = "\<lambda>l c. ?f2\<lparr>fd_line := l, fd_col := c,
      fd_type := (case dc_type d of Named n \<Rightarrow> type_in ?sch n | Map_of v \<Rightarrow> FIELD_TYPE_MAP),
      fd_map_value_type := (case dc_type d of Named n \<Rightarrow> FIELD_TYPE_INT | Map_of v \<Rightarrow> value_type_in ?sch v),
      fd_map_value_type_name := (case dc_type d of Named n \<Rightarrow> None | Map_of v \<Rightarrow> Some (c_type_name (value_type_in ?sch v) v)),
      fd_type_name := (case dc_type d of Named n \<Rightarrow> c_type_name (type_in ?sch n) n | Map_of v \<Rightarrow> ''map'')\<rparr>"
  have sch3: "schema_of p3 = ?sch" "tables_ok p3" using moved_schema [OF m3] assms(2) by simp_all
  have v: "fd_map_value_type ?f2 = FIELD_TYPE_INT" "fd_map_value_type_name ?f2 = None" by (simp_all add: struct_field_new_def)
  obtain p4 t4 l c where n4: "parse_field_type p3 content (token_of (Word n)) ?f2 = Inr (0, p4, t4, ?f3 l c)"
    "stream content p4 ?tail" "moved p3 p4"
    using type_read [OF c3 sch3(2) ty_ok, of ?f2] unfolding sch3(1) v by blast
  let ?f4 = "(?f3 l c)\<lparr>fd_name := dc_name d, fd_is_array := (dc_array d \<noteq> No_array), fd_array_size := array_size_of (dc_array d),
      fd_default_value := map_option lexeme_text (dc_default d), fd_has_default := (dc_default d \<noteq> None)\<rparr>"
  obtain p5 where n5: "parse_field_rest p4 content (?f3 l c) = (0, p5, token_of (Punct (CHR '';'')), ?f4)"
    "stream content p5 ls" "moved p4 p5"
    using field_rest_read [OF n4(2), of "?f3 l c"] ok
    by (auto simp: field_decl_ok_def field_of_def struct_field_new_def split: array_decl.splits option.splits)
  have "struct_parse_field p content ?f0 = Inr (0, p5, token_of (Punct (CHR '';'')), ?f4)"
    using skip_none [OF n1(1) t1(1), of False] t1(2) n2(1) n3(1) n4(1) n5(1) mods(2)
    by (simp add: struct_parse_field_def txt_of_def)
  moreover have "unplaced_field ?f4 = field_of ?sch d"
    by (simp add: unplaced_field_def field_of_def struct_field_new_def)
  moreover have "moved p p5" using m3 n4(3) n5(3) by (blast intro: moved_trans)
  ultimately show ?thesis using n5(2) by (auto simp: punct_token_def)
qed

section \<open>Declarations of items\<close>

text \<open>An enum value is a name that may be deprecated; a oneof variant has the name of its struct too.\<close>

datatype item_decl =
    D_struct string "field_decl list"
  | D_enum string "(bool \<times> string) list"
  | D_oneof string "string option" "(bool \<times> string \<times> string) list"

fun decl_name :: "item_decl \<Rightarrow> string" where
  "decl_name (D_struct n _) = n"
| "decl_name (D_enum n _) = n"
| "decl_name (D_oneof n _ _) = n"

definition value_lexemes :: "bool \<times> string \<Rightarrow> lexeme list" where
  "value_lexemes v = deprecated_lexemes (fst v) @ [Word (snd v), Punct (CHR '','')]"

definition variant_lexemes :: "bool \<times> string \<times> string \<Rightarrow> lexeme list" where
  "variant_lexemes v = deprecated_lexemes (fst v) @ [Word (fst (snd v)), Word (snd (snd v)), Punct (CHR '';'')]"

fun tag_lexemes :: "string option \<Rightarrow> lexeme list" where
  "tag_lexemes None = []"
| "tag_lexemes (Some s) = [Punct (CHR ''@''), Word ''tag'', Quoted s]"

definition braces :: "lexeme list \<Rightarrow> lexeme list" where
  "braces ls = Punct (CHR ''{'') # ls @ [Punct (CHR ''}'')]"

fun item_lexemes :: "item_decl \<Rightarrow> lexeme list" where
  "item_lexemes (D_struct n fs) = Word ''struct'' # Word n # braces (concat (map field_lexemes fs))"
| "item_lexemes (D_enum n vs) = Word ''enum'' # Word n # braces (concat (map value_lexemes vs))"
| "item_lexemes (D_oneof n tag vs) = Word ''oneof'' # Word n # braces (tag_lexemes tag @ concat (map variant_lexemes vs))"

definition values_of :: "(bool \<times> string) list \<Rightarrow> enum_value list" where
  "values_of vs = map (\<lambda>(i, dep, n). \<lparr>ev_name = n, ev_index = i, ev_is_deprecated = dep\<rparr>) (enumerate 0 vs)"

definition variants_of :: "(bool \<times> string \<times> string) list \<Rightarrow> oneof_variant list" where
  "variants_of vs = map (\<lambda>(i, dep, ty, n). \<lparr>ov_name = n, ov_struct_type_name = ty, ov_index = i, ov_is_deprecated = dep\<rparr>)
     (enumerate 0 vs)"

text \<open>The definition that a declaration stands for, in a file and where a schema is known; without positions.\<close>

fun item_of :: "string \<Rightarrow> symbols \<Rightarrow> item_decl \<Rightarrow> top_level_item" where
  "item_of file sch (D_struct n fs) = Item_struct \<lparr>sc_name = n, sc_fields = map (field_of sch) fs,
     sc_name_line = 0, sc_name_col = 0, sc_filename = file\<rparr>"
| "item_of file sch (D_enum n vs) = Item_enum \<lparr>ec_name = n, ec_values = values_of vs, ec_count = length vs,
     ec_name_line = 0, ec_name_col = 0, ec_filename = file\<rparr>"
| "item_of file sch (D_oneof n tag vs) = Item_oneof \<lparr>oc_name = n,
     oc_tag_field = (case tag of None \<Rightarrow> ''type'' | Some s \<Rightarrow> s), oc_variants = variants_of vs, oc_count = length vs,
     oc_name_line = 0, oc_name_col = 0, oc_filename = file\<rparr>"

fun unplaced_item :: "top_level_item \<Rightarrow> top_level_item" where
  "unplaced_item (Item_struct s) = Item_struct (s\<lparr>sc_fields := map unplaced_field (sc_fields s), sc_name_line := 0, sc_name_col := 0\<rparr>)"
| "unplaced_item (Item_enum e) = Item_enum (e\<lparr>ec_name_line := 0, ec_name_col := 0\<rparr>)"
| "unplaced_item (Item_oneof v) = Item_oneof (v\<lparr>oc_name_line := 0, oc_name_col := 0\<rparr>)"

definition unplaced :: "symbols \<Rightarrow> symbols" where
  "unplaced sch = (\<lambda>name. map_option unplaced_item (sch name))"

fun item_decl_ok :: "symbols \<Rightarrow> item_decl \<Rightarrow> bool" where
  "item_decl_ok sch (D_struct n fs) \<longleftrightarrow> ident n \<and> list_all (field_decl_ok sch) fs"
| "item_decl_ok sch (D_enum n vs) \<longleftrightarrow> ident n \<and> list_all (\<lambda>(dep, v). ident v) vs"
| "item_decl_ok sch (D_oneof n tag vs) \<longleftrightarrow> ident n \<and> vs \<noteq> [] \<and> list_all (\<lambda>(dep, ty, v). ident ty \<and> ident v) vs"

section \<open>Items are read back\<close>

lemma punct_types:
  "st_type (token_of (Punct (CHR ''{''))) = TOKEN_LEFT_BRACE" "st_type (token_of (Punct (CHR ''}''))) = TOKEN_RIGHT_BRACE"
  "st_type (token_of (Punct (CHR '';''))) = TOKEN_SEMICOLON" "st_type (token_of (Punct (CHR '',''))) = TOKEN_COMMA"
  "st_type (token_of (Punct (CHR ''@''))) = TOKEN_AT" "st_type (token_of (Word s)) = TOKEN_IDENTIFY"
  "st_type (token_of (Quoted s)) = TOKEN_STRING" "txt_of (token_of (Word s)) = s" "txt_of (token_of (Quoted s)) = s"
  by (simp_all add: punct_token_def txt_of_def)

lemma field_loop_read:
  assumes "stream content p (concat (map field_lexemes ds) @ Punct (CHR ''}'') # ls)" and "tables_ok p"
    and "list_all (field_decl_ok (schema_of p)) ds" and "st_type t \<in> {TOKEN_LEFT_BRACE, TOKEN_SEMICOLON}"
  shows "\<exists>p' t' fs. field_loop p content t acc False = Inr (p', t', fs @ acc, False)
    \<and> map unplaced_field (rev fs) = map (field_of (schema_of p)) ds \<and> stream content p' ls \<and> moved p p'"
  using assms
proof (induction ds arbitrary: p t acc)
  case Nil
  then obtain p1 where n1: "next_token p content = (p1, token_of (Punct (CHR ''}'')))" "stream content p1 ls" "moved p p1"
    using next_lexeme [of content p "Punct (CHR ''}'')" ls] by auto
  have "struct_parse_field p content (struct_field_new [] FIELD_TYPE_INT [])
      = Inr (0, p1, token_of (Punct (CHR ''}'')), struct_field_new [] FIELD_TYPE_INT [])"
    using skip_none [OF n1(1), of False] by (simp add: struct_parse_field_def punct_types del: token_of.simps)
  then have "field_loop p content t acc False = Inr (p1, token_of (Punct (CHR ''}'')), [] @ acc, False)"
    using Nil.prems(4) by (subst field_loop.simps) (auto simp: punct_types simp del: token_of.simps)
  then show ?case using n1(2,3) by (intro exI [of _ p1] exI [of _ "token_of (Punct (CHR ''}''))"] exI [of _ "[]"]) simp
next
  case (Cons d ds)
  have s: "stream content p (field_lexemes d @ concat (map field_lexemes ds) @ Punct (CHR ''}'') # ls)"
    using Cons.prems(1) by simp
  obtain p1 t1 f where 1: "struct_parse_field p content (struct_field_new [] FIELD_TYPE_INT []) = Inr (0, p1, t1, f)"
    "st_type t1 = TOKEN_SEMICOLON" "unplaced_field f = field_of (schema_of p) d"
    "stream content p1 (concat (map field_lexemes ds) @ Punct (CHR ''}'') # ls)" "moved p p1"
    using field_read [OF s Cons.prems(2)] Cons.prems(3) by auto
  note sch = moved_schema [OF 1(5)]
  obtain p2 t2 fs where 2: "field_loop p1 content t1 (f # acc) False = Inr (p2, t2, fs @ f # acc, False)"
    "map unplaced_field (rev fs) = map (field_of (schema_of p1)) ds" "stream content p2 ls" "moved p1 p2"
    using Cons.IH [OF 1(4), of t1 "f # acc"] Cons.prems(2,3) sch 1(2) by auto
  have "field_loop p content t acc False = Inr (p2, t2, (fs @ [f]) @ acc, False)"
    using Cons.prems(4) 1(1,2) 2(1) by (subst field_loop.simps) auto
  then show ?case using 1(3,5) 2(2-4) sch
    by (intro exI [of _ p2] exI [of _ t2] exI [of _ "fs @ [f]"]) (auto intro: moved_trans)
qed

lemma register_new:
  assumes "tables_ok p" and "schema_of p name = None"
  shows "register_top_level_item p name item = (0, insert_item p name item)"
proof -
  have "item_kind item \<noteq> TOP_LEVEL_ITEM_INVALID" "item_kind item \<noteq> TOP_LEVEL_ITEM_INCLUDE" by (cases item; simp)+
  from check_name_cases [OF assms(1) this, of name] show ?thesis
    using assms(2) by (simp add: register_top_level_item_def)
qed

text \<open>What the parser of an item leaves when all is well.\<close>

definition defines_item :: "struct_parser \<Rightarrow> struct_parser \<Rightarrow> string \<Rightarrow> top_level_item \<Rightarrow> bool" where
  "defines_item p p' name item \<longleftrightarrow> tables_ok p' \<and> (\<exists>i. unplaced_item i = item \<and> schema_of p' = (schema_of p)(name \<mapsto> i))
     \<and> sp_name p' = sp_name p \<and> sp_diag p' = sp_diag p \<and> sp_stderr p' = sp_stderr p"

lemma insert_defines:
  assumes "tables_ok p" and "moved p q" and "schema_of p name = None" and "item_name i = name" and "item_ok i" and "unplaced_item i = item"
  shows "register_top_level_item q name i = (0, insert_item q name i) \<and> defines_item p (insert_item q name i) name item"
proof -
  have q: "tables_ok q" "schema_of q = schema_of p" using moved_schema [OF assms(2)] assms(1) by simp_all
  have "sp_name (insert_item q name i) = sp_name p" "sp_diag (insert_item q name i) = sp_diag p"
    "sp_stderr (insert_item q name i) = sp_stderr p"
    by (cases i; simp add: moved_simps [OF assms(2)])+
  then show ?thesis
    using register_new [OF q(1), of name i] insert_item_schema [OF q(1) _ assms(4,5)] q(2) assms(3,6)
    by (auto simp: defines_item_def)
qed

lemma insert_item_stream: "stream content q ls \<Longrightarrow> stream content (insert_item q name i) ls"
  by (cases i) (simp_all add: stream_def)

lemma struct_read:
  assumes "stream content p (Word n # braces (concat (map field_lexemes fs)) @ ls)" and "tables_ok p"
    and "item_decl_ok (schema_of p) (D_struct n fs)" and "schema_of p n = None"
  shows "\<exists>p' t'. parse_struct_definition p content = Inr (0, p', t') \<and> stream content p' ls
    \<and> defines_item p p' n (item_of (sp_name p) (schema_of p) (D_struct n fs))"
proof -
  have s: "stream content p (Word n # Punct (CHR ''{'') # concat (map field_lexemes fs) @ Punct (CHR ''}'') # ls)"
    using assms(1) by (simp add: braces_def)
  obtain p1 where n1: "next_token p content = (p1, token_of (Word n))"
    "stream content p1 (Punct (CHR ''{'') # concat (map field_lexemes fs) @ Punct (CHR ''}'') # ls)" "moved p p1"
    using next_lexeme [OF s] by blast
  obtain p2 where n2: "next_token p1 content = (p2, token_of (Punct (CHR ''{'')))"
    "stream content p2 (concat (map field_lexemes fs) @ Punct (CHR ''}'') # ls)" "moved p1 p2"
    using next_lexeme [OF n1(2)] by blast
  have m2: "moved p p2" using n1(3) n2(3) by (rule moved_trans)
  note sch2 = moved_schema [OF m2]
  obtain p3 t3 gs where l: "field_loop p2 content (token_of (Punct (CHR ''{''))) [] False = Inr (p3, t3, gs @ [], False)"
    "map unplaced_field (rev gs) = map (field_of (schema_of p2)) fs" "stream content p3 ls" "moved p2 p3"
    using field_loop_read [OF n2(2), of "token_of (Punct (CHR ''{''))" "[]"] assms(2,3) sch2 by (auto simp: punct_token_def)
  have m3: "moved p p3" using m2 l(4) by (rule moved_trans)
  let ?s = "\<lparr>sc_name = n, sc_fields = rev gs, sc_name_line = sp_line p1, sc_name_col = sp_col p1, sc_filename = sp_name p\<rparr>"
  have "unplaced_item (Item_struct ?s) = item_of (sp_name p) (schema_of p) (D_struct n fs)" using l(2) sch2 by simp
  then have d: "register_top_level_item p3 n (Item_struct ?s) = (0, insert_item p3 n (Item_struct ?s))"
    "defines_item p (insert_item p3 n (Item_struct ?s)) n (item_of (sp_name p) (schema_of p) (D_struct n fs))"
    using insert_defines [OF assms(2) m3 assms(4), of "Item_struct ?s"] by simp_all
  have "parse_struct_body p content = Inr (0, p3, t3, Some (?s\<lparr>sc_fields := gs\<rparr>))"
    using n1(1) n2(1) l(1) moved_simps(4) [OF n1(3)]
    by (simp add: parse_struct_body_def punct_types Let_def del: token_of.simps)
  then have "parse_struct_definition p content = Inr (0, insert_item p3 n (Item_struct ?s), t3)"
    using d(1) by (simp add: parse_struct_definition_def)
  then show ?thesis using d(2) insert_item_stream [OF l(3)] by blast
qed

lemma head_read:
  assumes "stream content p (Word n # Punct (CHR ''{'') # ls)"
  shows "\<exists>p' t' l c. parse_definition_head what p content = (0, p', t', n, l, c) \<and> stream content p' ls \<and> moved p p'"
proof -
  obtain p1 where n1: "next_token p content = (p1, token_of (Word n))" "stream content p1 (Punct (CHR ''{'') # ls)" "moved p p1"
    using next_lexeme [OF assms] by blast
  obtain p2 where n2: "next_token p1 content = (p2, token_of (Punct (CHR ''{'')))" "stream content p2 ls" "moved p1 p2"
    using next_lexeme [OF n1(2)] by blast
  show ?thesis using n1 n2
    by (auto simp: parse_definition_head_def Let_def punct_types simp del: token_of.simps intro: moved_trans)
qed

lemma meaningful:
  assumes "stream content p (l # ls)" and "st_type (token_of l) \<notin> {TOKEN_SEMICOLON, TOKEN_COMMA}"
  shows "\<exists>p'. next_meaningful_token p content = (p', token_of l) \<and> stream content p' ls \<and> moved p p'"
proof -
  obtain p' where "next_token p content = (p', token_of l)" "stream content p' ls" "moved p p'"
    using next_lexeme [OF assms(1)] by blast
  then show ?thesis using skip_none [of p content p' "token_of l" True] assms(2) by (auto simp: next_meaningful_token_def)
qed

definition enum_value_at :: "nat \<Rightarrow> bool \<times> string \<Rightarrow> enum_value" where
  "enum_value_at i v = \<lparr>ev_name = snd v, ev_index = i, ev_is_deprecated = fst v\<rparr>"

lemma deprecated_word: "is_word (token_of (Word ''deprecated'')) ''deprecated''" "\<not> is_word (token_of (Word ''deprecated'')) ''tag''"
  by (subst is_word_Word; simp)+

lemma enum_step_read:
  assumes "stream content p (value_lexemes v @ ls)"
  shows "\<exists>p' t'. enum_value_step p content n (vals, cnt, err) = (Continue, p', t', enum_value_at cnt v # vals, cnt + 1, err)
    \<and> stream content p' ls \<and> moved p p'"
proof (cases "fst v")
  case True
  then have s: "stream content p (Punct (CHR ''@'') # Word ''deprecated'' # Word (snd v) # Punct (CHR '','') # ls)"
    using assms by (simp add: value_lexemes_def deprecated_lexemes_def)
  obtain p1 where 1: "next_meaningful_token p content = (p1, token_of (Punct (CHR ''@'')))"
    "stream content p1 (Word ''deprecated'' # Word (snd v) # Punct (CHR '','') # ls)" "moved p p1"
    using meaningful [OF s] by (auto simp: punct_types simp del: token_of.simps)
  obtain p2 where 2: "next_token p1 content = (p2, token_of (Word ''deprecated''))"
    "stream content p2 (Word (snd v) # Punct (CHR '','') # ls)" "moved p1 p2" using next_lexeme [OF 1(2)] by blast
  obtain p3 where 3: "next_token p2 content = (p3, token_of (Word (snd v)))"
    "stream content p3 (Punct (CHR '','') # ls)" "moved p2 p3" using next_lexeme [OF 2(2)] by blast
  obtain p4 where 4: "next_token p3 content = (p4, token_of (Punct (CHR '','')))" "stream content p4 ls" "moved p3 p4"
    using next_lexeme [OF 3(2)] by blast
  have "moved p p4" using 1(3) 2(3) 3(3) 4(3) by (blast intro: moved_trans)
  then show ?thesis using 1(1) 2(1) 3(1) 4(1,2) True deprecated_word(1)
    by (simp add: enum_value_step_def Let_def punct_types enum_value_at_def del: token_of.simps)
next
  case False
  then have s: "stream content p (Word (snd v) # Punct (CHR '','') # ls)"
    using assms by (simp add: value_lexemes_def deprecated_lexemes_def)
  obtain p1 where 1: "next_meaningful_token p content = (p1, token_of (Word (snd v)))"
    "stream content p1 (Punct (CHR '','') # ls)" "moved p p1"
    using meaningful [OF s] by (auto simp: punct_types simp del: token_of.simps)
  obtain p2 where 2: "next_token p1 content = (p2, token_of (Punct (CHR '','')))" "stream content p2 ls" "moved p1 p2"
    using next_lexeme [OF 1(2)] by blast
  have "moved p p2" using 1(3) 2(3) by (blast intro: moved_trans)
  then show ?thesis using 1(1) 2(1,2) False
    by (simp add: enum_value_step_def Let_def punct_types enum_value_at_def del: token_of.simps)
qed

lemma enum_loop_read:
  assumes "stream content p (concat (map value_lexemes vs) @ Punct (CHR ''}'') # ls)"
  shows "\<exists>p' t' vals. enum_value_loop p content n (acc, cnt, False) = (True, p', t', vals @ acc, cnt + length vs, False)
    \<and> reindex_values i (rev vals) = map (\<lambda>(i, dep, n). \<lparr>ev_name = n, ev_index = i, ev_is_deprecated = dep\<rparr>) (enumerate i vs)
    \<and> stream content p' ls \<and> moved p p'"
  using assms
proof (induction vs arbitrary: p acc cnt i)
  case Nil
  then obtain p1 where "next_meaningful_token p content = (p1, token_of (Punct (CHR ''}'')))" "stream content p1 ls" "moved p p1"
    using meaningful [of content p "Punct (CHR ''}'')" ls] by (auto simp: punct_types simp del: token_of.simps)
  moreover have "enum_value_step p content n (acc, cnt, False) = (Break, p1, token_of (Punct (CHR ''}'')), acc, cnt, False)"
    using calculation(1) by (simp add: enum_value_step_def punct_types del: token_of.simps)
  ultimately show ?case
    by (intro exI [of _ p1] exI [of _ "token_of (Punct (CHR ''}''))"] exI [of _ "[]"]) (subst enum_value_loop.simps, simp)
next
  case (Cons v vs)
  have s: "stream content p (value_lexemes v @ concat (map value_lexemes vs) @ Punct (CHR ''}'') # ls)"
    using Cons.prems by simp
  obtain p1 t1 where 1: "enum_value_step p content n (acc, cnt, False) = (Continue, p1, t1, enum_value_at cnt v # acc, cnt + 1, False)"
    "stream content p1 (concat (map value_lexemes vs) @ Punct (CHR ''}'') # ls)" "moved p p1"
    using enum_step_read [OF s] by blast
  obtain p2 t2 vals where 2: "enum_value_loop p1 content n (enum_value_at cnt v # acc, cnt + 1, False)
      = (True, p2, t2, vals @ enum_value_at cnt v # acc, cnt + 1 + length vs, False)"
    "reindex_values (i + 1) (rev vals) = map (\<lambda>(i, dep, n). \<lparr>ev_name = n, ev_index = i, ev_is_deprecated = dep\<rparr>) (enumerate (i + 1) vs)"
    "stream content p2 ls" "moved p1 p2"
    using Cons.IH [OF 1(2), of "enum_value_at cnt v # acc" "cnt + 1" "i + 1"] by blast
  have "enum_value_loop p content n (acc, cnt, False) = (True, p2, t2, (vals @ [enum_value_at cnt v]) @ acc, cnt + length (v # vs), False)"
    using 1(1) 2(1) by (subst enum_value_loop.simps) simp
  moreover have "reindex_values i (rev (vals @ [enum_value_at cnt v]))
      = map (\<lambda>(i, dep, n). \<lparr>ev_name = n, ev_index = i, ev_is_deprecated = dep\<rparr>) (enumerate i (v # vs))"
    using 2(2) by (cases v) (simp add: enum_value_at_def)
  ultimately show ?case using 1(3) 2(3,4) by (blast intro: moved_trans)
qed

lemma enum_read:
  assumes "stream content p (Word n # braces (concat (map value_lexemes vs)) @ ls)" and "tables_ok p" and "schema_of p n = None"
  shows "\<exists>p' t'. parse_enum_body p content = (0, p', t') \<and> stream content p' ls
    \<and> defines_item p p' n (item_of (sp_name p) (schema_of p) (D_enum n vs))"
proof -
  have s: "stream content p (Word n # Punct (CHR ''{'') # concat (map value_lexemes vs) @ Punct (CHR ''}'') # ls)"
    using assms(1) by (simp add: braces_def)
  obtain p1 t1 l c where h: "parse_definition_head ''enum'' p content = (0, p1, t1, n, l, c)"
    "stream content p1 (concat (map value_lexemes vs) @ Punct (CHR ''}'') # ls)" "moved p p1"
    using head_read [OF s] by blast
  obtain p2 t2 vals where b: "enum_value_loop p1 content n ([], 0, False) = (True, p2, t2, vals, length vs, False)"
    "reindex_values 0 (rev vals) = values_of vs" "stream content p2 ls" "moved p1 p2"
    using enum_loop_read [OF h(2), of n "[]" 0 0] by (auto simp: values_of_def)
  let ?e = "\<lparr>ec_name = n, ec_values = values_of vs, ec_count = length vs, ec_name_line = l, ec_name_col = c, ec_filename = sp_name p\<rparr>"
  have "enum_ok ?e" using reindex_values_index [of 0 "rev vals"] b(2) enum_value_loop_count [OF b(1)] by (simp add: enum_ok_def)
  moreover have "moved p p2" using h(3) b(4) by (rule moved_trans)
  ultimately have d: "register_top_level_item p2 n (Item_enum ?e) = (0, insert_item p2 n (Item_enum ?e))"
    "defines_item p (insert_item p2 n (Item_enum ?e)) n (item_of (sp_name p) (schema_of p) (D_enum n vs))"
    using insert_defines [OF assms(2) _ assms(3), of p2 "Item_enum ?e"] by simp_all
  have "parse_enum_body p content = (0, insert_item p2 n (Item_enum ?e), t2)"
    using h(1) b(1,2) d(1) by (simp add: parse_enum_body_def Let_def)
  then show ?thesis using d(2) insert_item_stream [OF b(3)] by blast
qed


definition variant_at :: "nat \<Rightarrow> bool \<times> string \<times> string \<Rightarrow> oneof_variant" where
  "variant_at i v = \<lparr>ov_name = snd (snd v), ov_struct_type_name = fst (snd v), ov_index = i, ov_is_deprecated = fst v\<rparr>"

lemma variant_decl_read:
  assumes "stream content p (Word n # Punct (CHR '';'') # ls)"
  shows "\<exists>p' t'. oneof_variant_decl p content (token_of (Word ty)) dep (tag, vars, cnt, err)
      = (Continue, p', t', tag, variant_at cnt (dep, ty, n) # vars, cnt + 1, err) \<and> stream content p' ls \<and> moved p p'"
proof -
  obtain p1 where 1: "next_token p content = (p1, token_of (Word n))" "stream content p1 (Punct (CHR '';'') # ls)" "moved p p1"
    using next_lexeme [OF assms] by blast
  obtain p2 where 2: "next_token p1 content = (p2, token_of (Punct (CHR '';'')))" "stream content p2 ls" "moved p1 p2"
    using next_lexeme [OF 1(2)] by blast
  have "moved p p2" using 1(3) 2(3) by (rule moved_trans)
  then show ?thesis using 1(1) 2(1,2)
    by (simp add: oneof_variant_decl_def punct_types variant_at_def del: token_of.simps)
qed

lemma oneof_step_read:
  assumes "stream content p (variant_lexemes v @ ls)"
  shows "\<exists>p' t'. oneof_step p content n (tag, vars, cnt, err) = (Continue, p', t', tag, variant_at cnt v # vars, cnt + 1, err)
    \<and> stream content p' ls \<and> moved p p'"
proof (cases "fst v")
  case True
  then have s: "stream content p (Punct (CHR ''@'') # Word ''deprecated'' # Word (fst (snd v)) # Word (snd (snd v)) # Punct (CHR '';'') # ls)"
    using assms by (simp add: variant_lexemes_def deprecated_lexemes_def)
  obtain p1 where 1: "next_meaningful_token p content = (p1, token_of (Punct (CHR ''@'')))"
    "stream content p1 (Word ''deprecated'' # Word (fst (snd v)) # Word (snd (snd v)) # Punct (CHR '';'') # ls)" "moved p p1"
    using meaningful [OF s] by (auto simp: punct_types simp del: token_of.simps)
  obtain p2 where 2: "next_token p1 content = (p2, token_of (Word ''deprecated''))"
    "stream content p2 (Word (fst (snd v)) # Word (snd (snd v)) # Punct (CHR '';'') # ls)" "moved p1 p2" using next_lexeme [OF 1(2)] by blast
  obtain p3 where 3: "next_token p2 content = (p3, token_of (Word (fst (snd v))))"
    "stream content p3 (Word (snd (snd v)) # Punct (CHR '';'') # ls)" "moved p2 p3" using next_lexeme [OF 2(2)] by blast
  obtain p4 t4 where 4: "oneof_variant_decl p3 content (token_of (Word (fst (snd v)))) True (tag, vars, cnt, err)
      = (Continue, p4, t4, tag, variant_at cnt (True, fst (snd v), snd (snd v)) # vars, cnt + 1, err)" "stream content p4 ls" "moved p3 p4"
    using variant_decl_read [OF 3(2)] by blast
  have "moved p p4" using 1(3) 2(3) 3(3) 4(3) by (blast intro: moved_trans)
  moreover have "(True, fst (snd v), snd (snd v)) = v" using True by (simp add: prod_eq_iff)
  ultimately show ?thesis using 1(1) 2(1) 3(1) 4(1,2) deprecated_word
    by (simp add: oneof_step_def punct_types del: token_of.simps)
next
  case False
  then have s: "stream content p (Word (fst (snd v)) # Word (snd (snd v)) # Punct (CHR '';'') # ls)"
    using assms by (simp add: variant_lexemes_def deprecated_lexemes_def)
  obtain p1 where 1: "next_meaningful_token p content = (p1, token_of (Word (fst (snd v))))"
    "stream content p1 (Word (snd (snd v)) # Punct (CHR '';'') # ls)" "moved p p1"
    using meaningful [OF s] by (auto simp: punct_types simp del: token_of.simps)
  obtain p2 t2 where 2: "oneof_variant_decl p1 content (token_of (Word (fst (snd v)))) False (tag, vars, cnt, err)
      = (Continue, p2, t2, tag, variant_at cnt (False, fst (snd v), snd (snd v)) # vars, cnt + 1, err)" "stream content p2 ls" "moved p1 p2"
    using variant_decl_read [OF 1(2)] by blast
  have "moved p p2" using 1(3) 2(3) by (rule moved_trans)
  moreover have "(False, fst (snd v), snd (snd v)) = v" using False by (simp add: prod_eq_iff)
  ultimately show ?thesis using 1(1) 2(1,2)
    by (simp add: oneof_step_def punct_types del: token_of.simps)
qed

lemma oneof_tag_read:
  assumes "stream content p (Punct (CHR ''@'') # Word ''tag'' # Quoted s # ls)"
  shows "\<exists>p' t'. oneof_step p content n (tag, vars, cnt, err) = (Continue, p', t', s, vars, cnt, err)
    \<and> stream content p' ls \<and> moved p p'"
proof -
  obtain p1 where 1: "next_meaningful_token p content = (p1, token_of (Punct (CHR ''@'')))"
    "stream content p1 (Word ''tag'' # Quoted s # ls)" "moved p p1"
    using meaningful [OF assms] by (auto simp: punct_types simp del: token_of.simps)
  obtain p2 where 2: "next_token p1 content = (p2, token_of (Word ''tag''))" "stream content p2 (Quoted s # ls)" "moved p1 p2"
    using next_lexeme [OF 1(2)] by blast
  obtain p3 where 3: "next_token p2 content = (p3, token_of (Quoted s))" "stream content p3 ls" "moved p2 p3"
    using next_lexeme [OF 2(2)] by blast
  have "is_word (token_of (Word ''tag'')) ''tag''" by (subst is_word_Word; simp)
  moreover have "moved p p3" using 1(3) 2(3) 3(3) by (blast intro: moved_trans)
  ultimately show ?thesis using 1(1) 2(1) 3(1,2)
    by (simp add: oneof_step_def punct_types del: token_of.simps)
qed

lemma oneof_loop_read:
  assumes "stream content p (concat (map variant_lexemes vs) @ Punct (CHR ''}'') # ls)"
  shows "\<exists>p' t' vars. oneof_loop p content n (tag, acc, cnt, False) = (True, p', t', tag, vars @ acc, cnt + length vs, False)
    \<and> reindex_variants i (rev vars)
      = map (\<lambda>(i, dep, ty, n). \<lparr>ov_name = n, ov_struct_type_name = ty, ov_index = i, ov_is_deprecated = dep\<rparr>) (enumerate i vs)
    \<and> stream content p' ls \<and> moved p p'"
  using assms
proof (induction vs arbitrary: p acc cnt i)
  case Nil
  then obtain p1 where "next_meaningful_token p content = (p1, token_of (Punct (CHR ''}'')))" "stream content p1 ls" "moved p p1"
    using meaningful [of content p "Punct (CHR ''}'')" ls] by (auto simp: punct_types simp del: token_of.simps)
  moreover have "oneof_step p content n (tag, acc, cnt, False) = (Break, p1, token_of (Punct (CHR ''}'')), tag, acc, cnt, False)"
    using calculation(1) by (simp add: oneof_step_def punct_types del: token_of.simps)
  ultimately show ?case
    by (intro exI [of _ p1] exI [of _ "token_of (Punct (CHR ''}''))"] exI [of _ "[]"]) (subst oneof_loop.simps, simp)
next
  case (Cons v vs)
  have s: "stream content p (variant_lexemes v @ concat (map variant_lexemes vs) @ Punct (CHR ''}'') # ls)"
    using Cons.prems by simp
  obtain p1 t1 where 1: "oneof_step p content n (tag, acc, cnt, False) = (Continue, p1, t1, tag, variant_at cnt v # acc, cnt + 1, False)"
    "stream content p1 (concat (map variant_lexemes vs) @ Punct (CHR ''}'') # ls)" "moved p p1"
    using oneof_step_read [OF s] by blast
  obtain p2 t2 vars where 2: "oneof_loop p1 content n (tag, variant_at cnt v # acc, cnt + 1, False)
      = (True, p2, t2, tag, vars @ variant_at cnt v # acc, cnt + 1 + length vs, False)"
    "reindex_variants (i + 1) (rev vars)
      = map (\<lambda>(i, dep, ty, n). \<lparr>ov_name = n, ov_struct_type_name = ty, ov_index = i, ov_is_deprecated = dep\<rparr>) (enumerate (i + 1) vs)"
    "stream content p2 ls" "moved p1 p2"
    using Cons.IH [OF 1(2), of "variant_at cnt v # acc" "cnt + 1" "i + 1"] by blast
  have "oneof_loop p content n (tag, acc, cnt, False) = (True, p2, t2, tag, (vars @ [variant_at cnt v]) @ acc, cnt + length (v # vs), False)"
    using 1(1) 2(1) by (subst oneof_loop.simps) simp
  moreover have "reindex_variants i (rev (vars @ [variant_at cnt v]))
      = map (\<lambda>(i, dep, ty, n). \<lparr>ov_name = n, ov_struct_type_name = ty, ov_index = i, ov_is_deprecated = dep\<rparr>) (enumerate i (v # vs))"
    using 2(2) by (cases v) (simp add: variant_at_def)
  ultimately show ?case using 1(3) 2(3,4) by (blast intro: moved_trans)
qed

lemma oneof_read:
  assumes "stream content p (Word n # braces (tag_lexemes tag @ concat (map variant_lexemes vs)) @ ls)" and "tables_ok p"
    and "schema_of p n = None" and "vs \<noteq> []"
  shows "\<exists>p' t'. parse_oneof_body p content = (0, p', t') \<and> stream content p' ls
    \<and> defines_item p p' n (item_of (sp_name p) (schema_of p) (D_oneof n tag vs))"
proof -
  let ?vs = "concat (map variant_lexemes vs) @ Punct (CHR ''}'') # ls" and ?tag = "case tag of None \<Rightarrow> ''type'' | Some s \<Rightarrow> s"
  have s: "stream content p (Word n # Punct (CHR ''{'') # tag_lexemes tag @ ?vs)"
    using assms(1) by (simp add: braces_def)
  obtain p1 t1 l c where h: "parse_definition_head ''oneof'' p content = (0, p1, t1, n, l, c)"
    "stream content p1 (tag_lexemes tag @ ?vs)" "moved p p1"
    using head_read [OF s] by blast
  obtain p0 where t0: "oneof_loop p1 content n (''type'', [], 0, False) = oneof_loop p0 content n (?tag, [], 0, False)"
    "stream content p0 ?vs" "moved p1 p0"
  proof (cases tag)
    case None
    then show ?thesis using h(2) that [of p1] by simp
  next
    case (Some u)
    then have "stream content p1 (Punct (CHR ''@'') # Word ''tag'' # Quoted u # ?vs)" using h(2) by simp
    from oneof_tag_read [OF this] obtain q t' where "oneof_step p1 content n (''type'', [], 0, False) = (Continue, q, t', u, [], 0, False)"
      "stream content q ?vs" "moved p1 q" by blast
    then show ?thesis using Some by (intro that [of q]) (subst oneof_loop.simps, simp_all)
  qed
  obtain p2 t2 vars where b: "oneof_loop p0 content n (?tag, [], 0, False) = (True, p2, t2, ?tag, vars, length vs, False)"
    "reindex_variants 0 (rev vars) = variants_of vs" "stream content p2 ls" "moved p0 p2"
    using oneof_loop_read [OF t0(2), of n ?tag "[]" 0 0] by (auto simp: variants_of_def)
  let ?e = "\<lparr>oc_name = n, oc_tag_field = ?tag, oc_variants = variants_of vs, oc_count = length vs,
    oc_name_line = l, oc_name_col = c, oc_filename = sp_name p\<rparr>"
  have "oneof_ok ?e" using reindex_variants_index [of 0 "rev vars"] b(2) oneof_loop_count [OF b(1)] assms(4) by (auto simp: oneof_ok_def)
  moreover have "moved p p2" using h(3) t0(3) b(4) by (blast intro: moved_trans)
  ultimately have d: "register_top_level_item p2 n (Item_oneof ?e) = (0, insert_item p2 n (Item_oneof ?e))"
    "defines_item p (insert_item p2 n (Item_oneof ?e)) n (item_of (sp_name p) (schema_of p) (D_oneof n tag vs))"
    using insert_defines [OF assms(2) _ assms(3), of p2 "Item_oneof ?e"] by simp_all
  have "parse_oneof_body p content = (0, insert_item p2 n (Item_oneof ?e), t2)"
    using h(1) t0(1) b(1,2) d(1) assms(4) by (simp add: parse_oneof_body_def Let_def)
  then show ?thesis using d(2) insert_item_stream [OF b(3)] by blast
qed


section \<open>Files are read back\<close>

text \<open>The schema that a list of declarations adds, and what makes the list well formed.\<close>

fun decls_schema :: "string \<Rightarrow> symbols \<Rightarrow> item_decl list \<Rightarrow> symbols" where
  "decls_schema file sch [] = sch"
| "decls_schema file sch (d # ds) = decls_schema file (sch(decl_name d \<mapsto> item_of file sch d)) ds"

fun decls_ok :: "string \<Rightarrow> symbols \<Rightarrow> item_decl list \<Rightarrow> bool" where
  "decls_ok file sch [] \<longleftrightarrow> True"
| "decls_ok file sch (d # ds) \<longleftrightarrow> item_decl_ok sch d \<and> sch (decl_name d) = None
     \<and> decls_ok file (sch(decl_name d \<mapsto> item_of file sch d)) ds"

lemma type_in_unplaced: "type_in (unplaced sch) = type_in sch" "value_type_in (unplaced sch) = value_type_in sch"
proof -
  show t: "type_in (unplaced sch) = type_in sch"
  proof (rule ext)
    fix n
    show "type_in (unplaced sch) n = type_in sch n"
    proof (cases "sch n")
      case (Some i)
      then show ?thesis by (cases i) (simp_all add: type_in_def unplaced_def split: option.splits)
    qed (simp add: type_in_def unplaced_def split: option.splits)
  qed
  show "value_type_in (unplaced sch) = value_type_in sch" by (rule ext) (simp add: value_type_in_def t)
qed

lemma decl_unplaced:
  "field_of (unplaced sch) = field_of sch" "field_decl_ok (unplaced sch) = field_decl_ok sch"
  "item_of file (unplaced sch) d = item_of file sch d" "item_decl_ok (unplaced sch) d = item_decl_ok sch d"
proof -
  show f: "field_of (unplaced sch) = field_of sch" by (rule ext) (simp only: field_of_def type_in_unplaced)
  show g: "field_decl_ok (unplaced sch) = field_decl_ok sch" by (rule ext) (simp only: field_decl_ok_def f)
  show "item_of file (unplaced sch) d = item_of file sch d" by (cases d) (simp_all add: f)
  show "item_decl_ok (unplaced sch) d = item_decl_ok sch d" by (cases d) (simp_all add: g)
qed

lemma keyword_kinds:
  "top_level_item_kind_from_token (token_of (Word ''struct'')) = TOP_LEVEL_ITEM_STRUCT"
  "top_level_item_kind_from_token (token_of (Word ''enum'')) = TOP_LEVEL_ITEM_ENUM"
  "top_level_item_kind_from_token (token_of (Word ''oneof'')) = TOP_LEVEL_ITEM_ONEOF"
proof -
  have w: "is_word (token_of (Word k)) ''struct'' \<longleftrightarrow> k = ''struct''" "is_word (token_of (Word k)) ''enum'' \<longleftrightarrow> k = ''enum''"
    "is_word (token_of (Word k)) ''oneof'' \<longleftrightarrow> k = ''oneof''" for k
    by (rule is_word_Word, simp)+
  have t: "st_type (token_of (Word k)) = TOKEN_IDENTIFY" "st_txt (token_of (Word k)) = Some k" for k by simp_all
  show "top_level_item_kind_from_token (token_of (Word ''struct'')) = TOP_LEVEL_ITEM_STRUCT"
    "top_level_item_kind_from_token (token_of (Word ''enum'')) = TOP_LEVEL_ITEM_ENUM"
    "top_level_item_kind_from_token (token_of (Word ''oneof'')) = TOP_LEVEL_ITEM_ONEOF"
    unfolding top_level_item_kind_from_token_def w t by simp_all
qed

lemma item_read:
  assumes "stream content p (item_lexemes d @ ls)" and "tables_ok p" and "item_decl_ok (schema_of p) d"
    and "schema_of p (decl_name d) = None"
  shows "\<exists>p1 t p' t'. next_item p content = (False, p1, t) \<and> st_type t \<noteq> TOKEN_EOF
    \<and> parse_top_level_item env parse p1 content t = Inr (0, p', t') \<and> stream content p' ls
    \<and> defines_item p p' (decl_name d) (item_of (sp_name p) (schema_of p) d)"
proof -
  obtain k rest where k: "item_lexemes d = Word k # rest" "k = (case d of D_struct _ _ \<Rightarrow> ''struct'' | D_enum _ _ \<Rightarrow> ''enum''
      | D_oneof _ _ _ \<Rightarrow> ''oneof'')" by (cases d) auto
  have "stream content p (Word k # rest @ ls)" using assms(1) k(1) by simp
  from meaningful [OF this] obtain p1 where n1: "next_meaningful_token p content = (p1, token_of (Word k))"
    "stream content p1 (rest @ ls)" "moved p p1" by (auto simp: punct_types simp del: token_of.simps)
  have kind: "top_level_item_kind_from_token (token_of (Word k)) = (case d of D_struct _ _ \<Rightarrow> TOP_LEVEL_ITEM_STRUCT
      | D_enum _ _ \<Rightarrow> TOP_LEVEL_ITEM_ENUM | D_oneof _ _ _ \<Rightarrow> TOP_LEVEL_ITEM_ONEOF)"
    unfolding k(2) by (cases d) (simp_all add: keyword_kinds del: token_of.simps)
  have item: "next_item p content = (False, p1, token_of (Word k))"
    using n1(1) kind by (cases d) (simp_all add: next_item_def punct_types del: token_of.simps)
  note sch = moved_schema [OF n1(3)] and m = moved_simps [OF n1(3)]
  have "\<exists>p' t'. parse_top_level_item env parse p1 content (token_of (Word k)) = Inr (0, p', t') \<and> stream content p' ls
      \<and> defines_item p1 p' (decl_name d) (item_of (sp_name p1) (schema_of p1) d)"
  proof (cases d)
    case (D_struct n fs)
    then show ?thesis using struct_read [of content p1 n fs ls] n1(2) k(1) assms(2-4) sch
      by (auto simp: parse_top_level_item_def kind simp del: token_of.simps)
  next
    case (D_enum n vs)
    then show ?thesis using enum_read [of content p1 n vs ls] n1(2) k(1) assms(2-4) sch
      by (auto simp: parse_top_level_item_def kind simp del: token_of.simps)
  next
    case (D_oneof n tag vs)
    then show ?thesis using oneof_read [of content p1 n tag vs ls] n1(2) k(1) assms(2-4) sch
      by (auto simp: parse_top_level_item_def kind simp del: token_of.simps)
  qed
  then show ?thesis using item sch m by (auto simp: defines_item_def punct_types simp del: token_of.simps)
qed

lemma items_read:
  assumes "stream content p (concat (map item_lexemes ds))" and "tables_ok p" and "decls_ok (sp_name p) (unplaced (schema_of p)) ds"
  shows "\<exists>p'. parse_items env parse p content False = Inr (False, p') \<and> tables_ok p'
    \<and> unplaced (schema_of p') = decls_schema (sp_name p) (unplaced (schema_of p)) ds
    \<and> sp_diag p' = sp_diag p \<and> sp_stderr p' = sp_stderr p"
  using assms
proof (induction ds arbitrary: p)
  case Nil
  obtain p1 t where n: "next_token p content = (p1, t)" "st_type t = TOKEN_EOF" "moved p p1"
    using next_end [of content p] Nil.prems(1) by auto
  have "next_item p content = (False, p1, t)"
    using skip_none [OF n(1), of True] n(2) by (simp add: next_item_def next_meaningful_token_def)
  then have "parse_items env parse p content False = Inr (False, p1)" using n(2) by (subst parse_items.simps) simp
  then show ?case using moved_schema [OF n(3)] moved_simps [OF n(3)] Nil.prems(2) by simp
next
  case (Cons d ds)
  have s: "stream content p (item_lexemes d @ concat (map item_lexemes ds))" using Cons.prems(1) by simp
  have ok: "item_decl_ok (schema_of p) d" "schema_of p (decl_name d) = None"
    using Cons.prems(3) by (auto simp: decl_unplaced unplaced_def [of "schema_of p"])
      (simp add: decl_unplaced unplaced_def [symmetric])
  obtain p1 t p2 t2 where i: "next_item p content = (False, p1, t)" "st_type t \<noteq> TOKEN_EOF"
    "parse_top_level_item env parse p1 content t = Inr (0, p2, t2)" "stream content p2 (concat (map item_lexemes ds))"
    "defines_item p p2 (decl_name d) (item_of (sp_name p) (schema_of p) d)"
    using item_read [OF s Cons.prems(2) ok] by blast
  have sch: "unplaced (schema_of p2) = (unplaced (schema_of p))(decl_name d \<mapsto> item_of (sp_name p) (unplaced (schema_of p)) d)"
    using i(5) unfolding defines_item_def decl_unplaced by (auto simp: unplaced_def fun_eq_iff)
  have d: "tables_ok p2" "sp_name p2 = sp_name p" "sp_diag p2 = sp_diag p" "sp_stderr p2 = sp_stderr p"
    using i(5) by (simp_all add: defines_item_def)
  have "decls_ok (sp_name p2) (unplaced (schema_of p2)) ds" using Cons.prems(3) sch d(2) by simp
  then obtain p3 where "parse_items env parse p2 content False = Inr (False, p3)" "tables_ok p3"
    "unplaced (schema_of p3) = decls_schema (sp_name p) (unplaced (schema_of p2)) ds" "sp_diag p3 = sp_diag p" "sp_stderr p3 = sp_stderr p"
    using Cons.IH [OF i(4) d(1)] d by auto
  moreover have "parse_items env parse p content False = parse_items env parse p2 content False"
    using i(1-3) by (subst parse_items.simps) simp
  ultimately show ?case using sch by auto
qed

lemma items_of_file:
  assumes "layout_ok lay" and "lexemes lay = concat (map item_lexemes ds)" and "decls_ok file Map.empty ds"
  shows "\<exists>p. parse_items env parse (struct_parser_new\<lparr>sp_name := file, sp_diag := Some (diag_engine_new file (Some (render lay)))\<rparr>)
      (render lay) False = Inr (False, p)
    \<and> unplaced (schema_of p) = decls_schema file Map.empty ds \<and> tables_ok p \<and> sp_stderr p = []
    \<and> sp_diag p = Some (diag_engine_new file (Some (render lay)))"
proof -
  let ?e = "diag_engine_new file (Some (render lay))"
  let ?q = "struct_parser_new\<lparr>sp_name := file, sp_diag := Some ?e\<rparr>"
  have new: "sp_offset ?q = 0" "sp_stderr ?q = []" by (simp_all add: struct_parser_new_def)
  have same: "same_tables struct_parser_new ?q" by (simp add: same_tables_def)
  have "schema_of struct_parser_new = Map.empty"
    by (rule ext) (simp add: schema_of_def struct_parser_new_def)
  then have q: "tables_ok ?q" "unplaced (schema_of ?q) = Map.empty"
    using tables_ok_new tables_ok_cong [OF same] schema_of_cong [OF same] by (simp_all add: unplaced_def)
  have s: "stream (render lay) ?q (concat (map item_lexemes ds))"
    using stream_start [OF assms(1) new(1)] unfolding assms(2) .
  show ?thesis using items_read [OF s q(1), of env parse] q(2) assms(3) new(2) by auto
qed

lemma no_diagnostics: "diag_print_all c (Some (diag_engine_new f t)) = []" "\<not> diag_has_errors (Some (diag_engine_new f t))"
  by (simp_all add: diag_print_all_def diag_has_errors_def diag_engine_new_def)

lemma file_read:
  assumes "layout_ok lay" and "lexemes lay = concat (map item_lexemes ds)" and "decls_ok file Map.empty ds"
  shows "\<exists>p. struct_parser_parse (Suc n) env (struct_parser_new\<lparr>sp_name := file\<rparr>) (render lay) = Inr (0, p)
    \<and> unplaced (schema_of p) = decls_schema file Map.empty ds \<and> tables_ok p \<and> sp_stderr p = []"
proof -
  obtain p2 where i: "parse_items env (struct_parser_parse n env)
      (struct_parser_new\<lparr>sp_name := file, sp_diag := Some (diag_engine_new file (Some (render lay)))\<rparr>) (render lay) False = Inr (False, p2)"
    "tables_ok p2" "unplaced (schema_of p2) = decls_schema file Map.empty ds"
    "sp_diag p2 = Some (diag_engine_new file (Some (render lay)))" "sp_stderr p2 = []"
    using items_of_file [OF assms] by blast
  have "sp_diag (struct_parser_new\<lparr>sp_name := file\<rparr>) = None" by (simp add: struct_parser_new_def)
  then have "struct_parser_parse (Suc n) env (struct_parser_new\<lparr>sp_name := file\<rparr>) (render lay) = Inr (0, print_diagnostics env p2)"
    using i(1,4) no_diagnostics(2) by (simp add: print_diagnostics_def)
  moreover have "same_tables p2 (print_diagnostics env p2)" by (rule print_diagnostics_tables)
  moreover have "sp_stderr (print_diagnostics env p2) = []" using i(4,5) no_diagnostics(1) by (simp add: print_diagnostics_def)
  ultimately show ?thesis using i(2,3) schema_of_cong tables_ok_cong by metis
qed

text \<open>A parser that has a diagnostic engine already keeps it, and prints nothing.\<close>

lemma file_read_quietly:
  assumes "layout_ok lay" and "lexemes lay = concat (map item_lexemes ds)" and "decls_ok file Map.empty ds"
  shows "\<exists>p. struct_parser_parse (Suc n) env
      (struct_parser_new\<lparr>sp_name := file, sp_diag := Some (diag_engine_new file (Some (render lay)))\<rparr>) (render lay) = Inr (0, p)
    \<and> unplaced (schema_of p) = decls_schema file Map.empty ds \<and> tables_ok p
    \<and> sp_diag p = Some (diag_engine_new file (Some (render lay)))"
  using items_of_file [OF assms, of env "struct_parser_parse n env"] no_diagnostics(2) by fastforce

section \<open>Properties\<close>

text \<open>An example: an enum, a oneof and a struct that uses them.\<close>

definition demo_decl_field :: "type_ref \<Rightarrow> string \<Rightarrow> field_decl" where
  "demo_decl_field ty name = \<lparr>dc_json = None, dc_deprecated = False, dc_optional = False, dc_nullable = False, dc_type = ty,
     dc_name = name, dc_array = No_array, dc_default = None\<rparr>"

definition demo_decls :: "item_decl list" where
  "demo_decls = [D_enum ''E'' [(False, ''R''), (True, ''G'')],
     D_struct ''P'' [demo_decl_field (Named ''int'') ''x'', (demo_decl_field (Named ''E'') ''c'')\<lparr>dc_default := Some (Word ''R'')\<rparr>,
       (demo_decl_field (Map_of ''E'') ''m'')\<lparr>dc_optional := True\<rparr>, (demo_decl_field (Named ''bool'') ''b'')\<lparr>dc_array := Sized_array 3\<rparr>],
     D_oneof ''V'' None [(False, ''P'', ''p'')]]"

definition demo_layout :: layout where
  "demo_layout = (map (\<lambda>l. ('' '', l)) (concat (map item_lexemes demo_decls)), [])"

lemma demo_ok: "layout_ok demo_layout" "lexemes demo_layout = concat (map item_lexemes demo_decls)" "decls_ok f Map.empty demo_decls"
proof -
  show "layout_ok demo_layout" by code_simp
  show "lexemes demo_layout = concat (map item_lexemes demo_decls)" by (simp add: lexemes_def demo_layout_def o_def)
  show "decls_ok f Map.empty demo_decls"
    by (simp add: demo_decls_def demo_decl_field_def ident_def is_ident_start_def is_ident_char_def is_digit_def field_decl_ok_def
        field_of_def reserved_def type_in_def lookup_primitive_type_def type_table_def sstr_compare_c_eq_0 cstr_def)
qed

text \<open>
  C1. Parsing a schema is the inverse of writing it: a file that spells any well-formed list of declarations, with any
  blanks between the lexemes, is accepted without a message, and the parser's tables hold exactly the definitions the
  declarations stand for, in their order and with every attribute (positions aside).
\<close>

theorem schema_parse_roundtrip:
  assumes "layout_ok lay" and "lexemes lay = concat (map item_lexemes ds)" and "decls_ok file Map.empty ds"
  shows "\<exists>p. struct_parser_parse (Suc n) env (struct_parser_new\<lparr>sp_name := file\<rparr>) (render lay) = Inr (0, p)
    \<and> unplaced (schema_of p) = decls_schema file Map.empty ds \<and> sp_stderr p = []"
  using file_read [OF assms] by blast

lemma schema_parse_roundtrip_witness:
  "\<exists>p. struct_parser_parse 1 \<lparr>pe_files = Map.empty, pe_color = False\<rparr> (struct_parser_new\<lparr>sp_name := ''a''\<rparr>) (render demo_layout) = Inr (0, p)
    \<and> unplaced (schema_of p) ''E'' = Some (Item_enum \<lparr>ec_name = ''E'', ec_values =
        [\<lparr>ev_name = ''R'', ev_index = 0, ev_is_deprecated = False\<rparr>, \<lparr>ev_name = ''G'', ev_index = 1, ev_is_deprecated = True\<rparr>],
        ec_count = 2, ec_name_line = 0, ec_name_col = 0, ec_filename = ''a''\<rparr>)
    \<and> sp_stderr p = []"
proof -
  obtain p where p: "struct_parser_parse (Suc 0) \<lparr>pe_files = Map.empty, pe_color = False\<rparr> (struct_parser_new\<lparr>sp_name := ''a''\<rparr>)
      (render demo_layout) = Inr (0, p)" "unplaced (schema_of p) = decls_schema ''a'' Map.empty demo_decls" "sp_stderr p = []"
    using schema_parse_roundtrip [OF demo_ok, of 0 "\<lparr>pe_files = Map.empty, pe_color = False\<rparr>" "''a''"] by blast
  show ?thesis using p by (intro exI [of _ p]) (simp add: demo_decls_def values_of_def numeral_2_eq_2)
qed

text \<open>
  A size in an array suffix is cut to 32 bits: a positive multiple of 4294967296 is accepted and leaves the size 0,
  which stands for an array without a size.
\<close>

theorem array_size_wraps:
  assumes "stream content p (Number (dec_str (k * 4294967296)) # Punct (CHR '']'') # l # ls)" and "0 < k" and "k < 2147483648"
    and "\<not> fd_is_array f" and "fd_array_size f = 0"
  shows "\<exists>p'. parse_array_suffix p content (token_of (Punct (CHR ''[''))) f = (0, p', token_of l, f\<lparr>fd_is_array := True\<rparr>)
    \<and> is_dynamic_array (f\<lparr>fd_is_array := True\<rparr>)"
proof -
  let ?n = "k * 4294967296"
  obtain p1 where n1: "next_token p content = (p1, token_of (Number (dec_str ?n)))" "stream content p1 (Punct (CHR '']'') # l # ls)"
    using next_lexeme [OF assms(1)] by blast
  obtain p2 where n2: "next_token p1 content = (p2, token_of (Punct (CHR '']'')))" "stream content p2 (l # ls)"
    using next_lexeme [OF n1(2)] by blast
  obtain p3 where n3: "next_token p2 content = (p3, token_of l)" using next_lexeme [OF n2(2)] by blast
  have sz: "fst (strtol (dec_str ?n)) = int ?n"
    using assms(3) by (simp add: dec_str_show strtol_show_int LONG_MIN_def LONG_MAX_def)
  have "(word_of_nat ?n :: u32) = 0" unfolding word_of_nat_eq_0_iff by simp
  then have "(word_of_int (int ?n) :: u32) = 0" by (simp only: of_int_of_nat_eq)
  then have cast: "int_cast (int ?n) = 0" by (simp add: int_cast_def)
  have "f\<lparr>fd_is_array := True, fd_array_size := 0\<rparr> = f\<lparr>fd_is_array := True\<rparr>" using assms(5) by simp
  then show ?thesis using n1(1) n2(1) n3 assms(2,5) sz cast dec_str_no_dot [of ?n]
    by (simp add: parse_array_suffix_def punct_token_def Let_def txt_of_def is_dynamic_array_def)
qed

definition wrap_layout :: layout where
  "wrap_layout = ([('' '', Number (dec_str 4294967296)), ('' '', Punct (CHR '']'')), ('' '', Punct (CHR '';''))], [])"

lemma array_size_wraps_witness:
  "\<exists>p'. parse_array_suffix struct_parser_new (render wrap_layout) (token_of (Punct (CHR ''['')))
      (struct_field_new ''a'' FIELD_TYPE_INT ''int'') = (0, p', token_of (Punct (CHR '';'')),
      (struct_field_new ''a'' FIELD_TYPE_INT ''int'')\<lparr>fd_is_array := True\<rparr>)"
proof -
  have d: "list_all is_digit (dec_str n) \<and> dec_str n \<noteq> []" for n using dec_str_digits [of n] by simp
  have "lex_ok (Number (dec_str n))" for n
    using d [of n] by (cases "dec_str n") (auto simp: is_number_char_def is_digit_def list_all_iff)
  then have "layout_ok wrap_layout" by (simp add: wrap_layout_def is_blank_def punct_token_def del: lex_ok.simps(2))
  from stream_start [OF this, of struct_parser_new]
  have "stream (render wrap_layout) struct_parser_new (Number (dec_str (1 * 4294967296)) # Punct (CHR '']'') # Punct (CHR '';'') # [])"
    by (simp add: wrap_layout_def lexemes_def struct_parser_new_def)
  from array_size_wraps [OF this, of "struct_field_new ''a'' FIELD_TYPE_INT ''int''"] show ?thesis
    by (auto simp: struct_field_new_def)
qed

end
