(* ===== verification/SchemaInclude.thy ===== *)
theory SchemaInclude
  imports SchemaPrint
begin

text \<open>
  The recursion of the schema parser through \<open>#include\<close>: it ends whenever finitely many paths can be read, and the
  fuel of \<open>struct_parser_parse\<close> only has to exceed their number; paths that are spelled differently are different
  files for the check of circular includes.
\<close>

section \<open>Where the stack can be exhausted\<close>

lemma mem_bytes_no_overflow: "mem_bytes b i n \<noteq> Inl Stack_overflow"
  by (simp add: mem_bytes_def mem_read_def bindE_def split: option.splits)

lemma bindE_Inl_conv: "bindE m f = Inl e \<longleftrightarrow> m = Inl e \<or> (\<exists>x. m = Inr x \<and> f x = Inl e)"
  by (cases m) simp_all

lemma parse_field_type_no_overflow: "parse_field_type p content t f \<noteq> Inl Stack_overflow"
proof -
  have "map_value_text tx lead i \<noteq> Inl Stack_overflow" for tx lead i
    using sstr_of_correct [of tx] by (auto simp: map_value_text_def Let_def bindE_Inl_conv mem_bytes_no_overflow split: if_splits)
  then show ?thesis
    by (auto simp: parse_field_type_def parse_map_field_def Let_def split: prod.splits  simp add: bindE_Inl_conv split: if_splits)
qed

lemma struct_parse_field_no_overflow: "struct_parse_field p content f \<noteq> Inl Stack_overflow"
  by (auto simp: struct_parse_field_def parse_field_type_no_overflow split: prod.splits  simp add: bindE_Inl_conv split: if_splits)

lemma field_loop_no_overflow: "field_loop p content t fs err \<noteq> Inl Stack_overflow"
proof (induction p content t fs err rule: field_loop.induct)
  case (1 p content t fs err)
  show ?case
  proof (cases "st_type t = TOKEN_RIGHT_BRACE \<or> st_type t = TOKEN_EOF \<or> st_type t = TOKEN_ERROR")
    case False
    show ?thesis
    proof (cases "struct_parse_field p content (struct_field_new [] FIELD_TYPE_INT [])")
      case (Inl e)
      then show ?thesis using False struct_parse_field_no_overflow [of p content] by (subst field_loop.simps) auto
    next
      case (Inr x)
      obtain r p1 t1 f where x: "x = (r, p1, t1, f)" by (rule prod_cases4)
      obtain p2 t2 where s: "skip_to_semicolon p1 content t1 = (p2, t2)" by fastforce
      show ?thesis
        using 1(1) [OF False Inr [unfolded x] refl refl refl _ refl s [symmetric]] 1(2) [OF False Inr [unfolded x] refl refl refl]
          False Inr x s
        by (subst field_loop.simps) auto
    qed
  qed (subst field_loop.simps, auto)
qed

lemma parse_struct_definition_no_overflow: "parse_struct_definition p content \<noteq> Inl Stack_overflow"
proof -
  have "parse_struct_body p content \<noteq> Inl Stack_overflow"
    by (auto simp: parse_struct_body_def Let_def field_loop_no_overflow split: prod.splits  simp add: bindE_Inl_conv split: if_splits)
  then show ?thesis
    by (auto simp: parse_struct_definition_def split: prod.splits option.splits  simp add: bindE_Inl_conv split: if_splits)
qed

section \<open>More fuel, same result\<close>

definition less_fuel :: "file_parser \<Rightarrow> file_parser \<Rightarrow> bool" where
  "less_fuel parse parse' \<longleftrightarrow> (\<forall>p content. parse p content = Inl Stack_overflow \<or> parse' p content = parse p content)"

lemma parse_include_more:
  assumes "less_fuel parse parse'"
  shows "parse_include_directive env parse p content = Inl Stack_overflow
    \<or> parse_include_directive env parse' p content = parse_include_directive env parse p content"
proof -
  obtain p1 t1 where n1: "next_token p content = (p1, t1)" by fastforce
  obtain p2 t2 where n2: "next_token p1 content = (p2, t2)" by fastforce
  let ?file = "include_path (sp_name p2) (txt_of t2)"
  show ?thesis
  proof (cases "pe_files env ?file")
    case None
    then show ?thesis by (simp add: parse_include_directive_def n1 n2 Let_def)
  next
    case (Some c)
    then show ?thesis
      using assms [unfolded less_fuel_def, rule_format, of "sub_parser_of p2 ?file c" c]
      by (auto simp: parse_include_directive_def n1 n2 Let_def)
  qed
qed

lemma parse_items_more:
  "less_fuel parse parse' \<Longrightarrow> parse_items env parse p content err = Inl Stack_overflow
    \<or> parse_items env parse' p content err = parse_items env parse p content err"
proof (induction env parse p content err rule: parse_items.induct)
  case (1 env parse p content err)
  obtain inv p1 t1 where n: "next_item p content = (inv, p1, t1)" by (rule prod_cases3)
  show ?case
  proof (cases "st_type t1 = TOKEN_EOF")
    case True
    then show ?thesis using n by (subst (2 3) parse_items.simps) simp
  next
    case False
    have i: "parse_top_level_item env parse p1 content t1 = Inl Stack_overflow
        \<or> parse_top_level_item env parse' p1 content t1 = parse_top_level_item env parse p1 content t1"
      using parse_include_more [OF 1(2), of env p1 content] by (auto simp: parse_top_level_item_def split: top_level_item_kind.splits)
    show ?thesis
    proof (cases "parse_top_level_item env parse p1 content t1")
      case (Inl e)
      then show ?thesis using n False i by (subst (1 2 3) parse_items.simps) auto
    next
      case (Inr x)
      obtain r p2 t2 where x: "x = (r, p2, t2)" by (rule prod_cases3)
      show ?thesis
        using 1(1) [OF n [symmetric] refl refl refl False Inr [unfolded x] refl refl 1(2)] n False i Inr x
        by (subst (1 2 3) parse_items.simps) auto
    qed
  qed
qed

lemma struct_parser_parse_more: "less_fuel (struct_parser_parse n env) (struct_parser_parse (Suc n) env)"
proof (induction n)
  case (Suc n)
  show ?case unfolding less_fuel_def
  proof (intro allI)
    fix p :: struct_parser and content
    let ?q = "if sp_diag p = None then p\<lparr>sp_diag := Some (diag_engine_new (sp_name p) (Some content))\<rparr> else p"
    have "parse_items env (struct_parser_parse n env) ?q content False = Inl Stack_overflow
      \<or> parse_items env (struct_parser_parse (Suc n) env) ?q content False = parse_items env (struct_parser_parse n env) ?q content False"
      by (rule parse_items_more [OF Suc.IH])
    then show "struct_parser_parse (Suc n) env p content = Inl Stack_overflow
        \<or> struct_parser_parse (Suc (Suc n)) env p content = struct_parser_parse (Suc n) env p content"
      unfolding struct_parser_parse.simps(2) Let_def by (elim disjE) simp_all
  qed
qed (simp add: less_fuel_def)

lemma struct_parser_parse_fuel:
  "struct_parser_parse n env p content \<noteq> Inl Stack_overflow \<Longrightarrow> n \<le> m \<Longrightarrow> struct_parser_parse m env p content = struct_parser_parse n env p content"
proof (induction m)
  case (Suc m)
  show ?case
  proof (cases "n \<le> m")
    case True
    then show ?thesis using Suc struct_parser_parse_more [of m env] by (metis less_fuel_def)
  next
    case False
    then have "n = Suc m" using Suc.prems(2) by simp
    then show ?thesis by simp
  qed
qed simp

section \<open>Includes end\<close>

definition readable :: "parse_env \<Rightarrow> string set" where
  "readable env = {f. pe_files env f \<noteq> None}"

text \<open>A file that is being included cannot be included again, so the depth is bounded by the number of readable paths.\<close>

lemma parse_items_no_overflow:
  assumes "\<And>q f c. f \<in> readable env \<Longrightarrow> f \<notin> set (sp_include_stack p) \<Longrightarrow> sp_include_stack q = f # sp_include_stack p
      \<Longrightarrow> parse q c \<noteq> Inl Stack_overflow"
  shows "parse_items env parse p content err \<noteq> Inl Stack_overflow"
  using assms
proof (induction env parse p content err rule: parse_items.induct)
  case (1 env parse p content err)
  obtain inv p1 t1 where n: "next_item p content = (inv, p1, t1)" by (rule prod_cases3)
  have m1: "sp_include_stack p1 = sp_include_stack p" using reads_moves(1) [OF next_item_reads [OF n]] by (simp add: goes_on_def)
  have inc: "parse_include_directive env parse p1 content \<noteq> Inl Stack_overflow"
  proof -
    obtain p2 t2 where n2: "next_token p1 content = (p2, t2)" by fastforce
    obtain p3 t3 where n3: "next_token p2 content = (p3, t3)" by fastforce
    have m3: "sp_include_stack p3 = sp_include_stack p"
      using m1 next_token_frame(5) [OF n2] next_token_frame(5) [OF n3] by simp
    let ?file = "include_path (sp_name p3) (txt_of t3)"
    have "parse (sub_parser_of p3 ?file c) c \<noteq> Inl Stack_overflow"
      if "pe_files env ?file = Some c" "?file \<notin> set (sp_include_stack p3)" for c
      using that m3 by (intro 1(2)) (auto simp: readable_def sub_parser_of_def)
    then show ?thesis
      by (auto simp: parse_include_directive_def n2 n3 Let_def bindE_Inl_conv split: option.splits)
  qed
  then have item: "parse_top_level_item env parse p1 content t1 \<noteq> Inl Stack_overflow"
    by (simp add: parse_top_level_item_def parse_struct_definition_no_overflow split: top_level_item_kind.splits)
  show ?case
  proof (cases "st_type t1 = TOKEN_EOF")
    case True
    then show ?thesis using n by (subst parse_items.simps) simp
  next
    case False
    show ?thesis
    proof (cases "parse_top_level_item env parse p1 content t1")
      case (Inl e)
      then show ?thesis using n False item by (subst parse_items.simps) auto
    next
      case (Inr x)
      obtain r p2 t2 where x: "x = (r, p2, t2)" by (rule prod_cases3)
      have "sp_include_stack p2 = sp_include_stack p"
        using parse_top_level_item_moves [OF Inr [unfolded x]] m1 by (simp add: goes_on_def)
      then show ?thesis
        using 1(1) [OF n [symmetric] refl refl refl False Inr [unfolded x] refl refl] 1(2) n False Inr x
        by (subst parse_items.simps) auto
    qed
  qed
qed

lemma struct_parser_parse_no_overflow:
  assumes "finite (readable env)"
  shows "distinct (sp_include_stack p) \<Longrightarrow> set (sp_include_stack p) \<subseteq> readable env
    \<Longrightarrow> card (readable env) < n + length (sp_include_stack p) \<Longrightarrow> struct_parser_parse n env p content \<noteq> Inl Stack_overflow"
proof (induction n arbitrary: p content)
  case 0
  then have "length (sp_include_stack p) \<le> card (readable env)"
    using card_mono [OF assms 0(2)] by (simp add: distinct_card)
  with 0(3) show ?case by simp
next
  case (Suc n)
  let ?q = "if sp_diag p = None then p\<lparr>sp_diag := Some (diag_engine_new (sp_name p) (Some content))\<rparr> else p"
  have stack: "sp_include_stack ?q = sp_include_stack p" by simp
  have "parse_items env (struct_parser_parse n env) ?q content False \<noteq> Inl Stack_overflow"
  proof (rule parse_items_no_overflow)
    fix q :: struct_parser and f c
    assume f: "f \<in> readable env" "f \<notin> set (sp_include_stack ?q)" "sp_include_stack q = f # sp_include_stack ?q"
    show "struct_parser_parse n env q c \<noteq> Inl Stack_overflow"
      using Suc.prems f unfolding stack by (intro Suc.IH) auto
  qed
  then show ?case unfolding struct_parser_parse.simps(2) Let_def
    by (auto simp: bindE_Inl_conv split: prod.splits)
qed

lemma sstr_of_buffer: "d \<noteq> [] \<Longrightarrow> \<exists>s n. sstr_of d = Inr s \<and> terminated (sbuf s) n d"
proof -
  assume d: "d \<noteq> []"
  obtain s where s: "sstr_of d = Inr s" "sstr_ok s" "sstr_content s = d" using sstr_of_correct [of d] by blast
  show ?thesis using s(1,3) d by (cases rule: sstr_ok_cases [OF s(2)]) auto
qed

section \<open>Properties\<close>

text \<open>
  C7. Whatever a file contains, and through any includes, parsing keeps the tables consistent: a name is defined once, as a
  struct, an enum or a oneof; definitions made before are neither changed nor lost; the indices of the values of an enum and of the
  variants of a oneof are their positions 0, 1, 2 ... in the list that is kept, and a oneof has at least one variant. When finitely many
  paths can be read, includes do not keep the parser from returning.
\<close>

theorem schema_parse_keeps_definitions:
  assumes "tables_ok p"
  shows "(\<forall>r p'. struct_parser_parse n env p content = Inr (r, p') \<longrightarrow> tables_ok p' \<and> schema_of p \<subseteq>\<^sub>m schema_of p')
    \<and> (finite (readable env) \<and> sp_include_stack p = [] \<and> card (readable env) < n \<longrightarrow> struct_parser_parse n env p content \<noteq> Inl Stack_overflow)"
  using struct_parser_parse_keeps [of n env] struct_parser_parse_no_overflow [of env p n content] assms
  unfolding keeps_tables_def grows_def by auto

lemma schema_parse_keeps_definitions_witness:
  "\<exists>p p'. struct_parser_parse 1 \<lparr>pe_files = Map.empty, pe_color = False\<rparr> p (render demo_layout) = Inr (0, p')
    \<and> schema_of p' ''P'' \<noteq> None \<and> tables_ok p' \<and> schema_of p \<subseteq>\<^sub>m schema_of p'"
proof -
  let ?p = "struct_parser_new\<lparr>sp_name := ''a''\<rparr>"
  obtain p' where p': "struct_parser_parse (Suc 0) \<lparr>pe_files = Map.empty, pe_color = False\<rparr> ?p (render demo_layout) = Inr (0, p')"
    "unplaced (schema_of p') = decls_schema ''a'' Map.empty demo_decls"
    using file_read [OF demo_ok, of 0 "\<lparr>pe_files = Map.empty, pe_color = False\<rparr>" "''a''"] by blast
  have "same_tables struct_parser_new ?p" by (simp add: same_tables_def)
  then have "tables_ok ?p" using tables_ok_new tables_ok_cong by blast
  note k = conjunct1 [OF schema_parse_keeps_definitions [OF this, of 1 "\<lparr>pe_files = Map.empty, pe_color = False\<rparr>" "render demo_layout"], rule_format, of 0 p']
  have "unplaced (schema_of p') ''P'' \<noteq> None" unfolding p'(2) by (simp add: demo_decls_def)
  then have "schema_of p' ''P'' \<noteq> None" by (auto simp: unplaced_def)
  with k p'(1) show ?thesis by (intro exI [of _ ?p] exI [of _ p']) simp
qed

text \<open>
  C8. Includes end: when finitely many paths can be read, parsing a file returns, circular includes or not; a depth of
  one more than the number of readable paths is never exceeded, and any larger limit gives the same result.
\<close>

theorem includes_terminate:
  assumes "finite (readable env)" and "sp_include_stack p = []" and "card (readable env) < n"
  shows "struct_parser_parse n env p content \<noteq> Inl Stack_overflow
    \<and> (\<forall>m. struct_parser_parse (n + m) env p content = struct_parser_parse n env p content)"
proof -
  have "struct_parser_parse n env p content \<noteq> Inl Stack_overflow"
    using struct_parser_parse_no_overflow [OF assms(1), of p n content] assms(2,3) by simp
  then show ?thesis by (intro conjI allI struct_parser_parse_fuel) simp_all
qed

definition self_env :: parse_env where
  "self_env = \<lparr>pe_files = [''a'' \<mapsto> '' # include '' @ [CHR 0x22] @ ''a'' @ [CHR 0x22]], pe_color = False\<rparr>"

lemma includes_terminate_witness:
  "struct_parser_parse 2 self_env (struct_parser_new\<lparr>sp_name := ''a''\<rparr>) ('' # include '' @ [CHR 0x22] @ ''a'' @ [CHR 0x22])
    \<noteq> Inl Stack_overflow"
proof -
  have "readable self_env = {''a''}" by (auto simp: readable_def self_env_def)
  then have "finite (readable self_env)" "card (readable self_env) < 2" by simp_all
  from includes_terminate [OF this(1) _ this(2)] show ?thesis by (simp add: struct_parser_new_def)
qed

fun strip_dots :: "string \<Rightarrow> string" where
  "strip_dots (c # d # s) = (if c = CHR ''.'' \<and> d = CHR ''/'' then strip_dots s else c # d # s)"
| "strip_dots s = s"

definition dots :: "nat \<Rightarrow> string" where
  "dots k = concat (replicate k ''./'')"

lemma dots_Suc: "dots (Suc k) = ''./'' @ dots k" "dots (Suc k) = dots k @ ''./''"
proof -
  have "concat (replicate k xs) @ xs = xs @ concat (replicate k xs)" for xs :: string by (induction k) simp_all
  then show "dots (Suc k) = ''./'' @ dots k" "dots (Suc k) = dots k @ ''./''" by (simp_all add: dots_def)
qed

lemma strip_dots_dots: "strip_dots (dots k @ ''a'') = ''a''"
  by (induction k) (simp_all add: dots_def)

lemma include_path_dots: "include_path (dots k @ ''a'') ''./a'' = dots (Suc k) @ ''a''"
proof (cases k)
  case (Suc j)
  have "dropWhile (\<lambda>c. c \<noteq> CHR ''/'') (rev (dots k @ ''a'')) = rev (dots k)" unfolding Suc dots_Suc(2) [of j] by simp
  then show ?thesis unfolding include_path_def dots_Suc(2) [of k] by (simp add: cstr_def)
qed (simp add: include_path_def dots_def cstr_def)

text \<open>A file \<open>a\<close> that includes itself as \<open>./a\<close>, in a file system where \<open>./\<close> means nothing.\<close>

definition dot_source :: string where
  "dot_source = '' # include '' @ [CHR 0x22] @ ''./a'' @ [CHR 0x22]"

definition dot_env :: parse_env where
  "dot_env = \<lparr>pe_files = (\<lambda>f. if strip_dots f = ''a'' then Some dot_source else None), pe_color = False\<rparr>"

lemma dot_overflow:
  "sp_offset p = 0 \<Longrightarrow> sp_name p = dots k @ ''a'' \<Longrightarrow> \<forall>f\<in>set (sp_include_stack p). length f \<le> length (dots k @ ''a'')
    \<Longrightarrow> struct_parser_parse n dot_env p dot_source = Inl Stack_overflow"
proof (induction n arbitrary: p k)
  case (Suc n)
  let ?q = "if sp_diag p = None then p\<lparr>sp_diag := Some (diag_engine_new (sp_name p) (Some dot_source))\<rparr> else p"
  let ?lay = "([('' '', Punct (CHR ''#'')), ('' '', Word ''include''), ('' '', Quoted ''./a'')], []) :: layout"
  have lay: "layout_ok ?lay" "render ?lay = dot_source" "lexemes ?lay = [Punct (CHR ''#''), Word ''include'', Quoted ''./a'']"
    by (simp_all add: is_blank_def punct_token_def ident_def is_ident_start_def is_ident_char_def dot_source_def lexemes_def)
  have s: "stream dot_source ?q [Punct (CHR ''#''), Word ''include'', Quoted ''./a'']"
    using stream_start [OF lay(1), of ?q] Suc.prems(1) unfolding lay(2,3) by simp
  obtain p1 where 1: "next_meaningful_token ?q dot_source = (p1, token_of (Punct (CHR ''#'')))"
    "stream dot_source p1 [Word ''include'', Quoted ''./a'']" "moved ?q p1"
    using meaningful [OF s] by (auto simp: punct_token_def)
  obtain p2 where 2: "next_token p1 dot_source = (p2, token_of (Word ''include''))" "stream dot_source p2 [Quoted ''./a'']" "moved p1 p2"
    using next_lexeme [OF 1(2)] by blast
  obtain p3 where 3: "next_token p2 dot_source = (p3, token_of (Quoted ''./a''))" "moved p2 p3"
    using next_lexeme [OF 2(2)] by blast
  have kind: "top_level_item_kind_from_token (token_of (Punct (CHR ''#''))) = TOP_LEVEL_ITEM_INCLUDE"
    "st_type (token_of (Punct (CHR ''#''))) \<noteq> TOKEN_EOF"
    by (simp_all add: top_level_item_kind_from_token_def punct_token_def)
  have item: "next_item ?q dot_source = (False, p1, token_of (Punct (CHR ''#'')))"
    using 1(1) kind by (simp add: next_item_def del: token_of.simps)
  have m: "sp_name p3 = dots k @ ''a''" "sp_include_stack p3 = sp_include_stack p"
    using moved_simps(4,6) [OF 1(3)] moved_simps(4,6) [OF 2(3)] moved_simps(4,6) [OF 3(2)] Suc.prems(2) by simp_all
  let ?file = "dots (Suc k) @ ''a''"
  have path: "include_path (sp_name p3) ''./a'' = ?file" unfolding m(1) by (rule include_path_dots)
  have longer: "length (dots k) < length (dots (Suc k))" by (simp add: dots_Suc(2))
  have fresh: "?file \<notin> set (sp_include_stack p3)" using Suc.prems(3) longer unfolding m(2) by fastforce
  have readable: "pe_files dot_env ?file = Some dot_source" unfolding dot_env_def by (simp only: strip_dots_dots simp_thms if_True parse_env.simps)
  have sub: "struct_parser_parse n dot_env (sub_parser_of p3 ?file dot_source) dot_source = Inl Stack_overflow"
  proof (rule Suc.IH [of _ "Suc k"])
    show "\<forall>f\<in>set (sp_include_stack (sub_parser_of p3 ?file dot_source)). length f \<le> length ?file"
      using Suc.prems(3) longer m(2) by (fastforce simp: sub_parser_of_def)
  qed (simp_all add: sub_parser_of_def)
  have w: "is_word (token_of (Word ''include'')) ''include''" by (subst is_word_Word; simp)
  have "parse_include_directive dot_env (struct_parser_parse n dot_env) p1 dot_source = Inl Stack_overflow"
    using 2(1) 3(1) w path fresh readable sub by (simp add: parse_include_directive_def Let_def punct_types del: token_of.simps)
  then have "parse_items dot_env (struct_parser_parse n dot_env) ?q dot_source False = Inl Stack_overflow"
    using item kind by (subst parse_items.simps) (simp add: parse_top_level_item_def del: token_of.simps)
  then show ?case unfolding struct_parser_parse.simps(2) Let_def by simp
qed simp

text \<open>
  Circular includes are recognized by the spelling of the path only: a file that includes itself as \<open>./a\<close> is never
  reported, and the recursion exceeds every depth as long as the longer paths can be read.
\<close>

theorem circular_include_undetected:
  "struct_parser_parse n dot_env (struct_parser_new\<lparr>sp_name := ''a''\<rparr>) dot_source = Inl Stack_overflow"
  using dot_overflow [of "struct_parser_new\<lparr>sp_name := ''a''\<rparr>" 0 n] by (simp add: struct_parser_new_def dots_def)

text \<open>
  The value type of a map starts where its text does, but its end is computed from a pointer that has been moved over
  the blanks in front of the key type: with one blank there, the name gets the terminating NUL of the text as its last
  byte, so it is no known type any more and the field refers to an unknown struct.
\<close>

theorem map_parameter_blank:
  assumes "stream content p (Angled ('' sstr_t, '' @ v) # ls)" and "ident v" and "tables_ok p" and "schema_of p (v @ [NUL]) = None"
  shows "\<exists>p' t' f'. parse_map_field p content f n = Inr (0, p', t', f')
    \<and> fd_map_value_type f' = FIELD_TYPE_STRUCT \<and> fd_map_value_type_name f' = Some (v @ [NUL])"
proof -
  let ?tx = "'' sstr_t, '' @ v"
  obtain p1 where n1: "next_token p content = (p1, \<lparr>st_type = TOKEN_STRING, st_txt = Some ?tx\<rparr>)" "moved p p1"
    using next_lexeme [OF assms(1)] by auto
  have c: "cstr ?tx = ?tx" using ident_no_NUL [OF assms(2)] by (intro cstr_whole) simp
  obtain s k where s: "sstr_of ?tx = Inr s" "terminated (sbuf s) k ?tx" using sstr_of_buffer [of ?tx] by auto
  have "mem_bytes (sbuf s) 9 (Suc (length v)) = Inr (v @ [NUL])"
    using s(2) by (auto simp: terminated_def mem_bytes_def mem_read_def eval_nat_numeral)
  moreover have "rstrip (v @ [NUL]) = v @ [NUL]" by (simp add: rstrip_def)
  ultimately have val: "map_value_text ?tx 1 9 = Inr (v @ [NUL])" using s(1) by (simp add: map_value_text_def)
  have lead: "takeWhile (\<lambda>c. c = CHR '' '') v = []" using ident_last [OF assms(2)] by (cases v) auto
  have prim: "lookup_primitive_type (v @ [NUL]) = None"
    by (simp add: lookup_primitive_type_def type_table_def sstr_compare_c_eq_0 cstr_def append_eq_Cons_conv)
  have "type_in (schema_of p1) (v @ [NUL]) = FIELD_TYPE_STRUCT"
    using moved_schema [OF n1(2)] assms(4) prim by (simp add: type_in_def)
  then have ty: "map_value_type_of p1 (v @ [NUL]) = FIELD_TYPE_STRUCT"
    using type_in_tables(2) [of p1 "v @ [NUL]"] moved_schema [OF n1(2)] assms(3) by (simp add: value_type_in_def)
  have key: "rstrip ''sstr_t'' = ''sstr_t''" by (simp add: rstrip_def)
  show ?thesis using n1 c val lead ty key
    by (simp add: parse_map_field_def Let_def txt_of_def eval_nat_numeral)
qed

lemma map_parameter_blank_witness:
  "\<exists>p' t' f'. parse_map_field struct_parser_new '' < sstr_t, int>'' (struct_field_new [] FIELD_TYPE_INT []) ''map'' = Inr (0, p', t', f')
    \<and> fd_map_value_type f' = FIELD_TYPE_STRUCT \<and> fd_map_value_type_name f' = Some (''int'' @ [NUL])"
proof -
  let ?lay = "([('' '', Angled ('' sstr_t, '' @ ''int''))], []) :: layout"
  have "layout_ok ?lay" by (simp add: is_blank_def)
  from stream_start [OF this, of struct_parser_new]
  have "stream '' < sstr_t, int>'' struct_parser_new (Angled ('' sstr_t, '' @ ''int'') # [])"
    by (simp add: lexemes_def struct_parser_new_def)
  moreover have "ident ''int''" by (simp add: ident_def is_ident_start_def is_ident_char_def)
  moreover have "schema_of struct_parser_new (''int'' @ [NUL]) = None" by (simp add: schema_of_def struct_parser_new_def)
  ultimately show ?thesis using map_parameter_blank tables_ok_new by blast
qed

end
