(* ===== verification/SchemaValidate.thy ===== *)
theory SchemaValidate
  imports SchemaInclude
begin

text \<open>
  The validation of a parsed schema (\<open>struct_parser_validate_to\<close> of \<open>src/struct/struct_parse.c\<close>): duplicate
  names inside a definition, references to definitions that do not exist, default values of enum fields, and C
  keywords as names. A callback of \<open>hash_map_for_each\<close> transforms the diagnostic engine.
\<close>

section \<open>Keywords\<close>

definition c_keywords :: "string list" where
  "c_keywords = [''auto'', ''break'', ''case'', ''char'', ''const'', ''continue'', ''default'', ''do'',
     ''else'', ''extern'', ''for'', ''goto'', ''if'', ''inline'', ''register'', ''restrict'',
     ''return'', ''short'', ''signed'', ''sizeof'', ''static'', ''switch'', ''typedef'',
     ''union'', ''unsigned'', ''void'', ''volatile'', ''while'',
     ''_Alignas'', ''_Alignof'', ''_Atomic'', ''_Bool'', ''_Complex'', ''_Generic'',
     ''_Imaginary'', ''_Noreturn'', ''_Static_assert'', ''_Thread_local'']"

text \<open>\<open>strcmp\<close> stops at a NUL.\<close>

definition is_c_keyword :: "string \<Rightarrow> bool" where
  "is_c_keyword name \<longleftrightarrow> list_ex (\<lambda>kw. cstr name = kw) c_keywords"

section \<open>The callbacks\<close>

type_synonym diags = "diag_engine option"

record validate_ctx =
  vc_struct_map :: "struct_container sstr_map"
  vc_enum_map :: "enum_container sstr_map"
  vc_oneof_map :: "oneof_container sstr_map"

definition emit_error :: "int \<Rightarrow> int \<Rightarrow> string \<Rightarrow> diags \<Rightarrow> diags" where
  "emit_error line col msg d = diag_emit True True d DIAG_ERROR line col msg"

definition emit_warning :: "int \<Rightarrow> int \<Rightarrow> string \<Rightarrow> diags \<Rightarrow> diags" where
  "emit_warning line col msg d = diag_emit True True d DIAG_WARNING line col msg"

definition quoted_name :: "string \<Rightarrow> string" where
  "quoted_name s = in_quotes (cstr s)"

text \<open>The two nested loops over a list: \<open>report x y\<close> for every two equal names, the earlier one first.\<close>

fun report_duplicates :: "('a \<Rightarrow> string) \<Rightarrow> ('a \<Rightarrow> 'a \<Rightarrow> diags \<Rightarrow> diags) \<Rightarrow> 'a list \<Rightarrow> diags \<Rightarrow> diags" where
  "report_duplicates name report [] d = d"
| "report_duplicates name report (f # fs) d =
     report_duplicates name report fs
       (fold (\<lambda>g d. if sstr_compare (Some (name f)) (Some (name g)) = 0 then report f g d else d) fs d)"

definition validate_reference :: "validate_ctx \<Rightarrow> string \<Rightarrow> struct_field \<Rightarrow> diags \<Rightarrow> diags" where
  "validate_reference ctx sname f d =
     (let undefined_type = (\<lambda>what ty. emit_error (fd_line f) (fd_col f)
            (''use of undefined '' @ what @ quoted_name ty @ '' in struct '' @ quoted_name sname @ '' field '' @ quoted_name (fd_name f)));
          d1 = (if fd_type f = FIELD_TYPE_STRUCT \<and> \<not> map_has (vc_struct_map ctx) (fd_type_name f)
                then undefined_type ''type '' (fd_type_name f) d else d);
          d2 = (if fd_type f = FIELD_TYPE_ONEOF \<and> \<not> map_has (vc_oneof_map ctx) (fd_type_name f)
                then undefined_type ''oneof type '' (fd_type_name f) d1 else d1);
          value_name = (case fd_map_value_type_name f of Some n \<Rightarrow> n | None \<Rightarrow> [])
      in if fd_type f = FIELD_TYPE_MAP \<and> fd_map_value_type f = FIELD_TYPE_STRUCT \<and> \<not> map_has (vc_struct_map ctx) value_name
         then undefined_type ''type '' value_name d2 else d2)"

definition validate_field_keyword :: "string \<Rightarrow> struct_field \<Rightarrow> diags \<Rightarrow> diags" where
  "validate_field_keyword sname f d =
     (if is_c_keyword (fd_name f) then
        emit_warning (fd_line f) (fd_col f)
          (''field name '' @ quoted_name (fd_name f) @ '' in struct '' @ quoted_name sname @ '' is a C keyword'') d
      else d)"

text \<open>A field that has a default value has its text.\<close>

definition default_text :: "struct_field \<Rightarrow> string" where
  "default_text f = (case fd_default_value f of Some s \<Rightarrow> s | None \<Rightarrow> [])"

definition validate_default :: "validate_ctx \<Rightarrow> struct_field \<Rightarrow> diags \<Rightarrow> diags" where
  "validate_default ctx f d =
     (if fd_has_default f \<and> fd_type f = FIELD_TYPE_ENUM then
        (case hash_map_find (vc_enum_map ctx) (fd_type_name f) of
           (r, Some ec) \<Rightarrow>
             if r = HASH_MAP_OK
                \<and> \<not> list_ex (\<lambda>v. sstr_compare (fd_default_value f) (Some (ev_name v)) = 0) (ec_values ec) then
               emit_error (fd_line f) (fd_col f)
                 (''default value '' @ quoted_name (default_text f) @ '' is not a valid constant of enum '' @ quoted_name (fd_type_name f)) d
             else d
         | (r, None) \<Rightarrow> d)
      else d)"

definition validate_struct_fields :: "validate_ctx \<Rightarrow> string \<Rightarrow> struct_container \<Rightarrow> diags \<Rightarrow> diags" where
  "validate_struct_fields ctx key sct d =
     (let sname = sc_name sct;
          d1 = report_duplicates fd_name (\<lambda>f g. emit_error (fd_line g) (fd_col g)
                 (''duplicate field name '' @ quoted_name (fd_name f) @ '' in struct '' @ quoted_name sname)) (sc_fields sct) d;
          d2 = fold (validate_reference ctx sname) (sc_fields sct) d1;
          d3 = fold (validate_field_keyword sname) (sc_fields sct) d2;
          d4 = fold (validate_default ctx) (sc_fields sct) d3
      in if is_c_keyword sname then
           emit_warning (sc_name_line sct) (sc_name_col sct) (''struct name '' @ quoted_name sname @ '' is a C keyword'') d4
         else d4)"

definition validate_enum_values :: "validate_ctx \<Rightarrow> string \<Rightarrow> enum_container \<Rightarrow> diags \<Rightarrow> diags" where
  "validate_enum_values ctx key ec d =
     (let ename = ec_name ec;
          d1 = report_duplicates ev_name (\<lambda>v w. emit_error 0 0
                 (''duplicate enum value '' @ quoted_name (ev_name v) @ '' in enum '' @ quoted_name ename)) (ec_values ec) d
      in if is_c_keyword ename then
           emit_warning (ec_name_line ec) (ec_name_col ec) (''enum name '' @ quoted_name ename @ '' is a C keyword'') d1
         else d1)"

definition validate_oneof_variants :: "validate_ctx \<Rightarrow> string \<Rightarrow> oneof_container \<Rightarrow> diags \<Rightarrow> diags" where
  "validate_oneof_variants ctx key oc d =
     (let oname = oc_name oc; line = oc_name_line oc; col = oc_name_col oc;
          d1 = fold (\<lambda>v d. if \<not> map_has (vc_struct_map ctx) (ov_struct_type_name v) then
                 emit_error line col (''variant '' @ quoted_name (ov_name v) @ '' references undefined struct ''
                   @ quoted_name (ov_struct_type_name v) @ '' in oneof '' @ quoted_name oname) d else d) (oc_variants oc) d;
          d2 = report_duplicates ov_name (\<lambda>v w. emit_error line col
                 (''duplicate variant name '' @ quoted_name (ov_name v) @ '' in oneof '' @ quoted_name oname)) (oc_variants oc) d1
      in if is_c_keyword oname then
           emit_warning line col (''oneof name '' @ quoted_name oname @ '' is a C keyword'') d2
         else d2)"

text \<open>The code and what is printed to \<open>out\<close>; without a stream nothing is printed.\<close>

definition struct_parser_validate_to :: "bool \<Rightarrow> bool \<Rightarrow> struct_parser \<Rightarrow> int \<times> string" where
  "struct_parser_validate_to use_color has_out p =
     (let ctx = \<lparr>vc_struct_map = sp_struct_map p, vc_enum_map = sp_enum_map p, vc_oneof_map = sp_oneof_map p\<rparr>;
          d0 = Some (diag_engine_new ''<schema>'' None);
          d1 = hash_map_for_each (sp_struct_map p) (validate_struct_fields ctx) d0;
          d2 = hash_map_for_each (sp_enum_map p) (validate_enum_values ctx) d1;
          d3 = hash_map_for_each (sp_oneof_map p) (validate_oneof_variants ctx) d2
      in (if diag_has_errors d3 then -1 else 0,
          if has_out \<and> (case d3 of Some e \<Rightarrow> dg_entries e \<noteq> [] | None \<Rightarrow> False) then diag_print_all use_color d3 else []))"

section \<open>Valid schemas\<close>

definition is_struct_in :: "symbols \<Rightarrow> string \<Rightarrow> bool" where
  "is_struct_in sch n \<longleftrightarrow> (\<exists>s. sch n = Some (Item_struct s))"

definition is_oneof_in :: "symbols \<Rightarrow> string \<Rightarrow> bool" where
  "is_oneof_in sch n \<longleftrightarrow> (\<exists>v. sch n = Some (Item_oneof v))"

text \<open>A field refers to definitions that exist, and the default value of an enum field is one of its values.\<close>

definition field_valid :: "symbols \<Rightarrow> struct_field \<Rightarrow> bool" where
  "field_valid sch f \<longleftrightarrow>
     (fd_type f = FIELD_TYPE_STRUCT \<longrightarrow> is_struct_in sch (fd_type_name f))
     \<and> (fd_type f = FIELD_TYPE_ONEOF \<longrightarrow> is_oneof_in sch (fd_type_name f))
     \<and> (fd_type f = FIELD_TYPE_MAP \<and> fd_map_value_type f = FIELD_TYPE_STRUCT \<longrightarrow>
          is_struct_in sch (case fd_map_value_type_name f of Some n \<Rightarrow> n | None \<Rightarrow> []))
     \<and> (\<forall>e. fd_has_default f \<and> fd_type f = FIELD_TYPE_ENUM \<and> sch (fd_type_name f) = Some (Item_enum e) \<longrightarrow>
          fd_default_value f \<in> Some ` ev_name ` set (ec_values e))"

fun item_valid :: "symbols \<Rightarrow> top_level_item \<Rightarrow> bool" where
  "item_valid sch (Item_struct s) \<longleftrightarrow> distinct (map fd_name (sc_fields s)) \<and> (\<forall>f\<in>set (sc_fields s). field_valid sch f)"
| "item_valid sch (Item_enum e) \<longleftrightarrow> distinct (map ev_name (ec_values e))"
| "item_valid sch (Item_oneof v) \<longleftrightarrow> distinct (map ov_name (oc_variants v))
     \<and> (\<forall>x\<in>set (oc_variants v). is_struct_in sch (ov_struct_type_name x))"

definition schema_valid :: "symbols \<Rightarrow> bool" where
  "schema_valid sch \<longleftrightarrow> (\<forall>name item. sch name = Some item \<longrightarrow> item_valid sch item)"

section \<open>What the callbacks report\<close>

text \<open>\<open>reports F P\<close>: the engine has errors behind \<open>F\<close> exactly when it had some before or \<open>P\<close>.\<close>

definition engine_ok :: "diags \<Rightarrow> bool" where
  "engine_ok d \<longleftrightarrow> (\<exists>e. d = Some e \<and> 0 < dg_max_errors e)"

definition reports :: "(diags \<Rightarrow> diags) \<Rightarrow> bool \<Rightarrow> bool" where
  "reports F P \<longleftrightarrow> (\<forall>d. engine_ok d \<longrightarrow> engine_ok (F d) \<and> (diag_has_errors (F d) \<longleftrightarrow> diag_has_errors d \<or> P))"

lemma reports_error: "reports (emit_error l c m) True"
  by (auto simp: reports_def engine_ok_def emit_error_def diag_emit_def diag_has_errors_def Let_def)

lemma reports_warning: "reports (emit_warning l c m) False"
  by (auto simp: reports_def engine_ok_def emit_warning_def diag_emit_def diag_has_errors_def Let_def split: if_splits)

lemma reports_id: "reports (\<lambda>d. d) False"
  by (simp add: reports_def)

lemma reports_when:
  "reports (\<lambda>d. if b then emit_error l c m d else d) b" "reports (\<lambda>d. if b then emit_warning l c m d else d) False"
  by (cases b; simp add: reports_error reports_warning reports_id)+

lemma reports_comp: "reports F P \<Longrightarrow> reports G Q \<Longrightarrow> reports (\<lambda>d. G (F d)) (P \<or> Q)"
  by (auto simp: reports_def)

lemma reports_fold: "(\<And>x. x \<in> set xs \<Longrightarrow> reports (F x) (P x)) \<Longrightarrow> reports (fold F xs) (\<exists>x\<in>set xs. P x)"
proof (induction xs)
  case (Cons x xs)
  have "reports (\<lambda>d. fold F xs (F x d)) (P x \<or> (\<exists>y\<in>set xs. P y))"
    by (rule reports_comp) (use Cons in auto)
  then show ?case by (simp add: o_def)
qed (simp add: reports_id id_def)

lemma reports_duplicates:
  "(\<And>f g. reports (report f g) True) \<Longrightarrow> reports (report_duplicates name report fs) (\<not> distinct (map name fs))"
proof (induction fs)
  case (Cons f fs)
  have "reports (fold (\<lambda>g d. if sstr_compare (Some (name f)) (Some (name g)) = 0 then report f g d else d) fs)
      (\<exists>g\<in>set fs. name f = name g)"
  proof (rule reports_fold)
    show "reports (\<lambda>d. if sstr_compare (Some (name f)) (Some (name g)) = 0 then report f g d else d) (name f = name g)" for g
      by (cases "name f = name g") (simp_all add: sstr_compare_eq_0 Cons.prems reports_id)
  qed
  from reports_comp [OF this Cons.IH [OF Cons.prems]] show ?case
    by (simp add: sstr_compare_eq_0 image_iff)
qed (simp add: reports_def)

lemma reports_cong: "reports F P \<Longrightarrow> P = Q \<Longrightarrow> reports F Q"
  by simp

section \<open>The tables as a schema\<close>

lemma schema_of_iff:
  assumes "tables_ok p"
  shows "schema_of p n = Some (Item_struct s) \<longleftrightarrow> hm_abs (sp_struct_map p) n = Some s"
    "schema_of p n = Some (Item_enum e) \<longleftrightarrow> hm_abs (sp_enum_map p) n = Some e"
    "schema_of p n = Some (Item_oneof v) \<longleftrightarrow> hm_abs (sp_oneof_map p) n = Some v"
proof -
  have d: "names_disjoint p" using assms by (simp add: tables_ok_def)
  show "schema_of p n = Some (Item_struct s) \<longleftrightarrow> hm_abs (sp_struct_map p) n = Some s"
    by (auto simp: schema_of_def split: option.splits)
  have "hm_abs (sp_struct_map p) n = None" if "hm_abs (sp_enum_map p) n = Some e" for e
    using d that by (auto simp: names_disjoint_def)
  then show "schema_of p n = Some (Item_enum e) \<longleftrightarrow> hm_abs (sp_enum_map p) n = Some e"
    by (auto simp: schema_of_def split: option.splits)
  have "hm_abs (sp_struct_map p) n = None \<and> hm_abs (sp_enum_map p) n = None" if "hm_abs (sp_oneof_map p) n = Some v" for v
    using d that by (auto simp: names_disjoint_def)
  then show "schema_of p n = Some (Item_oneof v) \<longleftrightarrow> hm_abs (sp_oneof_map p) n = Some v"
    by (auto simp: schema_of_def split: option.splits)
qed

lemma reports_for_each:
  assumes "hm_inv m" and "\<And>k v. hm_abs m k = Some v \<Longrightarrow> reports (F k v) (P v)"
  shows "reports (hash_map_for_each m F) (\<exists>k v. hm_abs m k = Some v \<and> P v)"
proof -
  have "reports (fold (\<lambda>(k, v). F k v) (concat (buckets m))) (\<exists>x\<in>set (concat (buckets m)). P (snd x))"
  proof (rule reports_fold)
    fix x
    assume x: "x \<in> set (concat (buckets m))"
    then have "hm_abs m (fst x) = Some (snd x)" using set_hm_entries [OF assms(1), of "fst x" "snd x"] by simp
    then show "reports ((\<lambda>(k, v). F k v) x) (P (snd x))" using assms(2) by (simp add: case_prod_beta)
  qed
  moreover have "(\<exists>x\<in>set (concat (buckets m)). P (snd x)) \<longleftrightarrow> (\<exists>k v. hm_abs m k = Some v \<and> P v)"
    using set_hm_entries [OF assms(1)] by (metis prod.collapse snd_conv)
  moreover have "hash_map_for_each m F = fold (\<lambda>(k, v). F k v) (concat (buckets m))"
    by (rule ext) (simp add: hash_map_for_each_concat case_prod_beta' )
  ultimately show ?thesis by simp
qed


section \<open>The callbacks decide validity\<close>

lemma reports_reference:
  "reports (validate_reference ctx n f)
     (fd_type f = FIELD_TYPE_STRUCT \<and> \<not> map_has (vc_struct_map ctx) (fd_type_name f)
      \<or> fd_type f = FIELD_TYPE_ONEOF \<and> \<not> map_has (vc_oneof_map ctx) (fd_type_name f)
      \<or> fd_type f = FIELD_TYPE_MAP \<and> fd_map_value_type f = FIELD_TYPE_STRUCT
        \<and> \<not> map_has (vc_struct_map ctx) (case fd_map_value_type_name f of Some n \<Rightarrow> n | None \<Rightarrow> []))"
  unfolding validate_reference_def [abs_def] Let_def
  by (rule reports_cong, rule reports_comp [OF reports_comp [OF reports_when(1) reports_when(1)] reports_when(1)]) blast

lemma reports_keyword: "reports (validate_field_keyword n f) False"
  unfolding validate_field_keyword_def [abs_def] by (rule reports_when)

lemma reports_default:
  "reports (validate_default ctx f) (fd_has_default f \<and> fd_type f = FIELD_TYPE_ENUM
     \<and> (\<exists>e. hash_map_find (vc_enum_map ctx) (fd_type_name f) = (HASH_MAP_OK, Some e)
            \<and> fd_default_value f \<notin> Some ` ev_name ` set (ec_values e)))"
proof (cases "fd_has_default f \<and> fd_type f = FIELD_TYPE_ENUM")
  case True
  obtain r eo where f: "hash_map_find (vc_enum_map ctx) (fd_type_name f) = (r, eo)" by fastforce
  show ?thesis
  proof (cases eo)
    case None
    then show ?thesis using True f by (simp add: validate_default_def [abs_def] reports_id)
  next
    case (Some e)
    have l: "list_ex (\<lambda>v. sstr_compare (fd_default_value f) (Some (ev_name v)) = 0) (ec_values e)
        \<longleftrightarrow> fd_default_value f \<in> Some ` ev_name ` set (ec_values e)"
    proof (cases "fd_default_value f")
      case None
      then have "\<not> list_ex (\<lambda>v. sstr_compare (fd_default_value f) (Some (ev_name v)) = 0) (ec_values e)"
        by (auto simp: list_ex_iff sstr_compare_def)
      then show ?thesis using None by auto
    qed (auto simp: list_ex_iff sstr_compare_eq_0)
    have "validate_default ctx f = (\<lambda>d. if r = HASH_MAP_OK \<and> fd_default_value f \<notin> Some ` ev_name ` set (ec_values e)
        then emit_error (fd_line f) (fd_col f) (''default value '' @ quoted_name (default_text f)
          @ '' is not a valid constant of enum '' @ quoted_name (fd_type_name f)) d else d)"
      using True by (intro ext) (simp only: validate_default_def f Some l simp_thms if_True option.case prod.case)
    then show ?thesis using True f Some
      by (simp only:) (rule reports_cong, rule reports_when(1), auto)
  qed
qed (auto simp: validate_default_def [abs_def] reports_id)

lemma reports_struct:
  "reports (validate_struct_fields ctx k s) (\<not> distinct (map fd_name (sc_fields s))
     \<or> (\<exists>f\<in>set (sc_fields s). fd_type f = FIELD_TYPE_STRUCT \<and> \<not> map_has (vc_struct_map ctx) (fd_type_name f)
          \<or> fd_type f = FIELD_TYPE_ONEOF \<and> \<not> map_has (vc_oneof_map ctx) (fd_type_name f)
          \<or> fd_type f = FIELD_TYPE_MAP \<and> fd_map_value_type f = FIELD_TYPE_STRUCT
            \<and> \<not> map_has (vc_struct_map ctx) (case fd_map_value_type_name f of Some n \<Rightarrow> n | None \<Rightarrow> []))
     \<or> (\<exists>f\<in>set (sc_fields s). fd_has_default f \<and> fd_type f = FIELD_TYPE_ENUM
          \<and> (\<exists>e. hash_map_find (vc_enum_map ctx) (fd_type_name f) = (HASH_MAP_OK, Some e)
                 \<and> fd_default_value f \<notin> Some ` ev_name ` set (ec_values e))))"
proof -
  note d1 = reports_duplicates [of "\<lambda>f g. emit_error (fd_line g) (fd_col g)
     (''duplicate field name '' @ quoted_name (fd_name f) @ '' in struct '' @ quoted_name (sc_name s))" fd_name "sc_fields s", OF reports_error]
  note d2 = reports_fold [of "sc_fields s" "validate_reference ctx (sc_name s)", OF reports_reference]
  note d3 = reports_fold [of "sc_fields s" "validate_field_keyword (sc_name s)", OF reports_keyword]
  note d4 = reports_fold [of "sc_fields s" "validate_default ctx", OF reports_default]
  have d5: "reports (\<lambda>d. if is_c_keyword (sc_name s) then emit_warning (sc_name_line s) (sc_name_col s)
      (''struct name '' @ quoted_name (sc_name s) @ '' is a C keyword'') d else d) False"
    by (rule reports_when)
  show ?thesis
    using reports_comp [OF reports_comp [OF reports_comp [OF reports_comp [OF d1 d2] d3] d4] d5]
    unfolding validate_struct_fields_def [abs_def] Let_def by (rule reports_cong) blast
qed

lemma reports_enum: "reports (validate_enum_values ctx k e) (\<not> distinct (map ev_name (ec_values e)))"
proof -
  note d1 = reports_duplicates [of "\<lambda>v w. emit_error 0 0
     (''duplicate enum value '' @ quoted_name (ev_name v) @ '' in enum '' @ quoted_name (ec_name e))" ev_name "ec_values e", OF reports_error]
  have d2: "reports (\<lambda>d. if is_c_keyword (ec_name e) then emit_warning (ec_name_line e) (ec_name_col e)
      (''enum name '' @ quoted_name (ec_name e) @ '' is a C keyword'') d else d) False"
    by (rule reports_when)
  show ?thesis using reports_comp [OF d1 d2]
    unfolding validate_enum_values_def [abs_def] Let_def by (rule reports_cong) blast
qed

lemma reports_oneof: "reports (validate_oneof_variants ctx k v) (\<not> distinct (map ov_name (oc_variants v))
    \<or> (\<exists>x\<in>set (oc_variants v). \<not> map_has (vc_struct_map ctx) (ov_struct_type_name x)))"
proof -
  have d1: "reports (fold (\<lambda>x d. if \<not> map_has (vc_struct_map ctx) (ov_struct_type_name x) then
      emit_error (oc_name_line v) (oc_name_col v) (''variant '' @ quoted_name (ov_name x) @ '' references undefined struct ''
        @ quoted_name (ov_struct_type_name x) @ '' in oneof '' @ quoted_name (oc_name v)) d else d) (oc_variants v))
      (\<exists>x\<in>set (oc_variants v). \<not> map_has (vc_struct_map ctx) (ov_struct_type_name x))"
    by (rule reports_fold) (rule reports_when)
  note d2 = reports_duplicates [of "\<lambda>x y. emit_error (oc_name_line v) (oc_name_col v)
     (''duplicate variant name '' @ quoted_name (ov_name x) @ '' in oneof '' @ quoted_name (oc_name v))" ov_name "oc_variants v", OF reports_error]
  have d3: "reports (\<lambda>d. if is_c_keyword (oc_name v) then emit_warning (oc_name_line v) (oc_name_col v)
      (''oneof name '' @ quoted_name (oc_name v) @ '' is a C keyword'') d else d) False"
    by (rule reports_when)
  show ?thesis using reports_comp [OF reports_comp [OF d1 d2] d3]
    unfolding validate_oneof_variants_def [abs_def] Let_def by (rule reports_cong) blast
qed

text \<open>The verdict, for the tables of a parser.\<close>

lemma validate_decides:
  assumes p: "tables_ok p"
  shows "fst (struct_parser_validate_to use_color has_out p) = (if schema_valid (schema_of p) then 0 else -1)"
proof -
  let ?ctx = "\<lparr>vc_struct_map = sp_struct_map p, vc_enum_map = sp_enum_map p, vc_oneof_map = sp_oneof_map p\<rparr>"
  have inv: "hm_inv (sp_struct_map p)" "hm_inv (sp_enum_map p)" "hm_inv (sp_oneof_map p)"
    using p by (simp_all add: tables_ok_def)
  note iff = schema_of_iff [OF p]
  have find: "map_has (sp_struct_map p) n \<longleftrightarrow> is_struct_in (schema_of p) n" "map_has (sp_oneof_map p) n \<longleftrightarrow> is_oneof_in (schema_of p) n"
    "hash_map_find (sp_enum_map p) n = (HASH_MAP_OK, Some e) \<longleftrightarrow> schema_of p n = Some (Item_enum e)" for n e
    using hash_map_find_correct [OF inv(2), of n]
    by (auto simp: map_has_abs inv is_struct_in_def is_oneof_in_def iff hash_map_codes split: option.splits)
  have s: "reports (hash_map_for_each (sp_struct_map p) (validate_struct_fields ?ctx))
      (\<exists>k s. hm_abs (sp_struct_map p) k = Some s \<and> \<not> item_valid (schema_of p) (Item_struct s))"
    by (rule reports_for_each [OF inv(1)], rule reports_cong, rule reports_struct) (auto simp: find field_valid_def)
  have e: "reports (hash_map_for_each (sp_enum_map p) (validate_enum_values ?ctx))
      (\<exists>k e. hm_abs (sp_enum_map p) k = Some e \<and> \<not> item_valid (schema_of p) (Item_enum e))"
    by (rule reports_for_each [OF inv(2)], rule reports_cong, rule reports_enum) simp
  have v: "reports (hash_map_for_each (sp_oneof_map p) (validate_oneof_variants ?ctx))
      (\<exists>k v. hm_abs (sp_oneof_map p) k = Some v \<and> \<not> item_valid (schema_of p) (Item_oneof v))"
    by (rule reports_for_each [OF inv(3)], rule reports_cong, rule reports_oneof) (auto simp: find)
  let ?d0 = "Some (diag_engine_new ''<schema>'' None)"
  let ?d3 = "hash_map_for_each (sp_oneof_map p) (validate_oneof_variants ?ctx)
      (hash_map_for_each (sp_enum_map p) (validate_enum_values ?ctx) (hash_map_for_each (sp_struct_map p) (validate_struct_fields ?ctx) ?d0))"
  have new: "engine_ok ?d0" "\<not> diag_has_errors ?d0"
    by (simp_all add: engine_ok_def diag_has_errors_def diag_engine_new_def diag_limits)
  have "diag_has_errors ?d3 \<longleftrightarrow> \<not> schema_valid (schema_of p)"
  proof -
    have "schema_valid (schema_of p) \<longleftrightarrow> (\<forall>n. (\<forall>s. schema_of p n = Some (Item_struct s) \<longrightarrow> item_valid (schema_of p) (Item_struct s))
        \<and> (\<forall>e. schema_of p n = Some (Item_enum e) \<longrightarrow> item_valid (schema_of p) (Item_enum e))
        \<and> (\<forall>v. schema_of p n = Some (Item_oneof v) \<longrightarrow> item_valid (schema_of p) (Item_oneof v)))"
      unfolding schema_valid_def by (metis top_level_item.exhaust)
    then show ?thesis
      using reports_comp [OF reports_comp [OF s e] v] new unfolding reports_def iff by blast
  qed
  then show ?thesis by (simp add: struct_parser_validate_to_def Let_def)
qed

section \<open>Properties\<close>

lemma schema_valid_unplaced: "schema_valid (unplaced sch) = schema_valid sch"
proof -
  have s: "is_struct_in (unplaced sch) = is_struct_in sch"
  proof (rule ext)
    show "is_struct_in (unplaced sch) n = is_struct_in sch n" for n
    proof (cases "sch n")
      case (Some i)
      then show ?thesis by (cases i) (simp_all add: is_struct_in_def unplaced_def)
    qed (simp add: is_struct_in_def unplaced_def)
  qed
  have o: "is_oneof_in (unplaced sch) = is_oneof_in sch"
  proof (rule ext)
    show "is_oneof_in (unplaced sch) n = is_oneof_in sch n" for n
    proof (cases "sch n")
      case (Some i)
      then show ?thesis by (cases i) (simp_all add: is_oneof_in_def unplaced_def)
    qed (simp add: is_oneof_in_def unplaced_def)
  qed
  have e: "(\<exists>e. unplaced sch n = Some (Item_enum e) \<and> v \<notin> Some ` ev_name ` set (ec_values e))
      \<longleftrightarrow> (\<exists>e. sch n = Some (Item_enum e) \<and> v \<notin> Some ` ev_name ` set (ec_values e))" for n v
  proof (cases "sch n")
    case (Some i)
    then show ?thesis by (cases i) (simp_all add: unplaced_def)
  qed (simp add: unplaced_def)
  have f: "field_valid (unplaced sch) (unplaced_field f) = field_valid sch f" for f
    using e [of "fd_type_name f" "fd_default_value f"] unfolding field_valid_def s o by (simp add: unplaced_field_def) blast
  have i: "item_valid (unplaced sch) (unplaced_item i) = item_valid sch i" for i
  proof (cases i)
    case (Item_struct x)
    have "fd_name \<circ> unplaced_field = fd_name" by (rule ext) (simp add: unplaced_field_def)
    then show ?thesis using Item_struct f by simp
  qed (simp_all add: s)
  show ?thesis unfolding schema_valid_def using i by (auto simp: unplaced_def)
qed

text \<open>
  C2. The validation decides whether the parsed schema is well formed: it returns 0 exactly when no two fields, values or
  variants of a definition have the same name, every struct or oneof that a field, a map value or a variant refers to is
  defined, and every default value of an enum field is a value of its enum.
\<close>

theorem schema_validate_decides:
  assumes "tables_ok p"
  shows "fst (struct_parser_validate_to use_color has_out p) = (if schema_valid (schema_of p) then 0 else -1)"
  by (rule validate_decides [OF assms])

definition dangling :: top_level_item where
  "dangling = Item_struct \<lparr>sc_name = ''A'', sc_fields = [struct_field_new ''x'' FIELD_TYPE_STRUCT ''B''],
     sc_name_line = 1, sc_name_col = 1, sc_filename = ''f''\<rparr>"

lemma schema_validate_decides_witness:
  "fst (struct_parser_validate_to True True struct_parser_new) = 0
    \<and> fst (struct_parser_validate_to True True (insert_item struct_parser_new ''A'' dangling)) = -1"
proof
  have new: "schema_of struct_parser_new = Map.empty" by (rule ext) (simp add: schema_of_def struct_parser_new_def)
  then have "schema_valid (schema_of struct_parser_new)" by (simp add: schema_valid_def)
  then show "fst (struct_parser_validate_to True True struct_parser_new) = 0"
    using schema_validate_decides [OF tables_ok_new] by simp
  note d = insert_item_schema [OF tables_ok_new, of "''A''" dangling]
  have ok: "tables_ok (insert_item struct_parser_new ''A'' dangling)"
    and sch: "schema_of (insert_item struct_parser_new ''A'' dangling) = [''A'' \<mapsto> dangling]"
    using d new by (simp_all add: dangling_def)
  have "\<not> schema_valid [''A'' \<mapsto> dangling]"
    by (simp add: schema_valid_def dangling_def field_valid_def is_struct_in_def struct_field_new_def)
  then show "fst (struct_parser_validate_to True True (insert_item struct_parser_new ''A'' dangling)) = -1"
    using schema_validate_decides [OF ok] unfolding sch by simp
qed

text \<open>
  C39. From the text of a schema to the verdict: a file that spells well-formed declarations is parsed, and the validation of
  the result returns 0 exactly when the schema that the declarations stand for is valid.
\<close>

theorem schema_file_verdict:
  assumes "layout_ok lay" and "lexemes lay = concat (map item_lexemes ds)" and "decls_ok file Map.empty ds"
  shows "\<exists>p. struct_parser_parse (Suc n) env (struct_parser_new\<lparr>sp_name := file\<rparr>) (render lay) = Inr (0, p)
    \<and> fst (struct_parser_validate_to use_color has_out p) = (if schema_valid (decls_schema file Map.empty ds) then 0 else -1)"
proof -
  obtain p where p: "struct_parser_parse (Suc n) env (struct_parser_new\<lparr>sp_name := file\<rparr>) (render lay) = Inr (0, p)"
    "unplaced (schema_of p) = decls_schema file Map.empty ds" "tables_ok p"
    using file_read [OF assms] by blast
  have "fst (struct_parser_validate_to use_color has_out p) = (if schema_valid (schema_of p) then 0 else -1)"
    by (rule validate_decides [OF p(3)])
  then show ?thesis using p(1) schema_valid_unplaced [of "schema_of p"] unfolding p(2) by auto
qed

lemma schema_file_verdict_witness:
  "\<exists>p. struct_parser_parse 1 \<lparr>pe_files = Map.empty, pe_color = False\<rparr> (struct_parser_new\<lparr>sp_name := ''a''\<rparr>) (render demo_layout) = Inr (0, p)
    \<and> fst (struct_parser_validate_to False True p) = 0"
proof -
  have "schema_valid (decls_schema ''a'' Map.empty demo_decls)"
    by (simp add: demo_decls_def demo_decl_field_def schema_valid_def field_valid_def is_struct_in_def is_oneof_in_def field_of_def
        values_of_def variants_of_def type_in_def value_type_in_def lookup_primitive_type_def type_table_def sstr_compare_c_eq_0 cstr_def)
  then show ?thesis
    using schema_file_verdict [OF demo_ok, of 0 "\<lparr>pe_files = Map.empty, pe_color = False\<rparr>" "''a''" False True] by simp
qed

end
