(* ===== verification/JsonStore.thy ===== *)
theory JsonStore
  imports JsonArray OffsetTable
begin

text \<open>
  The memory the generated parsers fill: blocks of bytes that hold whole C objects. An address is a block and
  an offset in it. A byte is indeterminate, zero (the zero of every type), or one byte of an object, so that a
  read sees exactly what was stored there with the same size, and a partly overwritten object cannot be read.
  Strings (\<open>sstr_t\<close>) are stored as their contents; releasing them is not modelled. Allocation succeeds.
\<close>

section \<open>Computations that may fault or not return\<close>

text \<open>\<open>None\<close>: the computation has not returned within its bound on steps.\<close>

type_synonym 'a run = "(fault + 'a) option"

definition bindD :: "'a run \<Rightarrow> ('a \<Rightarrow> 'b run) \<Rightarrow> 'b run" where
  "bindD m f = (case m of None \<Rightarrow> None | Some (Inl e) \<Rightarrow> Some (Inl e) | Some (Inr x) \<Rightarrow> f x)"

lemma bindD_simps [simp]:
  "bindD None f = None"
  "bindD (Some (Inl e)) f = Some (Inl e)"
  "bindD (Some (Inr x)) f = f x"
  by (simp_all add: bindD_def)

lemma bindD_Some_conv: "bindD m f = Some (Inr y) \<longleftrightarrow> (\<exists>x. m = Some (Inr x) \<and> f x = Some (Inr y))"
  by (auto simp: bindD_def split: option.splits sum.splits)

lemma bindD_cong [fundef_cong]:
  "m = m' \<Longrightarrow> (\<And>x. m' = Some (Inr x) \<Longrightarrow> f x = g x) \<Longrightarrow> bindD m f = bindD m' g"
  by (auto simp: bindD_def split: option.splits sum.splits)

section \<open>Memory\<close>

type_synonym ptr = "nat \<times> nat"

definition shift :: "ptr \<Rightarrow> nat \<Rightarrow> ptr" where
  "shift p k = (fst p, snd p + k)"

lemma shift_simps [simp]: "fst (shift p k) = fst p" "snd (shift p k) = snd p + k" "shift (shift p k) l = shift p (k + l)" "shift p 0 = p"
  by (simp_all add: shift_def)

text \<open>An address value is null or the start of a block.\<close>

datatype 'd cval = Value "'d jvalue" | Address "nat option"

text \<open>\<open>Frag v n i\<close>: byte \<open>i\<close> of an object of \<open>n\<close> bytes that holds \<open>v\<close>.\<close>

datatype 'd mbyte = Undef | Zero | Frag "'d cval" nat nat

record 'd store =
  st_bytes :: "nat \<Rightarrow> nat \<Rightarrow> 'd mbyte"
  st_room :: "nat \<Rightarrow> nat option"
  st_next :: nat

definition accessible :: "'d store \<Rightarrow> ptr \<Rightarrow> nat \<Rightarrow> bool" where
  "accessible m p n \<longleftrightarrow> (case st_room m (fst p) of None \<Rightarrow> False | Some s \<Rightarrow> snd p + n \<le> s)"

definition set_bytes :: "ptr \<Rightarrow> nat \<Rightarrow> (nat \<Rightarrow> 'd mbyte) \<Rightarrow> 'd store \<Rightarrow> 'd store" where
  "set_bytes p n f m = m\<lparr>st_bytes := (\<lambda>b i. if b = fst p \<and> snd p \<le> i \<and> i < snd p + n then f (i - snd p) else st_bytes m b i)\<rparr>"

definition store_value :: "ptr \<Rightarrow> nat \<Rightarrow> 'd cval \<Rightarrow> 'd store \<Rightarrow> fault + 'd store" where
  "store_value p n v m = (if accessible m p n then Inr (set_bytes p n (Frag v n) m) else Inl Out_of_bounds)"

text \<open>\<open>memset(p, 0, n)\<close>.\<close>

definition zero_bytes :: "ptr \<Rightarrow> nat \<Rightarrow> 'd store \<Rightarrow> fault + 'd store" where
  "zero_bytes p n m = (if accessible m p n then Inr (set_bytes p n (\<lambda>i. Zero) m) else Inl Out_of_bounds)"

definition bytes_at :: "'d store \<Rightarrow> ptr \<Rightarrow> nat \<Rightarrow> 'd mbyte list" where
  "bytes_at m p n = map (\<lambda>i. st_bytes m (fst p) (snd p + i)) [0..<n]"

text \<open>The object of the bytes; \<open>z\<close> is the zero of the type that is read.\<close>

definition decode :: "'d cval \<Rightarrow> 'd mbyte list \<Rightarrow> 'd cval option" where
  "decode z bs = (if list_all (\<lambda>b. b = Zero) bs then Some z
     else case hd bs of
       Frag v n i \<Rightarrow> if bs = map (Frag v (length bs)) [0..<length bs] then Some v else None
     | _ \<Rightarrow> None)"

definition load_value :: "ptr \<Rightarrow> nat \<Rightarrow> 'd cval \<Rightarrow> 'd store \<Rightarrow> fault + 'd cval" where
  "load_value p n z m =
     (if \<not> accessible m p n then Inl Out_of_bounds
      else case decode z (bytes_at m p n) of Some v \<Rightarrow> Inr v | None \<Rightarrow> Inl Uninitialised)"

definition load_int :: "ptr \<Rightarrow> 'd store \<Rightarrow> fault + int" where
  "load_int p m = bindE (load_value p 4 (Value (J_int 0)) m)
     (\<lambda>v. case v of Value (J_int i) \<Rightarrow> Inr i | _ \<Rightarrow> Inl Uninitialised)"

definition load_addr :: "ptr \<Rightarrow> 'd store \<Rightarrow> fault + nat option" where
  "load_addr p m = bindE (load_value p 8 (Address None) m)
     (\<lambda>v. case v of Address a \<Rightarrow> Inr a | _ \<Rightarrow> Inl Uninitialised)"

definition load_str :: "ptr \<Rightarrow> 'd store \<Rightarrow> fault + string option" where
  "load_str p m = bindE (load_value p 8 (Value (J_str None)) m)
     (\<lambda>v. case v of Value (J_str s) \<Rightarrow> Inr s | _ \<Rightarrow> Inl Uninitialised)"

definition store_int :: "ptr \<Rightarrow> int \<Rightarrow> 'd store \<Rightarrow> fault + 'd store" where
  "store_int p i = store_value p 4 (Value (J_int i))"

definition store_addr :: "ptr \<Rightarrow> nat option \<Rightarrow> 'd store \<Rightarrow> fault + 'd store" where
  "store_addr p a = store_value p 8 (Address a)"

text \<open>A \<open>bool\<close> has one byte.\<close>

definition store_bool :: "ptr \<Rightarrow> bool \<Rightarrow> 'd store \<Rightarrow> fault + 'd store" where
  "store_bool p b = store_value p 1 (Value (J_int (if b then 1 else 0)))"

text \<open>\<open>*p\<close> for a pointer to a block.\<close>

definition block_of :: "nat option \<Rightarrow> fault + ptr" where
  "block_of a = (case a of None \<Rightarrow> Inl Null_deref | Some b \<Rightarrow> Inr (b, 0))"

section \<open>Allocation\<close>

definition mem_malloc :: "nat \<Rightarrow> 'd store \<Rightarrow> nat \<times> 'd store" where
  "mem_malloc n m = (st_next m, m\<lparr>st_bytes := (st_bytes m)(st_next m := (\<lambda>_. Undef)),
     st_room := (st_room m)(st_next m \<mapsto> n), st_next := Suc (st_next m)\<rparr>)"

text \<open>A block keeps its name when it is resized; bytes beyond its former end are indeterminate.\<close>

definition mem_realloc :: "nat option \<Rightarrow> nat \<Rightarrow> 'd store \<Rightarrow> fault + nat \<times> 'd store" where
  "mem_realloc a n m = (case a of
     None \<Rightarrow> Inr (mem_malloc n m)
   | Some b \<Rightarrow> (case st_room m b of
       None \<Rightarrow> Inl Out_of_bounds
     | Some s \<Rightarrow> Inr (b, m\<lparr>st_bytes := (st_bytes m)(b := (\<lambda>i. if i < min s n then st_bytes m b i else Undef)),
                         st_room := (st_room m)(b \<mapsto> n)\<rparr>)))"

definition mem_free :: "nat option \<Rightarrow> 'd store \<Rightarrow> fault + 'd store" where
  "mem_free a m = (case a of
     None \<Rightarrow> Inr m
   | Some b \<Rightarrow> if st_room m b = None then Inl Out_of_bounds else Inr (m\<lparr>st_room := (st_room m)(b := None)\<rparr>))"

definition mem_copy :: "ptr \<Rightarrow> ptr \<Rightarrow> nat \<Rightarrow> 'd store \<Rightarrow> fault + 'd store" where
  "mem_copy dst src n m =
     (if accessible m dst n \<and> accessible m src n
      then Inr (set_bytes dst n (\<lambda>i. st_bytes m (fst src) (snd src + i)) m) else Inl Out_of_bounds)"

text \<open>\<open>if (len >= cap) { cap = cap == 0 ? 4 : cap * 2; arr = realloc(arr, cap * size); }\<close>.\<close>

definition grow_array :: "nat \<Rightarrow> nat \<Rightarrow> nat \<Rightarrow> nat option \<Rightarrow> 'd store \<Rightarrow> fault + nat \<times> nat option \<times> 'd store" where
  "grow_array len cap sz arr m =
     (if len < cap then Inr (cap, arr, m)
      else
        (let cap' = (if cap = 0 then 4 else cap * 2)
         in bindE (mem_realloc arr (cap' * sz) m) (\<lambda>(b, m'). Inr (cap', Some b, m'))))"

text \<open>\<open>if (len > 0 && len < cap) arr = realloc(arr, len * size)\<close>.\<close>

definition shrink_array :: "nat \<Rightarrow> nat \<Rightarrow> nat \<Rightarrow> nat option \<Rightarrow> 'd store \<Rightarrow> fault + nat option \<times> 'd store" where
  "shrink_array len cap sz arr m =
     (if 0 < len \<and> len < cap then bindE (mem_realloc arr (len * sz) m) (\<lambda>(b, m'). Inr (Some b, m'))
      else Inr (arr, m))"

section \<open>Objects in memory\<close>

definition object_at :: "'d store \<Rightarrow> ptr \<Rightarrow> nat \<Rightarrow> 'd cval \<Rightarrow> bool" where
  "object_at m p n v \<longleftrightarrow> accessible m p n \<and> bytes_at m p n = map (Frag v n) [0..<n]"

definition zeroed :: "'d store \<Rightarrow> ptr \<Rightarrow> nat \<Rightarrow> bool" where
  "zeroed m p n \<longleftrightarrow> (\<forall>i<n. st_bytes m (fst p) (snd p + i) = Zero)"

text \<open>
  Of the blocks there were, only the bytes \<open>F\<close> of the block \<open>b\<close> may have changed, and no size.
\<close>

definition changed :: "'d store \<Rightarrow> 'd store \<Rightarrow> nat \<Rightarrow> nat set \<Rightarrow> bool" where
  "changed m m' b F \<longleftrightarrow> st_next m \<le> st_next m'
     \<and> (\<forall>c < st_next m. st_room m' c = st_room m c \<and> (\<forall>i. \<not> (c = b \<and> i \<in> F) \<longrightarrow> st_bytes m' c i = st_bytes m c i))"

lemma changed_refl [simp]: "changed m m b F"
  by (simp add: changed_def)

lemma changed_trans: "changed m m' b F \<Longrightarrow> changed m' m'' b G \<Longrightarrow> changed m m'' b (F \<union> G)"
  unfolding changed_def by (metis Un_iff le_trans order_less_le_trans)

lemma changed_mono: "changed m m' b F \<Longrightarrow> F \<subseteq> G \<Longrightarrow> changed m m' b G"
  unfolding changed_def by blast

lemma changed_next: "changed m m' b F \<Longrightarrow> st_next m \<le> st_next m'"
  by (simp add: changed_def)

text \<open>What happens in a block that is new leaves the blocks there were alone.\<close>

lemma changed_fresh: "changed m m' b F \<Longrightarrow> changed m' m'' c G \<Longrightarrow> st_next m \<le> c \<Longrightarrow> changed m m'' b F"
  unfolding changed_def by (metis le_trans not_le order_less_le_trans)

lemma accessible_changed: "changed m m' b F \<Longrightarrow> fst p < st_next m \<Longrightarrow> accessible m' p n = accessible m p n"
  by (simp add: changed_def accessible_def)

lemma bytes_changed:
  "changed m m' b F \<Longrightarrow> fst p < st_next m \<Longrightarrow> fst p \<noteq> b \<or> {snd p..<snd p + n} \<inter> F = {} \<Longrightarrow> i < n \<Longrightarrow>
   st_bytes m' (fst p) (snd p + i) = st_bytes m (fst p) (snd p + i)"
  unfolding changed_def disjoint_iff by auto

lemma object_changed:
  "object_at m p n v \<Longrightarrow> changed m m' b F \<Longrightarrow> fst p < st_next m \<Longrightarrow> fst p \<noteq> b \<or> {snd p..<snd p + n} \<inter> F = {} \<Longrightarrow> object_at m' p n v"
  by (simp add: object_at_def accessible_changed bytes_at_def bytes_changed list_eq_iff_nth_eq)

lemma zeroed_changed:
  "zeroed m p n \<Longrightarrow> changed m m' b F \<Longrightarrow> fst p < st_next m \<Longrightarrow> fst p \<noteq> b \<or> {snd p..<snd p + n} \<inter> F = {} \<Longrightarrow> zeroed m' p n"
  by (simp add: zeroed_def bytes_changed)

lemma accessible_part: "accessible m p n \<Longrightarrow> k + l \<le> n \<Longrightarrow> accessible m (shift p k) l"
  by (auto simp: accessible_def split: option.splits)

lemma zeroed_part: "zeroed m p n \<Longrightarrow> k + l \<le> n \<Longrightarrow> zeroed m (shift p k) l"
  by (auto simp: zeroed_def add.assoc)

lemma load_object: "object_at m p n v \<Longrightarrow> 0 < n \<Longrightarrow> load_value p n z m = Inr v"
  by (cases n) (simp_all add: object_at_def load_value_def decode_def upt_rec [of 0])

lemma load_zeroed: "zeroed m p n \<Longrightarrow> accessible m p n \<Longrightarrow> load_value p n z m = Inr z"
  by (simp add: zeroed_def load_value_def decode_def bytes_at_def list_all_iff)

lemma store_object:
  assumes "accessible m p n"
  shows "\<exists>m'. store_value p n v m = Inr m' \<and> object_at m' p n v \<and> changed m m' (fst p) {snd p..<snd p + n}
    \<and> st_next m' = st_next m \<and> st_room m' = st_room m"
  using assms by (simp add: store_value_def object_at_def bytes_at_def set_bytes_def accessible_def changed_def)

lemma zero_object:
  assumes "accessible m p n"
  shows "\<exists>m'. zero_bytes p n m = Inr m' \<and> zeroed m' p n \<and> changed m m' (fst p) {snd p..<snd p + n}
    \<and> st_next m' = st_next m \<and> st_room m' = st_room m"
  using assms by (simp add: zero_bytes_def zeroed_def set_bytes_def accessible_def changed_def)

lemma malloc_fresh:
  assumes "mem_malloc n m = (b, m')"
  shows "b = st_next m" "changed m m' c {}" "accessible m' (b, 0) n" "st_next m' = Suc (st_next m)"
  using assms by (auto simp: mem_malloc_def changed_def accessible_def)

end
