(* ===== verification/JsonClear.thy ===== *)
theory JsonClear
  imports JsonStore
begin

text \<open>
  What the generated parsers know of the program's structs, and the releasing of fields before they are
  read again (\<open>json_clear_*\<close> in \<open>src/gencode/codes/json_parse.c\<close>).
\<close>

section \<open>The generated tables\<close>

text \<open>
  The rows of \<open>json_field_offset_item[]\<close> and their hash table are what \<open>gen_code_offset_map\<close> emits. The columns
  that are constant expressions are evaluated by the C compiler (\<open>je_const\<close>), the arrays of strings they
  name are static data of the generated file (\<open>je_strings\<close>). \<open>strtof\<close> and \<open>strtod\<close> are the C library's.
\<close>

record 'd json_env =
  je_items :: "offset_item list"
  je_hash :: "int list"
  je_const :: "string \<Rightarrow> int"
  je_strings :: "string \<Rightarrow> string list"
  je_strtof :: "string \<Rightarrow> 'd \<times> string"
  je_strtod :: "string \<Rightarrow> 'd \<times> string"
  je_zero :: 'd

definition col :: "'d json_env \<Rightarrow> string \<Rightarrow> nat" where
  "col env e = nat (je_const env e)"

definition fi_offset :: "'d json_env \<Rightarrow> offset_item \<Rightarrow> nat" where
  "fi_offset env fi = col env (it_offset fi)"

definition fi_size :: "'d json_env \<Rightarrow> offset_item \<Rightarrow> nat" where
  "fi_size env fi = col env (it_type_size fi)"

text \<open>\<open>enum_strings\<close> and \<open>enum_count\<close>, for oneofs the tags of the variants.\<close>

definition fi_strings :: "'d json_env \<Rightarrow> offset_item \<Rightarrow> string list" where
  "fi_strings env fi = take (col env (it_enum_count fi)) (je_strings env (it_enum_strings fi))"

definition find_item :: "'d json_env \<Rightarrow> string \<Rightarrow> string \<Rightarrow> offset_item option option" where
  "find_item env = json_field_offset_item_find (je_items env) (je_hash env)"

text \<open>\<open>if (fi->has_field_offset >= 0) *(bool*)(instance + fi->has_field_offset) = b\<close>.\<close>

definition set_has :: "'d json_env \<Rightarrow> offset_item \<Rightarrow> ptr \<Rightarrow> bool \<Rightarrow> 'd store \<Rightarrow> fault + 'd store" where
  "set_has env fi inst b m =
     (let off = je_const env (it_has_field_offset fi)
      in if off \<ge> 0 then store_bool (shift inst (nat off)) b m else Inr m)"

section \<open>Types of values\<close>

fun c_int_of :: "field_type \<Rightarrow> c_int option" where
  "c_int_of FIELD_TYPE_INT = Some C_int"
| "c_int_of FIELD_TYPE_BOOL = Some C_int"
| "c_int_of FIELD_TYPE_LONG = Some C_long"
| "c_int_of FIELD_TYPE_INT8 = Some C_int8_t"
| "c_int_of FIELD_TYPE_INT16 = Some C_int16_t"
| "c_int_of FIELD_TYPE_INT32 = Some C_int32_t"
| "c_int_of FIELD_TYPE_INT64 = Some C_int64_t"
| "c_int_of FIELD_TYPE_UINT8 = Some C_uint8_t"
| "c_int_of FIELD_TYPE_UINT16 = Some C_uint16_t"
| "c_int_of FIELD_TYPE_UINT32 = Some C_uint32_t"
| "c_int_of FIELD_TYPE_UINT64 = Some C_uint64_t"
| "c_int_of _ = None"

text \<open>The element type of a field of scalars or strings, and its size.\<close>

definition elem_of :: "'d json_env \<Rightarrow> field_type \<Rightarrow> 'd elem_type option" where
  "elem_of env ft = (case c_int_of ft of
     Some T \<Rightarrow> Some (E_int T)
   | None \<Rightarrow> if ft = FIELD_TYPE_FLOAT then Some (E_float (je_strtof env) (je_zero env))
             else if ft = FIELD_TYPE_DOUBLE then Some (E_double (je_strtod env) (je_zero env))
             else if ft = FIELD_TYPE_SSTR then Some E_sstr else None)"

fun elem_size :: "'d elem_type \<Rightarrow> nat" where
  "elem_size (E_int T) = c_int_bits T div 8"
| "elem_size (E_float conv z) = 4"
| "elem_size (E_double conv z) = 8"
| "elem_size E_sstr = 8"

section \<open>Releasing values\<close>

text \<open>\<open>json_array_length_field\<close>: the row of the length of an array.\<close>

definition json_array_length_field :: "'d json_env \<Rightarrow> offset_item \<Rightarrow> offset_item option option" where
  "json_array_length_field env fi = find_item env (it_struct_name fi) (cstr (it_field_name fi) @ ''_len'')"

fun for_range :: "(nat \<Rightarrow> 's \<Rightarrow> 's run) \<Rightarrow> nat list \<Rightarrow> 's \<Rightarrow> 's run" where
  "for_range f [] s = Some (Inr s)"
| "for_range f (i # is) s = bindD (f i s) (for_range f is)"

text \<open>\<open>sstr_free(*p); *p = NULL\<close>.\<close>

definition clear_str :: "ptr \<Rightarrow> 'd store \<Rightarrow> fault + 'd store" where
  "clear_str p m = bindE (load_str p m) (\<lambda>_. store_value p 8 (Value (J_str None)) m)"

text \<open>\<open>clr\<close> releases the fields of a struct, see \<open>json_clear_struct_value\<close> below.\<close>

type_synonym 'd clearer = "ptr \<Rightarrow> string \<Rightarrow> 'd store \<Rightarrow> 'd store run"

definition json_clear_map_value :: "'d clearer \<Rightarrow> ptr \<Rightarrow> offset_item \<Rightarrow> 'd store \<Rightarrow> 'd store run" where
  "json_clear_map_value clr p fi m =
     (if it_map_value_type fi = field_type_id FIELD_TYPE_SSTR then Some (clear_str p m)
      else if it_map_value_type fi = field_type_id FIELD_TYPE_STRUCT then clr p (it_field_type_name fi) m
      else Some (Inr m))"

text \<open>A map is the pointer to its entries, followed by their number.\<close>

definition json_clear_map_container :: "'d json_env \<Rightarrow> 'd clearer \<Rightarrow> ptr \<Rightarrow> offset_item \<Rightarrow> 'd store \<Rightarrow> 'd store run" where
  "json_clear_map_container env clr map_ptr fi m =
     bindD (Some (load_addr map_ptr m)) (\<lambda>entries.
     bindD (Some (load_int (shift map_ptr 8) m)) (\<lambda>len.
     bindD (for_range (\<lambda>i m. bindD (Some (block_of entries)) (\<lambda>base.
              (let entry = shift base (i * col env (it_map_entry_size fi))
               in bindD (Some (bindE (load_str entry m) (\<lambda>_. Inr m))) (\<lambda>m.
                  json_clear_map_value clr (shift entry (col env (it_map_value_offset fi))) fi m))))
            [0..<nat len] m) (\<lambda>m.
     Some (bindE (mem_free entries m) (\<lambda>m.
           bindE (store_addr map_ptr None m) (\<lambda>m. store_int (shift map_ptr 8) 0 m))))))"

definition json_clear_oneof_value :: "'d json_env \<Rightarrow> 'd clearer \<Rightarrow> ptr \<Rightarrow> offset_item \<Rightarrow> 'd store \<Rightarrow> 'd store run" where
  "json_clear_oneof_value env clr p fi m =
     bindD (if it_oneof_variant_structs fi \<noteq> ''NULL'' \<and> 0 < je_const env (it_enum_count fi) then
              bindD (Some (load_int (shift p (col env (it_oneof_tag_offset fi))) m)) (\<lambda>tag.
                if 0 \<le> tag \<and> tag < je_const env (it_enum_count fi) then
                  clr (shift p (col env (it_oneof_value_offset fi))) (je_strings env (it_oneof_variant_structs fi) ! nat tag) m
                else Some (Inr m))
            else Some (Inr m)) (\<lambda>m.
     Some (zero_bytes p (fi_size env fi) m))"

text \<open>The number of elements of a dynamic array, 0 without a row for its length, and the storing of 0 there.\<close>

definition array_len :: "'d json_env \<Rightarrow> ptr \<Rightarrow> offset_item option \<Rightarrow> 'd store \<Rightarrow> fault + int" where
  "array_len env inst len_fi m = (case len_fi of None \<Rightarrow> Inr 0 | Some l \<Rightarrow> load_int (shift inst (fi_offset env l)) m)"

definition reset_len :: "'d json_env \<Rightarrow> ptr \<Rightarrow> offset_item option \<Rightarrow> 'd store \<Rightarrow> fault + 'd store" where
  "reset_len env inst len_fi m = (case len_fi of None \<Rightarrow> Inr m | Some l \<Rightarrow> store_int (shift inst (fi_offset env l)) 0 m)"

text \<open>The three arrays: of maps, of a fixed length, and of a dynamic length.\<close>

definition clear_dynamic ::
  "'d json_env \<Rightarrow> (ptr \<Rightarrow> 'd store \<Rightarrow> 'd store run) option \<Rightarrow> nat \<Rightarrow> ptr \<Rightarrow> offset_item \<Rightarrow> 'd store \<Rightarrow> 'd store run" where
  "clear_dynamic env clear_element sz inst fi m =
     (case json_array_length_field env fi of
        None \<Rightarrow> None
      | Some len_fi \<Rightarrow>
          (let field_ptr = shift inst (fi_offset env fi)
           in bindD (Some (array_len env inst len_fi m)) (\<lambda>len.
              bindD (Some (load_addr field_ptr m)) (\<lambda>arr.
              bindD (case clear_element of
                None \<Rightarrow> Some (Inr m)
              | Some f \<Rightarrow> for_range (\<lambda>i m. bindD (Some (block_of arr)) (\<lambda>base. f (shift base (i * sz)) m)) [0..<nat len] m) (\<lambda>m.
              Some (bindE (mem_free arr m) (\<lambda>m.
                    bindE (store_addr field_ptr None m) (\<lambda>m. reset_len env inst len_fi m))))))))"

definition clear_fixed ::
  "'d json_env \<Rightarrow> 'd clearer \<Rightarrow> ptr \<Rightarrow> offset_item \<Rightarrow> 'd store \<Rightarrow> 'd store run" where
  "clear_fixed env clr field_ptr fi m =
     (let n = nat (it_array_size fi); each = (\<lambda>sz f. for_range (\<lambda>i m. f (shift field_ptr (i * sz)) m) [0..<n] m)
      in case it_field_type fi of
           FIELD_TYPE_SSTR \<Rightarrow> each 8 (\<lambda>p m. Some (clear_str p m))
         | FIELD_TYPE_STRUCT \<Rightarrow> each (fi_size env fi) (\<lambda>p m. clr p (it_field_type_name fi) m)
         | FIELD_TYPE_ONEOF \<Rightarrow> each (fi_size env fi) (\<lambda>p m. json_clear_oneof_value env clr p fi m)
         | FIELD_TYPE_FLOAT \<Rightarrow> each 4 (\<lambda>p m. Some (zero_bytes p 4 m))
         | FIELD_TYPE_DOUBLE \<Rightarrow> each 8 (\<lambda>p m. Some (zero_bytes p 8 m))
         | _ \<Rightarrow> Some (zero_bytes field_ptr (fi_size env fi * n) m))"

definition clear_single ::
  "'d json_env \<Rightarrow> 'd clearer \<Rightarrow> ptr \<Rightarrow> offset_item \<Rightarrow> 'd store \<Rightarrow> 'd store run" where
  "clear_single env clr field_ptr fi m =
     (case it_field_type fi of
        FIELD_TYPE_FLOAT \<Rightarrow> Some (zero_bytes field_ptr 4 m)
      | FIELD_TYPE_DOUBLE \<Rightarrow> Some (zero_bytes field_ptr 8 m)
      | FIELD_TYPE_SSTR \<Rightarrow> Some (clear_str field_ptr m)
      | FIELD_TYPE_STRUCT \<Rightarrow> clr field_ptr (it_field_type_name fi) m
      | FIELD_TYPE_ONEOF \<Rightarrow> json_clear_oneof_value env clr field_ptr fi m
      | _ \<Rightarrow> Some (zero_bytes field_ptr (fi_size env fi) m))"

definition json_clear_field_value ::
  "'d json_env \<Rightarrow> 'd clearer \<Rightarrow> ptr \<Rightarrow> offset_item \<Rightarrow> 'd store \<Rightarrow> 'd store run" where
  "json_clear_field_value env clr inst fi m =
     (let field_ptr = shift inst (fi_offset env fi)
      in bindD
        (if it_field_type fi = FIELD_TYPE_MAP then
           (if it_is_array fi then clear_dynamic env (Some (\<lambda>p m. json_clear_map_container env clr p fi m)) (fi_size env fi) inst fi m
            else json_clear_map_container env clr field_ptr fi m)
         else if it_is_array fi \<and> 0 < it_array_size fi then clear_fixed env clr field_ptr fi m
         else if it_is_array fi then
           (case it_field_type fi of
              FIELD_TYPE_SSTR \<Rightarrow> clear_dynamic env (Some (\<lambda>p m. Some (bindE (load_str p m) (\<lambda>_. Inr m)))) 8 inst fi m
            | FIELD_TYPE_STRUCT \<Rightarrow> clear_dynamic env (Some (\<lambda>p m. clr p (it_field_type_name fi) m)) (fi_size env fi) inst fi m
            | FIELD_TYPE_ONEOF \<Rightarrow> clear_dynamic env (Some (\<lambda>p m. json_clear_oneof_value env clr p fi m)) (fi_size env fi) inst fi m
            | _ \<Rightarrow> clear_dynamic env None 0 inst fi m)
         else clear_single env clr field_ptr fi m)
        (\<lambda>m. Some (set_has env fi inst False m)))"

text \<open>Structs nest; \<open>n\<close> bounds their depth. Every row of the struct with a field index is a field.\<close>

fun json_clear_struct_value :: "nat \<Rightarrow> 'd json_env \<Rightarrow> 'd clearer" where
  "json_clear_struct_value 0 env inst struct_name m = None"
| "json_clear_struct_value (Suc n) env inst struct_name m =
     for_range (\<lambda>i m. (let fi = je_items env ! i
        in if it_field_index fi < 0 \<or> cstr (it_struct_name fi) \<noteq> cstr struct_name then Some (Inr m)
           else json_clear_field_value env (json_clear_struct_value n env) inst fi m))
       [0..<length (je_items env)] m"

end
