(* ===== verification/JsonStruct.thy ===== *)
theory JsonStruct
  imports JsonClear
begin

text \<open>
  The reader of structs, oneofs, maps and arrays of the generated parsers
  (\<open>json_unmarshal_struct_internal\<close> and what it calls in \<open>src/gencode/codes/json_parse.c\<close>). The readers store
  into the memory of JsonStore by the rows of the field table. A parameter \<open>n\<close> bounds the rounds of every
  loop and the nesting of the calls; a run that does not return within it is \<open>None\<close>.
\<close>

section \<open>Parameters\<close>

text \<open>
  A mask is the words behind its pointer, or null. \<open>in_struct\<close> is only written by the code and is left out.
\<close>

datatype nested_mask = Nested_mask (nm_field_index: int) (nm_mask: "u64 list option") (nm_subs: "nested_mask list")

record json_parse_param =
  pp_instance :: ptr
  pp_in_array :: bool
  pp_depth :: int
  pp_struct_name :: string
  pp_field_name :: string
  pp_field_mask :: "u64 list option"
  pp_nested :: "nested_mask list"

definition JSON_MAX_DEPTH :: int where
  "JSON_MAX_DEPTH = 256"

text \<open>The parameters of an inner struct, which is read whole.\<close>

definition sub_param :: "ptr \<Rightarrow> bool \<Rightarrow> int \<Rightarrow> string \<Rightarrow> string \<Rightarrow> json_parse_param" where
  "sub_param inst in_array depth struct_name field_name =
     \<lparr>pp_instance = inst, pp_in_array = in_array, pp_depth = depth, pp_struct_name = struct_name,
      pp_field_name = field_name, pp_field_mask = None, pp_nested = []\<rparr>"

definition json_field_is_selected :: "json_parse_param \<Rightarrow> offset_item \<Rightarrow> bool" where
  "json_field_is_selected param fi = (case pp_field_mask param of
     None \<Rightarrow> True
   | Some ws \<Rightarrow> 0 \<le> it_field_index fi \<and> it_field_index fi div 64 < int (length ws)
       \<and> ws ! nat (it_field_index fi div 64) AND push_bit (nat (it_field_index fi mod 64)) 1 \<noteq> 0)"

definition json_find_nested_mask :: "json_parse_param \<Rightarrow> int \<Rightarrow> nested_mask option" where
  "json_find_nested_mask param field_index = find (\<lambda>nm. nm_field_index nm = field_index) (pp_nested param)"

section \<open>Results\<close>

text \<open>The return code, the position, the memory and the text in \<open>txt\<close>.\<close>

type_synonym 'd json_run = "(int \<times> json_pos \<times> 'd store \<times> string) run"

type_synonym 'd json_reader = "json_pos \<Rightarrow> json_parse_param \<Rightarrow> 'd store \<Rightarrow> string \<Rightarrow> 'd json_run"

abbreviation ret :: "int \<Rightarrow> json_pos \<Rightarrow> 'd store \<Rightarrow> string \<Rightarrow> 'd json_run" where
  "ret code pos m t \<equiv> Some (Inr (code, pos, m, t))"

text \<open>\<open>e = PERROR(pos, msg, args); sstr_append(txt, e); return code\<close>.\<close>

definition json_fail :: "int \<Rightarrow> json_pos \<Rightarrow> 'd store \<Rightarrow> string \<Rightarrow> string \<Rightarrow> unit va_arg list \<Rightarrow> 'd json_run" where
  "json_fail code pos m t msg args = Some (bindE (PERROR pos msg args) (\<lambda>e. Inr (code, pos, m, t @ e)))"

definition in_single :: "string \<Rightarrow> string" where
  "in_single s = CHR 0x27 # s @ [CHR 0x27]"

definition but_got :: "json_token \<Rightarrow> string \<Rightarrow> string \<Rightarrow> string \<times> unit va_arg list" where
  "but_got tk t what = (''expected '' @ what @ '' but got '' @ in_single ''%s'', [cs_arg (ptoken tk t)])"

definition next_tok :: "string \<Rightarrow> json_pos \<Rightarrow> (json_token \<times> json_pos \<times> string) run" where
  "next_tok content pos = Some (json_next_token content pos)"

definition mem_run :: "fault + 'd store \<Rightarrow> ('d store \<Rightarrow> 'a run) \<Rightarrow> 'a run" where
  "mem_run m f = bindD (Some m) f"

section \<open>Single values\<close>

text \<open>
  A scalar reader stores its value when it returns 0, except at the end of the input, where it returns 0 too
  (the code of that token). A string is stored in any case, the null pointer if there is none.
\<close>

definition at_end :: "string \<Rightarrow> json_pos \<Rightarrow> bool" where
  "at_end content pos \<longleftrightarrow> (case json_next_token content pos of Inr (tk, _, _) \<Rightarrow> tk = JSON_TOKEN_EOF | Inl _ \<Rightarrow> False)"

fun stores_always :: "'d elem_type \<Rightarrow> bool" where
  "stores_always E_sstr = True"
| "stores_always _ = False"

definition read_scalar :: "'d elem_type \<Rightarrow> string \<Rightarrow> json_pos \<Rightarrow> ptr \<Rightarrow> 'd store \<Rightarrow> 'd json_run" where
  "read_scalar E content pos p m =
     Some (bindE (json_unmarshal_element E content pos) (\<lambda>(r, pos', v, t).
       if stores_always E \<or> r = 0 \<and> \<not> at_end content pos
       then bindE (store_value p (elem_size E) (Value v) m) (\<lambda>m'. Inr (r, pos', m', t))
       else Inr (r, pos', m, t)))"

definition read_enum :: "string list \<Rightarrow> string \<Rightarrow> json_pos \<Rightarrow> ptr \<Rightarrow> 'd store \<Rightarrow> 'd json_run" where
  "read_enum es content pos p m =
     Some (bindE (json_unmarshal_scalar_enum es content pos 0) (\<lambda>(r, pos', v, t).
       if r = 0 \<and> \<not> at_end content pos
       then bindE (store_int p v m) (\<lambda>m'. Inr (r, pos', m', t))
       else Inr (r, pos', m, t)))"

section \<open>Oneofs\<close>

text \<open>
  The tag is looked for ahead of the fields; the position is restored, so only the text of the tag and \<open>txt\<close>
  come back. The result of skipping a value is not looked at.
\<close>

fun scan_tag_loop :: "nat \<Rightarrow> string \<Rightarrow> json_pos \<Rightarrow> string \<Rightarrow> string \<Rightarrow> (string option \<times> string) run" where
  "scan_tag_loop 0 content pos tag_field t = None"
| "scan_tag_loop (Suc n) content pos tag_field t =
     bindD (next_tok content pos) (\<lambda>(tk, pos1, key).
       if tk = JSON_TOKEN_RIGHT_BRACE \<or> tk = JSON_TOKEN_EOF \<or> tk = JSON_ERROR then Some (Inr (None, t))
       else if tk = JSON_TOKEN_COMMA then scan_tag_loop n content pos1 tag_field t
       else if tk \<noteq> JSON_TOKEN_STRING then Some (Inr (None, t))
       else bindD (next_tok content pos1) (\<lambda>(ctk, pos2, _).
         if ctk \<noteq> JSON_TOKEN_COLON then Some (Inr (None, t))
         else if cstr key = tag_field then
           bindD (next_tok content pos2) (\<lambda>(vtk, _, v). Some (Inr (if vtk = JSON_TOKEN_STRING then Some v else None, t)))
         else bindD (json_unmarshal_ignore_value n content pos2) (\<lambda>(_, pos3, t').
           scan_tag_loop n content pos3 tag_field t')))"

definition json_scan_tag_value :: "nat \<Rightarrow> string \<Rightarrow> json_pos \<Rightarrow> string \<Rightarrow> string \<Rightarrow> (string option \<times> string) run" where
  "json_scan_tag_value n content pos tag_field t =
     bindD (scan_tag_loop n content pos tag_field t) (\<lambda>(found, t1).
       case found of
         Some v \<Rightarrow> Some (Inr (Some v, t1))
       | None \<Rightarrow> Some (bindE (PERROR pos (''oneof: tag field '' @ [CHR 0x22] @ ''%s'' @ [CHR 0x22] @ '' not found'') [cs_arg tag_field])
                    (\<lambda>e. Inr (None, t1 @ e))))"

text \<open>
  The names of the variants are \<open>fi_strings\<close>; the table gives the tag field, the structs of the variants and the
  places of the tag and the value.
\<close>

definition json_unmarshal_oneof_internal ::
  "nat \<Rightarrow> 'd json_env \<Rightarrow> 'd json_reader \<Rightarrow> string \<Rightarrow> json_pos \<Rightarrow> ptr \<Rightarrow> offset_item \<Rightarrow> int \<Rightarrow> 'd store \<Rightarrow> string \<Rightarrow> 'd json_run" where
  "json_unmarshal_oneof_internal n env rd content pos inst fi depth m t =
     bindD (next_tok content pos) (\<lambda>(tk, pos1, _).
       if tk = JSON_TOKEN_EOF then ret 0 pos1 m t
       else if tk = JSON_ERROR then ret (-1) pos1 m t
       else if tk \<noteq> JSON_TOKEN_LEFT_BRACE then
         json_fail (-1) pos1 m t (''oneof: expected '' @ in_single ''{'' @ '' but got token %d'') [A_int (word_of_int (json_token_code tk))]
       else bindD (json_scan_tag_value n content pos1 (cstr (it_oneof_tag_field fi)) t) (\<lambda>(tag, t1).
         case tag of
           None \<Rightarrow> ret (-1) pos1 m t1
         | Some tag_value \<Rightarrow> (case find_string (cstr tag_value) (fi_strings env fi) 0 of
             None \<Rightarrow> json_fail (-1) pos1 m t1 (''oneof: unknown tag value '' @ [CHR 0x22] @ ''%s'' @ [CHR 0x22]) [cs_arg tag_value]
           | Some matched \<Rightarrow>
               mem_run (store_int (shift inst (col env (it_oneof_tag_offset fi))) (int matched) m) (\<lambda>m1.
               bindD (rd pos (sub_param (shift inst (col env (it_oneof_value_offset fi))) False (depth + 1)
                        (je_strings env (it_oneof_variant_structs fi) ! matched) []) m1 t1) (\<lambda>(r, pos2, m2, t2).
               ret (if r < 0 then -1 else 0) pos2 m2 t2)))))"

section \<open>Arrays of oneofs\<close>

text \<open>The results of the array readers also have the length they store through \<open>ptrlen\<close>.\<close>

type_synonym 'd array_run = "(int \<times> json_pos \<times> 'd store \<times> nat \<times> string) run"

definition oneofs_end :: "nat \<Rightarrow> ptr \<Rightarrow> json_pos \<Rightarrow> 'd store \<Rightarrow> nat option \<Rightarrow> nat \<Rightarrow> nat \<Rightarrow> string \<Rightarrow> 'd array_run" where
  "oneofs_end sz arr_pp pos m arr len cap t =
     Some (bindE (shrink_array len cap sz arr m) (\<lambda>(arr', m1).
           bindE (store_addr arr_pp arr' m1) (\<lambda>m2. Inr (0, pos, m2, len, t))))"

definition oneofs_fail :: "ptr \<Rightarrow> json_pos \<Rightarrow> 'd store \<Rightarrow> nat option \<Rightarrow> string \<Rightarrow> 'd array_run" where
  "oneofs_fail arr_pp pos m arr t =
     Some (bindE (mem_free arr m) (\<lambda>m1. bindE (store_addr arr_pp None m1) (\<lambda>m2. Inr (-1, pos, m2, 0, t))))"

fun oneof_array_loop ::
  "nat \<Rightarrow> 'd json_env \<Rightarrow> 'd json_reader \<Rightarrow> string \<Rightarrow> ptr \<Rightarrow> offset_item \<Rightarrow> int
    \<Rightarrow> json_pos \<Rightarrow> 'd store \<Rightarrow> nat option \<Rightarrow> nat \<Rightarrow> nat \<Rightarrow> string \<Rightarrow> 'd array_run" where
  "oneof_array_loop 0 env rd content arr_pp fi depth pos m arr len cap t = None"
| "oneof_array_loop (Suc n) env rd content arr_pp fi depth pos m arr len cap t =
     bindD (next_tok content pos) (\<lambda>(tk, peek, _).
       if tk = JSON_TOKEN_RIGHT_BRACKET then oneofs_end (fi_size env fi) arr_pp peek m arr len cap t
       else bindD (Some (grow_array len cap (fi_size env fi) arr m)) (\<lambda>(cap1, arr1, m1).
         bindD (Some (block_of arr1)) (\<lambda>base.
         (let element = shift base (len * fi_size env fi)
          in mem_run (zero_bytes element (fi_size env fi) m1) (\<lambda>m2.
             bindD (json_unmarshal_oneof_internal n env rd content pos element fi depth m2 t) (\<lambda>(r, pos3, m3, t3).
             if r < 0 then oneofs_fail arr_pp pos3 m3 arr1 t3
             else bindD (next_tok content pos3) (\<lambda>(tk4, peek4, _).
               if tk4 = JSON_TOKEN_RIGHT_BRACKET then oneofs_end (fi_size env fi) arr_pp peek4 m3 arr1 (len + 1) cap1 t3
               else if tk4 = JSON_TOKEN_COMMA then
                 oneof_array_loop n env rd content arr_pp fi depth peek4 m3 arr1 (len + 1) cap1 t3
               else if tk4 = JSON_ERROR \<or> tk4 = JSON_TOKEN_EOF then oneofs_fail arr_pp pos3 m3 arr1 t3
               else oneof_array_loop n env rd content arr_pp fi depth pos3 m3 arr1 (len + 1) cap1 t3)))))))"

definition json_unmarshal_array_internal_oneof ::
  "nat \<Rightarrow> 'd json_env \<Rightarrow> 'd json_reader \<Rightarrow> string \<Rightarrow> json_pos \<Rightarrow> ptr \<Rightarrow> offset_item \<Rightarrow> int \<Rightarrow> 'd store \<Rightarrow> 'd array_run" where
  "json_unmarshal_array_internal_oneof n env rd content pos arr_pp fi depth m =
     bindD (next_tok content pos) (\<lambda>(tk, pos1, t).
       if tk = JSON_TOKEN_NULL then Some (Inr (0, pos1, m, 0, t))
       else if tk \<noteq> JSON_TOKEN_LEFT_BRACKET then
         Some (bindE (PERROR pos1 (''expected '' @ in_single ''['' @ '' but got %s'') [cs_arg (ptoken tk t)]) (\<lambda>e.
           Inr (-1, pos1, m, 0, t @ e)))
       else oneof_array_loop n env rd content arr_pp fi depth pos1 m None 0 0 t)"

section \<open>Arrays of structs\<close>

text \<open>
  Each element is read into a block of its own, which is copied and released. \<open>*len\<close> is 0 at first; the array
  is resized from a capacity of 0 whatever \<open>*instance\<close> had room for.
\<close>

fun struct_array_loop ::
  "nat \<Rightarrow> 'd json_reader \<Rightarrow> string \<Rightarrow> nat \<Rightarrow> json_parse_param \<Rightarrow> json_pos \<Rightarrow> 'd store \<Rightarrow> nat \<Rightarrow> nat \<Rightarrow> string \<Rightarrow> 'd array_run" where
  "struct_array_loop 0 rd content sz param pos m len cap t = None"
| "struct_array_loop (Suc n) rd content sz param pos m len cap t =
     (let (b, m0) = mem_malloc sz m
      in mem_run (zero_bytes (b, 0) sz m0) (\<lambda>m1.
         bindD (rd pos (sub_param (b, 0) True (pp_depth param + 1) (pp_struct_name param) (pp_field_name param)) m1 t)
           (\<lambda>(r, pos2, m2, t2).
         if r < 0 then mem_run (mem_free (Some b) m2) (\<lambda>m3. Some (Inr (r, pos2, m3, len, t2)))
         else bindD (Some (if len < cap then Inr (cap, m2)
             else bindE (load_addr (pp_instance param) m2) (\<lambda>a.
                  bindE (grow_array len cap sz a m2) (\<lambda>(cap', a', m3).
                  bindE (store_addr (pp_instance param) a' m3) (\<lambda>m4. Inr (cap', m4)))))) (\<lambda>(cap1, m3).
           bindD (Some (bindE (load_addr (pp_instance param) m3) block_of)) (\<lambda>base.
           mem_run (bindE (mem_copy (shift base (len * sz)) (b, 0) sz m3) (mem_free (Some b))) (\<lambda>m4.
           if r = 1 then Some (Inr (0, pos2, m4, len + 1, t2))
           else bindD (next_tok content pos2) (\<lambda>(tk, pos3, t3).
             if tk = JSON_TOKEN_RIGHT_BRACKET then Some (Inr (0, pos3, m4, len + 1, t3))
             else if tk = JSON_TOKEN_COMMA then struct_array_loop n rd content sz param pos3 m4 (len + 1) cap1 t3
             else if tk = JSON_ERROR then Some (Inr (JSON_GEN_ERROR_PARSE, pos3, m4, len + 1, t3))
             else if tk = JSON_TOKEN_EOF then
               Some (bindE (PERROR pos3 ''parsing array, reached EOF unexpectedly'' []) (\<lambda>e.
                 Inr (JSON_GEN_ERROR_PARSE, pos3, m4, len + 1, t3 @ e)))
             else struct_array_loop n rd content sz param pos3 m4 (len + 1) cap1 t3)))))))"

definition json_unmarshal_array_internal_struct ::
  "nat \<Rightarrow> 'd json_env \<Rightarrow> 'd json_reader \<Rightarrow> string \<Rightarrow> json_pos \<Rightarrow> json_parse_param \<Rightarrow> 'd store \<Rightarrow> string \<Rightarrow> 'd array_run" where
  "json_unmarshal_array_internal_struct n env rd content pos param m t =
     (case find_item env (pp_struct_name param) [] of
        None \<Rightarrow> None
      | Some None \<Rightarrow>
          Some (bindE (PERROR pos ''struct %s not found'' [cs_arg (pp_struct_name param)]) (\<lambda>e.
            Inr (JSON_GEN_ERROR_NOT_FOUND, pos, m, 0, t @ e)))
      | Some (Some field) \<Rightarrow>
          bindD (next_tok content pos) (\<lambda>(tk, pos1, t1).
            if tk \<noteq> JSON_TOKEN_LEFT_BRACKET then
              Some (bindE (PERROR pos1 (''expected '' @ in_single ''['' @ '' but got %s'') [cs_arg (ptoken tk t1)]) (\<lambda>e.
                Inr (JSON_GEN_ERROR_PARSE, pos1, m, 0, t1 @ e)))
            else bindD (next_tok content pos1) (\<lambda>(tk2, peek, t2).
              if tk2 = JSON_TOKEN_RIGHT_BRACKET then Some (Inr (0, peek, m, 0, t2))
              else struct_array_loop n rd content (fi_size env field) param pos1 m 0 0 t2)))"

section \<open>Maps\<close>

text \<open>
  A map is the pointer to its entries followed by their number, an entry is the key followed by the value.
  Capacity and entries of a map that has been read before are taken over. A new entry is not cleared.
\<close>

definition type_of_id :: "nat \<Rightarrow> field_type option" where
  "type_of_id k = find (\<lambda>ft. field_type_id ft = k)
     [FIELD_TYPE_INT, FIELD_TYPE_LONG, FIELD_TYPE_FLOAT, FIELD_TYPE_DOUBLE, FIELD_TYPE_SSTR, FIELD_TYPE_ENUM,
      FIELD_TYPE_STRUCT, FIELD_TYPE_BOOL, FIELD_TYPE_MAP, FIELD_TYPE_INT8, FIELD_TYPE_INT16, FIELD_TYPE_INT32,
      FIELD_TYPE_INT64, FIELD_TYPE_UINT8, FIELD_TYPE_UINT16, FIELD_TYPE_UINT32, FIELD_TYPE_UINT64, FIELD_TYPE_ONEOF]"

definition read_map_value ::
  "'d json_env \<Rightarrow> 'd json_reader \<Rightarrow> string \<Rightarrow> json_pos \<Rightarrow> ptr \<Rightarrow> offset_item \<Rightarrow> int \<Rightarrow> 'd store \<Rightarrow> string \<Rightarrow> 'd json_run" where
  "read_map_value env rd content pos val_ptr fi depth m t =
     (case type_of_id (it_map_value_type fi) of
        None \<Rightarrow> ret (-1) pos m t
      | Some ft \<Rightarrow> (case elem_of env ft of
          Some E \<Rightarrow> read_scalar E content pos val_ptr m
        | None \<Rightarrow>
            if ft = FIELD_TYPE_ENUM then read_enum (fi_strings env fi) content pos val_ptr m
            else if ft = FIELD_TYPE_STRUCT then
              rd pos (sub_param val_ptr False (depth + 1) (it_field_type_name fi) []) m t
            else ret (-1) pos m t))"

fun map_loop ::
  "nat \<Rightarrow> 'd json_env \<Rightarrow> 'd json_reader \<Rightarrow> string \<Rightarrow> ptr \<Rightarrow> offset_item \<Rightarrow> int
    \<Rightarrow> json_pos \<Rightarrow> 'd store \<Rightarrow> nat option \<Rightarrow> nat \<Rightarrow> 'd json_run" where
  "map_loop 0 env rd content map_ptr fi depth pos m entries cap = None"
| "map_loop (Suc n) env rd content map_ptr fi depth pos m entries cap =
     (let sz = col env (it_map_entry_size fi); len_p = shift map_ptr 8
      in bindD (next_tok content pos) (\<lambda>(tk, pos1, key).
        if tk = JSON_TOKEN_RIGHT_BRACE then
          Some (bindE (load_int len_p m) (\<lambda>len.
                bindE (shrink_array (nat len) cap sz entries m) (\<lambda>(entries', m1).
                bindE (if 0 < nat len \<and> nat len < cap then store_addr map_ptr entries' m1 else Inr m1) (\<lambda>m2.
                Inr (0, pos1, m2, key)))))
        else if tk = JSON_TOKEN_COMMA then map_loop n env rd content map_ptr fi depth pos1 m entries cap
        else if tk = JSON_TOKEN_EOF \<or> tk = JSON_ERROR then ret (-1) pos1 m key
        else if tk \<noteq> JSON_TOKEN_STRING then
          json_fail (-1) pos1 m key (''expected string key in map but got '' @ in_single ''%s'') [cs_arg (ptoken tk key)]
        else bindD (next_tok content pos1) (\<lambda>(tk2, pos2, t2).
          if tk2 \<noteq> JSON_TOKEN_COLON then
            json_fail (-1) pos2 m t2 (''expected '' @ in_single '':'' @ '' in map but got '' @ in_single ''%s'') [cs_arg (ptoken tk2 t2)]
          else bindD (Some (load_int len_p m)) (\<lambda>idx.
            bindD (Some (if idx < 0 then Inl Out_of_bounds else if idx \<ge> int cap then
                     bindE (grow_array (nat idx) cap sz entries m) (\<lambda>(cap', entries', m1).
                     bindE (store_addr map_ptr entries' m1) (\<lambda>m2. Inr (cap', entries', m2)))
                   else Inr (cap, entries, m))) (\<lambda>(cap1, entries1, m1).
            bindD (Some (block_of entries1)) (\<lambda>base.
            (let entry = shift base (nat idx * sz)
             in mem_run (store_value entry 8 (Value (J_str (Some key))) m1) (\<lambda>m2.
                bindD (read_map_value env rd content pos2 (shift entry 8) fi depth m2 t2) (\<lambda>(r, pos3, m3, t3).
                if r < 0 then ret r pos3 m3 t3
                else mem_run (bindE (load_int len_p m3) (\<lambda>len. store_int len_p (len + 1) m3)) (\<lambda>m4.
                  map_loop n env rd content map_ptr fi depth pos3 m4 entries1 cap1))))))))))"

definition json_unmarshal_map_object ::
  "nat \<Rightarrow> 'd json_env \<Rightarrow> 'd json_reader \<Rightarrow> string \<Rightarrow> json_pos \<Rightarrow> ptr \<Rightarrow> offset_item \<Rightarrow> int \<Rightarrow> 'd store \<Rightarrow> 'd json_run" where
  "json_unmarshal_map_object n env rd content pos map_ptr fi depth m =
     bindD (next_tok content pos) (\<lambda>(tk, pos1, t).
       if tk = JSON_TOKEN_NULL then ret 0 pos1 m t
       else if tk \<noteq> JSON_TOKEN_LEFT_BRACE then
         json_fail (-1) pos1 m t (''expected '' @ in_single ''{'' @ '' for map but got '' @ in_single ''%s'') [cs_arg (ptoken tk t)]
       else bindD (Some (load_int (shift map_ptr 8) m)) (\<lambda>cap.
            bindD (Some (load_addr map_ptr m)) (\<lambda>entries.
            map_loop n env rd content map_ptr fi depth pos1 m entries (nat cap))))"

section \<open>Fields\<close>

text \<open>
  What reading a field leads to: the function returns, or it goes on with the next field, having marked this
  one as present (\<open>has_\<close>) or not.
\<close>

datatype field_end = Return int | Present | Absent

type_synonym 'd field_run = "(field_end \<times> json_pos \<times> 'd store \<times> string) run"

definition field_fail :: "int \<Rightarrow> json_pos \<Rightarrow> 'd store \<Rightarrow> string \<Rightarrow> string \<Rightarrow> unit va_arg list \<Rightarrow> 'd field_run" where
  "field_fail code pos m t msg args = bindD (json_fail code pos m t msg args) (\<lambda>(r, pos, m, t). Some (Inr (Return r, pos, m, t)))"

text \<open>\<open>if (r < 0) return r\<close>.\<close>

definition negative_returns :: "'d json_run \<Rightarrow> 'd field_run" where
  "negative_returns x = bindD x (\<lambda>(r, pos, m, t). Some (Inr (if r < 0 then Return r else Present, pos, m, t)))"

text \<open>\<open>if (r != 0) return r\<close>.\<close>

definition nonzero_returns :: "'d json_run \<Rightarrow> 'd field_run" where
  "nonzero_returns x = bindD x (\<lambda>(r, pos, m, t). Some (Inr (if r \<noteq> 0 then Return r else Present, pos, m, t)))"

fun map_array_loop ::
  "nat \<Rightarrow> 'd json_env \<Rightarrow> 'd json_reader \<Rightarrow> string \<Rightarrow> ptr \<Rightarrow> offset_item \<Rightarrow> int
    \<Rightarrow> json_pos \<Rightarrow> 'd store \<Rightarrow> nat option \<Rightarrow> nat \<Rightarrow> nat \<Rightarrow> string \<Rightarrow> 'd array_run" where
  "map_array_loop 0 env rd content arr_pp fi depth pos m arr len cap t = None"
| "map_array_loop (Suc n) env rd content arr_pp fi depth pos m arr len cap t =
     (let sz = fi_size env fi;
          finish = (\<lambda>pos m arr len cap t. Some (bindE (shrink_array len cap sz arr m) (\<lambda>(arr', m1).
            bindE (if 0 < len \<and> len < cap then store_addr arr_pp arr' m1 else Inr m1) (\<lambda>m2. Inr (0, pos, m2, len, t)))))
      in bindD (next_tok content pos) (\<lambda>(tk, peek, _).
        if tk = JSON_TOKEN_RIGHT_BRACKET then finish peek m arr len cap t
        else bindD (Some (if len < cap then Inr (cap, arr, m)
              else bindE (grow_array len cap sz arr m) (\<lambda>(cap', arr', m1).
                   bindE (store_addr arr_pp arr' m1) (\<lambda>m2. Inr (cap', arr', m2))))) (\<lambda>(cap1, arr1, m1).
          bindD (Some (block_of arr1)) (\<lambda>base.
          (let map_ptr = shift base (len * sz)
           in mem_run (bindE (store_addr map_ptr None m1) (store_int (shift map_ptr 8) 0)) (\<lambda>m2.
              bindD (json_unmarshal_map_object n env rd content pos map_ptr fi depth m2) (\<lambda>(r, pos3, m3, t3).
              if r < 0 then Some (Inr (r, pos3, m3, len, t3))
              else bindD (next_tok content pos3) (\<lambda>(tk4, pos4, t4).
                if tk4 = JSON_TOKEN_RIGHT_BRACKET then finish pos4 m3 arr1 (len + 1) cap1 t4
                else if tk4 = JSON_TOKEN_COMMA then
                  map_array_loop n env rd content arr_pp fi depth pos4 m3 arr1 (len + 1) cap1 t4
                else Some (Inr (-1, pos4, m3, len + 1, t4))))))))))"

definition read_map_field ::
  "nat \<Rightarrow> 'd json_env \<Rightarrow> 'd json_reader \<Rightarrow> string \<Rightarrow> json_pos \<Rightarrow> json_parse_param \<Rightarrow> offset_item \<Rightarrow> 'd store \<Rightarrow> string \<Rightarrow> 'd field_run" where
  "read_map_field n env rd content pos param fi m t =
     (let field_ptr = shift (pp_instance param) (fi_offset env fi)
      in if it_is_array fi then
           (case find_item env (pp_struct_name param) (cstr (it_field_name fi) @ ''_len'') of
              None \<Rightarrow> None
            | Some None \<Rightarrow> Some (Inr (Return (-1), pos, m, t))
            | Some (Some len_fi) \<Rightarrow>
                bindD (next_tok content pos) (\<lambda>(tk2, pos1, t1).
                  if tk2 = JSON_TOKEN_NULL then Some (Inr (Absent, pos1, m, t1))
                  else if tk2 \<noteq> JSON_TOKEN_LEFT_BRACKET then
                    field_fail (-1) pos1 m t1 (''expected '' @ in_single ''['' @ '' for map array but got '' @ in_single ''%s'')
                      [cs_arg (ptoken tk2 t1)]
                  else bindD (Some (load_addr field_ptr m)) (\<lambda>arr.
                    bindD (map_array_loop n env rd content field_ptr fi (pp_depth param + 1) pos1 m arr 0 0 t1)
                      (\<lambda>(r, pos2, m2, arr_len, t2).
                    if r < 0 then Some (Inr (Return r, pos2, m2, t2))
                    else mem_run (store_int (shift (pp_instance param) (fi_offset env len_fi)) (int arr_len) m2) (\<lambda>m3.
                      Some (Inr (Present, pos2, m3, t2)))))))
         else negative_returns (json_unmarshal_map_object n env rd content pos field_ptr fi (pp_depth param + 1) m))"

section \<open>Arrays of a fixed length\<close>

definition read_fixed_element ::
  "nat \<Rightarrow> 'd json_env \<Rightarrow> 'd json_reader \<Rightarrow> string \<Rightarrow> json_pos \<Rightarrow> ptr \<Rightarrow> nat \<Rightarrow> json_parse_param \<Rightarrow> offset_item \<Rightarrow> 'd store \<Rightarrow> string \<Rightarrow> 'd json_run" where
  "read_fixed_element n env rd content pos base i param fi m t =
     (case elem_of env (it_field_type fi) of
        Some E \<Rightarrow> read_scalar E content pos (shift base (i * elem_size E)) m
      | None \<Rightarrow> (case it_field_type fi of
          FIELD_TYPE_ENUM \<Rightarrow> read_enum (fi_strings env fi) content pos (shift base (i * 4)) m
        | FIELD_TYPE_STRUCT \<Rightarrow> rd pos (sub_param (shift base (i * fi_size env fi)) True (pp_depth param + 1)
            (it_field_type_name fi) (it_field_name fi)) m t
        | FIELD_TYPE_ONEOF \<Rightarrow> json_unmarshal_oneof_internal n env rd content pos (shift base (i * fi_size env fi)) fi (pp_depth param + 1) m t
        | _ \<Rightarrow> ret (-1) pos m t))"

fun fixed_array_loop ::
  "nat \<Rightarrow> 'd json_env \<Rightarrow> 'd json_reader \<Rightarrow> string \<Rightarrow> ptr \<Rightarrow> json_parse_param \<Rightarrow> offset_item
    \<Rightarrow> json_pos \<Rightarrow> 'd store \<Rightarrow> nat \<Rightarrow> string \<Rightarrow> 'd field_run" where
  "fixed_array_loop 0 env rd content base param fi pos m i t = None"
| "fixed_array_loop (Suc n) env rd content base param fi pos m i t =
     (if int i \<ge> it_array_size fi then
        field_fail (-1) pos m t (''fixed-size array overflow: max %d elements for field '' @ in_single ''%s'')
          [A_int (word_of_int (it_array_size fi)), cs_arg (it_field_name fi)]
      else bindD (read_fixed_element n env rd content pos base i param fi m t) (\<lambda>(r, pos1, m1, t1).
        if r = json_token_code JSON_TOKEN_RIGHT_BRACKET then Some (Inr (Present, pos1, m1, t1))
        else if r < 0 then Some (Inr (Return r, pos1, m1, t1))
        else bindD (next_tok content pos1) (\<lambda>(tk2, pos2, t2).
          if tk2 = JSON_TOKEN_RIGHT_BRACKET then Some (Inr (Present, pos2, m1, t2))
          else if tk2 = JSON_ERROR \<or> tk2 = JSON_TOKEN_EOF then Some (Inr (Return (-1), pos2, m1, t2))
          else fixed_array_loop n env rd content base param fi pos2 m1 (i + 1) t2)))"

definition read_fixed_array ::
  "nat \<Rightarrow> 'd json_env \<Rightarrow> 'd json_reader \<Rightarrow> string \<Rightarrow> json_pos \<Rightarrow> json_parse_param \<Rightarrow> offset_item \<Rightarrow> 'd store \<Rightarrow> 'd field_run" where
  "read_fixed_array n env rd content pos param fi m =
     bindD (next_tok content pos) (\<lambda>(tk2, pos1, t1).
       if tk2 \<noteq> JSON_TOKEN_LEFT_BRACKET then
         field_fail (-1) pos1 m t1 (''expected '' @ in_single ''['' @ '' but got '' @ in_single ''%s'') [cs_arg (ptoken tk2 t1)]
       else bindD (next_tok content pos1) (\<lambda>(tk3, peek, _).
         if tk3 = JSON_TOKEN_RIGHT_BRACKET then Some (Inr (Absent, peek, m, t1))
         else fixed_array_loop n env rd content (shift (pp_instance param) (fi_offset env fi)) param fi pos1 m 0 t1))"

section \<open>Arrays of a dynamic length\<close>

text \<open>
  The readers of arrays of scalars are those of JsonArray: they resize the block behind \<open>*ptr\<close> as they go, to
  \<open>ab_room\<close> elements in the end, and store the elements into it. Their return codes are not looked at.
\<close>

fun store_items :: "nat \<Rightarrow> nat \<Rightarrow> nat \<Rightarrow> 'd jvalue list \<Rightarrow> 'd store \<Rightarrow> fault + 'd store" where
  "store_items b sz i [] m = Inr m"
| "store_items b sz i (v # vs) m = bindE (store_value (b, i * sz) sz (Value v) m) (store_items b sz (i + 1) vs)"

definition fill_array :: "ptr \<Rightarrow> nat \<Rightarrow> nat \<Rightarrow> 'd jvalue list \<Rightarrow> nat option \<Rightarrow> 'd store \<Rightarrow> fault + 'd store" where
  "fill_array ptr sz room vs arr m =
     bindE (mem_realloc arr (room * sz) m) (\<lambda>(b, m1).
     bindE (store_addr ptr (Some b) m1) (store_items b sz 0 vs))"

definition read_scalar_array :: "'d elem_type \<Rightarrow> string \<Rightarrow> json_pos \<Rightarrow> ptr \<Rightarrow> 'd store \<Rightarrow> 'd array_run" where
  "read_scalar_array E content pos ptr m =
     Some (bindE (json_unmarshal_array_internal E content pos array_null) (\<lambda>(r, pos1, b, t1).
       bindE (if ab_room b = 0 then Inr m
              else bindE (load_addr ptr m) (\<lambda>a. fill_array ptr (elem_size E) (ab_room b) (ab_items b) a m)) (\<lambda>m1.
       Inr (r, pos1, m1, length (ab_items b), t1))))"

text \<open>\<open>cap\<close> doubled until it is not below \<open>len\<close>.\<close>

function doubled :: "nat \<Rightarrow> nat \<Rightarrow> nat" where
  "doubled cap len = (if cap = 0 \<or> len \<le> cap then cap else doubled (cap * 2) len)"
  by pat_completeness auto
termination by (relation "measure (\<lambda>(cap, len). len - cap)") auto

declare doubled.simps [simp del]

text \<open>An array of enums is built in a block of its own and stored when it is complete; \<open>null\<close> stores no array.\<close>

definition read_enum_array :: "nat \<Rightarrow> string list \<Rightarrow> string \<Rightarrow> json_pos \<Rightarrow> ptr \<Rightarrow> 'd store \<Rightarrow> 'd array_run" where
  "read_enum_array n es content pos ptr m =
     bindD (next_tok content pos) (\<lambda>(tk, _, _).
     bindD (json_unmarshal_array_internal_enum n es content pos) (\<lambda>(r, pos1, vs, t1).
       if r \<noteq> 0 then Some (Inr (r, pos1, m, 0, t1))
       else if tk = JSON_TOKEN_NULL then mem_run (store_addr ptr None m) (\<lambda>m1. Some (Inr (0, pos1, m1, 0, t1)))
       else mem_run (fill_array ptr 4 (doubled 4 (length vs)) (map J_int vs) None m) (\<lambda>m1.
              Some (Inr (0, pos1, m1, length vs, t1)))))"

definition read_dynamic_array ::
  "nat \<Rightarrow> 'd json_env \<Rightarrow> 'd json_reader \<Rightarrow> string \<Rightarrow> json_pos \<Rightarrow> json_parse_param \<Rightarrow> offset_item \<Rightarrow> 'd store \<Rightarrow> string \<Rightarrow> 'd field_run" where
  "read_dynamic_array n env rd content pos param fi m t =
     (let field_ptr = shift (pp_instance param) (fi_offset env fi);
          store_len = (\<lambda>len_fi. (\<lambda>(r, pos, m, len, t).
            mem_run (store_int (shift (pp_instance param) (fi_offset env len_fi)) (int len) m) (\<lambda>m1.
            Some (Inr (Present, pos, m1, t)))))
      in case find_item env (pp_struct_name param) (cstr (it_field_name fi) @ ''_len'') of
           None \<Rightarrow> None
         | Some None \<Rightarrow> Some (Inl Out_of_bounds)
         | Some (Some len_fi) \<Rightarrow>
             (case elem_of env (it_field_type fi) of
                Some E \<Rightarrow> bindD (read_scalar_array E content pos field_ptr m) (store_len len_fi)
              | None \<Rightarrow> (case it_field_type fi of
                  FIELD_TYPE_STRUCT \<Rightarrow>
                    bindD (json_unmarshal_array_internal_struct n env rd content pos
                      (sub_param field_ptr True (pp_depth param) (it_field_type_name fi) (it_field_name fi)) m t)
                      (\<lambda>(r, pos1, m1, len, t1).
                        if r < 0 then Some (Inr (Return r, pos1, m1, t1)) else store_len len_fi (r, pos1, m1, len, t1))
                | FIELD_TYPE_ENUM \<Rightarrow> bindD (read_enum_array n (fi_strings env fi) content pos field_ptr m) (store_len len_fi)
                | FIELD_TYPE_ONEOF \<Rightarrow>
                    bindD (json_unmarshal_array_internal_oneof n env rd content pos field_ptr fi (pp_depth param + 1) m)
                      (\<lambda>(r, pos1, m1, len, t1).
                        if r < 0 then Some (Inr (Return (-1), pos1, m1, t1)) else store_len len_fi (r, pos1, m1, len, t1))
                | _ \<Rightarrow> field_fail (-1) pos m t ''unsupported field type %d''
                         [A_int (word_of_nat (field_type_id (it_field_type fi)))])))"

section \<open>Structs\<close>

definition read_single ::
  "nat \<Rightarrow> 'd json_env \<Rightarrow> 'd json_reader \<Rightarrow> string \<Rightarrow> json_pos \<Rightarrow> json_parse_param \<Rightarrow> offset_item \<Rightarrow> 'd store \<Rightarrow> string \<Rightarrow> 'd field_run" where
  "read_single n env rd content pos param fi m t =
     (let p = shift (pp_instance param) (fi_offset env fi)
      in case elem_of env (it_field_type fi) of
           Some E \<Rightarrow> nonzero_returns (read_scalar E content pos p m)
         | None \<Rightarrow> (case it_field_type fi of
             FIELD_TYPE_STRUCT \<Rightarrow>
               (let sub = sub_param p False (pp_depth param + 1) (it_field_type_name fi) (it_field_name fi)
                in bindD (rd pos (case json_find_nested_mask param (it_field_index fi) of
                       Some nm \<Rightarrow> sub\<lparr>pp_field_mask := nm_mask nm, pp_nested := nm_subs nm\<rparr>
                     | None \<Rightarrow> sub) m t) (\<lambda>(r, pos1, m1, t1).
                   Some (Inr (if r = -1 then Return (-1) else Present, pos1, m1, t1))))
           | FIELD_TYPE_ENUM \<Rightarrow> nonzero_returns (read_enum (fi_strings env fi) content pos p m)
           | FIELD_TYPE_ONEOF \<Rightarrow>
               bindD (json_unmarshal_oneof_internal n env rd content pos p fi (pp_depth param + 1) m t) (\<lambda>(r, pos1, m1, t1).
                 Some (Inr (if r < 0 then Return (-1) else Present, pos1, m1, t1)))
           | _ \<Rightarrow> Some (Inr (Present, pos, m, t))))"

definition read_field ::
  "nat \<Rightarrow> 'd json_env \<Rightarrow> 'd json_reader \<Rightarrow> string \<Rightarrow> json_pos \<Rightarrow> json_parse_param \<Rightarrow> offset_item \<Rightarrow> 'd store \<Rightarrow> string \<Rightarrow> 'd field_run" where
  "read_field n env rd content pos param fi m t =
     (if it_field_type fi = FIELD_TYPE_MAP then read_map_field n env rd content pos param fi m t
      else if it_is_array fi \<and> 0 < it_array_size fi then read_fixed_array n env rd content pos param fi m
      else if it_is_array fi then read_dynamic_array n env rd content pos param fi m t
      else read_single n env rd content pos param fi m t)"

text \<open>
  A selected field behind its colon: it is cleared first if there is a mask, \<open>null\<close> leaves a nullable field
  as it is.
\<close>

definition read_selected ::
  "nat \<Rightarrow> 'd json_env \<Rightarrow> 'd json_reader \<Rightarrow> string \<Rightarrow> json_pos \<Rightarrow> json_parse_param \<Rightarrow> offset_item \<Rightarrow> 'd store \<Rightarrow> string \<Rightarrow> 'd field_run" where
  "read_selected n env rd content pos param fi m t =
     bindD (if pp_field_mask param \<noteq> None
            then json_clear_field_value env (json_clear_struct_value n env) (pp_instance param) fi m
            else Some (Inr m)) (\<lambda>m1.
     bindD (if it_is_nullable fi then next_tok content pos else Some (Inr (JSON_TOKEN_EOF, pos, []))) (\<lambda>(peek_tk, peek, _).
       if peek_tk = JSON_TOKEN_NULL then Some (Inr (Absent, peek, m1, t))
       else bindD (read_field n env rd content pos param fi m1 t) (\<lambda>(e, pos2, m2, t2).
         if e = Present then mem_run (set_has env fi (pp_instance param) True m2) (\<lambda>m3. Some (Inr (Present, pos2, m3, t2)))
         else Some (Inr (e, pos2, m2, t2)))))"

text \<open>What stands behind a key: the colon, then the value, which is skipped if the key is unknown or not selected.\<close>

definition skip_member :: "nat \<Rightarrow> string \<Rightarrow> json_pos \<Rightarrow> 'd store \<Rightarrow> 'd field_run" where
  "skip_member n content pos m =
     bindD (json_unmarshal_ignore_value n content pos) (\<lambda>(r, pos1, t1).
       Some (Inr (if r \<noteq> 0 then Return (-1) else Absent, pos1, m, t1)))"

definition read_member ::
  "nat \<Rightarrow> 'd json_env \<Rightarrow> 'd json_reader \<Rightarrow> string \<Rightarrow> json_pos \<Rightarrow> json_parse_param \<Rightarrow> string \<Rightarrow> 'd store \<Rightarrow> 'd field_run" where
  "read_member n env rd content pos param key m =
     (case json_field_offset_item_find_ph (je_items env) (je_hash env) (hash_s (cstr (pp_struct_name param)) 0xbc9f1d34)
             (pp_struct_name param) key of
        None \<Rightarrow> None
      | Some found \<Rightarrow>
          bindD (next_tok content pos) (\<lambda>(tk, pos1, t1).
            if tk \<noteq> JSON_TOKEN_COLON then
              field_fail (-1) pos1 m t1 (''expected '' @ in_single '':'' @ '' but got '' @ in_single ''%s'') [cs_arg (ptoken tk t1)]
            else (case found of
                None \<Rightarrow> skip_member n content pos1 m
              | Some fi \<Rightarrow>
                  if \<not> json_field_is_selected param fi then skip_member n content pos1 m
                  else read_selected n env rd content pos1 param fi m t1)))"

fun struct_loop ::
  "nat \<Rightarrow> 'd json_env \<Rightarrow> 'd json_reader \<Rightarrow> string \<Rightarrow> json_pos \<Rightarrow> json_parse_param \<Rightarrow> 'd store \<Rightarrow> 'd json_run" where
  "struct_loop 0 env rd content pos param m = None"
| "struct_loop (Suc n) env rd content pos param m =
     bindD (next_tok content pos) (\<lambda>(tk, pos1, t1).
       if tk = JSON_ERROR then ret (-1) pos1 m t1
       else if tk = JSON_TOKEN_EOF then
         json_fail (-1) pos1 m t1 (''expected '' @ in_single ''}'' @ '' but reach end of file'') []
       else if tk = JSON_TOKEN_RIGHT_BRACE then ret 0 pos1 m t1
       else if tk = JSON_TOKEN_COMMA then
         (let peek = json_skip_space_comments content pos1
          in if jp_offset peek < length content \<and> content ! jp_offset peek = CHR ''}'' then
               json_fail (-1) pos1 m t1 (''trailing comma not allowed before '' @ in_single ''}'') []
             else struct_loop n env rd content pos1 param m)
       else if tk \<noteq> JSON_TOKEN_STRING then
         json_fail (-1) pos1 m t1 (''expected field_name string but got '' @ in_single ''%s'') [cs_arg (ptoken tk t1)]
       else bindD (read_member n env rd content pos1 param t1 m) (\<lambda>(e, pos2, m2, t2).
         case e of Return r \<Rightarrow> ret r pos2 m2 t2 | _ \<Rightarrow> struct_loop n env rd content pos2 param m2))"

fun json_unmarshal_struct_internal :: "nat \<Rightarrow> 'd json_env \<Rightarrow> string \<Rightarrow> 'd json_reader" where
  "json_unmarshal_struct_internal 0 env content pos param m t = None"
| "json_unmarshal_struct_internal (Suc n) env content pos param m t =
     (if pp_depth param > JSON_MAX_DEPTH then
        json_fail (-1) pos m t ''maximum JSON nesting depth (%d) exceeded'' [A_int (word_of_int JSON_MAX_DEPTH)]
      else bindD (next_tok content pos) (\<lambda>(tk, pos1, t1).
        if tk = JSON_TOKEN_EOF then
          (if \<not> pp_in_array param then json_fail (-1) pos1 m t1 (''expected '' @ in_single ''{'' @ '' but got empty input'') []
           else ret 0 pos1 m t1)
        else if tk = JSON_ERROR then ret (-1) pos1 m t1
        else if pp_in_array param \<and> tk = JSON_TOKEN_RIGHT_BRACKET then ret 1 pos1 m t1
        else if tk \<noteq> JSON_TOKEN_LEFT_BRACE then
          json_fail (-1) pos1 m t1 (''expected '' @ in_single ''{'' @ '' but got '' @ in_single ''%s'') [cs_arg (ptoken tk t1)]
        else struct_loop n env (json_unmarshal_struct_internal n env content) content pos1 param m))"

end
