(* ===== verification/JsonObject.thy ===== *)
theory JsonObject
  imports JsonStruct
begin

text \<open>
  Objects read into structs: for a text that spells a JSON object whose members fit the fields of a struct,
  \<open>json_unmarshal_struct_internal\<close> succeeds, stops behind the object, and leaves every value in the field of
  its key. Unknown keys are skipped. Objects are given by their tokens, so white space and comments are free.
\<close>

section \<open>JSON values and their tokens\<close>

datatype jval = JInt int | JString string | JBool bool | JObject "(string \<times> jval) list" | JArray "jval list"

type_synonym json_lexeme = "json_token \<times> string"

fun commas :: "json_lexeme list list \<Rightarrow> json_lexeme list" where
  "commas [] = []"
| "commas [x] = x"
| "commas (x # y # r) = x @ (JSON_TOKEN_COMMA, []) # commas (y # r)"

fun jval_lexemes :: "jval \<Rightarrow> json_lexeme list" where
  "jval_lexemes (JInt i) = [(JSON_TOKEN_INT, show_int i)]"
| "jval_lexemes (JString s) = [(JSON_TOKEN_STRING, s)]"
| "jval_lexemes (JBool b) = [(if b then JSON_TOKEN_TRUE else JSON_TOKEN_FALSE, if b then ''true'' else ''false'')]"
| "jval_lexemes (JObject ms) = (JSON_TOKEN_LEFT_BRACE, [])
     # commas (map (\<lambda>(k, v). (JSON_TOKEN_STRING, k) # (JSON_TOKEN_COLON, []) # jval_lexemes v) ms) @ [(JSON_TOKEN_RIGHT_BRACE, [])]"
| "jval_lexemes (JArray vs) = (JSON_TOKEN_LEFT_BRACKET, [])
     # commas (map jval_lexemes vs) @ [(JSON_TOKEN_RIGHT_BRACKET, [])]"

definition member_lexemes :: "string \<times> jval \<Rightarrow> json_lexeme list" where
  "member_lexemes kv = (JSON_TOKEN_STRING, fst kv) # (JSON_TOKEN_COLON, []) # jval_lexemes (snd kv)"

lemma object_lexemes: "jval_lexemes (JObject ms) = (JSON_TOKEN_LEFT_BRACE, []) # commas (map member_lexemes ms) @ [(JSON_TOKEN_RIGHT_BRACE, [])]"
  by (simp add: member_lexemes_def case_prod_beta' cong: map_cong)

text \<open>From \<open>pos\<close> the lexer gives these tokens one after the other and ends at \<open>pos'\<close>.\<close>

fun spelled :: "string \<Rightarrow> json_pos \<Rightarrow> json_lexeme list \<Rightarrow> json_pos \<Rightarrow> bool" where
  "spelled content pos [] pos' \<longleftrightarrow> pos' = pos"
| "spelled content pos (l # ls) pos' \<longleftrightarrow>
     (\<exists>pos1. json_next_token content pos = Inr (fst l, pos1, snd l) \<and> spelled content pos1 ls pos')"

lemma spelled_append: "spelled content pos (as @ bs) pos' \<longleftrightarrow> (\<exists>pos1. spelled content pos as pos1 \<and> spelled content pos1 bs pos')"
  by (induction as arbitrary: pos) auto

lemma spelled_next: "spelled content pos ((tk, t) # ls) pos' \<Longrightarrow>
  \<exists>pos1. next_tok content pos = Some (Inr (tk, pos1, t)) \<and> json_next_token content pos = Inr (tk, pos1, t) \<and> spelled content pos1 ls pos'"
  by (auto simp: next_tok_def)

lemma jval_lexemes_ne: "jval_lexemes v \<noteq> []"
  by (cases v) auto

lemma string_not_brace:
  assumes "json_next_token content pos = Inr (JSON_TOKEN_STRING, pos', t)"
  shows "\<not> (jp_offset (json_skip_space_comments content pos) < length content
    \<and> content ! jp_offset (json_skip_space_comments content pos) = CHR ''}'')"
  using assms by (auto simp: json_next_token_def Let_def punctuation_def split: if_splits)

lemma member_size: "(k, v) \<in> set ms \<Longrightarrow> size v \<le> size_list (size_prod (\<lambda>_. 0) size) ms"
  by (induction ms) auto

section \<open>What a field takes\<close>

text \<open>The object a field of a scalar type stores for a value.\<close>

fun elem_image :: "'d elem_type \<Rightarrow> jval \<Rightarrow> 'd jvalue option" where
  "elem_image (E_int T) (JInt i) = (if c_int_min T \<le> i \<and> i \<le> c_int_max T then Some (J_int i) else None)"
| "elem_image (E_int T) (JBool b) = Some (J_int (if b then 1 else 0))"
| "elem_image E_sstr (JString s) = Some (J_str (Some s))"
| "elem_image _ _ = None"

definition enum_image :: "string list \<Rightarrow> jval \<Rightarrow> 'd jvalue option" where
  "enum_image es v = (case v of
     JInt i \<Rightarrow> if c_int_min C_int \<le> i \<and> i \<le> c_int_max C_int then Some (J_int i) else None
   | JString s \<Rightarrow> map_option (\<lambda>i. J_int (int i)) (find_string (cstr s) es 0)
   | _ \<Rightarrow> None)"

text \<open>The row of a key, as the struct reader looks it up.\<close>

definition key_row :: "'d json_env \<Rightarrow> string \<Rightarrow> string \<Rightarrow> offset_item option option" where
  "key_row env st key = json_field_offset_item_find_ph (je_items env) (je_hash env) (hash_s (cstr st) 0xbc9f1d34) st key"

text \<open>A field that is neither an array nor a map.\<close>

definition plain_field :: "offset_item \<Rightarrow> bool" where
  "plain_field fi \<longleftrightarrow> \<not> it_is_array fi \<and> it_field_type fi \<noteq> FIELD_TYPE_MAP"

definition scalar_image :: "'d json_env \<Rightarrow> offset_item \<Rightarrow> jval \<Rightarrow> 'd jvalue option" where
  "scalar_image env fi v = (case elem_of env (it_field_type fi) of
     Some E \<Rightarrow> elem_image E v
   | None \<Rightarrow> if it_field_type fi = FIELD_TYPE_ENUM then enum_image (fi_strings env fi) v else None)"

definition scalar_size :: "'d json_env \<Rightarrow> offset_item \<Rightarrow> nat" where
  "scalar_size env fi = (case elem_of env (it_field_type fi) of Some E \<Rightarrow> elem_size E | None \<Rightarrow> 4)"

text \<open>The row of the length of a dynamic array of scalars.\<close>

definition len_item :: "'d json_env \<Rightarrow> string \<Rightarrow> offset_item \<Rightarrow> offset_item option" where
  "len_item env st fi = (case find_item env st (cstr (it_field_name fi) @ ''_len'') of Some r \<Rightarrow> r | None \<Rightarrow> None)"

definition scalar_array :: "'d json_env \<Rightarrow> string \<Rightarrow> offset_item \<Rightarrow> bool" where
  "scalar_array env st fi \<longleftrightarrow> it_is_array fi \<and> it_array_size fi = 0 \<and> it_field_type fi \<noteq> FIELD_TYPE_MAP
     \<and> elem_of env (it_field_type fi) \<noteq> None \<and> len_item env st fi \<noteq> None"

section \<open>Footprints\<close>

type_synonym range = "nat \<times> nat"

definition apart :: "range \<Rightarrow> range \<Rightarrow> bool" where
  "apart a b \<longleftrightarrow> fst a + snd a \<le> fst b \<or> fst b + snd b \<le> fst a"

definition bytes_of :: "nat \<Rightarrow> range list \<Rightarrow> nat set" where
  "bytes_of o0 rs = (\<Union>r\<in>set rs. {o0 + fst r..<o0 + fst r + snd r})"

definition has_range :: "'d json_env \<Rightarrow> offset_item \<Rightarrow> range list" where
  "has_range env fi = (if je_const env (it_has_field_offset fi) \<ge> 0 then [(nat (je_const env (it_has_field_offset fi)), 1)] else [])"

definition value_range :: "'d json_env \<Rightarrow> string \<Rightarrow> offset_item \<Rightarrow> range list" where
  "value_range env st fi =
     (if it_is_array fi then
        [(fi_offset env fi, 8)] @ (case len_item env st fi of Some l \<Rightarrow> [(fi_offset env l, 4)] | None \<Rightarrow> [])
      else if it_field_type fi = FIELD_TYPE_STRUCT then [(fi_offset env fi, fi_size env fi)]
      else [(fi_offset env fi, scalar_size env fi)])"

definition field_range :: "'d json_env \<Rightarrow> string \<Rightarrow> offset_item \<Rightarrow> range list" where
  "field_range env st fi = value_range env st fi @ has_range env fi"

text \<open>The bytes of the struct that the members touch.\<close>

definition member_ranges :: "'d json_env \<Rightarrow> string \<Rightarrow> (string \<times> jval) list \<Rightarrow> range list" where
  "member_ranges env st ms = concat (map (\<lambda>(k, v). case key_row env st k of Some (Some fi) \<Rightarrow> field_range env st fi | _ \<Rightarrow> []) ms)"

text \<open>
  A value fits a field if it is in the range of its type; unknown keys take any value. The members of an
  object must touch separate bytes within the size of the struct.
\<close>

function (sequential) fits :: "'d json_env \<Rightarrow> string \<Rightarrow> offset_item \<Rightarrow> jval \<Rightarrow> bool" where
  "fits env st fi (JObject ms) \<longleftrightarrow> plain_field fi \<and> it_field_type fi = FIELD_TYPE_STRUCT
     \<and> sorted_wrt apart (member_ranges env (it_field_type_name fi) ms)
     \<and> (\<forall>r\<in>set (member_ranges env (it_field_type_name fi) ms). fst r + snd r \<le> fi_size env fi)
     \<and> list_all (\<lambda>kv. case key_row env (it_field_type_name fi) (fst kv) of
          None \<Rightarrow> False | Some None \<Rightarrow> True
        | Some (Some fi') \<Rightarrow> fits env (it_field_type_name fi) fi' (snd kv)) ms"
| "fits env st fi (JArray vs) \<longleftrightarrow> scalar_array env st fi
     \<and> list_all (\<lambda>v. elem_image (the (elem_of env (it_field_type fi))) v \<noteq> None) vs"
| "fits env st fi v \<longleftrightarrow> plain_field fi \<and> scalar_image env fi v \<noteq> None"
  by pat_completeness auto
termination
  by (relation "measure (\<lambda>(env, st, fi, v). size v)") (auto simp: less_Suc_eq_le intro: member_size)

section \<open>Scalars\<close>

lemma elem_image_lexeme:
  assumes "elem_image E v = Some img"
  obtains tk t where "jval_lexemes v = [(tk, t)]" "tk \<noteq> JSON_TOKEN_NULL" "tk \<noteq> JSON_TOKEN_EOF" "tk \<noteq> JSON_TOKEN_RIGHT_BRACKET"
  using assms by (cases "(E, v)" rule: elem_image.cases) auto

lemma scalar_int_bool:
  "json_next_token content pos = Inr (JSON_TOKEN_TRUE, pos', t) \<Longrightarrow> json_unmarshal_scalar_int T content pos v = Inr (0, pos', 1, t)"
  "json_next_token content pos = Inr (JSON_TOKEN_FALSE, pos', t) \<Longrightarrow> json_unmarshal_scalar_int T content pos v = Inr (0, pos', 0, t)"
  by (simp_all add: json_unmarshal_scalar_int_def json_unmarshal_scalar_signed_def json_unmarshal_scalar_unsigned_def)

lemma element_image:
  assumes "json_next_token content pos = Inr (tk, pos', t)" and "jval_lexemes v = [(tk, t)]" and "elem_image E v = Some img"
  shows "\<exists>t'. json_unmarshal_element E content pos = Inr (0, pos', img, t')"
  using assms scalar_int_in_range [of content pos pos']
  by (cases "(E, v)" rule: elem_image.cases)
    (auto simp: scanned_map_def json_unmarshal_scalar_sstr_t_def scalar_int_bool split: if_splits)

lemma read_scalar_image:
  assumes "json_next_token content pos = Inr (tk, pos', t)" and "jval_lexemes v = [(tk, t)]" and "elem_image E v = Some img"
    and "accessible m p (elem_size E)"
  shows "\<exists>m' t'. read_scalar E content pos p m = Some (Inr (0, pos', m', t')) \<and> object_at m' p (elem_size E) (Value img)
    \<and> changed m m' (fst p) {snd p..<snd p + elem_size E} \<and> st_next m' = st_next m \<and> st_room m' = st_room m"
proof -
  have "\<not> at_end content pos" using assms(1,2) by (rule_tac elem_image_lexeme [OF assms(3)]) (auto simp: at_end_def)
  then show ?thesis using element_image [OF assms(1-3)] store_object [OF assms(4), of "Value img"]
    by (auto simp: read_scalar_def)
qed

lemma read_enum_image:
  assumes "json_next_token content pos = Inr (tk, pos', t)" and "jval_lexemes v = [(tk, t)]" and "enum_image es v = Some img"
    and "accessible m p 4"
  shows "\<exists>m' t'. read_enum es content pos p m = Some (Inr (0, pos', m', t')) \<and> object_at m' p 4 (Value img)
    \<and> changed m m' (fst p) {snd p..<snd p + 4} \<and> st_next m' = st_next m \<and> st_room m' = st_room m"
proof -
  obtain i t' where i: "img = J_int i" "json_unmarshal_scalar_enum es content pos 0 = Inr (0, pos', i, t')"
  proof (cases v)
    case (JInt i)
    moreover have "LONG_MIN \<le> i" "i \<le> LONG_MAX" if "c_int_min C_int \<le> i" "i \<le> c_int_max C_int" using that by (simp_all add: c_int_bounds)
    ultimately show ?thesis using that assms(1-3)
      by (auto simp: enum_image_def json_unmarshal_scalar_enum_def strtol_show_int split: if_splits)
  next
    case (JString s)
    then show ?thesis using that assms(1-3) by (auto simp: enum_image_def json_unmarshal_scalar_enum_def)
  qed (use assms(3) in \<open>auto simp: enum_image_def\<close>)
  have "\<not> at_end content pos" using assms(1,2) by (cases v) (auto simp: at_end_def split: if_splits)
  then show ?thesis using i store_object [OF assms(4), of "Value img"] by (auto simp: read_enum_def store_int_def)
qed

section \<open>Skipped values\<close>

text \<open>
  Inside an object or array that is being skipped, the tokens of a value are passed over; the depths return to
  what they were.
\<close>

definition passed :: "json_lexeme list \<Rightarrow> bool" where
  "passed ls \<longleftrightarrow> (\<forall>n content pos pos' b c. spelled content pos ls pos' \<longrightarrow> 0 \<le> b \<longrightarrow> 0 \<le> c \<longrightarrow> 0 < b + c \<longrightarrow>
     ignore_loop (n + length ls) content pos b c = ignore_loop n content pos' b c)"

lemma passed_append:
  assumes "passed as" and "passed bs"
  shows "passed (as @ bs)"
  unfolding passed_def
proof (intro allI impI)
  fix n content pos pos' b c
  assume "spelled content pos (as @ bs) pos'" and pos: "0 \<le> b" "0 \<le> c" "0 < b + (c :: int)"
  then obtain p1 where p: "spelled content pos as p1" "spelled content p1 bs pos'" by (auto simp: spelled_append)
  have "ignore_loop ((n + length bs) + length as) content pos b c = ignore_loop (n + length bs) content p1 b c"
    using assms(1) p(1) pos unfolding passed_def by blast
  also have "\<dots> = ignore_loop n content pos' b c" using assms(2) p(2) pos unfolding passed_def by blast
  finally show "ignore_loop (n + length (as @ bs)) content pos b c = ignore_loop n content pos' b c"
    by (simp add: ac_simps)
qed

lemma passed_one:
  assumes "tk \<notin> {JSON_TOKEN_EOF, JSON_TOKEN_LEFT_BRACE, JSON_TOKEN_RIGHT_BRACE, JSON_TOKEN_LEFT_BRACKET, JSON_TOKEN_RIGHT_BRACKET}"
  shows "passed [(tk, t)]"
  using assms by (auto simp: passed_def Let_def)

lemma passed_Nil: "passed []"
  by (simp add: passed_def)

lemma passed_commas: "(\<And>x. x \<in> set xs \<Longrightarrow> passed x) \<Longrightarrow> passed (commas xs)"
proof (induction xs rule: commas.induct)
  case (3 x y r)
  then have "passed (x @ [(JSON_TOKEN_COMMA, [])] @ commas (y # r))"
    by (intro passed_append) (auto simp: passed_one)
  then show ?case by simp
qed (simp_all add: passed_Nil)

lemma passed_nested:
  assumes "passed ls" and "(l, r) = (JSON_TOKEN_LEFT_BRACE, JSON_TOKEN_RIGHT_BRACE) \<or> (l, r) = (JSON_TOKEN_LEFT_BRACKET, JSON_TOKEN_RIGHT_BRACKET)"
  shows "passed ((l, []) # ls @ [(r, [])])"
  unfolding passed_def
proof (intro allI impI)
  fix n content pos pos' b c
  assume "spelled content pos ((l, []) # ls @ [(r, [])]) pos'" and pos: "0 \<le> b" "0 \<le> c" "0 < b + (c :: int)"
  then obtain p1 p2 where p: "json_next_token content pos = Inr (l, p1, [])" "spelled content p1 ls p2"
      "json_next_token content p2 = Inr (r, pos', [])"
    by (auto simp: spelled_append)
  define N where "N = Suc n + length ls"
  have step: "ignore_loop N content p1 b' c' = ignore_loop (Suc n) content p2 b' c'"
    if "0 \<le> b'" "0 \<le> c'" "0 < b' + c'" for b' c'
    using assms(1) p(2) that unfolding passed_def N_def by blast
  have "ignore_loop (Suc N) content pos b c = ignore_loop n content pos' b c"
    using assms(2)
  proof (elim disjE)
    assume "(l, r) = (JSON_TOKEN_LEFT_BRACE, JSON_TOKEN_RIGHT_BRACE)"
    then show ?thesis using p(1,3) step [of "b + 1" c] pos by (auto simp: Let_def)
  next
    assume "(l, r) = (JSON_TOKEN_LEFT_BRACKET, JSON_TOKEN_RIGHT_BRACKET)"
    then show ?thesis using p(1,3) step [of b "c + 1"] pos by (auto simp: Let_def)
  qed
  then show "ignore_loop (n + length ((l, []) # ls @ [(r, [])])) content pos b c = ignore_loop n content pos' b c"
    by (simp add: N_def)
qed

lemma passed_value: "passed (jval_lexemes v)"
proof (induction v)
  case (JObject ms)
  have "passed (member_lexemes kv)" if "kv \<in> set ms" for kv
  proof -
    have "passed ([(JSON_TOKEN_STRING, fst kv)] @ [(JSON_TOKEN_COLON, [])] @ jval_lexemes (snd kv))"
      using JObject.IH [of kv "snd kv"] that by (cases kv) (intro passed_append, auto simp: passed_one)
    then show ?thesis by (simp add: member_lexemes_def)
  qed
  then show ?case unfolding object_lexemes by (intro passed_nested passed_commas) auto
next
  case (JArray vs)
  then show ?case by (simp only: jval_lexemes.simps) (intro passed_nested passed_commas, auto)
qed (auto intro!: passed_one)

lemma ignore_value:
  assumes "spelled content pos (jval_lexemes v) pos'" and "length (jval_lexemes v) \<le> n"
  shows "\<exists>t. json_unmarshal_ignore_value n content pos = Some (Inr (0, pos', t))"
proof -
  have nested: "\<exists>t. ignore_loop n content pos 0 0 = Some (Inr (0, pos', t))"
    if "passed ls" "spelled content pos ((l, []) # ls @ [(r, [])]) pos'" "length ls + 2 \<le> n"
      "(l, r) = (JSON_TOKEN_LEFT_BRACE, JSON_TOKEN_RIGHT_BRACE) \<or> (l, r) = (JSON_TOKEN_LEFT_BRACKET, JSON_TOKEN_RIGHT_BRACKET)" for ls l r
  proof -
    note given = that
    have "length ls + 2 \<le> n" using that(3) .
    then obtain k N where n: "n = Suc N" "N = Suc k + length ls" by (metis add.commute add_2_eq_Suc add_Suc le_Suc_ex)
    obtain p1 p2 where p: "json_next_token content pos = Inr (l, p1, [])" "spelled content p1 ls p2"
        "json_next_token content p2 = Inr (r, pos', [])"
      using given(2) by (auto simp: spelled_append)
    have step: "ignore_loop N content p1 b c = ignore_loop (Suc k) content p2 b c" if "0 \<le> b" "0 \<le> c" "0 < b + c" for b c
      using given(1) p(2) that unfolding passed_def n(2) by blast
    have "ignore_loop N content p1 1 0 = Some (Inr (0, pos', []))" if "l = JSON_TOKEN_LEFT_BRACE"
      using step [of 1 0] p(3) given(4) that by (simp add: Let_def)
    moreover have "ignore_loop N content p1 0 1 = Some (Inr (0, pos', []))" if "l = JSON_TOKEN_LEFT_BRACKET"
      using step [of 0 1] p(3) given(4) that by (simp add: Let_def)
    ultimately show ?thesis using given(4) p(1) n(1) by (elim disjE) (simp_all add: Let_def)
  qed
  show ?thesis
  proof (cases v)
    case (JObject ms)
    have "passed (commas (map member_lexemes ms))"
    proof (rule passed_commas)
      fix x assume "x \<in> set (map member_lexemes ms)"
      then obtain kv where "x = [(JSON_TOKEN_STRING, fst kv)] @ [(JSON_TOKEN_COLON, [])] @ jval_lexemes (snd kv)"
        by (auto simp: member_lexemes_def)
      then show "passed x" by (simp only:) (intro passed_append, auto simp: passed_one passed_value)
    qed
    then show ?thesis using nested assms unfolding JObject object_lexemes json_unmarshal_ignore_value_def by auto
  next
    case (JArray vs)
    have "passed (commas (map jval_lexemes vs))" by (rule passed_commas) (auto simp: passed_value)
    then show ?thesis using nested assms unfolding JArray json_unmarshal_ignore_value_def by auto
  qed (use assms in \<open>cases n; auto simp: json_unmarshal_ignore_value_def Let_def\<close>)+
qed

section \<open>Arrays of scalars\<close>

lemma array_loop_image:
  assumes "spelled content pos (commas (map jval_lexemes vs) @ [(JSON_TOKEN_RIGHT_BRACKET, [])]) pos'"
    and "list_all (\<lambda>v. elem_image E v \<noteq> None) vs" and "push_ok cap b"
  shows "\<exists>b' cap' t. json_array_loop E content pos cap b = Inr (0, pos', b', t)
    \<and> ab_items b' = ab_items b @ map (\<lambda>v. the (elem_image E v)) vs \<and> push_ok cap' b' \<and> (vs = [] \<longrightarrow> b' = b)"
  using assms
proof (induction vs arbitrary: pos cap b)
  case Nil
  then have "json_next_token content pos = Inr (JSON_TOKEN_RIGHT_BRACKET, pos', [])" by simp
  then obtain v t where "json_unmarshal_element E content pos = Inr (93, pos', v, t)"
    using element.token by fastforce
  then show ?case using Nil.prems(3) by (subst json_array_loop.simps) auto
next
  case (Cons v vs)
  obtain img where img: "elem_image E v = Some img" using Cons.prems(2) by auto
  obtain tk t where lx: "jval_lexemes v = [(tk, t)]" by (rule elem_image_lexeme [OF img])
  obtain pos1 where 1: "json_next_token content pos = Inr (tk, pos1, t)"
      "spelled content pos1 ((if vs = [] then [] else [(JSON_TOKEN_COMMA, [])]) @ commas (map jval_lexemes vs) @ [(JSON_TOKEN_RIGHT_BRACKET, [])]) pos'"
    using Cons.prems(1) lx by (cases vs) auto
  obtain t' where 2: "json_unmarshal_element E content pos = Inr (0, pos1, img, t')" using element_image [OF 1(1) lx img] by blast
  obtain cap1 b1 where 3: "array_push cap b img = Inr (cap1, b1)" "push_ok cap1 b1" "ab_items b1 = ab_items b @ [img]"
    using array_push_ok [OF Cons.prems(3)] by blast
  show ?case
  proof (cases "vs = []")
    case True
    then show ?thesis using 1(2) 2 3 img by (subst json_array_loop.simps) auto
  next
    case False
    then obtain pos2 where 4: "json_next_token content pos1 = Inr (JSON_TOKEN_COMMA, pos2, [])"
        "spelled content pos2 (commas (map jval_lexemes vs) @ [(JSON_TOKEN_RIGHT_BRACKET, [])]) pos'"
      using 1(2) by auto
    obtain b' cap' t'' where "json_array_loop E content pos2 cap1 b1 = Inr (0, pos', b', t'')"
        "ab_items b' = ab_items b1 @ map (\<lambda>v. the (elem_image E v)) vs" "push_ok cap' b'"
      using Cons.IH [OF 4(2) _ 3(2)] Cons.prems(2) by auto
    then show ?thesis using 2 3 4 img by (subst json_array_loop.simps) auto
  qed
qed

lemma store_items_objects:
  assumes "accessible m (b, 0) (room * sz)" and "i + length vs \<le> room" and "b < st_next m"
  shows "\<exists>m'. store_items b sz i vs m = Inr m' \<and> (\<forall>k<length vs. object_at m' (b, (i + k) * sz) sz (Value (vs ! k)))
    \<and> changed m m' b {i * sz..<room * sz} \<and> st_next m' = st_next m \<and> st_room m' = st_room m"
  using assms
proof (induction vs arbitrary: i m)
  case (Cons v vs)
  have "(i + 1) * sz \<le> room * sz" using Cons.prems(2) by (intro mult_le_mono1) simp
  then have fit: "i * sz + sz \<le> room * sz" by simp
  then have "accessible m (b, i * sz) sz" using accessible_part [OF Cons.prems(1) fit] by (simp add: shift_def)
  then obtain m1 where 1: "store_value (b, i * sz) sz (Value v) m = Inr m1" "object_at m1 (b, i * sz) sz (Value v)"
      "changed m m1 b {i * sz..<i * sz + sz}" "st_next m1 = st_next m" "st_room m1 = st_room m"
    using store_object [of m "(b, i * sz)" sz "Value v"] by auto
  have "accessible m1 (b, 0) (room * sz)" using Cons.prems(1) 1(5) by (simp add: accessible_def)
  then obtain m2 where 2: "store_items b sz (i + 1) vs m1 = Inr m2" "changed m1 m2 b {(i + 1) * sz..<room * sz}"
      "\<forall>k<length vs. object_at m2 (b, (i + 1 + k) * sz) sz (Value (vs ! k))" "st_next m2 = st_next m1" "st_room m2 = st_room m1"
    using Cons.IH [of m1 "i + 1"] Cons.prems(2,3) 1(4) by auto
  have "object_at m2 (b, i * sz) sz (Value v)"
    using object_changed [OF 1(2) 2(2)] 1(4) Cons.prems(3) by auto
  then have "\<forall>k<length (v # vs). object_at m2 (b, (i + k) * sz) sz (Value ((v # vs) ! k))"
    using 2(3) by (auto simp: less_Suc_eq_0_disj)
  moreover have "changed m m2 b {i * sz..<room * sz}"
    using changed_mono [OF changed_trans [OF 1(3) 2(2)]] fit by auto
  ultimately show ?case using 1 2 by auto
qed simp

text \<open>The pointer to an array of values; an empty array is the null pointer.\<close>

definition array_at :: "'d store \<Rightarrow> ptr \<Rightarrow> 'd elem_type \<Rightarrow> jval list \<Rightarrow> bool" where
  "array_at m p E vs \<longleftrightarrow> (if vs = [] then accessible m p 8 \<and> zeroed m p 8
     else \<exists>b. b \<noteq> fst p \<and> b < st_next m \<and> object_at m p 8 (Address (Some b))
       \<and> (\<forall>i<length vs. object_at m (b, i * elem_size E) (elem_size E) (Value (the (elem_image E (vs ! i))))))"

lemma fill_array_objects:
  assumes "accessible m p 8" and "fst p < st_next m" and "length imgs \<le> room"
  shows "\<exists>m' b. fill_array p sz room imgs None m = Inr m' \<and> b \<noteq> fst p \<and> b < st_next m' \<and> object_at m' p 8 (Address (Some b))
    \<and> (\<forall>i<length imgs. object_at m' (b, i * sz) sz (Value (imgs ! i))) \<and> changed m m' (fst p) {snd p..<snd p + 8}"
proof -
  obtain b m1 where 1: "mem_malloc (room * sz) m = (b, m1)" by fastforce
  note f = malloc_fresh [OF 1]
  have "accessible m1 p 8" using accessible_changed [OF f(2) assms(2)] assms(1) by simp
  then obtain m2 where 2: "store_value p 8 (Address (Some b)) m1 = Inr m2" "object_at m2 p 8 (Address (Some b))"
      "changed m1 m2 (fst p) {snd p..<snd p + 8}" "st_next m2 = st_next m1" "st_room m2 = st_room m1"
    using store_object [of m1 p 8 "Address (Some b)"] by blast
  have "accessible m2 (b, 0) (room * sz)" using f(3) 2(5) by (simp add: accessible_def)
  then obtain m3 where 3: "store_items b sz 0 imgs m2 = Inr m3" "changed m2 m3 b {0..<room * sz}"
      "\<forall>i<length imgs. object_at m3 (b, i * sz) sz (Value (imgs ! i))" "st_next m3 = st_next m2"
    using store_items_objects [of m2 b room sz 0 imgs] assms(3) f(1,4) 2(4) by auto
  have "object_at m3 p 8 (Address (Some b))"
    using object_changed [OF 2(2) 3(2)] f(1,4) 2(4) assms(2) by auto
  moreover have "changed m m2 (fst p) {snd p..<snd p + 8}" using changed_trans [OF f(2) 2(3)] by simp
  then have "changed m m3 (fst p) {snd p..<snd p + 8}" using changed_fresh [OF _ 3(2)] f(1) by simp
  ultimately show ?thesis using 1 2(1,4) 3 f(1,4) assms(2)
    by (intro exI [of _ m3] exI [of _ b]) (simp add: fill_array_def mem_realloc_def store_addr_def)
qed

lemma read_scalar_array_image:
  assumes "spelled content pos (jval_lexemes (JArray vs)) pos'" and "list_all (\<lambda>v. elem_image E v \<noteq> None) vs"
    and "accessible m p 8" and "zeroed m p 8" and "fst p < st_next m"
  shows "\<exists>m' t. read_scalar_array E content pos p m = Some (Inr (0, pos', m', length vs, t)) \<and> array_at m' p E vs
    \<and> changed m m' (fst p) {snd p..<snd p + 8}"
proof -
  obtain pos1 where 1: "json_next_token content pos = Inr (JSON_TOKEN_LEFT_BRACKET, pos1, [])"
      "spelled content pos1 (commas (map jval_lexemes vs) @ [(JSON_TOKEN_RIGHT_BRACKET, [])]) pos'"
    using assms(1) by auto
  obtain b cap t where 2: "json_array_loop E content pos1 0 array_null = Inr (0, pos', b, t)"
      "ab_items b = map (\<lambda>v. the (elem_image E v)) vs" "push_ok cap b" "vs = [] \<longrightarrow> b = array_null"
    using array_loop_image [OF 1(2) assms(2) push_ok_null] by (auto simp: array_null_def)
  have read: "json_unmarshal_array_internal E content pos array_null = Inr (0, pos', b, t)"
    using 1(1) 2(1) by (simp add: json_unmarshal_array_internal_def)
  show ?thesis
  proof (cases "vs = []")
    case True
    then show ?thesis using read 2 assms(3,4) by (auto simp: read_scalar_array_def array_null_def array_at_def)
  next
    case False
    have room: "length (ab_items b) \<le> ab_room b" "ab_room b \<noteq> 0" using 2(2,3) False by (cases vs; auto simp: push_ok_def)+
    have "load_addr p m = Inr None" using load_zeroed [OF assms(4,3)] by (simp add: load_addr_def)
    moreover obtain m' c where "fill_array p (elem_size E) (ab_room b) (ab_items b) None m = Inr m'" "c \<noteq> fst p" "c < st_next m'"
        "object_at m' p 8 (Address (Some c))" "\<forall>i<length vs. object_at m' (c, i * elem_size E) (elem_size E) (Value (ab_items b ! i))"
        "changed m m' (fst p) {snd p..<snd p + 8}"
      using fill_array_objects [OF assms(3,5) room(1), of "elem_size E"] 2(2) by auto
    ultimately show ?thesis using read room(2) 2(2) False
      by (auto simp: read_scalar_array_def array_at_def intro!: exI [of _ c])
  qed
qed

section \<open>What the memory holds\<close>

text \<open>A field that may be missing is marked as present.\<close>

definition marked :: "'d json_env \<Rightarrow> 'd store \<Rightarrow> ptr \<Rightarrow> offset_item \<Rightarrow> bool" where
  "marked env m p fi \<longleftrightarrow> (0 \<le> je_const env (it_has_field_offset fi) \<longrightarrow>
     object_at m (shift p (nat (je_const env (it_has_field_offset fi)))) 1 (Value (J_int 1)))"

text \<open>The bytes of a struct that no member touches are zero.\<close>

definition untouched :: "'d json_env \<Rightarrow> 'd store \<Rightarrow> ptr \<Rightarrow> string \<Rightarrow> nat \<Rightarrow> (string \<times> jval) list \<Rightarrow> bool" where
  "untouched env m p st sz ms \<longleftrightarrow> accessible m p sz
     \<and> (\<forall>j. j < sz \<longrightarrow> j \<notin> bytes_of 0 (member_ranges env st ms) \<longrightarrow> st_bytes m (fst p) (snd p + j) = Zero)"

text \<open>The value of a field: the object of a scalar, the array, or the members of an inner struct that is zero elsewhere.\<close>

function (sequential) holds :: "'d json_env \<Rightarrow> 'd store \<Rightarrow> ptr \<Rightarrow> string \<Rightarrow> offset_item \<Rightarrow> jval \<Rightarrow> bool" where
  "holds env m p st fi (JObject ms) \<longleftrightarrow> marked env m p fi
     \<and> list_all (\<lambda>kv. case key_row env (it_field_type_name fi) (fst kv) of
          Some (Some fi') \<Rightarrow> holds env m (shift p (fi_offset env fi)) (it_field_type_name fi) fi' (snd kv)
        | _ \<Rightarrow> True) ms
     \<and> untouched env m (shift p (fi_offset env fi)) (it_field_type_name fi) (fi_size env fi) ms"
| "holds env m p st fi (JArray vs) \<longleftrightarrow> marked env m p fi
     \<and> array_at m (shift p (fi_offset env fi)) (the (elem_of env (it_field_type fi))) vs
     \<and> object_at m (shift p (fi_offset env (the (len_item env st fi)))) 4 (Value (J_int (int (length vs))))"
| "holds env m p st fi v \<longleftrightarrow> marked env m p fi
     \<and> object_at m (shift p (fi_offset env fi)) (scalar_size env fi) (Value (the (scalar_image env fi v)))"
  by pat_completeness auto
termination
  by (relation "measure (\<lambda>(env, m, p, st, fi, v). size v)") (auto simp: less_Suc_eq_le intro: member_size)

text \<open>The value without the mark.\<close>

definition value_at :: "'d json_env \<Rightarrow> 'd store \<Rightarrow> ptr \<Rightarrow> string \<Rightarrow> offset_item \<Rightarrow> jval \<Rightarrow> bool" where
  "value_at env m p st fi v = (case v of
     JObject ms \<Rightarrow> list_all (\<lambda>kv. case key_row env (it_field_type_name fi) (fst kv) of
          Some (Some fi') \<Rightarrow> holds env m (shift p (fi_offset env fi)) (it_field_type_name fi) fi' (snd kv)
        | _ \<Rightarrow> True) ms
       \<and> untouched env m (shift p (fi_offset env fi)) (it_field_type_name fi) (fi_size env fi) ms
   | JArray vs \<Rightarrow> array_at m (shift p (fi_offset env fi)) (the (elem_of env (it_field_type fi))) vs
       \<and> object_at m (shift p (fi_offset env (the (len_item env st fi)))) 4 (Value (J_int (int (length vs))))
   | _ \<Rightarrow> object_at m (shift p (fi_offset env fi)) (scalar_size env fi) (Value (the (scalar_image env fi v))))"

lemma holds_iff: "holds env m p st fi v \<longleftrightarrow> marked env m p fi \<and> value_at env m p st fi v"
  by (cases v) (simp_all add: value_at_def)

text \<open>The members of an object, in the struct at \<open>p\<close>.\<close>

definition members_fit :: "'d json_env \<Rightarrow> string \<Rightarrow> nat \<Rightarrow> (string \<times> jval) list \<Rightarrow> bool" where
  "members_fit env st sz ms \<longleftrightarrow> sorted_wrt apart (member_ranges env st ms)
     \<and> (\<forall>r\<in>set (member_ranges env st ms). fst r + snd r \<le> sz)
     \<and> list_all (\<lambda>kv. case key_row env st (fst kv) of
          None \<Rightarrow> False | Some None \<Rightarrow> True | Some (Some fi) \<Rightarrow> fits env st fi (snd kv)) ms"

definition members_held :: "'d json_env \<Rightarrow> 'd store \<Rightarrow> ptr \<Rightarrow> string \<Rightarrow> (string \<times> jval) list \<Rightarrow> bool" where
  "members_held env m p st ms \<longleftrightarrow> list_all (\<lambda>kv. case key_row env st (fst kv) of
     Some (Some fi) \<Rightarrow> holds env m p st fi (snd kv) | _ \<Rightarrow> True) ms"

lemma fits_object: "fits env st fi (JObject ms) \<longleftrightarrow> plain_field fi \<and> it_field_type fi = FIELD_TYPE_STRUCT
    \<and> members_fit env (it_field_type_name fi) (fi_size env fi) ms"
  by (simp add: members_fit_def)

lemma value_object: "value_at env m p st fi (JObject ms) \<longleftrightarrow> members_held env m (shift p (fi_offset env fi)) (it_field_type_name fi) ms
    \<and> untouched env m (shift p (fi_offset env fi)) (it_field_type_name fi) (fi_size env fi) ms"
  by (simp add: members_held_def value_at_def)

declare fits.simps(1) [simp del] holds.simps [simp del]

lemma bytes_of_simps [simp]:
  "bytes_of o0 [] = {}" "bytes_of o0 (r # rs) = {o0 + fst r..<o0 + fst r + snd r} \<union> bytes_of o0 rs"
  "bytes_of o0 (rs @ rs') = bytes_of o0 rs \<union> bytes_of o0 rs'"
  by (auto simp: bytes_of_def)

lemma member_ranges_Cons: "member_ranges env st (kv # ms) =
    (case key_row env st (fst kv) of Some (Some fi) \<Rightarrow> field_range env st fi | _ \<Rightarrow> []) @ member_ranges env st ms"
  by (cases kv) (simp add: member_ranges_def)

lemma bytes_of_apart:
  assumes "\<forall>x\<in>set xs. \<forall>y\<in>set ys. apart x y"
  shows "bytes_of o0 xs \<inter> bytes_of o0 ys = {}"
proof (rule equals0I)
  fix i assume "i \<in> bytes_of o0 xs \<inter> bytes_of o0 ys"
  then obtain x y where "x \<in> set xs" "y \<in> set ys" "o0 + fst x \<le> i" "i < o0 + fst x + snd x" "o0 + fst y \<le> i" "i < o0 + fst y + snd y"
    by (auto simp: bytes_of_def)
  then show False using assms by (force simp: apart_def)
qed

lemma bytes_of_shift: "bytes_of (o0 + k) rs \<subseteq> {o0 + k..<o0 + k + sz}" if "\<forall>r\<in>set rs. fst r + snd r \<le> sz"
  using that by (force simp: bytes_of_def)

lemma member_range_le: "\<forall>r\<in>set rs. fst r + snd r \<le> sz \<Longrightarrow> bytes_of (snd p) rs \<subseteq> {snd p..<snd p + sz}"
  by (force simp: bytes_of_def)

lemma scalar_not_struct: "scalar_image env fi v \<noteq> None \<Longrightarrow> it_field_type fi \<noteq> FIELD_TYPE_STRUCT"
  by (auto simp: scalar_image_def elem_of_def)

lemma marked_changed:
  assumes "marked env m p fi" and "changed m m' (fst p) F" and "fst p < st_next m" and "bytes_of (snd p) (has_range env fi) \<inter> F = {}"
  shows "marked env m' p fi"
  using assms object_changed [OF _ assms(2), of "shift p (nat (je_const env (it_has_field_offset fi)))" 1 "Value (J_int 1)"]
  by (auto simp: marked_def has_range_def)

lemma array_changed:
  assumes "array_at m q E vs" and "changed m m' (fst q) F" and "fst q < st_next m" and "{snd q..<snd q + 8} \<inter> F = {}"
  shows "array_at m' q E vs"
proof (cases "vs = []")
  case True
  then show ?thesis using assms zeroed_changed [OF _ assms(2,3)] accessible_changed [OF assms(2,3)] by (simp add: array_at_def)
next
  case False
  then obtain b where b: "b \<noteq> fst q" "b < st_next m" "object_at m q 8 (Address (Some b))"
      "\<forall>i<length vs. object_at m (b, i * elem_size E) (elem_size E) (Value (the (elem_image E (vs ! i))))"
    using assms(1) by (auto simp: array_at_def)
  have "object_at m' q 8 (Address (Some b))" using object_changed [OF b(3) assms(2,3)] assms(4) by simp
  moreover have "object_at m' (b, i * elem_size E) (elem_size E) (Value (the (elem_image E (vs ! i))))" if "i < length vs" for i
    using object_changed [OF _ assms(2), of "(b, i * elem_size E)"] b(1,2,4) that by auto
  ultimately show ?thesis using b(1,2) changed_next [OF assms(2)] False by (auto simp: array_at_def)
qed

lemma untouched_changed:
  assumes "untouched env m p st sz ms" and "changed m m' (fst p) F" and "fst p < st_next m" and "{snd p..<snd p + sz} \<inter> F = {}"
  shows "untouched env m' p st sz ms"
  using assms accessible_changed [OF assms(2), of p sz] bytes_changed [OF assms(2,3), of sz] by (simp add: untouched_def)

lemma untouched_start:
  assumes "accessible m p sz" and "zeroed m p sz" and "fst p < st_next m" and "changed m m' (fst p) (bytes_of (snd p) (member_ranges env st ms))"
  shows "untouched env m' p st sz ms"
proof -
  have "st_bytes m' (fst p) (snd p + j) = Zero" if "j < sz" "j \<notin> bytes_of 0 (member_ranges env st ms)" for j
  proof -
    have "snd p + j \<notin> bytes_of (snd p) (member_ranges env st ms)" using that(2) by (auto simp: bytes_of_def)
    then show ?thesis using assms(2-4) that(1) by (auto simp: changed_def zeroed_def)
  qed
  then show ?thesis using accessible_changed [OF assms(4), of p sz] assms(1,3) by (simp add: untouched_def)
qed

lemma members_held_iff: "members_held env m p st ms \<longleftrightarrow>
    (\<forall>kv\<in>set ms. \<forall>fi. key_row env st (fst kv) = Some (Some fi) \<longrightarrow> holds env m p st fi (snd kv))"
  unfolding members_held_def list_all_iff by (intro ball_cong refl) (simp split: option.split)

lemma members_fitD:
  assumes "members_fit env st sz ms" and "kv \<in> set ms" and "key_row env st (fst kv) = Some (Some fi)"
  shows "fits env st fi (snd kv)" "\<forall>r\<in>set (field_range env st fi). fst r + snd r \<le> sz"
proof -
  have "case key_row env st (fst kv) of None \<Rightarrow> False | Some None \<Rightarrow> True | Some (Some fi) \<Rightarrow> fits env st fi (snd kv)"
    using assms(1,2) unfolding members_fit_def list_all_iff by blast
  then show "fits env st fi (snd kv)" using assms(3) by simp
  have "set (field_range env st fi) \<subseteq> set (member_ranges env st ms)"
    using assms(2,3) by (induction ms) (force simp: member_ranges_Cons)+
  then show "\<forall>r\<in>set (field_range env st fi). fst r + snd r \<le> sz" using assms(1) by (auto simp: members_fit_def)
qed

lemma value_changed:
  assumes "changed m m' b F"
  shows "value_at env m p st fi v \<Longrightarrow> fits env st fi v \<Longrightarrow> fst p = b \<Longrightarrow> b < st_next m \<Longrightarrow>
    bytes_of (snd p) (value_range env st fi) \<inter> F = {} \<Longrightarrow> value_at env m' p st fi v"
proof (induction v arbitrary: p st fi)
  case (JInt i)
  then have "it_field_type fi \<noteq> FIELD_TYPE_STRUCT" using scalar_not_struct [of env fi "JInt i"] by auto
  then show ?case using JInt object_changed [OF _ assms] by (auto simp: value_range_def plain_field_def value_at_def)
next
  case (JString s)
  then have "it_field_type fi \<noteq> FIELD_TYPE_STRUCT" using scalar_not_struct [of env fi "JString s"] by auto
  then show ?case using JString object_changed [OF _ assms] by (auto simp: value_range_def plain_field_def value_at_def)
next
  case (JBool b')
  then have "it_field_type fi \<noteq> FIELD_TYPE_STRUCT" using scalar_not_struct [of env fi "JBool b'"] by auto
  then show ?case using JBool object_changed [OF _ assms] by (auto simp: value_range_def plain_field_def value_at_def)
next
  case (JArray vs)
  let ?q = "shift p (fi_offset env fi)"
  obtain l where l: "len_item env st fi = Some l" "it_is_array fi" using JArray.prems(2) by (auto simp: scalar_array_def)
  have F: "{snd ?q..<snd ?q + 8} \<inter> F = {}" "{snd p + fi_offset env l..<snd p + fi_offset env l + 4} \<inter> F = {}"
    using JArray.prems(5) l by (auto simp: value_range_def)
  show ?case using JArray.prems l array_changed [of m ?q _ vs m' F] assms F(1)
      object_changed [OF _ assms, of "shift p (fi_offset env l)"] F(2)
    by (auto simp: value_at_def)
next
  case (JObject ms)
  let ?q = "shift p (fi_offset env fi)" and ?tn = "it_field_type_name fi"
  have fit: "plain_field fi" "it_field_type fi = FIELD_TYPE_STRUCT" "members_fit env ?tn (fi_size env fi) ms"
    using JObject.prems(2) by (simp_all add: fits_object)
  have F: "{snd ?q..<snd ?q + fi_size env fi} \<inter> F = {}"
    using JObject.prems(5) fit by (auto simp: value_range_def plain_field_def)
  have "holds env m' ?q ?tn fi' (snd kv)" if kv: "kv \<in> set ms" "key_row env ?tn (fst kv) = Some (Some fi')" for kv fi'
  proof -
    note f = members_fitD [OF fit(3) kv]
    have "bytes_of (snd ?q) (field_range env ?tn fi') \<inter> F = {}" using F(1) member_range_le [OF f(2), of ?q] by blast
    then have d: "bytes_of (snd ?q) (value_range env ?tn fi') \<inter> F = {}" "bytes_of (snd ?q) (has_range env fi') \<inter> F = {}"
      by (auto simp: field_range_def)
    have h: "marked env m ?q fi'" "value_at env m ?q ?tn fi' (snd kv)"
      using JObject.prems(1) kv unfolding value_object members_held_iff holds_iff by blast+
    have "marked env m' ?q fi'"
      using marked_changed [OF h(1) _ _ d(2)] assms JObject.prems(3,4) by simp
    moreover have "value_at env m' ?q ?tn fi' (snd kv)"
      using JObject.IH [of kv "snd kv" ?q ?tn fi'] h(2) d(1) f(1) kv(1) JObject.prems(3,4) by (cases kv) simp
    ultimately show ?thesis by (simp add: holds_iff)
  qed
  moreover have "untouched env m' ?q ?tn (fi_size env fi) ms"
    using untouched_changed [of env m ?q ?tn "fi_size env fi" ms m' F] JObject.prems assms F by (simp add: value_object)
  ultimately show ?case unfolding value_object members_held_iff by blast
qed

lemma holds_changed:
  assumes "holds env m p st fi v" and "fits env st fi v" and "changed m m' (fst p) F" and "fst p < st_next m"
    and "bytes_of (snd p) (field_range env st fi) \<inter> F = {}"
  shows "holds env m' p st fi v"
proof -
  have d: "bytes_of (snd p) (value_range env st fi) \<inter> F = {}" "bytes_of (snd p) (has_range env fi) \<inter> F = {}"
    using assms(5) by (auto simp: field_range_def)
  show ?thesis using assms(1) marked_changed [OF _ assms(3,4) d(2)] value_changed [OF assms(3) _ assms(2) _ assms(4) d(1)]
    by (simp add: holds_iff)
qed

section \<open>Reading a field\<close>

text \<open>How deep objects nest.\<close>

fun nest :: "jval \<Rightarrow> nat" where
  "nest (JObject ms) = Suc (foldr (\<lambda>kv d. max (nest (snd kv)) d) ms 0)"
| "nest (JArray vs) = 0"
| "nest (JInt i) = 0"
| "nest (JString s) = 0"
| "nest (JBool b) = 0"

lemma nest_member: "kv \<in> set ms \<Longrightarrow> nest (snd kv) < nest (JObject ms)"
  by (induction ms) (auto simp: less_Suc_eq_le)

definition whole :: "json_parse_param \<Rightarrow> bool" where
  "whole param \<longleftrightarrow> pp_field_mask param = None \<and> pp_nested param = []"

text \<open>A reader that reads every object of up to \<open>N\<close> tokens that fits.\<close>

definition reads_objects :: "'d json_env \<Rightarrow> string \<Rightarrow> 'd json_reader \<Rightarrow> nat \<Rightarrow> bool" where
  "reads_objects env content rd N \<longleftrightarrow> (\<forall>pos pos' param m t ms sz.
     length (jval_lexemes (JObject ms)) \<le> N \<longrightarrow> spelled content pos (jval_lexemes (JObject ms)) pos' \<longrightarrow> whole param \<longrightarrow>
     pp_depth param + int (nest (JObject ms)) \<le> JSON_MAX_DEPTH + 1 \<longrightarrow> members_fit env (pp_struct_name param) sz ms \<longrightarrow>
     accessible m (pp_instance param) sz \<longrightarrow> zeroed m (pp_instance param) sz \<longrightarrow> fst (pp_instance param) < st_next m \<longrightarrow>
     (\<exists>m' t'. rd pos param m t = Some (Inr (0, pos', m', t')) \<and> members_held env m' (pp_instance param) (pp_struct_name param) ms
       \<and> changed m m' (fst (pp_instance param)) (bytes_of (snd (pp_instance param)) (member_ranges env (pp_struct_name param) ms))))"

text \<open>Fresh bytes for a field.\<close>

definition cleared :: "'d store \<Rightarrow> ptr \<Rightarrow> range list \<Rightarrow> bool" where
  "cleared m p rs \<longleftrightarrow> fst p < st_next m \<and> (\<forall>r\<in>set rs. accessible m (shift p (fst r)) (snd r) \<and> zeroed m (shift p (fst r)) (snd r))"

lemma cleared_changed:
  assumes "cleared m p rs" and "changed m m' (fst p) F" and "bytes_of (snd p) rs \<inter> F = {}"
  shows "cleared m' p rs"
proof -
  have "accessible m' (shift p (fst r)) (snd r) \<and> zeroed m' (shift p (fst r)) (snd r)" if "r \<in> set rs" for r
  proof -
    have "{snd p + fst r..<snd p + fst r + snd r} \<inter> F = {}" using assms(3) that by (auto simp: bytes_of_def)
    then show ?thesis using assms(1) that accessible_changed [OF assms(2)] zeroed_changed [OF _ assms(2)] by (simp add: cleared_def)
  qed
  then show ?thesis using assms(1) changed_next [OF assms(2)] by (simp add: cleared_def)
qed

lemma read_single_scalar:
  assumes "spelled content pos (jval_lexemes v) pos'" and "scalar_image env fi v = Some img"
    and "accessible m (shift (pp_instance param) (fi_offset env fi)) (scalar_size env fi)"
  shows "\<exists>m' t'. read_single n env rd content pos param fi m t = Some (Inr (Present, pos', m', t'))
    \<and> object_at m' (shift (pp_instance param) (fi_offset env fi)) (scalar_size env fi) (Value img)
    \<and> changed m m' (fst (pp_instance param))
        {snd (pp_instance param) + fi_offset env fi..<snd (pp_instance param) + fi_offset env fi + scalar_size env fi}"
proof (cases "elem_of env (it_field_type fi)")
  case None
  then have e: "it_field_type fi = FIELD_TYPE_ENUM" "enum_image (fi_strings env fi) v = Some img" "scalar_size env fi = 4"
    using assms(2) by (auto simp: scalar_image_def scalar_size_def split: if_splits)
  obtain tk s where lx: "jval_lexemes v = [(tk, s)]" using e(2) by (cases v) (auto simp: enum_image_def)
  then have "json_next_token content pos = Inr (tk, pos', s)" using assms(1) by simp
  then show ?thesis using read_enum_image [OF _ lx e(2)] assms(3) None e(1,3)
    by (fastforce simp: read_single_def nonzero_returns_def)
next
  case (Some E)
  then have e: "elem_image E v = Some img" "scalar_size env fi = elem_size E"
    using assms(2) by (simp_all add: scalar_image_def scalar_size_def)
  obtain tk s where lx: "jval_lexemes v = [(tk, s)]" by (rule elem_image_lexeme [OF e(1)])
  then have "json_next_token content pos = Inr (tk, pos', s)" using assms(1) by simp
  then show ?thesis using read_scalar_image [OF _ lx e(1)] assms(3) Some e(2)
    by (fastforce simp: read_single_def nonzero_returns_def)
qed

lemma read_dynamic_scalars:
  assumes "spelled content pos (jval_lexemes (JArray vs)) pos'" and "fits env (pp_struct_name param) fi (JArray vs)"
    and "cleared m (pp_instance param) (value_range env (pp_struct_name param) fi)"
    and "sorted_wrt apart (value_range env (pp_struct_name param) fi)"
  shows "\<exists>m' t'. read_dynamic_array n env rd content pos param fi m t = Some (Inr (Present, pos', m', t'))
    \<and> value_at env m' (pp_instance param) (pp_struct_name param) fi (JArray vs)
    \<and> changed m m' (fst (pp_instance param)) (bytes_of (snd (pp_instance param)) (value_range env (pp_struct_name param) fi))"
proof -
  let ?p = "pp_instance param" and ?st = "pp_struct_name param"
  obtain E l where E: "elem_of env (it_field_type fi) = Some E" "list_all (\<lambda>v. elem_image E v \<noteq> None) vs" "it_is_array fi"
      and l: "len_item env ?st fi = Some l"
    using assms(2) by (auto simp: scalar_array_def)
  let ?q = "shift ?p (fi_offset env fi)" and ?k = "shift ?p (fi_offset env l)"
  have find: "find_item env ?st (cstr (it_field_name fi) @ ''_len'') = Some (Some l)"
    using l by (simp add: len_item_def split: option.splits)
  have r: "value_range env ?st fi = [(fi_offset env fi, 8), (fi_offset env l, 4)]" using E(3) l by (simp add: value_range_def)
  have c: "accessible m ?q 8" "zeroed m ?q 8" "fst ?q < st_next m" "accessible m ?k 4"
    using assms(3) unfolding r cleared_def by auto
  obtain m1 t1 where 1: "read_scalar_array E content pos ?q m = Some (Inr (0, pos', m1, length vs, t1))" "array_at m1 ?q E vs"
      "changed m m1 (fst ?q) {snd ?q..<snd ?q + 8}"
    using read_scalar_array_image [OF assms(1) E(2) c(1-3)] by blast
  have "accessible m1 ?k 4" using accessible_changed [OF 1(3), of ?k] c(3,4) by simp
  then obtain m2 where 2: "store_value ?k 4 (Value (J_int (int (length vs)))) m1 = Inr m2"
      "object_at m2 ?k 4 (Value (J_int (int (length vs))))" "changed m1 m2 (fst ?k) {snd ?k..<snd ?k + 4}"
    using store_object by blast
  have d: "{snd ?q..<snd ?q + 8} \<inter> {snd ?k..<snd ?k + 4} = {}"
    using assms(4) unfolding r by (auto simp: apart_def)
  have "array_at m2 ?q E vs"
    using array_changed [OF 1(2) _ _ d] 2(3) changed_next [OF 1(3)] c(3) by simp
  moreover have "changed m m2 (fst ?p) (bytes_of (snd ?p) (value_range env ?st fi))"
    using changed_trans [OF 1(3)] 2(3) unfolding r by (simp add: Un_commute)
  ultimately show ?thesis using 1(1) 2(1,2) E(1) l find
    by (simp add: read_dynamic_array_def value_at_def mem_run_def store_int_def)
qed

lemma read_field_value:
  assumes "reads_objects env content rd N" and "length (jval_lexemes v) \<le> N" and "spelled content pos (jval_lexemes v) pos'"
    and "whole param" and "pp_depth param + int (nest v) \<le> JSON_MAX_DEPTH" and "fits env (pp_struct_name param) fi v"
    and "cleared m (pp_instance param) (value_range env (pp_struct_name param) fi)"
    and "sorted_wrt apart (value_range env (pp_struct_name param) fi)"
  shows "\<exists>m' t'. read_field n env rd content pos param fi m t = Some (Inr (Present, pos', m', t'))
    \<and> value_at env m' (pp_instance param) (pp_struct_name param) fi v
    \<and> changed m m' (fst (pp_instance param)) (bytes_of (snd (pp_instance param)) (value_range env (pp_struct_name param) fi))"
proof -
  let ?p = "pp_instance param" and ?st = "pp_struct_name param"
  have scalar: ?thesis if "plain_field fi" "scalar_image env fi v = Some img" "\<And>ms. v \<noteq> JObject ms" "\<And>vs. v \<noteq> JArray vs" for img
  proof -
    have r: "value_range env ?st fi = [(fi_offset env fi, scalar_size env fi)]"
      using that(1,2) scalar_not_struct [of env fi v] by (simp add: value_range_def plain_field_def)
    have "accessible m (shift ?p (fi_offset env fi)) (scalar_size env fi)" using assms(7) unfolding r by (simp add: cleared_def)
    from read_single_scalar [OF assms(3) that(2) this, of n rd t] show ?thesis
      using that unfolding r by (cases v) (auto simp: read_field_def plain_field_def value_at_def)
  qed
  show ?thesis
  proof (cases v)
    case (JArray vs)
    then have "scalar_array env ?st fi" using assms(6) by simp
    then show ?thesis using read_dynamic_scalars [of content pos vs pos' env param fi m n rd t] assms(3,6-8) JArray
      by (auto simp: read_field_def scalar_array_def)
  next
    case (JObject ms)
    let ?q = "shift ?p (fi_offset env fi)" and ?tn = "it_field_type_name fi"
    let ?sub = "sub_param ?q False (pp_depth param + 1) ?tn (it_field_name fi)"
    have f: "plain_field fi" "it_field_type fi = FIELD_TYPE_STRUCT" "members_fit env ?tn (fi_size env fi) ms"
      using assms(6) unfolding JObject fits_object by simp_all
    have r: "value_range env ?st fi = [(fi_offset env fi, fi_size env fi)]" using f(1,2) by (simp add: value_range_def plain_field_def)
    have c: "accessible m ?q (fi_size env fi)" "zeroed m ?q (fi_size env fi)" "fst ?q < st_next m"
      using assms(7) unfolding r cleared_def by auto
    have "\<exists>m' t'. rd pos ?sub m t = Some (Inr (0, pos', m', t')) \<and> members_held env m' ?q ?tn ms
        \<and> changed m m' (fst ?q) (bytes_of (snd ?q) (member_ranges env ?tn ms))"
      using assms(1) [unfolded reads_objects_def, rule_format, where ms = ms and param = ?sub and sz = "fi_size env fi"] assms(2,3,5) f(3) c
      unfolding JObject by (simp add: sub_param_def whole_def)
    then obtain m' t' where 1: "rd pos ?sub m t = Some (Inr (0, pos', m', t'))" "members_held env m' ?q ?tn ms"
        "changed m m' (fst ?q) (bytes_of (snd ?q) (member_ranges env ?tn ms))"
      by blast
    have "bytes_of (snd ?q) (member_ranges env ?tn ms) \<subseteq> bytes_of (snd ?p) (value_range env ?st fi)"
      using member_range_le [of "member_ranges env ?tn ms" "fi_size env fi" ?q] f(3) unfolding r by (simp add: members_fit_def)
    then have "changed m m' (fst ?p) (bytes_of (snd ?p) (value_range env ?st fi))" using changed_mono [OF 1(3)] by simp
    moreover have "untouched env m' ?q ?tn (fi_size env fi) ms" by (rule untouched_start [OF c 1(3)])
    ultimately show ?thesis using 1(1,2) f(1,2) assms(4)
      by (simp add: JObject read_field_def read_single_def plain_field_def elem_of_def value_object whole_def json_find_nested_mask_def)
  qed (use scalar assms(6) in auto)
qed

lemma first_token:
  assumes "spelled content pos (jval_lexemes v) pos'"
  obtains tk pos1 t where "json_next_token content pos = Inr (tk, pos1, t)" "tk \<noteq> JSON_TOKEN_NULL"
  using assms by (cases v) auto

lemma read_member_known:
  assumes "reads_objects env content rd N" and "length (jval_lexemes v) \<le> N"
    and "spelled content pos ((JSON_TOKEN_COLON, []) # jval_lexemes v) pos'" and "whole param"
    and "pp_depth param + int (nest v) \<le> JSON_MAX_DEPTH" and "key_row env (pp_struct_name param) key = Some (Some fi)"
    and "fits env (pp_struct_name param) fi v" and "cleared m (pp_instance param) (field_range env (pp_struct_name param) fi)"
    and "sorted_wrt apart (field_range env (pp_struct_name param) fi)"
  shows "\<exists>m' t'. read_member n env rd content pos param key m = Some (Inr (Present, pos', m', t'))
    \<and> holds env m' (pp_instance param) (pp_struct_name param) fi v
    \<and> changed m m' (fst (pp_instance param)) (bytes_of (snd (pp_instance param)) (field_range env (pp_struct_name param) fi))"
proof -
  let ?p = "pp_instance param" and ?st = "pp_struct_name param"
  obtain pos1 where 1: "json_next_token content pos = Inr (JSON_TOKEN_COLON, pos1, [])" "spelled content pos1 (jval_lexemes v) pos'"
    using assms(3) by auto
  obtain tk pos2 s where 2: "json_next_token content pos1 = Inr (tk, pos2, s)" "tk \<noteq> JSON_TOKEN_NULL" using first_token [OF 1(2)] by blast
  have apart: "sorted_wrt apart (value_range env ?st fi)" "\<forall>x\<in>set (value_range env ?st fi). \<forall>y\<in>set (has_range env fi). apart x y"
    using assms(9) by (simp_all add: field_range_def sorted_wrt_append)
  have c: "cleared m ?p (value_range env ?st fi)" "cleared m ?p (has_range env fi)"
    using assms(8) by (auto simp: cleared_def field_range_def)
  obtain m1 t1 where 3: "read_field n env rd content pos1 param fi m [] = Some (Inr (Present, pos', m1, t1))"
      "value_at env m1 ?p ?st fi v" "changed m m1 (fst ?p) (bytes_of (snd ?p) (value_range env ?st fi))"
    using read_field_value [OF assms(1,2) 1(2) assms(4,5,7) c(1) apart(1), of n "[]"] by blast
  have c1: "cleared m1 ?p (has_range env fi)"
    using cleared_changed [OF c(2) 3(3)] bytes_of_apart [OF apart(2)] by (simp add: Int_commute)
  obtain m2 where 4: "set_has env fi ?p True m1 = Inr m2" "marked env m2 ?p fi" "changed m1 m2 (fst ?p) (bytes_of (snd ?p) (has_range env fi))"
  proof (cases "0 \<le> je_const env (it_has_field_offset fi)")
    case True
    let ?h = "shift ?p (nat (je_const env (it_has_field_offset fi)))"
    have "accessible m1 ?h 1" using c1 True by (simp add: cleared_def has_range_def)
    then obtain m2 where "store_value ?h 1 (Value (J_int 1)) m1 = Inr m2" "object_at m2 ?h 1 (Value (J_int 1))"
        "changed m1 m2 (fst ?h) {snd ?h..<snd ?h + 1}"
      using store_object by blast
    then show ?thesis using that [of m2] True by (simp add: set_has_def store_bool_def marked_def has_range_def)
  next
    case False
    then show ?thesis using that [of m1] by (simp add: set_has_def marked_def)
  qed
  have "value_at env m2 ?p ?st fi v"
    using value_changed [OF 4(3) 3(2) assms(7)] changed_next [OF 3(3)] c(1) bytes_of_apart [OF apart(2)] by (simp add: cleared_def)
  then have "holds env m2 ?p ?st fi v" using 4(2) by (simp add: holds_iff)
  moreover have "changed m m2 (fst ?p) (bytes_of (snd ?p) (field_range env ?st fi))"
    using changed_trans [OF 3(3) 4(3)] by (simp add: field_range_def)
  moreover have "read_selected n env rd content pos1 param fi m [] = Some (Inr (Present, pos', m2, t1))"
    using 2 3(1) 4(1) assms(4) by (simp add: read_selected_def whole_def next_tok_def mem_run_def)
  then have "read_member n env rd content pos param key m = Some (Inr (Present, pos', m2, t1))"
    using assms(4,6) 1(1) by (simp add: read_member_def key_row_def [symmetric] next_tok_def json_field_is_selected_def whole_def)
  ultimately show ?thesis by blast
qed

lemma read_member_unknown:
  assumes "spelled content pos ((JSON_TOKEN_COLON, []) # jval_lexemes v) pos'" and "length (jval_lexemes v) \<le> n"
    and "key_row env (pp_struct_name param) key = Some None"
  shows "\<exists>t'. read_member n env rd content pos param key m = Some (Inr (Absent, pos', m, t'))"
proof -
  obtain pos1 where 1: "json_next_token content pos = Inr (JSON_TOKEN_COLON, pos1, [])" "spelled content pos1 (jval_lexemes v) pos'"
    using assms(1) by auto
  obtain t where "json_unmarshal_ignore_value n content pos1 = Some (Inr (0, pos', t))" using ignore_value [OF 1(2) assms(2)] by blast
  then show ?thesis using 1(1) assms(3) by (simp add: read_member_def key_row_def [symmetric] next_tok_def skip_member_def)
qed

section \<open>Reading an object\<close>

lemma members_fit_Cons:
  assumes "members_fit env st sz (kv # ms)"
  shows "members_fit env st sz ms"
    and "key_row env st (fst kv) = Some (Some fi) \<Longrightarrow> sorted_wrt apart (field_range env st fi)
      \<and> (\<forall>x\<in>set (field_range env st fi). \<forall>y\<in>set (member_ranges env st ms). apart x y)"
    and "key_row env st (fst kv) \<noteq> None"
  using assms by (auto simp: members_fit_def member_ranges_Cons sorted_wrt_append split: option.splits)

lemma struct_loop_member:
  "json_next_token content pos = Inr (JSON_TOKEN_STRING, pos1, key) \<Longrightarrow>
   read_member n env rd content pos1 param key m = Some (Inr (e, pos2, m1, t1)) \<Longrightarrow> (\<And>r. e \<noteq> Return r) \<Longrightarrow>
   struct_loop (Suc n) env rd content pos param m = struct_loop n env rd content pos2 param m1"
  by (cases e) (auto simp: next_tok_def)

lemma struct_loop_comma:
  "json_next_token content pos = Inr (JSON_TOKEN_COMMA, pos1, []) \<Longrightarrow> json_next_token content pos1 = Inr (JSON_TOKEN_STRING, pos2, key) \<Longrightarrow>
   struct_loop (Suc n) env rd content pos param m = struct_loop n env rd content pos1 param m"
  using string_not_brace [of content pos1 pos2 key] by (auto simp: next_tok_def Let_def)

lemma struct_loop_members:
  assumes "reads_objects env content rd N" and "whole param"
  shows "spelled content pos (commas (map member_lexemes ms) @ [(JSON_TOKEN_RIGHT_BRACE, [])]) pos' \<Longrightarrow>
    length (commas (map member_lexemes ms)) < n \<Longrightarrow> length (commas (map member_lexemes ms)) \<le> N \<Longrightarrow>
    pp_depth param + int (nest (JObject ms)) \<le> JSON_MAX_DEPTH + 1 \<Longrightarrow> members_fit env (pp_struct_name param) sz ms \<Longrightarrow>
    cleared m (pp_instance param) (member_ranges env (pp_struct_name param) ms) \<Longrightarrow>
    \<exists>m' t'. struct_loop n env rd content pos param m = Some (Inr (0, pos', m', t'))
      \<and> members_held env m' (pp_instance param) (pp_struct_name param) ms
      \<and> changed m m' (fst (pp_instance param)) (bytes_of (snd (pp_instance param)) (member_ranges env (pp_struct_name param) ms))"
proof (induction ms arbitrary: n pos m)
  case Nil
  then obtain k where "n = Suc k" by (cases n) auto
  moreover have "json_next_token content pos = Inr (JSON_TOKEN_RIGHT_BRACE, pos', [])" using Nil.prems(1) by simp
  ultimately show ?case by (simp add: next_tok_def members_held_def)
next
  case (Cons kv ms)
  let ?p = "pp_instance param" and ?st = "pp_struct_name param" and ?brace = "[(JSON_TOKEN_RIGHT_BRACE, [])]"
  let ?rest = "(if ms = [] then [] else [(JSON_TOKEN_COMMA, [])]) @ commas (map member_lexemes ms)"
  have lx: "commas (map member_lexemes (kv # ms)) = (JSON_TOKEN_STRING, fst kv) # (JSON_TOKEN_COLON, []) # jval_lexemes (snd kv) @ ?rest"
    by (cases ms) (simp_all add: member_lexemes_def)
  obtain k where n: "n = Suc (Suc k)" using Cons.prems(2) unfolding lx by (cases n; cases "n - 1") auto
  obtain pos1 pos2 where 1: "json_next_token content pos = Inr (JSON_TOKEN_STRING, pos1, fst kv)"
      "spelled content pos1 ((JSON_TOKEN_COLON, []) # jval_lexemes (snd kv)) pos2" "spelled content pos2 (?rest @ ?brace) pos'"
    using Cons.prems(1) unfolding lx by (auto simp: spelled_append)
  have len: "length (jval_lexemes (snd kv)) + length ?rest + 2 < Suc (Suc (Suc k))" "length (jval_lexemes (snd kv)) + length ?rest + 2 \<le> N"
    using Cons.prems(2,3) unfolding lx n by simp_all
  have nest: "pp_depth param + int (nest (snd kv)) \<le> JSON_MAX_DEPTH" "pp_depth param + int (nest (JObject ms)) \<le> JSON_MAX_DEPTH + 1"
    using Cons.prems(4) by auto
  note fit = members_fit_Cons [OF Cons.prems(5)]
  obtain row where row: "key_row env ?st (fst kv) = Some row" using fit(3) by auto
  obtain m1 e t1 where 2: "read_member (Suc k) env rd content pos1 param (fst kv) m = Some (Inr (e, pos2, m1, t1))" "\<And>r. e \<noteq> Return r"
      "\<And>fi. row = Some fi \<Longrightarrow> holds env m1 ?p ?st fi (snd kv)"
      "changed m m1 (fst ?p) (bytes_of (snd ?p) (case row of Some fi \<Rightarrow> field_range env ?st fi | None \<Rightarrow> []))"
  proof (cases row)
    case None
    then obtain t1 where "read_member (Suc k) env rd content pos1 param (fst kv) m = Some (Inr (Absent, pos2, m, t1))"
      using read_member_unknown [OF 1(2), of "Suc k" env param "fst kv" rd m] len(1) row by auto
    then show ?thesis using that [of Absent m t1] None by simp
  next
    case (Some fi)
    have r: "key_row env ?st (fst kv) = Some (Some fi)" using row Some by simp
    have f: "fits env ?st fi (snd kv)" using members_fitD(1) [OF Cons.prems(5) _ r] by simp
    have lv: "length (jval_lexemes (snd kv)) \<le> N" using len(2) by simp
    have cf: "cleared m ?p (field_range env ?st fi)" using Cons.prems(6) r by (simp add: cleared_def member_ranges_Cons)
    obtain m1 t1 where "read_member (Suc k) env rd content pos1 param (fst kv) m = Some (Inr (Present, pos2, m1, t1))"
        "holds env m1 ?p ?st fi (snd kv)" "changed m m1 (fst ?p) (bytes_of (snd ?p) (field_range env ?st fi))"
      using read_member_known [OF assms(1) lv 1(2) assms(2) nest(1) r f cf conjunct1 [OF fit(2) [OF r]], of "Suc k"] by blast
    then show ?thesis using that [of Present m1 t1] Some by simp
  qed
  let ?F = "bytes_of (snd ?p) (case row of Some fi \<Rightarrow> field_range env ?st fi | None \<Rightarrow> [])"
  have disj: "?F \<inter> bytes_of (snd ?p) (member_ranges env ?st ms) = {}"
    using fit(2) row by (cases row) (auto intro!: bytes_of_apart)
  have c: "cleared m ?p (member_ranges env ?st ms)" using Cons.prems(6) by (simp add: cleared_def member_ranges_Cons)
  have c1: "cleared m1 ?p (member_ranges env ?st ms)" using cleared_changed [OF c 2(4)] disj by (simp add: Int_commute)
  have step: "struct_loop n env rd content pos param m = struct_loop (Suc k) env rd content pos2 param m1"
    unfolding n by (rule struct_loop_member [OF 1(1) 2(1,2)])
  obtain k' pos3 where 3: "struct_loop (Suc k) env rd content pos2 param m1 = struct_loop k' env rd content pos3 param m1"
      "spelled content pos3 (commas (map member_lexemes ms) @ ?brace) pos'" "length (commas (map member_lexemes ms)) < k'"
  proof (cases "ms = []")
    case True
    then show ?thesis using that [of "Suc k" pos2] 1(3) by simp
  next
    case False
    then obtain pos3 where p3: "json_next_token content pos2 = Inr (JSON_TOKEN_COMMA, pos3, [])"
        "spelled content pos3 (commas (map member_lexemes ms) @ ?brace) pos'"
      using 1(3) by auto
    obtain kv2 ms2 where ms: "ms = kv2 # ms2" using False by (cases ms) auto
    obtain q s where "json_next_token content pos3 = Inr (JSON_TOKEN_STRING, q, s)"
      using p3(2) unfolding ms by (cases ms2) (auto simp: member_lexemes_def)
    then have "struct_loop (Suc k) env rd content pos2 param m1 = struct_loop k env rd content pos3 param m1"
      by (rule struct_loop_comma [OF p3(1)])
    then show ?thesis using that [of k pos3] p3(2) len(1) False by simp
  qed
  have len3: "length (commas (map member_lexemes ms)) \<le> N" using len(2) by simp
  obtain m2 t2 where 4: "struct_loop k' env rd content pos3 param m1 = Some (Inr (0, pos', m2, t2))" "members_held env m2 ?p ?st ms"
      "changed m1 m2 (fst ?p) (bytes_of (snd ?p) (member_ranges env ?st ms))"
    using Cons.IH [OF 3(2,3) len3 nest(2) fit(1) c1] by blast
  have "holds env m2 ?p ?st fi (snd kv)" if "key_row env ?st (fst kv) = Some (Some fi)" for fi
  proof -
    have r: "row = Some fi" using row that by simp
    show ?thesis
      using holds_changed [OF 2(3) [OF r] members_fitD(1) [OF Cons.prems(5) _ that] 4(3)] disj c1 r by (simp add: cleared_def)
  qed
  then have "members_held env m2 ?p ?st (kv # ms)" using 4(2) by (simp add: members_held_iff)
  moreover have "changed m m2 (fst ?p) (bytes_of (snd ?p) (member_ranges env ?st (kv # ms)))"
    using changed_trans [OF 2(4) 4(3)] row by (simp add: member_ranges_Cons)
  ultimately show ?case using step 3(1) 4(1) by simp
qed

lemma struct_internal_reads:
  fixes env :: "'d json_env"
  shows "reads_objects env content (json_unmarshal_struct_internal n env content) n"
proof (induction n)
  case 0
  show ?case by (simp add: reads_objects_def object_lexemes del: jval_lexemes.simps)
next
  case (Suc n)
  show ?case unfolding reads_objects_def
  proof (intro allI impI)
    fix pos pos' t ms sz and m :: "'d store" and param :: json_parse_param
    let ?p = "pp_instance param" and ?st = "pp_struct_name param"
    assume len: "length (jval_lexemes (JObject ms)) \<le> Suc n" and sp: "spelled content pos (jval_lexemes (JObject ms)) pos'"
      and w: "whole param" and depth: "pp_depth param + int (nest (JObject ms)) \<le> JSON_MAX_DEPTH + 1"
      and fit: "members_fit env ?st sz ms" and mem: "accessible m ?p sz" "zeroed m ?p sz" "fst ?p < st_next m"
    obtain pos1 where 1: "json_next_token content pos = Inr (JSON_TOKEN_LEFT_BRACE, pos1, [])"
        "spelled content pos1 (commas (map member_lexemes ms) @ [(JSON_TOKEN_RIGHT_BRACE, [])]) pos'"
      using sp unfolding object_lexemes by auto
    have l: "length (commas (map member_lexemes ms)) < n" using len unfolding object_lexemes by simp
    have "cleared m ?p (member_ranges env ?st ms)"
      using fit mem(3) accessible_part [OF mem(1)] zeroed_part [OF mem(2)] unfolding cleared_def members_fit_def by blast
    then obtain m' t' where "struct_loop n env (json_unmarshal_struct_internal n env content) content pos1 param m = Some (Inr (0, pos', m', t'))"
        "members_held env m' ?p ?st ms" "changed m m' (fst ?p) (bytes_of (snd ?p) (member_ranges env ?st ms))"
      using struct_loop_members [OF Suc.IH w 1(2) l less_imp_le [OF l] depth fit] by blast
    moreover have "\<not> pp_depth param > JSON_MAX_DEPTH" using depth by simp
    ultimately show "\<exists>m' t'. json_unmarshal_struct_internal (Suc n) env content pos param m t = Some (Inr (0, pos', m', t'))
        \<and> members_held env m' ?p ?st ms \<and> changed m m' (fst ?p) (bytes_of (snd ?p) (member_ranges env ?st ms))"
      using 1(1) by (simp add: next_tok_def)
  qed
qed

end
