(* ===== verification/JsonText.thy ===== *)
theory JsonText
  imports JsonObject
begin

text \<open>
  Texts of values: the tokens of a value with white space between them. The lexer gives the tokens back.
\<close>

section \<open>Texts\<close>

fun json_lexeme_text :: "json_lexeme \<Rightarrow> string" where
  "json_lexeme_text (JSON_TOKEN_STRING, s) = CHR 0x22 # json_escape s @ [CHR 0x22]"
| "json_lexeme_text (JSON_TOKEN_COMMA, s) = '',''"
| "json_lexeme_text (JSON_TOKEN_COLON, s) = '':''"
| "json_lexeme_text (JSON_TOKEN_LEFT_BRACE, s) = ''{''"
| "json_lexeme_text (JSON_TOKEN_RIGHT_BRACE, s) = ''}''"
| "json_lexeme_text (JSON_TOKEN_LEFT_BRACKET, s) = ''[''"
| "json_lexeme_text (JSON_TOKEN_RIGHT_BRACKET, s) = '']''"
| "json_lexeme_text (tk, s) = s"

text \<open>A text with white space before the tokens.\<close>

definition json_render :: "(string \<times> json_lexeme) list \<Rightarrow> string" where
  "json_render lay = concat (map (\<lambda>(ws, l). ws @ json_lexeme_text l) lay)"

definition spaced :: "(string \<times> json_lexeme) list \<Rightarrow> bool" where
  "spaced lay \<longleftrightarrow> list_all (\<lambda>(ws, l). list_all JSON_IS_SPACE ws) lay"

text \<open>Numbers and words are the tokens that something must separate.\<close>

fun bare :: "json_token \<Rightarrow> bool" where
  "bare JSON_TOKEN_INT = True"
| "bare JSON_TOKEN_TRUE = True"
| "bare JSON_TOKEN_FALSE = True"
| "bare tk = False"

definition lexeme_ok :: "json_lexeme \<Rightarrow> bool" where
  "lexeme_ok l \<longleftrightarrow> fst l = JSON_TOKEN_STRING \<or> fst l = JSON_TOKEN_INT \<and> (\<exists>i. snd l = show_int i)
     \<or> l = (JSON_TOKEN_TRUE, ''true'') \<or> l = (JSON_TOKEN_FALSE, ''false'')
     \<or> snd l = [] \<and> fst l \<in> {JSON_TOKEN_COMMA, JSON_TOKEN_COLON, JSON_TOKEN_LEFT_BRACE, JSON_TOKEN_RIGHT_BRACE,
         JSON_TOKEN_LEFT_BRACKET, JSON_TOKEN_RIGHT_BRACKET}"

definition not_both_bare :: "json_lexeme \<Rightarrow> json_lexeme \<Rightarrow> bool" where
  "not_both_bare a b \<longleftrightarrow> \<not> bare (fst a) \<or> \<not> bare (fst b)"

lemma lexeme_ok_simps: "lexeme_ok (JSON_TOKEN_STRING, s)" "lexeme_ok (JSON_TOKEN_COMMA, [])" "lexeme_ok (JSON_TOKEN_COLON, [])"
  "lexeme_ok (JSON_TOKEN_LEFT_BRACE, [])" "lexeme_ok (JSON_TOKEN_RIGHT_BRACE, [])" "lexeme_ok (JSON_TOKEN_LEFT_BRACKET, [])"
  "lexeme_ok (JSON_TOKEN_RIGHT_BRACKET, [])" "lexeme_ok (JSON_TOKEN_INT, show_int i)"
  "lexeme_ok (JSON_TOKEN_TRUE, ''true'')" "lexeme_ok (JSON_TOKEN_FALSE, ''false'')"
  by (auto simp: lexeme_ok_def)

lemma commas_ok: "(\<And>x. x \<in> set xs \<Longrightarrow> list_all lexeme_ok x) \<Longrightarrow> list_all lexeme_ok (commas xs)"
  by (induction xs rule: commas.induct) (auto simp: lexeme_ok_simps)

lemma jval_lexemes_ok: "list_all lexeme_ok (jval_lexemes v)"
proof (induction v)
  case (JObject ms)
  have "list_all lexeme_ok (commas (map member_lexemes ms))"
  proof (rule commas_ok)
    fix x assume "x \<in> set (map member_lexemes ms)"
    then obtain k v where "(k, v) \<in> set ms" "x = member_lexemes (k, v)" by auto
    then show "list_all lexeme_ok x" using JObject.IH [of "(k, v)" v] by (simp add: member_lexemes_def lexeme_ok_simps)
  qed
  then show ?case unfolding object_lexemes by (simp add: lexeme_ok_simps)
next
  case (JArray vs)
  then have "list_all lexeme_ok (commas (map jval_lexemes vs))" by (intro commas_ok) auto
  then show ?case by (simp add: lexeme_ok_simps)
qed (simp_all add: lexeme_ok_simps)

text \<open>Commas keep numbers apart.\<close>

lemma commas_apart:
  "(\<And>x. x \<in> set xs \<Longrightarrow> x \<noteq> [] \<and> successively not_both_bare x) \<Longrightarrow> successively not_both_bare (commas xs)"
proof (induction xs rule: commas.induct)
  case (3 x y r)
  have "commas (y # r) = [] \<or> not_both_bare (JSON_TOKEN_COMMA, []) (hd (commas (y # r)))" by (simp add: not_both_bare_def)
  moreover have "successively not_both_bare (commas (y # r))" using 3 by simp
  ultimately have "successively not_both_bare ((JSON_TOKEN_COMMA, []) # commas (y # r))"
    by (cases "commas (y # r)") (auto simp: not_both_bare_def)
  then show ?case using 3(2) [of x] by (auto simp: successively_append_iff not_both_bare_def)
qed simp_all

lemma bracketed_apart:
  assumes "successively not_both_bare ls" and "\<not> bare (fst l)" and "\<not> bare (fst r)"
  shows "successively not_both_bare (l # ls @ [r])"
  using assms by (cases ls rule: rev_cases; cases ls) (auto simp: successively_append_iff successively_Cons not_both_bare_def)

lemma jval_lexemes_apart: "successively not_both_bare (jval_lexemes v)"
proof (induction v)
  case (JObject ms)
  have "successively not_both_bare (commas (map member_lexemes ms))"
  proof (rule commas_apart)
    fix x assume "x \<in> set (map member_lexemes ms)"
    then obtain k v where kv: "(k, v) \<in> set ms" "x = member_lexemes (k, v)" by auto
    then have "successively not_both_bare (jval_lexemes v)" using JObject.IH [of "(k, v)" v] by simp
    then show "x \<noteq> [] \<and> successively not_both_bare x" unfolding kv(2) member_lexemes_def
      by (cases "jval_lexemes v") (auto simp: not_both_bare_def)
  qed
  then show ?case unfolding object_lexemes by (rule bracketed_apart) simp_all
next
  case (JArray vs)
  then have "successively not_both_bare (commas (map jval_lexemes vs))" by (intro commas_apart) (auto simp: jval_lexemes_ne)
  then show ?case by (simp only: jval_lexemes.simps) (rule bracketed_apart, simp_all)
qed simp_all

lemma lexeme_text_head:
  assumes "lexeme_ok l" and "\<not> bare (fst l)"
  obtains d r where "json_lexeme_text l = d # r" "ends_int d" "\<not> is_alpha d"
  using assms by (cases l) (auto simp: lexeme_ok_def ends_int_def is_digit_def is_alpha_def)

lemma space_ends_int: "JSON_IS_SPACE c \<Longrightarrow> ends_int c"
proof -
  assume "JSON_IS_SPACE c"
  then have "\<not> is_digit c" using JSON_IS_DIGIT_eq [of c] by (auto simp: JSON_IS_SPACE_def JSON_IS_DIGIT_def)
  moreover have "\<not> JSON_IS_SPACE (CHR ''.'')" "\<not> JSON_IS_SPACE (CHR ''e'')" "\<not> JSON_IS_SPACE (CHR ''E'')" by code_simp+
  ultimately show ?thesis using \<open>JSON_IS_SPACE c\<close> by (auto simp: ends_int_def)
qed

lemma space_not_alpha: "JSON_IS_SPACE c \<Longrightarrow> \<not> is_alpha c"
proof
  assume "is_alpha c"
  then have "58 \<le> (of_char c :: nat)" "(of_char c :: nat) - 58 < 198" by (auto simp: is_alpha_def)
  then have "json_char_class ! of_char c = 0" by (simp add: json_char_class_def nth_append)
  moreover assume "JSON_IS_SPACE c"
  ultimately show False by (simp add: JSON_IS_SPACE_def)
qed

text \<open>A word, with something behind it that is no letter.\<close>

lemma next_word_token:
  assumes "content = pre @ ws @ w @ d # post" and "list_all JSON_IS_SPACE ws" and "\<not> is_alpha d" and "jp_offset pos = length pre"
    and "(w, tk) = (''true'', JSON_TOKEN_TRUE) \<or> (w, tk) = (''false'', JSON_TOKEN_FALSE)"
  shows "\<exists>pos'. json_next_token content pos = Inr (tk, pos', w) \<and> jp_offset pos' = length pre + length ws + length w"
proof -
  let ?i = "length pre + length ws"
  obtain c w' where w: "w = c # w'" "\<not> JSON_IS_SPACE c" "c \<noteq> CHR ''/''" "c \<noteq> CHR 0x22" "punctuation c = None" "\<not> JSON_IS_DIGIT c"
      "c \<noteq> CHR ''-''" "c \<noteq> CHR ''.''"
  proof -
    have "\<not> JSON_IS_DIGIT (CHR ''t'')" "\<not> JSON_IS_DIGIT (CHR ''f'')" by code_simp+
    then show ?thesis using assms(5) not_space(9,10) that [of "CHR ''t''" "''rue''"] that [of "CHR ''f''" "''alse''"]
      by (elim disjE) (simp_all add: punctuation_def)
  qed
  obtain ln cl where skip: "json_skip_space_comments content pos = pos\<lparr>jp_line := ln, jp_col := cl, jp_offset := ?i\<rparr>"
    using skip_space_run [of content pre ws c "w' @ d # post", OF _ assms(2) w(2,3) assms(4)] assms(1) w(1) by auto
  have at: "?i < length content" "content ! ?i = c" "drop ?i content = w @ d # post" using assms(1) w(1) by (simp_all add: nth_append)
  have "content ! (?i + length w) = d" "?i + length w < length content" using assms(1) by (simp_all add: nth_append)
  then have kw: "at_keyword content ?i kw \<longleftrightarrow> kw = w" if "length kw = length w \<or> kw = ''true''" for kw
    using at(3) assms(3,5) that by (auto simp: at_keyword_def Let_def)
  have tok: "json_next_token content pos = (if at_keyword content ?i ''true'' then Inr (JSON_TOKEN_TRUE, forward 4 (pos\<lparr>jp_line := ln, jp_col := cl, jp_offset := ?i\<rparr>), ''true'')
      else if at_keyword content ?i ''false'' then Inr (JSON_TOKEN_FALSE, forward 5 (pos\<lparr>jp_line := ln, jp_col := cl, jp_offset := ?i\<rparr>), ''false'')
      else json_next_token content pos)"
    using skip at(1,2) assms(4) w by (simp add: json_next_token_def)
  show ?thesis
    using assms(5)
  proof (elim disjE)
    assume "(w, tk) = (''true'', JSON_TOKEN_TRUE)"
    then show ?thesis using kw [of "''true''"] tok by (simp add: forward_def)
  next
    assume "(w, tk) = (''false'', JSON_TOKEN_FALSE)"
    then show ?thesis using kw [of "''true''"] kw [of "''false''"] tok by (simp add: forward_def)
  qed
qed

lemma render_Cons: "json_render ((ws, l) # lay) = ws @ json_lexeme_text l @ json_render lay"
  by (simp add: json_render_def)

lemma render_head:
  assumes "spaced lay" and "lay \<noteq> []" and "list_all lexeme_ok (map snd lay)" and "\<not> bare (fst (hd (map snd lay)))"
  obtains d r where "json_render lay @ post = d # r" "ends_int d" "\<not> is_alpha d"
proof -
  obtain ws l lay' where lay: "lay = (ws, l) # lay'" using assms(2) by (cases lay) auto
  obtain d r where d: "json_lexeme_text l = d # r" "ends_int d" "\<not> is_alpha d" using lexeme_text_head [of l] assms(3,4) lay by auto
  show ?thesis
  proof (cases ws)
    case Nil
    then show ?thesis using that d lay by (simp add: render_Cons)
  next
    case (Cons c cs)
    then show ?thesis using that space_ends_int [of c] space_not_alpha [of c] assms(1) lay by (simp add: render_Cons spaced_def)
  qed
qed

lemma spelled_json_render:
  assumes "content = pre @ json_render lay @ post" and "spaced lay" and "list_all lexeme_ok (map snd lay)"
    and "successively not_both_bare (map snd lay)" and "lay = [] \<or> \<not> bare (fst (last (map snd lay)))" and "jp_offset pos = length pre"
  shows "\<exists>pos'. spelled content pos (map snd lay) pos' \<and> jp_offset pos' = length pre + length (json_render lay)"
  using assms
proof (induction lay arbitrary: pre pos)
  case (Cons wl lay)
  obtain ws tk t where wl: "wl = (ws, tk, t)" by (cases wl)
  have ws: "list_all JSON_IS_SPACE ws" using Cons.prems(2) wl by (simp add: spaced_def)
  have content: "content = pre @ ws @ json_lexeme_text (tk, t) @ json_render lay @ post" using Cons.prems(1) wl by (simp add: render_Cons)
  have "\<exists>pos1. json_next_token content pos = Inr (tk, pos1, t) \<and> jp_offset pos1 = length pre + length ws + length (json_lexeme_text (tk, t))"
  proof (cases "tk = JSON_TOKEN_INT")
    case True
    then obtain i where i: "t = show_int i" using Cons.prems(3) wl by (auto simp: lexeme_ok_def)
    have ne: "lay \<noteq> []" using Cons.prems(5) True wl by auto
    then have "\<not> bare (fst (hd (map snd lay)))" using Cons.prems(4) True wl by (cases lay) (auto simp: not_both_bare_def)
    then obtain d r where d: "json_render lay @ post = d # r" "ends_int d" "\<not> is_alpha d"
      using render_head [of lay post] ne Cons.prems(2,3) wl by (auto simp: spaced_def)
    then have "content = pre @ ws @ show_int i @ d # r" using content True i by simp
    from next_int_token [OF this ws d(2) Cons.prems(6)] show ?thesis using True i by auto
  next
    case False
    show ?thesis
    proof (cases "bare tk")
      case True
      then have w: "(t, tk) = (''true'', JSON_TOKEN_TRUE) \<or> (t, tk) = (''false'', JSON_TOKEN_FALSE)"
        using Cons.prems(3) wl False by (auto simp: lexeme_ok_def)
      have ne: "lay \<noteq> []" using Cons.prems(5) True wl by auto
      then have "\<not> bare (fst (hd (map snd lay)))" using Cons.prems(4) True wl by (cases lay) (auto simp: not_both_bare_def)
      then obtain d r where d: "json_render lay @ post = d # r" "ends_int d" "\<not> is_alpha d"
        using render_head [of lay post] ne Cons.prems(2,3) wl by (auto simp: spaced_def)
      then have "content = pre @ ws @ t @ d # r" using content w by auto
      from next_word_token [OF this ws d(3) Cons.prems(6) w] show ?thesis using w by auto
    next
      case bare: False
      show ?thesis
      proof (cases "tk = JSON_TOKEN_STRING")
      case True
      then have "content = pre @ ws @ CHR 0x22 # json_escape t @ CHR 0x22 # (json_render lay @ post)" using content by simp
      from next_string_token [OF this ws Cons.prems(6)] show ?thesis using True by auto
    next
      case s: False
      then obtain c where c: "json_lexeme_text (tk, t) = [c]" "punctuation c = Some tk" "t = []"
        using Cons.prems(3) wl bare by (auto simp: lexeme_ok_def punctuation_def)
      then have "content = pre @ ws @ c # (json_render lay @ post)" using content by simp
      from next_punct_token [OF this ws c(2) Cons.prems(6)] show ?thesis using c by auto
      qed
    qed
  qed
  then obtain pos1 where 1: "json_next_token content pos = Inr (tk, pos1, t)"
      "jp_offset pos1 = length (pre @ ws @ json_lexeme_text (tk, t))" by auto
  have "content = (pre @ ws @ json_lexeme_text (tk, t)) @ json_render lay @ post" using content by simp
  moreover have "spaced lay" "list_all lexeme_ok (map snd lay)" "successively not_both_bare (map snd lay)"
      "lay = [] \<or> \<not> bare (fst (last (map snd lay)))"
    using Cons.prems(2-5) by (auto simp: spaced_def successively_Cons)
  ultimately obtain pos' where "spelled content pos1 (map snd lay) pos'"
      "jp_offset pos' = length (pre @ ws @ json_lexeme_text (tk, t)) + length (json_render lay)"
    using Cons.IH [OF _ _ _ _ _ 1(2)] by blast
  then show ?case using 1(1) wl by (intro exI [of _ pos']) (simp add: render_Cons)
qed (simp add: json_render_def)

end
