(* ===== verification/JsonFrame.thy ===== *)
theory JsonFrame
  imports JsonStruct
begin

text \<open>
  What the struct reader can touch: for every text, every table and every mask, a run that returns has only
  changed the blocks it was given, those their pointers reach and new ones. Each reader and each clearing function
  keeps the invariant \<open>tidy\<close>; the rules \<open>keep\<close> are one step of such a proof each.
\<close>


section \<open>Results of runs\<close>

text \<open>A run that returns yields a result with \<open>P\<close>.\<close>

definition yields :: "('a \<Rightarrow> bool) \<Rightarrow> 'a run \<Rightarrow> bool" where
  "yields P x \<longleftrightarrow> (case x of Some (Inr y) \<Rightarrow> P y | _ \<Rightarrow> True)"

lemma yields_simps [simp]: "yields P None" "yields P (Some (Inl e))" "yields P (Some (Inr y)) \<longleftrightarrow> P y"
  by (simp_all add: yields_def)

lemma yields_bindD [simp]: "yields P (bindD x f) \<longleftrightarrow> yields (\<lambda>y. yields P (f y)) x"
  by (auto simp: yields_def split: option.splits sum.splits)

lemma yields_bindE [simp]: "yields P (Some (bindE x f)) \<longleftrightarrow> yields (\<lambda>y. yields P (Some (f y))) (Some x)"
  by (cases x) (simp_all add: yields_def)

lemma yields_mem_run [simp]: "yields P (mem_run x f) \<longleftrightarrow> yields (\<lambda>y. yields P (f y)) (Some x)"
  by (simp add: mem_run_def)

lemma yields_if [simp]: "yields P (if c then x else y) \<longleftrightarrow> (c \<longrightarrow> yields P x) \<and> (\<not> c \<longrightarrow> yields P y)"
  "yields P (Some (if c then u else v)) \<longleftrightarrow> (c \<longrightarrow> yields P (Some u)) \<and> (\<not> c \<longrightarrow> yields P (Some v))"
  by simp_all

lemma yieldsI: "(\<And>y. P y) \<Longrightarrow> yields P x"
  by (auto simp: yields_def split: option.splits sum.splits)

lemma yields_mono: "yields P x \<Longrightarrow> (\<And>y. P y \<Longrightarrow> Q y) \<Longrightarrow> yields Q x"
  by (auto simp: yields_def split: option.splits sum.splits)

section \<open>Ownership\<close>

text \<open>
  \<open>W\<close> are the blocks of the structs that are being read and every block from \<open>N\<close> on. In them only addresses of
  such blocks are stored, and all other blocks are as in \<open>m0\<close>.
\<close>

definition owned :: "nat set \<Rightarrow> nat \<Rightarrow> nat \<Rightarrow> bool" where
  "owned S N c \<longleftrightarrow> c \<in> S \<or> N \<le> c"

definition tidy :: "nat set \<Rightarrow> nat \<Rightarrow> 'd store \<Rightarrow> 'd store \<Rightarrow> bool" where
  "tidy S N m0 m \<longleftrightarrow> N \<le> st_next m
     \<and> (\<forall>c. \<not> owned S N c \<longrightarrow> st_room m c = st_room m0 c \<and> st_bytes m c = st_bytes m0 c)
     \<and> (\<forall>c i a n k. owned S N c \<longrightarrow> st_bytes m c i = Frag (Address (Some a)) n k \<longrightarrow> owned S N a)"

definition own_addr :: "nat set \<Rightarrow> nat \<Rightarrow> nat option \<Rightarrow> bool" where
  "own_addr S N a \<longleftrightarrow> (case a of None \<Rightarrow> True | Some c \<Rightarrow> owned S N c)"

lemma own_addr_simps [simp]: "own_addr S N None" "own_addr S N (Some c) \<longleftrightarrow> owned S N c"
  by (simp_all add: own_addr_def)

lemma tidy_address: "tidy S N m0 m \<Longrightarrow> owned S N c \<Longrightarrow> st_bytes m c i = Frag (Address (Some a)) n k \<Longrightarrow> owned S N a"
  unfolding tidy_def by blast

named_theorems keep

lemma keep_store [keep]:
  assumes "tidy S N m0 m" and "owned S N (fst p)" and "\<And>a. v = Address (Some a) \<Longrightarrow> owned S N a"
    and "\<And>m'. tidy S N m0 m' \<Longrightarrow> P m'"
  shows "yields P (Some (store_value p n v m))"
proof -
  have "tidy S N m0 (set_bytes p n (Frag v n) m)" using assms(1-3) by (auto simp: tidy_def set_bytes_def)
  then show ?thesis using assms(4) by (simp add: store_value_def)
qed

lemma keep_store_int [keep]:
  "tidy S N m0 m \<Longrightarrow> owned S N (fst p) \<Longrightarrow> (\<And>m'. tidy S N m0 m' \<Longrightarrow> P m') \<Longrightarrow> yields P (Some (store_int p i m))"
  unfolding store_int_def by (rule keep_store) simp_all

lemma keep_store_bool [keep]:
  "tidy S N m0 m \<Longrightarrow> owned S N (fst p) \<Longrightarrow> (\<And>m'. tidy S N m0 m' \<Longrightarrow> P m') \<Longrightarrow> yields P (Some (store_bool p b m))"
  unfolding store_bool_def by (rule keep_store) simp_all

lemma keep_store_addr [keep]:
  "tidy S N m0 m \<Longrightarrow> owned S N (fst p) \<Longrightarrow> own_addr S N a \<Longrightarrow> (\<And>m'. tidy S N m0 m' \<Longrightarrow> P m') \<Longrightarrow> yields P (Some (store_addr p a m))"
  unfolding store_addr_def by (rule keep_store) simp_all

lemma keep_zero [keep]:
  assumes "tidy S N m0 m" and "owned S N (fst p)" and "\<And>m'. tidy S N m0 m' \<Longrightarrow> P m'"
  shows "yields P (Some (zero_bytes p n m))"
proof -
  have "tidy S N m0 (set_bytes p n (\<lambda>i. Zero) m)" using assms(1,2) by (auto simp: tidy_def set_bytes_def)
  then show ?thesis using assms(3) by (simp add: zero_bytes_def)
qed

lemma keep_copy [keep]:
  assumes "tidy S N m0 m" and "owned S N (fst dst)" and "owned S N (fst src)" and "\<And>m'. tidy S N m0 m' \<Longrightarrow> P m'"
  shows "yields P (Some (mem_copy dst src n m))"
proof -
  have "tidy S N m0 (set_bytes dst n (\<lambda>i. st_bytes m (fst src) (snd src + i)) m)"
    using assms(1-3) by (auto simp: tidy_def set_bytes_def)
  then show ?thesis using assms(4) by (simp add: mem_copy_def)
qed

lemma keep_malloc:
  assumes "tidy S N m0 m" and "mem_malloc n m = (b, m')"
  shows "tidy S N m0 m'" and "owned S N b"
proof -
  have "owned S N (st_next m)" "N \<le> st_next m" using assms(1) by (auto simp: tidy_def owned_def)
  moreover have m': "b = st_next m" "m' = m\<lparr>st_bytes := (st_bytes m)(st_next m := (\<lambda>_. Undef)),
     st_room := (st_room m)(st_next m \<mapsto> n), st_next := Suc (st_next m)\<rparr>"
    using assms(2) by (auto simp: mem_malloc_def)
  moreover have "owned S N a" if "owned S N c" "st_bytes m' c i = Frag (Address (Some a)) j k" for c i a j k
    using that tidy_address [OF assms(1), of c i a j k] m'(2) by (simp split: if_splits)
  moreover have "st_room m' c = st_room m0 c \<and> st_bytes m' c = st_bytes m0 c" if "\<not> owned S N c" for c
    using that assms(1) \<open>owned S N (st_next m)\<close> m'(2) by (auto simp: tidy_def)
  ultimately show "tidy S N m0 m'" "owned S N b" unfolding tidy_def by auto
qed

lemma keep_realloc [keep]:
  assumes "tidy S N m0 m" and "own_addr S N a" and "\<And>b m'. tidy S N m0 m' \<Longrightarrow> owned S N b \<Longrightarrow> P (b, m')"
  shows "yields P (Some (mem_realloc a n m))"
proof (cases a)
  case None
  then show ?thesis using keep_malloc [OF assms(1) surjective_pairing] assms(3) by (simp add: mem_realloc_def) (metis prod.collapse)
next
  case (Some b)
  then have "owned S N b" using assms(2) by simp
  then show ?thesis using assms(1) Some
    by (auto simp: mem_realloc_def tidy_def split: option.splits if_splits intro!: assms(3))
qed

lemma keep_free [keep]:
  "tidy S N m0 m \<Longrightarrow> own_addr S N a \<Longrightarrow> (\<And>m'. tidy S N m0 m' \<Longrightarrow> P m') \<Longrightarrow> yields P (Some (mem_free a m))"
  by (auto simp: mem_free_def tidy_def split: option.splits)

lemma keep_load [keep]:
  assumes "tidy S N m0 m" and "owned S N (fst p)" and "\<And>a. own_addr S N a \<Longrightarrow> P a"
  shows "yields P (Some (load_addr p m))"
proof -
  have hd: "hd (bytes_at m p 8) = st_bytes m (fst p) (snd p)" by (simp add: bytes_at_def upt_rec [of 0])
  have "own_addr S N a" if "decode (Address None) (bytes_at m p 8) = Some (Address a)" for a
    using that tidy_address [OF assms(1,2)] unfolding decode_def hd by (cases a) (auto split: if_splits mbyte.splits)
  then have "P a" if "load_value p 8 (Address None) m = Inr (Address a)" for a
    using that assms(3) by (auto simp: load_value_def split: if_splits option.splits)
  then show ?thesis by (cases "load_value p 8 (Address None) m") (auto simp: load_addr_def split: cval.splits)
qed


lemma keep_grow [keep]:
  "tidy S N m0 m \<Longrightarrow> own_addr S N a \<Longrightarrow> (\<And>c a' m'. tidy S N m0 m' \<Longrightarrow> own_addr S N a' \<Longrightarrow> P (c, a', m')) \<Longrightarrow>
   yields P (Some (grow_array len cap sz a m))"
  by (auto simp: grow_array_def Let_def simp del: yields_bindE intro!: keep_realloc simp: yields_bindE)

lemma keep_shrink [keep]:
  "tidy S N m0 m \<Longrightarrow> own_addr S N a \<Longrightarrow> (\<And>a' m'. tidy S N m0 m' \<Longrightarrow> own_addr S N a' \<Longrightarrow> P (a', m')) \<Longrightarrow>
   yields P (Some (shrink_array len cap sz a m))"
  by (auto simp: shrink_array_def intro!: keep_realloc)

lemma keep_block [keep]:
  "own_addr S N a \<Longrightarrow> (\<And>p. owned S N (fst p) \<Longrightarrow> P p) \<Longrightarrow> yields P (Some (block_of a))"
  by (cases a) (auto simp: block_of_def)

text \<open>What only reads the text or the memory.\<close>

lemmas keep_read [keep] =
  yieldsI [where x = "next_tok content pos" for content pos]
  yieldsI [where x = "Some (load_int p m)" for p m]
  yieldsI [where x = "Some (load_str p m)" for p m]
  yieldsI [where x = "Some (PERROR pos msg as)" for pos msg as]
  yieldsI [where x = "json_unmarshal_ignore_value n content pos" for n content pos]
  yieldsI [where x = "json_scan_tag_value n content pos f t" for n content pos f t]
  yieldsI [where x = "json_unmarshal_array_internal_enum n es content pos" for n es content pos]
  yieldsI [where x = "Some (json_unmarshal_element E content pos)" for E content pos]
  yieldsI [where x = "Some (json_unmarshal_scalar_enum es content pos v)" for es content pos v]
  yieldsI [where x = "Some (json_unmarshal_array_internal E content pos b)" for E content pos b]

lemma keep_fail [keep]: "tidy S N m0 m \<Longrightarrow> (\<And>r pos m t. tidy S N m0 m \<Longrightarrow> P (r, pos, m, t)) \<Longrightarrow> yields P (json_fail code pos m t msg as)"
  by (auto simp: json_fail_def intro!: keep_read)

lemma keep_scalar [keep]:
  "tidy S N m0 m \<Longrightarrow> owned S N (fst p) \<Longrightarrow> (\<And>r pos m t. tidy S N m0 m \<Longrightarrow> P (r, pos, m, t)) \<Longrightarrow> yields P (read_scalar E content pos p m)"
  by (auto simp: read_scalar_def intro!: keep)

lemma keep_enum [keep]:
  "tidy S N m0 m \<Longrightarrow> owned S N (fst p) \<Longrightarrow> (\<And>r pos m t. tidy S N m0 m \<Longrightarrow> P (r, pos, m, t)) \<Longrightarrow> yields P (read_enum es content pos p m)"
  by (auto simp: read_enum_def intro!: keep)

text \<open>A reader of structs that keeps to the owned blocks.\<close>

definition keeping :: "nat set \<Rightarrow> nat \<Rightarrow> 'd store \<Rightarrow> 'd json_reader \<Rightarrow> bool" where
  "keeping S N m0 rd \<longleftrightarrow> (\<forall>pos param m t. tidy S N m0 m \<longrightarrow> owned S N (fst (pp_instance param)) \<longrightarrow>
     yields (\<lambda>(r, pos, m, t). tidy S N m0 m) (rd pos param m t))"

lemma keep_rd:
  "keeping S N m0 rd \<Longrightarrow> tidy S N m0 m \<Longrightarrow> owned S N (fst (pp_instance param)) \<Longrightarrow>
   (\<And>r pos m t. tidy S N m0 m \<Longrightarrow> P (r, pos, m, t)) \<Longrightarrow> yields P (rd pos param m t)"
  unfolding keeping_def by (erule allE, erule allE, erule allE, erule allE, erule (1) impE) (auto elim: yields_mono)

lemma sub_param_instance [simp]: "pp_instance (sub_param p a d s f) = p"
  by (simp add: sub_param_def)

lemma keep_oneof [keep]:
  assumes rd: "keeping S N m0 rd"
  shows "tidy S N m0 m \<Longrightarrow> owned S N (fst p) \<Longrightarrow> (\<And>r pos m t. tidy S N m0 m \<Longrightarrow> P (r, pos, m, t)) \<Longrightarrow>
   yields P (json_unmarshal_oneof_internal n env rd content pos p fi depth m t)"
  by (auto simp: json_unmarshal_oneof_internal_def split: option.splits intro!: keep keep_rd [OF rd])


section \<open>Arrays and maps\<close>

lemma keep_oneofs_end [keep]:
  "tidy S N m0 m \<Longrightarrow> owned S N (fst p) \<Longrightarrow> own_addr S N a \<Longrightarrow> (\<And>r pos m len t. tidy S N m0 m \<Longrightarrow> P (r, pos, m, len, t)) \<Longrightarrow>
   yields P (oneofs_end sz p pos m a len cap t)"
  by (auto simp: oneofs_end_def intro!: keep)

lemma keep_oneofs_fail [keep]:
  "tidy S N m0 m \<Longrightarrow> owned S N (fst p) \<Longrightarrow> own_addr S N a \<Longrightarrow> (\<And>r pos m len t. tidy S N m0 m \<Longrightarrow> P (r, pos, m, len, t)) \<Longrightarrow>
   yields P (oneofs_fail p pos m a t)"
  by (auto simp: oneofs_fail_def intro!: keep)

lemma keep_oneof_loop:
  assumes rd: "keeping S N m0 rd" and p: "owned S N (fst arr_pp)" and P: "\<And>r pos m len t. tidy S N m0 m \<Longrightarrow> P (r, pos, m, len, t)"
  shows "tidy S N m0 m \<Longrightarrow> own_addr S N arr \<Longrightarrow> yields P (oneof_array_loop n env rd content arr_pp fi depth pos m arr len cap t)"
proof (induction n arbitrary: pos m arr len cap t)
  case (Suc n)
  show ?case using Suc.prems p by (auto simp: Let_def intro!: keep keep_oneof [OF rd] Suc.IH P)
qed simp

lemma keep_oneof_array:
  assumes rd: "keeping S N m0 rd"
  shows "tidy S N m0 m \<Longrightarrow> owned S N (fst arr_pp) \<Longrightarrow> (\<And>r pos m len t. tidy S N m0 m \<Longrightarrow> P (r, pos, m, len, t)) \<Longrightarrow>
    yields P (json_unmarshal_array_internal_oneof n env rd content pos arr_pp fi depth m)"
  by (auto simp: json_unmarshal_array_internal_oneof_def intro!: keep keep_oneof_loop [OF rd])

lemma keep_struct_loop:
  assumes rd: "keeping S N m0 rd" and p: "owned S N (fst (pp_instance param))" and P: "\<And>r pos m len t. tidy S N m0 m \<Longrightarrow> P (r, pos, m, len, t)"
  shows "tidy S N m0 m \<Longrightarrow> yields P (struct_array_loop n rd content sz param pos m len cap t)"
proof (induction n arbitrary: pos m len cap t)
  case (Suc n)
  obtain b m1 where b: "mem_malloc sz m = (b, m1)" by fastforce
  note b' = keep_malloc [OF Suc.prems b]
  show ?case using b' p by (auto simp: Let_def b intro!: keep keep_rd [OF rd] Suc.IH P)
qed simp

lemma keep_struct_array:
  assumes rd: "keeping S N m0 rd"
  shows "tidy S N m0 m \<Longrightarrow> owned S N (fst (pp_instance param)) \<Longrightarrow> (\<And>r pos m len t. tidy S N m0 m \<Longrightarrow> P (r, pos, m, len, t)) \<Longrightarrow>
    yields P (json_unmarshal_array_internal_struct n env rd content pos param m t)"
  by (auto simp: json_unmarshal_array_internal_struct_def split: option.splits intro!: keep keep_struct_loop [OF rd])

lemma keep_map_value:
  assumes rd: "keeping S N m0 rd"
  shows "tidy S N m0 m \<Longrightarrow> owned S N (fst p) \<Longrightarrow> (\<And>r pos m t. tidy S N m0 m \<Longrightarrow> P (r, pos, m, t)) \<Longrightarrow>
    yields P (read_map_value env rd content pos p fi depth m t)"
  by (auto simp: read_map_value_def split: option.splits intro!: keep keep_rd [OF rd])

lemma keep_map_loop:
  assumes rd: "keeping S N m0 rd" and p: "owned S N (fst map_ptr)" and P: "\<And>r pos m t. tidy S N m0 m \<Longrightarrow> P (r, pos, m, t)"
  shows "tidy S N m0 m \<Longrightarrow> own_addr S N entries \<Longrightarrow> yields P (map_loop n env rd content map_ptr fi depth pos m entries cap)"
proof (induction n arbitrary: pos m entries cap)
  case (Suc n)
  show ?case using Suc.prems p by (auto simp: Let_def intro!: keep keep_map_value [OF rd] Suc.IH P)
qed simp

lemma keep_map:
  assumes rd: "keeping S N m0 rd"
  shows "tidy S N m0 m \<Longrightarrow> owned S N (fst p) \<Longrightarrow> (\<And>r pos m t. tidy S N m0 m \<Longrightarrow> P (r, pos, m, t)) \<Longrightarrow>
    yields P (json_unmarshal_map_object n env rd content pos p fi depth m)"
  by (auto simp: json_unmarshal_map_object_def intro!: keep keep_map_loop [OF rd])

lemma keep_map_array_loop:
  assumes rd: "keeping S N m0 rd" and p: "owned S N (fst arr_pp)" and P: "\<And>r pos m len t. tidy S N m0 m \<Longrightarrow> P (r, pos, m, len, t)"
  shows "tidy S N m0 m \<Longrightarrow> own_addr S N arr \<Longrightarrow> yields P (map_array_loop n env rd content arr_pp fi depth pos m arr len cap t)"
proof (induction n arbitrary: pos m arr len cap t)
  case (Suc n)
  show ?case using Suc.prems p by (auto simp: Let_def intro!: keep keep_map [OF rd] Suc.IH P)
qed simp


section \<open>Fields\<close>

lemma keep_field_fail [keep]:
  "tidy S N m0 m \<Longrightarrow> (\<And>e pos m t. tidy S N m0 m \<Longrightarrow> P (e, pos, m, t)) \<Longrightarrow> yields P (field_fail code pos m t msg as)"
  by (auto simp: field_fail_def intro!: keep)

lemma keep_map_field:
  assumes rd: "keeping S N m0 rd"
  shows "tidy S N m0 m \<Longrightarrow> owned S N (fst (pp_instance param)) \<Longrightarrow> (\<And>e pos m t. tidy S N m0 m \<Longrightarrow> P (e, pos, m, t)) \<Longrightarrow>
    yields P (read_map_field n env rd content pos param fi m t)"
  by (auto simp: read_map_field_def Let_def negative_returns_def split: option.splits
      intro!: keep keep_map_array_loop [OF rd] keep_map [OF rd])

lemma keep_fixed_element:
  assumes rd: "keeping S N m0 rd"
  shows "tidy S N m0 m \<Longrightarrow> owned S N (fst base) \<Longrightarrow> (\<And>r pos m t. tidy S N m0 m \<Longrightarrow> P (r, pos, m, t)) \<Longrightarrow>
    yields P (read_fixed_element n env rd content pos base i param fi m t)"
  by (auto simp: read_fixed_element_def split: option.splits field_type.splits intro!: keep keep_rd [OF rd] keep_oneof [OF rd])

lemma keep_fixed_loop:
  assumes rd: "keeping S N m0 rd" and p: "owned S N (fst base)" and P: "\<And>e pos m t. tidy S N m0 m \<Longrightarrow> P (e, pos, m, t)"
  shows "tidy S N m0 m \<Longrightarrow> yields P (fixed_array_loop n env rd content base param fi pos m i t)"
proof (induction n arbitrary: pos m i t)
  case (Suc n)
  show ?case using Suc.prems p by (auto intro!: keep keep_fixed_element [OF rd] Suc.IH P)
qed simp

lemma keep_fixed_array:
  assumes rd: "keeping S N m0 rd"
  shows "tidy S N m0 m \<Longrightarrow> owned S N (fst (pp_instance param)) \<Longrightarrow> (\<And>e pos m t. tidy S N m0 m \<Longrightarrow> P (e, pos, m, t)) \<Longrightarrow>
    yields P (read_fixed_array n env rd content pos param fi m)"
  by (auto simp: read_fixed_array_def intro!: keep keep_fixed_loop [OF rd])

lemma keep_items [keep]:
  "tidy S N m0 m \<Longrightarrow> owned S N b \<Longrightarrow> (\<And>m. tidy S N m0 m \<Longrightarrow> P m) \<Longrightarrow> yields P (Some (store_items b sz i vs m))"
  by (induction vs arbitrary: i m) (auto intro!: keep_store)

lemma keep_fill [keep]:
  "tidy S N m0 m \<Longrightarrow> owned S N (fst p) \<Longrightarrow> own_addr S N a \<Longrightarrow> (\<And>m. tidy S N m0 m \<Longrightarrow> P m) \<Longrightarrow>
   yields P (Some (fill_array p sz room vs a m))"
  by (auto simp: fill_array_def intro!: keep)

lemma keep_scalars [keep]:
  "tidy S N m0 m \<Longrightarrow> owned S N (fst p) \<Longrightarrow> (\<And>r pos m len t. tidy S N m0 m \<Longrightarrow> P (r, pos, m, len, t)) \<Longrightarrow>
   yields P (read_scalar_array E content pos p m)"
  by (auto simp: read_scalar_array_def intro!: keep)

lemma keep_enums [keep]:
  "tidy S N m0 m \<Longrightarrow> owned S N (fst p) \<Longrightarrow> (\<And>r pos m len t. tidy S N m0 m \<Longrightarrow> P (r, pos, m, len, t)) \<Longrightarrow>
   yields P (read_enum_array n es content pos p m)"
  by (auto simp: read_enum_array_def intro!: keep)

lemma keep_dynamic_array:
  assumes rd: "keeping S N m0 rd"
  shows "tidy S N m0 m \<Longrightarrow> owned S N (fst (pp_instance param)) \<Longrightarrow> (\<And>e pos m t. tidy S N m0 m \<Longrightarrow> P (e, pos, m, t)) \<Longrightarrow>
    yields P (read_dynamic_array n env rd content pos param fi m t)"
  by (auto simp: read_dynamic_array_def Let_def split: option.splits field_type.splits
      intro!: keep keep_struct_array [OF rd] keep_oneof_array [OF rd])

lemma keep_single:
  assumes rd: "keeping S N m0 rd"
  shows "tidy S N m0 m \<Longrightarrow> owned S N (fst (pp_instance param)) \<Longrightarrow> (\<And>e pos m t. tidy S N m0 m \<Longrightarrow> P (e, pos, m, t)) \<Longrightarrow>
    yields P (read_single n env rd content pos param fi m t)"
  by (auto simp: read_single_def Let_def nonzero_returns_def split: option.splits field_type.splits
      intro!: keep keep_rd [OF rd] keep_oneof [OF rd])

lemma keep_field:
  assumes rd: "keeping S N m0 rd"
  shows "tidy S N m0 m \<Longrightarrow> owned S N (fst (pp_instance param)) \<Longrightarrow> (\<And>e pos m t. tidy S N m0 m \<Longrightarrow> P (e, pos, m, t)) \<Longrightarrow>
    yields P (read_field n env rd content pos param fi m t)"
  by (auto simp: read_field_def
      intro!: keep_map_field [OF rd] keep_fixed_array [OF rd] keep_dynamic_array [OF rd] keep_single [OF rd])

section \<open>Clearing\<close>

lemma keep_for_range:
  "(\<And>i m Q. tidy S N m0 m \<Longrightarrow> (\<And>m. tidy S N m0 m \<Longrightarrow> Q m) \<Longrightarrow> yields Q (f i m)) \<Longrightarrow> tidy S N m0 m \<Longrightarrow>
   (\<And>m. tidy S N m0 m \<Longrightarrow> P m) \<Longrightarrow> yields P (for_range f is m)"
  by (induction "is" arbitrary: m) auto

definition clearing :: "nat set \<Rightarrow> nat \<Rightarrow> 'd store \<Rightarrow> 'd clearer \<Rightarrow> bool" where
  "clearing S N m0 clr \<longleftrightarrow> (\<forall>p st m. tidy S N m0 m \<longrightarrow> owned S N (fst p) \<longrightarrow> yields (tidy S N m0) (clr p st m))"

lemma keep_clr:
  "clearing S N m0 clr \<Longrightarrow> tidy S N m0 m \<Longrightarrow> owned S N (fst p) \<Longrightarrow> (\<And>m. tidy S N m0 m \<Longrightarrow> P m) \<Longrightarrow> yields P (clr p st m)"
  unfolding clearing_def by (blast intro: yields_mono)

lemma keep_clear_str [keep]:
  "tidy S N m0 m \<Longrightarrow> owned S N (fst p) \<Longrightarrow> (\<And>m. tidy S N m0 m \<Longrightarrow> P m) \<Longrightarrow> yields P (Some (clear_str p m))"
  by (auto simp: clear_str_def intro!: keep)

lemma keep_map_clear:
  assumes clr: "clearing S N m0 clr"
  shows "tidy S N m0 m \<Longrightarrow> owned S N (fst p) \<Longrightarrow> (\<And>m. tidy S N m0 m \<Longrightarrow> P m) \<Longrightarrow> yields P (json_clear_map_container env clr p fi m)"
  by (auto simp: json_clear_map_container_def json_clear_map_value_def Let_def intro!: keep keep_for_range keep_clr [OF clr])

lemma keep_oneof_clear:
  assumes clr: "clearing S N m0 clr"
  shows "tidy S N m0 m \<Longrightarrow> owned S N (fst p) \<Longrightarrow> (\<And>m. tidy S N m0 m \<Longrightarrow> P m) \<Longrightarrow> yields P (json_clear_oneof_value env clr p fi m)"
  by (auto simp: json_clear_oneof_value_def intro!: keep keep_clr [OF clr])


lemma keep_array_len [keep]: "(\<And>i. P i) \<Longrightarrow> yields P (Some (array_len env inst l m))"
  by (rule yieldsI)

lemma keep_reset_len [keep]:
  "tidy S N m0 m \<Longrightarrow> owned S N (fst inst) \<Longrightarrow> (\<And>m. tidy S N m0 m \<Longrightarrow> P m) \<Longrightarrow> yields P (Some (reset_len env inst l m))"
  by (auto simp: reset_len_def split: option.splits intro!: keep)

lemma keep_set_has [keep]:
  "tidy S N m0 m \<Longrightarrow> owned S N (fst inst) \<Longrightarrow> (\<And>m. tidy S N m0 m \<Longrightarrow> P m) \<Longrightarrow> yields P (Some (set_has env fi inst b m))"
  by (auto simp: set_has_def Let_def intro!: keep)

lemma keep_clear_dynamic:
  assumes f: "\<And>g p m Q. clear = Some g \<Longrightarrow> tidy S N m0 m \<Longrightarrow> owned S N (fst p) \<Longrightarrow> (\<And>m. tidy S N m0 m \<Longrightarrow> Q m) \<Longrightarrow> yields Q (g p m)"
    and "tidy S N m0 m" and "owned S N (fst inst)" and P: "\<And>m. tidy S N m0 m \<Longrightarrow> P m"
  shows "yields P (clear_dynamic env clear sz inst fi m)"
proof (cases clear)
  case None
  then show ?thesis using assms(2,3) by (auto simp: clear_dynamic_def Let_def split: option.splits intro!: keep P)
next
  case (Some g)
  show ?thesis using assms(2,3) Some
    by (auto simp: clear_dynamic_def Let_def split: option.splits intro!: keep keep_for_range f [OF Some] P)
qed

lemma keep_clear_fixed:
  assumes clr: "clearing S N m0 clr"
  shows "tidy S N m0 m \<Longrightarrow> owned S N (fst p) \<Longrightarrow> (\<And>m. tidy S N m0 m \<Longrightarrow> P m) \<Longrightarrow> yields P (clear_fixed env clr p fi m)"
  by (auto simp: clear_fixed_def Let_def split: field_type.splits intro!: keep keep_for_range keep_clr [OF clr] keep_oneof_clear [OF clr])

lemma keep_clear_single:
  assumes clr: "clearing S N m0 clr"
  shows "tidy S N m0 m \<Longrightarrow> owned S N (fst p) \<Longrightarrow> (\<And>m. tidy S N m0 m \<Longrightarrow> P m) \<Longrightarrow> yields P (clear_single env clr p fi m)"
  by (auto simp: clear_single_def split: field_type.splits intro!: keep keep_clr [OF clr] keep_oneof_clear [OF clr])

lemma keep_clear_field:
  assumes clr: "clearing S N m0 clr"
  shows "tidy S N m0 m \<Longrightarrow> owned S N (fst inst) \<Longrightarrow> (\<And>m. tidy S N m0 m \<Longrightarrow> P m) \<Longrightarrow> yields P (json_clear_field_value env clr inst fi m)"
  by (auto simp: json_clear_field_value_def Let_def split: field_type.splits
      intro!: keep keep_clear_dynamic keep_map_clear [OF clr] keep_clear_fixed [OF clr] keep_clear_single [OF clr] keep_clr [OF clr] keep_oneof_clear [OF clr])

lemma clearing_struct: "clearing S N m0 (json_clear_struct_value n env)"
proof (induction n)
  case (Suc n)
  show ?case by (auto simp: clearing_def Let_def intro!: keep_for_range keep_clear_field [OF Suc])
qed (simp add: clearing_def)

section \<open>Structs\<close>

lemma keep_selected:
  assumes rd: "keeping S N m0 rd"
  shows "tidy S N m0 m \<Longrightarrow> owned S N (fst (pp_instance param)) \<Longrightarrow> (\<And>e pos m t. tidy S N m0 m \<Longrightarrow> P (e, pos, m, t)) \<Longrightarrow>
    yields P (read_selected n env rd content pos param fi m t)"
  by (auto simp: read_selected_def intro!: keep keep_clear_field [OF clearing_struct] keep_field [OF rd])

lemma keep_member:
  assumes rd: "keeping S N m0 rd"
  shows "tidy S N m0 m \<Longrightarrow> owned S N (fst (pp_instance param)) \<Longrightarrow> (\<And>e pos m t. tidy S N m0 m \<Longrightarrow> P (e, pos, m, t)) \<Longrightarrow>
    yields P (read_member n env rd content pos param key m)"
  by (auto simp: read_member_def skip_member_def split: option.splits intro!: keep keep_selected [OF rd])

lemma keep_members:
  assumes rd: "keeping S N m0 rd" and p: "owned S N (fst (pp_instance param))" and P: "\<And>r pos m t. tidy S N m0 m \<Longrightarrow> P (r, pos, m, t)"
  shows "tidy S N m0 m \<Longrightarrow> yields P (struct_loop n env rd content pos param m)"
proof (induction n arbitrary: pos m)
  case (Suc n)
  show ?case using Suc.prems p by (auto simp: Let_def split: field_end.splits intro!: keep keep_member [OF rd] Suc.IH P)
qed simp

lemma keeping_struct: "keeping S N m0 (json_unmarshal_struct_internal n env content)"
proof (induction n)
  case (Suc n)
  show ?case by (auto simp: keeping_def simp del: struct_loop.simps intro!: keep keep_members [OF Suc])
qed (simp add: keeping_def)

section \<open>Isolation\<close>

text \<open>The blocks of \<open>S\<close> point to each other only, and no block that is still to be allocated points anywhere else.\<close>

definition closed_blocks :: "nat set \<Rightarrow> 'd store \<Rightarrow> bool" where
  "closed_blocks S m \<longleftrightarrow> (\<forall>c i a k j. (c \<in> S \<or> st_next m \<le> c) \<longrightarrow> st_bytes m c i = Frag (Address (Some a)) k j \<longrightarrow> a \<in> S)"

lemma struct_isolated:
  assumes "closed_blocks S m" and "fst (pp_instance param) \<in> S"
    and "json_unmarshal_struct_internal n env content pos param m t = Some (Inr (r, pos', m', t'))"
    and "c < st_next m" and "c \<notin> S"
  shows "st_room m' c = st_room m c \<and> st_bytes m' c = st_bytes m c"
proof -
  have "tidy S (st_next m) m m" using assms(1) unfolding tidy_def owned_def closed_blocks_def by blast
  then have "yields (\<lambda>(r, pos, m', t). tidy S (st_next m) m m') (json_unmarshal_struct_internal n env content pos param m t)"
    using keeping_struct [of S "st_next m" m n env content] assms(2) unfolding keeping_def by (auto simp: owned_def simp del: json_unmarshal_struct_internal.simps)
  then have "tidy S (st_next m) m m'" using assms(3) by (simp del: json_unmarshal_struct_internal.simps)
  then show ?thesis using assms(4,5) by (auto simp: tidy_def owned_def)
qed

end
