(* ===== verification/JsonUnmarshal.thy ===== *)
theory JsonUnmarshal
  imports JsonText JsonFrame
begin

text \<open>
  The generated entry points \<open>json_unmarshal_T\<close> and their properties: an object that fits its struct is read
  into it, nothing but the struct and new memory is written, and what goes wrong for other texts.
\<close>

section \<open>The generated entry points\<close>

text \<open>\<open>json_unmarshal_T(in, obj)\<close>, which the generator emits for every struct \<open>T\<close>.\<close>

definition json_unmarshal :: "nat \<Rightarrow> 'd json_env \<Rightarrow> string \<Rightarrow> string \<Rightarrow> ptr \<Rightarrow> 'd store \<Rightarrow> (int \<times> 'd store) run" where
  "json_unmarshal n env st content obj m =
     bindD (json_unmarshal_struct_internal n env content pos_start (sub_param obj False 0 st []) m [])
       (\<lambda>(r, _, m', _). Some (Inr (r, m')))"

lemma object_read:
  assumes "map snd lay = jval_lexemes (JObject ms)" and "spaced lay" and "members_fit env st sz ms"
    and "int (nest (JObject ms)) \<le> JSON_MAX_DEPTH + 1" and "accessible m obj sz" and "zeroed m obj sz" and "fst obj < st_next m"
    and "length lay \<le> n"
  shows "\<exists>m'. json_unmarshal n env st (json_render lay @ post) obj m = Some (Inr (0, m')) \<and> members_held env m' obj st ms
    \<and> changed m m' (fst obj) (bytes_of (snd obj) (member_ranges env st ms))"
proof -
  have "\<not> bare (fst (last (jval_lexemes (JObject ms))))" by (simp add: object_lexemes del: jval_lexemes.simps)
  then obtain pos' where sp: "spelled (json_render lay @ post) pos_start (jval_lexemes (JObject ms)) pos'"
    using spelled_json_render [of "json_render lay @ post" "[]" lay post pos_start] assms(1,2) jval_lexemes_ok [of "JObject ms"]
      jval_lexemes_apart [of "JObject ms"] by (auto simp: pos_start_def)
  have "length (jval_lexemes (JObject ms)) \<le> n" using assms(1,8) by (metis length_map)
  then have "\<exists>m' t'. json_unmarshal_struct_internal n env (json_render lay @ post) pos_start (sub_param obj False 0 st []) m [] = Some (Inr (0, pos', m', t'))
      \<and> members_held env m' obj st ms \<and> changed m m' (fst obj) (bytes_of (snd obj) (member_ranges env st ms))"
    using struct_internal_reads [of env "json_render lay @ post" n, unfolded reads_objects_def, rule_format, where param = "sub_param obj False 0 st []" and sz = sz and ms = ms]
      sp assms(3-7) by (simp add: sub_param_def whole_def)
  then show ?thesis by (auto simp: json_unmarshal_def)
qed

section \<open>A small schema\<close>

text \<open>
  The environment a schema gives: the table the generator fills, and the values the compiler gives the
  constant expressions of its rows.
\<close>

definition env_of :: "struct_container list \<Rightarrow> (string \<times> int) list \<Rightarrow> unit json_env" where
  "env_of ss layout =
     (let p = the (gen_code_offset_map (demo_map ss) (sstr_map_new 1))
      in \<lparr>je_items = gp_rows p, je_hash = gp_hash_arr p,
          je_const = (\<lambda>e. case map_of layout e of Some v \<Rightarrow> v | None \<Rightarrow> 0), je_strings = (\<lambda>_. []),
          je_strtof = (\<lambda>s. ((), [])), je_strtod = (\<lambda>s. ((), [])), je_zero = ()\<rparr>)"

lemma env_of_rows:
  assumes "length (concat (buckets (demo_map ss))) \<le> total_fields (demo_map ss)"
    and "list_all row_named (table_rows (demo_map ss) (sstr_map_new 1))"
  shows "no_nul k \<Longrightarrow> key_row (env_of ss layout) st k = Some (List.find (item_matches st k) (table_rows (demo_map ss) (sstr_map_new 1)))"
    and "find_item (env_of ss layout) st k = Some (List.find (item_matches st k) (table_rows (demo_map ss) (sstr_map_new 1)))"
proof -
  obtain p where p: "gen_code_offset_map (demo_map ss) (sstr_map_new 1) = Some p"
    "gp_rows p = table_rows (demo_map ss) (sstr_map_new 1)"
    "\<And>st key. json_field_offset_item_find (gp_rows p) (gp_hash_arr p) st key
           = Some (List.find (item_matches st key) (table_rows (demo_map ss) (sstr_map_new 1)))"
    "\<And>st key. no_nul key \<Longrightarrow> json_field_offset_item_find_ph (gp_rows p) (gp_hash_arr p) (hash_s (cstr st) 0xbc9f1d34) st key
           = Some (List.find (item_matches st key) (table_rows (demo_map ss) (sstr_map_new 1)))"
    using table_finds [OF assms] by metis
  show "no_nul k \<Longrightarrow> key_row (env_of ss layout) st k = Some (List.find (item_matches st k) (table_rows (demo_map ss) (sstr_map_new 1)))"
    using p(1,4) by (simp add: key_row_def env_of_def)
  show "find_item (env_of ss layout) st k = Some (List.find (item_matches st k) (table_rows (demo_map ss) (sstr_map_new 1)))"
    using p(1,3) by (simp add: find_item_def env_of_def)
qed

definition ref_field :: "string \<Rightarrow> string \<Rightarrow> struct_field" where
  "ref_field n t = (demo_field n)\<lparr>fd_type := FIELD_TYPE_STRUCT, fd_type_name := t\<rparr>"

definition shop :: "struct_container list" where
  "shop = [demo_struct ''P'' [demo_field ''id'', (demo_field ''xs'')\<lparr>fd_is_array := True\<rparr>,
      (demo_field ''nm'')\<lparr>fd_type := FIELD_TYPE_SSTR, fd_type_name := ''sstr_t''\<rparr>, ref_field ''q'' ''Q''],
    demo_struct ''Q'' [demo_field ''a'', demo_field ''b'']]"

definition shop_layout :: "(string \<times> int) list" where
  "shop_layout = [(offsetof ''P'' ''id'', 0), (offsetof ''P'' ''xs'', 8), (offsetof ''P'' ''xs_len'', 16),
     (offsetof ''P'' ''nm'', 24), (offsetof ''P'' ''q'', 32), (offsetof ''Q'' ''a'', 0), (offsetof ''Q'' ''b'', 4),
     (''sizeof(struct Q)'', 8), (''sizeof(struct P)'', 40), (''-1'', -1)]"

definition shop_env :: "unit json_env" where
  "shop_env = env_of shop shop_layout"

text \<open>One zeroed block of the given size.\<close>

definition one_block :: "nat \<Rightarrow> unit store" where
  "one_block n = \<lparr>st_bytes = (\<lambda>b i. Zero), st_room = (\<lambda>b. if b = 0 then Some n else None), st_next = 1\<rparr>"

lemmas shop_defs = demo_defs shop_def ref_field_def

definition shop_row :: "string \<Rightarrow> string \<Rightarrow> offset_item option" where
  "shop_row st k = List.find (item_matches st k) (table_rows (demo_map shop) (sstr_map_new 1))"

lemma shop_rows:
  "no_nul k \<Longrightarrow> key_row shop_env st k = Some (shop_row st k)"
  "find_item shop_env st k = Some (shop_row st k)"
proof -
  have 1: "length (concat (buckets (demo_map shop))) \<le> total_fields (demo_map shop)" by (simp add: shop_defs)
  have 2: "list_all row_named (table_rows (demo_map shop) (sstr_map_new 1))"
    by (simp add: shop_defs struct_field_row_def len_row_def)
  show "no_nul k \<Longrightarrow> key_row shop_env st k = Some (shop_row st k)" and "find_item shop_env st k = Some (shop_row st k)"
    unfolding shop_env_def shop_row_def by (rule env_of_rows [OF 1 2], assumption) (rule env_of_rows [OF 1 2])
qed

lemma shop_table:
  "shop_row ''P'' ''id'' = Some (plain_row ''P'' (demo_field ''id'') 0)"
  "shop_row ''P'' ''xs'' = Some (plain_row ''P'' ((demo_field ''xs'')\<lparr>fd_is_array := True\<rparr>) 1)"
  "shop_row ''P'' ''xs_len'' = Some (len_row ''P'' ((demo_field ''xs'')\<lparr>fd_is_array := True\<rparr>))"
  "shop_row ''P'' ''nm'' = Some (plain_row ''P'' ((demo_field ''nm'')\<lparr>fd_type := FIELD_TYPE_SSTR, fd_type_name := ''sstr_t''\<rparr>) 2)"
  "shop_row ''P'' ''q'' = Some (struct_field_row ''P'' (ref_field ''q'' ''Q'') 3)"
  "shop_row ''P'' ''zz'' = None"
  "shop_row ''Q'' ''a'' = Some (plain_row ''Q'' (demo_field ''a'') 0)"
  "shop_row ''Q'' ''b'' = Some (plain_row ''Q'' (demo_field ''b'') 1)"
  by (simp_all add: shop_row_def shop_defs struct_field_row_def len_row_def)

section \<open>Steps on a text of tokens\<close>

text \<open>A key without a nullable field behind it, which is read as it stands.\<close>

lemma read_member_row:
  assumes "json_next_token content pos = Inr (JSON_TOKEN_COLON, pos1, [])" and "whole param"
    and "key_row env (pp_struct_name param) key = Some (Some fi)" and "\<not> it_is_nullable fi"
    and "read_field n env rd content pos1 param fi m [] = Some (Inr (e, pos2, m1, t1))"
    and "e = Present \<Longrightarrow> je_const env (it_has_field_offset fi) < 0"
  shows "read_member n env rd content pos param key m = Some (Inr (e, pos2, m1, t1))"
proof -
  have "set_has env fi (pp_instance param) True m1 = Inr m1" if "e = Present" using assms(6) [OF that] by (simp add: set_has_def)
  then show ?thesis
    using assms(1-5) by (simp add: read_member_def key_row_def [symmetric] next_tok_def json_field_is_selected_def whole_def
      read_selected_def mem_run_def)
qed

lemma read_struct_field:
  assumes "plain_field fi" and "it_field_type fi = FIELD_TYPE_STRUCT" and "pp_nested param = []"
    and "rd pos (sub_param (shift (pp_instance param) (fi_offset env fi)) False (pp_depth param + 1) (it_field_type_name fi) (it_field_name fi)) m t
      = Some (Inr (r, pos1, m1, t1))"
  shows "read_field n env rd content pos param fi m t = Some (Inr (if r = -1 then Return (-1) else Present, pos1, m1, t1))"
  using assms by (simp add: read_field_def read_single_def plain_field_def elem_of_def json_find_nested_mask_def)

lemma read_int_string:
  assumes "json_next_token content pos = Inr (JSON_TOKEN_STRING, pos1, s)" and "plain_field fi" and "it_field_type fi = FIELD_TYPE_INT"
  shows "\<exists>t1. read_field n env rd content pos param fi m t = Some (Inr (Return 1, pos1, m, t1))"
proof -
  obtain e where "scalar_error pos1 0 s (''expected integer but got '' @ quoted_s) (ptoken JSON_TOKEN_STRING s) 1 = Inr (1, pos1, 0 :: int, e)"
    using scalar_error_total [of "''expected integer but got ''" pos1 0 s "ptoken JSON_TOKEN_STRING s" 1] by auto
  then have "json_unmarshal_scalar_int C_int content pos 0 = Inr (1, pos1, 0, e)"
    using assms(1) by (simp add: json_unmarshal_scalar_int_def json_unmarshal_scalar_signed_def)
  then show ?thesis using assms(2,3)
    by (simp add: read_field_def read_single_def plain_field_def elem_of_def read_scalar_def scanned_map_def nonzero_returns_def)
qed

lemma struct_starts:
  assumes "json_next_token content pos = Inr (JSON_TOKEN_LEFT_BRACE, pos1, [])" and "pp_depth param \<le> JSON_MAX_DEPTH"
  shows "json_unmarshal_struct_internal (Suc n) env content pos param m t
       = struct_loop n env (json_unmarshal_struct_internal n env content) content pos1 param m"
  using assms by (simp add: next_tok_def)

lemma struct_ends:
  "json_next_token content pos = Inr (JSON_TOKEN_RIGHT_BRACE, pos1, []) \<Longrightarrow>
   struct_loop (Suc n) env rd content pos param m = ret 0 pos1 m []"
  by (simp add: next_tok_def)

lemma struct_returns:
  "json_next_token content pos = Inr (JSON_TOKEN_STRING, pos1, key) \<Longrightarrow>
   read_member n env rd content pos1 param key m = Some (Inr (Return r, pos2, m1, t1)) \<Longrightarrow>
   struct_loop (Suc n) env rd content pos param m = ret r pos2 m1 t1"
  by (simp add: next_tok_def)

definition tight :: "json_lexeme list \<Rightarrow> string" where
  "tight ls = concat (map json_lexeme_text ls)"

lemma tight_spelled:
  assumes "list_all lexeme_ok ls" and "successively not_both_bare ls" and "ls = [] \<or> \<not> bare (fst (last ls))"
  shows "\<exists>pos'. spelled (tight ls @ post) pos_start ls pos' \<and> jp_offset pos' = length (tight ls)"
proof -
  have "tight ls = json_render (map (Pair []) ls)" by (simp add: tight_def json_render_def comp_def)
  moreover have "map snd (map (Pair []) ls) = ls" for ls :: "json_lexeme list" by (simp add: comp_def)
  moreover have "spaced (map (Pair []) ls)" by (simp add: spaced_def list_all_iff)
  ultimately show ?thesis
    using spelled_json_render [of "tight ls @ post" "[]" "map (Pair []) ls" post pos_start] assms
    by (simp add: pos_start_def comp_def)
qed


section \<open>Properties\<close>

text \<open>
  C3. The text of an object whose members fit the struct, with any white space between its tokens and any text behind it,
  is read into a struct whose memory is zero: the entry point returns 0 within as many rounds as there are tokens, every member is in the memory as its
  row says (integers, booleans, strings, enums, arrays with their lengths, structs inside to the depth the reader allows, the marks
  of optional fields), members without a row are skipped, and no other byte of the memory there was has changed.
\<close>
theorem json_object_reads:
  assumes "map snd lay = jval_lexemes (JObject ms)" and "spaced lay" and "members_fit env st sz ms"
    and "int (nest (JObject ms)) \<le> JSON_MAX_DEPTH + 1" and "accessible m obj sz" and "zeroed m obj sz" and "fst obj < st_next m"
    and "length lay \<le> n"
  shows "\<exists>m'. json_unmarshal n env st (json_render lay @ post) obj m = Some (Inr (0, m')) \<and> members_held env m' obj st ms
    \<and> changed m m' (fst obj) (bytes_of (snd obj) (member_ranges env st ms))"
  using object_read [OF assms] .

text \<open>A text for the schema above, with a key it does not have.\<close>

definition shop_members :: "(string \<times> jval) list" where
  "shop_members = [(''id'', JInt 5), (''xs'', JArray [JInt 1, JInt 2]), (''zz'', JArray []), (''nm'', JString ''hi''),
     (''q'', JObject [(''b'', JInt (-8))])]"

definition shop_text :: string where
  "shop_text = json_render (map (Pair '' '') (jval_lexemes (JObject shop_members)))"

lemma shop_const: "je_const shop_env e = (case map_of shop_layout e of Some v \<Rightarrow> v | None \<Rightarrow> 0)"
  by (simp add: shop_env_def env_of_def Let_def)

lemma shop_columns:
  "plain_field (plain_row st (demo_field f) i)" "it_field_type (plain_row st (demo_field f) i) = FIELD_TYPE_INT"
  "\<not> it_is_nullable (plain_row st (demo_field f) i)" "it_has_field_offset (plain_row st (demo_field f) i) = ''-1''"
  "it_offset (plain_row st (demo_field f) i) = offsetof st f" "\<not> it_is_array (plain_row st (demo_field f) i)"
  "plain_field (struct_field_row st (ref_field f t) i)" "it_field_type (struct_field_row st (ref_field f t) i) = FIELD_TYPE_STRUCT"
  "\<not> it_is_nullable (struct_field_row st (ref_field f t) i)" "it_has_field_offset (struct_field_row st (ref_field f t) i) = ''-1''"
  "it_field_type_name (struct_field_row st (ref_field f t) i) = t" "it_offset (struct_field_row st (ref_field f t) i) = offsetof st f"
  "it_type_size (struct_field_row st (ref_field f t) i) = ''sizeof(struct '' @ t @ '')''" "\<not> it_is_array (struct_field_row st (ref_field f t) i)"
  by (simp_all add: plain_field_def plain_row_def struct_field_row_def demo_field_def ref_field_def nullable_col_def has_offset_def)

abbreviation xs_field :: struct_field where
  "xs_field \<equiv> (demo_field ''xs'')\<lparr>fd_is_array := True\<rparr>"

abbreviation nm_row :: offset_item where
  "nm_row \<equiv> plain_row ''P'' ((demo_field ''nm'')\<lparr>fd_type := FIELD_TYPE_SSTR, fd_type_name := ''sstr_t''\<rparr>) 2"

definition xs_row :: offset_item where
  "xs_row = plain_row ''P'' xs_field 1"

lemma shop_keys:
  "key_row shop_env ''P'' ''id'' = Some (Some (plain_row ''P'' (demo_field ''id'') 0))"
  "key_row shop_env ''P'' ''xs'' = Some (Some xs_row)"
  "key_row shop_env ''P'' ''xs_len'' = Some (Some (len_row ''P'' xs_field))"
  "key_row shop_env ''P'' ''nm'' = Some (Some nm_row)"
  "key_row shop_env ''P'' ''q'' = Some (Some (struct_field_row ''P'' (ref_field ''q'' ''Q'') 3))"
  "key_row shop_env ''P'' ''zz'' = Some None"
  "key_row shop_env ''Q'' ''a'' = Some (Some (plain_row ''Q'' (demo_field ''a'') 0))"
  "key_row shop_env ''Q'' ''b'' = Some (Some (plain_row ''Q'' (demo_field ''b'') 1))"
  by (simp_all add: shop_rows(1) no_nul_def shop_table xs_row_def)

lemma shop_array_columns:
  "it_is_array xs_row" "it_array_size xs_row = 0"
  "it_field_type xs_row = FIELD_TYPE_INT" "it_field_name xs_row = ''xs''"
  "it_offset xs_row = offsetof ''P'' ''xs''" "it_has_field_offset xs_row = ''-1''"
  "it_offset (len_row ''P'' xs_field) = offsetof ''P'' ''xs_len''"
  "len_item shop_env ''P'' xs_row = Some (len_row ''P'' xs_field)"
  "plain_field nm_row" "it_field_type nm_row = FIELD_TYPE_SSTR" "it_offset nm_row = offsetof ''P'' ''nm''"
  "it_has_field_offset nm_row = ''-1''" "\<not> it_is_array nm_row"
  by (simp_all add: xs_row_def plain_field_def plain_row_def demo_field_def has_offset_def len_row_def JSON_KEY_def len_item_def cstr_def
      shop_rows(2) shop_table)

lemma shop_offsets:
  "je_const shop_env (offsetof ''P'' ''id'') = 0" "je_const shop_env (offsetof ''P'' ''xs'') = 8"
  "je_const shop_env (offsetof ''P'' ''xs_len'') = 16" "je_const shop_env (offsetof ''P'' ''nm'') = 24"
  "je_const shop_env (offsetof ''P'' ''q'') = 32" "je_const shop_env (offsetof ''Q'' ''a'') = 0"
  "je_const shop_env (offsetof ''Q'' ''b'') = 4" "je_const shop_env ''-1'' = -1"
  "je_const shop_env ''sizeof(struct Q)'' = 8"
  by (simp_all add: shop_const shop_layout_def offsetof_def)

lemma json_object_reads_witness:
  "\<exists>m'. json_unmarshal 40 shop_env ''P'' shop_text (0, 0) (one_block 40) = Some (Inr (0, m'))
     \<and> object_at m' (0, 0) 4 (Value (J_int 5)) \<and> object_at m' (0, 16) 4 (Value (J_int 2))
     \<and> object_at m' (0, 24) 8 (Value (J_str (Some ''hi''))) \<and> object_at m' (0, 36) 4 (Value (J_int (-8)))"
proof -
  let ?lay = "map (Pair '' '') (jval_lexemes (JObject shop_members))"
  have space: "JSON_IS_SPACE (CHR '' '')" by code_simp
  have ranges: "member_ranges shop_env ''P'' shop_members = [(0, 4), (8, 8), (16, 4), (24, 8), (32, 8)]"
    by (simp add: member_ranges_def shop_members_def shop_keys field_range_def value_range_def has_range_def fi_offset_def fi_size_def
        col_def shop_offsets shop_columns shop_array_columns scalar_size_def elem_of_def)
  have inner: "member_ranges shop_env ''Q'' [(''b'', JInt (- 8))] = [(4, 4)]"
    by (simp add: member_ranges_def shop_keys field_range_def value_range_def has_range_def fi_offset_def
        col_def shop_offsets shop_columns scalar_size_def elem_of_def)
  have fit: "members_fit shop_env ''P'' 40 shop_members"
    unfolding members_fit_def ranges
    by (simp add: shop_members_def shop_keys fits.simps inner shop_columns shop_array_columns shop_offsets apart_def fi_size_def col_def
        scalar_array_def scalar_image_def elem_of_def c_int_bounds)
  have "map snd ?lay = jval_lexemes (JObject shop_members)" by (simp add: comp_def)
  moreover have "spaced ?lay" using space by (simp add: spaced_def list_all_iff)
  moreover have "int (nest (JObject shop_members)) \<le> JSON_MAX_DEPTH + 1" by (simp add: shop_members_def JSON_MAX_DEPTH_def)
  moreover have "accessible (one_block 40) (0, 0) 40" "zeroed (one_block 40) (0, 0) 40" "fst (0, 0) < st_next (one_block 40)"
    by (simp_all add: one_block_def accessible_def zeroed_def)
  moreover have "length ?lay \<le> 40" by (simp add: shop_members_def member_lexemes_def)
  ultimately obtain m' where "json_unmarshal 40 shop_env ''P'' (json_render ?lay @ []) (0, 0) (one_block 40) = Some (Inr (0, m'))"
      "members_held shop_env m' (0, 0) ''P'' shop_members"
      "changed (one_block 40) m' 0 (bytes_of 0 (member_ranges shop_env ''P'' shop_members))"
    using json_object_reads [OF _ _ fit] by (metis fst_conv snd_conv)
  note m' = this
  have "object_at m' (0, 0) 4 (Value (J_int 5)) \<and> object_at m' (0, 16) 4 (Value (J_int 2))
     \<and> object_at m' (0, 24) 8 (Value (J_str (Some ''hi''))) \<and> object_at m' (0, 36) 4 (Value (J_int (-8)))"
    using m'(2) by (simp add: members_held_def shop_members_def shop_keys holds.simps fi_offset_def col_def shop_columns
        shop_array_columns shop_offsets scalar_size_def scalar_image_def elem_of_def c_int_bounds shift_def)
  then show ?thesis using m'(1) by (auto simp: shop_text_def)
qed

text \<open>
  C32. The row of the length of an array can be reached by a key of the object: a text with that key alone sets the length
  to any number, while the pointer of the array stays null.
\<close>
theorem json_array_length_forged:
  assumes "key_row env st k = Some (Some (len_row st f))" and "je_const env ''-1'' < 0"
    and "fi_offset env (len_row st f) + 4 \<le> sz" and "c_int_min C_int \<le> i" and "i \<le> c_int_max C_int"
    and "accessible m obj sz" and "zeroed m obj sz" and "fst obj < st_next m" and "5 \<le> n"
  shows "\<exists>m'. json_unmarshal n env st (tight (jval_lexemes (JObject [(k, JInt i)])) @ post) obj m = Some (Inr (0, m'))
    \<and> object_at m' (shift obj (fi_offset env (len_row st f))) 4 (Value (J_int i))
    \<and> (\<forall>j. j < sz \<and> (j < fi_offset env (len_row st f) \<or> fi_offset env (len_row st f) + 4 \<le> j) \<longrightarrow> zeroed m' (shift obj j) 1)"
proof -
  let ?ms = "[(k, JInt i)]" and ?fi = "len_row st f" and ?ls = "jval_lexemes (JObject [(k, JInt i)])"
  let ?lay = "map (Pair []) ?ls"
  have fi: "fits env st ?fi (JInt i)" "field_range env st ?fi = [(fi_offset env ?fi, 4)]" "scalar_size env ?fi = 4"
      "the (scalar_image env ?fi (JInt i)) = J_int i"
    using assms(2,4,5)
    by (simp_all add: plain_field_def len_row_def scalar_image_def elem_of_def field_range_def value_range_def scalar_size_def has_range_def)
  then have r: "member_ranges env st ?ms = [(fi_offset env ?fi, 4)]" and "members_fit env st sz ?ms"
    using assms(1,3) by (simp_all add: member_ranges_def members_fit_def)
  moreover have "map snd ?lay = ?ls" "spaced ?lay" "length ?lay \<le> n" "json_render ?lay = tight ?ls"
    using assms(9) by (simp_all add: comp_def spaced_def list_all_iff member_lexemes_def tight_def json_render_def)
  ultimately obtain m' where m': "json_unmarshal n env st (tight ?ls @ post) obj m = Some (Inr (0, m'))"
      "members_held env m' obj st ?ms" "changed m m' (fst obj) (bytes_of (snd obj) [(fi_offset env ?fi, 4)])"
    using object_read [of ?lay ?ms env st sz m obj n post] assms(6-8) by (auto simp: JSON_MAX_DEPTH_def)
  have "object_at m' (shift obj (fi_offset env ?fi)) 4 (Value (J_int i))"
    using m'(2) assms(1) fi by (simp add: members_held_def holds.simps)
  moreover have "zeroed m' (shift obj j) 1" if "j < sz" "j < fi_offset env ?fi \<or> fi_offset env ?fi + 4 \<le> j" for j
    using zeroed_changed [OF zeroed_part [OF assms(7), of j 1] m'(3)] that assms(8) by (auto simp: bytes_of_def)
  ultimately show ?thesis using m'(1) by blast
qed

text \<open>
  C31. A string where a struct inside the object wants a number makes its reader return the code 1, which the reader of the
  outer struct takes for success: it goes on behind the string, so the brace of the inner object ends the outer one and
  the entry point returns 0. Nothing is stored, and whatever text follows is not read, however wrong it is.
\<close>
theorem json_nested_error_swallowed:
  assumes "key_row env st k = Some (Some fi)" and "plain_field fi" and "it_field_type fi = FIELD_TYPE_STRUCT"
    and "\<not> it_is_nullable fi" and "je_const env (it_has_field_offset fi) < 0"
    and "key_row env (it_field_type_name fi) k' = Some (Some fj)" and "plain_field fj" and "it_field_type fj = FIELD_TYPE_INT"
    and "\<not> it_is_nullable fj" and "3 \<le> n"
  shows "json_unmarshal n env st (tight [(JSON_TOKEN_LEFT_BRACE, []), (JSON_TOKEN_STRING, k), (JSON_TOKEN_COLON, []),
      (JSON_TOKEN_LEFT_BRACE, []), (JSON_TOKEN_STRING, k'), (JSON_TOKEN_COLON, []), (JSON_TOKEN_STRING, s),
      (JSON_TOKEN_RIGHT_BRACE, [])] @ rest) obj m = Some (Inr (0, m))"
proof -
  let ?ls = "[(JSON_TOKEN_LEFT_BRACE, []), (JSON_TOKEN_STRING, k), (JSON_TOKEN_COLON, []),
      (JSON_TOKEN_LEFT_BRACE, []), (JSON_TOKEN_STRING, k'), (JSON_TOKEN_COLON, []), (JSON_TOKEN_STRING, s), (JSON_TOKEN_RIGHT_BRACE, [])]"
  let ?c = "tight ?ls @ rest"
  obtain p1 p2 p3 p4 p5 p6 p7 p8 where sp:
      "json_next_token ?c pos_start = Inr (JSON_TOKEN_LEFT_BRACE, p1, [])" "json_next_token ?c p1 = Inr (JSON_TOKEN_STRING, p2, k)"
      "json_next_token ?c p2 = Inr (JSON_TOKEN_COLON, p3, [])" "json_next_token ?c p3 = Inr (JSON_TOKEN_LEFT_BRACE, p4, [])"
      "json_next_token ?c p4 = Inr (JSON_TOKEN_STRING, p5, k')" "json_next_token ?c p5 = Inr (JSON_TOKEN_COLON, p6, [])"
      "json_next_token ?c p6 = Inr (JSON_TOKEN_STRING, p7, s)" "json_next_token ?c p7 = Inr (JSON_TOKEN_RIGHT_BRACE, p8, [])"
    using tight_spelled [of ?ls rest] by (auto simp: lexeme_ok_simps not_both_bare_def)
  obtain c where n: "n = Suc (Suc (Suc c))" using assms(10) by (cases n; cases "n - 1"; cases "n - 2") auto
  let ?param = "sub_param obj False 0 st []" and ?rd = "\<lambda>n. json_unmarshal_struct_internal n env ?c"
  let ?sub = "sub_param (shift obj (fi_offset env fi)) False 1 (it_field_type_name fi) (it_field_name fi)"
  have w: "whole ?param" "whole ?sub" by (simp_all add: whole_def sub_param_def)
  have d: "pp_depth ?param \<le> JSON_MAX_DEPTH" "pp_depth ?sub \<le> JSON_MAX_DEPTH" by (simp_all add: sub_param_def JSON_MAX_DEPTH_def)
  obtain t1 where "read_field c env (?rd (Suc c)) ?c p6 ?sub fj m [] = Some (Inr (Return 1, p7, m, t1))"
    using read_int_string [OF sp(7) assms(7,8)] by blast
  then have "read_member c env (?rd (Suc c)) ?c p5 ?sub k' m = Some (Inr (Return 1, p7, m, t1))"
    using read_member_row [OF sp(6) w(2), of env k' fj c "?rd (Suc c)" m "Return 1"] assms(6,9) by (simp add: sub_param_def)
  then have "struct_loop (Suc c) env (?rd (Suc c)) ?c p4 ?sub m = ret 1 p7 m t1" by (rule struct_returns [OF sp(5)])
  then have "?rd (Suc (Suc c)) p3 ?sub m [] = ret 1 p7 m t1"
    by (simp only: struct_starts [OF sp(4) d(2)])
  then have "read_field (Suc c) env (?rd (Suc (Suc c))) ?c p3 ?param fi m [] = Some (Inr (Present, p7, m, t1))"
    using read_struct_field [OF assms(2,3), of ?param "?rd (Suc (Suc c))" p3 env m "[]" 1]
    by (simp add: sub_param_def del: json_unmarshal_struct_internal.simps)
  then have "read_member (Suc c) env (?rd (Suc (Suc c))) ?c p2 ?param k m = Some (Inr (Present, p7, m, t1))"
    using read_member_row [OF sp(3) w(1)] assms(1,4,5) by (simp add: sub_param_def del: json_unmarshal_struct_internal.simps)
  then have "struct_loop (Suc (Suc c)) env (?rd (Suc (Suc c))) ?c p1 ?param m = ret 0 p8 m []"
    using struct_loop_member [OF sp(2)] struct_ends [OF sp(8)] by (metis field_end.distinct(1))
  then have "?rd n pos_start ?param m [] = ret 0 p8 m []"
    by (simp only: n struct_starts [OF sp(1) d(1)])
  then show ?thesis by (simp add: json_unmarshal_def)
qed

lemma json_nested_error_swallowed_witness:
  "json_unmarshal 10 shop_env ''P'' (tight [(JSON_TOKEN_LEFT_BRACE, []), (JSON_TOKEN_STRING, ''q''), (JSON_TOKEN_COLON, []),
      (JSON_TOKEN_LEFT_BRACE, []), (JSON_TOKEN_STRING, ''a''), (JSON_TOKEN_COLON, []), (JSON_TOKEN_STRING, ''z''),
      (JSON_TOKEN_RIGHT_BRACE, [])] @ '', no JSON'') (0, 0) (one_block 40) = Some (Inr (0, one_block 40))"
  by (rule json_nested_error_swallowed [where fi = "struct_field_row ''P'' (ref_field ''q'' ''Q'') 3" and fj = "plain_row ''Q'' (demo_field ''a'') 0"]) (simp_all add: shop_columns shop_offsets shop_keys)

lemma json_array_length_forged_witness:
  "\<exists>m'. json_unmarshal 10 shop_env ''P'' (tight (jval_lexemes (JObject [(''xs_len'', JInt 1000000)]))) (0, 0) (one_block 40) = Some (Inr (0, m'))
    \<and> object_at m' (0, 16) 4 (Value (J_int 1000000)) \<and> zeroed m' (0, 8) 1"
proof -
  have o: "fi_offset shop_env (len_row ''P'' xs_field) = 16" by (simp add: fi_offset_def col_def shop_array_columns shop_offsets)
  have "accessible (one_block 40) (0, 0) 40" "zeroed (one_block 40) (0, 0) 40" "fst (0, 0) < st_next (one_block 40)"
    by (simp_all add: one_block_def accessible_def zeroed_def)
  then obtain m' where "json_unmarshal 10 shop_env ''P'' (tight (jval_lexemes (JObject [(''xs_len'', JInt 1000000)])) @ []) (0, 0) (one_block 40) = Some (Inr (0, m'))"
      "object_at m' (shift (0, 0) 16) 4 (Value (J_int 1000000))" "\<forall>j. j < 40 \<and> (j < 16 \<or> 16 + 4 \<le> j) \<longrightarrow> zeroed m' (shift (0, 0) j) 1"
    using json_array_length_forged [OF shop_keys(3), of 40 1000000 "one_block 40" "(0, 0)" 10 "[]"] unfolding o
    by (auto simp: shop_offsets c_int_bounds)
  then show ?thesis by (auto simp: shift_def intro!: exI [of _ m'])
qed

end
