(* ===== verification/JsonMarshal.thy ===== *)
theory JsonMarshal
  imports JsonClear
begin

text \<open>
  The functions \<open>json_marshal_indent_T\<close> and \<open>json_marshal_array_indent_T\<close> that the generator emits for every
  struct and oneof (\<open>gen_code_struct_marshal_struct\<close>, \<open>gen_oneof_marshal\<close> and their helpers in
  \<open>src/gencode/gencode.c\<close>). A definition here is the emitted code with the declaration it is emitted for as
  an argument; it reads the struct from the memory of JsonStore and appends to the output. The statements of a
  block are a list of writers. \<open>obj->f\<close> is at the offset the compiler gives it, \<open>je_const\<close>. A key is emitted
  into a C literal; a key with characters that C would escape there is outside of the model.
\<close>

section \<open>Statements\<close>

type_synonym writer = "sstr \<Rightarrow> sstr run"

fun emit :: "writer list \<Rightarrow> writer" where
  "emit [] out = Some (Inr out)"
| "emit (w # ws) out = bindD (w out) (emit ws)"

definition put :: "string \<Rightarrow> writer" where
  "put t out = Some (sstr_append_of out t)"

definition quote :: writer where
  "quote = put [CHR 0x22]"

definition newline :: "nat \<Rightarrow> writer" where
  "newline indent out = Some (sstr_append_of_if out [CHR 0x0A] (indent \<noteq> 0))"

definition blanks :: "nat \<Rightarrow> writer" where
  "blanks cur out = Some (sstr_append_indent out cur)"

definition only_if :: "bool \<Rightarrow> writer list \<Rightarrow> writer" where
  "only_if c ws = (if c then emit ws else emit [])"

text \<open>A statement that needs a value from the memory first.\<close>

definition reading :: "(fault + 'v) \<Rightarrow> ('v \<Rightarrow> writer) \<Rightarrow> writer" where
  "reading x f out = bindD (Some x) (\<lambda>v. f v out)"

definition key_text :: "string \<Rightarrow> string" where
  "key_text k = CHR 0x22 # k @ [CHR 0x22, CHR '':'']"

section \<open>The program\<close>

text \<open>
  The environment of the parser, the fields of the structs and the oneofs by their names, which the linker
  resolves the calls with, and the printer of floating point numbers.
\<close>

record 'd program =
  pg_env :: "'d json_env"
  pg_struct :: "string \<Rightarrow> struct_field list option"
  pg_oneof :: "string \<Rightarrow> oneof_container option"
  pg_float :: "nat \<Rightarrow> 'd \<Rightarrow> string"

definition obj_at :: "'d program \<Rightarrow> ptr \<Rightarrow> string \<Rightarrow> string \<Rightarrow> ptr" where
  "obj_at pg p st f = shift p (col (pg_env pg) (offsetof st f))"

definition size_of :: "'d program \<Rightarrow> string \<Rightarrow> nat" where
  "size_of pg st = col (pg_env pg) (''sizeof(struct '' @ st @ '')'')"

section \<open>Reading the struct\<close>

definition load_int_of :: "c_int \<Rightarrow> ptr \<Rightarrow> 'd store \<Rightarrow> fault + int" where
  "load_int_of T p m = bindE (load_value p (c_int_bits T div 8) (Value (J_int 0)) m)
     (\<lambda>v. case v of Value (J_int i) \<Rightarrow> Inr i | _ \<Rightarrow> Inl Uninitialised)"

definition load_float :: "nat \<Rightarrow> 'd \<Rightarrow> ptr \<Rightarrow> 'd store \<Rightarrow> fault + 'd" where
  "load_float n z p m = bindE (load_value p n (Value (J_float z)) m)
     (\<lambda>v. case v of Value (J_float d) \<Rightarrow> Inr d | _ \<Rightarrow> Inl Uninitialised)"

definition load_bool :: "ptr \<Rightarrow> 'd store \<Rightarrow> fault + bool" where
  "load_bool p m = bindE (load_value p 1 (Value (J_int 0)) m)
     (\<lambda>v. case v of Value (J_int i) \<Rightarrow> Inr (i \<noteq> 0) | _ \<Rightarrow> Inl Uninitialised)"

text \<open>\<open>n\<close> objects of \<open>sz\<close> bytes one after another.\<close>

fun load_list :: "(ptr \<Rightarrow> fault + 'v) \<Rightarrow> ptr \<Rightarrow> nat \<Rightarrow> nat \<Rightarrow> fault + 'v list" where
  "load_list f p sz 0 = Inr []"
| "load_list f p sz (Suc n) = bindE (f p) (\<lambda>v. bindE (load_list f (shift p sz) sz n) (\<lambda>vs. Inr (v # vs)))"

text \<open>The first element of a dynamic array, which is not looked at if there is none.\<close>

definition array_base :: "nat option \<Rightarrow> nat \<Rightarrow> fault + ptr" where
  "array_base a n = (if n = 0 then Inr (0, 0) else block_of a)"

section \<open>Values\<close>

text \<open>\<open>marshal_numeric_table\<close>.\<close>

fun numeric_writer :: "field_type \<Rightarrow> (sstr \<Rightarrow> int \<Rightarrow> fault + sstr) option" where
  "numeric_writer FIELD_TYPE_LONG = Some (\<lambda>out v. sstr_append_long_str out (word_of_int v))"
| "numeric_writer FIELD_TYPE_INT64 = Some (\<lambda>out v. sstr_append_long_str out (word_of_int v))"
| "numeric_writer FIELD_TYPE_UINT32 = Some (\<lambda>out v. sstr_append_uint32_str out (word_of_int v))"
| "numeric_writer FIELD_TYPE_UINT64 = Some (\<lambda>out v. sstr_append_uint64_str out (word_of_int v))"
| "numeric_writer ft = (if c_int_of ft = None then None else Some (\<lambda>out v. sstr_append_int_str out (word_of_int v)))"

definition emit_numeric_marshal :: "'d program \<Rightarrow> field_type \<Rightarrow> ptr \<Rightarrow> 'd store \<Rightarrow> writer option" where
  "emit_numeric_marshal pg ft p m =
     (case elem_of (pg_env pg) ft of
        Some (E_int T) \<Rightarrow> map_option (\<lambda>w. reading (load_int_of T p m) (\<lambda>i out. Some (w out i))) (numeric_writer ft)
      | Some (E_float conv z) \<Rightarrow> Some (reading (load_float 4 z p m) (\<lambda>d out. Some (sstr_append_float_str (pg_float pg) out d)))
      | Some (E_double conv z) \<Rightarrow> Some (reading (load_float 8 z p m) (\<lambda>d out. Some (sstr_append_double_str (pg_float pg) out d)))
      | _ \<Rightarrow> None)"

definition marshal_string :: "ptr \<Rightarrow> 'd store \<Rightarrow> writer" where
  "marshal_string p m = emit [quote, reading (load_str p m) (\<lambda>s out. Some (sstr_json_escape_string_append out s)), quote]"

text \<open>An enum is written as its name, or as a number if it has none.\<close>

definition marshal_enum :: "'d program \<Rightarrow> string \<Rightarrow> ptr \<Rightarrow> 'd store \<Rightarrow> writer" where
  "marshal_enum pg tn p m = reading (load_int p m) (\<lambda>i.
     if 0 \<le> i \<and> i < je_const (pg_env pg) (tn @ ''_enum_count'')
     then emit [quote, put (cstr (je_strings (pg_env pg) (tn @ ''_enum_strings'') ! nat i)), quote]
     else (\<lambda>out. Some (sstr_append_int_str out (word_of_int i))))"

text \<open>The function of a struct or oneof for the object at an address, see \<open>json_marshal_indent\<close> below.\<close>

type_synonym marshaller = "string \<Rightarrow> ptr \<Rightarrow> nat \<Rightarrow> writer"

text \<open>The items of an array or map, each followed by a comma if it is not the last one.\<close>

fun items_loop :: "nat \<Rightarrow> (nat \<Rightarrow> writer) \<Rightarrow> nat list \<Rightarrow> writer" where
  "items_loop indent w [] = emit []"
| "items_loop indent w (i # is) = emit [w i, only_if (is \<noteq> []) [put '',''], newline indent, items_loop indent w is]"

definition bracketed :: "char \<Rightarrow> char \<Rightarrow> nat \<Rightarrow> nat \<Rightarrow> (nat \<Rightarrow> writer) \<Rightarrow> nat \<Rightarrow> writer" where
  "bracketed l r indent cur w n = emit [put [l], newline indent, items_loop indent w [0..<n], blanks cur, put [r]]"

definition gen_marshal_map_value :: "'d program \<Rightarrow> marshaller \<Rightarrow> struct_field \<Rightarrow> ptr \<Rightarrow> nat \<Rightarrow> 'd store \<Rightarrow> writer" where
  "gen_marshal_map_value pg rec f p cur m =
     (case emit_numeric_marshal pg (fd_map_value_type f) p m of
        Some w \<Rightarrow> w
      | None \<Rightarrow> (let tn = (case fd_map_value_type_name f of Some n \<Rightarrow> n | None \<Rightarrow> [])
                 in case fd_map_value_type f of
                      FIELD_TYPE_SSTR \<Rightarrow> marshal_string p m
                    | FIELD_TYPE_STRUCT \<Rightarrow> rec tn p cur
                    | FIELD_TYPE_ENUM \<Rightarrow> marshal_enum pg tn p m
                    | _ \<Rightarrow> emit []))"

text \<open>A map at \<open>p\<close>; \<open>cur\<close> is the indentation of its closing brace.\<close>

definition marshal_map :: "'d program \<Rightarrow> marshaller \<Rightarrow> struct_field \<Rightarrow> ptr \<Rightarrow> nat \<Rightarrow> nat \<Rightarrow> 'd store \<Rightarrow> writer" where
  "marshal_map pg rec f p indent cur m =
     (let env = pg_env pg; entry_type = ''struct json_map_entry_'' @ map_suffix f
      in reading (load_int (shift p 8) m) (\<lambda>len.
         reading (load_addr p m) (\<lambda>entries.
         reading (array_base entries (nat len)) (\<lambda>base.
           bracketed CHR ''{'' CHR ''}'' indent cur (\<lambda>k.
             let entry = shift base (k * col env (''sizeof('' @ entry_type @ '')''))
             in emit [blanks (cur + indent), quote,
                  reading (load_str entry m) (\<lambda>s out. Some (sstr_json_escape_string_append out s)),
                  put [CHR 0x22, CHR '':''],
                  gen_marshal_map_value pg rec f (shift entry (col env (''(int)offsetof('' @ entry_type @ '', value)''))) (cur + indent) m])
             (nat len)))))"

text \<open>\<open>json_marshal_array_indent_T\<close> for a struct or oneof \<open>T\<close>: every element indents itself.\<close>

definition json_marshal_array_indent_T :: "'d program \<Rightarrow> marshaller \<Rightarrow> string \<Rightarrow> ptr \<Rightarrow> nat \<Rightarrow> nat \<Rightarrow> nat \<Rightarrow> writer" where
  "json_marshal_array_indent_T pg rec tn base len indent cur =
     bracketed CHR ''['' CHR '']'' indent cur (\<lambda>i. rec tn (shift base (i * size_of pg tn)) (cur + indent)) len"

text \<open>\<open>json_marshal_array_indent_T\<close> for a scalar type \<open>T\<close>, see JsonArray.\<close>

definition marshal_scalars :: "'d program \<Rightarrow> 'd elem_type \<Rightarrow> ptr \<Rightarrow> nat \<Rightarrow> nat \<Rightarrow> nat \<Rightarrow> 'd store \<Rightarrow> writer" where
  "marshal_scalars pg E base len indent cur m = (case E of
     E_int T \<Rightarrow> reading (load_list (\<lambda>p. load_int_of T p m) base (elem_size E) len)
       (\<lambda>vs out. Some (json_marshal_array_indent_int T vs indent cur out))
   | E_float conv z \<Rightarrow> reading (load_list (\<lambda>p. load_float 4 z p m) base 4 len)
       (\<lambda>vs out. Some (json_marshal_array_indent_float (pg_float pg) vs indent cur out))
   | E_double conv z \<Rightarrow> reading (load_list (\<lambda>p. load_float 8 z p m) base 8 len)
       (\<lambda>vs out. Some (json_marshal_array_indent_double (pg_float pg) vs indent cur out))
   | E_sstr \<Rightarrow> reading (load_list (\<lambda>p. load_str p m) base 8 len)
       (\<lambda>vs out. Some (json_marshal_array_indent_sstr_t vs indent cur out)))"

definition marshal_array :: "'d program \<Rightarrow> marshaller \<Rightarrow> struct_field \<Rightarrow> ptr \<Rightarrow> nat \<Rightarrow> nat \<Rightarrow> nat \<Rightarrow> 'd store \<Rightarrow> writer" where
  "marshal_array pg rec f base len indent cur m =
     (if fd_type f = FIELD_TYPE_ENUM then
        bracketed CHR ''['' CHR '']'' indent cur
          (\<lambda>i. emit [blanks (cur + indent), marshal_enum pg (fd_type_name f) (shift base (i * 4)) m]) len
      else case elem_of (pg_env pg) (fd_type f) of
        Some E \<Rightarrow> marshal_scalars pg E base len indent cur m
      | None \<Rightarrow> json_marshal_array_indent_T pg rec (fd_type_name f) base len indent cur)"

text \<open>The value of a field of the struct \<open>st\<close> at \<open>p\<close>.\<close>

definition marshal_value :: "'d program \<Rightarrow> marshaller \<Rightarrow> string \<Rightarrow> struct_field \<Rightarrow> ptr \<Rightarrow> nat \<Rightarrow> nat \<Rightarrow> 'd store \<Rightarrow> writer" where
  "marshal_value pg rec st f p indent cur m =
     (let q = obj_at pg p st (fd_name f); len_p = obj_at pg p st (fd_name f @ ''_len'')
      in if fd_type f = FIELD_TYPE_MAP then
           (if fd_is_array f \<and> fd_array_size f = 0 then
              reading (load_int len_p m) (\<lambda>len.
              reading (load_addr q m) (\<lambda>a.
              reading (array_base a (nat len)) (\<lambda>base.
                bracketed CHR ''['' CHR '']'' indent cur (\<lambda>j.
                  emit [blanks (cur + indent),
                    marshal_map pg rec f (shift base (j * col (pg_env pg) (''sizeof(struct json_map_'' @ map_suffix f @ '')'')))
                      indent (cur + indent) m]) (nat len))))
            else marshal_map pg rec f q indent cur m)
         else if fd_is_array f then
           (if 0 < fd_array_size f then marshal_array pg rec f q (nat (fd_array_size f)) indent cur m
            else reading (load_int len_p m) (\<lambda>len.
                 reading (load_addr q m) (\<lambda>a.
                 reading (array_base a (nat len)) (\<lambda>base. marshal_array pg rec f base (nat len) indent cur m))))
         else if fd_type f = FIELD_TYPE_BOOL then
           reading (load_int q m) (\<lambda>i. if i \<noteq> 0 then put ''true'' else put ''false'')
         else case emit_numeric_marshal pg (fd_type f) q m of
           Some w \<Rightarrow> w
         | None \<Rightarrow> (case fd_type f of
             FIELD_TYPE_SSTR \<Rightarrow> marshal_string q m
           | FIELD_TYPE_STRUCT \<Rightarrow> rec (fd_type_name f) q cur
           | FIELD_TYPE_ONEOF \<Rightarrow> rec (fd_type_name f) q cur
           | FIELD_TYPE_ENUM \<Rightarrow> marshal_enum pg (fd_type_name f) q m
           | _ \<Rightarrow> emit []))"

section \<open>Structs\<close>

definition may_be_absent :: "struct_field \<Rightarrow> bool" where
  "may_be_absent f \<longleftrightarrow> fd_is_optional f \<or> fd_is_nullable f"

text \<open>
  The fields of a struct that has optional ones: the comma goes in front of a field unless it is the first one that
  is written. A nullable field that is not optional is written as \<open>null\<close> if it is absent.
\<close>

fun marshal_optional_fields ::
  "'d program \<Rightarrow> marshaller \<Rightarrow> string \<Rightarrow> ptr \<Rightarrow> nat \<Rightarrow> nat \<Rightarrow> 'd store \<Rightarrow> bool \<Rightarrow> struct_field list \<Rightarrow> writer" where
  "marshal_optional_fields pg rec st p indent cur m first [] = emit []"
| "marshal_optional_fields pg rec st p indent cur m first (f # fs) =
     (let has = load_bool (obj_at pg p st (''has_'' @ fd_name f)) m;
          value = marshal_value pg rec st f p indent cur m
      in reading (if fd_is_optional f then has else Inr True) (\<lambda>present.
           if present then
             emit [only_if (\<not> first) [put '',''], newline indent, blanks cur, put (key_text (JSON_KEY f)),
               (if fd_is_nullable f \<and> \<not> fd_is_optional f then reading has (\<lambda>h. if h then value else put ''null'') else value),
               marshal_optional_fields pg rec st p indent cur m False fs]
           else marshal_optional_fields pg rec st p indent cur m first fs))"

text \<open>
  The fields of any other struct: the comma is part of what is written in front of a field. A map also writes a
  comma behind itself.
\<close>

fun marshal_plain_fields ::
  "'d program \<Rightarrow> marshaller \<Rightarrow> string \<Rightarrow> ptr \<Rightarrow> nat \<Rightarrow> nat \<Rightarrow> 'd store \<Rightarrow> bool \<Rightarrow> struct_field list \<Rightarrow> writer" where
  "marshal_plain_fields pg rec st p indent cur m first [] = emit []"
| "marshal_plain_fields pg rec st p indent cur m first (f # fs) =
     (let key = key_text (JSON_KEY f)
      in emit [(if first then emit [only_if (indent \<noteq> 0) [blanks cur], put key]
                else if indent \<noteq> 0 then emit [put ('','' @ [CHR 0x0A]), blanks cur, put key]
                else put ('','' @ key)),
           marshal_value pg rec st f p indent cur m,
           (if fd_type f = FIELD_TYPE_MAP then emit [only_if (fs \<noteq> []) [put '',''], newline indent]
            else only_if (fs = []) [newline indent]),
           marshal_plain_fields pg rec st p indent cur m False fs])"

text \<open>\<open>if (indent && sstr_length(out) && sstr_cstr(out)[sstr_length(out)-1] != ':') sstr_append_indent(out, curindent)\<close>.\<close>

definition open_indent :: "nat \<Rightarrow> nat \<Rightarrow> writer" where
  "open_indent indent cur out = bindD (Some (sstr_data out)) (\<lambda>d.
     if indent \<noteq> 0 \<and> d \<noteq> [] \<and> last d \<noteq> CHR '':'' then blanks cur out else Some (Inr out))"

definition marshal_struct ::
  "'d program \<Rightarrow> marshaller \<Rightarrow> string \<Rightarrow> struct_field list \<Rightarrow> ptr \<Rightarrow> nat \<Rightarrow> nat \<Rightarrow> 'd store \<Rightarrow> writer" where
  "marshal_struct pg rec st fs p indent cur m =
     (let has_optional = list_ex may_be_absent fs; cur1 = cur + indent
      in emit [open_indent indent cur, put ''{'', only_if (\<not> has_optional) [newline indent],
           (if has_optional then marshal_optional_fields pg rec st p indent cur1 m True fs
            else marshal_plain_fields pg rec st p indent cur1 m True fs),
           only_if has_optional [newline indent], blanks cur, put ''}''])"

section \<open>Oneofs\<close>

text \<open>What stands between the outermost braces of the text of the variant, with a comma in front of it.\<close>

definition last_brace :: "string \<Rightarrow> nat \<Rightarrow> nat" where
  "last_brace s start = (let e = length s - 1 - length (takeWhile (\<lambda>c. c \<noteq> CHR ''}'') (rev s)) in max start e)"

definition variant_members :: "string \<Rightarrow> string" where
  "variant_members s =
     (if length s \<ge> 2 then
        (let start = length (takeWhile (\<lambda>c. c \<noteq> CHR ''{'') s); e = last_brace s start
         in if start + 1 < e then CHR '','' # take (e - (start + 1)) (drop (start + 1) s) else [])
      else [])"

definition marshal_oneof :: "'d program \<Rightarrow> marshaller \<Rightarrow> oneof_container \<Rightarrow> ptr \<Rightarrow> nat \<Rightarrow> nat \<Rightarrow> 'd store \<Rightarrow> writer" where
  "marshal_oneof pg rec oc p indent cur m =
     (let tag_p = shift p (col (pg_env pg) (''(int)'' @ offsetof (oc_name oc) ''tag''));
          value_p = shift p (col (pg_env pg) (''(int)'' @ offsetof (oc_name oc) ''value'')); cur1 = cur + indent
      in reading (load_int tag_p m) (\<lambda>tag.
           emit [open_indent indent cur, put ''{'', newline indent, blanks cur1, put (key_text (oc_tag_field oc)), quote,
             only_if (0 \<le> tag \<and> tag < int (oc_count oc)) [put (cstr (ov_name (oc_variants oc ! nat tag)))], quote,
             (case find (\<lambda>v. int (ov_index v) = tag) (oc_variants oc) of
                None \<Rightarrow> emit []
              | Some v \<Rightarrow> (\<lambda>out. bindD (rec (ov_struct_type_name v) value_p cur1 sstr_new) (\<lambda>tmp.
                            bindD (Some (sstr_data tmp)) (\<lambda>s. put (variant_members s) out)))),
             newline indent, blanks cur, put ''}'']))"

text \<open>\<open>json_marshal_indent_T\<close>; structs nest, and \<open>n\<close> bounds how deep.\<close>

fun json_marshal_indent :: "nat \<Rightarrow> 'd program \<Rightarrow> nat \<Rightarrow> 'd store \<Rightarrow> marshaller" where
  "json_marshal_indent 0 pg indent m tn p cur out = None"
| "json_marshal_indent (Suc n) pg indent m tn p cur out =
     (case pg_struct pg tn of
        Some fs \<Rightarrow> marshal_struct pg (json_marshal_indent n pg indent m) tn fs p indent cur m out
      | None \<Rightarrow> (case pg_oneof pg tn of
          Some oc \<Rightarrow> marshal_oneof pg (json_marshal_indent n pg indent m) oc p indent cur m out
        | None \<Rightarrow> None))"

section \<open>Objects read as values\<close>

lemma load_object_simps:
  "object_at m p (c_int_bits T div 8) (Value (J_int i)) \<Longrightarrow> load_int_of T p m = Inr i"
  "object_at m p 4 (Value (J_int i)) \<Longrightarrow> load_int p m = Inr i"
  "object_at m p 8 (Value (J_str s)) \<Longrightarrow> load_str p m = Inr s"
  "object_at m p 8 (Address a) \<Longrightarrow> load_addr p m = Inr a"
  "object_at m p k (Value (J_float d)) \<Longrightarrow> 0 < k \<Longrightarrow> load_float k z p m = Inr d"
  "object_at m p 1 (Value (J_int i)) \<Longrightarrow> load_bool p m = Inr (i \<noteq> 0)"
proof -
  have "0 < c_int_bits T div 8" by (cases T) simp_all
  then show "object_at m p (c_int_bits T div 8) (Value (J_int i)) \<Longrightarrow> load_int_of T p m = Inr i"
    by (simp add: load_int_of_def load_object)
qed (simp_all add: load_int_def load_str_def load_addr_def load_float_def load_bool_def load_object)

end
