(* ===== verification/JsonRoundtrip.thy ===== *)
theory JsonRoundtrip
  imports JsonUnmarshal JsonMarshal
begin

text \<open>
  What the writers of JsonMarshal write: the text of the object whose members the struct in memory holds
  (\<open>members_are\<close>), with the white space of the indentation; JsonReadBack shows what the reader makes of that text. Then the
  texts that go wrong: oneofs without members, and maps in the middle of a struct.
\<close>

section \<open>Writers\<close>

text \<open>After the text \<open>c\<close>, the writer appends \<open>t\<close>.\<close>

definition writes :: "string \<Rightarrow> writer \<Rightarrow> string \<Rightarrow> bool" where
  "writes c w t \<longleftrightarrow> (\<forall>s. sstr_ok s \<longrightarrow> sstr_content s = c \<longrightarrow>
     (\<exists>s'. w s = Some (Inr s') \<and> sstr_ok s' \<and> sstr_content s' = c @ t))"

lemma writesD:
  "writes c w t \<Longrightarrow> sstr_ok s \<Longrightarrow> sstr_content s = c \<Longrightarrow> \<exists>s'. w s = Some (Inr s') \<and> sstr_ok s' \<and> sstr_content s' = c @ t"
  by (simp add: writes_def)

lemma writes_Nil: "writes c (emit []) []"
  by (simp add: writes_def)

lemma writes_Cons: "writes c w t \<Longrightarrow> writes (c @ t) (emit ws) u \<Longrightarrow> writes c (emit (w # ws)) (t @ u)"
  unfolding writes_def by fastforce

lemma writes_fault_free:
  assumes "\<And>s. sstr_ok s \<Longrightarrow> \<exists>s'. f s = Inr s' \<and> sstr_ok s' \<and> sstr_content s' = sstr_content s @ t"
  shows "writes c (\<lambda>out. Some (f out)) t"
  using assms unfolding writes_def by fastforce

lemma writes_put: "writes c (put t) t"
  unfolding put_def [abs_def] by (rule writes_fault_free) (rule sstr_append_of_correct)

lemma writes_quote: "writes c quote [CHR 0x22]"
  by (simp add: quote_def writes_put)

lemma writes_newline: "writes c (newline indent) (newline_if indent)"
  unfolding newline_def [abs_def] by (rule writes_fault_free) (rule newline_if_correct)

lemma writes_blanks: "writes c (blanks cur) (replicate cur CHR '' '')"
  unfolding blanks_def [abs_def] by (rule writes_fault_free) (rule sstr_append_indent_correct)

lemma writes_only_if: "(b \<Longrightarrow> writes c (emit ws) t) \<Longrightarrow> writes c (only_if b ws) (if b then t else [])"
  by (simp add: only_if_def writes_Nil del: emit.simps)

lemma writes_reading: "x = Inr v \<Longrightarrow> writes c (f v) t \<Longrightarrow> writes c (reading x f) t"
  by (simp add: writes_def reading_def)

lemma writes_open:
  "writes c (open_indent indent cur) (if indent \<noteq> 0 \<and> c \<noteq> [] \<and> last c \<noteq> CHR '':'' then replicate cur CHR '' '' else [])"
  using writes_blanks [of c cur] by (auto simp: writes_def open_indent_def sstr_data_ok)

lemma writes_escape: "writes c (\<lambda>out. Some (sstr_json_escape_string_append out (Some s))) (json_escape s)"
  by (rule writes_fault_free) (use sstr_json_escape_correct in blast)

lemma writes_one: "writes c w t \<Longrightarrow> writes c (emit [w]) t"
  using writes_Cons [OF _ writes_Nil, of c w t] by simp

lemma writes_string:
  assumes "load_str p m = Inr s"
  shows "writes c (marshal_string p m) (quoted s)"
proof -
  have "writes c (\<lambda>out. Some (sstr_json_escape_string_append out s)) (case s of None \<Rightarrow> [] | Some d \<Rightarrow> json_escape d)" for c
    using writes_escape by (cases s) (simp_all add: writes_def sstr_json_escape_string_append_def)
  then have "writes c (marshal_string p m) ([CHR 0x22] @ (case s of None \<Rightarrow> [] | Some d \<Rightarrow> json_escape d) @ [CHR 0x22])"
    unfolding marshal_string_def
    by (intro writes_Cons [OF writes_quote writes_Cons [OF writes_reading [OF assms] writes_one [OF writes_quote]]])
  then show ?thesis by (simp add: quoted_def)
qed

lemma int_in_word:
  assumes "sstr_ok s" and "- (2 ^ 31) \<le> i" and "i < 2 ^ 31"
  shows "\<exists>s'. sstr_append_int_str s (word_of_int i) = Inr s' \<and> sstr_ok s' \<and> sstr_content s' = sstr_content s @ show_int i"
  using sstr_append_int_str_correct [OF assms(1), of "word_of_int i"] sint_word_of_int [of i, where 'a = 32] assms(2,3) by simp

lemma numeric_writer_correct:
  assumes "sstr_ok s" and "c_int_of ft = Some T" and "c_int_min T \<le> i" and "i \<le> c_int_max T"
  shows "\<exists>w s'. numeric_writer ft = Some w \<and> w s i = Inr s' \<and> sstr_ok s' \<and> sstr_content s' = sstr_content s @ show_int i"
proof -
  have long: "\<exists>s'. sstr_append_long_str s (word_of_int i) = Inr s' \<and> sstr_ok s' \<and> sstr_content s' = sstr_content s @ show_int i"
    if "- (2 ^ 63) \<le> i" "i < 2 ^ 63"
    using sstr_append_long_str_correct [OF assms(1), of "word_of_int i"] sint_word_of_int [of i, where 'a = 64] that by simp
  have u32: "\<exists>s'. sstr_append_uint32_str s (word_of_int i) = Inr s' \<and> sstr_ok s' \<and> sstr_content s' = sstr_content s @ show_int i"
    if "0 \<le> i" "i < 2 ^ 32"
    using sstr_append_uint32_str_correct [OF assms(1), of "word_of_int i"] unat_word_of_int [of i, where 'a = 32] that by (simp add: show_int_def)
  have u64: "\<exists>s'. sstr_append_uint64_str s (word_of_int i) = Inr s' \<and> sstr_ok s' \<and> sstr_content s' = sstr_content s @ show_int i"
    if "0 \<le> i" "i < 2 ^ 64"
    using sstr_append_uint64_str_correct [OF assms(1), of "word_of_int i"] unat_word_of_int [of i, where 'a = 64] that by (simp add: show_int_def)
  show ?thesis using assms(2-4) long u32 u64 int_in_word [OF assms(1)]
    by (cases ft) (auto simp: c_int_bounds)
qed

lemma writes_numeric:
  assumes "c_int_of ft = Some T" and "load_int_of T p m = Inr i" and "c_int_min T \<le> i" and "i \<le> c_int_max T"
  obtains w where "emit_numeric_marshal pg ft p m = Some w" and "\<And>c. writes c w (show_int i)"
proof -
  obtain w where w: "numeric_writer ft = Some w"
    using numeric_writer_correct [OF sstr_new_ok(1) assms(1,3,4)] by blast
  have "\<exists>s'. w s i = Inr s' \<and> sstr_ok s' \<and> sstr_content s' = sstr_content s @ show_int i" if "sstr_ok s" for s
    using numeric_writer_correct [OF that assms(1,3,4)] w by auto
  then have "writes c (\<lambda>out. Some (w out i)) (show_int i)" for c by (rule writes_fault_free)
  then have "writes c (reading (load_int_of T p m) (\<lambda>i out. Some (w out i))) (show_int i)" for c
    by (rule writes_reading [OF assms(2)])
  then show ?thesis using that w assms(1) by (simp add: emit_numeric_marshal_def elem_of_def)
qed

lemma writes_enum:
  assumes "load_int p m = Inr i" and "0 \<le> i" and "i < je_const (pg_env pg) (tn @ ''_enum_count'')"
  shows "writes c (marshal_enum pg tn p m) (CHR 0x22 # cstr (je_strings (pg_env pg) (tn @ ''_enum_strings'') ! nat i) @ [CHR 0x22])"
  unfolding marshal_enum_def
  by (rule writes_reading [OF assms(1)]) (use assms(2,3) in \<open>simp del: emit.simps add: writes_Cons [OF writes_quote writes_Cons [OF writes_put writes_one [OF writes_quote]], simplified]\<close>)

lemma writes_enum_number:
  assumes "load_int p m = Inr i" and "\<not> (0 \<le> i \<and> i < je_const (pg_env pg) (tn @ ''_enum_count''))"
    and "c_int_min C_int \<le> i" and "i \<le> c_int_max C_int"
  shows "writes c (marshal_enum pg tn p m) (show_int i)"
  unfolding marshal_enum_def
  by (rule writes_reading [OF assms(1)]) (use assms(2-4) in \<open>auto intro!: writes_fault_free int_in_word simp: c_int_bounds\<close>)

section \<open>What a struct holds\<close>

text \<open>
  \<open>field_is\<close>: the field of the struct at an address is this value, as its C object is read; \<open>members_are\<close>: the
  present fields of the struct are these members, in the order of the declaration. An absent optional field is
  left out, a null string counts as the empty one. Maps, floats, oneofs and arrays of structs are not among the values.
\<close>

inductive field_is :: "'d program \<Rightarrow> 'd store \<Rightarrow> string \<Rightarrow> ptr \<Rightarrow> struct_field \<Rightarrow> jval \<Rightarrow> bool"
  and members_are :: "'d program \<Rightarrow> 'd store \<Rightarrow> string \<Rightarrow> ptr \<Rightarrow> struct_field list \<Rightarrow> (string \<times> jval) list \<Rightarrow> bool"
  for pg :: "'d program" and m :: "'d store" where
  int: "\<not> fd_is_array f \<Longrightarrow> c_int_of (fd_type f) = Some T \<Longrightarrow> fd_type f \<noteq> FIELD_TYPE_BOOL \<Longrightarrow>
    load_int_of T (obj_at pg p st (fd_name f)) m = Inr i \<Longrightarrow> c_int_min T \<le> i \<Longrightarrow> i \<le> c_int_max T \<Longrightarrow> field_is pg m st p f (JInt i)"
| bool: "\<not> fd_is_array f \<Longrightarrow> fd_type f = FIELD_TYPE_BOOL \<Longrightarrow> load_int (obj_at pg p st (fd_name f)) m = Inr i \<Longrightarrow>
    field_is pg m st p f (JBool (i \<noteq> 0))"
| string: "\<not> fd_is_array f \<Longrightarrow> fd_type f = FIELD_TYPE_SSTR \<Longrightarrow> load_str (obj_at pg p st (fd_name f)) m = Inr s \<Longrightarrow>
    field_is pg m st p f (JString (case s of None \<Rightarrow> [] | Some t \<Rightarrow> t))"
| enum: "\<not> fd_is_array f \<Longrightarrow> fd_type f = FIELD_TYPE_ENUM \<Longrightarrow> load_int (obj_at pg p st (fd_name f)) m = Inr i \<Longrightarrow>
    0 \<le> i \<Longrightarrow> i < je_const (pg_env pg) (fd_type_name f @ ''_enum_count'') \<Longrightarrow>
    e = cstr (je_strings (pg_env pg) (fd_type_name f @ ''_enum_strings'') ! nat i) \<Longrightarrow> json_escape e = e \<Longrightarrow>
    field_is pg m st p f (JString e)"
| enum_number: "\<not> fd_is_array f \<Longrightarrow> fd_type f = FIELD_TYPE_ENUM \<Longrightarrow> load_int (obj_at pg p st (fd_name f)) m = Inr i \<Longrightarrow>
    \<not> (0 \<le> i \<and> i < je_const (pg_env pg) (fd_type_name f @ ''_enum_count'')) \<Longrightarrow> c_int_min C_int \<le> i \<Longrightarrow> i \<le> c_int_max C_int \<Longrightarrow>
    field_is pg m st p f (JInt i)"
| ints: "fd_is_array f \<Longrightarrow> fd_array_size f = 0 \<Longrightarrow> c_int_of (fd_type f) = Some T \<Longrightarrow>
    load_int (obj_at pg p st (fd_name f @ ''_len'')) m = Inr (int (length is)) \<Longrightarrow> load_addr (obj_at pg p st (fd_name f)) m = Inr a \<Longrightarrow>
    array_base a (length is) = Inr base \<Longrightarrow> load_list (\<lambda>p. load_int_of T p m) base (c_int_bits T div 8) (length is) = Inr is \<Longrightarrow>
    list_all (\<lambda>i. c_int_min T \<le> i \<and> i \<le> c_int_max T) is \<Longrightarrow> field_is pg m st p f (JArray (map JInt is))"
| strings: "fd_is_array f \<Longrightarrow> fd_array_size f = 0 \<Longrightarrow> fd_type f = FIELD_TYPE_SSTR \<Longrightarrow>
    load_int (obj_at pg p st (fd_name f @ ''_len'')) m = Inr (int (length ss)) \<Longrightarrow> load_addr (obj_at pg p st (fd_name f)) m = Inr a \<Longrightarrow>
    array_base a (length ss) = Inr base \<Longrightarrow> load_list (\<lambda>p. load_str p m) base 8 (length ss) = Inr (map Some ss) \<Longrightarrow>
    field_is pg m st p f (JArray (map JString ss))"
| struct: "\<not> fd_is_array f \<Longrightarrow> fd_type f = FIELD_TYPE_STRUCT \<Longrightarrow> pg_struct pg (fd_type_name f) = Some fs \<Longrightarrow>
    members_are pg m (fd_type_name f) (obj_at pg p st (fd_name f)) fs ms \<Longrightarrow> field_is pg m st p f (JObject ms)"
| no_fields: "members_are pg m st p [] []"
| present: "may_be_absent f \<Longrightarrow> load_bool (obj_at pg p st (''has_'' @ fd_name f)) m = Inr True \<Longrightarrow>
    json_escape (JSON_KEY f) = JSON_KEY f \<Longrightarrow> field_is pg m st p f v \<Longrightarrow> members_are pg m st p fs ms \<Longrightarrow>
    members_are pg m st p (f # fs) ((JSON_KEY f, v) # ms)"
| required: "\<not> may_be_absent f \<Longrightarrow> json_escape (JSON_KEY f) = JSON_KEY f \<Longrightarrow> field_is pg m st p f v \<Longrightarrow> members_are pg m st p fs ms \<Longrightarrow>
    members_are pg m st p (f # fs) ((JSON_KEY f, v) # ms)"
| absent: "fd_is_optional f \<Longrightarrow> load_bool (obj_at pg p st (''has_'' @ fd_name f)) m = Inr False \<Longrightarrow>
    members_are pg m st p fs ms \<Longrightarrow> members_are pg m st p (f # fs) ms"

section \<open>The text of a value\<close>

type_synonym layout = "(string \<times> json_lexeme) list"

definition gap :: "nat \<Rightarrow> nat \<Rightarrow> string" where
  "gap indent cur = newline_if indent @ replicate cur CHR '' ''"

fun lead :: "string \<Rightarrow> layout \<Rightarrow> layout" where
  "lead ws [] = []"
| "lead ws ((w, l) # r) = (ws @ w, l) # r"

fun lay_items :: "string \<Rightarrow> bool \<Rightarrow> layout list \<Rightarrow> layout" where
  "lay_items ws first [] = []"
| "lay_items ws first (x # xs) = (if first then [] else [([], (JSON_TOKEN_COMMA, []))]) @ lead ws x @ lay_items ws False xs"

definition lay_key :: "string \<Rightarrow> layout \<Rightarrow> layout" where
  "lay_key k x = ([], (JSON_TOKEN_STRING, k)) # ([], (JSON_TOKEN_COLON, [])) # x"

fun lay_value :: "nat \<Rightarrow> nat \<Rightarrow> jval \<Rightarrow> layout" where
  "lay_value indent cur (JArray vs) = ([], (JSON_TOKEN_LEFT_BRACKET, [])) #
     lay_items (gap indent (cur + indent)) True (map (lay_value indent (cur + indent)) vs) @ [(gap indent cur, (JSON_TOKEN_RIGHT_BRACKET, []))]"
| "lay_value indent cur (JObject ms) = ([], (JSON_TOKEN_LEFT_BRACE, [])) #
     lay_items (gap indent (cur + indent)) True (map (\<lambda>(k, v). lay_key k (lay_value indent (cur + indent) v)) ms)
       @ [(gap indent cur, (JSON_TOKEN_RIGHT_BRACE, []))]"
| "lay_value indent cur v = map (Pair []) (jval_lexemes v)"

lemma map_snd_lead [simp]: "map snd (lead ws x) = map snd x"
  by (cases "(ws, x)" rule: lead.cases) auto

lemma map_snd_items:
  "map snd (lay_items ws True xs) = commas (map (map snd) xs)"
  "map snd (lay_items ws False xs) = (if xs = [] then [] else (JSON_TOKEN_COMMA, []) # commas (map (map snd) xs))"
proof -
  have "map snd (lay_items ws first xs) = (if xs = [] then [] else (if first then [] else [(JSON_TOKEN_COMMA, [])]) @ commas (map (map snd) xs))" for first
    by (induction xs arbitrary: first rule: induct_list012) auto
  then show "map snd (lay_items ws True xs) = commas (map (map snd) xs)"
    "map snd (lay_items ws False xs) = (if xs = [] then [] else (JSON_TOKEN_COMMA, []) # commas (map (map snd) xs))" by auto
qed

lemma lay_lexemes: "map snd (lay_value indent cur v) = jval_lexemes v"
proof (induction v arbitrary: cur)
  case (JObject ms)
  have "map (map snd \<circ> (\<lambda>(k, v). lay_key k (lay_value indent (cur + indent) v))) ms = map member_lexemes ms"
    using JObject.IH by (auto simp: lay_key_def member_lexemes_def)
  then show ?case by (simp only: lay_value.simps list.map map_append map_snd_items map_map object_lexemes prod.sel append.simps)
next
  case (JArray vs)
  have "map (map snd \<circ> lay_value indent (cur + indent)) vs = map jval_lexemes vs" using JArray.IH by auto
  then show ?case by (simp only: lay_value.simps list.map map_append map_snd_items map_map prod.sel append.simps jval_lexemes.simps)
qed (simp_all add: comp_def)

lemma spaced_append [simp]: "spaced (a @ b) \<longleftrightarrow> spaced a \<and> spaced b" "spaced ((ws, l) # a) \<longleftrightarrow> list_all JSON_IS_SPACE ws \<and> spaced a" "spaced []"
  by (simp_all add: spaced_def)

lemma gap_space: "list_all JSON_IS_SPACE (gap indent cur)"
  by (simp add: gap_def newline_if_space blanks_space)

lemma spaced_lead: "list_all JSON_IS_SPACE ws \<Longrightarrow> spaced x \<Longrightarrow> spaced (lead ws x)"
  by (cases "(ws, x)" rule: lead.cases) auto

lemma spaced_items: "list_all JSON_IS_SPACE ws \<Longrightarrow> list_all spaced xs \<Longrightarrow> spaced (lay_items ws first xs)"
  by (induction xs arbitrary: first) (auto simp: spaced_lead)

lemma lay_spaced: "spaced (lay_value indent cur v)"
proof (induction v arbitrary: cur)
  case (JObject ms)
  have "spaced (lay_key k (lay_value indent (cur + indent) v))" if "(k, v) \<in> set ms" for k v
    using JObject.IH [OF that] by (simp add: lay_key_def)
  then have "list_all spaced (map (\<lambda>(k, v). lay_key k (lay_value indent (cur + indent) v)) ms)" by (auto simp: list_all_iff)
  then show ?case by (simp add: gap_space spaced_items)
next
  case (JArray vs)
  then have "list_all spaced (map (lay_value indent (cur + indent)) vs)" by (simp add: list_all_iff)
  then show ?case by (simp add: gap_space spaced_items)
qed (simp_all add: spaced_def list_all_iff)

fun joined :: "string \<Rightarrow> bool \<Rightarrow> string list \<Rightarrow> string" where
  "joined ws first [] = []"
| "joined ws first (t # ts) = (if first then [] else '','') @ ws @ t @ joined ws False ts"

lemma joined_False: "ts \<noteq> [] \<Longrightarrow> joined ws False ts = CHR '','' # joined ws True ts"
  by (cases ts) simp_all

lemma render_append [simp]: "json_render (a @ b) = json_render a @ json_render b" "json_render [] = []"
  by (simp_all add: json_render_def)

lemma render_lead: "x \<noteq> [] \<Longrightarrow> json_render (lead ws x) = ws @ json_render x"
  by (cases "(ws, x)" rule: lead.cases) (auto simp: render_Cons)

lemma render_items: "\<forall>x\<in>set xs. x \<noteq> [] \<Longrightarrow> json_render (lay_items ws first xs) = joined ws first (map json_render xs)"
  by (induction xs arbitrary: first) (auto simp: render_lead render_Cons)

definition value_text :: "nat \<Rightarrow> nat \<Rightarrow> jval \<Rightarrow> string" where
  "value_text indent cur v = json_render (lay_value indent cur v)"

definition member_text :: "nat \<Rightarrow> nat \<Rightarrow> string \<times> jval \<Rightarrow> string" where
  "member_text indent cur kv = CHR 0x22 # json_escape (fst kv) @ [CHR 0x22, CHR '':''] @ value_text indent cur (snd kv)"

lemma lay_value_ne: "lay_value indent cur v \<noteq> []"
  by (cases v) simp_all

lemma value_text_object:
  "value_text indent cur (JObject ms) = ''{'' @ joined (gap indent (cur + indent)) True (map (member_text indent (cur + indent)) ms) @ gap indent cur @ ''}''"
proof -
  let ?f = "\<lambda>(k, v). lay_key k (lay_value indent (cur + indent) v)"
  have "map (json_render \<circ> ?f) ms = map (member_text indent (cur + indent)) ms"
    by (auto simp: lay_key_def render_Cons member_text_def value_text_def)
  moreover have "\<forall>x\<in>set (map ?f ms). x \<noteq> []" by (auto simp: lay_key_def)
  ultimately have "json_render (lay_items (gap indent (cur + indent)) True (map ?f ms))
      = joined (gap indent (cur + indent)) True (map (member_text indent (cur + indent)) ms)"
    by (simp only: render_items map_map)
  then show ?thesis by (simp add: value_text_def render_Cons)
qed

lemma value_text_array:
  "value_text indent cur (JArray vs) = ''['' @ joined (gap indent (cur + indent)) True (map (value_text indent (cur + indent)) vs) @ gap indent cur @ '']''"
proof -
  have "map (json_render \<circ> lay_value indent (cur + indent)) vs = map (value_text indent (cur + indent)) vs"
    by (simp add: value_text_def)
  moreover have "\<forall>x\<in>set (map (lay_value indent (cur + indent)) vs). x \<noteq> []" by (simp add: lay_value_ne)
  ultimately have "json_render (lay_items (gap indent (cur + indent)) True (map (lay_value indent (cur + indent)) vs))
      = joined (gap indent (cur + indent)) True (map (value_text indent (cur + indent)) vs)"
    by (simp only: render_items map_map)
  then show ?thesis by (simp add: value_text_def render_Cons)
qed

lemma items_text_joined:
  "newline_if indent @ items_text sh cur indent vs = joined (gap indent cur) True (map sh vs) @ newline_if indent"
proof (induction vs)
  case (Cons v vs)
  show ?case
  proof (cases "vs = []")
    case False
    then have "joined (gap indent cur) False (map sh vs) @ newline_if indent = CHR '','' # newline_if indent @ items_text sh cur indent vs"
      using Cons.IH by (simp add: joined_False)
    then show ?thesis using False by (simp add: gap_def)
  qed (simp add: gap_def)
qed simp

lemma array_text_value:
  "map sh vs = map (value_text indent (cur + indent)) js \<Longrightarrow> array_text sh indent cur vs = value_text indent cur (JArray js)"
  using items_text_joined [of indent sh "cur + indent" vs] by (simp add: array_text_def value_text_array gap_def)

lemma scalar_text [simp]:
  "value_text indent cur (JInt i) = show_int i" "value_text indent cur (JString s) = quoted (Some s)"
  "value_text indent cur (JBool b) = (if b then ''true'' else ''false'')"
  by (simp_all add: value_text_def render_Cons quoted_def)

section \<open>The writers of the fields\<close>

lemma writes_ints:
  assumes "c_int_of (fd_type f) = Some T" and "load_list (\<lambda>p. load_int_of T p m) base (c_int_bits T div 8) (length js) = Inr js"
    and "list_all (\<lambda>i. c_int_min T \<le> i \<and> i \<le> c_int_max T) js"
  shows "writes c (marshal_array pg rec f base (length js) indent cur m) (value_text indent cur (JArray (map JInt js)))"
proof -
  have "writes c (\<lambda>out. Some (json_marshal_array_indent_int T js indent cur out)) (array_text show_int indent cur js)"
    using int_array.marshal_correct [OF _ assms(3)] by (intro writes_fault_free) (simp add: json_marshal_array_indent_int_def)
  then have "writes c (reading (load_list (\<lambda>p. load_int_of T p m) base (c_int_bits T div 8) (length js))
      (\<lambda>vs out. Some (json_marshal_array_indent_int T vs indent cur out))) (array_text show_int indent cur js)"
    by (rule writes_reading [OF assms(2)])
  moreover have "fd_type f \<noteq> FIELD_TYPE_ENUM" using assms(1) by auto
  ultimately show ?thesis using assms(1) array_text_value [of show_int js indent cur "map JInt js"]
    by (simp add: marshal_array_def elem_of_def marshal_scalars_def)
qed

lemma writes_strings:
  assumes "fd_type f = FIELD_TYPE_SSTR" and "load_list (\<lambda>p. load_str p m) base 8 (length ss) = Inr (map Some ss)"
  shows "writes c (marshal_array pg rec f base (length ss) indent cur m) (value_text indent cur (JArray (map JString ss)))"
proof -
  have "writes c (\<lambda>out. Some (json_marshal_array_indent_sstr_t (map Some ss) indent cur out)) (array_text quoted indent cur (map Some ss))"
    using sstr_array.marshal_correct [of _ "map Some ss"] by (intro writes_fault_free) (simp add: json_marshal_array_indent_sstr_t_def list_all_iff)
  then have "writes c (reading (load_list (\<lambda>p. load_str p m) base 8 (length ss))
      (\<lambda>vs out. Some (json_marshal_array_indent_sstr_t vs indent cur out))) (array_text quoted indent cur (map Some ss))"
    by (rule writes_reading [OF assms(2)])
  moreover have "array_text quoted indent cur (map Some ss) = value_text indent cur (JArray (map JString ss))"
    by (rule array_text_value) simp
  ultimately show ?thesis using assms(1) by (simp add: marshal_array_def elem_of_def marshal_scalars_def)
qed

section \<open>Objects\<close>

text \<open>The members of a struct without optional fields, line by line.\<close>

fun rows :: "nat \<Rightarrow> nat \<Rightarrow> bool \<Rightarrow> string list \<Rightarrow> string" where
  "rows indent cur first [] = []"
| "rows indent cur first (t # ts) = (if first then replicate cur CHR '' '' else CHR '','' # gap indent cur) @ t
     @ (if ts = [] then newline_if indent else rows indent cur False ts)"

lemma rows_joined:
  "rows indent cur False ts = joined (gap indent cur) False ts @ (if ts = [] then [] else newline_if indent)"
  "newline_if indent @ rows indent cur True ts = joined (gap indent cur) True ts @ newline_if indent"
proof -
  show 1: "rows indent cur False ts = joined (gap indent cur) False ts @ (if ts = [] then [] else newline_if indent)" for ts
    by (induction ts) auto
  show "newline_if indent @ rows indent cur True ts = joined (gap indent cur) True ts @ newline_if indent"
    by (cases ts) (auto simp: 1 gap_def)
qed

definition writes_value :: "'d program \<Rightarrow> nat \<Rightarrow> 'd store \<Rightarrow> string \<Rightarrow> ptr \<Rightarrow> struct_field \<Rightarrow> jval \<Rightarrow> bool" where
  "writes_value pg indent m st p f v \<longleftrightarrow> fd_type f \<noteq> FIELD_TYPE_MAP \<and> (\<forall>c cur n. c \<noteq> [] \<longrightarrow> last c = CHR '':'' \<longrightarrow> nest v \<le> n \<longrightarrow> (indent = 0 \<longrightarrow> cur = 0) \<longrightarrow>
     writes c (marshal_value pg (json_marshal_indent n pg indent m) st f p indent cur m) (value_text indent cur v))"

definition writes_members :: "'d program \<Rightarrow> nat \<Rightarrow> 'd store \<Rightarrow> string \<Rightarrow> ptr \<Rightarrow> struct_field list \<Rightarrow> (string \<times> jval) list \<Rightarrow> bool" where
  "writes_members pg indent m st p fs ms \<longleftrightarrow> (\<forall>c cur n first. list_all (\<lambda>kv. nest (snd kv) \<le> n) ms \<longrightarrow> (indent = 0 \<longrightarrow> cur = 0) \<longrightarrow>
     writes c (marshal_optional_fields pg (json_marshal_indent n pg indent m) st p indent cur m first fs)
       (joined (gap indent cur) first (map (member_text indent cur) ms))
     \<and> (\<not> list_ex may_be_absent fs \<longrightarrow> (ms = [] \<longleftrightarrow> fs = []) \<and>
       writes c (marshal_plain_fields pg (json_marshal_indent n pg indent m) st p indent cur m first fs)
       (rows indent cur first (map (member_text indent cur) ms))))"

lemma last_key_text [simp]: "last (c @ key_text k) = CHR '':''" "key_text k \<noteq> []"
  by (simp_all add: key_text_def)

lemma writes_eq: "writes c w t \<Longrightarrow> t = u \<Longrightarrow> writes c w u"
  by simp

lemma member_text_key: "json_escape (JSON_KEY f) = JSON_KEY f \<Longrightarrow> member_text indent cur (JSON_KEY f, v) = key_text (JSON_KEY f) @ value_text indent cur v"
  by (simp add: member_text_def key_text_def)

lemma writes_struct:
  assumes "writes_members pg indent m st p fs ms" and "list_all (\<lambda>kv. nest (snd kv) \<le> n) ms" and "indent = 0 \<longrightarrow> cur = 0"
  shows "writes c (marshal_struct pg (json_marshal_indent n pg indent m) st fs p indent cur m)
    ((if indent \<noteq> 0 \<and> c \<noteq> [] \<and> last c \<noteq> CHR '':'' then replicate cur CHR '' '' else []) @ value_text indent cur (JObject ms))"
proof -
  let ?rec = "json_marshal_indent n pg indent m" and ?cur = "cur + indent"
  note w = assms(1) [unfolded writes_members_def, rule_format, OF assms(2), of ?cur]
  let ?open = "if indent \<noteq> 0 \<and> c \<noteq> [] \<and> last c \<noteq> CHR '':'' then replicate cur CHR '' '' else []"
  let ?ts = "map (member_text indent ?cur) ms"
  show ?thesis
  proof (cases "list_ex may_be_absent fs")
    case True
    have o: "writes c (marshal_optional_fields pg ?rec st p indent ?cur m True fs) (joined (gap indent ?cur) True ?ts)" for c
      using w assms(3) by simp
    have "writes c (marshal_struct pg ?rec st fs p indent cur m)
        (?open @ ''{'' @ [] @ joined (gap indent ?cur) True ?ts @ (if True then newline_if indent else []) @ replicate cur CHR '' '' @ ''}'')"
      unfolding marshal_struct_def Let_def using True
      by (simp only: if_True not_True_eq_False only_if_def if_False)
        (intro writes_Cons [OF writes_open writes_Cons [OF writes_put writes_Cons [OF writes_Nil writes_Cons [OF o writes_Cons [OF writes_one [OF writes_newline] writes_Cons [OF writes_blanks writes_one [OF writes_put]]]]]]])
    then show ?thesis by (rule writes_eq) (simp add: value_text_object gap_def)
  next
    case False
    have o: "writes c (marshal_plain_fields pg ?rec st p indent ?cur m True fs) (rows indent ?cur True ?ts)" for c
      using w assms(3) False by simp
    have "writes c (marshal_struct pg ?rec st fs p indent cur m)
        (?open @ ''{'' @ newline_if indent @ rows indent ?cur True ?ts @ [] @ replicate cur CHR '' '' @ ''}'')"
      unfolding marshal_struct_def Let_def using False
      by (simp only: if_True not_False_eq_True only_if_def if_False)
        (intro writes_Cons [OF writes_open writes_Cons [OF writes_put writes_Cons [OF writes_one [OF writes_newline] writes_Cons [OF o writes_Cons [OF writes_Nil writes_Cons [OF writes_blanks writes_one [OF writes_put]]]]]]])
    moreover have "newline_if indent @ rows indent ?cur True ?ts @ t = joined (gap indent ?cur) True ?ts @ newline_if indent @ t" for t
      using rows_joined(2) [of indent ?cur ?ts] by (metis append.assoc)
    ultimately show ?thesis by (simp add: value_text_object gap_def)
  qed
qed

lemma int_types [simp]:
  "c_int_of ft = Some T \<Longrightarrow> ft \<noteq> FIELD_TYPE_MAP" "c_int_of ft = Some T \<Longrightarrow> elem_of env ft = Some (E_int T)"
  by (auto simp: elem_of_def)

lemma writes_dynamic_array:
  assumes "fd_is_array f" and "fd_array_size f = 0" and "fd_type f \<noteq> FIELD_TYPE_MAP"
    and "load_int (obj_at pg p st (fd_name f @ ''_len'')) m = Inr (int n)" and "load_addr (obj_at pg p st (fd_name f)) m = Inr a"
    and "array_base a n = Inr base" and "writes c (marshal_array pg rec f base n indent cur m) t"
  shows "writes c (marshal_value pg rec st f p indent cur m) t"
proof -
  have "writes c (reading (load_int (obj_at pg p st (fd_name f @ ''_len'')) m) (\<lambda>len. reading (load_addr (obj_at pg p st (fd_name f)) m)
      (\<lambda>a. reading (array_base a (nat len)) (\<lambda>base. marshal_array pg rec f base (nat len) indent cur m)))) t"
    by (rule writes_reading, rule assms(4), rule writes_reading, rule assms(5), rule writes_reading, simp only: nat_int, rule assms(6),
      simp only: nat_int, rule assms(7))
  then show ?thesis using assms(1-3) by (simp add: marshal_value_def Let_def)
qed

lemma writes_optional_field:
  assumes "(if fd_is_optional f then load_bool (obj_at pg p st (''has_'' @ fd_name f)) m else Inr True) = Inr True"
    and "json_escape (JSON_KEY f) = JSON_KEY f"
    and "\<And>c. writes (c @ key_text (JSON_KEY f)) (if fd_is_nullable f \<and> \<not> fd_is_optional f
           then reading (load_bool (obj_at pg p st (''has_'' @ fd_name f)) m) (\<lambda>h. if h then marshal_value pg rec st f p indent cur m else put ''null'')
           else marshal_value pg rec st f p indent cur m) (value_text indent cur v)"
    and "\<And>c. writes c (marshal_optional_fields pg rec st p indent cur m False fs) (joined (gap indent cur) False ts)"
  shows "writes c (marshal_optional_fields pg rec st p indent cur m first (f # fs))
    (joined (gap indent cur) first (member_text indent cur (JSON_KEY f, v) # ts))"
proof -
  have "writes c (only_if (\<not> first) [put '','']) (if \<not> first then '','' else [])" for c
    by (intro writes_only_if writes_one writes_put)
  note w = writes_Cons [OF this writes_Cons [OF writes_newline writes_Cons [OF writes_blanks writes_Cons [OF writes_put writes_Cons [OF assms(3) writes_one [OF assms(4)]]]]]]
  show ?thesis unfolding marshal_optional_fields.simps Let_def
    by (rule writes_reading [OF assms(1)], simp only: if_True) (rule writes_eq [OF w], simp add: member_text_key [OF assms(2)] gap_def)
qed

text \<open>The front of a field of a struct without optional ones.\<close>

lemma writes_plain_field:
  assumes "fd_type f \<noteq> FIELD_TYPE_MAP" and "json_escape (JSON_KEY f) = JSON_KEY f" and "indent = 0 \<longrightarrow> cur = 0"
    and "\<And>c. writes (c @ key_text (JSON_KEY f)) (marshal_value pg rec st f p indent cur m) (value_text indent cur v)"
    and "\<And>c. writes c (marshal_plain_fields pg rec st p indent cur m False fs) (rows indent cur False ts)" and "ts = [] \<longleftrightarrow> fs = []"
  shows "writes c (marshal_plain_fields pg rec st p indent cur m first (f # fs))
    (rows indent cur first (member_text indent cur (JSON_KEY f, v) # ts))"
proof -
  let ?key = "key_text (JSON_KEY f)" and ?sep = "if first then replicate cur CHR '' '' else CHR '','' # gap indent cur"
  let ?v = "marshal_value pg rec st f p indent cur m" and ?rest = "marshal_plain_fields pg rec st p indent cur m False fs"
  have v: "writes (d @ x @ ?key) ?v (value_text indent cur v)" for d x using assms(4) [of "d @ x"] by simp
  have e: "writes d (only_if (fs = []) [newline indent]) (if fs = [] then newline_if indent else [])" for d
    by (intro writes_only_if writes_one writes_newline)
  have b: "writes d (only_if (indent \<noteq> 0) [blanks cur]) (replicate cur CHR '' '')" for d
    using writes_only_if [of "indent \<noteq> 0" d "[blanks cur]" "replicate cur CHR '' ''"] writes_one [OF writes_blanks] assms(3) by (auto split: if_splits)
  have "writes d (if first then emit [only_if (indent \<noteq> 0) [blanks cur], put ?key]
      else if indent \<noteq> 0 then emit [put ('','' @ [CHR 0x0A]), blanks cur, put ?key] else put ('','' @ ?key)) (?sep @ ?key)" for d
  proof (cases first; cases "indent = 0")
    assume "\<not> first" "indent \<noteq> 0"
    then show ?thesis using writes_Cons [OF writes_put writes_Cons [OF writes_blanks writes_one [OF writes_put]], of d "'','' @ [CHR 0x0A]" cur ?key]
      by (simp add: gap_def newline_if_def del: emit.simps)
  next
    assume "\<not> first" "indent = 0"
    then show ?thesis using writes_put [of d "'','' @ ?key"] assms(3) by (simp add: gap_def newline_if_def)
  qed (use writes_Cons [OF b writes_one [OF writes_put], of d ?key] in \<open>simp_all del: emit.simps\<close>)
  note w = writes_Cons [OF this writes_Cons [OF v writes_Cons [OF e writes_one [OF assms(5)]]]]
  have t: "fs = [] \<Longrightarrow> rows indent cur False ts = []" using assms(6) by simp
  show ?thesis unfolding marshal_plain_fields.simps Let_def using assms(1)
    by (simp only: if_False) (rule writes_eq [OF w], use assms(6) t in \<open>simp add: member_text_key [OF assms(2)]\<close>)
qed

lemma field_writes:
  "field_is pg m st p f v \<Longrightarrow> writes_value pg indent m st p f v"
  "members_are pg m st p fs ms \<Longrightarrow> writes_members pg indent m st p fs ms"
proof (induction rule: field_is_members_are.inducts)
  case (int f T p st i)
  obtain w where "emit_numeric_marshal pg (fd_type f) (obj_at pg p st (fd_name f)) m = Some w" "\<And>c. writes c w (show_int i)"
    using writes_numeric [OF int(2,6,4,5), of pg] by blast
  then show ?case using int(1,3) int_types(1) [OF int(2)] by (simp add: writes_value_def marshal_value_def)
next
  case (bool f p st i)
  have "writes c (reading (load_int (obj_at pg p st (fd_name f)) m) (\<lambda>i. if i \<noteq> 0 then put ''true'' else put ''false'')) (if i \<noteq> 0 then ''true'' else ''false'')" for c
    by (rule writes_reading [OF bool(3)]) (simp add: writes_put)
  then show ?case using bool(1,2) by (simp add: writes_value_def marshal_value_def Let_def)
next
  case (string f p st s)
  have "quoted s = quoted (Some (case s of None \<Rightarrow> [] | Some t \<Rightarrow> t))" by (cases s) (simp_all add: quoted_def)
  then show ?case using string(1,2) writes_string [OF string(3)]
    by (simp add: writes_value_def marshal_value_def emit_numeric_marshal_def elem_of_def)
next
  case (enum f p st i e)
  have "quoted (Some e) = CHR 0x22 # e @ [CHR 0x22]" using enum(4) by (simp add: quoted_def)
  then show ?case using enum(1,2) writes_enum [OF enum(5,3,6)] enum(7)
    by (simp add: writes_value_def marshal_value_def emit_numeric_marshal_def elem_of_def)
next
  case (enum_number f p st i)
  then show ?case using writes_enum_number [OF enum_number(5,6,3,4)]
    by (simp add: writes_value_def marshal_value_def emit_numeric_marshal_def elem_of_def)
next
  case (ints f T p st js a base)
  then show ?case using writes_ints [OF ints(3,8,5)] int_types(1) [OF ints(3)]
    unfolding writes_value_def by (intro conjI allI impI writes_dynamic_array [OF ints(1,2) _ ints(6,7,4)]) auto
next
  case (strings f p st ss a base)
  then show ?case using writes_strings [OF strings(3,7)]
    unfolding writes_value_def by (intro conjI allI impI writes_dynamic_array [OF strings(1,2) _ strings(5,6,4)]) auto
next
  case (struct f fs p st ms)
  show ?case unfolding writes_value_def
  proof (intro conjI allI impI)
    fix c :: string and cur n :: nat
    assume c: "c \<noteq> []" "last c = CHR '':''" "nest (JObject ms) \<le> n" "indent = 0 \<longrightarrow> cur = 0"
    then obtain k where n: "n = Suc k" by (cases n) auto
    have "list_all (\<lambda>kv. nest (snd kv) \<le> k) ms" unfolding list_all_iff using nest_member [of _ ms] c(3) n by fastforce
    note w = writes_struct [OF struct(5) this c(4), of c]
    have "json_marshal_indent n pg indent m (fd_type_name f) (obj_at pg p st (fd_name f)) cur
        = marshal_struct pg (json_marshal_indent k pg indent m) (fd_type_name f) fs (obj_at pg p st (fd_name f)) indent cur m"
      using struct(3) n by (auto simp: fun_eq_iff)
    then show "writes c (marshal_value pg (json_marshal_indent n pg indent m) st f p indent cur m) (value_text indent cur (JObject ms))"
      using w c struct(1,2) by (simp add: marshal_value_def emit_numeric_marshal_def elem_of_def)
  qed (use struct in simp)
next
  case (no_fields st p)
  then show ?case by (simp add: writes_members_def writes_Nil del: emit.simps)
next
  case (present f p st v fs ms)
  show ?case unfolding writes_members_def
  proof (intro conjI allI impI; (elim notE)?)
    fix c :: string and cur n :: nat and first
    assume a: "list_all (\<lambda>kv. nest (snd kv) \<le> n) ((JSON_KEY f, v) # ms)" "indent = 0 \<longrightarrow> cur = 0"
    let ?rec = "json_marshal_indent n pg indent m"
    let ?has = "load_bool (obj_at pg p st (''has_'' @ fd_name f)) m" and ?val = "marshal_value pg ?rec st f p indent cur m"
    have v: "writes c ?val (value_text indent cur v)" if "c \<noteq> []" "last c = CHR '':''" for c
      using present(5) that a unfolding writes_value_def by simp
    have v': "writes (c @ key_text (JSON_KEY f)) (if fd_is_nullable f \<and> \<not> fd_is_optional f then reading ?has (\<lambda>h. if h then ?val else put ''null'') else ?val) (value_text indent cur v)" for c
      using writes_reading [OF present(3), of "c @ key_text (JSON_KEY f)" "\<lambda>h. if h then ?val else put ''null''"] v by simp
    have r: "writes c (marshal_optional_fields pg ?rec st p indent cur m False fs) (joined (gap indent cur) False (map (member_text indent cur) ms))" for c
      using present(7) a unfolding writes_members_def by simp
    show "writes c (marshal_optional_fields pg ?rec st p indent cur m first (f # fs))
        (joined (gap indent cur) first (map (member_text indent cur) ((JSON_KEY f, v) # ms)))"
      using writes_optional_field [OF _ present(2) v' r, of c first] present(3) by simp
  qed (use present(1) in simp_all)
next
  case (required f st p v fs ms)
  show ?case unfolding writes_members_def
  proof (intro allI impI)
    fix c :: string and cur n :: nat and first
    assume a: "list_all (\<lambda>kv. nest (snd kv) \<le> n) ((JSON_KEY f, v) # ms)" "indent = 0 \<longrightarrow> cur = 0"
    let ?rec = "json_marshal_indent n pg indent m"
    let ?val = "marshal_value pg ?rec st f p indent cur m" and ?key = "key_text (JSON_KEY f)"
    have v: "writes (c @ ?key) ?val (value_text indent cur v)" for c
      using required(4) a unfolding writes_value_def by simp
    have opt: "\<not> fd_is_optional f" "\<not> fd_is_nullable f" "fd_type f \<noteq> FIELD_TYPE_MAP"
      using required(1,4) by (simp_all add: may_be_absent_def writes_value_def)
    note w = required(6) [unfolded writes_members_def, rule_format, of n cur] 
    have r: "writes c (marshal_optional_fields pg ?rec st p indent cur m False fs) (joined (gap indent cur) False (map (member_text indent cur) ms))" for c
      using w a by simp
    have q: "(ms = [] \<longleftrightarrow> fs = [])
        \<and> writes c (marshal_plain_fields pg ?rec st p indent cur m False fs) (rows indent cur False (map (member_text indent cur) ms))"
      if "\<not> list_ex may_be_absent fs" for c
      using w a that by simp
    have "writes c (marshal_optional_fields pg ?rec st p indent cur m first (f # fs))
        (joined (gap indent cur) first (map (member_text indent cur) ((JSON_KEY f, v) # ms)))"
      using writes_optional_field [OF _ required(2) _ r, of v c first] v opt by simp
    moreover have "((JSON_KEY f, v) # ms = []) = (f # fs = []) \<and> writes c (marshal_plain_fields pg ?rec st p indent cur m first (f # fs))
        (rows indent cur first (map (member_text indent cur) ((JSON_KEY f, v) # ms)))" if "\<not> list_ex may_be_absent (f # fs)"
      using writes_plain_field [OF opt(3) required(2) a(2) v, of fs "map (member_text indent cur) ms" c first] q that by simp
    ultimately show "writes c (marshal_optional_fields pg ?rec st p indent cur m first (f # fs))
         (joined (gap indent cur) first (map (member_text indent cur) ((JSON_KEY f, v) # ms))) \<and>
        (\<not> list_ex may_be_absent (f # fs) \<longrightarrow> ((JSON_KEY f, v) # ms = []) = (f # fs = []) \<and>
         writes c (marshal_plain_fields pg ?rec st p indent cur m first (f # fs))
          (rows indent cur first (map (member_text indent cur) ((JSON_KEY f, v) # ms))))" by blast
  qed
next
  case (absent f p st fs ms)
  have "writes c (reading (load_bool (obj_at pg p st (''has_'' @ fd_name f)) m) (\<lambda>present. if present then w else w')) t"
    if "writes c w' t" for c w w' t
    by (rule writes_reading [OF absent(2)]) (simp add: that)
  then show ?case using absent(1,4) by (simp add: writes_members_def Let_def may_be_absent_def)
qed

lemma marshal_writes:
  assumes "pg_struct pg st = Some fs" and "members_are pg m st p fs ms" and "nest (JObject ms) \<le> k" and "indent = 0 \<longrightarrow> cur = 0"
  shows "writes c (json_marshal_indent k pg indent m st p cur)
    ((if indent \<noteq> 0 \<and> c \<noteq> [] \<and> last c \<noteq> CHR '':'' then replicate cur CHR '' '' else []) @ value_text indent cur (JObject ms))"
proof -
  obtain k' where k: "k = Suc k'" using assms(3) by (cases k) auto
  have "list_all (\<lambda>kv. nest (snd kv) \<le> k') ms" unfolding list_all_iff using nest_member [of _ ms] assms(3) k by fastforce
  note w = writes_struct [OF field_writes(2) [OF assms(2)] this assms(4), of c]
  have "json_marshal_indent k pg indent m st p cur = marshal_struct pg (json_marshal_indent k' pg indent m) st fs p indent cur m"
    using assms(1) k by (auto simp: fun_eq_iff)
  then show ?thesis using w by simp
qed

section \<open>Oneofs\<close>

lemma takeWhile_other: "takeWhile (\<lambda>c. c \<noteq> x) (x # s) = []"
  by simp

text \<open>Between the braces of the text of an object.\<close>

lemma variant_members_object:
  "variant_members (''{'' @ inner @ ''}'') = (if inner = [] then [] else CHR '','' # inner)"
  by (cases inner) (auto simp: variant_members_def last_brace_def max_def)

definition oneof_is :: "'d program \<Rightarrow> 'd store \<Rightarrow> oneof_container \<Rightarrow> ptr \<Rightarrow> oneof_variant \<Rightarrow> (string \<times> jval) list \<Rightarrow> bool" where
  "oneof_is pg m oc p v ms \<longleftrightarrow>
     load_int (shift p (col (pg_env pg) (''(int)'' @ offsetof (oc_name oc) ''tag''))) m = Inr (int (ov_index v))
     \<and> ov_index v < oc_count oc \<and> find (\<lambda>w. ov_index w = ov_index v) (oc_variants oc) = Some v \<and> oc_variants oc ! ov_index v = v
     \<and> (\<exists>fs. pg_struct pg (ov_struct_type_name v) = Some fs
        \<and> members_are pg m (ov_struct_type_name v) (shift p (col (pg_env pg) (''(int)'' @ offsetof (oc_name oc) ''value''))) fs ms)"

lemma oneof_writes:
  assumes "pg_struct pg on = None" and "pg_oneof pg on = Some oc" and "oneof_is pg m oc p v ms"
    and "nest (JObject ms) \<le> k" and "indent = 0 \<longrightarrow> cur = 0"
  shows "writes c (json_marshal_indent (Suc k) pg indent m on p cur)
    ((if indent \<noteq> 0 \<and> c \<noteq> [] \<and> last c \<noteq> CHR '':'' then replicate cur CHR '' '' else [])
     @ ''{'' @ gap indent (cur + indent) @ key_text (oc_tag_field oc) @ [CHR 0x22] @ cstr (ov_name v) @ [CHR 0x22]
     @ (let inner = joined (gap indent (cur + indent + indent)) True (map (member_text indent (cur + indent + indent)) ms) @ gap indent (cur + indent)
        in if inner = [] then [] else CHR '','' # inner) @ gap indent cur @ ''}'')"
proof -
  let ?value_p = "shift p (col (pg_env pg) (''(int)'' @ offsetof (oc_name oc) ''value''))" and ?cur1 = "cur + indent"
  let ?inner = "joined (gap indent (?cur1 + indent)) True (map (member_text indent (?cur1 + indent)) ms) @ gap indent ?cur1"
  let ?rec = "json_marshal_indent k pg indent m"
  obtain fs where v: "load_int (shift p (col (pg_env pg) (''(int)'' @ offsetof (oc_name oc) ''tag''))) m = Inr (int (ov_index v))"
      "ov_index v < oc_count oc" "find (\<lambda>w. ov_index w = ov_index v) (oc_variants oc) = Some v" "oc_variants oc ! ov_index v = v"
      "pg_struct pg (ov_struct_type_name v) = Some fs" "members_are pg m (ov_struct_type_name v) ?value_p fs ms"
    using assms(3) unfolding oneof_is_def by blast
  have "writes [] (?rec (ov_struct_type_name v) ?value_p ?cur1) (value_text indent ?cur1 (JObject ms))"
    using marshal_writes [OF v(5,6) assms(4), of indent ?cur1 "[]"] assms(5) by simp
  then obtain tmp where "?rec (ov_struct_type_name v) ?value_p ?cur1 sstr_new = Some (Inr tmp)" "sstr_ok tmp"
      "sstr_content tmp = value_text indent ?cur1 (JObject ms)"
    using sstr_new_ok unfolding writes_def by fastforce
  moreover have "variant_members (value_text indent ?cur1 (JObject ms)) = (if ?inner = [] then [] else CHR '','' # ?inner)"
    using variant_members_object [of ?inner] by (simp add: value_text_object)
  ultimately have var: "writes d (\<lambda>out. bindD (?rec (ov_struct_type_name v) ?value_p ?cur1 sstr_new) (\<lambda>tmp. bindD (Some (sstr_data tmp)) (\<lambda>s. put (variant_members s) out)))
      (if ?inner = [] then [] else CHR '','' # ?inner)" for d
    using writes_put [of d "if ?inner = [] then [] else CHR '','' # ?inner"] by (simp add: sstr_data_ok writes_def)
  let ?tag_p = "shift p (col (pg_env pg) (''(int)'' @ offsetof (oc_name oc) ''tag''))" and ?tag = "int (ov_index v)"
  let ?open = "if indent \<noteq> 0 \<and> c \<noteq> [] \<and> last c \<noteq> CHR '':'' then replicate cur CHR '' '' else []"
  have name: "writes d (only_if (0 \<le> ?tag \<and> ?tag < int (oc_count oc)) [put (cstr (ov_name (oc_variants oc ! nat ?tag)))]) (cstr (ov_name v))" for d
    using writes_only_if [of "0 \<le> ?tag \<and> ?tag < int (oc_count oc)", OF writes_one [OF writes_put]] v(2,4) by simp
  have find: "find (\<lambda>w. int (ov_index w) = ?tag) (oc_variants oc) = Some v" using v(3) by simp
  note w = writes_Cons [OF writes_open writes_Cons [OF writes_put writes_Cons [OF writes_newline writes_Cons [OF writes_blanks writes_Cons [OF writes_put
      writes_Cons [OF writes_quote writes_Cons [OF name writes_Cons [OF writes_quote writes_Cons [OF var writes_Cons [OF writes_newline
      writes_Cons [OF writes_blanks writes_one [OF writes_put]]]]]]]]]]]]
  have "writes c (marshal_oneof pg ?rec oc p indent cur m) (?open @ ''{'' @ newline_if indent @ replicate ?cur1 CHR '' '' @ key_text (oc_tag_field oc)
      @ [CHR 0x22] @ cstr (ov_name v) @ [CHR 0x22] @ (if ?inner = [] then [] else CHR '','' # ?inner) @ newline_if indent @ replicate cur CHR '' '' @ ''}'')"
    unfolding marshal_oneof_def Let_def
    by (rule writes_reading [OF v(1)], simp only: find option.case) (rule w)
  moreover have "json_marshal_indent (Suc k) pg indent m on p cur = marshal_oneof pg ?rec oc p indent cur m"
    using assms(1,2) by (auto simp: fun_eq_iff)
  moreover have "newline_if indent @ replicate a CHR '' '' @ t = gap indent a @ t" for a t by (simp add: gap_def)
  ultimately show ?thesis by (simp only: Let_def)
qed


text \<open>Without indentation, a oneof is written as the object of its variant with the tag in front.\<close>

lemma oneof_object:
  assumes "json_escape (oc_tag_field oc) = oc_tag_field oc" and "json_escape (cstr (ov_name v)) = cstr (ov_name v)"
  shows "value_text 0 0 (JObject ((oc_tag_field oc, JString (cstr (ov_name v))) # ms))
    = ''{'' @ key_text (oc_tag_field oc) @ [CHR 0x22] @ cstr (ov_name v) @ [CHR 0x22]
     @ (let inner = joined [] True (map (member_text 0 0) ms) in if inner = [] then [] else CHR '','' # inner) @ ''}''"
proof -
  have g: "gap 0 0 = []" by (simp add: gap_def newline_if_def)
  have "joined [] True (map (member_text 0 0) ms) \<noteq> []" if "ms \<noteq> []" using that by (cases ms) (simp_all add: member_text_def)
  then show ?thesis
    by (cases "ms = []") (simp_all add: value_text_object g joined_False member_text_def key_text_def quoted_def assms)
qed

section \<open>Properties\<close>

text \<open>
  C29. A struct whose fields hold the members of an object is written as the text of that object: all its present members
  in the order of the declaration, each on a line of its own if there is an indentation, strings escaped and arrays
  bracketed. The output before it is kept, and a key in front of it takes the place of the indentation.
\<close>
theorem json_marshal_text:
  assumes "pg_struct pg st = Some fs" and "members_are pg m st p fs ms" and "nest (JObject ms) \<le> k"
    and "indent = 0 \<longrightarrow> cur = 0" and "sstr_ok out"
  shows "\<exists>out'. json_marshal_indent k pg indent m st p cur out = Some (Inr out') \<and> sstr_ok out' \<and> sstr_content out' = sstr_content out
     @ (if indent \<noteq> 0 \<and> sstr_content out \<noteq> [] \<and> last (sstr_content out) \<noteq> CHR '':'' then replicate cur CHR '' '' else [])
     @ value_text indent cur (JObject ms)"
  using marshal_writes [OF assms(1-4), of "sstr_content out"] assms(5) by (simp add: writes_def)

text \<open>
  Without indentation, a oneof is written as one object: the tag member with the name of the variant, then the members
  of the struct of the variant.
\<close>
theorem json_oneof_text:
  assumes "pg_struct pg on = None" and "pg_oneof pg on = Some oc" and "oneof_is pg m oc p v ms" and "nest (JObject ms) \<le> k"
    and "json_escape (oc_tag_field oc) = oc_tag_field oc" and "json_escape (cstr (ov_name v)) = cstr (ov_name v)" and "sstr_ok out"
  shows "\<exists>out'. json_marshal_indent (Suc k) pg 0 m on p 0 out = Some (Inr out') \<and> sstr_ok out'
     \<and> sstr_content out' = sstr_content out @ value_text 0 0 (JObject ((oc_tag_field oc, JString (cstr (ov_name v))) # ms))"
proof -
  have "gap 0 0 = []" by (simp add: gap_def newline_if_def)
  then have "writes (sstr_content out) (json_marshal_indent (Suc k) pg 0 m on p 0)
      (value_text 0 0 (JObject ((oc_tag_field oc, JString (cstr (ov_name v))) # ms)))"
    using oneof_writes [OF assms(1-4), of 0 0 "sstr_content out"] oneof_object [OF assms(5,6), of ms] by (simp add: Let_def del: json_marshal_indent.simps)
  then show ?thesis using assms(7) by (simp add: writes_def)
qed

text \<open>
  With an indentation, a oneof whose variant has no member to write ends with a comma in front of the closing brace,
  which the reader of objects refuses as a trailing comma.
\<close>
theorem json_oneof_trailing_comma:
  assumes "pg_struct pg on = None" and "pg_oneof pg on = Some oc" and "oneof_is pg m oc p v []" and "1 \<le> k" and "0 < indent"
    and "sstr_ok out" and "sstr_content out = []"
  shows "\<exists>out'. json_marshal_indent (Suc k) pg indent m on p cur out = Some (Inr out')
     \<and> sstr_content out' = ''{'' @ gap indent (cur + indent) @ key_text (oc_tag_field oc) @ [CHR 0x22] @ cstr (ov_name v) @ [CHR 0x22, CHR '','']
         @ gap indent (cur + indent) @ gap indent cur @ ''}''"
proof -
  have "gap indent (cur + indent) \<noteq> []" using assms(5) by (simp add: gap_def)
  then have "writes [] (json_marshal_indent (Suc k) pg indent m on p cur) (''{'' @ gap indent (cur + indent) @ key_text (oc_tag_field oc) @ [CHR 0x22]
      @ cstr (ov_name v) @ [CHR 0x22, CHR '','']
         @ gap indent (cur + indent) @ gap indent cur @ ''}'')"
    using oneof_writes [OF assms(1-3), of k indent cur "[]"] assms(4,5) by (simp add: Let_def del: json_marshal_indent.simps)
  then obtain out' where "json_marshal_indent (Suc k) pg indent m on p cur out = Some (Inr out')"
      "sstr_content out' = [] @ (''{'' @ gap indent (cur + indent) @ key_text (oc_tag_field oc) @ [CHR 0x22]
        @ cstr (ov_name v) @ [CHR 0x22, CHR '',''] @ gap indent (cur + indent) @ gap indent cur @ ''}'')"
    using writesD [OF _ assms(6,7)] by blast
  then show ?thesis by simp
qed

text \<open>
  C30. A map that is not the last field of a struct without optional fields is followed by two commas: an empty map and a
  second field are written as \<open>{"f":{},,"g":...}\<close>, which is not JSON.
\<close>
theorem json_marshal_map_commas:
  assumes "pg_struct pg st = Some [f, g]" and "\<not> may_be_absent f" and "\<not> may_be_absent g" and "fd_type f = FIELD_TYPE_MAP"
    and "\<not> fd_is_array f" and "load_int (shift (obj_at pg p st (fd_name f)) 8) m = Inr 0"
    and "load_addr (obj_at pg p st (fd_name f)) m = Inr a" and "field_is pg m st p g v" and "nest v \<le> k" and "sstr_ok out"
  shows "\<exists>out'. json_marshal_indent (Suc k) pg 0 m st p 0 out = Some (Inr out')
     \<and> sstr_content out' = sstr_content out @ ''{'' @ key_text (JSON_KEY f) @ ''{},,'' @ key_text (JSON_KEY g) @ value_text 0 0 v @ ''}''"
proof -
  let ?rec = "json_marshal_indent k pg 0 m" and ?map = "obj_at pg p st (fd_name f)"
  have nl: "writes c (newline 0) []" for c using writes_newline [of c 0] by (simp add: newline_if_def)
  have bl: "writes c (blanks 0) []" for c using writes_blanks [of c 0] by simp
  have none: "writes c (emit []) []" for c by (rule writes_Nil)
  note braces = writes_Cons [OF writes_put writes_Cons [OF nl writes_Cons [OF none writes_Cons [OF bl writes_one [OF writes_put]]]]]
  have f: "writes c (marshal_value pg ?rec st f p 0 0 m) ''{}''" for c
  proof -
    have "writes c (reading (load_int (shift ?map 8) m) (\<lambda>len. reading (load_addr ?map m) (\<lambda>entries. reading (array_base entries (nat len))
        (\<lambda>base. bracketed CHR ''{'' CHR ''}'' 0 0 (w base) (nat len))))) ''{}''" for w
      by (rule writes_reading, rule assms(6), rule writes_reading, rule assms(7), rule writes_reading, simp add: array_base_def)
        (use braces [of c "''{''" "''}''"] in \<open>simp add: bracketed_def del: emit.simps\<close>)
    then show ?thesis using assms(4,5) unfolding marshal_value_def marshal_map_def by (simp add: Let_def)
  qed
  have gv: "fd_type g \<noteq> FIELD_TYPE_MAP" "last c = CHR '':'' \<Longrightarrow> c \<noteq> [] \<Longrightarrow> writes c (marshal_value pg ?rec st g p 0 0 m) (value_text 0 0 v)" for c
    using field_writes(1) [OF assms(8), of 0] assms(9) by (simp_all add: writes_value_def)
  have g: "writes (c @ '','' @ key_text (JSON_KEY g)) (marshal_value pg ?rec st g p 0 0 m) (value_text 0 0 v)" for c
    using gv(2) [of "c @ '','' @ key_text (JSON_KEY g)"] last_key_text(1) [of "c @ '',''" "JSON_KEY g"] by (simp del: last_key_text)
  have comma: "writes c (only_if True [put '','']) '',''" for c by (simp add: only_if_def writes_one writes_put del: emit.simps)
  have skipped: "writes c (only_if False ws) []" for c ws by (simp add: only_if_def writes_Nil del: emit.simps)
  have last: "writes c (only_if True [newline 0]) []" for c by (simp add: only_if_def writes_one nl del: emit.simps)
  have second: "writes c (marshal_plain_fields pg ?rec st p 0 0 m False [g]) ('','' @ key_text (JSON_KEY g) @ value_text 0 0 v)" for c
    using writes_Cons [OF writes_put writes_Cons [OF g [simplified append.assoc] writes_Cons [OF last writes_one [OF none]]], of c] gv(1)
    by (simp add: Let_def del: emit.simps)
  have front: "writes c (emit [only_if False [blanks 0], put t]) t" for c t
    by (rule writes_eq, rule writes_Cons [OF skipped writes_one [OF writes_put]]) simp
  note first = writes_Cons [OF front writes_Cons [OF f writes_Cons [OF writes_Cons [OF comma writes_one [OF nl]] writes_one [OF second]]]]
  have "writes c (emit [emit [only_if False [blanks 0], put (key_text (JSON_KEY f))], marshal_value pg ?rec st f p 0 0 m,
      emit [only_if True [put '',''], newline 0], marshal_plain_fields pg ?rec st p 0 0 m False [g]])
      (key_text (JSON_KEY f) @ ''{}'' @ '','' @ '','' @ key_text (JSON_KEY g) @ value_text 0 0 v)" for c
    by (rule writes_eq [OF first]) simp
  moreover have "marshal_plain_fields pg ?rec st p 0 0 m True [f, g] = emit [emit [only_if False [blanks 0], put (key_text (JSON_KEY f))],
      marshal_value pg ?rec st f p 0 0 m, emit [only_if True [put '',''], newline 0], marshal_plain_fields pg ?rec st p 0 0 m False [g]]"
    using marshal_plain_fields.simps(2) [of pg ?rec st p 0 0 m True f "[g]"] assms(4) by (simp only: Let_def if_True simp_thms list.simps)
  ultimately have fields: "writes c (marshal_plain_fields pg ?rec st p 0 0 m True [f, g])
      (key_text (JSON_KEY f) @ ''{}'' @ '','' @ '','' @ key_text (JSON_KEY g) @ value_text 0 0 v)" for c by simp
  note w = writes_Cons [OF writes_open writes_Cons [OF writes_put writes_Cons [OF last writes_Cons [OF fields writes_Cons [OF skipped writes_Cons [OF bl writes_one [OF writes_put]]]]]]]
  have plain: "list_ex may_be_absent [f, g] = False" using assms(2,3) by simp
  have "writes (sstr_content out) (marshal_struct pg ?rec st [f, g] p 0 0 m) (''{'' @ key_text (JSON_KEY f) @ ''{},,'' @ key_text (JSON_KEY g) @ value_text 0 0 v @ ''}'')"
    unfolding marshal_struct_def Let_def by (simp only: plain simp_thms if_False add_0_right) (rule writes_eq [OF w], simp)
  then show ?thesis using assms(1,10) by (auto simp: writes_def)
qed

section \<open>Structs in memory\<close>

text \<open>A block with the given objects, zero elsewhere.\<close>

definition laid :: "(nat \<times> nat \<times> 'd cval) list \<Rightarrow> nat \<Rightarrow> 'd mbyte" where
  "laid os i = (case find (\<lambda>(k, n, v). k \<le> i \<and> i < k + n) os of Some (k, n, v) \<Rightarrow> Frag v n (i - k) | None \<Rightarrow> Zero)"

definition shop_store :: "unit store" where
  "shop_store = \<lparr>st_bytes = (\<lambda>b. laid (if b = 0 then [(0, 4, Value (J_int (-3))), (8, 8, Address (Some 1)), (16, 4, Value (J_int 2)),
       (24, 8, Value (J_str (Some ''hi''))), (32, 4, Value (J_int 7))]
     else [(0, 4, Value (J_int 1)), (4, 4, Value (J_int 20))])),
     st_room = (\<lambda>b. if b = 0 then Some 40 else if b = 1 then Some 8 else None), st_next = 2\<rparr>"

lemma shop_reads:
  "load_int_of C_int (0, 0) shop_store = Inr (-3)"
  "load_addr (0, 8) shop_store = Inr (Some 1)" "load_int (0, 16) shop_store = Inr 2"
  "load_str (0, 24) shop_store = Inr (Some ''hi'')" "load_int_of C_int (0, 32) shop_store = Inr 7" "load_int_of C_int (0, 36) shop_store = Inr 0"
  "load_int_of C_int (1, 0) shop_store = Inr 1" "load_int_of C_int (1, 4) shop_store = Inr 20"
  by code_simp+

definition shop_program :: "unit program" where
  "shop_program = \<lparr>pg_env = shop_env, pg_struct = map_of (map (\<lambda>s. (sc_name s, sc_fields s)) shop), pg_oneof = Map.empty, pg_float = (\<lambda>_ _. [])\<rparr>"

definition held_members :: "(string \<times> jval) list" where
  "held_members = [(''id'', JInt (-3)), (''xs'', JArray (map JInt [1, 20])), (''nm'', JString ''hi''), (''q'', JObject [(''a'', JInt 7), (''b'', JInt 0)])]"

definition shop_fields :: "struct_field list" where
  "shop_fields = [demo_field ''id'', xs_field, (demo_field ''nm'')\<lparr>fd_type := FIELD_TYPE_SSTR, fd_type_name := ''sstr_t''\<rparr>, ref_field ''q'' ''Q'']"

lemma shop_structs:
  "pg_struct shop_program ''P'' = Some shop_fields" "pg_struct shop_program ''Q'' = Some [demo_field ''a'', demo_field ''b'']"
  by (simp_all add: shop_program_def shop_def demo_struct_def shop_fields_def)

lemma shop_places:
  "obj_at shop_program (0, 0) ''P'' ''id'' = (0, 0)" "obj_at shop_program (0, 0) ''P'' ''xs'' = (0, 8)"
  "obj_at shop_program (0, 0) ''P'' ''xs_len'' = (0, 16)" "obj_at shop_program (0, 0) ''P'' ''nm'' = (0, 24)"
  "obj_at shop_program (0, 0) ''P'' ''q'' = (0, 32)" "obj_at shop_program (0, 32) ''Q'' ''a'' = (0, 32)"
  "obj_at shop_program (0, 32) ''Q'' ''b'' = (0, 36)"
  by (simp_all add: obj_at_def shop_program_def col_def shop_offsets shift_def)

lemma demo_int_field:
  assumes "load_int_of C_int (obj_at pg p st n) m = Inr i" and "c_int_min C_int \<le> i" and "i \<le> c_int_max C_int"
    and "json_escape n = n" and "members_are pg m st p fs ms"
  shows "members_are pg m st p (demo_field n # fs) ((n, JInt i) # ms)"
  using required [of "demo_field n" pg m st p "JInt i" fs ms] int [of "demo_field n" C_int pg p st m i] assms
  by (simp add: demo_field_def may_be_absent_def JSON_KEY_def)

lemma shop_members_are: "members_are shop_program shop_store ''P'' (0, 0) shop_fields held_members"
proof -
  have e: "json_escape ''id'' = ''id''" "json_escape ''xs'' = ''xs''" "json_escape ''nm'' = ''nm''" "json_escape ''q'' = ''q''"
    "json_escape ''a'' = ''a''" "json_escape ''b'' = ''b''" by code_simp+
  have "members_are shop_program shop_store ''Q'' (0, 32) [demo_field ''a'', demo_field ''b''] [(''a'', JInt 7), (''b'', JInt 0)]"
    by (intro demo_int_field no_fields) (simp_all add: shop_places shop_reads c_int_bounds e)
  then have "members_are shop_program shop_store ''P'' (0, 0) [ref_field ''q'' ''Q''] [(''q'', JObject [(''a'', JInt 7), (''b'', JInt 0)])]"
    using required [OF _ _ struct no_fields, of "ref_field ''q'' ''Q''" shop_program] shop_structs(2)
    by (simp add: ref_field_def demo_field_def may_be_absent_def JSON_KEY_def shop_places e)
  note q = this
  have "field_is shop_program shop_store ''P'' (0, 0) ((demo_field ''nm'')\<lparr>fd_type := FIELD_TYPE_SSTR, fd_type_name := ''sstr_t''\<rparr>) (JString ''hi'')"
    using string [of "(demo_field ''nm'')\<lparr>fd_type := FIELD_TYPE_SSTR, fd_type_name := ''sstr_t''\<rparr>" shop_program "(0, 0)" "''P''" shop_store "Some ''hi''"]
    by (simp add: demo_field_def shop_places shop_reads)
  note nm = required [OF _ _ this q]
  have "field_is shop_program shop_store ''P'' (0, 0) xs_field (JArray (map JInt [1, 20]))"
    by (rule ints [where T = C_int and a = "Some 1" and base = "(1, 0)"])
      (simp_all add: demo_field_def shop_places shop_reads array_base_def block_of_def c_int_bounds shift_def del: One_nat_def)
  note xs = required [OF _ _ this nm]
  show ?thesis unfolding shop_fields_def held_members_def
    by (rule demo_int_field) (use xs in \<open>simp_all add: shop_places shop_reads c_int_bounds e demo_field_def may_be_absent_def JSON_KEY_def\<close>)
qed

lemma json_marshal_text_witness:
  "\<exists>out'. json_marshal_indent 2 shop_program 2 shop_store ''P'' (0, 0) 4 sstr_new = Some (Inr out')
     \<and> sstr_content out' = value_text 2 4 (JObject held_members)"
  using json_marshal_text [OF shop_structs(1) shop_members_are, of 2 2 4 sstr_new] sstr_new_ok
  by (simp add: held_members_def del: json_marshal_indent.simps) blast

text \<open>A oneof with a variant that has no fields, and a struct with a map.\<close>

definition choice :: oneof_container where
  "choice = \<lparr>oc_name = ''U'', oc_tag_field = ''type'', oc_variants =
     [\<lparr>ov_name = ''q'', ov_struct_type_name = ''Q'', ov_index = 0, ov_is_deprecated = False\<rparr>,
      \<lparr>ov_name = ''none'', ov_struct_type_name = ''N'', ov_index = 1, ov_is_deprecated = False\<rparr>],
     oc_count = 2, oc_name_line = 1, oc_name_col = 0, oc_filename = []\<rparr>"

definition map_field :: struct_field where
  "map_field = (demo_field ''f'')\<lparr>fd_type := FIELD_TYPE_MAP, fd_type_name := ''map''\<rparr>"

definition choice_program :: "unit program" where
  "choice_program = \<lparr>pg_env = env_of shop [(''(int)'' @ offsetof ''U'' ''value'', 8), (offsetof ''Q'' ''b'', 4), (offsetof ''M'' ''g'', 16)],
     pg_struct = [''Q'' \<mapsto> [demo_field ''a'', demo_field ''b''], ''N'' \<mapsto> [], ''M'' \<mapsto> [map_field, demo_field ''g'']],
     pg_oneof = [''U'' \<mapsto> choice], pg_float = (\<lambda>_ _. [])\<rparr>"

definition choice_store :: "int \<Rightarrow> unit store" where
  "choice_store tag = \<lparr>st_bytes = (\<lambda>b. laid [(0, 4, Value (J_int tag)), (8, 4, Value (J_int 7)), (12, 4, Value (J_int (-8)))]),
     st_room = [0 \<mapsto> 16], st_next = 1\<rparr>"

lemma choice_const: "je_const (pg_env choice_program) e = (case map_of
    [(''(int)'' @ offsetof ''U'' ''value'', 8), (offsetof ''Q'' ''b'', 4), (offsetof ''M'' ''g'', 16)] e of Some v \<Rightarrow> v | None \<Rightarrow> 0)"
  by (simp add: choice_program_def env_of_def Let_def)

lemma choice_reads:
  "load_int (0, 0) (choice_store 0) = Inr 0" "load_int (0, 0) (choice_store 1) = Inr 1" 
  "load_int_of C_int (0, 8) (choice_store 0) = Inr 7" "load_int_of C_int (0, 12) (choice_store 0) = Inr (-8)"
  by code_simp+

lemma choice_places:
  "shift (0, 0) (col (pg_env choice_program) (''(int)'' @ offsetof ''U'' ''tag'')) = (0, 0)"
  "shift (0, 0) (col (pg_env choice_program) (''(int)'' @ offsetof ''U'' ''value'')) = (0, 8)"
  "obj_at choice_program (0, 8) ''Q'' ''a'' = (0, 8)" "obj_at choice_program (0, 8) ''Q'' ''b'' = (0, 12)"
  "obj_at choice_program (0, 0) ''M'' ''f'' = (0, 0)" "obj_at choice_program (0, 0) ''M'' ''g'' = (0, 16)"
  by (simp_all add: col_def choice_const obj_at_def shift_def offsetof_def)

lemma choice_is:
  "oneof_is choice_program (choice_store 0) choice (0, 0) (oc_variants choice ! 0) [(''a'', JInt 7), (''b'', JInt (-8))]"
  "oneof_is choice_program (choice_store 1) choice (0, 0) (oc_variants choice ! 1) []"
proof -
  have e: "json_escape ''a'' = ''a''" "json_escape ''b'' = ''b''" by code_simp+
  have "members_are choice_program (choice_store 0) ''Q'' (0, 8) [demo_field ''a'', demo_field ''b''] [(''a'', JInt 7), (''b'', JInt (-8))]"
    by (intro demo_int_field no_fields) (simp_all add: choice_places choice_reads c_int_bounds e)
  then show "oneof_is choice_program (choice_store 0) choice (0, 0) (oc_variants choice ! 0) [(''a'', JInt 7), (''b'', JInt (-8))]"
    using choice_places(1,2) by (simp add: oneof_is_def choice_def choice_reads choice_program_def)
  show "oneof_is choice_program (choice_store 1) choice (0, 0) (oc_variants choice ! 1) []"
    using choice_places(1,2) no_fields by (simp add: oneof_is_def choice_def choice_reads choice_program_def)
qed


lemma json_oneof_text_witness:
  "\<exists>out'. json_marshal_indent 2 choice_program 0 (choice_store 0) ''U'' (0, 0) 0 sstr_new = Some (Inr out')
     \<and> sstr_content out' = value_text 0 0 (JObject [(''type'', JString ''q''), (''a'', JInt 7), (''b'', JInt (-8))])"
proof -
  have e: "json_escape ''type'' = ''type''" "json_escape ''q'' = ''q''" by code_simp+
  have "pg_struct choice_program ''U'' = None" "pg_oneof choice_program ''U'' = Some choice" by (simp_all add: choice_program_def)
  note w = json_oneof_text [OF this choice_is(1), of 1 sstr_new]
  have "cstr (ov_name (oc_variants choice ! 0)) = ''q''" "oc_tag_field choice = ''type''" by (simp_all add: choice_def cstr_def)
  then show ?thesis using w sstr_new_ok e by (simp add: numeral_2_eq_2 del: json_marshal_indent.simps) blast
qed

lemma json_oneof_trailing_comma_witness:
  "\<exists>out'. json_marshal_indent 2 choice_program 2 (choice_store 1) ''U'' (0, 0) 0 sstr_new = Some (Inr out')
     \<and> filter (\<lambda>c. \<not> JSON_IS_SPACE c) (sstr_content out') = ''{'' @ key_text ''type'' @ [CHR 0x22] @ ''none'' @ [CHR 0x22] @ '',}''"
proof -
  have "pg_struct choice_program ''U'' = None" "pg_oneof choice_program ''U'' = Some choice" by (simp_all add: choice_program_def)
  note w = json_oneof_trailing_comma [OF this choice_is(2), of 1 2 sstr_new 0]
  have "cstr (ov_name (oc_variants choice ! 1)) = ''none''" "oc_tag_field choice = ''type''" by (simp_all add: choice_def cstr_def)
  then obtain out' where out: "json_marshal_indent 2 choice_program 2 (choice_store 1) ''U'' (0, 0) 0 sstr_new = Some (Inr out')"
      "sstr_content out' = ''{'' @ gap 2 2 @ key_text ''type'' @ [CHR 0x22] @ ''none'' @ [CHR 0x22, CHR '',''] @ gap 2 2 @ gap 2 0 @ ''}''"
    using w sstr_new_ok by (auto simp add: numeral_2_eq_2 simp del: json_marshal_indent.simps)
  have "filter (\<lambda>c. \<not> JSON_IS_SPACE c) (''{'' @ gap 2 2 @ key_text ''type'' @ [CHR 0x22] @ ''none'' @ [CHR 0x22, CHR '',''] @ gap 2 2 @ gap 2 0 @ ''}'')
      = ''{'' @ key_text ''type'' @ [CHR 0x22] @ ''none'' @ [CHR 0x22] @ '',}''" by code_simp
  then show ?thesis using out by metis
qed

lemma json_marshal_map_commas_witness:
  "\<exists>out'. json_marshal_indent 1 choice_program 0 (one_block 20) ''M'' (0, 0) 0 sstr_new = Some (Inr out')
     \<and> sstr_content out' = ''{'' @ key_text ''f'' @ ''{},,'' @ key_text ''g'' @ ''0}''"
proof -
  have st: "pg_struct choice_program ''M'' = Some [map_field, demo_field ''g'']" by (simp add: choice_program_def)
  have reads: "load_int (0, 8) (one_block 20) = Inr 0" "load_addr (0, 0) (one_block 20) = Inr None" "load_int_of C_int (0, 16) (one_block 20) = Inr 0"
    by code_simp+
  have "field_is choice_program (one_block 20) ''M'' (0, 0) (demo_field ''g'') (JInt 0)"
    by (rule int [where T = C_int]) (simp_all add: demo_field_def choice_places reads c_int_bounds)
  moreover have "show_int 0 = ''0''" by code_simp
  ultimately show ?thesis
    using json_marshal_map_commas [OF st, of "(0, 0)" "one_block 20" None "JInt 0" 0 sstr_new] sstr_new_ok choice_places(5) reads
    by (simp add: map_field_def demo_field_def may_be_absent_def JSON_KEY_def shift_def del: json_marshal_indent.simps)
qed

end
