(* ===== verification/JsonReadBack.thy ===== *)
theory JsonReadBack
  imports JsonRoundtrip
begin

text \<open>
  Reading undoes writing: the struct that is read from the text of a struct holds the same values, field by field. This needs
  the table of the reader to be the one that the generator makes of the declarations (\<open>generated\<close>), and structs to be laid out the
  way a compiler does it (\<open>well_placed\<close>). The values are those of \<open>members_are\<close>.
\<close>

section \<open>The table of a schema\<close>

text \<open>
  The environment has the table that \<open>gen_code_offset_map\<close> fills from the schema, which has room for all rows; no two fields
  of a struct have the same key, and the fields of the structs are those of the schema.
\<close>

definition generated :: "struct_container sstr_map \<Rightarrow> oneof_container sstr_map \<Rightarrow> 'd program \<Rightarrow> bool" where
  "generated sm om pg \<longleftrightarrow>
     (\<exists>tbl. gen_code_offset_map sm om = Some tbl \<and> je_items (pg_env pg) = gp_rows tbl \<and> je_hash (pg_env pg) = gp_hash_arr tbl)
     \<and> length (concat (buckets sm)) \<le> total_fields sm \<and> list_all row_named (table_rows sm om)
     \<and> distinct (map (\<lambda>r. (it_struct_name r, it_field_name r)) (table_rows sm om))
     \<and> (\<forall>st fs. pg_struct pg st = Some fs \<longrightarrow> (\<exists>e\<in>set (concat (buckets sm)). sc_name (snd e) = st \<and> sc_fields (snd e) = fs))"

lemma row_struct_name: "it_struct_name (field_row om st f i) = st" "it_struct_name (len_row st f) = st"
  by (simp_all add: field_row_def map_row_def struct_field_row_def oneof_row_def enum_row_def plain_row_def len_row_def Let_def split: prod.split option.split)

lemma row_field_name: "it_field_name (field_row om st f i) = JSON_KEY f" "it_field_name (len_row st f) = JSON_KEY f @ ''_len''"
  by (simp_all add: field_row_def map_row_def struct_field_row_def oneof_row_def enum_row_def plain_row_def len_row_def Let_def split: prod.split option.split)

lemma fields_rows_member:
  "i < length fs \<Longrightarrow> set (field_rows om st (fs ! i) (k + i)) \<subseteq> set (fields_rows om st fs k)"
proof (induction fs arbitrary: i k)
  case (Cons f fs)
  then show ?case using Cons.IH [of "i - 1" "Suc k"] by (cases i) auto
qed simp

lemma find_row:
  assumes "distinct (map (\<lambda>r. (it_struct_name r, it_field_name r)) its)" and "list_all row_named its" and "r \<in> set its"
  shows "List.find (item_matches (it_struct_name r) (it_field_name r)) its = Some r"
  using assms
proof (induction its)
  case (Cons x its)
  have "item_matches (it_struct_name r) (it_field_name r) x \<longleftrightarrow> (it_struct_name r, it_field_name r) = (it_struct_name x, it_field_name x)"
    using Cons.prems(2,3) by (auto simp: item_matches_def row_named_def cstr_no_nul list_all_iff)
  then show ?case using Cons by (auto simp: image_iff)
qed simp

lemma generated_rows:
  assumes "generated sm om pg" and "pg_struct pg st = Some fs" and "i < length fs"
  shows "key_row (pg_env pg) st (JSON_KEY (fs ! i)) = Some (Some (field_row om st (fs ! i) i))"
    and "is_dynamic_array (fs ! i) \<Longrightarrow> len_item (pg_env pg) st (field_row om st (fs ! i) i) = Some (len_row st (fs ! i))"
proof -
  let ?rows = "table_rows sm om"
  obtain tbl where tbl: "gen_code_offset_map sm om = Some tbl" "je_items (pg_env pg) = gp_rows tbl" "je_hash (pg_env pg) = gp_hash_arr tbl"
    using assms(1) by (auto simp: generated_def)
  have ok: "length (concat (buckets sm)) \<le> total_fields sm" "list_all row_named ?rows"
      "distinct (map (\<lambda>r. (it_struct_name r, it_field_name r)) ?rows)" using assms(1) unfolding generated_def by blast+
  obtain e where e: "e \<in> set (concat (buckets sm))" "sc_name (snd e) = st" "sc_fields (snd e) = fs"
    using assms(1,2) unfolding generated_def by blast
  have "set (field_rows om st (fs ! i) i) \<subseteq> set (struct_rows om (snd e))"
    using fields_rows_member [OF assms(3), of om st 0] e(2,3) by (auto simp: struct_rows_def)
  then have in_rows: "r \<in> set ?rows" if "r \<in> set (field_rows om st (fs ! i) i)" for r
    using that e(1) unfolding table_rows_def set_concat [of "map _ _"] set_map by (intro UN_I [of "struct_rows om (snd e)"]) (auto intro: rev_image_eqI simp del: set_concat)
  obtain p where p: "gen_code_offset_map sm om = Some p"
      "\<And>st key. json_field_offset_item_find (gp_rows p) (gp_hash_arr p) st key = Some (List.find (item_matches st key) ?rows)"
      "\<And>st key. no_nul key \<Longrightarrow> json_field_offset_item_find_ph (gp_rows p) (gp_hash_arr p) (hash_s (cstr st) 0xbc9f1d34) st key
           = Some (List.find (item_matches st key) ?rows)"
    using table_finds [OF ok(1,2)] by metis
  have "field_row om st (fs ! i) i \<in> set ?rows" by (rule in_rows) (simp add: field_rows_def)
  note f = this find_row [OF ok(3,2) this, unfolded row_struct_name row_field_name]
  have n: "no_nul (JSON_KEY (fs ! i))" using ok(2) f(1) by (auto simp: list_all_iff row_named_def row_field_name)
  show "key_row (pg_env pg) st (JSON_KEY (fs ! i)) = Some (Some (field_row om st (fs ! i) i))"
    using p(1,3) tbl n f(2) by (simp add: key_row_def)
  show "len_item (pg_env pg) st (field_row om st (fs ! i) i) = Some (len_row st (fs ! i))" if "is_dynamic_array (fs ! i)"
  proof -
    have "len_row st (fs ! i) \<in> set ?rows" by (rule in_rows) (simp add: field_rows_def that)
    from find_row [OF ok(3,2) this, unfolded row_struct_name row_field_name] show ?thesis
      using p(1,2) tbl n by (simp add: len_item_def find_item_def row_field_name cstr_no_nul)
  qed
qed

section \<open>The places of a schema\<close>

text \<open>The bytes that a field takes; an array in the struct only has its mark here, since it is not among the values.\<close>

definition decl_range :: "'d json_env \<Rightarrow> oneof_container sstr_map \<Rightarrow> string \<Rightarrow> struct_field \<Rightarrow> nat \<Rightarrow> range list" where
  "decl_range env om st f i =
     (if fd_is_array f \<and> fd_array_size f \<noteq> 0 then has_range env (field_row om st f i) else field_range env st (field_row om st f i))"

fun decl_ranges :: "'d json_env \<Rightarrow> oneof_container sstr_map \<Rightarrow> string \<Rightarrow> struct_field list \<Rightarrow> nat \<Rightarrow> range list" where
  "decl_ranges env om st [] i = []"
| "decl_ranges env om st (f # fs) i = decl_range env om st f i @ decl_ranges env om st fs (Suc i)"

text \<open>
  What a compiler guarantees: fields are apart and inside the struct, the offset of a mark is not negative, and an enum has
  as many names as its constant says, each a C string.
\<close>

definition enum_table :: "'d json_env \<Rightarrow> string \<Rightarrow> bool" where
  "enum_table env tn \<longleftrightarrow> col env (tn @ ''_enum_count'') \<le> length (je_strings env (tn @ ''_enum_strings''))
     \<and> list_all no_nul (je_strings env (tn @ ''_enum_strings''))"

definition well_placed :: "oneof_container sstr_map \<Rightarrow> 'd program \<Rightarrow> bool" where
  "well_placed om pg \<longleftrightarrow>
     (\<forall>st fs. pg_struct pg st = Some fs \<longrightarrow> sorted_wrt apart (decl_ranges (pg_env pg) om st fs 0)
        \<and> (\<forall>r\<in>set (decl_ranges (pg_env pg) om st fs 0). fst r + snd r \<le> size_of pg st)
        \<and> (\<forall>f\<in>set fs. may_be_absent f \<longrightarrow> 0 \<le> je_const (pg_env pg) (offsetof st (''has_'' @ fd_name f)))
        \<and> (\<forall>f\<in>set fs. fd_type f = FIELD_TYPE_ENUM \<longrightarrow> enum_table (pg_env pg) (fd_type_name f)))"

lemma decl_ranges_append: "decl_ranges env om st (fs @ gs) k = decl_ranges env om st fs k @ decl_ranges env om st gs (k + length fs)"
  by (induction fs arbitrary: k) auto

lemma decl_ranges_nth:
  "i < length fs \<Longrightarrow> decl_ranges env om st fs k = decl_ranges env om st (take i fs) k @ decl_range env om st (fs ! i) (k + i)
     @ decl_ranges env om st (drop (Suc i) fs) (k + Suc i)"
  using decl_ranges_append [of env om st "take i fs" "fs ! i # drop (Suc i) fs" k] id_take_nth_drop [of i fs] by simp

lemma decl_ranges_member: "i < length fs \<Longrightarrow> set (decl_range env om st (fs ! i) (k + i)) \<subseteq> set (decl_ranges env om st fs k)"
  by (auto simp: decl_ranges_nth [of i fs env om st k])

lemma apart_sym: "apart x y \<Longrightarrow> apart y x"
  by (auto simp: apart_def)

lemma decl_ranges_apart:
  assumes "sorted_wrt apart (decl_ranges env om st fs k)" and "i < length fs" and "j < length fs" and "i \<noteq> j"
    and "x \<in> set (decl_range env om st (fs ! i) (k + i))" and "y \<in> set (decl_range env om st (fs ! j) (k + j))"
  shows "apart x y"
proof -
  have less: "apart x y" if "i < j" "j < length fs" "x \<in> set (decl_range env om st (fs ! i) (k + i))"
      "y \<in> set (decl_range env om st (fs ! j) (k + j))" for i j x y
  proof -
    have "y \<in> set (decl_ranges env om st (drop (Suc i) fs) (k + Suc i))"
      using decl_ranges_member [of "j - Suc i" "drop (Suc i) fs" env om st "k + Suc i"] that(1,2,4) diff_less_mono [OF that(2), of "Suc i"] by auto
    then show ?thesis using assms(1) that(1-3) by (auto simp: decl_ranges_nth [of i fs env om st k] sorted_wrt_append)
  qed
  show ?thesis
  proof (cases "i < j")
    case True
    then show ?thesis using less assms(3,5,6) by blast
  next
    case False
    then have "j < i" using assms(4) by simp
    then show ?thesis using less [OF _ assms(2,6,5)] apart_sym by blast
  qed
qed

section \<open>The rows of the values\<close>

lemma row_columns:
  "it_has_field_offset (field_row om st f i) = has_offset st f"
  "fd_type f \<noteq> FIELD_TYPE_MAP \<Longrightarrow> it_field_type (field_row om st f i) = fd_type f"
  "fd_type f \<noteq> FIELD_TYPE_MAP \<Longrightarrow> it_is_array (field_row om st f i) = fd_is_array f"
  "fd_type f \<noteq> FIELD_TYPE_MAP \<Longrightarrow> it_array_size (field_row om st f i) = fd_array_size f"
  "it_offset (field_row om st f i) = offsetof st (fd_name f)"
  "fd_type f \<noteq> FIELD_TYPE_MAP \<Longrightarrow> it_field_type_name (field_row om st f i) = fd_type_name f"
  "fd_type f = FIELD_TYPE_STRUCT \<Longrightarrow> it_type_size (field_row om st f i) = ''sizeof(struct '' @ fd_type_name f @ '')''"
  "fd_type f = FIELD_TYPE_ENUM \<Longrightarrow> it_enum_strings (field_row om st f i) = fd_type_name f @ ''_enum_strings''"
  "fd_type f = FIELD_TYPE_ENUM \<Longrightarrow> it_enum_count (field_row om st f i) = fd_type_name f @ ''_enum_count''"
  by (simp_all add: field_row_def map_row_def struct_field_row_def oneof_row_def enum_row_def plain_row_def Let_def split: prod.split option.split)

lemma row_place: "shift p (fi_offset (pg_env pg) (field_row om st f i)) = obj_at pg p st (fd_name f)"
  "shift p (fi_offset (pg_env pg) (len_row st f)) = obj_at pg p st (fd_name f @ ''_len'')"
  by (simp_all add: fi_offset_def row_columns obj_at_def len_row_def)

text \<open>A name of an enum is found.\<close>

lemma find_string_Some: "e \<in> set es \<Longrightarrow> \<exists>i<length es. find_string e es k = Some (k + i) \<and> es ! i = e"
proof (induction es arbitrary: k)
  case (Cons x es)
  show ?case
  proof (cases "e = x")
    case True
    then show ?thesis by (intro exI [of _ 0]) simp
  next
    case False
    then have "e \<in> set es" using Cons.prems by simp
    then obtain i where "i < length es" "find_string e es (Suc k) = Some (Suc k + i)" "es ! i = e" using Cons.IH by blast
    then show ?thesis using False by (intro exI [of _ "Suc i"]) simp
  qed
qed simp

section \<open>Members have rows\<close>

lemma members_induct [consumes 1, case_names no_fields shown absent]:
  assumes "members_are pg m st p fs ms" and "Q [] []"
    and "\<And>f fs v ms. field_is pg m st p f v \<Longrightarrow> may_be_absent f \<longrightarrow> load_bool (obj_at pg p st (''has_'' @ fd_name f)) m = Inr True \<Longrightarrow>
      json_escape (JSON_KEY f) = JSON_KEY f \<Longrightarrow> members_are pg m st p fs ms \<Longrightarrow> Q fs ms \<Longrightarrow> Q (f # fs) ((JSON_KEY f, v) # ms)"
    and "\<And>f fs ms. fd_is_optional f \<Longrightarrow> load_bool (obj_at pg p st (''has_'' @ fd_name f)) m = Inr False \<Longrightarrow>
      members_are pg m st p fs ms \<Longrightarrow> Q fs ms \<Longrightarrow> Q (f # fs) ms"
  shows "Q fs ms"
proof -
  have "members_are pg m st p fs ms \<Longrightarrow> Q fs ms" for fs ms
  proof (induction fs arbitrary: ms)
    case Nil
    then show ?case using assms(2) by (auto elim: members_are.cases)
  next
    case (Cons f fs)
    from Cons.prems show ?case
    proof (cases rule: members_are.cases)
      case (present v ms')
      then show ?thesis using assms(3) [of f v fs ms'] Cons.IH by simp
    next
      case (required v ms')
      then show ?thesis using assms(3) [of f v fs ms'] Cons.IH by simp
    next
      case absent
      then show ?thesis using assms(4) [of f fs ms] Cons.IH by simp
    qed
  qed
  then show ?thesis using assms(1) by blast
qed

lemma member_field:
  "members_are pg m st p fs ms \<Longrightarrow> kv \<in> set ms \<Longrightarrow> \<exists>j<length fs. fst kv = JSON_KEY (fs ! j) \<and> field_is pg m st p (fs ! j) (snd kv)"
proof (induction rule: members_induct)
  case (shown f fs v ms)
  then show ?case by (cases "kv \<in> set ms") (auto intro: exI [of _ 0])
next
  case (absent f fs ms)
  then obtain j where "j < length fs" "fst kv = JSON_KEY (fs ! j)" "field_is pg m st p (fs ! j) (snd kv)" by blast
  then show ?case by (intro exI [of _ "Suc j"]) simp
qed simp

lemma field_not_map: "field_is pg m st p f v \<Longrightarrow> fd_type f \<noteq> FIELD_TYPE_MAP \<and> (fd_is_array f \<longrightarrow> fd_array_size f = 0)"
  by (cases rule: field_is.cases) auto

lemma field_decl_range: "field_is pg m st p f v \<Longrightarrow> decl_range env om st f i = field_range env st (field_row om st f i)"
  using field_not_map [of pg m st p f v] by (auto simp: decl_range_def)

text \<open>Keys of a struct differ.\<close>

lemma distinct_keys:
  assumes "distinct (map (\<lambda>r. (it_struct_name r, it_field_name r)) (fields_rows om st fs k))" and "i < length fs" and "j < length fs"
    and "JSON_KEY (fs ! i) = JSON_KEY (fs ! j)"
  shows "i = j"
  using assms
proof (induction fs arbitrary: i j k)
  case (Cons f fs)
  have other: False if "JSON_KEY f = JSON_KEY (fs ! n)" "n < length fs" for n
  proof -
    have "field_row om st (fs ! n) (Suc k + n) \<in> set (fields_rows om st fs (Suc k))"
      using fields_rows_member [OF that(2), of om st "Suc k"] by (auto simp: field_rows_def)
    moreover have "(it_struct_name (field_row om st f k), it_field_name (field_row om st f k))
        = (it_struct_name (field_row om st (fs ! n) (Suc k + n)), it_field_name (field_row om st (fs ! n) (Suc k + n)))"
      using that(1) by (simp add: row_struct_name row_field_name)
    ultimately show False using Cons.prems(1) by (force simp: field_rows_def)
  qed
  consider "i = 0" "j = 0" | j' where "i = 0" "j = Suc j'" | i' where "i = Suc i'" "j = 0" | i' j' where "i = Suc i'" "j = Suc j'"
    by (cases i; cases j) auto
  then show ?case
  proof cases
    case 1
    then show ?thesis by simp
  next
    case 2
    then show ?thesis using other [of j'] Cons.prems(3,4) by simp
  next
    case 3
    then show ?thesis using other [of i'] Cons.prems(2,4) by simp
  next
    case 4
    then show ?thesis using Cons.IH [of "Suc k" i' j'] Cons.prems by simp
  qed
qed simp

lemma generated_keys:
  assumes "generated sm om pg" and "pg_struct pg st = Some fs" and "i < length fs" and "j < length fs" and "JSON_KEY (fs ! i) = JSON_KEY (fs ! j)"
  shows "i = j"
proof -
  obtain e where e: "e \<in> set (concat (buckets sm))" "sc_name (snd e) = st" "sc_fields (snd e) = fs"
    using assms(1,2) unfolding generated_def by blast
  have "distinct (map (\<lambda>r. (it_struct_name r, it_field_name r)) (table_rows sm om))" using assms(1) by (simp add: generated_def)
  then have "distinct (concat (map (\<lambda>e. map (\<lambda>r. (it_struct_name r, it_field_name r)) (struct_rows om (snd e))) (concat (buckets sm))))"
    by (simp only: table_rows_def map_concat map_map o_def)
  then have "distinct (map (\<lambda>r. (it_struct_name r, it_field_name r)) (struct_rows om (snd e)))"
    using e(1) unfolding distinct_concat_iff by (simp del: set_concat)
  then show ?thesis using distinct_keys [OF _ assms(3-5), of om st 0] e(2,3) by (auto simp: struct_rows_def)
qed

text \<open>The bytes of the members are bytes of the declared fields, in the same order.\<close>

lemma member_ranges_declared:
  assumes "generated sm om pg"
  shows "members_are pg m st p fs ms \<Longrightarrow> pg_struct pg st = Some (pre @ fs) \<Longrightarrow>
    sorted_wrt apart (decl_ranges (pg_env pg) om st fs (length pre)) \<Longrightarrow>
    set (member_ranges (pg_env pg) st ms) \<subseteq> set (decl_ranges (pg_env pg) om st fs (length pre))
      \<and> sorted_wrt apart (member_ranges (pg_env pg) st ms)"
proof (induction arbitrary: pre rule: members_induct)
  case no_fields
  then show ?case by (simp add: member_ranges_def)
next
  case (shown f fs v ms)
  have "key_row (pg_env pg) st (JSON_KEY f) = Some (Some (field_row om st f (length pre)))"
    using generated_rows(1) [OF assms shown.prems(1), of "length pre"] by simp
  then show ?case using shown.IH [of "pre @ [f]"] shown.prems field_decl_range [OF shown.hyps(1), of "pg_env pg" om "length pre"]
    by (auto simp: member_ranges_Cons sorted_wrt_append)
next
  case (absent f fs ms)
  then show ?case using absent.IH [of "pre @ [f]"] by (auto simp: sorted_wrt_append)
qed

lemma enum_found:
  assumes "enum_table (pg_env pg) tn" and "0 \<le> i" and "i < je_const (pg_env pg) (tn @ ''_enum_count'')"
    and "e = cstr (je_strings (pg_env pg) (tn @ ''_enum_strings'') ! nat i)"
  shows "\<exists>k. find_string (cstr e) (take (col (pg_env pg) (tn @ ''_enum_count'')) (je_strings (pg_env pg) (tn @ ''_enum_strings''))) 0 = Some k
    \<and> int k < je_const (pg_env pg) (tn @ ''_enum_count'') \<and> cstr (je_strings (pg_env pg) (tn @ ''_enum_strings'') ! k) = e"
proof -
  let ?es = "je_strings (pg_env pg) (tn @ ''_enum_strings'')" and ?n = "col (pg_env pg) (tn @ ''_enum_count'')"
  have ok: "?n \<le> length ?es" "list_all no_nul ?es" using assms(1) by (simp_all add: enum_table_def)
  have i: "nat i < ?n" using assms(2,3) by (auto simp: col_def)
  then have e: "e = ?es ! nat i" "cstr e = e" using ok assms(4) cstr_no_nul [of "?es ! nat i"] by (simp_all add: list_all_length)
  have "e \<in> set (take ?n ?es)" using i ok(1) e(1) by (auto simp: in_set_conv_nth intro!: exI [of _ "nat i"])
  then obtain k where k: "k < length (take ?n ?es)" "find_string e (take ?n ?es) 0 = Some (0 + k)" "take ?n ?es ! k = e"
    using find_string_Some [of e "take ?n ?es" 0] by blast
  moreover have "int k < je_const (pg_env pg) (tn @ ''_enum_count'')" using k(1) by (auto simp: col_def)
  ultimately show ?thesis using e(2) by (intro exI [of _ k]) simp
qed

lemma int_type_not:
  "c_int_of t = Some T \<Longrightarrow> t \<noteq> FIELD_TYPE_MAP \<and> t \<noteq> FIELD_TYPE_STRUCT \<and> t \<noteq> FIELD_TYPE_ENUM \<and> t \<noteq> FIELD_TYPE_SSTR"
  by auto

lemma members_declared:
  assumes "generated sm om pg" and "well_placed om pg" and "members_are pg m st p fs ms" and "pg_struct pg st = Some fs"
    and "\<And>j v. j < length fs \<Longrightarrow> (JSON_KEY (fs ! j), v) \<in> set ms \<Longrightarrow> field_is pg m st p (fs ! j) v \<Longrightarrow> fits (pg_env pg) st (field_row om st (fs ! j) j) v"
  shows "members_fit (pg_env pg) st (size_of pg st) ms"
proof -
  have d: "sorted_wrt apart (decl_ranges (pg_env pg) om st fs 0)" "\<forall>r\<in>set (decl_ranges (pg_env pg) om st fs 0). fst r + snd r \<le> size_of pg st"
    using assms(2,4) by (auto simp: well_placed_def)
  have "case key_row (pg_env pg) st (fst kv) of None \<Rightarrow> False | Some None \<Rightarrow> True | Some (Some fi) \<Rightarrow> fits (pg_env pg) st fi (snd kv)"
    if kv: "kv \<in> set ms" for kv
  proof -
    obtain j where j: "j < length fs" "fst kv = JSON_KEY (fs ! j)" "field_is pg m st p (fs ! j) (snd kv)"
      using member_field [OF assms(3) kv] by blast
    then show ?thesis using assms(5) [OF j(1), of "snd kv"] kv generated_rows(1) [OF assms(1,4) j(1)] by (cases kv) simp
  qed
  then show ?thesis using member_ranges_declared [OF assms(1,3), of "[]"] assms(4) d by (auto simp: members_fit_def list_all_iff)
qed

lemma field_fits:
  assumes "generated sm om pg" and "well_placed om pg"
  shows "field_is pg m st p f v \<Longrightarrow> pg_struct pg st = Some fs \<Longrightarrow> i < length fs \<Longrightarrow> fs ! i = f \<Longrightarrow>
    fits (pg_env pg) st (field_row om st f i) v"
proof (induction v arbitrary: st p f fs i)
  case (JInt x)
  from JInt.prems(1) show ?case
    by (cases rule: field_is.cases) (auto simp: plain_field_def row_columns scalar_image_def elem_of_def enum_image_def dest: int_type_not)
next
  case (JString x)
  from JString.prems(1) show ?case
  proof (cases rule: field_is.cases)
    case (enum j)
    have "enum_table (pg_env pg) (fd_type_name f)" using JString.prems(2-4) enum(2) assms(2) by (force simp: well_placed_def)
    then show ?thesis using enum enum_found [OF _ enum(4,5,6)]
      by (auto simp: plain_field_def row_columns scalar_image_def elem_of_def enum_image_def fi_strings_def)
  qed (auto simp: plain_field_def row_columns scalar_image_def elem_of_def)
next
  case (JBool x)
  from JBool.prems(1) show ?case
    by (cases rule: field_is.cases) (auto simp: plain_field_def row_columns scalar_image_def elem_of_def)
next
  case (JArray vs)
  from JArray.prems(1) have f: "fd_type f \<noteq> FIELD_TYPE_MAP" "fd_is_array f" "fd_array_size f = 0" "is_dynamic_array f"
    by (cases rule: field_is.cases; auto simp: is_dynamic_array_def dest: int_type_not)+
  have len: "len_item (pg_env pg) st (field_row om st f i) = Some (len_row st f)"
    using generated_rows(2) [OF assms(1) JArray.prems(2,3)] JArray.prems(4) f(4) by simp
  from JArray.prems(1) show ?case
    by (cases rule: field_is.cases) (auto simp: scalar_array_def f row_columns len elem_of_def list_all_iff)
next
  case (JObject ms)
  from JObject.prems(1) show ?case
  proof (cases rule: field_is.cases)
    case (struct fs')
    have "fits (pg_env pg) (fd_type_name f) (field_row om (fd_type_name f) (fs' ! j) j) v"
      if "j < length fs'" "(JSON_KEY (fs' ! j), v) \<in> set ms" "field_is pg m (fd_type_name f) (obj_at pg p st (fd_name f)) (fs' ! j) v" for j v
      using JObject.IH [of "(JSON_KEY (fs' ! j), v)" v] that struct(3) by simp
    then have "members_fit (pg_env pg) (fd_type_name f) (size_of pg (fd_type_name f)) ms"
      by (rule members_declared [OF assms struct(4,3)])
    then show ?thesis using struct by (simp add: fits_object plain_field_def row_columns fi_size_def size_of_def)
  qed
qed

lemma members_fit_declared:
  assumes "generated sm om pg" and "well_placed om pg" and "members_are pg m st p fs ms" and "pg_struct pg st = Some fs"
  shows "members_fit (pg_env pg) st (size_of pg st) ms"
  by (rule members_declared [OF assms]) (rule field_fits [OF assms(1,2) _ assms(4)]; simp)

section \<open>The values are read back\<close>

text \<open>The mark of an optional field that is absent was not touched.\<close>

lemma absent_flag:
  assumes "generated sm om pg" and "well_placed om pg" and "members_are pg m st p fs ms" and "pg_struct pg st = Some fs"
    and "untouched (pg_env pg) m' q st (size_of pg st) ms" and "i < length fs" and "may_be_absent (fs ! i)" and "JSON_KEY (fs ! i) \<notin> fst ` set ms"
  shows "load_bool (obj_at pg q st (''has_'' @ fd_name (fs ! i))) m' = Inr False"
proof -
  let ?c = "col (pg_env pg) (offsetof st (''has_'' @ fd_name (fs ! i)))"
  have d: "sorted_wrt apart (decl_ranges (pg_env pg) om st fs 0)" "\<forall>r\<in>set (decl_ranges (pg_env pg) om st fs 0). fst r + snd r \<le> size_of pg st"
      "0 \<le> je_const (pg_env pg) (offsetof st (''has_'' @ fd_name (fs ! i)))"
    using assms(2,4,6,7) by (auto simp: well_placed_def)
  have "has_range (pg_env pg) (field_row om st (fs ! i) i) = [(?c, 1)]"
    using d(3) assms(7) by (simp add: has_range_def row_columns has_offset_def may_be_absent_def col_def)
  then have c: "(?c, 1) \<in> set (decl_range (pg_env pg) om st (fs ! i) (0 + i))" by (simp add: decl_range_def field_range_def)
  have size: "?c < size_of pg st" using decl_ranges_member [OF assms(6), of "pg_env pg" om st 0] c d(2) by fastforce
  have "?c \<notin> bytes_of 0 (member_ranges (pg_env pg) st ms)"
  proof
    assume "?c \<in> bytes_of 0 (member_ranges (pg_env pg) st ms)"
    then obtain r where r: "r \<in> set (member_ranges (pg_env pg) st ms)" "fst r \<le> ?c" "?c < fst r + snd r" by (auto simp: bytes_of_def)
    then obtain kv fi where kv: "kv \<in> set ms" "key_row (pg_env pg) st (fst kv) = Some (Some fi)" "r \<in> set (field_range (pg_env pg) st fi)"
      by (auto simp: member_ranges_def split: option.splits) force
    obtain j where j: "j < length fs" "fst kv = JSON_KEY (fs ! j)" "field_is pg m st p (fs ! j) (snd kv)"
      using member_field [OF assms(3) kv(1)] by blast
    have "fi = field_row om st (fs ! j) j" using generated_rows(1) [OF assms(1,4) j(1)] kv(2) j(2) by simp
    then have "r \<in> set (decl_range (pg_env pg) om st (fs ! j) (0 + j))" using kv(3) field_decl_range [OF j(3), of "pg_env pg" om j] by simp
    moreover have "i \<noteq> j" using j(2) kv(1) assms(8) by (metis imageI)
    ultimately have "apart (?c, 1) r" using decl_ranges_apart [OF d(1) assms(6) j(1) _ c] by blast
    then show False using r(2,3) by (auto simp: apart_def)
  qed
  then have "zeroed m' (shift q ?c) 1" "accessible m' (shift q ?c) 1"
    using assms(5) size by (auto simp: untouched_def zeroed_def accessible_def split: option.splits)
  then show ?thesis by (simp add: load_bool_def obj_at_def load_zeroed)
qed

lemma marked_flag:
  assumes "well_placed om pg" and "pg_struct pg st = Some fs" and "f \<in> set fs" and "may_be_absent f" and "marked (pg_env pg) m q (field_row om st f i)"
  shows "load_bool (obj_at pg q st (''has_'' @ fd_name f)) m = Inr True"
proof -
  have "0 \<le> je_const (pg_env pg) (offsetof st (''has_'' @ fd_name f))" using assms(1-4) by (auto simp: well_placed_def)
  then have "object_at m (obj_at pg q st (''has_'' @ fd_name f)) 1 (Value (J_int 1))"
    using assms(4,5) by (simp add: marked_def row_columns has_offset_def may_be_absent_def obj_at_def col_def)
  then show ?thesis using load_object_simps(6) by fastforce
qed

lemma members_again:
  assumes "members_are pg m st p fs ms"
    and "\<And>j v. j < length fs \<Longrightarrow> (JSON_KEY (fs ! j), v) \<in> set ms \<Longrightarrow> field_is pg m st p (fs ! j) v \<Longrightarrow> field_is pg m' st q (fs ! j) v
      \<and> (may_be_absent (fs ! j) \<longrightarrow> load_bool (obj_at pg q st (''has_'' @ fd_name (fs ! j))) m' = Inr True)"
    and "\<And>j. j < length fs \<Longrightarrow> may_be_absent (fs ! j) \<Longrightarrow> JSON_KEY (fs ! j) \<notin> fst ` set ms \<Longrightarrow>
      load_bool (obj_at pg q st (''has_'' @ fd_name (fs ! j))) m' = Inr False"
    and "distinct (map JSON_KEY fs)"
  shows "members_are pg m' st q fs ms"
  using assms
proof (induction rule: members_induct)
  case no_fields
  show ?case by (rule field_is_members_are.no_fields)
next
  case (shown f fs v ms)
  have keys: "JSON_KEY (fs ! j) \<noteq> JSON_KEY f" if "j < length fs" for j using shown.prems(3) that nth_mem [OF that] by (metis distinct.simps(2) imageI list.set_map list.simps(9))
  have rest: "members_are pg m' st q fs ms"
  proof (rule shown.IH)
    show "field_is pg m' st q (fs ! j) v' \<and> (may_be_absent (fs ! j) \<longrightarrow> load_bool (obj_at pg q st (''has_'' @ fd_name (fs ! j))) m' = Inr True)"
      if "j < length fs" "(JSON_KEY (fs ! j), v') \<in> set ms" "field_is pg m st p (fs ! j) v'" for j v'
      using shown.prems(1) [of "Suc j" v'] that by simp
    show "load_bool (obj_at pg q st (''has_'' @ fd_name (fs ! j))) m' = Inr False"
      if "j < length fs" "may_be_absent (fs ! j)" "JSON_KEY (fs ! j) \<notin> fst ` set ms" for j
      using shown.prems(2) [of "Suc j"] that keys [of j] by simp
  qed (use shown.prems(3) in simp)
  have "field_is pg m' st q f v" "may_be_absent f \<longrightarrow> load_bool (obj_at pg q st (''has_'' @ fd_name f)) m' = Inr True"
    using shown.prems(1) [of 0 v] shown.hyps(1) by simp_all
  then show ?case using present [OF _ _ shown.hyps(3) _ rest] required [OF _ shown.hyps(3) _ rest] by blast
next
  case (absent f fs ms)
  have no_key: "JSON_KEY f \<notin> fst ` set ms"
  proof
    assume "JSON_KEY f \<in> fst ` set ms"
    then obtain kv where "kv \<in> set ms" "fst kv = JSON_KEY f" by force
    moreover from this obtain j where "j < length fs" "fst kv = JSON_KEY (fs ! j)" using member_field [OF absent.hyps(3)] by blast
    ultimately show False using absent.prems(3) by (metis distinct.simps(2) imageI list.set_map list.simps(9) nth_mem)
  qed
  have "members_are pg m' st q fs ms"
  proof (rule absent.IH)
    show "field_is pg m' st q (fs ! j) v' \<and> (may_be_absent (fs ! j) \<longrightarrow> load_bool (obj_at pg q st (''has_'' @ fd_name (fs ! j))) m' = Inr True)"
      if "j < length fs" "(JSON_KEY (fs ! j), v') \<in> set ms" "field_is pg m st p (fs ! j) v'" for j v'
      using absent.prems(1) [of "Suc j" v'] that by simp
    show "load_bool (obj_at pg q st (''has_'' @ fd_name (fs ! j))) m' = Inr False"
      if "j < length fs" "may_be_absent (fs ! j)" "JSON_KEY (fs ! j) \<notin> fst ` set ms" for j
      using absent.prems(2) [of "Suc j"] that by simp
  qed (use absent.prems(3) in simp)
  moreover have "load_bool (obj_at pg q st (''has_'' @ fd_name f)) m' = Inr False"
    using absent.prems(2) [of 0] no_key absent.hyps(1) by (simp add: may_be_absent_def)
  ultimately show ?case using field_is_members_are.absent [OF absent.hyps(1)] by blast
qed

text \<open>A dynamic array in memory.\<close>

lemma load_list_objects:
  assumes "\<forall>i<length vs. object_at m (b, o0 + i * sz) sz (Value (img (vs ! i)))"
    and "\<And>q v. v \<in> set vs \<Longrightarrow> object_at m q sz (Value (img v)) \<Longrightarrow> rd q = Inr (back v)"
  shows "load_list rd (b, o0) sz (length vs) = Inr (map back vs)"
  using assms
proof (induction vs arbitrary: o0)
  case (Cons v vs)
  have "rd (b, o0) = Inr (back v)" using Cons.prems(1) [rule_format, of 0] Cons.prems(2) by simp
  moreover have "\<forall>i<length vs. object_at m (b, (o0 + sz) + i * sz) sz (Value (img (vs ! i)))"
  proof (intro allI impI)
    show "object_at m (b, (o0 + sz) + i * sz) sz (Value (img (vs ! i)))" if "i < length vs" for i
      using Cons.prems(1) [rule_format, of "Suc i"] that by (simp add: add.assoc)
  qed
  ultimately show ?case using Cons.IH [of "o0 + sz"] Cons.prems(2) by (simp add: shift_def)
qed simp

lemma array_back:
  assumes "array_at m q E vs" and "\<And>r v. v \<in> set vs \<Longrightarrow> object_at m r (elem_size E) (Value (the (elem_image E v))) \<Longrightarrow> rd r = Inr (back v)"
  shows "\<exists>a base. load_addr q m = Inr a \<and> array_base a (length vs) = Inr base \<and> load_list rd base (elem_size E) (length vs) = Inr (map back vs)"
proof (cases "vs = []")
  case True
  then have "load_addr q m = Inr None" using assms(1) by (simp add: array_at_def load_addr_def load_zeroed)
  then show ?thesis using True by (simp add: array_base_def)
next
  case False
  then obtain b where b: "object_at m q 8 (Address (Some b))"
      "\<forall>i<length vs. object_at m (b, i * elem_size E) (elem_size E) (Value (the (elem_image E (vs ! i))))"
    using assms(1) by (auto simp: array_at_def)
  have "load_list rd (b, 0) (elem_size E) (length vs) = Inr (map back vs)"
    by (rule load_list_objects [where img = "\<lambda>v. the (elem_image E v)"]) (use b(2) assms(2) in simp_all)
  then show ?thesis using load_object_simps(4) [OF b(1)] False by (simp add: array_base_def block_of_def)
qed

lemma struct_again:
  assumes "generated sm om pg" and "well_placed om pg" and "members_are pg m st p fs ms" and "pg_struct pg st = Some fs"
    and "members_held (pg_env pg) m' q st ms" and "untouched (pg_env pg) m' q st (size_of pg st) ms"
    and "\<And>j v. j < length fs \<Longrightarrow> (JSON_KEY (fs ! j), v) \<in> set ms \<Longrightarrow> field_is pg m st p (fs ! j) v \<Longrightarrow>
      value_at (pg_env pg) m' q st (field_row om st (fs ! j) j) v \<Longrightarrow> field_is pg m' st q (fs ! j) v"
  shows "members_are pg m' st q fs ms"
proof (rule members_again [OF assms(3)])
  fix j v assume j: "j < length fs" "(JSON_KEY (fs ! j), v) \<in> set ms" "field_is pg m st p (fs ! j) v"
  then have h: "holds (pg_env pg) m' q st (field_row om st (fs ! j) j) v"
    using assms(5) generated_rows(1) [OF assms(1,4) j(1)] by (auto simp: members_held_iff)
  then show "field_is pg m' st q (fs ! j) v \<and> (may_be_absent (fs ! j) \<longrightarrow> load_bool (obj_at pg q st (''has_'' @ fd_name (fs ! j))) m' = Inr True)"
    using assms(7) [OF j] marked_flag [OF assms(2,4) nth_mem [OF j(1)]] unfolding holds_iff by blast
next
  show "load_bool (obj_at pg q st (''has_'' @ fd_name (fs ! j))) m' = Inr False"
    if "j < length fs" "may_be_absent (fs ! j)" "JSON_KEY (fs ! j) \<notin> fst ` set ms" for j
    using absent_flag [OF assms(1-4,6) that] .
  show "distinct (map JSON_KEY fs)" using generated_keys [OF assms(1,4)] by (force simp: distinct_conv_nth)
qed

lemma field_back:
  assumes "generated sm om pg" and "well_placed om pg"
  shows "field_is pg m st p f v \<Longrightarrow> pg_struct pg st = Some fs \<Longrightarrow> i < length fs \<Longrightarrow> fs ! i = f \<Longrightarrow>
    value_at (pg_env pg) m' q st (field_row om st f i) v \<Longrightarrow> field_is pg m' st q f v"
proof (induction v arbitrary: st p q f fs i)
  case (JInt x)
  from JInt.prems(1) show ?case
  proof (cases rule: field_is.cases)
    case (int T)
    then have "load_int_of T (obj_at pg q st (fd_name f)) m' = Inr x"
      using JInt.prems(5) load_object_simps(1) [of m' "obj_at pg q st (fd_name f)" T x] int_type_not [OF int(2)]
      by (simp add: value_at_def row_place row_columns scalar_size_def scalar_image_def elem_of_def)
    then show ?thesis using field_is_members_are.int int by blast
  next
    case enum_number
    then have "load_int (obj_at pg q st (fd_name f)) m' = Inr x"
      using JInt.prems(5) load_object_simps(2) [of m' "obj_at pg q st (fd_name f)" x]
      by (simp add: value_at_def row_place row_columns scalar_size_def scalar_image_def elem_of_def enum_image_def)
    then show ?thesis using field_is_members_are.enum_number enum_number by blast
  qed
next
  case (JString x)
  from JString.prems(1) show ?case
  proof (cases rule: field_is.cases)
    case (string s)
    then have "load_str (obj_at pg q st (fd_name f)) m' = Inr (Some x)"
      using JString.prems(5) load_object_simps(3) [of m' "obj_at pg q st (fd_name f)" "Some x"]
      by (simp add: value_at_def row_place row_columns scalar_size_def scalar_image_def elem_of_def)
    then show ?thesis using field_is_members_are.string [OF string(2,3), of pg q st m' "Some x"] by simp
  next
    case (enum j)
    have "enum_table (pg_env pg) (fd_type_name f)" using JString.prems(2-4) enum(2) assms(2) by (force simp: well_placed_def)
    then obtain k where k: "find_string (cstr x) (take (col (pg_env pg) (fd_type_name f @ ''_enum_count'')) (je_strings (pg_env pg) (fd_type_name f @ ''_enum_strings''))) 0 = Some k"
        "int k < je_const (pg_env pg) (fd_type_name f @ ''_enum_count'')" "cstr (je_strings (pg_env pg) (fd_type_name f @ ''_enum_strings'') ! k) = x"
      using enum_found [OF _ enum(4,5,6)] by blast
    then have "load_int (obj_at pg q st (fd_name f)) m' = Inr (int k)"
      using JString.prems(5) load_object_simps(2) [of m' "obj_at pg q st (fd_name f)" "int k"] enum
      by (simp add: value_at_def row_place row_columns scalar_size_def scalar_image_def elem_of_def enum_image_def fi_strings_def)
    then show ?thesis using field_is_members_are.enum [OF enum(1,2), of pg q st m' "int k" x] k enum(7) by simp
  qed
next
  case (JBool x)
  from JBool.prems(1) show ?case
  proof (cases rule: field_is.cases)
    case (bool j)
    then have "load_int (obj_at pg q st (fd_name f)) m' = Inr (if x then 1 else 0)"
      using JBool.prems(5) load_object_simps(2) [of m' "obj_at pg q st (fd_name f)" "if x then 1 else 0"]
      by (simp add: value_at_def row_place row_columns scalar_size_def scalar_image_def elem_of_def)
    from field_is_members_are.bool [OF bool(2,3) this] show ?thesis by (simp split: if_splits)
  qed
next
  case (JArray vs)
  from JArray.prems(1) have f: "fd_type f \<noteq> FIELD_TYPE_MAP" "fd_is_array f" "fd_array_size f = 0" "is_dynamic_array f"
    by (cases rule: field_is.cases; auto simp: is_dynamic_array_def dest: int_type_not)+
  have "len_item (pg_env pg) st (field_row om st f i) = Some (len_row st f)"
    using generated_rows(2) [OF assms(1) JArray.prems(2,3)] JArray.prems(4) f(4) by simp
  then have v: "array_at m' (obj_at pg q st (fd_name f)) (the (elem_of (pg_env pg) (fd_type f))) vs"
      "load_int (obj_at pg q st (fd_name f @ ''_len'')) m' = Inr (int (length vs))"
    using JArray.prems(5) f by (simp_all add: value_at_def row_place row_columns load_object_simps(2))
  from JArray.prems(1) show ?case
  proof (cases rule: field_is.cases)
    case (ints T xs a base)
    have "load_int_of T r m' = Inr (case v of JInt x \<Rightarrow> x | _ \<Rightarrow> 0)"
      if "v \<in> set vs" "object_at m' r (elem_size (E_int T)) (Value (the (elem_image (E_int T) v)))" for r v
      using that ints(1,9) by (auto simp: list_all_iff load_object_simps(1))
    then obtain a' base' where "load_addr (obj_at pg q st (fd_name f)) m' = Inr a'" "array_base a' (length vs) = Inr base'"
        "load_list (\<lambda>p. load_int_of T p m') base' (c_int_bits T div 8) (length vs) = Inr (map (\<lambda>v. case v of JInt x \<Rightarrow> x | _ \<Rightarrow> 0) vs)"
      using array_back [of m' "obj_at pg q st (fd_name f)" "E_int T :: 'a elem_type" vs "\<lambda>p. load_int_of T p m'" "\<lambda>v. case v of JInt x \<Rightarrow> x | _ \<Rightarrow> 0"] v(1) ints(4)
      by (auto simp: elem_of_def)
    then show ?thesis using field_is_members_are.ints [OF ints(2-4), of pg q st m' xs a' base'] v(2) ints by (simp add: comp_def)
  next
    case (strings ss a base)
    have "load_str r m' = Inr (case v of JString x \<Rightarrow> Some x | _ \<Rightarrow> None)"
      if "v \<in> set vs" "object_at m' r (elem_size E_sstr) (Value (the (elem_image E_sstr v)))" for r v
      using that strings(1) by (auto simp: load_object_simps(3))
    then obtain a' base' where "load_addr (obj_at pg q st (fd_name f)) m' = Inr a'" "array_base a' (length vs) = Inr base'"
        "load_list (\<lambda>p. load_str p m') base' 8 (length vs) = Inr (map (\<lambda>v. case v of JString x \<Rightarrow> Some x | _ \<Rightarrow> None) vs)"
      using array_back [of m' "obj_at pg q st (fd_name f)" "E_sstr :: 'a elem_type" vs "\<lambda>p. load_str p m'" "\<lambda>v. case v of JString x \<Rightarrow> Some x | _ \<Rightarrow> None"] v(1) strings(4)
      by (auto simp: elem_of_def)
    then show ?thesis using field_is_members_are.strings [OF strings(2-4), of pg q st m' ss a' base'] v(2) strings by (simp add: comp_def)
  qed
next
  case (JObject ms)
  from JObject.prems(1) show ?case
  proof (cases rule: field_is.cases)
    case (struct fs')
    let ?tn = "fd_type_name f" and ?q = "obj_at pg q st (fd_name f)"
    have h: "members_held (pg_env pg) m' ?q ?tn ms" "untouched (pg_env pg) m' ?q ?tn (size_of pg ?tn) ms"
      using JObject.prems(5) struct(2) by (simp_all add: value_object row_place row_columns fi_size_def size_of_def)
    have "field_is pg m' ?tn ?q (fs' ! j) v"
      if "j < length fs'" "(JSON_KEY (fs' ! j), v) \<in> set ms" "field_is pg m ?tn (obj_at pg p st (fd_name f)) (fs' ! j) v"
        "value_at (pg_env pg) m' ?q ?tn (field_row om ?tn (fs' ! j) j) v" for j v
      using JObject.IH [of "(JSON_KEY (fs' ! j), v)" v] that struct(3) by simp
    from struct_again [OF assms struct(4,3) h this] show ?thesis
      using field_is_members_are.struct [OF struct(1-3)] by blast
  qed
qed

lemma struct_back:
  assumes "generated sm om pg" and "well_placed om pg" and "members_are pg m st p fs ms" and "pg_struct pg st = Some fs"
    and "members_held (pg_env pg) m' q st ms" and "untouched (pg_env pg) m' q st (size_of pg st) ms"
  shows "members_are pg m' st q fs ms"
  by (rule struct_again [OF assms]) (rule field_back [OF assms(1,2) _ assms(4)]; simp)

section \<open>The round trip\<close>

text \<open>
  C4. A struct of integers, booleans, strings, enums, inner structs, dynamic arrays of integers or strings, and optional fields
  that may be absent survives the round trip: the text that is written of it, with any indentation, is read by the entry point into a
  zeroed struct of the same type with return code 0, and every field of the fresh struct then has the same value, absent fields
  being absent again; a null string comes back as the empty one. The table of the reader is the one the generator fills from the declarations, whose keys
  differ and, like the names of enums, need no escaping; structs nest at most 257 deep. Structs with maps, floats, oneofs, arrays of structs or null nullable fields are not covered.
\<close>
theorem json_roundtrip:
  assumes "generated sm om pg" and "well_placed om pg" and "pg_struct pg st = Some fs" and "members_are pg m st p fs ms"
    and "nest (JObject ms) \<le> k" and "int (nest (JObject ms)) \<le> JSON_MAX_DEPTH + 1" and "length (jval_lexemes (JObject ms)) \<le> n"
    and "accessible mem obj (size_of pg st)" and "zeroed mem obj (size_of pg st)" and "fst obj < st_next mem"
  shows "\<exists>out mem'. json_marshal_indent k pg indent m st p 0 sstr_new = Some (Inr out)
     \<and> json_unmarshal n (pg_env pg) st (sstr_content out) obj mem = Some (Inr (0, mem')) \<and> members_are pg mem' st obj fs ms"
proof -
  let ?lay = "lay_value indent 0 (JObject ms)"
  obtain out where "json_marshal_indent k pg indent m st p 0 sstr_new = Some (Inr out)" "sstr_content out = json_render ?lay"
    using writesD [OF marshal_writes [OF assms(3-5), of indent 0 "[]"] sstr_new_ok] by (auto simp: value_text_def)
  moreover have "length ?lay \<le> n" using assms(7) lay_lexemes [of indent 0 "JObject ms"] by (metis length_map)
  then obtain mem' where mem': "json_unmarshal n (pg_env pg) st (json_render ?lay @ []) obj mem = Some (Inr (0, mem'))"
      "members_held (pg_env pg) mem' obj st ms" "changed mem mem' (fst obj) (bytes_of (snd obj) (member_ranges (pg_env pg) st ms))"
    using object_read [OF lay_lexemes lay_spaced members_fit_declared [OF assms(1,2,4,3)] assms(6,8-10), of indent 0 n "[]"] by blast
  then have "members_are pg mem' st obj fs ms"
    using struct_back [OF assms(1,2,4,3) mem'(2) untouched_start [OF assms(8-10)]] by blast
  ultimately show ?thesis using mem'(1) by auto
qed

text \<open>A struct with an enum, and two optional fields, of which one is absent.\<close>

definition cart_fields :: "struct_field list" where
  "cart_fields = shop_fields @ [(demo_field ''c'')\<lparr>fd_type := FIELD_TYPE_ENUM, fd_type_name := ''Col''\<rparr>,
     (demo_field ''o'')\<lparr>fd_is_optional := True\<rparr>, (demo_field ''z'')\<lparr>fd_is_optional := True\<rparr>]"

definition cart :: "struct_container list" where
  "cart = [demo_struct ''P'' cart_fields, demo_struct ''Q'' [demo_field ''a'', demo_field ''b'']]"

definition cart_layout :: "(string \<times> int) list" where
  "cart_layout = [(offsetof ''P'' ''id'', 0), (offsetof ''P'' ''xs'', 8), (offsetof ''P'' ''xs_len'', 16),
     (offsetof ''P'' ''nm'', 24), (offsetof ''P'' ''q'', 32), (offsetof ''Q'' ''a'', 0), (offsetof ''Q'' ''b'', 4), (offsetof ''P'' ''c'', 40),
     (offsetof ''P'' ''o'', 44), (offsetof ''P'' ''has_o'', 48), (offsetof ''P'' ''z'', 52), (offsetof ''P'' ''has_z'', 56),
     (''sizeof(struct Q)'', 8), (''sizeof(struct P)'', 64), (''-1'', -1), (''Col_enum_count'', 2)]"

definition cart_program :: "unit program" where
  "cart_program = \<lparr>pg_env = (env_of cart cart_layout)\<lparr>je_strings := (\<lambda>_. [''RED'', ''BLUE''])\<rparr>,
     pg_struct = map_of (map (\<lambda>s. (sc_name s, sc_fields s)) cart), pg_oneof = Map.empty, pg_float = (\<lambda>_ _. [])\<rparr>"

definition cart_store :: "unit store" where
  "cart_store = \<lparr>st_bytes = (\<lambda>b. laid (if b = 0 then [(0, 4, Value (J_int (-3))), (8, 8, Address (Some 1)), (16, 4, Value (J_int 2)),
       (24, 8, Value (J_str (Some ''hi''))), (32, 4, Value (J_int 7)), (40, 4, Value (J_int 1)), (44, 4, Value (J_int 9)), (48, 1, Value (J_int 1))]
     else [(0, 4, Value (J_int 1)), (4, 4, Value (J_int 20))])),
     st_room = (\<lambda>b. if b = 0 then Some 64 else if b = 1 then Some 8 else None), st_next = 2\<rparr>"

definition cart_members :: "(string \<times> jval) list" where
  "cart_members = [(''id'', JInt (-3)), (''xs'', JArray (map JInt [1, 20])), (''nm'', JString ''hi''), (''q'', JObject [(''a'', JInt 7), (''b'', JInt 0)]),
     (''c'', JString ''BLUE''), (''o'', JInt 9)]"

lemmas cart_defs = cart_def cart_fields_def shop_fields_def demo_defs ref_field_def struct_field_row_def len_row_def enum_row_def

lemma cart_structs:
  "pg_struct cart_program st = (if st = ''P'' then Some cart_fields else if st = ''Q'' then Some [demo_field ''a'', demo_field ''b''] else None)"
  by (simp add: cart_program_def cart_def demo_struct_def)

lemma cart_const: "je_const (pg_env cart_program) e = (case map_of cart_layout e of Some v \<Rightarrow> v | None \<Rightarrow> 0)"
  by (simp add: cart_program_def env_of_def Let_def)

lemma cart_consts:
  "col (pg_env cart_program) (offsetof ''P'' ''id'') = 0" "col (pg_env cart_program) (offsetof ''P'' ''xs'') = 8"
  "col (pg_env cart_program) (offsetof ''P'' ''xs_len'') = 16" "col (pg_env cart_program) (offsetof ''P'' ''nm'') = 24"
  "col (pg_env cart_program) (offsetof ''P'' ''q'') = 32" "col (pg_env cart_program) (offsetof ''Q'' ''a'') = 0"
  "col (pg_env cart_program) (offsetof ''Q'' ''b'') = 4" "col (pg_env cart_program) (offsetof ''P'' ''c'') = 40"
  "col (pg_env cart_program) (offsetof ''P'' ''o'') = 44" "je_const (pg_env cart_program) (offsetof ''P'' ''has_o'') = 48"
  "col (pg_env cart_program) (offsetof ''P'' ''z'') = 52" "je_const (pg_env cart_program) (offsetof ''P'' ''has_z'') = 56"
  "je_const (pg_env cart_program) ''-1'' = -1" "je_const (pg_env cart_program) ''Col_enum_count'' = 2"
  "col (pg_env cart_program) ''sizeof(struct Q)'' = 8" "col (pg_env cart_program) ''sizeof(struct P)'' = 64"
  by (simp_all add: col_def cart_const cart_layout_def offsetof_def)

lemma cart_generated: "generated (demo_map cart) (sstr_map_new 1) cart_program"
proof -
  have room: "length (concat (buckets (demo_map cart))) \<le> total_fields (demo_map cart)" by (simp add: cart_defs)
  have named: "list_all row_named (table_rows (demo_map cart) (sstr_map_new 1))" by (simp add: cart_defs)
  obtain t where "gen_code_offset_map (demo_map cart) (sstr_map_new 1) = Some t" using table_finds(1) [OF room named] by metis
  moreover have "distinct (map (\<lambda>r. (it_struct_name r, it_field_name r)) (table_rows (demo_map cart) (sstr_map_new 1)))"
    by (simp add: cart_defs)
  ultimately show ?thesis unfolding generated_def using room named
    by (auto simp: cart_program_def env_of_def Let_def cart_def demo_map_def demo_struct_def split: if_splits)
qed

lemma cart_ranges:
  "decl_ranges (pg_env cart_program) (sstr_map_new 1) ''P'' cart_fields 0
     = [(0, 4), (8, 8), (16, 4), (24, 8), (32, 8), (40, 4), (44, 4), (48, 1), (52, 4), (56, 1)]"
  "decl_ranges (pg_env cart_program) (sstr_map_new 1) ''Q'' [demo_field ''a'', demo_field ''b''] 0 = [(0, 4), (4, 4)]"
proof -
  have len: "len_item (pg_env cart_program) ''P'' (field_row (sstr_map_new 1) ''P'' xs_field 1) = Some (len_row ''P'' xs_field)"
    using generated_rows(2) [OF cart_generated, of "''P''" cart_fields 1]
    by (simp add: cart_structs cart_fields_def shop_fields_def is_dynamic_array_def demo_field_def)
  have place: "it_offset (len_row ''P'' xs_field) = offsetof ''P'' ''xs_len''" by (simp add: len_row_def demo_field_def)
  note decl = decl_range_def field_range_def value_range_def has_range_def fi_offset_def fi_size_def row_columns has_offset_def
    scalar_size_def elem_of_def cart_consts
  show "decl_ranges (pg_env cart_program) (sstr_map_new 1) ''Q'' [demo_field ''a'', demo_field ''b''] 0 = [(0, 4), (4, 4)]"
    by (simp add: decl demo_field_def)
  show "decl_ranges (pg_env cart_program) (sstr_map_new 1) ''P'' cart_fields 0
     = [(0, 4), (8, 8), (16, 4), (24, 8), (32, 8), (40, 4), (44, 4), (48, 1), (52, 4), (56, 1)]"
    using len place by (simp add: cart_fields_def shop_fields_def decl demo_field_def ref_field_def)
qed

lemma cart_placed: "well_placed (sstr_map_new 1) cart_program"
proof -
  have sizes: "size_of cart_program ''P'' = 64" "size_of cart_program ''Q'' = 8" by (simp_all add: size_of_def cart_consts)
  have names: "enum_table (pg_env cart_program) ''Col''" using cart_consts(14)
    by (simp add: enum_table_def col_def) (simp add: cart_program_def no_nul_def)
  have "sorted_wrt apart (decl_ranges (pg_env cart_program) (sstr_map_new 1) st fs 0)
      \<and> (\<forall>r\<in>set (decl_ranges (pg_env cart_program) (sstr_map_new 1) st fs 0). fst r + snd r \<le> size_of cart_program st)
      \<and> (\<forall>f\<in>set fs. may_be_absent f \<longrightarrow> 0 \<le> je_const (pg_env cart_program) (offsetof st (''has_'' @ fd_name f)))
      \<and> (\<forall>f\<in>set fs. fd_type f = FIELD_TYPE_ENUM \<longrightarrow> enum_table (pg_env cart_program) (fd_type_name f))"
    if st: "pg_struct cart_program st = Some fs" for st fs
  proof -
    consider (P) "st = ''P''" "fs = cart_fields" | (Q) "st = ''Q''" "fs = [demo_field ''a'', demo_field ''b'']"
      using st by (auto simp: cart_structs split: if_splits)
    then show ?thesis
    proof cases
      case P
      show ?thesis unfolding P cart_ranges sizes using names cart_consts(10,12)
        by (simp add: apart_def cart_fields_def shop_fields_def demo_field_def ref_field_def may_be_absent_def)
    next
      case Q
      show ?thesis unfolding Q cart_ranges sizes by (simp add: apart_def demo_field_def may_be_absent_def)
    qed
  qed
  then show ?thesis by (simp only: well_placed_def) blast
qed

lemma cart_reads:
  "load_int_of C_int (0, 0) cart_store = Inr (-3)"
  "load_addr (0, 8) cart_store = Inr (Some 1)" "load_int (0, 16) cart_store = Inr 2"
  "load_str (0, 24) cart_store = Inr (Some ''hi'')" "load_int_of C_int (0, 32) cart_store = Inr 7" "load_int_of C_int (0, 36) cart_store = Inr 0"
  "load_int_of C_int (1, 0) cart_store = Inr 1" "load_int_of C_int (1, 4) cart_store = Inr 20"
  "load_int (0, 40) cart_store = Inr 1" "load_int_of C_int (0, 44) cart_store = Inr 9"
  "load_bool (0, 48) cart_store = Inr True" "load_bool (0, 56) cart_store = Inr False"
  by code_simp+

lemma cart_places:
  "obj_at cart_program (0, 0) ''P'' ''id'' = (0, 0)" "obj_at cart_program (0, 0) ''P'' ''xs'' = (0, 8)"
  "obj_at cart_program (0, 0) ''P'' ''xs_len'' = (0, 16)" "obj_at cart_program (0, 0) ''P'' ''nm'' = (0, 24)"
  "obj_at cart_program (0, 0) ''P'' ''q'' = (0, 32)" "obj_at cart_program (0, 32) ''Q'' ''a'' = (0, 32)"
  "obj_at cart_program (0, 32) ''Q'' ''b'' = (0, 36)" "obj_at cart_program (0, 0) ''P'' ''c'' = (0, 40)"
  "obj_at cart_program (0, 0) ''P'' ''o'' = (0, 44)" "obj_at cart_program (0, 0) ''P'' ''has_o'' = (0, 48)"
  "obj_at cart_program (0, 0) ''P'' ''has_z'' = (0, 56)"
  using cart_consts by (simp_all add: obj_at_def shift_def col_def)

lemma cart_members_are: "members_are cart_program cart_store ''P'' (0, 0) cart_fields cart_members"
proof -
  let ?M = "members_are cart_program cart_store ''P'' (0, 0)"
  have e: "json_escape ''id'' = ''id''" "json_escape ''xs'' = ''xs''" "json_escape ''nm'' = ''nm''" "json_escape ''q'' = ''q''"
    "json_escape ''a'' = ''a''" "json_escape ''b'' = ''b''" "json_escape ''c'' = ''c''" "json_escape ''o'' = ''o''" "json_escape ''BLUE'' = ''BLUE''"
    by code_simp+
  note at = cart_places cart_reads c_int_bounds e demo_field_def may_be_absent_def JSON_KEY_def ref_field_def
  let ?o = "(demo_field ''o'')\<lparr>fd_is_optional := True\<rparr>" and ?z = "(demo_field ''z'')\<lparr>fd_is_optional := True\<rparr>"
  have z: "?M [?z] []" by (rule absent [OF _ _ no_fields]) (simp_all add: at)
  have "field_is cart_program cart_store ''P'' (0, 0) ?o (JInt 9)"
    by (rule int [where T = C_int]) (simp_all add: at)
  from present [OF _ _ _ this z] have o: "?M [?o, ?z] [(''o'', JInt 9)]" by (simp add: at)
  have "cstr ''BLUE'' = ''BLUE''" by (simp add: cstr_def)
  then have "field_is cart_program cart_store ''P'' (0, 0) ((demo_field ''c'')\<lparr>fd_type := FIELD_TYPE_ENUM, fd_type_name := ''Col''\<rparr>) (JString ''BLUE'')"
    using cart_consts(14) by (intro enum [where i = 1]) (simp_all add: at, simp add: cart_program_def)
  note c = required [OF _ _ this o]
  have "members_are cart_program cart_store ''Q'' (0, 32) [demo_field ''a'', demo_field ''b''] [(''a'', JInt 7), (''b'', JInt 0)]"
    by (intro demo_int_field no_fields) (simp_all add: cart_places cart_reads c_int_bounds e)
  then have "field_is cart_program cart_store ''P'' (0, 0) (ref_field ''q'' ''Q'') (JObject [(''a'', JInt 7), (''b'', JInt 0)])"
    by (intro struct [of _ _ "[demo_field ''a'', demo_field ''b'']"]) (simp_all add: cart_structs cart_places ref_field_def demo_field_def)
  note q = required [OF _ _ this c]
  have "field_is cart_program cart_store ''P'' (0, 0) ((demo_field ''nm'')\<lparr>fd_type := FIELD_TYPE_SSTR, fd_type_name := ''sstr_t''\<rparr>) (JString ''hi'')"
    using string [of "(demo_field ''nm'')\<lparr>fd_type := FIELD_TYPE_SSTR, fd_type_name := ''sstr_t''\<rparr>" cart_program "(0, 0)" "''P''" cart_store "Some ''hi''"]
    by (simp add: at)
  note nm = required [OF _ _ this q]
  have "field_is cart_program cart_store ''P'' (0, 0) xs_field (JArray (map JInt [1, 20]))"
    by (rule ints [where T = C_int and a = "Some 1" and base = "(1, 0)"])
      (simp_all add: at array_base_def block_of_def shift_def del: One_nat_def)
  note xs = required [OF _ _ this nm]
  show ?thesis unfolding cart_fields_def shop_fields_def cart_members_def append.simps
    by (rule demo_int_field) (use xs in \<open>simp_all add: at\<close>)
qed

lemma json_roundtrip_witness:
  "\<exists>out mem'. json_marshal_indent 2 cart_program 2 cart_store ''P'' (0, 0) 0 sstr_new = Some (Inr out)
     \<and> json_unmarshal 60 (pg_env cart_program) ''P'' (sstr_content out) (0, 0) (one_block 64) = Some (Inr (0, mem'))
     \<and> members_are cart_program mem' ''P'' (0, 0) cart_fields cart_members"
proof -
  have size: "size_of cart_program ''P'' = 64" by (simp add: size_of_def cart_consts)
  have st: "pg_struct cart_program ''P'' = Some cart_fields" by (simp add: cart_structs)
  have mem: "accessible (one_block 64) (0, 0) (size_of cart_program ''P'')" "zeroed (one_block 64) (0, 0) (size_of cart_program ''P'')"
      "fst (0 :: nat, 0 :: nat) < st_next (one_block 64)"
    by (simp_all add: size one_block_def accessible_def zeroed_def)
  have "nest (JObject cart_members) \<le> 2" "int (nest (JObject cart_members)) \<le> JSON_MAX_DEPTH + 1"
      "length (jval_lexemes (JObject cart_members)) \<le> 60"
    by (simp_all add: cart_members_def JSON_MAX_DEPTH_def member_lexemes_def)
  from json_roundtrip [OF cart_generated cart_placed st cart_members_are this mem] show ?thesis .
qed

end
