(* ===== verification/BinaryGen.thy ===== *)
theory BinaryGen
  imports JsonMarshal Cbor
begin

text \<open>
  The functions that \<open>src/gencode/gencode_msgpack.c\<close> and \<open>src/gencode/gencode_cbor.c\<close> emit for the structs and
  oneofs of a schema: \<open>msgpack_pack_T\<close>, \<open>msgpack_unpack_T\<close> and so on. The two generators are the same text but for
  the names of the runtime's functions and the tags an enum looks at, so a definition here has these as an argument
  (\<open>codec_ops\<close>). A definition is the emitted code with the declaration it is emitted for as an argument; it works on
  the memory of JsonStore. A name that is emitted into a C literal is taken as it is.
\<close>

section \<open>The runtime\<close>

text \<open>
  \<open>co_null\<close> is the byte of nil; \<open>co_is_number\<close> tells which first bytes an enum reads as a number.
\<close>

record codec_ops =
  co_nil :: "sstr \<Rightarrow> fault + sstr"
  co_bool :: "sstr \<Rightarrow> bool \<Rightarrow> fault + sstr"
  co_uint :: "sstr \<Rightarrow> u64 \<Rightarrow> fault + sstr"
  co_int :: "sstr \<Rightarrow> u64 \<Rightarrow> fault + sstr"
  co_float :: "sstr \<Rightarrow> u32 \<Rightarrow> fault + sstr"
  co_double :: "sstr \<Rightarrow> u64 \<Rightarrow> fault + sstr"
  co_str :: "sstr \<Rightarrow> bytes \<Rightarrow> u32 \<Rightarrow> fault + sstr"
  co_array_header :: "sstr \<Rightarrow> u32 \<Rightarrow> fault + sstr"
  co_map_header :: "sstr \<Rightarrow> u32 \<Rightarrow> fault + sstr"
  co_null :: u8
  co_is_number :: "u8 \<Rightarrow> bool"
  co_peek :: "reader \<Rightarrow> int"
  un_nil :: "unit decoder"
  un_bool :: "bool decoder"
  un_int64 :: "u64 decoder"
  un_uint64 :: "u64 decoder"
  un_str :: "bytes decoder"
  un_array_header :: "u32 decoder"
  un_map_header :: "u32 decoder"
  un_number_int :: "float_conv \<Rightarrow> reader \<Rightarrow> fault + u64 option \<times> reader"
  un_number_uint :: "float_conv \<Rightarrow> reader \<Rightarrow> fault + u64 option \<times> reader"
  un_number_double :: "float_conv \<Rightarrow> u64 decoder"
  un_skip :: "nat \<Rightarrow> reader \<Rightarrow> (bool \<times> reader) option"

definition mp_ops :: codec_ops where
  "mp_ops = \<lparr>co_nil = mp_pack_nil, co_bool = mp_pack_bool, co_uint = mp_pack_uint, co_int = mp_pack_int,
     co_float = mp_pack_float, co_double = mp_pack_double, co_str = mp_pack_str,
     co_array_header = mp_pack_array_header, co_map_header = mp_pack_map_header, co_null = MP_NIL,
     co_is_number = (\<lambda>b. b \<le> MP_FIXINT_MAX \<or> b \<ge> MP_NEG_FIXINT \<or> b \<ge> MP_UINT8 \<and> b \<le> MP_INT64),
     co_peek = mp_peek, un_nil = mp_unpack_nil, un_bool = mp_unpack_bool, un_int64 = mp_unpack_int64,
     un_uint64 = mp_unpack_uint64, un_str = mp_unpack_str, un_array_header = mp_unpack_array_header,
     un_map_header = mp_unpack_map_header, un_number_int = mp_unpack_number_as_int64,
     un_number_uint = mp_unpack_number_as_uint64, un_number_double = mp_unpack_number_as_double, un_skip = mp_unpack_skip\<rparr>"

definition cb_ops :: codec_ops where
  "cb_ops = \<lparr>co_nil = cb_pack_nil, co_bool = cb_pack_bool, co_uint = cb_pack_uint, co_int = cb_pack_int,
     co_float = cb_pack_float, co_double = cb_pack_double, co_str = cb_pack_str,
     co_array_header = cb_pack_array_header, co_map_header = cb_pack_map_header, co_null = CB_NULL,
     co_is_number = (\<lambda>b. drop_bit 5 b = CB_MAJOR_UINT \<or> drop_bit 5 b = CB_MAJOR_NINT),
     co_peek = cb_peek, un_nil = cb_unpack_nil, un_bool = cb_unpack_bool, un_int64 = cb_unpack_int64,
     un_uint64 = cb_unpack_uint64, un_str = cb_unpack_str, un_array_header = cb_unpack_array_header,
     un_map_header = cb_unpack_map_header, un_number_int = (\<lambda>fc r. Inr (cb_unpack_number_as_int64 fc r)),
     un_number_uint = (\<lambda>fc r. Inr (cb_unpack_number_as_uint64 fc r)), un_number_double = cb_unpack_number_as_double,
     un_skip = cb_unpack_skip\<rparr>"

text \<open>The target's floating point: the bits of a number, and the numbers of a double, a float and a C literal.\<close>

record 'd floats =
  fb_conv :: float_conv
  fb_float :: "'d \<Rightarrow> u32"
  fb_double :: "'d \<Rightarrow> u64"
  fb_to_float :: "u64 \<Rightarrow> 'd"
  fb_to_double :: "u64 \<Rightarrow> 'd"
  fb_literal :: "string \<Rightarrow> 'd"

section \<open>Packing\<close>

definition enum_strings :: "'d program \<Rightarrow> string \<Rightarrow> string list" where
  "enum_strings pg tn = je_strings (pg_env pg) (tn @ ''_enum_strings'')"

text \<open>\<open>mp_pack_sstr\<close> with the pointer of a field: \<open>sstr_cstr(NULL)\<close> is an access through null.\<close>

definition pack_sstr :: "codec_ops \<Rightarrow> ptr \<Rightarrow> 'd store \<Rightarrow> writer" where
  "pack_sstr co p m = reading (load_str p m) (\<lambda>s out. Some (case s of
     None \<Rightarrow> Inl Null_deref
   | Some t \<Rightarrow> co_str co out (map byte_of_char t) (word_of_nat (length t))))"

text \<open>\<open>mp_pack_str(out, s, strlen(s))\<close>.\<close>

definition pack_cstr :: "codec_ops \<Rightarrow> string \<Rightarrow> writer" where
  "pack_cstr co s out = Some (co_str co out (map byte_of_char (cstr s)) (word_of_nat (length (cstr s))))"

type_synonym packer = "string \<Rightarrow> ptr \<Rightarrow> writer"

definition pack_enum :: "codec_ops \<Rightarrow> 'd program \<Rightarrow> string \<Rightarrow> ptr \<Rightarrow> 'd store \<Rightarrow> writer" where
  "pack_enum co pg tn p m = reading (load_int p m) (\<lambda>i.
     if 0 \<le> i \<and> i < int (length (enum_strings pg tn)) then pack_cstr co (enum_strings pg tn ! nat i)
     else (\<lambda>out. Some (co_int co out (word_of_int i))))"

definition gen_pack_scalar :: "codec_ops \<Rightarrow> 'd floats \<Rightarrow> 'd program \<Rightarrow> packer \<Rightarrow> field_type \<Rightarrow> string \<Rightarrow> ptr \<Rightarrow> 'd store \<Rightarrow> writer" where
  "gen_pack_scalar co fb pg rec ft tn p m =
     (if ft = FIELD_TYPE_BOOL then reading (load_int p m) (\<lambda>i out. Some (co_bool co out (i \<noteq> 0)))
      else case c_int_of ft of
        Some T \<Rightarrow> reading (load_int_of T p m) (\<lambda>i out. Some ((if c_int_signed T then co_int co else co_uint co) out (word_of_int i)))
      | None \<Rightarrow> (case ft of
          FIELD_TYPE_FLOAT \<Rightarrow> reading (load_float 4 (je_zero (pg_env pg)) p m) (\<lambda>d out. Some (co_float co out (fb_float fb d)))
        | FIELD_TYPE_DOUBLE \<Rightarrow> reading (load_float 8 (je_zero (pg_env pg)) p m) (\<lambda>d out. Some (co_double co out (fb_double fb d)))
        | FIELD_TYPE_SSTR \<Rightarrow> pack_sstr co p m
        | FIELD_TYPE_ENUM \<Rightarrow> pack_enum co pg tn p m
        | FIELD_TYPE_STRUCT \<Rightarrow> rec tn p
        | FIELD_TYPE_ONEOF \<Rightarrow> rec tn p
        | _ \<Rightarrow> emit []))"

definition map_value_name :: "struct_field \<Rightarrow> string" where
  "map_value_name f = (case fd_map_value_type_name f of Some n \<Rightarrow> n | None \<Rightarrow> [])"

definition gen_pack_map_value :: "codec_ops \<Rightarrow> 'd floats \<Rightarrow> 'd program \<Rightarrow> packer \<Rightarrow> struct_field \<Rightarrow> ptr \<Rightarrow> 'd store \<Rightarrow> writer" where
  "gen_pack_map_value co fb pg rec f p m =
     (if fd_map_value_type f = FIELD_TYPE_ONEOF then emit []
      else gen_pack_scalar co fb pg rec (fd_map_value_type f) (map_value_name f) p m)"

text \<open>The distance of the elements of an array.\<close>

definition scalar_bytes :: "'d program \<Rightarrow> struct_field \<Rightarrow> nat" where
  "scalar_bytes pg f = (case c_int_of (fd_type f) of
     Some T \<Rightarrow> c_int_bits T div 8
   | None \<Rightarrow> (case fd_type f of
       FIELD_TYPE_FLOAT \<Rightarrow> 4 | FIELD_TYPE_DOUBLE \<Rightarrow> 8 | FIELD_TYPE_SSTR \<Rightarrow> 8 | FIELD_TYPE_ENUM \<Rightarrow> 4
     | FIELD_TYPE_MAP \<Rightarrow> col (pg_env pg) (''sizeof(struct map_container_'' @ map_suffix f @ '')'')
     | _ \<Rightarrow> size_of pg (fd_type_name f)))"

definition entry_size :: "'d program \<Rightarrow> struct_field \<Rightarrow> nat" where
  "entry_size pg f = col (pg_env pg) (''sizeof(struct map_entry_'' @ map_suffix f @ '')'')"

definition entry_value :: "'d program \<Rightarrow> struct_field \<Rightarrow> ptr \<Rightarrow> ptr" where
  "entry_value pg f p = shift p (col (pg_env pg) (''offsetof(struct map_entry_'' @ map_suffix f @ '', value)''))"

fun pack_items :: "(nat \<Rightarrow> writer) \<Rightarrow> nat list \<Rightarrow> writer" where
  "pack_items w [] = emit []"
| "pack_items w (i # is) = emit [w i, pack_items w is]"

definition gen_pack_map :: "codec_ops \<Rightarrow> 'd floats \<Rightarrow> 'd program \<Rightarrow> packer \<Rightarrow> struct_field \<Rightarrow> ptr \<Rightarrow> 'd store \<Rightarrow> writer" where
  "gen_pack_map co fb pg rec f p m =
     reading (load_int (shift p 8) m) (\<lambda>len.
     reading (load_addr p m) (\<lambda>entries.
     reading (array_base entries (nat len)) (\<lambda>base.
       emit [\<lambda>out. Some (co_map_header co out (word_of_int len)),
         pack_items (\<lambda>k. let entry = shift base (k * entry_size pg f)
           in emit [pack_sstr co entry m, gen_pack_map_value co fb pg rec f (entry_value pg f entry) m]) [0..<nat len]])))"

definition gen_pack_array :: "codec_ops \<Rightarrow> 'd floats \<Rightarrow> 'd program \<Rightarrow> packer \<Rightarrow> struct_field \<Rightarrow> ptr \<Rightarrow> int \<Rightarrow> 'd store \<Rightarrow> writer" where
  "gen_pack_array co fb pg rec f base len m =
     emit [\<lambda>out. Some (co_array_header co out (word_of_int len)),
       pack_items (\<lambda>i. gen_pack_scalar co fb pg rec (fd_type f) (fd_type_name f) (shift base (i * scalar_bytes pg f)) m) [0..<nat len]]"

text \<open>The value of a field; a map that is an array is packed element by element like a scalar.\<close>

definition gen_pack_value :: "codec_ops \<Rightarrow> 'd floats \<Rightarrow> 'd program \<Rightarrow> packer \<Rightarrow> string \<Rightarrow> struct_field \<Rightarrow> ptr \<Rightarrow> 'd store \<Rightarrow> writer" where
  "gen_pack_value co fb pg rec st f p m =
     (let q = obj_at pg p st (fd_name f)
      in if fd_type f = FIELD_TYPE_MAP \<and> \<not> fd_is_array f then gen_pack_map co fb pg rec f q m
         else if fd_is_array f then
           (if 0 < fd_array_size f then gen_pack_array co fb pg rec f q (fd_array_size f) m
            else reading (load_int (obj_at pg p st (fd_name f @ ''_len'')) m) (\<lambda>len.
                 reading (load_addr q m) (\<lambda>a.
                 reading (array_base a (nat len)) (\<lambda>base. gen_pack_array co fb pg rec f base len m))))
         else gen_pack_scalar co fb pg rec (fd_type f) (fd_type_name f) q m)"

definition has_flag :: "'d program \<Rightarrow> string \<Rightarrow> struct_field \<Rightarrow> ptr \<Rightarrow> 'd store \<Rightarrow> fault + bool" where
  "has_flag pg st f p m = load_bool (obj_at pg p st (''has_'' @ fd_name f)) m"

text \<open>\<open>_nfields\<close>: the fields without the optional ones that are absent.\<close>

fun pack_count :: "'d program \<Rightarrow> string \<Rightarrow> ptr \<Rightarrow> 'd store \<Rightarrow> struct_field list \<Rightarrow> fault + nat" where
  "pack_count pg st p m [] = Inr 0"
| "pack_count pg st p m (f # fs) =
     bindE (if fd_is_optional f then has_flag pg st f p m else Inr True) (\<lambda>h.
     bindE (pack_count pg st p m fs) (\<lambda>n. Inr (if h then Suc n else n)))"

fun pack_fields :: "codec_ops \<Rightarrow> 'd floats \<Rightarrow> 'd program \<Rightarrow> packer \<Rightarrow> string \<Rightarrow> ptr \<Rightarrow> 'd store \<Rightarrow> struct_field list \<Rightarrow> writer" where
  "pack_fields co fb pg rec st p m [] = emit []"
| "pack_fields co fb pg rec st p m (f # fs) =
     (let has = has_flag pg st f p m; val = gen_pack_value co fb pg rec st f p m
      in reading (if fd_is_optional f then has else Inr True) (\<lambda>present.
           if present then
             emit [pack_cstr co (JSON_KEY f),
               (if fd_is_nullable f then reading has (\<lambda>h. if h then val else (\<lambda>out. Some (co_nil co out))) else val),
               pack_fields co fb pg rec st p m fs]
           else pack_fields co fb pg rec st p m fs))"

definition gen_pack_struct :: "codec_ops \<Rightarrow> 'd floats \<Rightarrow> 'd program \<Rightarrow> packer \<Rightarrow> string \<Rightarrow> struct_field list \<Rightarrow> ptr \<Rightarrow> 'd store \<Rightarrow> writer" where
  "gen_pack_struct co fb pg rec st fs p m =
     emit [reading (pack_count pg st p m fs) (\<lambda>n out. Some (co_map_header co out (word_of_nat n))), pack_fields co fb pg rec st p m fs]"

text \<open>
  A oneof is the map of its variant with the tag in front: the variant is packed into a string of its own, and what
  follows the header there is appended.
\<close>

definition gen_oneof_pack :: "codec_ops \<Rightarrow> 'd program \<Rightarrow> packer \<Rightarrow> oneof_container \<Rightarrow> ptr \<Rightarrow> 'd store \<Rightarrow> writer" where
  "gen_oneof_pack co pg rec oc p m =
     (let tag_p = shift p (col (pg_env pg) (''(int)'' @ offsetof (oc_name oc) ''tag''));
          value_p = shift p (col (pg_env pg) (''(int)'' @ offsetof (oc_name oc) ''value''))
      in reading (load_int tag_p m) (\<lambda>tag out.
           bindD (case find (\<lambda>v. int (ov_index v) = tag) (oc_variants oc) of
                    None \<Rightarrow> Some (Inr sstr_new)
                  | Some v \<Rightarrow> rec (ov_struct_type_name v) value_p sstr_new) (\<lambda>tmp.
           let data = sstr_bytes tmp;
               (vc, cr) = (if data \<noteq> [] then un_map_header co \<lparr>rd_data = data, rd_pos = 0\<rparr> else (Some 0, \<lparr>rd_data = data, rd_pos = 0\<rparr>))
           in emit [\<lambda>out. Some (co_map_header co out (1 + (case vc of Some c \<Rightarrow> c | None \<Rightarrow> 0))),
                pack_cstr co (oc_tag_field oc),
                (if 0 \<le> tag \<and> tag < int (oc_count oc) then pack_cstr co (ov_name (oc_variants oc ! nat tag))
                 else (\<lambda>out. Some (co_int co out (word_of_int tag)))),
                (\<lambda>out. Some (if rd_pos cr < length data then sstr_append_bytes out (drop (rd_pos cr) data) else Inr out))] out)))"

text \<open>\<open>msgpack_pack_T\<close>; \<open>n\<close> bounds how deep structs nest.\<close>

fun gen_pack :: "codec_ops \<Rightarrow> 'd floats \<Rightarrow> nat \<Rightarrow> 'd program \<Rightarrow> 'd store \<Rightarrow> packer" where
  "gen_pack co fb 0 pg m tn p out = None"
| "gen_pack co fb (Suc n) pg m tn p out =
     (case pg_struct pg tn of
        Some fs \<Rightarrow> gen_pack_struct co fb pg (gen_pack co fb n pg m) tn fs p m out
      | None \<Rightarrow> (case pg_oneof pg tn of
          Some oc \<Rightarrow> gen_oneof_pack co pg (gen_pack co fb n pg m) oc p m out
        | None \<Rightarrow> None))"

text \<open>\<open>msgpack_pack_array_T\<close>.\<close>

definition gen_pack_objects :: "codec_ops \<Rightarrow> 'd program \<Rightarrow> packer \<Rightarrow> string \<Rightarrow> ptr \<Rightarrow> int \<Rightarrow> writer" where
  "gen_pack_objects co pg rec tn base len =
     emit [\<lambda>out. Some (co_array_header co out (word_of_int len)),
       pack_items (\<lambda>i. rec tn (shift base (i * size_of pg tn))) [0..<nat len]]"

section \<open>Unpacking\<close>

text \<open>
  A statement of an unpack function: the flag is whether it goes on, \<open>False\<close> is \<open>return -1\<close>.
\<close>

type_synonym 'd unpacker = "reader \<Rightarrow> 'd store \<Rightarrow> (bool \<times> reader \<times> 'd store) run"

definition un_done :: "'d unpacker" where
  "un_done r m = Some (Inr (True, r, m))"

definition un_stop :: "'d unpacker" where
  "un_stop r m = Some (Inr (False, r, m))"

definition un_then :: "'d unpacker \<Rightarrow> 'd unpacker \<Rightarrow> 'd unpacker" where
  "un_then u v r m = bindD (u r m) (\<lambda>(ok, r1, m1). if ok then v r1 m1 else un_stop r1 m1)"

text \<open>\<open>if (mp_unpack_...(&_r, &_v) < 0) return -1\<close>.\<close>

definition un_with :: "'v decoder \<Rightarrow> ('v \<Rightarrow> 'd unpacker) \<Rightarrow> 'd unpacker" where
  "un_with dec k r m = (case dec r of (None, r1) \<Rightarrow> un_stop r1 m | (Some v, r1) \<Rightarrow> k v r1 m)"

definition un_number :: "(reader \<Rightarrow> fault + u64 option \<times> reader) \<Rightarrow> (u64 \<Rightarrow> 'd unpacker) \<Rightarrow> 'd unpacker" where
  "un_number dec k r m = bindD (Some (dec r)) (\<lambda>(v, r1). case v of None \<Rightarrow> un_stop r1 m | Some w \<Rightarrow> k w r1 m)"

definition un_mem :: "('d store \<Rightarrow> fault + 'd store) \<Rightarrow> 'd unpacker" where
  "un_mem f r m = bindD (Some (f m)) (\<lambda>m1. un_done r m1)"

definition un_get :: "('d store \<Rightarrow> fault + 'v) \<Rightarrow> ('v \<Rightarrow> 'd unpacker) \<Rightarrow> 'd unpacker" where
  "un_get f k r m = bindD (Some (f m)) (\<lambda>v. k v r m)"

text \<open>\<open>mp_unpack_skip(&_r);\<close>, whose result is not looked at. \<open>n\<close> bounds the recursion in it.\<close>

definition un_skipped :: "codec_ops \<Rightarrow> nat \<Rightarrow> 'd unpacker" where
  "un_skipped co n r m = (case un_skip co n r of None \<Rightarrow> None | Some (ok, r1) \<Rightarrow> un_done r1 m)"

definition c_cast :: "c_int \<Rightarrow> int \<Rightarrow> int" where
  "c_cast T i = (if c_int_signed T then signed_take_bit (c_int_bits T - 1) i else take_bit (c_int_bits T) i)"

definition put_int :: "c_int \<Rightarrow> ptr \<Rightarrow> int \<Rightarrow> 'd unpacker" where
  "put_int T p i = un_mem (store_value p (c_int_bits T div 8) (Value (J_int (c_cast T i))))"

text \<open>The unpack function of a struct or oneof: the bytes it is given, and where it stores.\<close>

type_synonym 'd object_unpacker = "string \<Rightarrow> ptr \<Rightarrow> bytes \<Rightarrow> 'd store \<Rightarrow> (bool \<times> 'd store) run"

definition rest_of :: "reader \<Rightarrow> reader" where
  "rest_of r = \<lparr>rd_data = drop (rd_pos r) (rd_data r), rd_pos = 0\<rparr>"

text \<open>The object is read from the rest of the buffer, and skipped in the buffer itself.\<close>

definition unpack_object :: "codec_ops \<Rightarrow> 'd object_unpacker \<Rightarrow> nat \<Rightarrow> string \<Rightarrow> ptr \<Rightarrow> 'd unpacker" where
  "unpack_object co rec n tn p r m =
     bindD (rec tn p (rd_data (rest_of r)) m) (\<lambda>(ok, m1).
       if \<not> ok then un_stop r m1
       else (case un_skip co n (rest_of r) of
               None \<Rightarrow> None
             | Some (ok, tmp) \<Rightarrow> if ok then un_done (r\<lparr>rd_pos := rd_pos r + rd_pos tmp\<rparr>) m1 else un_stop r m1))"

text \<open>The first name that is the string.\<close>

fun name_index :: "nat \<Rightarrow> bytes \<Rightarrow> string list \<Rightarrow> nat option" where
  "name_index i s [] = None"
| "name_index i s (n # ns) = (if s = map byte_of_char (cstr n) then Some i else name_index (Suc i) s ns)"

definition unpack_enum :: "codec_ops \<Rightarrow> 'd floats \<Rightarrow> 'd program \<Rightarrow> string \<Rightarrow> ptr \<Rightarrow> 'd unpacker" where
  "unpack_enum co fb pg tn p r m =
     (if co_peek co r = uint (co_null co) then put_int C_int p 0 (snd (un_nil co r)) m
      else if rd_pos r \<ge> rd_len r then Some (Inl Out_of_bounds)
      else if co_is_number co (rd_data r ! rd_pos r) then
        un_number (un_number_int co (fb_conv fb)) (\<lambda>v. put_int C_int p (sint v)) r m
      else un_with (un_str co) (\<lambda>s. case name_index 0 s (enum_strings pg tn) of
             Some i \<Rightarrow> put_int C_int p (int i) | None \<Rightarrow> un_stop) r m)"

definition gen_unpack_scalar ::
  "codec_ops \<Rightarrow> 'd floats \<Rightarrow> 'd program \<Rightarrow> 'd object_unpacker \<Rightarrow> nat \<Rightarrow> field_type \<Rightarrow> string \<Rightarrow> ptr \<Rightarrow> 'd unpacker" where
  "gen_unpack_scalar co fb pg rec n ft tn p =
     (if ft = FIELD_TYPE_BOOL then un_with (un_bool co) (\<lambda>b. put_int C_int p (if b then 1 else 0))
      else if ft = FIELD_TYPE_INT64 then un_with (un_int64 co) (\<lambda>v. put_int C_int64_t p (sint v))
      else if ft = FIELD_TYPE_UINT64 then un_with (un_uint64 co) (\<lambda>v. put_int C_uint64_t p (uint v))
      else case c_int_of ft of
        Some T \<Rightarrow> (if c_int_signed T then un_number (un_number_int co (fb_conv fb)) (\<lambda>v. put_int T p (sint v))
                   else un_number (un_number_uint co (fb_conv fb)) (\<lambda>v. put_int T p (uint v)))
      | None \<Rightarrow> (case ft of
          FIELD_TYPE_FLOAT \<Rightarrow> un_with (un_number_double co (fb_conv fb)) (\<lambda>v. un_mem (store_value p 4 (Value (J_float (fb_to_float fb v)))))
        | FIELD_TYPE_DOUBLE \<Rightarrow> un_with (un_number_double co (fb_conv fb)) (\<lambda>v. un_mem (store_value p 8 (Value (J_float (fb_to_double fb v)))))
        | FIELD_TYPE_SSTR \<Rightarrow> un_with (un_str co) (\<lambda>s. un_get (load_str p) (\<lambda>x. case x of
              None \<Rightarrow> un_mem (\<lambda>m. Inl Null_deref)
            | Some t \<Rightarrow> un_mem (store_value p 8 (Value (J_str (Some (map char_of_byte s)))))))
        | FIELD_TYPE_ENUM \<Rightarrow> unpack_enum co fb pg tn p
        | FIELD_TYPE_STRUCT \<Rightarrow> unpack_object co rec n tn p
        | FIELD_TYPE_ONEOF \<Rightarrow> unpack_object co rec n tn p
        | _ \<Rightarrow> un_skipped co n))"

definition gen_unpack_map_value ::
  "codec_ops \<Rightarrow> 'd floats \<Rightarrow> 'd program \<Rightarrow> 'd object_unpacker \<Rightarrow> nat \<Rightarrow> struct_field \<Rightarrow> ptr \<Rightarrow> 'd unpacker" where
  "gen_unpack_map_value co fb pg rec n f p =
     (if fd_map_value_type f = FIELD_TYPE_ONEOF then un_skipped co n
      else gen_unpack_scalar co fb pg rec n (fd_map_value_type f) (map_value_name f) p)"

fun unpack_items :: "(nat \<Rightarrow> 'd unpacker) \<Rightarrow> nat list \<Rightarrow> 'd unpacker" where
  "unpack_items u [] = un_done"
| "unpack_items u (i # is) = un_then (u i) (unpack_items u is)"

definition put_str :: "ptr \<Rightarrow> bytes \<Rightarrow> 'd unpacker" where
  "put_str p s = un_mem (store_value p 8 (Value (J_str (Some (map char_of_byte s)))))"

text \<open>\<open>malloc(size * (count > 0 ? count : 1))\<close>.\<close>

definition un_malloc :: "nat \<Rightarrow> nat \<Rightarrow> (nat \<Rightarrow> 'd unpacker) \<Rightarrow> 'd unpacker" where
  "un_malloc sz c k r m = (let (b, m1) = mem_malloc (sz * (if c > 0 then c else 1)) m in k b r m1)"

definition gen_unpack_map :: "codec_ops \<Rightarrow> 'd floats \<Rightarrow> 'd program \<Rightarrow> 'd object_unpacker \<Rightarrow> nat \<Rightarrow> struct_field \<Rightarrow> ptr \<Rightarrow> 'd unpacker" where
  "gen_unpack_map co fb pg rec n f p =
     un_with (un_map_header co) (\<lambda>mc.
     un_malloc (entry_size pg f) (unat mc) (\<lambda>b.
     un_then (un_mem (store_addr p (Some b)))
    (un_then (put_int C_int (shift p 8) (uint mc))
    (unpack_items (\<lambda>i. let entry = shift (b, 0) (i * entry_size pg f)
       in un_with (un_str co) (\<lambda>k.
          un_then (put_str entry k)
         (un_then (if fd_map_value_type f = FIELD_TYPE_SSTR then put_str (entry_value pg f entry) [] else un_done)
           (gen_unpack_map_value co fb pg rec n f (entry_value pg f entry))))) [0..<unat mc]))))"

text \<open>An element of an array.\<close>

definition unpack_element :: "codec_ops \<Rightarrow> 'd floats \<Rightarrow> 'd program \<Rightarrow> 'd object_unpacker \<Rightarrow> nat \<Rightarrow> struct_field \<Rightarrow> ptr \<Rightarrow> 'd unpacker" where
  "unpack_element co fb pg rec n f p =
     un_then (if fd_type f = FIELD_TYPE_SSTR then put_str p [] else un_done)
       (gen_unpack_scalar co fb pg rec n (fd_type f) (fd_type_name f) p)"

definition gen_unpack_array ::
  "codec_ops \<Rightarrow> 'd floats \<Rightarrow> 'd program \<Rightarrow> 'd object_unpacker \<Rightarrow> nat \<Rightarrow> string \<Rightarrow> struct_field \<Rightarrow> ptr \<Rightarrow> 'd unpacker" where
  "gen_unpack_array co fb pg rec n st f p =
     (let q = obj_at pg p st (fd_name f); sz = scalar_bytes pg f
      in un_with (un_array_header co) (\<lambda>ac.
           if 0 < fd_array_size f then
             un_then (unpack_items (\<lambda>i. unpack_element co fb pg rec n f (shift q (i * sz))) [0..<min (unat ac) (nat (fd_array_size f))])
               (unpack_items (\<lambda>i. un_skipped co n) [nat (fd_array_size f)..<unat ac])
           else
             un_malloc sz (unat ac) (\<lambda>b.
             un_then (un_mem (store_addr q (Some b)))
            (un_then (un_mem (zero_bytes (b, 0) (sz * (if unat ac > 0 then unat ac else 1))))
            (un_then (put_int C_int (obj_at pg p st (fd_name f @ ''_len'')) (uint ac))
              (unpack_items (\<lambda>i. unpack_element co fb pg rec n f (shift (b, 0) (i * sz))) [0..<unat ac]))))))"

definition gen_unpack_value ::
  "codec_ops \<Rightarrow> 'd floats \<Rightarrow> 'd program \<Rightarrow> 'd object_unpacker \<Rightarrow> nat \<Rightarrow> string \<Rightarrow> struct_field \<Rightarrow> ptr \<Rightarrow> 'd unpacker" where
  "gen_unpack_value co fb pg rec n st f p =
     (let q = obj_at pg p st (fd_name f)
      in if fd_type f = FIELD_TYPE_MAP \<and> \<not> fd_is_array f then gen_unpack_map co fb pg rec n f q
         else if fd_is_array f then gen_unpack_array co fb pg rec n st f p
         else un_then (if fd_type f = FIELD_TYPE_SSTR
                       then un_get (load_str q) (\<lambda>s. if s = None then put_str q [] else un_done) else un_done)
           (gen_unpack_scalar co fb pg rec n (fd_type f) (fd_type_name f) q))"

definition set_flag :: "'d program \<Rightarrow> string \<Rightarrow> struct_field \<Rightarrow> ptr \<Rightarrow> bool \<Rightarrow> 'd unpacker" where
  "set_flag pg st f p b = un_mem (store_bool (obj_at pg p st (''has_'' @ fd_name f)) b)"

definition unpack_field ::
  "codec_ops \<Rightarrow> 'd floats \<Rightarrow> 'd program \<Rightarrow> 'd object_unpacker \<Rightarrow> nat \<Rightarrow> string \<Rightarrow> struct_field \<Rightarrow> ptr \<Rightarrow> 'd unpacker" where
  "unpack_field co fb pg rec n st f p =
     (let val = gen_unpack_value co fb pg rec n st f p
      in if fd_is_nullable f then
           (\<lambda>r m. if co_peek co r = uint (co_null co) then set_flag pg st f p False (snd (un_nil co r)) m
                  else un_then (set_flag pg st f p True) val r m)
         else if fd_is_optional f then un_then (set_flag pg st f p True) val
         else val)"

text \<open>
  One member: the field with its key is read, a member of another key is skipped. A struct without fields has no
  statement here: the value of the member stays where it is.
\<close>

definition unpack_member ::
  "codec_ops \<Rightarrow> 'd floats \<Rightarrow> 'd program \<Rightarrow> 'd object_unpacker \<Rightarrow> nat \<Rightarrow> string \<Rightarrow> struct_field list \<Rightarrow> ptr \<Rightarrow> 'd unpacker" where
  "unpack_member co fb pg rec n st fs p =
     un_with (un_str co) (\<lambda>key.
       case find (\<lambda>f. key = map byte_of_char (cstr (JSON_KEY f))) fs of
         Some f \<Rightarrow> unpack_field co fb pg rec n st f p
       | None \<Rightarrow> if fs = [] then un_done else un_skipped co n)"

definition gen_unpack_struct ::
  "codec_ops \<Rightarrow> 'd floats \<Rightarrow> 'd program \<Rightarrow> 'd object_unpacker \<Rightarrow> nat \<Rightarrow> string \<Rightarrow> struct_field list \<Rightarrow> ptr \<Rightarrow> 'd unpacker" where
  "gen_unpack_struct co fb pg rec n st fs p =
     un_with (un_map_header co) (\<lambda>nf. unpack_items (\<lambda>i. unpack_member co fb pg rec n st fs p) [0..<unat nf])"

section \<open>Initialising and releasing\<close>

text \<open>\<open>T_init\<close> and \<open>T_clear\<close>. The C initialiser of a default value is a constant expression, evaluated like the offsets.\<close>

type_synonym 'd object_step = "string \<Rightarrow> ptr \<Rightarrow> 'd store \<Rightarrow> 'd store run"

definition init_default :: "'d floats \<Rightarrow> 'd program \<Rightarrow> struct_field \<Rightarrow> ptr \<Rightarrow> 'd store \<Rightarrow> fault + 'd store" where
  "init_default fb pg f q m =
     (case fd_default_value f of
        None \<Rightarrow> Inr m
      | Some d \<Rightarrow>
          if fd_type f = FIELD_TYPE_SSTR then
            bindE (load_str q m) (\<lambda>s. case s of
              None \<Rightarrow> Inl Null_deref
            | Some t \<Rightarrow> store_value q 8 (Value (J_str (Some (t @ cstr d)))) m)
          else if fd_type f = FIELD_TYPE_ENUM then
            store_int q (je_const (pg_env pg) (fd_type_name f @ ''_'' @ d)) m
          else (case c_int_of (fd_type f) of
                  Some T \<Rightarrow> store_value q (c_int_bits T div 8) (Value (J_int (c_cast T (je_const (pg_env pg) d)))) m
                | None \<Rightarrow> store_value q (if fd_type f = FIELD_TYPE_FLOAT then 4 else 8) (Value (J_float (fb_literal fb d))) m))"

fun init_fields :: "'d floats \<Rightarrow> 'd program \<Rightarrow> 'd object_step \<Rightarrow> string \<Rightarrow> ptr \<Rightarrow> struct_field list \<Rightarrow> 'd store \<Rightarrow> 'd store run" where
  "init_fields fb pg rec st p [] m = Some (Inr m)"
| "init_fields fb pg rec st p (f # fs) m =
     (let q = obj_at pg p st (fd_name f)
      in bindD (Some (if fd_type f = FIELD_TYPE_SSTR \<and> \<not> fd_is_array f then store_value q 8 (Value (J_str (Some []))) m else Inr m)) (\<lambda>m.
         bindD (Some (init_default fb pg f q m)) (\<lambda>m.
         bindD (if (fd_type f = FIELD_TYPE_STRUCT \<or> fd_type f = FIELD_TYPE_ONEOF) \<and> \<not> fd_is_array f
                then rec (fd_type_name f) q m else Some (Inr m)) (\<lambda>m.
         init_fields fb pg rec st p fs m))))"

fun gen_init :: "'d floats \<Rightarrow> nat \<Rightarrow> 'd program \<Rightarrow> 'd object_step" where
  "gen_init fb 0 pg tn p m = None"
| "gen_init fb (Suc n) pg tn p m =
     (case pg_struct pg tn of
        Some fs \<Rightarrow> bindD (Some (zero_bytes p (size_of pg tn) m)) (init_fields fb pg (gen_init fb n pg) tn p fs)
      | None \<Rightarrow> (case pg_oneof pg tn of Some oc \<Rightarrow> Some (zero_bytes p (size_of pg tn) m) | None \<Rightarrow> None))"

text \<open>\<open>sstr_free\<close> reads the pointer; the string itself is not modelled.\<close>

definition free_sstr :: "ptr \<Rightarrow> 'd store \<Rightarrow> 'd store run" where
  "free_sstr p m = Some (bindE (load_str p m) (\<lambda>_. Inr m))"

definition gen_clear_map_entries :: "'d program \<Rightarrow> 'd object_step \<Rightarrow> struct_field \<Rightarrow> ptr \<Rightarrow> 'd store \<Rightarrow> 'd store run" where
  "gen_clear_map_entries pg rec f p m =
     bindD (Some (load_int (shift p 8) m)) (\<lambda>len.
     bindD (Some (load_addr p m)) (\<lambda>entries.
     bindD (for_range (\<lambda>i m. bindD (Some (block_of entries)) (\<lambda>base.
              (let entry = shift base (i * entry_size pg f)
               in bindD (free_sstr entry m) (\<lambda>m.
                  if fd_map_value_type f = FIELD_TYPE_SSTR then free_sstr (entry_value pg f entry) m
                  else if fd_map_value_type f = FIELD_TYPE_STRUCT then rec (map_value_name f) (entry_value pg f entry) m
                  else Some (Inr m)))))
            [0..<nat len] m) (\<lambda>m.
     Some (bindE (mem_free entries m) (\<lambda>m.
           bindE (store_addr p None m) (\<lambda>m. store_int (shift p 8) 0 m))))))"

definition clear_element :: "'d program \<Rightarrow> 'd object_step \<Rightarrow> struct_field \<Rightarrow> ptr \<Rightarrow> 'd store \<Rightarrow> 'd store run" where
  "clear_element pg rec f q m = (case fd_type f of
     FIELD_TYPE_SSTR \<Rightarrow> free_sstr q m
   | FIELD_TYPE_STRUCT \<Rightarrow> rec (fd_type_name f) q m
   | FIELD_TYPE_ONEOF \<Rightarrow> rec (fd_type_name f) q m
   | FIELD_TYPE_MAP \<Rightarrow> gen_clear_map_entries pg rec f q m
   | _ \<Rightarrow> Some (Inr m))"

text \<open>Only strings and structs are released in an array of fixed size.\<close>

definition clear_field :: "'d program \<Rightarrow> 'd object_step \<Rightarrow> string \<Rightarrow> ptr \<Rightarrow> struct_field \<Rightarrow> 'd store \<Rightarrow> 'd store run" where
  "clear_field pg rec st p f m =
     (let q = obj_at pg p st (fd_name f); len_p = obj_at pg p st (fd_name f @ ''_len'')
      in if \<not> fd_is_array f then clear_element pg rec f q m
         else if fd_array_size f = 0 then
           bindD (Some (load_int len_p m)) (\<lambda>len.
           bindD (Some (load_addr q m)) (\<lambda>a.
           bindD (if fd_type f \<in> {FIELD_TYPE_SSTR, FIELD_TYPE_STRUCT, FIELD_TYPE_ONEOF, FIELD_TYPE_MAP}
                  then for_range (\<lambda>i m. bindD (Some (block_of a)) (\<lambda>base. clear_element pg rec f (shift base (i * scalar_bytes pg f)) m)) [0..<nat len] m
                  else Some (Inr m)) (\<lambda>m.
           Some (bindE (mem_free a m) (\<lambda>m. bindE (store_addr q None m) (\<lambda>m. store_int len_p 0 m))))))
         else if fd_type f = FIELD_TYPE_SSTR \<or> fd_type f = FIELD_TYPE_STRUCT then
           for_range (\<lambda>i m. clear_element pg rec f (shift q (i * scalar_bytes pg f)) m) [0..<nat (fd_array_size f)] m
         else Some (Inr m))"

fun clear_fields :: "'d program \<Rightarrow> 'd object_step \<Rightarrow> string \<Rightarrow> ptr \<Rightarrow> struct_field list \<Rightarrow> 'd store \<Rightarrow> 'd store run" where
  "clear_fields pg rec st p [] m = Some (Inr m)"
| "clear_fields pg rec st p (f # fs) m = bindD (clear_field pg rec st p f m) (clear_fields pg rec st p fs)"

definition gen_oneof_clear :: "'d program \<Rightarrow> 'd object_step \<Rightarrow> oneof_container \<Rightarrow> ptr \<Rightarrow> 'd store \<Rightarrow> 'd store run" where
  "gen_oneof_clear pg rec oc p m =
     bindD (Some (load_int (shift p (col (pg_env pg) (''(int)'' @ offsetof (oc_name oc) ''tag''))) m)) (\<lambda>tag.
       case find (\<lambda>v. int (ov_index v) = tag) (oc_variants oc) of
         Some v \<Rightarrow> rec (ov_struct_type_name v) (shift p (col (pg_env pg) (''(int)'' @ offsetof (oc_name oc) ''value''))) m
       | None \<Rightarrow> Some (Inr m))"

fun gen_clear :: "nat \<Rightarrow> 'd program \<Rightarrow> 'd object_step" where
  "gen_clear 0 pg tn p m = None"
| "gen_clear (Suc n) pg tn p m =
     (case pg_struct pg tn of
        Some fs \<Rightarrow> clear_fields pg (gen_clear n pg) tn p fs m
      | None \<Rightarrow> (case pg_oneof pg tn of Some oc \<Rightarrow> gen_oneof_clear pg (gen_clear n pg) oc p m | None \<Rightarrow> None))"

section \<open>Oneofs and arrays\<close>

text \<open>The first pass over the members: the tag is the last one whose name is a variant.\<close>

fun oneof_tag :: "codec_ops \<Rightarrow> nat \<Rightarrow> oneof_container \<Rightarrow> nat \<Rightarrow> int \<Rightarrow> reader \<Rightarrow> int option option" where
  "oneof_tag co n oc 0 tag r = Some (Some tag)"
| "oneof_tag co n oc (Suc k) tag r =
     (case un_str co r of
        (None, r1) \<Rightarrow> Some None
      | (Some key, r1) \<Rightarrow>
          if key = map byte_of_char (cstr (oc_tag_field oc)) then
            (case un_str co r1 of
               (None, r2) \<Rightarrow> Some None
             | (Some ts, r2) \<Rightarrow> oneof_tag co n oc k (case name_index 0 ts (map ov_name (oc_variants oc)) of Some i \<Rightarrow> int i | None \<Rightarrow> tag) r2)
          else (case un_skip co n r1 of None \<Rightarrow> None | Some (ok, r2) \<Rightarrow> oneof_tag co n oc k tag r2))"

definition gen_oneof_unpack ::
  "codec_ops \<Rightarrow> 'd program \<Rightarrow> 'd object_step \<Rightarrow> 'd object_unpacker \<Rightarrow> nat \<Rightarrow> oneof_container \<Rightarrow> ptr \<Rightarrow> bytes \<Rightarrow> 'd store \<Rightarrow> (bool \<times> 'd store) run" where
  "gen_oneof_unpack co pg ini rec n oc p data m =
     (let tag_p = shift p (col (pg_env pg) (''(int)'' @ offsetof (oc_name oc) ''tag''));
          value_p = shift p (col (pg_env pg) (''(int)'' @ offsetof (oc_name oc) ''value''))
      in case un_map_header co \<lparr>rd_data = data, rd_pos = 0\<rparr> of
           (None, r1) \<Rightarrow> Some (Inr (False, m))
         | (Some nf, r1) \<Rightarrow> (case oneof_tag co n oc (unat nf) (-1) r1 of
             None \<Rightarrow> None
           | Some None \<Rightarrow> Some (Inr (False, m))
           | Some (Some tag) \<Rightarrow>
               if tag < 0 then Some (Inr (False, m))
               else bindD (Some (store_int tag_p tag m)) (\<lambda>m.
                 case find (\<lambda>v. int (ov_index v) = tag) (oc_variants oc) of
                   None \<Rightarrow> Some (Inr (False, m))
                 | Some v \<Rightarrow> bindD (ini (ov_struct_type_name v) value_p m) (rec (ov_struct_type_name v) value_p data))))"

text \<open>\<open>msgpack_unpack_T\<close>: the buffer gets shorter with every struct inside, so its length bounds the nesting.\<close>

fun gen_unpack :: "codec_ops \<Rightarrow> 'd floats \<Rightarrow> nat \<Rightarrow> 'd program \<Rightarrow> 'd object_unpacker" where
  "gen_unpack co fb 0 pg tn p data m = None"
| "gen_unpack co fb (Suc n) pg tn p data m =
     (case pg_struct pg tn of
        Some fs \<Rightarrow> bindD (gen_unpack_struct co fb pg (gen_unpack co fb n pg) (Suc n) tn fs p \<lparr>rd_data = data, rd_pos = 0\<rparr> m)
                     (\<lambda>(ok, r, m1). Some (Inr (ok, m1)))
      | None \<Rightarrow> (case pg_oneof pg tn of
          Some oc \<Rightarrow> gen_oneof_unpack co pg (gen_init fb (Suc n) pg) (gen_unpack co fb n pg) (Suc n) oc p data m
        | None \<Rightarrow> None))"

text \<open>
  \<open>msgpack_unpack_array_T(data, len, &obj, &count)\<close>, where \<open>p\<close> and \<open>c\<close> are the addresses of \<open>obj\<close> and \<open>count\<close>: after an
  error in an element the elements so far are released.
\<close>

fun unpack_objects ::
  "codec_ops \<Rightarrow> 'd floats \<Rightarrow> nat \<Rightarrow> 'd program \<Rightarrow> string \<Rightarrow> ptr \<Rightarrow> ptr \<Rightarrow> nat \<Rightarrow> nat list \<Rightarrow> reader \<Rightarrow> 'd store \<Rightarrow> (bool \<times> 'd store) run" where
  "unpack_objects co fb n pg tn p c b [] r m = Some (Inr (True, m))"
| "unpack_objects co fb n pg tn p c b (i # is) r m =
     (let q = shift (b, 0) (i * size_of pg tn)
      in bindD (gen_init fb n pg tn q m) (\<lambda>m.
         bindD (gen_unpack co fb n pg tn q (rd_data (rest_of r)) m) (\<lambda>(ok, m).
           if \<not> ok then
             bindD (for_range (\<lambda>j. gen_clear n pg tn (shift (b, 0) (j * size_of pg tn))) [0..<Suc i] m) (\<lambda>m.
             bindD (Some (bindE (mem_free (Some b) m) (\<lambda>m. bindE (store_addr p None m) (store_int c 0)))) (\<lambda>m.
             Some (Inr (False, m))))
           else (case un_skip co n (rest_of r) of
                   None \<Rightarrow> None
                 | Some (ok, tmp) \<Rightarrow> if ok then unpack_objects co fb n pg tn p c b is (r\<lparr>rd_pos := rd_pos r + rd_pos tmp\<rparr>) m
                                     else Some (Inr (False, m))))))"

definition gen_unpack_objects ::
  "codec_ops \<Rightarrow> 'd floats \<Rightarrow> nat \<Rightarrow> 'd program \<Rightarrow> string \<Rightarrow> bytes \<Rightarrow> ptr \<Rightarrow> ptr \<Rightarrow> 'd store \<Rightarrow> (bool \<times> 'd store) run" where
  "gen_unpack_objects co fb n pg tn data p c m =
     (case un_array_header co \<lparr>rd_data = data, rd_pos = 0\<rparr> of
        (None, r) \<Rightarrow> Some (Inr (False, m))
      | (Some ac, r) \<Rightarrow>
          (let room = size_of pg tn * (if unat ac > 0 then unat ac else 1); (b, m) = mem_malloc room m
           in bindD (Some (bindE (store_addr p (Some b) m) (\<lambda>m. bindE (zero_bytes (b, 0) room m) (store_int c (c_cast C_int (uint ac)))))) (\<lambda>m.
              unpack_objects co fb n pg tn p c b [0..<unat ac] r m)))"

end
