(* ===== verification/BinarySpec.thy ===== *)
theory BinarySpec
  imports BinaryGen
begin

text \<open>
  What the emitted MessagePack and CBOR functions of BinaryGen promise, for every runtime with the contract
  \<open>struct_codec\<close>: packing a struct whose memory holds certain values appends the encoding of these values.
\<close>

section \<open>What a struct holds\<close>

text \<open>
  \<open>scalar_is\<close>: the object of a type at an address is this value; \<open>value_is\<close>: the field of the struct at an address;
  \<open>fields_are\<close>: the keys and values of the fields of the struct, without the absent optional ones. Maps and oneofs are not
  among the values, and a string is not null.
\<close>

inductive scalar_is :: "'d program \<Rightarrow> 'd floats \<Rightarrow> 'd store \<Rightarrow> field_type \<Rightarrow> string \<Rightarrow> ptr \<Rightarrow> mp_value \<Rightarrow> bool"
  and value_is :: "'d program \<Rightarrow> 'd floats \<Rightarrow> 'd store \<Rightarrow> string \<Rightarrow> ptr \<Rightarrow> struct_field \<Rightarrow> mp_value \<Rightarrow> bool"
  and fields_are :: "'d program \<Rightarrow> 'd floats \<Rightarrow> 'd store \<Rightarrow> string \<Rightarrow> ptr \<Rightarrow> struct_field list \<Rightarrow> mp_value list \<Rightarrow> bool"
  for pg :: "'d program" and fb :: "'d floats" and m :: "'d store" where
  signed_is: "ft \<noteq> FIELD_TYPE_BOOL \<Longrightarrow> c_int_of ft = Some T \<Longrightarrow> c_int_signed T \<Longrightarrow> load_int_of T p m = Inr i \<Longrightarrow>
    c_int_min T \<le> i \<Longrightarrow> i \<le> c_int_max T \<Longrightarrow> scalar_is pg fb m ft tn p (MInt (word_of_int i))"
| unsigned_is: "c_int_of ft = Some T \<Longrightarrow> \<not> c_int_signed T \<Longrightarrow> load_int_of T p m = Inr i \<Longrightarrow>
    c_int_min T \<le> i \<Longrightarrow> i \<le> c_int_max T \<Longrightarrow> scalar_is pg fb m ft tn p (MUint (word_of_int i))"
| bool_is: "load_int p m = Inr i \<Longrightarrow> scalar_is pg fb m FIELD_TYPE_BOOL tn p (MBool (i \<noteq> 0))"
| float_is: "load_float 4 (je_zero (pg_env pg)) p m = Inr d \<Longrightarrow> scalar_is pg fb m FIELD_TYPE_FLOAT tn p (MFloat (fb_float fb d))"
| double_is: "load_float 8 (je_zero (pg_env pg)) p m = Inr d \<Longrightarrow> scalar_is pg fb m FIELD_TYPE_DOUBLE tn p (MDouble (fb_double fb d))"
| string_is: "load_str p m = Inr (Some s) \<Longrightarrow> length s < 2 ^ 32 \<Longrightarrow>
    scalar_is pg fb m FIELD_TYPE_SSTR tn p (MStr (map byte_of_char s))"
| enum_is: "load_int p m = Inr (int i) \<Longrightarrow> name_index 0 s (enum_strings pg tn) = Some i \<Longrightarrow> length s < 2 ^ 32 \<Longrightarrow>
    i \<le> 0x7fffffff \<Longrightarrow> scalar_is pg fb m FIELD_TYPE_ENUM tn p (MStr s)"
| enum_number_is: "load_int p m = Inr i \<Longrightarrow> \<not> (0 \<le> i \<and> i < int (length (enum_strings pg tn))) \<Longrightarrow>
    c_int_min C_int \<le> i \<Longrightarrow> i \<le> c_int_max C_int \<Longrightarrow> scalar_is pg fb m FIELD_TYPE_ENUM tn p (MInt (word_of_int i))"
| struct_is: "pg_struct pg tn = Some fs \<Longrightarrow> fields_are pg fb m tn p fs vs \<Longrightarrow> length vs < 2 ^ 32 \<Longrightarrow>
    scalar_is pg fb m FIELD_TYPE_STRUCT tn p (MMap vs)"
| single: "\<not> fd_is_array f \<Longrightarrow> scalar_is pg fb m (fd_type f) (fd_type_name f) (obj_at pg p st (fd_name f)) v \<Longrightarrow>
    value_is pg fb m st p f v"
| fixed_array: "fd_is_array f \<Longrightarrow> 0 < fd_array_size f \<Longrightarrow> fd_array_size f = int (length vs) \<Longrightarrow> length vs < 2 ^ 31 \<Longrightarrow>
    (\<And>i. i < length vs \<Longrightarrow> scalar_is pg fb m (fd_type f) (fd_type_name f) (shift (obj_at pg p st (fd_name f)) (i * scalar_bytes pg f)) (vs ! i)) \<Longrightarrow>
    value_is pg fb m st p f (MArray vs)"
| dynamic_array: "fd_is_array f \<Longrightarrow> fd_array_size f = 0 \<Longrightarrow> fd_type f \<noteq> FIELD_TYPE_MAP \<Longrightarrow> load_int (obj_at pg p st (fd_name f @ ''_len'')) m = Inr (int (length vs)) \<Longrightarrow>
    length vs < 2 ^ 31 \<Longrightarrow> load_addr (obj_at pg p st (fd_name f)) m = Inr a \<Longrightarrow> array_base a (length vs) = Inr base \<Longrightarrow>
    (\<And>i. i < length vs \<Longrightarrow> scalar_is pg fb m (fd_type f) (fd_type_name f) (shift base (i * scalar_bytes pg f)) (vs ! i)) \<Longrightarrow>
    value_is pg fb m st p f (MArray vs)"
| no_more: "fields_are pg fb m st p [] []"
| present_field: "may_be_absent f \<Longrightarrow> has_flag pg st f p m = Inr True \<Longrightarrow> length (cstr (JSON_KEY f)) < 2 ^ 32 \<Longrightarrow> value_is pg fb m st p f v \<Longrightarrow>
    fields_are pg fb m st p fs vs \<Longrightarrow> fields_are pg fb m st p (f # fs) (MStr (map byte_of_char (cstr (JSON_KEY f))) # v # vs)"
| required_field: "\<not> may_be_absent f \<Longrightarrow> length (cstr (JSON_KEY f)) < 2 ^ 32 \<Longrightarrow> value_is pg fb m st p f v \<Longrightarrow>
    fields_are pg fb m st p fs vs \<Longrightarrow> fields_are pg fb m st p (f # fs) (MStr (map byte_of_char (cstr (JSON_KEY f))) # v # vs)"
| null_field: "fd_is_nullable f \<Longrightarrow> \<not> fd_is_optional f \<Longrightarrow> has_flag pg st f p m = Inr False \<Longrightarrow> length (cstr (JSON_KEY f)) < 2 ^ 32 \<Longrightarrow>
    fields_are pg fb m st p fs vs \<Longrightarrow> fields_are pg fb m st p (f # fs) (MStr (map byte_of_char (cstr (JSON_KEY f))) # MNil # vs)"
| absent_field: "fd_is_optional f \<Longrightarrow> has_flag pg st f p m = Inr False \<Longrightarrow> fields_are pg fb m st p fs vs \<Longrightarrow> fields_are pg fb m st p (f # fs) vs"

fun mdepth :: "mp_value \<Rightarrow> nat" where
  "mdepth (MArray vs) = foldr (\<lambda>v d. max (mdepth v) d) vs 0"
| "mdepth (MMap vs) = Suc (foldr (\<lambda>v d. max (mdepth v) d) vs 0)"
| "mdepth v = 0"

lemma foldr_max: "foldr (\<lambda>v d. max (f v) d) vs 0 \<le> (k :: nat) \<longleftrightarrow> list_all (\<lambda>v. f v \<le> k) vs"
  by (induction vs) auto

lemma mdepth_le:
  "mdepth (MArray vs) \<le> k \<longleftrightarrow> list_all (\<lambda>v. mdepth v \<le> k) vs"
  "mdepth (MMap vs) \<le> Suc k \<longleftrightarrow> list_all (\<lambda>v. mdepth v \<le> k) vs"
  by (simp_all add: foldr_max)

section \<open>Pieces of a buffer\<close>

definition packs :: "writer \<Rightarrow> bytes \<Rightarrow> bool" where
  "packs w d \<longleftrightarrow> (\<forall>out. sstr_ok out \<longrightarrow> (\<exists>out'. w out = Some (Inr out') \<and> sstr_ok out' \<and> sstr_bytes out' = sstr_bytes out @ d))"

lemma packs_Nil: "packs (emit []) []"
  by (simp add: packs_def)

lemma packs_Cons: "packs w d \<Longrightarrow> packs (emit ws) e \<Longrightarrow> packs (emit (w # ws)) (d @ e)"
  unfolding packs_def by fastforce

lemma packs_one: "packs w d \<Longrightarrow> packs (emit [w]) d"
  using packs_Cons [OF _ packs_Nil, of w d] by simp

lemma packs_reading: "x = Inr v \<Longrightarrow> packs (f v) d \<Longrightarrow> packs (reading x f) d"
  by (simp add: packs_def reading_def)

lemma packs_call: "(\<And>out. sstr_ok out \<Longrightarrow> appends out d (f out)) \<Longrightarrow> packs (\<lambda>out. Some (f out)) d"
  by (fastforce simp: packs_def appends_def)

lemma packs_items: "(\<And>i. i \<in> set is \<Longrightarrow> packs (w i) (d i)) \<Longrightarrow> packs (pack_items w is) (concat (map d is))"
  by (induction "is") (simp_all add: packs_Nil packs_Cons packs_one del: emit.simps)

lemma packs_list: "(\<And>i. i < length vs \<Longrightarrow> packs (w i) (f (vs ! i))) \<Longrightarrow> packs (pack_items w [0..<length vs]) (concat (map f vs))"
proof -
  assume a: "\<And>i. i < length vs \<Longrightarrow> packs (w i) (f (vs ! i))"
  have "packs (pack_items w [0..<length vs]) (concat (map (\<lambda>i. f (vs ! i)) [0..<length vs]))"
    by (rule packs_items) (rule a, simp)
  moreover have "map (\<lambda>i. f (vs ! i)) [0..<length vs] = map f vs" by (rule nth_equalityI) simp_all
  ultimately show ?thesis by (simp only:)
qed

lemma name_index_Some:
  "name_index k s ns = Some i \<Longrightarrow> k \<le> i \<and> i < k + length ns \<and> s = map byte_of_char (cstr (ns ! (i - k)))"
  by (induction ns arbitrary: k) (fastforce split: if_splits simp: Suc_diff_le nth_Cons')+

section \<open>The contract of the runtime\<close>

text \<open>
  What the emitted code relies on: what a pack function appends is \<open>enc\<close>, the unpack functions read it back, a value can
  be skipped, and its first byte tells nil and numbers.
\<close>

locale struct_codec =
  fixes co :: codec_ops and enc :: "mp_value \<Rightarrow> bytes" and array_head map_head :: "u32 \<Rightarrow> bytes"
  assumes pack_nil: "sstr_ok out \<Longrightarrow> appends out (enc MNil) (co_nil co out)"
    and pack_bool: "sstr_ok out \<Longrightarrow> appends out (enc (MBool b)) (co_bool co out b)"
    and pack_uint: "sstr_ok out \<Longrightarrow> appends out (enc (MUint v)) (co_uint co out v)"
    and pack_int: "sstr_ok out \<Longrightarrow> appends out (enc (MInt v)) (co_int co out v)"
    and pack_float: "sstr_ok out \<Longrightarrow> appends out (enc (MFloat w)) (co_float co out w)"
    and pack_double: "sstr_ok out \<Longrightarrow> appends out (enc (MDouble v)) (co_double co out v)"
    and pack_str: "sstr_ok out \<Longrightarrow> length s < 2 ^ 32 \<Longrightarrow> appends out (enc (MStr s)) (co_str co out s (word_of_nat (length s)))"
    and pack_array: "sstr_ok out \<Longrightarrow> appends out (array_head c) (co_array_header co out c)"
    and pack_map: "sstr_ok out \<Longrightarrow> appends out (map_head c) (co_map_header co out c)"
    and enc_array: "length vs < 2 ^ 32 \<Longrightarrow> enc (MArray vs) = array_head (word_of_nat (length vs)) @ concat (map enc vs)"
    and enc_map: "length vs < 2 ^ 32 \<Longrightarrow> enc (MMap vs) = map_head (word_of_nat (length vs div 2)) @ concat (map enc vs)"
    and unpack_bool: "at r (enc (MBool b) @ rest) \<Longrightarrow> un_bool co r = (Some b, adv (length (enc (MBool b))) r)"
    and unpack_int64: "at r (enc (MInt v) @ rest) \<Longrightarrow> un_int64 co r = (Some v, adv (length (enc (MInt v))) r)"
    and unpack_uint64: "at r (enc (MUint v) @ rest) \<Longrightarrow> un_uint64 co r = (Some v, adv (length (enc (MUint v))) r)"
    and unpack_number_int: "at r (enc (MInt v) @ rest) \<Longrightarrow> un_number_int co fc r = Inr (Some v, adv (length (enc (MInt v))) r)"
    and unpack_number_uint: "at r (enc (MUint v) @ rest) \<Longrightarrow> un_number_uint co fc r = Inr (Some v, adv (length (enc (MUint v))) r)"
    and unpack_double: "at r (enc (MDouble v) @ rest) \<Longrightarrow> un_number_double co fc r = (Some v, adv (length (enc (MDouble v))) r)"
    and unpack_float: "at r (enc (MFloat w) @ rest) \<Longrightarrow> un_number_double co fc r = (Some (f_to_d fc w), adv (length (enc (MFloat w))) r)"
    and unpack_str: "length s < 2 ^ 32 \<Longrightarrow> at r (enc (MStr s) @ rest) \<Longrightarrow> un_str co r = (Some s, adv (length (enc (MStr s))) r)"
    and unpack_nil: "at r (enc MNil @ rest) \<Longrightarrow> un_nil co r = (Some (), adv (length (enc MNil)) r)"
    and unpack_array: "at r (array_head c @ rest) \<Longrightarrow> un_array_header co r = (Some c, adv (length (array_head c)) r)"
    and unpack_map: "at r (map_head c @ rest) \<Longrightarrow> un_map_header co r = (Some c, adv (length (map_head c)) r)"
    and head_nonempty: "map_head c \<noteq> []" "enc x \<noteq> []"
    and first_null: "mp_good x \<Longrightarrow> hd (enc x) = co_null co \<longleftrightarrow> x = MNil"
    and first_number: "co_is_number co (hd (enc (MInt v)))" "length s < 2 ^ 32 \<Longrightarrow> \<not> co_is_number co (hd (enc (MStr s)))"
    and peek: "at r (y # ys) \<Longrightarrow> co_peek co r = uint y"
    and skip: "mp_good x \<Longrightarrow> at r (enc x @ rest) \<Longrightarrow> length (enc x @ rest) < f \<Longrightarrow> un_skip co f r = Some (True, adv (length (enc x)) r)"
begin

lemma packs_str: "length s < 2 ^ 32 \<Longrightarrow> packs (\<lambda>out. Some (co_str co out s (word_of_nat (length s)))) (enc (MStr s))"
  by (intro packs_call pack_str)

lemma packs_cstr: "length (cstr s) < 2 ^ 32 \<Longrightarrow> packs (pack_cstr co s) (enc (MStr (map byte_of_char (cstr s))))"
  using packs_str [of "map byte_of_char (cstr s)"] by (simp add: pack_cstr_def [abs_def])

lemma array_packs:
  assumes "length vs < 2 ^ 31"
    and "\<And>i. i < length vs \<Longrightarrow> packs (gen_pack_scalar co fb pg rec (fd_type f) (fd_type_name f) (shift base (i * scalar_bytes pg f)) m) (enc (vs ! i))"
  shows "packs (gen_pack_array co fb pg rec f base (int (length vs)) m) (enc (MArray vs))"
proof -
  have "packs (\<lambda>out. Some (co_array_header co out (word_of_int (int (length vs))))) (array_head (word_of_nat (length vs)))"
    using packs_call [OF pack_array, of "word_of_nat (length vs)"] by simp
  moreover have "enc (MArray vs) = array_head (word_of_nat (length vs)) @ concat (map enc vs)" using assms(1) by (intro enc_array) simp
  ultimately show ?thesis using assms(2) unfolding gen_pack_array_def nat_int by (simp only:) (intro packs_Cons packs_one packs_list)
qed

text \<open>A member: its key, its value unless it is null, and the members behind it.\<close>

lemma member_packs:
  assumes "(if fd_is_optional f then has_flag pg st f p m else Inr True) = Inr True" and "length (cstr (JSON_KEY f)) < 2 ^ 32"
    and "fd_is_nullable f \<Longrightarrow> has_flag pg st f p m = Inr h" and "\<not> fd_is_nullable f \<Longrightarrow> h"
    and "if h then packs (gen_pack_value co fb pg rec st f p m) (enc v) else v = MNil"
    and "packs (pack_fields co fb pg rec st p m fs) (concat (map enc vs))"
  shows "packs (pack_fields co fb pg rec st p m (f # fs)) (concat (map enc (MStr (map byte_of_char (cstr (JSON_KEY f))) # v # vs)))"
proof -
  let ?val = "gen_pack_value co fb pg rec st f p m"
  have nil: "packs (\<lambda>out. Some (co_nil co out)) (enc MNil)" by (intro packs_call pack_nil)
  have "packs (if fd_is_nullable f then reading (has_flag pg st f p m) (\<lambda>h. if h then ?val else (\<lambda>out. Some (co_nil co out))) else ?val) (enc v)"
  proof (cases "fd_is_nullable f")
    case True
    have "packs (reading (has_flag pg st f p m) (\<lambda>h. if h then ?val else (\<lambda>out. Some (co_nil co out)))) (enc v)"
      by (rule packs_reading, rule assms(3) [OF True]) (use assms(5) nil in auto)
    then show ?thesis using True by simp
  qed (use assms(4,5) in simp)
  note w = packs_Cons [OF packs_cstr [OF assms(2)] packs_Cons [OF this packs_one [OF assms(6)]]]
  show ?thesis unfolding pack_fields.simps Let_def
    by (rule packs_reading, rule assms(1)) (use w in \<open>simp only: if_True list.map concat.simps\<close>)
qed

lemma value_packs:
  "scalar_is pg fb m ft tn p v \<Longrightarrow> mp_good v \<and> (\<forall>k. mdepth v \<le> k \<longrightarrow> packs (gen_pack_scalar co fb pg (gen_pack co fb k pg m) ft tn p m) (enc v))"
  "value_is pg fb m st p f v \<Longrightarrow> mp_good v \<and> (\<forall>k. mdepth v \<le> k \<longrightarrow> packs (gen_pack_value co fb pg (gen_pack co fb k pg m) st f p m) (enc v))"
  "fields_are pg fb m st p fs vs \<Longrightarrow> list_all mp_good vs \<and> even (length vs) \<and> pack_count pg st p m fs = Inr (length vs div 2)
     \<and> (\<forall>k. list_all (\<lambda>v. mdepth v \<le> k) vs \<longrightarrow> packs (pack_fields co fb pg (gen_pack co fb k pg m) st p m fs) (concat (map enc vs)))"
proof (induction rule: scalar_is_value_is_fields_are.inducts)
  case (signed_is ft T p i tn)
  have "packs (reading (load_int_of T p m) (\<lambda>i out. Some (co_int co out (word_of_int i)))) (enc (MInt (word_of_int i)))"
    by (rule packs_reading, rule signed_is, intro packs_call pack_int)
  then show ?case using signed_is by (simp add: gen_pack_scalar_def)
next
  case (unsigned_is ft T p i tn)
  have "packs (reading (load_int_of T p m) (\<lambda>i out. Some (co_uint co out (word_of_int i)))) (enc (MUint (word_of_int i)))"
    by (rule packs_reading, rule unsigned_is, intro packs_call pack_uint)
  moreover have "ft \<noteq> FIELD_TYPE_BOOL" using unsigned_is by auto
  ultimately show ?case using unsigned_is by (simp add: gen_pack_scalar_def)
next
  case (bool_is p i tn)
  have "packs (reading (load_int p m) (\<lambda>i out. Some (co_bool co out (i \<noteq> 0)))) (enc (MBool (i \<noteq> 0)))"
    by (rule packs_reading, rule bool_is, intro packs_call pack_bool)
  then show ?case by (simp add: gen_pack_scalar_def)
next
  case (float_is p d tn)
  have "packs (reading (load_float 4 (je_zero (pg_env pg)) p m) (\<lambda>d out. Some (co_float co out (fb_float fb d)))) (enc (MFloat (fb_float fb d)))"
    by (rule packs_reading, rule float_is, intro packs_call pack_float)
  then show ?case by (simp add: gen_pack_scalar_def)
next
  case (double_is p d tn)
  have "packs (reading (load_float 8 (je_zero (pg_env pg)) p m) (\<lambda>d out. Some (co_double co out (fb_double fb d)))) (enc (MDouble (fb_double fb d)))"
    by (rule packs_reading, rule double_is, intro packs_call pack_double)
  then show ?case by (simp add: gen_pack_scalar_def)
next
  case (string_is p s tn)
  have "packs (pack_sstr co p m) (enc (MStr (map byte_of_char s)))" unfolding pack_sstr_def
    by (rule packs_reading, rule string_is) (use packs_str [of "map byte_of_char s"] string_is in simp)
  then show ?case using string_is by (simp add: gen_pack_scalar_def)
next
  case (enum_is p i s tn)
  have i: "i < length (enum_strings pg tn)" "s = map byte_of_char (cstr (enum_strings pg tn ! i))"
    using name_index_Some enum_is by fastforce+
  have "packs (pack_enum co pg tn p m) (enc (MStr s))" unfolding pack_enum_def
    by (rule packs_reading, rule enum_is) (use packs_cstr [of "enum_strings pg tn ! i"] i enum_is in simp)
  then show ?case using enum_is by (simp add: gen_pack_scalar_def)
next
  case (enum_number_is p i tn)
  have "packs (pack_enum co pg tn p m) (enc (MInt (word_of_int i)))" unfolding pack_enum_def
    by (rule packs_reading, rule enum_number_is) (use enum_number_is in \<open>auto intro!: packs_call pack_int\<close>)
  then show ?case by (simp add: gen_pack_scalar_def)
next
  case (struct_is tn fs p vs)
  show ?case
  proof (intro conjI allI impI)
    fix k assume "mdepth (MMap vs) \<le> k"
    then obtain k' where k: "k = Suc k'" and d: "list_all (\<lambda>v. mdepth v \<le> k') vs" using mdepth_le(2) by (cases k) auto
    have "packs (reading (pack_count pg tn p m fs) (\<lambda>n out. Some (co_map_header co out (word_of_nat n)))) (map_head (word_of_nat (length vs div 2)))"
      by (rule packs_reading) (use struct_is in \<open>auto intro!: packs_call pack_map\<close>)
    then have "packs (gen_pack_struct co fb pg (gen_pack co fb k' pg m) tn fs p m) (enc (MMap vs))"
      using struct_is d unfolding gen_pack_struct_def by (auto simp: enc_map simp del: emit.simps intro!: packs_Cons packs_one)
    moreover have "gen_pack co fb k pg m tn p = gen_pack_struct co fb pg (gen_pack co fb k' pg m) tn fs p m"
      using struct_is k by (auto simp: fun_eq_iff)
    ultimately show "packs (gen_pack_scalar co fb pg (gen_pack co fb k pg m) FIELD_TYPE_STRUCT tn p m) (enc (MMap vs))"
      by (simp add: gen_pack_scalar_def)
  qed (use struct_is in simp)
next
  case (single f p st v)
  then have "fd_type f \<noteq> FIELD_TYPE_MAP" by (auto elim: scalar_is.cases)
  then show ?case using single by (simp add: gen_pack_value_def Let_def)
next
  case (fixed_array f vs p st)
  show ?case
  proof (intro conjI allI impI)
    show "mp_good (MArray vs)" using fixed_array by (simp add: list_all_length)
    fix k assume "mdepth (MArray vs) \<le> k"
    then have d: "\<forall>i < length vs. mdepth (vs ! i) \<le> k" unfolding mdepth_le by (simp add: list_all_length)
    then show "packs (gen_pack_value co fb pg (gen_pack co fb k pg m) st f p m) (enc (MArray vs))"
      using array_packs [of vs fb pg "gen_pack co fb k pg m" f "obj_at pg p st (fd_name f)" m] fixed_array
      by (simp add: gen_pack_value_def)
  qed
next
  case (dynamic_array f p st vs a base)
  show ?case
  proof (intro conjI allI impI)
    show "mp_good (MArray vs)" using dynamic_array by (simp add: list_all_length)
    fix k assume "mdepth (MArray vs) \<le> k"
    then have d: "\<forall>i < length vs. mdepth (vs ! i) \<le> k" unfolding mdepth_le by (simp add: list_all_length)
    have "packs (gen_pack_array co fb pg (gen_pack co fb k pg m) f base (int (length vs)) m) (enc (MArray vs))"
      by (rule array_packs) (use d dynamic_array in auto)
    then have "packs (reading (load_int (obj_at pg p st (fd_name f @ ''_len'')) m) (\<lambda>len. reading (load_addr (obj_at pg p st (fd_name f)) m)
        (\<lambda>a. reading (array_base a (nat len)) (\<lambda>base. gen_pack_array co fb pg (gen_pack co fb k pg m) f base len m)))) (enc (MArray vs))"
      by (intro packs_reading [where v = "int (length vs)"] packs_reading [where v = a] packs_reading [where v = base]) (use dynamic_array in simp_all)
    then show "packs (gen_pack_value co fb pg (gen_pack co fb k pg m) st f p m) (enc (MArray vs))"
      using dynamic_array by (simp add: gen_pack_value_def)
  qed
next
  case (no_more st p)
  then show ?case by (simp add: packs_Nil del: emit.simps)
next
  case (present_field f st p v fs vs)
  have "packs (pack_fields co fb pg (gen_pack co fb k pg m) st p m (f # fs)) (concat (map enc (MStr (map byte_of_char (cstr (JSON_KEY f))) # v # vs)))"
    if "list_all (\<lambda>v. mdepth v \<le> k) (v # vs)" for k
    by (rule member_packs [where h = True]) (use present_field that in auto)
  then show ?case using present_field by auto
next
  case (required_field f st p v fs vs)
  have "packs (pack_fields co fb pg (gen_pack co fb k pg m) st p m (f # fs)) (concat (map enc (MStr (map byte_of_char (cstr (JSON_KEY f))) # v # vs)))"
    if "list_all (\<lambda>v. mdepth v \<le> k) (v # vs)" for k
    by (rule member_packs [where h = True]) (use required_field that in \<open>auto simp: may_be_absent_def\<close>)
  then show ?case using required_field by (auto simp: may_be_absent_def)
next
  case (null_field f st p fs vs)
  have "packs (pack_fields co fb pg (gen_pack co fb k pg m) st p m (f # fs)) (concat (map enc (MStr (map byte_of_char (cstr (JSON_KEY f))) # MNil # vs)))"
    if "list_all (\<lambda>v. mdepth v \<le> k) vs" for k
    by (rule member_packs [where h = False]) (use null_field that in auto)
  then show ?case using null_field by auto
next
  case (absent_field f st p fs vs)
  have "packs (pack_fields co fb pg rec st p m (f # fs)) (concat (map enc vs))"
    if "packs (pack_fields co fb pg rec st p m fs) (concat (map enc vs))" for rec
    unfolding pack_fields.simps Let_def by (rule packs_reading [where v = False]) (use absent_field that in simp_all)
  then show ?case using absent_field by auto
qed

end

end
