(* ===== verification/BinaryMemory.thy ===== *)
theory BinaryMemory
  imports BinaryGen
begin

text \<open>
  A calculus for the statements of an unpack function: \<open>consumes\<close> says which bytes of the buffer one takes, which cells of
  memory it writes and what then holds, and there is a rule for each way statements are put together. It carries the
  round trip of BinaryRoundtrip.
\<close>

section \<open>Filling memory\<close>

text \<open>
  The cells that a statement may write, those that still are zero, and what stays true as long as certain cells and the blocks
  that are new do not change.
\<close>

definition cells :: "ptr \<Rightarrow> nat \<Rightarrow> ptr set" where
  "cells p n = {fst p} \<times> {snd p..<snd p + n}"

definition old :: "'d store \<Rightarrow> ptr set \<Rightarrow> bool" where
  "old m X \<longleftrightarrow> (\<forall>c\<in>X. fst c < st_next m \<and> accessible m c 1)"

definition blank :: "'d store \<Rightarrow> ptr set \<Rightarrow> bool" where
  "blank m X \<longleftrightarrow> old m X \<and> (\<forall>c\<in>X. st_bytes m (fst c) (snd c) = Zero)"

definition touched :: "'d store \<Rightarrow> 'd store \<Rightarrow> ptr set \<Rightarrow> bool" where
  "touched m m' X \<longleftrightarrow> st_next m \<le> st_next m'
     \<and> (\<forall>b < st_next m. st_room m' b = st_room m b \<and> (\<forall>i. (b, i) \<notin> X \<longrightarrow> st_bytes m' b i = st_bytes m b i))"

definition same :: "'d store \<Rightarrow> 'd store \<Rightarrow> ptr set \<Rightarrow> bool" where
  "same m m' X \<longleftrightarrow> (\<forall>c\<in>X. st_room m' (fst c) = st_room m (fst c) \<and> st_bytes m' (fst c) (snd c) = st_bytes m (fst c) (snd c))"

definition fresh :: "'d store \<Rightarrow> 'd store \<Rightarrow> ptr set" where
  "fresh m m' = {st_next m..<st_next m'} \<times> UNIV"

definition lasting :: "'d store \<Rightarrow> ptr set \<Rightarrow> ('d store \<Rightarrow> bool) \<Rightarrow> bool" where
  "lasting m X P \<longleftrightarrow> (\<forall>m'. same m m' X \<longrightarrow> P m')"

lemma lasting_here: "lasting m X P \<Longrightarrow> P m"
  by (simp add: lasting_def same_def)

lemma lasting_mono: "lasting m X P \<Longrightarrow> X \<subseteq> Y \<Longrightarrow> (\<And>m'. P m' \<Longrightarrow> Q m') \<Longrightarrow> lasting m Y Q"
  unfolding lasting_def same_def by blast

lemma lasting_later: "lasting m X P \<Longrightarrow> same m m' X \<Longrightarrow> lasting m' X P"
  unfolding lasting_def same_def by simp

lemma touched_same:
  assumes "touched m m' X" and "X \<inter> Y = {}" and "fst ` Y \<subseteq> {..<st_next m}"
  shows "same m m' Y"
  unfolding same_def
proof
  fix c assume "c \<in> Y"
  then have "fst c < st_next m" "(fst c, snd c) \<notin> X" using assms(2,3) by auto
  then show "st_room m' (fst c) = st_room m (fst c) \<and> st_bytes m' (fst c) (snd c) = st_bytes m (fst c) (snd c)"
    using assms(1) unfolding touched_def by blast
qed

lemma touched_trans: "touched m m' X \<Longrightarrow> touched m' m'' Y \<Longrightarrow> touched m m'' (X \<union> Y)"
  unfolding touched_def by (metis Un_iff le_trans order_less_le_trans)

lemma touched_mono: "touched m m' X \<Longrightarrow> X \<subseteq> Y \<Longrightarrow> touched m m' Y"
  unfolding touched_def by blast

lemma touched_refl [simp]: "touched m m X"
  by (simp add: touched_def)

lemma touched_next: "touched m m' X \<Longrightarrow> st_next m \<le> st_next m'"
  by (simp add: touched_def)

lemma old_touched: "old m Y \<Longrightarrow> touched m m' X \<Longrightarrow> old m' Y"
  unfolding old_def touched_def accessible_def by (metis order_less_le_trans)

lemma old_fst: "old m X \<Longrightarrow> fst ` X \<subseteq> {..<st_next m}"
  by (auto simp: old_def)

lemma blank_old: "blank m X \<Longrightarrow> old m X"
  by (simp add: blank_def)

lemma blank_touched: "blank m Y \<Longrightarrow> touched m m' X \<Longrightarrow> X \<inter> Y = {} \<Longrightarrow> blank m' Y"
  using old_touched [of m Y m' X] touched_same [of m m' X Y] old_fst [of m Y] by (auto simp: blank_def same_def)

lemma old_mono: "old m Y \<Longrightarrow> X \<subseteq> Y \<Longrightarrow> old m X"
  by (auto simp: old_def)

lemma blank_mono: "blank m Y \<Longrightarrow> X \<subseteq> Y \<Longrightarrow> blank m X"
  by (auto simp: blank_def old_def)

lemma old_cells: "old m (cells p n) \<Longrightarrow> 0 < n \<Longrightarrow> accessible m p n"
proof -
  assume "old m (cells p n)" and n: "0 < n"
  then have "accessible m (fst p, snd p + n - 1) 1" by (auto simp: old_def cells_def)
  then show ?thesis using n by (auto simp: accessible_def split: option.splits)
qed

lemma blank_cells: "blank m (cells p n) \<Longrightarrow> zeroed m p n"
  by (auto simp: blank_def cells_def zeroed_def)

lemma same_cells:
  assumes "0 < n" and "same m m' (cells p n)"
  shows "accessible m' p k = accessible m p k" and "bytes_at m' p n = bytes_at m p n"
proof -
  have "p \<in> cells p n" using assms(1) by (cases p) (simp add: cells_def)
  then have "st_room m' (fst p) = st_room m (fst p)" using assms(2) by (simp add: same_def)
  then show "accessible m' p k = accessible m p k" by (simp add: accessible_def)
  show "bytes_at m' p n = bytes_at m p n" using assms(2) by (auto simp: same_def cells_def bytes_at_def)
qed

lemma object_same: "object_at m p n v \<Longrightarrow> 0 < n \<Longrightarrow> same m m' (cells p n) \<Longrightarrow> object_at m' p n v"
  by (simp add: object_at_def same_cells)

lemma blank_same: "blank m X \<Longrightarrow> same m m' X \<Longrightarrow> st_next m \<le> st_next m' \<Longrightarrow> blank m' X"
  by (auto simp: blank_def old_def accessible_def same_def)

lemma load_same: "0 < n \<Longrightarrow> same m m' (cells p n) \<Longrightarrow> load_value p n z m' = load_value p n z m"
  by (simp add: load_value_def same_cells)

lemma zeroed_same: "zeroed m p n \<Longrightarrow> same m m' (cells p n) \<Longrightarrow> zeroed m' p n"
  by (force simp: zeroed_def same_def cells_def)

lemma cells_part: "k + l \<le> n \<Longrightarrow> cells (shift p k) l \<subseteq> cells p n"
  by (auto simp: cells_def)

lemma cells_apart: "k + l \<le> k' \<or> k' + l' \<le> k \<Longrightarrow> cells (shift p k) l \<inter> cells (shift p k') l' = {}"
  by (auto simp: cells_def)

section \<open>Reading pieces of a buffer\<close>

text \<open>
  With less than \<open>n\<close> bytes left, the statement reads \<open>d\<close>, writes only \<open>X\<close> and new blocks, and leaves memory with \<open>P\<close>,
  which depends on nothing else.
\<close>

definition consumes :: "nat \<Rightarrow> 'd unpacker \<Rightarrow> bytes \<Rightarrow> 'd store \<Rightarrow> ptr set \<Rightarrow> ('d store \<Rightarrow> bool) \<Rightarrow> bool" where
  "consumes n u d m X P \<longleftrightarrow> (\<forall>r rest. at r (d @ rest) \<and> length (d @ rest) < n \<longrightarrow>
     (\<exists>m'. u r m = Some (Inr (True, adv (length d) r, m')) \<and> touched m m' X \<and> lasting m' (X \<union> fresh m m') P))"

lemma reads_mono:
  assumes "consumes n u d m X P" and "X \<subseteq> Y" and "\<And>m. P m \<Longrightarrow> Q m"
  shows "consumes n u d m Y Q"
  unfolding consumes_def
proof (intro allI impI)
  fix r rest assume "at r (d @ rest) \<and> length (d @ rest) < n"
  then obtain m' where m': "u r m = Some (Inr (True, adv (length d) r, m'))" "touched m m' X" "lasting m' (X \<union> fresh m m') P"
    using assms(1) unfolding consumes_def by blast
  have "lasting m' (Y \<union> fresh m m') Q" by (rule lasting_mono [OF m'(3)]) (use assms(2,3) in auto)
  then show "\<exists>m'. u r m = Some (Inr (True, adv (length d) r, m')) \<and> touched m m' Y \<and> lasting m' (Y \<union> fresh m m') Q"
    using m'(1) touched_mono [OF m'(2) assms(2)] by blast
qed

lemma reads_then:
  assumes "consumes n u d m X P" and "\<And>m'. touched m m' X \<Longrightarrow> P m' \<Longrightarrow> consumes n v e m' Y Q"
  shows "consumes n (un_then u v) (d @ e) m (X \<union> Y) Q"
  unfolding consumes_def
proof (intro allI impI, elim conjE)
  fix r rest assume r: "at r ((d @ e) @ rest)" and n: "length ((d @ e) @ rest) < n"
  obtain m1 where m1: "u r m = Some (Inr (True, adv (length d) r, m1))" "touched m m1 X" "lasting m1 (X \<union> fresh m m1) P"
    using assms(1) r n unfolding consumes_def by (metis append.assoc)
  have "at (adv (length d) r) (e @ rest)" using r by (auto intro: at_adv)
  then obtain m2 where m2: "v (adv (length d) r) m1 = Some (Inr (True, adv (length e) (adv (length d) r), m2))" "touched m1 m2 Y"
      "lasting m2 (Y \<union> fresh m1 m2) Q"
    using assms(2) [OF m1(2) lasting_here [OF m1(3)]] n unfolding consumes_def by fastforce
  have "Y \<union> fresh m1 m2 \<subseteq> X \<union> Y \<union> fresh m m2" using touched_next [OF m1(2)] by (auto simp: fresh_def)
  then have "lasting m2 (X \<union> Y \<union> fresh m m2) Q" by (rule lasting_mono [OF m2(3)])
  then show "\<exists>m'. un_then u v r m = Some (Inr (True, adv (length (d @ e)) r, m')) \<and> touched m m' (X \<union> Y) \<and> lasting m' (X \<union> Y \<union> fresh m m') Q"
    using m1 m2 touched_trans by (auto simp: un_then_def)
qed

text \<open>What the first statement has achieved stays when the second one writes other cells.\<close>

lemma reads_both:
  assumes "consumes n u d m X P" and "\<And>m'. touched m m' X \<Longrightarrow> P m' \<Longrightarrow> consumes n v e m' Y Q" and "X \<inter> Y = {}" and "old m X" and "old m Y"
  shows "consumes n (un_then u v) (d @ e) m (X \<union> Y) (\<lambda>m. P m \<and> Q m)"
  unfolding consumes_def
proof (intro allI impI, elim conjE)
  fix r rest assume r: "at r ((d @ e) @ rest)" and n: "length ((d @ e) @ rest) < n"
  obtain m1 where m1: "u r m = Some (Inr (True, adv (length d) r, m1))" "touched m m1 X" "lasting m1 (X \<union> fresh m m1) P"
    using assms(1) r n unfolding consumes_def by (metis append.assoc)
  have "at (adv (length d) r) (e @ rest)" using r by (auto intro: at_adv)
  then obtain m2 where m2: "v (adv (length d) r) m1 = Some (Inr (True, adv (length e) (adv (length d) r), m2))" "touched m1 m2 Y"
      "lasting m2 (Y \<union> fresh m1 m2) Q"
    using assms(2) [OF m1(2) lasting_here [OF m1(3)]] n unfolding consumes_def by fastforce
  have "Y \<inter> (X \<union> fresh m m1) = {}" using assms(3,5) by (auto simp: fresh_def old_def)
  moreover have "fst ` (X \<union> fresh m m1) \<subseteq> {..<st_next m1}"
    using old_fst [OF assms(4)] touched_next [OF m1(2)] by (auto simp: fresh_def)
  ultimately have "lasting m2 (X \<union> fresh m m1) P" by (intro lasting_later [OF m1(3)] touched_same [OF m2(2)])
  moreover have "Y \<union> fresh m1 m2 \<subseteq> X \<union> Y \<union> fresh m m2" "X \<union> fresh m m1 \<subseteq> X \<union> Y \<union> fresh m m2"
    using touched_next [OF m1(2)] touched_next [OF m2(2)] by (auto simp: fresh_def)
  ultimately have "lasting m2 (X \<union> Y \<union> fresh m m2) (\<lambda>m. P m \<and> Q m)" using m2(3) unfolding lasting_def same_def by blast
  then show "\<exists>m'. un_then u v r m = Some (Inr (True, adv (length (d @ e)) r, m')) \<and> touched m m' (X \<union> Y) \<and> lasting m' (X \<union> Y \<union> fresh m m') (\<lambda>m. P m \<and> Q m)"
    using m1 m2 touched_trans by (auto simp: un_then_def)
qed

lemma readsI:
  assumes "\<And>r rest. at r (d @ rest) \<Longrightarrow> length (d @ rest) < n \<Longrightarrow>
    \<exists>m'. u r m = Some (Inr (True, adv (length d) r, m')) \<and> touched m m' X \<and> lasting m' (X \<union> fresh m m') P"
  shows "consumes n u d m X P"
  using assms unfolding consumes_def by blast

lemma reads_done: "consumes n un_done [] m {} (\<lambda>_. True)"
  by (auto simp: consumes_def un_done_def lasting_def)

lemma reads_store:
  assumes "old m (cells p k)" and "0 < k"
  shows "consumes n (un_mem (store_value p k v)) [] m (cells p k) (\<lambda>m. object_at m p k v)"
proof (rule readsI)
  fix r rest
  have "accessible m p k" using assms by (rule old_cells)
  from store_object [OF this, of v] obtain m' where m': "store_value p k v m = Inr m'" "object_at m' p k v" "changed m m' (fst p) {snd p..<snd p + k}"
    by blast
  have "touched m m' (cells p k)" using m'(3) by (auto simp: changed_def touched_def cells_def)
  moreover have "lasting m' (cells p k) (\<lambda>m. object_at m p k v)" using m'(2) assms(2) by (auto simp: lasting_def intro: object_same)
  then have "lasting m' (cells p k \<union> fresh m m') (\<lambda>m. object_at m p k v)" by (rule lasting_mono) auto
  ultimately show "\<exists>m'. un_mem (store_value p k v) r m = Some (Inr (True, adv (length []) r, m')) \<and> touched m m' (cells p k) \<and>
      lasting m' (cells p k \<union> fresh m m') (\<lambda>m. object_at m p k v)"
    using m'(1) by (auto simp: un_mem_def un_done_def)
qed

lemma reads_zeros:
  assumes "accessible m p k"
  shows "consumes n (un_mem (zero_bytes p k)) [] m (cells p k) (\<lambda>m. zeroed m p k)"
proof (rule readsI)
  fix r rest
  from zero_object [OF assms] obtain m' where m': "zero_bytes p k m = Inr m'" "zeroed m' p k" "changed m m' (fst p) {snd p..<snd p + k}"
    by blast
  have "touched m m' (cells p k)" using m'(3) by (auto simp: changed_def touched_def cells_def)
  moreover have "lasting m' (cells p k) (\<lambda>m. zeroed m p k)" using m'(2) by (auto simp: lasting_def intro: zeroed_same)
  then have "lasting m' (cells p k \<union> fresh m m') (\<lambda>m. zeroed m p k)" by (rule lasting_mono) auto
  ultimately show "\<exists>m'. un_mem (zero_bytes p k) r m = Some (Inr (True, adv (length []) r, m')) \<and> touched m m' (cells p k) \<and>
      lasting m' (cells p k \<union> fresh m m') (\<lambda>m. zeroed m p k)"
    using m'(1) by (auto simp: un_mem_def un_done_def)
qed

lemma reads_with:
  assumes "\<And>r rest. at r (d @ rest) \<Longrightarrow> dec r = (Some v, adv (length d) r)" and "consumes n (k v) e m X P"
  shows "consumes n (un_with dec k) (d @ e) m X P"
proof (rule readsI)
  fix r rest assume r: "at r ((d @ e) @ rest)" and n: "length ((d @ e) @ rest) < n"
  have "at (adv (length d) r) (e @ rest)" using r by (auto intro: at_adv)
  then obtain m' where "k v (adv (length d) r) m = Some (Inr (True, adv (length e) (adv (length d) r), m'))" "touched m m' X" "lasting m' (X \<union> fresh m m') P"
    using assms(2) n unfolding consumes_def by fastforce
  then show "\<exists>m'. un_with dec k r m = Some (Inr (True, adv (length (d @ e)) r, m')) \<and> touched m m' X \<and> lasting m' (X \<union> fresh m m') P"
    using assms(1) r by (auto simp: un_with_def)
qed

lemma reads_number:
  assumes "\<And>r rest. at r (d @ rest) \<Longrightarrow> dec r = Inr (Some v, adv (length d) r)" and "consumes n (k v) [] m X P"
  shows "consumes n (un_number dec k) d m X P"
proof (rule readsI)
  fix r rest assume r: "at r (d @ rest)" and n: "length (d @ rest) < n"
  have "at (adv (length d) r) rest" using r by (rule at_adv)
  then obtain m' where "k v (adv (length d) r) m = Some (Inr (True, adv (length d) r, m'))" "touched m m' X" "lasting m' (X \<union> fresh m m') P"
    using assms(2) n unfolding consumes_def by fastforce
  then show "\<exists>m'. un_number dec k r m = Some (Inr (True, adv (length d) r, m')) \<and> touched m m' X \<and> lasting m' (X \<union> fresh m m') P"
    using assms(1) r by (auto simp: un_number_def)
qed

lemma reads_get: "f m = Inr v \<Longrightarrow> consumes n (k v) d m X P \<Longrightarrow> consumes n (un_get f k) d m X P"
  by (simp add: consumes_def un_get_def)

lemma reads_malloc:
  assumes "\<And>m1. mem_malloc (sz * (if c > 0 then c else 1)) m = (st_next m, m1) \<Longrightarrow> consumes n (k (st_next m)) d m1 (X \<union> {st_next m} \<times> UNIV) P"
  shows "consumes n (un_malloc sz c k) d m X P"
proof (rule readsI)
  fix r rest assume r: "at r (d @ rest)" "length (d @ rest) < n"
  obtain m1 where m1: "mem_malloc (sz * (if c > 0 then c else 1)) m = (st_next m, m1)" by (simp add: mem_malloc_def)
  note t = malloc_fresh [OF m1]
  obtain m' where m': "k (st_next m) r m1 = Some (Inr (True, adv (length d) r, m'))" "touched m1 m' (X \<union> {st_next m} \<times> UNIV)"
      "lasting m' (X \<union> {st_next m} \<times> UNIV \<union> fresh m1 m') P"
    using assms [OF m1] r unfolding consumes_def by blast
  have "touched m m1 {}" using t(2) by (auto simp: changed_def touched_def)
  from touched_trans [OF this m'(2)] have "touched m m' X" by (auto simp: touched_def)
  moreover have "fresh m m' = {st_next m} \<times> UNIV \<union> fresh m1 m'" using t(4) touched_next [OF m'(2)] by (auto simp: fresh_def)
  then have "lasting m' (X \<union> fresh m m') P" using m'(3) by (simp add: Un_assoc)
  ultimately show "\<exists>m'. un_malloc sz c k r m = Some (Inr (True, adv (length d) r, m')) \<and> touched m m' X \<and> lasting m' (X \<union> fresh m m') P"
    using m1 m'(1) by (auto simp: un_malloc_def)
qed

text \<open>Zero cells that a statement does not write are still zero.\<close>

lemma reads_spared:
  assumes "consumes n u d m X P" and "blank m (cells p k)" and "0 < k" and "X \<inter> cells p k = {}"
  shows "consumes n u d m (X \<union> cells p k) (\<lambda>m. P m \<and> zeroed m p k \<and> accessible m p k)"
proof (rule readsI)
  fix r rest assume "at r (d @ rest)" "length (d @ rest) < n"
  then obtain m' where m': "u r m = Some (Inr (True, adv (length d) r, m'))" "touched m m' X" "lasting m' (X \<union> fresh m m') P"
    using assms(1) unfolding consumes_def by blast
  have b: "blank m' (cells p k)" using blank_touched [OF assms(2) m'(2)] assms(4) by simp
  have "lasting m' (cells p k) (\<lambda>m. zeroed m p k \<and> accessible m p k)" unfolding lasting_def
  proof (intro allI impI)
    fix m2 assume s: "same m' m2 (cells p k)"
    show "zeroed m2 p k \<and> accessible m2 p k"
      using zeroed_same [OF blank_cells [OF b] s] old_cells [OF blank_old [OF b] assms(3)] same_cells(1) [OF assms(3) s] by simp
  qed
  then have "lasting m' (X \<union> cells p k \<union> fresh m m') (\<lambda>m. P m \<and> zeroed m p k \<and> accessible m p k)"
    using m'(3) unfolding lasting_def same_def by blast
  then show "\<exists>m'. u r m = Some (Inr (True, adv (length d) r, m')) \<and> touched m m' (X \<union> cells p k) \<and>
      lasting m' (X \<union> cells p k \<union> fresh m m') (\<lambda>m. P m \<and> zeroed m p k \<and> accessible m p k)"
    using m'(1) touched_mono [OF m'(2)] by blast
qed

lemma reads_items:
  assumes "\<And>i m'. i \<in> set is \<Longrightarrow> blank m' (X i) \<Longrightarrow> consumes n (u i) (d i) m' (X i) (P i)" and "distinct is"
    and "\<And>i j. i \<in> set is \<Longrightarrow> j \<in> set is \<Longrightarrow> i \<noteq> j \<Longrightarrow> X i \<inter> X j = {}" and "\<And>i. i \<in> set is \<Longrightarrow> blank m (X i)"
  shows "consumes n (unpack_items u is) (concat (map d is)) m (\<Union>i\<in>set is. X i) (\<lambda>m. \<forall>i\<in>set is. P i m)"
  using assms
proof (induction "is" arbitrary: m)
  case Nil
  then show ?case using reads_done [of n m] by simp
next
  case (Cons i "is")
  have "consumes n (un_then (u i) (unpack_items u is)) (d i @ concat (map d is)) m (X i \<union> (\<Union>i\<in>set is. X i)) (\<lambda>m. P i m \<and> (\<forall>i\<in>set is. P i m))"
  proof (rule reads_both)
    show "consumes n (u i) (d i) m (X i) (P i)" using Cons.prems by simp
    show d: "X i \<inter> (\<Union>i\<in>set is. X i) = {}"
    proof -
      have "X i \<inter> X j = {}" if "j \<in> set is" for j by (rule Cons.prems(3)) (use that Cons.prems(2) in auto)
      then show ?thesis by blast
    qed
    fix m' assume t: "touched m m' (X i)"
    show "consumes n (unpack_items u is) (concat (map d is)) m' (\<Union>i\<in>set is. X i) (\<lambda>m. \<forall>i\<in>set is. P i m)"
    proof (rule Cons.IH)
      fix j assume j: "j \<in> set is"
      show "blank m' (X j)" by (rule blank_touched [OF _ t]) (use Cons.prems(4) j d in auto)
    next
      show "X a \<inter> X b = {}" if "a \<in> set is" "b \<in> set is" "a \<noteq> b" for a b by (rule Cons.prems(3)) (use that in auto)
    qed (use Cons.prems in simp_all)
  next
    show "old m (X i)" using Cons.prems(4) by (simp add: blank_old)
    show "old m (\<Union>i\<in>set is. X i)" using Cons.prems(4) by (auto simp: blank_def old_def)
  qed
  then show ?case by simp
qed

end
