(* ===== verification/BinaryRoundtrip.thy ===== *)
theory BinaryRoundtrip
  imports BinarySpec BinaryMemory
begin

text \<open>
  Unpacking undoes packing, for every runtime with the contract \<open>struct_codec\<close>: the unpack function of a struct, given
  the bytes of its pack function and zeroed memory, leaves the same values there and touches nothing else.
\<close>

section \<open>Where a struct keeps its fields\<close>

text \<open>
  \<open>pieces\<close>: the offsets and sizes of what the struct has of a field. \<open>compiled\<close> states two things: the pieces are apart and
  inside the struct, which a compiler guarantees, and the keys of a struct differ, which neither the compiler nor the validation
  ensures (names differ, but two fields may have the same json annotation).
\<close>

definition type_bytes :: "'d program \<Rightarrow> field_type \<Rightarrow> string \<Rightarrow> nat" where
  "type_bytes pg ft tn = (case c_int_of ft of
     Some T \<Rightarrow> c_int_bits T div 8
   | None \<Rightarrow> if ft = FIELD_TYPE_FLOAT \<or> ft = FIELD_TYPE_ENUM then 4
             else if ft = FIELD_TYPE_DOUBLE \<or> ft = FIELD_TYPE_SSTR then 8 else size_of pg tn)"

definition wire_key :: "struct_field \<Rightarrow> bytes" where
  "wire_key f = map byte_of_char (cstr (JSON_KEY f))"

definition value_pieces :: "'d program \<Rightarrow> string \<Rightarrow> struct_field \<Rightarrow> (nat \<times> nat) list" where
  "value_pieces pg st f =
     (let off = (\<lambda>n. col (pg_env pg) (offsetof st n)); sz = type_bytes pg (fd_type f) (fd_type_name f)
      in if \<not> fd_is_array f then [(off (fd_name f), sz)]
         else if 0 < fd_array_size f then [(off (fd_name f), nat (fd_array_size f) * sz)]
         else [(off (fd_name f), 8), (off (fd_name f @ ''_len''), 4)])"

definition pieces :: "'d program \<Rightarrow> string \<Rightarrow> struct_field \<Rightarrow> (nat \<times> nat) list" where
  "pieces pg st f = value_pieces pg st f
     @ (if may_be_absent f then [(col (pg_env pg) (offsetof st (''has_'' @ fd_name f)), 1)] else [])"

fun pieces_apart :: "(nat \<times> nat) list \<Rightarrow> bool" where
  "pieces_apart [] \<longleftrightarrow> True"
| "pieces_apart (x # xs) \<longleftrightarrow> list_all (\<lambda>y. fst x + snd x \<le> fst y \<or> fst y + snd y \<le> fst x) xs \<and> pieces_apart xs"

definition laid_out :: "'d program \<Rightarrow> string \<Rightarrow> struct_field list \<Rightarrow> bool" where
  "laid_out pg st fs \<longleftrightarrow> distinct (map wire_key fs) \<and> pieces_apart (concat (map (pieces pg st) fs))
     \<and> list_all (\<lambda>x. fst x + snd x \<le> size_of pg st) (concat (map (pieces pg st) fs))"

definition compiled :: "'d program \<Rightarrow> bool" where
  "compiled pg \<longleftrightarrow> (\<forall>st fs. pg_struct pg st = Some fs \<longrightarrow> laid_out pg st fs)"

text \<open>Numbers keep their bits when they are read back, a \<open>float\<close> on the way through \<open>double\<close>.\<close>

definition exact_floats :: "'d floats \<Rightarrow> bool" where
  "exact_floats fb \<longleftrightarrow> (\<forall>d. fb_double fb (fb_to_double fb (fb_double fb d)) = fb_double fb d
     \<and> fb_float fb (fb_to_float fb (f_to_d (fb_conv fb) (fb_float fb d))) = fb_float fb d)"

definition piece_cells :: "ptr \<Rightarrow> (nat \<times> nat) list \<Rightarrow> ptr set" where
  "piece_cells p ps = (\<Union>x\<in>set ps. cells (shift p (fst x)) (snd x))"

lemma piece_cells_simps [simp]:
  "piece_cells p [] = {}" "piece_cells p (x # ps) = cells (shift p (fst x)) (snd x) \<union> piece_cells p ps"
  "piece_cells p (ps @ qs) = piece_cells p ps \<union> piece_cells p qs"
  by (auto simp: piece_cells_def)

lemma apart_cells: "pieces_apart (ps @ qs) \<longleftrightarrow> pieces_apart ps \<and> pieces_apart qs \<and> (\<forall>x\<in>set ps. \<forall>y\<in>set qs. fst x + snd x \<le> fst y \<or> fst y + snd y \<le> fst x)"
  by (induction ps) (auto simp: list_all_iff)

lemma apart_disjoint: "pieces_apart (ps @ qs) \<Longrightarrow> piece_cells p ps \<inter> piece_cells p qs = {}"
  unfolding apart_cells by (fastforce simp: piece_cells_def cells_def)

lemma pieces_inside: "list_all (\<lambda>x. fst x + snd x \<le> n) ps \<Longrightarrow> piece_cells p ps \<subseteq> cells p n"
  by (fastforce simp: piece_cells_def cells_def list_all_iff)

lemma accessible_old: "fst p < st_next m \<Longrightarrow> accessible m p n \<Longrightarrow> old m (cells p n)"
  by (auto simp: old_def cells_def accessible_def split: option.splits)

lemma reads_then_done: "consumes n u d m X P \<Longrightarrow> consumes n (un_then u un_done) d m X P"
  unfolding consumes_def un_then_def by (fastforce simp: un_done_def)

lemma wire_key_cells: "distinct (map wire_key (pre @ f # fs)) \<Longrightarrow> find (\<lambda>g. wire_key f = wire_key g) (pre @ f # fs) = Some f"
  by (induction pre) auto

text \<open>The address is ready for a value: a string is there, anything else is zero.\<close>

definition ready :: "'d program \<Rightarrow> 'd store \<Rightarrow> field_type \<Rightarrow> string \<Rightarrow> ptr \<Rightarrow> bool" where
  "ready pg m ft tn p \<longleftrightarrow> (if ft = FIELD_TYPE_SSTR then old m (cells p 8) \<and> load_str p m \<noteq> Inr None \<and> (\<exists>s. load_str p m = Inr s)
     else blank m (cells p (type_bytes pg ft tn)))"

lemma ready_old: "ready pg m ft tn p \<Longrightarrow> old m (cells p (type_bytes pg ft tn))"
  by (auto simp: ready_def type_bytes_def blank_old split: if_splits)

lemma c_cast_word:
  assumes "c_int_min T \<le> i" and "i \<le> c_int_max T"
  shows "c_int_signed T \<Longrightarrow> c_cast T (sint (word_of_int i :: u64)) = i"
    and "\<not> c_int_signed T \<Longrightarrow> c_cast T (uint (word_of_int i :: u64)) = i"
proof -
  show "c_cast T (sint (word_of_int i :: u64)) = i" if "c_int_signed T"
  proof -
    have "c_int_bits T \<in> {8, 16, 32, 64}" "- (2 ^ (c_int_bits T - 1)) \<le> i" "i < 2 ^ (c_int_bits T - 1)"
      using assms that by (cases T; simp add: c_int_min_def c_int_max_def)+
    then have "sint (word_of_int i :: u64) = i" "signed_take_bit (c_int_bits T - 1) i = i"
      by (auto simp: sint_word_of_int signed_take_bit_int_eq_self_iff intro!: signed_take_bit_int_eq_self)
    then show ?thesis using that by (simp only: c_cast_def if_True)
  qed
  show "c_cast T (uint (word_of_int i :: u64)) = i" if "\<not> c_int_signed T"
  proof -
    have "c_int_bits T \<in> {8, 16, 32, 64}" "0 \<le> i" "i < 2 ^ c_int_bits T"
      using assms that by (cases T; simp add: c_int_min_def c_int_max_def)+
    then have "uint (word_of_int i :: u64) = i" "take_bit (c_int_bits T) i = i"
      by (auto simp: uint_word_of_int take_bit_int_eq_self_iff)
    then show ?thesis using that by (simp only: c_cast_def if_False)
  qed
qed

lemma reads_put_int:
  assumes "old m (cells p (c_int_bits T div 8))" and "c_cast T j = i"
  shows "consumes n (put_int T p j) [] m (cells p (c_int_bits T div 8)) (\<lambda>m. load_int_of T p m = Inr i)"
proof -
  have "0 < c_int_bits T div 8" by (cases T) simp_all
  from reads_store [OF assms(1) this, of n "Value (J_int i)"] show ?thesis unfolding put_int_def assms(2)
    by (rule reads_mono) (simp_all add: load_object_simps)
qed

lemma reads_put_str: "old m (cells p 8) \<Longrightarrow> consumes n (put_str p s) [] m (cells p 8) (\<lambda>m. load_str p m = Inr (Some (map char_of_byte s)))"
  unfolding put_str_def by (rule reads_mono [OF reads_store]) (auto intro: load_object_simps)

context struct_codec
begin

lemma reads_un:
  "consumes n (kb b) [] m X P \<Longrightarrow> consumes n (un_with (un_bool co) kb) (enc (MBool b)) m X P"
  "consumes n (k v) [] m X P \<Longrightarrow> consumes n (un_with (un_int64 co) k) (enc (MInt v)) m X P"
  "consumes n (k v) [] m X P \<Longrightarrow> consumes n (un_with (un_uint64 co) k) (enc (MUint v)) m X P"
  "consumes n (k v) [] m X P \<Longrightarrow> consumes n (un_number (un_number_int co fc) k) (enc (MInt v)) m X P"
  "consumes n (k v) [] m X P \<Longrightarrow> consumes n (un_number (un_number_uint co fc) k) (enc (MUint v)) m X P"
  "consumes n (k v) [] m X P \<Longrightarrow> consumes n (un_with (un_number_double co fc) k) (enc (MDouble v)) m X P"
  "consumes n (k (f_to_d fc w)) [] m X P \<Longrightarrow> consumes n (un_with (un_number_double co fc) k) (enc (MFloat w)) m X P"
  "length s < 2 ^ 32 \<Longrightarrow> consumes n (ks s) [] m X P \<Longrightarrow> consumes n (un_with (un_str co) ks) (enc (MStr s)) m X P"
  using reads_with [OF unpack_bool, where k = kb and e = "[]"] reads_with [OF unpack_int64, where k = k and e = "[]"]
    reads_with [OF unpack_uint64, where k = k and e = "[]"] reads_with [OF unpack_double, where k = k and e = "[]"]
    reads_with [OF unpack_float, where k = k and e = "[]"] reads_with [OF unpack_str, where k = ks and e = "[]"]
  by (simp_all add: reads_number unpack_number_int unpack_number_uint)

text \<open>A scalar is read into an address that is ready for it.\<close>

lemma reads_bytes: "c_int_of ft = Some T \<Longrightarrow> type_bytes pg ft tn = c_int_bits T div 8"
  by (simp add: type_bytes_def)

lemma signed_reads:
  assumes "ft \<noteq> FIELD_TYPE_BOOL" and "c_int_of ft = Some T" and "c_int_signed T" and i: "c_int_min T \<le> i" "i \<le> c_int_max T"
    and "ready pg m ft tn q"
  shows "consumes n (gen_unpack_scalar co fb pg rec k ft tn q) (enc (MInt (word_of_int i))) m (cells q (type_bytes pg ft tn))
    (\<lambda>m. scalar_is pg fb m ft tn q (MInt (word_of_int i)))"
proof -
  have "consumes n (put_int T q (sint (word_of_int i :: u64))) [] m (cells q (c_int_bits T div 8)) (\<lambda>m. load_int_of T q m = Inr i)"
    by (rule reads_put_int) (use c_cast_word(1) [OF i assms(3)] ready_old [OF assms(6)] in \<open>simp_all add: reads_bytes [OF assms(2)]\<close>)
  then have w: "consumes n (put_int T q (sint (word_of_int i :: u64))) [] m (cells q (type_bytes pg ft tn)) (\<lambda>m. scalar_is pg fb m ft tn q (MInt (word_of_int i)))"
    by (rule reads_mono) (use assms in \<open>auto simp: reads_bytes intro: signed_is\<close>)
  note r = reads_un(2) [where k = "\<lambda>v. put_int T q (sint v)", OF w] reads_un(4) [where k = "\<lambda>v. put_int T q (sint v)", OF w]
  have "ft = FIELD_TYPE_INT64 \<longleftrightarrow> T = C_int64_t" "ft \<noteq> FIELD_TYPE_UINT64" using assms by (cases ft; auto)+
  then show ?thesis using r assms by (cases "ft = FIELD_TYPE_INT64") (simp_all add: gen_unpack_scalar_def)
qed

lemma unsigned_reads:
  assumes "c_int_of ft = Some T" and "\<not> c_int_signed T" and i: "c_int_min T \<le> i" "i \<le> c_int_max T" and "ready pg m ft tn q"
  shows "consumes n (gen_unpack_scalar co fb pg rec k ft tn q) (enc (MUint (word_of_int i))) m (cells q (type_bytes pg ft tn))
    (\<lambda>m. scalar_is pg fb m ft tn q (MUint (word_of_int i)))"
proof -
  have "consumes n (put_int T q (uint (word_of_int i :: u64))) [] m (cells q (c_int_bits T div 8)) (\<lambda>m. load_int_of T q m = Inr i)"
    by (rule reads_put_int) (use c_cast_word(2) [OF i assms(2)] ready_old [OF assms(5)] in \<open>simp_all add: reads_bytes [OF assms(1)]\<close>)
  then have w: "consumes n (put_int T q (uint (word_of_int i :: u64))) [] m (cells q (type_bytes pg ft tn)) (\<lambda>m. scalar_is pg fb m ft tn q (MUint (word_of_int i)))"
    by (rule reads_mono) (use assms in \<open>auto simp: reads_bytes intro: unsigned_is\<close>)
  note r = reads_un(3) [where k = "\<lambda>v. put_int T q (uint v)", OF w] reads_un(5) [where k = "\<lambda>v. put_int T q (uint v)", OF w]
  have "ft = FIELD_TYPE_UINT64 \<longleftrightarrow> T = C_uint64_t" "ft \<noteq> FIELD_TYPE_INT64" "ft \<noteq> FIELD_TYPE_BOOL" using assms by (cases ft; auto)+
  then show ?thesis using r assms by (cases "ft = FIELD_TYPE_UINT64") (simp_all add: gen_unpack_scalar_def)
qed

lemma reads_float:
  assumes "old m (cells q k)" and "0 < k" and "\<And>m. load_float k z q m = Inr d \<Longrightarrow> P m"
  shows "consumes n (un_mem (store_value q k (Value (J_float d)))) [] m (cells q k) P"
  by (rule reads_mono [OF reads_store]) (use assms in \<open>simp_all add: load_object_simps(5)\<close>)

lemma float_reads:
  assumes "exact_floats fb" and "ready pg m FIELD_TYPE_FLOAT tn q"
  shows "consumes n (gen_unpack_scalar co fb pg rec k FIELD_TYPE_FLOAT tn q) (enc (MFloat (fb_float fb d))) m (cells q (type_bytes pg FIELD_TYPE_FLOAT tn))
    (\<lambda>m. scalar_is pg fb m FIELD_TYPE_FLOAT tn q (MFloat (fb_float fb d)))"
proof -
  let ?d = "fb_to_float fb (f_to_d (fb_conv fb) (fb_float fb d))"
  have b: "type_bytes pg FIELD_TYPE_FLOAT tn = 4" by (simp add: type_bytes_def)
  have "scalar_is pg fb m FIELD_TYPE_FLOAT tn q (MFloat (fb_float fb d))" if "load_float 4 (je_zero (pg_env pg)) q m = Inr ?d" for m
    using float_is [OF that, where fb = fb and tn = tn] assms(1) by (simp add: exact_floats_def)
  then have "consumes n (un_mem (store_value q 4 (Value (J_float ?d)))) [] m (cells q 4) (\<lambda>m. scalar_is pg fb m FIELD_TYPE_FLOAT tn q (MFloat (fb_float fb d)))"
    by (rule reads_float [rotated 2]) (use ready_old [OF assms(2)] b in auto)
  from reads_un(7) [where k = "\<lambda>v. un_mem (store_value q 4 (Value (J_float (fb_to_float fb v))))", OF this]
  show ?thesis by (simp add: gen_unpack_scalar_def b)
qed

lemma double_reads:
  assumes "exact_floats fb" and "ready pg m FIELD_TYPE_DOUBLE tn q"
  shows "consumes n (gen_unpack_scalar co fb pg rec k FIELD_TYPE_DOUBLE tn q) (enc (MDouble (fb_double fb d))) m (cells q (type_bytes pg FIELD_TYPE_DOUBLE tn))
    (\<lambda>m. scalar_is pg fb m FIELD_TYPE_DOUBLE tn q (MDouble (fb_double fb d)))"
proof -
  let ?d = "fb_to_double fb (fb_double fb d)"
  have b: "type_bytes pg FIELD_TYPE_DOUBLE tn = 8" by (simp add: type_bytes_def)
  have "scalar_is pg fb m FIELD_TYPE_DOUBLE tn q (MDouble (fb_double fb d))" if "load_float 8 (je_zero (pg_env pg)) q m = Inr ?d" for m
    using double_is [OF that, where fb = fb and tn = tn] assms(1) by (simp add: exact_floats_def)
  then have "consumes n (un_mem (store_value q 8 (Value (J_float ?d)))) [] m (cells q 8) (\<lambda>m. scalar_is pg fb m FIELD_TYPE_DOUBLE tn q (MDouble (fb_double fb d)))"
    by (rule reads_float [rotated 2]) (use ready_old [OF assms(2)] b in auto)
  from reads_un(6) [where k = "\<lambda>v. un_mem (store_value q 8 (Value (J_float (fb_to_double fb v))))", OF this]
  show ?thesis by (simp add: gen_unpack_scalar_def b)
qed

lemma bool_reads:
  assumes "ready pg m FIELD_TYPE_BOOL tn q"
  shows "consumes n (gen_unpack_scalar co fb pg rec k FIELD_TYPE_BOOL tn q) (enc (MBool b)) m (cells q (type_bytes pg FIELD_TYPE_BOOL tn))
    (\<lambda>m. scalar_is pg fb m FIELD_TYPE_BOOL tn q (MBool b))"
proof -
  let ?i = "if b then 1 else 0 :: int"
  have w: "consumes n (put_int C_int q ?i) [] m (cells q (c_int_bits C_int div 8)) (\<lambda>m. load_int_of C_int q m = Inr ?i)"
    by (rule reads_put_int) (use ready_old [OF assms] in \<open>auto simp: type_bytes_def c_cast_def\<close>)
  have b: "scalar_is pg fb m FIELD_TYPE_BOOL tn q (MBool b)" if "load_int_of C_int q m = Inr ?i" for m
  proof -
    have "load_int q m = Inr ?i" using that by (simp add: load_int_of_def load_int_def)
    from bool_is [OF this, where pg = pg and fb = fb and tn = tn] show ?thesis by (simp split: if_splits)
  qed
  have "consumes n (put_int C_int q ?i) [] m (cells q (type_bytes pg FIELD_TYPE_BOOL tn)) (\<lambda>m. scalar_is pg fb m FIELD_TYPE_BOOL tn q (MBool b))"
    by (rule reads_mono [OF w]) (simp_all add: type_bytes_def b)
  from reads_un(1) [where kb = "\<lambda>b. put_int C_int q (if b then 1 else 0)", OF this] show ?thesis by (simp add: gen_unpack_scalar_def)
qed

lemma string_reads:
  assumes "length s < 2 ^ 32" and "ready pg m FIELD_TYPE_SSTR tn q"
  shows "consumes n (gen_unpack_scalar co fb pg rec k FIELD_TYPE_SSTR tn q) (enc (MStr (map byte_of_char s))) m (cells q (type_bytes pg FIELD_TYPE_SSTR tn))
    (\<lambda>m. scalar_is pg fb m FIELD_TYPE_SSTR tn q (MStr (map byte_of_char s)))"
proof -
  have b: "type_bytes pg FIELD_TYPE_SSTR tn = 8" by (simp add: type_bytes_def)
  obtain t where t: "load_str q m = Inr (Some t)" using assms(2) by (auto simp: ready_def)
  have st: "consumes n (un_mem (store_value q 8 (Value (J_str (Some (map char_of_byte (map byte_of_char s))))))) [] m (cells q 8)
      (\<lambda>m. scalar_is pg fb m FIELD_TYPE_SSTR tn q (MStr (map byte_of_char s)))"
    by (rule reads_mono [OF reads_store])
      (use ready_old [OF assms(2)] b assms(1) in \<open>auto simp: o_def intro!: string_is dest: load_object_simps\<close>)
  note w = reads_un(8) [where ks = "\<lambda>s. un_get (load_str q) (\<lambda>x. case x of None \<Rightarrow> un_mem (\<lambda>m. Inl Null_deref)
     | Some t \<Rightarrow> un_mem (store_value q 8 (Value (J_str (Some (map char_of_byte s))))))", OF _ reads_get [where f = "load_str q", OF t]]
  show ?thesis using w [of "map byte_of_char s"] assms(1) st by (simp add: gen_unpack_scalar_def b)
qed

lemma peek_enc: "at r (enc v @ rest) \<Longrightarrow> mp_good v \<Longrightarrow> v \<noteq> MNil \<Longrightarrow> co_peek co r \<noteq> uint (co_null co)"
proof -
  assume r: "at r (enc v @ rest)" and "mp_good v" "v \<noteq> MNil"
  then have "hd (enc v) \<noteq> co_null co" using first_null by blast
  moreover have "co_peek co r = uint (hd (enc v))" using r head_nonempty(2) [of v] by (cases "enc v") (auto intro: peek)
  ultimately show ?thesis by (simp add: word_uint_eq_iff)
qed

lemma enc_first_byte: "at r (enc v @ rest) \<Longrightarrow> rd_pos r < rd_len r \<and> rd_data r ! rd_pos r = hd (enc v)"
  using head_nonempty(2) [of v] by (cases "enc v") (auto dest: at_Cons)

lemma enum_reads:
  assumes v: "v = MStr s \<and> name_index 0 s (enum_strings pg tn) = Some (nat i) \<and> 0 \<le> i \<and> length s < 2 ^ 32
      \<or> v = MInt (word_of_int i) \<and> \<not> (0 \<le> i \<and> i < int (length (enum_strings pg tn)))"
    and i: "c_int_min C_int \<le> i" "i \<le> c_int_max C_int" and m: "ready pg m FIELD_TYPE_ENUM tn q"
  shows "consumes n (gen_unpack_scalar co fb pg rec k FIELD_TYPE_ENUM tn q) (enc v) m (cells q (type_bytes pg FIELD_TYPE_ENUM tn))
    (\<lambda>m. scalar_is pg fb m FIELD_TYPE_ENUM tn q v)"
proof -
  have b: "type_bytes pg FIELD_TYPE_ENUM tn = 4" by (simp add: type_bytes_def)
  have sc: "scalar_is pg fb m FIELD_TYPE_ENUM tn q v" if "load_int_of C_int q m = Inr i" for m
  proof -
    have "load_int q m = Inr i" using that by (simp add: load_int_of_def load_int_def)
    then show ?thesis using v i by (auto intro: enum_is [where i = "nat i"] enum_number_is simp: c_int_max_def)
  qed
  have put: "consumes n (put_int C_int q j) [] m (cells q 4) (\<lambda>m. scalar_is pg fb m FIELD_TYPE_ENUM tn q v)" if "c_cast C_int j = i" for j
  proof (rule reads_mono)
    show "consumes n (put_int C_int q j) [] m (cells q (c_int_bits C_int div 8)) (\<lambda>m. load_int_of C_int q m = Inr i)"
      by (rule reads_put_int) (use ready_old [OF m] b that in simp_all)
  qed (simp_all add: sc)
  have cast: "c_cast C_int i = i" using i by (simp add: c_cast_def c_int_min_def c_int_max_def signed_take_bit_int_eq_self)
  have w: "consumes n (if \<exists>s. v = MStr s then un_with (un_str co) (\<lambda>s. case name_index 0 s (enum_strings pg tn) of
             Some i \<Rightarrow> put_int C_int q (int i) | None \<Rightarrow> un_stop)
           else un_number (un_number_int co (fb_conv fb)) (\<lambda>v. put_int C_int q (sint v))) (enc v) m (cells q 4)
         (\<lambda>m. scalar_is pg fb m FIELD_TYPE_ENUM tn q v)"
    using v
  proof (elim disjE conjE)
    assume "v = MStr s" "name_index 0 s (enum_strings pg tn) = Some (nat i)" "0 \<le> i" "length s < 2 ^ 32"
    then show ?thesis using reads_un(8) [where ks = "\<lambda>s. case name_index 0 s (enum_strings pg tn) of
             Some i \<Rightarrow> put_int C_int q (int i) | None \<Rightarrow> un_stop", of s n m] put [of i] cast by simp
  next
    assume "v = MInt (word_of_int i)"
    then show ?thesis using reads_un(4) [where k = "\<lambda>v. put_int C_int q (sint v)", OF put] c_cast_word(1) [OF i] by simp
  qed
  have good: "mp_good v" "v \<noteq> MNil" "co_is_number co (hd (enc v)) \<longleftrightarrow> (\<nexists>s. v = MStr s)"
    using v first_number by auto
  have "un r m = (if \<exists>s. v = MStr s then un_with (un_str co) (\<lambda>s. case name_index 0 s (enum_strings pg tn) of
             Some i \<Rightarrow> put_int C_int q (int i) | None \<Rightarrow> un_stop)
           else un_number (un_number_int co (fb_conv fb)) (\<lambda>v. put_int C_int q (sint v))) r m"
    if "at r (enc v @ rest)" and "un = gen_unpack_scalar co fb pg rec k FIELD_TYPE_ENUM tn q" for r rest un
    using peek_enc [OF that(1) good(1,2)] enc_first_byte [OF that(1)] good(3) that(2) by (simp add: gen_unpack_scalar_def unpack_enum_def)
  then show ?thesis using w unfolding consumes_def b by fastforce
qed

text \<open>A struct is read by its unpack function from the rest of the buffer, and then skipped.\<close>

definition reads_fields ::
  "'d floats \<Rightarrow> 'd program \<Rightarrow> string \<Rightarrow> struct_field list \<Rightarrow> struct_field list \<Rightarrow> mp_value list \<Rightarrow> bool" where
  "reads_fields fb pg st gs fs vs \<longleftrightarrow> (\<forall>n m q is. length is = length vs div 2 \<longrightarrow> blank m (piece_cells q (concat (map (pieces pg st) fs))) \<longrightarrow>
     consumes (Suc n) (unpack_items (\<lambda>i. unpack_member co fb pg (gen_unpack co fb n pg) (Suc n) st gs q) is) (concat (map enc vs)) m
       (piece_cells q (concat (map (pieces pg st) fs))) (\<lambda>m. fields_are pg fb m st q fs vs))"

lemma reads_fieldsD:
  "reads_fields fb pg st gs fs vs \<Longrightarrow> length is = length vs div 2 \<Longrightarrow> blank m (piece_cells q (concat (map (pieces pg st) fs))) \<Longrightarrow>
   consumes (Suc n) (unpack_items (\<lambda>i. unpack_member co fb pg (gen_unpack co fb n pg) (Suc n) st gs q) is) (concat (map enc vs)) m
     (piece_cells q (concat (map (pieces pg st) fs))) (\<lambda>m. fields_are pg fb m st q fs vs)"
  unfolding reads_fields_def by blast

lemma object_unpacked:
  assumes fs: "pg_struct pg tn = Some fs" and lay: "laid_out pg tn fs" and vs: "length vs < 2 ^ 32"
    and fields: "reads_fields fb pg tn fs fs vs" and m: "blank m (cells q (size_of pg tn))"
    and data: "data = enc (MMap vs) @ rest" "length data \<le> n" "length data < 2 ^ 63"
  shows "\<exists>m'. gen_unpack co fb n pg tn q data m = Some (Inr (True, m')) \<and> touched m m' (cells q (size_of pg tn))
    \<and> lasting m' (cells q (size_of pg tn) \<union> fresh m m') (\<lambda>m. scalar_is pg fb m FIELD_TYPE_STRUCT tn q (MMap vs))"
proof -
  let ?h = "map_head (word_of_nat (length vs div 2))" and ?X = "piece_cells q (concat (map (pieces pg tn) fs))"
  obtain k where k: "n = Suc k" using data head_nonempty(2) [of "MMap vs"] by (cases n) auto
  have X: "?X \<subseteq> cells q (size_of pg tn)" using lay by (auto simp: laid_out_def intro!: pieces_inside)
  have "consumes (Suc k) (unpack_items (\<lambda>i. unpack_member co fb pg (gen_unpack co fb k pg) (Suc k) tn fs q) [0..<length vs div 2])
      (concat (map enc vs)) m ?X (\<lambda>m. fields_are pg fb m tn q fs vs)"
    by (rule reads_fieldsD [OF fields _ blank_mono [OF m X]]) simp
  then have "consumes (Suc k) (unpack_items (\<lambda>i. unpack_member co fb pg (gen_unpack co fb k pg) (Suc k) tn fs q) [0..<length vs div 2])
      (concat (map enc vs)) m (cells q (size_of pg tn)) (\<lambda>m. scalar_is pg fb m FIELD_TYPE_STRUCT tn q (MMap vs))"
    by (rule reads_mono) (use X struct_is [OF fs _ vs] in auto)
  moreover have "unat (word_of_nat (length vs div 2) :: u32) = length vs div 2" using vs by (simp add: unat_word_of_nat)
  ultimately have body: "consumes (Suc k) (unpack_items (\<lambda>i. unpack_member co fb pg (gen_unpack co fb k pg) (Suc k) tn fs q)
      [0..<unat (word_of_nat (length vs div 2) :: u32)]) (concat (map enc vs)) m (cells q (size_of pg tn))
      (\<lambda>m. scalar_is pg fb m FIELD_TYPE_STRUCT tn q (MMap vs))" by simp
  let ?r = "\<lparr>rd_data = data, rd_pos = 0\<rparr>"
  have r: "at ?r (?h @ concat (map enc vs) @ rest)" using data enc_map [OF vs] by (simp add: at_def rd_len_def)
  have "length (concat (map enc vs) @ rest) < Suc k" 
  proof -
    have "0 < length ?h" using head_nonempty(1) by blast
    moreover have "length ?h + length (concat (map enc vs) @ rest) \<le> Suc k" using data(2) enc_map [OF vs] k by (simp add: data(1))
    ultimately show ?thesis by linarith
  qed
  then obtain m' where "unpack_items (\<lambda>i. unpack_member co fb pg (gen_unpack co fb k pg) (Suc k) tn fs q)
      [0..<unat (word_of_nat (length vs div 2) :: u32)] (adv (length ?h) ?r) m = Some (Inr (True, adv (length (concat (map enc vs))) (adv (length ?h) ?r), m'))"
      "touched m m' (cells q (size_of pg tn))" "lasting m' (cells q (size_of pg tn) \<union> fresh m m') (\<lambda>m. scalar_is pg fb m FIELD_TYPE_STRUCT tn q (MMap vs))"
    using body at_adv [OF r] unfolding consumes_def by blast
  then show ?thesis using unpack_map [OF r] fs by (simp add: k gen_unpack_struct_def un_with_def)
qed

lemma object_reads:
  assumes fs: "pg_struct pg tn = Some fs" and lay: "laid_out pg tn fs" and vs: "length vs < 2 ^ 32" and good: "mp_good (MMap vs)"
    and fields: "reads_fields fb pg tn fs fs vs" and m: "blank m (cells q (size_of pg tn))"
  shows "consumes (Suc n) (unpack_object co (gen_unpack co fb n pg) (Suc n) tn q) (enc (MMap vs)) m (cells q (size_of pg tn))
    (\<lambda>m. scalar_is pg fb m FIELD_TYPE_STRUCT tn q (MMap vs))"
proof (rule readsI)
  fix r rest assume r: "at r (enc (MMap vs) @ rest)" and n: "length (enc (MMap vs) @ rest) < Suc n"
  have d: "rd_data (rest_of r) = enc (MMap vs) @ rest" "at (rest_of r) (enc (MMap vs) @ rest)" "length (enc (MMap vs) @ rest) < 2 ^ 63"
    using r at_len [OF r] by (auto simp: rest_of_def at_def rd_len_def)
  obtain m' where m': "gen_unpack co fb n pg tn q (enc (MMap vs) @ rest) m = Some (Inr (True, m'))" "touched m m' (cells q (size_of pg tn))"
      "lasting m' (cells q (size_of pg tn) \<union> fresh m m') (\<lambda>m. scalar_is pg fb m FIELD_TYPE_STRUCT tn q (MMap vs))"
    using object_unpacked [OF fs lay vs fields m refl _ d(3), of n] n by (meson less_Suc_eq_le)
  have "un_skip co (Suc n) (rest_of r) = Some (True, adv (length (enc (MMap vs))) (rest_of r))" by (rule skip [OF good d(2) n])
  then show "\<exists>m'. unpack_object co (gen_unpack co fb n pg) (Suc n) tn q r m = Some (Inr (True, adv (length (enc (MMap vs))) r, m')) \<and>
      touched m m' (cells q (size_of pg tn)) \<and> lasting m' (cells q (size_of pg tn) \<union> fresh m m') (\<lambda>m. scalar_is pg fb m FIELD_TYPE_STRUCT tn q (MMap vs))"
    using m' d(1) by (simp add: unpack_object_def un_done_def adv_def rest_of_def)
qed

text \<open>Values and fields.\<close>

definition reads_scalar :: "'d floats \<Rightarrow> 'd program \<Rightarrow> field_type \<Rightarrow> string \<Rightarrow> mp_value \<Rightarrow> bool" where
  "reads_scalar fb pg ft tn v \<longleftrightarrow> (\<forall>n m q. ready pg m ft tn q \<longrightarrow>
     consumes (Suc n) (gen_unpack_scalar co fb pg (gen_unpack co fb n pg) (Suc n) ft tn q) (enc v) m (cells q (type_bytes pg ft tn))
       (\<lambda>m. scalar_is pg fb m ft tn q v))"

lemma reads_scalarD: "reads_scalar fb pg ft tn v \<Longrightarrow> ready pg m ft tn q \<Longrightarrow>
   consumes (Suc n) (gen_unpack_scalar co fb pg (gen_unpack co fb n pg) (Suc n) ft tn q) (enc v) m (cells q (type_bytes pg ft tn))
     (\<lambda>m. scalar_is pg fb m ft tn q v)"
  unfolding reads_scalar_def by blast

lemma prepared:
  assumes "reads_scalar fb pg ft tn v" and m: "blank m (cells q (type_bytes pg ft tn))"
    and w: "ft = FIELD_TYPE_SSTR \<Longrightarrow> consumes (Suc n) w [] m (cells q 8) (\<lambda>m. \<exists>s. load_str q m = Inr (Some s))"
  shows "consumes (Suc n) (un_then (if ft = FIELD_TYPE_SSTR then w else un_done)
      (gen_unpack_scalar co fb pg (gen_unpack co fb n pg) (Suc n) ft tn q)) (enc v) m (cells q (type_bytes pg ft tn)) (\<lambda>m. scalar_is pg fb m ft tn q v)"
proof (cases "ft = FIELD_TYPE_SSTR")
  case True
  then have b: "type_bytes pg ft tn = 8" by (simp add: type_bytes_def)
  have "consumes (Suc n) (un_then w (gen_unpack_scalar co fb pg (gen_unpack co fb n pg) (Suc n) ft tn q)) ([] @ enc v) m
      (cells q 8 \<union> cells q (type_bytes pg ft tn)) (\<lambda>m. scalar_is pg fb m ft tn q v)"
  proof (rule reads_then [OF w [OF True]], rule reads_scalarD [OF assms(1)])
    fix m' assume "touched m m' (cells q 8)" and "\<exists>s. load_str q m' = Inr (Some s)"
    then show "ready pg m' ft tn q" using old_touched [OF blank_old [OF m]] True b by (auto simp: ready_def)
  qed
  then show ?thesis using True b by simp
next
  case False
  have "consumes (Suc n) (un_then un_done (gen_unpack_scalar co fb pg (gen_unpack co fb n pg) (Suc n) ft tn q)) ([] @ enc v) m
      ({} \<union> cells q (type_bytes pg ft tn)) (\<lambda>m. scalar_is pg fb m ft tn q v)"
  proof (rule reads_then [OF reads_done], rule reads_scalarD [OF assms(1)])
    fix m' assume "touched m m' {}"
    then show "ready pg m' ft tn q" using blank_touched [OF m] False by (simp add: ready_def)
  qed
  then show ?thesis using False by simp
qed

lemma element_reads:
  assumes "reads_scalar fb pg (fd_type f) (fd_type_name f) v" and "blank m (cells q (type_bytes pg (fd_type f) (fd_type_name f)))"
  shows "consumes (Suc n) (unpack_element co fb pg (gen_unpack co fb n pg) (Suc n) f q) (enc v) m
    (cells q (type_bytes pg (fd_type f) (fd_type_name f))) (\<lambda>m. scalar_is pg fb m (fd_type f) (fd_type_name f) q v)"
  unfolding unpack_element_def
proof (rule prepared [OF assms])
  assume "fd_type f = FIELD_TYPE_SSTR"
  then have "old m (cells q 8)" using blank_old [OF assms(2)] by (simp add: type_bytes_def)
  then show "consumes (Suc n) (put_str q []) [] m (cells q 8) (\<lambda>m. \<exists>s. load_str q m = Inr (Some s))" by (rule reads_mono [OF reads_put_str]) auto
qed

lemma elements_read:
  assumes v: "\<And>i. i < length vs \<Longrightarrow> reads_scalar fb pg (fd_type f) (fd_type_name f) (vs ! i)"
    and sz: "sz = type_bytes pg (fd_type f) (fd_type_name f)" and m: "blank m (cells b (length vs * sz))"
  shows "consumes (Suc n) (unpack_items (\<lambda>i. unpack_element co fb pg (gen_unpack co fb n pg) (Suc n) f (shift b (i * sz))) [0..<length vs])
    (concat (map enc vs)) m (cells b (length vs * sz))
    (\<lambda>m. \<forall>i<length vs. scalar_is pg fb m (fd_type f) (fd_type_name f) (shift b (i * sz)) (vs ! i))"
proof -
  have part: "cells (shift b (i * sz)) sz \<subseteq> cells b (length vs * sz)" if "i < length vs" for i
  proof (rule cells_part)
    have "Suc i * sz \<le> length vs * sz" using that by (intro mult_le_mono1) simp
    then show "i * sz + sz \<le> length vs * sz" by (simp add: add.commute)
  qed
  have sep: "cells (shift b (i * sz)) sz \<inter> cells (shift b (j * sz)) sz = {}" if "i \<noteq> j" for i j
  proof (rule cells_apart)
    have "Suc i \<le> j \<or> Suc j \<le> i" using that by linarith
    then have "Suc i * sz \<le> j * sz \<or> Suc j * sz \<le> i * sz" by (meson mult_le_mono1)
    then show "i * sz + sz \<le> j * sz \<or> j * sz + sz \<le> i * sz" by (simp add: add.commute)
  qed
  have r: "consumes (Suc n) (unpack_items (\<lambda>i. unpack_element co fb pg (gen_unpack co fb n pg) (Suc n) f (shift b (i * sz))) [0..<length vs])
      (concat (map (\<lambda>i. enc (vs ! i)) [0..<length vs])) m (\<Union>i\<in>set [0..<length vs]. cells (shift b (i * sz)) sz)
      (\<lambda>m. \<forall>i\<in>set [0..<length vs]. scalar_is pg fb m (fd_type f) (fd_type_name f) (shift b (i * sz)) (vs ! i))"
  proof (rule reads_items)
    show "consumes (Suc n) (unpack_element co fb pg (gen_unpack co fb n pg) (Suc n) f (shift b (i * sz))) (enc (vs ! i)) m' (cells (shift b (i * sz)) sz)
        (\<lambda>m. scalar_is pg fb m (fd_type f) (fd_type_name f) (shift b (i * sz)) (vs ! i))"
      if "i \<in> set [0..<length vs]" and "blank m' (cells (shift b (i * sz)) sz)" for i m'
      using element_reads [OF v, of i m' "shift b (i * sz)" n] that sz by simp
  next
    show "blank m (cells (shift b (i * sz)) sz)" if "i \<in> set [0..<length vs]" for i
      using blank_mono [OF m part] that by simp
  qed (use sep in simp_all)
  have e: "map (\<lambda>i. enc (vs ! i)) [0..<length vs] = map enc vs" by (rule nth_equalityI) simp_all
  show ?thesis by (rule reads_mono [OF r [unfolded e]]) (use part in \<open>auto dest!: subsetD [OF part]\<close>)
qed

definition reads_value :: "'d floats \<Rightarrow> 'd program \<Rightarrow> string \<Rightarrow> struct_field \<Rightarrow> mp_value \<Rightarrow> bool" where
  "reads_value fb pg st f v \<longleftrightarrow> (\<forall>n m q. pieces_apart (value_pieces pg st f) \<longrightarrow> blank m (piece_cells q (value_pieces pg st f)) \<longrightarrow>
     consumes (Suc n) (gen_unpack_value co fb pg (gen_unpack co fb n pg) (Suc n) st f q) (enc v) m (piece_cells q (value_pieces pg st f))
       (\<lambda>m. value_is pg fb m st q f v))"

lemma reads_valueD: "reads_value fb pg st f v \<Longrightarrow> pieces_apart (value_pieces pg st f) \<Longrightarrow> blank m (piece_cells q (value_pieces pg st f)) \<Longrightarrow>
   consumes (Suc n) (gen_unpack_value co fb pg (gen_unpack co fb n pg) (Suc n) st f q) (enc v) m (piece_cells q (value_pieces pg st f))
     (\<lambda>m. value_is pg fb m st q f v)"
  unfolding reads_value_def by blast

lemma scalar_bytes_type: "fd_type f \<noteq> FIELD_TYPE_MAP \<Longrightarrow> scalar_bytes pg f = type_bytes pg (fd_type f) (fd_type_name f)"
  by (cases "fd_type f") (simp_all add: scalar_bytes_def type_bytes_def)

lemma single_read:
  assumes "\<not> fd_is_array f" and "fd_type f \<noteq> FIELD_TYPE_MAP" and "reads_scalar fb pg (fd_type f) (fd_type_name f) v"
  shows "reads_value (fb :: 'd floats) pg st f v"
  unfolding reads_value_def
proof (intro allI impI)
  fix n and m :: "'d store" and q assume m: "blank m (piece_cells q (value_pieces pg st f))"
  let ?q = "obj_at pg q st (fd_name f)" and ?k = "type_bytes pg (fd_type f) (fd_type_name f)"
  have c: "piece_cells q (value_pieces pg st f) = cells ?q ?k" using assms(1) by (simp add: value_pieces_def obj_at_def)
  have "consumes (Suc n) (un_get (load_str ?q) (\<lambda>s. if s = None then put_str ?q [] else un_done)) [] m (cells ?q 8)
      (\<lambda>m. \<exists>s. load_str ?q m = Inr (Some s))" if t: "fd_type f = FIELD_TYPE_SSTR"
  proof (rule reads_get)
    have b: "blank m (cells ?q 8)" using m t by (simp add: c type_bytes_def)
    show "load_str ?q m = Inr None" using load_zeroed [OF blank_cells [OF b] old_cells [OF blank_old [OF b]]] by (simp add: load_str_def)
    have "consumes (Suc n) (put_str ?q []) [] m (cells ?q 8) (\<lambda>m. \<exists>s. load_str ?q m = Inr (Some s))"
      by (rule reads_mono [OF reads_put_str [OF blank_old [OF b]]]) auto
    then show "consumes (Suc n) (if None = None then put_str ?q [] else un_done) [] m (cells ?q 8) (\<lambda>m. \<exists>s. load_str ?q m = Inr (Some s))" by simp
  qed
  note r = prepared [OF assms(3) m [unfolded c] this]
  show "consumes (Suc n) (gen_unpack_value co fb pg (gen_unpack co fb n pg) (Suc n) st f q) (enc v) m (piece_cells q (value_pieces pg st f))
     (\<lambda>m. value_is pg fb m st q f v)"
  proof -
    have e: "gen_unpack_value co fb pg (gen_unpack co fb n pg) (Suc n) st f q = un_then (if fd_type f = FIELD_TYPE_SSTR
        then un_get (load_str ?q) (\<lambda>s. if s = None then put_str ?q [] else un_done) else un_done)
        (gen_unpack_scalar co fb pg (gen_unpack co fb n pg) (Suc n) (fd_type f) (fd_type_name f) ?q)"
      using assms(1,2) by (simp add: gen_unpack_value_def Let_def)
    show ?thesis unfolding c e by (rule reads_mono [OF r]) (assumption, rule subset_refl, rule single [OF assms(1)])
  qed
qed

lemma fixed_read:
  assumes f: "fd_is_array f" "0 < fd_array_size f" "fd_array_size f = int (length vs)" "length vs < 2 ^ 31" and t: "fd_type f \<noteq> FIELD_TYPE_MAP"
    and v: "\<And>i. i < length vs \<Longrightarrow> reads_scalar fb pg (fd_type f) (fd_type_name f) (vs ! i)"
  shows "reads_value (fb :: 'd floats) pg st f (MArray vs)"
  unfolding reads_value_def
proof (intro allI impI)
  fix n and m :: "'d store" and q assume m: "blank m (piece_cells q (value_pieces pg st f))"
  let ?q = "obj_at pg q st (fd_name f)" and ?sz = "scalar_bytes pg f"
  have c: "piece_cells q (value_pieces pg st f) = cells ?q (length vs * ?sz)" using f t by (simp add: value_pieces_def obj_at_def scalar_bytes_type)
  have u: "unat (word_of_nat (length vs) :: u32) = length vs" using f(4) by (simp add: unat_word_of_nat)
  have "consumes (Suc n) (unpack_items (\<lambda>i. unpack_element co fb pg (gen_unpack co fb n pg) (Suc n) f (shift ?q (i * ?sz))) [0..<length vs])
      (concat (map enc vs)) m (cells ?q (length vs * ?sz)) (\<lambda>m. value_is pg fb m st q f (MArray vs))"
    by (rule reads_mono [OF elements_read [OF v scalar_bytes_type [OF t] m [unfolded c]]])
      (assumption, rule subset_refl, rule fixed_array [OF f], blast)
  from reads_then_done [OF this] have "consumes (Suc n) (un_then (unpack_items (\<lambda>i. unpack_element co fb pg (gen_unpack co fb n pg) (Suc n) f
      (shift ?q (i * ?sz))) [0..<length vs]) un_done) (concat (map enc vs)) m (cells ?q (length vs * ?sz)) (\<lambda>m. value_is pg fb m st q f (MArray vs))"
    .
  then have "consumes (Suc n) (gen_unpack_array co fb pg (gen_unpack co fb n pg) (Suc n) st f q) (array_head (word_of_nat (length vs)) @ concat (map enc vs)) m
      (cells ?q (length vs * ?sz)) (\<lambda>m. value_is pg fb m st q f (MArray vs))"
    unfolding gen_unpack_array_def Let_def by (intro reads_with [OF unpack_array]) (use u f in simp_all)
  then show "consumes (Suc n) (gen_unpack_value co fb pg (gen_unpack co fb n pg) (Suc n) st f q) (enc (MArray vs)) m (piece_cells q (value_pieces pg st f))
     (\<lambda>m. value_is pg fb m st q f (MArray vs))"
    using f t by (simp add: c enc_array gen_unpack_value_def Let_def)
qed

lemma dynamic_read:
  assumes f: "fd_is_array f" "fd_array_size f = 0" "length vs < 2 ^ 31" and t: "fd_type f \<noteq> FIELD_TYPE_MAP"
    and v: "\<And>i. i < length vs \<Longrightarrow> reads_scalar fb pg (fd_type f) (fd_type_name f) (vs ! i)"
  shows "reads_value (fb :: 'd floats) pg st f (MArray vs)"
  unfolding reads_value_def
proof (intro allI impI)
  fix n and m :: "'d store" and q assume a: "pieces_apart (value_pieces pg st f)" and m: "blank m (piece_cells q (value_pieces pg st f))"
  let ?q = "obj_at pg q st (fd_name f)" and ?l = "obj_at pg q st (fd_name f @ ''_len'')" and ?sz = "scalar_bytes pg f" and ?b = "(st_next m, 0)"
  let ?items = "unpack_items (\<lambda>i. unpack_element co fb pg (gen_unpack co fb n pg) (Suc n) f (shift ?b (i * ?sz))) [0..<length vs]"
  let ?room = "?sz * (if length vs > 0 then length vs else 1)"
  have c: "piece_cells q (value_pieces pg st f) = cells ?q 8 \<union> cells ?l 4" using f by (simp add: value_pieces_def obj_at_def Let_def)
  have ql: "cells ?q 8 \<inter> cells ?l 4 = {}" using a f by (auto simp: value_pieces_def obj_at_def Let_def cells_def)
  have u: "unat (word_of_nat (length vs) :: u32) = length vs" "uint (word_of_nat (length vs) :: u32) = int (length vs)"
    using f(3) by (simp_all add: unat_word_of_nat uint_nat)
  have cast: "c_cast C_int (int (length vs)) = int (length vs)" using f(3) by (simp add: c_cast_def signed_take_bit_int_eq_self)
  have "consumes (Suc n) (un_then (un_mem (store_addr ?q (Some (st_next m)))) (un_then (un_mem (zero_bytes ?b ?room))
      (un_then (put_int C_int ?l (int (length vs))) ?items))) (concat (map enc vs)) m1 (cells ?q 8 \<union> cells ?l 4 \<union> {st_next m} \<times> UNIV)
      (\<lambda>m. value_is pg fb m st q f (MArray vs))" if m1: "mem_malloc ?room m = (st_next m, m1)" for m1
  proof -
    note new = malloc_fresh [OF m1]
    have t1: "touched m m1 {}" using new(2) by (auto simp: changed_def touched_def)
    have old1: "old m1 (cells ?q 8)" "old m1 (cells ?l 4)" "old m1 (cells ?b ?room)"
      using old_touched [OF blank_old [OF m] t1] new(4) accessible_old [OF _ new(3)] by (auto simp: c elim: old_mono)
    have away: "fst ?q \<noteq> st_next m" "fst ?l \<noteq> st_next m" using blank_old [OF m] by (force simp: c old_def cells_def)+
    have sub: "cells ?b (length vs * ?sz) \<subseteq> cells ?b ?room" by (auto simp: cells_def mult.commute)
    have addr: "consumes (Suc n) (un_mem (store_addr ?q (Some (st_next m)))) [] m1 (cells ?q 8) (\<lambda>m'. load_addr ?q m' = Inr (Some (st_next m)))"
      unfolding store_addr_def by (rule reads_mono [OF reads_store [OF old1(1)]]) (auto simp: load_object_simps)
    have tail: "consumes (Suc n) (un_then (put_int C_int ?l (int (length vs))) ?items) ([] @ concat (map enc vs)) m2
        (cells ?l 4 \<union> cells ?b (length vs * ?sz)) (\<lambda>m'. load_int_of C_int ?l m' = Inr (int (length vs)) \<and>
          (\<forall>i<length vs. scalar_is pg fb m' (fd_type f) (fd_type_name f) (shift ?b (i * ?sz)) (vs ! i)))"
      if "old m2 (cells ?l 4)" "old m2 (cells ?b ?room)" "zeroed m2 ?b ?room" for m2
    proof (rule reads_both)
      show "consumes (Suc n) (put_int C_int ?l (int (length vs))) [] m2 (cells ?l 4) (\<lambda>m'. load_int_of C_int ?l m' = Inr (int (length vs)))"
        using reads_put_int [of m2 ?l C_int "int (length vs)" "int (length vs)"] that cast by simp
      show d: "cells ?l 4 \<inter> cells ?b (length vs * ?sz) = {}" using away by (auto simp: cells_def)
      have z: "blank m2 (cells ?b (length vs * ?sz))"
        by (rule blank_mono [OF _ sub]) (use that in \<open>auto simp: blank_def zeroed_def cells_def\<close>)
      show "consumes (Suc n) ?items (concat (map enc vs)) m3 (cells ?b (length vs * ?sz))
          (\<lambda>m'. \<forall>i<length vs. scalar_is pg fb m' (fd_type f) (fd_type_name f) (shift ?b (i * ?sz)) (vs ! i))"
        if "touched m2 m3 (cells ?l 4)" for m3
        by (rule elements_read [OF v scalar_bytes_type [OF t] blank_touched [OF z that d]])
    qed (use that old_mono [OF that(2) sub] in auto)
    have "consumes (Suc n) (un_then (un_mem (zero_bytes ?b ?room)) (un_then (put_int C_int ?l (int (length vs))) ?items)) ([] @ [] @ concat (map enc vs)) m2
        (cells ?b ?room \<union> (cells ?l 4 \<union> cells ?b (length vs * ?sz))) (\<lambda>m'. load_int_of C_int ?l m' = Inr (int (length vs)) \<and>
          (\<forall>i<length vs. scalar_is pg fb m' (fd_type f) (fd_type_name f) (shift ?b (i * ?sz)) (vs ! i)))"
      if t12: "touched m1 m2 (cells ?q 8)" for m2
    proof (rule reads_then)
      have "accessible m2 ?b ?room" using new(3,4) t12 by (auto simp: touched_def accessible_def)
      then show "consumes (Suc n) (un_mem (zero_bytes ?b ?room)) [] m2 (cells ?b ?room) (\<lambda>m. zeroed m ?b ?room)" by (rule reads_zeros)
      show "consumes (Suc n) (un_then (put_int C_int ?l (int (length vs))) ?items) ([] @ concat (map enc vs)) m3
          (cells ?l 4 \<union> cells ?b (length vs * ?sz)) (\<lambda>m'. load_int_of C_int ?l m' = Inr (int (length vs)) \<and>
            (\<forall>i<length vs. scalar_is pg fb m' (fd_type f) (fd_type_name f) (shift ?b (i * ?sz)) (vs ! i)))"
        if "touched m2 m3 (cells ?b ?room)" "zeroed m3 ?b ?room" for m3
        by (rule tail [OF old_touched [OF old_touched [OF old1(2) t12] that(1)] old_touched [OF old_touched [OF old1(3) t12] that(1)] that(2)])
    qed
    then have r: "consumes (Suc n) (un_then (un_mem (store_addr ?q (Some (st_next m)))) (un_then (un_mem (zero_bytes ?b ?room))
        (un_then (put_int C_int ?l (int (length vs))) ?items))) ([] @ [] @ [] @ concat (map enc vs)) m1
        (cells ?q 8 \<union> (cells ?b ?room \<union> (cells ?l 4 \<union> cells ?b (length vs * ?sz))))
        (\<lambda>m'. load_addr ?q m' = Inr (Some (st_next m)) \<and> load_int_of C_int ?l m' = Inr (int (length vs)) \<and>
          (\<forall>i<length vs. scalar_is pg fb m' (fd_type f) (fd_type_name f) (shift ?b (i * ?sz)) (vs ! i)))"
      by (intro reads_both [OF addr]) (use ql away old1 old_mono [OF old1(3) sub] in \<open>auto simp: cells_def old_def\<close>)
    have vi: "value_is pg fb m' st q f (MArray vs)" if "load_addr ?q m' = Inr (Some (st_next m)) \<and> load_int_of C_int ?l m' = Inr (int (length vs)) \<and>
        (\<forall>i<length vs. scalar_is pg fb m' (fd_type f) (fd_type_name f) (shift ?b (i * ?sz)) (vs ! i))" for m'
    proof -
      have l: "load_int ?l m' = Inr (int (length vs))" using that by (simp add: load_int_of_def load_int_def)
      show ?thesis
      proof (cases "vs = []")
        case True
        show ?thesis by (rule dynamic_array [OF f(1,2) t l f(3)]) (use that True in \<open>auto simp: array_base_def\<close>)
      next
        case False
        show ?thesis by (rule dynamic_array [OF f(1,2) t l f(3), of _ ?b]) (use that False in \<open>auto simp: array_base_def block_of_def\<close>)
      qed
    qed
    show ?thesis by (rule reads_mono [OF r [unfolded append_Nil]]) (auto simp: cells_def intro: vi)
  qed
  note mal = reads_malloc [where k = "\<lambda>b. un_then (un_mem (store_addr ?q (Some b))) (un_then (un_mem (zero_bytes (b, 0) ?room))
      (un_then (put_int C_int ?l (int (length vs))) (unpack_items (\<lambda>i. unpack_element co fb pg (gen_unpack co fb n pg) (Suc n) f (shift (b, 0) (i * ?sz))) [0..<length vs])))", OF this]
  have "consumes (Suc n) (gen_unpack_array co fb pg (gen_unpack co fb n pg) (Suc n) st f q) (array_head (word_of_nat (length vs)) @ concat (map enc vs)) m
      (cells ?q 8 \<union> cells ?l 4) (\<lambda>m. value_is pg fb m st q f (MArray vs))"
    unfolding gen_unpack_array_def Let_def
    by (intro reads_with [OF unpack_array], assumption) (simp only: u f(2) less_irrefl if_False, rule mal)
  then show "consumes (Suc n) (gen_unpack_value co fb pg (gen_unpack co fb n pg) (Suc n) st f q) (enc (MArray vs)) m (piece_cells q (value_pieces pg st f))
     (\<lambda>m. value_is pg fb m st q f (MArray vs))"
    using f t by (simp add: c enc_array gen_unpack_value_def Let_def)
qed

text \<open>A member is its key and the value of the field with the key.\<close>

lemma member_read:
  assumes k: "length (wire_key f) < 2 ^ 32" and gs: "find (\<lambda>g. wire_key f = wire_key g) gs = Some f"
    and u: "consumes n (unpack_field co fb pg rec k st f q) e m X P"
  shows "consumes n (unpack_member co fb pg rec k st gs q) (enc (MStr (wire_key f)) @ e) m X P"
  unfolding unpack_member_def
  by (rule reads_with [OF unpack_str [OF k]], assumption) (use gs u in \<open>simp add: wire_key_def\<close>)

lemma reads_peeked:
  assumes "\<And>r rest. at r (d @ rest) \<Longrightarrow> co_peek co r \<noteq> uint (co_null co)" and "consumes n u d m X P"
  shows "consumes n (\<lambda>r m. if co_peek co r = uint (co_null co) then w r m else u r m) d m X P"
  using assms unfolding consumes_def by (simp cong: conj_cong) metis

lemma reads_store_bool: "old m (cells p 1) \<Longrightarrow> consumes n (un_mem (store_bool p b)) [] m (cells p 1) (\<lambda>m. load_bool p m = Inr b)"
  unfolding store_bool_def by (rule reads_mono [OF reads_store]) (auto simp: load_object_simps(6) simp del: One_nat_def)

lemma flag_set:
  assumes "old m (cells (obj_at pg q st (''has_'' @ fd_name f)) 1)"
  shows "consumes n (set_flag pg st f q b) [] m (cells (obj_at pg q st (''has_'' @ fd_name f)) 1) (\<lambda>m. has_flag pg st f q m = Inr b)"
  unfolding set_flag_def has_flag_def by (rule reads_store_bool [OF assms])

lemma flagged_read:
  assumes "reads_value fb pg st f v" and ap: "pieces_apart (pieces pg st f)" and absent: "may_be_absent f" and m: "blank m (piece_cells q (pieces pg st f))"
    and good: "mp_good v" "v \<noteq> MNil"
  shows "consumes (Suc n) (unpack_field co fb pg (gen_unpack co fb n pg) (Suc n) st f q) (enc v) m (piece_cells q (pieces pg st f))
    (\<lambda>m. has_flag pg st f q m = Inr True \<and> value_is pg fb m st q f v)"
proof -
  let ?v = "gen_unpack_value co fb pg (gen_unpack co fb n pg) (Suc n) st f q" and ?F = "cells (obj_at pg q st (''has_'' @ fd_name f)) 1"
    and ?V = "piece_cells q (value_pieces pg st f)"
  have c: "piece_cells q (pieces pg st f) = ?V \<union> ?F" using absent by (simp add: pieces_def obj_at_def)
  have ap': "pieces_apart (value_pieces pg st f @ [(col (pg_env pg) (offsetof st (''has_'' @ fd_name f)), 1)])"
    using ap absent by (simp only: pieces_def if_True)
  have apv: "pieces_apart (value_pieces pg st f)" using ap' by (simp only: apart_cells)
  have dis: "?V \<inter> ?F = {}" using apart_disjoint [OF ap', of q] by (simp only: obj_at_def piece_cells_simps fst_conv snd_conv Un_empty_right)
  have bl: "blank m ?V" "old m ?F" using m blank_mono [OF m, of ?F] by (auto simp: c blank_old elim: blank_mono)
  have "consumes (Suc n) (un_then (set_flag pg st f q True) ?v) ([] @ enc v) m (?F \<union> ?V) (\<lambda>m. has_flag pg st f q m = Inr True \<and> value_is pg fb m st q f v)"
  proof (rule reads_both [OF flag_set])
    fix m' assume "touched m m' ?F"
    then show "consumes (Suc n) ?v (enc v) m' ?V (\<lambda>m. value_is pg fb m st q f v)"
      by (intro reads_valueD [OF assms(1) apv] blank_touched [OF bl(1)]) (use dis in auto)
  qed (use bl dis in \<open>auto simp: blank_old\<close>)
  then have r: "consumes (Suc n) (un_then (set_flag pg st f q True) ?v) (enc v) m (piece_cells q (pieces pg st f)) (\<lambda>m. has_flag pg st f q m = Inr True \<and> value_is pg fb m st q f v)"
    by (simp only: c Un_commute append_Nil)
  have "consumes (Suc n) (\<lambda>r m. if co_peek co r = uint (co_null co) then set_flag pg st f q False (snd (un_nil co r)) m
      else un_then (set_flag pg st f q True) ?v r m) (enc v) m (piece_cells q (pieces pg st f))
      (\<lambda>m. has_flag pg st f q m = Inr True \<and> value_is pg fb m st q f v)"
    by (rule reads_peeked [OF _ r]) (rule peek_enc [OF _ good])
  then show ?thesis using r absent by (cases "fd_is_nullable f") (simp_all add: unpack_field_def Let_def may_be_absent_def)
qed

lemma null_read:
  assumes "fd_is_nullable f" and m: "blank m (piece_cells q (pieces pg st f))"
  shows "consumes n (unpack_field co fb pg rec k st f q) (enc MNil) m (piece_cells q (pieces pg st f)) (\<lambda>m. has_flag pg st f q m = Inr False)"
proof -
  let ?F = "cells (obj_at pg q st (''has_'' @ fd_name f)) 1"
  have F: "?F \<subseteq> piece_cells q (pieces pg st f)" using assms(1) by (simp add: pieces_def obj_at_def may_be_absent_def)
  have w: "consumes n (set_flag pg st f q False) [] m (piece_cells q (pieces pg st f)) (\<lambda>m. has_flag pg st f q m = Inr False)"
    by (rule reads_mono [OF flag_set F]) (use blank_old [OF blank_mono [OF m F]] in simp_all)
  have "unpack_field co fb pg rec k st f q r m = un_with (un_nil co) (\<lambda>_. set_flag pg st f q False) r m"
    if r: "at r (enc MNil @ rest)" for r rest
  proof -
    have "hd (enc MNil) = co_null co" using first_null [of MNil] by simp
    then have "co_peek co r = uint (co_null co)" using r head_nonempty(2) [of MNil] peek by (cases "enc MNil") auto
    then show ?thesis using unpack_nil [OF r] assms(1) by (simp add: unpack_field_def un_with_def)
  qed
  moreover have "consumes n (un_with (un_nil co) (\<lambda>_. set_flag pg st f q False)) (enc MNil) m (piece_cells q (pieces pg st f)) (\<lambda>m. has_flag pg st f q m = Inr False)"
    using reads_with [OF unpack_nil, where k = "\<lambda>_. set_flag pg st f q False" and e = "[]"] w by simp
  ultimately show ?thesis unfolding consumes_def by (simp cong: conj_cong) metis
qed

text \<open>The fields of a struct from one of them on.\<close>

lemma find_key: "distinct (map wire_key gs) \<Longrightarrow> gs = pre @ f # fs \<Longrightarrow> find (\<lambda>g. wire_key f = wire_key g) gs = Some f"
  by (simp add: wire_key_cells)

definition reads_tail :: "'d floats \<Rightarrow> 'd program \<Rightarrow> string \<Rightarrow> struct_field list \<Rightarrow> mp_value list \<Rightarrow> bool" where
  "reads_tail fb pg st fs vs \<longleftrightarrow> (\<forall>gs pre. gs = pre @ fs \<longrightarrow> laid_out pg st gs \<longrightarrow> reads_fields fb pg st gs fs vs)"

lemma laid_out_tail:
  assumes "laid_out pg st gs" and "gs = pre @ f # fs"
  shows "pieces_apart (pieces pg st f)" "piece_cells q (pieces pg st f) \<inter> piece_cells q (concat (map (pieces pg st) fs)) = {}"
    "find (\<lambda>g. wire_key f = wire_key g) gs = Some f"
proof -
  have a: "pieces_apart (pieces pg st f @ concat (map (pieces pg st) fs))" using assms by (simp add: laid_out_def apart_cells)
  show "pieces_apart (pieces pg st f)" using a by (simp only: apart_cells)
  show "piece_cells q (pieces pg st f) \<inter> piece_cells q (concat (map (pieces pg st) fs)) = {}" using a by (rule apart_disjoint)
  show "find (\<lambda>g. wire_key f = wire_key g) gs = Some f" using assms by (intro find_key) (simp add: laid_out_def)
qed

lemma cons_read:
  assumes tail: "reads_tail (fb :: 'd floats) pg st fs vs" and k: "length (wire_key f) < 2 ^ 32"
    and field: "\<And>n (m :: 'd store) q. pieces_apart (pieces pg st f) \<Longrightarrow> blank m (piece_cells q (pieces pg st f)) \<Longrightarrow>
      consumes (Suc n) (unpack_field co fb pg (gen_unpack co fb n pg) (Suc n) st f q) (enc v) m (piece_cells q (pieces pg st f)) (P q)"
    and joined: "\<And>(m :: 'd store) q. P q m \<Longrightarrow> fields_are pg fb m st q fs vs \<Longrightarrow> fields_are pg fb m st q (f # fs) (MStr (wire_key f) # v # vs)"
  shows "reads_tail fb pg st (f # fs) (MStr (wire_key f) # v # vs)"
  unfolding reads_tail_def reads_fields_def
proof (intro allI impI)
  fix gs pre n and m :: "'d store" and q and js :: "nat list"
  assume gs: "gs = pre @ f # fs" "laid_out pg st gs" and len: "length js = length (MStr (wire_key f) # v # vs) div 2"
    and m: "blank m (piece_cells q (concat (map (pieces pg st) (f # fs))))"
  let ?u = "\<lambda>i :: nat. unpack_member co fb pg (gen_unpack co fb n pg) (Suc n) st gs q"
  let ?F = "piece_cells q (pieces pg st f)" and ?R = "piece_cells q (concat (map (pieces pg st) fs))"
  note lt = laid_out_tail [OF gs(2,1)]
  obtain j js' where js: "js = j # js'" "length js' = length vs div 2" using len by (cases js) auto
  have b: "blank m ?F" "blank m ?R" using m by (auto elim: blank_mono)
  have rest: "reads_fields fb pg st gs fs vs" using tail gs unfolding reads_tail_def by (metis append.assoc append_Cons append_Nil)
  have "consumes (Suc n) (un_then (?u j) (unpack_items ?u js')) ((enc (MStr (wire_key f)) @ enc v) @ concat (map enc vs)) m (?F \<union> ?R)
      (\<lambda>m. P q m \<and> fields_are pg fb m st q fs vs)"
  proof (rule reads_both [OF member_read [OF k lt(3) field [OF lt(1) b(1)]]])
    fix m' assume "touched m m' ?F"
    then show "consumes (Suc n) (unpack_items ?u js') (concat (map enc vs)) m' ?R (\<lambda>m. fields_are pg fb m st q fs vs)"
      by (intro reads_fieldsD [OF rest js(2)] blank_touched [OF b(2)]) (assumption, rule lt(2))
  qed (rule lt(2), use b in \<open>simp_all add: blank_old\<close>)
  then show "consumes (Suc n) (unpack_items ?u js) (concat (map enc (MStr (wire_key f) # v # vs))) m
      (piece_cells q (concat (map (pieces pg st) (f # fs)))) (\<lambda>m. fields_are pg fb m st q (f # fs) (MStr (wire_key f) # v # vs))"
    unfolding js(1) by (simp, elim reads_mono) (auto intro: joined)
qed

lemma absent_read:
  assumes tail: "reads_tail (fb :: 'd floats) pg st fs vs" and f: "fd_is_optional f"
  shows "reads_tail fb pg st (f # fs) vs"
  unfolding reads_tail_def reads_fields_def
proof (intro allI impI)
  fix gs pre n and m :: "'d store" and q and js :: "nat list"
  assume gs: "gs = pre @ f # fs" "laid_out pg st gs" and len: "length js = length vs div 2"
    and m: "blank m (piece_cells q (concat (map (pieces pg st) (f # fs))))"
  let ?u = "\<lambda>i :: nat. unpack_member co fb pg (gen_unpack co fb n pg) (Suc n) st gs q" and ?h = "obj_at pg q st (''has_'' @ fd_name f)"
  let ?R = "piece_cells q (concat (map (pieces pg st) fs))"
  have h: "cells ?h 1 \<subseteq> piece_cells q (pieces pg st f)" using f by (simp add: pieces_def obj_at_def may_be_absent_def)
  have b: "blank m (cells ?h 1)" "blank m ?R" using m h by (auto elim: blank_mono)
  have rest: "reads_fields fb pg st gs fs vs" using tail gs unfolding reads_tail_def by (metis append.assoc append_Cons append_Nil)
  have "consumes (Suc n) (unpack_items ?u js) (concat (map enc vs)) m (?R \<union> cells ?h 1) (\<lambda>m. fields_are pg fb m st q fs vs \<and> zeroed m ?h 1 \<and> accessible m ?h 1)"
    by (rule reads_spared [OF reads_fieldsD [OF rest len b(2)] b(1)]) (use laid_out_tail(2) [OF gs(2,1), of q] h in auto)
  then show "consumes (Suc n) (unpack_items ?u js) (concat (map enc vs)) m
      (piece_cells q (concat (map (pieces pg st) (f # fs)))) (\<lambda>m. fields_are pg fb m st q (f # fs) vs)"
  proof (rule reads_mono)
    show "?R \<union> cells ?h 1 \<subseteq> piece_cells q (concat (map (pieces pg st) (f # fs)))" using h by (simp add: le_supI1)
    show "fields_are pg fb m st q (f # fs) vs" if "fields_are pg fb m st q fs vs \<and> zeroed m ?h 1 \<and> accessible m ?h 1" for m
    proof (rule absent_field [OF f])
      show "has_flag pg st f q m = Inr False" using that load_zeroed [of m ?h 1] by (simp only: has_flag_def load_bool_def) simp
    qed (use that in simp)
  qed
qed

lemma not_a_map: "scalar_is pg fb m ft tn p v \<Longrightarrow> ft \<noteq> FIELD_TYPE_MAP"
  by (auto elim: scalar_is.cases)

lemma values_not_nil: "value_is pg fb m st p f v \<Longrightarrow> v \<noteq> MNil"
  by (auto elim: value_is.cases scalar_is.cases)

text \<open>What can be packed is read back.\<close>

lemma values_read:
  assumes pg: "compiled pg" and fb: "exact_floats (fb :: 'd floats)"
  shows "scalar_is pg fb m0 ft tn p v \<Longrightarrow> reads_scalar fb pg ft tn v"
    and "value_is pg fb m0 st p f v \<Longrightarrow> reads_value fb pg st f v"
    and "fields_are pg fb m0 st p fs vs \<Longrightarrow> reads_tail fb pg st fs vs"
proof (induction rule: scalar_is_value_is_fields_are.inducts)
  case (signed_is ft T p i tn)
  then show ?case unfolding reads_scalar_def by (blast intro: signed_reads)
next
  case (unsigned_is ft T p i tn)
  then show ?case unfolding reads_scalar_def by (blast intro: unsigned_reads)
next
  case (bool_is p i tn)
  show ?case unfolding reads_scalar_def by (blast intro: bool_reads)
next
  case (float_is p d tn)
  show ?case unfolding reads_scalar_def by (blast intro: float_reads [OF fb])
next
  case (double_is p d tn)
  show ?case unfolding reads_scalar_def by (blast intro: double_reads [OF fb])
next
  case (string_is p s tn)
  then show ?case unfolding reads_scalar_def by (blast intro: string_reads)
next
  case (enum_is p i s tn)
  have i: "c_int_min C_int \<le> int i" "int i \<le> c_int_max C_int" using enum_is by (simp_all add: c_int_min_def c_int_max_def)
  show ?case unfolding reads_scalar_def by (intro allI impI enum_reads [OF _ i]) (use enum_is in simp_all)
next
  case (enum_number_is p i tn)
  then show ?case unfolding reads_scalar_def by (intro allI impI enum_reads) auto
next
  case (struct_is tn fs p vs)
  have lay: "laid_out pg tn fs" using pg struct_is by (simp add: compiled_def)
  then have f: "reads_fields fb pg tn fs fs vs" using struct_is unfolding reads_tail_def by (metis append_Nil)
  have len: "length vs < 2 ^ 32" using struct_is by blast
  have good: "mp_good (MMap vs)" using value_packs(3) [of pg fb m0 tn p fs vs] struct_is by auto
  show ?case unfolding reads_scalar_def
  proof (intro allI impI)
    fix n and m :: "'d store" and q assume m: "ready pg m FIELD_TYPE_STRUCT tn q"
    have b: "type_bytes pg FIELD_TYPE_STRUCT tn = size_of pg tn" by (simp add: type_bytes_def)
    have fs: "pg_struct pg tn = Some fs" using struct_is by blast
    show "consumes (Suc n) (gen_unpack_scalar co fb pg (gen_unpack co fb n pg) (Suc n) FIELD_TYPE_STRUCT tn q) (enc (MMap vs)) m
        (cells q (type_bytes pg FIELD_TYPE_STRUCT tn)) (\<lambda>m. scalar_is pg fb m FIELD_TYPE_STRUCT tn q (MMap vs))"
      using object_reads [OF fs lay len good f, of m q n] m b by (simp add: gen_unpack_scalar_def ready_def)
  qed
next
  case (single f p st v)
  have "fd_type f \<noteq> FIELD_TYPE_MAP" using single not_a_map by blast
  then show ?case using single by (intro single_read) auto
next
  case (fixed_array f vs p st)
  have "0 < length vs" using fixed_array by linarith
  then have "scalar_is pg fb m0 (fd_type f) (fd_type_name f) (shift (obj_at pg p st (fd_name f)) (0 * scalar_bytes pg f)) (vs ! 0)"
    using fixed_array by blast
  then have "fd_type f \<noteq> FIELD_TYPE_MAP" by (rule not_a_map)
  then show ?case using fixed_array by (intro fixed_read) auto
next
  case (dynamic_array f p st vs a base)
  then show ?case by (intro dynamic_read) auto
next
  case (no_more st p)
  show ?case by (auto simp: reads_tail_def reads_fields_def intro!: reads_mono [OF reads_done] scalar_is_value_is_fields_are.no_more)
next
  case (present_field f st p v fs vs)
  have v: "mp_good v" "v \<noteq> MNil" using value_packs(2) values_not_nil present_field by blast+
  have "reads_tail fb pg st (f # fs) (MStr (wire_key f) # v # vs)"
  proof (rule cons_read)
    show "reads_tail fb pg st fs vs" using present_field by blast
    show "length (wire_key f) < 2 ^ 32" using present_field by (simp add: wire_key_def)
    show "consumes (Suc n) (unpack_field co fb pg (gen_unpack co fb n pg) (Suc n) st f q) (enc v) m (piece_cells q (pieces pg st f))
        (\<lambda>m. has_flag pg st f q m = Inr True \<and> value_is pg fb m st q f v)"
      if "pieces_apart (pieces pg st f)" "blank m (piece_cells q (pieces pg st f))" for n q and m :: "'d store"
      by (rule flagged_read) (use that v present_field in auto)
    show "fields_are pg fb m st q (f # fs) (MStr (wire_key f) # v # vs)"
      if "has_flag pg st f q m = Inr True \<and> value_is pg fb m st q f v" "fields_are pg fb m st q fs vs" for q and m :: "'d store"
      unfolding wire_key_def by (rule scalar_is_value_is_fields_are.present_field) (use that present_field in auto)
  qed
  then show ?case by (simp only: wire_key_def)
next
  case (required_field f st p v fs vs)
  have "reads_tail fb pg st (f # fs) (MStr (wire_key f) # v # vs)"
  proof (rule cons_read)
    show "reads_tail fb pg st fs vs" using required_field by blast
    show "length (wire_key f) < 2 ^ 32" using required_field by (simp add: wire_key_def)
    have p: "pieces pg st f = value_pieces pg st f" using required_field by (simp add: pieces_def)
    have u: "unpack_field co fb pg rec k st f q = gen_unpack_value co fb pg rec k st f q" for rec k q
      using required_field by (auto simp: unpack_field_def may_be_absent_def)
    show "consumes (Suc n) (unpack_field co fb pg (gen_unpack co fb n pg) (Suc n) st f q) (enc v) m (piece_cells q (pieces pg st f))
        (\<lambda>m. value_is pg fb m st q f v)"
      if "pieces_apart (pieces pg st f)" "blank m (piece_cells q (pieces pg st f))" for n q and m :: "'d store"
      using reads_valueD [of fb pg st f v m q n] required_field that by (simp add: p u)
    show "fields_are pg fb m st q (f # fs) (MStr (wire_key f) # v # vs)"
      if "value_is pg fb m st q f v" "fields_are pg fb m st q fs vs" for q and m :: "'d store"
      unfolding wire_key_def by (rule scalar_is_value_is_fields_are.required_field) (use that required_field in auto)
  qed
  then show ?case by (simp only: wire_key_def)
next
  case (null_field f st p fs vs)
  have "reads_tail fb pg st (f # fs) (MStr (wire_key f) # MNil # vs)"
  proof (rule cons_read)
    show "reads_tail fb pg st fs vs" using null_field by blast
    show "length (wire_key f) < 2 ^ 32" using null_field by (simp add: wire_key_def)
    show "consumes (Suc n) (unpack_field co fb pg (gen_unpack co fb n pg) (Suc n) st f q) (enc MNil) m (piece_cells q (pieces pg st f))
        (\<lambda>m. has_flag pg st f q m = Inr False)" if "blank m (piece_cells q (pieces pg st f))" for n q and m :: "'d store"
      by (rule null_read) (use that null_field in auto)
    show "fields_are pg fb m st q (f # fs) (MStr (wire_key f) # MNil # vs)"
      if "has_flag pg st f q m = Inr False" "fields_are pg fb m st q fs vs" for q and m :: "'d store"
      unfolding wire_key_def by (rule scalar_is_value_is_fields_are.null_field) (use that null_field in auto)
  qed
  then show ?case by (simp only: wire_key_def)
next
  case (absent_field f st p fs vs)
  then show ?case by (intro absent_read) auto
qed

text \<open>What packing a struct writes, and what unpacking that leaves in zeroed memory.\<close>

lemma struct_packed:
  assumes "pg_struct pg tn = Some fs" and "fields_are pg fb m tn p fs vs" and "length vs < 2 ^ 32" and "mdepth (MMap vs) \<le> n" and "sstr_ok out"
  shows "\<exists>out'. gen_pack co fb n pg m tn p out = Some (Inr out') \<and> sstr_ok out' \<and> sstr_bytes out' = sstr_bytes out @ enc (MMap vs)"
proof -
  have "packs (gen_pack_scalar co fb pg (gen_pack co fb n pg m) FIELD_TYPE_STRUCT tn p m) (enc (MMap vs))"
    using value_packs(1) [OF struct_is [OF assms(1-3)]] assms(4) by blast
  then show ?thesis using assms(5) by (simp add: packs_def gen_pack_scalar_def)
qed

lemma struct_unpacked:
  assumes "compiled pg" and "exact_floats (fb :: 'd floats)" and "pg_struct pg tn = Some fs" and "fields_are pg fb m0 tn p fs vs" and "length vs < 2 ^ 32"
    and "blank m (cells q (size_of pg tn))" and "length (enc (MMap vs) @ rest) \<le> n" and "length (enc (MMap vs) @ rest) < 2 ^ 63"
  shows "\<exists>m'. gen_unpack co fb n pg tn q (enc (MMap vs) @ rest) m = Some (Inr (True, m')) \<and> touched m m' (cells q (size_of pg tn))
    \<and> fields_are pg fb m' tn q fs vs"
proof -
  have lay: "laid_out pg tn fs" using assms(1,3) by (simp add: compiled_def)
  have "reads_fields fb pg tn fs fs vs" using values_read(3) [OF assms(1,2,4)] lay unfolding reads_tail_def by (metis append_Nil)
  from object_unpacked [OF assms(3) lay assms(5) this assms(6) refl assms(7,8)]
  obtain m' where m': "gen_unpack co fb n pg tn q (enc (MMap vs) @ rest) m = Some (Inr (True, m'))" "touched m m' (cells q (size_of pg tn))"
      "scalar_is pg fb m' FIELD_TYPE_STRUCT tn q (MMap vs)"
    by (auto dest: lasting_here)
  have "fields_are pg fb m' tn q fs vs" using m'(3) assms(3) by (auto elim: scalar_is.cases)
  then show ?thesis using m' by blast
qed

end
end
