(* ===== verification/BinaryCodecs.thy ===== *)
theory BinaryCodecs
  imports BinaryRoundtrip JsonRoundtrip
begin

text \<open>
  The two runtimes keep the contract of the emitted code: \<open>mp_struct\<close> and \<open>cb_struct\<close>. Then the emitted functions of
  \<open>src/gencode/gencode_cbor.c\<close>, which are those of BinaryGen with the CBOR runtime, and what packing and unpacking a struct does
  in both formats.
\<close>

section \<open>MessagePack\<close>

lemma byte_ranges:
  "(b :: u8) \<le> MP_FIXINT_MAX \<Longrightarrow> b \<noteq> MP_FLOAT32 \<and> b \<noteq> MP_FLOAT64 \<and> b \<noteq> MP_NIL"
  "(b :: u8) \<ge> MP_NEG_FIXINT \<Longrightarrow> b \<noteq> MP_FLOAT32 \<and> b \<noteq> MP_FLOAT64 \<and> b \<noteq> MP_NIL"
  by (auto simp: word_le_nat_alt)

lemma small_byte: "n \<le> k \<Longrightarrow> \<exists>i. (ucast n :: u8) = word_of_nat i \<and> i \<le> unat k" for n k :: u32
  by (intro exI [of _ "unat n"]) (simp add: word_le_nat_alt)

lemma mp_int_first:
  obtains b bs where "mp_int_bytes v = b # bs" and "b \<le> MP_FIXINT_MAX \<or> b \<ge> MP_NEG_FIXINT \<or> b \<ge> MP_UINT8 \<and> b \<le> MP_INT64"
    and "b \<noteq> MP_FLOAT32" and "b \<noteq> MP_FLOAT64" and "b \<noteq> MP_NIL"
proof (cases "sint v < 0")
  case False
  then have e: "mp_int_bytes v = mp_uint_bytes v" by (simp add: mp_int_bytes_def)
  show ?thesis
  proof (cases rule: mp_uint_head [of v])
    case fix1
    then show ?thesis using that [of "ucast v" "[]"] e u64_fixint [of v] byte_ranges(1) by auto
  qed (use that e in auto)
next
  case True
  then show ?thesis
  proof (cases rule: mp_neg_head)
    case fix1
    then show ?thesis using that [of "ucast v" "[]"] neg_fixint [OF True] byte_ranges(2) by auto
  qed (use that in auto)
qed

lemma mp_uint_first:
  obtains b bs where "mp_uint_bytes v = b # bs" and "b \<noteq> MP_FLOAT32" and "b \<noteq> MP_FLOAT64" and "b \<noteq> MP_NIL"
proof (cases rule: mp_uint_head [of v])
  case fix1
  then show ?thesis using that [of "ucast v" "[]"] u64_fixint [of v] byte_ranges(1) by auto
qed (use that in auto)

lemma fix_str_first: "\<forall>n\<in>set [0..<32]. \<not> (MP_FIXSTR OR word_of_nat n \<le> MP_FIXINT_MAX \<or> MP_FIXSTR OR word_of_nat n \<ge> MP_NEG_FIXINT
    \<or> MP_FIXSTR OR word_of_nat n \<ge> MP_UINT8 \<and> MP_FIXSTR OR word_of_nat n \<le> MP_INT64) \<and> MP_FIXSTR OR word_of_nat n \<noteq> MP_NIL"
  "\<forall>n\<in>set [0..<16]. MP_FIXARRAY OR word_of_nat n \<noteq> MP_NIL \<and> MP_FIXMAP OR word_of_nat n \<noteq> MP_NIL"
  by code_simp+

lemma mp_str_first:
  obtains b bs where "mp_str_header n = b # bs" and "\<not> (b \<le> MP_FIXINT_MAX \<or> b \<ge> MP_NEG_FIXINT \<or> b \<ge> MP_UINT8 \<and> b \<le> MP_INT64)" and "b \<noteq> MP_NIL"
proof (cases rule: mp_str_head [of n])
  case small
  obtain i where i: "(ucast n :: u8) = word_of_nat i" "i < 32" using small_byte [OF small(1)] by auto
  have "i \<in> set [0..<32]" using i(2) by simp
  from fix_str_first(1) [rule_format, OF this] show ?thesis
    by (intro that [of "MP_FIXSTR OR ucast n" "[]"]) (simp_all only: small(2) i(1) simp_thms)
qed (use that in auto)

lemma mp_head_first:
  "mp_array_header_bytes n \<noteq> [] \<and> hd (mp_array_header_bytes n) \<noteq> MP_NIL" "mp_map_header_bytes n \<noteq> [] \<and> hd (mp_map_header_bytes n) \<noteq> MP_NIL"
proof -
  have fx: "MP_FIXARRAY OR ucast n \<noteq> MP_NIL \<and> MP_FIXMAP OR ucast n \<noteq> MP_NIL" if n: "n \<le> 0xf"
  proof -
    obtain i where i: "(ucast n :: u8) = word_of_nat i" "i < 16" using small_byte [OF n] by auto
    have "i \<in> set [0..<16]" using i(2) by simp
    from fix_str_first(2) [rule_format, OF this] show ?thesis by (simp only: i(1) simp_thms)
  qed
  show "mp_array_header_bytes n \<noteq> [] \<and> hd (mp_array_header_bytes n) \<noteq> MP_NIL"
    by (cases rule: mp_array_head [of n]) (use fx in simp_all)
  show "mp_map_header_bytes n \<noteq> [] \<and> hd (mp_map_header_bytes n) \<noteq> MP_NIL"
    by (cases rule: mp_map_head [of n]) (use fx in simp_all)
qed

lemma mp_enc_first: "mp_enc v \<noteq> [] \<and> (hd (mp_enc v) = MP_NIL \<longleftrightarrow> v = MNil)"
proof (cases v)
  case (MUint w)
  then show ?thesis by (cases rule: mp_uint_first [of w]) auto
next
  case (MInt w)
  then show ?thesis by (cases rule: mp_int_first [of w]) auto
next
  case (MStr s)
  then show ?thesis by (cases rule: mp_str_first [of "word_of_nat (length s)"]) (auto simp: mp_str_bytes_def)
next
  case (MArray vs)
  then show ?thesis using mp_head_first(1) [of "word_of_nat (length vs)"] by simp
next
  case (MMap vs)
  then show ?thesis using mp_head_first(2) [of "word_of_nat (length vs div 2)"] by simp
qed auto

lemma mp_number_correct:
  "at r (mp_int_bytes v @ rest) \<Longrightarrow> mp_unpack_number_as_int64 fc r = Inr (Some v, adv (length (mp_int_bytes v)) r)"
  "at r (mp_uint_bytes v @ rest) \<Longrightarrow> mp_unpack_number_as_uint64 fc r = Inr (Some v, adv (length (mp_uint_bytes v)) r)"
  "at r (MP_FLOAT32 # store_be32 w @ rest) \<Longrightarrow> mp_unpack_double fc r = (Some (f_to_d fc w), adv 5 r)"
proof -
  show "mp_unpack_number_as_int64 fc r = Inr (Some v, adv (length (mp_int_bytes v)) r)" if r: "at r (mp_int_bytes v @ rest)"
  proof (cases rule: mp_int_first [of v])
    case (1 b bs)
    then show ?thesis using at_Cons [of r b "bs @ rest"] r mp_unpack_int64_correct [OF r]
      by (simp add: mp_unpack_number_as_int64_def Let_def)
  qed
  show "mp_unpack_number_as_uint64 fc r = Inr (Some v, adv (length (mp_uint_bytes v)) r)" if r: "at r (mp_uint_bytes v @ rest)"
  proof (cases rule: mp_uint_first [of v])
    case (1 b bs)
    then show ?thesis using at_Cons [of r b "bs @ rest"] r mp_unpack_uint64_correct [OF r]
      by (simp add: mp_unpack_number_as_uint64_def Let_def)
  qed
  show "mp_unpack_double fc r = (Some (f_to_d fc w), adv 5 r)" if "at r (MP_FLOAT32 # store_be32 w @ rest)"
    using that by (simp add: mp_unpack_double_def mp_unpack_float_def mp_steps)
qed

interpretation mp_struct: struct_codec mp_ops mp_enc mp_array_header_bytes mp_map_header_bytes
proof unfold_locales
  note v = mp_pack_value_appends(1)
  show "sstr_ok out \<Longrightarrow> appends out (mp_enc MNil) (co_nil mp_ops out)" for out using v [of out MNil] by (simp add: mp_ops_def)
  show "sstr_ok out \<Longrightarrow> appends out (mp_enc (MBool b)) (co_bool mp_ops out b)" for out b using v [of out "MBool b"] by (simp add: mp_ops_def)
  show "sstr_ok out \<Longrightarrow> appends out (mp_enc (MUint w)) (co_uint mp_ops out w)" for out w using v [of out "MUint w"] by (simp add: mp_ops_def)
  show "sstr_ok out \<Longrightarrow> appends out (mp_enc (MInt w)) (co_int mp_ops out w)" for out w using v [of out "MInt w"] by (simp add: mp_ops_def)
  show "sstr_ok out \<Longrightarrow> appends out (mp_enc (MFloat w)) (co_float mp_ops out w)" for out w using v [of out "MFloat w"] by (simp add: mp_ops_def)
  show "sstr_ok out \<Longrightarrow> appends out (mp_enc (MDouble w)) (co_double mp_ops out w)" for out w using v [of out "MDouble w"] by (simp add: mp_ops_def)
  show "sstr_ok out \<Longrightarrow> length s < 2 ^ 32 \<Longrightarrow> appends out (mp_enc (MStr s)) (co_str mp_ops out s (word_of_nat (length s)))" for out s
    using mp_pack_sstr_appends [of out s] by (simp add: mp_ops_def mp_pack_sstr_def)
  show "sstr_ok out \<Longrightarrow> appends out (mp_array_header_bytes c) (co_array_header mp_ops out c)"
    "sstr_ok out \<Longrightarrow> appends out (mp_map_header_bytes c) (co_map_header mp_ops out c)" for out c
    by (simp_all add: mp_ops_def mp_pack_array_header_def mp_pack_map_header_def appends_append)
  show "mp_enc (MArray vs) = mp_array_header_bytes (word_of_nat (length vs)) @ concat (map mp_enc vs)"
    "mp_enc (MMap vs) = mp_map_header_bytes (word_of_nat (length vs div 2)) @ concat (map mp_enc vs)" for vs by simp_all
  show "at r (mp_enc (MBool b) @ rest) \<Longrightarrow> un_bool mp_ops r = (Some b, adv (length (mp_enc (MBool b))) r)" for r b rest
    by (auto simp: mp_ops_def mp_unpack_bool_def mp_steps)
  show "at r (mp_enc MNil @ rest) \<Longrightarrow> un_nil mp_ops r = (Some (), adv (length (mp_enc MNil)) r)" for r rest
    by (auto simp: mp_ops_def mp_unpack_nil_def mp_steps)
  show "at r (mp_enc (MInt w) @ rest) \<Longrightarrow> un_int64 mp_ops r = (Some w, adv (length (mp_enc (MInt w))) r)"
    "at r (mp_enc (MUint w) @ rest) \<Longrightarrow> un_uint64 mp_ops r = (Some w, adv (length (mp_enc (MUint w))) r)"
    "at r (mp_enc (MInt w) @ rest) \<Longrightarrow> un_number_int mp_ops fc r = Inr (Some w, adv (length (mp_enc (MInt w))) r)"
    "at r (mp_enc (MUint w) @ rest) \<Longrightarrow> un_number_uint mp_ops fc r = Inr (Some w, adv (length (mp_enc (MUint w))) r)" for r w rest fc
    by (simp_all add: mp_ops_def mp_unpack_int64_correct mp_unpack_uint64_correct mp_number_correct)
  show "at r (mp_enc (MDouble w) @ rest) \<Longrightarrow> un_number_double mp_ops fc r = (Some w, adv (length (mp_enc (MDouble w))) r)" for r w rest fc
    by (simp add: mp_ops_def mp_unpack_number_as_double_def mp_unpack_double_correct)
  show "at r (mp_enc (MFloat w) @ rest) \<Longrightarrow> un_number_double mp_ops fc r = (Some (f_to_d fc w), adv (length (mp_enc (MFloat w))) r)" for r w rest fc
    by (simp add: mp_ops_def mp_unpack_number_as_double_def mp_number_correct)
  show "length s < 2 ^ 32 \<Longrightarrow> at r (mp_enc (MStr s) @ rest) \<Longrightarrow> un_str mp_ops r = (Some s, adv (length (mp_enc (MStr s))) r)" for s r rest
    using mp_unpack_str_correct [of r "word_of_nat (length s)" s rest] by (simp add: mp_ops_def mp_str_bytes_def unat_word_of_nat)
  show "at r (mp_array_header_bytes c @ rest) \<Longrightarrow> un_array_header mp_ops r = (Some c, adv (length (mp_array_header_bytes c)) r)"
    "at r (mp_map_header_bytes c @ rest) \<Longrightarrow> un_map_header mp_ops r = (Some c, adv (length (mp_map_header_bytes c)) r)" for r c rest
    by (simp_all add: mp_ops_def mp_unpack_array_header_correct mp_unpack_map_header_correct)
  show "mp_map_header_bytes c \<noteq> []" "mp_enc x \<noteq> []" for c x using mp_head_first(2) mp_enc_first by blast+
  show "(hd (mp_enc x) = co_null mp_ops) = (x = MNil)" for x using mp_enc_first [of x] by (simp add: mp_ops_def)
  show "co_is_number mp_ops (hd (mp_enc (MInt w)))" for w by (cases rule: mp_int_first [of w]) (simp add: mp_ops_def)
  show "\<not> co_is_number mp_ops (hd (mp_enc (MStr s)))" for s
    by (cases rule: mp_str_first [of "word_of_nat (length s)"]) (simp add: mp_ops_def mp_str_bytes_def)
  show "at r (y # ys) \<Longrightarrow> co_peek mp_ops r = uint y" for r y ys using at_Cons [of r y ys] by (simp add: mp_ops_def mp_peek_def)
  show "mp_good x \<Longrightarrow> at r (mp_enc x @ rest) \<Longrightarrow> length (mp_enc x @ rest) < f \<Longrightarrow> un_skip mp_ops f r = Some (True, adv (length (mp_enc x)) r)" for x r rest f
    using mp_skip_enc [of x r rest f] by (simp add: mp_ops_def)
qed

section \<open>CBOR\<close>

lemma cb_head_first: "m < 8 \<Longrightarrow> \<exists>b bs. cb_head_bytes m v = b # bs \<and> drop_bit 5 b = m"
proof -
  assume m: "m < 8"
  have e: "drop_bit 5 (push_bit 5 m OR a) = m" if "a < 32" for a :: u8
  proof -
    have "\<forall>m\<in>set [0..<8]. \<forall>a\<in>set [0..<32]. drop_bit 5 (push_bit 5 (word_of_nat m) OR word_of_nat a :: u8) = word_of_nat m" by code_simp
    from this [rule_format, of "unat m" "unat a"] show ?thesis using m that by (simp add: word_less_nat_alt)
  qed
  show ?thesis
    by (cases rule: cb_head_cases [of v m]) (use e e [of 0] u64_small_arg(1) [of v] in \<open>auto simp: e\<close>)
qed

lemma cb_int_first: "\<exists>b bs. cb_int_bytes v = b # bs \<and> (drop_bit 5 b = CB_MAJOR_UINT \<or> drop_bit 5 b = CB_MAJOR_NINT)"
  using cb_head_first [of CB_MAJOR_UINT v] cb_head_first [of CB_MAJOR_NINT "- (v + 1)"] by (auto simp: cb_int_bytes_def)

lemma cb_majors:
  "drop_bit 5 CB_NULL = CB_MAJOR_SIMPLE" "drop_bit 5 CB_FLOAT32 = CB_MAJOR_SIMPLE" "drop_bit 5 CB_FLOAT64 = CB_MAJOR_SIMPLE"
  "CB_MAJOR_UINT \<noteq> CB_MAJOR_SIMPLE" "CB_MAJOR_NINT \<noteq> CB_MAJOR_SIMPLE" "CB_MAJOR_TSTR \<noteq> CB_MAJOR_SIMPLE"
  "CB_MAJOR_ARRAY \<noteq> CB_MAJOR_SIMPLE" "CB_MAJOR_MAP \<noteq> CB_MAJOR_SIMPLE" "CB_MAJOR_TSTR \<noteq> CB_MAJOR_UINT" "CB_MAJOR_TSTR \<noteq> CB_MAJOR_NINT"
  "CB_TRUE \<noteq> CB_NULL" "CB_FALSE \<noteq> CB_NULL" "CB_FLOAT32 \<noteq> CB_NULL" "CB_FLOAT64 \<noteq> CB_NULL"
  by code_simp+

lemma cb_enc_first: "hd (cb_enc v) = CB_NULL \<longleftrightarrow> v = MNil"
proof -
  have h: "hd (cb_head_bytes m a @ x) \<noteq> CB_NULL" if "m < 8" "m \<noteq> CB_MAJOR_SIMPLE" for m a x
    using cb_head_first [OF that(1), of a] that(2) cb_majors(1) by auto
  show ?thesis
  proof (cases v)
    case (MInt w)
    then show ?thesis using cb_int_first [of w] cb_majors(1,4,5) by auto
  qed (use h [where x = "[]"] h cb_majors in \<open>auto simp: cb_str_bytes_def\<close>)
qed

lemma cb_number_correct:
  "at r (cb_int_bytes v @ rest) \<Longrightarrow> cb_unpack_number_as_int64 fc r = (Some v, adv (length (cb_int_bytes v)) r)"
  "at r (cb_head_bytes CB_MAJOR_UINT v @ rest) \<Longrightarrow> cb_unpack_number_as_uint64 fc r = (Some v, adv (length (cb_head_bytes CB_MAJOR_UINT v)) r)"
  "at r (CB_FLOAT32 # store_be32 w @ rest) \<Longrightarrow> cb_unpack_double fc r = (Some (f_to_d fc w), adv 5 r)"
  "at r (CB_FLOAT64 # store_be64 v @ rest) \<Longrightarrow> cb_unpack_double fc r = (Some v, adv 9 r)"
proof -
  show "cb_unpack_number_as_int64 fc r = (Some v, adv (length (cb_int_bytes v)) r)" if r: "at r (cb_int_bytes v @ rest)"
  proof -
    obtain b bs where b: "cb_int_bytes v = b # bs" "drop_bit 5 b = CB_MAJOR_UINT \<or> drop_bit 5 b = CB_MAJOR_NINT" using cb_int_first by blast
    have "b \<noteq> CB_FLOAT32" "b \<noteq> CB_FLOAT64" using b(2) cb_majors by metis+
    then show ?thesis using at_Cons [of r b "bs @ rest"] r b(1) cb_unpack_int64_correct [OF r]
      by (simp add: cb_unpack_number_as_int64_def Let_def)
  qed
  show "cb_unpack_number_as_uint64 fc r = (Some v, adv (length (cb_head_bytes CB_MAJOR_UINT v)) r)" if r: "at r (cb_head_bytes CB_MAJOR_UINT v @ rest)"
  proof -
    obtain b bs where b: "cb_head_bytes CB_MAJOR_UINT v = b # bs" "drop_bit 5 b = CB_MAJOR_UINT" using cb_head_first [of CB_MAJOR_UINT v] by auto
    have "b \<noteq> CB_FLOAT32" "b \<noteq> CB_FLOAT64" using b(2) cb_majors by metis+
    then show ?thesis using at_Cons [of r b "bs @ rest"] r b(1) cb_unpack_uint64_correct [OF r]
      by (simp add: cb_unpack_number_as_uint64_def Let_def)
  qed
  show "cb_unpack_double fc r = (Some (f_to_d fc w), adv 5 r)" if r: "at r (CB_FLOAT32 # store_be32 w @ rest)"
    using at_Cons [OF r] cb_decode_arg(3) [OF r, where h = "\<lambda>p. rd_return (f_to_d fc (load_be32 p))"] by (simp add: cb_unpack_double_def adv_def Let_def rd_return_def)
  show "cb_unpack_double fc r = (Some v, adv 9 r)" if r: "at r (CB_FLOAT64 # store_be64 v @ rest)"
    using at_Cons [OF r] cb_decode_arg(4) [OF r, where h = "\<lambda>p. rd_return (load_be64 p)"] by (simp add: cb_unpack_double_def adv_def Let_def rd_return_def)
qed

definition cb_array_head :: "u32 \<Rightarrow> bytes" where
  "cb_array_head c = cb_head_bytes CB_MAJOR_ARRAY (ucast c)"

definition cb_map_head :: "u32 \<Rightarrow> bytes" where
  "cb_map_head c = cb_head_bytes CB_MAJOR_MAP (ucast c)"

interpretation cb_struct: struct_codec cb_ops cb_enc cb_array_head cb_map_head
proof unfold_locales
  note v = cb_pack_value_appends(1)
  show "sstr_ok out \<Longrightarrow> appends out (cb_enc MNil) (co_nil cb_ops out)" for out using v [of out MNil] by (simp add: cb_ops_def)
  show "sstr_ok out \<Longrightarrow> appends out (cb_enc (MBool b)) (co_bool cb_ops out b)" for out b using v [of out "MBool b"] by (simp add: cb_ops_def)
  show "sstr_ok out \<Longrightarrow> appends out (cb_enc (MUint w)) (co_uint cb_ops out w)" for out w using v [of out "MUint w"] by (simp add: cb_ops_def)
  show "sstr_ok out \<Longrightarrow> appends out (cb_enc (MInt w)) (co_int cb_ops out w)" for out w using v [of out "MInt w"] by (simp add: cb_ops_def)
  show "sstr_ok out \<Longrightarrow> appends out (cb_enc (MFloat w)) (co_float cb_ops out w)" for out w using v [of out "MFloat w"] by (simp add: cb_ops_def)
  show "sstr_ok out \<Longrightarrow> appends out (cb_enc (MDouble w)) (co_double cb_ops out w)" for out w using v [of out "MDouble w"] by (simp add: cb_ops_def)
  show "sstr_ok out \<Longrightarrow> length s < 2 ^ 32 \<Longrightarrow> appends out (cb_enc (MStr s)) (co_str cb_ops out s (word_of_nat (length s)))" for out s
    using cb_pack_sstr_appends [of out s] by (simp add: cb_ops_def cb_pack_sstr_def)
  show "sstr_ok out \<Longrightarrow> appends out (cb_array_head c) (co_array_header cb_ops out c)"
    "sstr_ok out \<Longrightarrow> appends out (cb_map_head c) (co_map_header cb_ops out c)" for out c
    by (simp_all add: cb_ops_def cb_pack_array_header_def cb_pack_map_header_def cb_encode_head_def cb_array_head_def cb_map_head_def appends_append)
  show "length vs < 2 ^ 32 \<Longrightarrow> cb_enc (MArray vs) = cb_array_head (word_of_nat (length vs)) @ concat (map cb_enc vs)" for vs
    by (simp add: cb_array_head_def ucast_count)
  show "length vs < 2 ^ 32 \<Longrightarrow> cb_enc (MMap vs) = cb_map_head (word_of_nat (length vs div 2)) @ concat (map cb_enc vs)" for vs
    by (simp add: cb_map_head_def ucast_count)
  show "at r (cb_enc (MBool b) @ rest) \<Longrightarrow> un_bool cb_ops r = (Some b, adv (length (cb_enc (MBool b))) r)" for r b rest
    by (cases b) (auto simp: cb_ops_def cb_unpack_bool_def adv_def dest!: at_Cons)
  show "at r (cb_enc MNil @ rest) \<Longrightarrow> un_nil cb_ops r = (Some (), adv (length (cb_enc MNil)) r)" for r rest
    by (auto simp: cb_ops_def cb_unpack_nil_def adv_def dest!: at_Cons)
  show "at r (cb_enc (MInt w) @ rest) \<Longrightarrow> un_int64 cb_ops r = (Some w, adv (length (cb_enc (MInt w))) r)"
    "at r (cb_enc (MUint w) @ rest) \<Longrightarrow> un_uint64 cb_ops r = (Some w, adv (length (cb_enc (MUint w))) r)"
    "at r (cb_enc (MInt w) @ rest) \<Longrightarrow> un_number_int cb_ops fc r = Inr (Some w, adv (length (cb_enc (MInt w))) r)"
    "at r (cb_enc (MUint w) @ rest) \<Longrightarrow> un_number_uint cb_ops fc r = Inr (Some w, adv (length (cb_enc (MUint w))) r)" for r w rest fc
    by (simp_all add: cb_ops_def cb_unpack_int64_correct cb_unpack_uint64_correct cb_number_correct)
  show "at r (cb_enc (MDouble w) @ rest) \<Longrightarrow> un_number_double cb_ops fc r = (Some w, adv (length (cb_enc (MDouble w))) r)" for r w rest fc
    by (simp add: cb_ops_def cb_unpack_number_as_double_def cb_number_correct)
  show "at r (cb_enc (MFloat w) @ rest) \<Longrightarrow> un_number_double cb_ops fc r = (Some (f_to_d fc w), adv (length (cb_enc (MFloat w))) r)" for r w rest fc
    by (simp add: cb_ops_def cb_unpack_number_as_double_def cb_number_correct)
  show "length s < 2 ^ 32 \<Longrightarrow> at r (cb_enc (MStr s) @ rest) \<Longrightarrow> un_str cb_ops r = (Some s, adv (length (cb_enc (MStr s))) r)" for s r rest
    using cb_unpack_str_correct [of s r rest] by (simp add: cb_ops_def)
  show "at r (cb_array_head c @ rest) \<Longrightarrow> un_array_header cb_ops r = (Some c, adv (length (cb_array_head c)) r)"
    "at r (cb_map_head c @ rest) \<Longrightarrow> un_map_header cb_ops r = (Some c, adv (length (cb_map_head c)) r)" for r c rest
    by (simp_all add: cb_ops_def cb_array_head_def cb_map_head_def cb_unpack_array_header_correct cb_unpack_map_header_correct)
  show "cb_map_head c \<noteq> []" "cb_enc x \<noteq> []" for c x by (simp_all add: cb_map_head_def cb_enc_nonempty)
  show "(hd (cb_enc x) = co_null cb_ops) = (x = MNil)" for x using cb_enc_first [of x] by (simp add: cb_ops_def)
  show "co_is_number cb_ops (hd (cb_enc (MInt w)))" for w using cb_int_first [of w] by (auto simp: cb_ops_def)
  show "\<not> co_is_number cb_ops (hd (cb_enc (MStr s)))" for s
    using cb_head_first [of CB_MAJOR_TSTR "word_of_nat (length s)"] by (auto simp: cb_ops_def cb_str_bytes_def)
  show "at r (y # ys) \<Longrightarrow> co_peek cb_ops r = uint y" for r y ys using at_Cons [of r y ys] by (simp add: cb_ops_def cb_peek_def)
  show "mp_good x \<Longrightarrow> at r (cb_enc x @ rest) \<Longrightarrow> length (cb_enc x @ rest) < f \<Longrightarrow> un_skip cb_ops f r = Some (True, adv (length (cb_enc x)) r)" for x r rest f
    using cb_skips_good [of x] by (auto simp: cb_ops_def cb_skips_def)
qed

section \<open>The emitted CBOR functions\<close>

text \<open>
  \<open>src/gencode/gencode_cbor.c\<close> is \<open>src/gencode/gencode_msgpack.c\<close> with other names: its functions are those of BinaryGen with the
  CBOR runtime. \<open>cb_gen_pack\<close> and \<open>cb_gen_unpack\<close> are \<open>cbor_pack_T\<close> and \<open>cbor_unpack_T\<close>.
\<close>

definition cb_gen_struct_init where "cb_gen_struct_init = gen_init"

definition cb_gen_clear_map_entries where "cb_gen_clear_map_entries = gen_clear_map_entries"

definition cb_gen_struct_clear where "cb_gen_struct_clear = clear_fields"

definition cb_gen_oneof_clear where "cb_gen_oneof_clear = gen_oneof_clear"

definition cb_gen_pack_scalar where "cb_gen_pack_scalar = gen_pack_scalar cb_ops"

definition cb_gen_pack_map_value where "cb_gen_pack_map_value = gen_pack_map_value cb_ops"

definition cb_gen_pack_struct where "cb_gen_pack_struct = gen_pack_struct cb_ops"

definition cb_gen_unpack_scalar where "cb_gen_unpack_scalar = gen_unpack_scalar cb_ops"

definition cb_gen_unpack_map_value where "cb_gen_unpack_map_value = gen_unpack_map_value cb_ops"

definition cb_gen_unpack_struct where "cb_gen_unpack_struct = gen_unpack_struct cb_ops"

definition cb_gen_pack_array where "cb_gen_pack_array = gen_pack_objects cb_ops"

definition cb_gen_unpack_array where "cb_gen_unpack_array = gen_unpack_objects cb_ops"

definition cb_gen_oneof_pack where "cb_gen_oneof_pack = gen_oneof_pack cb_ops"

definition cb_gen_oneof_unpack where "cb_gen_oneof_unpack = gen_oneof_unpack cb_ops"

definition cb_gen_pack where "cb_gen_pack = gen_pack cb_ops"

definition cb_gen_unpack where "cb_gen_unpack = gen_unpack cb_ops"

text \<open>The two recursive functions are put together from the CBOR functions.\<close>

lemma cb_gen_pack_struct_call:
  "pg_struct pg tn = Some fs \<Longrightarrow> cb_gen_pack fb (Suc n) pg m tn p out = cb_gen_pack_struct fb pg (cb_gen_pack fb n pg m) tn fs p m out"
  by (simp add: cb_gen_pack_def cb_gen_pack_struct_def)

lemma cb_gen_unpack_struct_call:
  "pg_struct pg tn = Some fs \<Longrightarrow> cb_gen_unpack fb (Suc n) pg tn p data m =
    bindD (cb_gen_unpack_struct fb pg (cb_gen_unpack fb n pg) (Suc n) tn fs p \<lparr>rd_data = data, rd_pos = 0\<rparr> m) (\<lambda>(ok, r, m1). Some (Inr (ok, m1)))"
  by (simp add: cb_gen_unpack_def cb_gen_unpack_struct_def)

section \<open>What is lost\<close>

context struct_codec
begin

lemma map_array_packed:
  assumes "pg_struct pg tn = Some [f]" and "fd_is_array f" and "fd_array_size f = 0" and "fd_type f = FIELD_TYPE_MAP" and "\<not> may_be_absent f"
    and "length (cstr (JSON_KEY f)) < 2 ^ 32" and "load_int (obj_at pg p tn (fd_name f @ ''_len'')) m = Inr (int k)"
    and "load_addr (obj_at pg p tn (fd_name f)) m = Inr a" and "array_base a k = Inr base"
  shows "packs (gen_pack co fb (Suc n) pg m tn p) (map_head 1 @ enc (MStr (map byte_of_char (cstr (JSON_KEY f)))) @ array_head (word_of_nat k))"
proof -
  let ?rec = "gen_pack co fb n pg m" and ?q = "obj_at pg p tn (fd_name f)"
  have f: "\<not> fd_is_optional f" "\<not> fd_is_nullable f" using assms(5) by (simp_all add: may_be_absent_def)
  have none: "packs (pack_items (\<lambda>i. gen_pack_scalar co fb pg ?rec (fd_type f) (fd_type_name f) (shift base (i * scalar_bytes pg f)) m) [0..<nat (int k)]) (concat (map (\<lambda>_. []) [0..<nat (int k)]))"
    by (rule packs_items) (use packs_Nil in \<open>simp add: gen_pack_scalar_def assms(4)\<close>)
  have "packs (gen_pack_array co fb pg ?rec f base (int k) m) (array_head (word_of_nat k))"
  proof -
    have "concat (map (\<lambda>_. []) [0..<nat (int k)]) = ([] :: bytes)" by (induction k) simp_all
    from packs_Cons [OF packs_call packs_one [OF none [unfolded this]], OF pack_array, of "word_of_int (int k)"]
    show ?thesis unfolding gen_pack_array_def by simp
  qed
  then have "packs (reading (load_int (obj_at pg p tn (fd_name f @ ''_len'')) m) (\<lambda>len. reading (load_addr ?q m)
      (\<lambda>a. reading (array_base a (nat len)) (\<lambda>base. gen_pack_array co fb pg ?rec f base len m)))) (array_head (word_of_nat k))"
    by (intro packs_reading [where v = "int k"] packs_reading [where v = a] packs_reading [where v = base]) (use assms in simp_all)
  then have v: "packs (gen_pack_value co fb pg ?rec tn f p m) (array_head (word_of_nat k))"
    using assms by (simp add: gen_pack_value_def Let_def)
  have "packs (pack_fields co fb pg ?rec tn p m [f]) (enc (MStr (map byte_of_char (cstr (JSON_KEY f)))) @ array_head (word_of_nat k) @ [])"
    unfolding pack_fields.simps(2) Let_def
    by (rule packs_reading [where v = True]) (use f packs_Cons [OF packs_cstr [OF assms(6)] packs_Cons [OF v packs_one [OF packs_Nil]]] in \<open>simp_all only: if_False if_True pack_fields.simps(1) simp_thms\<close>)
  then have "packs (emit [reading (pack_count pg tn p m [f]) (\<lambda>n out. Some (co_map_header co out (word_of_nat n))), pack_fields co fb pg ?rec tn p m [f]])
      (map_head 1 @ enc (MStr (map byte_of_char (cstr (JSON_KEY f)))) @ array_head (word_of_nat k) @ [])"
    by (intro packs_Cons packs_one packs_reading [where v = "Suc 0"]) (use f packs_call [OF pack_map, of 1] in simp_all)
  moreover have "gen_pack co fb (Suc n) pg m tn p = emit [reading (pack_count pg tn p m [f]) (\<lambda>n out. Some (co_map_header co out (word_of_nat n))), pack_fields co fb pg ?rec tn p m [f]]"
    using assms(1) by (auto simp: fun_eq_iff gen_pack_struct_def)
  ultimately show ?thesis by simp
qed

lemma unpack_member_eq:
  "unpack_member co fb pg rec n st fs p = un_with (un_str co) (\<lambda>key. case find (\<lambda>f. key = wire_key f) fs of
     Some f \<Rightarrow> unpack_field co fb pg rec n st f p | None \<Rightarrow> if fs = [] then un_done else un_skipped co n)"
  by (simp add: unpack_member_def wire_key_def)

lemma key_alone:
  assumes "pg_struct pg tn = Some fs" and "find (\<lambda>g. wire_key f = wire_key g) fs = Some f" and "length (wire_key f) < 2 ^ 32"
    and d: "d = map_head 1 @ enc (MStr (wire_key f))" "length d < 2 ^ 63"
  shows "gen_unpack co fb (Suc n) pg tn p d m =
    bindD (un_then (unpack_field co fb pg (gen_unpack co fb n pg) (Suc n) tn f p) un_done \<lparr>rd_data = d, rd_pos = length d\<rparr> m) (\<lambda>(ok, r, m1). Some (Inr (ok, m1)))"
proof -
  let ?r = "\<lparr>rd_data = d, rd_pos = 0\<rparr>"
  have r: "at ?r (map_head 1 @ enc (MStr (wire_key f)) @ [])" using d by (simp add: at_def rd_len_def)
  have r1: "at (adv (length (map_head 1)) ?r) (enc (MStr (wire_key f)) @ [])" by (rule at_adv [OF r])
  have e: "adv (length (map_head 1) + length (enc (MStr (wire_key f)))) ?r = \<lparr>rd_data = d, rd_pos = length d\<rparr>" using d by (simp add: adv_def)
  have "unpack_items (\<lambda>i. unpack_member co fb pg (gen_unpack co fb n pg) (Suc n) tn fs p) [0..<unat (1 :: u32)] =
      un_then (unpack_member co fb pg (gen_unpack co fb n pg) (Suc n) tn fs p) un_done" by simp
  then show ?thesis using assms(1,2) unpack_map [OF r] unpack_str [OF assms(3) r1]
    by (simp add: gen_unpack_struct_def un_with_def un_then_def unpack_member_eq e)
qed

end

section \<open>Structs in both formats\<close>

text \<open>
  C5. MessagePack: packing a struct (numbers, booleans, strings, enums, structs and arrays of them, optional and nullable
  fields, in structs whose keys differ) writes the encoding of its values; unpacking that into zeroed memory succeeds, leaves the same values there, and
  writes nothing but that memory and new blocks.
\<close>

theorem msgpack_struct_roundtrip:
  assumes "compiled pg" and "exact_floats fb" and "pg_struct pg tn = Some fs" and "fields_are pg fb m tn p fs vs" and "length vs < 2 ^ 32"
    and "mdepth (MMap vs) \<le> n" and "length (mp_enc (MMap vs)) \<le> k" and "length (mp_enc (MMap vs)) < 2 ^ 63"
    and "blank m1 (cells q (size_of pg tn))"
  shows "\<exists>out m2. gen_pack mp_ops fb n pg m tn p sstr_new = Some (Inr out) \<and> sstr_bytes out = mp_enc (MMap vs)
    \<and> gen_unpack mp_ops fb k pg tn q (sstr_bytes out) m1 = Some (Inr (True, m2))
    \<and> fields_are pg fb m2 tn q fs vs \<and> touched m1 m2 (cells q (size_of pg tn))"
proof -
  obtain out where out: "gen_pack mp_ops fb n pg m tn p sstr_new = Some (Inr out)" "sstr_bytes out = mp_enc (MMap vs)"
    using mp_struct.struct_packed [OF assms(3-6), of sstr_new] by (auto simp: sstr_bytes_def [of sstr_new])
  obtain m2 where "gen_unpack mp_ops fb k pg tn q (mp_enc (MMap vs)) m1 = Some (Inr (True, m2))" "touched m1 m2 (cells q (size_of pg tn))"
      "fields_are pg fb m2 tn q fs vs"
    using mp_struct.struct_unpacked [OF assms(1-5,9), of "[]" k] assms(7,8) by auto
  then show ?thesis using out by metis
qed

text \<open>A schema with a nested struct, an array, a string, an optional and a nullable field.\<close>

definition unit_floats :: "unit floats" where
  "unit_floats = \<lparr>fb_conv = \<lparr>d_to_f = (\<lambda>_. 0), f_to_d = (\<lambda>_. 0), i64_to_d = (\<lambda>_. 0), u64_to_d = (\<lambda>_. 0),
       minus_one_minus = (\<lambda>_. 0), d_to_i64 = (\<lambda>_. 0), d_to_u64 = (\<lambda>_. 0)\<rparr>,
     fb_float = (\<lambda>_. 0), fb_double = (\<lambda>_. 0), fb_to_float = (\<lambda>_. ()), fb_to_double = (\<lambda>_. ()), fb_literal = (\<lambda>_. ())\<rparr>"

lemma unit_exact: "exact_floats unit_floats"
  by (simp add: exact_floats_def)

text \<open>
  A struct with a number, an array, a nullable string, an optional flag that is absent, a nullable number that is null and a nested struct.
\<close>

definition card_field :: "string \<Rightarrow> field_type \<Rightarrow> string \<Rightarrow> struct_field" where
  "card_field n ft tn = (demo_field n)\<lparr>fd_type := ft, fd_type_name := tn\<rparr>"

definition card_fields :: "struct_field list" where
  "card_fields = [demo_field ''id'', (demo_field ''xs'')\<lparr>fd_is_array := True\<rparr>, (card_field ''nm'' FIELD_TYPE_SSTR ''sstr_t'')\<lparr>fd_is_nullable := True\<rparr>,
     (card_field ''on'' FIELD_TYPE_BOOL ''int'')\<lparr>fd_is_optional := True\<rparr>, (demo_field ''z'')\<lparr>fd_is_nullable := True\<rparr>, card_field ''q'' FIELD_TYPE_STRUCT ''Q'']"

definition card_layout :: "(string \<times> int) list" where
  "card_layout = [(offsetof ''C'' ''id'', 0), (offsetof ''C'' ''xs'', 8), (offsetof ''C'' ''xs_len'', 16), (offsetof ''C'' ''nm'', 24),
     (offsetof ''C'' ''has_nm'', 32), (offsetof ''C'' ''on'', 36), (offsetof ''C'' ''has_on'', 40), (offsetof ''C'' ''z'', 44),
     (offsetof ''C'' ''has_z'', 48), (offsetof ''C'' ''q'', 52), (''sizeof(struct C)'', 56), (offsetof ''Q'' ''a'', 0), (''sizeof(struct Q)'', 4)]"

definition card_program :: "unit program" where
  "card_program = \<lparr>pg_env = \<lparr>je_items = [], je_hash = [], je_const = (\<lambda>e. case map_of card_layout e of Some v \<Rightarrow> v | None \<Rightarrow> 0),
       je_strings = (\<lambda>_. []), je_strtof = (\<lambda>s. ((), [])), je_strtod = (\<lambda>s. ((), [])), je_zero = ()\<rparr>,
     pg_struct = map_of [(''C'', card_fields), (''Q'', [demo_field ''a''])], pg_oneof = Map.empty, pg_float = (\<lambda>_ _. [])\<rparr>"

definition card_store :: "unit store" where
  "card_store = \<lparr>st_bytes = (\<lambda>b. laid (if b = 0 then [(0, 4, Value (J_int (-3))), (8, 8, Address (Some 1)), (16, 4, Value (J_int 2)),
       (24, 8, Value (J_str (Some ''hi''))), (32, 1, Value (J_int 1)), (52, 4, Value (J_int 7))]
     else [(0, 4, Value (J_int 1)), (4, 4, Value (J_int 20))])),
     st_room = (\<lambda>b. if b = 0 then Some 56 else if b = 1 then Some 8 else None), st_next = 2\<rparr>"

abbreviation key_value :: "string \<Rightarrow> mp_value" where
  "key_value k \<equiv> MStr (map byte_of_char k)"

definition card_values :: "mp_value list" where
  "card_values = [key_value ''id'', MInt (-3), key_value ''xs'', MArray [MInt 1, MInt 20], key_value ''nm'', key_value ''hi'',
     key_value ''z'', MNil, key_value ''q'', MMap [key_value ''a'', MInt 7]]"

lemma card_places:
  "obj_at card_program (0, 0) ''C'' ''id'' = (0, 0)" "obj_at card_program (0, 0) ''C'' ''xs'' = (0, 8)"
  "obj_at card_program (0, 0) ''C'' ''xs_len'' = (0, 16)" "obj_at card_program (0, 0) ''C'' ''nm'' = (0, 24)"
  "obj_at card_program (0, 0) ''C'' ''has_nm'' = (0, 32)" "obj_at card_program (0, 0) ''C'' ''has_on'' = (0, 40)"
  "obj_at card_program (0, 0) ''C'' ''has_z'' = (0, 48)" "obj_at card_program (0, 0) ''C'' ''q'' = (0, 52)"
  "obj_at card_program (0, 52) ''Q'' ''a'' = (0, 52)"
  by code_simp+

lemma card_reads:
  "load_int_of C_int (0, 0) card_store = Inr (-3)" "load_addr (0, 8) card_store = Inr (Some 1)" "load_int (0, 16) card_store = Inr 2"
  "load_str (0, 24) card_store = Inr (Some ''hi'')" "load_bool (0, 32) card_store = Inr True" "load_bool (0, 40) card_store = Inr False"
  "load_bool (0, 48) card_store = Inr False" "load_int_of C_int (0, 52) card_store = Inr 7"
  "load_int_of C_int (1, 0) card_store = Inr 1" "load_int_of C_int (1, 4) card_store = Inr 20"
  by code_simp+

lemma card_compiled: "compiled card_program"
proof -
  have "laid_out card_program ''C'' card_fields" "laid_out card_program ''Q'' [demo_field ''a'']" by code_simp+
  then show ?thesis by (auto simp: compiled_def card_program_def split: if_splits)
qed

lemma int_value:
  assumes "load_int_of C_int p m = Inr i" and "c_int_min C_int \<le> i" and "i \<le> c_int_max C_int"
  shows "scalar_is pg fb m FIELD_TYPE_INT tn p (MInt (word_of_int i))"
  by (rule signed_is [where T = C_int]) (use assms in simp_all)

lemma card_keys:
  "map byte_of_char (cstr (JSON_KEY (demo_field ''id''))) = map byte_of_char ''id''"
  "map byte_of_char (cstr (JSON_KEY ((demo_field ''xs'')\<lparr>fd_is_array := True\<rparr>))) = map byte_of_char ''xs''"
  "map byte_of_char (cstr (JSON_KEY ((card_field ''nm'' FIELD_TYPE_SSTR ''sstr_t'')\<lparr>fd_is_nullable := True\<rparr>))) = map byte_of_char ''nm''"
  "map byte_of_char (cstr (JSON_KEY ((demo_field ''z'')\<lparr>fd_is_nullable := True\<rparr>))) = map byte_of_char ''z''"
  "map byte_of_char (cstr (JSON_KEY (card_field ''q'' FIELD_TYPE_STRUCT ''Q''))) = map byte_of_char ''q''"
  "map byte_of_char (cstr (JSON_KEY (demo_field ''a''))) = map byte_of_char ''a''"
  by code_simp+

lemmas key_ok = card_field_def demo_field_def may_be_absent_def JSON_KEY_def cstr_def has_flag_def card_places card_reads

lemma card_fields_are: "fields_are card_program unit_floats card_store ''C'' (0, 0) card_fields card_values"
proof -
  let ?is = "fields_are card_program unit_floats card_store"
  have a: "value_is card_program unit_floats card_store ''Q'' (0, 52) (demo_field ''a'') (MInt 7)"
    using int_value [OF card_reads(8), of card_program unit_floats] by (intro single) (simp_all add: demo_field_def card_places c_int_bounds)
  have "?is ''Q'' (0, 52) [demo_field ''a''] [MStr (map byte_of_char (cstr (JSON_KEY (demo_field ''a'')))), MInt 7]"
    by (intro required_field a [simplified] no_more) (simp_all add: demo_field_def may_be_absent_def JSON_KEY_def cstr_def)
  then have "scalar_is card_program unit_floats card_store FIELD_TYPE_STRUCT ''Q'' (0, 52) (MMap [key_value ''a'', MInt 7])"
    unfolding card_keys by (rule struct_is [rotated]) (simp_all add: card_program_def)
  then have q: "value_is card_program unit_floats card_store ''C'' (0, 0) (card_field ''q'' FIELD_TYPE_STRUCT ''Q'') (MMap [key_value ''a'', MInt 7])"
    by (intro single) (simp_all add: card_field_def demo_field_def card_places)
  have id: "value_is card_program unit_floats card_store ''C'' (0, 0) (demo_field ''id'') (MInt (-3))"
    using int_value [OF card_reads(1), of card_program unit_floats] by (intro single) (simp_all add: demo_field_def card_places c_int_bounds)
  have nm: "value_is card_program unit_floats card_store ''C'' (0, 0) ((card_field ''nm'' FIELD_TYPE_SSTR ''sstr_t'')\<lparr>fd_is_nullable := True\<rparr>) (key_value ''hi'')"
    using string_is [OF card_reads(4), of card_program unit_floats] by (intro single) (simp_all add: card_field_def demo_field_def card_places)
  have xs: "value_is card_program unit_floats card_store ''C'' (0, 0) ((demo_field ''xs'')\<lparr>fd_is_array := True\<rparr>) (MArray [MInt 1, MInt 20])"
  proof (rule dynamic_array [where a = "Some 1" and base = "(1, 0)"])
    fix i assume "i < length [MInt 1, MInt 20]"
    then consider "i = 0" | "i = 1" by fastforce
    then show "scalar_is card_program unit_floats card_store (fd_type ((demo_field ''xs'')\<lparr>fd_is_array := True\<rparr>)) (fd_type_name ((demo_field ''xs'')\<lparr>fd_is_array := True\<rparr>))
        (shift (1, 0) (i * scalar_bytes card_program ((demo_field ''xs'')\<lparr>fd_is_array := True\<rparr>))) ([MInt 1, MInt 20] ! i)"
      using int_value [OF card_reads(9), of card_program unit_floats] int_value [OF card_reads(10), of card_program unit_floats]
      by cases (simp_all add: demo_field_def scalar_bytes_def shift_def c_int_bounds del: One_nat_def)
  qed (simp_all add: demo_field_def card_places card_reads array_base_def block_of_def)
  show ?thesis unfolding card_fields_def card_values_def card_keys(1-5) [symmetric]
    by (rule required_field [OF _ _ id required_field [OF _ _ xs present_field [OF _ _ _ nm absent_field [OF _ _
        null_field [OF _ _ _ _ required_field [OF _ _ q no_more]]]]]]) (simp_all add: key_ok)
qed

lemma card_lengths:
  "length (mp_enc (MMap card_values)) \<le> 56" "length (cb_enc (MMap card_values)) \<le> 56" "length card_values = 10" "mdepth (MMap card_values) \<le> 2"
  by code_simp+

lemma card_blank: "blank (one_block 56) (cells (0, 0) (size_of card_program ''C''))"
proof -
  have "size_of card_program ''C'' = 56" by code_simp
  then show ?thesis by (auto simp: blank_def old_def cells_def one_block_def accessible_def)
qed

lemma card_struct: "pg_struct card_program ''C'' = Some card_fields"
  by (simp add: card_program_def)

lemma msgpack_struct_roundtrip_witness:
  "\<exists>out m2. gen_pack mp_ops unit_floats 2 card_program card_store ''C'' (0, 0) sstr_new = Some (Inr out) \<and> sstr_bytes out = mp_enc (MMap card_values)
    \<and> gen_unpack mp_ops unit_floats 56 card_program ''C'' (0, 0) (sstr_bytes out) (one_block 56) = Some (Inr (True, m2))
    \<and> fields_are card_program unit_floats m2 ''C'' (0, 0) card_fields card_values \<and> touched (one_block 56) m2 (cells (0, 0) (size_of card_program ''C''))"
  by (rule msgpack_struct_roundtrip [OF card_compiled unit_exact card_struct card_fields_are _ card_lengths(4,1) _ card_blank])
    (use card_lengths in simp_all)

text \<open>
  C6. CBOR: packing a struct (numbers, booleans, strings that are not null, enums, structs and arrays of them, optional and nullable
  fields, in structs whose keys differ; no maps and no oneofs) writes the encoding of its values; unpacking that into zeroed memory succeeds, leaves the same
  values there, and writes nothing but that memory and new blocks.
\<close>

theorem cbor_struct_roundtrip:
  assumes "compiled pg" and "exact_floats fb" and "pg_struct pg tn = Some fs" and "fields_are pg fb m tn p fs vs" and "length vs < 2 ^ 32"
    and "mdepth (MMap vs) \<le> n" and "length (cb_enc (MMap vs)) \<le> k" and "length (cb_enc (MMap vs)) < 2 ^ 63"
    and "blank m1 (cells q (size_of pg tn))"
  shows "\<exists>out m2. cb_gen_pack fb n pg m tn p sstr_new = Some (Inr out) \<and> sstr_bytes out = cb_enc (MMap vs)
    \<and> cb_gen_unpack fb k pg tn q (sstr_bytes out) m1 = Some (Inr (True, m2))
    \<and> fields_are pg fb m2 tn q fs vs \<and> touched m1 m2 (cells q (size_of pg tn))"
proof -
  obtain out where out: "cb_gen_pack fb n pg m tn p sstr_new = Some (Inr out)" "sstr_bytes out = cb_enc (MMap vs)"
    using cb_struct.struct_packed [OF assms(3-6), of sstr_new] by (auto simp: cb_gen_pack_def sstr_bytes_def [of sstr_new])
  obtain m2 where "cb_gen_unpack fb k pg tn q (cb_enc (MMap vs)) m1 = Some (Inr (True, m2))" "touched m1 m2 (cells q (size_of pg tn))"
      "fields_are pg fb m2 tn q fs vs"
    using cb_struct.struct_unpacked [OF assms(1-5,9), of "[]" k] assms(7,8) by (auto simp: cb_gen_unpack_def)
  then show ?thesis using out by metis
qed

lemma cbor_struct_roundtrip_witness:
  "\<exists>out m2. cb_gen_pack unit_floats 2 card_program card_store ''C'' (0, 0) sstr_new = Some (Inr out) \<and> sstr_bytes out = cb_enc (MMap card_values)
    \<and> cb_gen_unpack unit_floats 56 card_program ''C'' (0, 0) (sstr_bytes out) (one_block 56) = Some (Inr (True, m2))
    \<and> fields_are card_program unit_floats m2 ''C'' (0, 0) card_fields card_values \<and> touched (one_block 56) m2 (cells (0, 0) (size_of card_program ''C''))"
  by (rule cbor_struct_roundtrip [OF card_compiled unit_exact card_struct card_fields_are _ card_lengths(4,2) _ card_blank])
    (use card_lengths in simp_all)

text \<open>
  C33. A message that is a map with one key, ends behind that key, and whose key is that of a required field of the type \<open>int\<close>, \<open>long\<close> or
  an integer type of 8, 16 or 32 bits: the MessagePack function reads the byte behind the buffer, the CBOR function returns an error and
  leaves the object alone.
\<close>

theorem binary_truncated_number:
  assumes "pg_struct pg tn = Some fs" and "find (\<lambda>g. wire_key f = wire_key g) fs = Some f" and "length (wire_key f) < 2 ^ 32"
    and "\<not> may_be_absent f" and "\<not> fd_is_array f" and "c_int_of (fd_type f) \<noteq> None"
    and "fd_type f \<notin> {FIELD_TYPE_BOOL, FIELD_TYPE_INT64, FIELD_TYPE_UINT64}"
  shows "gen_unpack mp_ops fb (Suc n) pg tn p (mp_map_header_bytes 1 @ mp_enc (MStr (wire_key f))) m = Some (Inl Out_of_bounds)
    \<and> cb_gen_unpack fb (Suc n) pg tn p (cb_map_head 1 @ cb_enc (MStr (wire_key f))) m = Some (Inr (False, m))"
proof (intro conjI)
  have t: "fd_type f \<noteq> FIELD_TYPE_MAP" "fd_type f \<noteq> FIELD_TYPE_SSTR" using assms(6) by auto
  obtain T where T: "c_int_of (fd_type f) = Some T" using assms(6) by blast
  have u: "unpack_field co fb pg rec k tn f p = un_then un_done (if c_int_signed T then un_number (un_number_int co (fb_conv fb)) (\<lambda>v. put_int T (obj_at pg p tn (fd_name f)) (sint v))
      else un_number (un_number_uint co (fb_conv fb)) (\<lambda>v. put_int T (obj_at pg p tn (fd_name f)) (uint v)))" for co rec k
    using assms t T by (auto simp: unpack_field_def may_be_absent_def gen_unpack_value_def gen_unpack_scalar_def Let_def)
  have head: "length (mp_map_header_bytes 1) = 1" "length (cb_map_head 1) = 1" by code_simp+
  have "length (mp_enc (MStr (wire_key f))) < 2 ^ 62"
    by (cases rule: mp_str_head [of "word_of_nat (length (wire_key f))"]) (use assms(3) in \<open>simp_all add: mp_str_bytes_def\<close>)
  then have m: "length (mp_map_header_bytes 1 @ mp_enc (MStr (wire_key f))) < 2 ^ 63" using head by simp
  have "length (cb_enc (MStr (wire_key f))) < 2 ^ 62"
    using cb_head_length(2) [of CB_MAJOR_TSTR "word_of_nat (length (wire_key f))"] assms(3) by (simp add: cb_str_bytes_def)
  then have c: "length (cb_map_head 1 @ cb_enc (MStr (wire_key f))) < 2 ^ 63" using head by simp
  show "gen_unpack mp_ops fb (Suc n) pg tn p (mp_map_header_bytes 1 @ mp_enc (MStr (wire_key f))) m = Some (Inl Out_of_bounds)"
    by (simp only: mp_struct.key_alone [OF assms(1-3) refl m] u)
      (simp add: un_then_def un_done_def un_number_def mp_ops_def mp_unpack_number_as_int64_def mp_unpack_number_as_uint64_def rd_len_def)
  show "cb_gen_unpack fb (Suc n) pg tn p (cb_map_head 1 @ cb_enc (MStr (wire_key f))) m = Some (Inr (False, m))"
    by (simp only: cb_gen_unpack_def cb_struct.key_alone [OF assms(1-3) refl c] u)
      (simp add: un_then_def un_done_def un_stop_def un_number_def cb_ops_def cb_unpack_number_as_int64_def cb_unpack_number_as_uint64_def rd_len_def)
qed

text \<open>
  An array of maps: both formats write how many maps there are and none of them, so the members that follow are read as its
  elements.
\<close>

theorem binary_map_array_lost:
  assumes "pg_struct pg tn = Some [f]" and "fd_is_array f" and "fd_array_size f = 0" and "fd_type f = FIELD_TYPE_MAP" and "\<not> may_be_absent f"
    and "length (wire_key f) < 2 ^ 32" and "load_int (obj_at pg p tn (fd_name f @ ''_len'')) m = Inr (int k)"
    and "load_addr (obj_at pg p tn (fd_name f)) m = Inr a" and "array_base a k = Inr base"
  shows "(\<exists>out. gen_pack mp_ops fb (Suc n) pg m tn p sstr_new = Some (Inr out)
      \<and> sstr_bytes out = mp_map_header_bytes 1 @ mp_enc (MStr (wire_key f)) @ mp_array_header_bytes (word_of_nat k))
    \<and> (\<exists>out. cb_gen_pack fb (Suc n) pg m tn p sstr_new = Some (Inr out)
      \<and> sstr_bytes out = cb_map_head 1 @ cb_enc (MStr (wire_key f)) @ cb_array_head (word_of_nat k))"
proof (intro conjI)
  have k: "length (cstr (JSON_KEY f)) < 2 ^ 32" using assms(6) by (simp add: wire_key_def)
  have e: "sstr_bytes sstr_new = []" by (simp add: sstr_bytes_def)
  show "\<exists>out. gen_pack mp_ops fb (Suc n) pg m tn p sstr_new = Some (Inr out)
      \<and> sstr_bytes out = mp_map_header_bytes 1 @ mp_enc (MStr (wire_key f)) @ mp_array_header_bytes (word_of_nat k)"
    using mp_struct.map_array_packed [OF assms(1-5) k assms(7-9), of fb n] sstr_new_ok(1) e unfolding packs_def wire_key_def by fastforce
  show "\<exists>out. cb_gen_pack fb (Suc n) pg m tn p sstr_new = Some (Inr out)
      \<and> sstr_bytes out = cb_map_head 1 @ cb_enc (MStr (wire_key f)) @ cb_array_head (word_of_nat k)"
    using cb_struct.map_array_packed [OF assms(1-5) k assms(7-9), of fb n] sstr_new_ok(1) e unfolding packs_def wire_key_def cb_gen_pack_def by fastforce
qed

definition maps_field :: struct_field where
  "maps_field = (demo_field ''ms'')\<lparr>fd_type := FIELD_TYPE_MAP, fd_is_array := True\<rparr>"

definition maps_program :: "unit program" where
  "maps_program = \<lparr>pg_env = \<lparr>je_items = [], je_hash = [], je_const = (\<lambda>e. if e = offsetof ''M'' ''ms_len'' then 8 else 0),
       je_strings = (\<lambda>_. []), je_strtof = (\<lambda>s. ((), [])), je_strtod = (\<lambda>s. ((), [])), je_zero = ()\<rparr>,
     pg_struct = [''M'' \<mapsto> [maps_field]], pg_oneof = Map.empty, pg_float = (\<lambda>_ _. [])\<rparr>"

definition maps_store :: "unit store" where
  "maps_store = \<lparr>st_bytes = (\<lambda>b. laid (if b = 0 then [(0, 8, Address (Some 1)), (8, 4, Value (J_int 2))] else [])),
     st_room = (\<lambda>b. if b = 0 then Some 16 else if b = 1 then Some 32 else None), st_next = 2\<rparr>"

lemma binary_map_array_lost_witness:
  "\<exists>out. gen_pack mp_ops unit_floats (Suc 0) maps_program maps_store ''M'' (0, 0) sstr_new = Some (Inr out)
    \<and> sstr_bytes out = mp_map_header_bytes 1 @ mp_enc (MStr (wire_key maps_field)) @ mp_array_header_bytes (word_of_nat 2)"
proof -
  have s: "pg_struct maps_program ''M'' = Some [maps_field]" by (simp add: maps_program_def)
  have f: "fd_is_array maps_field" "fd_array_size maps_field = 0" "fd_type maps_field = FIELD_TYPE_MAP" "\<not> may_be_absent maps_field" by code_simp+
  have w: "length (wire_key maps_field) < 2 ^ 32" by (simp add: wire_key_def maps_field_def JSON_KEY_def demo_field_def cstr_def)
  have l: "load_int (obj_at maps_program (0, 0) ''M'' (fd_name maps_field @ ''_len'')) maps_store = Inr (int 2)"
    "load_addr (obj_at maps_program (0, 0) ''M'' (fd_name maps_field)) maps_store = Inr (Some 1)" by code_simp+
  have b: "array_base (Some 1) 2 = Inr (1, 0)" by (simp add: array_base_def block_of_def)
  show ?thesis by (rule binary_map_array_lost [OF s f w l b, THEN conjunct1])
qed

lemma binary_truncated_number_witness:
  "gen_unpack mp_ops unit_floats (Suc 0) card_program ''Q'' (0, 0) (mp_map_header_bytes 1 @ mp_enc (MStr (wire_key (demo_field ''a'')))) (one_block 4)
    = Some (Inl Out_of_bounds)"
proof -
  have s: "pg_struct card_program ''Q'' = Some [demo_field ''a'']" by (simp add: card_program_def)
  have l: "find (\<lambda>g. wire_key (demo_field ''a'') = wire_key g) [demo_field ''a''] = Some (demo_field ''a'')" by simp
  have w: "length (wire_key (demo_field ''a'')) < 2 ^ 32" by (simp add: wire_key_def JSON_KEY_def demo_field_def cstr_def)
  have f: "\<not> may_be_absent (demo_field ''a'')" "\<not> fd_is_array (demo_field ''a'')" "c_int_of (fd_type (demo_field ''a'')) \<noteq> None"
    "fd_type (demo_field ''a'') \<notin> {FIELD_TYPE_BOOL, FIELD_TYPE_INT64, FIELD_TYPE_UINT64}" by code_simp+
  show ?thesis by (rule binary_truncated_number [OF s l w f, THEN conjunct1])
qed

end
