(* ===== verification/StructOps.thy ===== *)
theory StructOps
  imports BinaryGen
begin

text \<open>
  The functions \<open>T_init\<close>, \<open>T_clear\<close>, \<open>T_copy\<close> and \<open>T_move\<close> that \<open>src/gencode/gencode.c\<close> emits for every struct and oneof
  (\<open>gen_code_struct_init\<close>, \<open>gen_code_struct_clear\<close>, \<open>gen_code_struct_copy\<close>, \<open>gen_code_struct_move\<close>, their helpers and the oneof
  versions). A definition is the emitted code with the declaration it is emitted for as an argument, on the memory of JsonStore;
  \<open>rec\<close> is the function of the structs inside. Allocation succeeds and no pointer is null, so the copies have no way to fail.
\<close>

section \<open>Places\<close>

text \<open>The size of an element of an array, and the entries of a map.\<close>

definition elem_bytes :: "'d program \<Rightarrow> struct_field \<Rightarrow> nat" where
  "elem_bytes pg f =
     (if fd_type f = FIELD_TYPE_MAP then col (pg_env pg) (''sizeof(struct json_map_'' @ map_suffix f @ '')'') else scalar_bytes pg f)"

definition map_entry_bytes :: "'d program \<Rightarrow> struct_field \<Rightarrow> nat" where
  "map_entry_bytes pg f = col (pg_env pg) (''sizeof(struct json_map_entry_'' @ map_suffix f @ '')'')"

definition map_entry_value :: "'d program \<Rightarrow> struct_field \<Rightarrow> ptr \<Rightarrow> ptr" where
  "map_entry_value pg f p = shift p (col (pg_env pg) (''(int)offsetof(struct json_map_entry_'' @ map_suffix f @ '', value)''))"

definition len_at :: "'d program \<Rightarrow> ptr \<Rightarrow> string \<Rightarrow> struct_field \<Rightarrow> ptr" where
  "len_at pg p st f = obj_at pg p st (fd_name f @ ''_len'')"

definition has_at :: "'d program \<Rightarrow> ptr \<Rightarrow> string \<Rightarrow> struct_field \<Rightarrow> ptr" where
  "has_at pg p st f = obj_at pg p st (''has_'' @ fd_name f)"

definition oneof_tag_at :: "'d program \<Rightarrow> oneof_container \<Rightarrow> ptr \<Rightarrow> ptr" where
  "oneof_tag_at pg oc p = shift p (col (pg_env pg) (''(int)'' @ offsetof (oc_name oc) ''tag''))"

definition oneof_value_at :: "'d program \<Rightarrow> oneof_container \<Rightarrow> ptr \<Rightarrow> ptr" where
  "oneof_value_at pg oc p = shift p (col (pg_env pg) (''(int)'' @ offsetof (oc_name oc) ''value''))"

text \<open>The zero a field is compared with and set to: its size, and the value.\<close>

definition scalar_zero :: "'d program \<Rightarrow> field_type \<Rightarrow> (nat \<times> 'd cval) option" where
  "scalar_zero pg ft = (case c_int_of ft of
     Some T \<Rightarrow> Some (c_int_bits T div 8, Value (J_int 0))
   | None \<Rightarrow> (case ft of
       FIELD_TYPE_ENUM \<Rightarrow> Some (4, Value (J_int 0))
     | FIELD_TYPE_FLOAT \<Rightarrow> Some (4, Value (J_float (je_zero (pg_env pg))))
     | FIELD_TYPE_DOUBLE \<Rightarrow> Some (8, Value (J_float (je_zero (pg_env pg))))
     | _ \<Rightarrow> None))"

definition holds_objects :: "field_type \<Rightarrow> bool" where
  "holds_objects ft \<longleftrightarrow> ft = FIELD_TYPE_STRUCT \<or> ft = FIELD_TYPE_ONEOF"

abbreviation is_map_array :: "struct_field \<Rightarrow> bool" where
  "is_map_array f \<equiv> fd_is_array f \<and> fd_array_size f = 0"

definition reset_array :: "ptr \<Rightarrow> ptr \<Rightarrow> 'd store \<Rightarrow> fault + 'd store" where
  "reset_array q len_p m = bindE (store_addr q None m) (store_int len_p 0)"

section \<open>Initialising\<close>

text \<open>The initialiser of a scalar: its default value, or zero.\<close>

definition init_scalar :: "'d floats \<Rightarrow> 'd program \<Rightarrow> struct_field \<Rightarrow> ptr \<Rightarrow> 'd store \<Rightarrow> fault + 'd store" where
  "init_scalar fb pg f q m =
     (let d = (case fd_default_value f of Some d \<Rightarrow> d | None \<Rightarrow> [])
      in if fd_type f = FIELD_TYPE_SSTR then
           store_value q 8 (Value (J_str (if fd_has_default f then Some (cstr d) else None))) m
         else case scalar_zero pg (fd_type f) of
           None \<Rightarrow> Inr m
         | Some (n, z) \<Rightarrow>
             store_value q n
               (if \<not> fd_has_default f then z
                else case c_int_of (fd_type f) of
                  Some T \<Rightarrow> Value (J_int (c_cast T (je_const (pg_env pg) d)))
                | None \<Rightarrow> if fd_type f = FIELD_TYPE_ENUM then Value (J_int (je_const (pg_env pg) (fd_type_name f @ ''_'' @ d)))
                          else Value (J_float (fb_literal fb d))) m)"

definition struct_init_field :: "'d floats \<Rightarrow> 'd program \<Rightarrow> 'd object_step \<Rightarrow> string \<Rightarrow> ptr \<Rightarrow> struct_field \<Rightarrow> 'd store \<Rightarrow> 'd store run" where
  "struct_init_field fb pg rec st p f m =
     (let q = obj_at pg p st (fd_name f); n = nat (fd_array_size f)
      in bindD (Some (if may_be_absent f then store_bool (has_at pg p st f) False m else Inr m)) (\<lambda>m.
         if fd_type f = FIELD_TYPE_MAP then
           Some (if is_map_array f then reset_array q (len_at pg p st f) m else reset_array q (shift q 8) m)
         else if fd_is_array f \<and> 0 < fd_array_size f then
           (if fd_type f = FIELD_TYPE_SSTR then
              for_range (\<lambda>i m. Some (store_value (shift q (i * 8)) 8 (Value (J_str None)) m)) [0..<n] m
            else if holds_objects (fd_type f) then
              for_range (\<lambda>i. rec (fd_type_name f) (shift q (i * elem_bytes pg f))) [0..<n] m
            else Some (zero_bytes q (n * elem_bytes pg f) m))
         else if fd_is_array f then Some (reset_array q (len_at pg p st f) m)
         else if holds_objects (fd_type f) then rec (fd_type_name f) q m
         else Some (init_scalar fb pg f q m)))"

fun struct_init_fields :: "'d floats \<Rightarrow> 'd program \<Rightarrow> 'd object_step \<Rightarrow> string \<Rightarrow> ptr \<Rightarrow> struct_field list \<Rightarrow> 'd store \<Rightarrow> 'd store run" where
  "struct_init_fields fb pg rec st p [] m = Some (Inr m)"
| "struct_init_fields fb pg rec st p (f # fs) m =
     bindD (struct_init_field fb pg rec st p f m) (struct_init_fields fb pg rec st p fs)"

text \<open>A function per declaration; \<open>n\<close> bounds how deep structs nest. A oneof is set to zero.\<close>

fun object_init :: "'d floats \<Rightarrow> nat \<Rightarrow> 'd program \<Rightarrow> 'd object_step" where
  "object_init fb 0 pg tn p m = None"
| "object_init fb (Suc n) pg tn p m =
     (case pg_struct pg tn of
        Some fs \<Rightarrow> struct_init_fields fb pg (object_init fb n pg) tn p fs m
      | None \<Rightarrow> (case pg_oneof pg tn of Some oc \<Rightarrow> Some (zero_bytes p (size_of pg tn) m) | None \<Rightarrow> None))"

section \<open>Releasing\<close>

text \<open>\<open>gen_clear_map_entries\<close>.\<close>

definition clear_map_entries :: "'d program \<Rightarrow> 'd object_step \<Rightarrow> struct_field \<Rightarrow> ptr \<Rightarrow> 'd store \<Rightarrow> 'd store run" where
  "clear_map_entries pg rec f p m =
     bindD (Some (load_int (shift p 8) m)) (\<lambda>len.
     bindD (Some (load_addr p m)) (\<lambda>entries.
     bindD (for_range (\<lambda>i m. bindD (Some (block_of entries)) (\<lambda>base.
              (let entry = shift base (i * map_entry_bytes pg f)
               in bindD (free_sstr entry m) (\<lambda>m.
                  if fd_map_value_type f = FIELD_TYPE_SSTR then free_sstr (map_entry_value pg f entry) m
                  else if holds_objects (fd_map_value_type f) then rec (map_value_name f) (map_entry_value pg f entry) m
                  else Some (Inr m)))))
            [0..<nat len] m) (\<lambda>m.
     Some (bindE (mem_free entries m) (reset_array p (shift p 8))))))"

text \<open>A dynamic array: \<open>clr\<close> releases an element.\<close>

definition clear_dyn_array :: "(ptr \<Rightarrow> 'd store \<Rightarrow> 'd store run) \<Rightarrow> nat \<Rightarrow> ptr \<Rightarrow> ptr \<Rightarrow> 'd store \<Rightarrow> 'd store run" where
  "clear_dyn_array clr sz q len_p m =
     bindD (Some (load_int len_p m)) (\<lambda>len.
     bindD (Some (load_addr q m)) (\<lambda>a.
     bindD (for_range (\<lambda>i m. bindD (Some (block_of a)) (\<lambda>base. clr (shift base (i * sz)) m)) [0..<nat len] m) (\<lambda>m.
     Some (bindE (mem_free a m) (reset_array q len_p)))))"

definition struct_clear_field :: "'d program \<Rightarrow> 'd object_step \<Rightarrow> string \<Rightarrow> ptr \<Rightarrow> struct_field \<Rightarrow> 'd store \<Rightarrow> 'd store run" where
  "struct_clear_field pg rec st p f m =
     (let q = obj_at pg p st (fd_name f); sz = elem_bytes pg f; n = nat (fd_array_size f)
      in bindD (Some (if may_be_absent f then store_bool (has_at pg p st f) False m else Inr m)) (\<lambda>m.
         if fd_type f = FIELD_TYPE_MAP then
           (if is_map_array f then clear_dyn_array (clear_map_entries pg rec f) sz q (len_at pg p st f) m
            else clear_map_entries pg rec f q m)
         else if fd_is_array f \<and> 0 < fd_array_size f then
           (if holds_objects (fd_type f) then for_range (\<lambda>i. rec (fd_type_name f) (shift q (i * sz))) [0..<n] m
            else if fd_type f = FIELD_TYPE_SSTR then for_range (\<lambda>i m. Some (clear_str (shift q (i * sz)) m)) [0..<n] m
            else Some (zero_bytes q (n * sz) m))
         else if fd_is_array f then
           clear_dyn_array (if holds_objects (fd_type f) then rec (fd_type_name f)
                          else if fd_type f = FIELD_TYPE_SSTR then free_sstr else (\<lambda>_ m. Some (Inr m))) sz q (len_at pg p st f) m
         else if holds_objects (fd_type f) then rec (fd_type_name f) q m
         else if fd_type f = FIELD_TYPE_SSTR then Some (clear_str q m)
         else case scalar_zero pg (fd_type f) of None \<Rightarrow> Some (Inr m) | Some (k, z) \<Rightarrow> Some (store_value q k z m)))"

fun struct_clear_fields :: "'d program \<Rightarrow> 'd object_step \<Rightarrow> string \<Rightarrow> ptr \<Rightarrow> struct_field list \<Rightarrow> 'd store \<Rightarrow> 'd store run" where
  "struct_clear_fields pg rec st p [] m = Some (Inr m)"
| "struct_clear_fields pg rec st p (f # fs) m = bindD (struct_clear_field pg rec st p f m) (struct_clear_fields pg rec st p fs)"

text \<open>\<open>gen_oneof_clear\<close>: the variant of the tag, then zeros.\<close>

definition oneof_clear :: "'d program \<Rightarrow> 'd object_step \<Rightarrow> oneof_container \<Rightarrow> ptr \<Rightarrow> 'd store \<Rightarrow> 'd store run" where
  "oneof_clear pg rec oc p m =
     bindD (Some (load_int (oneof_tag_at pg oc p) m)) (\<lambda>tag.
     bindD (case find (\<lambda>v. int (ov_index v) = tag) (oc_variants oc) of
              Some v \<Rightarrow> rec (ov_struct_type_name v) (oneof_value_at pg oc p) m
            | None \<Rightarrow> Some (Inr m)) (\<lambda>m.
     Some (zero_bytes p (size_of pg (oc_name oc)) m)))"

fun object_clear :: "nat \<Rightarrow> 'd program \<Rightarrow> 'd object_step" where
  "object_clear 0 pg tn p m = None"
| "object_clear (Suc n) pg tn p m =
     (case pg_struct pg tn of
        Some fs \<Rightarrow> struct_clear_fields pg (object_clear n pg) tn p fs m
      | None \<Rightarrow> (case pg_oneof pg tn of Some oc \<Rightarrow> oneof_clear pg (object_clear n pg) oc p m | None \<Rightarrow> None))"

section \<open>Copying\<close>

text \<open>\<open>rec tn q p\<close> copies the object at \<open>p\<close> to \<open>q\<close>.\<close>

type_synonym 'd object_copier = "string \<Rightarrow> ptr \<Rightarrow> ptr \<Rightarrow> 'd store \<Rightarrow> 'd store run"

definition copy_sstr_value :: "ptr \<Rightarrow> ptr \<Rightarrow> 'd store \<Rightarrow> fault + 'd store" where
  "copy_sstr_value q p m =
     bindE (store_value q 8 (Value (J_str None)) m) (\<lambda>m.
     bindE (load_str p m) (\<lambda>s. if s \<noteq> None then store_value q 8 (Value (J_str s)) m else Inr m))"

definition copy_value :: "'d program \<Rightarrow> 'd object_copier \<Rightarrow> field_type \<Rightarrow> string \<Rightarrow> ptr \<Rightarrow> ptr \<Rightarrow> 'd store \<Rightarrow> 'd store run" where
  "copy_value pg rec ft tn q p m =
     (if ft = FIELD_TYPE_SSTR then Some (copy_sstr_value q p m)
      else if holds_objects ft then rec tn q p m
      else case scalar_zero pg ft of
        None \<Rightarrow> None
      | Some (n, z) \<Rightarrow> Some (bindE (load_value p n z m) (\<lambda>v. store_value q n v m)))"

definition copy_map_container :: "'d program \<Rightarrow> 'd object_copier \<Rightarrow> struct_field \<Rightarrow> ptr \<Rightarrow> ptr \<Rightarrow> 'd store \<Rightarrow> 'd store run" where
  "copy_map_container pg rec f q p m =
     bindD (Some (reset_array q (shift q 8) m)) (\<lambda>m.
     bindD (Some (load_int (shift p 8) m)) (\<lambda>len.
     if len > 0 then
       (let sz = map_entry_bytes pg f; (b, m) = mem_malloc (sz * nat len) m
        in bindD (Some (bindE (store_addr q (Some b) m) (\<lambda>m. bindE (zero_bytes (b, 0) (sz * nat len) m) (store_int (shift q 8) len)))) (\<lambda>m.
           bindD (Some (bindE (load_addr p m) block_of)) (\<lambda>src.
           for_range (\<lambda>i m. bindD (Some (copy_sstr_value (shift (b, 0) (i * sz)) (shift src (i * sz)) m))
               (copy_value pg rec (fd_map_value_type f) (map_value_name f)
                 (map_entry_value pg f (shift (b, 0) (i * sz))) (map_entry_value pg f (shift src (i * sz))))) [0..<nat len] m)))
     else Some (Inr m)))"

text \<open>A dynamic array: objects are copied one by one into zeroed memory, other elements as bytes.\<close>

definition copy_dynamic_array :: "'d program \<Rightarrow> 'd object_copier \<Rightarrow> string \<Rightarrow> struct_field \<Rightarrow> ptr \<Rightarrow> ptr \<Rightarrow> 'd store \<Rightarrow> 'd store run" where
  "copy_dynamic_array pg rec st f q p m =
     (let dst = obj_at pg q st (fd_name f); src = obj_at pg p st (fd_name f); sz = elem_bytes pg f
      in bindD (Some (reset_array dst (len_at pg q st f) m)) (\<lambda>m.
         bindD (Some (load_int (len_at pg p st f) m)) (\<lambda>len.
         if len > 0 then
           (let (b, m) = mem_malloc (sz * nat len) m
            in bindD (Some (store_addr dst (Some b) m)) (\<lambda>m.
               bindD (Some (bindE (load_addr src m) block_of)) (\<lambda>base.
               if fd_type f = FIELD_TYPE_MAP \<or> fd_type f = FIELD_TYPE_SSTR \<or> holds_objects (fd_type f) then
                 bindD (Some (bindE (zero_bytes (b, 0) (sz * nat len) m) (store_int (len_at pg q st f) len)))
                   (for_range (\<lambda>i.
                      if fd_type f = FIELD_TYPE_MAP then copy_map_container pg rec f (shift (b, 0) (i * sz)) (shift base (i * sz))
                      else copy_value pg rec (fd_type f) (fd_type_name f) (shift (b, 0) (i * sz)) (shift base (i * sz))) [0..<nat len])
               else Some (bindE (mem_copy (b, 0) base (sz * nat len) m) (store_int (len_at pg q st f) len)))))
         else Some (Inr m))))"

definition copy_fixed_array :: "'d program \<Rightarrow> 'd object_copier \<Rightarrow> struct_field \<Rightarrow> ptr \<Rightarrow> ptr \<Rightarrow> 'd store \<Rightarrow> 'd store run" where
  "copy_fixed_array pg rec f q p m =
     (let n = nat (fd_array_size f); sz = elem_bytes pg f
      in if fd_type f = FIELD_TYPE_SSTR \<or> holds_objects (fd_type f) then
           for_range (\<lambda>i. copy_value pg rec (fd_type f) (fd_type_name f) (shift q (i * sz)) (shift p (i * sz))) [0..<n] m
         else Some (mem_copy q p (n * sz) m))"

text \<open>\<open>emit_copy_field_body\<close>.\<close>

definition copy_field_body :: "'d program \<Rightarrow> 'd object_copier \<Rightarrow> string \<Rightarrow> struct_field \<Rightarrow> ptr \<Rightarrow> ptr \<Rightarrow> 'd store \<Rightarrow> 'd store run" where
  "copy_field_body pg rec st f q p m =
     (let dst = obj_at pg q st (fd_name f); src = obj_at pg p st (fd_name f)
      in if fd_type f = FIELD_TYPE_MAP then
           (if is_map_array f then copy_dynamic_array pg rec st f q p m else copy_map_container pg rec f dst src m)
         else if fd_is_array f \<and> 0 < fd_array_size f then copy_fixed_array pg rec f dst src m
         else if fd_is_array f then copy_dynamic_array pg rec st f q p m
         else copy_value pg rec (fd_type f) (fd_type_name f) dst src m)"

fun copy_fields :: "'d program \<Rightarrow> 'd object_copier \<Rightarrow> string \<Rightarrow> ptr \<Rightarrow> ptr \<Rightarrow> struct_field list \<Rightarrow> 'd store \<Rightarrow> 'd store run" where
  "copy_fields pg rec st q p [] m = Some (Inr m)"
| "copy_fields pg rec st q p (f # fs) m =
     bindD (if may_be_absent f then
              bindD (Some (load_bool (has_at pg p st f) m)) (\<lambda>has.
                if has then bindD (copy_field_body pg rec st f q p m) (\<lambda>m. Some (store_bool (has_at pg q st f) True m))
                else Some (Inr m))
            else copy_field_body pg rec st f q p m)
       (copy_fields pg rec st q p fs)"

text \<open>\<open>clr\<close> is \<open>T_clear\<close>. An object copied to itself is left alone.\<close>

definition struct_copy :: "'d program \<Rightarrow> 'd object_step \<Rightarrow> 'd object_copier \<Rightarrow> string \<Rightarrow> struct_field list \<Rightarrow> ptr \<Rightarrow> ptr \<Rightarrow> 'd store \<Rightarrow> 'd store run" where
  "struct_copy pg clr rec tn fs q p m =
     (if q = p then Some (Inr m) else bindD (clr tn q m) (copy_fields pg rec tn q p fs))"

definition oneof_copy :: "'d program \<Rightarrow> 'd object_step \<Rightarrow> 'd object_copier \<Rightarrow> oneof_container \<Rightarrow> ptr \<Rightarrow> ptr \<Rightarrow> 'd store \<Rightarrow> 'd store run" where
  "oneof_copy pg clr rec oc q p m =
     (if q = p then Some (Inr m)
      else bindD (clr (oc_name oc) q m) (\<lambda>m.
           bindD (Some (load_int (oneof_tag_at pg oc p) m)) (\<lambda>tag.
           bindD (Some (store_int (oneof_tag_at pg oc q) tag m)) (\<lambda>m.
           case find (\<lambda>v. int (ov_index v) = tag) (oc_variants oc) of
             Some v \<Rightarrow> rec (ov_struct_type_name v) (oneof_value_at pg oc q) (oneof_value_at pg oc p) m
           | None \<Rightarrow> Some (Inr m)))))"

fun object_copy :: "nat \<Rightarrow> 'd program \<Rightarrow> 'd object_copier" where
  "object_copy 0 pg tn q p m = None"
| "object_copy (Suc n) pg tn q p m =
     (case pg_struct pg tn of
        Some fs \<Rightarrow> struct_copy pg (object_clear (Suc n) pg) (object_copy n pg) tn fs q p m
      | None \<Rightarrow> (case pg_oneof pg tn of
          Some oc \<Rightarrow> oneof_copy pg (object_clear (Suc n) pg) (object_copy n pg) oc q p m
        | None \<Rightarrow> None))"

text \<open>\<open>T_move\<close>: the bytes change hands.\<close>

definition object_move :: "nat \<Rightarrow> 'd program \<Rightarrow> 'd object_copier" where
  "object_move n pg tn q p m =
     (if q = p then Some (Inr m)
      else bindD (object_clear n pg tn q m) (\<lambda>m.
           Some (bindE (mem_copy q p (size_of pg tn) m) (zero_bytes p (size_of pg tn)))))"

end
