(* ===== verification/LspJson.thy ===== *)
theory LspJson
  imports CLib SstrPrintf
begin

text \<open>
  The JSON of the language server (\<open>src/lsp/lsp_jsonrpc.c\<close>): the framing of JSON-RPC messages by a
  \<open>Content-Length\<close> header, the parser of a message into a tree of values, its accessors, and the builders of messages.
  The input stream is the text that is left of it. The context of the parser, a buffer with a position, is the text from
  the position to the end: a parser that fails is never resumed. Freeing a tree is not observable. Strings are \<open>sstr_t\<close>
  contents; the functions that see them as C strings stop at the first NUL.
\<close>

section \<open>Values\<close>

datatype lsp_json_value =
    LSP_JSON_NULL
  | LSP_JSON_BOOL bool
  | LSP_JSON_NUMBER int
  | LSP_JSON_STRING string
  | LSP_JSON_ARRAY "lsp_json_value list"
  | LSP_JSON_OBJECT "(string \<times> lsp_json_value) list"

section \<open>Framing\<close>

text \<open>\<open>fgets\<close> with a buffer of \<open>n\<close> bytes: a line with its newline, or as much of it as fits.\<close>

definition fgets :: "nat \<Rightarrow> string \<Rightarrow> (string \<times> string) option" where
  "fgets n s =
     (let k = length (takeWhile (\<lambda>c. c \<noteq> CHR 0x0A) s); m = min (n - 1) (Suc k)
      in if s = [] then None else Some (take m s, drop m s))"

lemma fgets_shorter: "fgets n s = Some (l, r) \<Longrightarrow> 2 \<le> n \<Longrightarrow> length r < length s"
  by (auto simp: fgets_def Let_def split: if_splits)

text \<open>Stripping a trailing CR and LF.\<close>

definition strip_eol :: "string \<Rightarrow> string" where
  "strip_eol line = rev (dropWhile (\<lambda>c. c = CHR 0x0D \<or> c = CHR 0x0A) (rev (cstr line)))"

text \<open>\<open>atoi\<close> is the value of \<open>strtol\<close> cut to 32 bits.\<close>

definition c_atoi :: "string \<Rightarrow> int" where
  "c_atoi s = signed_take_bit 31 (fst (strtol s))"

text \<open>The loop over the header lines, with the last \<open>content_length\<close> seen.\<close>

function read_headers :: "int \<Rightarrow> string \<Rightarrow> int \<times> string" where
  "read_headers n s = (case fgets 4096 s of
     None \<Rightarrow> (n, s)
   | Some (buf, r) \<Rightarrow>
       (let line = strip_eol buf
        in if line = [] then (n, r)
           else read_headers (if take 15 line = ''Content-Length:'' then c_atoi (drop 15 line) else n) r))"
  by pat_completeness auto
termination
proof (relation "measure (\<lambda>(n, s). length s)", goal_cases)
  case (2 n s p buf r line)
  then have "fgets 4096 s = Some (buf, r)" by simp
  then show ?case by (simp add: fgets_shorter)
qed simp

declare read_headers.simps [simp del]

definition lsp_jsonrpc_read :: "string \<Rightarrow> string option \<times> string" where
  "lsp_jsonrpc_read s =
     (let (content_length, r) = read_headers (-1) s
      in if content_length \<le> 0 then (None, r)
         else if length r < nat content_length then (None, [])
         else (Some (take (nat content_length) r), drop (nat content_length) r))"

definition lsp_jsonrpc_write :: "string \<Rightarrow> string \<Rightarrow> string" where
  "lsp_jsonrpc_write out body =
     out @ ''Content-Length: '' @ dec_str (length body) @ [CHR 0x0D, CHR 0x0A, CHR 0x0D, CHR 0x0A] @ body"

section \<open>Parsing\<close>

definition skip_ws :: "string \<Rightarrow> string" where
  "skip_ws s = dropWhile is_space s"

lemma skip_ws_length: "length (skip_ws s) \<le> length s"
  by (simp add: skip_ws_def length_dropWhile_le)

text \<open>The code point of four hexadecimal digits, and its bytes.\<close>

fun hex_cp :: "u32 \<Rightarrow> string \<Rightarrow> u32 option" where
  "hex_cp cp [] = Some cp"
| "hex_cp cp (h # hs) =
     (let cp' = push_bit 4 cp
      in if 48 \<le> ord h \<and> ord h \<le> 57 then hex_cp (cp' OR of_nat (ord h - 48)) hs
         else if 97 \<le> ord h \<and> ord h \<le> 102 then hex_cp (cp' OR of_nat (ord h - 97 + 10)) hs
         else if 65 \<le> ord h \<and> ord h \<le> 70 then hex_cp (cp' OR of_nat (ord h - 65 + 10)) hs
         else None)"

definition cp_bytes :: "u32 \<Rightarrow> string" where
  "cp_bytes cp =
     (if cp < 0x80 then [char_of (unat cp)]
      else if cp < 0x800 then [char_of (unat (0xC0 OR drop_bit 6 cp)), char_of (unat (0x80 OR (cp AND 0x3F)))]
      else [char_of (unat (0xE0 OR drop_bit 12 cp)), char_of (unat (0x80 OR (drop_bit 6 cp AND 0x3F))),
            char_of (unat (0x80 OR (cp AND 0x3F)))])"

text \<open>The escapes of one character.\<close>

definition escape_table :: "(char \<times> char) list" where
  "escape_table = [(CHR 0x22, CHR 0x22), (CHR 0x5C, CHR 0x5C), (CHR ''/'', CHR ''/''), (CHR ''b'', CHR 0x08), (CHR ''f'', CHR 0x0C),
     (CHR ''n'', CHR 0x0A), (CHR ''r'', CHR 0x0D), (CHR ''t'', CHR 0x09)]"

text \<open>The loop of \<open>parse_string_raw\<close>, behind the opening quote.\<close>

fun string_chars :: "string \<Rightarrow> string \<Rightarrow> (string \<times> string) option" where
  "string_chars [] out = None"
| "string_chars (ch # s) out =
     (if ch = CHR 0x22 then Some (out, s)
      else if ch = CHR 0x5C then (case s of
          [] \<Rightarrow> None
        | esc # s1 \<Rightarrow> (case map_of escape_table esc of
            Some c \<Rightarrow> string_chars s1 (out @ [c])
          | None \<Rightarrow>
              if esc \<noteq> CHR ''u'' \<or> length s1 < 4 then None
              else (case hex_cp 0 (take 4 s1) of
                  None \<Rightarrow> None
                | Some cp \<Rightarrow> string_chars (drop 4 s1) (out @ cp_bytes cp))))
      else string_chars s (out @ [ch]))"

definition parse_string_raw :: "string \<Rightarrow> (string \<times> string) option" where
  "parse_string_raw s = (case s of [] \<Rightarrow> None | ch # s1 \<Rightarrow> if ch \<noteq> CHR 0x22 then None else string_chars s1 [])"

lemma string_chars_length: "string_chars s out = Some (t, r) \<Longrightarrow> length r < length s"
proof (induction s out rule: string_chars.induct)
  case (2 ch s out)
  consider "ch = CHR 0x22" | "ch \<noteq> CHR 0x22" "ch \<noteq> CHR 0x5C" | "ch = CHR 0x5C" "ch \<noteq> CHR 0x22" by blast
  then show ?case
  proof cases
    case 3
    note e = this
    obtain esc s1 where s: "s = esc # s1" using 2(4) e by (cases s) auto
    show ?thesis
    proof (cases "map_of escape_table esc")
      case (Some c)
      then have "length r < length s1" using 2(2) [OF e(2,1) s Some] 2(4) e s by simp
      then show ?thesis by (simp add: s)
    next
      case None
      then obtain cp where cp: "esc = CHR ''u''" "4 \<le> length s1" "hex_cp 0 (take 4 s1) = Some cp"
        using 2(4) e s by (auto split: if_splits option.splits)
      have "length r < length (drop 4 s1)" using 2(1) [OF e(2,1) s None _ cp(3)] 2(4) e s None cp by simp
      then show ?thesis by (simp add: s)
    qed
  qed (use 2(3,4) in auto)
qed simp

lemma parse_string_raw_length: "parse_string_raw s = Some (t, r) \<Longrightarrow> length r < length s"
  by (auto simp: parse_string_raw_def split: list.splits if_splits dest!: string_chars_length)

text \<open>The numeral at the head of the text: sign, digits, fraction, exponent.\<close>

definition skip_digits :: "string \<Rightarrow> string" where
  "skip_digits s = dropWhile is_digit s"

definition skip_char :: "(char \<Rightarrow> bool) \<Rightarrow> string \<Rightarrow> string" where
  "skip_char P s = (if s \<noteq> [] \<and> P (hd s) then tl s else s)"

definition number_end :: "string \<Rightarrow> string" where
  "number_end s =
     (let s1 = skip_digits (skip_char (\<lambda>c. c = CHR ''-'') s);
          s2 = (if s1 \<noteq> [] \<and> hd s1 = CHR ''.'' then skip_digits (tl s1) else s1)
      in if s2 \<noteq> [] \<and> (hd s2 = CHR ''e'' \<or> hd s2 = CHR ''E'')
         then skip_digits (skip_char (\<lambda>c. c = CHR ''+'' \<or> c = CHR ''-'') (tl s2)) else s2)"

text \<open>At most 63 bytes of the numeral are looked at, by \<open>atol\<close>.\<close>

definition parse_number :: "string \<Rightarrow> (lsp_json_value \<times> string) option" where
  "parse_number s =
     (let r = number_end s; nlen = length s - length r
      in if nlen = 0 then None else Some (LSP_JSON_NUMBER (fst (strtol (take (min nlen 63) s))), r))"

lemma skip_digits_length: "length (skip_digits s) \<le> length s"
  by (simp add: skip_digits_def length_dropWhile_le)

lemma skip_char_length: "length (skip_char P s) \<le> length s"
  by (simp add: skip_char_def)

lemma number_end_length: "length (number_end s) \<le> length s"
proof -
  define s1 where "s1 = skip_digits (skip_char (\<lambda>c. c = CHR ''-'') s)"
  define s2 where "s2 = (if s1 \<noteq> [] \<and> hd s1 = CHR ''.'' then skip_digits (tl s1) else s1)"
  define s3 where "s3 = skip_digits (skip_char (\<lambda>c. c = CHR ''+'' \<or> c = CHR ''-'') (tl s2))"
  have 1: "length s1 \<le> length s" unfolding s1_def using skip_digits_length skip_char_length order_trans by blast
  have "length (skip_digits (tl s1)) \<le> length s1" using skip_digits_length [of "tl s1"] by simp
  then have 2: "length s2 \<le> length s1" by (simp add: s2_def)
  have "length s3 \<le> length (tl s2)" unfolding s3_def using skip_digits_length skip_char_length order_trans by blast
  then have 3: "length s3 \<le> length s2" by simp
  show ?thesis using 1 2 3 unfolding number_end_def Let_def s1_def [symmetric] s2_def [symmetric] s3_def [symmetric] by simp
qed

lemma parse_number_length: "parse_number s = Some (v, r) \<Longrightarrow> length r < length s"
  using number_end_length [of s] by (auto simp: parse_number_def Let_def split: if_splits)

text \<open>Values, the loop over the elements of an array, and the loop over the members of an object.\<close>

definition starts :: "char \<Rightarrow> string \<Rightarrow> bool" where
  "starts c s \<longleftrightarrow> s \<noteq> [] \<and> hd s = c"

lemma starts_Cons [simp]: "starts c (d # s) \<longleftrightarrow> d = c" "\<not> starts c []"
  by (auto simp: starts_def)

function (domintros) parse_value :: "string \<Rightarrow> (lsp_json_value \<times> string) option"
  and parse_elements :: "string \<Rightarrow> (lsp_json_value list \<times> string) option"
  and parse_members :: "string \<Rightarrow> ((string \<times> lsp_json_value) list \<times> string) option" where
  "parse_value s = (case skip_ws s of
     [] \<Rightarrow> None
   | ch # s1 \<Rightarrow>
       if ch = CHR 0x22 then map_option (\<lambda>(t, r). (LSP_JSON_STRING t, r)) (parse_string_raw (ch # s1))
       else if ch = CHR ''{'' then
         (if starts (CHR ''}'') (skip_ws s1) then Some (LSP_JSON_OBJECT [], tl (skip_ws s1))
          else map_option (\<lambda>(kvs, r). (LSP_JSON_OBJECT kvs, r)) (parse_members (skip_ws s1)))
       else if ch = CHR ''['' then
         (if starts (CHR '']'') (skip_ws s1) then Some (LSP_JSON_ARRAY [], tl (skip_ws s1))
          else map_option (\<lambda>(vs, r). (LSP_JSON_ARRAY vs, r)) (parse_elements (skip_ws s1)))
       else if ch = CHR ''-'' \<or> is_digit ch then parse_number (ch # s1)
       else if take 4 (ch # s1) = ''true'' then Some (LSP_JSON_BOOL True, drop 4 (ch # s1))
       else if take 5 (ch # s1) = ''false'' then Some (LSP_JSON_BOOL False, drop 5 (ch # s1))
       else if take 4 (ch # s1) = ''null'' then Some (LSP_JSON_NULL, drop 4 (ch # s1))
       else None)"
| "parse_elements s = (case parse_value s of
     None \<Rightarrow> None
   | Some (v, r) \<Rightarrow>
       if starts (CHR '','') (skip_ws r) then
         map_option (\<lambda>(vs, r2). (v # vs, r2)) (parse_elements (skip_ws (tl (skip_ws r))))
       else if starts (CHR '']'') (skip_ws r) then Some ([v], tl (skip_ws r))
       else None)"
| "parse_members s = (case parse_string_raw (skip_ws s) of
     None \<Rightarrow> None
   | Some (key, r) \<Rightarrow>
       if \<not> starts (CHR '':'') (skip_ws r) then None
       else (case parse_value (tl (skip_ws r)) of
         None \<Rightarrow> None
       | Some (v, r1) \<Rightarrow>
           if starts (CHR '','') (skip_ws r1) then
             map_option (\<lambda>(kvs, r2). ((cstr key, v) # kvs, r2)) (parse_members (tl (skip_ws r1)))
           else if starts (CHR ''}'') (skip_ws r1) then Some ([(cstr key, v)], tl (skip_ws r1))
           else None))"
  by pat_completeness auto

lemma skip_ws_Cons_length: "skip_ws s = ch # s1 \<Longrightarrow> length s1 < length s"
  using skip_ws_length [of s] by simp

lemma starts_length: "starts c s \<Longrightarrow> length (tl s) < length s"
  by (cases s) auto

text \<open>Whatever a parser returns, it has consumed something.\<close>

lemma parse_shorter:
  "parse_value_parse_elements_parse_members_dom (Inl s) \<Longrightarrow> parse_value s = Some (v, r) \<Longrightarrow> length r < length s"
  "parse_value_parse_elements_parse_members_dom (Inr (Inl s)) \<Longrightarrow> parse_elements s = Some (vs, r) \<Longrightarrow> length r < length s"
  "parse_value_parse_elements_parse_members_dom (Inr (Inr s)) \<Longrightarrow> parse_members s = Some (kvs, r) \<Longrightarrow> length r < length s"
proof (induction s and s and s arbitrary: v r and vs r and kvs r rule: parse_value_parse_elements_parse_members.pinduct)
  case (1 s)
  obtain ch s1 where s: "skip_ws s = ch # s1"
    using 1(4) by (auto simp: parse_value.psimps [OF 1(1)] split: list.splits)
  have l: "length s1 < length s" "length (tl (skip_ws s1)) \<le> length s1" "length (skip_ws s1) \<le> length s1"
    using skip_ws_Cons_length [OF s] skip_ws_length [of s1] by auto
  have m: "length r < length s" if "parse_members (skip_ws s1) = Some (kvs, r)" "ch \<noteq> CHR 0x22" "ch = CHR ''{''" "\<not> starts (CHR ''}'') (skip_ws s1)" for kvs
    using 1(2) [OF s that(2,3,4,1)] l by simp
  have e: "length r < length s" if "parse_elements (skip_ws s1) = Some (vs, r)" "ch \<noteq> CHR 0x22" "ch \<noteq> CHR ''{''" "ch = CHR ''[''" "\<not> starts (CHR '']'') (skip_ws s1)" for vs
    using 1(3) [OF s that(2,3,4,5,1)] l by simp
  have n: "length r < length s" if "parse_string_raw (ch # s1) = Some (t, r)" for t
    using parse_string_raw_length [OF that] l by simp
  have k: "length r < length s" if "parse_number (ch # s1) = Some (v, r)"
    using parse_number_length [OF that] l by simp
  have d: "length (drop k (ch # s1)) < length s" if "0 < k" for k
    using that l by (cases k) auto
  show ?case using 1(4) m e n k d l unfolding parse_value.psimps [OF 1(1)] s
    by (simp split: if_splits) auto
next
  case (2 s)
  obtain v1 r1 where v: "parse_value s = Some (v1, r1)"
    using 2(4) by (auto simp: parse_elements.psimps [OF 2(1)] split: option.splits)
  have l: "length r1 < length s" "length (tl (skip_ws r1)) \<le> length r1" "length (skip_ws (tl (skip_ws r1))) \<le> length r1"
    using 2(2) [OF v] skip_ws_length [of r1] skip_ws_length [of "tl (skip_ws r1)"] by auto
  show ?case
  proof (cases "starts (CHR '','') (skip_ws r1)")
    case True
    then obtain vs2 where "parse_elements (skip_ws (tl (skip_ws r1))) = Some (vs2, r)"
      using 2(4) v by (auto simp: parse_elements.psimps [OF 2(1)])
    then show ?thesis using 2(3) [OF v refl True] l by fastforce
  next
    case False
    then show ?thesis using 2(4) v l by (auto simp: parse_elements.psimps [OF 2(1)] split: if_splits)
  qed
next
  case (3 s)
  obtain key r1 where k: "parse_string_raw (skip_ws s) = Some (key, r1)"
    using 3(4) by (auto simp: parse_members.psimps [OF 3(1)] split: option.splits)
  have c: "starts (CHR '':'') (skip_ws r1)"
    using 3(4) k by (auto simp: parse_members.psimps [OF 3(1)] split: if_splits)
  obtain v1 r2 where v: "parse_value (tl (skip_ws r1)) = Some (v1, r2)"
    using 3(4) k c by (auto simp: parse_members.psimps [OF 3(1)] split: option.splits)
  have l: "length (tl (skip_ws r2)) < length s"
    using parse_string_raw_length [OF k] skip_ws_length [of s] 3(2) [OF k refl _ v] c starts_length [OF c] skip_ws_length [of r1] skip_ws_length [of r2]
    by simp
  show ?case
  proof (cases "starts (CHR '','') (skip_ws r2)")
    case True
    then obtain kvs2 where "parse_members (tl (skip_ws r2)) = Some (kvs2, r)"
      using 3(4) k c v by (auto simp: parse_members.psimps [OF 3(1)])
    then show ?thesis using 3(3) [OF k refl _ v refl True] c l by fastforce
  next
    case False
    then show ?thesis using 3(4) k c v l by (auto simp: parse_members.psimps [OF 3(1)] split: if_splits)
  qed
qed

termination parse_value
proof (relation "measure (case_sum (\<lambda>s. 2 * length s) (case_sum (\<lambda>s. 2 * length s + 1) (\<lambda>s. 2 * length s + 1)))", goal_cases)
  case (2 s ch s1)
  then show ?case using skip_ws_Cons_length [OF 2(1)] skip_ws_length [of s1] by simp
next
  case (3 s ch s1)
  then show ?case using skip_ws_Cons_length [OF 3(1)] skip_ws_length [of s1] by simp
next
  case (4 s)
  then show ?case by simp
next
  case (5 s p v r)
  then have "parse_value s = Some (v, r)" by simp
  then have "length r < length s" using parse_shorter(1) 5 by blast
  then show ?case using skip_ws_length [of "tl (skip_ws r)"] skip_ws_length [of r] starts_length by fastforce
next
  case (6 s p key r)
  then have "parse_string_raw (skip_ws s) = Some (key, r)" by simp
  then show ?case using parse_string_raw_length skip_ws_length [of s] skip_ws_length [of r] 6 starts_length by fastforce
next
  case (7 s p key r q v r1)
  then have k: "parse_string_raw (skip_ws s) = Some (key, r)" and v: "parse_value (tl (skip_ws r)) = Some (v, r1)" by simp_all
  have "length r1 < length (tl (skip_ws r))" using parse_shorter(1) v 7 by blast
  then show ?case
    using parse_string_raw_length [OF k] skip_ws_length [of s] skip_ws_length [of r] skip_ws_length [of r1] starts_length [of _ "skip_ws r1"] 7
    by fastforce
qed simp

lemmas parse_simps = parse_value.simps parse_elements.simps parse_members.simps
lemmas parse_induct = parse_value_parse_elements_parse_members.induct
declare parse_simps [simp del]

definition lsp_json_parse :: "string \<Rightarrow> lsp_json_value option" where
  "lsp_json_parse json = map_option fst (parse_value json)"

section \<open>Access\<close>

fun lsp_json_get :: "lsp_json_value option \<Rightarrow> string \<Rightarrow> lsp_json_value option" where
  "lsp_json_get (Some (LSP_JSON_OBJECT kvs)) key = map_option snd (find (\<lambda>(k, v). k = cstr key) kvs)"
| "lsp_json_get _ key = None"

fun lsp_json_string :: "lsp_json_value option \<Rightarrow> string option" where
  "lsp_json_string (Some (LSP_JSON_STRING s)) = Some (cstr s)"
| "lsp_json_string _ = None"

fun lsp_json_number :: "lsp_json_value option \<Rightarrow> int" where
  "lsp_json_number (Some (LSP_JSON_NUMBER n)) = n"
| "lsp_json_number _ = 0"

section \<open>Building messages\<close>

text \<open>\<open>%04x\<close> of a byte, and the escaped form of one character.\<close>

definition hex_char :: "nat \<Rightarrow> char" where
  "hex_char d = char_of (if d < 10 then 48 + d else 87 + d)"

definition lsp_escape_char :: "char \<Rightarrow> string" where
  "lsp_escape_char c =
     (if c = CHR 0x22 then [CHR 0x5C, CHR 0x22]
      else if c = CHR 0x5C then [CHR 0x5C, CHR 0x5C]
      else if c = CHR 0x08 then [CHR 0x5C, CHR ''b'']
      else if c = CHR 0x0C then [CHR 0x5C, CHR ''f'']
      else if c = CHR 0x0A then [CHR 0x5C, CHR ''n'']
      else if c = CHR 0x0D then [CHR 0x5C, CHR ''r'']
      else if c = CHR 0x09 then [CHR 0x5C, CHR ''t'']
      else if ord c < 0x20 then [CHR 0x5C, CHR ''u'', CHR ''0'', CHR ''0'', hex_char (ord c div 16), hex_char (ord c mod 16)]
      else [c])"

definition lsp_json_escape_string :: "string option \<Rightarrow> string \<Rightarrow> string" where
  "lsp_json_escape_string s out =
     out @ [CHR 0x22] @ (case s of None \<Rightarrow> [] | Some t \<Rightarrow> concat (map lsp_escape_char (cstr t))) @ [CHR 0x22]"

text \<open>A literal of the source in its quotes, and a member of an object.\<close>

definition json_name :: "string \<Rightarrow> string" where
  "json_name s = [CHR 0x22] @ s @ [CHR 0x22]"

definition json_member :: "string \<Rightarrow> string \<Rightarrow> string" where
  "json_member k v = json_name k @ '':'' @ v"

definition lsp_jsonrpc_response :: "int \<Rightarrow> string \<Rightarrow> string" where
  "lsp_jsonrpc_response id' result_json =
     ''{'' @ json_member ''jsonrpc'' (json_name ''2.0'') @ '','' @ json_member ''id'' (show_int id')
       @ '','' @ json_member ''result'' (cstr result_json) @ ''}''"

definition lsp_jsonrpc_notification :: "string \<Rightarrow> string \<Rightarrow> string" where
  "lsp_jsonrpc_notification method' params_json =
     lsp_json_escape_string (Some method') (''{'' @ json_member ''jsonrpc'' (json_name ''2.0'') @ '','' @ json_member ''method'' [])
       @ '','' @ json_member ''params'' (cstr params_json) @ ''}''"

section \<open>Texts of values\<close>

text \<open>The texts that spell a value, with any white space between the tokens.\<close>

definition white :: "string \<Rightarrow> bool" where
  "white w \<longleftrightarrow> list_all is_space w"

abbreviation escaped :: "string \<Rightarrow> string" where
  "escaped s \<equiv> lsp_json_escape_string (Some s) []"

inductive spells :: "lsp_json_value \<Rightarrow> string \<Rightarrow> bool"
  and spells_items :: "lsp_json_value list \<Rightarrow> string \<Rightarrow> bool"
  and spells_members :: "(string \<times> lsp_json_value) list \<Rightarrow> string \<Rightarrow> bool" where
  spells_null: "spells LSP_JSON_NULL ''null''"
| spells_true: "spells (LSP_JSON_BOOL True) ''true''"
| spells_false: "spells (LSP_JSON_BOOL False) ''false''"
| spells_number: "LONG_MIN \<le> n \<Longrightarrow> n \<le> LONG_MAX \<Longrightarrow> spells (LSP_JSON_NUMBER n) (show_int n)"
| spells_string: "NUL \<notin> set s \<Longrightarrow> spells (LSP_JSON_STRING s) (escaped s)"
| spells_empty_array: "white w \<Longrightarrow> spells (LSP_JSON_ARRAY []) (''['' @ w @ '']'')"
| spells_array: "spells_items vs t \<Longrightarrow> spells (LSP_JSON_ARRAY vs) (''['' @ t @ '']'')"
| spells_empty_object: "white w \<Longrightarrow> spells (LSP_JSON_OBJECT []) (''{'' @ w @ ''}'')"
| spells_object: "spells_members kvs t \<Longrightarrow> spells (LSP_JSON_OBJECT kvs) (''{'' @ t @ ''}'')"
| items_one: "white w \<Longrightarrow> spells v t \<Longrightarrow> white w' \<Longrightarrow> spells_items [v] (w @ t @ w')"
| items_more: "white w \<Longrightarrow> spells v t \<Longrightarrow> white w' \<Longrightarrow> spells_items vs r \<Longrightarrow> spells_items (v # vs) (w @ t @ w' @ '','' @ r)"
| members_one: "white w \<Longrightarrow> NUL \<notin> set k \<Longrightarrow> white w1 \<Longrightarrow> white w2 \<Longrightarrow> spells v t \<Longrightarrow> white w' \<Longrightarrow>
    spells_members [(k, v)] (w @ escaped k @ w1 @ '':'' @ w2 @ t @ w')"
| members_more: "white w \<Longrightarrow> NUL \<notin> set k \<Longrightarrow> white w1 \<Longrightarrow> white w2 \<Longrightarrow> spells v t \<Longrightarrow> white w' \<Longrightarrow> spells_members kvs r \<Longrightarrow>
    spells_members ((k, v) # kvs) (w @ escaped k @ w1 @ '':'' @ w2 @ t @ w' @ '','' @ r)"

lemma skip_ws_blank [simp]: "white w \<Longrightarrow> skip_ws (w @ s) = skip_ws s"
  by (induction w) (auto simp: white_def skip_ws_def)

lemma skip_ws_stop: "\<not> is_space c \<Longrightarrow> skip_ws (c # s) = c # s"
  by (simp add: skip_ws_def)

lemma no_white: "\<not> is_space (CHR 0x22)" "\<not> is_space (CHR '','')" "\<not> is_space (CHR '':'')" "\<not> is_space (CHR '']'')"
  "\<not> is_space (CHR ''}'')" "\<not> is_space (CHR ''['')" "\<not> is_space (CHR ''{'')" "\<not> is_space (CHR ''n'')" "\<not> is_space (CHR ''t'')"
  "\<not> is_space (CHR ''f'')" "\<not> is_space (CHR ''-'')"
  by code_simp+

lemmas stops = no_white [THEN skip_ws_stop]

text \<open>Strings.\<close>

lemma hex_cp_char: "d < 16 \<Longrightarrow> hex_cp cp (hex_char d # hs) = hex_cp (push_bit 4 cp OR of_nat d) hs"
  by (simp add: hex_char_def Let_def of_nat_diff)

lemma hex_cp_zero: "hex_cp 0 (CHR ''0'' # hs) = hex_cp 0 hs"
  by simp

lemma hex_or: "a < 2 \<Longrightarrow> b < 16 \<Longrightarrow> push_bit 4 (of_nat a) OR of_nat b = (of_nat (16 * a + b) :: u32)"
proof -
  assume "a < 2" "b < 16"
  then have "a \<in> set [0, 1]" "b \<in> set [0, 1, 2, 3, 4, 5, 6, 7, 8, 9, 10, 11, 12, 13, 14, 15]"
    by (simp_all only: list.set insert_iff empty_iff simp_thms) presburger+
  moreover have "\<forall>a \<in> set [0, 1]. \<forall>b \<in> set [0, 1, 2, 3, 4, 5, 6, 7, 8, 9, 10, 11, 12, 13, 14, 15].
      push_bit 4 (of_nat a) OR of_nat b = (of_nat (16 * a + b) :: u32)" by simp
  ultimately show ?thesis by blast
qed

lemma control_escape:
  assumes "n < 32"
  shows "hex_cp 0 [CHR ''0'', CHR ''0'', hex_char (n div 16), hex_char (n mod 16)] = Some (of_nat n)"
proof -
  have "n div 16 < 2" using assms by simp
  moreover have "16 * (n div 16) + n mod 16 = n" by simp
  ultimately show ?thesis using hex_or [of "n div 16" "n mod 16"] by (simp add: hex_cp_zero hex_cp_char del: hex_cp.simps(2))
qed

lemma cp_bytes_low: "ord c < (0x80 :: nat) \<Longrightarrow> cp_bytes (of_nat (ord c)) = [c]"
  by (simp add: cp_bytes_def word_less_nat_alt unat_of_nat)

lemma map_of_escape_u: "map_of escape_table (CHR ''u'') = None"
  by code_simp

lemma string_chars_escape: "string_chars (lsp_escape_char c @ s) out = string_chars s (out @ [c])"
proof -
  consider "c \<in> {CHR 0x22, CHR 0x5C, CHR 0x08, CHR 0x0C, CHR 0x0A, CHR 0x0D, CHR 0x09}"
    | "c \<notin> {CHR 0x22, CHR 0x5C, CHR 0x08, CHR 0x0C, CHR 0x0A, CHR 0x0D, CHR 0x09}" "ord c < (32::nat)"
    | "c \<notin> {CHR 0x22, CHR 0x5C, CHR 0x08, CHR 0x0C, CHR 0x0A, CHR 0x0D, CHR 0x09}" "\<not> ord c < (32::nat)" by blast
  then show ?thesis
  proof cases
    case 1
    then show ?thesis by (elim insertE emptyE) (simp_all add: lsp_escape_char_def escape_table_def)
  next
    case 2
    then show ?thesis using control_escape [of "ord c"] cp_bytes_low [of c] by (simp add: lsp_escape_char_def map_of_escape_u)
  qed (simp add: lsp_escape_char_def)
qed

lemma string_chars_escaped: "string_chars (concat (map lsp_escape_char t) @ CHR 0x22 # s) out = Some (out @ t, s)"
  by (induction t arbitrary: out) (simp_all add: string_chars_escape)

lemma parse_string_escaped: "NUL \<notin> set t \<Longrightarrow> parse_string_raw (escaped t @ s) = Some (t, s)"
  using string_chars_escaped [of t s "[]"]
  by (simp add: parse_string_raw_def lsp_json_escape_string_def cstr_whole)

text \<open>Numerals, in front of a text that does not go on with the number.\<close>

definition number_stops :: "string \<Rightarrow> bool" where
  "number_stops r \<longleftrightarrow> r = [] \<or> \<not> is_digit (hd r) \<and> hd r \<notin> {CHR ''.'', CHR ''e'', CHR ''E''}"

lemma digit_text: "is_digit c \<Longrightarrow> \<not> is_space c \<and> c \<noteq> CHR 0x22 \<and> c \<noteq> CHR ''{'' \<and> c \<noteq> CHR ''['' \<and> c \<noteq> CHR '']'' \<and> c \<noteq> CHR ''}''
    \<and> c \<noteq> CHR ''-''"
  by (auto simp: is_digit_def is_space_def)

lemma number_end_show_int: "number_stops r \<Longrightarrow> number_end (show_int n @ r) = r"
proof -
  assume r: "number_stops r"
  have d: "skip_digits (dec_str m @ r) = r" for m
    using dec_str_digits [of m] r by (cases r) (auto simp: skip_digits_def number_stops_def list_all_iff)
  have m: "hd (dec_str m @ r) \<noteq> CHR ''-''" for m using dec_str_hd_ne_minus [of m] by simp
  have "skip_digits (skip_char (\<lambda>c. c = CHR ''-'') (show_int n @ r)) = r"
    using d m by (simp add: show_int_def skip_char_def)
  then show ?thesis using r unfolding number_end_def number_stops_def by (elim disjE) simp_all
qed

lemma show_int_length: "LONG_MIN \<le> n \<Longrightarrow> n \<le> LONG_MAX \<Longrightarrow> length (show_int n) \<le> 63"
  using dec_str_length [of "nat n" 19] dec_str_length [of "nat (- n)" 19]
  by (cases "n < 0") (simp_all add: show_int_def LONG_MIN_def LONG_MAX_def nat_less_iff)

lemma parse_number_show_int:
  assumes "LONG_MIN \<le> n" "n \<le> LONG_MAX" "number_stops r"
  shows "parse_number (show_int n @ r) = Some (LSP_JSON_NUMBER n, r)"
proof -
  have "show_int n \<noteq> []" by (simp add: show_int_def)
  then show ?thesis using number_end_show_int [OF assms(3)] show_int_length [OF assms(1,2)] assms(1,2)
    by (simp add: parse_number_def min_absorb1 strtol_show_int)
qed

lemma show_int_hd: "hd (show_int n) = CHR ''-'' \<or> is_digit (hd (show_int n))"
  using dec_str_digits [of "nat n"] dec_str_ne [of "nat n"] by (cases "dec_str (nat n)") (auto simp: show_int_def)

lemma parse_value_number:
  assumes "LONG_MIN \<le> n" "n \<le> LONG_MAX" "number_stops r"
  shows "parse_value (show_int n @ r) = Some (LSP_JSON_NUMBER n, r)"
proof -
  obtain c t where t: "show_int n = c # t" by (cases "show_int n") (auto simp: show_int_def split: if_splits)
  then have c: "c = CHR ''-'' \<or> is_digit c" using show_int_hd [of n] by simp
  then have "\<not> is_space c" using digit_text no_white by blast
  moreover have "c \<noteq> CHR 0x22" "c \<noteq> CHR ''{''" "c \<noteq> CHR ''[''" using c digit_text by blast+
  ultimately show ?thesis
    using parse_number_show_int [OF assms] c unfolding t by (simp add: parse_value.simps [of "c # _"] skip_ws_stop)
qed

text \<open>The first character of a value.\<close>

lemma escaped_hd: "escaped s = CHR 0x22 # tl (escaped s)"
  by (simp add: lsp_json_escape_string_def)

definition value_start :: "string \<Rightarrow> bool" where
  "value_start t \<longleftrightarrow> t \<noteq> [] \<and> \<not> is_space (hd t) \<and> hd t \<noteq> CHR '']'' \<and> hd t \<noteq> CHR ''}''"

lemma spells_start: "spells v t \<Longrightarrow> value_start t"
proof (induction rule: spells.cases)
  case (spells_number n)
  then show ?case using show_int_hd [of n] digit_text no_white
    by (auto simp: value_start_def show_int_def split: if_splits)
qed (auto simp: value_start_def no_white lsp_json_escape_string_def)

lemma skip_ws_value: "value_start t \<Longrightarrow> skip_ws (t @ r) = t @ r"
  by (cases t) (auto simp: value_start_def skip_ws_def)

lemma parse_value_skip: "parse_value (skip_ws s) = parse_value s"
proof -
  have "skip_ws (skip_ws s) = skip_ws s" by (simp add: skip_ws_def dropWhile_idem)
  then show ?thesis by (simp add: parse_value.simps)
qed

lemma parse_value_blank: "white w \<Longrightarrow> parse_value (w @ s) = parse_value s"
  using parse_value_skip [of "w @ s"] parse_value_skip [of s] by simp

lemma parse_elements_skip: "parse_elements (skip_ws s) = parse_elements s"
  by (simp add: parse_elements.simps parse_value_skip)

lemma parse_members_skip: "parse_members (skip_ws s) = parse_members s"
proof -
  have "skip_ws (skip_ws s) = skip_ws s" by (simp add: skip_ws_def dropWhile_idem)
  then show ?thesis by (simp add: parse_members.simps)
qed


text \<open>What may follow a value: the end, a white or a delimiter, none of which goes on with a numeral.\<close>

definition delimited :: "string \<Rightarrow> bool" where
  "delimited r \<longleftrightarrow> r = [] \<or> is_space (hd r) \<or> hd r \<in> {CHR '','', CHR '']'', CHR ''}''}"

lemma delimited_stops: "delimited r \<Longrightarrow> number_stops r"
  by (auto simp: delimited_def number_stops_def is_digit_def is_space_def)

lemma delimited_blank: "white w \<Longrightarrow> delimited r \<Longrightarrow> delimited (w @ r)"
  by (cases w) (auto simp: white_def delimited_def)

lemma delimited_Cons [simp]: "delimited (CHR '','' # r)" "delimited (CHR '']'' # r)" "delimited (CHR ''}'' # r)" "delimited []"
  by (simp_all add: delimited_def)

lemma items_start: "spells_items vs t \<Longrightarrow> \<not> starts (CHR '']'') (skip_ws (t @ r))"
  by (erule spells_items.cases) (auto dest!: spells_start simp: skip_ws_value value_start_def starts_def)

lemma members_start: "spells_members kvs t \<Longrightarrow> \<not> starts (CHR ''}'') (skip_ws (t @ r))"
  by (erule spells_members.cases) (auto simp: lsp_json_escape_string_def stops)

lemma skip_ws_escaped: "skip_ws (escaped k @ r) = escaped k @ r"
  by (simp add: lsp_json_escape_string_def stops)

lemma parse_spelled:
  "spells v t \<Longrightarrow> delimited r \<Longrightarrow> parse_value (t @ r) = Some (v, r)"
  "spells_items vs t \<Longrightarrow> parse_elements (t @ CHR '']'' # r) = Some (vs, r)"
  "spells_members kvs t \<Longrightarrow> parse_members (t @ CHR ''}'' # r) = Some (kvs, r)"
proof (induction v t and vs t and kvs t arbitrary: r and r and r rule: spells_spells_items_spells_members.inducts)
  case (spells_number n)
  then show ?case by (simp add: parse_value_number delimited_stops)
next
  case (spells_string s)
  obtain u where u: "escaped s = CHR 0x22 # u" using escaped_hd by blast
  show ?case using parse_string_escaped [OF spells_string(1), of r] unfolding u by (simp add: parse_value.simps [of "_ # _"] stops)
next
  case (spells_array vs t)
  then show ?case using items_start [OF spells_array(1), of "CHR '']'' # r"]
    by (simp add: parse_value.simps [of "CHR ''['' # _"] stops parse_elements_skip)
next
  case (spells_object kvs t)
  then show ?case using members_start [OF spells_object(1), of "CHR ''}'' # r"]
    by (simp add: parse_value.simps [of "CHR ''{'' # _"] stops parse_members_skip)
next
  case (items_one w v t w')
  then show ?case by (simp add: parse_elements.simps [of "w @ _"] parse_value_blank delimited_blank stops)
next
  case (items_more w v t w' vs r)
  then show ?case by (simp add: parse_elements.simps [of "w @ _"] parse_value_blank delimited_blank stops parse_elements_skip)
next
  case (members_one w k w1 w2 v t w')
  then show ?case
    by (simp add: parse_members.simps [of "w @ _"] skip_ws_escaped parse_string_escaped parse_value_blank delimited_blank stops cstr_whole)
next
  case (members_more w k w1 w2 v t w' kvs r)
  then show ?case
    by (simp add: parse_members.simps [of "w @ _"] skip_ws_escaped parse_string_escaped parse_value_blank delimited_blank stops cstr_whole)
qed (simp_all add: parse_value.simps [of "_ # _"] stops is_digit_def)

section \<open>Framed messages\<close>

lemma fgets_line: "CHR 0x0A \<notin> set l \<Longrightarrow> Suc (length l) < n \<Longrightarrow> fgets n (l @ CHR 0x0A # r) = Some (l @ [CHR 0x0A], r)"
proof -
  assume l: "CHR 0x0A \<notin> set l" "Suc (length l) < n"
  have "takeWhile (\<lambda>c. c \<noteq> CHR 0x0A) (l @ CHR 0x0A # r) = l"
    using l(1) by (subst takeWhile_append2) auto
  then show ?thesis using l(2) by (simp add: fgets_def min_absorb2)
qed

lemma strip_eol_crlf: "NUL \<notin> set l \<Longrightarrow> l = [] \<or> last l \<noteq> CHR 0x0D \<and> last l \<noteq> CHR 0x0A \<Longrightarrow> strip_eol (l @ [CHR 0x0D, CHR 0x0A]) = l"
proof -
  assume l: "NUL \<notin> set l" "l = [] \<or> last l \<noteq> CHR 0x0D \<and> last l \<noteq> CHR 0x0A"
  then have c: "cstr (l @ [CHR 0x0D, CHR 0x0A]) = l @ [CHR 0x0D, CHR 0x0A]" by (simp add: cstr_whole)
  have "dropWhile (\<lambda>c. c = CHR 0x0D \<or> c = CHR 0x0A) (rev l) = rev l"
    using l(2) by (cases "rev l") (auto simp: last_rev [symmetric] hd_rev)
  then show ?thesis by (simp add: strip_eol_def c)
qed

lemma atoi_length: "n < 2 ^ 31 \<Longrightarrow> c_atoi ('' '' @ dec_str n) = int n"
proof -
  assume n: "n < 2 ^ 31"
  have "is_space (CHR '' '')" by code_simp
  then have "scan_int ('' '' @ dec_str n) = scan_int (dec_str n)"
    by (simp add: scan_int_def cstr_def)
  then have "scan_int ('' '' @ dec_str n) = scan_int (show_int (int n))" by (simp add: show_int_def)
  then have "strtol ('' '' @ dec_str n) = strtol (show_int (int n))" 
    unfolding strtol_def by (simp only: scan_int_show_int) simp
  then show ?thesis using n by (simp add: c_atoi_def strtol_show_int LONG_MIN_def LONG_MAX_def signed_take_bit_int_eq_self)
qed

lemma read_written:
  assumes "body \<noteq> []" and "length body < 2 ^ 31"
  shows "lsp_jsonrpc_read (lsp_jsonrpc_write [] body @ rest) = (Some body, rest)"
proof -
  let ?n = "length body" and ?h = "''Content-Length: '' @ dec_str (length body)"
  have digits: "list_all is_digit (dec_str ?n)" "dec_str ?n \<noteq> []" by (simp_all add: dec_str_digits)
  then have set: "CHR 0x0A \<notin> set (dec_str ?n)" "CHR 0x0D \<notin> set (dec_str ?n)" "NUL \<notin> set (dec_str ?n)"
    by (auto simp: list_all_iff is_digit_def)
  then have l: "last (dec_str ?n) \<noteq> CHR 0x0D" "last (dec_str ?n) \<noteq> CHR 0x0A" using digits(2) last_in_set by metis+
  have short: "length (dec_str ?n) \<le> 10" using dec_str_length [of ?n 9] assms(2) by simp
  have w: "lsp_jsonrpc_write [] body @ rest = (?h @ [CHR 0x0D]) @ CHR 0x0A # [CHR 0x0D] @ CHR 0x0A # body @ rest"
    by (simp add: lsp_jsonrpc_write_def)
  have 1: "fgets 4096 ((?h @ [CHR 0x0D]) @ CHR 0x0A # x) = Some (?h @ [CHR 0x0D, CHR 0x0A], x)" for x
    using fgets_line [of "?h @ [CHR 0x0D]" 4096 x] set short by simp
  have 2: "strip_eol (?h @ [CHR 0x0D, CHR 0x0A]) = ?h" using set l digits(2) by (intro strip_eol_crlf) auto
  have 3: "fgets 4096 ([CHR 0x0D] @ CHR 0x0A # x) = Some ([] @ [CHR 0x0D, CHR 0x0A], x)" for x
    using fgets_line [of "[CHR 0x0D]" 4096 x] by simp
  have 4: "strip_eol ([] @ [CHR 0x0D, CHR 0x0A]) = []" by (rule strip_eol_crlf) simp_all
  have 5: "read_headers (int ?n) ([CHR 0x0D] @ CHR 0x0A # body @ rest) = (int ?n, body @ rest)"
    unfolding read_headers.simps [of "int ?n"] 3 using 4 by simp
  have 6: "take 15 ?h = ''Content-Length:''" "drop 15 ?h = '' '' @ dec_str ?n" "?h \<noteq> []" by simp_all
  have "read_headers (-1) (lsp_jsonrpc_write [] body @ rest) = (int ?n, body @ rest)"
    unfolding w read_headers.simps [of "-1"] 1 option.case prod.case 2 Let_def if_P [OF 6(1)] if_not_P [OF 6(3)] 6(2) atoi_length [OF assms(2)]
    by (rule 5)
  then show ?thesis using assms(1) by (simp add: lsp_jsonrpc_read_def)
qed

section \<open>Built messages\<close>

definition plain :: "string \<Rightarrow> bool" where
  "plain s \<longleftrightarrow> list_all (\<lambda>c. lsp_escape_char c = [c] \<and> c \<noteq> NUL) s"

lemma plainD: "plain s \<Longrightarrow> NUL \<notin> set s"
  by (auto simp: plain_def list_all_iff)

lemma escaped_plain: "plain s \<Longrightarrow> escaped s = json_name s"
proof -
  assume s: "plain s"
  have "concat (map lsp_escape_char s) = s" using s by (induction s) (auto simp: plain_def)
  then show ?thesis using plainD [OF s] by (simp add: lsp_json_escape_string_def json_name_def cstr_whole)
qed

lemma spells_name: "plain s \<Longrightarrow> spells (LSP_JSON_STRING s) (json_name s)"
  using spells_string [of s] escaped_plain [of s] by (auto dest: plainD)

lemma white_Nil [simp]: "white []"
  by (simp add: white_def)

lemma member_one:
  "plain k \<Longrightarrow> spells v t \<Longrightarrow> spells_members [(k, v)] (json_member k t)"
  using members_one [of "[]" k "[]" "[]" v t "[]"] escaped_plain [of k] by (auto simp: json_member_def dest: plainD)

lemma member_more:
  "plain k \<Longrightarrow> spells v t \<Longrightarrow> spells_members kvs r \<Longrightarrow>
    spells_members ((k, v) # kvs) (json_member k t @ '','' @ r)"
  using members_more [of "[]" k "[]" "[]" v t "[]" kvs r] escaped_plain [of k] by (auto simp: json_member_def dest: plainD)

lemma plain_names: "plain ''jsonrpc''" "plain ''2.0''" "plain ''id''" "plain ''result''" "plain ''method''" "plain ''params''"
  by (simp_all add: plain_def lsp_escape_char_def)

lemma hex_char_NUL: "hex_char d = NUL \<Longrightarrow> d < 16 \<Longrightarrow> False"
proof -
  assume "hex_char d = NUL" "d < 16"
  then have "ord (hex_char d) = (0::nat)" by simp
  then show False using \<open>d < 16\<close> by (simp add: hex_char_def split: if_splits)
qed

lemma lsp_escape_NUL: "c \<noteq> NUL \<Longrightarrow> NUL \<notin> set (lsp_escape_char c)"
proof -
  assume c: "c \<noteq> NUL"
  have "ord c div 16 < (16 :: nat)" if "ord c < (32 :: nat)" using that by simp
  then have "hex_char (ord c mod 16) \<noteq> NUL" "ord c < (32 :: nat) \<Longrightarrow> hex_char (ord c div 16) \<noteq> NUL"
    using hex_char_NUL [of "ord c div 16"] hex_char_NUL [of "ord c mod 16"] by auto
  then show ?thesis using c by (auto simp: lsp_escape_char_def)
qed

lemma escaped_NUL: "NUL \<notin> set s \<Longrightarrow> NUL \<notin> set (escaped s)"
proof -
  assume s: "NUL \<notin> set s"
  have "NUL \<notin> set (concat (map lsp_escape_char s))"
  proof
    assume "NUL \<in> set (concat (map lsp_escape_char s))"
    then obtain c where "c \<in> set s" "NUL \<in> set (lsp_escape_char c)" by (simp only: set_concat set_map) blast
    then show False using s lsp_escape_NUL [of c] by blast
  qed
  then show ?thesis using s by (simp add: lsp_json_escape_string_def cstr_whole)
qed

lemma NUL_class: "\<not> is_space NUL" "\<not> is_digit NUL"
  by code_simp+

lemma white_NUL: "white w \<Longrightarrow> NUL \<notin> set w"
  using NUL_class(1) unfolding white_def list_all_iff by blast

lemma dec_str_NUL: "NUL \<notin> set (dec_str n)"
  using dec_str_digits [of n] NUL_class(2) unfolding list_all_iff by blast

lemma show_int_NUL: "NUL \<notin> set (show_int n)"
  by (simp add: show_int_def dec_str_NUL)

lemma spelled_NUL:
  "spells v t \<Longrightarrow> NUL \<notin> set t" "spells_items vs t \<Longrightarrow> NUL \<notin> set t" "spells_members kvs t \<Longrightarrow> NUL \<notin> set t"
  by (induction rule: spells_spells_items_spells_members.inducts) (auto dest: white_NUL simp: escaped_NUL show_int_NUL)

definition response_value :: "int \<Rightarrow> lsp_json_value \<Rightarrow> lsp_json_value" where
  "response_value n v = LSP_JSON_OBJECT [(''jsonrpc'', LSP_JSON_STRING ''2.0''), (''id'', LSP_JSON_NUMBER n), (''result'', v)]"

definition notification_value :: "string \<Rightarrow> lsp_json_value \<Rightarrow> lsp_json_value" where
  "notification_value m v =
     LSP_JSON_OBJECT [(''jsonrpc'', LSP_JSON_STRING ''2.0''), (''method'', LSP_JSON_STRING m), (''params'', v)]"

lemma response_spelled:
  assumes "spells v t" and "LONG_MIN \<le> n" "n \<le> LONG_MAX"
  shows "spells (response_value n v) (lsp_jsonrpc_response n t)"
  unfolding response_value_def lsp_jsonrpc_response_def cstr_whole [OF spelled_NUL(1) [OF assms(1)]]
  using spells_object [OF member_more [OF plain_names(1) spells_name [OF plain_names(2)] member_more [OF plain_names(3)
    spells_number [OF assms(2,3)] member_one [OF plain_names(4) assms(1)]]]] by simp

lemma notification_spelled:
  assumes "spells v t" and "NUL \<notin> set m"
  shows "spells (notification_value m v) (lsp_jsonrpc_notification m t)"
proof -
  let ?x = "''{'' @ json_member ''jsonrpc'' (json_name ''2.0'') @ '','' @ json_member ''method'' []"
  have e: "lsp_json_escape_string (Some m) ?x = ?x @ escaped m" by (simp add: lsp_json_escape_string_def)
  show ?thesis
    unfolding notification_value_def lsp_jsonrpc_notification_def cstr_whole [OF spelled_NUL(1) [OF assms(1)]] e
    using spells_object [OF member_more [OF plain_names(1) spells_name [OF plain_names(2)] member_more [OF plain_names(5)
      spells_string [OF assms(2)] member_one [OF plain_names(6) assms(1)]]]] by (simp add: json_member_def)
qed

lemma parse_text: "spells v t \<Longrightarrow> lsp_json_parse t = Some v"
  using parse_spelled(1) [of v t "[]"] by (simp add: lsp_json_parse_def)

end
