(* ===== verification/LspServer.thy ===== *)
theory LspServer
  imports LspJson SchemaInclude SchemaValidate
begin

text \<open>
  The language server (\<open>src/lsp/lsp_server.c\<close>): one open document, the dispatch of messages, the diagnostics published
  for a schema, and the loop of the server. What a function writes to the client is appended to its argument \<open>out\<close>;
  \<open>n\<close> bounds the depth of includes, as in SchemaFile. What the schema parser writes to the server's standard error is
  not looked at.
\<close>

section \<open>State\<close>

record lsp_document =
  ld_uri :: "string option"
  ld_content :: "string option"

record lsp_state =
  ls_doc :: lsp_document
  ls_initialized :: bool
  ls_shutdown_requested :: bool
  ls_should_exit :: bool

definition no_document :: lsp_document where
  "no_document = \<lparr>ld_uri = None, ld_content = None\<rparr>"

definition lsp_state_init :: lsp_state where
  "lsp_state_init = \<lparr>ls_doc = no_document, ls_initialized = False, ls_shutdown_requested = False, ls_should_exit = False\<rparr>"

definition uri_to_path :: "string \<Rightarrow> string" where
  "uri_to_path uri = (if take 7 (cstr uri) = ''file://'' then drop 7 (cstr uri) else cstr uri)"

section \<open>Diagnostics\<close>

fun lsp_severity_from_diag :: "diag_severity \<Rightarrow> int" where
  "lsp_severity_from_diag DIAG_ERROR = 1"
| "lsp_severity_from_diag DIAG_WARNING = 2"
| "lsp_severity_from_diag DIAG_NOTE = 3"

definition zero_based :: "int \<Rightarrow> int" where
  "zero_based i = (if i > 0 then i - 1 else 0)"

definition position_text :: "int \<Rightarrow> int \<Rightarrow> string" where
  "position_text line col = ''{'' @ json_member ''line'' (show_int line) @ '','' @ json_member ''character'' (show_int col) @ ''}''"

definition diagnostic_text :: "diag_entry \<Rightarrow> string" where
  "diagnostic_text e =
     (let line = zero_based (de_line e); col = zero_based (de_col e)
      in ''{'' @ json_member ''range'' (''{'' @ json_member ''start'' (position_text line col) @ '',''
              @ json_member ''end'' (position_text line (col + 1)) @ ''}'')
         @ '','' @ json_member ''severity'' (show_int (lsp_severity_from_diag (de_severity e)))
         @ '','' @ json_member ''source'' (json_name ''json-gen-c'')
         @ '','' @ json_member ''message'' (lsp_json_escape_string (Some (de_message e)) []) @ ''}'')"

text \<open>Texts with comma_list between them.\<close>

fun comma_list :: "string list \<Rightarrow> string" where
  "comma_list [] = []"
| "comma_list [t] = t"
| "comma_list (t # ts) = t @ '','' @ comma_list ts"

definition publish_diagnostics :: "string \<Rightarrow> string \<Rightarrow> diag_engine option \<Rightarrow> string" where
  "publish_diagnostics out uri diag =
     (let entries = (case diag of None \<Rightarrow> [] | Some d \<Rightarrow> dg_entries d);
          params = lsp_json_escape_string (Some uri) (''{'' @ json_member ''uri'' [])
            @ '','' @ json_member ''diagnostics'' (''['' @ comma_list (map diagnostic_text entries) @ '']'') @ ''}''
      in lsp_jsonrpc_write out (lsp_jsonrpc_notification ''textDocument/publishDiagnostics'' params))"

text \<open>
  The parser gets a diagnostic engine, so that nothing is printed. The result of the validation, and what it found, are
  dropped.
\<close>

definition validate_document :: "nat \<Rightarrow> parse_env \<Rightarrow> string \<Rightarrow> lsp_state \<Rightarrow> fault + string" where
  "validate_document n env out st = (case (ld_uri (ls_doc st), ld_content (ls_doc st)) of
     (Some uri, Some content) \<Rightarrow>
       (let path = uri_to_path uri;
            parser = struct_parser_new\<lparr>sp_name := path, sp_diag := Some (diag_engine_new path (Some content))\<rparr>
        in bindE (struct_parser_parse n env parser content) (\<lambda>(r, parser1).
             (let _ = struct_parser_validate_to False False parser1
              in Inr (publish_diagnostics out uri (sp_diag parser1)))))
   | _ \<Rightarrow> Inr out)"

section \<open>Responses\<close>

definition keyword_completions :: "string list" where
  "keyword_completions = [''struct'', ''enum'', ''oneof'', ''optional'', ''nullable'', ''map'', ''#include'']"

definition type_completions :: "string list" where
  "type_completions = [''int'', ''long'', ''float'', ''double'', ''bool'', ''sstr_t'', ''int8_t'', ''int16_t'', ''int32_t'', ''int64_t'',
     ''uint8_t'', ''uint16_t'', ''uint32_t'', ''uint64_t'']"

definition annotation_completions :: "string list" where
  "annotation_completions = [''@json'', ''@tag'', ''@deprecated'']"

definition completion_text :: "int \<Rightarrow> string \<Rightarrow> string" where
  "completion_text kind label =
     ''{'' @ json_member ''label'' (lsp_json_escape_string (Some label) []) @ '','' @ json_member ''kind'' (show_int kind) @ ''}''"

definition build_completion_response :: "int \<Rightarrow> string" where
  "build_completion_response id' =
     lsp_jsonrpc_response id' (''['' @ comma_list (map (completion_text 14) keyword_completions
       @ map (completion_text 21) type_completions @ map (completion_text 15) annotation_completions) @ '']'')"

definition build_hover_response :: "int \<Rightarrow> string" where
  "build_hover_response id' = lsp_jsonrpc_response id' ''null''"

definition capabilities_text :: string where
  "capabilities_text =
     ''{'' @ json_member ''capabilities'' (''{''
         @ json_member ''textDocumentSync'' (''{'' @ json_member ''openClose'' ''true'' @ '','' @ json_member ''change'' ''1''
             @ '','' @ json_member ''save'' (''{'' @ json_member ''includeText'' ''true'' @ ''}'') @ ''}'')
         @ '','' @ json_member ''completionProvider'' (''{''
             @ json_member ''triggerCharacters'' (''['' @ comma_list (map json_name [''@'', ''#'', ''<'']) @ '']'') @ ''}'')
         @ '','' @ json_member ''hoverProvider'' ''true'' @ ''}'')
       @ '','' @ json_member ''serverInfo'' (''{'' @ json_member ''name'' (json_name ''json-gen-c-lsp'')
         @ '','' @ json_member ''version'' (json_name ''0.9.0'') @ ''}'') @ ''}''"

definition build_initialize_response :: "int \<Rightarrow> string" where
  "build_initialize_response id' = lsp_jsonrpc_response id' capabilities_text"

definition unknown_method_response :: "int \<Rightarrow> string" where
  "unknown_method_response id' =
     ''{'' @ json_member ''jsonrpc'' (json_name ''2.0'') @ '','' @ json_member ''id'' (show_int id')
       @ '','' @ json_member ''error'' (''{'' @ json_member ''code'' ''-32601''
         @ '','' @ json_member ''message'' (json_name ''Method not found'') @ ''}'') @ ''}''"

section \<open>Messages\<close>

text \<open>The text of the last change.\<close>

definition last_change :: "lsp_json_value option \<Rightarrow> string option" where
  "last_change changes = (case changes of
     Some (LSP_JSON_ARRAY items) \<Rightarrow> if items \<noteq> [] then lsp_json_string (lsp_json_get (Some (last items)) ''text'') else None
   | _ \<Rightarrow> None)"

text \<open>The document is set, then validated.\<close>

definition update_document ::
  "nat \<Rightarrow> parse_env \<Rightarrow> string \<Rightarrow> lsp_state \<Rightarrow> string option \<Rightarrow> string option \<Rightarrow> fault + string \<times> lsp_state" where
  "update_document n env out st uri content =
     (let st1 = st\<lparr>ls_doc := \<lparr>ld_uri = uri, ld_content = content\<rparr>\<rparr>
      in bindE (validate_document n env out st1) (\<lambda>out1. Inr (out1, st1)))"

definition handle_message ::
  "nat \<Rightarrow> parse_env \<Rightarrow> string \<Rightarrow> lsp_state \<Rightarrow> lsp_json_value \<Rightarrow> fault + string \<times> lsp_state" where
  "handle_message n env out st msg =
     (let id_val = lsp_json_get (Some msg) ''id'';
          id' = (if id_val \<noteq> None then lsp_json_number id_val else -1);
          params = lsp_json_get (Some msg) ''params'';
          doc = ls_doc st
      in case lsp_json_string (lsp_json_get (Some msg) ''method'') of
           None \<Rightarrow> Inr (out, st)
         | Some method' \<Rightarrow>
             if method' = ''initialize'' then
               Inr (lsp_jsonrpc_write out (build_initialize_response id'), st\<lparr>ls_initialized := True\<rparr>)
             else if method' = ''initialized'' then Inr (out, st)
             else if method' = ''shutdown'' then
               Inr (lsp_jsonrpc_write out (lsp_jsonrpc_response id' ''null''), st\<lparr>ls_shutdown_requested := True\<rparr>)
             else if method' = ''exit'' then Inr (out, st\<lparr>ls_should_exit := True\<rparr>)
             else if method' = ''textDocument/didOpen'' \<and> params \<noteq> None then
               (let td = lsp_json_get params ''textDocument''
                in case (lsp_json_string (lsp_json_get td ''uri''), lsp_json_string (lsp_json_get td ''text'')) of
                     (Some uri, Some t) \<Rightarrow> update_document n env out st (Some uri) (Some t)
                   | _ \<Rightarrow> Inr (out, st))
             else if method' = ''textDocument/didChange'' \<and> params \<noteq> None then
               (case last_change (lsp_json_get params ''contentChanges'') of
                  Some t \<Rightarrow> update_document n env out st (ld_uri doc) (Some t)
                | None \<Rightarrow> Inr (out, st))
             else if method' = ''textDocument/didSave'' \<and> params \<noteq> None then
               (case lsp_json_string (lsp_json_get params ''text'') of
                  Some t \<Rightarrow> update_document n env out st (ld_uri doc) (Some t)
                | None \<Rightarrow> update_document n env out st (ld_uri doc) (ld_content doc))
             else if method' = ''textDocument/didClose'' \<and> params \<noteq> None then
               (case lsp_json_string (lsp_json_get (lsp_json_get params ''textDocument'') ''uri'') of
                  Some uri \<Rightarrow>
                    if ld_uri doc = Some uri then Inr (publish_diagnostics out uri None, st\<lparr>ls_doc := no_document\<rparr>)
                    else Inr (out, st)
                | None \<Rightarrow> Inr (out, st))
             else if method' = ''textDocument/completion'' \<and> id' \<ge> 0 then
               Inr (lsp_jsonrpc_write out (build_completion_response id'), st)
             else if method' = ''textDocument/hover'' \<and> id' \<ge> 0 then
               Inr (lsp_jsonrpc_write out (build_hover_response id'), st)
             else if id' \<ge> 0 then Inr (lsp_jsonrpc_write out (unknown_method_response id'), st)
             else Inr (out, st))"

section \<open>The loop\<close>

lemma read_headers_length: "read_headers k s = (c, r) \<Longrightarrow> length r \<le> length s"
proof (induction k s rule: read_headers.induct)
  case (1 k s)
  show ?case
  proof (cases "fgets 4096 s")
    case None
    then show ?thesis using 1(2) by (simp add: read_headers.simps)
  next
    case (Some p)
    obtain b t where p: "p = (b, t)" by (cases p)
    then have l: "length t < length s" using fgets_shorter [of 4096 s b t] Some by simp
    show ?thesis
    proof (cases "strip_eol b = []")
      case True
      then show ?thesis using 1(2) Some p l by (simp add: read_headers.simps [of k s])
    next
      case False
      then have "length r \<le> length t" using 1(1) [OF Some p [symmetric] refl False] 1(2) Some p
        by (simp add: read_headers.simps [of k s] Let_def)
      then show ?thesis using l by simp
    qed
  qed
qed

lemma lsp_jsonrpc_read_length: "lsp_jsonrpc_read s = (Some body, r) \<Longrightarrow> length r < length s"
  by (auto simp: lsp_jsonrpc_read_def split: prod.splits if_splits dest!: read_headers_length)

function server_loop :: "nat \<Rightarrow> parse_env \<Rightarrow> lsp_state \<Rightarrow> string \<Rightarrow> string \<Rightarrow> fault + lsp_state \<times> string" where
  "server_loop n env st out s =
     (if ls_should_exit st then Inr (st, out)
      else (case lsp_jsonrpc_read s of
              (None, r) \<Rightarrow> Inr (st, out)
            | (Some body, r) \<Rightarrow> (case lsp_json_parse body of
                None \<Rightarrow> server_loop n env st out r
              | Some msg \<Rightarrow> bindE (handle_message n env out st msg) (\<lambda>(out1, st1). server_loop n env st1 out1 r))))"
  by pat_completeness auto
termination
  by (relation "measure (\<lambda>(n, env, st, out, s). length s)") (auto dest: sym lsp_jsonrpc_read_length)

declare server_loop.simps [simp del]

text \<open>The exit code, and what the client was sent.\<close>

definition lsp_server_run :: "nat \<Rightarrow> parse_env \<Rightarrow> string \<Rightarrow> fault + int \<times> string" where
  "lsp_server_run n env input =
     bindE (server_loop n env lsp_state_init [] input) (\<lambda>(st, out). Inr (if ls_shutdown_requested st then 0 else 1, out))"

section \<open>What the texts spell\<close>

definition position_value :: "int \<Rightarrow> int \<Rightarrow> lsp_json_value" where
  "position_value line col = LSP_JSON_OBJECT [(''line'', LSP_JSON_NUMBER line), (''character'', LSP_JSON_NUMBER col)]"

text \<open>The diagnostic of the protocol that an entry stands for: zero-based positions, and one character of text.\<close>

definition diagnostic_value :: "diag_entry \<Rightarrow> lsp_json_value" where
  "diagnostic_value e =
     (let line = zero_based (de_line e); col = zero_based (de_col e)
      in LSP_JSON_OBJECT
           [(''range'', LSP_JSON_OBJECT [(''start'', position_value line col), (''end'', position_value line (col + 1))]),
            (''severity'', LSP_JSON_NUMBER (lsp_severity_from_diag (de_severity e))),
            (''source'', LSP_JSON_STRING ''json-gen-c''),
            (''message'', LSP_JSON_STRING (cstr (de_message e)))])"

definition small :: "int \<Rightarrow> bool" where
  "small i \<longleftrightarrow> \<bar>i\<bar> < 2 ^ 31"

lemma small_number: "\<bar>i\<bar> \<le> 2 ^ 31 \<Longrightarrow> spells (LSP_JSON_NUMBER i) (show_int i)"
  by (intro spells_number) (simp_all add: LONG_MIN_def LONG_MAX_def)

lemma zero_based_small: "small i \<Longrightarrow> 0 \<le> zero_based i \<and> zero_based i + 1 \<le> 2 ^ 31"
  by (auto simp: small_def zero_based_def)

lemma object_one: "plain k \<Longrightarrow> spells v t \<Longrightarrow> spells (LSP_JSON_OBJECT [(k, v)]) (''{'' @ json_member k t @ ''}'')"
  by (intro spells_object member_one)

lemma object_two: "plain k \<Longrightarrow> spells v t \<Longrightarrow> plain k' \<Longrightarrow> spells v' t' \<Longrightarrow>
    spells (LSP_JSON_OBJECT [(k, v), (k', v')]) (''{'' @ json_member k t @ '','' @ json_member k' t' @ ''}'')"
  using spells_object [OF member_more [OF _ _ member_one]] by simp

lemma object_four:
  assumes "plain a" "spells va ta" "plain b" "spells vb tb" "plain c" "spells vc tc" "plain d" "spells vd td"
  shows "spells (LSP_JSON_OBJECT [(a, va), (b, vb), (c, vc), (d, vd)])
    (''{'' @ json_member a ta @ '','' @ json_member b tb @ '','' @ json_member c tc @ '','' @ json_member d td @ ''}'')"
  using spells_object [OF member_more [OF assms(1,2) member_more [OF assms(3,4) member_more [OF assms(5,6) member_one [OF assms(7,8)]]]]]
  by simp

lemma plain_keys: "plain ''line''" "plain ''character''" "plain ''range''" "plain ''start''" "plain ''end''" "plain ''severity''"
  "plain ''source''" "plain ''json-gen-c''" "plain ''message''" "plain ''uri''" "plain ''diagnostics''" "plain ''code''" "plain ''error''"
  "plain ''Method not found''" "plain ''label''" "plain ''kind''"
  "plain ''textDocument/publishDiagnostics''"
  by (simp_all add: plain_def lsp_escape_char_def)

lemma escaped_cstr: "lsp_json_escape_string (Some s) [] = escaped (cstr s)"
proof -
  have "cstr (cstr s) = cstr s" by (simp add: cstr_def takeWhile_idem)
  then show ?thesis by (simp add: lsp_json_escape_string_def)
qed

lemma spells_cstr: "spells (LSP_JSON_STRING (cstr s)) (lsp_json_escape_string (Some s) [])"
  by (subst escaped_cstr, rule spells_string) (auto simp: cstr_def dest: set_takeWhileD)

lemma position_spelled: "0 \<le> l \<Longrightarrow> l \<le> 2 ^ 31 \<Longrightarrow> 0 \<le> c \<Longrightarrow> c \<le> 2 ^ 31 \<Longrightarrow> spells (position_value l c) (position_text l c)"
  unfolding position_value_def position_text_def by (intro object_two plain_keys small_number) simp_all

lemma diagnostic_spelled:
  assumes "small (de_line e)" and "small (de_col e)"
  shows "spells (diagnostic_value e) (diagnostic_text e)"
proof -
  have p: "spells (position_value (zero_based (de_line e)) c) (position_text (zero_based (de_line e)) c)"
    if "c = zero_based (de_col e) \<or> c = zero_based (de_col e) + 1" for c
    using zero_based_small [OF assms(1)] zero_based_small [OF assms(2)] that by (intro position_spelled) auto
  have s: "spells (LSP_JSON_NUMBER (lsp_severity_from_diag (de_severity e))) (show_int (lsp_severity_from_diag (de_severity e)))"
    by (intro small_number) (cases "de_severity e"; simp)
  show ?thesis unfolding diagnostic_value_def diagnostic_text_def Let_def
    by (intro object_four object_two plain_keys p s spells_name spells_cstr) simp_all
qed

lemma comma_list_items: "ts \<noteq> [] \<Longrightarrow> list_all2 spells vs ts \<Longrightarrow> spells_items vs (comma_list ts)"
proof (induction ts arbitrary: vs rule: comma_list.induct)
  case (2 t)
  then show ?case using items_one [of "[]" _ t "[]"] by (auto simp: list_all2_Cons2)
next
  case (3 t u ts)
  then obtain v vs' where "vs = v # vs'" "spells v t" "list_all2 spells vs' (u # ts)" by (auto simp: list_all2_Cons2)
  then show ?case using items_more [of "[]" v t "[]" vs' "comma_list (u # ts)"] 3(1) [of vs'] by simp
qed simp

lemma array_spelled: "list_all2 spells vs ts \<Longrightarrow> spells (LSP_JSON_ARRAY vs) (''['' @ comma_list ts @ '']'')"
proof (cases "ts = []")
  case True
  then show "list_all2 spells vs ts \<Longrightarrow> ?thesis" using spells_empty_array [of "[]"] by simp
next
  case False
  then show "list_all2 spells vs ts \<Longrightarrow> ?thesis" using spells_array comma_list_items by blast
qed

definition published_value :: "string \<Rightarrow> diag_entry list \<Rightarrow> lsp_json_value" where
  "published_value uri es = notification_value ''textDocument/publishDiagnostics''
     (LSP_JSON_OBJECT [(''uri'', LSP_JSON_STRING (cstr uri)), (''diagnostics'', LSP_JSON_ARRAY (map diagnostic_value es))])"

definition entries_of :: "diag_engine option \<Rightarrow> diag_entry list" where
  "entries_of diag = (case diag of None \<Rightarrow> [] | Some d \<Rightarrow> dg_entries d)"

lemma publish_spelled:
  assumes "\<forall>e \<in> set (entries_of diag). small (de_line e) \<and> small (de_col e)"
  shows "\<exists>body. publish_diagnostics out uri diag = lsp_jsonrpc_write out body \<and> spells (published_value uri (entries_of diag)) body"
proof -
  let ?x = "''{'' @ json_member ''uri'' []" and ?d = "''['' @ comma_list (map diagnostic_text (entries_of diag)) @ '']''"
  let ?p = "lsp_json_escape_string (Some uri) ?x @ '','' @ json_member ''diagnostics'' ?d @ ''}''"
  have "list_all2 spells (map diagnostic_value (entries_of diag)) (map diagnostic_text (entries_of diag))"
    using assms by (auto simp: list_all2_map1 list_all2_map2 list.rel_refl_strong diagnostic_spelled)
  note d = array_spelled [OF this]
  have "?p = ''{'' @ json_member ''uri'' (lsp_json_escape_string (Some uri) []) @ '','' @ json_member ''diagnostics'' ?d @ ''}''"
    by (simp add: lsp_json_escape_string_def json_member_def)
  then have "spells (LSP_JSON_OBJECT [(''uri'', LSP_JSON_STRING (cstr uri)), (''diagnostics'', LSP_JSON_ARRAY (map diagnostic_value (entries_of diag)))]) ?p"
    using object_two [OF plain_keys(10) spells_cstr [of uri] plain_keys(11) d] by (simp only:)
  from notification_spelled [OF this plainD [OF plain_keys(17)]]
  show ?thesis unfolding publish_diagnostics_def published_value_def by (auto simp: Let_def entries_of_def)
qed

section \<open>Answers\<close>

lemma plain_words: "plain ''capabilities''" "plain ''textDocumentSync''" "plain ''openClose''" "plain ''change''" "plain ''save''" "plain ''includeText''"
  "plain ''completionProvider''" "plain ''triggerCharacters''" "plain ''@''" "plain ''#''" "plain ''<''" "plain ''hoverProvider''"
  "plain ''serverInfo''" "plain ''name''" "plain ''json-gen-c-lsp''" "plain ''version''" "plain ''0.9.0''"
  by (simp_all add: plain_def lsp_escape_char_def)

lemma object_three:
  assumes "plain a" "spells va ta" "plain b" "spells vb tb" "plain c" "spells vc tc"
  shows "spells (LSP_JSON_OBJECT [(a, va), (b, vb), (c, vc)]) (''{'' @ json_member a ta @ '','' @ json_member b tb @ '','' @ json_member c tc @ ''}'')"
  using spells_object [OF member_more [OF assms(1,2) member_more [OF assms(3,4) member_one [OF assms(5,6)]]]] by simp

lemma array_of: "(\<And>x. x \<in> set xs \<Longrightarrow> spells (f x) (g x)) \<Longrightarrow> spells (LSP_JSON_ARRAY (map f xs)) (''['' @ comma_list (map g xs) @ '']'')"
  by (intro array_spelled) (auto simp: list_all2_map1 list_all2_map2 list.rel_refl_strong)

lemma capabilities_spelled: "\<exists>v. spells v capabilities_text"
proof -
  have one: "show_int 1 = ''1''" by (simp add: show_int_def dec_str_def numeral_str.simps digit_char_def char_of_def bit_0)
  have "spells (LSP_JSON_NUMBER 1) ''1''" using small_number [of 1] one by simp
  note t = this spells_true
  have a: "spells (LSP_JSON_ARRAY (map LSP_JSON_STRING [''@'', ''#'', ''<''])) (''['' @ comma_list (map json_name [''@'', ''#'', ''<'']) @ '']'')"
    by (intro array_of) (auto intro!: spells_name plain_words)
  show ?thesis unfolding capabilities_text_def
    by (rule exI, rule object_two [OF plain_words(1) object_three [OF plain_words(2) object_three [OF plain_words(3) t(2) plain_words(4) t(1)
          plain_words(5) object_one [OF plain_words(6) t(2)]] plain_words(7) object_one [OF plain_words(8) a] plain_words(12) t(2)]
        plain_words(13) object_two [OF plain_words(14) spells_name [OF plain_words(15)] plain_words(16) spells_name [OF plain_words(17)]]])
qed

lemma completions_spelled:
  "\<exists>v. spells v (''['' @ comma_list (map (completion_text 14) keyword_completions
       @ map (completion_text 21) type_completions @ map (completion_text 15) annotation_completions) @ '']'')"
proof -
  have c: "spells (LSP_JSON_OBJECT [(''label'', LSP_JSON_STRING (cstr l)), (''kind'', LSP_JSON_NUMBER k)]) (completion_text k l)"
    if "\<bar>k\<bar> \<le> 2 ^ 31" for k l
    unfolding completion_text_def by (intro object_two plain_keys spells_cstr small_number that)
  let ?f = "\<lambda>(k, l). LSP_JSON_OBJECT [(''label'', LSP_JSON_STRING (cstr l)), (''kind'', LSP_JSON_NUMBER k)]"
  let ?xs = "map (Pair 14) keyword_completions @ map (Pair 21) type_completions @ map (Pair 15) annotation_completions"
  have "spells (LSP_JSON_ARRAY (map ?f ?xs)) (''['' @ comma_list (map (\<lambda>(k, l). completion_text k l) ?xs) @ '']'')"
    by (rule array_of) (auto intro!: c)
  then show ?thesis by (auto simp: comp_def)
qed

definition error_value :: "int \<Rightarrow> lsp_json_value" where
  "error_value n = LSP_JSON_OBJECT [(''jsonrpc'', LSP_JSON_STRING ''2.0''), (''id'', LSP_JSON_NUMBER n),
     (''error'', LSP_JSON_OBJECT [(''code'', LSP_JSON_NUMBER (-32601)), (''message'', LSP_JSON_STRING ''Method not found'')])]"

lemma unknown_method_spelled:
  assumes "LONG_MIN \<le> n" "n \<le> LONG_MAX"
  shows "spells (error_value n) (unknown_method_response n)"
proof -
  have "show_int (-32601) = ''-32601''" by (simp add: show_int_def dec_str_def numeral_str.simps digit_char_def char_of_def bit_0)
  then have "spells (LSP_JSON_NUMBER (-32601)) ''-32601''" using small_number [of "-32601"] by simp
  note e = object_two [OF plain_keys(12) this plain_keys(9) spells_name [OF plain_keys(14)]]
  show ?thesis unfolding error_value_def unknown_method_response_def
    by (intro object_three plain_names plain_keys spells_name spells_number assms e)
qed

lemma null_spelled: "spells LSP_JSON_NULL ''null''"
  by (rule spells_null)

text \<open>A reply to a request: its number, and a result or an error.\<close>

definition replies :: "int \<Rightarrow> bool \<Rightarrow> string \<Rightarrow> bool" where
  "replies n ok body \<longleftrightarrow> (\<exists>v. lsp_json_parse body = Some (if ok then response_value n v else error_value n))"

lemma response_replies: "spells v t \<Longrightarrow> LONG_MIN \<le> n \<Longrightarrow> n \<le> LONG_MAX \<Longrightarrow> replies n True (lsp_jsonrpc_response n t)"
  unfolding replies_def using response_spelled [THEN parse_text] by auto

lemma error_replies: "LONG_MIN \<le> n \<Longrightarrow> n \<le> LONG_MAX \<Longrightarrow> replies n False (unknown_method_response n)"
  unfolding replies_def using unknown_method_spelled [THEN parse_text] by auto

definition method_of :: "lsp_json_value \<Rightarrow> string option" where
  "method_of msg = lsp_json_string (lsp_json_get (Some msg) ''method'')"

definition supported_requests :: "string set" where
  "supported_requests = {''initialize'', ''shutdown'', ''textDocument/completion'', ''textDocument/hover''}"

definition notifications :: "string set" where
  "notifications = {''initialized'', ''exit'', ''textDocument/didOpen'', ''textDocument/didChange'', ''textDocument/didSave'',
     ''textDocument/didClose''}"

text \<open>The requests that are answered whatever their number is.\<close>

definition always_answered :: "string set" where
  "always_answered = {''initialize'', ''shutdown''}"

lemma request_handled:
  assumes "method_of msg = Some m" and "lsp_json_get (Some msg) ''id'' = Some (LSP_JSON_NUMBER i)" and "m \<notin> notifications"
  shows "handle_message n env out st msg =
     (if m = ''initialize'' then Inr (lsp_jsonrpc_write out (build_initialize_response i), st\<lparr>ls_initialized := True\<rparr>)
      else if m = ''shutdown'' then Inr (lsp_jsonrpc_write out (lsp_jsonrpc_response i ''null''), st\<lparr>ls_shutdown_requested := True\<rparr>)
      else if i < 0 then Inr (out, st)
      else if m = ''textDocument/completion'' then Inr (lsp_jsonrpc_write out (build_completion_response i), st)
      else if m = ''textDocument/hover'' then Inr (lsp_jsonrpc_write out (build_hover_response i), st)
      else Inr (lsp_jsonrpc_write out (unknown_method_response i), st))"
  using assms by (simp add: handle_message_def Let_def method_of_def notifications_def)

lemma request_answered:
  assumes "method_of msg = Some m" and "lsp_json_get (Some msg) ''id'' = Some (LSP_JSON_NUMBER i)" and "LONG_MIN \<le> i" "i \<le> LONG_MAX"
    and "m \<notin> notifications" and "0 \<le> i \<or> m \<in> always_answered"
  shows "\<exists>body st'. handle_message n env out st msg = Inr (lsp_jsonrpc_write out body, st') \<and> replies i (m \<in> supported_requests) body
    \<and> ls_doc st' = ls_doc st"
proof -
  obtain caps comp where v: "spells caps capabilities_text" "spells comp (''['' @ comma_list (map (completion_text 14) keyword_completions
       @ map (completion_text 21) type_completions @ map (completion_text 15) annotation_completions) @ '']'')"
    using capabilities_spelled completions_spelled by blast
  note i = assms(3,4)
  note r = response_replies [OF v(1) i] response_replies [OF v(2) i] response_replies [OF null_spelled i] error_replies [OF i]
  note h = request_handled [OF assms(1,2,5), of n env out st]
  consider "m = ''initialize''" | "m = ''shutdown''" | "m = ''textDocument/completion''" "0 \<le> i" | "m = ''textDocument/hover''" "0 \<le> i"
    | "m \<notin> supported_requests" "0 \<le> i"
    using assms(6) by (auto simp: supported_requests_def always_answered_def)
  then show ?thesis
  proof cases
    case 5
    then show ?thesis using r(4) by (intro exI [of _ "unknown_method_response i"]) (simp add: h supported_requests_def)
  qed (insert r, simp_all add: h supported_requests_def build_initialize_response_def build_completion_response_def
    build_hover_response_def, blast+)
qed


section \<open>Sessions\<close>

lemma update_document_flags:
  "update_document n env out st u c = Inr (out', st') \<Longrightarrow> ls_doc st' = \<lparr>ld_uri = u, ld_content = c\<rparr>
    \<and> ls_shutdown_requested st' = ls_shutdown_requested st \<and> ls_should_exit st' = ls_should_exit st"
  by (auto simp: update_document_def Let_def bindE_Inr_conv)

lemma handle_message_flags:
  assumes "handle_message n env out st msg = Inr (out', st')"
  shows "ls_shutdown_requested st' = (ls_shutdown_requested st \<or> method_of msg = Some ''shutdown'')
    \<and> ls_should_exit st' = (ls_should_exit st \<or> method_of msg = Some ''exit'')"
proof (cases "method_of msg")
  case None
  then show ?thesis using assms by (simp add: handle_message_def method_of_def Let_def)
next
  case (Some m)
  consider "m \<in> {''initialize'', ''initialized'', ''shutdown'', ''exit''}" | "m \<notin> {''initialize'', ''initialized'', ''shutdown'', ''exit''}" by blast
  then show ?thesis
  proof cases
    case 1
    then show ?thesis using assms Some by (auto simp: handle_message_def method_of_def Let_def)
  next
    case 2
    have "ls_shutdown_requested st' = ls_shutdown_requested st \<and> ls_should_exit st' = ls_should_exit st"
      using assms Some 2 unfolding handle_message_def Let_def method_of_def
      by (simp split: if_split_asm option.split_asm) (auto dest: update_document_flags)
    then show ?thesis using 2 Some by auto
  qed
qed

lemma server_loop_sent:
  assumes "list_all2 spells msgs texts" and "list_all (\<lambda>t. length t < 2 ^ 31) texts"
    and "server_loop n env st out (concat (map (lsp_jsonrpc_write []) texts)) = Inr (st', out')"
  shows "ls_shutdown_requested st' \<longleftrightarrow> ls_shutdown_requested st \<or>
    \<not> ls_should_exit st \<and> Some ''shutdown'' \<in> set (takeWhile (\<lambda>m. m \<noteq> Some ''exit'') (map method_of msgs))"
  using assms
proof (induction msgs texts arbitrary: st out rule: list_all2_induct)
  case Nil
  have "read_headers (-1) [] = (-1, [])" by (simp add: read_headers.simps fgets_def)
  then show ?case using Nil(2) by (auto simp: server_loop.simps [of n env st out "[]"] lsp_jsonrpc_read_def split: if_splits)
next
  case (Cons v msgs t texts)
  have t: "t \<noteq> []" "length t < 2 ^ 31" using spells_start [OF Cons(1)] Cons(4) by (auto simp: value_start_def)
  show ?case
  proof (cases "ls_should_exit st")
    case True
    then show ?thesis using Cons(5) by (simp add: server_loop.simps [of n env st])
  next
    case False
    then obtain out1 st1 where h: "handle_message n env out st v = Inr (out1, st1)"
      and r: "server_loop n env st1 out1 (concat (map (lsp_jsonrpc_write []) texts)) = Inr (st', out')"
      using Cons(5) read_written [OF t] parse_text [OF Cons(1)]
      by (auto simp: server_loop.simps [of n env st out "lsp_jsonrpc_write [] t @ _"] bindE_Inr_conv)
    show ?thesis using Cons(3) [OF _ r] Cons(4) handle_message_flags [OF h] False by auto
  qed
qed

lemma session_exit_code:
  assumes "list_all2 spells msgs texts" and "list_all (\<lambda>t. length t < 2 ^ 31) texts"
    and "lsp_server_run n env (concat (map (lsp_jsonrpc_write []) texts)) = Inr (code, out)"
  shows "code = (if Some ''shutdown'' \<in> set (takeWhile (\<lambda>m. m \<noteq> Some ''exit'') (map method_of msgs)) then 0 else 1)"
proof -
  obtain st where "server_loop n env lsp_state_init [] (concat (map (lsp_jsonrpc_write []) texts)) = Inr (st, out)"
    and "code = (if ls_shutdown_requested st then 0 else 1)"
    using assms(3) by (auto simp: lsp_server_run_def bindE_Inr_conv)
  then show ?thesis using server_loop_sent [OF assms(1,2)] by (auto simp: lsp_state_init_def)
qed

text \<open>The server runs to an end on every input.\<close>

lemma validate_document_fuel:
  assumes "finite (readable env)" and "card (readable env) < n"
  shows "validate_document n env out st \<noteq> Inl Stack_overflow"
proof -
  have "struct_parser_parse n env (struct_parser_new\<lparr>sp_name := f, sp_diag := d\<rparr>) c \<noteq> Inl Stack_overflow" for f d c
    using struct_parser_parse_no_overflow [OF assms(1)] assms(2) by (simp add: struct_parser_new_def)
  then show ?thesis by (auto simp: validate_document_def Let_def bindE_def split: option.split sum.split)
qed

lemma handle_message_fuel:
  assumes "finite (readable env)" and "card (readable env) < n"
  shows "handle_message n env out st msg \<noteq> Inl Stack_overflow"
proof -
  have "update_document n env out st u c \<noteq> Inl Stack_overflow" for u c
    using validate_document_fuel [OF assms] by (auto simp: update_document_def Let_def bindE_def split: sum.split)
  then show ?thesis unfolding handle_message_def Let_def by (simp split: option.split)
qed

lemma server_loop_fuel:
  assumes "finite (readable env)" and "card (readable env) < n"
  shows "server_loop n env st out s \<noteq> Inl Stack_overflow"
proof (induction s arbitrary: st out rule: length_induct)
  case (1 s)
  obtain b r where r: "lsp_jsonrpc_read s = (b, r)" by (cases "lsp_jsonrpc_read s")
  have less: "server_loop n env st1 out1 r \<noteq> Inl Stack_overflow" if "b = Some body" for body st1 out1
    using 1 lsp_jsonrpc_read_length [of s body r] r that by blast
  show ?case
  proof (cases b)
    case (Some body)
    then show ?thesis using r less [OF Some] handle_message_fuel [OF assms, of out st]
      by (auto simp: server_loop.simps [of n env st out s] bindE_def split: option.split sum.split)
  qed (use r in \<open>simp add: server_loop.simps [of n env st out s]\<close>)
qed

section \<open>The open document\<close>

text \<open>
  What a client says about its documents, and the documents it has open then. A save may carry the text that was saved, which the
  server asks for; any other message is not about documents.
\<close>

datatype doc_event = Open string string | Change string string | Save string "string option" | Close string | Unrelated


text \<open>A message that says so; its other members are free.\<close>

definition names_document :: "lsp_json_value \<Rightarrow> string \<Rightarrow> bool" where
  "names_document msg u \<longleftrightarrow>
     lsp_json_string (lsp_json_get (lsp_json_get (lsp_json_get (Some msg) ''params'') ''textDocument'') ''uri'') = Some u"

fun notifies :: "lsp_json_value \<Rightarrow> doc_event \<Rightarrow> bool" where
  "notifies msg (Open u t) \<longleftrightarrow> method_of msg = Some ''textDocument/didOpen'' \<and> names_document msg u
     \<and> lsp_json_string (lsp_json_get (lsp_json_get (lsp_json_get (Some msg) ''params'') ''textDocument'') ''text'') = Some t"
| "notifies msg (Change u t) \<longleftrightarrow> method_of msg = Some ''textDocument/didChange'' \<and> names_document msg u
     \<and> last_change (lsp_json_get (lsp_json_get (Some msg) ''params'') ''contentChanges'') = Some t"
| "notifies msg (Save u s) \<longleftrightarrow> method_of msg = Some ''textDocument/didSave'' \<and> names_document msg u
     \<and> lsp_json_string (lsp_json_get (lsp_json_get (Some msg) ''params'') ''text'') = s"
| "notifies msg (Close u) \<longleftrightarrow> method_of msg = Some ''textDocument/didClose'' \<and> names_document msg u"
| "notifies msg Unrelated \<longleftrightarrow> method_of msg \<notin> Some ` {''textDocument/didOpen'', ''textDocument/didChange'', ''textDocument/didSave'',
     ''textDocument/didClose''}"



definition docs_of :: "lsp_state \<Rightarrow> string \<Rightarrow> string option" where
  "docs_of st u = (if ld_uri (ls_doc st) = Some u then ld_content (ls_doc st) else None)"


lemma names_document_params: "names_document msg u \<Longrightarrow> lsp_json_get (Some msg) ''params'' \<noteq> None"
  by (cases "lsp_json_get (Some msg) ''params''") (auto simp: names_document_def)




section \<open>Properties\<close>

text \<open>
  C9. A message that is framed and sent is the message that is read: the text of any value (numbers of a long, strings without
  NUL, any white space) comes out of the stream whole, what follows it stays there, and parsing it gives the value back.
\<close>

theorem lsp_message_parses:
  assumes "spells v t" and "delimited rest" and "t @ rest \<noteq> []" and "length (t @ rest) < 2 ^ 31"
  shows "\<exists>body. lsp_jsonrpc_read (lsp_jsonrpc_write [] (t @ rest) @ later) = (Some body, later) \<and> lsp_json_parse body = Some v"
  using read_written [OF assms(3,4)] parse_spelled(1) [OF assms(1,2)] by (simp add: lsp_json_parse_def)

lemma lsp_message_parses_witness:
  "\<exists>body. lsp_jsonrpc_read (lsp_jsonrpc_write [] ''[ null ] '' @ ''x'') = (Some body, ''x'')
    \<and> lsp_json_parse body = Some (LSP_JSON_ARRAY [LSP_JSON_NULL])"
proof -
  have "white '' ''" by (simp add: white_def is_space_def)
  then have "spells (LSP_JSON_ARRAY [LSP_JSON_NULL]) ''[ null ]''"
    using spells_array [OF items_one [OF _ spells_null, of "'' ''" "'' ''"]] by simp
  moreover have "delimited '' ''" by (simp add: delimited_def is_space_def)
  ultimately show ?thesis using lsp_message_parses [of "LSP_JSON_ARRAY [LSP_JSON_NULL]" "''[ null ]''" "'' ''" "''x''"] by simp
qed

text \<open>
  C10. Every request is answered: for a message with a number that is not negative as its id and a method that is no notification the
  server writes exactly one message, which is JSON-RPC with the same id, carries a result when the method is one the server knows
  and an error when it is not, and the document is left alone. With a negative id this holds for initialize and shutdown only; any other
  such message is dropped without an answer.
\<close>

theorem lsp_request_answered:
  assumes "method_of msg = Some m" and "lsp_json_get (Some msg) ''id'' = Some (LSP_JSON_NUMBER i)" and "LONG_MIN \<le> i" "i \<le> LONG_MAX"
    and "m \<notin> notifications"
  shows "if 0 \<le> i \<or> m \<in> always_answered
    then \<exists>body st'. handle_message n env out st msg = Inr (lsp_jsonrpc_write out body, st') \<and> replies i (m \<in> supported_requests) body
      \<and> ls_doc st' = ls_doc st
    else handle_message n env out st msg = Inr (out, st)"
proof (cases "0 \<le> i \<or> m \<in> always_answered")
  case True
  then show ?thesis using request_answered [OF assms] by simp
next
  case False
  then have "handle_message n env out st msg = Inr (out, st)"
    using request_handled [OF assms(1,2,5), of n env out st] by (simp add: always_answered_def)
  then show ?thesis using False by simp
qed

definition demo_request :: lsp_json_value where
  "demo_request = LSP_JSON_OBJECT [(''id'', LSP_JSON_NUMBER 7), (''method'', LSP_JSON_STRING ''textDocument/definition'')]"

lemma lsp_request_answered_witness:
  "\<exists>body st'. handle_message 1 \<lparr>pe_files = Map.empty, pe_color = False\<rparr> [] lsp_state_init demo_request = Inr (lsp_jsonrpc_write [] body, st')
    \<and> replies 7 False body"
  using lsp_request_answered [of demo_request "''textDocument/definition''" 7 1 "\<lparr>pe_files = Map.empty, pe_color = False\<rparr>" "[]" lsp_state_init]
  by (auto simp: demo_request_def method_of_def notifications_def supported_requests_def LONG_MIN_def LONG_MAX_def cstr_def)


definition one_open :: "string \<Rightarrow> string \<Rightarrow> lsp_state" where
  "one_open u t = lsp_state_init\<lparr>ls_doc := \<lparr>ld_uri = Some u, ld_content = Some t\<rparr>\<rparr>"



text \<open>
  C13. The diagnostics that are published are those of the parser: one JSON object per entry, in their order, with zero-based
  position, severity and message, and the client that parses the message gets them back.
\<close>

theorem lsp_diagnostics_published:
  assumes "\<forall>e \<in> set (entries_of diag). small (de_line e) \<and> small (de_col e)"
  shows "\<exists>body. publish_diagnostics out uri diag = lsp_jsonrpc_write out body
    \<and> lsp_json_parse body = Some (published_value uri (entries_of diag))"
  using publish_spelled [OF assms] parse_text by blast

definition demo_diag :: diag_engine where
  "demo_diag = (diag_engine_new ''f'' None)\<lparr>dg_entries := [\<lparr>de_severity = DIAG_WARNING, de_line = 3, de_col = 0, de_message = ''m''\<rparr>]\<rparr>"

lemma lsp_diagnostics_published_witness:
  "\<exists>body. publish_diagnostics [] ''u'' (Some demo_diag) = lsp_jsonrpc_write [] body
    \<and> lsp_json_parse body = Some (published_value ''u'' (dg_entries demo_diag))"
  using lsp_diagnostics_published [of "Some demo_diag" "[]" "''u''"] by (simp add: demo_diag_def entries_of_def small_def)

text \<open>
  C12. What the semantic checks find never reaches the client: a document that is well formed is published as free of errors,
  whether the validation of its schema accepts it or not.
\<close>

theorem lsp_semantic_errors_unpublished:
  assumes "layout_ok lay" and "lexemes lay = concat (map item_lexemes ds)" and "decls_ok (uri_to_path uri) Map.empty ds"
    and "ls_doc st = \<lparr>ld_uri = Some uri, ld_content = Some (render lay)\<rparr>"
  shows "\<exists>p. struct_parser_parse (Suc n) env (struct_parser_new\<lparr>sp_name := uri_to_path uri\<rparr>) (render lay) = Inr (0, p)
    \<and> fst (struct_parser_validate_to False False p) = (if schema_valid (decls_schema (uri_to_path uri) Map.empty ds) then 0 else -1)
    \<and> validate_document (Suc n) env out st = Inr (publish_diagnostics out uri None)"
proof -
  obtain p where p: "struct_parser_parse (Suc n) env (struct_parser_new\<lparr>sp_name := uri_to_path uri\<rparr>) (render lay) = Inr (0, p)"
    "unplaced (schema_of p) = decls_schema (uri_to_path uri) Map.empty ds" "tables_ok p"
    using file_read [OF assms(1-3)] by blast
  obtain q where "struct_parser_parse (Suc n) env (struct_parser_new\<lparr>sp_name := uri_to_path uri,
      sp_diag := Some (diag_engine_new (uri_to_path uri) (Some (render lay)))\<rparr>) (render lay) = Inr (0, q)"
    "sp_diag q = Some (diag_engine_new (uri_to_path uri) (Some (render lay)))"
    using file_read_quietly [OF assms(1-3)] by blast
  then have "validate_document (Suc n) env out st = Inr (publish_diagnostics out uri None)"
    using assms(4) by (simp add: validate_document_def Let_def publish_diagnostics_def diag_engine_new_def)
  then show ?thesis using p validate_decides [OF p(3)] schema_valid_unplaced [of "schema_of p"] by auto
qed

definition dangling_decls :: "item_decl list" where
  "dangling_decls = [D_struct ''P'' [demo_decl_field (Named ''Q'') ''x'']]"

definition dangling_layout :: layout where
  "dangling_layout = (map (\<lambda>l. ('' '', l)) (concat (map item_lexemes dangling_decls)), [])"

lemma dangling_ok: "layout_ok dangling_layout" "lexemes dangling_layout = concat (map item_lexemes dangling_decls)"
  "decls_ok f Map.empty dangling_decls"
proof -
  show "layout_ok dangling_layout" by code_simp
  show "lexemes dangling_layout = concat (map item_lexemes dangling_decls)" by (simp add: lexemes_def dangling_layout_def o_def)
  show "decls_ok f Map.empty dangling_decls"
    by (simp add: dangling_decls_def demo_decl_field_def ident_def is_ident_start_def is_ident_char_def is_digit_def field_decl_ok_def
        field_of_def reserved_def type_in_def lookup_primitive_type_def type_table_def sstr_compare_c_eq_0 cstr_def)
qed

lemma lsp_semantic_errors_unpublished_witness:
  "\<exists>p. struct_parser_parse 1 \<lparr>pe_files = Map.empty, pe_color = False\<rparr> (struct_parser_new\<lparr>sp_name := ''f''\<rparr>) (render dangling_layout) = Inr (0, p)
    \<and> fst (struct_parser_validate_to False False p) = -1
    \<and> validate_document 1 \<lparr>pe_files = Map.empty, pe_color = False\<rparr> [] (one_open ''f'' (render dangling_layout)) = Inr (publish_diagnostics [] ''f'' None)"
proof -
  have "\<not> schema_valid (decls_schema ''f'' Map.empty dangling_decls)"
    by (simp add: dangling_decls_def demo_decl_field_def schema_valid_def field_valid_def is_struct_in_def is_oneof_in_def field_of_def
        type_in_def lookup_primitive_type_def type_table_def sstr_compare_c_eq_0 cstr_def c_type_name_def)
  moreover have "uri_to_path ''f'' = ''f''" by (simp add: uri_to_path_def cstr_def)
  ultimately show ?thesis
    using lsp_semantic_errors_unpublished [of dangling_layout dangling_decls "''f''" "one_open ''f'' (render dangling_layout)" 0
        "\<lparr>pe_files = Map.empty, pe_color = False\<rparr>" "[]"] dangling_ok(1,2) dangling_ok(3) [of "''f''"]
    by (simp add: one_open_def)
qed

text \<open>
  C14. The server runs to an end on every input, whatever the messages are, when finitely many paths can be read.
\<close>

theorem lsp_server_terminates:
  assumes "finite (readable env)" and "card (readable env) < n"
  shows "lsp_server_run n env input \<noteq> Inl Stack_overflow"
  using server_loop_fuel [OF assms, of lsp_state_init "[]" input] by (auto simp: lsp_server_run_def bindE_def split: sum.splits)

lemma lsp_server_terminates_witness:
  "lsp_server_run 1 \<lparr>pe_files = Map.empty, pe_color = False\<rparr> (lsp_jsonrpc_write [] ''{}'') \<noteq> Inl Stack_overflow"
proof -
  have "readable \<lparr>pe_files = Map.empty, pe_color = False\<rparr> = {}" by (simp add: readable_def)
  then show ?thesis using lsp_server_terminates [of "\<lparr>pe_files = Map.empty, pe_color = False\<rparr>" 1] by simp
qed

text \<open>
  C15. The exit code is 0 when a shutdown request came before the first exit, and 1 otherwise, for any sequence of messages.
\<close>

theorem lsp_exit_code:
  assumes "list_all2 spells msgs texts" and "list_all (\<lambda>t. length t < 2 ^ 31) texts"
    and "lsp_server_run n env (concat (map (lsp_jsonrpc_write []) texts)) = Inr (code, out)"
  shows "code = (if Some ''shutdown'' \<in> set (takeWhile (\<lambda>m. m \<noteq> Some ''exit'') (map method_of msgs)) then 0 else 1)"
  by (rule session_exit_code [OF assms])

definition bare_message :: "string \<Rightarrow> lsp_json_value" where
  "bare_message m = LSP_JSON_OBJECT [(''method'', LSP_JSON_STRING m)]"

definition bare_text :: "string \<Rightarrow> string" where
  "bare_text m = ''{'' @ json_member ''method'' (json_name m) @ ''}''"

lemma bare_spelled: "plain m \<Longrightarrow> spells (bare_message m) (bare_text m)"
  unfolding bare_message_def bare_text_def by (intro object_one plain_names spells_name)

lemma lsp_exit_code_witness:
  "\<exists>code out. lsp_server_run 1 \<lparr>pe_files = Map.empty, pe_color = False\<rparr> (lsp_jsonrpc_write [] (bare_text ''shutdown'')) = Inr (code, out)
    \<and> code = 0"
proof -
  let ?t = "bare_text ''shutdown''" and ?env = "\<lparr>pe_files = Map.empty, pe_color = False\<rparr>"
  have "plain ''shutdown''" by (simp add: plain_def lsp_escape_char_def)
  note s = bare_spelled [OF this]
  have t: "?t \<noteq> []" "length ?t < 2 ^ 31" by (simp_all add: bare_text_def json_member_def json_name_def)
  have "read_headers (-1) [] = (-1, [])" by (simp add: read_headers.simps fgets_def)
  then have e: "lsp_jsonrpc_read [] = (None, [])" by (simp add: lsp_jsonrpc_read_def)
  have "\<exists>code out. lsp_server_run 1 ?env (lsp_jsonrpc_write [] ?t) = Inr (code, out)"
    using read_written [OF t, of "[]"] parse_text [OF s] e
    by (simp add: lsp_server_run_def server_loop.simps lsp_state_init_def handle_message_def bare_message_def cstr_def)
  then obtain code out where r: "lsp_server_run 1 ?env (lsp_jsonrpc_write [] ?t) = Inr (code, out)" by blast
  have "code = 0"
    using lsp_exit_code [of "[bare_message ''shutdown'']" "[?t]" 1 ?env code out] r s t(2)
    by (simp add: method_of_def bare_message_def cstr_def)
  then show ?thesis using r by blast
qed

text \<open>
  A change is applied to the open document, whichever document it names: with two documents open, the edits of the first are
  taken for the second.
\<close>

theorem lsp_change_ignores_uri:
  assumes "notifies msg (Change u t)" and "ls_doc st = \<lparr>ld_uri = Some u', ld_content = c\<rparr>"
    and "handle_message n env out st msg = Inr (out', st')"
  shows "ls_doc st' = \<lparr>ld_uri = Some u', ld_content = Some t\<rparr> \<and> docs_of st' u' = Some t"
  using assms names_document_params [of msg u]
  by (auto simp: handle_message_def method_of_def Let_def docs_of_def dest!: update_document_flags)

end
