(* ===== verification/Spec2Isabelle.thy ===== *)
theory Spec2Isabelle
  imports HashMap Sstr SstrText SstrPrintf SchemaTypes OffsetTable DepOrder Diag CompatCheck Msgpack Cbor JsonArray
    SchemaValidate JsonUnmarshal JsonReadBack BinaryCodecs StructOps LspServer
begin

text \<open>
  A verification development for json-gen-c.

  \<^bold>\<open>The program.\<close> json-gen-c reads a schema (structs, enums and oneofs, in files that include one another) and writes C code
  that converts these structs to JSON, MessagePack and CBOR and back. Its parts, all under src/src, are: the utilities (hash map,
  string buffer, diagnostics: utils/), the schema parser with its validation (struct/struct_parse.c), a checker that compares two
  schemas (compat/compat_check.c), a language server for schema files (lsp/), the generators (gencode/gencode.c,
  gencode_msgpack.c, gencode_cbor.c), and the runtimes that are copied into the generated code (gencode/codes/json_parse.c,
  msgpack_codec.c, cbor_codec.c). The schema parser fills hash maps with definitions; the validation, the checker, the language
  server and the generators read them; the generated code calls the runtimes, which find the fields of a struct in a hash
  table that the generator has laid out.

  \<^bold>\<open>Conventions.\<close> The machine is LP64, little-endian and in two's complement. A C integer is a word of its width (\<open>u8\<close>, \<open>u32\<close>, \<open>u64\<close>)
  where its bits or its wrap-around matter, and an \<open>int\<close> within the bounds of its type (\<open>c_int_min\<close>, \<open>c_int_max\<close>, \<open>c_cast\<close>) otherwise. Text
  is a \<open>string\<close>, a binary buffer a list of \<open>u8\<close>. Undefined behaviour and foreign failures are values of \<open>fault\<close>: an operation that can
  meet them returns \<open>fault + 'a\<close>. A loop that may not end returns an \<open>option\<close>, and \<open>None\<close> is not returning; every use of that comes
  with a theorem that says when it is \<open>Some\<close>. Allocation succeeds. Constants that only the C compiler knows (offsets, sizes, values
  of enumerators) are looked up by their C expression in \<open>je_const\<close>. Floating point numbers are an abstract type with the conversions of
  the C library as parameters.

  \<^bold>\<open>Utilities.\<close>
  \<^item> Prelude: words, faults and \<open>bindE\<close>, shared lemmas on lists and words. TableSpec and SinkSpec: the interfaces \<open>symbol_table\<close> (a table is a
    finite map) and \<open>byte_sink\<close> (an append extends the content), with the facts their clients use.
  \<^item> Hash (utils/hash.c) and HashMap (utils/hash_map.c): the chained map with its resizing; it refines the finite map for every run
    of operations, and interprets \<open>symbol_table\<close>.
  \<^item> Sstr (the memory side of utils/sstr.c): short, long and borrowed strings with their cells and growth; every run of operations stays
    in its memory and holds the appended bytes; it interprets \<open>byte_sink\<close>. SstrText (comparison, numbers, JSON escaping) and SstrPrintf (the
    formatter) show what their output is.
  \<^item> CLib: \<open>strtol\<close>, \<open>strtoul\<close> and character classes in the C locale. Diag (utils/diag.c, error_codes.c): collecting and printing diagnostics.

  \<^bold>\<open>Schema side.\<close>
  \<^item> SchemaTypes (struct/struct_parse.h): \<open>struct_field\<close>, \<open>struct_container\<close>, \<open>enum_container\<close>, \<open>oneof_container\<close> as records.
  \<^item> SchemaLex (tokens), SchemaField (field declarations), SchemaParse (definitions and the recovery from errors), SchemaFile (whole files;
    which names are defined), all from struct/struct_parse.c. The files that includes can read are the parameter \<open>pe_files\<close>.
  \<^item> SchemaPrint: what it means that a text spells a list of declarations, and that the parser reads these declarations back.
    SchemaInclude: includes end; a depth of one more than the number of readable paths is enough.
  \<^item> SchemaValidate (\<open>struct_parser_validate_to\<close>): the validation decides an abstract well-formedness of the schema, from the text on.
  \<^item> CompatCheck (compat/compat_check.c): the verdict is an abstract relation between the two schemas (\<open>shapes_kept\<close>: the kinds of the types
    are kept). It is weaker than the promise of the documentation (\<open>types_kept\<close>), and a theorem shows the difference.
  \<^item> LspJson (lsp/lsp_jsonrpc.c) and LspServer (lsp/lsp_server.c): framing and JSON; documents, answers, published diagnostics and the loop.

  \<^bold>\<open>Generators and runtimes.\<close> The generators print C text. The model of an emitted function is the function that the text defines, with
  the schema declaration it is printed for as an argument: \<open>pg_struct\<close> and \<open>pg_oneof\<close> of the record \<open>program\<close> hold the declarations. A branch of the
  generator is a branch on the declaration, and a call of \<open>T_f\<close> in the text is a call of the model with the name \<open>T\<close>.
  \<^item> DepOrder: \<open>gencode_source\<close> fills the field table and emits definitions after those they need; it does not return when filling the table does
    not. OffsetTable: \<open>gen_code_offset_map\<close>, when it ends, and the lookup in json_parse.c, which finds the row of a field.
  \<^item> JsonLex, JsonScalar, JsonArray (json_parse.c): tokens, scalars, arrays of scalars, and their writers; \<open>token_reader\<close> and \<open>element_codec\<close> are
    the contracts of a reader of one token and of a writer with its reader.
  \<^item> JsonStore: the memory that structs live in. A block is bytes; a byte is indeterminate, zero, or a part of an object that was
    stored whole; a string is stored as its contents. JsonClear (\<open>json_clear_*\<close>), JsonStruct (the table-driven reader of structs, oneofs, maps and
    arrays), JsonObject and JsonText (texts of objects are read), JsonFrame (nothing else is written), JsonUnmarshal (the entry points).
  \<^item> JsonMarshal (the writers that gencode.c emits), JsonRoundtrip: what is written is the text of the members. JsonReadBack: the reader, with the
    table that the generator fills from the same declarations (\<open>generated\<close>) and the layout of a compiler (\<open>well_placed\<close>), restores every field.
  \<^item> StructOps (gencode.c): \<open>T_init\<close>, \<open>T_clear\<close>, \<open>T_copy\<close> and \<open>T_move\<close>.
  \<^item> Reader (the cursor and big-endian integers of both binary runtimes, with the contract \<open>codec\<close>), Msgpack (msgpack_codec.c), Cbor
    (cbor_codec.c): every pack function with its unpack function, and skipping.
  \<^item> BinaryGen (gencode_msgpack.c, gencode_cbor.c): the emitted pack, unpack, init and clear functions, over the record \<open>codec_ops\<close> of the
    runtime that they call. BinarySpec: what a struct in memory holds (\<open>scalar_is\<close>, \<open>value_is\<close>, \<open>fields_are\<close>) and the locale \<open>struct_codec\<close>, the
    contract of a runtime. BinaryMemory: a calculus for statements that read a buffer and write cells. BinaryRoundtrip: packing and unpacking, once
    for every runtime. BinaryCodecs: both runtimes keep the contract, and the theorems for each.

  \<^bold>\<open>Bounds.\<close> Recursion that C leaves to the data is bounded by a number, and each theorem says which one is enough: the depth of includes
  (more than the number of readable paths), the reader of structs (the number of tokens), the writers (the depth to which structs
  nest, \<open>mdepth\<close> for the binary ones), the unpack functions (the length of the message), \<open>mp_unpack_skip\<close> (one more than the bytes left). \<open>cb_unpack_skip\<close> and
  two loops of the JSON reader do not end on some inputs, which is proved for every bound. The parser of the language server needs no
  bound: it is a total function, and its termination proof shows that every step leaves less text. Two counters are natural numbers where
  the source has \<open>int\<close>: the size and bucket count of a hash map, and the capacity and length of an array that the JSON reader grows. The model
  is faithful below 2 ^ 30 entries or elements; that a loop does not end is meant within these bounds, as the counter overflows first.

  \<^bold>\<open>Not modelled.\<close>
  \<^item> gencode_cpp.c, gencode_go.c and gencode_rust.c print source of other languages for libraries that are not in the repository.
  \<^item> The text of the emitted headers and preambles (declarations of structs, prototypes, macros), which a C compiler reads; the
    layout of a struct is the parameter \<open>je_const\<close>. \<open>well_placed\<close> (JSON) and \<open>compiled\<close> (binary) state what a compiler guarantees of it; \<open>compiled\<close>
    and \<open>generated\<close> also say that the keys of a struct differ, which is up to the author of the schema.
  \<^item> main/main.c, utils/io.c and utils/getopt_compat.c: options, files and processes. utils/json_context.c: a lookup behind a mutex that nothing
    calls.
  \<^item> \<open>sstr_parse_double\<close> (it is \<open>strtod\<close>) and \<open>sstr_version\<close>; failures of \<open>malloc\<close>, except where the resize of the hash map takes it as an argument;
    debugging output; the release of memory that nothing reads again.
  \<^item> The examples and fuzzers, which call the generated code.
\<close>

end
